(* ===== verification/Prelude.thy ===== *)
theory Prelude
  imports Main "HOL-Library.Word" "HOL-Library.Monad_Syntax"
begin

text \<open>
  Shared vocabulary of the development.

  The C integers are machine words of their width; \<open>size_t\<close> has 32 bits on every
  target of the SDK (Cortex-M and the ARM secure elements).  A C object that is reached
  through a pointer is the list of its cells, and a pointer into the middle of an object is
  the corresponding suffix.  Every access goes through \<open>ld\<close>, \<open>st\<close>,
  \<open>ld_n\<close> or \<open>st_n\<close>, which return \<^term>\<open>None\<close> for an access outside the
  object: \<^term>\<open>None\<close> is undefined behaviour, so a theorem that an operation returns
  \<^term>\<open>Some\<close> of something is in particular a memory-safety theorem.
\<close>

unbundle bit_operations_syntax

section \<open>Types\<close>

type_synonym u8 = "8 word"
type_synonym u16 = "16 word"
type_synonym u32 = "32 word"
type_synonym u64 = "64 word"
type_synonym size_t = "32 word"
type_synonym bytes = "u8 list"

text \<open>The collections the component theories add to: access rules of the memory
  primitives, facts that move word arithmetic to \<^typ>\<open>nat\<close>, and definitions
  that a component unfolds wherever it is used.\<close>

named_theorems mem_simps \<open>rewrite rules for in-range memory accesses\<close>
named_theorems unat_simps \<open>word arithmetic read as natural numbers\<close>

section \<open>Memory accesses\<close>

definition ld :: "'a list \<Rightarrow> nat \<Rightarrow> 'a option" where
  "ld m i = (if i < length m then Some (m ! i) else None)"

definition st :: "'a list \<Rightarrow> nat \<Rightarrow> 'a \<Rightarrow> 'a list option" where
  "st m i x = (if i < length m then Some (m[i := x]) else None)"

definition ld_n :: "'a list \<Rightarrow> nat \<Rightarrow> nat \<Rightarrow> 'a list option" where
  "ld_n m i n = (if i + n \<le> length m then Some (take n (drop i m)) else None)"

definition st_n :: "'a list \<Rightarrow> nat \<Rightarrow> 'a list \<Rightarrow> 'a list option" where
  "st_n m i xs =
     (if i + length xs \<le> length m
      then Some (take i m @ xs @ drop (i + length xs) m) else None)"

text \<open>\<open>memset(p + i, c, n)\<close> and \<open>memmove(d + i, s + j, n)\<close>.\<close>

definition memset_n :: "'a list \<Rightarrow> nat \<Rightarrow> 'a \<Rightarrow> nat \<Rightarrow> 'a list option" where
  "memset_n m i c n = st_n m i (replicate n c)"

definition memcpy_n :: "'a list \<Rightarrow> nat \<Rightarrow> 'a list \<Rightarrow> nat \<Rightarrow> nat \<Rightarrow> 'a list option" where
  "memcpy_n d i s j n = do { xs \<leftarrow> ld_n s j n; st_n d i xs }"

lemma ld_in [mem_simps]: "i < length m \<Longrightarrow> ld m i = Some (m ! i)"
  by (simp add: ld_def)

lemma ld_Some_iff: "ld m i = Some x \<longleftrightarrow> i < length m \<and> x = m ! i"
  by (auto simp: ld_def)

lemma ld_None_iff [simp]: "ld m i = None \<longleftrightarrow> length m \<le> i"
  by (auto simp: ld_def)

lemma st_in [mem_simps]: "i < length m \<Longrightarrow> st m i x = Some (m[i := x])"
  by (simp add: st_def)

lemma st_None_iff [simp]: "st m i x = None \<longleftrightarrow> length m \<le> i"
  by (auto simp: st_def)

lemma ld_n_in [mem_simps]: "i + n \<le> length m \<Longrightarrow> ld_n m i n = Some (take n (drop i m))"
  by (simp add: ld_n_def)

lemma st_n_in [mem_simps]:
  "i + length xs \<le> length m \<Longrightarrow> st_n m i xs = Some (take i m @ xs @ drop (i + length xs) m)"
  by (simp add: st_n_def)

lemma memset_n_in [mem_simps]:
  "i + n \<le> length m \<Longrightarrow>
     memset_n m i c n = Some (take i m @ replicate n c @ drop (i + n) m)"
  by (simp add: memset_n_def st_n_def)

lemma memcpy_n_in [mem_simps]:
  "\<lbrakk>j + n \<le> length s; i + n \<le> length d\<rbrakk> \<Longrightarrow>
     memcpy_n d i s j n = Some (take i d @ take n (drop j s) @ drop (i + n) d)"
  by (simp add: memcpy_n_def mem_simps)

lemma ld_drop: "ld (drop k m) i = ld m (k + i)"
  by (auto simp: ld_def)

lemma length_st: "st m i x = Some m' \<Longrightarrow> length m' = length m"
  by (auto simp: st_def split: if_splits)

lemma length_st_n: "st_n m i xs = Some m' \<Longrightarrow> length m' = length m"
  by (auto simp: st_n_def split: if_splits)

text \<open>Runs of consecutive single-cell accesses are block accesses.\<close>

lemma take_drop_Suc:
  "i + Suc n \<le> length m \<Longrightarrow> take (Suc n) (drop i m) = m ! i # take n (drop (Suc i) m)"
  by (metis Cons_nth_drop_Suc add_Suc_right less_add_Suc1 order_less_le_trans take_Suc_Cons)

primrec st_seq :: "'a list \<Rightarrow> nat \<Rightarrow> 'a list \<Rightarrow> 'a list" where
  "st_seq m i [] = m"
| "st_seq m i (x # xs) = st_seq (m[i := x]) (Suc i) xs"

lemma st_seq_eq:
  "i + length xs \<le> length m \<Longrightarrow> st_seq m i xs = take i m @ xs @ drop (i + length xs) m"
proof (induction xs arbitrary: m i)
  case (Cons x xs)
  then have "st_seq m i (x # xs)
      = take (Suc i) (m[i := x]) @ xs @ drop (Suc i + length xs) (m[i := x])"
    by simp
  also have "take (Suc i) (m[i := x]) = take i m @ [x]"
    using Cons.prems by (simp add: take_Suc_conv_app_nth)
  finally show ?case by simp
qed simp

section \<open>Words as natural numbers\<close>

lemma unat_add_no_wrap [unat_simps]:
  fixes a b :: "'a::len word"
  shows "unat a + unat b < 2 ^ LENGTH('a) \<Longrightarrow> unat (a + b) = unat a + unat b"
  by (simp add: unat_word_ariths)

lemma unat_sub_no_wrap [unat_simps]:
  fixes a b :: "'a::len word"
  shows "b \<le> a \<Longrightarrow> unat (a - b) = unat a - unat b"
  by (rule unat_sub)

lemma unat_bound32: "unat (a :: 32 word) < 4294967296"
  using unsigned_less [of a, where ?'a = nat] by simp

lemma unat_bound16: "unat (a :: 16 word) < 65536"
  using unsigned_less [of a, where ?'a = nat] by simp

lemma unat_bound8: "unat (a :: 8 word) < 256"
  using unsigned_less [of a, where ?'a = nat] by simp

lemma unat_bound64: "unat (a :: 64 word) < 18446744073709551616"
  using unsigned_less [of a, where ?'a = nat] by simp

text \<open>The conversion of a \<open>size_t\<close> to \<open>int\<close>.\<close>

lemma signed_size: "n < 2 ^ 31 \<Longrightarrow> signed (word_of_nat n :: size_t) = int n"
  by (simp add: signed_of_nat signed_take_bit_int_eq_self)

lemma sint_small: "unat w < 2 ^ 31 \<Longrightarrow> sint (w :: u32) = int (unat w)"
  using signed_size [of "unat w"] by simp

text \<open>A sum that fits the object is computed without wrap-around.\<close>

lemma unat_add_le:
  fixes a b :: "'a::len word"
  assumes "unat a + unat b \<le> n" and "n < 2 ^ LENGTH('a)"
  shows "unat (a + b) = unat a + unat b"
  using assms by (intro unat_add_no_wrap) simp

text \<open>Narrowing and widening again is the identity on values that fit.\<close>

lemma ucast_back:
  fixes v :: "'a::len word"
  assumes "unat v < 2 ^ LENGTH('b::len)"
  shows "ucast (ucast v :: 'b word) = v"
  using assms
  by (simp add: word_unat_eq_iff unsigned_ucast_eq unsigned_take_bit_eq take_bit_nat_eq_self)

text \<open>The top bit of a byte and what is left without it.\<close>

lemma byte_flag_iff:
  fixes b :: u8
  shows "(b AND 0x80 \<noteq> 0) = (128 \<le> unat b)" and "unat (b AND 0x7F) = unat b mod 128"
proof -
  have "(b AND 2 ^ 7 \<noteq> 0) = bit b 7"
    by (simp only: and_exp_eq_0_iff_not_bit not_not)
  also have "bit b 7 = bit (unat b) 7"
    by (simp add: bit_unsigned_iff)
  also have "\<dots> = odd (unat b div 128)"
    by (simp add: bit_iff_odd)
  also have "\<dots> = (128 \<le> unat b)"
    using unat_bound8 [of b] by (cases "128 \<le> unat b") (auto simp: div_nat_eqI [where q = 1])
  finally show "(b AND 0x80 \<noteq> 0) = (128 \<le> unat b)" by simp
  have "b AND mask 7 = take_bit 7 b"
    by (simp only: take_bit_eq_mask)
  then have "unat (b AND 0x7F) = unat (take_bit 7 b)"
    by (simp add: mask_eq_exp_minus_1)
  also have "\<dots> = unat b mod 128"
    unfolding unsigned_take_bit_eq by (simp add: take_bit_eq_mod)
  finally show "unat (b AND 0x7F) = unat b mod 128" .
qed

section \<open>Byte sequences as numbers\<close>

fun be_val :: "bytes \<Rightarrow> nat" where
  "be_val [] = 0"
| "be_val (b # bs) = unat b * 256 ^ length bs + be_val bs"

fun le_val :: "bytes \<Rightarrow> nat" where
  "le_val [] = 0"
| "le_val (b # bs) = unat b + 256 * le_val bs"

lemma be_val_append: "be_val (xs @ ys) = be_val xs * 256 ^ length ys + be_val ys"
  by (induction xs) (auto simp: power_add algebra_simps)

lemma le_val_be_val: "le_val bs = be_val (rev bs)"
  by (induction bs) (auto simp: be_val_append)

lemma be_val_bound: "be_val bs < 256 ^ length bs"
proof (induction bs)
  case (Cons b bs)
  have "unat b * 256 ^ length bs + be_val bs < (unat b + 1) * 256 ^ length bs"
    using Cons.IH by simp
  also have "\<dots> \<le> 256 * 256 ^ length bs"
    using unat_bound8 [of b] by (intro mult_right_mono) simp_all
  finally show ?case by simp
qed simp

lemma be_val_replicate_0 [simp]: "be_val (replicate n 0) = 0"
  by (induction n) auto

text \<open>One step of the Horner scheme behind the shift-and-or readers.\<close>

lemma unat_or_byte:
  fixes w :: "'a::len word"
  assumes "unat w * 256 + 255 < 2 ^ LENGTH('a)"
  shows "unat (push_bit 8 w OR ucast (b :: u8)) = unat w * 256 + unat b"
proof -
  have len: "8 \<le> LENGTH('a)"
  proof (rule ccontr)
    assume "\<not> 8 \<le> LENGTH('a)"
    then have "(2::nat) ^ LENGTH('a) \<le> 2 ^ 7" by (intro power_increasing) auto
    with assms show False by simp
  qed
  have disj: "push_bit 8 w AND ucast b = 0"
    by (rule bit_word_eqI) (auto simp: bit_simps dest: bit_imp_le_length)
  have sh: "unat (push_bit 8 w) = unat w * 256"
    using assms by (subst unsigned_push_bit_eq) (simp add: push_bit_eq_mult take_bit_nat_eq_self)
  have uc: "unat (ucast b :: 'a word) = unat b"
  proof -
    have "unat b < 2 ^ LENGTH('a)"
      using unat_bound8 [of b] power_increasing [OF len, of "2::nat"] by simp
    then show ?thesis by (simp add: unsigned_ucast_eq take_bit_nat_eq_self)
  qed
  have "push_bit 8 w OR ucast b = push_bit 8 w + ucast b"
    using disj by (simp add: disjunctive_add_eq_or)
  moreover have "unat (push_bit 8 w + ucast b) = unat w * 256 + unat b"
    using assms unat_bound8 [of b] by (subst unat_add_no_wrap) (simp_all add: sh uc)
  ultimately show ?thesis by simp
qed

text \<open>The byte strings of a word, most significant byte first and last.\<close>

primrec be_bytes :: "nat \<Rightarrow> 'a::len word \<Rightarrow> bytes" where
  "be_bytes 0 v = []"
| "be_bytes (Suc n) v = be_bytes n (drop_bit 8 v) @ [ucast v]"

definition le_bytes :: "nat \<Rightarrow> 'a::len word \<Rightarrow> bytes" where
  "le_bytes n v = rev (be_bytes n v)"

definition horner :: "bytes \<Rightarrow> 'a::len word" where
  "horner bs = foldl (\<lambda>w b. push_bit 8 w OR ucast b) 0 bs"

lemma length_be_bytes [simp]: "length (be_bytes n v) = n"
  by (induction n arbitrary: v) auto

lemma length_le_bytes [simp]: "length (le_bytes n v) = n"
  by (simp add: le_bytes_def)

lemma unat_to_u8: "unat (ucast (v :: 'a::len word) :: u8) = unat v mod 256"
  by (simp add: unsigned_ucast_eq take_bit_eq_mod)

lemma unat_drop_bit: "unat (drop_bit k (v :: 'a::len word)) = unat v div 2 ^ k"
  by (subst unat_drop_bit_eq) (simp add: drop_bit_eq_div)

lemma be_val_be_bytes: "be_val (be_bytes n v) = unat v mod 256 ^ n"
proof (induction n arbitrary: v)
  case (Suc n)
  have "be_val (be_bytes (Suc n) v) = (unat v div 256) mod 256 ^ n * 256 + unat v mod 256"
    by (simp add: be_val_append Suc.IH unat_to_u8 unat_drop_bit)
  also have "\<dots> = unat v mod 256 ^ Suc n"
    by (simp add: mod_mult2_eq)
  finally show ?case .
qed simp

lemma unat_horner: "8 * length bs \<le> LENGTH('a) \<Longrightarrow> unat (horner bs :: 'a::len word) = be_val bs"
proof (induction bs rule: rev_induct)
  case (snoc b bs)
  have IH: "unat (horner bs :: 'a word) = be_val bs"
    using snoc by simp
  have "(be_val bs + 1) * 256 \<le> 256 ^ length bs * 256"
    using be_val_bound [of bs] by (intro mult_right_mono) simp_all
  also have "\<dots> = 2 ^ (8 * length (bs @ [b]))"
    by (simp add: power_mult power_add)
  also have "\<dots> \<le> 2 ^ LENGTH('a)"
    using snoc.prems by (intro power_increasing) simp_all
  finally have "unat (horner bs :: 'a word) * 256 + 255 < 2 ^ LENGTH('a)"
    by (simp add: IH)
  then show ?case
    using IH unat_or_byte [of "horner bs :: 'a word" b]
    by (simp add: horner_def be_val_append)
qed (simp add: horner_def)

lemma be_val_inj:
  "\<lbrakk>length xs = length ys; be_val xs = be_val ys\<rbrakk> \<Longrightarrow> xs = ys"
proof (induction xs ys rule: list_induct2)
  case (Cons x xs y ys)
  have bx: "be_val xs < 256 ^ length xs" and by': "be_val ys < 256 ^ length xs"
    using be_val_bound [of xs] be_val_bound [of ys] Cons.hyps by simp_all
  have eq: "unat x * 256 ^ length xs + be_val xs = unat y * 256 ^ length xs + be_val ys"
    using Cons.prems Cons.hyps by simp
  have "unat x = (unat x * 256 ^ length xs + be_val xs) div 256 ^ length xs"
    using bx by simp
  also have "\<dots> = unat y"
    using by' by (simp add: eq)
  finally have "x = y" by (simp add: word_unat_eq_iff)
  with eq Cons.IH show ?case by simp
qed simp

section \<open>Refinement\<close>

text \<open>A sequence of operations, and the contract that makes a concrete step function implement an
  abstract one: every abstract step that is defined is matched by a concrete step with the same
  result.  The components with an abstract specification interpret this locale.\<close>

primrec run :: "('op \<Rightarrow> 's \<Rightarrow> ('r \<times> 's) option) \<Rightarrow> 'op list \<Rightarrow> 's \<Rightarrow> ('r list \<times> 's) option" where
  "run step [] s = Some ([], s)"
| "run step (op # ops) s = do {
     (r, s) \<leftarrow> step op s;
     (rs, s) \<leftarrow> run step ops s;
     Some (r # rs, s) }"

locale refinement =
  fixes rep :: "'s \<Rightarrow> 'a \<Rightarrow> bool"
    and step :: "'op \<Rightarrow> 's \<Rightarrow> ('r \<times> 's) option"
    and astep :: "'op \<Rightarrow> 'a \<Rightarrow> ('r \<times> 'a) option"
  assumes sim: "rep s a \<Longrightarrow> astep op a = Some (r, a') \<Longrightarrow> \<exists>s'. step op s = Some (r, s') \<and> rep s' a'"
begin

lemma run_sim:
  "rep s a \<Longrightarrow> run astep ops a = Some (rs, a') \<Longrightarrow> \<exists>s'. run step ops s = Some (rs, s') \<and> rep s' a'"
proof (induction ops arbitrary: s a rs)
  case (Cons op ops)
  then obtain r b rs' where "astep op a = Some (r, b)" "run astep ops b = Some (rs', a')" "rs = r # rs'"
    by (auto split: bind_splits)
  then show ?case
    using sim [OF Cons.prems(1)] Cons.IH by fastforce
qed simp

end

end
