(* ===== verification/Endian.thy ===== *)
theory Endian
  imports Prelude
begin

text \<open>
  The integer readers and writers of \<^verbatim>\<open>lib_standard_app/read.c\<close> and
  \<^verbatim>\<open>lib_standard_app/write.c\<close>, and the \<^verbatim>\<open>U2BE\<close> family of
  \<^verbatim>\<open>include/os_utils.h\<close>.  Each definition is the shift-and-or expression of the
  source, with \<open>size_t\<close> index arithmetic that wraps at 32 bits and every byte access
  checked.  The locale \<open>int_codec\<close> is the contract their clients rely on; every pair of
  reader and writer is an interpretation of it.
\<close>

section \<open>Readers\<close>

definition read_u16_be :: "bytes \<Rightarrow> size_t \<Rightarrow> u16 option" where
  "read_u16_be ptr offset = do {
     b0 \<leftarrow> ld ptr (unat (offset + 0));
     b1 \<leftarrow> ld ptr (unat (offset + 1));
     Some (push_bit 8 (ucast b0) OR push_bit 0 (ucast b1)) }"

definition read_u32_be :: "bytes \<Rightarrow> size_t \<Rightarrow> u32 option" where
  "read_u32_be ptr offset = do {
     b0 \<leftarrow> ld ptr (unat (offset + 0));
     b1 \<leftarrow> ld ptr (unat (offset + 1));
     b2 \<leftarrow> ld ptr (unat (offset + 2));
     b3 \<leftarrow> ld ptr (unat (offset + 3));
     Some (push_bit 24 (ucast b0) OR push_bit 16 (ucast b1) OR
           push_bit 8 (ucast b2) OR push_bit 0 (ucast b3)) }"

definition read_u64_be :: "bytes \<Rightarrow> size_t \<Rightarrow> u64 option" where
  "read_u64_be ptr offset = do {
     b0 \<leftarrow> ld ptr (unat (offset + 0));
     b1 \<leftarrow> ld ptr (unat (offset + 1));
     b2 \<leftarrow> ld ptr (unat (offset + 2));
     b3 \<leftarrow> ld ptr (unat (offset + 3));
     b4 \<leftarrow> ld ptr (unat (offset + 4));
     b5 \<leftarrow> ld ptr (unat (offset + 5));
     b6 \<leftarrow> ld ptr (unat (offset + 6));
     b7 \<leftarrow> ld ptr (unat (offset + 7));
     Some (push_bit 56 (ucast b0) OR push_bit 48 (ucast b1) OR
           push_bit 40 (ucast b2) OR push_bit 32 (ucast b3) OR
           push_bit 24 (ucast b4) OR push_bit 16 (ucast b5) OR
           push_bit 8 (ucast b6) OR push_bit 0 (ucast b7)) }"

definition read_u16_le :: "bytes \<Rightarrow> size_t \<Rightarrow> u16 option" where
  "read_u16_le ptr offset = do {
     b0 \<leftarrow> ld ptr (unat (offset + 0));
     b1 \<leftarrow> ld ptr (unat (offset + 1));
     Some (push_bit 0 (ucast b0) OR push_bit 8 (ucast b1)) }"

definition read_u32_le :: "bytes \<Rightarrow> size_t \<Rightarrow> u32 option" where
  "read_u32_le ptr offset = do {
     b0 \<leftarrow> ld ptr (unat (offset + 0));
     b1 \<leftarrow> ld ptr (unat (offset + 1));
     b2 \<leftarrow> ld ptr (unat (offset + 2));
     b3 \<leftarrow> ld ptr (unat (offset + 3));
     Some (push_bit 0 (ucast b0) OR push_bit 8 (ucast b1) OR
           push_bit 16 (ucast b2) OR push_bit 24 (ucast b3)) }"

definition read_u64_le :: "bytes \<Rightarrow> size_t \<Rightarrow> u64 option" where
  "read_u64_le ptr offset = do {
     b0 \<leftarrow> ld ptr (unat (offset + 0));
     b1 \<leftarrow> ld ptr (unat (offset + 1));
     b2 \<leftarrow> ld ptr (unat (offset + 2));
     b3 \<leftarrow> ld ptr (unat (offset + 3));
     b4 \<leftarrow> ld ptr (unat (offset + 4));
     b5 \<leftarrow> ld ptr (unat (offset + 5));
     b6 \<leftarrow> ld ptr (unat (offset + 6));
     b7 \<leftarrow> ld ptr (unat (offset + 7));
     Some (push_bit 0 (ucast b0) OR push_bit 8 (ucast b1) OR
           push_bit 16 (ucast b2) OR push_bit 24 (ucast b3) OR
           push_bit 32 (ucast b4) OR push_bit 40 (ucast b5) OR
           push_bit 48 (ucast b6) OR push_bit 56 (ucast b7)) }"

section \<open>Writers\<close>

definition write_u16_be :: "bytes \<Rightarrow> size_t \<Rightarrow> u16 \<Rightarrow> bytes option" where
  "write_u16_be ptr offset value = do {
     ptr \<leftarrow> st ptr (unat (offset + 0)) (ucast (drop_bit 8 value));
     st ptr (unat (offset + 1)) (ucast (drop_bit 0 value)) }"

definition write_u32_be :: "bytes \<Rightarrow> size_t \<Rightarrow> u32 \<Rightarrow> bytes option" where
  "write_u32_be ptr offset value = do {
     ptr \<leftarrow> st ptr (unat (offset + 0)) (ucast (drop_bit 24 value));
     ptr \<leftarrow> st ptr (unat (offset + 1)) (ucast (drop_bit 16 value));
     ptr \<leftarrow> st ptr (unat (offset + 2)) (ucast (drop_bit 8 value));
     st ptr (unat (offset + 3)) (ucast (drop_bit 0 value)) }"

definition write_u64_be :: "bytes \<Rightarrow> size_t \<Rightarrow> u64 \<Rightarrow> bytes option" where
  "write_u64_be ptr offset value = do {
     ptr \<leftarrow> st ptr (unat (offset + 0)) (ucast (drop_bit 56 value));
     ptr \<leftarrow> st ptr (unat (offset + 1)) (ucast (drop_bit 48 value));
     ptr \<leftarrow> st ptr (unat (offset + 2)) (ucast (drop_bit 40 value));
     ptr \<leftarrow> st ptr (unat (offset + 3)) (ucast (drop_bit 32 value));
     ptr \<leftarrow> st ptr (unat (offset + 4)) (ucast (drop_bit 24 value));
     ptr \<leftarrow> st ptr (unat (offset + 5)) (ucast (drop_bit 16 value));
     ptr \<leftarrow> st ptr (unat (offset + 6)) (ucast (drop_bit 8 value));
     st ptr (unat (offset + 7)) (ucast (drop_bit 0 value)) }"

definition write_u16_le :: "bytes \<Rightarrow> size_t \<Rightarrow> u16 \<Rightarrow> bytes option" where
  "write_u16_le ptr offset value = do {
     ptr \<leftarrow> st ptr (unat (offset + 0)) (ucast (drop_bit 0 value));
     st ptr (unat (offset + 1)) (ucast (drop_bit 8 value)) }"

definition write_u32_le :: "bytes \<Rightarrow> size_t \<Rightarrow> u32 \<Rightarrow> bytes option" where
  "write_u32_le ptr offset value = do {
     ptr \<leftarrow> st ptr (unat (offset + 0)) (ucast (drop_bit 0 value));
     ptr \<leftarrow> st ptr (unat (offset + 1)) (ucast (drop_bit 8 value));
     ptr \<leftarrow> st ptr (unat (offset + 2)) (ucast (drop_bit 16 value));
     st ptr (unat (offset + 3)) (ucast (drop_bit 24 value)) }"

definition write_u64_le :: "bytes \<Rightarrow> size_t \<Rightarrow> u64 \<Rightarrow> bytes option" where
  "write_u64_le ptr offset value = do {
     ptr \<leftarrow> st ptr (unat (offset + 0)) (ucast (drop_bit 0 value));
     ptr \<leftarrow> st ptr (unat (offset + 1)) (ucast (drop_bit 8 value));
     ptr \<leftarrow> st ptr (unat (offset + 2)) (ucast (drop_bit 16 value));
     ptr \<leftarrow> st ptr (unat (offset + 3)) (ucast (drop_bit 24 value));
     ptr \<leftarrow> st ptr (unat (offset + 4)) (ucast (drop_bit 32 value));
     ptr \<leftarrow> st ptr (unat (offset + 5)) (ucast (drop_bit 40 value));
     ptr \<leftarrow> st ptr (unat (offset + 6)) (ucast (drop_bit 48 value));
     st ptr (unat (offset + 7)) (ucast (drop_bit 56 value)) }"

section \<open>The inline helpers of os\_utils.h\<close>

definition U2BE :: "bytes \<Rightarrow> size_t \<Rightarrow> u16 option" where
  "U2BE buf off = do {
     b0 \<leftarrow> ld buf (unat off);
     b1 \<leftarrow> ld buf (unat (off + 1));
     Some (push_bit 8 (ucast b0) OR ucast b1) }"

definition U4BE :: "bytes \<Rightarrow> size_t \<Rightarrow> u32 option" where
  "U4BE buf off = do {
     b0 \<leftarrow> ld buf (unat off);
     b1 \<leftarrow> ld buf (unat (off + 1));
     b2 \<leftarrow> ld buf (unat (off + 2));
     b3 \<leftarrow> ld buf (unat (off + 3));
     Some (push_bit 24 (ucast b0) OR push_bit 16 (ucast b1) OR push_bit 8 (ucast b2) OR ucast b3) }"

definition U8BE :: "bytes \<Rightarrow> size_t \<Rightarrow> u64 option" where
  "U8BE buf off = do {
     b0 \<leftarrow> ld buf (unat off);
     b1 \<leftarrow> ld buf (unat (off + 1));
     b2 \<leftarrow> ld buf (unat (off + 2));
     b3 \<leftarrow> ld buf (unat (off + 3));
     b4 \<leftarrow> ld buf (unat (off + 4));
     b5 \<leftarrow> ld buf (unat (off + 5));
     b6 \<leftarrow> ld buf (unat (off + 6));
     b7 \<leftarrow> ld buf (unat (off + 7));
     Some (push_bit (8 * 7) (ucast b0) OR push_bit (8 * 6) (ucast b1) OR
           push_bit (8 * 5) (ucast b2) OR push_bit (8 * 4) (ucast b3) OR
           push_bit (8 * 3) (ucast b4) OR push_bit (8 * 2) (ucast b5) OR
           push_bit (8 * 1) (ucast b6) OR ucast b7) }"

text \<open>\<^verbatim>\<open>U2BE_ENCODE\<close> takes its value as a 32-bit integer and keeps the low half.\<close>

definition U2BE_ENCODE :: "bytes \<Rightarrow> size_t \<Rightarrow> u32 \<Rightarrow> bytes option" where
  "U2BE_ENCODE buf off value = do {
     buf \<leftarrow> st buf (unat (off + 0)) (ucast (drop_bit 8 value AND 0xFF));
     st buf (unat (off + 1)) (ucast (value AND 0xFF)) }"

definition U4BE_ENCODE :: "bytes \<Rightarrow> size_t \<Rightarrow> u32 \<Rightarrow> bytes option" where
  "U4BE_ENCODE buf off value = do {
     buf \<leftarrow> st buf (unat (off + 0)) (ucast (drop_bit 24 value AND 0xFF));
     buf \<leftarrow> st buf (unat (off + 1)) (ucast (drop_bit 16 value AND 0xFF));
     buf \<leftarrow> st buf (unat (off + 2)) (ucast (drop_bit 8 value AND 0xFF));
     st buf (unat (off + 3)) (ucast (value AND 0xFF)) }"

definition U2LE :: "bytes \<Rightarrow> size_t \<Rightarrow> u16 option" where
  "U2LE buf off = do {
     b1 \<leftarrow> ld buf (unat (off + 1));
     b0 \<leftarrow> ld buf (unat off);
     Some (push_bit 8 (ucast b1) OR ucast b0) }"

definition U4LE :: "bytes \<Rightarrow> size_t \<Rightarrow> u32 option" where
  "U4LE buf off = do {
     b3 \<leftarrow> ld buf (unat (off + 3));
     b2 \<leftarrow> ld buf (unat (off + 2));
     b1 \<leftarrow> ld buf (unat (off + 1));
     b0 \<leftarrow> ld buf (unat off);
     Some (push_bit 24 (ucast b3) OR push_bit 16 (ucast b2) OR push_bit 8 (ucast b1) OR ucast b0) }"

definition U4LE_ENCODE :: "bytes \<Rightarrow> size_t \<Rightarrow> u32 \<Rightarrow> bytes option" where
  "U4LE_ENCODE buf off v = do {
     buf \<leftarrow> st buf (unat (off + 3)) (ucast (drop_bit 24 v AND 0xFF));
     buf \<leftarrow> st buf (unat (off + 2)) (ucast (drop_bit 16 v AND 0xFF));
     buf \<leftarrow> st buf (unat (off + 1)) (ucast (drop_bit 8 v AND 0xFF));
     st buf (unat (off + 0)) (ucast (v AND 0xFF)) }"

section \<open>The contract of a reader and a writer\<close>

text \<open>A range of \<open>n\<close> cells from \<open>off\<close> lies inside the object, and the object is
  addressable with a \<open>size_t\<close>.\<close>

definition in_range :: "'a list \<Rightarrow> size_t \<Rightarrow> nat \<Rightarrow> bool" where
  "in_range p off n \<longleftrightarrow> unat off + n \<le> length p \<and> length p \<le> 2 ^ 32"

lemma in_range_index:
  assumes "in_range p off n" and "k < n" and "n \<le> 16"
  shows "unat (off + of_nat k) = unat off + k" and "unat off + k < length p"
proof -
  have "unat off + k < 2 ^ 32" and k: "k < 2 ^ 32"
    using assms by (auto simp: in_range_def)
  moreover from k have "unat (of_nat k :: size_t) = k"
    by (simp add: unat_of_nat)
  ultimately show "unat (off + of_nat k) = unat off + k"
    by (subst unat_add_no_wrap) simp_all
  show "unat off + k < length p"
    using assms by (simp add: in_range_def)
qed

lemma in_range_mono: "in_range p off n \<Longrightarrow> m \<le> n \<Longrightarrow> in_range p off m"
  by (simp add: in_range_def)

locale int_codec =
  fixes rd :: "bytes \<Rightarrow> size_t \<Rightarrow> 'w::len word option"
    and wr :: "bytes \<Rightarrow> size_t \<Rightarrow> 'w word \<Rightarrow> bytes option"
    and width :: nat
    and enc :: "'w word \<Rightarrow> bytes"
    and val :: "bytes \<Rightarrow> nat"
  assumes width_bounds: "0 < width" "width \<le> 8"
    and length_enc: "length (enc v) = width"
    and val_enc: "val (enc v) = unat v"
    and val_inj: "\<lbrakk>length xs = width; length ys = width; val xs = val ys\<rbrakk> \<Longrightarrow> xs = ys"
    and rd_val: "in_range p off width \<Longrightarrow>
       \<exists>v. rd p off = Some v \<and> unat v = val (take width (drop (unat off) p))"
    and wr_eq: "in_range p off width \<Longrightarrow>
       wr p off v = Some (take (unat off) p @ enc v @ drop (unat off + width) p)"
begin

lemma rd_enc:
  assumes "in_range p off width" and "rd p off = Some v"
  shows "take width (drop (unat off) p) = enc v"
proof -
  have "unat v = val (take width (drop (unat off) p))"
    using rd_val [OF assms(1)] assms(2) by auto
  then show ?thesis
    using assms(1) by (intro val_inj) (auto simp: in_range_def length_enc val_enc)
qed

lemma rd_ex: "in_range p off width \<Longrightarrow> \<exists>v. rd p off = Some v"
  using rd_val by blast

lemma rd_of_enc:
  assumes "in_range p off width" and "take width (drop (unat off) p) = enc v"
  shows "rd p off = Some v"
  using rd_val [OF assms(1)] assms(2) by (auto simp: val_enc word_unat_eq_iff)

lemma rd_wr:
  assumes r: "in_range p off width"
  shows "\<exists>p'. wr p off v = Some p' \<and> length p' = length p \<and> rd p' off = Some v"
proof -
  let ?p' = "take (unat off) p @ enc v @ drop (unat off + width) p"
  have l: "length ?p' = length p"
    using r by (simp add: in_range_def length_enc)
  moreover have "rd ?p' off = Some v"
  proof (rule rd_of_enc)
    show "in_range ?p' off width" using r l by (simp add: in_range_def)
    show "take width (drop (unat off) ?p') = enc v"
      using r by (simp add: in_range_def length_enc)
  qed
  ultimately show ?thesis using wr_eq [OF r] by blast
qed

lemma wr_rd:
  assumes r: "in_range p off width" and "rd p off = Some v"
  shows "wr p off v = Some p"
proof -
  have "take (unat off) p @ enc v @ drop (unat off + width) p
      = take (unat off) p @ take width (drop (unat off) p) @ drop width (drop (unat off) p)"
    using rd_enc [OF assms] by (simp add: add.commute)
  also have "\<dots> = p"
    by (simp only: append_take_drop_id)
  finally have "take (unat off) p @ enc v @ drop (unat off + width) p = p" .
  then show ?thesis using wr_eq [OF r] by simp
qed

text \<open>A tag byte followed by an encoded integer, as the varint format has it.\<close>

lemma st_wr:
  assumes r: "in_range p off (Suc width)"
  shows "Option.bind (st p (unat off) x) (\<lambda>q. wr q (off + 1) v)
       = Some (take (unat off) p @ (x # enc v) @ drop (unat off + Suc width) p)"
proof -
  let ?q = "p[unat off := x]"
  have i: "unat off < length p" and "unat off + 1 < 2 ^ 32"
    using r width_bounds by (auto simp: in_range_def)
  then have o1: "unat (off + 1) = unat off + 1"
    by (subst unat_add_no_wrap) simp_all
  then have "in_range ?q (off + 1) width"
    using r by (simp add: in_range_def)
  then have "wr ?q (off + 1) v
      = Some (take (unat off + 1) ?q @ enc v @ drop (unat off + 1 + width) ?q)"
    using wr_eq o1 by simp
  moreover have "take (unat off + 1) ?q = take (unat off) p @ [x]"
    using i by (simp add: take_Suc_conv_app_nth)
  ultimately show ?thesis using i by (simp add: st_in)
qed

lemma rd_tagged:
  assumes "length (x # enc v @ rest) \<le> 2 ^ 32"
  shows "rd (x # enc v @ rest) 1 = Some v"
  by (rule rd_of_enc) (use assms width_bounds in \<open>simp_all add: in_range_def length_enc\<close>)

lemma wr_frame:
  assumes "in_range p off width" and "wr p off v = Some p'" and "i < length p"
    and "i < unat off \<or> unat off + width \<le> i"
  shows "p' ! i = p ! i"
  using assms wr_eq [OF assms(1), of v]
  by (auto simp: in_range_def nth_append length_enc)

end

section \<open>Interpretations\<close>

lemma index_facts:
  assumes "in_range p off n" and "n \<le> 16"
  shows "0 < n \<Longrightarrow> unat (off + 0) = unat off \<and> unat off < length p"
    and "1 < n \<Longrightarrow> unat (off + 1) = unat off + 1 \<and> unat off + 1 < length p"
    and "2 < n \<Longrightarrow> unat (off + 2) = unat off + 2 \<and> unat off + 2 < length p"
    and "3 < n \<Longrightarrow> unat (off + 3) = unat off + 3 \<and> unat off + 3 < length p"
    and "4 < n \<Longrightarrow> unat (off + 4) = unat off + 4 \<and> unat off + 4 < length p"
    and "5 < n \<Longrightarrow> unat (off + 5) = unat off + 5 \<and> unat off + 5 < length p"
    and "6 < n \<Longrightarrow> unat (off + 6) = unat off + 6 \<and> unat off + 6 < length p"
    and "7 < n \<Longrightarrow> unat (off + 7) = unat off + 7 \<and> unat off + 7 < length p"
  using in_range_index [OF assms(1) _ assms(2), of 0] in_range_index [OF assms(1) _ assms(2), of 1]
    in_range_index [OF assms(1) _ assms(2), of 2] in_range_index [OF assms(1) _ assms(2), of 3]
    in_range_index [OF assms(1) _ assms(2), of 4] in_range_index [OF assms(1) _ assms(2), of 5]
    in_range_index [OF assms(1) _ assms(2), of 6] in_range_index [OF assms(1) _ assms(2), of 7]
  by simp_all

lemma take2_drop: "i + 2 \<le> length p \<Longrightarrow> take 2 (drop i p) = [p ! i, p ! (i + 1)]"
  by (simp add: eval_nat_numeral take_drop_Suc)

lemma take4_drop: "i + 4 \<le> length p \<Longrightarrow>
    take 4 (drop i p) = [p ! i, p ! (i + 1), p ! (i + 2), p ! (i + 3)]"
  by (simp add: eval_nat_numeral take_drop_Suc)

lemma take8_drop: "i + 8 \<le> length p \<Longrightarrow>
    take 8 (drop i p) = [p ! i, p ! (i + 1), p ! (i + 2), p ! (i + 3),
                         p ! (i + 4), p ! (i + 5), p ! (i + 6), p ! (i + 7)]"
  by (simp add: eval_nat_numeral take_drop_Suc)

lemma st2_eq: "i + 2 \<le> length p \<Longrightarrow> p[i := a, i + 1 := b] = take i p @ [a, b] @ drop (i + 2) p"
  using st_seq_eq [of i "[a, b]" p] by (simp add: eval_nat_numeral)

lemma st4_eq: "i + 4 \<le> length p \<Longrightarrow>
    p[i := a, i + 1 := b, i + 2 := c, i + 3 := d] = take i p @ [a, b, c, d] @ drop (i + 4) p"
  using st_seq_eq [of i "[a, b, c, d]" p] by (simp add: eval_nat_numeral)

lemma st8_eq: "i + 8 \<le> length p \<Longrightarrow>
    p[i := a, i + 1 := b, i + 2 := c, i + 3 := d, i + 4 := e, i + 5 := f, i + 6 := g, i + 7 := h]
    = take i p @ [a, b, c, d, e, f, g, h] @ drop (i + 8) p"
  using st_seq_eq [of i "[a, b, c, d, e, f, g, h]" p] by (simp add: eval_nat_numeral)

lemma horner2: "horner [a, b] = (push_bit 8 (ucast a) OR ucast b :: u16)"
  by (simp add: horner_def)

lemma horner4: "horner [a, b, c, d]
    = (push_bit 24 (ucast a) OR push_bit 16 (ucast b) OR push_bit 8 (ucast c) OR ucast d :: u32)"
  by (simp add: horner_def push_bit_or push_bit_push_bit or.assoc)

lemma horner8: "horner [a, b, c, d, e, f, g, h]
    = (push_bit 56 (ucast a) OR push_bit 48 (ucast b) OR push_bit 40 (ucast c) OR
       push_bit 32 (ucast d) OR push_bit 24 (ucast e) OR push_bit 16 (ucast f) OR
       push_bit 8 (ucast g) OR ucast h :: u64)"
  by (simp add: horner_def push_bit_or push_bit_push_bit or.assoc)

lemma be_bytes2: "be_bytes 2 v = [ucast (drop_bit 8 v), ucast v]"
  by (simp add: eval_nat_numeral)

lemma be_bytes4: "be_bytes 4 v = [ucast (drop_bit 24 v), ucast (drop_bit 16 v), ucast (drop_bit 8 v), ucast v]"
  by (simp add: numeral_eq_Suc drop_bit_drop_bit)

lemma be_bytes8: "be_bytes 8 v =
    [ucast (drop_bit 56 v), ucast (drop_bit 48 v), ucast (drop_bit 40 v), ucast (drop_bit 32 v),
     ucast (drop_bit 24 v), ucast (drop_bit 16 v), ucast (drop_bit 8 v), ucast v]"
  by (simp add: numeral_eq_Suc drop_bit_drop_bit)

lemma in_rangeD: "in_range p off n \<Longrightarrow> unat off + n \<le> length p"
  by (simp add: in_range_def)

lemma be_val_be_bytes_full:
  "be_val (be_bytes 2 (v :: u16)) = unat v"
  "be_val (be_bytes 4 (w :: u32)) = unat w"
  "be_val (be_bytes 8 (x :: u64)) = unat x"
  using unat_bound16 [of v] unat_bound32 [of w] unat_bound64 [of x]
  by (simp_all add: be_val_be_bytes)

lemma le_val_le_bytes_full:
  "le_val (le_bytes 2 (v :: u16)) = unat v"
  "le_val (le_bytes 4 (w :: u32)) = unat w"
  "le_val (le_bytes 8 (x :: u64)) = unat x"
  by (simp_all add: le_val_be_val le_bytes_def be_val_be_bytes_full)

lemma le_val_inj: "\<lbrakk>length xs = length ys; le_val xs = le_val ys\<rbrakk> \<Longrightarrow> xs = ys"
  using be_val_inj [of "rev xs" "rev ys"] by (simp add: le_val_be_val)

lemmas or_ac = or.assoc or.commute or.left_commute

interpretation u16_be: int_codec read_u16_be write_u16_be 2 "be_bytes 2" be_val
proof unfold_locales
  fix p :: bytes and off assume r: "in_range p off 2"
  note ix = index_facts [OF r] and i = in_rangeD [OF r]
  show "\<exists>v. read_u16_be p off = Some v \<and> unat v = be_val (take 2 (drop (unat off) p))"
    using ix unat_horner [where 'a=16, of "[p ! unat off, p ! (unat off + 1)]"]
    by (simp add: read_u16_be_def ld_in take2_drop [OF i] horner2)
  show "write_u16_be p off v = Some (take (unat off) p @ be_bytes 2 v @ drop (unat off + 2) p)" for v
    using ix st2_eq [OF i] by (simp add: write_u16_be_def st_in be_bytes2)
qed (auto simp: be_val_be_bytes_full intro: be_val_inj)

interpretation u16_le: int_codec read_u16_le write_u16_le 2 "le_bytes 2" le_val
proof unfold_locales
  fix p :: bytes and off assume r: "in_range p off 2"
  note ix = index_facts [OF r] and i = in_rangeD [OF r]
  show "\<exists>v. read_u16_le p off = Some v \<and> unat v = le_val (take 2 (drop (unat off) p))"
    using ix unat_horner [where 'a=16, of "[p ! (unat off + 1), p ! unat off]"]
    by (simp add: read_u16_le_def ld_in take2_drop [OF i] horner2 or_ac le_val_be_val)
  show "write_u16_le p off v = Some (take (unat off) p @ le_bytes 2 v @ drop (unat off + 2) p)" for v
    using ix st2_eq [OF i] by (simp add: write_u16_le_def st_in be_bytes2 le_bytes_def)
qed (auto simp: le_val_le_bytes_full intro: le_val_inj)

interpretation u32_be: int_codec read_u32_be write_u32_be 4 "be_bytes 4" be_val
proof unfold_locales
  fix p :: bytes and off assume r: "in_range p off 4"
  note ix = index_facts [OF r] and i = in_rangeD [OF r]
  show "\<exists>v. read_u32_be p off = Some v \<and> unat v = be_val (take 4 (drop (unat off) p))"
    using ix unat_horner [where 'a=32, of "[p ! unat off, p ! (unat off + 1), p ! (unat off + 2), p ! (unat off + 3)]"]
    by (simp add: read_u32_be_def ld_in take4_drop [OF i] horner4)
  show "write_u32_be p off v = Some (take (unat off) p @ be_bytes 4 v @ drop (unat off + 4) p)" for v
    using ix st4_eq [OF i] by (simp add: write_u32_be_def st_in be_bytes4)
qed (auto simp: be_val_be_bytes_full intro: be_val_inj)

interpretation u32_le: int_codec read_u32_le write_u32_le 4 "le_bytes 4" le_val
proof unfold_locales
  fix p :: bytes and off assume r: "in_range p off 4"
  note ix = index_facts [OF r] and i = in_rangeD [OF r]
  show "\<exists>v. read_u32_le p off = Some v \<and> unat v = le_val (take 4 (drop (unat off) p))"
    using ix unat_horner [where 'a=32, of "[p ! (unat off + 3), p ! (unat off + 2), p ! (unat off + 1), p ! unat off]"]
    by (simp add: read_u32_le_def ld_in take4_drop [OF i] horner4 or_ac le_val_be_val)
  show "write_u32_le p off v = Some (take (unat off) p @ le_bytes 4 v @ drop (unat off + 4) p)" for v
    using ix st4_eq [OF i] by (simp add: write_u32_le_def st_in be_bytes4 le_bytes_def)
qed (auto simp: le_val_le_bytes_full intro: le_val_inj)

interpretation u64_be: int_codec read_u64_be write_u64_be 8 "be_bytes 8" be_val
proof unfold_locales
  fix p :: bytes and off assume r: "in_range p off 8"
  note ix = index_facts [OF r] and i = in_rangeD [OF r]
  show "\<exists>v. read_u64_be p off = Some v \<and> unat v = be_val (take 8 (drop (unat off) p))"
    using ix unat_horner [where 'a=64, of "[p ! unat off, p ! (unat off + 1), p ! (unat off + 2), p ! (unat off + 3),
      p ! (unat off + 4), p ! (unat off + 5), p ! (unat off + 6), p ! (unat off + 7)]"]
    by (simp add: read_u64_be_def ld_in take8_drop [OF i] horner8)
  show "write_u64_be p off v = Some (take (unat off) p @ be_bytes 8 v @ drop (unat off + 8) p)" for v
    using ix st8_eq [OF i] by (simp add: write_u64_be_def st_in be_bytes8)
qed (auto simp: be_val_be_bytes_full intro: be_val_inj)

interpretation u64_le: int_codec read_u64_le write_u64_le 8 "le_bytes 8" le_val
proof unfold_locales
  fix p :: bytes and off assume r: "in_range p off 8"
  note ix = index_facts [OF r] and i = in_rangeD [OF r]
  show "\<exists>v. read_u64_le p off = Some v \<and> unat v = le_val (take 8 (drop (unat off) p))"
    using ix unat_horner [where 'a=64, of "[p ! (unat off + 7), p ! (unat off + 6), p ! (unat off + 5), p ! (unat off + 4),
      p ! (unat off + 3), p ! (unat off + 2), p ! (unat off + 1), p ! unat off]"]
    by (simp add: read_u64_le_def ld_in take8_drop [OF i] horner8 or_ac le_val_be_val)
  show "write_u64_le p off v = Some (take (unat off) p @ le_bytes 8 v @ drop (unat off + 8) p)" for v
    using ix st8_eq [OF i] by (simp add: write_u64_le_def st_in be_bytes8 le_bytes_def)
qed (auto simp: le_val_le_bytes_full intro: le_val_inj)

text \<open>The big-endian readers compute the Horner value of the bytes they cover.\<close>

lemma read_u32_be_horner:
  assumes "in_range p off 4"
  shows "read_u32_be p off = Some (horner (take 4 (drop (unat off) p)))"
  using u32_be.rd_val [OF assms] assms
    unat_horner [where 'a = 32, of "take 4 (drop (unat off) p)"]
  by (auto simp: word_unat_eq_iff in_range_def)

text \<open>The inline helpers compute the same functions, so they inherit the contract.\<close>

lemma U2BE_eq: "U2BE = read_u16_be"
  by (intro ext) (simp add: U2BE_def read_u16_be_def)

lemma U4BE_eq: "U4BE = read_u32_be"
  by (intro ext) (simp add: U4BE_def read_u32_be_def)

lemma U8BE_eq: "U8BE = read_u64_be"
  by (intro ext) (simp add: U8BE_def read_u64_be_def)

lemma ucast_mask_byte: "ucast (w AND 0xFF :: u32) = (ucast w :: u8)"
  by (rule bit_word_eqI) (auto simp: bit_simps bit_numeral_rec split: nat.splits)

lemma U2BE_ENCODE_eq: "U2BE_ENCODE p off v = write_u16_be p off (ucast v)"
proof -
  have "(ucast (drop_bit 8 v) :: u8) = ucast (drop_bit 8 (ucast v :: u16))"
    by (rule bit_word_eqI) (auto simp: bit_simps)
  moreover have "(ucast v :: u8) = ucast (ucast v :: u16)"
    by (rule bit_word_eqI) (auto simp: bit_simps)
  ultimately show ?thesis
    by (simp add: U2BE_ENCODE_def write_u16_be_def ucast_mask_byte)
qed

lemma U4BE_ENCODE_eq: "U4BE_ENCODE = write_u32_be"
  by (intro ext) (simp add: U4BE_ENCODE_def write_u32_be_def ucast_mask_byte)

lemma U2BE_ENCODE_at:
  fixes v :: u16
  assumes "unat off + 2 \<le> length p" "length p \<le> 2 ^ 32"
  shows "U2BE_ENCODE p off (ucast v) = Some (take (unat off) p @ be_bytes 2 v @ drop (unat off + 2) p)"
proof -
  have "ucast (ucast v :: u32) = v" by (rule bit_word_eqI) (simp add: bit_simps)
  then show ?thesis
    using u16_be.wr_eq [of p off v] assms by (simp add: U2BE_ENCODE_eq in_range_def)
qed

lemma U2BE_be_bytes:
  fixes v :: u16
  shows "U2BE (be_bytes 2 v @ rest) 0 = Some v" "length p = 2 \<Longrightarrow> U2BE (p @ be_bytes 2 v @ rest) 2 = Some v"
proof -
  have "push_bit 8 (ucast (ucast (drop_bit 8 v) :: u8)) OR ucast (ucast v :: u8) = v"
    by (rule bit_word_eqI) (auto simp: bit_simps)
  then show "U2BE (be_bytes 2 v @ rest) 0 = Some v"
      "length p = 2 \<Longrightarrow> U2BE (p @ be_bytes 2 v @ rest) 2 = Some v"
    by (auto simp: be_bytes2 U2BE_def ld_def nth_append)
qed

lemma U2LE_ex: "unat off + 2 \<le> length p \<Longrightarrow> length p \<le> 2 ^ 32 \<Longrightarrow> \<exists>v. U2LE p off = Some v"
proof -
  assume "unat off + 2 \<le> length p" "length p \<le> 2 ^ 32"
  then have "in_range p off 2" by (simp add: in_range_def)
  moreover have "U2LE = read_u16_le"
    by (intro ext) (simp add: U2LE_def read_u16_le_def or_ac ld_def split: bind_splits)
  ultimately show ?thesis using u16_le.rd_ex by auto
qed

lemma U4LE_eq: "U4LE p off = read_u32_le p off"
  by (auto simp: U4LE_def read_u32_le_def or_ac ld_def)

lemma U4LE_ENCODE_eq:
  assumes "unat off + 4 \<le> length p" "length p \<le> 2 ^ 32"
  shows "U4LE_ENCODE p off v = Some (take (unat off) p @ le_bytes 4 v @ drop (unat off + 4) p)"
proof -
  have r: "in_range p off 4" using assms by (simp add: in_range_def)
  note i = in_range_index [OF r]
  have "U4LE_ENCODE p off v = write_u32_le p off v"
    using i [of 1] i [of 2] i [of 3] i [of 0]
    by (simp add: U4LE_ENCODE_def write_u32_le_def ucast_mask_byte st_def list_update_swap)
  then show ?thesis using u32_le.wr_eq [OF r] by simp
qed

end
