(* ===== verification/Varint.thy ===== *)
theory Varint
  imports Endian
begin

text \<open>
  Bitcoin-style variable-length integers: \<^verbatim>\<open>lib_standard_app/varint.c\<close>.
  The C \<open>int\<close> results are \<^typ>\<open>int\<close>; the out-parameter of \<open>varint_read\<close> is
  threaded, so a branch that does not assign it returns the value it had before.
\<close>

definition varint_size :: "u64 \<Rightarrow> u8" where
  "varint_size value =
     (if value \<le> 0xFC then 1
      else if value \<le> 0xFFFF then 3
      else if value \<le> 0xFFFFFFFF then 5
      else 9)"

definition varint_read :: "bytes \<Rightarrow> size_t \<Rightarrow> u64 \<Rightarrow> (int \<times> u64) option" where
  "varint_read inp in_len value =
     (if in_len < 1 then Some (-1, value)
      else do {
        prefix \<leftarrow> ld inp 0;
        if prefix = 0xFD then
          (if in_len < 3 then Some (-1, value)
           else do { v \<leftarrow> read_u16_le inp 1; Some (3, ucast v) })
        else if prefix = 0xFE then
          (if in_len < 5 then Some (-1, value)
           else do { v \<leftarrow> read_u32_le inp 1; Some (5, ucast v) })
        else if prefix = 0xFF then
          (if in_len < 9 then Some (-1, value)
           else do { v \<leftarrow> read_u64_le inp 1; Some (9, v) })
        else Some (1, ucast prefix) })"

definition varint_write :: "bytes \<Rightarrow> size_t \<Rightarrow> u64 \<Rightarrow> (int \<times> bytes) option" where
  "varint_write out offset value =
     (let varint_len = varint_size value in
      if varint_len = 1 then do {
        out \<leftarrow> st out (unat offset) (ucast value);
        Some (uint varint_len, out) }
      else if varint_len = 3 then do {
        out \<leftarrow> st out (unat offset) 0xFD;
        out \<leftarrow> write_u16_le out (offset + 1) (ucast value);
        Some (uint varint_len, out) }
      else if varint_len = 5 then do {
        out \<leftarrow> st out (unat offset) 0xFE;
        out \<leftarrow> write_u32_le out (offset + 1) (ucast value);
        Some (uint varint_len, out) }
      else if varint_len = 9 then do {
        out \<leftarrow> st out (unat offset) 0xFF;
        out \<leftarrow> write_u64_le out (offset + 1) value;
        Some (uint varint_len, out) }
      else Some (-1, out))"

section \<open>The encoding as a byte string\<close>

definition varint_bytes :: "u64 \<Rightarrow> bytes" where
  "varint_bytes value =
     (if value \<le> 0xFC then [ucast value]
      else if value \<le> 0xFFFF then 0xFD # le_bytes 2 (ucast value :: u16)
      else if value \<le> 0xFFFFFFFF then 0xFE # le_bytes 4 (ucast value :: u32)
      else 0xFF # le_bytes 8 value)"

lemma length_varint_bytes [simp]: "length (varint_bytes v) = unat (varint_size v)"
  by (simp add: varint_bytes_def varint_size_def)

lemma varint_size_cases: "varint_size v \<in> {1, 3, 5, 9}"
  by (simp add: varint_size_def)

text \<open>The width casts of the two short forms lose nothing.\<close>

lemma ucast_u16_back: "v \<le> 0xFFFF \<Longrightarrow> ucast (ucast (v :: u64) :: u16) = v"
  by (rule ucast_back) (simp add: word_le_nat_alt)

lemma ucast_u32_back: "v \<le> 0xFFFFFFFF \<Longrightarrow> ucast (ucast (v :: u64) :: u32) = v"
  by (rule ucast_back) (simp add: word_le_nat_alt)

lemma ucast_u8_back: "v \<le> 0xFC \<Longrightarrow> ucast (ucast (v :: u64) :: u8) = v"
  by (rule ucast_back) (simp add: word_le_nat_alt)

lemma ucast_u8_small:
  assumes "v \<le> 0xFC"
  shows "(ucast (v :: u64) :: u8) \<noteq> 0xFD \<and> (ucast v :: u8) \<noteq> 0xFE \<and> (ucast v :: u8) \<noteq> 0xFF"
proof -
  have "unat (ucast v :: u8) = unat v" and "unat v \<le> 252"
    using assms by (simp_all add: unat_to_u8 word_le_nat_alt)
  then show ?thesis by (auto simp: word_unat_eq_iff)
qed

section \<open>Writing\<close>

lemma varint_write_eq:
  assumes r: "in_range out off (unat (varint_size v))"
  shows "varint_write out off v =
    Some (uint (varint_size v),
          take (unat off) out @ varint_bytes v @ drop (unat off + unat (varint_size v)) out)"
proof -
  consider (1) "v \<le> 0xFC" | (3) "\<not> v \<le> 0xFC" "v \<le> 0xFFFF"
    | (5) "\<not> v \<le> 0xFC" "\<not> v \<le> 0xFFFF" "v \<le> 0xFFFFFFFF" | (9) "\<not> v \<le> 0xFC" "\<not> v \<le> 0xFFFF" "\<not> v \<le> 0xFFFFFFFF"
    by blast
  then show ?thesis
  proof cases
    case 1
    then show ?thesis using r
      by (simp add: varint_write_def varint_size_def varint_bytes_def in_range_def st_in
          upd_conv_take_nth_drop)
  next
    case 3
    with r have "in_range out off (Suc 2)" by (simp add: varint_size_def)
    from u16_le.st_wr [OF this, of "0xFD" "ucast v"] 3 show ?thesis
      by (simp add: varint_write_def varint_size_def varint_bytes_def bind_eq_Some_conv)
  next
    case 5
    with r have "in_range out off (Suc 4)" by (simp add: varint_size_def)
    from u32_le.st_wr [OF this, of "0xFE" "ucast v"] 5 show ?thesis
      by (simp add: varint_write_def varint_size_def varint_bytes_def bind_eq_Some_conv)
  next
    case 9
    with r have "in_range out off (Suc 8)" by (simp add: varint_size_def)
    from u64_le.st_wr [OF this, of "0xFF" "v"] 9 show ?thesis
      by (simp add: varint_write_def varint_size_def varint_bytes_def bind_eq_Some_conv)
  qed
qed

section \<open>Reading\<close>

lemma varint_read_bytes:
  assumes l: "length (varint_bytes v @ rest) \<le> 2 ^ 32"
    and n: "unat (varint_size v) \<le> unat n"
  shows "varint_read (varint_bytes v @ rest) n v0 = Some (uint (varint_size v), v)"
proof -
  consider (1) "v \<le> 0xFC" | (3) "\<not> v \<le> 0xFC" "v \<le> 0xFFFF"
    | (5) "\<not> v \<le> 0xFC" "\<not> v \<le> 0xFFFF" "v \<le> 0xFFFFFFFF"
    | (9) "\<not> v \<le> 0xFC" "\<not> v \<le> 0xFFFF" "\<not> v \<le> 0xFFFFFFFF"
    by blast
  then show ?thesis
  proof cases
    case 1
    with n have "\<not> n < 1" by (simp add: varint_size_def word_less_nat_alt)
    with 1 ucast_u8_small [OF 1] show ?thesis
      by (simp add: varint_read_def varint_size_def varint_bytes_def ld_in ucast_u8_back)
  next
    case 3
    with n have "\<not> n < 1" "\<not> n < 3" by (simp_all add: varint_size_def word_less_nat_alt)
    with 3 l u16_le.rd_tagged [of "0xFD" "ucast v" rest] show ?thesis
      by (simp add: varint_read_def varint_size_def varint_bytes_def ld_in ucast_u16_back)
  next
    case 5
    with n have "\<not> n < 1" "\<not> n < 5" by (simp_all add: varint_size_def word_less_nat_alt)
    with 5 l u32_le.rd_tagged [of "0xFE" "ucast v" rest] show ?thesis
      by (simp add: varint_read_def varint_size_def varint_bytes_def ld_in ucast_u32_back)
  next
    case 9
    with n have "\<not> n < 1" "\<not> n < 9" by (simp_all add: varint_size_def word_less_nat_alt)
    with 9 l u64_le.rd_tagged [of "0xFF" "v" rest] show ?thesis
      by (simp add: varint_read_def varint_size_def varint_bytes_def ld_in)
  qed
qed

text \<open>A read stays inside the input, and it fails exactly on a truncated encoding.\<close>

definition varint_need :: "u8 \<Rightarrow> nat" where
  "varint_need prefix =
     (if prefix = 0xFD then 3 else if prefix = 0xFE then 5 else if prefix = 0xFF then 9 else 1)"

lemma varint_read_total:
  assumes len: "unat n \<le> length inp" "length inp \<le> 2 ^ 32"
  shows "\<exists>k w. varint_read inp n v0 = Some (k, w) \<and>
           (if n = 0 \<or> unat n < varint_need (inp ! 0) then k = -1 \<and> w = v0
            else k = int (varint_need (inp ! 0)))"
proof (cases "n = 0")
  case False
  then have n0: "\<not> n < 1" "0 < length inp"
    using len(1) by (auto simp: word_less_nat_alt unat_gt_0 unat_0_iff intro: order.strict_trans2)
  have "in_range inp 1 k" if "k < unat n" for k
    using that len by (simp add: in_range_def)
  then have rd: "\<not> n < 3 \<Longrightarrow> \<exists>v. read_u16_le inp 1 = Some v"
    "\<not> n < 5 \<Longrightarrow> \<exists>v. read_u32_le inp 1 = Some v"
    "\<not> n < 9 \<Longrightarrow> \<exists>v. read_u64_le inp 1 = Some v"
    by (auto intro!: u16_le.rd_ex u32_le.rd_ex u64_le.rd_ex simp: word_less_nat_alt)
  then show ?thesis
    using False n0 by (auto simp: varint_read_def varint_need_def ld_in word_less_nat_alt)
qed (simp add: varint_read_def)

section \<open>Properties\<close>

text \<open>Property C33.  A 64-bit value written as a varint anywhere in an array that has room for
  it occupies the announced number of bytes, changes no other byte, and is read back by
  \<open>varint_read\<close> with the same length, for every input length that covers the encoding.\<close>

theorem varint_roundtrip:
  assumes r: "in_range out off (unat (varint_size v))"
    and n: "unat (varint_size v) \<le> unat n"
  shows "\<exists>out'. varint_write out off v = Some (uint (varint_size v), out')
    \<and> length out' = length out
    \<and> take (unat off) out' = take (unat off) out
    \<and> drop (unat off + unat (varint_size v)) out' = drop (unat off + unat (varint_size v)) out
    \<and> varint_read (drop (unat off) out') n v0 = Some (uint (varint_size v), v)"
proof -
  let ?k = "unat (varint_size v)" and ?o = "unat off"
  have l: "?o + ?k \<le> length out" "length out \<le> 2 ^ 32"
    using r by (simp_all add: in_range_def)
  have "varint_read (varint_bytes v @ drop (?o + ?k) out) n v0 = Some (uint (varint_size v), v)"
    using l n by (intro varint_read_bytes) simp_all
  then show ?thesis
    using varint_write_eq [OF r] l by simp
qed

theorem varint_roundtrip_witness:
  "\<exists>out'. varint_write (replicate 12 0) 2 0x12345 = Some (5, out')
     \<and> varint_read (drop 2 out') 10 0 = Some (5, 0x12345)"
  using varint_roundtrip [where out = "replicate 12 0" and off = 2 and v = "0x12345" and n = 10
      and ?v0.0 = 0]
  by (auto simp: in_range_def varint_size_def)

end
