(* ===== verification/Bip32.thy ===== *)
theory Bip32
  imports Endian
begin

text \<open>
  Derivation paths: \<open>bip32_path_read\<close> of \<^verbatim>\<open>lib_standard_app/bip32.c\<close> and the
  \<open>path_bip32_t\<close> of \<^verbatim>\<open>lib_standard_app/bip32.h\<close>.  A pointer the code compares
  with \<open>NULL\<close> is an option; the output array is returned as it is left, also on failure.
\<close>

definition MAX_BIP32_PATH :: nat where
  "MAX_BIP32_PATH = 10"

record path_bip32_t =
  p_length :: u8
  p_path :: "u32 list"

function bip32_path_read_loop ::
  "bytes \<Rightarrow> size_t \<Rightarrow> u32 list \<Rightarrow> nat \<Rightarrow> nat \<Rightarrow> size_t \<Rightarrow> (bool \<times> u32 list) option" where
  "bip32_path_read_loop inp in_len out i out_len offset =
     (if i < out_len then
        (if offset + 4 > in_len then Some (False, out)
         else do {
           v \<leftarrow> read_u32_be inp offset;
           out \<leftarrow> st out i v;
           bip32_path_read_loop inp in_len out (Suc i) out_len (offset + 4) })
      else Some (True, out))"
  by pat_completeness auto
termination
  by (relation "measure (\<lambda>(inp, in_len, out, i, out_len, offset). out_len - i)") auto

declare bip32_path_read_loop.simps [simp del]

definition bip32_path_read ::
  "bytes option \<Rightarrow> size_t \<Rightarrow> u32 list \<Rightarrow> size_t \<Rightarrow> (bool \<times> u32 list) option" where
  "bip32_path_read inp in_len out out_len =
     (case inp of
        None \<Rightarrow> Some (False, out)
      | Some p \<Rightarrow>
          if in_len = 0 then Some (False, out)
          else if out_len = 0 \<or> unat out_len > MAX_BIP32_PATH then Some (False, out)
          else bip32_path_read_loop p in_len out 0 (unat out_len) 0)"

section \<open>What a path read returns\<close>

text \<open>The \<open>k\<close>-th component of a serialised path.\<close>

definition path_word :: "bytes \<Rightarrow> nat \<Rightarrow> u32" where
  "path_word p k = horner (take 4 (drop (4 * k) p))"

lemma path_offset_step:
  assumes "unat offset = 4 * i" and "i < 10"
  shows "unat (offset + 4 :: size_t) = 4 * Suc i"
  using assms by (subst unat_add_no_wrap) simp_all

lemma bip32_path_read_loop_ok:
  assumes "unat offset = 4 * i" and "i \<le> n" and "n \<le> 10" and "n \<le> length out"
    and "4 * n \<le> unat in_len" and "unat in_len \<le> length p" and "length p \<le> 2 ^ 32"
  shows "bip32_path_read_loop p in_len out i n offset
       = Some (True, take i out @ map (path_word p) [i..<n] @ drop n out)"
  using assms
proof (induction p in_len out i n offset rule: bip32_path_read_loop.induct)
  case (1 inp in_len out i n offset)
  show ?case
  proof (cases "i < n")
    case True
    have o4: "unat (offset + 4) = 4 * Suc i"
      using "1.prems" True by (intro path_offset_step) simp_all
    have g: "\<not> offset + 4 > in_len"
      using "1.prems" True o4 by (simp add: word_less_nat_alt)
    have "in_range inp offset 4"
      using "1.prems" True by (simp add: in_range_def)
    then have rd: "read_u32_be inp offset = Some (path_word inp i)"
      using "1.prems"(1) by (simp add: read_u32_be_horner path_word_def)
    have s: "st out i (path_word inp i) = Some (out[i := path_word inp i])"
      using "1.prems" True by (simp add: st_in)
    have "bip32_path_read_loop inp in_len (out[i := path_word inp i]) (Suc i) n (offset + 4)
        = Some (True, take (Suc i) (out[i := path_word inp i]) @ map (path_word inp) [Suc i..<n]
                      @ drop n (out[i := path_word inp i]))"
      using "1.IH" [OF True g rd s] "1.prems" True o4 by simp
    moreover have "take (Suc i) (out[i := path_word inp i]) = take i out @ [path_word inp i]"
      using "1.prems" True by (simp add: take_Suc_conv_app_nth)
    ultimately show ?thesis
      using True g rd s
      by (simp add: bip32_path_read_loop.simps [of inp in_len out] upt_conv_Cons)
  next
    case False
    then show ?thesis using "1.prems"
      by (simp add: bip32_path_read_loop.simps [of inp in_len out])
  qed
qed

lemma bip32_path_read_loop_short:
  assumes "unat offset = 4 * i" and "i \<le> n" and "n \<le> 10" and "n \<le> length out"
    and "unat in_len < 4 * n" and "unat in_len \<le> length p" and "length p \<le> 2 ^ 32"
    and "4 * i \<le> unat in_len"
  shows "\<exists>out'. bip32_path_read_loop p in_len out i n offset = Some (False, out')
               \<and> length out' = length out"
  using assms
proof (induction p in_len out i n offset rule: bip32_path_read_loop.induct)
  case (1 inp in_len out i n offset)
  have i: "i < n" using "1.prems" by linarith
  have o4: "unat (offset + 4) = 4 * Suc i"
    using "1.prems" i by (intro path_offset_step) simp_all
  show ?case
  proof (cases "offset + 4 > in_len")
    case True
    with i show ?thesis by (simp add: bip32_path_read_loop.simps [of inp in_len out])
  next
    case g: False
    then have le: "4 * Suc i \<le> unat in_len" using o4 by (simp add: word_less_nat_alt)
    then have "in_range inp offset 4"
      using "1.prems" by (simp add: in_range_def)
    then have rd: "read_u32_be inp offset = Some (path_word inp i)"
      using "1.prems"(1) by (simp add: read_u32_be_horner path_word_def)
    have s: "st out i (path_word inp i) = Some (out[i := path_word inp i])"
      using "1.prems" i by (simp add: st_in)
    obtain out' where "bip32_path_read_loop inp in_len (out[i := path_word inp i]) (Suc i) n
        (offset + 4) = Some (False, out')" and "length out' = length out"
      using "1.IH" [OF i g rd s] "1.prems" i o4 le by auto
    then show ?thesis
      using i g rd s by (simp add: bip32_path_read_loop.simps [of inp in_len out])
  qed
qed

text \<open>The whole function: it accepts exactly the requests whose length is in range and
  whose bytes are all there.\<close>

definition path_request_ok :: "size_t \<Rightarrow> size_t \<Rightarrow> bool" where
  "path_request_ok in_len out_len \<longleftrightarrow>
     0 < unat out_len \<and> unat out_len \<le> MAX_BIP32_PATH \<and> 4 * unat out_len \<le> unat in_len"

lemma bip32_path_read_accepts:
  assumes "path_request_ok in_len out_len" and "unat out_len \<le> length out"
    and "unat in_len \<le> length p" and "length p \<le> 2 ^ 32"
  shows "bip32_path_read (Some p) in_len out out_len
       = Some (True, map (path_word p) [0..<unat out_len] @ drop (unat out_len) out)"
proof -
  have "in_len \<noteq> 0" "out_len \<noteq> 0"
    using assms(1) by (auto simp: path_request_ok_def)
  then show ?thesis
    using assms bip32_path_read_loop_ok [of 0 0 "unat out_len" out in_len p]
    by (simp add: bip32_path_read_def path_request_ok_def MAX_BIP32_PATH_def)
qed

lemma bip32_path_read_rejects:
  assumes "\<not> path_request_ok in_len out_len" and "unat out_len \<le> length out"
    and "unat in_len \<le> length p" and "length p \<le> 2 ^ 32"
  shows "\<exists>out'. bip32_path_read (Some p) in_len out out_len = Some (False, out')
               \<and> length out' = length out"
  using assms bip32_path_read_loop_short [of 0 0 "unat out_len" out in_len p]
  by (auto simp: bip32_path_read_def path_request_ok_def MAX_BIP32_PATH_def unat_gt_0)

end
