(* ===== verification/Buffer.thy ===== *)
theory Buffer
  imports Varint Bip32
begin

text \<open>
  The cursor over a byte array of \<^verbatim>\<open>lib_standard_app/buffer.c\<close>.  A
  \<open>buffer_t\<close> holds the array it points to; \<open>buffer_wf\<close> says that the declared size
  is the size of that array and that the cursor is inside.  Operations return the C result,
  the out-parameters (with the value they had before where the code does not assign them)
  and the buffer they leave.
\<close>

record buffer_t =
  b_ptr :: bytes
  b_size :: size_t
  b_offset :: size_t

datatype endianness_t = BE | LE

definition buffer_wf :: "buffer_t \<Rightarrow> bool" where
  "buffer_wf b \<longleftrightarrow> length (b_ptr b) = unat (b_size b) \<and> b_offset b \<le> b_size b"

definition buffer_create :: "bytes \<Rightarrow> size_t \<Rightarrow> buffer_t" where
  "buffer_create ptr sz = \<lparr>b_ptr = ptr, b_size = sz, b_offset = 0\<rparr>"

text \<open>\<open>buffer_get_cur\<close> is the pointer to the byte under the cursor, so the suffix of
  the array that starts there.\<close>

definition buffer_get_cur :: "buffer_t \<Rightarrow> bytes" where
  "buffer_get_cur b = drop (unat (b_offset b)) (b_ptr b)"

section \<open>Seeking\<close>

definition buffer_can_read :: "buffer_t \<Rightarrow> size_t \<Rightarrow> bool" where
  "buffer_can_read b n \<longleftrightarrow> b_size b - b_offset b \<ge> n"

abbreviation buffer_has_space :: "buffer_t \<Rightarrow> size_t \<Rightarrow> bool" where
  "buffer_has_space \<equiv> buffer_can_read"

definition buffer_seek_set :: "buffer_t \<Rightarrow> size_t \<Rightarrow> bool \<times> buffer_t" where
  "buffer_seek_set b off =
     (if off > b_size b then (False, b) else (True, b\<lparr>b_offset := off\<rparr>))"

definition buffer_seek_cur :: "buffer_t \<Rightarrow> size_t \<Rightarrow> bool \<times> buffer_t" where
  "buffer_seek_cur b off =
     (if b_offset b + off < b_offset b \<or> b_offset b + off > b_size b then (False, b)
      else (True, b\<lparr>b_offset := b_offset b + off\<rparr>))"

definition buffer_seek_end :: "buffer_t \<Rightarrow> size_t \<Rightarrow> bool \<times> buffer_t" where
  "buffer_seek_end b off =
     (if off > b_size b then (False, b) else (True, b\<lparr>b_offset := b_size b - off\<rparr>))"

section \<open>Reading\<close>

definition buffer_read_u8 :: "buffer_t \<Rightarrow> (bool \<times> u8 \<times> buffer_t) option" where
  "buffer_read_u8 b =
     (if \<not> buffer_can_read b 1 then Some (False, 0, b)
      else do {
        v \<leftarrow> ld (b_ptr b) (unat (b_offset b));
        Some (True, v, snd (buffer_seek_cur b 1)) })"

definition buffer_read_u16 :: "buffer_t \<Rightarrow> endianness_t \<Rightarrow> (bool \<times> u16 \<times> buffer_t) option" where
  "buffer_read_u16 b endianness =
     (if \<not> buffer_can_read b 2 then Some (False, 0, b)
      else do {
        v \<leftarrow> (if endianness = BE then read_u16_be (b_ptr b) (b_offset b)
             else read_u16_le (b_ptr b) (b_offset b));
        Some (True, v, snd (buffer_seek_cur b 2)) })"

definition buffer_read_u32 :: "buffer_t \<Rightarrow> endianness_t \<Rightarrow> (bool \<times> u32 \<times> buffer_t) option" where
  "buffer_read_u32 b endianness =
     (if \<not> buffer_can_read b 4 then Some (False, 0, b)
      else do {
        v \<leftarrow> (if endianness = BE then read_u32_be (b_ptr b) (b_offset b)
             else read_u32_le (b_ptr b) (b_offset b));
        Some (True, v, snd (buffer_seek_cur b 4)) })"

definition buffer_read_u64 :: "buffer_t \<Rightarrow> endianness_t \<Rightarrow> (bool \<times> u64 \<times> buffer_t) option" where
  "buffer_read_u64 b endianness =
     (if \<not> buffer_can_read b 8 then Some (False, 0, b)
      else do {
        v \<leftarrow> (if endianness = BE then read_u64_be (b_ptr b) (b_offset b)
             else read_u64_le (b_ptr b) (b_offset b));
        Some (True, v, snd (buffer_seek_cur b 8)) })"

definition buffer_read_varint :: "buffer_t \<Rightarrow> u64 \<Rightarrow> (bool \<times> u64 \<times> buffer_t) option" where
  "buffer_read_varint b value = do {
     (len, value) \<leftarrow> varint_read (buffer_get_cur b) (b_size b - b_offset b) value;
     if len < 0 then Some (False, 0, b)
     else (let (ok, b') = buffer_seek_cur b (word_of_int len) in Some (ok, value, b')) }"

definition buffer_read_bip32_path ::
  "buffer_t \<Rightarrow> u32 list \<Rightarrow> size_t \<Rightarrow> (bool \<times> u32 list \<times> buffer_t) option" where
  "buffer_read_bip32_path b out out_len = do {
     (ok, out) \<leftarrow> bip32_path_read (Some (buffer_get_cur b)) (b_size b - b_offset b) out out_len;
     if \<not> ok then Some (False, out, b)
     else Some (True, out, snd (buffer_seek_cur b (4 * out_len))) }"

definition buffer_get_path_bip32 ::
  "buffer_t option \<Rightarrow> path_bip32_t option \<Rightarrow> (bool \<times> buffer_t option \<times> path_bip32_t option) option"
  where
  "buffer_get_path_bip32 buffer bip32 =
     (case (buffer, bip32) of
        (Some b, Some p) \<Rightarrow>
          if \<not> buffer_can_read b 1 then Some (False, buffer, bip32)
          else do {
            len \<leftarrow> ld (b_ptr b) (unat (b_offset b));
            let p = p\<lparr>p_length := len\<rparr>;
            let b = b\<lparr>b_offset := b_offset b + 1\<rparr>;
            if \<not> buffer_can_read b (4 * ucast len) then Some (False, Some b, Some p)
            else do {
              (ok, path) \<leftarrow> bip32_path_read (Some (buffer_get_cur b)) (b_size b - b_offset b)
                               (p_path p) (ucast len);
              let p = p\<lparr>p_path := path\<rparr>;
              if \<not> ok then Some (False, Some b, Some p)
              else Some (True, Some (snd (buffer_seek_cur b (4 * ucast len))), Some p) } }
      | _ \<Rightarrow> Some (False, buffer, bip32))"

definition buffer_copy :: "buffer_t \<Rightarrow> bytes \<Rightarrow> size_t \<Rightarrow> (bool \<times> bytes) option" where
  "buffer_copy b out out_len =
     (if b_size b - b_offset b > out_len then Some (False, out)
      else do {
        out \<leftarrow> memcpy_n out 0 (b_ptr b) (unat (b_offset b)) (unat (b_size b - b_offset b));
        Some (True, out) })"

definition buffer_move :: "buffer_t \<Rightarrow> bytes \<Rightarrow> size_t \<Rightarrow> (bool \<times> bytes \<times> buffer_t) option" where
  "buffer_move b out out_len = do {
     (ok, out) \<leftarrow> buffer_copy b out out_len;
     if \<not> ok then Some (False, out, b)
     else Some (True, out, snd (buffer_seek_cur b out_len)) }"

definition buffer_peek_n :: "buffer_t \<Rightarrow> size_t \<Rightarrow> u8 \<Rightarrow> (bool \<times> u8) option" where
  "buffer_peek_n b n value =
     (if b_size b - b_offset b < n + 1 then Some (False, value)
      else do {
        v \<leftarrow> ld (b_ptr b) (unat (b_offset b + n));
        Some (True, v) })"

definition buffer_peek :: "buffer_t \<Rightarrow> u8 \<Rightarrow> (bool \<times> u8) option" where
  "buffer_peek b value = buffer_peek_n b 0 value"

definition buffer_read_bytes :: "buffer_t \<Rightarrow> bytes \<Rightarrow> size_t \<Rightarrow> (bool \<times> bytes \<times> buffer_t) option" where
  "buffer_read_bytes b out n =
     (if b_size b - b_offset b < n then Some (False, out, b)
      else do {
        out \<leftarrow> memcpy_n out 0 (b_ptr b) (unat (b_offset b)) (unat n);
        Some (True, out, snd (buffer_seek_cur b n)) })"

section \<open>Writing\<close>

definition buffer_write_u8 :: "buffer_t \<Rightarrow> u8 \<Rightarrow> (bool \<times> buffer_t) option" where
  "buffer_write_u8 b value =
     (if \<not> buffer_has_space b 1 then Some (False, b)
      else do {
        p \<leftarrow> st (b_ptr b) (unat (b_offset b)) value;
        Some (True, snd (buffer_seek_cur (b\<lparr>b_ptr := p\<rparr>) 1)) })"

definition buffer_write_u16 :: "buffer_t \<Rightarrow> u16 \<Rightarrow> endianness_t \<Rightarrow> (bool \<times> buffer_t) option" where
  "buffer_write_u16 b value endianness =
     (if \<not> buffer_has_space b 2 then Some (False, b)
      else do {
        p \<leftarrow> (if endianness = BE then write_u16_be (b_ptr b) (b_offset b) value
             else write_u16_le (b_ptr b) (b_offset b) value);
        Some (True, snd (buffer_seek_cur (b\<lparr>b_ptr := p\<rparr>) 2)) })"

definition buffer_write_u32 :: "buffer_t \<Rightarrow> u32 \<Rightarrow> endianness_t \<Rightarrow> (bool \<times> buffer_t) option" where
  "buffer_write_u32 b value endianness =
     (if \<not> buffer_has_space b 4 then Some (False, b)
      else do {
        p \<leftarrow> (if endianness = BE then write_u32_be (b_ptr b) (b_offset b) value
             else write_u32_le (b_ptr b) (b_offset b) value);
        Some (True, snd (buffer_seek_cur (b\<lparr>b_ptr := p\<rparr>) 4)) })"

definition buffer_write_u64 :: "buffer_t \<Rightarrow> u64 \<Rightarrow> endianness_t \<Rightarrow> (bool \<times> buffer_t) option" where
  "buffer_write_u64 b value endianness =
     (if \<not> buffer_has_space b 8 then Some (False, b)
      else do {
        p \<leftarrow> (if endianness = BE then write_u64_be (b_ptr b) (b_offset b) value
             else write_u64_le (b_ptr b) (b_offset b) value);
        Some (True, snd (buffer_seek_cur (b\<lparr>b_ptr := p\<rparr>) 8)) })"

definition buffer_write_bytes :: "buffer_t \<Rightarrow> bytes \<Rightarrow> size_t \<Rightarrow> (bool \<times> buffer_t) option" where
  "buffer_write_bytes b data n =
     (if \<not> buffer_has_space b n then Some (False, b)
      else do {
        p \<leftarrow> memcpy_n (b_ptr b) (unat (b_offset b)) data 0 (unat n);
        Some (True, snd (buffer_seek_cur (b\<lparr>b_ptr := p\<rparr>) n)) })"

section \<open>The cursor in natural numbers\<close>

abbreviation b_rem :: "buffer_t \<Rightarrow> nat" where
  "b_rem b \<equiv> unat (b_size b) - unat (b_offset b)"

lemma buffer_wfD:
  assumes "buffer_wf b"
  shows "length (b_ptr b) = unat (b_size b)" and "unat (b_offset b) \<le> unat (b_size b)"
    and "unat (b_size b - b_offset b) = b_rem b" and "unat (b_size b) < 2 ^ 32"
  using assms unat_bound32 [of "b_size b"]
  by (simp_all add: buffer_wf_def word_le_nat_alt unat_sub_no_wrap)

lemma buffer_can_read_iff: "buffer_wf b \<Longrightarrow> buffer_can_read b n \<longleftrightarrow> unat n \<le> b_rem b"
  by (simp add: buffer_can_read_def word_le_nat_alt buffer_wfD)

lemma in_range_cursor:
  "\<lbrakk>buffer_wf b; n \<le> b_rem b\<rbrakk> \<Longrightarrow> in_range (b_ptr b) (b_offset b) n"
  using buffer_wfD [of b] by (auto simp: in_range_def)

lemma buffer_seek_cur_ok:
  assumes "buffer_wf b" and "unat n \<le> b_rem b"
  shows "buffer_seek_cur b n = (True, b\<lparr>b_offset := b_offset b + n\<rparr>)"
    and "unat (b_offset b + n) = unat (b_offset b) + unat n"
proof -
  show u: "unat (b_offset b + n) = unat (b_offset b) + unat n"
    using assms buffer_wfD [OF assms(1)] by (intro unat_add_no_wrap) simp
  show "buffer_seek_cur b n = (True, b\<lparr>b_offset := b_offset b + n\<rparr>)"
    using assms buffer_wfD(2) [OF assms(1)] u
    by (simp add: buffer_seek_cur_def word_less_nat_alt)
qed

text \<open>A seek past the end is refused, also when the sum wraps around.\<close>

lemma buffer_seek_cur_fail:
  assumes "buffer_wf b" and "b_rem b < unat n"
  shows "buffer_seek_cur b n = (False, b)"
proof (cases "unat (b_offset b) + unat n < 2 ^ 32")
  case True
  then have "unat (b_offset b + n) = unat (b_offset b) + unat n"
    by (intro unat_add_no_wrap) simp
  then show ?thesis
    using assms by (simp add: buffer_seek_cur_def word_less_nat_alt)
next
  case False
  then have "unat (b_offset b + n) < unat (b_offset b)"
    using unat_bound32 [of n] unat_bound32 [of "b_offset b"]
    by (simp add: unat_word_ariths mod_if) (use unat_bound32 [of n] in linarith)
  then show ?thesis by (simp add: buffer_seek_cur_def word_less_nat_alt)
qed

section \<open>The fixed-width accessors\<close>

text \<open>Advancing the cursor inside the buffer.\<close>

definition advance :: "buffer_t \<Rightarrow> size_t \<Rightarrow> buffer_t" where
  "advance b n = b\<lparr>b_offset := b_offset b + n\<rparr>"

lemma advance_wf: "\<lbrakk>buffer_wf b; unat n \<le> b_rem b\<rbrakk> \<Longrightarrow> buffer_wf (advance b n)"
proof -
  assume wf: "buffer_wf b" and n: "unat n \<le> b_rem b"
  have "unat (b_offset b + n) \<le> unat (b_size b)"
    using buffer_seek_cur_ok(2) [OF wf n] buffer_wfD(2) [OF wf] n by linarith
  then show ?thesis
    using buffer_wfD(1) [OF wf] by (simp add: buffer_wf_def advance_def word_le_nat_alt)
qed

lemma seek_cur_advance: "\<lbrakk>buffer_wf b; unat n \<le> b_rem b\<rbrakk> \<Longrightarrow> buffer_seek_cur b n = (True, advance b n)"
  by (simp add: buffer_seek_cur_ok advance_def)

text \<open>Replacing the contents without changing the length keeps a buffer well formed.\<close>

lemma set_ptr_wf: "\<lbrakk>buffer_wf b; length p = length (b_ptr b)\<rbrakk> \<Longrightarrow> buffer_wf (b\<lparr>b_ptr := p\<rparr>)"
  by (simp add: buffer_wf_def)

locale buffer_codec = int_codec rd wr width enc val
  for rd :: "bytes \<Rightarrow> size_t \<Rightarrow> 'w::len word option"
    and wr width enc val +
  fixes bread :: "buffer_t \<Rightarrow> (bool \<times> 'w word \<times> buffer_t) option"
    and bwrite :: "buffer_t \<Rightarrow> 'w word \<Rightarrow> (bool \<times> buffer_t) option"
  assumes bread_def: "bread b =
      (if \<not> buffer_can_read b (of_nat width) then Some (False, 0, b)
       else Option.bind (rd (b_ptr b) (b_offset b))
              (\<lambda>v. Some (True, v, snd (buffer_seek_cur b (of_nat width)))))"
    and bwrite_def: "bwrite b v =
      (if \<not> buffer_has_space b (of_nat width) then Some (False, b)
       else Option.bind (wr (b_ptr b) (b_offset b) v)
              (\<lambda>p. Some (True, snd (buffer_seek_cur (b\<lparr>b_ptr := p\<rparr>) (of_nat width)))))"
begin

lemma unat_width [simp]: "unat (of_nat width :: size_t) = width"
  using width_bounds by (simp add: unat_of_nat)

lemma bread_short: "\<lbrakk>buffer_wf b; b_rem b < width\<rbrakk> \<Longrightarrow> bread b = Some (False, 0, b)"
  by (simp add: bread_def buffer_can_read_iff)

lemma bwrite_short: "\<lbrakk>buffer_wf b; b_rem b < width\<rbrakk> \<Longrightarrow> bwrite b v = Some (False, b)"
  by (simp add: bwrite_def buffer_can_read_iff)

lemma bread_ok:
  assumes "buffer_wf b" and "width \<le> b_rem b"
  shows "\<exists>v. bread b = Some (True, v, advance b (of_nat width))
           \<and> enc v = take width (buffer_get_cur b)"
proof -
  have r: "in_range (b_ptr b) (b_offset b) width"
    using assms by (rule in_range_cursor)
  then obtain v where "rd (b_ptr b) (b_offset b) = Some v"
    using rd_ex by blast
  with r show ?thesis
    using rd_enc assms by (simp add: bread_def buffer_can_read_iff seek_cur_advance buffer_get_cur_def)
qed

lemma bwrite_ok:
  assumes wf: "buffer_wf b" and sp: "width \<le> b_rem b"
  shows "bwrite b v = Some (True, advance (b\<lparr>b_ptr := take (unat (b_offset b)) (b_ptr b) @ enc v
            @ drop (unat (b_offset b) + width) (b_ptr b)\<rparr>) (of_nat width))"
proof -
  let ?p = "take (unat (b_offset b)) (b_ptr b) @ enc v @ drop (unat (b_offset b) + width) (b_ptr b)"
  have r: "in_range (b_ptr b) (b_offset b) width"
    using assms by (rule in_range_cursor)
  have "length ?p = length (b_ptr b)"
    using r by (simp add: in_range_def length_enc)
  then have "buffer_wf (b\<lparr>b_ptr := ?p\<rparr>)"
    using wf by (rule set_ptr_wf [rotated])
  then have "buffer_seek_cur (b\<lparr>b_ptr := ?p\<rparr>) (of_nat width)
      = (True, advance (b\<lparr>b_ptr := ?p\<rparr>) (of_nat width))"
    using sp by (intro seek_cur_advance) simp_all
  then show ?thesis
    using wr_eq [OF r] wf sp by (simp add: bwrite_def buffer_can_read_iff)
qed

lemma bread_total: "buffer_wf b \<Longrightarrow> \<exists>r v b'. bread b = Some (r, v, b') \<and> buffer_wf b'"
  using bread_ok [of b] bread_short [of b] advance_wf [of b "of_nat width"]
  by (cases "width \<le> b_rem b") auto

lemma bwrite_total:
  assumes wf: "buffer_wf b"
  shows "\<exists>r b'. bwrite b v = Some (r, b') \<and> buffer_wf b'"
proof (cases "width \<le> b_rem b")
  case True
  let ?p = "take (unat (b_offset b)) (b_ptr b) @ enc v @ drop (unat (b_offset b) + width) (b_ptr b)"
  have "buffer_wf (b\<lparr>b_ptr := ?p\<rparr>)"
    using in_range_cursor [OF wf True] wf by (intro set_ptr_wf) (simp_all add: in_range_def length_enc)
  then show ?thesis
    using bwrite_ok [OF wf True] True by (auto intro!: advance_wf)
qed (use wf in \<open>auto simp: bwrite_short\<close>)

text \<open>A value written at the cursor is read back from the same position, and the cursor
  ends where the write left it.\<close>

lemma bwrite_bread:
  assumes wf: "buffer_wf b" and sp: "width \<le> b_rem b"
  shows "\<exists>b'. bwrite b v = Some (True, b') \<and>
              bread (b'\<lparr>b_offset := b_offset b\<rparr>) = Some (True, v, b')"
proof -
  let ?p = "take (unat (b_offset b)) (b_ptr b) @ enc v @ drop (unat (b_offset b) + width) (b_ptr b)"
  let ?c = "b\<lparr>b_ptr := ?p\<rparr>"
  have r: "in_range (b_ptr b) (b_offset b) width"
    using assms by (rule in_range_cursor)
  have l: "length ?p = length (b_ptr b)"
    using r by (simp add: in_range_def length_enc)
  then have wc: "buffer_wf ?c" using wf by (rule set_ptr_wf [rotated])
  have rewind: "(advance ?c (of_nat width))\<lparr>b_offset := b_offset b\<rparr> = ?c"
    by (simp add: advance_def)
  obtain w where w: "bread ?c = Some (True, w, advance ?c (of_nat width))"
      and e: "enc w = take width (buffer_get_cur ?c)"
    using bread_ok [OF wc] sp by auto
  have "enc w = enc v"
    using e r by (simp add: buffer_get_cur_def in_range_def length_enc)
  then have "w = v"
    by (metis val_enc word_unat_eq_iff)
  then show ?thesis
    using w bwrite_ok [OF assms, of v] rewind by auto
qed

end

lemmas buffer_rw_defs =
  buffer_read_u16_def buffer_write_u16_def buffer_read_u32_def buffer_write_u32_def
  buffer_read_u64_def buffer_write_u64_def

interpretation b16_be: buffer_codec read_u16_be write_u16_be 2 "be_bytes 2" be_val
    "\<lambda>b. buffer_read_u16 b BE" "\<lambda>b v. buffer_write_u16 b v BE"
  by unfold_locales (simp_all add: buffer_rw_defs)

interpretation b16_le: buffer_codec read_u16_le write_u16_le 2 "le_bytes 2" le_val
    "\<lambda>b. buffer_read_u16 b LE" "\<lambda>b v. buffer_write_u16 b v LE"
  by unfold_locales (simp_all add: buffer_rw_defs)

interpretation b32_be: buffer_codec read_u32_be write_u32_be 4 "be_bytes 4" be_val
    "\<lambda>b. buffer_read_u32 b BE" "\<lambda>b v. buffer_write_u32 b v BE"
  by unfold_locales (simp_all add: buffer_rw_defs)

interpretation b32_le: buffer_codec read_u32_le write_u32_le 4 "le_bytes 4" le_val
    "\<lambda>b. buffer_read_u32 b LE" "\<lambda>b v. buffer_write_u32 b v LE"
  by unfold_locales (simp_all add: buffer_rw_defs)

interpretation b64_be: buffer_codec read_u64_be write_u64_be 8 "be_bytes 8" be_val
    "\<lambda>b. buffer_read_u64 b BE" "\<lambda>b v. buffer_write_u64 b v BE"
  by unfold_locales (simp_all add: buffer_rw_defs)

interpretation b64_le: buffer_codec read_u64_le write_u64_le 8 "le_bytes 8" le_val
    "\<lambda>b. buffer_read_u64 b LE" "\<lambda>b v. buffer_write_u64 b v LE"
  by unfold_locales (simp_all add: buffer_rw_defs)


section \<open>Every operation keeps the buffer well formed\<close>

lemma seek_set_wf: "buffer_wf b \<Longrightarrow> buffer_wf (snd (buffer_seek_set b n))"
  by (simp add: buffer_seek_set_def buffer_wf_def not_less)

lemma seek_end_wf: "buffer_wf b \<Longrightarrow> buffer_wf (snd (buffer_seek_end b n))"
  by (simp add: buffer_seek_end_def buffer_wf_def word_le_nat_alt not_less unat_sub_no_wrap)

lemma seek_cur_wf: "buffer_wf b \<Longrightarrow> buffer_wf (snd (buffer_seek_cur b n))"
  by (cases "unat n \<le> b_rem b") (simp_all add: seek_cur_advance advance_wf buffer_seek_cur_fail)

lemma seek_pair_wf:
  "\<lbrakk>buffer_wf b; buffer_seek_set b n = (r, b')\<rbrakk> \<Longrightarrow> buffer_wf b'"
  "\<lbrakk>buffer_wf b; buffer_seek_cur b n = (r, b')\<rbrakk> \<Longrightarrow> buffer_wf b'"
  "\<lbrakk>buffer_wf b; buffer_seek_end b n = (r, b')\<rbrakk> \<Longrightarrow> buffer_wf b'"
  using seek_set_wf [of b n] seek_cur_wf [of b n] seek_end_wf [of b n] by auto

lemma length_memcpy_n: "memcpy_n d i s j n = Some d' \<Longrightarrow> length d' = length d"
  by (auto simp: memcpy_n_def bind_eq_Some_conv dest: length_st_n)

lemma read_u8_wf: "\<lbrakk>buffer_wf b; buffer_read_u8 b = Some (r, v, b')\<rbrakk> \<Longrightarrow> buffer_wf b'"
  by (auto simp: buffer_read_u8_def bind_eq_Some_conv seek_cur_wf split: if_splits)

lemma read_u16_wf: "\<lbrakk>buffer_wf b; buffer_read_u16 b e = Some (r, v, b')\<rbrakk> \<Longrightarrow> buffer_wf b'"
  using b16_be.bread_total [of b] b16_le.bread_total [of b] by (cases e) auto

lemma read_u32_wf: "\<lbrakk>buffer_wf b; buffer_read_u32 b e = Some (r, v, b')\<rbrakk> \<Longrightarrow> buffer_wf b'"
  using b32_be.bread_total [of b] b32_le.bread_total [of b] by (cases e) auto

lemma read_u64_wf: "\<lbrakk>buffer_wf b; buffer_read_u64 b e = Some (r, v, b')\<rbrakk> \<Longrightarrow> buffer_wf b'"
  using b64_be.bread_total [of b] b64_le.bread_total [of b] by (cases e) auto

lemma write_u8_wf: "\<lbrakk>buffer_wf b; buffer_write_u8 b v = Some (r, b')\<rbrakk> \<Longrightarrow> buffer_wf b'"
  by (auto simp: buffer_write_u8_def bind_eq_Some_conv split: if_splits
      intro!: seek_cur_wf set_ptr_wf dest: length_st)

lemma write_u16_wf: "\<lbrakk>buffer_wf b; buffer_write_u16 b v e = Some (r, b')\<rbrakk> \<Longrightarrow> buffer_wf b'"
  using b16_be.bwrite_total [of b v] b16_le.bwrite_total [of b v] by (cases e) auto

lemma write_u32_wf: "\<lbrakk>buffer_wf b; buffer_write_u32 b v e = Some (r, b')\<rbrakk> \<Longrightarrow> buffer_wf b'"
  using b32_be.bwrite_total [of b v] b32_le.bwrite_total [of b v] by (cases e) auto

lemma write_u64_wf: "\<lbrakk>buffer_wf b; buffer_write_u64 b v e = Some (r, b')\<rbrakk> \<Longrightarrow> buffer_wf b'"
  using b64_be.bwrite_total [of b v] b64_le.bwrite_total [of b v] by (cases e) auto

lemma write_bytes_wf: "\<lbrakk>buffer_wf b; buffer_write_bytes b d n = Some (r, b')\<rbrakk> \<Longrightarrow> buffer_wf b'"
  by (auto simp: buffer_write_bytes_def bind_eq_Some_conv split: if_splits
      intro!: seek_cur_wf set_ptr_wf dest: length_memcpy_n)

lemma read_varint_wf: "\<lbrakk>buffer_wf b; buffer_read_varint b v0 = Some (r, v, b')\<rbrakk> \<Longrightarrow> buffer_wf b'"
  by (auto simp: buffer_read_varint_def bind_eq_Some_conv split: if_splits prod.splits
      intro: seek_pair_wf(2))

lemma read_bip32_path_wf:
  "\<lbrakk>buffer_wf b; buffer_read_bip32_path b out n = Some (r, out', b')\<rbrakk> \<Longrightarrow> buffer_wf b'"
  by (auto simp: buffer_read_bip32_path_def bind_eq_Some_conv seek_cur_wf split: if_splits)

lemma move_wf: "\<lbrakk>buffer_wf b; buffer_move b out n = Some (r, out', b')\<rbrakk> \<Longrightarrow> buffer_wf b'"
  by (auto simp: buffer_move_def bind_eq_Some_conv seek_cur_wf split: if_splits)

lemma read_bytes_wf: "\<lbrakk>buffer_wf b; buffer_read_bytes b out n = Some (r, out', b')\<rbrakk> \<Longrightarrow> buffer_wf b'"
  by (auto simp: buffer_read_bytes_def bind_eq_Some_conv seek_cur_wf split: if_splits)

lemma inc_offset_wf: "\<lbrakk>buffer_wf b; buffer_can_read b 1\<rbrakk> \<Longrightarrow> buffer_wf (b\<lparr>b_offset := b_offset b + 1\<rparr>)"
  using advance_wf [of b 1] by (simp add: buffer_can_read_iff advance_def)

lemma get_path_bip32_wf:
  "\<lbrakk>buffer_wf b; buffer_get_path_bip32 (Some b) p = Some (r, Some b', p')\<rbrakk> \<Longrightarrow> buffer_wf b'"
  by (auto simp: buffer_get_path_bip32_def Let_def bind_eq_Some_conv seek_cur_wf inc_offset_wf
      split: if_splits option.splits)

text \<open>One call on a buffer, by its own code or by a client, as a step.\<close>

inductive buffer_step :: "buffer_t \<Rightarrow> buffer_t \<Rightarrow> bool" where
  seek_set: "buffer_seek_set b n = (r, b') \<Longrightarrow> buffer_step b b'"
| seek_cur: "buffer_seek_cur b n = (r, b') \<Longrightarrow> buffer_step b b'"
| seek_end: "buffer_seek_end b n = (r, b') \<Longrightarrow> buffer_step b b'"
| read_u8: "buffer_read_u8 b = Some (r, v, b') \<Longrightarrow> buffer_step b b'"
| read_u16: "buffer_read_u16 b e = Some (r, v16, b') \<Longrightarrow> buffer_step b b'"
| read_u32: "buffer_read_u32 b e = Some (r, v32, b') \<Longrightarrow> buffer_step b b'"
| read_u64: "buffer_read_u64 b e = Some (r, v64, b') \<Longrightarrow> buffer_step b b'"
| read_varint: "buffer_read_varint b v0 = Some (r, v64, b') \<Longrightarrow> buffer_step b b'"
| read_bip32_path: "buffer_read_bip32_path b path n = Some (r, path', b') \<Longrightarrow> buffer_step b b'"
| get_path_bip32: "buffer_get_path_bip32 (Some b) bip32 = Some (r, Some b', bip32') \<Longrightarrow> buffer_step b b'"
| move: "buffer_move b out n = Some (r, out', b') \<Longrightarrow> buffer_step b b'"
| read_bytes: "buffer_read_bytes b out n = Some (r, out', b') \<Longrightarrow> buffer_step b b'"
| write_u8: "buffer_write_u8 b v = Some (r, b') \<Longrightarrow> buffer_step b b'"
| write_u16: "buffer_write_u16 b v16 e = Some (r, b') \<Longrightarrow> buffer_step b b'"
| write_u32: "buffer_write_u32 b v32 e = Some (r, b') \<Longrightarrow> buffer_step b b'"
| write_u64: "buffer_write_u64 b v64 e = Some (r, b') \<Longrightarrow> buffer_step b b'"
| write_bytes: "buffer_write_bytes b data n = Some (r, b') \<Longrightarrow> buffer_step b b'"

lemmas buffer_op_wf = seek_pair_wf
  read_u8_wf read_u16_wf read_u32_wf read_u64_wf read_varint_wf read_bip32_path_wf
  get_path_bip32_wf move_wf read_bytes_wf write_u8_wf write_u16_wf write_u32_wf write_u64_wf
  write_bytes_wf

lemma buffer_step_wf: "\<lbrakk>buffer_step b b'; buffer_wf b\<rbrakk> \<Longrightarrow> buffer_wf b'"
  by (induction rule: buffer_step.induct)
    (auto dest: buffer_op_wf)

lemma buffer_create_wf: "length p = unat n \<Longrightarrow> buffer_wf (buffer_create p n)"
  by (simp add: buffer_create_def buffer_wf_def)

lemma buffer_steps_wf: "\<lbrakk>buffer_step\<^sup>*\<^sup>* b b'; buffer_wf b\<rbrakk> \<Longrightarrow> buffer_wf b'"
  by (induction rule: rtranclp_induct) (auto intro: buffer_step_wf)


section \<open>No operation leaves the array\<close>

lemma read_u8_ok:
  assumes "buffer_wf b" and "0 < b_rem b"
  shows "buffer_read_u8 b = Some (True, hd (buffer_get_cur b), advance b 1)"
proof -
  have "unat (b_offset b) < length (b_ptr b)"
    using assms buffer_wfD(1) [OF assms(1)] by simp
  then show ?thesis
    using assms by (simp add: buffer_read_u8_def buffer_can_read_iff seek_cur_advance ld_in
        buffer_get_cur_def hd_drop_conv_nth)
qed

lemma read_u8_total: "buffer_wf b \<Longrightarrow> buffer_read_u8 b \<noteq> None"
  by (cases "0 < b_rem b") (simp_all add: read_u8_ok, auto simp: buffer_read_u8_def buffer_can_read_iff)

lemma write_u8_total: "buffer_wf b \<Longrightarrow> buffer_write_u8 b v \<noteq> None"
  using buffer_wfD(1,2) [of b] by (auto simp: buffer_write_u8_def buffer_can_read_iff st_in)

lemma read_uint_total:
  assumes "buffer_wf b"
  shows "buffer_read_u16 b e \<noteq> None" "buffer_read_u32 b e \<noteq> None" "buffer_read_u64 b e \<noteq> None"
  using b16_be.bread_total [OF assms] b16_le.bread_total [OF assms] b32_be.bread_total [OF assms]
    b32_le.bread_total [OF assms] b64_be.bread_total [OF assms] b64_le.bread_total [OF assms]
  by (cases e; auto)+

lemma write_uint_total:
  assumes "buffer_wf b"
  shows "buffer_write_u16 b v16 e \<noteq> None" "buffer_write_u32 b v32 e \<noteq> None"
    "buffer_write_u64 b v64 e \<noteq> None"
  using b16_be.bwrite_total [OF assms, of v16] b16_le.bwrite_total [OF assms, of v16]
    b32_be.bwrite_total [OF assms, of v32] b32_le.bwrite_total [OF assms, of v32]
    b64_be.bwrite_total [OF assms, of v64] b64_le.bwrite_total [OF assms, of v64]
  by (cases e; auto)+

lemma cursor_length: "buffer_wf b \<Longrightarrow> length (buffer_get_cur b) = b_rem b"
  by (simp add: buffer_get_cur_def buffer_wfD)

lemma cursor_small: "buffer_wf b \<Longrightarrow> length (buffer_get_cur b) \<le> 2 ^ 32"
  using buffer_wfD(4) [of b] by (simp add: cursor_length)

lemma read_varint_total:
  assumes "buffer_wf b"
  shows "buffer_read_varint b v0 \<noteq> None"
proof -
  have "unat (b_size b - b_offset b) \<le> length (buffer_get_cur b)"
    using assms by (simp add: cursor_length buffer_wfD(3))
  from varint_read_total [OF this cursor_small [OF assms], of v0] show ?thesis
    by (auto simp: buffer_read_varint_def Let_def split: prod.splits)
qed

lemma read_bip32_path_total:
  assumes wf: "buffer_wf b" and n: "unat n \<le> length out"
  shows "buffer_read_bip32_path b out n \<noteq> None"
proof -
  have "unat (b_size b - b_offset b) \<le> length (buffer_get_cur b)"
    using wf by (simp add: cursor_length buffer_wfD(3))
  from bip32_path_read_accepts [OF _ n this cursor_small [OF wf]]
    bip32_path_read_rejects [OF _ n this cursor_small [OF wf]]
  show ?thesis
    by (cases "path_request_ok (b_size b - b_offset b) n") (auto simp: buffer_read_bip32_path_def)
qed

lemma copy_total:
  assumes "buffer_wf b" and "unat n \<le> length out"
  shows "buffer_copy b out n =
    (if unat n < b_rem b then Some (False, out)
     else Some (True, buffer_get_cur b @ drop (b_rem b) out))"
  using assms buffer_wfD(1,2) [OF assms(1)]
  by (auto simp: buffer_copy_def buffer_wfD(3) word_less_nat_alt memcpy_n_in buffer_get_cur_def)

lemma read_bytes_total:
  assumes "buffer_wf b" and "unat n \<le> length out"
  shows "buffer_read_bytes b out n =
    (if b_rem b < unat n then Some (False, out, b)
     else Some (True, take (unat n) (buffer_get_cur b) @ drop (unat n) out, advance b n))"
  using assms buffer_wfD(1,2) [OF assms(1)]
  by (auto simp: buffer_read_bytes_def buffer_wfD(3) word_less_nat_alt memcpy_n_in
      buffer_get_cur_def seek_cur_advance)

lemma write_bytes_total:
  assumes "buffer_wf b" and "unat n \<le> length d"
  shows "buffer_write_bytes b d n =
    (if b_rem b < unat n then Some (False, b)
     else Some (True, advance (b\<lparr>b_ptr := take (unat (b_offset b)) (b_ptr b) @ take (unat n) d
                 @ drop (unat (b_offset b) + unat n) (b_ptr b)\<rparr>) n))"
proof (cases "unat n \<le> b_rem b")
  case True
  let ?p = "take (unat (b_offset b)) (b_ptr b) @ take (unat n) d
                 @ drop (unat (b_offset b) + unat n) (b_ptr b)"
  have l: "length ?p = length (b_ptr b)"
    using True assms buffer_wfD(1,2) [OF assms(1)] by simp
  then have "buffer_wf (b\<lparr>b_ptr := ?p\<rparr>)" using assms(1) by (rule set_ptr_wf [rotated])
  then have "buffer_seek_cur (b\<lparr>b_ptr := ?p\<rparr>) n = (True, advance (b\<lparr>b_ptr := ?p\<rparr>) n)"
    using True by (intro seek_cur_advance) simp_all
  then show ?thesis
    using True assms buffer_wfD(1,2) [OF assms(1)]
    by (simp add: buffer_write_bytes_def buffer_can_read_iff memcpy_n_in)
qed (use assms in \<open>simp add: buffer_write_bytes_def buffer_can_read_iff\<close>)

lemma peek_n_ok:
  assumes wf: "buffer_wf b" and n: "n \<noteq> - 1"
  shows "buffer_peek_n b n v =
    (if unat n < b_rem b then Some (True, buffer_get_cur b ! unat n) else Some (False, v))"
proof -
  have n1: "unat (n + 1) = unat n + 1"
    using n by (metis add.commute unatSuc add_eq_0_iff plus_1_eq_Suc)
  show ?thesis
  proof (cases "unat n < b_rem b")
    case True
    then have "unat (b_offset b + n) = unat (b_offset b) + unat n"
      using wf by (intro buffer_seek_cur_ok(2)) simp_all
    then show ?thesis
      using True buffer_wfD(1,2) [OF wf] wf n1
      by (simp add: buffer_peek_n_def word_less_nat_alt buffer_wfD(3) ld_in buffer_get_cur_def)
  next
    case False
    then show ?thesis using wf n1
      by (simp add: buffer_peek_n_def word_less_nat_alt buffer_wfD(3))
  qed
qed


lemma cursor_advance_1:
  "\<lbrakk>buffer_wf b; 0 < b_rem b\<rbrakk> \<Longrightarrow> buffer_get_cur (advance b 1) = tl (buffer_get_cur b)"
  using buffer_seek_cur_ok(2) [of b 1] by (simp add: buffer_get_cur_def advance_def drop_Suc tl_drop)

lemma unat_len8: "unat (ucast (len :: u8) :: size_t) = unat len"
  using unat_bound8 [of len] by (simp add: unsigned_ucast_eq take_bit_nat_eq_self)

lemma unat_path_bytes: "unat (4 * ucast (len :: u8) :: size_t) = 4 * unat len"
  using unat_bound8 [of len] by (subst unat_mult_lem [THEN iffD1]) (simp_all add: unat_len8)

lemma path_record:
  "p\<lparr>p_length := len, p_path := path\<rparr> = \<lparr>p_length = len, p_path = path\<rparr>"
  "p\<lparr>p_length := len\<rparr> = \<lparr>p_length = len, p_path = p_path p\<rparr>"
  by (cases p; simp)+

text \<open>\<open>buffer_get_path_bip32\<close> after its length byte, in terms of the cursor.\<close>

lemma get_path_bip32_unfold:
  assumes wf: "buffer_wf b" and r: "0 < b_rem b"
    and len: "len = hd (buffer_get_cur b)"
  shows "buffer_get_path_bip32 (Some b) (Some p) =
     (if \<not> 4 * unat len \<le> b_rem b - 1 then Some (False, Some (advance b 1), Some (p\<lparr>p_length := len\<rparr>))
      else Option.bind (bip32_path_read (Some (tl (buffer_get_cur b)))
                          (b_size (advance b 1) - b_offset (advance b 1)) (p_path p) (ucast len))
        (\<lambda>(ok, path).
           if \<not> ok then Some (False, Some (advance b 1), Some (p\<lparr>p_length := len, p_path := path\<rparr>))
           else Some (True, Some (advance (advance b 1) (4 * ucast len)),
                      Some (p\<lparr>p_length := len, p_path := path\<rparr>))))"
  (is "_ = ?rhs")
proof -
  let ?c = "advance b 1"
  have wc: "buffer_wf ?c" using wf r by (simp add: advance_wf)
  have rc: "b_rem ?c = b_rem b - 1"
    using buffer_seek_cur_ok(2) [OF wf, of 1] r by (simp add: advance_def)
  have "unat (b_offset b) < length (b_ptr b)"
    using r buffer_wfD(1) [OF wf] by simp
  then have ld0: "ld (b_ptr b) (unat (b_offset b)) = Some len"
    by (simp add: ld_in len buffer_get_cur_def hd_drop_conv_nth)
  have cr1: "buffer_can_read b 1" using wf r by (simp add: buffer_can_read_iff)
  have cur: "buffer_get_cur ?c = tl (buffer_get_cur b)"
    using wf r by (rule cursor_advance_1)
  have inc: "b\<lparr>b_offset := b_offset b + 1\<rparr> = ?c" by (simp add: advance_def)
  have seek: "snd (buffer_seek_cur ?c (4 * ucast len)) = advance ?c (4 * ucast len)"
    if "4 * unat len \<le> b_rem b - 1"
    using that wc by (simp add: seek_cur_advance unat_path_bytes rc)
  show ?thesis
    using cr1 ld0 wc seek
    by (auto simp: buffer_get_path_bip32_def Let_def inc buffer_can_read_iff unat_path_bytes rc cur
        split: Option.bind_split)
qed

section \<open>Properties\<close>

text \<open>Property C31.  Start from any array wrapped by \<open>buffer_create\<close> and make any sequence
  of calls of the buffer API, successful or not: the declared size is still the size of the
  array, the cursor is inside it, and every fixed-width or varint accessor called next stays
  inside the array.\<close>

theorem buffer_reachable_safe:
  assumes "length p = unat n" and "buffer_step\<^sup>*\<^sup>* (buffer_create p n) b"
  shows "buffer_wf b \<and> buffer_read_u8 b \<noteq> None \<and> buffer_read_u16 b e \<noteq> None \<and>
    buffer_read_u32 b e \<noteq> None \<and> buffer_read_u64 b e \<noteq> None \<and> buffer_read_varint b v0 \<noteq> None \<and>
    buffer_write_u8 b v8 \<noteq> None \<and> buffer_write_u16 b v16 e \<noteq> None \<and>
    buffer_write_u32 b v32 e \<noteq> None \<and> buffer_write_u64 b v64 e \<noteq> None"
proof -
  have wf: "buffer_wf b"
    using assms(2) buffer_create_wf [OF assms(1)] by (rule buffer_steps_wf)
  then show ?thesis
    by (simp only: simp_thms read_u8_total read_uint_total read_varint_total write_u8_total
        write_uint_total not_False_eq_True)
qed

theorem buffer_reachable_safe_witness:
  "buffer_wf (snd (buffer_seek_cur (buffer_create [1, 2, 3] 3) 2))"
proof -
  have "buffer_step\<^sup>*\<^sup>* (buffer_create [1, 2, 3] 3) (snd (buffer_seek_cur (buffer_create [1, 2, 3] 3) 2))"
    by (rule r_into_rtranclp, rule buffer_step.seek_cur) (rule prod.collapse [symmetric])
  from buffer_reachable_safe [OF _ this] show ?thesis by simp
qed

text \<open>Property C32.  Integers survive the buffer, and each accessor needs exactly the bytes of its width: with at least
  2, 4 or 8 bytes left, a 16, 32 or 64 bit value written at the cursor in either byte order is read back, from the
  position it was written at, in the same byte order, and the read leaves the cursor where the write left it; with
  fewer bytes left both accessors report failure and change nothing, and the read gives 0.\<close>

theorem buffer_uint_roundtrip:
  assumes "buffer_wf b"
  shows "(if 2 \<le> b_rem b
         then \<exists>b'. buffer_write_u16 b v16 e = Some (True, b') \<and>
            buffer_read_u16 (b'\<lparr>b_offset := b_offset b\<rparr>) e = Some (True, v16, b')
         else buffer_write_u16 b v16 e = Some (False, b) \<and> buffer_read_u16 b e = Some (False, 0, b)) \<and>
    (if 4 \<le> b_rem b
         then \<exists>b'. buffer_write_u32 b v32 e = Some (True, b') \<and>
            buffer_read_u32 (b'\<lparr>b_offset := b_offset b\<rparr>) e = Some (True, v32, b')
         else buffer_write_u32 b v32 e = Some (False, b) \<and> buffer_read_u32 b e = Some (False, 0, b)) \<and>
    (if 8 \<le> b_rem b
         then \<exists>b'. buffer_write_u64 b v64 e = Some (True, b') \<and>
            buffer_read_u64 (b'\<lparr>b_offset := b_offset b\<rparr>) e = Some (True, v64, b')
         else buffer_write_u64 b v64 e = Some (False, b) \<and> buffer_read_u64 b e = Some (False, 0, b))"
  using assms
  by (cases e; intro conjI; auto intro!: b16_be.bwrite_bread b16_le.bwrite_bread b32_be.bwrite_bread b32_le.bwrite_bread
      b64_be.bwrite_bread b64_le.bwrite_bread
      simp: b16_be.bwrite_short b16_le.bwrite_short b16_be.bread_short b16_le.bread_short
        b32_be.bwrite_short b32_le.bwrite_short b32_be.bread_short b32_le.bread_short
        b64_be.bwrite_short b64_le.bwrite_short b64_be.bread_short b64_le.bread_short)

theorem buffer_uint_roundtrip_witness:
  "(\<exists>b'. buffer_write_u32 (buffer_create (replicate 5 0) 5) 0xDEADBEEF BE = Some (True, b') \<and>
     buffer_read_u32 (b'\<lparr>b_offset := 0\<rparr>) BE = Some (True, 0xDEADBEEF, b')) \<and>
   buffer_write_u64 (buffer_create (replicate 5 0) 5) 7 LE = Some (False, buffer_create (replicate 5 0) 5)"
  using buffer_uint_roundtrip [where b = "buffer_create (replicate 5 0) 5" and e = BE and ?v32.0 = "0xDEADBEEF"]
    buffer_uint_roundtrip [where b = "buffer_create (replicate 5 0) 5" and e = LE and ?v64.0 = 7]
  by (simp add: buffer_wf_def buffer_create_def)

text \<open>Property C34.  Reading a length-prefixed derivation path: the call succeeds exactly when
  the announced length is between 1 and 10 and all its components are in the buffer; it then
  stores the big-endian components and moves past them.  Otherwise it reports failure with the
  cursor just after the length byte.\<close>

theorem buffer_get_path_bip32_spec:
  assumes wf: "buffer_wf b" and r: "0 < b_rem b" and p: "length (p_path p) = MAX_BIP32_PATH"
    and len: "len = hd (buffer_get_cur b)"
  shows "if 0 < unat len \<and> unat len \<le> MAX_BIP32_PATH \<and> 1 + 4 * unat len \<le> b_rem b
    then buffer_get_path_bip32 (Some b) (Some p) =
      Some (True, Some (advance (advance b 1) (4 * ucast len)),
        Some \<lparr>p_length = len, p_path = map (path_word (tl (buffer_get_cur b))) [0..<unat len]
                @ drop (unat len) (p_path p)\<rparr>)
    else \<exists>path. buffer_get_path_bip32 (Some b) (Some p) =
      Some (False, Some (advance b 1), Some \<lparr>p_length = len, p_path = path\<rparr>)
      \<and> length path = MAX_BIP32_PATH"
proof -
  let ?c = "advance b 1"
  note step = get_path_bip32_unfold [OF wf r len, of p]
  have wc: "buffer_wf ?c" using wf r by (simp add: advance_wf)
  have av: "unat (b_size ?c - b_offset ?c) \<le> length (tl (buffer_get_cur b))"
    using wc wf r by (simp add: cursor_advance_1 [symmetric] cursor_length buffer_wfD(3))
  have sm: "length (tl (buffer_get_cur b)) \<le> 2 ^ 32"
    using cursor_small [OF wc] wf r by (simp add: cursor_advance_1)
  have sz: "unat (b_size ?c - b_offset ?c) = b_rem b - 1"
    using buffer_wfD(3) [OF wc] buffer_seek_cur_ok(2) [OF wf, of 1] r by (simp add: advance_def)
  show ?thesis
  proof (cases "4 * unat len \<le> b_rem b - 1 \<and> unat len \<le> 10")
    case True
    then have lp: "unat (ucast len :: size_t) \<le> length (p_path p)"
      using p by (simp add: unat_len8 MAX_BIP32_PATH_def)
    note acc = bip32_path_read_accepts [OF _ lp av sm] and rej = bip32_path_read_rejects [OF _ lp av sm]
    show ?thesis
    proof (cases "0 < unat len")
      case pos: True
      have fits: "1 + 4 * unat len \<le> b_rem b" using True r by linarith
      from pos have "path_request_ok (b_size ?c - b_offset ?c) (ucast len)"
        using True by (simp add: path_request_ok_def unat_len8 sz MAX_BIP32_PATH_def)
      from acc [OF this] show ?thesis
        using True pos r fits by (simp add: step path_record unat_len8 MAX_BIP32_PATH_def)
    next
      case False
      then have "\<not> path_request_ok (b_size ?c - b_offset ?c) (ucast len)"
        by (simp add: path_request_ok_def unat_len8)
      from rej [OF this] show ?thesis
        using True False p by (auto simp: step path_record)
    qed
  next
    case False
    then show ?thesis
      using p r by (auto simp: step path_record bip32_path_read_def unat_len8 MAX_BIP32_PATH_def)
  qed
qed


theorem buffer_get_path_bip32_spec_witness:
  "buffer_get_path_bip32 (Some (buffer_create [1, 0x80, 0, 0, 44, 7] 6))
     (Some \<lparr>p_length = 0, p_path = replicate 10 0\<rparr>) =
   Some (True, Some \<lparr>b_ptr = [1, 0x80, 0, 0, 44, 7], b_size = 6, b_offset = 5\<rparr>,
     Some \<lparr>p_length = 1, p_path = 0x8000002C # replicate 9 0\<rparr>)"
  using buffer_get_path_bip32_spec [where b = "buffer_create [1, 0x80, 0, 0, 44, 7] 6" and len = 1
      and p = "\<lparr>p_length = 0, p_path = replicate 10 0\<rparr>"]
  by (simp add: buffer_wf_def buffer_create_def buffer_get_cur_def MAX_BIP32_PATH_def advance_def
      path_word_def horner_def)

text \<open>\<open>buffer_move\<close> copies all remaining bytes, but it moves the cursor by the
  size of the destination: the bytes are consumed only when the destination has exactly the
  remaining size.  With a larger destination the call succeeds and the cursor stays, so the
  next call delivers the same bytes again.\<close>

lemma buffer_move_cursor:
  assumes wf: "buffer_wf b" and out: "unat n \<le> length out"
  shows "buffer_move b out n =
    (if unat n < b_rem b then Some (False, out, b)
     else Some (True, buffer_get_cur b @ drop (b_rem b) out,
                if unat n = b_rem b then b\<lparr>b_offset := b_size b\<rparr> else b))"
proof -
  have "advance b n = b\<lparr>b_offset := b_size b\<rparr>" if "unat n = b_rem b"
    using that buffer_seek_cur_ok(2) [OF wf, of n] buffer_wfD(2) [OF wf]
    by (simp add: advance_def word_unat_eq_iff)
  then show ?thesis
    by (auto simp: buffer_move_def copy_total [OF assms] seek_cur_advance wf buffer_seek_cur_fail)
qed

text \<open>\<open>buffer_peek_n\<close> returns the byte at the requested distance or fails
  without touching its result, except at the largest distance: there its bound wraps to zero,
  the check passes, and with a cursor past the first byte the call succeeds with the byte
  before the cursor.\<close>

lemma buffer_peek_n_spec:
  assumes wf: "buffer_wf b"
  shows "if n \<noteq> - 1
    then buffer_peek_n b n v =
      (if unat n < b_rem b then Some (True, buffer_get_cur b ! unat n) else Some (False, v))
    else buffer_peek_n b n v =
      (if b_offset b = 0 then None else Some (True, b_ptr b ! (unat (b_offset b) - 1)))"
proof (cases "n = - 1")
  case True
  have len: "length (b_ptr b) = unat (b_size b)" and le: "unat (b_offset b) \<le> unat (b_size b)"
    using buffer_wfD [OF wf] by simp_all
  have "unat (- 1 :: size_t) = 4294967295"
    by (simp add: unsigned_minus_1_eq_mask mask_eq_exp_minus_1)
  moreover have "unat (b_offset b - 1) = unat (b_offset b) - 1" if "b_offset b \<noteq> 0"
    using that by (simp add: unat_minus_one)
  ultimately show ?thesis
    using True len le unat_bound32 [of "b_size b"]
    by (auto simp: buffer_peek_n_def ld_def unat_gt_0 [symmetric])
next
  case False
  then show ?thesis using peek_n_ok [OF wf False] by simp
qed

end
