(* ===== verification/Apdu_Parser.thy ===== *)
theory Apdu_Parser
  imports Prelude
begin

text \<open>
  The command header parser of \<^verbatim>\<open>lib_standard_app/parser.c\<close>.  The data pointer of
  the command is the suffix of the received buffer it points to, or \<open>NULL\<close>; fields that a
  failing call has not assigned keep the value they had.
\<close>

definition OFFSET_CLA :: nat where "OFFSET_CLA = 0"
definition OFFSET_INS :: nat where "OFFSET_INS = 1"
definition OFFSET_P1 :: nat where "OFFSET_P1 = 2"
definition OFFSET_P2 :: nat where "OFFSET_P2 = 3"
definition OFFSET_LC :: nat where "OFFSET_LC = 4"
definition OFFSET_CDATA :: nat where "OFFSET_CDATA = 5"

lemmas apdu_offsets =
  OFFSET_CLA_def OFFSET_INS_def OFFSET_P1_def OFFSET_P2_def OFFSET_LC_def OFFSET_CDATA_def

record command_t =
  c_cla :: u8
  c_ins :: u8
  c_p1 :: u8
  c_p2 :: u8
  c_lc :: u8
  c_data :: "bytes option"

definition apdu_parser :: "command_t \<Rightarrow> bytes \<Rightarrow> size_t \<Rightarrow> (bool \<times> command_t) option" where
  "apdu_parser cmd buf buf_len =
     (if buf_len < of_nat OFFSET_LC then Some (False, cmd)
      else do {
        (ok, cmd) \<leftarrow>
          (if buf_len = of_nat OFFSET_LC then Some (True, cmd\<lparr>c_lc := 0\<rparr>)
           else do {
             lc \<leftarrow> ld buf OFFSET_LC;
             let cmd = cmd\<lparr>c_lc := lc\<rparr>;
             Some (\<not> (buf_len - of_nat OFFSET_CDATA \<noteq> ucast (c_lc cmd)), cmd) });
        if \<not> ok then Some (False, cmd)
        else do {
          cla \<leftarrow> ld buf OFFSET_CLA;
          ins \<leftarrow> ld buf OFFSET_INS;
          p1 \<leftarrow> ld buf OFFSET_P1;
          p2 \<leftarrow> ld buf OFFSET_P2;
          let cmd = cmd\<lparr>c_cla := cla, c_ins := ins, c_p1 := p1, c_p2 := p2,
            c_data := (if c_lc cmd > 0 then Some (drop OFFSET_CDATA buf) else None)\<rparr>;
          Some (True, cmd) } })"

text \<open>The buffers that hold one command: the four header bytes alone, or the header, the
  length byte and exactly that many bytes of data.\<close>

definition apdu_shape :: "bytes \<Rightarrow> bool" where
  "apdu_shape buf \<longleftrightarrow> length buf = 4 \<or> (5 \<le> length buf \<and> unat (buf ! 4) = length buf - 5)"

definition apdu_lc :: "bytes \<Rightarrow> u8" where
  "apdu_lc buf = (if length buf = 4 then 0 else buf ! 4)"

section \<open>Properties\<close>

text \<open>Property C35.  The parser never reads outside the received buffer and accepts exactly the
  buffers that hold one complete command; an accepted command has the header bytes, the length
  and the data of the buffer, and no data pointer when it has no data.\<close>

theorem apdu_parser_spec:
  assumes "length buf = unat n"
  shows "if apdu_shape buf
    then apdu_parser cmd buf n = Some (True,
      \<lparr>c_cla = buf ! 0, c_ins = buf ! 1, c_p1 = buf ! 2, c_p2 = buf ! 3, c_lc = apdu_lc buf,
       c_data = if apdu_lc buf = 0 then None else Some (drop 5 buf)\<rparr>)
    else \<exists>lc. apdu_parser cmd buf n = Some (False, cmd\<lparr>c_lc := lc\<rparr>)"
proof -
  have lt: "n < 4 \<longleftrightarrow> length buf < 4" and eq: "n = 4 \<longleftrightarrow> length buf = 4"
    using assms by (simp_all add: word_less_nat_alt word_unat_eq_iff)
  have sub: "n - 5 = ucast (buf ! 4) \<longleftrightarrow> unat (buf ! 4) = length buf - 5" if "5 \<le> length buf"
  proof -
    have "unat (n - 5) = length buf - 5"
      using that assms by (simp add: unat_sub_no_wrap word_le_nat_alt)
    moreover have "unat (ucast (buf ! 4) :: size_t) = unat (buf ! 4)"
      using unat_bound8 [of "buf ! 4"] by (simp add: unsigned_ucast_eq take_bit_nat_eq_self)
    ultimately show ?thesis by (auto simp: word_unat_eq_iff)
  qed
  have same: "\<exists>lc. cmd = cmd\<lparr>c_lc := lc\<rparr>"
    by (rule exI [of _ "c_lc cmd"]) simp
  consider "length buf < 4" | "length buf = 4" | "5 \<le> length buf" by linarith
  then show ?thesis
  proof cases
    case 1
    then show ?thesis using lt same by (simp add: apdu_parser_def apdu_offsets apdu_shape_def)
  next
    case 2
    then show ?thesis using lt eq
      by (cases cmd) (simp add: apdu_parser_def apdu_offsets apdu_shape_def apdu_lc_def ld_in)
  next
    case 3
    then have "\<not> n < 4" "n \<noteq> 4" "ld buf 0 = Some (buf ! 0)"
      using lt eq by (auto simp: ld_def)
    then show ?thesis using 3 sub [OF 3]
      by (cases cmd)
        (auto simp: apdu_parser_def apdu_offsets apdu_shape_def apdu_lc_def ld_in word_gt_0 Let_def)
  qed
qed

theorem apdu_parser_spec_witness:
  "apdu_parser \<lparr>c_cla = 0, c_ins = 0, c_p1 = 0, c_p2 = 0, c_lc = 0, c_data = None\<rparr>
     [0xE0, 3, 1, 2, 2, 7, 8] 7 =
   Some (True, \<lparr>c_cla = 0xE0, c_ins = 3, c_p1 = 1, c_p2 = 2, c_lc = 2, c_data = Some [7, 8]\<rparr>)"
  using apdu_parser_spec [where buf = "[0xE0, 3, 1, 2, 2, 7, 8]" and n = 7
      and cmd = "\<lparr>c_cla = 0, c_ins = 0, c_p1 = 0, c_p2 = 0, c_lc = 0, c_data = None\<rparr>"]
  by (simp add: apdu_shape_def apdu_lc_def)

end
