(* ===== verification/Linked_Lists.thy ===== *)
theory Linked_Lists
  imports Prelude
begin

text \<open>
  The intrusive linked lists of \<^verbatim>\<open>lib_lists/lists.c\<close>.

  Nodes are addresses.  The state holds the variable \<open>*list\<close> (\<open>h_list\<close> is
  \<^term>\<open>None\<close> when the argument \<open>list\<close> is itself \<open>NULL\<close>) and the link fields of
  all nodes.  Following a \<open>NULL\<close> link is \<^term>\<open>None\<close>, and so is a loop that never
  ends: the functions that walk a list are \<open>partial_function (option)\<close>, because a
  cyclic list keeps them running.  The callbacks belong to the application and are parameters:
  predicates and comparisons read a node, a delete callback may change the node it is given.
\<close>

type_synonym addr = nat
type_synonym ptr = "addr option"

record lheap =
  h_list :: "ptr option"
  h_next :: "addr \<Rightarrow> ptr"
  h_prev :: "addr \<Rightarrow> ptr"

type_synonym del_func = "(lheap \<Rightarrow> addr \<Rightarrow> lheap) option"
type_synonym pred_func = "(addr \<Rightarrow> bool) option"
type_synonym cmp_func = "(addr \<Rightarrow> addr \<Rightarrow> bool) option"

abbreviation set_next :: "lheap \<Rightarrow> addr \<Rightarrow> ptr \<Rightarrow> lheap" where
  "set_next s a p \<equiv> s\<lparr>h_next := (h_next s)(a := p)\<rparr>"

abbreviation set_prev :: "lheap \<Rightarrow> addr \<Rightarrow> ptr \<Rightarrow> lheap" where
  "set_prev s a p \<equiv> s\<lparr>h_prev := (h_prev s)(a := p)\<rparr>"

abbreviation set_list :: "lheap \<Rightarrow> ptr \<Rightarrow> lheap" where
  "set_list s p \<equiv> s\<lparr>h_list := Some p\<rparr>"

definition call_del :: "del_func \<Rightarrow> lheap \<Rightarrow> addr \<Rightarrow> lheap" where
  "call_del del_func s a = (case del_func of None \<Rightarrow> s | Some f \<Rightarrow> f s a)"

section \<open>The shared operations\<close>

definition push_front_internal :: "lheap \<Rightarrow> ptr \<Rightarrow> bool \<Rightarrow> (bool \<times> lheap) option" where
  "push_front_internal s node doubly_linked =
     (case (h_list s, node) of
        (Some l, Some n) \<Rightarrow>
          let s = set_next s n l;
              s = set_list s (Some n);
              s = (if doubly_linked
                   then set_prev (case h_next s n of None \<Rightarrow> s | Some m \<Rightarrow> set_prev s m (Some n)) n None
                   else s)
          in Some (True, s)
      | _ \<Rightarrow> Some (False, s))"

definition pop_front_internal :: "lheap \<Rightarrow> del_func \<Rightarrow> bool \<Rightarrow> (bool \<times> lheap) option" where
  "pop_front_internal s del_func doubly_linked =
     (case h_list s of
        Some (Some tmp) \<Rightarrow>
          let s = set_list s (h_next s tmp);
              s = call_del del_func s tmp
          in (if doubly_linked
              then (case h_list s of
                      Some (Some m) \<Rightarrow> Some (True, set_prev s m None)
                    | Some None \<Rightarrow> Some (True, s)
                    | None \<Rightarrow> None)
              else Some (True, s))
      | _ \<Rightarrow> Some (False, s))"

text \<open>\<open>while (tmp->next != NULL) tmp = tmp->next;\<close>\<close>

partial_function (option) last_node :: "lheap \<Rightarrow> addr \<Rightarrow> addr option" where
  "last_node s tmp = (case h_next s tmp of None \<Rightarrow> Some tmp | Some m \<Rightarrow> last_node s m)"

definition push_back_internal :: "lheap \<Rightarrow> ptr \<Rightarrow> bool \<Rightarrow> (bool \<times> lheap) option" where
  "push_back_internal s node doubly_linked =
     (case (h_list s, node) of
        (Some l, Some n) \<Rightarrow>
          let s = set_next s n None in
          (case l of
             None \<Rightarrow>
               let s = (if doubly_linked then set_prev s n None else s)
               in Some (True, set_list s (Some n))
           | Some first \<Rightarrow> do {
               tmp \<leftarrow> last_node s first;
               let s = (if doubly_linked then set_prev s n (Some tmp) else s);
               Some (True, set_next s tmp (Some n)) })
      | _ \<Rightarrow> Some (False, s))"

definition insert_after_internal :: "lheap \<Rightarrow> ptr \<Rightarrow> ptr \<Rightarrow> bool \<Rightarrow> (bool \<times> lheap) option" where
  "insert_after_internal s ref node doubly_linked =
     (case (ref, node) of
        (Some r, Some n) \<Rightarrow>
          let s = (if doubly_linked
                   then set_prev (case h_next s r of None \<Rightarrow> s | Some m \<Rightarrow> set_prev s m (Some n)) n (Some r)
                   else s);
              s = set_next s n (h_next s r);
              s = set_next s r (Some n)
          in Some (True, s)
      | _ \<Rightarrow> Some (False, s))"

text \<open>\<open>while ((it->next != node) && (it->next != NULL)) it = it->next;\<close>\<close>

partial_function (option) find_before :: "lheap \<Rightarrow> addr \<Rightarrow> addr \<Rightarrow> addr option" where
  "find_before s node it =
     (case h_next s it of
        None \<Rightarrow> Some it
      | Some m \<Rightarrow> if m \<noteq> node then find_before s node m else Some it)"

definition remove_internal :: "lheap \<Rightarrow> ptr \<Rightarrow> del_func \<Rightarrow> bool \<Rightarrow> (bool \<times> lheap) option" where
  "remove_internal s node del_func doubly_linked =
     (case (h_list s, node) of
        (Some (Some first), Some n) \<Rightarrow>
          if n = first then pop_front_internal s del_func doubly_linked
          else do {
            it \<leftarrow> find_before s n first;
            (case h_next s it of
               None \<Rightarrow> Some (False, s)
             | Some x \<Rightarrow>
                 let tmp = h_next s x;
                     s = (if doubly_linked
                          then (case tmp of None \<Rightarrow> s | Some m \<Rightarrow> set_prev s m (h_prev s n))
                          else s);
                     s = call_del del_func s x
                 in Some (True, set_next s it tmp)) }
      | _ \<Rightarrow> Some (False, s))"

partial_function (option) remove_if_loop ::
  "(addr \<Rightarrow> bool) \<Rightarrow> del_func \<Rightarrow> bool \<Rightarrow> lheap \<Rightarrow> ptr \<Rightarrow> size_t \<Rightarrow> (size_t \<times> lheap) option" where
  "remove_if_loop pred_func del_func doubly_linked s node cnt =
     (case node of
        None \<Rightarrow> Some (cnt, s)
      | Some n \<Rightarrow>
          let tmp = h_next s n in
          if pred_func n then do {
            (ok, s) \<leftarrow> remove_internal s (Some n) del_func doubly_linked;
            remove_if_loop pred_func del_func doubly_linked s tmp (if ok then cnt + 1 else cnt) }
          else remove_if_loop pred_func del_func doubly_linked s tmp cnt)"

definition remove_if_internal ::
  "lheap \<Rightarrow> pred_func \<Rightarrow> del_func \<Rightarrow> bool \<Rightarrow> (size_t \<times> lheap) option" where
  "remove_if_internal s pred_func del_func doubly_linked =
     (case (h_list s, pred_func) of
        (Some l, Some p) \<Rightarrow> remove_if_loop p del_func doubly_linked s l 0
      | _ \<Rightarrow> Some (0, s))"

text \<open>\<open>flist_node_t **tmp\<close> of the sort: the address of \<open>*list\<close> or of a link field.\<close>

datatype slot = Slot_list | Slot_next addr

definition get_slot :: "lheap \<Rightarrow> slot \<Rightarrow> ptr option" where
  "get_slot s t = (case t of Slot_list \<Rightarrow> h_list s | Slot_next a \<Rightarrow> Some (h_next s a))"

definition set_slot :: "lheap \<Rightarrow> slot \<Rightarrow> ptr \<Rightarrow> lheap" where
  "set_slot s t p = (case t of Slot_list \<Rightarrow> set_list s p | Slot_next a \<Rightarrow> set_next s a p)"

text \<open>The exchange of the two nodes \<open>a\<close> and \<open>b = a->next\<close> at \<open>tmp\<close>.\<close>

definition swap_nodes :: "lheap \<Rightarrow> slot \<Rightarrow> addr \<Rightarrow> addr \<Rightarrow> bool \<Rightarrow> lheap" where
  "swap_nodes s tmp a b doubly_linked =
     (let s = set_slot s tmp (Some b);
          s = set_next s a (h_next s b);
          s = set_next s b (Some a)
      in (if doubly_linked
          then let s = set_prev s b (h_prev s a);
                   s = set_prev s a (Some b)
               in (case h_next s a of None \<Rightarrow> s | Some m \<Rightarrow> set_prev s m (Some a))
          else s))"

text \<open>One run of the inner \<open>for\<close> loop.\<close>

partial_function (option) sort_pass ::
  "(addr \<Rightarrow> addr \<Rightarrow> bool) \<Rightarrow> bool \<Rightarrow> lheap \<Rightarrow> slot \<Rightarrow> bool \<Rightarrow> (bool \<times> lheap) option" where
  "sort_pass cmp_func doubly_linked s tmp is_sorted = do {
     p \<leftarrow> get_slot s tmp;
     (case p of
        None \<Rightarrow> Some (is_sorted, s)
      | Some a \<Rightarrow>
          (case h_next s a of
             None \<Rightarrow> Some (is_sorted, s)
           | Some b \<Rightarrow>
               if cmp_func a b = False
               then sort_pass cmp_func doubly_linked (swap_nodes s tmp a b doubly_linked) (Slot_next b) False
               else sort_pass cmp_func doubly_linked s (Slot_next a) is_sorted)) }"

partial_function (option) sort_loop ::
  "(addr \<Rightarrow> addr \<Rightarrow> bool) \<Rightarrow> bool \<Rightarrow> lheap \<Rightarrow> lheap option" where
  "sort_loop cmp_func doubly_linked s = do {
     (is_sorted, s) \<leftarrow> sort_pass cmp_func doubly_linked s Slot_list True;
     if \<not> is_sorted then sort_loop cmp_func doubly_linked s else Some s }"

definition sort_internal :: "lheap \<Rightarrow> cmp_func \<Rightarrow> bool \<Rightarrow> (bool \<times> lheap) option" where
  "sort_internal s cmp_func doubly_linked =
     (case (h_list s, cmp_func) of
        (Some l, Some c) \<Rightarrow> do { s \<leftarrow> sort_loop c doubly_linked s; Some (True, s) }
      | _ \<Rightarrow> Some (False, s))"

partial_function (option) unique_while ::
  "(addr \<Rightarrow> addr \<Rightarrow> bool) \<Rightarrow> del_func \<Rightarrow> bool \<Rightarrow> addr \<Rightarrow> lheap \<Rightarrow> ptr \<Rightarrow> size_t \<Rightarrow> (size_t \<times> lheap) option"
  where
  "unique_while pred_func del_func doubly_linked ref s node cnt =
     (case node of
        None \<Rightarrow> Some (cnt, s)
      | Some n \<Rightarrow>
          if pred_func ref n then do {
            let tmp = h_next s n;
            (ok, s) \<leftarrow> remove_internal s (Some n) del_func doubly_linked;
            unique_while pred_func del_func doubly_linked ref s tmp (if ok then cnt + 1 else cnt) }
          else Some (cnt, s))"

partial_function (option) unique_loop ::
  "(addr \<Rightarrow> addr \<Rightarrow> bool) \<Rightarrow> del_func \<Rightarrow> bool \<Rightarrow> lheap \<Rightarrow> ptr \<Rightarrow> size_t \<Rightarrow> (size_t \<times> lheap) option" where
  "unique_loop pred_func del_func doubly_linked s ref cnt =
     (case ref of
        None \<Rightarrow> Some (cnt, s)
      | Some r \<Rightarrow> do {
          (cnt, s) \<leftarrow> unique_while pred_func del_func doubly_linked r s (h_next s r) cnt;
          unique_loop pred_func del_func doubly_linked s (h_next s r) cnt })"

definition unique_internal :: "lheap \<Rightarrow> cmp_func \<Rightarrow> del_func \<Rightarrow> bool \<Rightarrow> (size_t \<times> lheap) option" where
  "unique_internal s pred_func del_func doubly_linked =
     (case (h_list s, pred_func) of
        (Some l, Some p) \<Rightarrow> unique_loop p del_func doubly_linked s l 0
      | _ \<Rightarrow> Some (0, s))"

partial_function (option) reverse_loop ::
  "bool \<Rightarrow> lheap \<Rightarrow> ptr \<Rightarrow> ptr \<Rightarrow> lheap option" where
  "reverse_loop doubly_linked s node prev =
     (case node of
        None \<Rightarrow> Some s
      | Some n \<Rightarrow>
          let nxt = h_next s n;
              s = set_next s n prev;
              s = (if doubly_linked then set_prev s n nxt else s);
              s = set_list s (Some n)
          in reverse_loop doubly_linked s nxt (Some n))"

definition reverse_internal :: "lheap \<Rightarrow> bool \<Rightarrow> (bool \<times> lheap) option" where
  "reverse_internal s doubly_linked =
     (case h_list s of
        None \<Rightarrow> Some (False, s)
      | Some l \<Rightarrow> do { s \<leftarrow> reverse_loop doubly_linked s l None; Some (True, s) })"

section \<open>The forward list API\<close>

definition flist_push_front :: "lheap \<Rightarrow> ptr \<Rightarrow> (bool \<times> lheap) option" where
  "flist_push_front s node = push_front_internal s node False"

definition flist_pop_front :: "lheap \<Rightarrow> del_func \<Rightarrow> (bool \<times> lheap) option" where
  "flist_pop_front s del_func = pop_front_internal s del_func False"

definition flist_push_back :: "lheap \<Rightarrow> ptr \<Rightarrow> (bool \<times> lheap) option" where
  "flist_push_back s node = push_back_internal s node False"

text \<open>\<open>while (tmp->next->next != NULL) tmp = tmp->next;\<close>\<close>

partial_function (option) before_last :: "lheap \<Rightarrow> addr \<Rightarrow> addr option" where
  "before_last s tmp =
     (case h_next s tmp of
        None \<Rightarrow> None
      | Some m \<Rightarrow> (case h_next s m of None \<Rightarrow> Some tmp | Some _ \<Rightarrow> before_last s m))"

definition flist_pop_back :: "lheap \<Rightarrow> del_func \<Rightarrow> (bool \<times> lheap) option" where
  "flist_pop_back s del_func =
     (case h_list s of
        Some (Some tmp) \<Rightarrow>
          (case h_next s tmp of
             None \<Rightarrow> flist_pop_front s del_func
           | Some _ \<Rightarrow> do {
               tmp \<leftarrow> before_last s tmp;
               x \<leftarrow> h_next s tmp;
               let s = call_del del_func s x;
               Some (True, set_next s tmp None) })
      | _ \<Rightarrow> Some (False, s))"

definition flist_insert_after :: "lheap \<Rightarrow> ptr \<Rightarrow> ptr \<Rightarrow> (bool \<times> lheap) option" where
  "flist_insert_after s ref node = insert_after_internal s ref node False"

definition flist_remove :: "lheap \<Rightarrow> ptr \<Rightarrow> del_func \<Rightarrow> (bool \<times> lheap) option" where
  "flist_remove s node del_func = remove_internal s node del_func False"

definition flist_remove_if :: "lheap \<Rightarrow> pred_func \<Rightarrow> del_func \<Rightarrow> (size_t \<times> lheap) option" where
  "flist_remove_if s pred_func del_func = remove_if_internal s pred_func del_func False"

partial_function (option) clear_loop :: "del_func \<Rightarrow> lheap \<Rightarrow> ptr \<Rightarrow> lheap option" where
  "clear_loop del_func s tmp =
     (case tmp of
        None \<Rightarrow> Some s
      | Some n \<Rightarrow> let nxt = h_next s n in clear_loop del_func (call_del del_func s n) nxt)"

definition flist_clear :: "lheap \<Rightarrow> del_func \<Rightarrow> (bool \<times> lheap) option" where
  "flist_clear s del_func =
     (case h_list s of
        None \<Rightarrow> Some (False, s)
      | Some l \<Rightarrow> do { s \<leftarrow> clear_loop del_func s l; Some (True, set_list s None) })"

partial_function (option) size_loop :: "lheap \<Rightarrow> ptr \<Rightarrow> size_t \<Rightarrow> size_t option" where
  "size_loop s tmp sz =
     (case tmp of None \<Rightarrow> Some sz | Some n \<Rightarrow> size_loop s (h_next s n) (sz + 1))"

definition flist_size :: "lheap \<Rightarrow> size_t option" where
  "flist_size s = (case h_list s of None \<Rightarrow> Some 0 | Some l \<Rightarrow> size_loop s l 0)"

definition flist_empty :: "lheap \<Rightarrow> bool option" where
  "flist_empty s = do { n \<leftarrow> flist_size s; Some (n = 0) }"

definition flist_sort :: "lheap \<Rightarrow> cmp_func \<Rightarrow> (bool \<times> lheap) option" where
  "flist_sort s cmp_func = sort_internal s cmp_func False"

definition flist_unique :: "lheap \<Rightarrow> cmp_func \<Rightarrow> del_func \<Rightarrow> (size_t \<times> lheap) option" where
  "flist_unique s pred_func del_func = unique_internal s pred_func del_func False"

definition flist_reverse :: "lheap \<Rightarrow> (bool \<times> lheap) option" where
  "flist_reverse s = reverse_internal s False"

section \<open>The doubly-linked list API\<close>

definition list_push_front :: "lheap \<Rightarrow> ptr \<Rightarrow> (bool \<times> lheap) option" where
  "list_push_front s node = push_front_internal s node True"

definition list_pop_front :: "lheap \<Rightarrow> del_func \<Rightarrow> (bool \<times> lheap) option" where
  "list_pop_front s del_func = pop_front_internal s del_func True"

definition list_push_back :: "lheap \<Rightarrow> ptr \<Rightarrow> (bool \<times> lheap) option" where
  "list_push_back s node = push_back_internal s node True"

definition list_pop_back :: "lheap \<Rightarrow> del_func \<Rightarrow> (bool \<times> lheap) option" where
  "list_pop_back s del_func = flist_pop_back s del_func"

definition list_insert_after :: "lheap \<Rightarrow> ptr \<Rightarrow> ptr \<Rightarrow> (bool \<times> lheap) option" where
  "list_insert_after s ref node = insert_after_internal s ref node True"

definition list_insert_before :: "lheap \<Rightarrow> ptr \<Rightarrow> ptr \<Rightarrow> (bool \<times> lheap) option" where
  "list_insert_before s ref node =
     (case (ref, node) of
        (Some r, Some n) \<Rightarrow>
          (case h_prev s r of
             None \<Rightarrow> if h_list s = Some (Some r) then list_push_front s node else Some (False, s)
           | Some p \<Rightarrow> list_insert_after s (Some p) node)
      | _ \<Rightarrow> Some (False, s))"

definition list_remove_node :: "lheap \<Rightarrow> ptr \<Rightarrow> del_func \<Rightarrow> (bool \<times> lheap) option" where
  "list_remove_node s node del_func = remove_internal s node del_func True"

definition list_remove_if :: "lheap \<Rightarrow> pred_func \<Rightarrow> del_func \<Rightarrow> (size_t \<times> lheap) option" where
  "list_remove_if s pred_func del_func = remove_if_internal s pred_func del_func True"

definition list_clear :: "lheap \<Rightarrow> del_func \<Rightarrow> (bool \<times> lheap) option" where
  "list_clear s del_func = flist_clear s del_func"

definition list_size :: "lheap \<Rightarrow> size_t option" where
  "list_size s = flist_size s"

definition list_empty :: "lheap \<Rightarrow> bool option" where
  "list_empty s = do { n \<leftarrow> list_size s; Some (n = 0) }"

definition list_sort :: "lheap \<Rightarrow> cmp_func \<Rightarrow> (bool \<times> lheap) option" where
  "list_sort s cmp_func = sort_internal s cmp_func True"

definition list_unique :: "lheap \<Rightarrow> cmp_func \<Rightarrow> del_func \<Rightarrow> (size_t \<times> lheap) option" where
  "list_unique s pred_func del_func = unique_internal s pred_func del_func True"

definition list_reverse :: "lheap \<Rightarrow> (bool \<times> lheap) option" where
  "list_reverse s = reverse_internal s True"

end
