(* ===== verification/Linked_Lists_Spec.thy ===== *)
theory Linked_Lists_Spec
  imports Linked_Lists "HOL-Library.Multiset"
begin

text \<open>
  Correctness of the intrusive lists.  \<open>list_rep dl s xs\<close> says that the links of the state \<open>s\<close> form
  the list of nodes \<open>xs\<close> (with backward links when \<open>dl\<close>).  Every operation is shown to end on such a
  state, to implement an operation on \<open>xs\<close> and to change no link outside the list; the two APIs are then
  interpreted as refinements of one specification.  The sort is a bubble sort: it ends and is stable for a total
  preorder, and does not end for a strict order with two equal nodes.
\<close>

section \<open>Representation\<close>

text \<open>A path of links: starting at \<open>p\<close>, the nodes \<open>as\<close> follow each other up to \<open>q\<close>.\<close>

fun lseg :: "(addr \<Rightarrow> ptr) \<Rightarrow> ptr \<Rightarrow> addr list \<Rightarrow> ptr \<Rightarrow> bool" where
  "lseg nx p [] q = (p = q)"
| "lseg nx p (a # as) q = (p = Some a \<and> lseg nx (nx a) as q)"

text \<open>The backward links of the nodes \<open>as\<close>, whose predecessor is \<open>q\<close>.\<close>

fun dlinks :: "(addr \<Rightarrow> ptr) \<Rightarrow> ptr \<Rightarrow> addr list \<Rightarrow> bool" where
  "dlinks pv q [] = True"
| "dlinks pv q (a # as) = (pv a = q \<and> dlinks pv (Some a) as)"

definition list_rep :: "bool \<Rightarrow> lheap \<Rightarrow> addr list \<Rightarrow> bool" where
  "list_rep dl s xs =
     (distinct xs \<and> (\<exists>p. h_list s = Some p \<and> lseg (h_next s) p xs None) \<and>
      (dl \<longrightarrow> dlinks (h_prev s) None xs))"

definition off :: "addr set \<Rightarrow> lheap \<Rightarrow> lheap \<Rightarrow> bool" where
  "off A s s' = (\<forall>a. a \<notin> A \<longrightarrow> h_next s' a = h_next s a \<and> h_prev s' a = h_prev s a)"

definition del_ok :: "del_func \<Rightarrow> bool" where
  "del_ok del =
     (\<forall>s a. h_list (call_del del s a) = h_list s \<and> off {a} s (call_del del s a))"

lemma off_refl [simp]: "off A s s"
  by (simp add: off_def)

lemma off_trans: "off A s s' \<Longrightarrow> off B s' s'' \<Longrightarrow> A \<union> B \<subseteq> C \<Longrightarrow> off C s s''"
  unfolding off_def by (metis Un_iff subset_iff)

lemma off_mono: "off A s s' \<Longrightarrow> A \<subseteq> B \<Longrightarrow> off B s s'"
  unfolding off_def by blast

lemma lseg_append: "lseg nx p (as @ bs) q = (\<exists>r. lseg nx p as r \<and> lseg nx r bs q)"
  by (induction as arbitrary: p) auto

lemma lseg_upd [simp]: "a \<notin> set as \<Longrightarrow> lseg (nx(a := v)) p as q = lseg nx p as q"
  by (induction as arbitrary: p) auto

lemma dlinks_upd [simp]: "a \<notin> set as \<Longrightarrow> dlinks (pv(a := v)) p as = dlinks pv p as"
  by (induction as arbitrary: p) auto

lemma lseg_off: "off A s s' \<Longrightarrow> set as \<inter> A = {} \<Longrightarrow> lseg (h_next s') p as q = lseg (h_next s) p as q"
  by (induction as arbitrary: p) (auto simp: off_def)

lemma dlinks_off: "off A s s' \<Longrightarrow> set as \<inter> A = {} \<Longrightarrow> dlinks (h_prev s') p as = dlinks (h_prev s) p as"
  by (induction as arbitrary: p) (auto simp: off_def)

lemma dlinks_append:
  "dlinks pv q (as @ bs) = (dlinks pv q as \<and> dlinks pv (if as = [] then q else Some (last as)) bs)"
  by (induction as arbitrary: q) auto

definition hd_ptr :: "addr list \<Rightarrow> ptr" where
  "hd_ptr xs = (case xs of [] \<Rightarrow> None | a # _ \<Rightarrow> Some a)"

lemma hd_ptr_simps [simp]:
  "hd_ptr [] = None" "hd_ptr (a # as) = Some a"
  by (simp_all add: hd_ptr_def)

lemma hd_ptr_append: "hd_ptr (as @ bs) = (if as = [] then hd_ptr bs else hd_ptr as)"
  by (cases as) simp_all

lemma lseg_hd: "lseg nx p as None \<Longrightarrow> p = hd_ptr as"
  by (cases as) simp_all

text \<open>The two representation facts the proofs use: split a list around a node.\<close>

lemma rep_iff:
  "list_rep dl s xs \<longleftrightarrow>
     distinct xs \<and> h_list s = Some (hd_ptr xs) \<and> lseg (h_next s) (hd_ptr xs) xs None \<and>
     (dl \<longrightarrow> dlinks (h_prev s) None xs)"
  unfolding list_rep_def by (auto dest: lseg_hd)

lemma lseg_next: "lseg nx p (as @ a # bs) None \<Longrightarrow> nx a = hd_ptr bs"
  by (auto simp: lseg_append dest: lseg_hd)

lemma rep_next: "list_rep dl s (as @ a # bs) \<Longrightarrow> h_next s a = hd_ptr bs"
  by (auto simp: rep_iff dest: lseg_next)

lemma rep_list: "list_rep dl s xs \<Longrightarrow> h_list s = Some (hd_ptr xs)"
  by (simp add: rep_iff)

lemma rep_distinct: "list_rep dl s xs \<Longrightarrow> distinct xs"
  by (simp add: rep_iff)


lemma lseg_split:
  "lseg nx p (as @ bs) None = (lseg nx p as (hd_ptr bs) \<and> lseg nx (hd_ptr bs) bs None)"
  by (auto simp: lseg_append dest: lseg_hd)

lemma lseg_snoc: "lseg nx p (as @ [a]) q = (lseg nx p as (Some a) \<and> nx a = q)"
  by (auto simp: lseg_append)

lemma lseg_Cons_iff: "lseg nx (Some a) (a # as) None = (nx a = hd_ptr as \<and> lseg nx (hd_ptr as) as None)"
  using lseg_hd [of nx "nx a" as] by auto

lemma call_del_ok:
  assumes "del_ok del"
  shows "h_list (call_del del s a) = h_list s" "off {a} s (call_del del s a)"
  using assms by (simp_all add: del_ok_def)

lemma call_del_links:
  assumes "del_ok del" "b \<noteq> a"
  shows "h_next (call_del del s a) b = h_next s b" "h_prev (call_del del s a) b = h_prev s b"
  using assms unfolding del_ok_def off_def by auto

lemma call_del_lseg [simp]:
  "del_ok del \<Longrightarrow> a \<notin> set as \<Longrightarrow> lseg (h_next (call_del del s a)) p as q = lseg (h_next s) p as q"
  by (rule lseg_off [OF call_del_ok(2)]) auto

lemma call_del_dlinks [simp]:
  "del_ok del \<Longrightarrow> a \<notin> set as \<Longrightarrow> dlinks (h_prev (call_del del s a)) p as = dlinks (h_prev s) p as"
  by (rule dlinks_off [OF call_del_ok(2)]) auto

section \<open>The ends of the list\<close>

lemma push_front_rep:
  assumes "list_rep dl s xs" "n \<notin> set xs"
  shows "\<exists>s'. push_front_internal s (Some n) dl = Some (True, s') \<and> list_rep dl s' (n # xs) \<and>
           off (set (n # xs)) s s'"
  using assms
  by (cases xs) (auto simp: push_front_internal_def rep_iff Let_def off_def)

lemma pop_front_rep:
  assumes "list_rep dl s (x # xs)" "del_ok del"
  shows "\<exists>s'. pop_front_internal s del dl = Some (True, s') \<and> list_rep dl s' xs \<and>
           off (set (x # xs)) s s'"
proof -
  have n: "h_next s x = hd_ptr xs" and l: "h_list s = Some (Some x)" and d: "x \<notin> set xs" "distinct xs"
    and seg: "lseg (h_next s) (hd_ptr xs) xs None"
    using assms(1) by (auto simp: rep_iff lseg_Cons_iff simp del: lseg.simps)
  have o: "off {x} (set_list s (hd_ptr xs)) (call_del del (set_list s (hd_ptr xs)) x)"
    by (rule call_del_ok(2) [OF assms(2)])
  show ?thesis
    using assms n l d seg o
    by (cases xs) (auto simp: pop_front_internal_def rep_iff Let_def off_def call_del_ok call_del_links)
qed

lemma pop_front_empty: "list_rep dl s [] \<Longrightarrow> pop_front_internal s del dl = Some (False, s)"
  by (simp add: pop_front_internal_def rep_iff Let_def)

lemma last_node_lseg: "lseg (h_next s) (Some a) (as @ [b]) None \<Longrightarrow> last_node s a = Some b"
proof (induction as arbitrary: a)
  case Nil
  then show ?case by (subst last_node.simps) simp
next
  case (Cons c as)
  then obtain m where "h_next s a = Some m" "a = c" "lseg (h_next s) (Some m) (as @ [b]) None"
    by (cases as) auto
  then show ?case using Cons.IH by (subst last_node.simps) simp
qed

lemma push_back_rep:
  assumes "list_rep dl s xs" "n \<notin> set xs"
  shows "\<exists>s'. push_back_internal s (Some n) dl = Some (True, s') \<and> list_rep dl s' (xs @ [n]) \<and>
           off (set (n # xs)) s s'"
proof (cases xs rule: rev_cases)
  case Nil
  then show ?thesis using assms by (auto simp: push_back_internal_def rep_iff Let_def off_def)
next
  case (snoc as b)
  then obtain a where a: "hd_ptr xs = Some a" by (cases as) auto
  have l: "last_node (set_next s n None) a = Some b"
    using assms a unfolding snoc by (intro last_node_lseg [where as = as]) (auto simp: rep_iff)
  show ?thesis
    using assms a l unfolding snoc
    by (auto simp: push_back_internal_def rep_iff Let_def off_def lseg_snoc lseg_append dlinks_append
          hd_ptr_append split: if_splits)
qed

lemma before_last_lseg: "lseg (h_next s) (Some a) (as @ [b, c]) None \<Longrightarrow> before_last s a = Some b"
proof (induction as arbitrary: a)
  case Nil
  then show ?case by (subst before_last.simps) simp
next
  case (Cons d as)
  then obtain m k where "h_next s a = Some m" "h_next s m = Some k" "a = d"
      "lseg (h_next s) (Some m) (as @ [b, c]) None"
    by (cases as; cases "tl as") auto
  then show ?case using Cons.IH by (subst before_last.simps) simp
qed

lemma pop_back_rep:
  assumes "list_rep dl s (xs @ [x])" "del_ok del"
  shows "\<exists>s'. flist_pop_back s del = Some (True, s') \<and> list_rep dl s' xs \<and> off (set (xs @ [x])) s s'"
proof (cases xs rule: rev_cases)
  case Nil
  have o: "off {x} (set_list s None) (call_del del (set_list s None) x)"
    by (rule call_del_ok(2) [OF assms(2)])
  then show ?thesis
    using assms Nil
    by (auto simp: flist_pop_back_def flist_pop_front_def pop_front_internal_def rep_iff Let_def off_def
          call_del_ok)
next
  case (snoc as b)
  have seg: "lseg (h_next s) (hd_ptr (as @ [b, x])) (as @ [b, x]) None"
    using assms(1) by (simp add: snoc rep_iff)
  then obtain a m where a: "hd_ptr (as @ [b, x]) = Some a" "h_next s a = Some m"
    by (cases as; cases "tl as") auto
  have l: "before_last s a = Some b"
    using seg unfolding a by (rule before_last_lseg)
  have b: "h_next s b = Some x"
    using seg by (auto simp: lseg_append)
  have o: "off {x} s (call_del del s x)"
    by (rule call_del_ok(2) [OF assms(2)])
  show ?thesis
    using assms a l b o unfolding snoc
    by (auto simp: flist_pop_back_def rep_iff Let_def off_def lseg_append dlinks_append call_del_ok
          hd_ptr_append split: if_splits)
qed

lemma pop_back_empty: "list_rep dl s [] \<Longrightarrow> flist_pop_back s del = Some (False, s)"
  by (simp add: flist_pop_back_def rep_iff Let_def)


section \<open>Insertion and removal\<close>

lemma insert_after_rep:
  assumes "list_rep dl s (as @ r # bs)" "n \<notin> set (as @ r # bs)"
  shows "\<exists>s'. insert_after_internal s (Some r) (Some n) dl = Some (True, s') \<and>
           list_rep dl s' (as @ r # n # bs) \<and> off (set (n # as @ r # bs)) s s'"
proof -
  have "h_next s r = hd_ptr bs" by (rule rep_next [OF assms(1)])
  with assms show ?thesis
    by (cases bs) (auto simp: insert_after_internal_def Let_def rep_iff off_def lseg_append dlinks_append
        hd_ptr_append split: if_splits)
qed

lemma insert_before_rep:
  assumes "list_rep True s (as @ r # bs)" "n \<notin> set (as @ r # bs)"
  shows "\<exists>s'. list_insert_before s (Some r) (Some n) = Some (True, s') \<and>
           list_rep True s' (as @ n # r # bs) \<and> off (set (n # as @ r # bs)) s s'"
proof (cases as rule: rev_cases)
  case Nil
  then have "h_prev s r = None" "h_list s = Some (Some r)"
    using assms(1) by (auto simp: rep_iff)
  then show ?thesis
    using push_front_rep [OF assms] Nil by (auto simp: list_insert_before_def list_push_front_def)
next
  case (snoc cs p)
  then have "h_prev s r = Some p"
    using assms(1) by (auto simp: rep_iff dlinks_append split: if_splits)
  then show ?thesis
    using insert_after_rep [of True s cs p "r # bs" n] assms snoc
    by (auto simp: list_insert_before_def list_insert_after_def insert_commute)
qed

lemma find_before_hit:
  "lseg (h_next s) (Some a) (as @ b # n # bs) None \<Longrightarrow> n \<notin> set as \<Longrightarrow> n \<noteq> b \<Longrightarrow>
     find_before s n a = Some b"
proof (induction as arbitrary: a)
  case Nil
  then show ?case by (subst find_before.simps) auto
next
  case (Cons d as)
  then obtain m where "h_next s a = Some m" "m \<noteq> n" "lseg (h_next s) (Some m) (as @ b # n # bs) None"
    by (cases as) auto
  then show ?case using Cons by (subst find_before.simps) simp
qed

lemma find_before_miss:
  "lseg (h_next s) (Some a) (as @ [b]) None \<Longrightarrow> n \<notin> set (as @ [b]) \<Longrightarrow> find_before s n a = Some b"
proof (induction as arbitrary: a)
  case Nil
  then show ?case by (subst find_before.simps) auto
next
  case (Cons d as)
  then obtain m where "h_next s a = Some m" "m \<noteq> n" "lseg (h_next s) (Some m) (as @ [b]) None"
    by (cases as) auto
  then show ?case using Cons by (subst find_before.simps) simp
qed

lemma remove_rep:
  assumes "list_rep dl s (as @ n # bs)" "del_ok del"
  shows "\<exists>s'. remove_internal s (Some n) del dl = Some (True, s') \<and> list_rep dl s' (as @ bs) \<and>
           off (set (as @ n # bs)) s s'"
proof (cases as rule: rev_cases)
  case Nil
  then show ?thesis
    using pop_front_rep [of dl s n bs del] assms by (auto simp: remove_internal_def rep_iff)
next
  case (snoc cs p)
  obtain a where a: "hd_ptr (cs @ p # n # bs) = Some a" "a \<noteq> n"
    using assms(1) snoc by (cases cs) (auto simp: rep_iff)
  have seg: "lseg (h_next s) (Some a) (cs @ p # n # bs) None"
    using assms(1) snoc a by (simp add: rep_iff)
  have f: "find_before s n a = Some p"
    using seg assms(1) snoc by (intro find_before_hit) (auto simp: rep_iff)
  have p: "h_next s p = Some n" and n: "h_next s n = hd_ptr bs"
    using rep_next [of dl s cs p "n # bs"] rep_next [of dl s as n bs] assms(1) snoc by auto
  have pn: "dl \<longrightarrow> h_prev s n = Some p"
    using assms(1) snoc by (auto simp: rep_iff dlinks_append split: if_splits)
  show ?thesis
    using assms a f p n pn unfolding snoc
    by (cases bs)
      (auto simp: remove_internal_def Let_def rep_iff off_def lseg_append dlinks_append hd_ptr_append
        call_del_ok call_del_links split: if_splits)
qed

lemma remove_missing:
  assumes "list_rep dl s xs" "n \<notin> set xs"
  shows "remove_internal s (Some n) del dl = Some (False, s)"
proof (cases xs rule: rev_cases)
  case Nil
  then show ?thesis using assms by (simp add: remove_internal_def rep_iff)
next
  case (snoc as b)
  then obtain a where a: "hd_ptr (as @ [b]) = Some a" "a \<noteq> n" "a \<in> set xs"
    using assms by (cases as) auto
  have f: "find_before s n a = Some b"
    using assms a snoc by (intro find_before_miss [where as = as]) (auto simp: rep_iff)
  have "h_next s b = None"
    using rep_next [of dl s as b "[]"] assms snoc by simp
  then show ?thesis
    using assms a f snoc by (simp add: remove_internal_def rep_iff)
qed

text \<open>\<open>remove_if\<close> walks over the unvisited part \<open>ys\<close>; the visited part \<open>xs\<close> is already filtered.\<close>

lemma remove_if_loop_rep:
  assumes "list_rep dl s (xs @ ys)" "del_ok del"
  shows "\<exists>s'. remove_if_loop p del dl s (hd_ptr ys) c =
             Some (c + of_nat (length (filter p ys)), s') \<and>
           list_rep dl s' (xs @ filter (\<lambda>a. \<not> p a) ys) \<and> off (set (xs @ ys)) s s'"
  using assms(1)
proof (induction ys arbitrary: s xs c)
  case Nil
  then show ?case by (subst remove_if_loop.simps) simp
next
  case (Cons y ys)
  have n: "h_next s y = hd_ptr ys" by (rule rep_next [OF Cons.prems])
  show ?case
  proof (cases "p y")
    case False
    then show ?thesis
      using Cons.IH [of s "xs @ [y]" c] Cons.prems n by (subst remove_if_loop.simps) simp
  next
    case True
    obtain s1 where s1: "remove_internal s (Some y) del dl = Some (True, s1)" "list_rep dl s1 (xs @ ys)"
        "off (set (xs @ y # ys)) s s1"
      using remove_rep [OF Cons.prems assms(2)] by auto
    obtain s2 where s2: "remove_if_loop p del dl s1 (hd_ptr ys) (c + 1) =
          Some (c + 1 + of_nat (length (filter p ys)), s2)"
        "list_rep dl s2 (xs @ filter (\<lambda>a. \<not> p a) ys)" "off (set (xs @ ys)) s1 s2"
      using Cons.IH [OF s1(2), of "c + 1"] by auto
    have "off (set (xs @ y # ys)) s s2"
      by (rule off_trans [OF s1(3) s2(3)]) auto
    then show ?thesis
      using True s1 s2 n by (subst remove_if_loop.simps) (simp add: ac_simps)
  qed
qed

function uniq :: "('a \<Rightarrow> 'a \<Rightarrow> bool) \<Rightarrow> 'a list \<Rightarrow> 'a list" where
  "uniq p [] = []"
| "uniq p (x # xs) = x # uniq p (dropWhile (p x) xs)"
  by pat_completeness auto
termination
  by (relation "measure (\<lambda>(p, xs). length xs)") (auto simp: le_imp_less_Suc length_dropWhile_le)

lemma unique_while_rep:
  assumes "list_rep dl s (xs @ r # ys)" "del_ok del"
  shows "\<exists>s'. unique_while p del dl r s (hd_ptr ys) c =
             Some (c + of_nat (length (takeWhile (p r) ys)), s') \<and>
           list_rep dl s' (xs @ r # dropWhile (p r) ys) \<and> off (set (xs @ r # ys)) s s'"
  using assms(1)
proof (induction ys arbitrary: s c)
  case Nil
  then show ?case by (subst unique_while.simps) simp
next
  case (Cons y ys)
  have n: "h_next s y = hd_ptr ys"
    using rep_next [of dl s "xs @ [r]" y ys] Cons.prems by simp
  show ?case
  proof (cases "p r y")
    case False
    then show ?thesis using Cons.prems by (subst unique_while.simps) simp
  next
    case True
    obtain s1 where s1: "remove_internal s (Some y) del dl = Some (True, s1)"
        "list_rep dl s1 (xs @ r # ys)" "off (set (xs @ r # y # ys)) s s1"
      using remove_rep [of dl s "xs @ [r]" y ys del] Cons.prems assms(2) by auto
    obtain s2 where s2: "unique_while p del dl r s1 (hd_ptr ys) (c + 1) =
          Some (c + 1 + of_nat (length (takeWhile (p r) ys)), s2)"
        "list_rep dl s2 (xs @ r # dropWhile (p r) ys)" "off (set (xs @ r # ys)) s1 s2"
      using Cons.IH [OF s1(2), of "c + 1"] by auto
    have "off (set (xs @ r # y # ys)) s s2"
      by (rule off_trans [OF s1(3) s2(3)]) auto
    then show ?thesis
      using True s1 s2 n by (subst unique_while.simps) (simp add: ac_simps)
  qed
qed

lemma length_uniq_le: "length (uniq p xs) \<le> length xs"
  by (induction p xs rule: uniq.induct) (auto intro: le_trans [OF _ length_dropWhile_le])

lemma unique_loop_rep:
  assumes "list_rep dl s (xs @ ys)" "del_ok del"
  shows "\<exists>s'. unique_loop p del dl s (hd_ptr ys) c =
             Some (c + of_nat (length ys - length (uniq p ys)), s') \<and>
           list_rep dl s' (xs @ uniq p ys) \<and> off (set (xs @ ys)) s s'"
  using assms(1)
proof (induction p ys arbitrary: s xs c rule: uniq.induct)
  case (1 p)
  then show ?case by (subst unique_loop.simps) simp
next
  case (2 p y ys)
  let ?t = "takeWhile (p y) ys" and ?d = "dropWhile (p y) ys"
  have n: "h_next s y = hd_ptr ys" by (rule rep_next [OF 2(2)])
  obtain s1 where s1: "unique_while p del dl y s (hd_ptr ys) c = Some (c + of_nat (length ?t), s1)"
      "list_rep dl s1 (xs @ y # ?d)" "off (set (xs @ y # ys)) s s1"
    using unique_while_rep [OF 2(2) assms(2)] by blast
  have n1: "h_next s1 y = hd_ptr ?d" by (rule rep_next [OF s1(2)])
  obtain s2 where s2: "unique_loop p del dl s1 (hd_ptr ?d) (c + of_nat (length ?t)) =
        Some (c + of_nat (length ?t) + of_nat (length ?d - length (uniq p ?d)), s2)"
      "list_rep dl s2 ((xs @ [y]) @ uniq p ?d)" "off (set ((xs @ [y]) @ ?d)) s1 s2"
    using 2(1) [of s1 "xs @ [y]" "c + of_nat (length ?t)"] s1(2) by auto
  have l: "length ys = length ?t + length ?d"
    by (metis length_append takeWhile_dropWhile_id)
  have "off (set (xs @ y # ys)) s s2"
    using s1(3) s2(3) by (rule off_trans) (auto dest: set_dropWhileD)
  moreover have "length ys - length (uniq p ?d) = length ?t + (length ?d - length (uniq p ?d))"
    using l length_uniq_le [of p ?d] by simp
  ultimately show ?case
    using s1 s2 n n1 by (subst unique_loop.simps) (simp add: ac_simps)
qed

section \<open>Whole-list operations\<close>

lemma reverse_loop_rep:
  assumes "distinct (rev xs @ ys)" "h_list s = Some (if xs = [] then hd_ptr ys else hd_ptr xs)"
    "lseg (h_next s) (hd_ptr xs) xs None" "lseg (h_next s) (hd_ptr ys) ys None"
    "dl \<longrightarrow> dlinks (h_prev s) (hd_ptr ys) xs"
  shows "\<exists>s'. reverse_loop dl s (hd_ptr ys) (hd_ptr xs) = Some s' \<and> list_rep dl s' (rev ys @ xs) \<and>
           off (set (xs @ ys)) s s'"
  using assms
proof (induction ys arbitrary: s xs)
  case Nil
  then show ?case by (subst reverse_loop.simps) (cases xs, auto simp: rep_iff)
next
  case (Cons y ys)
  let ?s = "set_list (if dl then set_prev (set_next s y (hd_ptr xs)) y (hd_ptr ys)
                      else set_next s y (hd_ptr xs)) (Some y)"
  have n: "h_next s y = hd_ptr ys" "lseg (h_next s) (hd_ptr ys) ys None"
    using Cons.prems(4) by (auto simp: lseg_Cons_iff simp del: lseg.simps)
  have "\<exists>s'. reverse_loop dl ?s (hd_ptr ys) (hd_ptr (y # xs)) = Some s' \<and>
           list_rep dl s' (rev ys @ y # xs) \<and> off (set ((y # xs) @ ys)) ?s s'"
    by (rule Cons.IH) (use Cons.prems n in \<open>auto simp: dlinks_upd [unfolded fun_upd_def]\<close>)
  then obtain s' where s': "reverse_loop dl ?s (hd_ptr ys) (Some y) = Some s'"
      "list_rep dl s' (rev ys @ y # xs)" "off (set ((y # xs) @ ys)) ?s s'"
    by auto
  have "off {y} s ?s" by (simp add: off_def)
  then have "off (set (xs @ y # ys)) s s'"
    by (rule off_trans [OF _ s'(3)]) auto
  then show ?case
    using s' n by (subst reverse_loop.simps) (simp add: Let_def)
qed

lemma clear_loop_rep:
  assumes "lseg (h_next s) (hd_ptr xs) xs None" "distinct xs" "del_ok del"
  shows "\<exists>s'. clear_loop del s (hd_ptr xs) = Some s' \<and> h_list s' = h_list s \<and> off (set xs) s s'"
  using assms
proof (induction xs arbitrary: s)
  case Nil
  then show ?case by (subst clear_loop.simps) simp
next
  case (Cons x xs)
  let ?s = "call_del del s x"
  have n: "h_next s x = hd_ptr xs" "lseg (h_next s) (hd_ptr xs) xs None"
    using Cons.prems(1) by (auto simp: lseg_Cons_iff simp del: lseg.simps)
  obtain s' where s': "clear_loop del ?s (hd_ptr xs) = Some s'" "h_list s' = h_list ?s"
      "off (set xs) ?s s'"
    using Cons.IH [of ?s] Cons.prems n by auto
  have "off (set (x # xs)) s s'"
    by (rule off_trans [OF call_del_ok(2) [OF assms(3)] s'(3)]) auto
  then show ?case
    using s' n Cons.prems(3) by (subst clear_loop.simps) (simp add: Let_def call_del_ok)
qed

lemma size_loop_rep:
  "lseg (h_next s) (hd_ptr xs) xs None \<Longrightarrow> size_loop s (hd_ptr xs) c = Some (c + of_nat (length xs))"
proof (induction xs arbitrary: c)
  case Nil
  then show ?case by (subst size_loop.simps) simp
next
  case (Cons x xs)
  then have "h_next s x = hd_ptr xs" "lseg (h_next s) (hd_ptr xs) xs None"
    by (auto simp: lseg_Cons_iff simp del: lseg.simps)
  then show ?case using Cons.IH [of "c + 1"] by (subst size_loop.simps) (simp add: ac_simps)
qed

section \<open>Sorting\<close>

text \<open>The slot the sort looks at after it has passed the nodes \<open>xs\<close>.\<close>

definition slot_of :: "addr list \<Rightarrow> slot" where
  "slot_of xs = (if xs = [] then Slot_list else Slot_next (last xs))"

text \<open>One pass of the sort on the abstract list.\<close>

fun bubble :: "('a \<Rightarrow> 'a \<Rightarrow> bool) \<Rightarrow> 'a list \<Rightarrow> bool \<times> 'a list" where
  "bubble c (a # b # xs) =
     (if c a b then (let (f, ys) = bubble c (b # xs) in (f, a # ys))
      else (let (f, ys) = bubble c (a # xs) in (False, b # ys)))"
| "bubble c [] = (True, [])"
| "bubble c [a] = (True, [a])"

lemma swap_nodes_rep:
  assumes "list_rep dl s (xs @ a # b # zs)"
  shows "list_rep dl (swap_nodes s (slot_of xs) a b dl) (xs @ b # a # zs)"
    and "off (set (xs @ a # b # zs)) s (swap_nodes s (slot_of xs) a b dl)"
proof -
  have n: "h_next s b = hd_ptr zs"
    using rep_next [of dl s "xs @ [a]" b zs] assms by simp
  show "list_rep dl (swap_nodes s (slot_of xs) a b dl) (xs @ b # a # zs)"
    using assms n
    by (cases xs rule: rev_cases; cases zs; cases dl)
      (simp_all add: swap_nodes_def slot_of_def set_slot_def Let_def rep_iff lseg_append dlinks_append
        hd_ptr_append, simp_all split: if_splits)
  show "off (set (xs @ a # b # zs)) s (swap_nodes s (slot_of xs) a b dl)"
    using assms n
    by (cases xs rule: rev_cases; cases zs)
      (auto simp: swap_nodes_def slot_of_def set_slot_def Let_def rep_iff off_def)
qed

lemma get_slot_rep: "list_rep dl s (xs @ zs) \<Longrightarrow> get_slot s (slot_of xs) = Some (hd_ptr zs)"
  by (cases xs rule: rev_cases) (auto simp: get_slot_def slot_of_def rep_list rep_next)

lemma sort_pass_rep:
  assumes "list_rep dl s (xs @ zs)"
  shows "\<exists>s'. sort_pass c dl s (slot_of xs) f = Some (f \<and> fst (bubble c zs), s') \<and>
           list_rep dl s' (xs @ snd (bubble c zs)) \<and> off (set (xs @ zs)) s s'"
  using assms
proof (induction c zs arbitrary: s xs f rule: bubble.induct)
  case (1 c a b zs)
  have g: "get_slot s (slot_of xs) = Some (Some a)" "h_next s a = Some b"
    using get_slot_rep [OF 1(3)] rep_next [OF 1(3)] by simp_all
  show ?case
  proof (cases "c a b")
    case True
    then show ?thesis
      using 1(1) [OF True, of s "xs @ [a]" f] 1(3) g
      by (subst sort_pass.simps) (simp add: slot_of_def split_beta)
  next
    case False
    let ?s = "swap_nodes s (slot_of xs) a b dl"
    have r: "list_rep dl ?s ((xs @ [b]) @ a # zs)" and o: "off (set (xs @ a # b # zs)) s ?s"
      using swap_nodes_rep [OF 1(3)] by simp_all
    obtain s' where s': "sort_pass c dl ?s (slot_of (xs @ [b])) False = Some (False, s')"
        "list_rep dl s' ((xs @ [b]) @ snd (bubble c (a # zs)))" "off (set ((xs @ [b]) @ a # zs)) ?s s'"
      using 1(2) [OF False r, of False] by auto
    have "off (set (xs @ a # b # zs)) s s'"
      using o s'(3) by (rule off_trans) auto
    then show ?thesis
      using False s' g by (subst sort_pass.simps) (simp add: slot_of_def split_beta)
  qed
next
  case (2 c)
  then show ?case using get_slot_rep [OF 2] by (subst sort_pass.simps) simp
next
  case (3 c a)
  then show ?case
    using get_slot_rep [OF 3] rep_next [OF 3] by (subst sort_pass.simps) simp
qed

text \<open>The facts about a pass: it permutes, it keeps the relative order of equivalent nodes, and it
  reports \<^term>\<open>True\<close> exactly on a list whose neighbours are ordered.\<close>

fun adj :: "('a \<Rightarrow> 'a \<Rightarrow> bool) \<Rightarrow> 'a list \<Rightarrow> bool" where
  "adj c (a # b # xs) = (c a b \<and> adj c (b # xs))"
| "adj c [] = True"
| "adj c [a] = True"

lemma bubble_mset: "mset (snd (bubble c xs)) = mset xs"
  by (induction c xs rule: bubble.induct) (auto simp: split_beta)

lemma bubble_set: "set (snd (bubble c xs)) = set xs"
  using bubble_mset by (metis set_mset_mset)

lemma bubble_done: "fst (bubble c xs) = adj c xs"
  by (induction c xs rule: bubble.induct) (auto simp: split_beta)

lemma bubble_id: "fst (bubble c xs) \<Longrightarrow> snd (bubble c xs) = xs"
  by (induction c xs rule: bubble.induct) (auto simp: split_beta split: if_splits)

text \<open>The number of pairs out of order bounds the number of passes.\<close>

fun inversions :: "('a \<Rightarrow> 'a \<Rightarrow> bool) \<Rightarrow> 'a list \<Rightarrow> nat" where
  "inversions c [] = 0"
| "inversions c (x # xs) = size (filter_mset (\<lambda>y. \<not> c x y) (mset xs)) + inversions c xs"


lemma bubble_inversions:
  assumes "\<And>a b. c a b \<or> c b a"
  shows "inversions c (snd (bubble c xs)) + (if fst (bubble c xs) then 0 else 1) \<le> inversions c xs"
  using assms
proof (induction c xs rule: bubble.induct)
  case (1 c a b xs)
  show ?case
  proof (cases "c a b")
    case True
    then show ?thesis using 1(1) [OF True 1(3)] by (simp add: split_beta bubble_mset)
  next
    case False
    then have "c b a" using 1(3) by blast
    then show ?thesis
      using False 1(2) [OF False 1(3)] by (auto simp: split_beta bubble_mset split: if_splits)
  qed
qed auto


definition total_preorder :: "('a \<Rightarrow> 'a \<Rightarrow> bool) \<Rightarrow> bool" where
  "total_preorder c = ((\<forall>a b. c a b \<or> c b a) \<and> (\<forall>x y z. c x y \<longrightarrow> c y z \<longrightarrow> c x z))"

lemma bubble_stable:
  assumes "\<forall>x y z. c x y \<longrightarrow> c y z \<longrightarrow> c x z"
  shows "filter (\<lambda>y. c x y \<and> c y x) (snd (bubble c xs)) = filter (\<lambda>y. c x y \<and> c y x) xs"
  using assms
proof (induction c xs rule: bubble.induct)
  case (1 c a b xs)
  show ?case
  proof (cases "c a b")
    case True
    then show ?thesis using 1(1) [OF True 1(3)] by (simp add: split_beta)
  next
    case False
    then have "\<not> (c a x \<and> c x b)" using 1(3) by blast
    then show ?thesis using False 1(2) [OF False 1(3)] by (auto simp: split_beta)
  qed
qed auto

text \<open>With a total comparison the sort ends, on a stable permutation whose neighbours are ordered.\<close>

lemma sort_loop_rep:
  assumes "list_rep dl s xs" "total_preorder c"
  shows "\<exists>s' ys. sort_loop c dl s = Some s' \<and> list_rep dl s' ys \<and> mset ys = mset xs \<and> adj c ys \<and>
           (\<forall>x. filter (\<lambda>y. c x y \<and> c y x) ys = filter (\<lambda>y. c x y \<and> c y x) xs) \<and> off (set xs) s s'"
  using assms(1)
proof (induction "inversions c xs" arbitrary: s xs rule: less_induct)
  case less
  obtain s1 where s1: "sort_pass c dl s Slot_list True = Some (fst (bubble c xs), s1)"
      "list_rep dl s1 (snd (bubble c xs))" "off (set xs) s s1"
    using sort_pass_rep [of dl s "[]" xs c True] less.prems by (auto simp: slot_of_def)
  show ?case
  proof (cases "fst (bubble c xs)")
    case True
    then show ?thesis
      using s1 bubble_done [of c xs] bubble_id [of c xs] by (subst sort_loop.simps) auto
  next
    case False
    have "inversions c (snd (bubble c xs)) < inversions c xs"
      using bubble_inversions [of c xs] assms(2) False by (auto simp: total_preorder_def)
    from less.hyps [OF this s1(2)] obtain s2 ys where s2: "sort_loop c dl s1 = Some s2"
        "list_rep dl s2 ys" "mset ys = mset xs" "adj c ys"
        "\<forall>x. filter (\<lambda>y. c x y \<and> c y x) ys = filter (\<lambda>y. c x y \<and> c y x) xs" "off (set xs) s1 s2"
      using assms(2) by (auto simp: bubble_mset bubble_set bubble_stable total_preorder_def)
    have "off (set xs) s s2"
      using s1(3) s2(6) by (rule off_trans) simp
    then show ?thesis
      using False s1(1) s2 by (subst sort_loop.simps) auto
  qed
qed

lemma adj_sorted_wrt: "adj c xs \<Longrightarrow> \<forall>x y z. c x y \<longrightarrow> c y z \<longrightarrow> c x z \<Longrightarrow> sorted_wrt c xs"
proof (induction c xs rule: adj.induct)
  case (1 c a b xs)
  then have "c a b" "sorted_wrt c (b # xs)" by auto
  moreover from this have "\<forall>y \<in> set xs. c a y" using 1(3) by auto
  ultimately show ?case by simp
qed auto

text \<open>Whatever the comparison, if the sort ends then neighbours are ordered.\<close>

lemma sort_loop_partial:
  assumes "sort_loop c dl s = Some s'" "list_rep dl s xs"
  shows "\<exists>ys. list_rep dl s' ys \<and> mset ys = mset xs \<and> adj c ys"
  using assms
proof (induction arbitrary: xs rule: sort_loop.raw_induct [rotated, consumes 1, case_names 1])
  case (1 loop c dl s s')
  obtain s1 where s1: "sort_pass c dl s Slot_list True = Some (fst (bubble c xs), s1)"
      "list_rep dl s1 (snd (bubble c xs))"
    using sort_pass_rep [of dl s "[]" xs c True] 1(3) by (auto simp: slot_of_def)
  show ?case
  proof (cases "fst (bubble c xs)")
    case True
    then show ?thesis
      using 1(2) s1 bubble_done [of c xs] bubble_id [of c xs] by auto
  next
    case False
    then show ?thesis
      using 1(1) [of c dl s1 s' "snd (bubble c xs)"] 1(2) s1 by (simp add: bubble_mset)
  qed
qed

text \<open>So a comparison under which two nodes are each not before the other makes it run forever.\<close>

lemma sort_loop_diverges:
  assumes "list_rep dl s xs" "a \<in> set xs" "b \<in> set xs" "a \<noteq> b" "\<not> c a b" "\<not> c b a"
    "\<forall>x y z. c x y \<longrightarrow> c y z \<longrightarrow> c x z"
  shows "sort_loop c dl s = None"
proof (cases "sort_loop c dl s")
  case (Some s')
  obtain ys where ys: "mset ys = mset xs" "adj c ys"
    using sort_loop_partial [OF Some assms(1)] by blast
  then have w: "sorted_wrt c ys" "set ys = set xs"
    using adj_sorted_wrt [of c ys] assms(7) by (blast, metis set_mset_mset)
  obtain i j where "i < length ys" "ys ! i = a" "j < length ys" "ys ! j = b"
    using w(2) assms(2,3) by (metis in_set_conv_nth)
  then have False
    using sorted_wrt_nth_less [OF w(1)] assms(4,5,6) by (metis nat_neq_iff)
  then show ?thesis ..
qed

lemma total_preorder_key: "total_preorder (\<lambda>a b. k a \<le> k b)"
  for k :: "'a \<Rightarrow> 'k :: linorder"
  by (auto simp: total_preorder_def linear)

lemma sort_by_key:
  fixes k :: "addr \<Rightarrow> 'k :: linorder"
  assumes "list_rep dl s xs"
  shows "\<exists>s'. sort_internal s (Some (\<lambda>a b. k a \<le> k b)) dl = Some (True, s') \<and>
           list_rep dl s' (sort_key k xs) \<and> off (set xs) s s'"
proof -
  let ?c = "\<lambda>a b. k a \<le> k b"
  obtain s' ys where s': "sort_loop ?c dl s = Some s'" "list_rep dl s' ys" "mset ys = mset xs"
      "adj ?c ys" "\<forall>x. filter (\<lambda>y. ?c x y \<and> ?c y x) ys = filter (\<lambda>y. ?c x y \<and> ?c y x) xs" "off (set xs) s s'"
    using sort_loop_rep [OF assms total_preorder_key] by blast
  have "sorted (map k ys)"
    using adj_sorted_wrt [OF s'(4)] total_preorder_key [of k] by (simp add: sorted_map total_preorder_def)
  moreover have e: "(\<lambda>x. k v = k x) = (\<lambda>x. k v \<le> k x \<and> k x \<le> k v)" for v
    by (auto simp: fun_eq_iff)
  ultimately have "sort_key k xs = ys"
    using s'(3,5) by (intro properties_for_sort_key) (simp_all only: e)
  then show ?thesis
    using s' rep_list [OF assms] by (simp add: sort_internal_def)
qed

section \<open>Refinement of the abstract list\<close>

datatype list_op =
    Push_front addr | Pop_front | Push_back addr | Pop_back
  | Insert_before addr addr | Insert_after addr addr
  | Remove addr | Remove_if "addr \<Rightarrow> bool" | Unique "addr \<Rightarrow> addr \<Rightarrow> bool"
  | Sort "addr \<Rightarrow> nat" | Reverse | Clear | Size | Empty

datatype list_res = Bool bool | Count size_t

definition as_bool :: "(bool \<times> 's) option \<Rightarrow> (list_res \<times> 's) option" where
  "as_bool r = map_option (apfst Bool) r"

definition as_count :: "(size_t \<times> 's) option \<Rightarrow> (list_res \<times> 's) option" where
  "as_count r = map_option (apfst Count) r"

lemma as_res_Some [simp]:
  "as_bool (Some (b, s)) = Some (Bool b, s)" "as_count (Some (n, s)) = Some (Count n, s)"
  by (simp_all add: as_bool_def as_count_def)

text \<open>What each call does to the sequence of nodes.  \<^term>\<open>None\<close> marks a call outside the contract:
  linking a node that is linked already, or inserting next to a node that is not.\<close>

fun list_spec :: "bool \<Rightarrow> list_op \<Rightarrow> addr list \<Rightarrow> (list_res \<times> addr list) option" where
  "list_spec dl (Push_front n) xs = (if n \<in> set xs then None else Some (Bool True, n # xs))"
| "list_spec dl Pop_front xs = Some (Bool (xs \<noteq> []), tl xs)"
| "list_spec dl (Push_back n) xs = (if n \<in> set xs then None else Some (Bool True, xs @ [n]))"
| "list_spec dl Pop_back xs = Some (Bool (xs \<noteq> []), butlast xs)"
| "list_spec dl (Insert_before r n) xs =
     (if \<not> dl \<or> r \<notin> set xs \<or> n \<in> set xs then None
      else Some (Bool True, takeWhile (\<lambda>x. x \<noteq> r) xs @ n # dropWhile (\<lambda>x. x \<noteq> r) xs))"
| "list_spec dl (Insert_after r n) xs =
     (if r \<notin> set xs \<or> n \<in> set xs then None
      else Some (Bool True, takeWhile (\<lambda>x. x \<noteq> r) xs @ r # n # tl (dropWhile (\<lambda>x. x \<noteq> r) xs)))"
| "list_spec dl (Remove n) xs = Some (Bool (n \<in> set xs), remove1 n xs)"
| "list_spec dl (Remove_if p) xs =
     Some (Count (of_nat (length (filter p xs))), filter (\<lambda>x. \<not> p x) xs)"
| "list_spec dl (Unique p) xs = Some (Count (of_nat (length xs - length (uniq p xs))), uniq p xs)"
| "list_spec dl (Sort k) xs = Some (Bool True, sort_key k xs)"
| "list_spec dl Reverse xs = Some (Bool True, rev xs)"
| "list_spec dl Clear xs = Some (Bool True, [])"
| "list_spec dl Size xs = Some (Count (of_nat (length xs)), xs)"
| "list_spec dl Empty xs = Some (Bool (of_nat (length xs) = (0 :: size_t)), xs)"

fun flist_call :: "del_func \<Rightarrow> list_op \<Rightarrow> lheap \<Rightarrow> (list_res \<times> lheap) option" where
  "flist_call del (Push_front n) s = as_bool (flist_push_front s (Some n))"
| "flist_call del Pop_front s = as_bool (flist_pop_front s del)"
| "flist_call del (Push_back n) s = as_bool (flist_push_back s (Some n))"
| "flist_call del Pop_back s = as_bool (flist_pop_back s del)"
| "flist_call del (Insert_before r n) s = None"
| "flist_call del (Insert_after r n) s = as_bool (flist_insert_after s (Some r) (Some n))"
| "flist_call del (Remove n) s = as_bool (flist_remove s (Some n) del)"
| "flist_call del (Remove_if p) s = as_count (flist_remove_if s (Some p) del)"
| "flist_call del (Unique p) s = as_count (flist_unique s (Some p) del)"
| "flist_call del (Sort k) s = as_bool (flist_sort s (Some (\<lambda>a b. k a \<le> k b)))"
| "flist_call del Reverse s = as_bool (flist_reverse s)"
| "flist_call del Clear s = as_bool (flist_clear s del)"
| "flist_call del Size s = as_count (map_option (\<lambda>n. (n, s)) (flist_size s))"
| "flist_call del Empty s = as_bool (map_option (\<lambda>b. (b, s)) (flist_empty s))"

fun dlist_call :: "del_func \<Rightarrow> list_op \<Rightarrow> lheap \<Rightarrow> (list_res \<times> lheap) option" where
  "dlist_call del (Push_front n) s = as_bool (list_push_front s (Some n))"
| "dlist_call del Pop_front s = as_bool (list_pop_front s del)"
| "dlist_call del (Push_back n) s = as_bool (list_push_back s (Some n))"
| "dlist_call del Pop_back s = as_bool (list_pop_back s del)"
| "dlist_call del (Insert_before r n) s = as_bool (list_insert_before s (Some r) (Some n))"
| "dlist_call del (Insert_after r n) s = as_bool (list_insert_after s (Some r) (Some n))"
| "dlist_call del (Remove n) s = as_bool (list_remove_node s (Some n) del)"
| "dlist_call del (Remove_if p) s = as_count (list_remove_if s (Some p) del)"
| "dlist_call del (Unique p) s = as_count (list_unique s (Some p) del)"
| "dlist_call del (Sort k) s = as_bool (list_sort s (Some (\<lambda>a b. k a \<le> k b)))"
| "dlist_call del Reverse s = as_bool (list_reverse s)"
| "dlist_call del Clear s = as_bool (list_clear s del)"
| "dlist_call del Size s = as_count (map_option (\<lambda>n. (n, s)) (list_size s))"
| "dlist_call del Empty s = as_bool (map_option (\<lambda>b. (b, s)) (list_empty s))"

lemmas list_api_defs =
  flist_push_front_def flist_pop_front_def flist_push_back_def flist_insert_after_def
  flist_remove_def flist_remove_if_def flist_unique_def flist_sort_def flist_reverse_def
  list_push_front_def list_pop_front_def list_push_back_def list_insert_after_def list_pop_back_def
  list_remove_node_def list_remove_if_def list_unique_def list_sort_def list_reverse_def
  list_clear_def list_size_def list_empty_def flist_empty_def

text \<open>The laws of the shared operations, in the form the two interpretations need: one equation per
  call of the specification, for both kinds of list.\<close>

lemma split_at:
  assumes "r \<in> set xs"
  shows "xs = takeWhile (\<lambda>x. x \<noteq> r) xs @ r # tl (dropWhile (\<lambda>x. x \<noteq> r) xs)"
    and "dropWhile (\<lambda>x. x \<noteq> r) xs = r # tl (dropWhile (\<lambda>x. x \<noteq> r) xs)"
  using assms by (induction xs) auto

definition agrees ::
  "bool \<Rightarrow> del_func \<Rightarrow> lheap \<Rightarrow> addr list \<Rightarrow> list_op \<Rightarrow> (list_res \<times> lheap) option \<Rightarrow> bool" where
  "agrees dl del s xs op c =
     (\<forall>r ys. list_spec dl op xs = Some (r, ys) \<longrightarrow> (\<exists>s'. c = Some (r, s') \<and> list_rep dl s' ys))"

lemma agrees_ends:
  assumes "list_rep dl s xs" "del_ok del"
  shows "agrees dl del s xs (Push_front n) (as_bool (push_front_internal s (Some n) dl))"
    and "agrees dl del s xs Pop_front (as_bool (pop_front_internal s del dl))"
    and "agrees dl del s xs (Push_back n) (as_bool (push_back_internal s (Some n) dl))"
    and "agrees dl del s xs Pop_back (as_bool (flist_pop_back s del))"
proof -
  show "agrees dl del s xs (Push_front n) (as_bool (push_front_internal s (Some n) dl))"
    using push_front_rep [OF assms(1)] by (fastforce simp: agrees_def)
  show "agrees dl del s xs (Push_back n) (as_bool (push_back_internal s (Some n) dl))"
    using push_back_rep [OF assms(1)] by (fastforce simp: agrees_def)
  show "agrees dl del s xs Pop_front (as_bool (pop_front_internal s del dl))"
    using pop_front_rep [of dl s "hd xs" "tl xs"] pop_front_empty [of dl s] assms
    by (cases xs) (fastforce simp: agrees_def)+
  show "agrees dl del s xs Pop_back (as_bool (flist_pop_back s del))"
    using pop_back_rep [of dl s "butlast xs" "last xs"] pop_back_empty [of dl s] assms
    by (cases xs rule: rev_cases) (fastforce simp: agrees_def)+
qed

lemma agrees_middle:
  assumes "list_rep dl s xs" "del_ok del"
  shows "agrees dl del s xs (Insert_after r n) (as_bool (insert_after_internal s (Some r) (Some n) dl))"
    and "dl \<Longrightarrow> agrees dl del s xs (Insert_before r n) (as_bool (list_insert_before s (Some r) (Some n)))"
    and "agrees dl del s xs (Remove n) (as_bool (remove_internal s (Some n) del dl))"
    and "agrees dl del s xs (Remove_if p) (as_count (remove_if_internal s (Some p) del dl))"
    and "agrees dl del s xs (Unique q) (as_count (unique_internal s (Some q) del dl))"
proof -
  let ?t = "\<lambda>r. takeWhile (\<lambda>x. x \<noteq> r) xs" and ?d = "\<lambda>r. tl (dropWhile (\<lambda>x. x \<noteq> r) xs)"
  have at: "list_rep dl s (?t r @ r # ?d r)" if "r \<in> set xs" for r
    using assms(1) split_at(1) [OF that] by simp
  show "agrees dl del s xs (Insert_after r n) (as_bool (insert_after_internal s (Some r) (Some n) dl))"
    using insert_after_rep [OF at, of r n] split_at(1) [of r xs]
    by (fastforce simp: agrees_def)
  show "agrees dl del s xs (Insert_before r n) (as_bool (list_insert_before s (Some r) (Some n)))" if dl
    using insert_before_rep [of s "?t r" r "?d r" n] at [of r] split_at [of r xs] that
    by (fastforce simp: agrees_def)
  show "agrees dl del s xs (Remove n) (as_bool (remove_internal s (Some n) del dl))"
  proof (cases "n \<in> set xs")
    case True
    have "remove1 n xs = ?t n @ ?d n"
      by (subst split_at(1) [OF True]) (simp add: remove1_append remove1_idem, metis set_takeWhileD)
    then show ?thesis
      using remove_rep [OF at [OF True] assms(2)] True by (fastforce simp: agrees_def)
  qed (use remove_missing [OF assms(1)] assms(1) in \<open>simp add: agrees_def remove1_idem\<close>)
  show "agrees dl del s xs (Remove_if p) (as_count (remove_if_internal s (Some p) del dl))"
    using remove_if_loop_rep [of dl s "[]" xs del p 0] assms rep_list [OF assms(1)]
    by (fastforce simp: agrees_def remove_if_internal_def)
  show "agrees dl del s xs (Unique q) (as_count (unique_internal s (Some q) del dl))"
    using unique_loop_rep [of dl s "[]" xs del q 0] assms rep_list [OF assms(1)]
    by (fastforce simp: agrees_def unique_internal_def)
qed

lemma agrees_whole:
  assumes "list_rep dl s xs" "del_ok del"
  shows "agrees dl del s xs (Sort k) (as_bool (sort_internal s (Some (\<lambda>a b. k a \<le> k b)) dl))"
    and "agrees dl del s xs Reverse (as_bool (reverse_internal s dl))"
    and "agrees dl del s xs Clear (as_bool (flist_clear s del))"
    and "agrees dl del s xs Size (as_count (map_option (\<lambda>n. (n, s)) (flist_size s)))"
    and "agrees dl del s xs Empty (as_bool (map_option (\<lambda>n. (n, s)) (flist_empty s)))"
proof -
  show "agrees dl del s xs (Sort k) (as_bool (sort_internal s (Some (\<lambda>a b. k a \<le> k b)) dl))"
    using sort_by_key [OF assms(1), of k] by (auto simp: agrees_def)
  have "\<exists>s'. reverse_loop dl s (hd_ptr xs) (hd_ptr []) = Some s' \<and> list_rep dl s' (rev xs @ []) \<and>
      off (set ([] @ xs)) s s'"
    by (rule reverse_loop_rep) (use assms(1) in \<open>simp_all add: rep_iff\<close>)
  then show "agrees dl del s xs Reverse (as_bool (reverse_internal s dl))"
    using rep_list [OF assms(1)] by (fastforce simp: agrees_def reverse_internal_def)
  show "agrees dl del s xs Clear (as_bool (flist_clear s del))"
    using clear_loop_rep [of s xs del] assms
    by (auto simp: agrees_def flist_clear_def rep_iff)
  show "agrees dl del s xs Size (as_count (map_option (\<lambda>n. (n, s)) (flist_size s)))"
    and "agrees dl del s xs Empty (as_bool (map_option (\<lambda>n. (n, s)) (flist_empty s)))"
    using size_loop_rep [of s xs 0] assms(1)
    by (auto simp: agrees_def flist_size_def flist_empty_def rep_iff)
qed

text \<open>Calls with a \<open>NULL\<close> list or node change nothing and report failure.\<close>

lemma list_null_args:
  assumes "h_list s = None"
  shows "push_front_internal s n dl = Some (False, s)" "push_back_internal s n dl = Some (False, s)"
    "pop_front_internal s del dl = Some (False, s)" "flist_pop_back s del = Some (False, s)"
    "remove_internal s n del dl = Some (False, s)" "remove_if_internal s p del dl = Some (0, s)"
    "sort_internal s c dl = Some (False, s)" "unique_internal s c del dl = Some (0, s)"
    "reverse_internal s dl = Some (False, s)" "flist_clear s del = Some (False, s)" "flist_size s = Some 0"
  using assms
  by (simp_all add: push_front_internal_def push_back_internal_def pop_front_internal_def
      flist_pop_back_def remove_internal_def remove_if_internal_def sort_internal_def
      unique_internal_def reverse_internal_def flist_clear_def flist_size_def)

lemmas agrees_all = agrees_ends agrees_middle agrees_whole

lemma flist_call_agrees:
  assumes "list_rep False s xs" "del_ok del"
  shows "agrees False del s xs op (flist_call del op s)"
  using agrees_all [OF assms] by (cases op) (simp_all add: list_api_defs, simp add: agrees_def)

lemma dlist_call_agrees:
  assumes "list_rep True s xs" "del_ok del"
  shows "agrees True del s xs op (dlist_call del op s)"
  using agrees_all [OF assms]
  by (cases op) (simp_all add: list_api_defs)


interpretation flist: refinement
  "\<lambda>s xs. list_rep False s xs \<and> del_ok del" "flist_call del" "list_spec False" for del
  by unfold_locales (use flist_call_agrees in \<open>auto simp: agrees_def\<close>)

interpretation dlist: refinement
  "\<lambda>s xs. list_rep True s xs \<and> del_ok del" "dlist_call del" "list_spec True" for del
  by unfold_locales (use dlist_call_agrees in \<open>auto simp: agrees_def\<close>)

text \<open>Property C12.  Both kinds of list implement the sequence of their nodes: for every sequence of API
  calls that the abstract sequence allows (no node is linked twice, a node is inserted only next
  to a linked one), with a delete callback that changes nothing but the node it is given, the calls end,
  return the results of the specification, and leave a well-linked list of exactly the specified
  nodes, with correct backward links in the doubly-linked case.\<close>

theorem lists_refine:
  assumes "del_ok del" "list_rep dl s xs" "run (list_spec dl) ops xs = Some (rs, ys)"
  shows "\<exists>s'. run (if dl then dlist_call del else flist_call del) ops s = Some (rs, s') \<and> list_rep dl s' ys"
  using flist.run_sim [of s xs del ops rs ys] dlist.run_sim [of s xs del ops rs ys] assms
  by (cases dl) auto

definition del_unlink :: "lheap \<Rightarrow> addr \<Rightarrow> lheap" where
  "del_unlink s a = set_prev (set_next s a None) a None"

definition lheap0 :: lheap where
  "lheap0 = \<lparr>h_list = Some None, h_next = (\<lambda>_. None), h_prev = (\<lambda>_. None)\<rparr>"

lemma del_unlink_ok: "del_ok (Some del_unlink)"
  by (simp add: del_ok_def call_del_def del_unlink_def off_def)

lemma lheap0_rep: "list_rep dl lheap0 []"
  by (simp add: list_rep_def lheap0_def)

theorem lists_refine_witness:
  "\<exists>s'. run (dlist_call (Some del_unlink))
         [Push_back 3, Push_front 1, Insert_before 3 2, Sort (\<lambda>a. 9 - a), Remove 2, Size] lheap0 =
       Some ([Bool True, Bool True, Bool True, Bool True, Bool True, Count 2], s') \<and>
     list_rep True s' [3, 1]"
  using lists_refine [OF del_unlink_ok lheap0_rep, of True
      "[Push_back 3, Push_front 1, Insert_before 3 2, Sort (\<lambda>a. 9 - a), Remove 2, Size]"
      "[Bool True, Bool True, Bool True, Bool True, Bool True, Count 2]" "[3, 1]"]
  by simp

text \<open>Property C23.  With a comparison that is a total preorder (it holds for equal nodes) the sort of both
  kinds of list ends.  The new list is well linked, has the same nodes, is ordered for every pair of positions,
  keeps the relative order of equivalent nodes, and no other node's links are changed.\<close>

theorem sort_total:
  assumes "list_rep dl s xs" "total_preorder c"
  shows "\<exists>s' ys. (if dl then list_sort s (Some c) else flist_sort s (Some c)) = Some (True, s') \<and>
           list_rep dl s' ys \<and> mset ys = mset xs \<and> sorted_wrt c ys \<and>
           (\<forall>x. filter (\<lambda>y. c x y \<and> c y x) ys = filter (\<lambda>y. c x y \<and> c y x) xs) \<and> off (set xs) s s'"
proof -
  obtain s' ys where s': "sort_loop c dl s = Some s'" "list_rep dl s' ys" "mset ys = mset xs" "adj c ys"
      "\<forall>x. filter (\<lambda>y. c x y \<and> c y x) ys = filter (\<lambda>y. c x y \<and> c y x) xs" "off (set xs) s s'"
    using sort_loop_rep [OF assms] by blast
  moreover have "sorted_wrt c ys"
    using adj_sorted_wrt [OF s'(4)] assms(2) by (simp add: total_preorder_def)
  ultimately show ?thesis
    using rep_list [OF assms(1)] by (auto simp: flist_sort_def list_sort_def sort_internal_def)
qed

lemma lheap_two: "list_rep dl (lheap0\<lparr>h_list := Some (Some 1), h_next := (\<lambda>a. if a = 1 then Some 2 else None),
    h_prev := (\<lambda>a. if a = 2 then Some 1 else None)\<rparr>) [1, 2]"
  by (simp add: list_rep_def lheap0_def)

theorem sort_total_witness:
  "\<exists>s' ys. list_sort (lheap0\<lparr>h_list := Some (Some 1), h_next := (\<lambda>a. if a = 1 then Some 2 else None),
       h_prev := (\<lambda>a. if a = 2 then Some 1 else None)\<rparr>) (Some (\<lambda>a b. b \<le> a)) = Some (True, s') \<and>
     list_rep True s' ys \<and> mset ys = {#1, 2#} \<and> sorted_wrt (\<lambda>a b. b \<le> a) ys"
proof -
  have "total_preorder (\<lambda>a b. b \<le> (a :: nat))"
    by (auto simp: total_preorder_def)
  from sort_total [OF lheap_two [of True] this] show ?thesis by auto
qed

text \<open>Property C24.  With a comparison that is transitive and says neither \<open>a\<close> before \<open>b\<close> nor \<open>b\<close> before \<open>a\<close> for
  two nodes of the list (a strict order and two equal nodes), the sort of both kinds of list never
  returns.\<close>

theorem sort_strict_diverges:
  assumes "list_rep dl s xs" "\<forall>x y z. c x y \<longrightarrow> c y z \<longrightarrow> c x z"
    "a \<in> set xs" "b \<in> set xs" "a \<noteq> b" "\<not> c a b" "\<not> c b a"
  shows "(if dl then list_sort s (Some c) else flist_sort s (Some c)) = None"
  using sort_loop_diverges [OF assms(1,3,4,5,6,7,2)] rep_list [OF assms(1)]
  by (cases dl) (simp_all add: flist_sort_def list_sort_def sort_internal_def)

theorem sort_strict_diverges_witness:
  "flist_sort (lheap0\<lparr>h_list := Some (Some 1), h_next := (\<lambda>a. if a = 1 then Some 2 else None),
     h_prev := (\<lambda>a. if a = 2 then Some 1 else None)\<rparr>) (Some (\<lambda>a b. a div 4 < b div 4)) = None"
  using sort_strict_diverges [OF lheap_two [of False], of "\<lambda>a b. a div 4 < b div 4" 1 2] by auto

end
