(* ===== verification/Tlv.thy ===== *)
theory Tlv
  imports Buffer
begin

text \<open>
  The TLV parser of \<^verbatim>\<open>lib_tlv/tlv_library.c\<close>.

  The payload is a \<open>buffer_t\<close>.  A value handed to a handler is a pointer into it (the suffix of
  the array that starts there, the empty list for \<open>NULL\<close>) and a size.  The handlers and the output structure
  belong to the application: a handler is a function of the TLV data, of the reception flags (which it
  may consult) and of the output, and returns its result and the new output.  An accessor
  returns \<^term>\<open>Some None\<close> where the C function returns \<open>false\<close>; its out-parameter is not
  \<open>NULL\<close>.  \<^term>\<open>None\<close> is an access outside an object.
\<close>

section \<open>Data\<close>

type_synonym TLV_tag_t = u32
type_synonym TLV_flag_t = u64

record tlv_data_t =
  d_tag :: TLV_tag_t
  d_value_ptr :: bytes
  d_value_size :: size_t
  d_raw_ptr :: bytes
  d_raw_size :: size_t

record TLV_reception_t =
  r_flags :: TLV_flag_t
  r_tag_to_flag :: "TLV_tag_t \<Rightarrow> TLV_flag_t"

type_synonym 'o tlv_handler_cb_t = "tlv_data_t \<Rightarrow> TLV_flag_t \<Rightarrow> 'o \<Rightarrow> bool \<times> 'o"

record 'o tlv_handler =
  th_tag :: TLV_tag_t
  th_func :: "'o tlv_handler_cb_t option"
  th_is_unique :: bool

section \<open>Accessors\<close>

definition get_uint64_t_from_tlv_data :: "tlv_data_t option \<Rightarrow> u64 option option" where
  "get_uint64_t_from_tlv_data data =
     (case data of
        None \<Rightarrow> Some None
      | Some d \<Rightarrow>
          if d_value_size d = 0 \<or> d_value_size d > 8 then Some None
          else do {
            buffer \<leftarrow> memcpy_n (replicate 8 0) (unat (8 - d_value_size d)) (d_value_ptr d) 0 (unat (d_value_size d));
            v \<leftarrow> U8BE buffer 0;
            Some (Some v) })"

definition get_uint32_t_from_tlv_data :: "tlv_data_t option \<Rightarrow> u32 option option" where
  "get_uint32_t_from_tlv_data data =
     (if data = None then Some None
      else do {
        r \<leftarrow> get_uint64_t_from_tlv_data data;
        Some (case r of None \<Rightarrow> None | Some tmp \<Rightarrow> if tmp > 0xFFFFFFFF then None else Some (ucast tmp)) })"

definition get_uint16_t_from_tlv_data :: "tlv_data_t option \<Rightarrow> u16 option option" where
  "get_uint16_t_from_tlv_data data =
     (if data = None then Some None
      else do {
        r \<leftarrow> get_uint64_t_from_tlv_data data;
        Some (case r of None \<Rightarrow> None | Some tmp \<Rightarrow> if tmp > 0xFFFF then None else Some (ucast tmp)) })"

definition get_uint8_t_from_tlv_data :: "tlv_data_t option \<Rightarrow> u8 option option" where
  "get_uint8_t_from_tlv_data data =
     (if data = None then Some None
      else do {
        r \<leftarrow> get_uint64_t_from_tlv_data data;
        Some (case r of None \<Rightarrow> None | Some tmp \<Rightarrow> if tmp > 0xFF then None else Some (ucast tmp)) })"

definition get_bool_from_tlv_data :: "tlv_data_t option \<Rightarrow> bool option option" where
  "get_bool_from_tlv_data data =
     (if data = None then Some None
      else do {
        r \<leftarrow> get_uint8_t_from_tlv_data data;
        Some (case r of None \<Rightarrow> None | Some tmp \<Rightarrow> if tmp > 1 then None else Some (tmp = 1)) })"

definition tlv_enforce_u8_value :: "tlv_data_t option \<Rightarrow> u8 \<Rightarrow> bool option" where
  "tlv_enforce_u8_value data expected_value = do {
     r \<leftarrow> get_uint8_t_from_tlv_data data;
     Some (case r of None \<Rightarrow> False | Some v \<Rightarrow> v = expected_value) }"

definition get_buffer_from_tlv_data :: "tlv_data_t option \<Rightarrow> buffer_t \<Rightarrow> u16 \<Rightarrow> u16 \<Rightarrow> bool \<times> buffer_t" where
  "get_buffer_from_tlv_data data out min_size max_size =
     (case data of
        None \<Rightarrow> (False, out)
      | Some d \<Rightarrow>
          if min_size \<noteq> 0 \<and> d_value_size d < ucast min_size then (False, out)
          else if max_size \<noteq> 0 \<and> d_value_size d > ucast max_size then (False, out)
          else (True, out\<lparr>b_size := d_value_size d, b_ptr := d_value_ptr d\<rparr>))"

text \<open>\<open>strnlen\<close> reads up to and including the first NUL, at most \<open>n\<close> bytes.\<close>

definition strnlen :: "bytes \<Rightarrow> nat \<Rightarrow> nat option" where
  "strnlen s n =
     (let k = length (takeWhile (\<lambda>c. c \<noteq> 0) (take n s))
      in if k = n \<or> k < length s then Some k else None)"

definition get_string_from_tlv_data ::
  "tlv_data_t option \<Rightarrow> bytes \<Rightarrow> u16 \<Rightarrow> u16 \<Rightarrow> (bool \<times> bytes) option" where
  "get_string_from_tlv_data data out min_length out_size =
     (case data of
        None \<Rightarrow> Some (False, out)
      | Some d \<Rightarrow> do {
          let sz = d_value_size d;
          actual_length \<leftarrow> (if sz > 0 then strnlen (d_value_ptr d) (unat sz) else Some 0);
          if actual_length \<noteq> unat sz then Some (False, out)
          else if min_length \<noteq> 0 \<and> sz < ucast min_length then Some (False, out)
          else if out_size \<noteq> 0 \<and> sz + 1 > ucast out_size then Some (False, out)
          else do {
            out \<leftarrow> (if sz > 0 then memcpy_n out 0 (d_value_ptr d) 0 (unat sz) else Some out);
            out \<leftarrow> st out (unat sz) 0;
            Some (True, out) } })"

section \<open>The parser\<close>

definition DER_LONG_FORM_FLAG :: u8 where "DER_LONG_FORM_FLAG = 0x80"
definition DER_FIRST_BYTE_VALUE_MASK :: u8 where "DER_FIRST_BYTE_VALUE_MASK = 0x7F"

text \<open>The result is the parsed value, \<^term>\<open>None\<close> on failure, and the offset left behind.\<close>

definition get_der_value_as_uint32 :: "buffer_t \<Rightarrow> size_t \<Rightarrow> (u32 option \<times> size_t) option" where
  "get_der_value_as_uint32 payload offset = do {
     b \<leftarrow> ld (b_ptr payload) (unat offset);
     if b AND DER_LONG_FORM_FLAG \<noteq> 0 then do {
       let byte_length = b AND DER_FIRST_BYTE_VALUE_MASK;
       let offset = offset + 1;
       if offset + ucast byte_length > b_size payload then Some (None, offset)
       else if byte_length > 4 \<or> byte_length = 0 then Some (None, offset)
       else do {
         buf \<leftarrow> memset_n (replicate 4 0) 0 0 (4 - unat byte_length);
         buf \<leftarrow> memcpy_n buf (4 - unat byte_length) (b_ptr payload) (unat offset) (unat byte_length);
         v \<leftarrow> U4BE buf 0;
         Some (Some v, offset + ucast byte_length) } }
     else Some (Some (ucast b), offset + 1) }"

definition get_der_value_as_uint16 :: "buffer_t \<Rightarrow> size_t \<Rightarrow> (u16 option \<times> size_t) option" where
  "get_der_value_as_uint16 payload offset = do {
     (r, offset) \<leftarrow> get_der_value_as_uint32 payload offset;
     Some (case r of
             None \<Rightarrow> (None, offset)
           | Some tmp \<Rightarrow> if tmp > 0xFFFF then (None, offset) else (Some (ucast tmp), offset)) }"

fun check_received_tags_from :: "TLV_reception_t \<Rightarrow> TLV_tag_t list \<Rightarrow> bool" where
  "check_received_tags_from received [] = True"
| "check_received_tags_from received (tag # tags) =
     (let flag = r_tag_to_flag received tag in
      if flag = 0 then False
      else if r_flags received AND flag \<noteq> flag then False
      else check_received_tags_from received tags)"

definition tlv_check_received_tags :: "TLV_reception_t \<Rightarrow> TLV_tag_t list \<Rightarrow> size_t \<Rightarrow> bool option" where
  "tlv_check_received_tags received tags tag_count = do {
     ts \<leftarrow> ld_n tags 0 (unat tag_count);
     Some (check_received_tags_from received ts) }"

fun find_handler_from :: "'o tlv_handler list \<Rightarrow> TLV_tag_t \<Rightarrow> 'o tlv_handler option" where
  "find_handler_from [] tag = None"
| "find_handler_from (h # hs) tag = (if th_tag h = tag then Some h else find_handler_from hs tag)"

definition find_handler :: "'o tlv_handler list \<Rightarrow> u8 \<Rightarrow> TLV_tag_t \<Rightarrow> 'o tlv_handler option option" where
  "find_handler handlers handlers_count tag = do {
     hs \<leftarrow> ld_n handlers 0 (unat handlers_count);
     Some (find_handler_from hs tag) }"

datatype tlv_step_t = TLV_TAG | TLV_LENGTH | TLV_VALUE

text \<open>The local variables of \<open>_parse_tlv_internal\<close>, with the reception flags and the output.\<close>

record 'o tlv_state =
  t_step :: tlv_step_t
  t_data :: tlv_data_t
  t_offset :: size_t
  t_tag_start :: size_t
  t_handler :: "'o tlv_handler option"
  t_flags :: TLV_flag_t
  t_out :: 'o

definition call_handler ::
  "'o tlv_handler_cb_t option \<Rightarrow> tlv_data_t \<Rightarrow> TLV_flag_t \<Rightarrow> 'o \<Rightarrow> bool \<times> 'o" where
  "call_handler fptr data flags out = (case fptr of None \<Rightarrow> (True, out) | Some f \<Rightarrow> f data flags out)"

definition tlv_do_tag ::
  "'o tlv_handler list \<Rightarrow> u8 \<Rightarrow> buffer_t \<Rightarrow> 'o tlv_state \<Rightarrow> (bool \<times> 'o tlv_state) option" where
  "tlv_do_tag handlers handlers_count payload s = do {
     (r, offset) \<leftarrow> get_der_value_as_uint32 payload (t_offset s);
     let s = s\<lparr>t_tag_start := t_offset s, t_offset := offset\<rparr>;
     (case r of
        None \<Rightarrow> Some (False, s)
      | Some tag \<Rightarrow> do {
          h \<leftarrow> find_handler handlers handlers_count tag;
          let s = s\<lparr>t_data := (t_data s)\<lparr>d_tag := tag\<rparr>, t_handler := h\<rparr>;
          (case h of None \<Rightarrow> Some (False, s) | Some _ \<Rightarrow> Some (True, s\<lparr>t_step := TLV_LENGTH\<rparr>)) }) }"

definition tlv_do_length :: "buffer_t \<Rightarrow> 'o tlv_state \<Rightarrow> (bool \<times> 'o tlv_state) option" where
  "tlv_do_length payload s = do {
     (r, offset) \<leftarrow> get_der_value_as_uint16 payload (t_offset s);
     let s = s\<lparr>t_offset := offset\<rparr>;
     Some (case r of
             None \<Rightarrow> (False, s)
           | Some sz \<Rightarrow>
               (True, s\<lparr>t_data := (t_data s)\<lparr>d_value_size := ucast sz\<rparr>, t_step := TLV_VALUE\<rparr>)) }"

definition tlv_do_value ::
  "'o tlv_handler_cb_t option \<Rightarrow> (TLV_tag_t \<Rightarrow> TLV_flag_t) \<Rightarrow> buffer_t \<Rightarrow> 'o tlv_state \<Rightarrow>
     (bool \<times> 'o tlv_state) option" where
  "tlv_do_value common_handler tag_to_flag payload s =
     (let sz = d_value_size (t_data s) in
      if t_offset s + sz > b_size payload then Some (False, s)
      else
        let data = (t_data s)
              \<lparr>d_value_ptr := (if sz > 0 then drop (unat (t_offset s)) (b_ptr payload) else []),
               d_raw_ptr := drop (unat (t_tag_start s)) (b_ptr payload),
               d_raw_size := t_offset s + sz - t_tag_start s\<rparr>;
            s = s\<lparr>t_data := data, t_offset := t_offset s + sz\<rparr>;
            flag = tag_to_flag (d_tag data)
        in do {
          handler \<leftarrow> t_handler s;
          if th_is_unique handler \<and> t_flags s AND flag = flag then Some (False, s)
          else
            let (ok, out) = call_handler common_handler data (t_flags s) (t_out s);
                s = s\<lparr>t_out := out\<rparr>
            in if \<not> ok then Some (False, s)
               else
                 let (ok, out) = call_handler (th_func handler) data (t_flags s) (t_out s);
                     s = s\<lparr>t_out := out\<rparr>
                 in if \<not> ok then Some (False, s)
                    else Some (True, s\<lparr>t_flags := t_flags s OR flag, t_step := TLV_TAG\<rparr>) })"

partial_function (option) parse_tlv_loop ::
  "'o tlv_handler list \<Rightarrow> u8 \<Rightarrow> 'o tlv_handler_cb_t option \<Rightarrow> (TLV_tag_t \<Rightarrow> TLV_flag_t) \<Rightarrow> buffer_t \<Rightarrow>
     'o tlv_state \<Rightarrow> (bool \<times> 'o tlv_state) option" where
  "parse_tlv_loop handlers handlers_count common_handler tag_to_flag payload s =
     (if t_offset s < b_size payload \<or> t_step s = TLV_VALUE \<and> d_value_size (t_data s) = 0
      then do {
        (ok, s) \<leftarrow> (case t_step s of
                     TLV_TAG \<Rightarrow> tlv_do_tag handlers handlers_count payload s
                   | TLV_LENGTH \<Rightarrow> tlv_do_length payload s
                   | TLV_VALUE \<Rightarrow> tlv_do_value common_handler tag_to_flag payload s);
        if ok then parse_tlv_loop handlers handlers_count common_handler tag_to_flag payload s
        else Some (False, s) }
      else Some (True, s))"

definition tlv_data0 :: tlv_data_t where
  "tlv_data0 = \<lparr>d_tag = 0, d_value_ptr = [], d_value_size = 0, d_raw_ptr = [], d_raw_size = 0\<rparr>"

definition parse_tlv_internal ::
  "'o tlv_handler list \<Rightarrow> u8 \<Rightarrow> 'o tlv_handler_cb_t option \<Rightarrow> (TLV_tag_t \<Rightarrow> TLV_flag_t) \<Rightarrow> buffer_t \<Rightarrow>
     'o \<Rightarrow> (bool \<times> TLV_reception_t \<times> 'o) option" where
  "parse_tlv_internal handlers handlers_count common_handler tag_to_flag_function payload tlv_out = do {
     (ok, s) \<leftarrow> parse_tlv_loop handlers handlers_count common_handler tag_to_flag_function payload
       \<lparr>t_step = TLV_TAG, t_data = tlv_data0, t_offset = 0, t_tag_start = 0, t_handler = None,
        t_flags = 0, t_out = tlv_out\<rparr>;
     let received = \<lparr>r_flags = t_flags s, r_tag_to_flag = tag_to_flag_function\<rparr>;
     Some (ok \<and> t_step s = TLV_TAG \<and> t_offset s = b_size payload, received, t_out s) }"

section \<open>The parser of a tag list\<close>

text \<open>The functions that \<open>DEFINE_TLV_PARSER\<close> generates from its list of tags.  The static assertion bounds
  the number of tags by the 64 bits of a flag, and the \<open>switch\<close> needs distinct tags.\<close>

datatype tag_unicity_t = ENFORCE_UNIQUE_TAG | ALLOW_MULTIPLE_TAG

type_synonym 'o tag_list = "(TLV_tag_t \<times> 'o tlv_handler_cb_t option \<times> tag_unicity_t) list"

fun tag_flag_from :: "nat \<Rightarrow> 'o tag_list \<Rightarrow> TLV_tag_t \<Rightarrow> TLV_flag_t" where
  "tag_flag_from i [] tag = 0"
| "tag_flag_from i ((t, _, _) # ts) tag = (if tag = t then push_bit i 1 else tag_flag_from (Suc i) ts tag)"

definition tag_to_flag :: "'o tag_list \<Rightarrow> TLV_tag_t \<Rightarrow> TLV_flag_t" where
  "tag_to_flag ts = tag_flag_from 0 ts"

definition tag_callbacks :: "'o tag_list \<Rightarrow> 'o tlv_handler list" where
  "tag_callbacks ts =
     map (\<lambda>(tag, cb, u). \<lparr>th_tag = tag, th_func = cb, th_is_unique = (u = ENFORCE_UNIQUE_TAG)\<rparr>) ts"

definition define_tlv_parser ::
  "'o tag_list \<Rightarrow> 'o tlv_handler_cb_t option \<Rightarrow> buffer_t \<Rightarrow> 'o \<Rightarrow> (bool \<times> TLV_reception_t \<times> 'o) option" where
  "define_tlv_parser ts common_handler payload tlv_out =
     parse_tlv_internal (tag_callbacks ts) (of_nat (length ts)) common_handler (tag_to_flag ts) payload tlv_out"

end
