(* ===== verification/Tlv_Spec.thy ===== *)
theory Tlv_Spec
  imports Tlv
begin

text \<open>
  Correctness of the TLV parser.  The payload is read as a list of items (\<open>tlv_split\<close>); the state
  machine is shown to be total and to handle exactly these items in order, first against the recursive
  parser \<open>tlv_parse\<close> and then, for callbacks that look only at their item, against \<open>tlv_exec\<close>.
  The reception flags are characterised bit by bit, which gives the meaning of unique tags and of the
  received-tag check.  The accessors are specified on the bytes of the value.
\<close>

section \<open>DER lengths and the grammar of a payload\<close>

fun der_dec :: "bytes \<Rightarrow> (u32 \<times> bytes) option" where
  "der_dec [] = None"
| "der_dec (b # bs) =
     (if unat b < 128 then Some (ucast b, bs)
      else let n = unat b - 128 in
        if n = 0 \<or> 4 < n \<or> length bs < n then None
        else Some (of_nat (be_val (take n bs)), drop n bs))"

definition der_dec16 :: "bytes \<Rightarrow> (nat \<times> bytes) option" where
  "der_dec16 bs = do {
     (v, rest) \<leftarrow> der_dec bs;
     if unat v \<le> 0xFFFF then Some (unat v, rest) else None }"

lemma der_dec_length: "der_dec bs = Some (v, rest) \<Longrightarrow> length rest < length bs"
  by (cases bs) (auto simp: Let_def split: if_splits)

lemma der_dec_suffix: "der_dec bs = Some (v, rest) \<Longrightarrow> rest = drop (length bs - length rest) bs"
  by (cases bs) (auto simp: Let_def drop_Cons' split: if_splits)

lemma der_dec16_length: "der_dec16 bs = Some (n, rest) \<Longrightarrow> length rest < length bs \<and> n < 65536"
  by (auto simp: der_dec16_def split: bind_splits if_splits dest: der_dec_length)

definition payload_ok :: "buffer_t \<Rightarrow> bool" where
  "payload_ok p = (length (b_ptr p) = unat (b_size p) \<and> unat (b_size p) < 2 ^ 31)"

lemma unat_of_nat_id: "of_nat (unat v) = (v :: 'a::len word)"
  by simp

text \<open>The scratch buffer of the decoder holds the value bytes behind zeros.\<close>

lemma U4BE_padded:
  "length bs \<le> 4 \<Longrightarrow> U4BE (replicate (4 - length bs) 0 @ bs) 0 = Some (of_nat (be_val bs))"
proof -
  assume l: "length bs \<le> 4"
  let ?p = "replicate (4 - length bs) 0 @ bs"
  have r: "in_range ?p 0 4" using l by (simp add: in_range_def)
  obtain v where v: "U4BE ?p 0 = Some v" "unat v = be_val (take 4 (drop 0 ?p))"
    using u32_be.rd_ex [OF r] u32_be.rd_val [OF r] by (auto simp: U4BE_eq)
  then have "unat v = be_val bs"
    using l by (simp add: be_val_append)
  then have "of_nat (be_val bs) = v" by (metis unat_of_nat_id)
  then show ?thesis using v(1) by simp
qed

lemma U8BE_padded:
  "length bs \<le> 8 \<Longrightarrow> U8BE (replicate (8 - length bs) 0 @ bs) 0 = Some (of_nat (be_val bs))"
proof -
  assume l: "length bs \<le> 8"
  let ?p = "replicate (8 - length bs) 0 @ bs"
  have r: "in_range ?p 0 8" using l by (simp add: in_range_def)
  obtain v where v: "U8BE ?p 0 = Some v" "unat v = be_val (take 8 (drop 0 ?p))"
    using u64_be.rd_ex [OF r] u64_be.rd_val [OF r] by (auto simp: U8BE_eq)
  then have "unat v = be_val bs"
    using l by (simp add: be_val_append)
  then have "of_nat (be_val bs) = v" by (metis unat_of_nat_id)
  then show ?thesis using v(1) by simp
qed

lemma get_der_value_as_uint32_spec:
  assumes p: "payload_ok p" and o: "off < b_size p"
  shows "get_der_value_as_uint32 p off =
     Some (case der_dec (drop (unat off) (b_ptr p)) of
             None \<Rightarrow> (None, off + 1)
           | Some (v, rest) \<Rightarrow> (Some v, of_nat (length (b_ptr p) - length rest)))"
proof -
  let ?m = "b_ptr p" and ?b = "b_ptr p ! unat off" and ?n = "unat (b_ptr p ! unat off) mod 128"
  have lt: "unat off < length ?m" and sz: "length ?m < 2 ^ 31" "length ?m = unat (b_size p)"
    using p o by (auto simp: payload_ok_def word_less_nat_alt)
  have d: "drop (unat off) ?m = ?b # drop (Suc (unat off)) ?m"
    using lt by (simp add: Cons_nth_drop_Suc)
  have o1: "unat (off + 1) = unat off + 1"
    using lt sz by (subst unat_add_no_wrap) auto
  have n: "unat (ucast (?b AND 0x7F) :: size_t) = ?n"
    by (simp add: byte_flag_iff(2) unsigned_ucast_eq take_bit_nat_eq_self)
  have on: "unat (off + 1 + ucast (?b AND 0x7F)) = unat off + 1 + ?n"
    using lt sz o1 n by (subst unat_add_no_wrap) auto
  have w1: "off + 1 = of_nat (Suc (unat off))"
    by (metis o1 Suc_eq_plus1 unat_of_nat_id)
  have wn: "off + 1 + ucast (?b AND 0x7F) = of_nat (Suc (unat off) + ?n)"
    by (metis on Suc_eq_plus1 unat_of_nat_id)
  show ?thesis
  proof (cases "128 \<le> unat ?b")
    case False
    then show ?thesis
      using lt d byte_flag_iff(1) [of ?b] w1
      by (simp add: get_der_value_as_uint32_def ld_in DER_LONG_FORM_FLAG_def Suc_diff_Suc)
  next
    case True
    then have m: "?n = unat ?b - 128"
      using unat_bound8 [of ?b] by (simp add: mod_if)
    have c: "(off + 1 + ucast (?b AND 0x7F) > b_size p) = (length ?m < Suc (unat off) + ?n)"
      "((?b AND 0x7F) > 4 \<or> (?b AND 0x7F) = 0) = (4 < ?n \<or> ?n = 0)"
      using on sz byte_flag_iff(2) [of ?b]
      by (auto simp: word_less_nat_alt unat_0_iff [symmetric] simp del: unat_0_iff)
    show ?thesis
    proof (cases "length ?m < Suc (unat off) + ?n \<or> 4 < ?n \<or> ?n = 0")
      case True': True
      have "get_der_value_as_uint32 p off = Some (None, off + 1)"
        using lt byte_flag_iff(1) [of ?b] True True' c
        by (auto simp: get_der_value_as_uint32_def ld_in DER_LONG_FORM_FLAG_def
            DER_FIRST_BYTE_VALUE_MASK_def Let_def)
      moreover have "der_dec (drop (unat off) ?m) = None"
        using True True' d m lt by (auto simp: Let_def)
      ultimately show ?thesis by simp
    next
      case False
      let ?v = "take ?n (drop (Suc (unat off)) ?m)"
      have l: "length ?v = ?n" using False by (auto simp: min_def)
      have "U4BE (replicate (4 - ?n) 0 @ ?v) 0 = Some (of_nat (be_val ?v))"
        using U4BE_padded [of ?v, unfolded l] False by (simp add: not_less)
      then have "get_der_value_as_uint32 p off =
          Some (Some (of_nat (be_val ?v)), off + 1 + ucast (?b AND 0x7F))"
        using lt byte_flag_iff [of ?b] True False c o1
        by (auto simp: get_der_value_as_uint32_def ld_in DER_LONG_FORM_FLAG_def memset_n_in memcpy_n_in
            DER_FIRST_BYTE_VALUE_MASK_def Let_def)
      moreover have "der_dec (drop (unat off) ?m) = Some (of_nat (be_val ?v), drop ?n (drop (Suc (unat off)) ?m))"
        using True False d m by (auto simp: Let_def)
      moreover have "length ?m - length (drop ?n (drop (Suc (unat off)) ?m)) = Suc (unat off) + ?n"
        using False by auto
      ultimately show ?thesis unfolding wn by simp
    qed
  qed
qed


section \<open>Refinement of the state machine\<close>

text \<open>What happens to one TLV item: its handler is looked up, a repeated unique tag is refused, the
  handlers are called, and the reception flag is set.  \<^term>\<open>None\<close> stops the parser.\<close>

definition tlv_view :: "bytes \<Rightarrow> (TLV_tag_t \<times> nat \<times> bytes) \<Rightarrow> tlv_data_t" where
  "tlv_view bs item =
     (case item of (tag, n, bs2) \<Rightarrow>
        \<lparr>d_tag = tag, d_value_ptr = (if n = 0 then [] else bs2), d_value_size = of_nat n,
         d_raw_ptr = bs, d_raw_size = of_nat (length bs - length bs2 + n)\<rparr>)"

definition tlv_accept ::
  "'o tlv_handler_cb_t option \<Rightarrow> (TLV_tag_t \<Rightarrow> TLV_flag_t) \<Rightarrow> 'o tlv_handler \<Rightarrow> tlv_data_t \<Rightarrow>
     TLV_flag_t \<Rightarrow> 'o \<Rightarrow> bool \<times> TLV_flag_t \<times> 'o" where
  "tlv_accept common tf h data flags out =
     (if th_is_unique h \<and> flags AND tf (d_tag data) = tf (d_tag data) then (False, flags, out)
      else let (ok, out) = call_handler common data flags out in
           if \<not> ok then (False, flags, out)
           else let (ok, out) = call_handler (th_func h) data flags out in
                if \<not> ok then (False, flags, out) else (True, flags OR tf (d_tag data), out))"

definition tlv_header :: "bytes \<Rightarrow> (TLV_tag_t \<times> nat \<times> bytes) option" where
  "tlv_header bs = do {
     (tag, bs1) \<leftarrow> der_dec bs;
     (n, bs2) \<leftarrow> der_dec16 bs1;
     if n \<le> length bs2 then Some (tag, n, bs2) else None }"

lemma tlv_header_length: "tlv_header bs = Some (tag, n, bs2) \<Longrightarrow> length bs2 < length bs \<and> n \<le> length bs2"
  by (fastforce simp: tlv_header_def split: bind_splits if_splits dest!: der_dec_length der_dec16_length)

function tlv_parse ::
  "'o tlv_handler list \<Rightarrow> 'o tlv_handler_cb_t option \<Rightarrow> (TLV_tag_t \<Rightarrow> TLV_flag_t) \<Rightarrow> bytes \<Rightarrow>
     TLV_flag_t \<Rightarrow> 'o \<Rightarrow> bool \<times> TLV_flag_t \<times> 'o" where
  "tlv_parse hs common tf bs flags out =
     (if bs = [] then (True, flags, out)
      else case tlv_header bs of
             None \<Rightarrow> (False, flags, out)
           | Some (tag, n, bs2) \<Rightarrow>
               (case find_handler_from hs tag of
                  None \<Rightarrow> (False, flags, out)
                | Some h \<Rightarrow>
                    (case tlv_accept common tf h (tlv_view bs (tag, n, bs2)) flags out of
                       (ok, flags, out) \<Rightarrow>
                         if ok then tlv_parse hs common tf (drop n bs2) flags out else (False, flags, out))))"
  by pat_completeness auto
termination
  by (relation "measure (\<lambda>(hs, common, tf, bs, flags, out). length bs)")
    (auto dest!: tlv_header_length)

declare tlv_parse.simps [simp del]

text \<open>The micro-steps of the machine, from a tag to the next.\<close>

lemma unat_of_nat_small: "n < 2 ^ LENGTH('a) \<Longrightarrow> unat (of_nat n :: 'a::len word) = n"
  by (simp add: unsigned_of_nat take_bit_nat_eq_self)

lemma find_handler_all:
  "length hs < 256 \<Longrightarrow> find_handler hs (of_nat (length hs)) tag = Some (find_handler_from hs tag)"
  by (simp add: find_handler_def ld_n_def unat_of_nat_small)

definition at :: "buffer_t \<Rightarrow> 'o tlv_state \<Rightarrow> bytes \<Rightarrow> bool" where
  "at p s bs = (unat (t_offset s) = length (b_ptr p) - length bs \<and> length bs \<le> length (b_ptr p) \<and>
     drop (unat (t_offset s)) (b_ptr p) = bs)"

lemma at_less: "payload_ok p \<Longrightarrow> at p s bs \<Longrightarrow> (t_offset s < b_size p) = (bs \<noteq> [])"
  by (auto simp: at_def payload_ok_def word_less_nat_alt)

lemma at_end: "payload_ok p \<Longrightarrow> at p s [] \<Longrightarrow> t_offset s = b_size p"
  by (auto simp: at_def payload_ok_def word_unat_eq_iff)

lemma at_rest:
  assumes "payload_ok p" "at p s bs" "der_dec bs = Some (v, rest)"
    "t_offset s' = of_nat (length (b_ptr p) - length rest)"
  shows "at p s' rest"
proof -
  have l: "length rest < length bs" and r: "rest = drop (length bs - length rest) bs"
    using der_dec_length der_dec_suffix assms(3) by blast+
  have u: "unat (t_offset s') = length (b_ptr p) - length rest"
    unfolding assms(4) using assms(1) by (intro unat_of_nat_small) (auto simp: payload_ok_def)
  have a: "unat (t_offset s) = length (b_ptr p) - length bs" "length bs \<le> length (b_ptr p)"
    "drop (unat (t_offset s)) (b_ptr p) = bs"
    using assms(2) unfolding at_def by blast+
  have "drop (unat (t_offset s')) (b_ptr p) = drop (length bs - length rest) (drop (unat (t_offset s)) (b_ptr p))"
    using a(1,2) l u by simp
  then have "drop (unat (t_offset s')) (b_ptr p) = rest"
    unfolding a(3) using r by simp
  then show ?thesis
    using a(2) l u by (simp add: at_def)
qed

lemma tlv_do_tag_spec:
  assumes "payload_ok p" "length hs < 256" "at p s bs" "bs \<noteq> []"
  shows "der_dec bs = None \<Longrightarrow> \<exists>s'. tlv_do_tag hs (of_nat (length hs)) p s = Some (False, s') \<and>
           t_flags s' = t_flags s \<and> t_out s' = t_out s"
    and "der_dec bs = Some (tag, bs1) \<Longrightarrow>
           \<exists>s'. tlv_do_tag hs (of_nat (length hs)) p s = Some (find_handler_from hs tag \<noteq> None, s') \<and>
             t_flags s' = t_flags s \<and> t_out s' = t_out s \<and> t_tag_start s' = t_offset s \<and>
             t_handler s' = find_handler_from hs tag \<and> d_tag (t_data s') = tag \<and> at p s' bs1 \<and>
             (find_handler_from hs tag \<noteq> None \<longrightarrow> t_step s' = TLV_LENGTH)"
proof -
  have lt: "t_offset s < b_size p" using at_less [OF assms(1,3)] assms(4) by simp
  have dr: "drop (unat (t_offset s)) (b_ptr p) = bs" using assms(3) unfolding at_def by blast
  note g = get_der_value_as_uint32_spec [OF assms(1) lt, unfolded dr]
  show "\<exists>s'. tlv_do_tag hs (of_nat (length hs)) p s = Some (False, s') \<and>
           t_flags s' = t_flags s \<and> t_out s' = t_out s" if "der_dec bs = None"
    using g that by (simp add: tlv_do_tag_def)
  show "\<exists>s'. tlv_do_tag hs (of_nat (length hs)) p s = Some (find_handler_from hs tag \<noteq> None, s') \<and>
             t_flags s' = t_flags s \<and> t_out s' = t_out s \<and> t_tag_start s' = t_offset s \<and>
             t_handler s' = find_handler_from hs tag \<and> d_tag (t_data s') = tag \<and> at p s' bs1 \<and>
             (find_handler_from hs tag \<noteq> None \<longrightarrow> t_step s' = TLV_LENGTH)"
    if "der_dec bs = Some (tag, bs1)"
    using g that find_handler_all [OF assms(2), of tag]
    by (cases "find_handler_from hs tag")
      (auto simp: tlv_do_tag_def intro!: at_rest [OF assms(1,3) that])
qed

lemma tlv_do_length_spec:
  assumes "payload_ok p" "at p s bs" "bs \<noteq> []"
  shows "der_dec16 bs = None \<Longrightarrow> \<exists>s'. tlv_do_length p s = Some (False, s') \<and>
           t_flags s' = t_flags s \<and> t_out s' = t_out s"
    and "der_dec16 bs = Some (n, bs2) \<Longrightarrow>
           \<exists>s'. tlv_do_length p s = Some (True, s') \<and>
             t_flags s' = t_flags s \<and> t_out s' = t_out s \<and> t_tag_start s' = t_tag_start s \<and>
             t_handler s' = t_handler s \<and> d_tag (t_data s') = d_tag (t_data s) \<and>
             d_value_size (t_data s') = of_nat n \<and> at p s' bs2 \<and> t_step s' = TLV_VALUE"
proof -
  have lt: "t_offset s < b_size p" using at_less [OF assms(1,2)] assms(3) by simp
  have dr: "drop (unat (t_offset s)) (b_ptr p) = bs" using assms(2) unfolding at_def by blast
  note g = get_der_value_as_uint32_spec [OF assms(1) lt, unfolded dr]
  show "\<exists>s'. tlv_do_length p s = Some (False, s') \<and> t_flags s' = t_flags s \<and> t_out s' = t_out s"
    if "der_dec16 bs = None"
    using g that
    by (auto simp: tlv_do_length_def get_der_value_as_uint16_def der_dec16_def word_less_nat_alt
        split: bind_splits if_splits option.splits)
  show "\<exists>s'. tlv_do_length p s = Some (True, s') \<and>
             t_flags s' = t_flags s \<and> t_out s' = t_out s \<and> t_tag_start s' = t_tag_start s \<and>
             t_handler s' = t_handler s \<and> d_tag (t_data s') = d_tag (t_data s) \<and>
             d_value_size (t_data s') = of_nat n \<and> at p s' bs2 \<and> t_step s' = TLV_VALUE"
    if d: "der_dec16 bs = Some (n, bs2)"
  proof -
    obtain v where v: "der_dec bs = Some (v, bs2)" "unat v \<le> 0xFFFF" "n = unat v"
      using d by (auto simp: der_dec16_def split: bind_splits if_splits)
    have "(ucast (ucast v :: u16) :: size_t) = of_nat n"
      using v(2,3) by (intro word_unat_eq_iff [THEN iffD2])
        (simp add: unsigned_ucast_eq unsigned_take_bit_eq take_bit_nat_eq_self)
    then show ?thesis
      using g v by (auto simp: tlv_do_length_def get_der_value_as_uint16_def word_less_nat_alt
          intro!: at_rest [OF assms(1,2) v(1)])
  qed
qed


lemma tlv_do_value_long:
  assumes "payload_ok p" "at p s bs2" "d_value_size (t_data s) = of_nat n" "n < 65536" "length bs2 < n"
  shows "tlv_do_value common tf p s = Some (False, s)"
proof -
  have "unat (t_offset s + of_nat n) = length (b_ptr p) - length bs2 + n"
    using assms by (subst unat_add_no_wrap) (auto simp: at_def payload_ok_def unat_of_nat_small)
  then have "b_size p < t_offset s + d_value_size (t_data s)"
    using assms by (auto simp: word_less_nat_alt payload_ok_def at_def)
  then show ?thesis by (simp add: tlv_do_value_def)
qed

lemma tlv_view_tag [simp]: "d_tag (tlv_view bs (tag, n, bs2)) = tag"
  by (simp add: tlv_view_def)

lemma tlv_do_value_spec:
  assumes p: "payload_ok p" and bs: "drop (unat (t_tag_start s)) (b_ptr p) = bs" "length bs2 \<le> length bs"
      "unat (t_tag_start s) = length (b_ptr p) - length bs" "length bs \<le> length (b_ptr p)"
    and at: "at p s bs2" and h: "t_handler s = Some h" and tag: "d_tag (t_data s) = tag"
    and n: "d_value_size (t_data s) = of_nat n" "n < 65536" "n \<le> length bs2"
    and acc: "tlv_accept common tf h (tlv_view bs (tag, n, bs2)) (t_flags s) (t_out s) = (ok, flags, out)"
  shows "\<exists>s'. tlv_do_value common tf p s = Some (ok, s') \<and> t_flags s' = flags \<and> t_out s' = out \<and>
           (ok \<longrightarrow> at p s' (drop n bs2) \<and> t_step s' = TLV_TAG)"
proof -
  have sz: "length (b_ptr p) < 2 ^ 31" "length (b_ptr p) = unat (b_size p)"
    using p by (auto simp: payload_ok_def)
  have un: "unat (of_nat n :: size_t) = n" using n(2) by (intro unat_of_nat_small) simp
  have o: "unat (t_offset s) = length (b_ptr p) - length bs2" "length bs2 \<le> length (b_ptr p)"
      "drop (unat (t_offset s)) (b_ptr p) = bs2"
    using at unfolding at_def by blast+
  have on: "unat (t_offset s + of_nat n) = length (b_ptr p) - length bs2 + n"
    using o(1,2) n sz un by (subst unat_add_no_wrap) auto
  have le: "\<not> b_size p < t_offset s + of_nat n"
    using on o n(3) sz by (simp add: word_less_nat_alt)
  have "unat (t_offset s + of_nat n - t_tag_start s) = length bs - length bs2 + n"
    using on bs o by (subst unat_sub_no_wrap) (auto simp: word_le_nat_alt)
  then have raw: "t_offset s + of_nat n - t_tag_start s = of_nat (length bs - length bs2 + n)"
    by (metis unat_of_nat_id)
  have z: "(of_nat n > (0 :: size_t)) = (n \<noteq> 0)"
    using un by (simp add: word_less_nat_alt)
  have view: "(t_data s)
              \<lparr>d_value_ptr := (if of_nat n > (0 :: size_t) then drop (unat (t_offset s)) (b_ptr p) else []),
               d_raw_ptr := drop (unat (t_tag_start s)) (b_ptr p),
               d_raw_size := t_offset s + of_nat n - t_tag_start s\<rparr> = tlv_view bs (tag, n, bs2)"
    unfolding raw z o(3) bs(1) tlv_view_def using n(1) tag by (intro tlv_data_t.equality) simp_all
  have at': "at p s' (drop n bs2)" if "t_offset s' = t_offset s + of_nat n" for s' :: "'a tlv_state"
  proof -
    have "drop (unat (t_offset s')) (b_ptr p) = drop n (drop (unat (t_offset s)) (b_ptr p))"
      using on o(1,2) that by (simp add: add.commute)
    then show ?thesis
      unfolding o(3) using on o(1,2) n(3) that by (simp add: at_def)
  qed
  show ?thesis
    using acc le h
    by (auto simp: tlv_do_value_def Let_def n(1) view tlv_accept_def split_beta split: if_splits
        intro!: at')
qed


text \<open>The machine started in \<open>s\<close> ends with the verdict, flags and output \<open>r\<close>.\<close>

definition yields ::
  "'o tlv_handler list \<Rightarrow> 'o tlv_handler_cb_t option \<Rightarrow> (TLV_tag_t \<Rightarrow> TLV_flag_t) \<Rightarrow> buffer_t \<Rightarrow>
     'o tlv_state \<Rightarrow> bool \<times> TLV_flag_t \<times> 'o \<Rightarrow> bool" where
  "yields hs common tf p s r =
     (\<exists>ok s'. parse_tlv_loop hs (of_nat (length hs)) common tf p s = Some (ok, s') \<and>
        (ok \<and> t_step s' = TLV_TAG \<and> t_offset s' = b_size p, t_flags s', t_out s') = r)"

lemma yields_stop:
  "\<not> t_offset s < b_size p \<Longrightarrow> \<not> (t_step s = TLV_VALUE \<and> d_value_size (t_data s) = 0) \<Longrightarrow>
     yields hs common tf p s (t_step s = TLV_TAG \<and> t_offset s = b_size p, t_flags s, t_out s)"
  unfolding yields_def by (subst parse_tlv_loop.simps) auto

lemma yields_step:
  assumes "t_offset s < b_size p \<or> t_step s = TLV_VALUE \<and> d_value_size (t_data s) = 0"
    and "(case t_step s of
            TLV_TAG \<Rightarrow> tlv_do_tag hs (of_nat (length hs)) p s
          | TLV_LENGTH \<Rightarrow> tlv_do_length p s
          | TLV_VALUE \<Rightarrow> tlv_do_value common tf p s) = Some (ok, s')"
    and "ok \<Longrightarrow> yields hs common tf p s' r" and "\<not> ok \<Longrightarrow> r = (False, t_flags s', t_out s')"
  shows "yields hs common tf p s r"
  using assms unfolding yields_def by (subst parse_tlv_loop.simps) (auto simp: yields_def)

lemma tlv_parse_None: "bs \<noteq> [] \<Longrightarrow> tlv_header bs = None \<Longrightarrow> tlv_parse hs common tf bs fl out = (False, fl, out)"
  by (subst tlv_parse.simps) simp

text \<open>From the value of an item to the end.\<close>

lemma yields_value:
  assumes p: "payload_ok p" and s: "t_step s = TLV_VALUE" "at p s bs2" "t_handler s = Some h"
      "d_tag (t_data s) = tag" "d_value_size (t_data s) = of_nat n" "n < 65536"
    and bs: "drop (unat (t_tag_start s)) (b_ptr p) = bs" "length bs2 \<le> length bs"
      "unat (t_tag_start s) = length (b_ptr p) - length bs" "length bs \<le> length (b_ptr p)"
    and IH: "\<And>s'. n \<le> length bs2 \<Longrightarrow> at p s' (drop n bs2) \<Longrightarrow> t_step s' = TLV_TAG \<Longrightarrow>
      yields hs common tf p s' (tlv_parse hs common tf (drop n bs2) (t_flags s') (t_out s'))"
  shows "yields hs common tf p s
     (if n \<le> length bs2
      then (case tlv_accept common tf h (tlv_view bs (tag, n, bs2)) (t_flags s) (t_out s) of
              (ok, fl, out) \<Rightarrow> if ok then tlv_parse hs common tf (drop n bs2) fl out else (False, fl, out))
      else (False, t_flags s, t_out s))"
proof -
  have u: "unat (of_nat n :: size_t) = n" using s(6) by (intro unat_of_nat_small) simp
  have z: "(d_value_size (t_data s) = 0) = (n = 0)"
    unfolding s(5) using u by (cases "n = 0") auto
  consider "length bs2 < n" "bs2 = []" | "length bs2 < n" "bs2 \<noteq> []" | "n \<le> length bs2"
    using not_less by blast
  then show ?thesis
  proof cases
    case 1
    have "\<not> t_offset s < b_size p" "n \<noteq> 0" using 1 at_less [OF p s(2)] by auto
    then have "yields hs common tf p s (False, t_flags s, t_out s)"
      using yields_stop [of s p hs common tf] s(1) z by simp
    then show ?thesis using 1 by simp
  next
    case 2
    show ?thesis
      by (rule yields_step [where ok = False and s' = s])
        (use s(1) at_less [OF p s(2)] tlv_do_value_long [OF p s(2,5,6), of common tf] 2 in simp_all)
  next
    case 3
    obtain ok fl out where acc:
        "tlv_accept common tf h (tlv_view bs (tag, n, bs2)) (t_flags s) (t_out s) = (ok, fl, out)"
      by (metis surj_pair)
    obtain s' where s': "tlv_do_value common tf p s = Some (ok, s')" "t_flags s' = fl" "t_out s' = out"
        "ok \<longrightarrow> at p s' (drop n bs2) \<and> t_step s' = TLV_TAG"
      using tlv_do_value_spec [OF p bs s(2,3,4,5,6) 3 acc] by blast
    have c: "t_offset s < b_size p \<or> t_step s = TLV_VALUE \<and> d_value_size (t_data s) = 0"
      using 3 s(1) z at_less [OF p s(2)] by auto
    show ?thesis
    proof (rule yields_step [OF c])
      show "(case t_step s of
            TLV_TAG \<Rightarrow> tlv_do_tag hs (of_nat (length hs)) p s
          | TLV_LENGTH \<Rightarrow> tlv_do_length p s
          | TLV_VALUE \<Rightarrow> tlv_do_value common tf p s) = Some (ok, s')"
        using s(1) s'(1) by simp
    qed (use 3 acc s'(2,3,4) IH [of s'] in simp_all)
  qed
qed

text \<open>From the length of an item to the end.\<close>

lemma yields_length:
  assumes p: "payload_ok p" and s: "t_step s = TLV_LENGTH" "at p s bs1" "t_handler s = Some h"
      "find_handler_from hs tag = Some h" "d_tag (t_data s) = tag"
    and bs: "drop (unat (t_tag_start s)) (b_ptr p) = bs" "der_dec bs = Some (tag, bs1)"
      "unat (t_tag_start s) = length (b_ptr p) - length bs" "length bs \<le> length (b_ptr p)"
    and IH: "\<And>s' rest. length rest < length bs \<Longrightarrow> at p s' rest \<Longrightarrow> t_step s' = TLV_TAG \<Longrightarrow>
      yields hs common tf p s' (tlv_parse hs common tf rest (t_flags s') (t_out s'))"
  shows "yields hs common tf p s (tlv_parse hs common tf bs (t_flags s) (t_out s))"
proof (cases "der_dec16 bs1")
  case None
  then have r: "tlv_parse hs common tf bs fl out = (False, fl, out)" for fl out
    using bs(2) by (intro tlv_parse_None) (auto simp: tlv_header_def)
  show ?thesis
  proof (cases "bs1 = []")
    case True
    then show ?thesis
      using yields_stop [of s p hs common tf] s(1) at_less [OF p s(2)] r by simp
  next
    case False
    obtain s' where s': "tlv_do_length p s = Some (False, s')" "t_flags s' = t_flags s" "t_out s' = t_out s"
      using tlv_do_length_spec(1) [OF p s(2) False None] by blast
    show ?thesis
      by (rule yields_step [where ok = False and s' = s'])
        (use s' s(1) at_less [OF p s(2)] False r in simp_all)
  qed
next
  case (Some r)
  then obtain n bs2 where d: "der_dec16 bs1 = Some (n, bs2)" by (cases r) auto
  have ne: "bs1 \<noteq> []" using d by (auto simp: der_dec16_def)
  have l: "length bs2 < length bs1" "n < 65536" "length bs1 < length bs"
    using der_dec16_length [OF d] der_dec_length [OF bs(2)] by auto
  obtain s' where s': "tlv_do_length p s = Some (True, s')"
      "t_flags s' = t_flags s" "t_out s' = t_out s" "t_tag_start s' = t_tag_start s"
      "t_handler s' = t_handler s" "d_tag (t_data s') = d_tag (t_data s)"
      "d_value_size (t_data s') = of_nat n" "at p s' bs2" "t_step s' = TLV_VALUE"
    using tlv_do_length_spec(2) [OF p s(2) ne d] by blast
  have "tlv_header bs = (if n \<le> length bs2 then Some (tag, n, bs2) else None)"
    using bs(2) d by (simp add: tlv_header_def)
  then have r: "tlv_parse hs common tf bs fl out =
      (if n \<le> length bs2
      then (case tlv_accept common tf h (tlv_view bs (tag, n, bs2)) fl out of
              (ok, fl, out) \<Rightarrow> if ok then tlv_parse hs common tf (drop n bs2) fl out else (False, fl, out))
      else (False, fl, out))" for fl out
    using bs(2) s(4) by (subst tlv_parse.simps) auto
  have y: "yields hs common tf p s' (tlv_parse hs common tf bs (t_flags s') (t_out s'))"
    unfolding r
    by (rule yields_value [where h = h]) (use p s s' bs l IH in auto)
  show ?thesis
    by (rule yields_step [where ok = True and s' = s'])
      (use y s' s(1) at_less [OF p s(2)] ne in simp_all)
qed

lemma parse_tlv_loop_spec:
  assumes "payload_ok p" "length hs < 256" "at p s bs" "t_step s = TLV_TAG"
  shows "yields hs common tf p s (tlv_parse hs common tf bs (t_flags s) (t_out s))"
  using assms(3,4)
proof (induction "length bs" arbitrary: bs s rule: less_induct)
  case less
  show ?case
  proof (cases "bs = []")
    case True
    then show ?thesis
      using less.prems at_end [OF assms(1), of s] yields_stop [of s p hs common tf]
      by (simp add: tlv_parse.simps)
  next
    case ne: False
    note tg = tlv_do_tag_spec [OF assms(1,2) less.prems(1) ne]
      and c = at_less [OF assms(1) less.prems(1)]
    show ?thesis
    proof (cases "der_dec bs")
      case None
      then obtain s1 where "tlv_do_tag hs (of_nat (length hs)) p s = Some (False, s1)"
          "t_flags s1 = t_flags s" "t_out s1 = t_out s"
        using tg(1) by blast
      note s1 = this
      show ?thesis
        by (rule yields_step [where ok = False and s' = s1])
          (use s1 None less.prems ne c in \<open>simp_all add: tlv_parse_None tlv_header_def\<close>)
    next
      case (Some r)
      then obtain tag bs1 where d: "der_dec bs = Some (tag, bs1)" by (cases r) auto
      obtain s1 where s1: "tlv_do_tag hs (of_nat (length hs)) p s = Some (find_handler_from hs tag \<noteq> None, s1)"
          "t_flags s1 = t_flags s" "t_out s1 = t_out s" "t_tag_start s1 = t_offset s"
          "t_handler s1 = find_handler_from hs tag" "d_tag (t_data s1) = tag" "at p s1 bs1"
          "find_handler_from hs tag \<noteq> None \<longrightarrow> t_step s1 = TLV_LENGTH"
        using tg(2) [OF d] by blast
      show ?thesis
      proof (rule yields_step)
        show "t_offset s < b_size p \<or> t_step s = TLV_VALUE \<and> d_value_size (t_data s) = 0"
          using c ne by simp
        show "(case t_step s of
            TLV_TAG \<Rightarrow> tlv_do_tag hs (of_nat (length hs)) p s
          | TLV_LENGTH \<Rightarrow> tlv_do_length p s
          | TLV_VALUE \<Rightarrow> tlv_do_value common tf p s) = Some (find_handler_from hs tag \<noteq> None, s1)"
          using s1(1) less.prems(2) by simp
        show "tlv_parse hs common tf bs (t_flags s) (t_out s) = (False, t_flags s1, t_out s1)"
          if "\<not> find_handler_from hs tag \<noteq> None"
          using that d ne s1(2,3)
          by (subst tlv_parse.simps) (auto simp: tlv_header_def split: option.splits bind_splits if_splits)
        show "yields hs common tf p s1 (tlv_parse hs common tf bs (t_flags s) (t_out s))"
          if f: "find_handler_from hs tag \<noteq> None"
        proof -
          obtain h where h: "find_handler_from hs tag = Some h" using f by blast
          have a: "drop (unat (t_offset s)) (b_ptr p) = bs" "length bs \<le> length (b_ptr p)"
              "unat (t_offset s) = length (b_ptr p) - length bs"
            using less.prems(1) unfolding at_def by blast+
          show ?thesis
            unfolding s1(2) [symmetric] s1(3) [symmetric]
            by (rule yields_length [OF assms(1), where h = h])
              (use s1 h a d less.hyps in simp_all)
        qed
      qed
    qed
  qed
qed

lemma parse_tlv_internal_eq:
  assumes "payload_ok p" "length hs < 256"
  shows "parse_tlv_internal hs (of_nat (length hs)) common tf p out =
     (case tlv_parse hs common tf (b_ptr p) 0 out of
        (ok, fl, out) \<Rightarrow> Some (ok, \<lparr>r_flags = fl, r_tag_to_flag = tf\<rparr>, out))"
proof -
  let ?s = "\<lparr>t_step = TLV_TAG, t_data = tlv_data0, t_offset = 0, t_tag_start = 0, t_handler = None,
        t_flags = 0, t_out = out\<rparr>"
  have "yields hs common tf p ?s (tlv_parse hs common tf (b_ptr p) 0 out)"
    using parse_tlv_loop_spec [OF assms, of ?s "b_ptr p" common tf] by (simp add: at_def)
  then show ?thesis
    by (cases "tlv_parse hs common tf (b_ptr p) 0 out") (auto simp: yields_def parse_tlv_internal_def)
qed

section \<open>Items\<close>

text \<open>The payload as a list of items: tag, value, and the bytes of the whole item.\<close>

type_synonym tlv_entry = "TLV_tag_t \<times> bytes \<times> bytes"

function tlv_split :: "bytes \<Rightarrow> tlv_entry list option" where
  "tlv_split bs =
     (if bs = [] then Some []
      else case tlv_header bs of
             None \<Rightarrow> None
           | Some (tag, n, bs2) \<Rightarrow>
               map_option ((#) (tag, take n bs2, take (length bs - length bs2 + n) bs)) (tlv_split (drop n bs2)))"
  by pat_completeness auto
termination
  by (relation "measure length") (auto dest!: tlv_header_length)

declare tlv_split.simps [simp del]

lemma tlv_split_simps [simp]:
  "tlv_split [] = Some []"
  "bs \<noteq> [] \<Longrightarrow> tlv_header bs = None \<Longrightarrow> tlv_split bs = None"
  "bs \<noteq> [] \<Longrightarrow> tlv_header bs = Some (tag, n, bs2) \<Longrightarrow> tlv_split bs =
     map_option ((#) (tag, take n bs2, take (length bs - length bs2 + n) bs)) (tlv_split (drop n bs2))"
  by (simp_all add: tlv_split.simps)

lemma tlv_header_suffix:
  "tlv_header bs = Some (tag, n, bs2) \<Longrightarrow> bs2 = drop (length bs - length bs2) bs"
proof -
  assume "tlv_header bs = Some (tag, n, bs2)"
  then obtain bs1 v where h: "der_dec bs = Some (tag, bs1)" "der_dec bs1 = Some (v, bs2)"
    by (auto simp: tlv_header_def der_dec16_def split: bind_splits if_splits)
  have "bs1 = drop (length bs - length bs1) bs" "bs2 = drop (length bs1 - length bs2) bs1"
    using h der_dec_suffix by blast+
  then have "bs2 = drop (length bs1 - length bs2 + (length bs - length bs1)) bs"
    by (metis drop_drop)
  moreover have "length bs1 - length bs2 + (length bs - length bs1) = length bs - length bs2"
    using h [THEN der_dec_length] by simp
  ultimately show ?thesis by simp
qed

text \<open>The items cover the payload: no byte escapes a handler that authenticates the raw items.\<close>

lemma tlv_split_raw: "tlv_split bs = Some es \<Longrightarrow> concat (map (\<lambda>(t, v, r). r) es) = bs"
proof (induction "length bs" arbitrary: bs es rule: less_induct)
  case less
  show ?case
  proof (cases "bs = []")
    case False
    then obtain tag n bs2 where h: "tlv_header bs = Some (tag, n, bs2)"
      using less.prems by (cases "tlv_header bs") auto
    then obtain es' where e: "tlv_split (drop n bs2) = Some es'"
        "es = (tag, take n bs2, take (length bs - length bs2 + n) bs) # es'"
      using less.prems False by auto
    have l: "length bs2 < length bs" "n \<le> length bs2"
      using tlv_header_length [OF h] by auto
    have "drop n bs2 = drop (length bs - length bs2 + n) bs"
      using tlv_header_suffix [OF h] by (metis add.commute drop_drop)
    moreover have "concat (map (\<lambda>(t, v, r). r) es') = drop n bs2"
      using less.hyps [OF _ e(1)] l by simp
    ultimately show ?thesis by (simp add: e(2))
  qed (use less.prems in simp)
qed


text \<open>Well-formed TLV data, and handlers that look only at the tag, the value and the raw
  bytes of the item they are given.\<close>

definition data_ok :: "tlv_data_t \<Rightarrow> bool" where
  "data_ok d = (unat (d_value_size d) \<le> length (d_value_ptr d) \<and> unat (d_raw_size d) \<le> length (d_raw_ptr d))"

definition entry_data :: "tlv_entry \<Rightarrow> tlv_data_t" where
  "entry_data e =
     (case e of (tag, v, raw) \<Rightarrow>
        \<lparr>d_tag = tag, d_value_ptr = v, d_value_size = of_nat (length v),
         d_raw_ptr = raw, d_raw_size = of_nat (length raw)\<rparr>)"

definition entry_of :: "tlv_data_t \<Rightarrow> tlv_entry" where
  "entry_of d = (d_tag d, take (unat (d_value_size d)) (d_value_ptr d), take (unat (d_raw_size d)) (d_raw_ptr d))"

definition local_cb :: "'o tlv_handler_cb_t option \<Rightarrow> bool" where
  "local_cb cb = (\<forall>f. cb = Some f \<longrightarrow> (\<forall>d. data_ok d \<longrightarrow> f d = f (entry_data (entry_of d))))"

fun tlv_exec ::
  "'o tlv_handler list \<Rightarrow> 'o tlv_handler_cb_t option \<Rightarrow> (TLV_tag_t \<Rightarrow> TLV_flag_t) \<Rightarrow> tlv_entry list \<Rightarrow>
     TLV_flag_t \<Rightarrow> 'o \<Rightarrow> bool \<times> TLV_flag_t \<times> 'o" where
  "tlv_exec hs common tf [] fl out = (True, fl, out)"
| "tlv_exec hs common tf (e # es) fl out =
     (case find_handler_from hs (fst e) of
        None \<Rightarrow> (False, fl, out)
      | Some h \<Rightarrow>
          (case tlv_accept common tf h (entry_data e) fl out of
             (ok, fl, out) \<Rightarrow> if ok then tlv_exec hs common tf es fl out else (False, fl, out)))"

lemma local_cb_call:
  "local_cb cb \<Longrightarrow> data_ok d \<Longrightarrow> call_handler cb d = call_handler cb (entry_data (entry_of d))"
  by (cases cb) (auto simp: call_handler_def local_cb_def fun_eq_iff)

lemma tlv_accept_local:
  assumes "local_cb common" "local_cb (th_func h)" "data_ok d"
  shows "tlv_accept common tf h d fl out = tlv_accept common tf h (entry_data (entry_of d)) fl out"
proof -
  have "d_tag (entry_data (entry_of d)) = d_tag d"
    by (simp add: entry_data_def entry_of_def)
  then show ?thesis
    unfolding tlv_accept_def
    by (simp add: Let_def split_beta flip: local_cb_call [OF assms(1,3)] local_cb_call [OF assms(2,3)])
qed

lemma find_handler_from_in: "find_handler_from hs tag = Some h \<Longrightarrow> h \<in> set hs \<and> th_tag h = tag"
  by (induction hs) (auto split: if_splits)

lemma entry_of_view:
  assumes "tlv_header bs = Some (tag, n, bs2)" "length bs < 2 ^ 31"
  shows "entry_of (tlv_view bs (tag, n, bs2)) = (tag, take n bs2, take (length bs - length bs2 + n) bs)"
    and "data_ok (tlv_view bs (tag, n, bs2))"
proof -
  have "length bs2 < length bs" "n \<le> length bs2" using tlv_header_length [OF assms(1)] by auto
  then have u: "unat (of_nat n :: size_t) = n"
      "unat (of_nat (length bs - length bs2 + n) :: size_t) = length bs - length bs2 + n"
    using assms(2) by (intro unat_of_nat_small; simp)+
  show "entry_of (tlv_view bs (tag, n, bs2)) = (tag, take n bs2, take (length bs - length bs2 + n) bs)"
    unfolding entry_of_def tlv_view_def by (simp only: prod.case tlv_data_t.select_convs u) simp
  show "data_ok (tlv_view bs (tag, n, bs2))"
    unfolding data_ok_def tlv_view_def prod.case tlv_data_t.select_convs u
    using \<open>n \<le> length bs2\<close> \<open>length bs2 < length bs\<close> by auto
qed

lemma tlv_parse_split:
  assumes "local_cb common" "\<And>h. h \<in> set hs \<Longrightarrow> local_cb (th_func h)" "length bs < 2 ^ 31"
  shows "case tlv_split bs of
           Some es \<Rightarrow> tlv_parse hs common tf bs fl out = tlv_exec hs common tf es fl out
         | None \<Rightarrow> \<not> fst (tlv_parse hs common tf bs fl out)"
  using assms
proof (induction hs common tf bs fl out rule: tlv_parse.induct)
  case (1 hs common tf bs fl out)
  show ?case
  proof (cases "tlv_header bs")
    case None
    then show ?thesis by (cases "bs = []") (simp_all add: tlv_parse.simps)
  next
    case (Some r)
    then obtain tag n bs2 where h: "tlv_header bs = Some (tag, n, bs2)" by (cases r) auto
    have l: "length bs2 < length bs" "n \<le> length bs2" and ne: "bs \<noteq> []"
      using tlv_header_length [OF h] by auto
    let ?e = "(tag, take n bs2, take (length bs - length bs2 + n) bs)"
    show ?thesis
    proof (cases "find_handler_from hs tag")
      case None
      then have "tlv_parse hs common tf bs fl out = (False, fl, out)"
        using ne h by (subst tlv_parse.simps) simp
      then show ?thesis
        using None ne h by (auto split: option.splits)
    next
      case (Some hd)
      obtain ok fl' out' where acc: "tlv_accept common tf hd (entry_data ?e) fl out = (ok, fl', out')"
        by (metis surj_pair)
      have "local_cb (th_func hd)"
        using 1(3) find_handler_from_in [OF Some] by blast
      then have "tlv_accept common tf hd (tlv_view bs (tag, n, bs2)) fl out = (ok, fl', out')"
        using acc tlv_accept_local [OF 1(2) _ entry_of_view(2) [OF h 1(4)], of hd tf fl out]
          entry_of_view(1) [OF h 1(4)] by simp
      note a = this
      have p: "tlv_parse hs common tf bs fl out =
          (if ok then tlv_parse hs common tf (drop n bs2) fl' out' else (False, fl', out'))"
        using ne h Some a by (subst tlv_parse.simps) simp
      have "length bs2 - n < 2147483648" using l 1(4) by simp
      then show ?thesis
        using ne h Some acc l 1(1) [OF ne h refl refl Some a [symmetric] refl] 1(2,3,4)
        unfolding p by (auto split: option.splits)
    qed
  qed
qed


text \<open>An encoding of a list of items, with the short form below 128 and the four-byte long form above.\<close>

definition der_enc :: "u32 \<Rightarrow> bytes" where
  "der_enc v = (if unat v < 128 then [ucast v] else 0x84 # be_bytes 4 v)"

definition tlv_enc :: "TLV_tag_t \<times> bytes \<Rightarrow> bytes" where
  "tlv_enc e = der_enc (fst e) @ der_enc (of_nat (length (snd e))) @ snd e"

lemma der_dec_enc: "der_dec (der_enc v @ rest) = Some (v, rest)"
proof (cases "unat v < 128")
  case True
  then show ?thesis
    by (simp add: der_enc_def unsigned_ucast_eq unsigned_take_bit_eq take_bit_nat_eq_self word_unat_eq_iff)
next
  case False
  have "be_val (be_bytes 4 v) = unat v"
    using unat_bound32 [of v] by (simp add: be_val_be_bytes)
  then show ?thesis using False by (simp add: der_enc_def)
qed

lemma tlv_header_enc:
  assumes "length v < 65536"
  shows "tlv_header (tlv_enc (tag, v) @ rest) = Some (tag, length v, v @ rest)"
proof -
  have u: "unat (of_nat (length v) :: u32) = length v"
    using assms by (intro unat_of_nat_small) simp
  then show ?thesis
    using assms by (simp add: tlv_header_def tlv_enc_def der_dec_enc der_dec16_def)
qed

lemma tlv_split_enc:
  assumes "\<forall>e \<in> set es. length (snd e) < 65536"
  shows "tlv_split (concat (map tlv_enc es)) = Some (map (\<lambda>e. (fst e, snd e, tlv_enc e)) es)"
  using assms
proof (induction es)
  case (Cons e es)
  have "tlv_enc e \<noteq> []" "length (snd e) \<le> length (tlv_enc e)"
    by (simp_all add: tlv_enc_def der_enc_def)
  then show ?case
    using Cons tlv_header_enc [of "snd e" "fst e" "concat (map tlv_enc es)"] by simp
qed simp

section \<open>Reception flags\<close>

definition flag_set :: "'o tag_list \<Rightarrow> TLV_tag_t set \<Rightarrow> TLV_flag_t \<Rightarrow> bool" where
  "flag_set ts T fl = (\<forall>i. bit fl i = (i < length ts \<and> fst (ts ! i) \<in> T))"

lemma bit_tag_flag_from:
  assumes "distinct (map fst ts)" "k + length ts \<le> 64"
  shows "bit (tag_flag_from k ts tag) i = (k \<le> i \<and> i - k < length ts \<and> fst (ts ! (i - k)) = tag)"
  using assms
proof (induction k ts tag rule: tag_flag_from.induct)
  case (2 k t cb u ts tag)
  show ?case
  proof (cases "tag = t")
    case True
    have "i = k" if "k \<le> i" "i - k < Suc (length ts)" "fst (((t, cb, u) # ts) ! (i - k)) = t"
    proof (rule ccontr)
      assume "i \<noteq> k"
      then have "fst (ts ! (i - Suc k)) = t" "i - Suc k < length ts"
        using that by (auto simp: nth_Cons')
      then show False using 2(2) by (force simp: in_set_conv_nth)
    qed
    then have "(k \<le> i \<and> i - k < length ((t, cb, u) # ts) \<and> fst (((t, cb, u) # ts) ! (i - k)) = t) = (i = k)"
      by auto
    moreover have "bit (push_bit k 1 :: u64) i = (i = k)"
      using 2(3) unfolding push_bit_of_1 bit_exp_iff by auto
    ultimately show ?thesis unfolding True by simp
  next
    case False
    have IH: "bit (tag_flag_from (Suc k) ts tag) i =
        (Suc k \<le> i \<and> i - Suc k < length ts \<and> fst (ts ! (i - Suc k)) = tag)"
      using 2(1) [OF False] 2(2,3) by simp
    show ?thesis
    proof (cases "Suc k \<le> i")
      case True
      then have "i - k = Suc (i - Suc k)" by simp
      then show ?thesis using True False IH by simp
    next
      case False
      then show ?thesis using IH \<open>tag \<noteq> t\<close> by (cases "i = k") auto
    qed
  qed
qed simp

lemma bit_tag_to_flag:
  "distinct (map fst ts) \<Longrightarrow> length ts \<le> 64 \<Longrightarrow>
     bit (tag_to_flag ts tag) i = (i < length ts \<and> fst (ts ! i) = tag)"
  by (simp add: tag_to_flag_def bit_tag_flag_from)


lemma flag_set_insert:
  assumes "distinct (map fst ts)" "length ts \<le> 64" "flag_set ts T fl"
  shows "flag_set ts (insert tag T) (fl OR tag_to_flag ts tag)"
  using assms by (auto simp: flag_set_def bit_or_iff bit_tag_to_flag)

lemma and_eq_iff_bits: "(w AND f = f) = (\<forall>i. bit f i \<longrightarrow> bit w i)" for w f :: u64
proof
  assume "w AND f = f"
  then show "\<forall>i. bit f i \<longrightarrow> bit w i" by (metis bit_and_iff)
next
  assume "\<forall>i. bit f i \<longrightarrow> bit w i"
  then show "w AND f = f" by (intro bit_word_eqI) (auto simp: bit_and_iff)
qed

lemma flag_set_test:
  assumes "distinct (map fst ts)" "length ts \<le> 64" "flag_set ts T fl" "tag \<in> fst ` set ts"
  shows "(fl AND tag_to_flag ts tag = tag_to_flag ts tag) = (tag \<in> T)" and "tag_to_flag ts tag \<noteq> 0"
proof -
  obtain j where j: "j < length ts" "fst (ts ! j) = tag"
    using assms(4) by (auto simp: in_set_conv_nth)
  have b: "bit (tag_to_flag ts tag) i = (i = j)" for i
    using j assms(1) by (simp add: bit_tag_to_flag [OF assms(1,2)]) (metis (no_types) length_map nth_eq_iff_index_eq nth_map)
  show "(fl AND tag_to_flag ts tag = tag_to_flag ts tag) = (tag \<in> T)"
    using assms(3) j by (auto simp: and_eq_iff_bits b flag_set_def)
  show "tag_to_flag ts tag \<noteq> 0" using b [of j] by auto
qed

lemma tag_to_flag_unknown: "tag \<notin> fst ` set ts \<Longrightarrow> tag_to_flag ts tag = 0"
proof -
  have "tag \<notin> fst ` set ts \<Longrightarrow> tag_flag_from k ts tag = 0" for k
    by (induction k ts tag rule: tag_flag_from.induct) auto
  then show "tag \<notin> fst ` set ts \<Longrightarrow> tag_to_flag ts tag = 0" by (simp add: tag_to_flag_def)
qed

lemma check_received_tags_iff:
  assumes "distinct (map fst ts)" "length ts \<le> 64" "flag_set ts T (r_flags rcv)" "T \<subseteq> fst ` set ts"
    "r_tag_to_flag rcv = tag_to_flag ts"
  shows "check_received_tags_from rcv tags = (set tags \<subseteq> T)"
proof (induction tags)
  case (Cons tag tags)
  show ?case
  proof (cases "tag \<in> fst ` set ts")
    case True
    then show ?thesis using Cons flag_set_test [OF assms(1-3) True] assms(5) by (simp add: Let_def)
  qed (use tag_to_flag_unknown [of tag ts] assms(4,5) in \<open>auto simp: Let_def\<close>)
qed simp

lemma find_handler_callbacks:
  "find_handler_from (tag_callbacks ts) tag = Some h \<Longrightarrow>
     \<exists>cb u. (tag, cb, u) \<in> set ts \<and> h = \<lparr>th_tag = tag, th_func = cb, th_is_unique = (u = ENFORCE_UNIQUE_TAG)\<rparr>"
  unfolding tag_callbacks_def by (induction ts) (auto split: if_splits)

text \<open>An accepted payload: its items have known tags, and unique tags occur once.\<close>

definition items_ok :: "'o tag_list \<Rightarrow> TLV_tag_t set \<Rightarrow> tlv_entry list \<Rightarrow> bool" where
  "items_ok ts T es =
     (fst ` set es \<subseteq> fst ` set ts \<and>
      (\<forall>tag cb. (tag, cb, ENFORCE_UNIQUE_TAG) \<in> set ts \<longrightarrow>
         length (filter (\<lambda>e. fst e = tag) es) \<le> (if tag \<in> T then 0 else 1)))"

lemma tlv_accept_ok:
  "tlv_accept common tf h d fl out = (True, fl', out') \<Longrightarrow>
     fl' = fl OR tf (d_tag d) \<and> \<not> (th_is_unique h \<and> fl AND tf (d_tag d) = tf (d_tag d))"
  by (auto simp: tlv_accept_def split_beta Let_def split: if_splits)

lemma tlv_parse_accepts:
  assumes ts: "distinct (map fst ts)" "length ts \<le> 64" and T: "flag_set ts T fl" "T \<subseteq> fst ` set ts"
    and ok: "tlv_parse (tag_callbacks ts) common (tag_to_flag ts) bs fl out = (True, fl', out')"
  shows "\<exists>es. tlv_split bs = Some es \<and> items_ok ts T es \<and> flag_set ts (T \<union> fst ` set es) fl'"
  using T ok
proof (induction "length bs" arbitrary: bs T fl out rule: less_induct)
  case less
  show ?case
  proof (cases "bs = []")
    case True
    then show ?thesis using less.prems by (simp add: tlv_parse.simps items_ok_def)
  next
    case False
    obtain tag n bs2 h fl1 out1 where
        h: "tlv_header bs = Some (tag, n, bs2)" "find_handler_from (tag_callbacks ts) tag = Some h"
        "tlv_accept common (tag_to_flag ts) h (tlv_view bs (tag, n, bs2)) fl out = (True, fl1, out1)"
        "tlv_parse (tag_callbacks ts) common (tag_to_flag ts) (drop n bs2) fl1 out1 = (True, fl', out')"
      using less.prems(3) False
      by (subst (asm) tlv_parse.simps) (auto split: option.splits prod.splits if_splits)
    obtain cb u where m: "(tag, cb, u) \<in> set ts" "th_is_unique h = (u = ENFORCE_UNIQUE_TAG)"
      using find_handler_callbacks [OF h(2)] by auto
    have tm: "tag \<in> fst ` set ts" using m(1) by force
    have fl1: "fl1 = fl OR tag_to_flag ts tag" and uq: "u = ENFORCE_UNIQUE_TAG \<Longrightarrow> tag \<notin> T"
      using tlv_accept_ok [OF h(3)] m(2) flag_set_test(1) [OF ts less.prems(1) tm] by auto
    have "length (drop n bs2) < length bs" using tlv_header_length [OF h(1)] by auto
    from less.hyps [OF this _ _ h(4), of "insert tag T"] obtain es where
        es: "tlv_split (drop n bs2) = Some es" "items_ok ts (insert tag T) es"
          "flag_set ts (insert tag T \<union> fst ` set es) fl'"
      using flag_set_insert [OF ts less.prems(1), of tag] fl1 tm less.prems(2) by auto
    have "items_ok ts T ((tag, take n bs2, take (length bs - length bs2 + n) bs) # es)"
      unfolding items_ok_def
    proof (intro conjI allI impI)
      fix t c assume t: "(t, c, ENFORCE_UNIQUE_TAG) \<in> set ts"
      have le: "length (filter (\<lambda>e. fst e = t) es) \<le> (if t \<in> insert tag T then 0 else 1)"
        using es(2) t unfolding items_ok_def by blast
      have "u = ENFORCE_UNIQUE_TAG" if "t = tag"
        using t m(1) that ts(1) by (metis (mono_tags, lifting) eq_key_imp_eq_value snd_conv)
      then show "length (filter (\<lambda>e. fst e = t) ((tag, take n bs2, take (length bs - length bs2 + n) bs) # es))
          \<le> (if t \<in> T then 0 else 1)"
        using le uq by (auto split: if_splits)
    qed (use es(2) tm in \<open>auto simp: items_ok_def\<close>)
    then show ?thesis
      using es h(1) False by (auto simp: insert_commute)
  qed
qed


section \<open>Accessors\<close>

definition data_value :: "tlv_data_t \<Rightarrow> bytes" where
  "data_value d = take (unat (d_value_size d)) (d_value_ptr d)"

lemma get_uint64_spec:
  assumes "data_ok d"
  shows "get_uint64_t_from_tlv_data (Some d) =
     Some (if data_value d = [] \<or> length (data_value d) > 8 then None
           else Some (of_nat (be_val (data_value d))))"
proof -
  have l: "length (data_value d) = unat (d_value_size d)"
    using assms by (simp add: data_ok_def data_value_def)
  show ?thesis
  proof (cases "d_value_size d = 0 \<or> d_value_size d > 8")
    case True
    then have "data_value d = [] \<or> length (data_value d) > 8"
      using l by (auto simp: word_less_nat_alt)
    then show ?thesis using True by (auto simp: get_uint64_t_from_tlv_data_def)
  next
    case False
    then have n: "unat (d_value_size d) \<le> 8" "unat (8 - d_value_size d) = 8 - unat (d_value_size d)"
        "data_value d \<noteq> []"
      using l by (auto simp: word_less_nat_alt word_le_nat_alt unat_sub_no_wrap not_less unat_0_iff)
    have "memcpy_n (replicate 8 0) (unat (8 - d_value_size d)) (d_value_ptr d) 0 (unat (d_value_size d)) =
        Some (replicate (8 - length (data_value d)) 0 @ data_value d)"
      using assms n l by (subst memcpy_n_in) (auto simp: data_ok_def data_value_def)
    then show ?thesis
      using False n l U8BE_padded [of "data_value d"] by (simp add: get_uint64_t_from_tlv_data_def)
  qed
qed

lemma unat_be_val64: "length bs \<le> 8 \<Longrightarrow> unat (of_nat (be_val bs) :: u64) = be_val bs"
  using be_val_bound [of bs] power_increasing [of "length bs" 8 "256 :: nat"]
  by (intro unat_of_nat_small) (simp add: less_le_trans)

text \<open>The narrow accessors reject a value that does not fit.\<close>

lemma get_uint_narrow_spec:
  assumes "data_ok d"
  defines "r \<equiv> (if data_value d = [] \<or> length (data_value d) > 8 then None else Some (be_val (data_value d)))"
  shows "get_uint32_t_from_tlv_data (Some d) =
           Some (case r of Some n \<Rightarrow> if n < 2 ^ 32 then Some (of_nat n) else None | None \<Rightarrow> None)"
    and "get_uint16_t_from_tlv_data (Some d) =
           Some (case r of Some n \<Rightarrow> if n < 2 ^ 16 then Some (of_nat n) else None | None \<Rightarrow> None)"
    and "get_uint8_t_from_tlv_data (Some d) =
           Some (case r of Some n \<Rightarrow> if n < 2 ^ 8 then Some (of_nat n) else None | None \<Rightarrow> None)"
  using unat_be_val64 [of "data_value d"]
  by (auto simp: get_uint32_t_from_tlv_data_def get_uint16_t_from_tlv_data_def
      get_uint8_t_from_tlv_data_def get_uint64_spec [OF assms(1)] r_def word_less_nat_alt not_less
      word_unat_eq_iff unsigned_ucast_eq unsigned_of_nat take_bit_nat_eq_self unsigned_take_bit_eq)


lemma entry_data_same:
  assumes "data_ok d"
  shows "data_ok (entry_data (entry_of d))" "data_value (entry_data (entry_of d)) = data_value d"
  using assms by (simp_all add: data_ok_def data_value_def entry_data_def entry_of_def min_absorb2)

section \<open>Properties\<close>

lemma tag_callbacks_func: "h \<in> set (tag_callbacks ts) \<Longrightarrow> th_func h \<in> (\<lambda>(tag, cb, u). cb) ` set ts"
  unfolding tag_callbacks_def by (force simp: image_iff)

lemma define_tlv_parser_eq:
  assumes "payload_ok p" "length ts \<le> 64"
  shows "define_tlv_parser ts common p out =
     (case tlv_parse (tag_callbacks ts) common (tag_to_flag ts) (b_ptr p) 0 out of
        (ok, fl, out) \<Rightarrow> Some (ok, \<lparr>r_flags = fl, r_tag_to_flag = tag_to_flag ts\<rparr>, out))"
proof -
  have "length (tag_callbacks ts) = length ts" by (simp add: tag_callbacks_def)
  then show ?thesis
    using parse_tlv_internal_eq [OF assms(1), of "tag_callbacks ts"] assms(2)
    by (simp add: define_tlv_parser_def)
qed

text \<open>Property C13.  The TLV state machine is total and memory safe on every payload below 2 GiB and refines the
  item grammar: with a tag list of at most 64 tags and callbacks that look only at the item they are
  given, the generated parser returns without an out-of-bounds access; a payload that is not a sequence of complete
  items is rejected; otherwise verdict, reception flags and output are those of handling the
  items one after the other.\<close>

theorem define_tlv_parser_spec:
  assumes "payload_ok p" "length ts \<le> 64" "local_cb common" "\<forall>(tag, cb, u) \<in> set ts. local_cb cb"
  shows "\<exists>ok fl out'. define_tlv_parser ts common p out =
             Some (ok, \<lparr>r_flags = fl, r_tag_to_flag = tag_to_flag ts\<rparr>, out') \<and>
           (case tlv_split (b_ptr p) of
              None \<Rightarrow> \<not> ok
            | Some es \<Rightarrow> (ok, fl, out') = tlv_exec (tag_callbacks ts) common (tag_to_flag ts) es 0 out)"
proof -
  obtain ok fl out' where
      r: "tlv_parse (tag_callbacks ts) common (tag_to_flag ts) (b_ptr p) 0 out = (ok, fl, out')"
    by (metis surj_pair)
  have "local_cb (th_func h)" if "h \<in> set (tag_callbacks ts)" for h
    using tag_callbacks_func [OF that] assms(4) by auto
  moreover have "length (b_ptr p) < 2 ^ 31" using assms(1) by (simp add: payload_ok_def)
  ultimately show ?thesis
    using tlv_parse_split [of common "tag_callbacks ts" "b_ptr p" "tag_to_flag ts" 0 out] assms(3)
      define_tlv_parser_eq [OF assms(1,2), of common out] r
    by (auto split: option.splits)
qed

definition store_u8 :: "u8 tlv_handler_cb_t" where
  "store_u8 d fl out = (case get_uint8_t_from_tlv_data (Some d) of Some (Some v) \<Rightarrow> (True, v) | _ \<Rightarrow> (False, out))"

lemma store_u8_local: "local_cb (Some store_u8)"
  by (auto simp: local_cb_def fun_eq_iff store_u8_def get_uint_narrow_spec(3) entry_data_same)

lemma store_u8_val:
  "data_ok d \<Longrightarrow> data_value d = [b] \<Longrightarrow> store_u8 d fl out = (True, b)"
  using unat_bound8 [of b] by (simp add: store_u8_def get_uint_narrow_spec(3))


definition tlv_demo :: "u8 tag_list" where
  "tlv_demo = [(0x0A, Some store_u8, ENFORCE_UNIQUE_TAG), (0x1F, None, ALLOW_MULTIPLE_TAG)]"

lemma tlv_demo_facts:
  "length tlv_demo \<le> 64" "distinct (map fst tlv_demo)" "\<forall>(tag, cb, u) \<in> set tlv_demo. local_cb cb"
  using store_u8_local by (auto simp: tlv_demo_def local_cb_def)

lemma tlv_demo_flags: "tag_to_flag tlv_demo 0x0A = 1" "tag_to_flag tlv_demo 0x1F = 2"
  by (simp_all add: tlv_demo_def tag_to_flag_def)

lemma tlv_demo_split: "tlv_split [0x0A, 1, 42, 0x1F, 0] = Some [(0x0A, [42], [0x0A, 1, 42]), (0x1F, [], [0x1F, 0])]"
  by (simp add: tlv_split.simps tlv_header_def der_dec16_def)

lemma tlv_demo_exec:
  "tlv_exec (tag_callbacks tlv_demo) None (tag_to_flag tlv_demo)
     [(0x0A, [42], [0x0A, 1, 42]), (0x1F, [], [0x1F, 0])] 0 0 = (True, 3, 42)"
proof -
  have "store_u8 (entry_data (0x0A, [42], [0x0A, 1, 42])) 0 0 = (True, 42)"
    by (rule store_u8_val) (simp_all add: data_ok_def data_value_def entry_data_def)
  then show ?thesis
    by (simp add: tlv_accept_def call_handler_def tlv_demo_flags tag_callbacks_def)
      (simp add: tlv_demo_def tag_to_flag_def tlv_accept_def call_handler_def entry_data_def)
qed

lemma tlv_demo_parse:
  "tlv_parse (tag_callbacks tlv_demo) None (tag_to_flag tlv_demo) [0x0A, 1, 42, 0x1F, 0] 0 0 = (True, 3, 42)"
proof -
  have "local_cb (th_func h)" if "h \<in> set (tag_callbacks tlv_demo)" for h
    using tag_callbacks_func [OF that] tlv_demo_facts(3) by auto
  then show ?thesis
    using tlv_parse_split [of None "tag_callbacks tlv_demo" "[0x0A, 1, 42, 0x1F, 0]" "tag_to_flag tlv_demo" 0 0]
    by (simp add: tlv_demo_split tlv_demo_exec local_cb_def del: tlv_exec.simps)
qed

theorem define_tlv_parser_spec_witness:
  "define_tlv_parser tlv_demo None (buffer_create [0x0A, 1, 42, 0x1F, 0] 5) 0 =
     Some (True, \<lparr>r_flags = 3, r_tag_to_flag = tag_to_flag tlv_demo\<rparr>, 42)"
  using define_tlv_parser_spec [OF _ tlv_demo_facts(1) _ tlv_demo_facts(3),
      of "buffer_create [0x0A, 1, 42, 0x1F, 0] 5" None 0]
  by (auto simp: payload_ok_def buffer_create_def tlv_demo_split tlv_demo_exec local_cb_def
      simp del: tlv_exec.simps)



text \<open>Property C14.  What acceptance means: when a generated parser returns true, the payload is a sequence of complete items
  that cover it without a gap, every tag is in the tag list, a tag marked unique occurs at most once, and
  \<open>TLV_CHECK_RECEIVED_TAGS\<close> answers whether all the listed tags occur in the payload.\<close>

theorem tlv_parser_accepts:
  assumes "payload_ok p" "length ts \<le> 64" "distinct (map fst ts)"
    "define_tlv_parser ts common p out = Some (True, rcv, out')"
  shows "\<exists>es. tlv_split (b_ptr p) = Some es \<and> concat (map (\<lambda>(t, v, raw). raw) es) = b_ptr p \<and>
     fst ` set es \<subseteq> fst ` set ts \<and>
     (\<forall>tag cb. (tag, cb, ENFORCE_UNIQUE_TAG) \<in> set ts \<longrightarrow> length (filter (\<lambda>e. fst e = tag) es) \<le> 1) \<and>
     (\<forall>tags. length tags < 2 ^ 32 \<longrightarrow>
        tlv_check_received_tags rcv tags (of_nat (length tags)) = Some (set tags \<subseteq> fst ` set es))"
proof -
  obtain fl where p: "tlv_parse (tag_callbacks ts) common (tag_to_flag ts) (b_ptr p) 0 out = (True, fl, out')"
    and rcv: "rcv = \<lparr>r_flags = fl, r_tag_to_flag = tag_to_flag ts\<rparr>"
    using assms(4) define_tlv_parser_eq [OF assms(1,2), of common out] by (auto split: prod.splits)
  have "flag_set ts {} 0" by (simp add: flag_set_def)
  from tlv_parse_accepts [OF assms(3,2) this _ p] obtain es where
      es: "tlv_split (b_ptr p) = Some es" "items_ok ts {} es" "flag_set ts (fst ` set es) fl"
    by auto
  have sub: "fst ` set es \<subseteq> fst ` set ts" using es(2) by (simp add: items_ok_def)
  have "tlv_check_received_tags rcv tags (of_nat (length tags)) = Some (set tags \<subseteq> fst ` set es)"
    if "length tags < 2 ^ 32" for tags
    using check_received_tags_iff [OF assms(3,2), of "fst ` set es" rcv tags] es(3) sub rcv that
    by (simp add: tlv_check_received_tags_def unat_of_nat_small ld_n_in)
  then show ?thesis
    using es sub tlv_split_raw [OF es(1)] by (auto simp: items_ok_def)
qed

theorem tlv_parser_accepts_witness:
  "\<exists>es. tlv_split [0x0A, 1, 42, 0x1F, 0] = Some es \<and> concat (map (\<lambda>(t, v, raw). raw) es) = [0x0A, 1, 42, 0x1F, 0] \<and>
     fst ` set es \<subseteq> fst ` set tlv_demo \<and>
     tlv_check_received_tags \<lparr>r_flags = 3, r_tag_to_flag = tag_to_flag tlv_demo\<rparr> [0x1F] 1 =
       Some (set [0x1F] \<subseteq> fst ` set es)"
proof -
  let ?p = "buffer_create [0x0A, 1, 42, 0x1F, 0] 5"
  have p: "payload_ok ?p" by (simp add: payload_ok_def buffer_create_def)
  have d: "define_tlv_parser tlv_demo None ?p 0 =
      Some (True, \<lparr>r_flags = 3, r_tag_to_flag = tag_to_flag tlv_demo\<rparr>, 42)"
    using define_tlv_parser_eq [OF p tlv_demo_facts(1), of None 0] tlv_demo_parse
    by (simp add: buffer_create_def)
  obtain es where es: "tlv_split (b_ptr ?p) = Some es" "concat (map (\<lambda>(t, v, raw). raw) es) = b_ptr ?p"
      "fst ` set es \<subseteq> fst ` set tlv_demo"
      "\<forall>tags. length tags < 2 ^ 32 \<longrightarrow>
        tlv_check_received_tags \<lparr>r_flags = 3, r_tag_to_flag = tag_to_flag tlv_demo\<rparr> tags (of_nat (length tags)) =
          Some (set tags \<subseteq> fst ` set es)"
    using tlv_parser_accepts [OF p tlv_demo_facts(1,2) d] by blast
  show ?thesis
    using es(1,2,3) es(4) [rule_format, of "[0x1F]"] by (auto simp: buffer_create_def)
qed

lemma takeWhile_all_iff: "(length (takeWhile P xs) = length xs) = (\<forall>x \<in> set xs. P x)"
  by (induction xs) auto

lemma strnlen_data:
  assumes "data_ok d"
  shows "strnlen (d_value_ptr d) (unat (d_value_size d)) = Some (length (takeWhile (\<lambda>c. c \<noteq> 0) (data_value d)))"
proof -
  have l: "length (takeWhile (\<lambda>c. c \<noteq> 0) (data_value d)) \<le> unat (d_value_size d)"
    by (rule order_trans [OF length_takeWhile_le]) (simp add: data_value_def)
  then show ?thesis
    using assms unfolding strnlen_def Let_def data_value_def [symmetric] data_ok_def by auto
qed

text \<open>The integer accessors: a value of 1 to 8 bytes is its big-endian number, and each narrower
  accessor succeeds exactly when that number fits its type (0 or 1 for a boolean).  No accessor reads
  outside the value.\<close>

lemma tlv_uint_accessors:
  assumes "data_ok d"
  shows "\<exists>r. r = (if 1 \<le> length (data_value d) \<and> length (data_value d) \<le> 8
                 then Some (be_val (data_value d)) else None) \<and>
     get_uint64_t_from_tlv_data (Some d) = Some (map_option of_nat r) \<and>
     get_uint32_t_from_tlv_data (Some d) =
       Some (case r of Some n \<Rightarrow> if n < 2 ^ 32 then Some (of_nat n) else None | None \<Rightarrow> None) \<and>
     get_uint16_t_from_tlv_data (Some d) =
       Some (case r of Some n \<Rightarrow> if n < 2 ^ 16 then Some (of_nat n) else None | None \<Rightarrow> None) \<and>
     get_uint8_t_from_tlv_data (Some d) =
       Some (case r of Some n \<Rightarrow> if n < 2 ^ 8 then Some (of_nat n) else None | None \<Rightarrow> None) \<and>
     get_bool_from_tlv_data (Some d) =
       Some (case r of Some n \<Rightarrow> if n < 2 then Some (n = 1) else None | None \<Rightarrow> None)"
proof (intro exI conjI)
  let ?r = "if 1 \<le> length (data_value d) \<and> length (data_value d) \<le> 8
                 then Some (be_val (data_value d)) else None"
  have r: "?r = (if data_value d = [] \<or> 8 < length (data_value d) then None else Some (be_val (data_value d)))"
    by (auto simp: Suc_le_eq)
  show "?r = ?r" ..
  show "get_uint64_t_from_tlv_data (Some d) = Some (map_option of_nat ?r)"
    unfolding r by (simp add: get_uint64_spec [OF assms])
  show "get_uint32_t_from_tlv_data (Some d) =
      Some (case ?r of Some n \<Rightarrow> if n < 2 ^ 32 then Some (of_nat n) else None | None \<Rightarrow> None)"
    unfolding r by (rule get_uint_narrow_spec(1) [OF assms])
  show "get_uint16_t_from_tlv_data (Some d) =
      Some (case ?r of Some n \<Rightarrow> if n < 2 ^ 16 then Some (of_nat n) else None | None \<Rightarrow> None)"
    unfolding r by (rule get_uint_narrow_spec(2) [OF assms])
  show u8: "get_uint8_t_from_tlv_data (Some d) =
      Some (case ?r of Some n \<Rightarrow> if n < 2 ^ 8 then Some (of_nat n) else None | None \<Rightarrow> None)"
    unfolding r by (rule get_uint_narrow_spec(3) [OF assms])
  have b: "(of_nat n > (1 :: u8)) = (1 < n)" "(of_nat n = (1 :: u8)) = (n = 1)" if "n < 256" for n
    using that unat_of_nat_small [of n, where 'a = 8] by (auto simp: word_less_nat_alt word_unat_eq_iff)
  show "get_bool_from_tlv_data (Some d) =
      Some (case ?r of Some n \<Rightarrow> if n < 2 then Some (n = 1) else None | None \<Rightarrow> None)"
    by (simp add: get_bool_from_tlv_data_def u8) (auto simp: b split: option.splits)
qed

text \<open>\<open>get_string_from_tlv_data\<close> with a truthful \<open>out_size\<close> (or none, and a large enough buffer): it
  stays inside the value and the output, succeeds exactly for a value without NUL bytes whose length is in
  range, and then writes the value and its terminator and nothing else; otherwise the output is
  untouched.\<close>

lemma tlv_string_spec:
  assumes "data_ok d" "d_value_size d \<noteq> 0xFFFFFFFF"
    "if out_size = 0 then length (data_value d) < length out else unat out_size \<le> length out"
  shows "get_string_from_tlv_data (Some d) out min_length out_size =
     Some (if 0 \<notin> set (data_value d) \<and> (min_length = 0 \<or> unat min_length \<le> length (data_value d)) \<and>
              (out_size = 0 \<or> length (data_value d) < unat out_size)
           then (True, data_value d @ 0 # drop (Suc (length (data_value d))) out)
           else (False, out))"
proof -
  let ?v = "data_value d" and ?n = "d_value_size d"
  have l: "length ?v = unat ?n" using assms(1) by (simp add: data_ok_def data_value_def)
  have s: "(if ?n > 0 then strnlen (d_value_ptr d) (unat ?n) else Some 0) =
      Some (length (takeWhile (\<lambda>c. c \<noteq> 0) ?v))"
    using strnlen_data [OF assms(1)] l by (auto simp: word_gt_0)
  have z: "(length (takeWhile (\<lambda>c. c \<noteq> 0) ?v) \<noteq> unat ?n) = (0 \<in> set ?v)"
    using takeWhile_all_iff [of "\<lambda>c. c \<noteq> 0" ?v] l by auto
  have "unat ?n \<noteq> 2 ^ 32 - 1" using assms(2) by (auto simp: word_unat_eq_iff)
  then have p1: "unat (?n + 1) = unat ?n + 1"
    using unat_bound32 [of ?n] by (subst unat_add_no_wrap) auto
  have c: "(?n < ucast min_length) = (length ?v < unat min_length)"
    "(?n + 1 > ucast out_size) = (unat out_size < length ?v + 1)"
    using l p1 unat_bound16 [of min_length] unat_bound16 [of out_size]
    by (auto simp: word_less_nat_alt unsigned_ucast_eq take_bit_nat_eq_self)
  have w: "do { out \<leftarrow> (if ?n > 0 then memcpy_n out 0 (d_value_ptr d) 0 (unat ?n) else Some out);
                out \<leftarrow> st out (unat ?n) 0; Some (True, out) } =
      Some (True, ?v @ 0 # drop (Suc (length ?v)) out)" if "length ?v < length out"
  proof -
    have "(if ?n > 0 then memcpy_n out 0 (d_value_ptr d) 0 (unat ?n) else Some out) =
        Some (?v @ drop (length ?v) out)"
      using that l assms(1) by (auto simp: memcpy_n_in data_ok_def data_value_def word_gt_0)
    then show ?thesis
      using that l by (simp add: st_in list_update_append Cons_nth_drop_Suc [symmetric])
  qed
  show ?thesis
    unfolding get_string_from_tlv_data_def option.case Let_def s using z c w assms(3) l
    by (auto split: if_splits)
qed

end
