(* ===== verification/Protocol.thy ===== *)
theory Protocol
  imports Endian
begin

text \<open>
  The transport framing of \<^verbatim>\<open>protocol/src/ledger_protocol.c\<close>: APDUs cut into packets of the MTU,
  each with channel, tag, sequence number and, in the first, the total length.

  Pointers that the code compares with \<open>NULL\<close> are options; the handle itself is never \<open>NULL\<close>.  Comparisons and
  sums that C performs in \<open>int\<close> are done on natural numbers; a value stored in a field is
  cut to the width of the field.  The operations return the C result with the handle and the output
  buffers they leave, and \<^term>\<open>None\<close> for an access outside a buffer.
\<close>

section \<open>State\<close>

datatype apdu_status = APDU_STATUS_WAITING | APDU_STATUS_NEED_MORE_DATA | APDU_STATUS_COMPLETE

datatype ledger_protocol_result_t =
    LP_SUCCESS | LP_ERROR_INVALID_PARAMETER | LP_ERROR_INVALID_STATE
  | LP_ERROR_NOT_ENOUGH_SPACE | LP_ERROR_NOT_SUPPORTED

record ledger_protocol_t =
  lp_type :: u8
  tx_apdu_buffer :: "bytes option"
  tx_apdu_length :: u16
  tx_apdu_sequence_number :: u16
  tx_apdu_offset :: u16
  tx_chunk_length :: u8
  rx_apdu_status :: apdu_status
  rx_apdu_sequence_number :: u16
  rx_apdu_length :: u16
  rx_apdu_offset :: u16
  lp_mtu :: u16
  lp_mtu_negotiated :: u8

definition TAG_GET_PROTOCOL_VERSION :: u8 where "TAG_GET_PROTOCOL_VERSION = 0x00"
definition TAG_ALLOCATE_CHANNEL :: u8 where "TAG_ALLOCATE_CHANNEL = 0x01"
definition TAG_PING :: u8 where "TAG_PING = 0x02"
definition TAG_APDU :: u8 where "TAG_APDU = 0x05"
definition TAG_MTU :: u8 where "TAG_MTU = 0x08"
definition MTU_MIN_SIZE :: u16 where "MTU_MIN_SIZE = 3"
definition protocol_version :: bytes where "protocol_version = [0x00, 0x00, 0x00, 0x00]"

text \<open>\<open>sizeof(protocol_header_t)\<close>, with one byte of padding after the tag.\<close>

definition sizeof_header :: nat where "sizeof_header = 8"

section \<open>Reception\<close>

text \<open>The common end of \<open>process_apdu_chunk\<close>: \<open>payload\<close> is the buffer after the header of the chunk.\<close>

definition store_apdu_chunk ::
  "ledger_protocol_t \<Rightarrow> bytes \<Rightarrow> u16 \<Rightarrow> bytes \<Rightarrow> u16 \<Rightarrow>
     (ledger_protocol_result_t \<times> ledger_protocol_t \<times> bytes) option" where
  "store_apdu_chunk h payload len apdu_buffer apdu_buffer_size = do {
     let len = (if unat (rx_apdu_offset h) + unat len > unat (rx_apdu_length h)
                then rx_apdu_length h - rx_apdu_offset h else len);
     if 1 + unat (rx_apdu_offset h) + unat len > unat apdu_buffer_size
     then Some (LP_ERROR_NOT_ENOUGH_SPACE, h, apdu_buffer)
     else do {
       apdu_buffer \<leftarrow> memcpy_n apdu_buffer (1 + unat (rx_apdu_offset h)) payload 0 (unat len);
       let h = h\<lparr>rx_apdu_offset := rx_apdu_offset h + len\<rparr>;
       let h = (if rx_apdu_offset h = rx_apdu_length h
                then h\<lparr>rx_apdu_length := rx_apdu_length h + 1,
                       rx_apdu_sequence_number := 0,
                       rx_apdu_status := APDU_STATUS_COMPLETE\<rparr>
                else h\<lparr>rx_apdu_sequence_number := rx_apdu_sequence_number h + 1,
                       rx_apdu_status := APDU_STATUS_NEED_MORE_DATA\<rparr>);
       Some (LP_SUCCESS, h, apdu_buffer) } }"

definition process_apdu_chunk ::
  "ledger_protocol_t \<Rightarrow> bytes \<Rightarrow> u16 \<Rightarrow> bytes \<Rightarrow> u16 \<Rightarrow>
     (ledger_protocol_result_t \<times> ledger_protocol_t \<times> bytes) option" where
  "process_apdu_chunk h buffer len apdu_buffer apdu_buffer_size = do {
     bad \<leftarrow> (if len < 2 then Some True
             else do { v \<leftarrow> U2BE buffer 0; Some (v \<noteq> rx_apdu_sequence_number h) });
     if bad then
       (if rx_apdu_status h = APDU_STATUS_NEED_MORE_DATA
        then Some (LP_ERROR_NOT_ENOUGH_SPACE, h\<lparr>rx_apdu_status := APDU_STATUS_WAITING\<rparr>, apdu_buffer)
        else Some (LP_SUCCESS, h, apdu_buffer))
     else if len < 4 \<and> rx_apdu_sequence_number h = 0 then
       Some (LP_ERROR_NOT_ENOUGH_SPACE, h\<lparr>rx_apdu_status := APDU_STATUS_WAITING\<rparr>, apdu_buffer)
     else if rx_apdu_sequence_number h = 0 then do {
       apdu_buffer \<leftarrow> st apdu_buffer 0 (lp_type h);
       n \<leftarrow> U2BE buffer 2;
       let h = h\<lparr>rx_apdu_status := APDU_STATUS_NEED_MORE_DATA, rx_apdu_length := n\<rparr>;
       if rx_apdu_length h > apdu_buffer_size then
         Some (LP_ERROR_NOT_ENOUGH_SPACE,
               h\<lparr>rx_apdu_status := APDU_STATUS_WAITING, rx_apdu_length := apdu_buffer_size\<rparr>, apdu_buffer)
       else store_apdu_chunk (h\<lparr>rx_apdu_offset := 0\<rparr>) (drop 4 buffer) (len - 4) apdu_buffer apdu_buffer_size }
     else store_apdu_chunk h (drop 2 buffer) (len - 2) apdu_buffer apdu_buffer_size }"

definition LEDGER_PROTOCOL_init ::
  "ledger_protocol_t \<Rightarrow> u8 \<Rightarrow> ledger_protocol_result_t \<times> ledger_protocol_t" where
  "LEDGER_PROTOCOL_init h type =
     (LP_SUCCESS, h\<lparr>rx_apdu_status := APDU_STATUS_WAITING, rx_apdu_sequence_number := 0, lp_type := type\<rparr>)"

definition LEDGER_PROTOCOL_rx ::
  "ledger_protocol_t \<Rightarrow> bytes option \<Rightarrow> u16 \<Rightarrow> bytes option \<Rightarrow> u8 \<Rightarrow> bytes \<Rightarrow> u16 \<Rightarrow> u16 \<Rightarrow>
     (ledger_protocol_result_t \<times> ledger_protocol_t \<times> bytes option \<times> bytes) option" where
  "LEDGER_PROTOCOL_rx h buffer len proto_buf proto_buf_size apdu_buffer apdu_buffer_size mtu =
     (case (buffer, proto_buf) of
        (Some buf, Some pb) \<Rightarrow>
          if len < 3 \<or> unat proto_buf_size < sizeof_header
          then Some (LP_ERROR_INVALID_PARAMETER, h, proto_buf, apdu_buffer)
          else do {
            pb \<leftarrow> memset_n pb 0 0 (unat proto_buf_size);
            pb \<leftarrow> memcpy_n pb 0 buf 0 2;
            tag \<leftarrow> ld buf 2;
            if tag = TAG_GET_PROTOCOL_VERSION then do {
              pb \<leftarrow> st pb 2 TAG_GET_PROTOCOL_VERSION;
              let n = (of_nat (min 4 (unat proto_buf_size - 3)) :: u8);
              pb \<leftarrow> memcpy_n pb 3 protocol_version 0 (unat n);
              Some (LP_SUCCESS, h\<lparr>tx_chunk_length := n + 3\<rparr>, Some pb, apdu_buffer) }
            else if tag = TAG_ALLOCATE_CHANNEL then do {
              pb \<leftarrow> st pb 2 TAG_ALLOCATE_CHANNEL;
              Some (LP_SUCCESS, h\<lparr>tx_chunk_length := 3\<rparr>, Some pb, apdu_buffer) }
            else if tag = TAG_PING then do {
              let n = (of_nat (min (unat proto_buf_size) (unat len)) :: u8);
              pb \<leftarrow> memcpy_n pb 0 buf 0 (unat n);
              Some (LP_SUCCESS, h\<lparr>tx_chunk_length := n\<rparr>, Some pb, apdu_buffer) }
            else if tag = TAG_APDU then do {
              (r, h, apdu_buffer) \<leftarrow> process_apdu_chunk h (drop 3 buf) (len - 3) apdu_buffer apdu_buffer_size;
              Some (r, h, Some pb, apdu_buffer) }
            else if tag = TAG_MTU then do {
              let mtu = (if mtu = 0 then lp_mtu h else mtu);
              if mtu \<ge> MTU_MIN_SIZE then do {
                pb \<leftarrow> st_n pb 2 [TAG_MTU, 0x00, 0x00, 0x00, 0x01, ucast (mtu - 2)];
                pb \<leftarrow> U2BE_ENCODE pb 4 (ucast (mtu - 2));
                Some (LP_SUCCESS, h\<lparr>tx_chunk_length := 8\<rparr>, Some pb, apdu_buffer) }
              else Some (LP_ERROR_INVALID_PARAMETER, h, Some pb, apdu_buffer) }
            else Some (LP_ERROR_NOT_SUPPORTED, h, Some pb, apdu_buffer) }
      | _ \<Rightarrow> Some (LP_ERROR_INVALID_PARAMETER, h, proto_buf, apdu_buffer))"

section \<open>Emission\<close>

text \<open>The end of \<open>LEDGER_PROTOCOL_tx\<close>: the packet header has been written and \<open>off\<close> is \<open>tx_chunk_offset\<close>.\<close>

definition fill_tx_chunk ::
  "ledger_protocol_t \<Rightarrow> bytes \<Rightarrow> u8 \<Rightarrow> u16 \<Rightarrow> u16 \<Rightarrow>
     (ledger_protocol_result_t \<times> ledger_protocol_t \<times> bytes) option" where
  "fill_tx_chunk h pb proto_buf_size off mtu = do {
     src \<leftarrow> tx_apdu_buffer h;
     if unat (tx_apdu_length h) + unat off > unat mtu + unat (tx_apdu_offset h) then
       (if mtu < off then Some (LP_ERROR_INVALID_PARAMETER, h, pb)
        else if int (unat mtu) - int (unat off) > int (unat proto_buf_size) - int (unat off)
        then Some (LP_ERROR_INVALID_PARAMETER, h, pb)
        else do {
          pb \<leftarrow> memcpy_n pb (unat off) src (unat (tx_apdu_offset h)) (unat mtu - unat off);
          Some (LP_SUCCESS,
                h\<lparr>tx_apdu_offset := tx_apdu_offset h + (mtu - off),
                  tx_apdu_sequence_number := tx_apdu_sequence_number h + 1,
                  tx_chunk_length := ucast mtu\<rparr>, pb) })
     else if int (unat (tx_apdu_length h)) - int (unat (tx_apdu_offset h)) > int (unat proto_buf_size) - int (unat off)
     then Some (LP_ERROR_INVALID_PARAMETER, h, pb)
     else if tx_apdu_offset h > tx_apdu_length h then None
     else do {
       pb \<leftarrow> memcpy_n pb (unat off) src (unat (tx_apdu_offset h))
              (unat (tx_apdu_length h) - unat (tx_apdu_offset h));
       Some (LP_SUCCESS,
             h\<lparr>tx_apdu_offset := tx_apdu_length h, tx_apdu_buffer := None,
               tx_chunk_length := ucast (off + (tx_apdu_length h - tx_apdu_offset h))\<rparr>, pb) } }"

definition LEDGER_PROTOCOL_tx ::
  "ledger_protocol_t \<Rightarrow> bytes option \<Rightarrow> u16 \<Rightarrow> bytes option \<Rightarrow> u8 \<Rightarrow> u16 \<Rightarrow>
     (ledger_protocol_result_t \<times> ledger_protocol_t \<times> bytes option) option" where
  "LEDGER_PROTOCOL_tx h buffer len proto_buf proto_buf_size mtu =
     (case proto_buf of
        None \<Rightarrow> Some (LP_ERROR_INVALID_PARAMETER, h, proto_buf)
      | Some pb \<Rightarrow>
          if buffer = None \<and> tx_apdu_buffer h = None \<or> unat proto_buf_size < sizeof_header
          then Some (LP_ERROR_INVALID_PARAMETER, h, proto_buf)
          else do {
            let h = (case buffer of
                       None \<Rightarrow> h
                     | Some b \<Rightarrow> h\<lparr>tx_apdu_buffer := Some b, tx_apdu_length := len,
                                   tx_apdu_sequence_number := 0, tx_apdu_offset := 0\<rparr>);
            pb \<leftarrow> memset_n pb 2 0 (unat proto_buf_size - 2);
            pb \<leftarrow> st pb 2 TAG_APDU;
            pb \<leftarrow> U2BE_ENCODE pb 3 (ucast (tx_apdu_sequence_number h));
            (pb, off) \<leftarrow> (if tx_apdu_sequence_number h = 0
                          then do { pb \<leftarrow> U2BE_ENCODE pb 5 (ucast (tx_apdu_length h)); Some (pb, 7) }
                          else Some (pb, 5));
            let mtu = (if mtu = 0 then lp_mtu h else mtu);
            if mtu < MTU_MIN_SIZE then Some (LP_ERROR_INVALID_PARAMETER, h, Some pb)
            else do {
              (r, h, pb) \<leftarrow> fill_tx_chunk h pb proto_buf_size off mtu;
              Some (r, h, Some pb) } })"

end
