(* ===== verification/Protocol_Spec.thy ===== *)
theory Protocol_Spec
  imports Protocol
begin

text \<open>
  Correctness of the transport framing: an invariant of the receiver over all packet sequences, the exact
  packets the sender emits, and the reassembly of an APDU by a receiver that is fed by a sender.
\<close>

section \<open>Reception is safe\<close>

definition rx_ok :: "ledger_protocol_t \<Rightarrow> bool" where
  "rx_ok h = (rx_apdu_sequence_number h \<noteq> 0 \<longrightarrow>
      rx_apdu_offset h \<le> rx_apdu_length h \<and> rx_apdu_status h \<noteq> APDU_STATUS_COMPLETE)"

text \<open>A complete APDU, with its type byte, fits the buffer.\<close>

definition rx_complete_fits :: "ledger_protocol_t \<Rightarrow> u16 \<Rightarrow> bool" where
  "rx_complete_fits h asz =
     (rx_apdu_status h = APDU_STATUS_COMPLETE \<longrightarrow> 1 \<le> unat (rx_apdu_length h) \<and> rx_apdu_length h \<le> asz)"

lemma rx_ok_waiting: "rx_ok h \<Longrightarrow> rx_ok (h\<lparr>rx_apdu_status := APDU_STATUS_WAITING\<rparr>)"
  by (simp add: rx_ok_def)

lemma store_apdu_chunk_eq:
  assumes "rx_apdu_offset h \<le> rx_apdu_length h" "unat len \<le> length payload"
    "unat asz \<le> length apdu"
  defines "n \<equiv> min (unat len) (unat (rx_apdu_length h) - unat (rx_apdu_offset h))"
  shows "store_apdu_chunk h payload len apdu asz =
     (if unat asz < 1 + unat (rx_apdu_offset h) + n then Some (LP_ERROR_NOT_ENOUGH_SPACE, h, apdu)
      else Some (LP_SUCCESS,
        (if unat (rx_apdu_offset h) + n = unat (rx_apdu_length h)
         then h\<lparr>rx_apdu_offset := rx_apdu_length h, rx_apdu_length := rx_apdu_length h + 1,
                rx_apdu_sequence_number := 0, rx_apdu_status := APDU_STATUS_COMPLETE\<rparr>
         else h\<lparr>rx_apdu_offset := rx_apdu_offset h + of_nat n,
                rx_apdu_sequence_number := rx_apdu_sequence_number h + 1,
                rx_apdu_status := APDU_STATUS_NEED_MORE_DATA\<rparr>),
        take (1 + unat (rx_apdu_offset h)) apdu @ take n payload @ drop (1 + unat (rx_apdu_offset h) + n) apdu))"
proof -
  let ?l = "if unat (rx_apdu_offset h) + unat len > unat (rx_apdu_length h)
                then rx_apdu_length h - rx_apdu_offset h else len"
  have le: "unat (rx_apdu_offset h) \<le> unat (rx_apdu_length h)"
    using assms(1) by (simp add: word_le_nat_alt)
  have l: "unat ?l = n"
    using le assms(1) by (auto simp: n_def unat_sub_no_wrap)
  have "unat (rx_apdu_offset h + ?l) = unat (rx_apdu_offset h) + n"
    using le unat_bound16 [of "rx_apdu_length h"] l
    by (subst unat_add_no_wrap) (auto simp: n_def)
  then have e: "(rx_apdu_offset h + ?l = rx_apdu_length h) =
      (unat (rx_apdu_offset h) + n = unat (rx_apdu_length h))"
    by (simp add: word_unat_eq_iff)
  have w: "?l = of_nat n" by (simp add: word_unat_eq_iff flip: l)
  have c: "n \<le> length payload" using assms(2) by (simp add: n_def)
  show ?thesis
    unfolding store_apdu_chunk_def Let_def l e
    using c assms(3) w e by (auto simp: memcpy_n_in)
qed


lemma U2BE_at:
  "2 \<le> length p \<Longrightarrow> U2BE p 0 = Some (push_bit 8 (ucast (p ! 0)) OR ucast (p ! 1))"
  "4 \<le> length p \<Longrightarrow> U2BE p 2 = Some (push_bit 8 (ucast (p ! 2)) OR ucast (p ! 3))"
  by (auto simp: U2BE_def ld_def)

text \<open>What every reception step guarantees.\<close>

definition rx_result_ok ::
  "nat \<Rightarrow> u16 \<Rightarrow> ledger_protocol_result_t \<times> ledger_protocol_t \<times> bytes \<Rightarrow> bool" where
  "rx_result_ok n asz res =
     (case res of (r, h, apdu) \<Rightarrow>
        rx_ok h \<and> length apdu = n \<and> rx_complete_fits h asz)"

lemma store_apdu_chunk_safe:
  assumes "rx_apdu_offset g \<le> rx_apdu_length g" "unat l \<le> length p" "unat asz \<le> length a"
    "rx_apdu_status g \<noteq> APDU_STATUS_COMPLETE"
  shows "\<exists>res. store_apdu_chunk g p l a asz = Some res \<and> rx_result_ok (length a) asz res"
proof -
  let ?n = "min (unat l) (unat (rx_apdu_length g) - unat (rx_apdu_offset g))"
  let ?o = "unat (rx_apdu_offset g)" and ?l = "unat (rx_apdu_length g)"
  have le: "?o \<le> ?l" using assms(1) by (simp add: word_le_nat_alt)
  note eq = store_apdu_chunk_eq [OF assms(1-3)]
  consider "unat asz < 1 + ?o + ?n" | "1 + ?o + ?n \<le> unat asz" "?o + ?n = ?l"
    | "1 + ?o + ?n \<le> unat asz" "?o + ?n \<noteq> ?l" by linarith
  then show ?thesis
  proof cases
    case 1
    then show ?thesis using eq assms(1,4) by (auto simp: rx_result_ok_def rx_ok_def rx_complete_fits_def)
  next
    case 2
    have "unat (rx_apdu_length g + 1) = ?l + 1"
      using 2 unat_bound16 [of asz] by (subst unat_add_no_wrap) auto
    then have "rx_complete_fits (g\<lparr>rx_apdu_offset := rx_apdu_length g, rx_apdu_length := rx_apdu_length g + 1,
                rx_apdu_sequence_number := 0, rx_apdu_status := APDU_STATUS_COMPLETE\<rparr>) asz"
      using 2 by (simp add: rx_complete_fits_def word_le_nat_alt)
    then show ?thesis
      using 2 eq assms(2,3) by (auto simp: rx_result_ok_def rx_ok_def)
  next
    case 3
    have "unat (rx_apdu_offset g + of_nat ?n) = ?o + ?n"
      using le unat_bound16 [of "rx_apdu_length g"]
      by (subst unat_add_no_wrap) (auto simp: unsigned_of_nat take_bit_nat_eq_self)
    then have "rx_apdu_offset g + of_nat ?n \<le> rx_apdu_length g"
      using le by (simp add: word_le_nat_alt)
    then show ?thesis
      using 3 eq assms(2,3) by (auto simp: rx_result_ok_def rx_ok_def rx_complete_fits_def)
  qed
qed

lemma process_apdu_chunk_safe:
  assumes "rx_ok h" "unat len \<le> length buffer" "unat asz \<le> length apdu" "0 < asz" "rx_complete_fits h asz"
  shows "\<exists>res. process_apdu_chunk h buffer len apdu asz = Some res \<and> rx_result_ok (length apdu) asz res"
proof -
  have ne: "apdu \<noteq> []" using assms(3,4) by (auto simp: word_less_nat_alt)
  have l: "\<not> len < 2 \<Longrightarrow> 2 \<le> unat len" "\<not> len < 4 \<Longrightarrow> 4 \<le> unat len"
    by (simp_all add: word_less_nat_alt)
  have sub: "\<not> len < 2 \<Longrightarrow> unat (len - 2) = unat len - 2" "\<not> len < 4 \<Longrightarrow> unat (len - 4) = unat len - 4"
    by (simp_all add: unat_sub_no_wrap not_less)
  let ?bad = "len < 2 \<or> push_bit 8 (ucast (buffer ! 0)) OR ucast (buffer ! 1) \<noteq> rx_apdu_sequence_number h"
  have bad: "(if len < 2 then Some True
             else do { v \<leftarrow> U2BE buffer 0; Some (v \<noteq> rx_apdu_sequence_number h) }) = Some ?bad"
    using U2BE_at(1) [of buffer] l(1) assms(2) by auto
  note unf = process_apdu_chunk_def [of h buffer len apdu asz, unfolded bad, simplified]
  have wait: "rx_result_ok (length apdu) asz (r, h\<lparr>rx_apdu_status := APDU_STATUS_WAITING\<rparr>, apdu)" for r
    using rx_ok_waiting [OF assms(1)] by (simp add: rx_result_ok_def rx_complete_fits_def)
  have same: "rx_result_ok (length apdu) asz (r, h, apdu)" for r
    using assms(1,5) by (simp add: rx_result_ok_def)
  consider "?bad" | "\<not> ?bad" "len < 4" "rx_apdu_sequence_number h = 0"
    | "\<not> ?bad" "\<not> len < 4" "rx_apdu_sequence_number h = 0" | "\<not> ?bad" "rx_apdu_sequence_number h \<noteq> 0"
    by blast
  then show ?thesis
  proof cases
    case 1
    then show ?thesis using wait same by (auto simp: unf)
  next
    case 2
    then show ?thesis using wait by (auto simp: unf)
  next
    case 3
    define n where "n = (push_bit 8 (ucast (buffer ! 2)) OR ucast (buffer ! 3) :: u16)"
    have u: "U2BE buffer 2 = Some n" using U2BE_at(2) [of buffer] l(2) 3 assms(2) by (simp add: n_def)
    let ?g = "h\<lparr>rx_apdu_status := APDU_STATUS_NEED_MORE_DATA, rx_apdu_length := n, rx_apdu_offset := 0\<rparr>"
    have s: "\<exists>res. store_apdu_chunk ?g (drop 4 buffer) (len - 4) (apdu[0 := lp_type h]) asz = Some res \<and>
        rx_result_ok (length (apdu[0 := lp_type h])) asz res"
      by (rule store_apdu_chunk_safe) (use assms sub 3 in auto)
    have "rx_result_ok (length apdu) asz (r, h\<lparr>rx_apdu_status := APDU_STATUS_WAITING, rx_apdu_length := asz\<rparr>, apdu[0 := t])"
      for r t
      using 3 by (simp add: rx_result_ok_def rx_ok_def rx_complete_fits_def)
    then show ?thesis
      using 3 ne u s by (cases "asz < n") (auto simp: unf st_in Let_def)
  next
    case 4
    have "\<exists>res. store_apdu_chunk h (drop 2 buffer) (len - 2) apdu asz = Some res \<and>
        rx_result_ok (length apdu) asz res"
      by (rule store_apdu_chunk_safe) (use assms sub 4 in \<open>auto simp: rx_ok_def\<close>)
    then show ?thesis using 4 by (auto simp: unf)
  qed
qed

section \<open>Packets\<close>

lemma memset_full: "n \<le> length pb \<Longrightarrow> memset_n pb 0 c n = Some (replicate n c @ drop n pb)"
  by (simp add: memset_n_in)

lemmas tags = TAG_GET_PROTOCOL_VERSION_def TAG_ALLOCATE_CHANNEL_def TAG_PING_def TAG_APDU_def TAG_MTU_def

lemma LEDGER_PROTOCOL_rx_safe:
  assumes "rx_ok h" "rx_complete_fits h asz" "unat len \<le> length buf" "unat psz \<le> length pb"
    "unat asz \<le> length apdu" "0 < asz"
  shows "\<exists>r h' pb' apdu'. LEDGER_PROTOCOL_rx h (Some buf) len (Some pb) psz apdu asz mtu =
       Some (r, h', Some pb', apdu') \<and> length pb' = length pb \<and> rx_result_ok (length apdu) asz (r, h', apdu')"
proof -
  have same: "rx_result_ok (length apdu) asz (r, h\<lparr>tx_chunk_length := n\<rparr>, apdu)"
    "rx_result_ok (length apdu) asz (r, h, apdu)" for r n
    using assms(1,2) by (simp_all add: rx_result_ok_def rx_ok_def rx_complete_fits_def)
  show ?thesis
  proof (cases "len < 3 \<or> unat psz < sizeof_header")
    case True
    then show ?thesis using same by (auto simp: LEDGER_PROTOCOL_rx_def)
  next
    case False
    then have "3 \<le> len" by (simp add: not_less)
    with False have l: "3 \<le> unat len" "8 \<le> unat psz" "unat (len - 3) = unat len - 3"
      by (auto simp: word_le_nat_alt sizeof_header_def unat_sub_no_wrap)
    define pb1 where "pb1 = take 2 buf @ drop 2 (replicate (unat psz) 0 @ drop (unat psz) pb)"
    have p1: "memset_n pb 0 0 (unat psz) = Some (replicate (unat psz) 0 @ drop (unat psz) pb)"
        "memcpy_n (replicate (unat psz) 0 @ drop (unat psz) pb) 0 buf 0 2 = Some pb1"
        "length pb1 = length pb" "ld buf 2 = Some (buf ! 2)"
      using l assms(3,4) by (simp_all add: memset_full memcpy_n_in pb1_def ld_in)
    have mins: "unat (of_nat (min 4 (unat psz - 3)) :: u8) = 4" "unat (of_nat (min (unat psz) (unat len)) :: u8) = min (unat psz) (unat len)"
      using l unat_bound8 [of psz] by (simp_all add: min_def unsigned_of_nat take_bit_nat_eq_self)
    have ch: "\<exists>res. process_apdu_chunk h (drop 3 buf) (len - 3) apdu asz = Some res \<and> rx_result_ok (length apdu) asz res"
      by (rule process_apdu_chunk_safe) (use assms l in auto)
    note unf = LEDGER_PROTOCOL_rx_def [of h "Some buf" len "Some pb" psz apdu asz mtu]
    consider "buf ! 2 = TAG_GET_PROTOCOL_VERSION" | "buf ! 2 = TAG_ALLOCATE_CHANNEL" | "buf ! 2 = TAG_PING"
      | "buf ! 2 = TAG_APDU" | "buf ! 2 = TAG_MTU"
      | "buf ! 2 \<notin> {TAG_GET_PROTOCOL_VERSION, TAG_ALLOCATE_CHANNEL, TAG_PING, TAG_APDU, TAG_MTU}"
      by blast
    then show ?thesis
    proof cases
      case 1
      then show ?thesis using False p1 l mins same assms(4)
        by (simp add: unf st_in memcpy_n_in protocol_version_def)
    next
      case 2
      then show ?thesis using False p1 l same assms(4)
        by (simp add: unf st_in TAG_GET_PROTOCOL_VERSION_def TAG_ALLOCATE_CHANNEL_def)
    next
      case 3
      then show ?thesis using False p1 l mins same assms(3,4)
        by (simp add: unf memcpy_n_in TAG_GET_PROTOCOL_VERSION_def TAG_ALLOCATE_CHANNEL_def TAG_PING_def)
    next
      case 4
      then show ?thesis using False p1 ch
        by (auto simp: unf TAG_GET_PROTOCOL_VERSION_def TAG_ALLOCATE_CHANNEL_def TAG_PING_def TAG_APDU_def)
    next
      case 5
      then show ?thesis using False p1 l same assms(4)
        by (auto simp: unf st_n_in st_in U2BE_ENCODE_def tags Let_def)
    next
      case 6
      then show ?thesis using False p1 same by (auto simp: unf)
    qed
  qed
qed

section \<open>Sequences of packets\<close>

text \<open>The receiver after any number of packets.\<close>

inductive rx_reach :: "u8 \<Rightarrow> bytes \<Rightarrow> u16 \<Rightarrow> ledger_protocol_t \<Rightarrow> bytes \<Rightarrow> bool" for type apdu0 asz where
  rx_start: "rx_reach type apdu0 asz (snd (LEDGER_PROTOCOL_init h type)) apdu0"
| rx_packet: "rx_reach type apdu0 asz h apdu \<Longrightarrow> unat len \<le> length buf \<Longrightarrow> unat psz \<le> length pb \<Longrightarrow>
    LEDGER_PROTOCOL_rx h (Some buf) len (Some pb) psz apdu asz mtu = Some (r, h', pb', apdu') \<Longrightarrow>
    rx_reach type apdu0 asz h' apdu'"

inductive_cases rx_reachE: "rx_reach type apdu0 asz h apdu"

lemma rx_reach_inv:
  assumes "rx_reach type apdu0 asz h apdu" "unat asz \<le> length apdu0" "0 < asz"
  shows "rx_ok h \<and> rx_complete_fits h asz \<and> length apdu = length apdu0"
  using assms(1)
proof (induction rule: rx_reach.induct)
  case (rx_packet h apdu len buf psz pb mtu r h' pb' apdu')
  then show ?case
    using LEDGER_PROTOCOL_rx_safe [of h asz len buf psz pb apdu mtu] assms(2,3)
    by (auto simp: rx_result_ok_def)
qed (simp add: LEDGER_PROTOCOL_init_def rx_ok_def rx_complete_fits_def)

section \<open>Emission\<close>

text \<open>The header that \<open>LEDGER_PROTOCOL_tx\<close> writes after the channel identifier.\<close>

definition tx_header :: "u16 \<Rightarrow> u16 \<Rightarrow> bytes" where
  "tx_header seq n = TAG_APDU # be_bytes 2 seq @ (if seq = 0 then be_bytes 2 n else [])"

lemma length_tx_header: "length (tx_header seq n) = (if seq = 0 then 5 else 3)"
  by (simp add: tx_header_def)

text \<open>The handle once the arguments of the call are recorded.\<close>

definition tx_begin :: "ledger_protocol_t \<Rightarrow> bytes option \<Rightarrow> u16 \<Rightarrow> ledger_protocol_t" where
  "tx_begin h buffer len =
     (case buffer of
        None \<Rightarrow> h
      | Some b \<Rightarrow> h\<lparr>tx_apdu_buffer := Some b, tx_apdu_length := len,
                    tx_apdu_sequence_number := 0, tx_apdu_offset := 0\<rparr>)"

lemma tx_prefix:
  assumes "8 \<le> n" "n \<le> length pb" "length pb \<le> 2 ^ 32"
  shows "\<exists>a b c. memset_n pb 2 0 (n - 2) = Some a \<and> st a 2 TAG_APDU = Some b \<and>
     U2BE_ENCODE b 3 (ucast seq) = Some c \<and>
     (if seq = 0 then do { pb \<leftarrow> U2BE_ENCODE c 5 (ucast len); Some (pb, 7) } else Some (c, 5)) =
       Some (take 2 pb @ tx_header seq len @ replicate (n - 2 - length (tx_header seq len)) 0 @ drop n pb,
             if seq = 0 then 7 else 5 :: u16)"
proof -
  let ?z = "replicate (n - 3) 0 @ drop n pb"
  have m: "memset_n pb 2 0 (n - 2) = Some (take 2 pb @ replicate (n - 2) 0 @ drop n pb)"
    using assms memset_n_in [of 2 "n - 2" pb 0] le_add_diff_inverse [of 2 n] by (simp del: One_nat_def)
  have r: "replicate (n - 2) (0 :: u8) = 0 # replicate (n - 3) 0"
    using assms(1) by (simp flip: replicate_Suc add: Suc_diff_le numeral_eq_Suc)
  have s: "st (take 2 pb @ replicate (n - 2) 0 @ drop n pb) 2 TAG_APDU = Some (take 2 pb @ TAG_APDU # ?z)"
    using assms(1,2) unfolding r by (simp add: st_in list_update_append)
  have u1: "U2BE_ENCODE (take 2 pb @ TAG_APDU # ?z) 3 (ucast seq) =
      Some (take 2 pb @ TAG_APDU # be_bytes 2 seq @ drop 2 ?z)"
    using assms by (subst U2BE_ENCODE_at) auto
  have u2: "U2BE_ENCODE (take 2 pb @ TAG_APDU # be_bytes 2 seq @ drop 2 ?z) 5 (ucast len) =
      Some (take 2 pb @ TAG_APDU # be_bytes 2 seq @ be_bytes 2 len @ drop 4 ?z)"
    using assms by (subst U2BE_ENCODE_at) auto
  show ?thesis
    using m s u1 u2 assms(1,2) unfolding length_tx_header
    by (cases "seq = 0") (auto simp: tx_header_def)
qed

lemma fill_tx_chunk_eq:
  assumes h: "tx_apdu_buffer g = Some src" "unat (tx_apdu_length g) \<le> length src"
      "tx_apdu_offset g \<le> tx_apdu_length g"
    and mtu: "off \<le> mtu" "unat mtu \<le> unat psz" "unat psz \<le> length pb"
  defines "rem \<equiv> unat (tx_apdu_length g) - unat (tx_apdu_offset g)"
  defines "n \<equiv> min rem (unat mtu - unat off)"
  shows "\<exists>g'. fill_tx_chunk g pb psz off mtu =
      Some (LP_SUCCESS, g',
        take (unat off) pb @ take n (drop (unat (tx_apdu_offset g)) src) @ drop (unat off + n) pb) \<and>
     unat (tx_chunk_length g') = unat off + n \<and>
     (if rem = n then tx_apdu_buffer g' = None
      else g' = g\<lparr>tx_apdu_offset := tx_apdu_offset g + of_nat n,
                  tx_apdu_sequence_number := tx_apdu_sequence_number g + 1,
                  tx_chunk_length := tx_chunk_length g'\<rparr>)"
proof -
  have le: "unat (tx_apdu_offset g) \<le> unat (tx_apdu_length g)" "unat off \<le> unat mtu"
    using h(3) mtu(1) by (simp_all add: word_le_nat_alt)
  have p8: "unat psz < 256" by (rule unat_bound8)
  show ?thesis
  proof (cases "unat (tx_apdu_length g) + unat off > unat mtu + unat (tx_apdu_offset g)")
    case True
    then have n: "n = unat mtu - unat off" "n \<noteq> rem" using le by (auto simp: n_def rem_def)
    have w: "mtu - off = of_nat n"
      using le n by (simp add: word_unat_eq_iff unat_sub_no_wrap mtu(1)) 
    have c: "unat (ucast mtu :: u8) = unat mtu"
      using mtu(2) p8 by (simp add: unsigned_ucast_eq unsigned_take_bit_eq take_bit_nat_eq_self)
    have "int (unat mtu) \<le> int (unat psz)" using mtu(2) by (simp only: of_nat_le_iff)
    then show ?thesis
      using True h mtu le n w c by (auto simp: fill_tx_chunk_def memcpy_n_in n_def rem_def not_less)
  next
    case False
    then have n: "n = rem" "unat off + rem \<le> unat mtu" using le by (auto simp: n_def rem_def)
    have s: "unat (off + (tx_apdu_length g - tx_apdu_offset g)) = unat off + rem"
      using n le h(3) unat_bound16 [of mtu] by (subst unat_add_no_wrap) (auto simp: unat_sub_no_wrap rem_def)
    have c: "unat (ucast (off + (tx_apdu_length g - tx_apdu_offset g)) :: u8) = unat off + rem"
      using s n mtu(2) p8 by (simp add: unsigned_ucast_eq unsigned_take_bit_eq take_bit_nat_eq_self)
    have "int (unat (tx_apdu_length g)) - int (unat (tx_apdu_offset g)) \<le> int (unat psz) - int (unat off)"
      using n le mtu(2) unfolding rem_def by linarith
    then show ?thesis
      using False h mtu le n c by (auto simp: fill_tx_chunk_def memcpy_n_in rem_def not_less)
  qed
qed

lemma LEDGER_PROTOCOL_tx_chunk:
  assumes h: "tx_begin h buffer len = g" "tx_apdu_buffer g = Some src"
      "unat (tx_apdu_length g) \<le> length src" "tx_apdu_offset g \<le> tx_apdu_length g"
    and pb: "8 \<le> unat psz" "unat psz \<le> length pb" "length pb \<le> 2 ^ 32"
    and mtu: "7 \<le> mtu" "unat mtu \<le> unat psz"
  defines "hdr \<equiv> tx_header (tx_apdu_sequence_number g) (tx_apdu_length g)"
    and "rem \<equiv> unat (tx_apdu_length g) - unat (tx_apdu_offset g)"
  defines "n \<equiv> min rem (unat mtu - 2 - length hdr)"
  shows "\<exists>g' pb'. LEDGER_PROTOCOL_tx h buffer len (Some pb) psz mtu = Some (LP_SUCCESS, g', Some pb') \<and>
     length pb' = length pb \<and> unat (tx_chunk_length g') = 2 + length hdr + n \<and>
     take (2 + length hdr + n) pb' = take 2 pb @ hdr @ take n (drop (unat (tx_apdu_offset g)) src) \<and>
     drop (2 + length hdr + n) pb' = replicate (unat psz - (2 + length hdr + n)) 0 @ drop (unat psz) pb \<and>
     (if rem = n then tx_apdu_buffer g' = None
      else g' = g\<lparr>tx_apdu_offset := tx_apdu_offset g + of_nat n,
                  tx_apdu_sequence_number := tx_apdu_sequence_number g + 1,
                  tx_chunk_length := tx_chunk_length g'\<rparr>)"
proof -
  let ?off = "if tx_apdu_sequence_number g = 0 then 7 else 5 :: u16"
  let ?pb = "take 2 pb @ hdr @ replicate (unat psz - 2 - length hdr) 0 @ drop (unat psz) pb"
  have off: "unat ?off = 2 + length hdr" "?off \<le> mtu"
    using mtu(1) by (auto simp: hdr_def length_tx_header word_le_nat_alt)
  have l: "length ?pb = length pb" using pb by (auto simp: hdr_def length_tx_header)
  have n: "n = min rem (unat mtu - unat ?off)" unfolding n_def off by simp
  have "\<exists>g'. fill_tx_chunk g ?pb psz ?off mtu =
      Some (LP_SUCCESS, g',
        take (2 + length hdr) ?pb @ take n (drop (unat (tx_apdu_offset g)) src) @ drop (2 + length hdr + n) ?pb) \<and>
     unat (tx_chunk_length g') = 2 + length hdr + n \<and>
     (if rem = n then tx_apdu_buffer g' = None
      else g' = g\<lparr>tx_apdu_offset := tx_apdu_offset g + of_nat n,
                  tx_apdu_sequence_number := tx_apdu_sequence_number g + 1,
                  tx_chunk_length := tx_chunk_length g'\<rparr>)"
    using fill_tx_chunk_eq [OF h(2,3,4) off(2) mtu(2), of ?pb] pb(2) l
    by (simp only: n_def rem_def off(1) diff_diff_left)
  then obtain g' where g': "fill_tx_chunk g ?pb psz ?off mtu =
      Some (LP_SUCCESS, g',
        take (2 + length hdr) ?pb @ take n (drop (unat (tx_apdu_offset g)) src) @ drop (2 + length hdr + n) ?pb)"
     "unat (tx_chunk_length g') = 2 + length hdr + n"
     "if rem = n then tx_apdu_buffer g' = None
      else g' = g\<lparr>tx_apdu_offset := tx_apdu_offset g + of_nat n,
                  tx_apdu_sequence_number := tx_apdu_sequence_number g + 1,
                  tx_chunk_length := tx_chunk_length g'\<rparr>"
    by blast
  have pre: "\<not> (buffer = None \<and> tx_apdu_buffer h = None \<or> unat psz < sizeof_header)"
    using h(1,2) pb(1) by (auto simp: tx_begin_def sizeof_header_def)
  have m0: "mtu \<noteq> 0" "\<not> mtu < MTU_MIN_SIZE"
    using mtu(1) by (auto simp: MTU_MIN_SIZE_def word_le_nat_alt word_less_nat_alt)
  have "LEDGER_PROTOCOL_tx h buffer len (Some pb) psz mtu = Some (LP_SUCCESS, g',
      Some (take (2 + length hdr) ?pb @ take n (drop (unat (tx_apdu_offset g)) src) @ drop (2 + length hdr + n) ?pb))"
    unfolding LEDGER_PROTOCOL_tx_def option.case if_not_P [OF pre] Let_def tx_begin_def [symmetric] h(1)
    using tx_prefix [OF pb, of "tx_apdu_sequence_number g" "tx_apdu_length g", folded hdr_def] g'(1) m0
    by (elim exE conjE) simp
  moreover have np: "2 + length hdr + n \<le> unat psz"
    using off mtu(2) by (simp add: n_def word_le_nat_alt)
  moreover have nl: "length (take n (drop (unat (tx_apdu_offset g)) src)) = n" "2 + length hdr + n \<le> length pb"
    "2 \<le> length pb"
    using h(3,4) mtu pb off by (auto simp: n_def rem_def word_le_nat_alt)
  moreover have "length (take (2 + length hdr) ?pb @ take n (drop (unat (tx_apdu_offset g)) src) @ drop (2 + length hdr + n) ?pb)
      = length pb"
    using nl l by simp
  moreover have "take (2 + length hdr + n) (take (2 + length hdr) ?pb @ take n (drop (unat (tx_apdu_offset g)) src) @
      drop (2 + length hdr + n) ?pb) = take 2 pb @ hdr @ take n (drop (unat (tx_apdu_offset g)) src)"
    using nl by (simp add: numeral_2_eq_2)
  moreover have "drop (2 + length hdr + n) (take (2 + length hdr) ?pb @ take n (drop (unat (tx_apdu_offset g)) src) @
      drop (2 + length hdr + n) ?pb) = replicate (unat psz - (2 + length hdr + n)) 0 @ drop (unat psz) pb"
    using nl np by (simp add: numeral_2_eq_2)
  ultimately show ?thesis using g'(2,3) by blast
qed


section \<open>A transfer\<close>

text \<open>A sender and a receiver joined by the transport: every packet of the sender is given to the
  receiver until the sender has nothing left.  \<^term>\<open>None\<close> also stands for a refused packet.\<close>

partial_function (option) transfer ::
  "ledger_protocol_t \<Rightarrow> ledger_protocol_t \<Rightarrow> bytes option \<Rightarrow> u16 \<Rightarrow> bytes \<Rightarrow> bytes \<Rightarrow> u8 \<Rightarrow> u16 \<Rightarrow> bytes \<Rightarrow> u16 \<Rightarrow>
     (ledger_protocol_t \<times> bytes) option" where
  "transfer tx rx buffer len pb rpb psz mtu apdu asz = do {
     (r, tx, pb) \<leftarrow> LEDGER_PROTOCOL_tx tx buffer len (Some pb) psz mtu;
     pb \<leftarrow> pb;
     (r', rx, rpb, apdu) \<leftarrow> LEDGER_PROTOCOL_rx rx (Some (take (unat (tx_chunk_length tx)) pb))
        (ucast (tx_chunk_length tx)) (Some rpb) psz apdu asz mtu;
     rpb \<leftarrow> rpb;
     if r \<noteq> LP_SUCCESS \<or> r' \<noteq> LP_SUCCESS then None
     else case tx_apdu_buffer tx of
            None \<Rightarrow> Some (rx, apdu)
          | Some _ \<Rightarrow> transfer tx rx None 0 pb rpb psz mtu apdu asz }"


lemma rx_apdu_packet:
  assumes "length chan = 2" "8 \<le> unat psz" "unat psz \<le> length rpb" "length body < 60000"
  shows "\<exists>rpb'. length rpb' = length rpb \<and>
    LEDGER_PROTOCOL_rx rx (Some (chan @ TAG_APDU # body)) (of_nat (3 + length body)) (Some rpb) psz apdu asz mtu =
    map_option (\<lambda>(r, h, apdu). (r, h, Some rpb', apdu))
      (process_apdu_chunk rx body (of_nat (length body)) apdu asz)"
proof -
  let ?pkt = "chan @ TAG_APDU # body"
  let ?p = "replicate (unat psz) 0 @ drop (unat psz) rpb"
  have u: "unat (of_nat (3 + length body) :: u16) = 3 + length body"
    using assms(4) by (simp only: unsigned_of_nat) (simp add: take_bit_nat_eq_self)
  have "\<not> (of_nat (3 + length body) < (3 :: u16))" "of_nat (3 + length body) - 3 = (of_nat (length body) :: u16)"
    unfolding word_less_nat_alt u by simp_all
  moreover have "memset_n rpb 0 0 (unat psz) = Some ?p"
    using assms(3) by (simp add: memset_n_in)
  moreover have "memcpy_n ?p 0 ?pkt 0 2 = Some (chan @ drop 2 ?p)"
    using assms by (simp add: memcpy_n_in)
  moreover have "ld ?pkt 2 = Some TAG_APDU" "drop 3 ?pkt = body"
    using assms(1) by (simp_all add: ld_def nth_append)
  ultimately show ?thesis
    using assms(1,2,3) unfolding LEDGER_PROTOCOL_rx_def
    by (intro exI [of _ "chan @ drop 2 ?p"]) (auto simp: sizeof_header_def tags split: option.splits bind_splits)
qed

text \<open>Storing \<open>n\<close> more bytes \<open>ds\<close> of the APDU.\<close>

lemma store_apdu_chunk_bytes:
  assumes "unat (rx_apdu_offset h) + length ds \<le> unat (rx_apdu_length h)" "rx_apdu_length h < asz"
    "unat asz \<le> length apdu"
  shows "store_apdu_chunk h ds (of_nat (length ds)) apdu asz = Some (LP_SUCCESS,
     (if unat (rx_apdu_offset h) + length ds = unat (rx_apdu_length h)
      then h\<lparr>rx_apdu_offset := rx_apdu_length h, rx_apdu_length := rx_apdu_length h + 1,
             rx_apdu_sequence_number := 0, rx_apdu_status := APDU_STATUS_COMPLETE\<rparr>
      else h\<lparr>rx_apdu_offset := rx_apdu_offset h + of_nat (length ds),
             rx_apdu_sequence_number := rx_apdu_sequence_number h + 1,
             rx_apdu_status := APDU_STATUS_NEED_MORE_DATA\<rparr>),
     take (1 + unat (rx_apdu_offset h)) apdu @ ds @ drop (1 + unat (rx_apdu_offset h) + length ds) apdu)"
proof -
  have u: "unat (of_nat (length ds) :: u16) = length ds"
    using assms(1) unat_bound16 [of "rx_apdu_length h"]
    by (simp add: unsigned_of_nat take_bit_nat_eq_self)
  have m: "min (unat (of_nat (length ds) :: u16)) (unat (rx_apdu_length h) - unat (rx_apdu_offset h)) = length ds"
    unfolding u using assms(1) by simp
  have "\<not> unat asz < 1 + unat (rx_apdu_offset h) + length ds"
    using assms(1,2) by (simp add: word_less_nat_alt)
  then show ?thesis
    using store_apdu_chunk_eq [of h "of_nat (length ds)" ds asz apdu, unfolded m] assms u
    by (simp add: word_le_nat_alt)
qed

lemma process_first_chunk:
  assumes "rx_apdu_sequence_number rx = 0" "n < asz" "unat asz \<le> length apdu" "length ds < 60000"
  shows "process_apdu_chunk rx (be_bytes 2 (0 :: u16) @ be_bytes 2 n @ ds) (of_nat (4 + length ds)) apdu asz =
     store_apdu_chunk (rx\<lparr>rx_apdu_status := APDU_STATUS_NEED_MORE_DATA, rx_apdu_length := n, rx_apdu_offset := 0\<rparr>)
       ds (of_nat (length ds)) (apdu[0 := lp_type rx]) asz"
proof -
  have u: "unat (of_nat (4 + length ds) :: u16) = 4 + length ds"
    using assms(4) by (simp only: unsigned_of_nat) (simp add: take_bit_nat_eq_self)
  have l: "\<not> of_nat (4 + length ds) < (2 :: u16)" "\<not> of_nat (4 + length ds) < (4 :: u16)"
    "of_nat (4 + length ds) - (4 :: u16) = of_nat (length ds)"
    unfolding word_less_nat_alt u by simp_all
  have na: "\<not> asz < n" using assms(2) by simp
  have ne: "0 < length apdu" using assms(2,3) by (auto simp: word_less_nat_alt)
  have U: "U2BE (be_bytes 2 (0 :: u16) @ be_bytes 2 n @ ds) 0 = Some 0"
      "U2BE (be_bytes 2 (0 :: u16) @ be_bytes 2 n @ ds) 2 = Some n"
    using U2BE_be_bytes by auto
  show ?thesis
    unfolding process_apdu_chunk_def U using l ne assms(1) na by (simp add: st_in Let_def)
qed

lemma process_next_chunk:
  assumes "rx_apdu_sequence_number rx = k" "k \<noteq> 0" "length ds < 60000"
  shows "process_apdu_chunk rx (be_bytes 2 k @ ds) (of_nat (2 + length ds)) apdu asz =
     store_apdu_chunk rx ds (of_nat (length ds)) apdu asz"
proof -
  have u: "unat (of_nat (2 + length ds) :: u16) = 2 + length ds"
    using assms(3) by (simp only: unsigned_of_nat) (simp add: take_bit_nat_eq_self)
  have l: "\<not> of_nat (2 + length ds) < (2 :: u16)" "of_nat (2 + length ds) - (2 :: u16) = of_nat (length ds)"
    unfolding word_less_nat_alt u by simp_all
  show ?thesis
    unfolding process_apdu_chunk_def using l assms(1,2) U2BE_be_bytes(1) [of k ds] by simp
qed


lemma u16_of_nat: "p < 65536 \<Longrightarrow> unat (of_nat p :: u16) = p"
  by (simp add: unsigned_of_nat take_bit_nat_eq_self)

text \<open>The receiver holds the first \<open>p\<close> bytes of \<open>ds\<close> and waits for packet \<open>q\<close>; a packet number 0 starts a new APDU.\<close>

definition rx_has :: "bytes \<Rightarrow> u16 \<Rightarrow> bytes \<Rightarrow> ledger_protocol_t \<Rightarrow> bytes \<Rightarrow> u16 \<Rightarrow> nat \<Rightarrow> bool" where
  "rx_has ds n apdu0 rx apdu q p =
     (rx_apdu_sequence_number rx = q \<and> length apdu = length apdu0 \<and>
      (if q = 0 then p = 0 \<and> drop 1 apdu = drop 1 apdu0
       else rx_apdu_length rx = n \<and> rx_apdu_offset rx = of_nat p \<and>
            apdu = lp_type rx # take p ds @ drop (Suc p) apdu0))"

definition rx_after :: "ledger_protocol_t \<Rightarrow> u16 \<Rightarrow> u16 \<Rightarrow> nat \<Rightarrow> ledger_protocol_t" where
  "rx_after rx q n p =
     (if p = unat n
      then rx\<lparr>rx_apdu_offset := n, rx_apdu_length := n + 1, rx_apdu_sequence_number := 0,
              rx_apdu_status := APDU_STATUS_COMPLETE\<rparr>
      else rx\<lparr>rx_apdu_offset := of_nat p, rx_apdu_length := n, rx_apdu_sequence_number := q + 1,
              rx_apdu_status := APDU_STATUS_NEED_MORE_DATA\<rparr>)"

lemma process_chunk:
  assumes rx: "rx_has ds n apdu0 rx apdu q p" and c: "c = take d (drop p ds)" "p + d \<le> unat n" "d < 60000"
    and n: "unat n \<le> length ds" "n < asz" "unat asz \<le> length apdu0"
  shows "process_apdu_chunk rx (tl (tx_header q n) @ c) (of_nat (length (tl (tx_header q n) @ c))) apdu asz =
     Some (LP_SUCCESS, rx_after rx q n (p + d), lp_type rx # take (p + d) ds @ drop (Suc (p + d)) apdu0)"
proof -
  have lc: "length c = d" "length c < 60000" using c n(1) by auto
  have p: "unat (of_nat p :: u16) = p" using c(2) unat_bound16 [of n] by (intro u16_of_nat) simp
  have asz: "unat asz \<le> length apdu" "unat n < length apdu0"
    using rx n(2,3) by (auto simp: rx_has_def word_less_nat_alt)
  show ?thesis
  proof (cases "q = 0")
    case True
    then have r: "rx_apdu_sequence_number rx = 0" "p = 0" "drop 1 apdu = drop 1 apdu0" "0 < length apdu"
      using rx asz by (auto simp: rx_has_def)
    let ?h = "rx\<lparr>rx_apdu_status := APDU_STATUS_NEED_MORE_DATA, rx_apdu_length := n, rx_apdu_offset := 0\<rparr>"
    have a: "apdu[0 := lp_type rx] = lp_type rx # drop 1 apdu0"
      using r(3,4) by (cases apdu) auto
    have c0: "c = take d ds" "d \<le> unat n" using c r(2) by simp_all
    have "store_apdu_chunk ?h c (of_nat (length c)) (lp_type rx # drop 1 apdu0) asz = Some (LP_SUCCESS,
        rx_after rx q n d, lp_type rx # c @ drop d (drop 1 apdu0))"
      by (subst store_apdu_chunk_bytes) (use lc(1) c0(2) n(2) asz n(3) True r(1) in \<open>auto simp: rx_after_def\<close>)
    then have "store_apdu_chunk ?h c (of_nat (length c)) (apdu[0 := lp_type rx]) asz = Some (LP_SUCCESS,
        rx_after rx q n (p + d), lp_type rx # take (p + d) ds @ drop (Suc (p + d)) apdu0)"
      unfolding a c0(1) r(2) by simp
    moreover have b: "tl (tx_header q n) @ c = be_bytes 2 (0 :: u16) @ be_bytes 2 n @ c"
        "length (tl (tx_header q n) @ c) = 4 + length c"
      using True by (simp_all add: tx_header_def)
    ultimately show ?thesis
      unfolding b using process_first_chunk [OF r(1) n(2) asz(1) lc(2)] by metis
  next
    case False
    then have r: "rx_apdu_sequence_number rx = q" "rx_apdu_length rx = n" "rx_apdu_offset rx = of_nat p"
        "apdu = lp_type rx # take p ds @ drop (Suc p) apdu0"
      using rx by (auto simp: rx_has_def)
    have "store_apdu_chunk rx c (of_nat (length c)) apdu asz = Some (LP_SUCCESS,
        rx_after rx q n (p + d), take (1 + p) apdu @ c @ drop (1 + p + d) apdu)"
      using store_apdu_chunk_bytes [of rx c asz apdu] r(1,2,3) p lc c(2) n asz
      by (simp add: rx_after_def)
    moreover have "take (1 + p) apdu @ c @ drop (1 + p + d) apdu = lp_type rx # take (p + d) ds @ drop (Suc (p + d)) apdu0"
      using r(4) n(1) lc(1) c by (simp add: take_add add.commute [of d p])
    moreover have b: "tl (tx_header q n) @ c = be_bytes 2 q @ c" "length (tl (tx_header q n) @ c) = 2 + length c"
      using False by (simp_all add: tx_header_def)
    ultimately show ?thesis
      unfolding b using process_next_chunk [OF r(1) False lc(2)] by (metis (no_types))
  qed
qed

text \<open>One packet from the sender to the receiver.\<close>

lemma exchange_packet:
  assumes tx: "tx_begin tx buffer len = g" "tx_apdu_buffer g = Some ds" "tx_apdu_length g = n"
      "tx_apdu_offset g = of_nat p" "tx_apdu_sequence_number g = q" "p \<le> unat n" "unat n \<le> length ds"
    and rx: "rx_has ds n apdu0 rx apdu q p"
    and pb: "8 \<le> unat psz" "unat psz \<le> length pb" "length pb \<le> 2 ^ 32" "unat psz \<le> length rpb"
    and mtu: "7 \<le> mtu" "unat mtu \<le> unat psz" and asz: "n < asz" "unat asz \<le> length apdu0"
    and d_def: "d = min (unat n - p) (unat mtu - 2 - length (tx_header q n))"
    and a_def: "a = lp_type rx # take (p + d) ds @ drop (Suc (p + d)) apdu0"
  shows "\<exists>tx' pb' rpb'. length pb' = length pb \<and> length rpb' = length rpb \<and>
     transfer tx rx buffer len pb rpb psz mtu apdu asz =
       (if p + d = unat n then Some (rx_after rx q n (p + d), a)
        else transfer tx' (rx_after rx q n (p + d)) None 0 pb' rpb' psz mtu a asz) \<and>
     (p + d \<noteq> unat n \<longrightarrow> tx' = g\<lparr>tx_apdu_offset := of_nat (p + d), tx_apdu_sequence_number := q + 1,
        tx_chunk_length := tx_chunk_length tx'\<rparr>)"
proof -
  let ?hdr = "tx_header q n"
  define c where "c = take d (drop p ds)"
  have p: "unat (of_nat p :: u16) = p" using tx(6) unat_bound16 [of n] by (intro u16_of_nat) simp
  have off: "tx_apdu_offset g \<le> tx_apdu_length g" and len: "unat (tx_apdu_length g) \<le> length ds"
    using tx p by (auto simp: word_le_nat_alt)
  have hdr: "?hdr = TAG_APDU # tl ?hdr" "2 + length ?hdr \<le> unat mtu"
    using mtu(1) by (auto simp: tx_header_def word_le_nat_alt)
  have d: "p + d \<le> unat n" "d < 60000" "length c = d" "2 + length ?hdr + d < 256"
    using tx(6,7) mtu(2) unat_bound8 [of psz] hdr(2) by (auto simp: d_def c_def)
  obtain tx' pb' where tx': "LEDGER_PROTOCOL_tx tx buffer len (Some pb) psz mtu = Some (LP_SUCCESS, tx', Some pb')"
      "length pb' = length pb" "unat (tx_chunk_length tx') = 2 + length ?hdr + d"
      "take (2 + length ?hdr + d) pb' = take 2 pb @ ?hdr @ c"
      "if unat n - p = d then tx_apdu_buffer tx' = None
       else tx' = g\<lparr>tx_apdu_offset := of_nat p + of_nat d, tx_apdu_sequence_number := q + 1,
                  tx_chunk_length := tx_chunk_length tx'\<rparr>"
    using LEDGER_PROTOCOL_tx_chunk [OF tx(1,2) len off pb(1,2,3) mtu]
    unfolding tx(3,4,5) p d_def [symmetric] c_def [symmetric] by blast
  let ?body = "tl ?hdr @ c"
  have lb: "3 + length ?body = 2 + length ?hdr + d" "length ?body < 60000"
    using d by (auto simp: tx_header_def)
  have "ucast (tx_chunk_length tx') = (of_nat (3 + length ?body) :: u16)"
    using tx'(3) u16_of_nat [of "2 + length ?hdr + d"] d(4)
    by (intro word_unat_eq_iff [THEN iffD2]) (simp only: lb, simp add: unsigned_ucast_eq take_bit_nat_eq_self)
  moreover have "take (2 + length ?hdr + d) pb' = take 2 pb @ TAG_APDU # ?body"
    using tx'(4) hdr(1) by (metis append_Cons)
  moreover obtain rpb' where "length rpb' = length rpb"
      "LEDGER_PROTOCOL_rx rx (Some (take 2 pb @ TAG_APDU # ?body)) (of_nat (3 + length ?body)) (Some rpb) psz apdu asz mtu =
       map_option (\<lambda>(r, h, apdu). (r, h, Some rpb', apdu)) (process_apdu_chunk rx ?body (of_nat (length ?body)) apdu asz)"
    using rx_apdu_packet [of "take 2 pb" psz rpb ?body rx apdu asz mtu] pb lb(2) by fastforce
  moreover note process_chunk [OF rx c_def d(1,2) tx(7) asz]
  ultimately have "transfer tx rx buffer len pb rpb psz mtu apdu asz =
      (case tx_apdu_buffer tx' of
         None \<Rightarrow> Some (rx_after rx q n (p + d), a)
       | Some _ \<Rightarrow> transfer tx' (rx_after rx q n (p + d)) None 0 pb' rpb' psz mtu a asz)"
    unfolding a_def by (subst transfer.simps) (simp add: tx'(1,3))
  moreover have "tx_apdu_buffer tx' = (if p + d = unat n then None else Some ds)"
    using tx'(5) tx(2,6)
    by (cases "unat n - p = d") (auto dest: arg_cong [where f = tx_apdu_buffer])
  ultimately show ?thesis
    using tx'(2,5) \<open>length rpb' = length rpb\<close> tx(6) by (intro exI [of _ tx'] exI [of _ pb'] exI [of _ rpb']) auto
qed


lemma transfer_rest:
  assumes "tx_apdu_buffer tx = Some ds" "tx_apdu_length tx = n" "tx_apdu_offset tx = of_nat p"
      "tx_apdu_sequence_number tx = of_nat k" "rx_has ds n apdu0 rx apdu (of_nat k) p"
      "p < unat n" "0 < k" "2 * k \<le> p + 2"
    and "unat psz \<le> length pb" "length pb \<le> 2 ^ 32" "unat psz \<le> length rpb"
    and "8 \<le> unat psz" "7 \<le> mtu" "unat mtu \<le> unat psz" "unat n \<le> length ds" "n < asz" "unat asz \<le> length apdu0"
  shows "\<exists>rx'. transfer tx rx None 0 pb rpb psz mtu apdu asz =
      Some (rx', lp_type rx # take (unat n) ds @ drop (Suc (unat n)) apdu0) \<and>
    rx_apdu_status rx' = APDU_STATUS_COMPLETE \<and> rx_apdu_length rx' = n + 1 \<and> rx_apdu_sequence_number rx' = 0"
  using assms(1-11)
proof (induction "unat n - p" arbitrary: tx rx apdu k p pb rpb rule: less_induct)
  case less
  define d where "d = min (unat n - p) (unat mtu - 5)"
  define a where "a = lp_type rx # take (p + d) ds @ drop (Suc (p + d)) apdu0"
  have k: "unat (of_nat k :: u16) = k" "(of_nat k :: u16) \<noteq> 0"
    using less.prems(6,7,8) unat_bound16 [of n] u16_of_nat [of k] by auto
  have "length (tx_header (of_nat k) n) = 3" using k(2) by (simp add: length_tx_header)
  then have "d = min (unat n - p) (unat mtu - 2 - length (tx_header (of_nat k) n))"
    by (simp add: d_def)
  note d_eq = this
  have tb: "tx_begin tx None 0 = tx" by (simp add: tx_begin_def)
  obtain tx' pb' rpb' where e: "length pb' = length pb" "length rpb' = length rpb"
      "transfer tx rx None 0 pb rpb psz mtu apdu asz =
       (if p + d = unat n then Some (rx_after rx (of_nat k) n (p + d), a)
        else transfer tx' (rx_after rx (of_nat k) n (p + d)) None 0 pb' rpb' psz mtu a asz)"
     "p + d \<noteq> unat n \<longrightarrow> tx' = tx\<lparr>tx_apdu_offset := of_nat (p + d), tx_apdu_sequence_number := of_nat k + 1,
        tx_chunk_length := tx_chunk_length tx'\<rparr>"
    using exchange_packet [OF tb less.prems(1-4) less_imp_le [OF less.prems(6)] assms(15) less.prems(5) assms(12)
        less.prems(9,10,11) assms(13,14,16,17) d_eq a_def]
    by (elim exE conjE) meson
  show ?case
  proof (cases "p + d = unat n")
    case True
    then show ?thesis using e(3) by (simp add: rx_after_def a_def)
  next
    case False
    then have d: "2 \<le> d" "p + d < unat n"
      using assms(13) less.prems(6) by (auto simp: d_def word_le_nat_alt)
    let ?rx = "rx_after rx (of_nat k) n (p + d)"
    have k': "unat (of_nat (Suc k) :: u16) = Suc k"
      using d less.prems(8) unat_bound16 [of n] by (intro u16_of_nat) simp
    then have "(of_nat (Suc k) :: u16) \<noteq> 0" "of_nat k + 1 = (of_nat (Suc k) :: u16)"
      by auto
    then have h: "rx_has ds n apdu0 ?rx a (of_nat (Suc k)) (p + d)"
      using d assms(15,16,17) False
      by (auto simp: rx_has_def rx_after_def a_def word_less_nat_alt simp del: of_nat_Suc)
    have t: "tx' = tx\<lparr>tx_apdu_offset := of_nat (p + d), tx_apdu_sequence_number := of_nat k + 1,
        tx_chunk_length := tx_chunk_length tx'\<rparr>" using e(4) False by blast
    have s: "tx_apdu_buffer tx' = Some ds" "tx_apdu_length tx' = n" "tx_apdu_offset tx' = of_nat (p + d)"
        "tx_apdu_sequence_number tx' = of_nat (Suc k)"
      using less.prems(1,2) by (subst t, simp)+
    have "lp_type ?rx = lp_type rx" by (simp add: rx_after_def)
    then show ?thesis
      using less.hyps [OF _ s h, of pb' rpb'] d False e less.prems by simp
  qed
qed

section \<open>Properties\<close>

text \<open>Property C2.  Whatever packets arrive (any content, any order, any declared length within the packet),
  a receiver that started with \<open>LEDGER_PROTOCOL_init\<close> never accesses memory outside the packet, the reply buffer or the
  APDU buffer, keeps the size of the APDU buffer, and reports a complete APDU only with a length that
  fits the buffer.\<close>

theorem protocol_rx_safe:
  assumes "rx_reach type apdu0 asz h apdu" "unat asz \<le> length apdu0" "0 < asz"
    "unat len \<le> length buf" "unat psz \<le> length pb"
  shows "\<exists>r h' pb' apdu'. LEDGER_PROTOCOL_rx h (Some buf) len (Some pb) psz apdu asz mtu =
       Some (r, h', Some pb', apdu') \<and> length pb' = length pb \<and> length apdu' = length apdu0 \<and>
     (rx_apdu_status h' = APDU_STATUS_COMPLETE \<longrightarrow> 1 \<le> unat (rx_apdu_length h') \<and> rx_apdu_length h' \<le> asz)"
  using rx_reach_inv [OF assms(1,2,3)] LEDGER_PROTOCOL_rx_safe [of h asz len buf psz pb apdu mtu] assms(2-5)
  by (auto simp: rx_result_ok_def rx_complete_fits_def)

definition lp0 :: ledger_protocol_t where
  "lp0 = \<lparr>lp_type = 0, tx_apdu_buffer = None, tx_apdu_length = 0, tx_apdu_sequence_number = 0,
     tx_apdu_offset = 0, tx_chunk_length = 0, rx_apdu_status = APDU_STATUS_WAITING,
     rx_apdu_sequence_number = 0, rx_apdu_length = 0, rx_apdu_offset = 0, lp_mtu = 0, lp_mtu_negotiated = 0\<rparr>"

theorem protocol_rx_safe_witness:
  "\<exists>r h' pb' apdu'. LEDGER_PROTOCOL_rx (snd (LEDGER_PROTOCOL_init lp0 7)) (Some [1, 1, 5, 0, 0, 0, 9]) 7
       (Some (replicate 64 0)) 64 (replicate 10 0) 10 64 = Some (r, h', Some pb', apdu') \<and>
     length apdu' = length (replicate 10 (0 :: u8))"
  using protocol_rx_safe [OF rx_start [of 7 "replicate 10 0" 10 lp0], of 7 "[1, 1, 5, 0, 0, 0, 9]" 64
      "replicate 64 0" 64]
  by auto

text \<open>Property C1.  An APDU of any length up to 65534 bytes, cut into packets by \<open>LEDGER_PROTOCOL_tx\<close> for any MTU from 7 bytes up to the packet
  buffer and given packet by packet to \<open>LEDGER_PROTOCOL_rx\<close>, is reassembled: the transfer ends, the APDU buffer holds the type
  byte followed by exactly the bytes sent, its tail is untouched, and the receiver reports the
  complete length and is ready for the next APDU.\<close>

theorem protocol_roundtrip:
  assumes "length ds = unat n" "n < asz" "unat asz \<le> length apdu" "rx_apdu_sequence_number rx = 0"
    "8 \<le> unat psz" "unat psz \<le> length pb" "length pb \<le> 2 ^ 32" "unat psz \<le> length rpb"
    "7 \<le> mtu" "unat mtu \<le> unat psz"
  shows "\<exists>rx'. transfer tx rx (Some ds) n pb rpb psz mtu apdu asz =
       Some (rx', lp_type rx # ds @ drop (Suc (length ds)) apdu) \<and>
     rx_apdu_status rx' = APDU_STATUS_COMPLETE \<and> rx_apdu_length rx' = n + 1 \<and> rx_apdu_sequence_number rx' = 0"
proof -
  let ?g = "tx\<lparr>tx_apdu_buffer := Some ds, tx_apdu_length := n, tx_apdu_sequence_number := 0, tx_apdu_offset := 0\<rparr>"
  define d where "d = min (unat n - 0) (unat mtu - 2 - length (tx_header 0 n))"
  define a where "a = lp_type rx # take (0 + d) ds @ drop (Suc (0 + d)) apdu"
  have g: "tx_begin tx (Some ds) n = ?g" by (simp add: tx_begin_def)
  have r: "rx_has ds n apdu rx apdu 0 0" using assms(4) by (simp add: rx_has_def)
  have le: "unat n \<le> length ds" using assms(1) by simp
  obtain tx' pb' rpb' where e: "length pb' = length pb" "length rpb' = length rpb"
     "transfer tx rx (Some ds) n pb rpb psz mtu apdu asz =
       (if 0 + d = unat n then Some (rx_after rx 0 n (0 + d), a)
        else transfer tx' (rx_after rx 0 n (0 + d)) None 0 pb' rpb' psz mtu a asz)"
     "0 + d \<noteq> unat n \<longrightarrow> tx' = ?g\<lparr>tx_apdu_offset := of_nat (0 + d), tx_apdu_sequence_number := 0 + 1,
        tx_chunk_length := tx_chunk_length tx'\<rparr>"
    using exchange_packet [OF g _ _ _ _ _ le r assms(5-10) assms(2,3) d_def a_def]
    by simp meson
  show ?thesis
  proof (cases "d = unat n")
    case True
    then show ?thesis using e(3) assms(1) by (simp add: rx_after_def a_def)
  next
    case False
    let ?rx = "rx_after rx 0 n d"
    have d: "d < unat n" using False by (simp add: d_def)
    have h: "rx_has ds n apdu ?rx a (of_nat 1) d"
      using False d assms(1-3) by (auto simp: rx_has_def rx_after_def a_def word_less_nat_alt)
    have t: "tx' = ?g\<lparr>tx_apdu_offset := of_nat d, tx_apdu_sequence_number := 1, tx_chunk_length := tx_chunk_length tx'\<rparr>"
      using e(4) False by simp
    have s: "tx_apdu_buffer tx' = Some ds" "tx_apdu_length tx' = n" "tx_apdu_offset tx' = of_nat d"
        "tx_apdu_sequence_number tx' = of_nat 1"
      by (subst t, simp)+
    have "lp_type ?rx = lp_type rx" by (simp add: rx_after_def)
    then show ?thesis
      using transfer_rest [OF s h d, of psz pb' rpb' mtu asz] e(1,2,3) False assms by simp
  qed
qed

theorem protocol_roundtrip_witness:
  "\<exists>rx'. transfer lp0 (snd (LEDGER_PROTOCOL_init lp0 3)) (Some (replicate 100 7)) 100 (replicate 64 0) (replicate 64 0) 64 64
       (replicate 200 0) 200 =
     Some (rx', 3 # replicate 100 7 @ drop 101 (replicate 200 0)) \<and> rx_apdu_status rx' = APDU_STATUS_COMPLETE"
proof -
  have "lp_type (snd (LEDGER_PROTOCOL_init lp0 3)) = 3" by (simp add: LEDGER_PROTOCOL_init_def)
  then show ?thesis
    using protocol_roundtrip [of "replicate 100 7" 100 200 "replicate 200 0" "snd (LEDGER_PROTOCOL_init lp0 3)" 64
        "replicate 64 0" "replicate 64 0" 64 lp0]
    by (auto simp: LEDGER_PROTOCOL_init_def)
qed

text \<open>Property C3.  After a sequence error in the middle of an APDU the receiver returns to the waiting status but keeps the sequence number it
  expects: every later packet with another number, the first packet of a new APDU included, is
  acknowledged with \<open>LP_SUCCESS\<close> and dropped.\<close>

theorem protocol_sequence_error:
  assumes "rx_apdu_status h = APDU_STATUS_NEED_MORE_DATA" "rx_apdu_sequence_number h = q" "q \<noteq> k" "q \<noteq> k'"
    "length ds < 60000" "length ds' < 60000"
  shows "\<exists>h'. process_apdu_chunk h (be_bytes 2 k @ ds) (of_nat (2 + length ds)) apdu asz =
       Some (LP_ERROR_NOT_ENOUGH_SPACE, h', apdu) \<and>
     rx_apdu_status h' = APDU_STATUS_WAITING \<and>
     process_apdu_chunk h' (be_bytes 2 k' @ ds') (of_nat (2 + length ds')) apdu asz = Some (LP_SUCCESS, h', apdu)"
  using assms U2BE_be_bytes(1) [of k ds] U2BE_be_bytes(1) [of k' ds']
  by (simp add: process_apdu_chunk_def)

theorem protocol_sequence_error_witness:
  "\<exists>h'. process_apdu_chunk (lp0\<lparr>rx_apdu_status := APDU_STATUS_NEED_MORE_DATA, rx_apdu_sequence_number := 2\<rparr>)
       (be_bytes 2 (3 :: u16) @ [1]) 3 [0, 0] 2 = Some (LP_ERROR_NOT_ENOUGH_SPACE, h', [0, 0]) \<and>
     process_apdu_chunk h' (be_bytes 2 (0 :: u16) @ [0, 1, 9]) 5 [0, 0] 2 = Some (LP_SUCCESS, h', [0, 0])"
  using protocol_sequence_error [of "lp0\<lparr>rx_apdu_status := APDU_STATUS_NEED_MORE_DATA, rx_apdu_sequence_number := 2\<rparr>"
      2 3 0 "[1]" "[0, 1, 9]" "[0, 0]" 2]
  by auto

end
