(* ===== verification/U2f.thy ===== *)
theory U2f
  imports Endian
begin

text \<open>
  The U2F/CTAP HID and BLE transport of \<^verbatim>\<open>lib_u2f/src/u2f_transport.c\<close>.

  \<open>rx_message_buffer\<close> is the memory the handle points to; the declared \<open>rx_message_buffer_size\<close> is a field
  of its own.  \<open>process_packet\<close> returns the error code and the handle it leaves, and
  \<^term>\<open>None\<close> for an access outside the packet or the message buffer.
\<close>

datatype u2f_transport_type_t = U2F_TRANSPORT_TYPE_USB_HID | U2F_TRANSPORT_TYPE_BLE

text \<open>The error codes the transport returns.\<close>

datatype u2f_error_t =
    CTAP1_ERR_SUCCESS | CTAP1_ERR_INVALID_LENGTH | CTAP1_ERR_INVALID_SEQ | CTAP1_ERR_CHANNEL_BUSY
  | CTAP1_ERR_INVALID_CHANNEL | CTAP1_ERR_OTHER | CTAP2_ERR_INVALID_CBOR

definition U2F_STATE_IDLE :: u8 where "U2F_STATE_IDLE = 0x00"
definition U2F_STATE_CMD_FRAMING :: u8 where "U2F_STATE_CMD_FRAMING = 0x01"
definition U2F_STATE_CMD_COMPLETE :: u8 where "U2F_STATE_CMD_COMPLETE = 0x02"
definition U2F_STATE_CMD_PROCESSING_CANCEL :: u8 where "U2F_STATE_CMD_PROCESSING_CANCEL = 0x04"
definition U2F_COMMAND_HID_INIT :: u8 where "U2F_COMMAND_HID_INIT = 0x06"
definition U2F_COMMAND_HID_CBOR :: u8 where "U2F_COMMAND_HID_CBOR = 0x10"
definition U2F_COMMAND_HID_CANCEL :: u8 where "U2F_COMMAND_HID_CANCEL = 0x11"
definition U2F_FORBIDDEN_CID :: u32 where "U2F_FORBIDDEN_CID = 0x00000000"
definition U2F_BROADCAST_CID :: u32 where "U2F_BROADCAST_CID = 0xFFFFFFFF"

record u2f_transport_t =
  u2f_type :: u2f_transport_type_t
  u2f_cid :: u32
  u2f_state :: u8
  u2f_error :: u2f_error_t
  tx_cid :: u32
  tx_message_buffer :: "bytes option"
  tx_message_length :: u16
  tx_message_sequence_number :: u16
  tx_message_offset :: u16
  tx_packet_length :: u8
  rx_message_buffer :: bytes
  rx_message_buffer_size :: u16
  rx_message_expected_sequence_number :: u16
  rx_message_length :: u16
  rx_message_offset :: u16

section \<open>Reception\<close>

text \<open>The channel check of a USB HID packet: an error and the handle, or the handle to go on with.\<close>

definition check_cid ::
  "u2f_transport_t \<Rightarrow> bytes \<Rightarrow> u16 \<Rightarrow> (u2f_error_t option \<times> u2f_transport_t) option" where
  "check_cid h buffer len =
     (if len < 4 then Some (Some CTAP1_ERR_OTHER, h\<lparr>u2f_cid := U2F_BROADCAST_CID\<rparr>)
      else do {
        message_cid \<leftarrow> U4BE buffer 0;
        let h = h\<lparr>tx_cid := message_cid\<rparr>;
        b4 \<leftarrow> (if len \<ge> 5 then ld buffer 4 else Some 0);
        if message_cid = U2F_FORBIDDEN_CID then Some (Some CTAP1_ERR_INVALID_CHANNEL, h)
        else if message_cid = U2F_BROADCAST_CID \<and> len \<ge> 5 \<and> b4 \<noteq> (U2F_COMMAND_HID_INIT OR 0x80)
        then Some (Some CTAP1_ERR_INVALID_CHANNEL, h\<lparr>u2f_cid := message_cid\<rparr>)
        else if u2f_cid h \<noteq> U2F_FORBIDDEN_CID \<and> u2f_cid h \<noteq> message_cid
        then Some (Some CTAP1_ERR_CHANNEL_BUSY, h)
        else if u2f_state h > U2F_STATE_CMD_FRAMING \<and> len \<ge> 5 \<and> b4 \<noteq> (U2F_COMMAND_HID_CANCEL OR 0x80) \<and>
                u2f_state h \<noteq> U2F_STATE_CMD_PROCESSING_CANCEL
        then Some (Some CTAP1_ERR_CHANNEL_BUSY, h)
        else if u2f_cid h = U2F_FORBIDDEN_CID then Some (None, h\<lparr>u2f_cid := message_cid\<rparr>)
        else Some (None, h) })"

text \<open>The end of \<open>process_packet\<close>: the payload goes to the message buffer.\<close>

definition store_payload ::
  "u2f_transport_t \<Rightarrow> bytes \<Rightarrow> u16 \<Rightarrow> (u2f_error_t \<times> u2f_transport_t) option" where
  "store_payload h buffer len =
     (if rx_message_length h < rx_message_offset h then Some (CTAP1_ERR_OTHER, h)
      else do {
        let len = (if unat len > unat (rx_message_length h) - unat (rx_message_offset h)
                   then rx_message_length h - rx_message_offset h else len);
        m \<leftarrow> memcpy_n (rx_message_buffer h) (unat (rx_message_offset h)) buffer 0 (unat len);
        let h = h\<lparr>rx_message_buffer := m, rx_message_offset := rx_message_offset h + len\<rparr>;
        Some (CTAP1_ERR_SUCCESS,
              if rx_message_offset h = rx_message_length h then h\<lparr>u2f_state := U2F_STATE_CMD_COMPLETE\<rparr>
              else h) })"

definition init_packet ::
  "u2f_transport_t \<Rightarrow> bytes \<Rightarrow> u16 \<Rightarrow> (u2f_error_t \<times> u2f_transport_t) option" where
  "init_packet h buffer len =
     (if len < 3 then Some (CTAP1_ERR_OTHER, h)
      else do {
        b0 \<leftarrow> ld buffer 0;
        bcnt \<leftarrow> U2BE buffer 1;
        let h = h\<lparr>rx_message_length := bcnt + 3\<rparr>;
        if rx_message_length h > rx_message_buffer_size h then Some (CTAP1_ERR_INVALID_LENGTH, h)
        else if rx_message_length h \<le> 3 \<and> b0 = (U2F_COMMAND_HID_CBOR OR 0x80) then do {
          m \<leftarrow> st (rx_message_buffer h) 0 U2F_COMMAND_HID_CBOR;
          Some (CTAP2_ERR_INVALID_CBOR, h\<lparr>rx_message_buffer := m\<rparr>) }
        else do {
          b1 \<leftarrow> ld buffer 1;
          b2 \<leftarrow> ld buffer 2;
          m \<leftarrow> st (rx_message_buffer h) 0 (b0 AND 0x7F);
          m \<leftarrow> st m 1 b1;
          m \<leftarrow> st m 2 b2;
          store_payload
            (h\<lparr>u2f_state := U2F_STATE_CMD_FRAMING, rx_message_buffer := m, rx_message_offset := 3,
               rx_message_expected_sequence_number := 0\<rparr>)
            (drop 3 buffer) (len - 3) } })"

definition continuation_packet ::
  "u2f_transport_t \<Rightarrow> bytes \<Rightarrow> u16 \<Rightarrow> (u2f_error_t \<times> u2f_transport_t) option" where
  "continuation_packet h buffer len =
     (if u2f_state h \<noteq> U2F_STATE_CMD_FRAMING then Some (CTAP1_ERR_OTHER, h)
      else do {
        b0 \<leftarrow> ld buffer 0;
        if ucast b0 \<noteq> rx_message_expected_sequence_number h then Some (CTAP1_ERR_INVALID_SEQ, h)
        else store_payload
               (h\<lparr>rx_message_expected_sequence_number := rx_message_expected_sequence_number h + 1\<rparr>)
               (drop 1 buffer) (len - 1) })"

definition process_packet ::
  "u2f_transport_t \<Rightarrow> bytes \<Rightarrow> u16 \<Rightarrow> (u2f_error_t \<times> u2f_transport_t) option" where
  "process_packet h buffer len = do {
     (e, h, buffer, len) \<leftarrow>
       (if u2f_type h = U2F_TRANSPORT_TYPE_USB_HID then do {
          (e, h) \<leftarrow> check_cid h buffer len;
          Some (e, h, drop 4 buffer, len - 4) }
        else Some (None, h, buffer, len));
     (case e of
        Some err \<Rightarrow> Some (err, h)
      | None \<Rightarrow>
          if len < 1 then Some (CTAP1_ERR_OTHER, h)
          else do {
            b0 \<leftarrow> ld buffer 0;
            if b0 AND 0x80 \<noteq> 0 then init_packet h buffer len else continuation_packet h buffer len }) }"

definition U2F_TRANSPORT_init :: "u2f_transport_t \<Rightarrow> u2f_transport_type_t \<Rightarrow> u2f_transport_t" where
  "U2F_TRANSPORT_init h type =
     h\<lparr>u2f_state := U2F_STATE_IDLE, u2f_cid := U2F_FORBIDDEN_CID, u2f_type := type\<rparr>"

definition U2F_TRANSPORT_rx :: "u2f_transport_t \<Rightarrow> bytes option \<Rightarrow> u16 \<Rightarrow> u2f_transport_t option" where
  "U2F_TRANSPORT_rx h buffer len =
     (case buffer of
        None \<Rightarrow> Some h
      | Some buf \<Rightarrow>
          if len < 3 then Some h
          else do { (e, h) \<leftarrow> process_packet h buf len; Some (h\<lparr>u2f_error := e\<rparr>) })"

section \<open>Emission\<close>

text \<open>The end of \<open>U2F_TRANSPORT_tx\<close>: the header is written and \<open>off\<close> is \<open>tx_packet_offset\<close>.\<close>

definition u2f_fill ::
  "u2f_transport_t \<Rightarrow> bytes \<Rightarrow> u16 \<Rightarrow> u16 \<Rightarrow> (u2f_transport_t \<times> bytes) option" where
  "u2f_fill h pkt psize off = do {
     src \<leftarrow> tx_message_buffer h;
     if unat (tx_message_length h) + unat off > unat psize + unat (tx_message_offset h) then
       (if psize < off then None
        else do {
          pkt \<leftarrow> memcpy_n pkt (unat off) src (unat (tx_message_offset h)) (unat psize - unat off);
          Some (h\<lparr>tx_message_offset := tx_message_offset h + (psize - off), tx_packet_length := ucast psize\<rparr>, pkt) })
     else if tx_message_length h < tx_message_offset h then None
     else do {
       pkt \<leftarrow> memcpy_n pkt (unat off) src (unat (tx_message_offset h))
               (unat (tx_message_length h) - unat (tx_message_offset h));
       Some (h\<lparr>tx_message_offset := tx_message_length h, tx_message_buffer := None,
               u2f_cid := U2F_FORBIDDEN_CID,
               tx_packet_length := ucast (off + (tx_message_length h - tx_message_offset h))\<rparr>, pkt) } }"

definition U2F_TRANSPORT_tx ::
  "u2f_transport_t \<Rightarrow> u8 \<Rightarrow> bytes option \<Rightarrow> u16 \<Rightarrow> bytes \<Rightarrow> u16 \<Rightarrow> (u2f_transport_t \<times> bytes) option" where
  "U2F_TRANSPORT_tx h cmd buffer len pkt psize =
     (if buffer = None \<and> tx_message_buffer h = None then Some (h, pkt)
      else do {
        let h = (case buffer of
                   None \<Rightarrow> h
                 | Some b \<Rightarrow> h\<lparr>tx_message_buffer := Some b, tx_message_length := len,
                               tx_message_sequence_number := 0, tx_message_offset := 0, tx_packet_length := 0\<rparr>);
        pkt \<leftarrow> memset_n pkt 0 0 (unat psize);
        (pkt, off) \<leftarrow> (if u2f_type h = U2F_TRANSPORT_TYPE_USB_HID
                        then do { pkt \<leftarrow> U4BE_ENCODE pkt 0 (tx_cid h); Some (pkt, 4) }
                        else Some (pkt, 0));
        (h, pkt, off) \<leftarrow> (case buffer of
            Some _ \<Rightarrow> do {
              pkt \<leftarrow> st pkt (unat off) (cmd OR 0x80);
              pkt \<leftarrow> U2BE_ENCODE pkt (ucast (off + 1)) (ucast len);
              Some (h, pkt, off + 3) }
          | None \<Rightarrow> do {
              pkt \<leftarrow> st pkt (unat off) (ucast (tx_message_sequence_number h));
              Some (h\<lparr>tx_message_sequence_number := tx_message_sequence_number h + 1\<rparr>, pkt, off + 1) });
        u2f_fill h pkt psize off })"

end
