(* ===== verification/U2f_Spec.thy ===== *)
theory U2f_Spec
  imports U2f
begin

text \<open>
  The U2F/CTAP transport meets its contract: the reception stays inside its buffers as long as the
  length check is not bypassed, the frames of a message are the initialization frame followed by
  numbered continuation frames, and a receiver reassembles them.
\<close>

section \<open>Safety of the reception\<close>

definition u2f_ok :: "u2f_transport_t \<Rightarrow> bool" where
  "u2f_ok h =
     (3 \<le> unat (rx_message_buffer_size h) \<and>
      unat (rx_message_buffer_size h) \<le> length (rx_message_buffer h) \<and>
      (u2f_state h = U2F_STATE_CMD_FRAMING \<longrightarrow> rx_message_length h \<le> rx_message_buffer_size h))"

lemmas u2f_states = U2F_STATE_IDLE_def U2F_STATE_CMD_FRAMING_def U2F_STATE_CMD_COMPLETE_def

text \<open>What a step of the reception guarantees; an over-long message is the exception.\<close>

definition u2f_res_ok :: "u2f_transport_t \<Rightarrow> u2f_error_t \<times> u2f_transport_t \<Rightarrow> bool" where
  "u2f_res_ok h res =
     (case res of (e, h') \<Rightarrow>
        (e = CTAP1_ERR_INVALID_LENGTH \<and> u2f_state h = U2F_STATE_CMD_FRAMING \<or> u2f_ok h'))"

lemma store_payload_safe:
  assumes "u2f_ok h" "u2f_state h = U2F_STATE_CMD_FRAMING" "unat len \<le> length buffer"
  shows "\<exists>e h'. store_payload h buffer len = Some (e, h') \<and> u2f_ok h'"
proof (cases "rx_message_length h < rx_message_offset h")
  case True
  then show ?thesis using assms by (simp add: store_payload_def)
next
  case False
  let ?l = "if unat len > unat (rx_message_length h) - unat (rx_message_offset h)
            then rx_message_length h - rx_message_offset h else len"
  have le: "unat (rx_message_offset h) \<le> unat (rx_message_length h)"
      "unat (rx_message_length h) \<le> length (rx_message_buffer h)"
    using False assms(1,2) by (auto simp: u2f_ok_def word_le_nat_alt not_less)
  have l: "unat ?l \<le> unat (rx_message_length h) - unat (rx_message_offset h)" "unat ?l \<le> length buffer"
    using le False assms(3) by (auto simp: unat_sub_no_wrap not_less)
  obtain m where "memcpy_n (rx_message_buffer h) (unat (rx_message_offset h)) buffer 0 (unat ?l) = Some m"
      "length m = length (rx_message_buffer h)"
    using l le by (simp add: memcpy_n_in)
  then show ?thesis
    using False assms(1,2) by (auto simp: store_payload_def Let_def u2f_ok_def u2f_states)
qed

lemma U2BE_at1: "3 \<le> length p \<Longrightarrow> \<exists>v. U2BE p 1 = Some v"
  by (auto simp: U2BE_def ld_def)

lemma init_packet_safe:
  assumes "u2f_ok h" "unat len \<le> length buffer"
  shows "\<exists>res. init_packet h buffer len = Some res \<and> u2f_res_ok h res"
proof (cases "len < 3")
  case True
  then show ?thesis using assms(1) by (simp add: init_packet_def u2f_res_ok_def)
next
  case False
  then have l: "3 \<le> length buffer" "unat (len - 3) = unat len - 3"
    using assms(2) by (auto simp: word_less_nat_alt unat_sub_no_wrap not_less word_le_nat_alt)
  obtain v where v: "U2BE buffer 1 = Some v" using U2BE_at1 [OF l(1)] by blast
  have b: "ld buffer 0 = Some (buffer ! 0)" "ld buffer 1 = Some (buffer ! 1)" "ld buffer 2 = Some (buffer ! 2)"
    using l(1) by (auto simp: ld_def)
  let ?h = "h\<lparr>rx_message_length := v + 3\<rparr>"
  have ok: "3 \<le> length (rx_message_buffer h)" using assms(1) by (auto simp: u2f_ok_def)
  consider "v + 3 > rx_message_buffer_size h"
    | "\<not> v + 3 > rx_message_buffer_size h" "v + 3 \<le> 3 \<and> buffer ! 0 = (U2F_COMMAND_HID_CBOR OR 0x80)"
    | "\<not> v + 3 > rx_message_buffer_size h" "\<not> (v + 3 \<le> 3 \<and> buffer ! 0 = (U2F_COMMAND_HID_CBOR OR 0x80))" by blast
  then show ?thesis
  proof cases
    case 1
    then show ?thesis using False v b assms(1) by (auto simp: init_packet_def u2f_res_ok_def u2f_ok_def)
  next
    case 2
    have "rx_message_buffer h \<noteq> []" using ok by auto
    then show ?thesis
      using 2 False v b assms(1) by (auto simp: init_packet_def u2f_res_ok_def u2f_ok_def st_def)
  next
    case 3
    let ?m = "(rx_message_buffer h)[0 := buffer ! 0 AND 0x7F, 1 := buffer ! 1, 2 := buffer ! 2]"
    let ?g = "?h\<lparr>u2f_state := U2F_STATE_CMD_FRAMING, rx_message_buffer := ?m, rx_message_offset := 3,
               rx_message_expected_sequence_number := 0\<rparr>"
    have "\<exists>e h'. store_payload ?g (drop 3 buffer) (len - 3) = Some (e, h') \<and> u2f_ok h'"
      by (rule store_payload_safe) (use 3 assms l in \<open>auto simp: u2f_ok_def not_less\<close>)
    moreover have "st (rx_message_buffer h) 0 (buffer ! 0 AND 0x7F) = Some ((rx_message_buffer h)[0 := buffer ! 0 AND 0x7F])"
      using ok by (auto simp: st_def)
    ultimately show ?thesis
      using 3 False v b ok by (auto simp: init_packet_def u2f_res_ok_def st_in)
  qed
qed

lemma continuation_packet_safe:
  assumes "u2f_ok h" "unat len \<le> length buffer" "1 \<le> unat len"
  shows "\<exists>res. continuation_packet h buffer len = Some res \<and> u2f_res_ok h res"
proof (cases "u2f_state h = U2F_STATE_CMD_FRAMING")
  case True
  have b: "ld buffer 0 = Some (buffer ! 0)" "unat (len - 1) = unat len - 1"
    using assms(2,3) by (auto simp: ld_def unat_sub_no_wrap word_le_nat_alt)
  let ?g = "h\<lparr>rx_message_expected_sequence_number := rx_message_expected_sequence_number h + 1\<rparr>"
  have "\<exists>e h'. store_payload ?g (drop 1 buffer) (len - 1) = Some (e, h') \<and> u2f_ok h'"
    by (rule store_payload_safe) (use True assms b in \<open>auto simp: u2f_ok_def\<close>)
  then show ?thesis using True b assms(1) by (auto simp: continuation_packet_def u2f_res_ok_def)
qed (use assms(1) in \<open>simp add: continuation_packet_def u2f_res_ok_def\<close>)

lemma check_cid_safe:
  assumes "u2f_ok h" "unat len \<le> length buffer" "length buffer \<le> 2 ^ 32"
  shows "\<exists>e h'. check_cid h buffer len = Some (e, h') \<and> u2f_ok h' \<and> u2f_state h' = u2f_state h \<and>
           (e = None \<longrightarrow> 4 \<le> len)"
proof (cases "len < 4")
  case True
  then show ?thesis using assms(1) by (simp add: check_cid_def u2f_ok_def)
next
  case False
  then have "in_range buffer 0 4" using assms(2,3) by (auto simp: in_range_def word_less_nat_alt)
  then obtain c where c: "U4BE buffer 0 = Some c" using u32_be.rd_ex by (auto simp: U4BE_eq)
  have "\<exists>b4. (if len \<ge> 5 then ld buffer 4 else Some 0) = Some b4"
    using assms(2) by (auto simp: ld_def word_le_nat_alt)
  then show ?thesis
    using False c assms(1) by (auto simp: check_cid_def u2f_ok_def not_less Let_def)
qed

lemma process_packet_safe:
  assumes "u2f_ok h" "unat len \<le> length buffer" "length buffer \<le> 2 ^ 32"
  shows "\<exists>res. process_packet h buffer len = Some res \<and> u2f_res_ok h res"
proof -
  have rest: "\<exists>res. (if l < 1 then Some (CTAP1_ERR_OTHER, g)
          else do { b0 \<leftarrow> ld b 0; if b0 AND 0x80 \<noteq> 0 then init_packet g b l else continuation_packet g b l }) =
        Some res \<and> u2f_res_ok h res"
    if "u2f_ok g" "u2f_state g = u2f_state h" "unat l \<le> length b" for g b l
  proof (cases "l < 1")
    case False
    then have n: "1 \<le> unat l" by (simp add: word_less_nat_alt)
    then have "ld b 0 = Some (b ! 0)" using that(3) by (auto simp: ld_def)
    then show ?thesis
      using False init_packet_safe [OF that(1,3)] continuation_packet_safe [OF that(1,3) n] that(2)
      by (auto simp: u2f_res_ok_def)
  qed (use that in \<open>simp add: u2f_res_ok_def\<close>)
  show ?thesis
  proof (cases "u2f_type h = U2F_TRANSPORT_TYPE_USB_HID")
    case True
    obtain e g where g: "check_cid h buffer len = Some (e, g)" "u2f_ok g" "u2f_state g = u2f_state h"
        "e = None \<longrightarrow> 4 \<le> len"
      using check_cid_safe [OF assms] by blast
    show ?thesis
    proof (cases e)
      case None
      then have "unat (len - 4) \<le> length (drop 4 buffer)"
        using g(4) assms(2) by (simp add: unat_sub_no_wrap word_le_nat_alt)
      from rest [OF g(2,3) this] show ?thesis
        using True g(1) None by (simp add: process_packet_def)
    qed (use True g in \<open>auto simp: process_packet_def u2f_res_ok_def\<close>)
  next
    case False
    then show ?thesis using rest [OF assms(1) refl assms(2)] by (simp add: process_packet_def)
  qed
qed

section \<open>Frames\<close>

definition frame_cid :: "u2f_transport_t \<Rightarrow> bytes" where
  "frame_cid h = (if u2f_type h = U2F_TRANSPORT_TYPE_USB_HID then be_bytes 4 (tx_cid h) else [])"

text \<open>The continuation frames of the rest \<open>ds\<close> of a message, from number \<open>i\<close> on, \<open>Suc m\<close> bytes in each.\<close>

function cont_frames :: "bytes \<Rightarrow> nat \<Rightarrow> nat \<Rightarrow> bytes \<Rightarrow> bytes list" where
  "cont_frames cid i m ds =
     (if ds = [] then []
      else (cid @ [of_nat i] @ take (Suc m) ds) # cont_frames cid (Suc i) m (drop (Suc m) ds))"
  by pat_completeness auto
termination
  by (relation "measure (\<lambda>(cid, i, m, ds). length ds)") auto

declare cont_frames.simps [simp del]

text \<open>The handle once the arguments of the call are recorded, and the header it writes.\<close>

definition u2f_begin :: "u2f_transport_t \<Rightarrow> bytes option \<Rightarrow> u16 \<Rightarrow> u2f_transport_t" where
  "u2f_begin h buffer len =
     (case buffer of
        None \<Rightarrow> h
      | Some b \<Rightarrow> h\<lparr>tx_message_buffer := Some b, tx_message_length := len,
                    tx_message_sequence_number := 0, tx_message_offset := 0, tx_packet_length := 0\<rparr>)"

definition u2f_header :: "u2f_transport_t \<Rightarrow> u8 \<Rightarrow> bytes option \<Rightarrow> u16 \<Rightarrow> bytes" where
  "u2f_header g cmd buffer len =
     frame_cid g @ (if buffer = None then [ucast (tx_message_sequence_number g)] else (cmd OR 0x80) # be_bytes 2 len)"

definition u2f_seq :: "u2f_transport_t \<Rightarrow> bytes option \<Rightarrow> u2f_transport_t" where
  "u2f_seq g buffer =
     (if buffer = None then g\<lparr>tx_message_sequence_number := tx_message_sequence_number g + 1\<rparr> else g)"

lemma write_at:
  "i + length xs \<le> length pre + length z \<Longrightarrow> length pre = i \<Longrightarrow>
     take i (pre @ z) @ xs @ drop (i + length xs) (pre @ z) = pre @ xs @ drop (length xs) z"
  by simp

lemma u2f_prefix:
  assumes "7 \<le> n" "n \<le> length pkt" "length pkt \<le> 2 ^ 32" and hdr: "hdr = u2f_header g cmd buffer len"
  shows "\<exists>p0 p1 o1. memset_n pkt 0 0 n = Some p0 \<and>
     (if u2f_type g = U2F_TRANSPORT_TYPE_USB_HID
      then do { pkt \<leftarrow> U4BE_ENCODE p0 0 (tx_cid g); Some (pkt, 4) } else Some (p0, 0)) = Some (p1, o1) \<and>
     (case buffer of
        Some _ \<Rightarrow> do {
          pkt \<leftarrow> st p1 (unat o1) (cmd OR 0x80);
          pkt \<leftarrow> U2BE_ENCODE pkt (ucast (o1 + 1)) (ucast len);
          Some (g, pkt, o1 + 3) }
      | None \<Rightarrow> do {
          pkt \<leftarrow> st p1 (unat o1) (ucast (tx_message_sequence_number g));
          Some (g\<lparr>tx_message_sequence_number := tx_message_sequence_number g + 1\<rparr>, pkt, o1 + 1) }) =
     Some (u2f_seq g buffer, hdr @ replicate (n - length hdr) 0 @ drop n pkt, of_nat (length hdr) :: u16)"
proof -
  let ?p0 = "replicate n 0 @ drop n pkt"
  let ?c = "frame_cid g"
  let ?z = "\<lambda>k. replicate (n - k) 0 @ drop n pkt"
  have p0: "memset_n pkt 0 0 n = Some ?p0" using assms by (simp add: memset_n_in)
  have cl: "length ?c \<le> 4" by (simp add: frame_cid_def)
  have p1: "(if u2f_type g = U2F_TRANSPORT_TYPE_USB_HID
      then do { pkt \<leftarrow> U4BE_ENCODE ?p0 0 (tx_cid g); Some (pkt, 4) } else Some (?p0, 0)) =
      Some (?c @ ?z (length ?c), of_nat (length ?c) :: u16)"
    using u32_be.wr_eq [of ?p0 0 "tx_cid g"] assms(1-3)
    by (auto simp: frame_cid_def U4BE_ENCODE_eq in_range_def)
  have u: "unat (of_nat (length ?c) :: u16) = length ?c" "unat (of_nat (length ?c) + 1 :: u16) = length ?c + 1"
    by (simp_all add: frame_cid_def)
  have uc: "unat (ucast (of_nat (length ?c) + 1 :: u16) :: size_t) = length ?c + 1"
    by (simp add: frame_cid_def)
  have z: "?z k = 0 # ?z (Suc k)" if "k < n" for k
    using that by (metis Suc_diff_Suc append_Cons replicate_Suc)
  have s: "st (?c @ ?z (length ?c)) (unat (of_nat (length ?c) :: u16)) x = Some (?c @ x # ?z (Suc (length ?c)))" for x
    unfolding u z [of "length ?c"] using cl assms(1) by (subst z) (simp_all add: st_def)
  have w: "U2BE_ENCODE (?c @ (cmd OR 0x80) # ?z (Suc (length ?c))) (ucast (of_nat (length ?c) + 1 :: u16)) (ucast len) =
      Some (?c @ (cmd OR 0x80) # be_bytes 2 len @ ?z (length ?c + 3))"
    using U2BE_ENCODE_at [of "ucast (of_nat (length ?c) + 1 :: u16)" "?c @ (cmd OR 0x80) # ?z (Suc (length ?c))" len]
      cl assms(1-3) by (simp add: uc)
  show ?thesis
    using p0 p1 s w unfolding hdr by (cases buffer) (auto simp: u2f_seq_def u2f_header_def)
qed


lemma length_u2f_header: "length (u2f_header g cmd buffer len) \<le> 7"
  by (simp add: u2f_header_def frame_cid_def)

lemma u2f_fill_eq:
  assumes g: "tx_message_buffer g = Some src" "tx_message_length g = n" "tx_message_offset g = of_nat p"
      "p \<le> unat n" "unat n \<le> length src"
    and ps: "unat off \<le> unat psize" "unat psize < 256" "unat psize \<le> length pkt"
    and d: "d = min (unat n - p) (unat psize - unat off)"
  shows "\<exists>h'. u2f_fill g pkt psize off =
      Some (h', take (unat off) pkt @ take d (drop p src) @ drop (unat off + d) pkt) \<and>
     unat (tx_packet_length h') = unat off + d \<and>
     (if p + d = unat n then tx_message_buffer h' = None
      else h' = g\<lparr>tx_message_offset := of_nat (p + d), tx_packet_length := tx_packet_length h'\<rparr>)"
proof -
  have p: "unat (of_nat p :: u16) = p"
    using g(4) unat_bound16 [of n] by (simp add: unsigned_of_nat take_bit_nat_eq_self)
  have u8: "unat (ucast w :: u8) = unat w" if "unat w < 256" for w :: u16
    using that by (simp add: unsigned_ucast_eq unsigned_take_bit_eq take_bit_nat_eq_self)
  show ?thesis
  proof (cases "unat n + unat off > unat psize + p")
    case True
    then have dd: "d = unat psize - unat off" "p + d \<noteq> unat n" using ps(1) g(4) by (auto simp: d)
    have "psize - off = of_nat d"
      using dd ps(1) by (simp add: word_unat_eq_iff unat_sub_no_wrap word_le_nat_alt)
    then show ?thesis
      using True g p ps dd u8 [OF ps(2)] by (auto simp: u2f_fill_def memcpy_n_in word_less_nat_alt)
  next
    case False
    then have dd: "d = unat n - p" "p + d = unat n" using ps(1) g(4) by (auto simp: d)
    have "unat (off + (n - of_nat p)) = unat off + d"
      using dd False ps(2) g(4) p by (subst unat_add_no_wrap) (auto simp: unat_sub_no_wrap word_le_nat_alt)
    then show ?thesis
      using False g p ps dd u8 [of "off + (n - of_nat p)"]
      by (auto simp: u2f_fill_def memcpy_n_in word_less_nat_alt)
  qed
qed

text \<open>One call of \<open>U2F_TRANSPORT_tx\<close> emits the header and as much of the message as fits.\<close>

lemma U2F_TRANSPORT_tx_frame:
  assumes g: "u2f_begin h buffer len = g" "tx_message_buffer g = Some src" "tx_message_length g = n"
      "tx_message_offset g = of_nat p" "p \<le> unat n" "unat n \<le> length src"
    and ps: "7 \<le> unat psize" "unat psize < 256" "unat psize \<le> length pkt" "length pkt \<le> 2 ^ 32"
    and hdr: "hdr = u2f_header g cmd buffer len"
    and d: "d = min (unat n - p) (unat psize - length hdr)"
  shows "\<exists>h' pkt'. U2F_TRANSPORT_tx h cmd buffer len pkt psize = Some (h', pkt') \<and> length pkt' = length pkt \<and>
     take (unat (tx_packet_length h')) pkt' = hdr @ take d (drop p src) \<and>
     (if p + d = unat n then tx_message_buffer h' = None
      else h' = (u2f_seq g buffer)\<lparr>tx_message_offset := of_nat (p + d), tx_packet_length := tx_packet_length h'\<rparr>)"
proof -
  let ?p2 = "hdr @ replicate (unat psize - length hdr) 0 @ drop (unat psize) pkt"
  let ?off = "of_nat (length hdr) :: u16"
  have h7: "length hdr \<le> 7" "unat ?off = length hdr"
    using length_u2f_header [of g cmd buffer len] unfolding hdr
    by (simp_all add: unsigned_of_nat take_bit_nat_eq_self)
  have l2: "length ?p2 = length pkt" using h7(1) ps(1,3) by simp
  have g2: "tx_message_buffer (u2f_seq g buffer) = Some src" "tx_message_length (u2f_seq g buffer) = n"
      "tx_message_offset (u2f_seq g buffer) = of_nat p"
    using g by (auto simp: u2f_seq_def)
  obtain h' where h': "u2f_fill (u2f_seq g buffer) ?p2 psize ?off =
      Some (h', take (length hdr) ?p2 @ take d (drop p src) @ drop (length hdr + d) ?p2)"
     "unat (tx_packet_length h') = length hdr + d"
     "if p + d = unat n then tx_message_buffer h' = None
      else h' = (u2f_seq g buffer)\<lparr>tx_message_offset := of_nat (p + d), tx_packet_length := tx_packet_length h'\<rparr>"
    using u2f_fill_eq [OF g2 g(5,6), of ?off psize ?p2 d] h7 ps(1,2,3) l2 d by fastforce
  have nn: "\<not> (buffer = None \<and> tx_message_buffer h = None)"
    using g(1,2) by (auto simp: u2f_begin_def)
  let ?q = "take (length hdr) ?p2 @ take d (drop p src) @ drop (length hdr + d) ?p2"
  have tx: "U2F_TRANSPORT_tx h cmd buffer len pkt psize = Some (h', ?q)"
    unfolding U2F_TRANSPORT_tx_def if_not_P [OF nn] Let_def u2f_begin_def [symmetric] g(1)
    using u2f_prefix [OF ps(1,3,4) hdr] h'(1) by (elim exE conjE) simp
  have dl: "length (take d (drop p src)) = d" "length hdr + d \<le> length pkt"
    using g(5,6) d h7 ps(1,3) by auto
  have "length ?q = length pkt" using dl l2 by simp
  moreover have "take (unat (tx_packet_length h')) ?q = hdr @ take d (drop p src)"
    unfolding h'(2) using dl(1) by simp
  ultimately show ?thesis using tx h'(3) by blast
qed


section \<open>A whole message\<close>

text \<open>The packets of a message: the first call gives it, the others follow until the transport has let
  go of the buffer.\<close>

partial_function (option) u2f_send ::
  "u2f_transport_t \<Rightarrow> u8 \<Rightarrow> bytes option \<Rightarrow> u16 \<Rightarrow> bytes \<Rightarrow> u16 \<Rightarrow> bytes list option" where
  "u2f_send h cmd buffer len pkt psize = do {
     (h, pkt) \<leftarrow> U2F_TRANSPORT_tx h cmd buffer len pkt psize;
     let p = take (unat (tx_packet_length h)) pkt;
     (case tx_message_buffer h of
        None \<Rightarrow> Some [p]
      | Some _ \<Rightarrow> do { ps \<leftarrow> u2f_send h cmd None 0 pkt psize; Some (p # ps) }) }"

lemma ucast_of_nat_u16: "(ucast (of_nat i :: u16) :: u8) = of_nat i"
  by (rule bit_word_eqI) (auto simp: bit_simps)

lemma u2f_send_rest:
  assumes "tx_message_buffer h = Some src" "tx_message_length h = n" "tx_message_offset h = of_nat p"
      "p < unat n" "length src = unat n" "unat psize \<le> length pkt" "length pkt \<le> 2 ^ 32"
      "tx_message_sequence_number h = of_nat i" "frame_cid h = cid"
    and "7 \<le> unat psize" "unat psize < 256"
  shows "u2f_send h cmd None 0 pkt psize = Some (cont_frames cid i (unat psize - length cid - 2) (drop p src))"
  using assms(1-9)
proof (induction "unat n - p" arbitrary: h p pkt i rule: less_induct)
  case less
  let ?m = "unat psize - length cid - 2"
  define d where "d = min (unat n - p) (unat psize - length (u2f_header h cmd None 0))"
  have cid: "length cid \<le> 4" using less.prems(9) by (auto simp: frame_cid_def)
  have hdr: "u2f_header h cmd None 0 = cid @ [of_nat i]"
    using less.prems(8,9) by (simp add: u2f_header_def ucast_of_nat_u16)
  have dm: "d = min (unat n - p) (Suc ?m)"
    unfolding d_def hdr using cid assms(10) by auto
  have "u2f_begin h None 0 = h" by (simp add: u2f_begin_def)
  from U2F_TRANSPORT_tx_frame [OF this less.prems(1-3) less_imp_le [OF less.prems(4)] _ assms(10,11) less.prems(6,7) refl d_def]
  obtain h' pkt' where t: "U2F_TRANSPORT_tx h cmd None 0 pkt psize = Some (h', pkt')" "length pkt' = length pkt"
     "take (unat (tx_packet_length h')) pkt' = cid @ [of_nat i] @ take d (drop p src)"
     "if p + d = unat n then tx_message_buffer h' = None
      else h' = (u2f_seq h None)\<lparr>tx_message_offset := of_nat (p + d), tx_packet_length := tx_packet_length h'\<rparr>"
    using less.prems(5) hdr by auto
  have ne: "drop p src \<noteq> []" using less.prems(4,5) by simp
  show ?case
  proof (cases "p + d = unat n")
    case True
    then have "drop (Suc ?m) (drop p src) = []" "take d (drop p src) = take (Suc ?m) (drop p src)"
      using less.prems(4,5) dm by (auto simp: min_def split: if_splits)
    then show ?thesis
      using True t ne by (subst u2f_send.simps) (simp add: cont_frames.simps [of cid i] cont_frames.simps [of cid "Suc i"])
  next
    case False
    then have d: "d = Suc ?m" "p + d < unat n" using dm less.prems(4) by (auto simp: min_def split: if_splits)
    have h': "h' = (u2f_seq h None)\<lparr>tx_message_offset := of_nat (p + d), tx_packet_length := tx_packet_length h'\<rparr>"
      using t(4) False by simp
    have s: "tx_message_buffer h' = Some src" "tx_message_length h' = n" "tx_message_offset h' = of_nat (p + d)"
        "tx_message_sequence_number h' = of_nat (Suc i)"
      using less.prems(1,2,8) by (subst h', simp add: u2f_seq_def)+
    have fc: "frame_cid h' = cid"
      unfolding less.prems(9) [symmetric] by (subst h') (simp add: u2f_seq_def frame_cid_def)
    have "u2f_send h' cmd None 0 pkt' psize = Some (cont_frames cid (Suc i) ?m (drop (p + d) src))"
      by (rule less.hyps [OF _ s(1-3) d(2) less.prems(5) _ _ s(4) fc]) (use d t(2) less.prems in auto)
    then show ?thesis
      using t s(1) ne d(1) by (subst u2f_send.simps) (simp add: cont_frames.simps [of cid i] add.commute)
  qed
qed

text \<open>The frames of a message: the initialization frame and the continuation frames.\<close>

definition u2f_frames :: "bytes \<Rightarrow> u8 \<Rightarrow> nat \<Rightarrow> bytes \<Rightarrow> bytes list" where
  "u2f_frames cid cmd psize ds =
     (let n = psize - length cid - 3
      in (cid @ (cmd OR 0x80) # be_bytes 2 (of_nat (length ds) :: u16) @ take n ds) #
         cont_frames cid 0 (psize - length cid - 2) (drop n ds))"

lemma u2f_send_message:
  assumes "length src < 2 ^ 16" "7 \<le> unat psize" "unat psize < 256" "unat psize \<le> length pkt" "length pkt \<le> 2 ^ 32"
  shows "u2f_send h cmd (Some src) (of_nat (length src)) pkt psize = Some (u2f_frames (frame_cid h) cmd (unat psize) src)"
proof -
  let ?n = "of_nat (length src) :: u16"
  define g where "g = u2f_begin h (Some src) ?n"
  define hdr where "hdr = u2f_header g cmd (Some src) ?n"
  define d where "d = min (length src) (unat psize - length hdr)"
  have un: "unat ?n = length src" using assms(1) by (simp add: unsigned_of_nat take_bit_nat_eq_self)
  have fc: "frame_cid g = frame_cid h" by (simp add: g_def u2f_begin_def frame_cid_def)
  have hd: "hdr = frame_cid h @ (cmd OR 0x80) # be_bytes 2 ?n" by (simp add: hdr_def u2f_header_def fc)
  have c4: "length (frame_cid h) \<le> 4" by (simp add: frame_cid_def)
  have gs: "tx_message_buffer g = Some src" "tx_message_length g = ?n" "tx_message_offset g = of_nat 0"
      "tx_message_sequence_number g = 0"
    by (simp_all add: g_def u2f_begin_def)
  have s: "u2f_seq g (Some src) = g" by (simp add: u2f_seq_def)
  have "\<exists>h' pkt'. U2F_TRANSPORT_tx h cmd (Some src) ?n pkt psize = Some (h', pkt') \<and> length pkt' = length pkt \<and>
     take (unat (tx_packet_length h')) pkt' = hdr @ take d (drop 0 src) \<and>
     (if 0 + d = unat ?n then tx_message_buffer h' = None
      else h' = (u2f_seq g (Some src))\<lparr>tx_message_offset := of_nat (0 + d), tx_packet_length := tx_packet_length h'\<rparr>)"
    by (rule U2F_TRANSPORT_tx_frame [OF g_def [symmetric] gs(1-3) _ _ assms(2-5) hdr_def]) (simp_all add: un d_def)
  then obtain h' pkt' where t: "U2F_TRANSPORT_tx h cmd (Some src) ?n pkt psize = Some (h', pkt')"
     "length pkt' = length pkt" "take (unat (tx_packet_length h')) pkt' = hdr @ take d src"
     "if d = length src then tx_message_buffer h' = None
      else h' = g\<lparr>tx_message_offset := of_nat d, tx_packet_length := tx_packet_length h'\<rparr>"
    unfolding un s add_0 drop_0 by (elim exE conjE) (rule that)
  show ?thesis
  proof (cases "d = length src")
    case True
    then show ?thesis
      using t hd c4 by (subst u2f_send.simps) (auto simp: u2f_frames_def cont_frames.simps d_def min_def split: if_splits)
  next
    case False
    then have d: "d = unat psize - length (frame_cid h) - 3" "d < length src"
      using hd by (auto simp: d_def min_def split: if_splits)
    have h': "h' = g\<lparr>tx_message_offset := of_nat d, tx_packet_length := tx_packet_length h'\<rparr>"
      using t(4) False by simp
    have s: "tx_message_buffer h' = Some src" "tx_message_length h' = ?n" "tx_message_offset h' = of_nat d"
        "tx_message_sequence_number h' = of_nat 0"
      using gs by (subst h', simp)+
    have fc': "frame_cid h' = frame_cid h"
      unfolding fc [symmetric] by (subst h') (simp add: frame_cid_def)
    have "u2f_send h' cmd None 0 pkt' psize =
        Some (cont_frames (frame_cid h) 0 (unat psize - length (frame_cid h) - 2) (drop d src))"
      by (rule u2f_send_rest [OF s(1-3) _ _ _ _ s(4) fc' assms(2,3)]) (use d t(2) un assms in auto)
    then show ?thesis
      using t s(1) hd d(1) by (subst u2f_send.simps) (simp add: u2f_frames_def Let_def)
  qed
qed

section \<open>Reassembly\<close>

text \<open>The packets a receiver gets, one after the other, and a frame padded to at least \<open>n\<close> bytes as the
  HID driver does.\<close>

primrec u2f_rx_list :: "u2f_transport_t \<Rightarrow> bytes list \<Rightarrow> u2f_transport_t option" where
  "u2f_rx_list h [] = Some h"
| "u2f_rx_list h (p # ps) = do { h \<leftarrow> U2F_TRANSPORT_rx h (Some p) (of_nat (length p)); u2f_rx_list h ps }"

definition u2f_pad :: "nat \<Rightarrow> bytes \<Rightarrow> bytes" where
  "u2f_pad n f = f @ replicate (n - length f) 0"

text \<open>The handle holds the first \<open>k\<close> bytes of the message \<open>msg\<close>.\<close>

definition u2f_part :: "bytes \<Rightarrow> nat \<Rightarrow> u2f_transport_t \<Rightarrow> bool" where
  "u2f_part msg k h =
     (rx_message_length h = of_nat (length msg) \<and> rx_message_offset h = of_nat k \<and> k \<le> length msg \<and>
      length msg < 2 ^ 16 \<and> length msg \<le> length (rx_message_buffer h) \<and>
      take k (rx_message_buffer h) = take k msg)"

lemma u16_unat_of_nat: "p < 2 ^ 16 \<Longrightarrow> unat (of_nat p :: u16) = p"
  by (simp add: unsigned_of_nat take_bit_nat_eq_self)

lemma store_payload_part:
  assumes p: "u2f_part msg k h" and l: "length data < 2 ^ 16" and c: "c = min (length data) (length msg - k)"
    and d: "take c data = take c (drop k msg)"
  shows "\<exists>m. store_payload h data (of_nat (length data)) = Some (CTAP1_ERR_SUCCESS,
      h\<lparr>rx_message_buffer := m, rx_message_offset := of_nat (k + c),
        u2f_state := if k + c = length msg then U2F_STATE_CMD_COMPLETE else u2f_state h\<rparr>) \<and>
      length m = length (rx_message_buffer h) \<and> take (k + c) m = take (k + c) msg"
proof -
  let ?b = "rx_message_buffer h" and ?n = "length msg"
  have u: "unat (rx_message_length h) = ?n" "unat (rx_message_offset h) = k" "k \<le> ?n" "?n \<le> length ?b" "?n < 2 ^ 16"
    using p by (auto simp: u2f_part_def u16_unat_of_nat)
  have ud: "unat (of_nat (length data) :: u16) = length data" by (rule u16_unat_of_nat [OF l])
  have le: "rx_message_offset h \<le> rx_message_length h" using u by (simp add: word_le_nat_alt)
  let ?l = "if unat (of_nat (length data) :: u16) > unat (rx_message_length h) - unat (rx_message_offset h)
            then rx_message_length h - rx_message_offset h else of_nat (length data)"
  have ul: "?l = of_nat c"
    using u le ud c by (auto simp: word_unat_eq_iff unat_sub_no_wrap u16_unat_of_nat)
  have uc: "unat (of_nat c :: u16) = c" using c u by (intro u16_unat_of_nat) auto
  let ?m = "take k ?b @ take c data @ drop (k + c) ?b"
  have m: "memcpy_n ?b k data 0 c = Some ?m" using c u by (simp add: memcpy_n_in)
  have off: "rx_message_offset h + of_nat c = of_nat (k + c)" using p by (simp add: u2f_part_def)
  have kc: "k + c \<le> ?n" using c u by auto
  have eq: "(of_nat (k + c) :: u16) = rx_message_length h \<longleftrightarrow> k + c = ?n"
    using u kc by (metis u16_unat_of_nat le_less_trans p u2f_part_def)
  have lc: "length (take k ?b) = k" "length (take c data) = c" using u c by auto
  have t: "take (k + c) ?m = take k ?b @ take c data" using lc by simp
  have "take k ?b = take k msg" using p by (simp add: u2f_part_def)
  then have "take k ?b @ take c data = take (k + c) msg" by (simp only: d take_add)
  then have t2: "take (k + c) ?m = take (k + c) msg" by (simp only: t)
  have "length ?m = length ?b" using c u by auto
  moreover have "store_payload h data (of_nat (length data)) = Some (CTAP1_ERR_SUCCESS,
      h\<lparr>rx_message_buffer := ?m, rx_message_offset := of_nat (k + c),
        u2f_state := if k + c = ?n then U2F_STATE_CMD_COMPLETE else u2f_state h\<rparr>)"
    unfolding store_payload_def Let_def ul unfolding uc u(2) using m le eq off by (simp add: not_less)
  ultimately show ?thesis using t2 by blast
qed

definition u2f_cid_bytes :: "u2f_transport_type_t \<Rightarrow> u32 \<Rightarrow> bytes" where
  "u2f_cid_bytes type cid = (if type = U2F_TRANSPORT_TYPE_USB_HID then be_bytes 4 cid else [])"

definition u2f_open :: "u2f_transport_t \<Rightarrow> u32 \<Rightarrow> u2f_transport_t" where
  "u2f_open h cid = (if u2f_type h = U2F_TRANSPORT_TYPE_USB_HID then h\<lparr>tx_cid := cid, u2f_cid := cid\<rparr> else h)"

text \<open>The channel is free or ours, and no request is being processed.\<close>

definition u2f_listens :: "u2f_transport_t \<Rightarrow> u32 \<Rightarrow> bool" where
  "u2f_listens h cid =
     (cid \<noteq> U2F_FORBIDDEN_CID \<and> cid \<noteq> U2F_BROADCAST_CID \<and>
      (u2f_cid h = U2F_FORBIDDEN_CID \<or> u2f_cid h = cid) \<and>
      (u2f_state h \<le> U2F_STATE_CMD_FRAMING \<or> u2f_state h = U2F_STATE_CMD_PROCESSING_CANCEL))"

lemma U4BE_be_bytes: "length r < 2 ^ 16 \<Longrightarrow> U4BE (be_bytes 4 c @ r) 0 = Some c"
  unfolding U4BE_eq by (rule u32_be.rd_of_enc) (simp_all add: in_range_def)

lemma process_packet_body:
  assumes "u2f_type h = U2F_TRANSPORT_TYPE_USB_HID \<longrightarrow> u2f_listens h cid" "body \<noteq> []"
    and "length (u2f_cid_bytes (u2f_type h) cid @ body) < 2 ^ 16"
  shows "process_packet h (u2f_cid_bytes (u2f_type h) cid @ body) (of_nat (length (u2f_cid_bytes (u2f_type h) cid @ body))) =
     (if hd body AND 0x80 \<noteq> 0 then init_packet (u2f_open h cid) body (of_nat (length body))
      else continuation_packet (u2f_open h cid) body (of_nat (length body)))"
proof (cases "u2f_type h = U2F_TRANSPORT_TYPE_USB_HID")
  case True
  let ?b = "be_bytes 4 cid @ body" and ?n = "of_nat (4 + length body) :: u16"
  have lt: "4 + length body < 2 ^ 16" using assms(3) True by (simp add: u2f_cid_bytes_def)
  have lb: "length body < 2 ^ 16" using lt by simp
  have n: "unat ?n = 4 + length body" by (rule u16_unat_of_nat [OF lt])
  have n4: "\<not> ?n < 4" "?n - 4 = of_nat (length body)" using n by (simp_all add: word_less_nat_alt)
  have b4: "ld ?b 4 = Some (hd body)" using assms(2) by (simp add: ld_def nth_append hd_conv_nth)
  have "check_cid h ?b ?n = Some (None, u2f_open h cid)"
    unfolding check_cid_def if_not_P [OF n4(1)] U4BE_be_bytes [OF lb]
    using assms(1) True b4 by (auto simp: u2f_listens_def u2f_open_def U2F_STATE_CMD_FRAMING_def not_less Let_def)
  moreover have "(of_nat (length body) :: u16) \<noteq> 0"
    using assms(2) u16_unat_of_nat [OF lb] by auto
  ultimately show ?thesis
    using True assms(2) n4(2) by (simp add: process_packet_def u2f_cid_bytes_def ld_def hd_conv_nth word_less_1)
next
  case False
  have "(of_nat (length body) :: u16) \<noteq> 0"
    using assms(2,3) u16_unat_of_nat [of "length body"] False by (auto simp: u2f_cid_bytes_def)
  then show ?thesis
    using False assms(2) by (simp add: process_packet_def u2f_cid_bytes_def u2f_open_def ld_def hd_conv_nth word_less_1)
qed

lemma cmd_bits: "(cmd OR 0x80) AND 0x7F = (cmd AND 0x7F :: u8)" "((cmd :: u8) OR 0x80) AND 0x80 \<noteq> 0"
proof -
  show "(cmd OR 0x80) AND 0x7F = (cmd AND 0x7F :: u8)"
    by (rule bit_word_eqI) (auto simp: bit_simps bit_numeral_rec split: nat.splits)
  have "bit ((cmd OR 0x80) AND 0x80 :: u8) 7" by (simp add: bit_simps)
  then show "((cmd :: u8) OR 0x80) AND 0x80 \<noteq> 0" by (metis bit_0_eq bot_apply bot_bool_def)
qed

lemma seq_bit: "i < 128 \<Longrightarrow> (of_nat i :: u8) AND 0x80 = 0"
proof (rule bit_word_eqI)
  fix n assume "i < 128" "n < LENGTH(8)"
  then have "\<not> bit i 7" by (simp add: bit_iff_odd)
  moreover have "(0x80 :: u8) = push_bit 7 1" by simp
  ultimately show "bit ((of_nat i :: u8) AND 0x80) n = bit (0 :: u8) n"
    by (simp only: bit_and_iff bit_push_bit_iff bit_1_iff) (cases "n = 7"; auto simp: bit_simps)
qed

text \<open>The message as the receiver stores it.\<close>

definition u2f_message :: "u8 \<Rightarrow> bytes \<Rightarrow> bytes" where
  "u2f_message cmd ds = (cmd AND 0x7F) # be_bytes 2 (of_nat (length ds) :: u16) @ ds"

lemma length_u2f_message [simp]: "length (u2f_message cmd ds) = 3 + length ds"
  by (simp add: u2f_message_def)

lemma three_cells: "3 \<le> length xs \<Longrightarrow> \<exists>a b c ys. xs = a # b # c # ys"
  by (auto simp: numeral_eq_Suc Suc_le_length_iff)

lemma init_packet_part:
  assumes msg: "msg = u2f_message cmd ds" and n: "length msg \<le> unat (rx_message_buffer_size h)"
    and b: "unat (rx_message_buffer_size h) \<le> length (rx_message_buffer h)"
    and ne: "ds = [] \<longrightarrow> cmd OR 0x80 \<noteq> U2F_COMMAND_HID_CBOR OR 0x80"
    and l: "3 + length data < 2 ^ 16" and c: "c = min (length data) (length ds)" and d: "take c data = take c ds"
  shows "\<exists>m. init_packet h ((cmd OR 0x80) # be_bytes 2 (of_nat (length ds) :: u16) @ data) (of_nat (3 + length data)) =
     Some (CTAP1_ERR_SUCCESS,
       h\<lparr>rx_message_length := of_nat (length msg), rx_message_expected_sequence_number := 0,
         rx_message_buffer := m, rx_message_offset := of_nat (3 + c),
         u2f_state := if 3 + c = length msg then U2F_STATE_CMD_COMPLETE else U2F_STATE_CMD_FRAMING\<rparr>) \<and>
     length m = length (rx_message_buffer h) \<and> take (3 + c) m = take (3 + c) msg"
proof -
  let ?N = "of_nat (length ds) :: u16"
  let ?p = "(cmd OR 0x80) # be_bytes 2 ?N @ data"
  let ?b = "rx_message_buffer h"
  have lm: "length msg = 3 + length ds" "3 + length ds < 2 ^ 16"
    using n unat_bound16 [of "rx_message_buffer_size h"] by (simp_all add: msg)
  have u: "unat (of_nat (3 + length data) :: u16) = 3 + length data" by (rule u16_unat_of_nat [OF l])
  have l3: "\<not> of_nat (3 + length data) < (3 :: u16)" "of_nat (3 + length data) - 3 = (of_nat (length data) :: u16)"
    using u by (simp_all add: word_less_nat_alt)
  have rl: "?N + 3 = of_nat (length msg)" by (simp add: lm)
  have ul: "unat (of_nat (length msg) :: u16) = 3 + length ds" using lm by (metis u16_unat_of_nat)
  have fit: "\<not> of_nat (length msg) > rx_message_buffer_size h" using ul n lm by (simp add: word_less_nat_alt)
  have u1: "U2BE ?p 1 = Some ?N"
    unfolding U2BE_eq by (rule u16_be.rd_tagged) (use l in simp)
  obtain x y where xy: "be_bytes 2 ?N = [x, y]" by (simp add: be_bytes2)
  let ?g = "h\<lparr>rx_message_length := of_nat (length msg), u2f_state := U2F_STATE_CMD_FRAMING,
      rx_message_buffer := ?b[0 := cmd AND 0x7F, 1 := x, 2 := y], rx_message_offset := 3,
      rx_message_expected_sequence_number := 0\<rparr>"
  have lb: "3 \<le> length ?b" using n b lm by linarith
  obtain b0 b1 b2 bs where bs: "?b = b0 # b1 # b2 # bs"
    using three_cells [OF lb] by (elim exE) (rule that)
  have t3: "take 3 (?b[0 := cmd AND 0x7F, 1 := x, 2 := y]) = take 3 msg"
    unfolding msg u2f_message_def xy by (simp add: bs numeral_2_eq_2 numeral_3_eq_3)
  have "u2f_part msg 3 ?g"
    using lm n b t3 by (simp add: u2f_part_def)
  then obtain m where m: "store_payload ?g data (of_nat (length data)) = Some (CTAP1_ERR_SUCCESS,
      ?g\<lparr>rx_message_buffer := m, rx_message_offset := of_nat (3 + c),
        u2f_state := if 3 + c = length msg then U2F_STATE_CMD_COMPLETE else u2f_state ?g\<rparr>)"
      "length m = length ?b" "take (3 + c) m = take (3 + c) msg"
    using store_payload_part [of msg 3 ?g data c] l c d lm
    by (auto simp: msg u2f_message_def)
  have nc: "\<not> (of_nat (length msg) \<le> (3 :: u16) \<and> (cmd OR 0x80) = (U2F_COMMAND_HID_CBOR OR 0x80))"
    using ne ul by (auto simp: word_le_nat_alt)
  have "init_packet h ?p (of_nat (3 + length data)) = store_payload ?g data (of_nat (length data))"
    unfolding init_packet_def if_not_P [OF l3(1)] u1 unfolding xy Let_def l3(2)
    using nc fit rl by (auto simp: ld_def st_def bs xy cmd_bits numeral_2_eq_2 numeral_3_eq_3)
  then show ?thesis using m by (intro exI [of _ m]) simp
qed

lemma continuation_packet_part:
  assumes p: "u2f_part msg k h" and s: "u2f_state h = U2F_STATE_CMD_FRAMING"
    and i: "rx_message_expected_sequence_number h = of_nat i" "i < 128"
    and l: "Suc (length data) < 2 ^ 16" and c: "c = min (length data) (length msg - k)"
    and d: "take c data = take c (drop k msg)"
  shows "\<exists>m. continuation_packet h (of_nat i # data) (of_nat (Suc (length data))) =
     Some (CTAP1_ERR_SUCCESS,
       h\<lparr>rx_message_expected_sequence_number := of_nat (Suc i),
         rx_message_buffer := m, rx_message_offset := of_nat (k + c),
         u2f_state := if k + c = length msg then U2F_STATE_CMD_COMPLETE else U2F_STATE_CMD_FRAMING\<rparr>) \<and>
     length m = length (rx_message_buffer h) \<and> take (k + c) m = take (k + c) msg"
proof -
  let ?g = "h\<lparr>rx_message_expected_sequence_number := of_nat (Suc i)\<rparr>"
  have "u2f_part msg k ?g" using p by (simp add: u2f_part_def)
  from store_payload_part [OF this _ c d] l
  obtain m where m: "store_payload ?g data (of_nat (length data)) = Some (CTAP1_ERR_SUCCESS,
      ?g\<lparr>rx_message_buffer := m, rx_message_offset := of_nat (k + c),
        u2f_state := if k + c = length msg then U2F_STATE_CMD_COMPLETE else u2f_state ?g\<rparr>)"
      "length m = length (rx_message_buffer h)" "take (k + c) m = take (k + c) msg"
    by auto
  have "(ucast (of_nat i :: u8) :: u16) = of_nat i"
    using i(2) by (simp add: word_unat_eq_iff unsigned_ucast_eq unsigned_of_nat take_bit_nat_eq_self)
  then have "continuation_packet h (of_nat i # data) (of_nat (Suc (length data))) = store_payload ?g data (of_nat (length data))"
    using s i(1) by (simp add: continuation_packet_def ld_def add.commute)
  then show ?thesis using m s by (intro exI [of _ m]) simp
qed

text \<open>What padding adds to a frame is beyond the end of the message.\<close>

lemma u2f_pad_data:
  assumes "q \<le> length hdr + n"
  shows "\<exists>data. u2f_pad q (hdr @ take n ds) = hdr @ data \<and> length data \<le> n \<and>
     min (length data) (length ds) = min n (length ds) \<and> take (min n (length ds)) data = take (min n (length ds)) ds \<and>
     q \<le> length hdr + length data"
proof -
  let ?data = "take n ds @ replicate (q - length hdr - min n (length ds)) 0"
  have "u2f_pad q (hdr @ take n ds) = hdr @ ?data"
    by (simp add: u2f_pad_def min.commute)
  moreover have "length ?data \<le> n" "min (length ?data) (length ds) = min n (length ds)" 
      "q \<le> length hdr + length ?data"
    using assms by (auto simp: min_def)
  moreover have "take (min n (length ds)) ?data = take (min n (length ds)) ds"
    by (simp add: min_def)
  ultimately show ?thesis by blast
qed

lemma rx_process:
  assumes "3 \<le> length p" "length p < 2 ^ 16"
  shows "U2F_TRANSPORT_rx h (Some p) (of_nat (length p)) =
     do { (e, h) \<leftarrow> process_packet h p (of_nat (length p)); Some (h\<lparr>u2f_error := e\<rparr>) }"
  using assms u16_unat_of_nat [OF assms(2)] by (simp add: U2F_TRANSPORT_rx_def word_less_nat_alt)

lemma u2f_part_state [simp]:
  "u2f_part msg k (h\<lparr>u2f_error := e\<rparr>) = u2f_part msg k h"
  by (simp add: u2f_part_def)

text \<open>A complete message.\<close>

definition u2f_complete :: "bytes \<Rightarrow> u2f_transport_t \<Rightarrow> bool" where
  "u2f_complete msg h =
     (u2f_state h = U2F_STATE_CMD_COMPLETE \<and> u2f_error h = CTAP1_ERR_SUCCESS \<and> u2f_part msg (length msg) h)"

text \<open>A receiver in the middle of \<open>msg\<close>, expecting the continuation frame \<open>i\<close> of channel \<open>cid\<close>.\<close>

definition u2f_middle :: "u32 \<Rightarrow> bytes \<Rightarrow> nat \<Rightarrow> nat \<Rightarrow> u2f_transport_t \<Rightarrow> bool" where
  "u2f_middle cid msg k i h =
     (u2f_part msg k h \<and> u2f_state h = U2F_STATE_CMD_FRAMING \<and>
      rx_message_expected_sequence_number h = of_nat i \<and>
      (u2f_type h = U2F_TRANSPORT_TYPE_USB_HID \<longrightarrow> u2f_listens h cid))"

lemma rx_continuation:
  assumes h: "u2f_middle cid msg k i h" "i < 128" "k < length msg"
    and q: "q \<le> length (u2f_cid_bytes (u2f_type h) cid) + m + 2" "q < 60000" "m < 60000"
      "u2f_type h = U2F_TRANSPORT_TYPE_USB_HID \<or> 3 \<le> q"
    and c: "c = min (Suc m) (length msg - k)"
  shows "\<exists>h'. (let p = u2f_pad q (u2f_cid_bytes (u2f_type h) cid @ [of_nat i] @ take (Suc m) (drop k msg))
      in U2F_TRANSPORT_rx h (Some p) (of_nat (length p))) = Some h' \<and> u2f_type h' = u2f_type h \<and>
      (if k + c = length msg then u2f_complete msg h' else u2f_middle cid msg (k + c) (Suc i) h')"
proof -
  let ?c = "u2f_cid_bytes (u2f_type h) cid"
  have l4: "length ?c \<le> 4" "u2f_type h = U2F_TRANSPORT_TYPE_USB_HID \<Longrightarrow> length ?c = 4"
    by (auto simp: u2f_cid_bytes_def)
  obtain data where d: "u2f_pad q ((?c @ [of_nat i]) @ take (Suc m) (drop k msg)) = (?c @ [of_nat i]) @ data"
      "length data \<le> Suc m" "min (length data) (length msg - k) = c" "take c data = take c (drop k msg)"
      "q \<le> length ?c + 1 + length data"
    using u2f_pad_data [of q "?c @ [of_nat i]" "Suc m" "drop k msg"] q(1) unfolding c by auto
  have nn: "data \<noteq> []" using d(3) c h(3) by auto
  let ?p = "?c @ of_nat i # data"
  have lp: "3 \<le> length ?p" "length ?p < 2 ^ 16"
    using q d(2,5) l4 nn by (auto simp: Suc_le_eq)
  have p: "u2f_part msg k (u2f_open h cid)" "u2f_state (u2f_open h cid) = U2F_STATE_CMD_FRAMING"
      "rx_message_expected_sequence_number (u2f_open h cid) = of_nat i"
    using h(1) by (auto simp: u2f_middle_def u2f_open_def u2f_part_def)
  obtain b where b: "continuation_packet (u2f_open h cid) (of_nat i # data) (of_nat (Suc (length data))) =
     Some (CTAP1_ERR_SUCCESS,
       (u2f_open h cid)\<lparr>rx_message_expected_sequence_number := of_nat (Suc i),
         rx_message_buffer := b, rx_message_offset := of_nat (k + c),
         u2f_state := if k + c = length msg then U2F_STATE_CMD_COMPLETE else U2F_STATE_CMD_FRAMING\<rparr>)"
     "length b = length (rx_message_buffer (u2f_open h cid))" "take (k + c) b = take (k + c) msg"
    using continuation_packet_part [OF p h(2) _ _ d(4)] d(2,3) q(3) by fastforce
  have "process_packet h ?p (of_nat (length ?p)) =
      continuation_packet (u2f_open h cid) (of_nat i # data) (of_nat (Suc (length data)))"
    using process_packet_body [of h cid "of_nat i # data"] h(1,2) lp(2) by (simp add: u2f_middle_def seq_bit)
  moreover have "u2f_type (u2f_open h cid) = u2f_type h" by (simp add: u2f_open_def)
  moreover have "u2f_type h = U2F_TRANSPORT_TYPE_USB_HID \<Longrightarrow> u2f_cid (u2f_open h cid) = cid" by (simp add: u2f_open_def)
  moreover have "k + c \<le> length msg" using c h(3) by simp
  moreover have "k + c = length msg \<Longrightarrow> of_nat k + of_nat c = (of_nat (length msg) :: u16)" by (metis of_nat_add)
  ultimately show ?thesis
    using rx_process [OF lp, of h] b d(1) p(1) h(1)
    by (auto simp: u2f_complete_def u2f_middle_def u2f_part_def u2f_listens_def)
qed

lemma rx_cont_frames:
  assumes "m < 60000" "q < 60000"
  shows "u2f_middle cid msg k i h \<Longrightarrow> k < length msg \<Longrightarrow> length msg - k \<le> (128 - i) * Suc m \<Longrightarrow>
     q \<le> length (u2f_cid_bytes (u2f_type h) cid) + m + 2 \<Longrightarrow> u2f_type h = U2F_TRANSPORT_TYPE_USB_HID \<or> 3 \<le> q \<Longrightarrow>
     \<exists>h'. u2f_rx_list h (map (u2f_pad q) (cont_frames (u2f_cid_bytes (u2f_type h) cid) i m (drop k msg))) = Some h' \<and>
       u2f_complete msg h'"
proof (induction "length msg - k" arbitrary: k i h rule: less_induct)
  case less
  define c where "c = min (Suc m) (length msg - k)"
  have i: "i < 128" using less.prems(2,3) by (cases "i < 128") auto
  have ne: "drop k msg \<noteq> []" using less.prems(2) by simp
  obtain h' where h': "(let p = u2f_pad q (u2f_cid_bytes (u2f_type h) cid @ [of_nat i] @ take (Suc m) (drop k msg))
      in U2F_TRANSPORT_rx h (Some p) (of_nat (length p))) = Some h'" "u2f_type h' = u2f_type h"
      "if k + c = length msg then u2f_complete msg h' else u2f_middle cid msg (k + c) (Suc i) h'"
    using rx_continuation [OF less.prems(1) i less.prems(2,4) assms(2,1) less.prems(5) c_def] by blast
  show ?case
  proof (cases "k + c = length msg")
    case True
    then have "drop (Suc m) (drop k msg) = []" by (auto simp: c_def)
    then show ?thesis
      using True h' ne by (subst cont_frames.simps) (simp add: cont_frames.simps [of _ "Suc i"] Let_def)
  next
    case False
    then have c: "c = Suc m" "k + c < length msg" using less.prems(2) by (auto simp: c_def min_def split: if_splits)
    have "length msg - (k + c) \<le> (128 - Suc i) * Suc m"
      using less.prems(3) c(1) i by (simp add: diff_mult_distrib)
    from less.hyps [OF _ _ c(2) this, of h'] show ?thesis
      using False c h' ne less.prems(4,5) by (subst cont_frames.simps) (simp add: Let_def add.commute)
  qed
qed

lemma rx_init:
  assumes msg: "msg = u2f_message cmd ds" and n: "length msg \<le> unat (rx_message_buffer_size h)"
    and b: "unat (rx_message_buffer_size h) \<le> length (rx_message_buffer h)"
    and ne: "ds = [] \<longrightarrow> cmd OR 0x80 \<noteq> U2F_COMMAND_HID_CBOR OR 0x80"
    and l: "u2f_type h = U2F_TRANSPORT_TYPE_USB_HID \<longrightarrow> u2f_listens h cid"
    and q: "q \<le> length (u2f_cid_bytes (u2f_type h) cid) + m + 3" "m < 60000"
    and c: "c = min m (length ds)"
  shows "\<exists>h'. (let p = u2f_pad q (u2f_cid_bytes (u2f_type h) cid @
        (cmd OR 0x80) # be_bytes 2 (of_nat (length ds) :: u16) @ take m ds)
      in U2F_TRANSPORT_rx h (Some p) (of_nat (length p))) = Some h' \<and> u2f_type h' = u2f_type h \<and>
      (if c = length ds then u2f_complete msg h' else u2f_middle cid msg (3 + c) 0 h')"
proof -
  let ?c = "u2f_cid_bytes (u2f_type h) cid" and ?N = "of_nat (length ds) :: u16" and ?g = "u2f_open h cid"
  have l4: "length ?c \<le> 4" by (auto simp: u2f_cid_bytes_def)
  obtain data where d: "u2f_pad q ((?c @ (cmd OR 0x80) # be_bytes 2 ?N) @ take m ds) = (?c @ (cmd OR 0x80) # be_bytes 2 ?N) @ data"
      "length data \<le> m" "min (length data) (length ds) = c" "take c data = take c ds"
    using u2f_pad_data [of q "?c @ (cmd OR 0x80) # be_bytes 2 ?N" m ds] q(1) unfolding c by auto
  let ?p = "?c @ (cmd OR 0x80) # be_bytes 2 ?N @ data"
  have lp: "3 \<le> length ?p" "length ?p < 2 ^ 16" using q d(2) l4 by auto
  have g: "rx_message_buffer_size ?g = rx_message_buffer_size h" "rx_message_buffer ?g = rx_message_buffer h"
      "u2f_type ?g = u2f_type h" "u2f_type h = U2F_TRANSPORT_TYPE_USB_HID \<Longrightarrow> u2f_cid ?g = cid"
    by (simp_all add: u2f_open_def)
  obtain m' where i: "init_packet ?g ((cmd OR 0x80) # be_bytes 2 ?N @ data) (of_nat (3 + length data)) =
     Some (CTAP1_ERR_SUCCESS,
       ?g\<lparr>rx_message_length := of_nat (length msg), rx_message_expected_sequence_number := 0,
         rx_message_buffer := m', rx_message_offset := of_nat (3 + c),
         u2f_state := if 3 + c = length msg then U2F_STATE_CMD_COMPLETE else U2F_STATE_CMD_FRAMING\<rparr>)"
     "length m' = length (rx_message_buffer h)" "take (3 + c) m' = take (3 + c) msg"
    using init_packet_part [of msg cmd ds ?g data c] msg n b ne d(2-4) q(2) unfolding g by fastforce
  let ?body = "(cmd OR 0x80) # be_bytes 2 ?N @ data"
  have hb: "hd ?body AND 0x80 \<noteq> 0" unfolding list.sel by (rule cmd_bits(2))
  have "length ?body = 3 + length data" by simp
  then have "process_packet h ?p (of_nat (length ?p)) = init_packet ?g ?body (of_nat (3 + length data))"
    using process_packet_body [OF l, of ?body] lp(2) unfolding if_P [OF hb] by simp
  moreover have lm: "length msg = 3 + length ds" by (simp add: msg)
  moreover have "length msg < 2 ^ 16" using n unat_bound16 [of "rx_message_buffer_size h"] by simp
  moreover have "c \<le> length ds" using c by simp
  ultimately show ?thesis
    using rx_process [OF lp, of h] i d(1) l g n b
    by (auto simp: u2f_complete_def u2f_middle_def u2f_part_def u2f_listens_def)
qed

lemma frame_cid_bytes: "frame_cid h = u2f_cid_bytes (u2f_type h) (tx_cid h)"
  by (simp add: frame_cid_def u2f_cid_bytes_def)

section \<open>The transport as a state machine\<close>

text \<open>The states a handle goes through: the application initialises it over a buffer of its own, gives
  it packets of any content, sends answers, and moves it to any state but the framing one (it sets the
  processing and idle states itself).  The packets that announce a message longer than the buffer are
  excluded while a message is being received.\<close>

inductive u2f_reach :: "u2f_transport_t \<Rightarrow> bool" where
  init: "3 \<le> unat (rx_message_buffer_size h) \<Longrightarrow> unat (rx_message_buffer_size h) \<le> length (rx_message_buffer h) \<Longrightarrow>
    u2f_reach (U2F_TRANSPORT_init h type)"
| rx: "u2f_reach h \<Longrightarrow> unat len \<le> length p \<Longrightarrow> length p \<le> 2 ^ 32 \<Longrightarrow> U2F_TRANSPORT_rx h (Some p) len = Some h' \<Longrightarrow>
    u2f_state h \<noteq> U2F_STATE_CMD_FRAMING \<or> u2f_error h' \<noteq> CTAP1_ERR_INVALID_LENGTH \<Longrightarrow> u2f_reach h'"
| tx: "u2f_reach h \<Longrightarrow> U2F_TRANSPORT_tx h cmd buffer len pkt psize = Some (h', pkt') \<Longrightarrow> u2f_reach h'"
| app: "u2f_reach h \<Longrightarrow> s \<noteq> U2F_STATE_CMD_FRAMING \<Longrightarrow> u2f_reach (h\<lparr>u2f_state := s, u2f_cid := c\<rparr>)"

lemma U2F_TRANSPORT_rx_ok:
  assumes "u2f_ok h" "unat len \<le> length p" "length p \<le> 2 ^ 32"
  shows "\<exists>h'. U2F_TRANSPORT_rx h (Some p) len = Some h' \<and>
     (u2f_state h = U2F_STATE_CMD_FRAMING \<and> u2f_error h' = CTAP1_ERR_INVALID_LENGTH \<or> u2f_ok h')"
proof (cases "len < 3")
  case False
  obtain e g where "process_packet h p len = Some (e, g)" "u2f_res_ok h (e, g)"
    using process_packet_safe [OF assms] by (metis prod.exhaust)
  then show ?thesis
    using False by (auto simp: U2F_TRANSPORT_rx_def u2f_res_ok_def u2f_ok_def)
qed (use assms in \<open>simp add: U2F_TRANSPORT_rx_def\<close>)

lemma u2f_fill_ok: "u2f_fill h pkt psize off = Some (h', pkt') \<Longrightarrow> u2f_ok h' = u2f_ok h"
  by (auto simp: u2f_fill_def u2f_ok_def split: bind_splits if_splits)

lemma U2F_TRANSPORT_tx_ok:
  assumes "U2F_TRANSPORT_tx h cmd buffer len pkt psize = Some (h', pkt')"
  shows "u2f_ok h' = u2f_ok h"
proof (cases "buffer = None \<and> tx_message_buffer h = None")
  case False
  from assms obtain g p off where "u2f_fill g p psize off = Some (h', pkt')" "u2f_ok g = u2f_ok h"
    unfolding U2F_TRANSPORT_tx_def if_not_P [OF False] Let_def
    by (cases buffer) (auto simp: u2f_ok_def split: bind_splits prod.splits)
  then show ?thesis using u2f_fill_ok by blast
qed (use assms in \<open>simp add: U2F_TRANSPORT_tx_def\<close>)

lemma u2f_reach_ok: "u2f_reach h \<Longrightarrow> u2f_ok h"
proof (induction rule: u2f_reach.induct)
  case (init h type)
  then show ?case by (simp add: U2F_TRANSPORT_init_def u2f_ok_def u2f_states)
next
  case (rx h len p h')
  then show ?case using U2F_TRANSPORT_rx_ok [OF rx.IH rx.hyps(2,3)] by auto
next
  case (tx h cmd buffer len pkt psize h' pkt')
  then show ?case using U2F_TRANSPORT_tx_ok by blast
next
  case (app h s c)
  then show ?case by (simp add: u2f_ok_def)
qed

lemma drop_u2f_message: "drop (3 + k) (u2f_message cmd ds) = drop k ds"
  by (simp add: u2f_message_def be_bytes2 numeral_3_eq_3)

section \<open>Properties\<close>

definition u2f0 :: u2f_transport_t where
  "u2f0 = \<lparr>u2f_type = U2F_TRANSPORT_TYPE_USB_HID, u2f_cid = 0, u2f_state = 0, u2f_error = CTAP1_ERR_SUCCESS, tx_cid = 0,
     tx_message_buffer = None, tx_message_length = 0, tx_message_sequence_number = 0, tx_message_offset = 0,
     tx_packet_length = 0, rx_message_buffer = replicate 200 0, rx_message_buffer_size = 200,
     rx_message_expected_sequence_number = 0, rx_message_length = 0, rx_message_offset = 0\<rparr>"

text \<open>Property C6.  A message cut into packets by successive calls of \<open>U2F_TRANSPORT_tx\<close> and given, padded or not,
  to \<open>U2F_TRANSPORT_rx\<close> is reassembled: the sender
  emits finitely many frames, each a continuation numbered below 128, and the receiver
  ends in the complete state with the command byte, the length and exactly the payload in its buffer.
  Over BLE the frames need padding to three bytes, since \<open>U2F_TRANSPORT_rx\<close> ignores shorter ones.\<close>

theorem u2f_roundtrip:
  assumes s: "length ds < 2 ^ 16" "7 \<le> unat psize" "unat psize < 256" "unat psize \<le> length pkt" "length pkt \<le> 2 ^ 32"
    and r: "u2f_type r = u2f_type s" "length ds + 3 \<le> unat (rx_message_buffer_size r)"
      "unat (rx_message_buffer_size r) \<le> length (rx_message_buffer r)"
      "u2f_type r = U2F_TRANSPORT_TYPE_USB_HID \<longrightarrow> u2f_listens r (tx_cid s)"
    and m: "ds = [] \<longrightarrow> cmd OR 0x80 \<noteq> U2F_COMMAND_HID_CBOR OR 0x80"
      "length ds \<le> unat psize - length (frame_cid s) - 3 + 128 * (unat psize - length (frame_cid s) - 1)"
    and q: "q \<le> unat psize" "u2f_type r = U2F_TRANSPORT_TYPE_USB_HID \<or> 3 \<le> q"
  shows "\<exists>fs r'. u2f_send s cmd (Some ds) (of_nat (length ds)) pkt psize = Some fs \<and>
     u2f_rx_list r (map (u2f_pad q) fs) = Some r' \<and> u2f_complete (u2f_message cmd ds) r'"
proof -
  let ?c = "u2f_cid_bytes (u2f_type r) (tx_cid s)" and ?msg = "u2f_message cmd ds"
  let ?n = "unat psize - length ?c - 3" and ?m = "unat psize - length ?c - 2"
  have fc: "frame_cid s = ?c" using r(1) by (simp add: frame_cid_bytes)
  have l4: "length ?c \<le> 4" by (simp add: u2f_cid_bytes_def)
  define c where "c = min ?n (length ds)"
  obtain r1 where r1: "(let p = u2f_pad q (?c @ (cmd OR 0x80) # be_bytes 2 (of_nat (length ds) :: u16) @ take ?n ds)
      in U2F_TRANSPORT_rx r (Some p) (of_nat (length p))) = Some r1" "u2f_type r1 = u2f_type r"
      "if c = length ds then u2f_complete ?msg r1 else u2f_middle (tx_cid s) ?msg (3 + c) 0 r1"
    using rx_init [OF refl _ r(3) m(1) r(4) _ _ c_def, of q] r(2) q(1) s(2,3) l4 by fastforce
  have "\<exists>r'. u2f_rx_list r1 (map (u2f_pad q) (cont_frames ?c 0 ?m (drop ?n ds))) = Some r' \<and> u2f_complete ?msg r'"
  proof (cases "c = length ds")
    case True
    then have "drop ?n ds = []" by (simp add: c_def min_def split: if_splits)
    then show ?thesis using r1(3) True by (simp add: cont_frames.simps)
  next
    case False
    then have c: "c = ?n" "c < length ds" by (auto simp: c_def min_def split: if_splits)
    have d: "drop (3 + c) ?msg = drop ?n ds" unfolding c(1) by (rule drop_u2f_message)
    have sm: "Suc ?m = unat psize - length ?c - 1" using s(2) l4 by simp
    have "length ?msg - (3 + c) \<le> (128 - 0) * Suc ?m"
      unfolding sm using m(2) fc c by simp
    from rx_cont_frames [OF _ _ _ _ this, of q "tx_cid s" r1] show ?thesis
      using r1(2,3) False c(2) q s(2,3) l4 d by auto
  qed
  then show ?thesis
    using u2f_send_message [OF s, of s cmd] r1(1) fc
    by (auto simp: u2f_frames_def Let_def)
qed

theorem u2f_roundtrip_witness:
  "\<exists>fs r'. u2f_send (u2f0\<lparr>tx_cid := 5\<rparr>) 0x10 (Some (replicate 150 7)) 150 (replicate 64 0) 64 = Some fs \<and>
     u2f_rx_list u2f0 (map (u2f_pad 64) fs) = Some r' \<and> u2f_complete (u2f_message 0x10 (replicate 150 7)) r'"
  using u2f_roundtrip [of "replicate 150 7" 64 "replicate 64 0" u2f0 "u2f0\<lparr>tx_cid := 5\<rparr>" "0x10" 64]
  by (simp add: u2f0_def u2f_listens_def U2F_FORBIDDEN_CID_def U2F_BROADCAST_CID_def U2F_STATE_CMD_FRAMING_def frame_cid_def)

text \<open>Property C7.  In every state the transport reaches, as long as no over-long message is announced while another is being
  received, \<open>U2F_TRANSPORT_rx\<close> accepts packets of any content without
  an access outside the packet or the message buffer.\<close>

theorem u2f_rx_safe:
  assumes "u2f_reach h" "unat len \<le> length p" "length p \<le> 2 ^ 32"
  shows "\<exists>h'. U2F_TRANSPORT_rx h (Some p) len = Some h'"
  using U2F_TRANSPORT_rx_ok [OF u2f_reach_ok [OF assms(1)] assms(2,3)] by blast

theorem u2f_rx_safe_witness:
  "\<exists>h'. U2F_TRANSPORT_rx (U2F_TRANSPORT_init u2f0 U2F_TRANSPORT_TYPE_BLE) (Some [0x83, 0, 100, 1, 2]) 5 = Some h'"
  by (rule u2f_rx_safe) (auto intro!: u2f_reach.init simp: u2f0_def)

section \<open>An over-long message announced during a transfer\<close>

definition u2f_ov_cid :: bytes where "u2f_ov_cid = [1, 2, 3, 4]"
definition u2f_ov_first :: bytes where "u2f_ov_first = u2f_ov_cid @ [0x83, 0x00, 100] @ replicate 57 0"
definition u2f_ov_long :: bytes where "u2f_ov_long = u2f_ov_cid @ [0x83, 0xF0, 0x00] @ replicate 57 0"
definition u2f_ov_next :: "nat \<Rightarrow> bytes" where "u2f_ov_next j = u2f_ov_cid @ of_nat j # replicate 59 0"

text \<open>The state after the two initialization packets and \<open>j\<close> continuations.\<close>

definition u2f_ov :: "nat \<Rightarrow> nat \<Rightarrow> u2f_transport_t \<Rightarrow> bool" where
  "u2f_ov n j h =
     (u2f_type h = U2F_TRANSPORT_TYPE_USB_HID \<and> u2f_cid h = 0x01020304 \<and> u2f_state h = U2F_STATE_CMD_FRAMING \<and>
      rx_message_length h = 0xF003 \<and> rx_message_offset h = of_nat (60 + 59 * j) \<and>
      rx_message_expected_sequence_number h = of_nat j \<and> length (rx_message_buffer h) = n)"

lemma u2f_ov_packet:
  assumes "u2f_type h = U2F_TRANSPORT_TYPE_USB_HID" "u2f_cid h = 0 \<or> u2f_cid h = 0x01020304"
    "u2f_state h \<le> U2F_STATE_CMD_FRAMING" "length body = 60"
  shows "U2F_TRANSPORT_rx h (Some (u2f_ov_cid @ body)) 64 =
     do { (e, h) \<leftarrow> (if hd body AND 0x80 \<noteq> 0 then init_packet (u2f_open h 0x01020304) body 60
                       else continuation_packet (u2f_open h 0x01020304) body 60);
          Some (h\<lparr>u2f_error := e\<rparr>) }"
proof -
  have c: "u2f_ov_cid = u2f_cid_bytes (u2f_type h) 0x01020304"
    using assms(1) by (simp add: u2f_ov_cid_def u2f_cid_bytes_def be_bytes4)
  have l: "u2f_type h = U2F_TRANSPORT_TYPE_USB_HID \<longrightarrow> u2f_listens h 0x01020304"
    using assms(2,3) by (simp add: u2f_listens_def U2F_FORBIDDEN_CID_def U2F_BROADCAST_CID_def)
  have "body \<noteq> []" "length (u2f_cid_bytes (u2f_type h) 0x01020304 @ body) = 64"
    using assms(1,4) by (auto simp: u2f_cid_bytes_def)
  then show ?thesis
    using process_packet_body [OF l, of body] rx_process [of "u2f_ov_cid @ body" h] assms(4) by (simp add: c)
qed

lemma u2f_ov_next_step:
  assumes h: "u2f_ov n j h" "j < 128"
  shows "if 60 + 59 * Suc j \<le> n
     then \<exists>h'. U2F_TRANSPORT_rx h (Some (u2f_ov_next j)) 64 = Some h' \<and> u2f_ov n (Suc j) h'
     else U2F_TRANSPORT_rx h (Some (u2f_ov_next j)) 64 = None"
proof -
  let ?b = "of_nat j # replicate 59 0 :: bytes" and ?h = "u2f_open h 0x01020304"
  let ?g = "?h\<lparr>rx_message_expected_sequence_number := of_nat (Suc j)\<rparr>"
  have g: "rx_message_length ?g = 0xF003" "rx_message_offset ?g = of_nat (60 + 59 * j)" "rx_message_buffer ?g = rx_message_buffer h"
    using h(1) by (auto simp: u2f_ov_def u2f_open_def)
  have off: "unat (of_nat (60 + 59 * j) :: u16) = 60 + 59 * j" using h(2) by (intro u16_unat_of_nat) simp
  have le: "\<not> (0xF003 :: u16) < of_nat (60 + 59 * j)" using off h(2) by (simp add: word_less_nat_alt)
  have "(ucast (of_nat j :: u8) :: u16) = of_nat j"
    using h(2) by (simp add: word_unat_eq_iff unsigned_ucast_eq unsigned_of_nat take_bit_nat_eq_self)
  then have "continuation_packet ?h ?b 60 = store_payload ?g (replicate 59 0) 59"
    using h(1) by (simp add: continuation_packet_def ld_def u2f_ov_def u2f_open_def add.commute)
  moreover have "U2F_TRANSPORT_rx h (Some (u2f_ov_next j)) 64 =
      do { (e, h) \<leftarrow> continuation_packet ?h ?b 60; Some (h\<lparr>u2f_error := e\<rparr>) }"
    using u2f_ov_packet [of h ?b] h by (simp add: u2f_ov_def u2f_ov_next_def seq_bit)
  moreover have "store_payload ?g (replicate 59 0) 59 =
      (case memcpy_n (rx_message_buffer h) (60 + 59 * j) (replicate 59 0) 0 59 of
         None \<Rightarrow> None
       | Some m \<Rightarrow> Some (CTAP1_ERR_SUCCESS, ?g\<lparr>rx_message_buffer := m, rx_message_offset := of_nat (60 + 59 * Suc j)\<rparr>))"
  proof -
    have "(of_nat (60 + 59 * j) + 59 :: u16) = of_nat (60 + 59 * Suc j)" by simp
    moreover have "of_nat (60 + 59 * Suc j) \<noteq> (0xF003 :: u16)"
    proof
      assume "of_nat (60 + 59 * Suc j) = (0xF003 :: u16)"
      then have "unat (of_nat (60 + 59 * Suc j) :: u16) = 0xF003" by simp
      moreover have "unat (of_nat (60 + 59 * Suc j) :: u16) = 60 + 59 * Suc j" using h(2) by (intro u16_unat_of_nat) simp
      ultimately show False using h(2) by simp
    qed
    moreover have "\<not> unat (59 :: u16) > unat (0xF003 :: u16) - (60 + 59 * j)" using h(2) by simp
    moreover have "rx_message_length ?h = 0xF003" using g(1) by simp
    ultimately show ?thesis
      unfolding store_payload_def Let_def g off if_not_P [OF le]
      by (simp split: option.split del: of_nat_add of_nat_mult of_nat_Suc unat_bintrunc_neg)
  qed
  moreover have "length (rx_message_buffer h) = n" using h(1) by (simp add: u2f_ov_def)
  ultimately show ?thesis
    using h(1) by (auto simp: memcpy_n_def ld_n_def st_n_def u2f_ov_def u2f_open_def)
qed

lemma u2f_ov_run:
  "u2f_ov n j h \<Longrightarrow> 60 + 59 * j \<le> n \<Longrightarrow> n < 60 + 59 * 128 \<Longrightarrow>
     \<exists>k. u2f_rx_list h (map u2f_ov_next [j..<k]) = None"
proof (induction "n - 59 * j" arbitrary: j h rule: less_induct)
  case less
  have j: "j < 128" using less.prems(2,3) by simp
  have len: "length (u2f_ov_next i) = 64" for i by (simp add: u2f_ov_next_def u2f_ov_cid_def)
  have c: "map u2f_ov_next [j..<k] = u2f_ov_next j # map u2f_ov_next [Suc j..<k]" if "j < k" for k
    using that by (simp add: upt_conv_Cons)
  show ?case
  proof (cases "60 + 59 * Suc j \<le> n")
    case True
    then obtain h' where h': "U2F_TRANSPORT_rx h (Some (u2f_ov_next j)) 64 = Some h'" "u2f_ov n (Suc j) h'"
      using u2f_ov_next_step [OF less.prems(1) j] by auto
    have "n - 59 * Suc j < n - 59 * j" using True by simp
    from less.hyps [OF this h'(2) True less.prems(3)]
    obtain k where k: "u2f_rx_list h' (map u2f_ov_next [Suc j..<k]) = None" by blast
    then have "j < k" by (cases "Suc j < k") auto
    then show ?thesis using k h'(1) by (intro exI [of _ k]) (simp add: c len)
  next
    case False
    then have "U2F_TRANSPORT_rx h (Some (u2f_ov_next j)) 64 = None"
      using u2f_ov_next_step [OF less.prems(1) j] by simp
    then show ?thesis by (intro exI [of _ "Suc j"]) (simp add: len)
  qed
qed

lemma u2f_ov_start:
  assumes "103 \<le> unat (rx_message_buffer_size h)" "unat (rx_message_buffer_size h) < 0xF003"
    "unat (rx_message_buffer_size h) \<le> length (rx_message_buffer h)"
  shows "\<exists>h'. u2f_rx_list (U2F_TRANSPORT_init h U2F_TRANSPORT_TYPE_USB_HID) [u2f_ov_first, u2f_ov_long] = Some h' \<and>
     u2f_error h' = CTAP1_ERR_INVALID_LENGTH \<and> u2f_ov (length (rx_message_buffer h)) 0 h'"
proof -
  let ?i = "U2F_TRANSPORT_init h U2F_TRANSPORT_TYPE_USB_HID" and ?cid = "0x01020304 :: u32"
  let ?ds = "replicate 100 0 :: bytes" and ?data = "replicate 57 0 :: bytes"
  have i: "u2f_type ?i = U2F_TRANSPORT_TYPE_USB_HID" "u2f_cid ?i = 0 \<or> u2f_cid ?i = ?cid" "u2f_state ?i \<le> U2F_STATE_CMD_FRAMING"
      "rx_message_buffer_size (u2f_open ?i ?cid) = rx_message_buffer_size h" "rx_message_buffer (u2f_open ?i ?cid) = rx_message_buffer h"
    by (simp_all add: U2F_TRANSPORT_init_def U2F_FORBIDDEN_CID_def u2f_states u2f_open_def)
  obtain m where m: "init_packet (u2f_open ?i ?cid) ((3 OR 0x80) # be_bytes 2 (of_nat (length ?ds) :: u16) @ ?data) (of_nat (3 + length ?data)) =
     Some (CTAP1_ERR_SUCCESS,
       (u2f_open ?i ?cid)\<lparr>rx_message_length := of_nat (length (u2f_message 3 ?ds)), rx_message_expected_sequence_number := 0,
         rx_message_buffer := m, rx_message_offset := of_nat (3 + 57),
         u2f_state := if 3 + 57 = length (u2f_message 3 ?ds) then U2F_STATE_CMD_COMPLETE else U2F_STATE_CMD_FRAMING\<rparr>)"
     "length m = length (rx_message_buffer (u2f_open ?i ?cid))"
    using init_packet_part [OF refl, of 3 ?ds "u2f_open ?i ?cid" ?data 57] assms unfolding i by fastforce
  let ?h1 = "(u2f_open ?i ?cid)\<lparr>rx_message_length := 103, rx_message_expected_sequence_number := 0,
         rx_message_buffer := m, rx_message_offset := 60, u2f_state := U2F_STATE_CMD_FRAMING, u2f_error := CTAP1_ERR_SUCCESS\<rparr>"
  have "(0x83 :: u8) AND 0x80 \<noteq> 0" by simp
  then have p1: "U2F_TRANSPORT_rx ?i (Some u2f_ov_first) 64 = Some ?h1"
    using u2f_ov_packet [OF i(1-3), of "[0x83, 0x00, 100] @ ?data"] m(1) by (simp add: u2f_ov_first_def be_bytes2)
  have h1: "u2f_type ?h1 = U2F_TRANSPORT_TYPE_USB_HID" "u2f_cid ?h1 = 0 \<or> u2f_cid ?h1 = ?cid" "u2f_state ?h1 \<le> U2F_STATE_CMD_FRAMING"
    using i(1) by (simp_all add: u2f_open_def)
  have o: "u2f_open ?h1 ?cid = ?h1" using i(1) by (simp add: u2f_open_def)
  have "U2BE ([0x83, 0xF0, 0x00] @ ?data) 1 = Some 0xF000" by (simp add: U2BE_def ld_def)
  moreover have "(0xF003 :: u16) > rx_message_buffer_size h" using assms(2) by (simp add: word_less_nat_alt)
  ultimately have "init_packet ?h1 ([0x83, 0xF0, 0x00] @ ?data) 60 = Some (CTAP1_ERR_INVALID_LENGTH, ?h1\<lparr>rx_message_length := 0xF003\<rparr>)"
    using i(4) by (simp add: init_packet_def ld_def)
  then have p2: "U2F_TRANSPORT_rx ?h1 (Some u2f_ov_long) 64 =
      Some (?h1\<lparr>rx_message_length := 0xF003, u2f_error := CTAP1_ERR_INVALID_LENGTH\<rparr>)"
    using u2f_ov_packet [OF h1, of "[0x83, 0xF0, 0x00] @ ?data"] o by (simp add: u2f_ov_long_def)
  have l: "length u2f_ov_first = 64" "length u2f_ov_long = 64"
    by (simp_all add: u2f_ov_first_def u2f_ov_long_def u2f_ov_cid_def)
  show ?thesis
    using p1 p2 l m(2) i by (simp add: u2f_ov_def u2f_open_def)
qed

lemma u2f_rx_list_append:
  "u2f_rx_list h (xs @ ys) = Option.bind (u2f_rx_list h xs) (\<lambda>h. u2f_rx_list h ys)"
  by (induction xs arbitrary: h) (auto split: bind_split)

text \<open>Property C8.  \<open>process_packet\<close> refuses a message longer than the buffer with \<open>CTAP1_ERR_INVALID_LENGTH\<close>, but
  it has recorded the length by then and leaves the framing state: after an ordinary first packet and one that
  announces 0xF000 bytes, the handle still accepts continuations, and enough of them make it
  write past the end of the message buffer, whatever its size between 103 and 7611 bytes.\<close>

theorem u2f_rx_overflow:
  assumes "103 \<le> unat (rx_message_buffer_size h)" "unat (rx_message_buffer_size h) = length (rx_message_buffer h)"
    "length (rx_message_buffer h) < 60 + 59 * 128"
  shows "\<exists>h' k. u2f_rx_list (U2F_TRANSPORT_init h U2F_TRANSPORT_TYPE_USB_HID) [u2f_ov_first, u2f_ov_long] = Some h' \<and>
     u2f_error h' = CTAP1_ERR_INVALID_LENGTH \<and>
     u2f_rx_list (U2F_TRANSPORT_init h U2F_TRANSPORT_TYPE_USB_HID)
       ([u2f_ov_first, u2f_ov_long] @ map u2f_ov_next [0..<k]) = None"
proof -
  obtain h' where h': "u2f_rx_list (U2F_TRANSPORT_init h U2F_TRANSPORT_TYPE_USB_HID) [u2f_ov_first, u2f_ov_long] = Some h'"
      "u2f_error h' = CTAP1_ERR_INVALID_LENGTH" "u2f_ov (length (rx_message_buffer h)) 0 h'"
    using u2f_ov_start [of h] assms by auto
  obtain k where "u2f_rx_list h' (map u2f_ov_next [0..<k]) = None"
    using u2f_ov_run [OF h'(3)] assms by auto
  then show ?thesis
    unfolding u2f_rx_list_append using h' by auto
qed

theorem u2f_rx_overflow_witness:
  "\<exists>k. u2f_rx_list (U2F_TRANSPORT_init u2f0 U2F_TRANSPORT_TYPE_USB_HID)
       ([u2f_ov_first, u2f_ov_long] @ map u2f_ov_next [0..<k]) = None"
  using u2f_rx_overflow [of u2f0] by (auto simp: u2f0_def)

end
