(* ===== verification/Cx_Utils.thy ===== *)
theory Cx_Utils
  imports Endian
begin

text \<open>
  Word and buffer helpers of \<^verbatim>\<open>lib_cxng/src/cx_utils.c\<close> and \<^verbatim>\<open>cx_utils.h\<close>: rotations, byte swaps, the
  64-bit arithmetic on pairs of 32-bit halves (the code for compilers without a 64-bit type), \<open>cx_memxor\<close> and
  \<open>cx_constant_time_eq\<close>.  The SDK is built with a native 64-bit type; both variants are modelled and proved
  to agree.
\<close>

section \<open>Error codes\<close>

text \<open>The codes of \<^verbatim>\<open>include/cx_errors.h\<close>, and the exception \<open>INVALID_PARAMETER\<close> that some of the functions return as one.\<close>

datatype cx_err_t =
    CX_OK | CX_CARRY | CX_LOCKED | CX_UNLOCKED | CX_NOT_LOCKED | CX_NOT_UNLOCKED | CX_INTERNAL_ERROR
  | CX_INVALID_PARAMETER_SIZE | CX_INVALID_PARAMETER_VALUE | CX_INVALID_PARAMETER | CX_NOT_INVERTIBLE | CX_OVERFLOW
  | CX_MEMORY_FULL | CX_NO_RESIDUE | CX_EC_INFINITE_POINT | CX_EC_INVALID_POINT | CX_EC_INVALID_CURVE | INVALID_PARAMETER

section \<open>Byte order and rotations\<close>

definition cx_rotl :: "u32 \<Rightarrow> nat \<Rightarrow> u32" where
  "cx_rotl x n = (push_bit n x OR drop_bit (32 - n) x)"

definition cx_rotr :: "u32 \<Rightarrow> nat \<Rightarrow> u32" where
  "cx_rotr x n = (drop_bit n x OR push_bit (32 - n) x)"

definition cx_shr :: "u32 \<Rightarrow> nat \<Rightarrow> u32" where
  "cx_shr x n = drop_bit n x"

definition cx_rotr64 :: "u64 \<Rightarrow> nat \<Rightarrow> u64" where
  "cx_rotr64 x n = (drop_bit n x OR push_bit (64 - n) x)"

definition cx_rotl64 :: "u64 \<Rightarrow> nat \<Rightarrow> u64" where
  "cx_rotl64 x n = (push_bit n x OR drop_bit (64 - n) x)"

definition cx_shr64 :: "u64 \<Rightarrow> nat \<Rightarrow> u64" where
  "cx_shr64 x n = drop_bit n x"

definition cx_swap_uint32 :: "u32 \<Rightarrow> u32" where
  "cx_swap_uint32 v =
     (push_bit 24 v AND 0xFF000000) OR (push_bit 8 v AND 0x00FF0000) OR
     (drop_bit 8 v AND 0x0000FF00) OR (drop_bit 24 v AND 0x000000FF)"

text \<open>\<open>cx_swap_buffer32\<close> and \<open>cx_swap_buffer64\<close> swap every word of an array in place.\<close>

definition cx_swap_buffer32 :: "u32 list \<Rightarrow> u32 list" where
  "cx_swap_buffer32 v = map cx_swap_uint32 v"

definition cx_swap_uint64 :: "u64 \<Rightarrow> u64" where
  "cx_swap_uint64 v =
     (let h = ucast (drop_bit 32 v AND 0xFFFFFFFF) :: u32;
          l = ucast (v AND 0xFFFFFFFF) :: u32;
          l = cx_swap_uint32 l;
          h = cx_swap_uint32 h
      in push_bit 32 (ucast l) OR ucast h)"

definition cx_swap_buffer64 :: "u64 list \<Rightarrow> u64 list" where
  "cx_swap_buffer64 v = map cx_swap_uint64 v"

section \<open>The 64-bit arithmetic of compilers without a 64-bit type\<close>

record uint64bits_t =
  u64_l :: u32
  u64_h :: u32

definition cx_rotr64_split :: "uint64bits_t \<Rightarrow> nat \<Rightarrow> uint64bits_t" where
  "cx_rotr64_split x n =
     (let (x, n) = (if n \<ge> 32 then (x\<lparr>u64_l := u64_h x, u64_h := u64_l x\<rparr>, n - 32) else (x, n));
          sh_rot = push_bit (32 - n) (u64_h x AND 0xFFFFFFFF);
          sl_rot = push_bit (32 - n) (u64_l x AND 0xFFFFFFFF)
      in x\<lparr>u64_h := drop_bit n (u64_h x) OR sl_rot, u64_l := drop_bit n (u64_l x) OR sh_rot\<rparr>)"

definition cx_shr64_split :: "uint64bits_t \<Rightarrow> nat \<Rightarrow> uint64bits_t" where
  "cx_shr64_split x n =
     (let (x, n) = (if n \<ge> 32 then (x\<lparr>u64_l := u64_h x, u64_h := 0\<rparr>, n - 32) else (x, n));
          sl_shr = push_bit (32 - n) (u64_h x AND 0xFFFFFFFF)
      in x\<lparr>u64_l := drop_bit n (u64_l x) OR sl_shr, u64_h := drop_bit n (u64_h x)\<rparr>)"

definition cx_swap_uint64_split :: "uint64bits_t \<Rightarrow> uint64bits_t" where
  "cx_swap_uint64_split v =
     (let h = u64_h v; l = u64_l v; l = cx_swap_uint32 l; h = cx_swap_uint32 h
      in v\<lparr>u64_h := l, u64_l := h\<rparr>)"

definition cx_add_64 :: "uint64bits_t \<Rightarrow> uint64bits_t \<Rightarrow> uint64bits_t" where
  "cx_add_64 x y =
     (let addl = u64_l x + u64_l y;
          addl = NOT addl;
          carry = drop_bit 31 ((u64_l x AND u64_l y) OR (u64_l x AND NOT (u64_l y) AND addl) OR
                               (NOT (u64_l x) AND u64_l y AND addl)) AND 1;
          x = x\<lparr>u64_l := u64_l x + u64_l y, u64_h := u64_h x + u64_h y\<rparr>
      in if carry \<noteq> 0 then x\<lparr>u64_h := u64_h x + 1\<rparr> else x)"

section \<open>Buffers\<close>

text \<open>\<open>cx_memxor\<close> XORs the first \<open>n\<close> bytes of the second buffer into the first.\<close>

primrec memxor_from :: "bytes \<Rightarrow> bytes \<Rightarrow> nat \<Rightarrow> nat \<Rightarrow> bytes option" where
  "memxor_from b1 b2 i 0 = Some b1"
| "memxor_from b1 b2 i (Suc k) = do {
     x \<leftarrow> ld b1 i;
     y \<leftarrow> ld b2 i;
     b1 \<leftarrow> st b1 i (x XOR y);
     memxor_from b1 b2 (i + 1) k }"

definition cx_memxor :: "bytes \<Rightarrow> bytes \<Rightarrow> size_t \<Rightarrow> bytes option" where
  "cx_memxor buf1 buf2 len = memxor_from buf1 buf2 0 (unat len)"

primrec ct_diff :: "bytes \<Rightarrow> bytes \<Rightarrow> u8 \<Rightarrow> nat \<Rightarrow> nat \<Rightarrow> u8 option" where
  "ct_diff b1 b2 diff i 0 = Some diff"
| "ct_diff b1 b2 diff i (Suc k) = do {
     x \<leftarrow> ld b1 i;
     y \<leftarrow> ld b2 i;
     ct_diff b1 b2 (diff OR (x XOR y)) (i + 1) k }"

text \<open>\<open>diff\<close> is promoted to \<open>int\<close> before the negation and the shift.\<close>

definition cx_constant_time_eq :: "bytes \<Rightarrow> bytes \<Rightarrow> size_t \<Rightarrow> u8 option" where
  "cx_constant_time_eq buf1 buf2 len = do {
     diff \<leftarrow> ct_diff buf1 buf2 0 0 (unat len);
     Some (ucast (signed_drop_bit 7 ((ucast diff :: u32) OR - ucast diff) AND 1)) }"

section \<open>Laws\<close>

definition join64 :: "uint64bits_t \<Rightarrow> u64" where
  "join64 x = push_bit 32 (ucast (u64_h x)) OR ucast (u64_l x)"

lemma bit_join64: "bit (join64 x) n = (if n < 32 then bit (u64_l x) n else n < 64 \<and> bit (u64_h x) (n - 32))"
  by (auto simp: join64_def bit_simps dest: bit_imp_le_length)

lemma mask_u32: "(w :: u32) AND 0xFFFFFFFF = w"
proof -
  have e: "(0xFFFFFFFF :: u32) = - 1" by simp
  show ?thesis unfolding e by (rule and.right_neutral)
qed

lemma bit_push_drop:
  "bit (drop_bit n (a :: u32) OR push_bit (32 - n) b) k =
     (k < 32 \<and> (if k + n < 32 then bit a (k + n) else if n \<le> 32 then bit b (k + n - 32) else k \<ge> 0 \<and> bit b k))"
  by (auto simp: bit_simps add.commute dest: bit_imp_le_length)

lemma rotr64_split:
  assumes "0 < n" "n < 64" "n \<noteq> 32"
  shows "join64 (cx_rotr64_split x n) = cx_rotr64 (join64 x) n"
proof (rule bit_word_eqI)
  fix k assume k: "k < LENGTH(64)"
  have r: "bit (cx_rotr64 (join64 x) n) k = bit (join64 x) (if k + n < 64 then k + n else k + n - 64)"
    using assms k bit_imp_le_length [of "join64 x" "k + n"] by (auto simp: cx_rotr64_def bit_simps add.commute)
  show "bit (join64 (cx_rotr64_split x n)) k = bit (cx_rotr64 (join64 x) n) k"
  proof (cases "n < 32")
    case True
    then show ?thesis
      unfolding r using assms k
      by (auto simp: bit_join64 cx_rotr64_split_def mask_u32 bit_push_drop Let_def)
  next
    case False
    then obtain m where "n = 32 + m" by (metis le_add_diff_inverse not_less)
    then show ?thesis
      unfolding r using assms k
      by (auto simp: bit_join64 cx_rotr64_split_def mask_u32 bit_push_drop Let_def)
  qed
qed

lemma shr64_split:
  assumes "0 < n" "n < 64" "n \<noteq> 32"
  shows "join64 (cx_shr64_split x n) = cx_shr64 (join64 x) n"
proof (rule bit_word_eqI)
  fix k assume k: "k < LENGTH(64)"
  have r: "bit (cx_shr64 (join64 x) n) k = (k + n < 64 \<and> bit (join64 x) (k + n))"
    using bit_imp_le_length [of "join64 x" "k + n"] by (auto simp: cx_shr64_def bit_simps add.commute)
  have d: "bit (drop_bit m (w :: u32)) j = (j + m < 32 \<and> bit w (j + m))" for m w j
    using bit_imp_le_length [of w "j + m"] by (auto simp: bit_simps add.commute)
  show "bit (join64 (cx_shr64_split x n)) k = bit (cx_shr64 (join64 x) n) k"
  proof (cases "n < 32")
    case True
    then show ?thesis
      unfolding r using assms k
      by (auto simp: bit_join64 cx_shr64_split_def mask_u32 bit_push_drop d Let_def)
  next
    case False
    then obtain m where "n = 32 + m" by (metis le_add_diff_inverse not_less)
    then show ?thesis
      unfolding r using assms k
      by (auto simp: bit_join64 cx_shr64_split_def mask_u32 bit_push_drop d Let_def)
  qed
qed

text \<open>The bytes of a swapped word in one order are the bytes of the word in the other.\<close>

lemma bit_swap32:
  assumes "n < 8"
  shows "bit (cx_swap_uint32 v) n = bit v (24 + n)" "bit (cx_swap_uint32 v) (8 + n) = bit v (16 + n)"
    "bit (cx_swap_uint32 v) (16 + n) = bit v (8 + n)" "bit (cx_swap_uint32 v) (24 + n) = bit v n"
proof -
  have m: "(0xFF000000 :: u32) = push_bit 24 (mask 8)" "(0x00FF0000 :: u32) = push_bit 16 (mask 8)"
      "(0x0000FF00 :: u32) = push_bit 8 (mask 8)" "(0x000000FF :: u32) = mask 8"
    by (simp_all add: mask_eq_exp_minus_1)
  note defs = cx_swap_uint32_def m bit_or_iff bit_and_iff bit_push_bit_iff bit_drop_bit_eq bit_mask_iff
  show "bit (cx_swap_uint32 v) n = bit v (24 + n)" "bit (cx_swap_uint32 v) (8 + n) = bit v (16 + n)"
    "bit (cx_swap_uint32 v) (16 + n) = bit v (8 + n)" "bit (cx_swap_uint32 v) (24 + n) = bit v n"
    using assms by (simp_all only: defs) (auto simp: bit_simps)
qed

lemma be_bytes_swap32: "be_bytes 4 (cx_swap_uint32 v) = le_bytes 4 v"
proof -
  have "(ucast (drop_bit 24 (cx_swap_uint32 v)) :: u8) = ucast v"
      "(ucast (drop_bit 16 (cx_swap_uint32 v)) :: u8) = ucast (drop_bit 8 v)"
      "(ucast (drop_bit 8 (cx_swap_uint32 v)) :: u8) = ucast (drop_bit 16 v)"
      "(ucast (cx_swap_uint32 v) :: u8) = ucast (drop_bit 24 v)"
    by (rule bit_word_eqI; simp add: bit_ucast_iff bit_drop_bit_eq bit_swap32)+
  then show ?thesis by (simp add: le_bytes_def be_bytes4)
qed

lemma be_bytes8_join: "be_bytes 8 (push_bit 32 (ucast (h :: u32)) OR ucast (l :: u32) :: u64) = be_bytes 4 h @ be_bytes 4 l"
proof -
  let ?j = "push_bit 32 (ucast h) OR ucast l :: u64"
  have b: "bit ?j n = (if n < 32 then bit l n else n < 64 \<and> bit h (n - 32))" for n
    using bit_join64 [of "\<lparr>u64_l = l, u64_h = h\<rparr>" n] by (simp add: join64_def)
  have hi: "(ucast (drop_bit (32 + k) ?j) :: u8) = ucast (drop_bit k h)" if "k \<le> 24" for k
    using that by (intro bit_word_eqI) (simp only: bit_ucast_iff bit_drop_bit_eq comp_def b, simp add: add.assoc)
  have lo: "(ucast (drop_bit k ?j) :: u8) = ucast (drop_bit k l)" if "k \<le> 24" for k
    using that by (intro bit_word_eqI) (simp only: bit_ucast_iff bit_drop_bit_eq comp_def b, simp)
  show ?thesis
    using hi [of 24] hi [of 16] hi [of 8] hi [of 0] lo [of 24] lo [of 16] lo [of 8] lo [of 0]
    by (simp add: be_bytes8 be_bytes4)
qed

lemma join_halves: "(push_bit 32 (ucast (ucast (drop_bit 32 v) :: u32)) OR ucast (ucast v :: u32) :: u64) = v"
  by (rule bit_word_eqI) (auto simp: bit_simps dest: bit_imp_le_length)

lemma ucast_mask_u64: "(ucast (v AND 0xFFFFFFFF :: u64) :: u32) = ucast v"
proof -
  have e: "(0xFFFFFFFF :: u64) = mask 32" by (simp add: mask_eq_exp_minus_1)
  show ?thesis unfolding e by (intro bit_word_eqI) (auto simp: bit_simps)
qed

lemma be_bytes_swap64: "be_bytes 8 (cx_swap_uint64 v) = le_bytes 8 v"
proof -
  let ?h = "ucast (drop_bit 32 v) :: u32" and ?l = "ucast v :: u32"
  have "be_bytes 8 (cx_swap_uint64 v) = le_bytes 4 ?l @ le_bytes 4 ?h"
    by (simp add: cx_swap_uint64_def Let_def ucast_mask_u64 be_bytes8_join be_bytes_swap32)
  moreover have "be_bytes 8 v = be_bytes 4 ?h @ be_bytes 4 ?l"
    using be_bytes8_join [of ?h ?l] by (simp add: join_halves)
  ultimately show ?thesis by (simp add: le_bytes_def)
qed

lemma swap_uint64_split: "join64 (cx_swap_uint64_split x) = cx_swap_uint64 (join64 x)"
proof -
  have "ucast (drop_bit 32 (join64 x)) = u64_h x" "ucast (join64 x) = u64_l x"
    by (rule bit_word_eqI; simp add: bit_ucast_iff bit_drop_bit_eq bit_join64)+
  then show ?thesis
    by (simp add: cx_swap_uint64_split_def cx_swap_uint64_def join64_def Let_def ucast_mask_u64)
qed

lemma unat_join64: "unat (join64 x) = unat (u64_h x) * 2 ^ 32 + unat (u64_l x)"
proof -
  have disj: "push_bit 32 (ucast (u64_h x)) AND ucast (u64_l x) = (0 :: u64)"
    by (rule bit_word_eqI) (auto simp: bit_simps dest: bit_imp_le_length)
  have h: "unat (push_bit 32 (ucast (u64_h x)) :: u64) = unat (u64_h x) * 2 ^ 32"
    unfolding unsigned_push_bit_eq using unat_bound32 [of "u64_h x"]
    by (simp add: push_bit_eq_mult take_bit_nat_eq_self unsigned_ucast_eq)
  have l: "unat (ucast (u64_l x) :: u64) = unat (u64_l x)"
    using unat_bound32 [of "u64_l x"] by (simp add: unsigned_ucast_eq take_bit_nat_eq_self)
  have "join64 x = push_bit 32 (ucast (u64_h x)) + ucast (u64_l x)"
    using disj by (simp add: join64_def disjunctive_add_eq_or)
  then show ?thesis
    using h l unat_bound32 [of "u64_h x"] unat_bound32 [of "u64_l x"] by (simp add: unat_word_ariths)
qed

lemma bit31: "bit (w :: u32) 31 \<longleftrightarrow> 2 ^ 31 \<le> unat w"
proof -
  have "unat w div 2 ^ 31 < 2" using unat_bound32 [of w] by auto
  then have "odd (unat w div 2 ^ 31) \<longleftrightarrow> unat w div 2 ^ 31 \<noteq> 0" by (auto simp: less_2_cases_iff)
  moreover have "bit w 31 = bit (unat w) 31" by (simp add: bit_unsigned_iff)
  ultimately show ?thesis by (simp add: bit_iff_odd div_eq_0_iff not_less)
qed

lemma add_64_carry:
  fixes a b :: u32
  shows "drop_bit 31 ((a AND b) OR (a AND NOT b AND NOT (a + b)) OR (NOT a AND b AND NOT (a + b))) AND 1 \<noteq> 0 \<longleftrightarrow>
     2 ^ 32 \<le> unat a + unat b" (is "drop_bit 31 ?w AND 1 \<noteq> 0 \<longleftrightarrow> _")
proof -
  have "drop_bit 31 ?w AND 1 \<noteq> 0 \<longleftrightarrow> bit ?w 31"
    by (simp add: and_one_eq odd_iff_mod_2_eq_one bit_iff_odd_drop_bit)
  also have "\<dots> \<longleftrightarrow> 2 ^ 32 \<le> unat a + unat b"
  proof -
    have s: "unat (a + b) = (if 2 ^ 32 \<le> unat a + unat b then unat a + unat b - 2 ^ 32 else unat a + unat b)"
      using unat_bound32 [of a] unat_bound32 [of b] by (simp add: unat_word_ariths mod_if)
    show ?thesis
      unfolding bit_or_iff bit_and_iff bit_not_iff unfolding bit31
      using unat_bound32 [of a] unat_bound32 [of b] s by (auto simp: possible_bit_def split: if_splits)
  qed
  finally show ?thesis .
qed

lemma add_64: "join64 (cx_add_64 x y) = join64 x + join64 y"
proof -
  let ?c = "2 ^ 32 \<le> unat (u64_l x) + unat (u64_l y)"
  have "cx_add_64 x y = x\<lparr>u64_l := u64_l x + u64_l y, u64_h := u64_h x + u64_h y + (if ?c then 1 else 0)\<rparr>"
    unfolding cx_add_64_def Let_def add_64_carry by simp
  then have "unat (join64 (cx_add_64 x y)) =
      (unat (u64_h x) + unat (u64_h y) + (if ?c then 1 else 0)) mod 2 ^ 32 * 2 ^ 32 +
      (unat (u64_l x) + unat (u64_l y)) mod 2 ^ 32"
    by (simp add: unat_join64 unat_word_ariths mod_simps)
  also have "\<dots> = (unat (join64 x) + unat (join64 y)) mod 2 ^ 64"
  proof -
    let ?h = "unat (u64_h x) + unat (u64_h y)" and ?l = "unat (u64_l x) + unat (u64_l y)"
    have "?l = (if ?c then 1 else 0) * 2 ^ 32 + ?l mod 2 ^ 32"
      using unat_bound32 [of "u64_l x"] unat_bound32 [of "u64_l y"] by (simp add: mod_if) linarith
    then have "?h * 2 ^ 32 + ?l = (?h + (if ?c then 1 else 0)) * 2 ^ 32 + ?l mod 2 ^ 32"
      by (simp add: distrib_right)
    also have "\<dots> mod (2 ^ 32 * 2 ^ 32) = (?h + (if ?c then 1 else 0)) mod 2 ^ 32 * 2 ^ 32 + ?l mod 2 ^ 32"
      by (subst mod_mult2_eq) (simp add: algebra_simps)
    finally show ?thesis by (simp add: unat_join64 algebra_simps)
  qed
  finally show ?thesis by (simp add: word_unat_eq_iff unat_word_ariths)
qed

text \<open>The shifts are the rotations of the standards.\<close>

lemma rotr_bits:
  fixes x :: "'w::len word"
  assumes "0 < n" "n < LENGTH('w)"
  shows "drop_bit n x OR push_bit (LENGTH('w) - n) x = word_rotr n x"
proof (rule bit_word_eqI)
  fix k assume k: "k < LENGTH('w)"
  have "bit x (n + k) \<Longrightarrow> n + k < LENGTH('w)" by (rule bit_imp_le_length)
  moreover have "(k + n) mod LENGTH('w) = (if k + n < LENGTH('w) then k + n else k - (LENGTH('w) - n))"
    using k assms by (simp add: mod_if)
  ultimately show "bit (drop_bit n x OR push_bit (LENGTH('w) - n) x) k = bit (word_rotr n x) k"
    using k assms by (auto simp: bit_simps add.commute split: if_splits)
qed

lemma cx_rotr_word: "0 < n \<Longrightarrow> n < 32 \<Longrightarrow> cx_rotr x n = word_rotr n x"
  using rotr_bits [of n x] by (simp add: cx_rotr_def)

lemma cx_rotr64_word: "0 < n \<Longrightarrow> n < 64 \<Longrightarrow> cx_rotr64 x n = word_rotr n x"
  using rotr_bits [of n x] by (simp add: cx_rotr64_def)

lemma cx_rotl_word: "0 < n \<Longrightarrow> n < 32 \<Longrightarrow> cx_rotl x n = word_rotl n x"
  using rotr_bits [of "32 - n" x] by (simp add: cx_rotl_def word_rotl_eq_word_rotr or.commute)

lemma memxor_from_eq:
  "i + k \<le> length b1 \<Longrightarrow> i + k \<le> length b2 \<Longrightarrow>
     memxor_from b1 b2 i k = Some (take i b1 @ map2 (XOR) (take k (drop i b1)) (take k (drop i b2)) @ drop (i + k) b1)"
proof (induction k arbitrary: b1 i)
  case (Suc k)
  then have "memxor_from b1 b2 i (Suc k) =
      Some (take (Suc i) (b1[i := b1 ! i XOR b2 ! i]) @
        map2 (XOR) (take k (drop (Suc i) b1)) (take k (drop (Suc i) b2)) @ drop (i + Suc k) b1)"
    by (simp add: ld_def st_def)
  moreover have "take (Suc i) (b1[i := b1 ! i XOR b2 ! i]) = take i b1 @ [b1 ! i XOR b2 ! i]"
    using Suc.prems by (simp add: take_Suc_conv_app_nth)
  ultimately show ?case
    using Suc.prems by (simp add: take_drop_Suc [of i k])
qed simp

lemma ct_diff_eq:
  "i + k \<le> length b1 \<Longrightarrow> i + k \<le> length b2 \<Longrightarrow>
     \<exists>e. ct_diff b1 b2 d i k = Some e \<and> (e = 0 \<longleftrightarrow> d = 0 \<and> take k (drop i b1) = take k (drop i b2))"
proof (induction k arbitrary: d i)
  case (Suc k)
  obtain e where "ct_diff b1 b2 (d OR (b1 ! i XOR b2 ! i)) (Suc i) k = Some e"
      "e = 0 \<longleftrightarrow> d OR (b1 ! i XOR b2 ! i) = 0 \<and> take k (drop (Suc i) b1) = take k (drop (Suc i) b2)"
    using Suc.IH [of "Suc i" "d OR (b1 ! i XOR b2 ! i)"] Suc.prems by auto
  moreover have "d OR x = 0 \<longleftrightarrow> d = 0 \<and> x = 0" for x :: u8 by (rule or_eq_0_iff)
  moreover have "x XOR y = 0 \<longleftrightarrow> x = y" for x y :: u8
    by (metis bit.xor_self bit.xor_left_self xor.right_neutral)
  ultimately show ?case
    using Suc.prems by (simp add: ld_def take_drop_Suc [of i k])
qed simp

lemma bit7: "unat (w :: u32) < 256 \<Longrightarrow> bit w 7 \<longleftrightarrow> 128 \<le> unat w"
proof -
  assume "unat w < 256"
  then have "unat w div 128 < 2" by auto
  then have "odd (unat w div 128) \<longleftrightarrow> unat w div 128 \<noteq> 0" by (auto simp: less_2_cases_iff)
  moreover have "bit w 7 = bit (unat w) 7" by (simp add: bit_unsigned_iff)
  ultimately show ?thesis by (simp add: bit_iff_odd div_eq_0_iff not_less)
qed

lemma ct_result: "signed_drop_bit 7 ((ucast (d :: u8) :: u32) OR - ucast d) AND 1 = (if d = 0 then 0 else 1)"
proof (cases "d = 0")
  case False
  let ?x = "ucast d :: u32"
  have b: "unat d < 256" by (rule unat_bound8)
  then have x: "unat ?x = unat d" by (simp add: unsigned_ucast_eq take_bit_nat_eq_self)
  have "unat ?x \<noteq> 0" unfolding x using False by (simp add: unat_eq_zero)
  then have nz: "?x \<noteq> 0" by (metis unat_0)
  have m: "unat (?x - 1) = unat d - 1" unfolding unat_minus_one [OF nz] x by (rule refl)
  have "bit (- ?x) 7 \<longleftrightarrow> \<not> bit (?x - 1) 7"
    by (simp add: minus_eq_not_minus_1 bit_not_iff possible_bit_def)
  then have "bit (?x OR - ?x) 7"
    using bit7 [of ?x] bit7 [of "?x - 1"] x m b unfolding bit_or_iff by linarith
  then have "bit (signed_drop_bit 7 (?x OR - ?x)) 0" by (simp add: bit_signed_drop_bit_iff)
  then show ?thesis
    using False unfolding bit_0 by (simp add: and_one_eq mod_2_eq_odd)
qed simp

section \<open>Properties\<close>

text \<open>Without a native 64-bit type, the pairs of 32-bit halves compute the same rotations, shifts, byte swaps and
  sums as the native operations, for every distance the hash functions use (the distances 0 and
  32 would shift a 32-bit value by 32).\<close>

lemma cx_split64_equiv:
  assumes "0 < n" "n < 64" "n \<noteq> 32"
  shows "join64 (cx_rotr64_split x n) = cx_rotr64 (join64 x) n \<and> join64 (cx_shr64_split x n) = cx_shr64 (join64 x) n \<and>
     join64 (cx_swap_uint64_split x) = cx_swap_uint64 (join64 x) \<and> join64 (cx_add_64 x y) = join64 x + join64 y"
  using rotr64_split [OF assms] shr64_split [OF assms] swap_uint64_split add_64 by blast

text \<open>\<open>cx_constant_time_eq\<close> reads only the first \<open>len\<close> bytes of both buffers and returns 0 when they are equal and 1 when
  they differ, the opposite of what its name says; its callers store the result in a variable called \<open>diff\<close> or \<open>fail\<close>.\<close>

lemma cx_constant_time_eq_spec:
  assumes "unat len \<le> length b1" "unat len \<le> length b2"
  shows "cx_constant_time_eq b1 b2 len = Some (if take (unat len) b1 = take (unat len) b2 then 0 else 1)"
proof -
  obtain d where "ct_diff b1 b2 0 0 (unat len) = Some d" "d = 0 \<longleftrightarrow> take (unat len) b1 = take (unat len) b2"
    using ct_diff_eq [of 0 "unat len" b1 b2 0] assms by auto
  then show ?thesis by (simp add: cx_constant_time_eq_def ct_result)
qed

end
