(* ===== verification/Cx_Stream.thy ===== *)
theory Cx_Stream
  imports Cx_Utils
begin

text \<open>
  Streaming of a message into a Merkle-Damgard hash: the context and the update and padding code that
  \<^verbatim>\<open>cx_sha256.c\<close>, \<^verbatim>\<open>cx_sha512.c\<close> and \<^verbatim>\<open>cx_ripemd160.c\<close> of \<^verbatim>\<open>lib_cxng/src\<close> share, parameterised by the block
  size and the compression function.  The locale \<open>md_stream\<close> is the contract of a compression function; in it, updates
  in pieces of any size are shown to absorb the concatenation, and the end of the computation to pad the message.
  The second half is the SHA-2 compression of FIPS 180-4 and the ring buffer that holds its message schedule.
\<close>

datatype cx_md_t =
    CX_NONE | CX_RIPEMD160 | CX_SHA224 | CX_SHA256 | CX_SHA384 | CX_SHA512 | CX_KECCAK | CX_SHA3 | DEPRECATED_0
  | CX_BLAKE2B | CX_SHAKE128 | CX_SHAKE256 | CX_SHA3_256 | CX_SHA3_512

definition CX_HASH_MAX_BLOCK_COUNT :: u32 where "CX_HASH_MAX_BLOCK_COUNT = 65535"

section \<open>Contexts\<close>

text \<open>\<open>cx_ripemd160_t\<close>, \<open>cx_sha256_t\<close> and \<open>cx_sha512_t\<close> have the same fields; \<open>acc\<close> is always accessed as
  an array of words and is that array here.  The \<open>info\<close> pointer is the algorithm it describes.\<close>

record 'w cx_md_ctx =
  md_type :: cx_md_t
  md_counter :: u32
  md_blen :: size_t
  md_block :: bytes
  md_acc :: "'w list"

section \<open>Absorbing data\<close>

text \<open>The \<open>do ... while\<close> loop of the update functions.  \<open>bs\<close> is the block size, \<open>blk\<close> the compression of
  \<open>block\<close> into \<open>acc\<close>, and \<open>chk\<close> says whether the function checks the block counter.\<close>

partial_function (option) md_blocks ::
  "bool \<Rightarrow> size_t \<Rightarrow> ('w cx_md_ctx \<Rightarrow> 'w cx_md_ctx) \<Rightarrow> 'w cx_md_ctx \<Rightarrow> size_t \<Rightarrow> size_t \<Rightarrow> bytes \<Rightarrow> size_t \<Rightarrow>
     (cx_err_t \<times> 'w cx_md_ctx \<times> bytes \<times> size_t) option" where
  "md_blocks chk bs blk ctx len0 r data len =
     (if chk \<and> md_counter ctx = CX_HASH_MAX_BLOCK_COUNT then Some (CX_INVALID_PARAMETER, ctx, data, len)
      else do {
        b \<leftarrow> memcpy_n (md_block ctx) (unat len0) data 0 (unat r);
        let ctx = blk (ctx\<lparr>md_block := b\<rparr>);
        let ctx = ctx\<lparr>md_counter := md_counter ctx + 1\<rparr>;
        let data = drop (unat r) data;
        let len = len - r;
        if len \<ge> bs then md_blocks chk bs blk ctx 0 bs data len
        else Some (CX_OK, ctx, data, len) })"

definition md_rest :: "'w cx_md_ctx \<Rightarrow> size_t \<Rightarrow> bytes \<Rightarrow> size_t \<Rightarrow> (cx_err_t \<times> 'w cx_md_ctx) option" where
  "md_rest ctx len0 data len = do {
     b \<leftarrow> memcpy_n (md_block ctx) (unat len0) data 0 (unat len);
     Some (CX_OK, ctx\<lparr>md_block := b, md_blen := len0 + len\<rparr>) }"

definition md_update ::
  "bool \<Rightarrow> size_t \<Rightarrow> ('w cx_md_ctx \<Rightarrow> 'w cx_md_ctx) \<Rightarrow> 'w cx_md_ctx \<Rightarrow> bytes \<Rightarrow> size_t \<Rightarrow>
     (cx_err_t \<times> 'w cx_md_ctx) option" where
  "md_update chk bs blk ctx data len =
     (let len0 = md_blen ctx; ctx = ctx\<lparr>md_blen := 0\<rparr>
      in if len0 + len \<ge> bs then do {
           (e, ctx, data, len) \<leftarrow> md_blocks chk bs blk ctx len0 (bs - len0) data len;
           if e \<noteq> CX_OK then Some (e, ctx) else md_rest ctx 0 data len }
         else md_rest ctx len0 data len)"

section \<open>Padding\<close>

text \<open>The end of a message: the byte 0x80, zeros, another block when fewer than \<open>lf\<close> bytes are left, and the
  eight bytes of the length at the end of the last block.\<close>

definition md_finish ::
  "size_t \<Rightarrow> size_t \<Rightarrow> ('w cx_md_ctx \<Rightarrow> 'w cx_md_ctx) \<Rightarrow> 'w cx_md_ctx \<Rightarrow> (u32 \<Rightarrow> size_t \<Rightarrow> bytes) \<Rightarrow>
     ('w cx_md_ctx \<times> size_t) option" where
  "md_finish bs lf blk ctx lenb = do {
     b \<leftarrow> st (md_block ctx) (unat (md_blen ctx)) 0x80;
     let ctx = ctx\<lparr>md_block := b\<rparr>;
     let len0 = md_blen ctx + 1;
     let bitlen = lenb (md_counter ctx) len0;
     (ctx, len0) \<leftarrow>
       (if bs - len0 < lf then do {
          b \<leftarrow> memset_n (md_block ctx) (unat len0) 0 (unat (bs - len0));
          Some (blk (ctx\<lparr>md_block := b\<rparr>), 0) }
        else Some (ctx, len0));
     b \<leftarrow> memset_n (md_block ctx) (unat len0) 0 (unat (bs - len0));
     b \<leftarrow> st_n b (unat bs - 8) bitlen;
     Some (blk (ctx\<lparr>md_block := b\<rparr>), len0) }"

section \<open>Blocks of a message\<close>

function chunks :: "nat \<Rightarrow> 'a list \<Rightarrow> 'a list list" where
  "chunks n xs = (if n = 0 \<or> length xs < n then [] else take n xs # chunks n (drop n xs))"
  by pat_completeness auto
termination by (relation "measure (\<lambda>(n, xs). length xs)") auto

declare chunks.simps [simp del]

lemma chunks_trivial [simp]: "chunks 0 xs = []" "chunks n [] = []"
  by (subst chunks.simps, auto)+

lemma chunks_short: "length xs < n \<Longrightarrow> chunks n xs = []"
  by (simp add: chunks.simps)

lemma chunks_Cons: "0 < n \<Longrightarrow> length xs = n \<Longrightarrow> chunks n (xs @ ys) = xs # chunks n ys"
  by (subst chunks.simps) simp

lemma chunks_append: "n dvd length xs \<Longrightarrow> chunks n (xs @ ys) = chunks n xs @ chunks n ys"
proof (induction n xs rule: chunks.induct)
  case (1 n xs)
  show ?case
  proof (cases "n = 0 \<or> length xs < n")
    case True
    then have "xs = [] \<or> n = 0" using 1(2) by (auto dest: dvd_imp_le)
    then show ?thesis by auto
  next
    case False
    then have "n dvd length (drop n xs)" using 1(2) by (simp add: dvd_diff_nat)
    then show ?thesis using 1(1) False by (subst (1 2) chunks.simps) simp
  qed
qed

text \<open>The length that remains after \<open>r\<close> bytes.\<close>

lemma of_nat_drop: "unat r \<le> length d \<Longrightarrow> of_nat (length d) - r = of_nat (length (drop (unat r) d))"
  by (simp add: of_nat_diff)

section \<open>The contract of a compression function\<close>

definition md_absorb :: "size_t \<Rightarrow> ('w list \<Rightarrow> bytes \<Rightarrow> 'w list) \<Rightarrow> 'w list \<Rightarrow> bytes \<Rightarrow> 'w list" where
  "md_absorb bs compr iv m = foldl compr iv (chunks (unat bs) m)"

text \<open>The context has absorbed \<open>full\<close>, a whole number of blocks, and \<open>rest\<close> is pending in it.\<close>

definition md_holds ::
  "size_t \<Rightarrow> ('w list \<Rightarrow> bytes \<Rightarrow> 'w list) \<Rightarrow> nat \<Rightarrow> 'w list \<Rightarrow> bytes \<Rightarrow> bytes \<Rightarrow> 'w cx_md_ctx \<Rightarrow> bool" where
  "md_holds bs compr n iv full rest c =
     (length (md_block c) = unat bs \<and> length (md_acc c) = n \<and> length rest < unat bs \<and> unat bs dvd length full \<and>
      md_acc c = md_absorb bs compr iv full \<and> md_counter c = of_nat (length full div unat bs) \<and>
      take (length rest) (md_block c) = rest)"

text \<open>The context after an initialisation and updates with the bytes \<open>m\<close>.\<close>

definition md_rep :: "size_t \<Rightarrow> ('w list \<Rightarrow> bytes \<Rightarrow> 'w list) \<Rightarrow> nat \<Rightarrow> 'w list \<Rightarrow> bytes \<Rightarrow> 'w cx_md_ctx \<Rightarrow> bool" where
  "md_rep bs compr n iv m c \<longleftrightarrow>
     (\<exists>full rest. m = full @ rest \<and> md_holds bs compr n iv full rest c \<and> md_blen c = of_nat (length rest))"

text \<open>The padded message: the length \<open>lenb\<close> ends the last block and at least \<open>lf\<close> bytes precede its end.\<close>

definition md_pad :: "size_t \<Rightarrow> size_t \<Rightarrow> bytes \<Rightarrow> bytes \<Rightarrow> bytes" where
  "md_pad bs lf lenb m =
     m @ [0x80] @ replicate (unat lf - 8 + (unat bs - (length m + 1 + unat lf) mod unat bs) mod unat bs) 0 @ lenb"

text \<open>\<open>blk\<close> compresses a full block into the accumulator by \<open>compr\<close> and keeps the rest of the context.\<close>

locale md_stream =
  fixes bs :: size_t and blk :: "'w cx_md_ctx \<Rightarrow> 'w cx_md_ctx" and compr :: "'w list \<Rightarrow> bytes \<Rightarrow> 'w list" and n :: nat
  assumes bs_pos: "16 < unat bs" "unat bs \<le> 128"
    and blk_acc: "length (md_block c) = unat bs \<Longrightarrow> length (md_acc c) = n \<Longrightarrow>
      md_acc (blk c) = compr (md_acc c) (md_block c) \<and> length (md_acc (blk c)) = n"
    and blk_block: "length (md_block c) = unat bs \<Longrightarrow> length (md_block (blk c)) = unat bs"
    and blk_frame: "md_type (blk c) = md_type c" "md_counter (blk c) = md_counter c" "md_blen (blk c) = md_blen c"
begin

lemma absorb_block:
  "unat bs dvd length full \<Longrightarrow> length b = unat bs \<Longrightarrow>
     md_absorb bs compr iv (full @ b) = compr (md_absorb bs compr iv full) b"
  using chunks_Cons [of "unat bs" b "[]"] bs_pos by (simp add: md_absorb_def chunks_append)

lemma holds_block:
  assumes "md_holds bs compr n iv full rest c" "length rest + length d = unat bs" "b = rest @ d"
  shows "md_holds bs compr n iv (full @ rest @ d) [] ((blk (c\<lparr>md_block := b\<rparr>))\<lparr>md_counter := md_counter c + 1\<rparr>)"
proof -
  have "length (full @ rest @ d) div unat bs = Suc (length full div unat bs)"
    using assms(1,2) bs_pos by (auto simp: md_holds_def)
  then show ?thesis
    using assms blk_acc [of "c\<lparr>md_block := b\<rparr>"] blk_block [of "c\<lparr>md_block := b\<rparr>"] bs_pos absorb_block [of full "rest @ d" iv]
    by (auto simp: md_holds_def)
qed

text \<open>The loop absorbs all full blocks and leaves the rest, unless the counter check stops it.\<close>

lemma blocks_eq:
  assumes "md_holds bs compr n iv full rest c" "unat bs \<le> length rest + length d" "length rest + length d < 2 ^ 32"
    "chk \<longrightarrow> length (full @ rest @ d) div unat bs \<le> 65535"
  shows "\<exists>full' rest' c'. md_blocks chk bs blk c (of_nat (length rest)) (bs - of_nat (length rest)) d (of_nat (length d)) =
       Some (CX_OK, c', rest', of_nat (length rest')) \<and>
     full' @ rest' = full @ rest @ d \<and> md_holds bs compr n iv full' [] c' \<and> length rest' < unat bs \<and> md_type c' = md_type c"
  using assms
proof (induction "length d" arbitrary: full rest c d rule: less_induct)
  case less
  let ?r = "bs - of_nat (length rest)"
  have lr: "length rest < unat bs" using less.prems(1) by (simp add: md_holds_def)
  have ur: "unat (of_nat (length rest) :: size_t) = length rest"
    using lr bs_pos by (simp add: unsigned_of_nat take_bit_nat_eq_self)
  have r: "unat ?r = unat bs - length rest"
    using lr ur by (subst unat_sub_no_wrap) (simp_all add: word_le_nat_alt)
  define b where "b = rest @ take (unat ?r) d"
  define c1 where "c1 = (blk (c\<lparr>md_block := b\<rparr>))\<lparr>md_counter := md_counter c + 1\<rparr>"
  have ld: "length rest + length (take (unat ?r) d) = unat bs" using less.prems(2) lr r by simp
  have m: "memcpy_n (md_block c) (length rest) d 0 (unat ?r) = Some b"
    using less.prems(1,2) lr r by (auto simp: memcpy_n_in md_holds_def b_def)
  have h1: "md_holds bs compr n iv (full @ b) [] c1"
    using holds_block [OF less.prems(1) ld] by (simp add: b_def c1_def)
  have bd: "b @ drop (unat ?r) d = rest @ d" by (simp add: b_def)
  have lb: "length b = unat bs" using ld by (simp add: b_def)
  have c0: "\<not> (chk \<and> md_counter c = CX_HASH_MAX_BLOCK_COUNT)"
  proof
    assume chk: "chk \<and> md_counter c = CX_HASH_MAX_BLOCK_COUNT"
    have s: "length (full @ rest @ d) div unat bs \<ge> Suc (length full div unat bs)"
      using less.prems(1,2) bs_pos lr
      by (simp add: md_holds_def) (metis Suc_eq_plus1 add.assoc add_le_cancel_left div_add_self2 div_le_mono less_nat_zero_code not_less_zero)
    then have "length full div unat bs < 65535" using less.prems(4) chk by simp
    moreover from this have "unat (md_counter c) = length full div unat bs"
      using less.prems(1) by (simp add: md_holds_def unsigned_of_nat take_bit_nat_eq_self)
    ultimately show False using chk by (simp add: CX_HASH_MAX_BLOCK_COUNT_def)
  qed
  have len: "of_nat (length d) - ?r = of_nat (length (drop (unat ?r) d))"
    using less.prems(2) r by (intro of_nat_drop) simp
  have step: "md_blocks chk bs blk c (of_nat (length rest)) ?r d (of_nat (length d)) =
      (if of_nat (length (drop (unat ?r) d)) \<ge> bs
       then md_blocks chk bs blk c1 0 bs (drop (unat ?r) d) (of_nat (length (drop (unat ?r) d)))
       else Some (CX_OK, c1, drop (unat ?r) d, of_nat (length (drop (unat ?r) d))))"
    by (subst md_blocks.simps, unfold if_not_P [OF c0]) (use m in \<open>simp add: ur len c1_def blk_frame Let_def\<close>)
  have ud: "unat (of_nat (length (drop (unat ?r) d)) :: size_t) = length (drop (unat ?r) d)"
    using less.prems(3) by (simp add: unsigned_of_nat take_bit_nat_eq_self)
  show ?case
  proof (cases "bs \<le> of_nat (length (drop (unat ?r) d))")
    case True
    define d1 where "d1 = drop (unat ?r) d"
    have e: "(full @ b) @ [] @ d1 = full @ rest @ d" using bd by (simp add: d1_def)
    have "length d1 < length d" "unat bs \<le> length ([] :: bytes) + length d1" "length ([] :: bytes) + length d1 < 2 ^ 32"
      using r lr less.prems(2,3) True ud by (simp_all add: d1_def word_le_nat_alt)
    from less.hyps [OF this(1) h1 this(2,3), unfolded e, OF less.prems(4)]
    obtain full' rest' c' where "md_blocks chk bs blk c1 0 bs (drop (unat ?r) d) (of_nat (length (drop (unat ?r) d))) =
        Some (CX_OK, c', rest', of_nat (length rest'))" "full' @ rest' = full @ rest @ d"
        "md_holds bs compr n iv full' [] c'" "length rest' < unat bs" "md_type c' = md_type c1"
      by (auto simp: d1_def)
    then show ?thesis using step True bd by (auto simp: c1_def blk_frame)
  next
    case False
    then have "length (drop (unat ?r) d) < unat bs" using ud by (simp add: word_le_nat_alt)
    then show ?thesis
      using step False h1 bd by (intro exI [of _ "full @ b"] exI [of _ "drop (unat ?r) d"] exI [of _ c1])
        (simp add: c1_def blk_frame)
  qed
qed

end

context md_stream
begin

lemma rest_rep:
  assumes "md_holds bs compr n iv full rest c" "length rest + length d < unat bs"
  shows "\<exists>c'. md_rest c (of_nat (length rest)) d (of_nat (length d)) = Some (CX_OK, c') \<and>
     md_rep bs compr n iv (full @ rest @ d) c' \<and> md_type c' = md_type c"
proof -
  have u: "unat (of_nat (length rest) :: size_t) = length rest" "unat (of_nat (length d) :: size_t) = length d"
    using assms(2) bs_pos by (simp_all add: unsigned_of_nat take_bit_nat_eq_self)
  let ?b = "rest @ d @ drop (length rest + length d) (md_block c)"
  have "memcpy_n (md_block c) (length rest) d 0 (length d) = Some ?b"
    using assms by (simp add: memcpy_n_in md_holds_def)
  then have "md_rest c (of_nat (length rest)) d (of_nat (length d)) =
      Some (CX_OK, c\<lparr>md_block := ?b, md_blen := of_nat (length (rest @ d))\<rparr>)"
    by (simp add: md_rest_def u)
  moreover have "md_holds bs compr n iv full (rest @ d) (c\<lparr>md_block := ?b, md_blen := of_nat (length (rest @ d))\<rparr>)"
    using assms by (auto simp: md_holds_def)
  ultimately show ?thesis by (fastforce simp: md_rep_def)
qed

lemma update_rep:
  assumes "md_rep bs compr n iv m c" "length d < 2 ^ 32 - 128" "chk \<longrightarrow> length (m @ d) div unat bs \<le> 65535"
  shows "\<exists>c'. md_update chk bs blk c d (of_nat (length d)) = Some (CX_OK, c') \<and>
     md_rep bs compr n iv (m @ d) c' \<and> md_type c' = md_type c"
proof -
  obtain full rest where r: "m = full @ rest" "md_holds bs compr n iv full rest c" "md_blen c = of_nat (length rest)"
    using assms(1) by (auto simp: md_rep_def)
  have h0: "md_holds bs compr n iv full rest (c\<lparr>md_blen := 0\<rparr>)" using r(2) by (auto simp: md_holds_def)
  have lr: "length rest < unat bs" using r(2) by (simp add: md_holds_def)
  have "unat (of_nat (length rest) + of_nat (length d) :: size_t) = length rest + length d"
    using lr bs_pos assms(2) by (simp add: unsigned_of_nat take_bit_nat_eq_self flip: of_nat_add)
  then have ge: "bs \<le> of_nat (length rest) + of_nat (length d) \<longleftrightarrow> unat bs \<le> length rest + length d"
    by (simp add: word_le_nat_alt)
  show ?thesis
  proof (cases "unat bs \<le> length rest + length d")
    case True
    obtain full' rest' c' where b: "md_blocks chk bs blk (c\<lparr>md_blen := 0\<rparr>) (of_nat (length rest)) (bs - of_nat (length rest)) d (of_nat (length d)) =
       Some (CX_OK, c', rest', of_nat (length rest'))" "full' @ rest' = full @ rest @ d"
       "md_holds bs compr n iv full' [] c'" "length rest' < unat bs" "md_type c' = md_type c"
      using blocks_eq [OF h0 True, of chk] assms(2,3) lr bs_pos r(1) by auto
    have "\<exists>c''. md_rest c' (of_nat (length ([] :: bytes))) rest' (of_nat (length rest')) = Some (CX_OK, c'') \<and>
        md_rep bs compr n iv (full' @ [] @ rest') c'' \<and> md_type c'' = md_type c'"
      by (rule rest_rep [OF b(3)]) (use b(4) in simp)
    then show ?thesis
      using b True ge r(1,3) by (auto simp: md_update_def Let_def)
  next
    case False
    then have "\<exists>c'. md_rest (c\<lparr>md_blen := 0\<rparr>) (of_nat (length rest)) d (of_nat (length d)) = Some (CX_OK, c') \<and>
        md_rep bs compr n iv (full @ rest @ d) c' \<and> md_type c' = md_type (c\<lparr>md_blen := 0\<rparr>)"
      by (intro rest_rep [OF h0]) simp
    then show ?thesis
      using False ge r(1,3) by (auto simp: md_update_def Let_def)
  qed
qed

lemma blk_holds:
  assumes "length (md_block c) = unat bs" "length (md_acc c) = n" "md_acc c = md_absorb bs compr iv full"
    "unat bs dvd length full" "length b = unat bs"
  shows "md_acc (blk (c\<lparr>md_block := b\<rparr>)) = md_absorb bs compr iv (full @ b) \<and>
     length (md_acc (blk (c\<lparr>md_block := b\<rparr>))) = n \<and> length (md_block (blk (c\<lparr>md_block := b\<rparr>))) = unat bs"
  using assms blk_acc [of "c\<lparr>md_block := b\<rparr>"] blk_block [of "c\<lparr>md_block := b\<rparr>"] absorb_block [of full b iv] by auto

end

text \<open>The padding in the last one or two blocks.\<close>

lemma md_pad_zeros:
  fixes r bs lf :: nat
  assumes "r < bs" "lf < bs" "8 \<le> lf" "bs dvd k"
  shows "lf - 8 + (bs - (k + r + 1 + lf) mod bs) mod bs = (if bs - (r + 1) < lf then bs + bs - r - 9 else bs - r - 9)"
proof -
  have m: "(k + r + 1 + lf) mod bs = (r + 1 + lf) mod bs"
    using assms(4) by (auto simp: add.assoc)
  show ?thesis
  proof (cases "bs - (r + 1) < lf")
    case True
    then have "(r + 1 + lf) mod bs = r + 1 + lf - bs" using assms by (simp add: mod_if)
    then show ?thesis unfolding m using True assms by simp
  next
    case False
    then have le: "r + 1 + lf \<le> bs" using assms by simp
    show ?thesis
    proof (cases "r + 1 + lf = bs")
      case eq: True
      then show ?thesis unfolding m using False assms by simp
    next
      case ne: False
      then have "(r + 1 + lf) mod bs = r + 1 + lf" using le by simp
      then show ?thesis unfolding m using False ne le assms by simp
    qed
  qed
qed

context md_stream
begin

lemma finish_rep:
  assumes rep: "md_rep bs compr n iv m c" and lf: "8 \<le> lf" "lf < bs"
    and lenb: "\<And>k l. length (lenb k l) = 8"
  shows "\<exists>c' l. md_finish bs lf blk c lenb = Some (c', l) \<and> md_type c' = md_type c \<and> length (md_acc c') = n \<and>
     md_acc c' = md_absorb bs compr iv
       (md_pad bs lf (lenb (of_nat (length m div unat bs)) (of_nat (length m mod unat bs) + 1)) m)"
proof -
  obtain full rest where r: "m = full @ rest" "md_holds bs compr n iv full rest c" "md_blen c = of_nat (length rest)"
    using rep by (auto simp: md_rep_def)
  let ?r = "length rest" and ?bs = "unat bs" and ?lf = "unat lf"
  have h: "length (md_block c) = ?bs" "length (md_acc c) = n" "?r < ?bs" "?bs dvd length full"
      "md_acc c = md_absorb bs compr iv full" "md_counter c = of_nat (length full div ?bs)"
      "take ?r (md_block c) = rest"
    using r(2) by (auto simp: md_holds_def)
  have lf': "8 \<le> ?lf" "?lf < ?bs" using lf by (simp_all add: word_le_nat_alt word_less_nat_alt)
  have dm: "length m div ?bs = length full div ?bs" "length m mod ?bs = ?r"
    using h(3,4) by (auto simp: r(1))
  define lb where "lb = lenb (of_nat (length m div ?bs)) (of_nat (length m mod ?bs) + 1)"
  have llb: "length lb = 8" by (simp add: lb_def lenb)
  have lb: "lb = lenb (md_counter c) (md_blen c + 1)" unfolding lb_def dm r(3) h(6) ..
  have u0: "unat (md_blen c) = ?r"
    using h(3) bs_pos unfolding r(3) by (simp add: unsigned_of_nat take_bit_nat_eq_self)
  moreover have "unat (md_blen c + 1) = unat (md_blen c) + unat (1 :: size_t)"
    using h(3) bs_pos u0 by (intro unat_add_no_wrap) simp
  ultimately have u: "unat (md_blen c) = ?r" "unat (md_blen c + 1) = ?r + 1" by simp_all
  have u2: "unat (bs - (md_blen c + 1)) = ?bs - (?r + 1)"
    using h(3) u by (subst unat_sub_no_wrap) (simp_all add: word_le_nat_alt)
  have lt: "bs - (md_blen c + 1) < lf \<longleftrightarrow> ?bs - (?r + 1) < ?lf" using u2 by (simp add: word_less_nat_alt)
  let ?b1 = "(md_block c)[?r := 0x80]"
  have t1: "take (?r + 1) ?b1 = rest @ [0x80]" using h(1,3,7) by (simp add: take_Suc_conv_app_nth)
  let ?b2 = "rest @ [0x80] @ replicate (?bs - (?r + 1)) 0"
  have ms: "memset_n ?b1 (?r + 1) 0 (?bs - (?r + 1)) = Some ?b2"
    using h(1,3) t1 by (simp add: memset_n_in)
  have st: "st (md_block c) (unat (md_blen c)) 0x80 = Some ?b1" using h(1,3) u by (simp add: st_def)
  have pad: "md_pad bs lf lb m = full @ rest @ [0x80] @
      replicate (if ?bs - (?r + 1) < ?lf then ?bs + ?bs - ?r - 9 else ?bs - ?r - 9) 0 @ lb"
    using md_pad_zeros [OF h(3) lf'(2,1) h(4)] by (simp add: md_pad_def r(1))
  show ?thesis
  proof (cases "?bs - (?r + 1) < ?lf")
    case True
    define c1 where "c1 = blk (c\<lparr>md_block := ?b2\<rparr>)"
    have lb2: "length ?b2 = ?bs" using h(3) by simp
    have c1: "md_acc c1 = md_absorb bs compr iv (full @ ?b2)" "length (md_acc c1) = n" "length (md_block c1) = ?bs"
      using blk_holds [OF h(1,2,5,4) lb2] unfolding c1_def by blast+
    let ?b3 = "replicate (?bs - 8) 0 @ lb"
    have lb3: "length ?b3 = ?bs" using bs_pos llb by simp
    have m3: "memset_n (md_block c1) 0 0 ?bs = Some (replicate ?bs 0)" using c1(3) by (simp add: memset_n_in)
    have s3: "st_n (replicate ?bs 0) (?bs - 8) lb = Some ?b3" using bs_pos llb by (simp add: st_n_def min_def)
    have dv: "?bs dvd length (full @ ?b2)" using h(4) lb2 by (simp add: add.assoc)
    have "md_finish bs lf blk c lenb = Some (blk (c1\<lparr>md_block := ?b3\<rparr>), 0)"
      unfolding md_finish_def Let_def st using True lt u u2 ms m3 s3 lb by (simp add: c1_def)
    moreover have "md_acc (blk (c1\<lparr>md_block := ?b3\<rparr>)) = md_absorb bs compr iv ((full @ ?b2) @ ?b3) \<and>
        length (md_acc (blk (c1\<lparr>md_block := ?b3\<rparr>))) = n"
      using blk_holds [OF c1(3,2,1) dv lb3] by blast
    moreover have "(full @ ?b2) @ ?b3 = md_pad bs lf lb m"
    proof -
      have "?bs + ?bs - ?r - 9 = (?bs - (?r + 1)) + (?bs - 8)" using h(3) bs_pos by simp
      then have "replicate (?bs + ?bs - ?r - 9) (0 :: u8) = replicate (?bs - (?r + 1)) 0 @ replicate (?bs - 8) 0"
        by (simp only: replicate_add)
      then show ?thesis using True by (simp only: pad if_True append_assoc)
    qed
    ultimately show ?thesis unfolding lb_def [symmetric] c1_def by (auto simp: blk_frame)
  next
    case False
    let ?b3 = "rest @ [0x80] @ replicate (?bs - ?r - 9) 0 @ lb"
    have le: "?r + 9 \<le> ?bs" using False lf' by simp
    have lb3: "length ?b3 = ?bs" using le llb by simp
    have s3: "st_n ?b2 (?bs - 8) lb = Some ?b3" using le llb by (simp add: st_n_def min_def take_Cons' add.commute)
    have "md_finish bs lf blk c lenb = Some (blk (c\<lparr>md_block := ?b3\<rparr>), md_blen c + 1)"
      unfolding md_finish_def Let_def st using False lt u u2 ms s3 lb by simp
    moreover have "md_acc (blk (c\<lparr>md_block := ?b3\<rparr>)) = md_absorb bs compr iv (full @ ?b3) \<and>
        length (md_acc (blk (c\<lparr>md_block := ?b3\<rparr>))) = n"
      using blk_holds [OF h(1,2,5,4) lb3] by blast
    moreover have "full @ ?b3 = md_pad bs lf lb m" using False by (simp add: pad)
    ultimately show ?thesis unfolding lb_def [symmetric] by (auto simp: blk_frame)
  qed
qed

end

section \<open>Words of a block\<close>

definition le_words :: "nat \<Rightarrow> bytes \<Rightarrow> 'w::len word list" where
  "le_words k bs = map (\<lambda>b. horner (rev b)) (chunks k bs)"

definition words_le :: "nat \<Rightarrow> 'w::len word list \<Rightarrow> bytes" where
  "words_le k ws = concat (map (le_bytes k) ws)"

definition be_words :: "nat \<Rightarrow> bytes \<Rightarrow> 'w::len word list" where
  "be_words k bs = map horner (chunks k bs)"

definition words_be :: "nat \<Rightarrow> 'w::len word list \<Rightarrow> bytes" where
  "words_be k ws = concat (map (be_bytes k) ws)"

lemma length_chunks: "0 < n \<Longrightarrow> length (chunks n xs) = length xs div n"
proof (induction n xs rule: chunks.induct)
  case (1 n xs)
  then show ?case by (subst chunks.simps) (auto simp: le_div_geq not_less)
qed

lemma chunks_lengths: "b \<in> set (chunks n xs) \<Longrightarrow> length b = n"
proof (induction n xs rule: chunks.induct)
  case (1 n xs)
  show ?case
  proof (cases "n = 0 \<or> length xs < n")
    case True
    then show ?thesis using 1(2) by (auto simp: chunks_short)
  next
    case False
    then show ?thesis using 1 by (subst (asm) (2) chunks.simps) auto
  qed
qed

lemma length_words_le [simp]: "length (words_le k ws) = k * length ws"
  by (induction ws) (auto simp: words_le_def)

lemma length_le_words: "0 < k \<Longrightarrow> length (le_words k bs) = length bs div k"
  by (simp add: le_words_def length_chunks)

lemma horner_be_bytes: "8 * n = LENGTH('w) \<Longrightarrow> horner (be_bytes n v) = (v :: 'w::len word)"
proof -
  assume n: "8 * n = LENGTH('w)"
  have "256 ^ n = (2 :: nat) ^ LENGTH('w)" using n by (metis power_mult numeral_eq_Suc power2_eq_square mult_numeral_1
    semiring_norm(12) numeral_times_numeral power_numeral pow.simps sqr.simps)
  then have "unat (horner (be_bytes n v) :: 'w word) = unat v"
    using n unsigned_less [of v, where ?'a = nat] by (simp add: unat_horner be_val_be_bytes)
  then show ?thesis by (simp add: word_unat_eq_iff)
qed

lemma be_bytes_horner: "8 * length b = LENGTH('w) \<Longrightarrow> be_bytes (length b) (horner b :: 'w::len word) = b"
  using be_val_bound [of b] by (intro be_val_inj) (simp_all add: be_val_be_bytes unat_horner)

text \<open>Reading a word in native order and swapping it is reading it most significant byte first.\<close>

lemma swap32_le: "length b = 4 \<Longrightarrow> cx_swap_uint32 (horner (rev b)) = horner b"
proof -
  assume l: "length b = 4"
  have "be_bytes 4 (horner (rev b) :: u32) = rev b" using be_bytes_horner [of "rev b", where 'w = 32] l by simp
  then have "be_bytes 4 (cx_swap_uint32 (horner (rev b))) = b" by (simp add: be_bytes_swap32 le_bytes_def)
  then show ?thesis using horner_be_bytes [of 4 "cx_swap_uint32 (horner (rev b))"] by simp
qed

lemma swap64_le: "length b = 8 \<Longrightarrow> cx_swap_uint64 (horner (rev b)) = horner b"
proof -
  assume l: "length b = 8"
  have "be_bytes 8 (horner (rev b) :: u64) = rev b" using be_bytes_horner [of "rev b", where 'w = 64] l by simp
  then have "be_bytes 8 (cx_swap_uint64 (horner (rev b))) = b" by (simp add: be_bytes_swap64 le_bytes_def)
  then show ?thesis using horner_be_bytes [of 8 "cx_swap_uint64 (horner (rev b))"] by simp
qed

lemma swap_buffer32_le: "cx_swap_buffer32 (le_words 4 b) = be_words 4 b"
  by (simp add: cx_swap_buffer32_def le_words_def be_words_def swap32_le chunks_lengths)

lemma swap_buffer64_le: "cx_swap_buffer64 (le_words 8 b) = be_words 8 b"
  by (simp add: cx_swap_buffer64_def le_words_def be_words_def swap64_le chunks_lengths)

lemma words_le_swap: "words_le 4 (cx_swap_buffer32 ws) = words_be 4 ws" "words_le 8 (cx_swap_buffer64 vs) = words_be 8 vs"
  by (simp_all add: words_le_def words_be_def cx_swap_buffer32_def cx_swap_buffer64_def le_bytes_def
      be_bytes_swap32 be_bytes_swap64 comp_def)

section \<open>The compression function of the SHA-2 family\<close>

text \<open>FIPS 180-4, section 6.2.2 and 6.4.2: the message schedule, a round and the compression of a block.\<close>

function sha2_W :: "('w::len word \<Rightarrow> 'w word) \<Rightarrow> ('w word \<Rightarrow> 'w word) \<Rightarrow> 'w word list \<Rightarrow> nat \<Rightarrow> 'w word" where
  "sha2_W sg0 sg1 m t =
     (if t < 16 then m ! t
      else sg1 (sha2_W sg0 sg1 m (t - 2)) + sha2_W sg0 sg1 m (t - 7) + sg0 (sha2_W sg0 sg1 m (t - 15)) + sha2_W sg0 sg1 m (t - 16))"
  by pat_completeness auto
termination by (relation "measure (\<lambda>(sg0, sg1, m, t). t)") auto

declare sha2_W.simps [simp del]

definition sha2_step ::
  "('w::len word \<Rightarrow> 'w word) \<Rightarrow> ('w word \<Rightarrow> 'w word) \<Rightarrow> 'w word list \<Rightarrow> (nat \<Rightarrow> 'w word) \<Rightarrow> nat \<Rightarrow> 'w word list \<Rightarrow> 'w word list" where
  "sha2_step S0 S1 K W t s =
     (case s of [a, b, c, d, e, f, g, h] \<Rightarrow>
        let T1 = h + S1 e + ((e AND f) XOR (NOT e AND g)) + K ! t + W t;
            T2 = S0 a + ((a AND b) XOR (a AND c) XOR (b AND c))
        in [T1 + T2, a, b, c, d + T1, e, f, g]
      | _ \<Rightarrow> s)"

definition sha2_compress ::
  "('w::len word \<Rightarrow> 'w word) \<Rightarrow> ('w word \<Rightarrow> 'w word) \<Rightarrow> ('w word \<Rightarrow> 'w word) \<Rightarrow> ('w word \<Rightarrow> 'w word) \<Rightarrow>
     'w word list \<Rightarrow> nat \<Rightarrow> nat \<Rightarrow> 'w word list \<Rightarrow> bytes \<Rightarrow> 'w word list" where
  "sha2_compress sg0 sg1 S0 S1 K rounds k hs b =
     map2 (+) hs (fold (sha2_step S0 S1 K (sha2_W sg0 sg1 (be_words k b))) [0..<rounds] hs)"

text \<open>The schedule in a ring of sixteen words: before round \<open>j\<close> it holds the last sixteen words.\<close>

definition sha2_ring ::
  "('w::len word \<Rightarrow> 'w word) \<Rightarrow> ('w word \<Rightarrow> 'w word) \<Rightarrow> 'w word list \<Rightarrow> nat \<Rightarrow> 'w word list \<Rightarrow> bool" where
  "sha2_ring sg0 sg1 m j X =
     (length X = 16 \<and> (\<forall>i. i < max 16 j \<and> max 16 j \<le> i + 16 \<longrightarrow> X ! (i mod 16) = sha2_W sg0 sg1 m i))"

definition sha2_next ::
  "('w::len word \<Rightarrow> 'w word) \<Rightarrow> ('w word \<Rightarrow> 'w word) \<Rightarrow> nat \<Rightarrow> 'w word list \<Rightarrow> 'w word list" where
  "sha2_next sg0 sg1 j X =
     (if j \<ge> 16 then X[j mod 16 := sg1 (X ! ((j - 2) mod 16)) + X ! ((j - 7) mod 16) + sg0 (X ! ((j - 15) mod 16)) + X ! ((j - 16) mod 16)]
      else X)"

lemma sha2_ring_init: "length m = 16 \<Longrightarrow> sha2_ring sg0 sg1 m 0 m"
  by (auto simp: sha2_ring_def sha2_W.simps)

lemma sha2_ring_next:
  assumes "sha2_ring sg0 sg1 m j X"
  shows "sha2_ring sg0 sg1 m (Suc j) (sha2_next sg0 sg1 j X) \<and> sha2_next sg0 sg1 j X ! (j mod 16) = sha2_W sg0 sg1 m j"
proof (cases "j < 16")
  case True
  then show ?thesis using assms by (auto simp: sha2_ring_def sha2_next_def)
next
  case False
  have r: "X ! (i mod 16) = sha2_W sg0 sg1 m i" if "i < j" "j \<le> i + 16" for i
    using assms False that by (auto simp: sha2_ring_def max_def)
  let ?w = "sg1 (X ! ((j - 2) mod 16)) + X ! ((j - 7) mod 16) + sg0 (X ! ((j - 15) mod 16)) + X ! ((j - 16) mod 16)"
  have w: "?w = sha2_W sg0 sg1 m j"
    using False by (subst sha2_W.simps) (simp add: r)
  have n: "sha2_next sg0 sg1 j X = X[j mod 16 := sha2_W sg0 sg1 m j]"
    using False w by (simp add: sha2_next_def)
  have "X[j mod 16 := sha2_W sg0 sg1 m j] ! (i mod 16) = sha2_W sg0 sg1 m i" if "i < Suc j" "Suc j \<le> i + 16" for i
  proof (cases "i = j")
    case ne: False
    have "i mod 16 \<noteq> j mod 16"
    proof
      assume "i mod 16 = j mod 16"
      moreover have "i < j" using that ne by simp
      ultimately have "16 dvd j - i" by (metis mod_eq_dvd_iff_nat less_imp_le)
      moreover have "0 < j - i" "j - i < 16" using that \<open>i < j\<close> by auto
      ultimately show False by (auto dest: dvd_imp_le)
    qed
    then show ?thesis using r [of i] that ne by simp
  qed (use assms in \<open>simp add: sha2_ring_def\<close>)
  then show ?thesis
    unfolding n using assms False by (simp add: sha2_ring_def max_def)
qed

declare md_blocks.simps [code]

lemma eight_cells: "length xs = 8 \<Longrightarrow> \<exists>a b c d e f g h. xs = [a, b, c, d, e, f, g, h]"
  by (auto simp: numeral_eq_Suc length_Suc_conv)

lemma sha2_step_length: "length (sha2_step S0 S1 K W j s) = length s"
  by (auto simp: sha2_step_def Let_def split: list.splits)

lemma sha2_fold_length: "length (fold (sha2_step S0 S1 K W) js s) = length s"
  by (induction js arbitrary: s) (simp_all add: sha2_step_length)

lemma length_be_words: "0 < k \<Longrightarrow> length (be_words k b) = length b div k"
  by (simp add: be_words_def length_chunks)

lemma md_rep_blen: "md_rep bs compr n iv m c \<Longrightarrow> md_blen c < bs"
proof -
  assume "md_rep bs compr n iv m c"
  then obtain rest :: bytes where "length rest < unat bs" "md_blen c = of_nat (length rest)"
    unfolding md_rep_def md_holds_def by blast
  moreover have "unat (of_nat (length rest) :: size_t) \<le> length rest"
    by (simp add: unsigned_of_nat take_bit_nat_less_eq_self)
  ultimately show ?thesis by (simp add: word_less_nat_alt)
qed

lemma md_rep_init:
  "length iv = n \<Longrightarrow> 0 < unat bs \<Longrightarrow>
     md_rep bs compr n iv [] \<lparr>md_type = md, md_counter = 0, md_blen = 0, md_block = replicate (unat bs) 0, md_acc = iv\<rparr>"
  by (auto simp: md_rep_def md_holds_def md_absorb_def)

text \<open>The bit count of the code is the length of the message in bits.\<close>

lemma md_bitlen:
  assumes "L div bs < 2 ^ 32" "0 < bs" "bs \<le> 128"
  shows "(ucast (of_nat (L div bs) :: u32) * of_nat bs + ucast (of_nat (L mod bs) + 1 :: size_t) - 1) * 8 = (of_nat (8 * L) :: u64)"
proof -
  have c: "(ucast (of_nat (L div bs) :: u32) :: u64) = of_nat (L div bs)"
    using assms(1) by (simp add: word_unat_eq_iff unsigned_ucast_eq unsigned_of_nat take_bit_nat_eq_self)
  have "L mod bs < 128" using assms(2,3) by (metis mod_less_divisor order_less_le_trans)
  then have "(ucast (of_nat (Suc (L mod bs)) :: size_t) :: u64) = of_nat (Suc (L mod bs))"
    by (simp add: word_unat_eq_iff unsigned_ucast_eq unsigned_of_nat take_bit_nat_eq_self del: of_nat_Suc)
  moreover have "(of_nat (L mod bs) + 1 :: size_t) = of_nat (Suc (L mod bs))" by simp
  ultimately have l: "(ucast (of_nat (L mod bs) + 1 :: size_t) :: u64) = of_nat (L mod bs) + 1" by (simp add: add.commute)
  have "(of_nat (L div bs) * of_nat bs + of_nat (L mod bs) :: u64) = of_nat L"
    by (metis div_mult_mod_eq of_nat_add of_nat_mult)
  then show ?thesis unfolding c l by (simp add: algebra_simps)
qed

lemma le_bytes_swap64: "le_bytes 8 (cx_swap_uint64 v) = be_bytes 8 v"
  by (simp add: le_bytes_def be_bytes_swap64)

lemma length_words_be [simp]: "length (words_be k ws) = k * length ws"
  by (induction ws) (auto simp: words_be_def)

lemma sha2_rounds:
  assumes f: "\<And>j X s. length s = 8 \<Longrightarrow> sha2_ring sg0 sg1 m j X \<Longrightarrow>
      f j (X, s) = (sha2_next sg0 sg1 j X, sha2_step S0 S1 K (sha2_W sg0 sg1 m) j s)"
    and s: "length s = 8" "length m = 16"
  shows "\<exists>X. fold f [0..<j] (m, s) = (X, fold (sha2_step S0 S1 K (sha2_W sg0 sg1 m)) [0..<j] s) \<and> sha2_ring sg0 sg1 m j X"
proof (induction j)
  case 0
  then show ?case using sha2_ring_init [OF s(2)] by auto
next
  case (Suc j)
  let ?s = "fold (sha2_step S0 S1 K (sha2_W sg0 sg1 m)) [0..<j] s"
  obtain X where X: "fold f [0..<j] (m, s) = (X, ?s)" "sha2_ring sg0 sg1 m j X" using Suc by blast
  have "length ?s = 8" by (simp add: sha2_fold_length s(1))
  from f [OF this X(2)] show ?case
    using X(1) sha2_ring_next [OF X(2)] by simp
qed

lemma sha2_compress_length: "length (sha2_compress sg0 sg1 S0 S1 K r k h b) = length h"
  by (simp add: sha2_compress_def sha2_fold_length)

lemma md_absorb_length:
  assumes "\<And>h b. length (compr h b) = length h"
  shows "length (md_absorb bs compr h m) = length h"
proof -
  have "length (foldl compr h cs) = length h" for cs by (induction cs arbitrary: h) (simp_all add: assms)
  then show ?thesis by (simp add: md_absorb_def)
qed

lemma fold_fst_length:
  assumes "\<And>j s. length (fst (f j s)) = length (fst s)"
  shows "length (fst (fold f js s)) = length (fst s)"
  by (induction js arbitrary: s) (simp_all add: assms)

section \<open>Where the constants come from\<close>

text \<open>The tables of the standards are bits of roots of the first primes: \<open>k\<close> holds the first \<open>w\<close> bits of
  the fractional part of the \<open>e\<close>-th root of \<open>p\<close>, a root below 8.  The hash theories show it of the tables of the
  code, which the reference functions share with it.\<close>

definition int_root :: "nat \<Rightarrow> int \<Rightarrow> int" where
  "int_root e p = (if p < 2 ^ e then 1 else if p < 3 ^ e then 2 else if p < 4 ^ e then 3 else if p < 5 ^ e then 4
     else if p < 6 ^ e then 5 else if p < 7 ^ e then 6 else 7)"

definition root_bits :: "nat \<Rightarrow> nat \<Rightarrow> int \<Rightarrow> int \<Rightarrow> bool" where
  "root_bits e w p k =
     (let r = int_root e p * 2 ^ w + k in
      0 \<le> k \<and> k < 2 ^ w \<and> r ^ e \<le> p * 2 ^ (e * w) \<and> p * 2 ^ (e * w) < (r + 1) ^ e)"

definition first_primes :: "int list" where
  "first_primes =
     [2, 3, 5, 7, 11, 13, 17, 19, 23, 29, 31, 37, 41, 43, 47, 53, 59, 61, 67, 71,
      73, 79, 83, 89, 97, 101, 103, 107, 109, 113, 127, 131, 137, 139, 149, 151, 157, 163, 167, 173,
      179, 181, 191, 193, 197, 199, 211, 223, 227, 229, 233, 239, 241, 251, 257, 263, 269, 271, 277, 281,
      283, 293, 307, 311, 313, 317, 331, 337, 347, 349, 353, 359, 367, 373, 379, 383, 389, 397, 401, 409]"

lemmas root_table = first_primes_def root_bits_def int_root_def

section \<open>Several updates\<close>

text \<open>A message handed over in pieces; the first error stops.\<close>

primrec md_updates ::
  "('c \<Rightarrow> bytes option \<Rightarrow> size_t \<Rightarrow> (cx_err_t \<times> 'c) option) \<Rightarrow> 'c \<Rightarrow> bytes list \<Rightarrow> (cx_err_t \<times> 'c) option" where
  "md_updates upd ctx [] = Some (CX_OK, ctx)"
| "md_updates upd ctx (d # ds) = do {
     (e, ctx) \<leftarrow> upd ctx (Some d) (of_nat (length d));
     if e \<noteq> CX_OK then Some (e, ctx) else md_updates upd ctx ds }"

text \<open>An update function built on the shared loop.\<close>

locale md_hash = md_stream bs blk compr n
  for bs blk compr n +
  fixes chk :: bool and upd :: "'w cx_md_ctx \<Rightarrow> bytes option \<Rightarrow> size_t \<Rightarrow> (cx_err_t \<times> 'w cx_md_ctx) option"
  assumes upd_eq: "md_blen c < bs \<Longrightarrow> upd c (Some d) len = md_update chk bs blk c d len"
begin

lemma upd_rep:
  assumes "md_rep bs compr n iv m c" "length d < 2 ^ 32 - 128" "chk \<longrightarrow> length (m @ d) div unat bs \<le> 65535"
  shows "\<exists>c'. upd c (Some d) (of_nat (length d)) = Some (CX_OK, c') \<and> md_rep bs compr n iv (m @ d) c' \<and> md_type c' = md_type c"
  using update_rep [OF assms] upd_eq [OF md_rep_blen [OF assms(1)]] by simp

lemma updates_rep:
  assumes "\<forall>d\<in>set ds. length d < 2 ^ 32 - 128"
  shows "md_rep bs compr n iv m c \<Longrightarrow> chk \<longrightarrow> length (m @ concat ds) div unat bs \<le> 65535 \<Longrightarrow>
    \<exists>c'. md_updates upd c ds = Some (CX_OK, c') \<and> md_rep bs compr n iv (m @ concat ds) c' \<and> md_type c' = md_type c"
  using assms
proof (induction ds arbitrary: m c)
  case (Cons d ds)
  have "length (m @ d) div unat bs \<le> length (m @ concat (d # ds)) div unat bs" by (rule div_le_mono) simp
  then obtain c1 where c1: "upd c (Some d) (of_nat (length d)) = Some (CX_OK, c1)" "md_rep bs compr n iv (m @ d) c1" "md_type c1 = md_type c"
    using upd_rep [OF Cons.prems(1), of d] Cons.prems(2,3) by fastforce
  then show ?case using Cons.IH [OF c1(2)] Cons.prems by auto
qed auto

end

end
