(* ===== verification/Cx_Sha256.thy ===== *)
theory Cx_Sha256
  imports Cx_Stream
begin

text \<open>
  SHA-224 and SHA-256, \<^verbatim>\<open>lib_cxng/src/cx_sha256.c\<close>, for the little-endian targets of the SDK.  The context keeps the
  accumulator as words; the block is the byte array, which the compression reads as words and overwrites with its
  message schedule.  The reference is the compression and padding of FIPS 180-4.
\<close>

type_synonym cx_sha256_t = "u32 cx_md_ctx"

text \<open>The rows of the table are those of the source.\<close>

definition primeSqrt :: "u32 list" where
  "primeSqrt = concat
     [[0x428a2f98, 0x71374491, 0xb5c0fbcf, 0xe9b5dba5, 0x3956c25b, 0x59f111f1, 0x923f82a4, 0xab1c5ed5],
      [0xd807aa98, 0x12835b01, 0x243185be, 0x550c7dc3, 0x72be5d74, 0x80deb1fe, 0x9bdc06a7, 0xc19bf174],
      [0xe49b69c1, 0xefbe4786, 0x0fc19dc6, 0x240ca1cc, 0x2de92c6f, 0x4a7484aa, 0x5cb0a9dc, 0x76f988da],
      [0x983e5152, 0xa831c66d, 0xb00327c8, 0xbf597fc7, 0xc6e00bf3, 0xd5a79147, 0x06ca6351, 0x14292967],
      [0x27b70a85, 0x2e1b2138, 0x4d2c6dfc, 0x53380d13, 0x650a7354, 0x766a0abb, 0x81c2c92e, 0x92722c85],
      [0xa2bfe8a1, 0xa81a664b, 0xc24b8b70, 0xc76c51a3, 0xd192e819, 0xd6990624, 0xf40e3585, 0x106aa070],
      [0x19a4c116, 0x1e376c08, 0x2748774c, 0x34b0bcb5, 0x391c0cb3, 0x4ed8aa4a, 0x5b9cca4f, 0x682e6ff3],
      [0x748f82ee, 0x78a5636f, 0x84c87814, 0x8cc70208, 0x90befffa, 0xa4506ceb, 0xbef9a3f7, 0xc67178f2]]"

definition hzero_224 :: "u32 list" where
  "hzero_224 = [0xc1059ed8, 0x367cd507, 0x3070dd17, 0xf70e5939, 0xffc00b31, 0x68581511, 0x64f98fa7, 0xbefa4fa4]"

definition hzero :: "u32 list" where
  "hzero = [0x6a09e667, 0xbb67ae85, 0x3c6ef372, 0xa54ff53a, 0x510e527f, 0x9b05688c, 0x1f83d9ab, 0x5be0cd19]"

definition sig256 :: "u32 \<Rightarrow> nat \<Rightarrow> nat \<Rightarrow> nat \<Rightarrow> u32" where
  "sig256 x a b c = cx_rotr x a XOR cx_rotr x b XOR cx_shr x c"

definition sum256 :: "u32 \<Rightarrow> nat \<Rightarrow> nat \<Rightarrow> nat \<Rightarrow> u32" where
  "sum256 x a b c = cx_rotr x a XOR cx_rotr x b XOR cx_rotr x c"

definition sigma0 :: "u32 \<Rightarrow> u32" where "sigma0 x = sig256 x 7 18 3"
definition sigma1 :: "u32 \<Rightarrow> u32" where "sigma1 x = sig256 x 17 19 10"
definition sum0 :: "u32 \<Rightarrow> u32" where "sum0 x = sum256 x 2 13 22"
definition sum1 :: "u32 \<Rightarrow> u32" where "sum1 x = sum256 x 6 11 25"
definition ch :: "u32 \<Rightarrow> u32 \<Rightarrow> u32 \<Rightarrow> u32" where "ch x y z = z XOR (x AND (y XOR z))"
definition maj :: "u32 \<Rightarrow> u32 \<Rightarrow> u32 \<Rightarrow> u32" where "maj x y z = (x AND y) OR (z AND (x OR y))"

section \<open>Initialisation\<close>

definition cx_sha256_ctx :: "cx_md_t \<Rightarrow> u32 list \<Rightarrow> cx_sha256_t" where
  "cx_sha256_ctx md h = \<lparr>md_type = md, md_counter = 0, md_blen = 0, md_block = replicate 64 0, md_acc = h\<rparr>"

definition cx_sha224_init_no_throw :: "cx_err_t \<times> cx_sha256_t" where
  "cx_sha224_init_no_throw = (CX_OK, cx_sha256_ctx CX_SHA224 hzero_224)"

definition cx_sha256_init_no_throw :: "cx_err_t \<times> cx_sha256_t" where
  "cx_sha256_init_no_throw = (CX_OK, cx_sha256_ctx CX_SHA256 hzero)"

section \<open>Compression\<close>

text \<open>The schedule overwrites the block in place; \<open>ACC\<close> is shifted by one word and its words \<open>E\<close> and
  \<open>A\<close> are set.\<close>

definition sha256_round :: "nat \<Rightarrow> u32 list \<times> u32 list \<Rightarrow> u32 list \<times> u32 list" where
  "sha256_round j = (\<lambda>(X, ACC).
     (let X = (if j \<ge> 16
               then X[j mod 16 := sigma1 (X ! ((j - 2) mod 16)) + X ! ((j - 7) mod 16) +
                                  sigma0 (X ! ((j - 15) mod 16)) + X ! ((j - 16) mod 16)]
               else X);
          t1 = ACC ! 7 + sum1 (ACC ! 4) + ch (ACC ! 4) (ACC ! 5) (ACC ! 6) + primeSqrt ! j + X ! (j mod 16);
          t2 = sum0 (ACC ! 0) + maj (ACC ! 0) (ACC ! 1) (ACC ! 2);
          ACC = ACC ! 0 # take 7 ACC;
          ACC = ACC[4 := ACC ! 4 + t1];
          ACC = ACC[0 := t1 + t2]
      in (X, ACC)))"

definition cx_sha256_block :: "cx_sha256_t \<Rightarrow> cx_sha256_t" where
  "cx_sha256_block hash =
     (let X = cx_swap_buffer32 (le_words 4 (md_block hash));
          (X, ACC) = fold sha256_round [0..<64] (X, md_acc hash)
      in hash\<lparr>md_block := words_le 4 X, md_acc := map2 (+) (md_acc hash) ACC\<rparr>)"

section \<open>Update and end\<close>

definition cx_sha256_update :: "cx_sha256_t \<Rightarrow> bytes option \<Rightarrow> size_t \<Rightarrow> (cx_err_t \<times> cx_sha256_t) option" where
  "cx_sha256_update ctx data len =
     (case data of
        None \<Rightarrow> if len \<noteq> 0 then Some (CX_INVALID_PARAMETER, ctx)
                else if md_blen ctx \<ge> 64 then Some (CX_INVALID_PARAMETER, ctx\<lparr>md_blen := 0\<rparr>)
                else Some (CX_OK, ctx)
      | Some data \<Rightarrow>
          if md_blen ctx \<ge> 64 then Some (CX_INVALID_PARAMETER, ctx\<lparr>md_blen := 0\<rparr>)
          else md_update False 64 cx_sha256_block ctx data len)"

definition cx_sha256_final :: "cx_sha256_t \<Rightarrow> bytes \<Rightarrow> (cx_err_t \<times> cx_sha256_t \<times> bytes) option" where
  "cx_sha256_final ctx digest = do {
     (ctx, l) \<leftarrow> md_finish 64 8 cx_sha256_block ctx
        (\<lambda>cnt l. le_bytes 8 (cx_swap_uint64 ((ucast cnt * 64 + ucast l - 1) * 8)));
     let ctx = ctx\<lparr>md_blen := l, md_acc := cx_swap_buffer32 (md_acc ctx)\<rparr>;
     digest \<leftarrow> memcpy_n digest 0 (words_le 4 (md_acc ctx)) 0 (if md_type ctx = CX_SHA224 then 28 else 32);
     Some (CX_OK, ctx, digest) }"

text \<open>\<open>cx_hash_sha256\<close> returns the length it wrote and the output buffer.\<close>

definition cx_hash_sha256 :: "bytes option \<Rightarrow> size_t \<Rightarrow> bytes \<Rightarrow> size_t \<Rightarrow> (size_t \<times> bytes) option" where
  "cx_hash_sha256 in_data in_len out out_len =
     (if out_len < 32 then Some (0, out)
      else do {
        let (e, ctx) = cx_sha256_init_no_throw;
        (e, ctx) \<leftarrow> cx_sha256_update ctx in_data in_len;
        if e \<noteq> CX_OK then Some (0, out)
        else do { (e, ctx, out) \<leftarrow> cx_sha256_final ctx out; Some (32, out) } })"

section \<open>FIPS 180-4\<close>

text \<open>The constants are the first 32 bits of the fractional parts of the cube roots of the first 64 primes
  and of the square roots of the first eight.\<close>

lemma sha256_constants:
  "list_all2 (root_bits 3 32) (take 64 first_primes) (map uint primeSqrt)"
  "list_all2 (root_bits 2 32) (take 8 first_primes) (map uint hzero)"
  by (simp_all add: root_table primeSqrt_def hzero_def)

text \<open>The compression function and the padding of the standard.\<close>

definition fips_sha256_compress :: "u32 list \<Rightarrow> bytes \<Rightarrow> u32 list" where
  "fips_sha256_compress =
     sha2_compress
       (\<lambda>x. word_rotr 7 x XOR word_rotr 18 x XOR drop_bit 3 x)
       (\<lambda>x. word_rotr 17 x XOR word_rotr 19 x XOR drop_bit 10 x)
       (\<lambda>x. word_rotr 2 x XOR word_rotr 13 x XOR word_rotr 22 x)
       (\<lambda>x. word_rotr 6 x XOR word_rotr 11 x XOR word_rotr 25 x)
       primeSqrt 64 4"

definition fips_sha256_pad :: "bytes \<Rightarrow> bytes" where
  "fips_sha256_pad m = md_pad 64 8 (be_bytes 8 (of_nat (8 * length m) :: u64)) m"

definition fips_sha256 :: "u32 list \<Rightarrow> bytes \<Rightarrow> bytes" where
  "fips_sha256 iv m = words_be 4 (md_absorb 64 fips_sha256_compress iv (fips_sha256_pad m))"

lemma fips_sha256_compress_eq: "fips_sha256_compress = sha2_compress sigma0 sigma1 sum0 sum1 primeSqrt 64 4"
  by (simp add: fips_sha256_compress_def sigma0_def [abs_def] sigma1_def [abs_def] sum0_def [abs_def] sum1_def [abs_def]
      sig256_def sum256_def cx_rotr_word cx_shr_def)

lemma ch_eq: "ch x y z = ((x AND y) XOR (NOT x AND z))"
  by (rule bit_word_eqI) (auto simp: ch_def bit_simps)

lemma maj_eq: "maj x y z = ((x AND y) XOR (x AND z) XOR (y AND z))"
  by (rule bit_word_eqI) (auto simp: maj_def bit_simps)

lemma sha256_round_eq:
  assumes "length s = 8" "sha2_ring sigma0 sigma1 m j X"
  shows "sha256_round j (X, s) = (sha2_next sigma0 sigma1 j X, sha2_step sum0 sum1 primeSqrt (sha2_W sigma0 sigma1 m) j s)"
proof -
  obtain a b c d e f g h where s: "s = [a, b, c, d, e, f, g, h]" using eight_cells [OF assms(1)] by blast
  have w: "sha2_next sigma0 sigma1 j X ! (j mod 16) = sha2_W sigma0 sigma1 m j"
    using sha2_ring_next [OF assms(2)] by blast
  show ?thesis
    unfolding sha256_round_def Let_def prod.case sha2_next_def [symmetric] w
    by (simp add: s sha2_step_def ch_eq maj_eq numeral_eq_Suc Let_def)
qed

lemma cx_sha256_block_eq:
  assumes "length (md_block c) = 64" "length (md_acc c) = 8"
  shows "\<exists>b. length b = 64 \<and> cx_sha256_block c = c\<lparr>md_block := b, md_acc := fips_sha256_compress (md_acc c) (md_block c)\<rparr>"
proof -
  obtain X where "fold sha256_round [0..<64] (be_words 4 (md_block c), md_acc c) =
      (X, fold (sha2_step sum0 sum1 primeSqrt (sha2_W sigma0 sigma1 (be_words 4 (md_block c)))) [0..<64] (md_acc c))"
      "length X = 16"
    using sha2_rounds [OF sha256_round_eq, where s = "md_acc c" and m = "be_words 4 (md_block c)" and j = 64] assms
    by (auto simp: length_be_words sha2_ring_def)
  then show ?thesis
    by (intro exI [of _ "words_le 4 X"])
      (simp add: cx_sha256_block_def swap_buffer32_le fips_sha256_compress_eq sha2_compress_def)
qed

lemma fips_sha256_compress_length: "length (fips_sha256_compress h b) = length h"
  by (simp add: fips_sha256_compress_eq sha2_compress_length)

section \<open>Streaming\<close>

interpretation sha256: md_hash 64 cx_sha256_block fips_sha256_compress 8 False cx_sha256_update
proof
  show "md_type (cx_sha256_block c) = md_type c" "md_counter (cx_sha256_block c) = md_counter c"
      "md_blen (cx_sha256_block c) = md_blen c" for c
    by (simp_all add: cx_sha256_block_def Let_def split: prod.splits)
  show "md_acc (cx_sha256_block c) = fips_sha256_compress (md_acc c) (md_block c) \<and> length (md_acc (cx_sha256_block c)) = 8"
    if "length (md_block c) = unat (64 :: size_t)" "length (md_acc c) = 8" for c
    using cx_sha256_block_eq [of c] that by (auto simp: fips_sha256_compress_length)
  show "length (md_block (cx_sha256_block c)) = unat (64 :: size_t)" if "length (md_block c) = unat (64 :: size_t)" for c
  proof -
    have "length (fst (sha256_round j s)) = length (fst s)" for j s
      by (cases s) (simp add: sha256_round_def Let_def)
    from fold_fst_length [OF this, where js = "[0..<64]" and s = "(cx_swap_buffer32 (le_words 4 (md_block c)), md_acc c)"] show ?thesis
      using that by (simp add: cx_sha256_block_def Let_def swap_buffer32_le length_be_words case_prod_beta)
  qed
  show "cx_sha256_update c (Some d) len = md_update False 64 cx_sha256_block c d len" if "md_blen c < 64" for c d len
    using that by (simp add: cx_sha256_update_def not_le [symmetric])
qed simp_all

abbreviation sha256_rep :: "u32 list \<Rightarrow> bytes \<Rightarrow> cx_sha256_t \<Rightarrow> bool" where
  "sha256_rep \<equiv> md_rep 64 fips_sha256_compress 8"

lemma sha256_rep_init: "length h = 8 \<Longrightarrow> sha256_rep h [] (cx_sha256_ctx md h)"
  using md_rep_init [of h 8 64] by (simp add: cx_sha256_ctx_def)

lemma cx_sha256_final_rep:
  assumes "sha256_rep iv m c" "length m div 64 < 2 ^ 32" "k = (if md_type c = CX_SHA224 then 28 else 32)" "k \<le> length digest"
  shows "\<exists>c'. cx_sha256_final c digest = Some (CX_OK, c', take k (fips_sha256 iv m) @ drop k digest) \<and> md_type c' = md_type c"
proof -
  let ?lenb = "\<lambda>cnt l. le_bytes 8 (cx_swap_uint64 ((ucast (cnt :: u32) * 64 + ucast (l :: size_t) - 1) * 8))"
  have "?lenb (of_nat (length m div 64)) (of_nat (length m mod 64) + 1) = be_bytes 8 (of_nat (8 * length m) :: u64)"
    using md_bitlen [OF assms(2)] by (simp add: le_bytes_swap64)
  then obtain c' l where "md_finish 64 8 cx_sha256_block c ?lenb = Some (c', l)" "md_type c' = md_type c"
     "md_acc c' = md_absorb 64 fips_sha256_compress iv (fips_sha256_pad m)" "length (md_acc c') = 8"
    using sha256.finish_rep [OF assms(1), of 8 ?lenb] by (auto simp: fips_sha256_pad_def)
  then show ?thesis
    using assms(3,4) by (simp add: cx_sha256_final_def words_le_swap fips_sha256_def memcpy_n_in)
qed

lemma length_fips_sha256 [simp]: "length (fips_sha256 iv m) = 4 * length iv"
  by (simp add: fips_sha256_def md_absorb_length [OF fips_sha256_compress_length])

section \<open>Properties\<close>

text \<open>Hashing a message in pieces of any sizes with \<open>cx_sha224_init_no_throw\<close> or \<open>cx_sha256_init_no_throw\<close>,
  \<open>cx_sha256_update\<close> and \<open>cx_sha256_final\<close> gives the SHA-224 or SHA-256 of FIPS 180-4 of the whole message, for messages of
  less than 2 to the power 38 bytes; the in-place message schedule, the partial blocks and the padding
  in one or two blocks never show.\<close>

lemma cx_sha256_correct:
  assumes "\<forall>d\<in>set ds. length d < 2 ^ 32 - 128" "length (concat ds) < 2 ^ 38" "28 \<le> length dg4" "32 \<le> length dg6"
  shows "(\<exists>c c'. md_updates cx_sha256_update (snd cx_sha224_init_no_throw) ds = Some (CX_OK, c) \<and>
       cx_sha256_final c dg4 = Some (CX_OK, c', take 28 (fips_sha256 hzero_224 (concat ds)) @ drop 28 dg4)) \<and>
    (\<exists>c c'. md_updates cx_sha256_update (snd cx_sha256_init_no_throw) ds = Some (CX_OK, c) \<and>
       cx_sha256_final c dg6 = Some (CX_OK, c', fips_sha256 hzero (concat ds) @ drop 32 dg6))"
proof -
  let ?m = "concat ds"
  have lt: "length ?m div 64 < 2 ^ 32" using assms(2) by (simp add: div_less_iff_less_mult)
  have go: "\<exists>c c'. md_updates cx_sha256_update (cx_sha256_ctx md h) ds = Some (CX_OK, c) \<and>
      cx_sha256_final c dg = Some (CX_OK, c', take k (fips_sha256 h ?m) @ drop k dg)"
    if lh: "length h = 8" and "k = (if md = CX_SHA224 then 28 else 32)" "k \<le> length dg" for h k md dg
  proof -
    obtain c where c: "md_updates cx_sha256_update (cx_sha256_ctx md h) ds = Some (CX_OK, c)" "sha256_rep h ?m c" "md_type c = md"
      using sha256.updates_rep [OF assms(1) sha256_rep_init [OF lh, of md]] by (auto simp: cx_sha256_ctx_def)
    then show ?thesis using cx_sha256_final_rep [OF c(2) lt, of k dg] that by auto
  qed
  show ?thesis
    using go [of hzero_224 28 CX_SHA224 dg4] go [of hzero 32 CX_SHA256 dg6] assms(3,4)
    by (simp add: cx_sha224_init_no_throw_def cx_sha256_init_no_throw_def hzero_224_def hzero_def)
qed

end
