(* ===== verification/Cx_Sha512.thy ===== *)
theory Cx_Sha512
  imports Cx_Stream
begin

text \<open>
  SHA-384 and SHA-512, \<^verbatim>\<open>lib_cxng/src/cx_sha512.c\<close>, in the build with a native 64-bit type.
\<close>

type_synonym cx_sha512_t = "u64 cx_md_ctx"

text \<open>The macro \<open>_64BITS\<close> of the tables.\<close>

definition BITS64 :: "u32 \<Rightarrow> u32 \<Rightarrow> u64" where
  "BITS64 h l = push_bit 32 (ucast h) OR ucast l"

definition hzero_384 :: "u64 list" where
  "hzero_384 =
     [BITS64 0xcbbb9d5d 0xc1059ed8, BITS64 0x629a292a 0x367cd507, BITS64 0x9159015a 0x3070dd17, BITS64 0x152fecd8 0xf70e5939,
      BITS64 0x67332667 0xffc00b31, BITS64 0x8eb44a87 0x68581511, BITS64 0xdb0c2e0d 0x64f98fa7, BITS64 0x47b5481d 0xbefa4fa4]"

definition hzero_512 :: "u64 list" where
  "hzero_512 =
     [BITS64 0x6a09e667 0xf3bcc908, BITS64 0xbb67ae85 0x84caa73b, BITS64 0x3c6ef372 0xfe94f82b, BITS64 0xa54ff53a 0x5f1d36f1,
      BITS64 0x510e527f 0xade682d1, BITS64 0x9b05688c 0x2b3e6c1f, BITS64 0x1f83d9ab 0xfb41bd6b, BITS64 0x5be0cd19 0x137e2179]"

definition primeSqrt_512 :: "u64 list" where
  "primeSqrt_512 =
     [BITS64 0x428a2f98 0xd728ae22, BITS64 0x71374491 0x23ef65cd, BITS64 0xb5c0fbcf 0xec4d3b2f, BITS64 0xe9b5dba5 0x8189dbbc,
      BITS64 0x3956c25b 0xf348b538, BITS64 0x59f111f1 0xb605d019, BITS64 0x923f82a4 0xaf194f9b, BITS64 0xab1c5ed5 0xda6d8118,
      BITS64 0xd807aa98 0xa3030242, BITS64 0x12835b01 0x45706fbe, BITS64 0x243185be 0x4ee4b28c, BITS64 0x550c7dc3 0xd5ffb4e2,
      BITS64 0x72be5d74 0xf27b896f, BITS64 0x80deb1fe 0x3b1696b1, BITS64 0x9bdc06a7 0x25c71235, BITS64 0xc19bf174 0xcf692694,
      BITS64 0xe49b69c1 0x9ef14ad2, BITS64 0xefbe4786 0x384f25e3, BITS64 0x0fc19dc6 0x8b8cd5b5, BITS64 0x240ca1cc 0x77ac9c65,
      BITS64 0x2de92c6f 0x592b0275, BITS64 0x4a7484aa 0x6ea6e483, BITS64 0x5cb0a9dc 0xbd41fbd4, BITS64 0x76f988da 0x831153b5,
      BITS64 0x983e5152 0xee66dfab, BITS64 0xa831c66d 0x2db43210, BITS64 0xb00327c8 0x98fb213f, BITS64 0xbf597fc7 0xbeef0ee4,
      BITS64 0xc6e00bf3 0x3da88fc2, BITS64 0xd5a79147 0x930aa725, BITS64 0x06ca6351 0xe003826f, BITS64 0x14292967 0x0a0e6e70,
      BITS64 0x27b70a85 0x46d22ffc, BITS64 0x2e1b2138 0x5c26c926, BITS64 0x4d2c6dfc 0x5ac42aed, BITS64 0x53380d13 0x9d95b3df,
      BITS64 0x650a7354 0x8baf63de, BITS64 0x766a0abb 0x3c77b2a8, BITS64 0x81c2c92e 0x47edaee6, BITS64 0x92722c85 0x1482353b,
      BITS64 0xa2bfe8a1 0x4cf10364, BITS64 0xa81a664b 0xbc423001, BITS64 0xc24b8b70 0xd0f89791, BITS64 0xc76c51a3 0x0654be30,
      BITS64 0xd192e819 0xd6ef5218, BITS64 0xd6990624 0x5565a910, BITS64 0xf40e3585 0x5771202a, BITS64 0x106aa070 0x32bbd1b8,
      BITS64 0x19a4c116 0xb8d2d0c8, BITS64 0x1e376c08 0x5141ab53, BITS64 0x2748774c 0xdf8eeb99, BITS64 0x34b0bcb5 0xe19b48a8,
      BITS64 0x391c0cb3 0xc5c95a63, BITS64 0x4ed8aa4a 0xe3418acb, BITS64 0x5b9cca4f 0x7763e373, BITS64 0x682e6ff3 0xd6b2b8a3,
      BITS64 0x748f82ee 0x5defb2fc, BITS64 0x78a5636f 0x43172f60, BITS64 0x84c87814 0xa1f0ab72, BITS64 0x8cc70208 0x1a6439ec,
      BITS64 0x90befffa 0x23631e28, BITS64 0xa4506ceb 0xde82bde9, BITS64 0xbef9a3f7 0xb2c67915, BITS64 0xc67178f2 0xe372532b,
      BITS64 0xca273ece 0xea26619c, BITS64 0xd186b8c7 0x21c0c207, BITS64 0xeada7dd6 0xcde0eb1e, BITS64 0xf57d4f7f 0xee6ed178,
      BITS64 0x06f067aa 0x72176fba, BITS64 0x0a637dc5 0xa2c898a6, BITS64 0x113f9804 0xbef90dae, BITS64 0x1b710b35 0x131c471b,
      BITS64 0x28db77f5 0x23047d84, BITS64 0x32caab7b 0x40c72493, BITS64 0x3c9ebe0a 0x15c9bebc, BITS64 0x431d67c4 0x9c100d4c,
      BITS64 0x4cc5d4be 0xcb3e42b6, BITS64 0x597f299c 0xfc657e2a, BITS64 0x5fcb6fab 0x3ad6faec, BITS64 0x6c44198c 0x4a475817]"

definition sig512 :: "u64 \<Rightarrow> nat \<Rightarrow> nat \<Rightarrow> nat \<Rightarrow> u64" where
  "sig512 x a b c = cx_rotr64 x a XOR cx_rotr64 x b XOR cx_shr64 x c"

definition sum512 :: "u64 \<Rightarrow> nat \<Rightarrow> nat \<Rightarrow> nat \<Rightarrow> u64" where
  "sum512 x a b c = cx_rotr64 x a XOR cx_rotr64 x b XOR cx_rotr64 x c"

definition sigma0_512 :: "u64 \<Rightarrow> u64" where "sigma0_512 x = sig512 x 1 8 7"
definition sigma1_512 :: "u64 \<Rightarrow> u64" where "sigma1_512 x = sig512 x 19 61 6"
definition sum0_512 :: "u64 \<Rightarrow> u64" where "sum0_512 x = sum512 x 28 34 39"
definition sum1_512 :: "u64 \<Rightarrow> u64" where "sum1_512 x = sum512 x 14 18 41"
definition ch_512 :: "u64 \<Rightarrow> u64 \<Rightarrow> u64 \<Rightarrow> u64" where "ch_512 x y z = (x AND y) XOR (NOT x AND z)"
definition maj_512 :: "u64 \<Rightarrow> u64 \<Rightarrow> u64 \<Rightarrow> u64" where "maj_512 x y z = (x AND y) XOR (x AND z) XOR (y AND z)"

section \<open>Initialisation\<close>

definition cx_sha512_ctx :: "cx_md_t \<Rightarrow> u64 list \<Rightarrow> cx_sha512_t" where
  "cx_sha512_ctx md h = \<lparr>md_type = md, md_counter = 0, md_blen = 0, md_block = replicate 128 0, md_acc = h\<rparr>"

definition cx_sha384_init_no_throw :: "cx_err_t \<times> cx_sha512_t" where
  "cx_sha384_init_no_throw = (CX_OK, cx_sha512_ctx CX_SHA384 hzero_384)"

definition cx_sha512_init_no_throw :: "cx_err_t \<times> cx_sha512_t" where
  "cx_sha512_init_no_throw = (CX_OK, cx_sha512_ctx CX_SHA512 hzero_512)"

section \<open>Compression\<close>

text \<open>The code of the builds with a native 64-bit type; the fields \<open>a\<close> to \<open>h\<close> of the structure \<open>ACC\<close> are a list.\<close>

definition sha512_round :: "nat \<Rightarrow> u64 list \<times> u64 list \<Rightarrow> u64 list \<times> u64 list" where
  "sha512_round j = (\<lambda>(X, ACC).
     (let X = (if j \<ge> 16
               then let xj2 = X ! ((j - 2) mod 16); xj15 = X ! ((j - 15) mod 16)
                    in X[j mod 16 := sigma1_512 xj2 + X ! ((j - 7) mod 16) + sigma0_512 xj15 + X ! ((j - 16) mod 16)]
               else X);
          t1 = ACC ! 7 + sum1_512 (ACC ! 4) + ch_512 (ACC ! 4) (ACC ! 5) (ACC ! 6) + primeSqrt_512 ! j + X ! (j mod 16);
          t2 = sum0_512 (ACC ! 0) + maj_512 (ACC ! 0) (ACC ! 1) (ACC ! 2);
          ACC = ACC[7 := ACC ! 6];
          ACC = ACC[6 := ACC ! 5];
          ACC = ACC[5 := ACC ! 4];
          ACC = ACC[4 := ACC ! 3];
          ACC = ACC[3 := ACC ! 2];
          ACC = ACC[2 := ACC ! 1];
          ACC = ACC[1 := ACC ! 0];
          ACC = ACC[4 := ACC ! 4 + t1];
          ACC = ACC[0 := t1 + t2]
      in (X, ACC)))"

definition cx_sha512_block :: "cx_sha512_t \<Rightarrow> cx_sha512_t" where
  "cx_sha512_block hash =
     (let X = cx_swap_buffer64 (le_words 8 (md_block hash));
          (X, ACC) = fold sha512_round [0..<80] (X, md_acc hash)
      in hash\<lparr>md_block := words_le 8 X, md_acc := map2 (+) (md_acc hash) ACC\<rparr>)"

section \<open>Update and end\<close>

definition cx_sha512_update :: "cx_sha512_t \<Rightarrow> bytes option \<Rightarrow> size_t \<Rightarrow> (cx_err_t \<times> cx_sha512_t) option" where
  "cx_sha512_update ctx data len =
     (case data of
        None \<Rightarrow> if len = 0 then Some (CX_OK, ctx) else Some (CX_INVALID_PARAMETER, ctx)
      | Some data \<Rightarrow> md_update True 128 cx_sha512_block ctx data len)"

definition cx_sha512_final :: "cx_sha512_t \<Rightarrow> bytes \<Rightarrow> (cx_err_t \<times> cx_sha512_t \<times> bytes) option" where
  "cx_sha512_final ctx digest = do {
     (ctx, l) \<leftarrow> md_finish 128 16 cx_sha512_block ctx
        (\<lambda>cnt l. le_bytes 8 (cx_swap_uint64 ((ucast cnt * 128 + ucast l - 1) * 8)));
     let ctx = ctx\<lparr>md_acc := cx_swap_buffer64 (md_acc ctx)\<rparr>;
     digest \<leftarrow> memcpy_n digest 0 (words_le 8 (md_acc ctx)) 0 (if md_type ctx = CX_SHA512 then 64 else 48);
     Some (CX_OK, ctx, digest) }"

text \<open>\<open>cx_hash_sha512\<close> returns the length it wrote and the output buffer.\<close>

definition cx_hash_sha512 :: "bytes option \<Rightarrow> size_t \<Rightarrow> bytes \<Rightarrow> size_t \<Rightarrow> (size_t \<times> bytes) option" where
  "cx_hash_sha512 in_data in_len out out_len =
     (if out_len < 64 then Some (0, out)
      else do {
        let (e, ctx) = cx_sha512_init_no_throw;
        (e, ctx) \<leftarrow> cx_sha512_update ctx in_data in_len;
        if e \<noteq> CX_OK then Some (0, out)
        else do { (e, ctx, out) \<leftarrow> cx_sha512_final ctx out; Some (64, out) } })"

section \<open>FIPS 180-4\<close>

text \<open>The constants are the first 64 bits of the fractional parts of the cube roots of the first 80 primes and
  of the square roots of the first eight, or of the next eight for SHA-384.\<close>

lemma sha512_constants:
  "list_all2 (root_bits 3 64) first_primes (map uint primeSqrt_512)"
  "list_all2 (root_bits 2 64) (take 8 first_primes) (map uint hzero_512)"
  "list_all2 (root_bits 2 64) (take 8 (drop 8 first_primes)) (map uint hzero_384)"
  by (simp_all add: root_table primeSqrt_512_def hzero_512_def hzero_384_def BITS64_def)

definition fips_sha512_compress :: "u64 list \<Rightarrow> bytes \<Rightarrow> u64 list" where
  "fips_sha512_compress =
     sha2_compress
       (\<lambda>x. word_rotr 1 x XOR word_rotr 8 x XOR drop_bit 7 x)
       (\<lambda>x. word_rotr 19 x XOR word_rotr 61 x XOR drop_bit 6 x)
       (\<lambda>x. word_rotr 28 x XOR word_rotr 34 x XOR word_rotr 39 x)
       (\<lambda>x. word_rotr 14 x XOR word_rotr 18 x XOR word_rotr 41 x)
       primeSqrt_512 80 8"

text \<open>The length field of the padding has 16 bytes; the code writes its low half.\<close>

definition fips_sha512_pad :: "bytes \<Rightarrow> bytes" where
  "fips_sha512_pad m = md_pad 128 16 (be_bytes 8 (of_nat (8 * length m) :: u64)) m"

definition fips_sha512 :: "u64 list \<Rightarrow> bytes \<Rightarrow> bytes" where
  "fips_sha512 iv m = words_be 8 (md_absorb 128 fips_sha512_compress iv (fips_sha512_pad m))"

lemma fips_sha512_compress_eq: "fips_sha512_compress = sha2_compress sigma0_512 sigma1_512 sum0_512 sum1_512 primeSqrt_512 80 8"
  by (simp add: fips_sha512_compress_def sigma0_512_def [abs_def] sigma1_512_def [abs_def] sum0_512_def [abs_def]
      sum1_512_def [abs_def] sig512_def sum512_def cx_rotr64_word cx_shr64_def)

lemma sha512_round_eq:
  assumes "length s = 8" "sha2_ring sigma0_512 sigma1_512 m j X"
  shows "sha512_round j (X, s) =
    (sha2_next sigma0_512 sigma1_512 j X, sha2_step sum0_512 sum1_512 primeSqrt_512 (sha2_W sigma0_512 sigma1_512 m) j s)"
proof -
  obtain a b c d e f g h where s: "s = [a, b, c, d, e, f, g, h]" using eight_cells [OF assms(1)] by blast
  have w: "sha2_next sigma0_512 sigma1_512 j X ! (j mod 16) = sha2_W sigma0_512 sigma1_512 m j"
    using sha2_ring_next [OF assms(2)] by blast
  show ?thesis
    unfolding sha512_round_def Let_def prod.case sha2_next_def [symmetric] w
    by (simp add: s sha2_step_def ch_512_def maj_512_def numeral_eq_Suc Let_def)
qed

lemma cx_sha512_block_eq:
  assumes "length (md_block c) = 128" "length (md_acc c) = 8"
  shows "\<exists>b. length b = 128 \<and> cx_sha512_block c = c\<lparr>md_block := b, md_acc := fips_sha512_compress (md_acc c) (md_block c)\<rparr>"
proof -
  obtain X where "fold sha512_round [0..<80] (be_words 8 (md_block c), md_acc c) =
      (X, fold (sha2_step sum0_512 sum1_512 primeSqrt_512 (sha2_W sigma0_512 sigma1_512 (be_words 8 (md_block c)))) [0..<80] (md_acc c))"
      "length X = 16"
    using sha2_rounds [OF sha512_round_eq, where s = "md_acc c" and m = "be_words 8 (md_block c)" and j = 80] assms
    by (auto simp: length_be_words sha2_ring_def)
  then show ?thesis
    by (intro exI [of _ "words_le 8 X"])
      (simp add: cx_sha512_block_def swap_buffer64_le fips_sha512_compress_eq sha2_compress_def)
qed

lemma fips_sha512_compress_length: "length (fips_sha512_compress h b) = length h"
  by (simp add: fips_sha512_compress_eq sha2_compress_length)

section \<open>Streaming\<close>

interpretation sha512: md_hash 128 cx_sha512_block fips_sha512_compress 8 True cx_sha512_update
proof
  show "md_type (cx_sha512_block c) = md_type c" "md_counter (cx_sha512_block c) = md_counter c"
      "md_blen (cx_sha512_block c) = md_blen c" for c
    by (simp_all add: cx_sha512_block_def Let_def split: prod.splits)
  show "md_acc (cx_sha512_block c) = fips_sha512_compress (md_acc c) (md_block c) \<and> length (md_acc (cx_sha512_block c)) = 8"
    if "length (md_block c) = unat (128 :: size_t)" "length (md_acc c) = 8" for c
    using cx_sha512_block_eq [of c] that by (auto simp: fips_sha512_compress_length)
  show "length (md_block (cx_sha512_block c)) = unat (128 :: size_t)" if "length (md_block c) = unat (128 :: size_t)" for c
  proof -
    have "length (fst (sha512_round j s)) = length (fst s)" for j s
      by (cases s) (simp add: sha512_round_def Let_def)
    from fold_fst_length [OF this, where js = "[0..<80]" and s = "(cx_swap_buffer64 (le_words 8 (md_block c)), md_acc c)"] show ?thesis
      using that by (simp add: cx_sha512_block_def Let_def swap_buffer64_le length_be_words case_prod_beta)
  qed
  show "cx_sha512_update c (Some d) len = md_update True 128 cx_sha512_block c d len" if "md_blen c < 128" for c d len
    using that by (simp add: cx_sha512_update_def not_le [symmetric])
qed simp_all

abbreviation sha512_rep :: "u64 list \<Rightarrow> bytes \<Rightarrow> cx_sha512_t \<Rightarrow> bool" where
  "sha512_rep \<equiv> md_rep 128 fips_sha512_compress 8"

lemma sha512_rep_init: "length h = 8 \<Longrightarrow> sha512_rep h [] (cx_sha512_ctx md h)"
  using md_rep_init [of h 8 128] by (simp add: cx_sha512_ctx_def)

lemma cx_sha512_final_rep:
  assumes "sha512_rep iv m c" "length m div 128 < 2 ^ 32" "k = (if md_type c = CX_SHA512 then 64 else 48)" "k \<le> length digest"
  shows "\<exists>c'. cx_sha512_final c digest = Some (CX_OK, c', take k (fips_sha512 iv m) @ drop k digest) \<and> md_type c' = md_type c"
proof -
  let ?lenb = "\<lambda>cnt l. le_bytes 8 (cx_swap_uint64 ((ucast (cnt :: u32) * 128 + ucast (l :: size_t) - 1) * 8))"
  have "?lenb (of_nat (length m div 128)) (of_nat (length m mod 128) + 1) = be_bytes 8 (of_nat (8 * length m) :: u64)"
    using md_bitlen [OF assms(2)] by (simp add: le_bytes_swap64)
  then obtain c' l where "md_finish 128 16 cx_sha512_block c ?lenb = Some (c', l)" "md_type c' = md_type c"
     "md_acc c' = md_absorb 128 fips_sha512_compress iv (fips_sha512_pad m)" "length (md_acc c') = 8"
    using sha512.finish_rep [OF assms(1), of 16 ?lenb] by (auto simp: fips_sha512_pad_def)
  then show ?thesis
    using assms(3,4) by (simp add: cx_sha512_final_def words_le_swap fips_sha512_def memcpy_n_in)
qed

lemma length_fips_sha512 [simp]: "length (fips_sha512 iv m) = 8 * length iv"
  by (simp add: fips_sha512_def md_absorb_length [OF fips_sha512_compress_length])

section \<open>Properties\<close>

text \<open>Hashing a message in pieces of any sizes with \<open>cx_sha384_init_no_throw\<close> or \<open>cx_sha512_init_no_throw\<close>,
  \<open>cx_sha512_update\<close> and \<open>cx_sha512_final\<close> gives the SHA-384 or SHA-512 of FIPS 180-4 of the whole message, for messages of
  at most 65535 full blocks, the limit the update function enforces.\<close>

lemma cx_sha512_correct:
  assumes "\<forall>d\<in>set ds. length d < 2 ^ 32 - 128" "length (concat ds) div 128 \<le> 65535" "48 \<le> length dg4" "64 \<le> length dg6"
  shows "(\<exists>c c'. md_updates cx_sha512_update (snd cx_sha384_init_no_throw) ds = Some (CX_OK, c) \<and>
       cx_sha512_final c dg4 = Some (CX_OK, c', take 48 (fips_sha512 hzero_384 (concat ds)) @ drop 48 dg4)) \<and>
    (\<exists>c c'. md_updates cx_sha512_update (snd cx_sha512_init_no_throw) ds = Some (CX_OK, c) \<and>
       cx_sha512_final c dg6 = Some (CX_OK, c', fips_sha512 hzero_512 (concat ds) @ drop 64 dg6))"
proof -
  let ?m = "concat ds"
  have lt: "length ?m div 128 < 2 ^ 32" using assms(2) by simp
  have go: "\<exists>c c'. md_updates cx_sha512_update (cx_sha512_ctx md h) ds = Some (CX_OK, c) \<and>
      cx_sha512_final c dg = Some (CX_OK, c', take k (fips_sha512 h ?m) @ drop k dg)"
    if lh: "length h = 8" and "k = (if md = CX_SHA512 then 64 else 48)" "k \<le> length dg" for h k md dg
  proof -
    obtain c where c: "md_updates cx_sha512_update (cx_sha512_ctx md h) ds = Some (CX_OK, c)" "sha512_rep h ?m c" "md_type c = md"
      using sha512.updates_rep [OF assms(1) sha512_rep_init [OF lh, of md]] assms(2) by (auto simp: cx_sha512_ctx_def)
    then show ?thesis using cx_sha512_final_rep [OF c(2) lt, of k dg] that by auto
  qed
  show ?thesis
    using go [of hzero_384 48 CX_SHA384 dg4] go [of hzero_512 64 CX_SHA512 dg6] assms(3,4)
    by (simp add: cx_sha384_init_no_throw_def cx_sha512_init_no_throw_def hzero_384_def hzero_512_def)
qed

end
