(* ===== verification/Cx_Ripemd160.thy ===== *)
theory Cx_Ripemd160
  imports Cx_Stream
begin

text \<open>
  RIPEMD-160, \<^verbatim>\<open>lib_cxng/src/cx_ripemd160.c\<close>, for the little-endian targets of the SDK.
\<close>

type_synonym cx_ripemd160_t = "u32 cx_md_ctx"

section \<open>Tables\<close>

definition zL :: "nat list" where
  "zL =
     [0, 1, 2, 3, 4, 5, 6, 7, 8, 9, 10, 11, 12, 13, 14, 15,
     7, 4, 13, 1, 10, 6, 15, 3, 12, 0, 9, 5, 2, 14, 11, 8,
     3, 10, 14, 4, 9, 15, 8, 1, 2, 7, 0, 6, 13, 11, 5, 12,
     1, 9, 11, 10, 0, 8, 12, 4, 13, 3, 7, 15, 14, 5, 6, 2,
     4, 0, 5, 9, 7, 12, 2, 10, 14, 1, 3, 8, 11, 6, 15, 13]"

definition zR :: "nat list" where
  "zR =
     [5, 14, 7, 0, 9, 2, 11, 4, 13, 6, 15, 8, 1, 10, 3, 12,
     6, 11, 3, 7, 0, 13, 5, 10, 14, 15, 8, 12, 4, 9, 1, 2,
     15, 5, 1, 3, 7, 14, 6, 9, 11, 8, 12, 2, 10, 0, 4, 13,
     8, 6, 4, 1, 3, 11, 15, 0, 5, 12, 2, 13, 9, 7, 10, 14,
     12, 15, 10, 4, 1, 5, 8, 7, 6, 2, 13, 14, 0, 3, 9, 11]"

definition sL :: "nat list" where
  "sL =
     [11, 14, 15, 12, 5, 8, 7, 9, 11, 13, 14, 15, 6, 7, 9, 8,
     7, 6, 8, 13, 11, 9, 7, 15, 7, 12, 15, 9, 11, 7, 13, 12,
     11, 13, 6, 7, 14, 9, 13, 15, 14, 8, 13, 6, 5, 12, 7, 5,
     11, 12, 14, 15, 14, 15, 9, 8, 9, 14, 5, 6, 8, 6, 5, 12,
     9, 15, 5, 11, 6, 8, 13, 12, 5, 12, 13, 14, 11, 8, 5, 6]"

definition sR :: "nat list" where
  "sR =
     [8, 9, 9, 11, 13, 15, 15, 5, 7, 7, 8, 11, 14, 14, 12, 6,
     9, 13, 15, 7, 12, 8, 9, 11, 7, 7, 12, 7, 6, 15, 13, 11,
     9, 7, 15, 11, 8, 6, 6, 14, 12, 13, 5, 14, 13, 13, 7, 5,
     15, 5, 8, 11, 14, 14, 6, 14, 6, 9, 12, 9, 12, 5, 15, 8,
     8, 5, 12, 9, 12, 5, 14, 6, 8, 13, 6, 5, 15, 13, 11, 11]"

definition hzero_160 :: "u32 list" where
  "hzero_160 = [0x67452301, 0xEFCDAB89, 0x98BADCFE, 0x10325476, 0xC3D2E1F0]"

definition kL :: "nat \<Rightarrow> u32" where
  "kL i = (if i = 0 then 0x00000000 else if i = 1 then 0x5A827999 else if i = 2 then 0x6ED9EBA1
           else if i = 3 then 0x8F1BBCDC else 0xA953FD4E)"

definition kR :: "nat \<Rightarrow> u32" where
  "kR i = (if i = 0 then 0x50A28BE6 else if i = 1 then 0x5C4DD124 else if i = 2 then 0x6D703EF3
           else if i = 3 then 0x7A6D76E9 else 0x00000000)"

definition f1 :: "u32 \<Rightarrow> u32 \<Rightarrow> u32 \<Rightarrow> u32" where "f1 x y z = x XOR y XOR z"
definition f2 :: "u32 \<Rightarrow> u32 \<Rightarrow> u32 \<Rightarrow> u32" where "f2 x y z = (x AND y) OR (NOT x AND z)"
definition f3 :: "u32 \<Rightarrow> u32 \<Rightarrow> u32 \<Rightarrow> u32" where "f3 x y z = (x OR NOT y) XOR z"
definition f4 :: "u32 \<Rightarrow> u32 \<Rightarrow> u32 \<Rightarrow> u32" where "f4 x y z = (x AND z) OR (y AND NOT z)"
definition f5 :: "u32 \<Rightarrow> u32 \<Rightarrow> u32 \<Rightarrow> u32" where "f5 x y z = x XOR (y OR NOT z)"

section \<open>Initialisation and compression\<close>

definition cx_ripemd160_init_no_throw :: "cx_err_t \<times> cx_ripemd160_t" where
  "cx_ripemd160_init_no_throw =
     (CX_OK, \<lparr>md_type = CX_RIPEMD160, md_counter = 0, md_blen = 0, md_block = replicate 64 0, md_acc = hzero_160\<rparr>)"

text \<open>A round of both lines; the accumulators are the lists \<open>[A, B, C, D, E]\<close>.\<close>

definition ripemd160_round :: "u32 list \<Rightarrow> nat \<Rightarrow> u32 list \<times> u32 list \<Rightarrow> u32 list \<times> u32 list" where
  "ripemd160_round X j = (\<lambda>(ACCl, ACCr).
     (let Tl = ACCl ! 0 + X ! (zL ! j);
          Tr = ACCr ! 0 + X ! (zR ! j);
          (Tl, Tr) =
            (if j div 16 = 0 then (Tl + (f1 (ACCl ! 1) (ACCl ! 2) (ACCl ! 3) + kL 0), Tr + (f5 (ACCr ! 1) (ACCr ! 2) (ACCr ! 3) + kR 0))
             else if j div 16 = 1 then (Tl + (f2 (ACCl ! 1) (ACCl ! 2) (ACCl ! 3) + kL 1), Tr + (f4 (ACCr ! 1) (ACCr ! 2) (ACCr ! 3) + kR 1))
             else if j div 16 = 2 then (Tl + (f3 (ACCl ! 1) (ACCl ! 2) (ACCl ! 3) + kL 2), Tr + (f3 (ACCr ! 1) (ACCr ! 2) (ACCr ! 3) + kR 2))
             else if j div 16 = 3 then (Tl + (f4 (ACCl ! 1) (ACCl ! 2) (ACCl ! 3) + kL 3), Tr + (f2 (ACCr ! 1) (ACCr ! 2) (ACCr ! 3) + kR 3))
             else if j div 16 = 4 then (Tl + (f5 (ACCl ! 1) (ACCl ! 2) (ACCl ! 3) + kL 4), Tr + (f1 (ACCr ! 1) (ACCr ! 2) (ACCr ! 3) + kR 4))
             else (Tl, Tr));
          Tl = cx_rotl Tl (sL ! j) + ACCl ! 4;
          ACCl = [ACCl ! 4, Tl, ACCl ! 1, cx_rotl (ACCl ! 2) 10, ACCl ! 3];
          Tr = cx_rotl Tr (sR ! j) + ACCr ! 4;
          ACCr = [ACCr ! 4, Tr, ACCr ! 1, cx_rotl (ACCr ! 2) 10, ACCr ! 3]
      in (ACCl, ACCr)))"

definition cx_ripemd160_block :: "cx_ripemd160_t \<Rightarrow> cx_ripemd160_t" where
  "cx_ripemd160_block hash =
     (let X = le_words 4 (md_block hash);
          acc = md_acc hash;
          (ACCl, ACCr) = fold (ripemd160_round X) [0..<80] (acc, acc);
          Tl = acc ! 1 + ACCl ! 2 + ACCr ! 3;
          acc = acc[1 := acc ! 2 + ACCl ! 3 + ACCr ! 4];
          acc = acc[2 := acc ! 3 + ACCl ! 4 + ACCr ! 0];
          acc = acc[3 := acc ! 4 + ACCl ! 0 + ACCr ! 1];
          acc = acc[4 := acc ! 0 + ACCl ! 1 + ACCr ! 2];
          acc = acc[0 := Tl]
      in hash\<lparr>md_acc := acc\<rparr>)"

section \<open>Update and end\<close>

definition cx_ripemd160_update :: "cx_ripemd160_t \<Rightarrow> bytes option \<Rightarrow> size_t \<Rightarrow> (cx_err_t \<times> cx_ripemd160_t) option" where
  "cx_ripemd160_update ctx data len =
     (case data of
        None \<Rightarrow> if len \<noteq> 0 then Some (CX_INVALID_PARAMETER, ctx)
                else if md_blen ctx \<ge> 64 then Some (CX_INVALID_PARAMETER, ctx\<lparr>md_blen := 0\<rparr>)
                else Some (CX_OK, ctx)
      | Some data \<Rightarrow>
          if md_blen ctx \<ge> 64 then Some (CX_INVALID_PARAMETER, ctx\<lparr>md_blen := 0\<rparr>)
          else md_update True 64 cx_ripemd160_block ctx data len)"

text \<open>The bit count is an \<open>unsigned long\<close> of 32 bits, stored as a 64-bit little-endian number.\<close>

definition cx_ripemd160_final :: "cx_ripemd160_t \<Rightarrow> bytes \<Rightarrow> (cx_err_t \<times> cx_ripemd160_t \<times> bytes) option" where
  "cx_ripemd160_final ctx digest = do {
     (ctx, l) \<leftarrow> md_finish 64 8 cx_ripemd160_block ctx
        (\<lambda>cnt l. le_bytes 8 (ucast ((cnt * 64 + l - 1) * 8 :: u32) :: u64));
     digest \<leftarrow> memcpy_n digest 0 (words_le 4 (md_acc ctx)) 0 20;
     Some (CX_OK, ctx, digest) }"

definition cx_hash_ripemd160 :: "bytes option \<Rightarrow> size_t \<Rightarrow> bytes \<Rightarrow> size_t \<Rightarrow> (size_t \<times> bytes) option" where
  "cx_hash_ripemd160 in_data in_len out out_len =
     (if out_len < 20 then Some (0, out)
      else do {
        let (e, ctx) = cx_ripemd160_init_no_throw;
        (e, ctx) \<leftarrow> cx_ripemd160_update ctx in_data in_len;
        if e \<noteq> CX_OK then Some (0, out)
        else do { (e, ctx, out) \<leftarrow> cx_ripemd160_final ctx out; Some (20, out) } })"

section \<open>The RIPEMD-160 definition\<close>

text \<open>The tables follow the rules of the definition.  The message words of a round are those of the round before
  under the permutation \<open>rho\<close>, starting with the identity on the left and with \<open>9 i + 5\<close> on the right; in a round a
  message word is rotated by the same amount on both sides; the constants are the integer parts of \<open>2 ^ 30\<close> times the
  square roots of 2, 3, 5, 7 on the left and their cube roots on the right.\<close>

definition rmd_rho :: "nat list" where
  "rmd_rho = [7, 4, 13, 1, 10, 6, 15, 3, 12, 0, 9, 5, 2, 14, 11, 8]"

lemma rmd_order:
  "take 16 zL = [0..<16]" "drop 16 zL = map (\<lambda>z. rmd_rho ! z) (take 64 zL)"
  "take 16 zR = map (\<lambda>i. (9 * i + 5) mod 16) [0..<16]" "drop 16 zR = map (\<lambda>z. rmd_rho ! z) (take 64 zR)"
  by (simp_all add: zL_def zR_def rmd_rho_def upt_conv_Cons)

lemma rmd_rotations:
  "\<forall>r\<in>{0, 1, 2, 3, 4}. sort_key fst (take 16 (drop (16 * r) (zip zL sL))) = sort_key fst (take 16 (drop (16 * r) (zip zR sR)))"
  by (simp add: zL_def sL_def zR_def sR_def)

lemma rmd_constants:
  "list_all2 (\<lambda>p k. k ^ 2 \<le> p * 2 ^ 60 \<and> p * 2 ^ 60 < (k + 1) ^ 2) [2, 3, 5, 7 :: int] (map (uint \<circ> kL) [1, 2, 3, 4])"
  "list_all2 (\<lambda>p k. k ^ 3 \<le> p * 2 ^ 90 \<and> p * 2 ^ 90 < (k + 1) ^ 3) [2, 3, 5, 7 :: int] (map (uint \<circ> kR) [0, 1, 2, 3])"
  by (simp_all add: kL_def kR_def)

text \<open>Each line alone, with the selection functions in the order of the definition: the right line
  uses those of the left one backwards.\<close>

definition rmd_f :: "nat \<Rightarrow> u32 \<Rightarrow> u32 \<Rightarrow> u32 \<Rightarrow> u32" where
  "rmd_f j x y z =
     (if j < 16 then x XOR y XOR z
      else if j < 32 then (x AND y) OR (NOT x AND z)
      else if j < 48 then (x OR NOT y) XOR z
      else if j < 64 then (x AND z) OR (y AND NOT z)
      else x XOR (y OR NOT z))"

definition rmd_step ::
  "(nat \<Rightarrow> u32 \<Rightarrow> u32 \<Rightarrow> u32 \<Rightarrow> u32) \<Rightarrow> (nat \<Rightarrow> u32) \<Rightarrow> nat list \<Rightarrow> nat list \<Rightarrow> u32 list \<Rightarrow> nat \<Rightarrow> u32 list \<Rightarrow> u32 list" where
  "rmd_step f k z s X j hs =
     (case hs of [a, b, c, d, e] \<Rightarrow> [e, word_rotl (s ! j) (a + f j b c d + X ! (z ! j) + k (j div 16)) + e, b, word_rotl 10 c, d]
      | _ \<Rightarrow> hs)"

definition rmd_combine :: "u32 list \<Rightarrow> u32 list \<Rightarrow> u32 list \<Rightarrow> u32 list" where
  "rmd_combine hs l r =
     [hs ! 1 + l ! 2 + r ! 3, hs ! 2 + l ! 3 + r ! 4, hs ! 3 + l ! 4 + r ! 0, hs ! 4 + l ! 0 + r ! 1, hs ! 0 + l ! 1 + r ! 2]"

definition rmd_compress :: "u32 list \<Rightarrow> bytes \<Rightarrow> u32 list" where
  "rmd_compress hs b =
     rmd_combine hs (fold (rmd_step rmd_f kL zL sL (le_words 4 b)) [0..<80] hs)
       (fold (rmd_step (\<lambda>j. rmd_f (79 - j)) kR zR sR (le_words 4 b)) [0..<80] hs)"

definition rmd160 :: "bytes \<Rightarrow> bytes" where
  "rmd160 m = words_le 4 (md_absorb 64 rmd_compress hzero_160 (md_pad 64 8 (le_bytes 8 (of_nat (8 * length m) :: u64)) m))"

lemma five_cells: "length xs = 5 \<Longrightarrow> \<exists>a b c d e. xs = [a, b, c, d, e]"
  by (auto simp: numeral_eq_Suc length_Suc_conv)

lemma rmd_shifts:
  assumes "j < 80"
  shows "cx_rotl x (sL ! j) = word_rotl (sL ! j) x" "cx_rotl x (sR ! j) = word_rotl (sR ! j) x"
proof -
  have "list_all (\<lambda>n. 0 < n \<and> n < 32) sL" "list_all (\<lambda>n. 0 < n \<and> n < 32) sR" "length sL = 80" "length sR = 80"
    by (simp_all add: sL_def sR_def)
  then show "cx_rotl x (sL ! j) = word_rotl (sL ! j) x" "cx_rotl x (sR ! j) = word_rotl (sR ! j) x"
    using assms by (auto simp: list_all_length cx_rotl_word)
qed

lemma ripemd160_round_eq:
  assumes "length l = 5" "length r = 5" "j < 80"
  shows "ripemd160_round X j (l, r) = (rmd_step rmd_f kL zL sL X j l, rmd_step (\<lambda>j. rmd_f (79 - j)) kR zR sR X j r)"
proof -
  obtain a b c d e where l: "l = [a, b, c, d, e]" using five_cells [OF assms(1)] by blast
  obtain a' b' c' d' e' where r: "r = [a', b', c', d', e']" using five_cells [OF assms(2)] by blast
  have d: "j div 16 = k" if "16 * k \<le> j" "j < 16 * Suc k" for k
    using that by (simp add: div_nat_eqI)
  consider "j < 16" | "16 \<le> j" "j < 32" | "32 \<le> j" "j < 48" | "48 \<le> j" "j < 64" | "64 \<le> j" "j < 80"
    using assms(3) by linarith
  then show ?thesis
  proof cases
    case 1
    then show ?thesis using d [of 0]
      by (auto simp: ripemd160_round_def rmd_step_def rmd_shifts cx_rotl_word l r rmd_f_def f1_def f5_def ac_simps)
  next
    case 2
    then show ?thesis using d [of 1]
      by (auto simp: ripemd160_round_def rmd_step_def rmd_shifts cx_rotl_word l r rmd_f_def f2_def f4_def ac_simps)
  next
    case 3
    then show ?thesis using d [of 2]
      by (auto simp: ripemd160_round_def rmd_step_def rmd_shifts cx_rotl_word l r rmd_f_def f3_def ac_simps)
  next
    case 4
    then show ?thesis using d [of 3]
      by (auto simp: ripemd160_round_def rmd_step_def rmd_shifts cx_rotl_word l r rmd_f_def f2_def f4_def ac_simps)
  next
    case 5
    then show ?thesis using d [of 4]
      by (auto simp: ripemd160_round_def rmd_step_def rmd_shifts cx_rotl_word l r rmd_f_def f1_def f5_def ac_simps)
  qed
qed

lemma rmd_step_length: "length (rmd_step f k z s X j hs) = length hs"
  by (auto simp: rmd_step_def split: list.splits)

lemma ripemd160_rounds:
  assumes "length l = 5" "length r = 5" "n \<le> 80"
  shows "fold (ripemd160_round X) [0..<n] (l, r) =
      (fold (rmd_step rmd_f kL zL sL X) [0..<n] l, fold (rmd_step (\<lambda>j. rmd_f (79 - j)) kR zR sR X) [0..<n] r)"
  using assms(3)
proof (induction n)
  case (Suc n)
  have "length (fold (rmd_step f k z s X) js hs) = length hs" for f k z s js hs
    by (induction js arbitrary: hs) (simp_all add: rmd_step_length)
  then show ?case using Suc assms(1,2) by (simp add: ripemd160_round_eq)
qed simp

lemma cx_ripemd160_block_eq:
  assumes "length (md_acc c) = 5"
  shows "cx_ripemd160_block c = c\<lparr>md_acc := rmd_compress (md_acc c) (md_block c)\<rparr>"
proof -
  obtain h0 h1 h2 h3 h4 where h: "md_acc c = [h0, h1, h2, h3, h4]" using five_cells [OF assms] by blast
  show ?thesis
    using ripemd160_rounds [OF assms assms order.refl, of "le_words 4 (md_block c)"]
    by (simp add: cx_ripemd160_block_def rmd_compress_def rmd_combine_def Let_def h numeral_eq_Suc)
qed

section \<open>Streaming\<close>

interpretation ripemd160: md_hash 64 cx_ripemd160_block rmd_compress 5 True cx_ripemd160_update
proof
  show "md_type (cx_ripemd160_block c) = md_type c" "md_counter (cx_ripemd160_block c) = md_counter c"
      "md_blen (cx_ripemd160_block c) = md_blen c" for c
    by (simp_all add: cx_ripemd160_block_def Let_def case_prod_beta)
  show "md_acc (cx_ripemd160_block c) = rmd_compress (md_acc c) (md_block c) \<and> length (md_acc (cx_ripemd160_block c)) = 5"
    if "length (md_acc c) = 5" for c
    using that by (simp add: cx_ripemd160_block_eq rmd_compress_def rmd_combine_def)
  show "length (md_block (cx_ripemd160_block c)) = unat (64 :: size_t)" if "length (md_block c) = unat (64 :: size_t)" for c
    using that by (simp add: cx_ripemd160_block_def Let_def case_prod_beta)
  show "cx_ripemd160_update c (Some d) len = md_update True 64 cx_ripemd160_block c d len" if "md_blen c < 64" for c d len
    using that by (simp add: cx_ripemd160_update_def not_le [symmetric])
qed simp_all

abbreviation ripemd160_rep :: "bytes \<Rightarrow> cx_ripemd160_t \<Rightarrow> bool" where
  "ripemd160_rep \<equiv> md_rep 64 rmd_compress 5 hzero_160"

lemma ripemd160_rep_init: "ripemd160_rep [] (snd cx_ripemd160_init_no_throw)"
  using md_rep_init [of hzero_160 5 64] by (simp add: cx_ripemd160_init_no_throw_def hzero_160_def)

text \<open>The 32-bit bit count does not wrap on the messages the update function accepts.\<close>

lemma ripemd160_bitlen:
  assumes "L div 64 \<le> 65535"
  shows "ucast ((of_nat (L div 64) * 64 + (of_nat (L mod 64) + 1) - 1) * 8 :: u32) = (of_nat (8 * L) :: u64)"
proof -
  have "(of_nat (L div 64) * 64 + of_nat (L mod 64) :: u32) = of_nat L"
    by (metis div_mult_mod_eq of_nat_add of_nat_mult of_nat_numeral)
  then have "((of_nat (L div 64) * 64 + (of_nat (L mod 64) + 1) - 1) * 8 :: u32) = of_nat (8 * L)"
    by (simp add: algebra_simps)
  moreover have "8 * L < 2 ^ 32" using assms div_less_iff_less_mult [of 64 L 65536] by simp
  ultimately show ?thesis
    by (simp add: word_unat_eq_iff unsigned_ucast_eq unsigned_of_nat take_bit_nat_eq_self del: of_nat_mult)
qed

lemma cx_ripemd160_final_rep:
  assumes "ripemd160_rep m c" "length m div 64 \<le> 65535" "20 \<le> length digest"
  shows "\<exists>c'. cx_ripemd160_final c digest = Some (CX_OK, c', rmd160 m @ drop 20 digest) \<and> md_type c' = md_type c"
proof -
  let ?lenb = "\<lambda>cnt l. le_bytes 8 (ucast ((cnt * 64 + l - 1) * 8 :: u32) :: u64)"
  have "?lenb (of_nat (length m div 64)) (of_nat (length m mod 64) + 1) = le_bytes 8 (of_nat (8 * length m) :: u64)"
    using ripemd160_bitlen [OF assms(2)] by simp
  then obtain c' l where "md_finish 64 8 cx_ripemd160_block c ?lenb = Some (c', l)" "length (md_acc c') = 5" "md_type c' = md_type c"
     "md_acc c' = md_absorb 64 rmd_compress hzero_160 (md_pad 64 8 (le_bytes 8 (of_nat (8 * length m) :: u64)) m)"
    using ripemd160.finish_rep [OF assms(1), of 8 ?lenb] by auto
  moreover from this have "length (words_le 4 (md_acc c')) = 20" by simp
  ultimately show ?thesis
    using assms(3) by (simp add: cx_ripemd160_final_def rmd160_def memcpy_n_in)
qed

lemma length_rmd160 [simp]: "length (rmd160 m) = 20"
proof -
  have "length h = 5 \<Longrightarrow> length (foldl rmd_compress h bs) = 5" for h bs
    by (induction bs arbitrary: h) (simp_all add: rmd_compress_def rmd_combine_def)
  then show ?thesis by (simp add: rmd160_def md_absorb_def hzero_160_def)
qed

section \<open>Properties\<close>

text \<open>Hashing a message in pieces of any sizes with \<open>cx_ripemd160_init_no_throw\<close>, \<open>cx_ripemd160_update\<close> and
  \<open>cx_ripemd160_final\<close> gives the RIPEMD-160 of the whole message, for messages of at most 65535 full blocks, the
  limit the update function enforces; the 32-bit bit count does not overflow below that limit.\<close>

lemma cx_ripemd160_correct:
  assumes "\<forall>d\<in>set ds. length d < 2 ^ 32 - 128" "length (concat ds) div 64 \<le> 65535" "20 \<le> length digest"
  shows "\<exists>c c'. md_updates cx_ripemd160_update (snd cx_ripemd160_init_no_throw) ds = Some (CX_OK, c) \<and>
     cx_ripemd160_final c digest = Some (CX_OK, c', rmd160 (concat ds) @ drop 20 digest)"
proof -
  obtain c where c: "md_updates cx_ripemd160_update (snd cx_ripemd160_init_no_throw) ds = Some (CX_OK, c)" "ripemd160_rep (concat ds) c"
    using ripemd160.updates_rep [OF assms(1) ripemd160_rep_init] assms(2) by auto
  then show ?thesis using cx_ripemd160_final_rep [OF c(2) assms(2,3)] by blast
qed

end
