(* ===== verification/Cx_Sha3.thy ===== *)
theory Cx_Sha3
  imports Cx_Sha512
begin

text \<open>
  SHA-3, Keccak and SHAKE, \<^verbatim>\<open>lib_cxng/src/cx_sha3.c\<close>: the permutation on an array of 25 lanes, the sponge with
  its update and end, and the initialisations.  The reference is FIPS 202: the step mappings on the two-dimensional
  state, with the offsets and round constants computed as the standard defines them, and the sponge construction.
\<close>


section \<open>Contexts\<close>

record cx_sha3_t =
  s3_type :: cx_md_t
  s3_counter :: u32
  s3_output_size :: size_t
  s3_block_size :: size_t
  s3_blen :: size_t
  s3_block :: bytes
  s3_acc :: "u64 list"

section \<open>The permutation\<close>

text \<open>\<open>S64(x, y)\<close> is the lane \<open>x + 5 * y\<close>.\<close>

definition S64 :: "u64 list \<Rightarrow> nat \<Rightarrow> nat \<Rightarrow> u64" where
  "S64 state x y = state ! (x + 5 * y)"

definition cx_sha3_theta :: "u64 list \<Rightarrow> u64 list" where
  "cx_sha3_theta state =
     (let C = map (\<lambda>i. S64 state i 0 XOR S64 state i 1 XOR S64 state i 2 XOR S64 state i 3 XOR S64 state i 4) [0..<5];
          D = map (\<lambda>i. C ! ((i + 4) mod 5) XOR cx_rotl64 (C ! ((i + 1) mod 5)) 1) [0..<5]
      in fold (\<lambda>i state. fold (\<lambda>j state. state[i + 5 * j := S64 state i j XOR D ! i]) [0..<5] state) [0..<5] state)"

definition C_cx_pi_table :: "nat list" where
  "C_cx_pi_table = [10, 7, 11, 17, 18, 3, 5, 16, 8, 21, 24, 4, 15, 23, 19, 13, 12, 2, 20, 14, 22, 9, 6, 1]"

definition C_cx_rho_table :: "nat list" where
  "C_cx_rho_table = [1, 3, 6, 10, 15, 21, 28, 36, 45, 55, 2, 14, 27, 41, 56, 8, 25, 43, 62, 18, 39, 61, 20, 44]"

definition cx_sha3_rho_pi :: "u64 list \<Rightarrow> u64 list" where
  "cx_sha3_rho_pi state =
     fst (fold (\<lambda>i (state, A).
       let j = C_cx_pi_table ! i; tmp = state ! j
       in (state[j := cx_rotl64 A (C_cx_rho_table ! i)], tmp)) [0..<24] (state, state ! 1))"

definition cx_sha3_chi :: "u64 list \<Rightarrow> u64 list" where
  "cx_sha3_chi state =
     fold (\<lambda>j state.
       let C = map (\<lambda>i. S64 state i j) [0..<5]
       in fold (\<lambda>i state. state[i + 5 * j := S64 state i j XOR (NOT (C ! ((i + 1) mod 5)) AND C ! ((i + 2) mod 5))]) [0..<5] state)
     [0..<5] state"

definition C_cx_iota_RC :: "u64 list" where
  "C_cx_iota_RC =
     [BITS64 0x00000000 0x00000001, BITS64 0x00000000 0x00008082, BITS64 0x80000000 0x0000808A, BITS64 0x80000000 0x80008000,
      BITS64 0x00000000 0x0000808B, BITS64 0x00000000 0x80000001, BITS64 0x80000000 0x80008081, BITS64 0x80000000 0x00008009,
      BITS64 0x00000000 0x0000008A, BITS64 0x00000000 0x00000088, BITS64 0x00000000 0x80008009, BITS64 0x00000000 0x8000000A,
      BITS64 0x00000000 0x8000808B, BITS64 0x80000000 0x0000008B, BITS64 0x80000000 0x00008089, BITS64 0x80000000 0x00008003,
      BITS64 0x80000000 0x00008002, BITS64 0x80000000 0x00000080, BITS64 0x00000000 0x0000800A, BITS64 0x80000000 0x8000000A,
      BITS64 0x80000000 0x80008081, BITS64 0x80000000 0x00008080, BITS64 0x00000000 0x80000001, BITS64 0x80000000 0x80008008]"

definition cx_sha3_iota :: "u64 list \<Rightarrow> nat \<Rightarrow> u64 list" where
  "cx_sha3_iota state rnd = state[0 := S64 state 0 0 XOR C_cx_iota_RC ! rnd]"

text \<open>A round, the body of the loop of \<open>cx_sha3_block\<close>.\<close>

definition cx_sha3_round :: "nat \<Rightarrow> u64 list \<Rightarrow> u64 list" where
  "cx_sha3_round r acc = cx_sha3_iota (cx_sha3_chi (cx_sha3_rho_pi (cx_sha3_theta acc))) r"


section \<open>Initialisation\<close>

text \<open>A context cleared by \<open>memset\<close>, with the algorithm its \<open>info\<close> pointer describes and the two sizes.\<close>

definition cx_sha3_ctx :: "cx_md_t \<Rightarrow> size_t \<Rightarrow> size_t \<Rightarrow> cx_sha3_t" where
  "cx_sha3_ctx md osz bsz =
     \<lparr>s3_type = md, s3_counter = 0, s3_output_size = osz, s3_block_size = bsz, s3_blen = 0,
      s3_block = replicate 200 0, s3_acc = replicate 25 0\<rparr>"

definition check_hash_out_size :: "size_t \<Rightarrow> bool" where
  "check_hash_out_size sz = (sz \<in> set [128, 224, 256, 384, 512])"

text \<open>The initialisations return the new context, or \<^term>\<open>None\<close> when they leave the one they got as it was.\<close>

definition cx_sha3_init_no_throw :: "size_t \<Rightarrow> cx_err_t \<times> cx_sha3_t option" where
  "cx_sha3_init_no_throw sz =
     (if \<not> check_hash_out_size sz then (CX_INVALID_PARAMETER, None)
      else (CX_OK, Some (cx_sha3_ctx CX_SHA3 (drop_bit 3 sz) (drop_bit 3 (1600 - 2 * sz)))))"

definition cx_keccak_init_no_throw :: "size_t \<Rightarrow> cx_err_t \<times> cx_sha3_t option" where
  "cx_keccak_init_no_throw sz =
     (if \<not> check_hash_out_size sz then (CX_INVALID_PARAMETER, None)
      else let (e, hash) = cx_sha3_init_no_throw sz
           in if e \<noteq> CX_OK then (CX_INVALID_PARAMETER, hash)
              else (CX_OK, map_option (\<lambda>hash. hash\<lparr>s3_type := CX_KECCAK\<rparr>) hash))"

text \<open>The \<open>info\<close> pointer of a cleared context is null, here \<open>CX_NONE\<close>.\<close>

definition cx_shake128_init_no_throw :: "size_t \<Rightarrow> cx_err_t \<times> cx_sha3_t option" where
  "cx_shake128_init_no_throw sz =
     (if sz mod 8 \<noteq> 0 then (CX_INVALID_PARAMETER, Some (cx_sha3_ctx CX_NONE 0 0))
      else (CX_OK, Some (cx_sha3_ctx CX_SHAKE128 (sz div 8) (drop_bit 3 (1600 - 2 * 128)))))"

definition cx_shake256_init_no_throw :: "size_t \<Rightarrow> cx_err_t \<times> cx_sha3_t option" where
  "cx_shake256_init_no_throw sz =
     (if sz mod 8 \<noteq> 0 then (CX_INVALID_PARAMETER, Some (cx_sha3_ctx CX_NONE 0 0))
      else (CX_OK, Some (cx_sha3_ctx CX_SHAKE256 (sz div 8) (drop_bit 3 (1600 - 2 * 256)))))"

definition cx_sha3_xof_init_no_throw :: "size_t \<Rightarrow> size_t \<Rightarrow> cx_err_t \<times> cx_sha3_t option" where
  "cx_sha3_xof_init_no_throw sz out_length =
     (if sz \<noteq> 128 \<and> sz \<noteq> 256 then (CX_INVALID_PARAMETER, None)
      else (CX_OK, Some (cx_sha3_ctx (if sz = 128 then CX_SHAKE128 else CX_SHAKE256) out_length (drop_bit 3 (1600 - 2 * sz)))))"

section \<open>Blocks\<close>

definition sha3_lanes :: "size_t \<Rightarrow> nat" where
  "sha3_lanes block_size =
     (if block_size > 144 then 21 else if block_size > 136 then 18 else if block_size > 104 then 17
      else if block_size > 72 then 13 else 9)"

definition cx_sha3_block :: "cx_sha3_t \<Rightarrow> cx_sha3_t" where
  "cx_sha3_block hash =
     (let block = le_words 8 (s3_block hash);
          acc = fold (\<lambda>i acc. acc[i := acc ! i XOR block ! i]) [0..<sha3_lanes (s3_block_size hash)] (s3_acc hash)
      in hash\<lparr>s3_acc := fold cx_sha3_round [0..<24] acc\<rparr>)"

section \<open>Update\<close>

partial_function (option) sha3_blocks ::
  "cx_sha3_t \<Rightarrow> size_t \<Rightarrow> size_t \<Rightarrow> size_t \<Rightarrow> bytes \<Rightarrow> size_t \<Rightarrow> (cx_err_t \<times> cx_sha3_t \<times> bytes \<times> size_t) option" where
  "sha3_blocks ctx block_size blen r data len =
     (if s3_counter ctx = CX_HASH_MAX_BLOCK_COUNT then Some (INVALID_PARAMETER, ctx, data, len)
      else do {
        b \<leftarrow> memcpy_n (s3_block ctx) (unat blen) data 0 (unat r);
        let ctx = cx_sha3_block (ctx\<lparr>s3_block := b\<rparr>);
        let ctx = ctx\<lparr>s3_counter := s3_counter ctx + 1\<rparr>;
        let data = drop (unat r) data;
        let len = len - r;
        if len \<ge> block_size then sha3_blocks ctx block_size 0 block_size data len
        else Some (CX_OK, ctx, data, len) })"

definition sha3_rest :: "cx_sha3_t \<Rightarrow> size_t \<Rightarrow> bytes \<Rightarrow> size_t \<Rightarrow> (cx_err_t \<times> cx_sha3_t) option" where
  "sha3_rest ctx blen data len = do {
     b \<leftarrow> memcpy_n (s3_block ctx) (unat blen) data 0 (unat len);
     Some (CX_OK, ctx\<lparr>s3_block := b, s3_blen := blen + len\<rparr>) }"

definition cx_sha3_update :: "cx_sha3_t \<Rightarrow> bytes option \<Rightarrow> size_t \<Rightarrow> (cx_err_t \<times> cx_sha3_t) option" where
  "cx_sha3_update ctx data len =
     (case data of
        None \<Rightarrow> Some (if len = 0 then CX_OK else CX_INVALID_PARAMETER, ctx)
      | Some data \<Rightarrow>
          let block_size = s3_block_size ctx
          in if block_size > 200 then Some (CX_INVALID_PARAMETER, ctx)
             else let blen = s3_blen ctx; ctx = ctx\<lparr>s3_blen := 0\<rparr>
                  in if blen \<ge> block_size then Some (CX_INVALID_PARAMETER, ctx)
                     else if blen + len \<ge> block_size then do {
                       (e, ctx, data, len) \<leftarrow> sha3_blocks ctx block_size blen (block_size - blen) data len;
                       if e \<noteq> CX_OK then Some (e, ctx) else sha3_rest ctx 0 data len }
                     else sha3_rest ctx blen data len)"

section \<open>End\<close>

text \<open>The loop that squeezes full blocks; \<open>pos\<close> is how far \<open>digest\<close> has advanced.\<close>

partial_function (option) sha3_squeeze ::
  "cx_sha3_t \<Rightarrow> size_t \<Rightarrow> bytes \<Rightarrow> nat \<Rightarrow> size_t \<Rightarrow> (cx_sha3_t \<times> bytes \<times> nat \<times> size_t) option" where
  "sha3_squeeze hash block_size digest pos blen =
     (if blen > block_size then do {
        digest \<leftarrow> memcpy_n digest pos (words_le 8 (s3_acc hash)) 0 (unat block_size);
        sha3_squeeze (cx_sha3_block hash) block_size digest (pos + unat block_size) (blen - block_size) }
      else Some (hash, digest, pos, blen))"

definition or_byte :: "bytes \<Rightarrow> nat \<Rightarrow> u8 \<Rightarrow> bytes option" where
  "or_byte b i v = do { x \<leftarrow> ld b i; st b i (x OR v) }"

text \<open>The padding of the last block, with the byte \<open>pad\<close> after the data.\<close>

definition sha3_pad_block :: "cx_sha3_t \<Rightarrow> u8 \<Rightarrow> cx_sha3_t option" where
  "sha3_pad_block hash pad = do {
     b \<leftarrow> memset_n (s3_block hash) (unat (s3_blen hash)) 0 (unat (200 - s3_blen hash));
     b \<leftarrow> or_byte b (unat (s3_blen hash)) pad;
     b \<leftarrow> or_byte b (unat (s3_block_size hash - 1)) 0x80;
     Some (cx_sha3_block (hash\<lparr>s3_block := b\<rparr>)) }"

definition cx_sha3_final :: "cx_sha3_t \<Rightarrow> bytes \<Rightarrow> (cx_err_t \<times> cx_sha3_t \<times> bytes) option" where
  "cx_sha3_final hash digest =
     (if s3_type hash = CX_KECCAK \<or> s3_type hash = CX_SHA3 then do {
        hash \<leftarrow> sha3_pad_block hash (if s3_type hash = CX_KECCAK then 0x01 else 0x06);
        digest \<leftarrow> memcpy_n digest 0 (words_le 8 (s3_acc hash)) 0 (unat (s3_output_size hash));
        Some (CX_OK, hash, digest) }
      else do {
        hash \<leftarrow> sha3_pad_block hash 0x1F;
        b \<leftarrow> memset_n (s3_block hash) 0 0 200;
        (hash, digest, pos, blen) \<leftarrow>
          sha3_squeeze (hash\<lparr>s3_block := b\<rparr>) (s3_block_size hash) digest 0 (s3_output_size hash);
        digest \<leftarrow> memcpy_n digest pos (words_le 8 (s3_acc hash)) 0 (unat blen);
        Some (CX_OK, hash, digest) })"

definition cx_sha3_get_output_size :: "cx_sha3_t \<Rightarrow> size_t" where
  "cx_sha3_get_output_size ctx = s3_output_size ctx"

section \<open>The permutation of FIPS 202\<close>

type_synonym lanes = "nat \<Rightarrow> nat \<Rightarrow> u64"

definition fips_theta :: "lanes \<Rightarrow> lanes" where
  "fips_theta A =
     (let C = (\<lambda>x. A x 0 XOR A x 1 XOR A x 2 XOR A x 3 XOR A x 4);
          D = (\<lambda>x. C ((x + 4) mod 5) XOR word_rotl 1 (C ((x + 1) mod 5)))
      in (\<lambda>x y. A x y XOR D x))"

text \<open>The offsets of \<open>rho\<close> along the walk that starts at (1, 0).\<close>

primrec rho_walk :: "nat \<Rightarrow> nat \<Rightarrow> nat \<Rightarrow> nat \<Rightarrow> ((nat \<times> nat) \<times> nat) list" where
  "rho_walk 0 t x y = []"
| "rho_walk (Suc k) t x y = ((x, y), (t + 1) * (t + 2) div 2 mod 64) # rho_walk k (t + 1) y ((2 * x + 3 * y) mod 5)"

definition rho_offset :: "nat \<Rightarrow> nat \<Rightarrow> nat" where
  "rho_offset x y = (case map_of (rho_walk 24 0 1 0) (x, y) of Some n \<Rightarrow> n | None \<Rightarrow> 0)"

definition fips_rho :: "lanes \<Rightarrow> lanes" where
  "fips_rho A = (\<lambda>x y. word_rotl (rho_offset x y) (A x y))"

definition fips_pi :: "lanes \<Rightarrow> lanes" where
  "fips_pi A = (\<lambda>x y. A ((x + 3 * y) mod 5) x)"

definition fips_chi :: "lanes \<Rightarrow> lanes" where
  "fips_chi A = (\<lambda>x y. A x y XOR (NOT (A ((x + 1) mod 5) y) AND A ((x + 2) mod 5) y))"

text \<open>The round constants from the linear feedback shift register of the standard.\<close>

definition rc_step :: "bool list \<Rightarrow> bool list" where
  "rc_step R =
     (let R = False # R
      in take 8 (R[0 := (R ! 0 \<noteq> R ! 8), 4 := (R ! 4 \<noteq> R ! 8), 5 := (R ! 5 \<noteq> R ! 8), 6 := (R ! 6 \<noteq> R ! 8)]))"

primrec rc_bits :: "nat \<Rightarrow> bool list \<Rightarrow> bool list" where
  "rc_bits 0 R = []"
| "rc_bits (Suc k) R = R ! 0 # rc_bits k (rc_step R)"

definition fips_RC :: "nat \<Rightarrow> u64" where
  "fips_RC ir =
     (let bs = drop (7 * ir) (rc_bits 168 [True, False, False, False, False, False, False, False])
      in foldr (\<lambda>j w. if bs ! j then w OR push_bit (2 ^ j - 1) 1 else w) [0..<7] 0)"

definition fips_iota :: "nat \<Rightarrow> lanes \<Rightarrow> lanes" where
  "fips_iota ir A = (\<lambda>x y. if x = 0 \<and> y = 0 then A 0 0 XOR fips_RC ir else A x y)"

definition fips_round :: "nat \<Rightarrow> lanes \<Rightarrow> lanes" where
  "fips_round ir A = fips_iota ir (fips_chi (fips_pi (fips_rho (fips_theta A))))"

definition keccak_p :: "lanes \<Rightarrow> lanes" where
  "keccak_p A = fold fips_round [0..<24] A"

section \<open>The permutations agree\<close>

definition lane_list :: "lanes \<Rightarrow> u64 list" where
  "lane_list A = map (\<lambda>i. A (i mod 5) (i div 5)) [0..<25]"

lemma upt5: "[0..<5] = [0, 1, 2, 3, 4]"
  by (simp add: upt_conv_Cons)

lemma upt25: "[0..<25] = [0, 1, 2, 3, 4, 5, 6, 7, 8, 9, 10, 11, 12, 13, 14, 15, 16, 17, 18, 19, 20, 21, 22, 23, 24]"
  by (simp add: upt_conv_Cons)

lemma upt24: "[0..<24] = [0, 1, 2, 3, 4, 5, 6, 7, 8, 9, 10, 11, 12, 13, 14, 15, 16, 17, 18, 19, 20, 21, 22, 23]"
  by (simp add: upt_conv_Cons)

lemma lane_list_eq:
  "lane_list A = [A 0 0, A 1 0, A 2 0, A 3 0, A 4 0, A 0 1, A 1 1, A 2 1, A 3 1, A 4 1, A 0 2, A 1 2, A 2 2, A 3 2, A 4 2,
     A 0 3, A 1 3, A 2 3, A 3 3, A 4 3, A 0 4, A 1 4, A 2 4, A 3 4, A 4 4]"
  by (simp add: lane_list_def upt25)

lemma cx_rotl64_word: "0 < n \<Longrightarrow> n < 64 \<Longrightarrow> cx_rotl64 x n = word_rotl n x"
  using rotr_bits [of "64 - n" x] by (simp add: cx_rotl64_def word_rotl_eq_word_rotr or.commute)

lemma theta_eq: "cx_sha3_theta (lane_list A) = lane_list (fips_theta A)"
  by (simp add: cx_sha3_theta_def lane_list_eq fips_theta_def S64_def upt5 Let_def cx_rotl64_word flip: numeral_2_eq_2)

lemma chi_eq: "cx_sha3_chi (lane_list A) = lane_list (fips_chi A)"
  by (simp add: cx_sha3_chi_def lane_list_eq fips_chi_def S64_def upt5 Let_def flip: numeral_2_eq_2)

lemma rho_walk_eq: "rho_walk 24 0 1 0 =
    [((1, 0), 1), ((0, 2), 3), ((2, 1), 6), ((1, 2), 10), ((2, 3), 15), ((3, 3), 21), ((3, 0), 28), ((0, 1), 36),
     ((1, 3), 45), ((3, 1), 55), ((1, 4), 2), ((4, 4), 14), ((4, 0), 27), ((0, 3), 41), ((3, 4), 56), ((4, 3), 8),
     ((3, 2), 25), ((2, 2), 43), ((2, 0), 62), ((0, 4), 18), ((4, 2), 39), ((2, 4), 61), ((4, 1), 20), ((1, 1), 44)]"
  by code_simp

lemma rho_offsets:
  "map (\<lambda>(x, y). rho_offset x y) [(1, 0), (0, 2), (2, 1), (1, 2), (2, 3), (3, 3), (3, 0), (0, 1), (1, 3), (3, 1), (1, 4), (4, 4),
     (4, 0), (0, 3), (3, 4), (4, 3), (3, 2), (2, 2), (2, 0), (0, 4), (4, 2), (2, 4), (4, 1), (1, 1), (0, 0)] = C_cx_rho_table @ [0]"
  unfolding rho_offset_def rho_walk_eq C_cx_rho_table_def by simp

lemma rho_pi_eq: "cx_sha3_rho_pi (lane_list A) = lane_list (fips_pi (fips_rho A))"
proof -
  have z: "word_rotl 0 x = x" for x :: u64 by transfer (simp add: concat_bit_def)
  show ?thesis
    using rho_offsets
    by (simp add: cx_sha3_rho_pi_def lane_list_eq fips_pi_def fips_rho_def upt24 Let_def C_cx_pi_table_def
        C_cx_rho_table_def cx_rotl64_word z flip: numeral_2_eq_2)
qed

lemma rc_bits_eq: "rc_bits 168 [True, False, False, False, False, False, False, False] =
    [True, False, False, False, False, False, False, False, True, False, True, True, False, False, False, True,
     True, True, True, False, True, False, False, False, False, True, True, True, True, True, True, True, True,
     False, False, True, False, False, False, False, True, False, True, False, False, True, True, True, True, True,
     False, True, False, True, False, True, False, True, True, True, False, False, False, False, False, True, True,
     False, False, False, True, False, True, False, True, True, False, False, True, True, False, False, True,
     False, True, True, True, True, True, True, False, True, True, True, True, False, False, True, True, False,
     True, True, True, False, True, True, True, False, False, True, False, True, False, True, False, False, True,
     False, True, False, False, False, True, False, False, True, False, True, True, False, True, False, False,
     False, True, True, False, False, True, True, True, False, False, True, True, True, True, False, False, False,
     True, True, False, True, True, False, False, False, False, True, False, False, False, True, False, True, True,
     True]"
  by code_simp

lemma upt7: "[0..<7] = [0, 1, 2, 3, 4, 5, 6]"
  by (simp add: upt_conv_Cons)

lemma RC_table: "map fips_RC [0..<24] = C_cx_iota_RC"
  by (simp add: upt24 upt7 fips_RC_def rc_bits_eq C_cx_iota_RC_def BITS64_def)

lemma iota_eq: "r < 24 \<Longrightarrow> cx_sha3_iota (lane_list A) r = lane_list (fips_iota r A)"
proof -
  assume r: "r < 24"
  have "C_cx_iota_RC ! r = fips_RC r" unfolding RC_table [symmetric] using r by simp
  then show ?thesis by (simp add: cx_sha3_iota_def lane_list_eq fips_iota_def S64_def)
qed

lemma sha3_rounds_eq: "fold cx_sha3_round [0..<24] (lane_list A) = lane_list (keccak_p A)"
proof -
  have "k \<le> 24 \<Longrightarrow> fold cx_sha3_round [0..<k] (lane_list A) = lane_list (fold fips_round [0..<k] A)" for k
    by (induction k) (simp_all add: cx_sha3_round_def fips_round_def theta_eq rho_pi_eq chi_eq iota_eq)
  then show ?thesis by (simp add: keccak_p_def)
qed

section \<open>The sponge of FIPS 202\<close>

text \<open>A message is absorbed in blocks of \<open>r\<close> bytes, the rate; lanes are read least significant byte first.\<close>

definition lanes_xor :: "lanes \<Rightarrow> bytes \<Rightarrow> lanes" where
  "lanes_xor A b = (\<lambda>x y. A x y XOR (if x + 5 * y < length b div 8 then le_words 8 b ! (x + 5 * y) else 0))"

definition sponge_absorb :: "nat \<Rightarrow> bytes \<Rightarrow> lanes" where
  "sponge_absorb r m = foldl (\<lambda>A b. keccak_p (lanes_xor A b)) (\<lambda>x y. 0) (chunks r m)"

text \<open>The padding rule on bytes, with the domain separation bits in \<open>pad\<close>.\<close>

definition sponge_pad :: "nat \<Rightarrow> u8 \<Rightarrow> bytes \<Rightarrow> bytes" where
  "sponge_pad r pad m =
     (let q = r - length m mod r
      in m @ (if q = 1 then [pad OR 0x80] else pad # replicate (q - 2) 0 @ [0x80]))"

definition lanes_bytes :: "lanes \<Rightarrow> bytes" where
  "lanes_bytes A = words_le 8 (lane_list A)"

definition sponge_squeeze :: "nat \<Rightarrow> lanes \<Rightarrow> nat \<Rightarrow> bytes" where
  "sponge_squeeze r A d = take d (concat (map (\<lambda>i. take r (lanes_bytes ((keccak_p ^^ i) A))) [0..<d div r + 1]))"

definition sponge :: "nat \<Rightarrow> u8 \<Rightarrow> bytes \<Rightarrow> nat \<Rightarrow> bytes" where
  "sponge r pad m d = sponge_squeeze r (sponge_absorb r (sponge_pad r pad m)) d"

section \<open>A block is absorbed\<close>

definition sha3_rate :: "size_t \<Rightarrow> bool" where
  "sha3_rate bs = (bs \<in> set [72, 104, 136, 144, 168])"

lemma sha3_lanes_rate: "sha3_rate bs \<Longrightarrow> 8 * sha3_lanes bs = unat bs \<and> unat bs \<le> 168 \<and> 72 \<le> unat bs"
  by (auto simp: sha3_rate_def sha3_lanes_def)

lemma fold_xor:
  "n \<le> length acc \<Longrightarrow> fold (\<lambda>i acc. acc[i := acc ! i XOR w ! i]) [0..<n] acc =
     map (\<lambda>i. if i < n then acc ! i XOR w ! i else acc ! i) [0..<length acc]"
proof (induction n)
  case 0
  show ?case by (simp add: map_nth)
next
  case (Suc n)
  then show ?case by (auto intro!: nth_equalityI simp: nth_list_update)
qed

lemma length_lane_list [simp]: "length (lane_list A) = 25"
  by (simp add: lane_list_def)

lemma chunks_take: "n dvd k \<Longrightarrow> k \<le> length xs \<Longrightarrow> i < k div n \<Longrightarrow> chunks n (take k xs) ! i = chunks n xs ! i"
  using chunks_append [of n "take k xs" "drop k xs"] length_chunks [of n "take k xs"]
  by (cases "n = 0") (auto simp: nth_append)

lemma sha3_block_eq:
  assumes "sha3_rate (s3_block_size c)" "length (s3_block c) = 200" "s3_acc c = lane_list A"
  shows "cx_sha3_block c = c\<lparr>s3_acc := lane_list (keccak_p (lanes_xor A (take (unat (s3_block_size c)) (s3_block c))))\<rparr>"
proof -
  let ?n = "sha3_lanes (s3_block_size c)" and ?w = "le_words 8 (s3_block c)"
  let ?b = "take (unat (s3_block_size c)) (s3_block c)"
  have n: "8 * ?n = unat (s3_block_size c)" "?n \<le> 25" using sha3_lanes_rate [OF assms(1)] by simp_all
  have lb: "length ?b = 8 * ?n" using n assms(2) by simp
  have w: "le_words 8 ?b ! i = ?w ! i" if "i < ?n" for i
    using that n assms(2) chunks_take [of 8 "8 * ?n" "s3_block c" i] lb
    by (simp add: le_words_def length_chunks flip: n(1))
  have "fold (\<lambda>i acc. acc[i := acc ! i XOR ?w ! i]) [0..<?n] (lane_list A) = lane_list (lanes_xor A ?b)"
    using n lb by (auto simp: fold_xor lane_list_def lanes_xor_def w)
  then show ?thesis using assms(3) by (simp add: cx_sha3_block_def sha3_rounds_eq)
qed

section \<open>Updates\<close>

text \<open>The context has absorbed \<open>full\<close>, a whole number of blocks, and \<open>rest\<close> is pending in it.\<close>

definition sha3_holds :: "bytes \<Rightarrow> bytes \<Rightarrow> cx_sha3_t \<Rightarrow> bool" where
  "sha3_holds full rest c =
     (sha3_rate (s3_block_size c) \<and> length (s3_block c) = 200 \<and> length rest < unat (s3_block_size c) \<and>
      unat (s3_block_size c) dvd length full \<and> s3_acc c = lane_list (sponge_absorb (unat (s3_block_size c)) full) \<and>
      s3_counter c = of_nat (length full div unat (s3_block_size c)) \<and> take (length rest) (s3_block c) = rest)"

definition sha3_rep :: "cx_md_t \<Rightarrow> size_t \<Rightarrow> size_t \<Rightarrow> bytes \<Rightarrow> cx_sha3_t \<Rightarrow> bool" where
  "sha3_rep md osz bsz m c \<longleftrightarrow> s3_type c = md \<and> s3_output_size c = osz \<and> s3_block_size c = bsz \<and>
     (\<exists>full rest. m = full @ rest \<and> sha3_holds full rest c \<and> s3_blen c = of_nat (length rest))"

definition s3_same :: "cx_sha3_t \<Rightarrow> cx_sha3_t \<Rightarrow> bool" where
  "s3_same c c' = (s3_type c' = s3_type c \<and> s3_output_size c' = s3_output_size c \<and> s3_block_size c' = s3_block_size c)"

lemma sha3_holds_rate: "sha3_holds full rest c \<Longrightarrow> 72 \<le> unat (s3_block_size c) \<and> unat (s3_block_size c) \<le> 168"
  using sha3_lanes_rate [of "s3_block_size c"] by (simp add: sha3_holds_def)

lemma sponge_absorb_block:
  "0 < r \<Longrightarrow> r dvd length full \<Longrightarrow> length b = r \<Longrightarrow>
     sponge_absorb r (full @ b) = keccak_p (lanes_xor (sponge_absorb r full) b)"
  using chunks_Cons [of r b "[]"] by (simp add: sponge_absorb_def chunks_append)

lemma sha3_block_holds:
  assumes "sha3_holds full rest c" "length rest + length d = unat (s3_block_size c)" "b = rest @ d @ z" "length b = 200"
    "c' = cx_sha3_block (c\<lparr>s3_block := b\<rparr>)"
  shows "sha3_holds (full @ rest @ d) [] (c'\<lparr>s3_counter := s3_counter c + 1\<rparr>)" "s3_same c c'" "s3_counter c' = s3_counter c"
proof -
  let ?r = "unat (s3_block_size c)"
  have h: "sha3_rate (s3_block_size c)" "s3_acc c = lane_list (sponge_absorb ?r full)" "?r dvd length full"
    using assms(1) by (auto simp: sha3_holds_def)
  have r: "0 < ?r" using sha3_lanes_rate [OF h(1)] by simp
  have t: "take ?r b = rest @ d" using assms(2,3) by simp
  have c': "c' = c\<lparr>s3_block := b, s3_acc := lane_list (sponge_absorb ?r (full @ rest @ d))\<rparr>"
    using sha3_block_eq [of "c\<lparr>s3_block := b\<rparr>" "sponge_absorb ?r full"] h assms(2,4,5) t
      sponge_absorb_block [OF r h(3), of "rest @ d"] by simp
  have "length (full @ rest @ d) div ?r = Suc (length full div ?r)" using assms(2) h(3) r by auto
  then show "sha3_holds (full @ rest @ d) [] (c'\<lparr>s3_counter := s3_counter c + 1\<rparr>)" "s3_same c c'" "s3_counter c' = s3_counter c"
    using assms(1-4) h r unfolding c' by (auto simp: sha3_holds_def s3_same_def)
qed

lemma sha3_counter_ok:
  assumes "sha3_holds full rest c" "unat (s3_block_size c) \<le> length rest + length d"
    "length (full @ rest @ d) div unat (s3_block_size c) \<le> 65535"
  shows "s3_counter c \<noteq> CX_HASH_MAX_BLOCK_COUNT"
proof -
  let ?r = "unat (s3_block_size c)"
  have r: "0 < ?r" using sha3_holds_rate [OF assms(1)] by simp
  have "length full + ?r \<le> length (full @ rest @ d)" using assms(2) by simp
  then have "(length full + ?r) div ?r \<le> 65535" using assms(3) div_le_mono order_trans by blast
  then have "length full div ?r < 65535" using r by (simp add: div_add_self2)
  moreover from this have "unat (s3_counter c) = length full div ?r"
    using assms(1) by (simp add: sha3_holds_def unsigned_of_nat take_bit_nat_eq_self)
  ultimately show ?thesis by (auto simp: CX_HASH_MAX_BLOCK_COUNT_def)
qed

lemma sha3_blocks_eq:
  assumes "sha3_holds full rest c" "unat (s3_block_size c) \<le> length rest + length d" "length rest + length d < 2 ^ 32"
    "length (full @ rest @ d) div unat (s3_block_size c) \<le> 65535" "bs = s3_block_size c"
  shows "\<exists>full' rest' c'. sha3_blocks c bs (of_nat (length rest)) (bs - of_nat (length rest)) d (of_nat (length d)) =
       Some (CX_OK, c', rest', of_nat (length rest')) \<and>
     full' @ rest' = full @ rest @ d \<and> sha3_holds full' [] c' \<and> length rest' < unat bs \<and> s3_same c c'"
  using assms
proof (induction "length d" arbitrary: full rest c d rule: less_induct)
  case less
  let ?r = "bs - of_nat (length rest)"
  have bs: "72 \<le> unat bs" "unat bs \<le> 168" using sha3_holds_rate [OF less.prems(1)] less.prems(5) by simp_all
  have lr: "length rest < unat bs" using less.prems(1,5) by (simp add: sha3_holds_def)
  have ur: "unat (of_nat (length rest) :: size_t) = length rest"
    using lr bs by (simp add: unsigned_of_nat take_bit_nat_eq_self)
  have r: "unat ?r = unat bs - length rest"
    using lr ur by (subst unat_sub_no_wrap) (simp_all add: word_le_nat_alt)
  define d1 where "d1 = drop (unat ?r) d"
  define b where "b = rest @ take (unat ?r) d @ drop (unat bs) (s3_block c)"
  define c0 where "c0 = cx_sha3_block (c\<lparr>s3_block := b\<rparr>)"
  define c1 where "c1 = c0\<lparr>s3_counter := s3_counter c + 1\<rparr>"
  have ld: "length rest + length (take (unat ?r) d) = unat (s3_block_size c)" using less.prems(2,5) lr r by simp
  have m: "memcpy_n (s3_block c) (length rest) d 0 (unat ?r) = Some b" and lb: "length b = 200"
    using less.prems(1,2,5) lr r bs by (auto simp: memcpy_n_in sha3_holds_def b_def)
  note blk = sha3_block_holds [OF less.prems(1) ld b_def lb c0_def]
  have h1: "sha3_holds (full @ rest @ take (unat ?r) d) [] c1" using blk by (simp add: c1_def)
  have s1: "s3_same c c1" using blk by (simp add: c1_def s3_same_def)
  have e: "(full @ rest @ take (unat ?r) d) @ [] @ d1 = full @ rest @ d" by (simp add: d1_def)
  have len: "of_nat (length d) - ?r = of_nat (length d1)"
    using less.prems(2,5) r unfolding d1_def by (intro of_nat_drop) simp
  have step: "sha3_blocks c bs (of_nat (length rest)) ?r d (of_nat (length d)) =
      (if of_nat (length d1) \<ge> bs then sha3_blocks c1 bs 0 bs d1 (of_nat (length d1)) else Some (CX_OK, c1, d1, of_nat (length d1)))"
    by (subst sha3_blocks.simps, unfold if_not_P [OF sha3_counter_ok [OF less.prems(1,2,4)]])
      (use m blk(3) in \<open>simp add: ur len c0_def c1_def d1_def Let_def\<close>)
  have ud: "unat (of_nat (length d1) :: size_t) = length d1"
    using less.prems(3) by (simp add: d1_def unsigned_of_nat take_bit_nat_eq_self)
  show ?case
  proof (cases "bs \<le> of_nat (length d1)")
    case True
    have b1: "bs = s3_block_size c1" using s1 less.prems(5) by (simp add: s3_same_def)
    have "length d1 < length d" "unat (s3_block_size c1) \<le> length ([] :: bytes) + length d1" "length ([] :: bytes) + length d1 < 2 ^ 32"
      using r lr less.prems(2,3,5) True ud b1 by (simp_all add: d1_def word_le_nat_alt)
    from less.hyps [OF this(1) h1 this(2,3) _ b1, unfolded e] less.prems(4,5) b1
    have "\<exists>full' rest' c'. sha3_blocks c1 bs 0 bs d1 (of_nat (length d1)) = Some (CX_OK, c', rest', of_nat (length rest')) \<and>
        full' @ rest' = full @ rest @ d \<and> sha3_holds full' [] c' \<and> length rest' < unat bs \<and> s3_same c1 c'" by simp
    moreover have "s3_same c c'" if "s3_same c1 c'" for c' using that s1 by (simp add: s3_same_def)
    ultimately show ?thesis unfolding step if_P [OF True] by blast
  next
    case False
    then have "length d1 < unat bs" using ud by (simp add: word_le_nat_alt)
    then show ?thesis
      using step False h1 s1 e by (intro exI [of _ "full @ rest @ take (unat ?r) d"] exI [of _ d1] exI [of _ c1]) simp
  qed
qed

lemma sha3_rest_rep:
  assumes "sha3_holds full rest c" "length rest + length d < unat (s3_block_size c)"
    "s3_type c = md" "s3_output_size c = osz" "s3_block_size c = bsz"
  shows "\<exists>c'. sha3_rest c (of_nat (length rest)) d (of_nat (length d)) = Some (CX_OK, c') \<and>
     sha3_rep md osz bsz (full @ rest @ d) c'"
proof -
  have bs: "unat (s3_block_size c) \<le> 168" using sha3_holds_rate [OF assms(1)] by simp
  then have u: "unat (of_nat (length rest) :: size_t) = length rest" "unat (of_nat (length d) :: size_t) = length d"
    using assms(2) by (simp_all add: unsigned_of_nat take_bit_nat_eq_self)
  let ?b = "rest @ d @ drop (length rest + length d) (s3_block c)"
  let ?c = "c\<lparr>s3_block := ?b, s3_blen := of_nat (length (rest @ d))\<rparr>"
  have "memcpy_n (s3_block c) (length rest) d 0 (length d) = Some ?b"
    using assms(1,2) bs by (simp add: memcpy_n_in sha3_holds_def)
  then have "sha3_rest c (of_nat (length rest)) d (of_nat (length d)) = Some (CX_OK, ?c)"
    by (simp add: sha3_rest_def u)
  moreover have "sha3_holds full (rest @ d) ?c" using assms bs by (auto simp: sha3_holds_def)
  ultimately show ?thesis using assms by (fastforce simp: sha3_rep_def)
qed

lemma sha3_update_rep:
  assumes "sha3_rep md osz bsz m c" "length d < 2 ^ 32 - 256" "length (m @ d) div unat bsz \<le> 65535"
  shows "\<exists>c'. cx_sha3_update c (Some d) (of_nat (length d)) = Some (CX_OK, c') \<and> sha3_rep md osz bsz (m @ d) c'"
proof -
  obtain full rest where r: "m = full @ rest" "sha3_holds full rest c" "s3_blen c = of_nat (length rest)"
    and f: "s3_type c = md" "s3_output_size c = osz" "s3_block_size c = bsz"
    using assms(1) by (auto simp: sha3_rep_def)
  let ?c = "c\<lparr>s3_blen := 0\<rparr>"
  have h0: "sha3_holds full rest ?c" using r(2) by (auto simp: sha3_holds_def)
  have lr: "length rest < unat bsz" "unat bsz \<le> 168" using sha3_holds_rate [OF r(2)] r(2) f by (simp_all add: sha3_holds_def)
  have u: "unat (of_nat (length rest) + of_nat (length d) :: size_t) = length rest + length d"
      "unat (of_nat (length rest) :: size_t) = length rest"
    using lr assms(2) by (simp_all add: unsigned_of_nat take_bit_nat_eq_self flip: of_nat_add)
  have cond: "\<not> s3_block_size c > 200" "\<not> s3_blen c \<ge> s3_block_size c"
      "s3_blen c + of_nat (length d) \<ge> s3_block_size c \<longleftrightarrow> unat bsz \<le> length rest + length d"
    using lr f r(3) u by (simp_all add: word_le_nat_alt word_less_nat_alt)
  note upd = cx_sha3_update_def [of c "Some d" "of_nat (length d)", unfolded option.case Let_def if_not_P [OF cond(1)] if_not_P [OF cond(2)] cond(3)]
  show ?thesis
  proof (cases "unat bsz \<le> length rest + length d")
    case True
    obtain full' rest' c' where b: "sha3_blocks ?c bsz (of_nat (length rest)) (bsz - of_nat (length rest)) d (of_nat (length d)) =
       Some (CX_OK, c', rest', of_nat (length rest'))" "full' @ rest' = full @ rest @ d"
       "sha3_holds full' [] c'" "length rest' < unat bsz" "s3_same ?c c'"
    proof -
      have "unat (s3_block_size ?c) \<le> length rest + length d" "length rest + length d < 2 ^ 32"
          "length (full @ rest @ d) div unat (s3_block_size ?c) \<le> 65535" "bsz = s3_block_size ?c"
        using True assms(2,3) lr f r(1) by simp_all
      from sha3_blocks_eq [OF h0 this] show ?thesis by (elim exE conjE) (rule that)
    qed
    have "\<exists>c''. sha3_rest c' (of_nat (length ([] :: bytes))) rest' (of_nat (length rest')) = Some (CX_OK, c'') \<and>
        sha3_rep md osz bsz (full' @ [] @ rest') c''"
      by (rule sha3_rest_rep [OF b(3)]) (use b(4,5) f in \<open>auto simp: s3_same_def\<close>)
    then show ?thesis unfolding upd if_P [OF True] f r(3) b(1) by (simp add: b(2) r(1))
  next
    case False
    have "\<exists>c'. sha3_rest ?c (of_nat (length rest)) d (of_nat (length d)) = Some (CX_OK, c') \<and>
        sha3_rep md osz bsz (full @ rest @ d) c'"
      by (rule sha3_rest_rep [OF h0]) (use False f in auto)
    then show ?thesis unfolding upd if_not_P [OF False] r(3) by (simp add: r(1))
  qed
qed


section \<open>Padding and squeezing\<close>

lemma or_byte_in: "i < length b \<Longrightarrow> or_byte b i v = Some (b[i := b ! i OR v])"
  by (simp add: or_byte_def ld_in st_in)

text \<open>The last block as the code fills it is the last block of the padded message.\<close>

lemma sha3_last_block:
  fixes rest z :: bytes
  assumes "length rest < r" "r \<le> 200" "q = r - length rest"
  shows "take r ((rest @ replicate (200 - length rest) 0)[length rest := p, r - 1 := (if r - 1 = length rest then p else 0) OR 0x80]) =
    rest @ (if q = 1 then [p OR 0x80] else p # replicate (q - 2) 0 @ [0x80])"
  using assms by (auto intro!: nth_equalityI simp: nth_append nth_list_update nth_Cons' take_update_swap)

lemma sponge_pad_rest:
  "0 < r \<Longrightarrow> r dvd length full \<Longrightarrow> length rest < r \<Longrightarrow> q = r - length rest \<Longrightarrow>
     sponge_pad r p (full @ rest) = full @ rest @ (if q = 1 then [p OR 0x80] else p # replicate (q - 2) 0 @ [0x80])"
  by (auto simp: sponge_pad_def)

lemma sha3_pad_rep:
  assumes "sha3_rep md osz bsz m c"
  shows "\<exists>c'. sha3_pad_block c p = Some c' \<and> s3_same c c' \<and> length (s3_block c') = 200 \<and>
     s3_acc c' = lane_list (sponge_absorb (unat bsz) (sponge_pad (unat bsz) p m))"
proof -
  obtain full rest where r: "m = full @ rest" "sha3_holds full rest c" "s3_blen c = of_nat (length rest)" "s3_block_size c = bsz"
    using assms by (auto simp: sha3_rep_def)
  let ?n = "length rest" and ?r = "unat bsz"
  have bs: "72 \<le> ?r" "?r \<le> 168" using sha3_holds_rate [OF r(2)] r(4) by simp_all
  have h: "sha3_rate bsz" "length (s3_block c) = 200" "?n < ?r" "?r dvd length full"
      "s3_acc c = lane_list (sponge_absorb ?r full)" "take ?n (s3_block c) = rest"
    using r(2,4) by (auto simp: sha3_holds_def)
  have u: "unat (s3_blen c) = ?n" using h(3) bs unfolding r(3) by (simp add: unsigned_of_nat take_bit_nat_eq_self)
  have u2: "unat (200 - s3_blen c) = 200 - ?n"
    using h(3) bs u by (subst unat_sub_no_wrap) (simp_all add: word_le_nat_alt)
  have u3: "unat (bsz - 1) = ?r - 1" using bs by (subst unat_sub_no_wrap) (simp_all add: word_le_nat_alt)
  let ?z = "rest @ replicate (200 - ?n) 0"
  let ?b = "?z[?n := p, ?r - 1 := (if ?r - 1 = ?n then p else 0) OR 0x80]"
  let ?q = "?r - ?n"
  let ?t = "if ?q = 1 then [p OR 0x80] else p # replicate (?q - 2) 0 @ [0x80]"
  have m: "memset_n (s3_block c) ?n 0 (200 - ?n) = Some ?z" using h bs by (simp add: memset_n_in)
  have o1: "or_byte ?z ?n p = Some (?z[?n := p])" using h(3) bs by (simp add: or_byte_in nth_append)
  have "?z[?n := p] ! (?r - 1) = (if ?r - 1 = ?n then p else 0)" using h(3) bs by (auto simp: nth_append nth_list_update)
  then have o2: "or_byte (?z[?n := p]) (?r - 1) 0x80 = Some ?b"
    using h(3) bs by (simp only: or_byte_in length_list_update length_append length_replicate)
  have lt: "length ?t = ?q" using h(3) by auto
  have tk: "take ?r ?b = rest @ ?t" by (rule sha3_last_block) (use h(3) bs in simp_all)
  have "sha3_pad_block c p = Some (cx_sha3_block (c\<lparr>s3_block := ?b\<rparr>))"
    by (simp add: sha3_pad_block_def u u2 u3 r(4) m o1 o2 del: One_nat_def)
  moreover have "cx_sha3_block (c\<lparr>s3_block := ?b\<rparr>) =
      c\<lparr>s3_block := ?b, s3_acc := lane_list (keccak_p (lanes_xor (sponge_absorb ?r full) (rest @ ?t)))\<rparr>"
    using sha3_block_eq [of "c\<lparr>s3_block := ?b\<rparr>" "sponge_absorb ?r full"] h(1,5) r(4) tk h(3) bs by simp
  moreover have "keccak_p (lanes_xor (sponge_absorb ?r full) (rest @ ?t)) = sponge_absorb ?r (sponge_pad ?r p m)"
    unfolding r(1) sponge_pad_rest [OF _ h(4,3) refl, of p, OF order.strict_trans2 [OF _ bs(1)], simplified]
    by (subst sponge_absorb_block) (use h(3,4) bs lt in simp_all)
  ultimately show ?thesis using h(3) bs by (simp add: s3_same_def)
qed

lemma le_words_zero: "le_words 8 (replicate (8 * n) 0) = (replicate n 0 :: u64 list)"
proof (induction n)
  case (Suc n)
  have "chunks 8 (replicate 8 0 @ replicate (8 * n) 0) = replicate 8 (0 :: u8) # chunks 8 (replicate (8 * n) 0)"
    by (rule chunks_Cons) simp_all
  moreover have "horner (replicate 8 0) = (0 :: u64)" by (simp add: horner_def numeral_eq_Suc)
  ultimately show ?case using Suc by (simp add: le_words_def replicate_add)
qed (simp add: le_words_def)

lemma sha3_zero_block:
  assumes "sha3_rate (s3_block_size c)" "s3_block c = replicate 200 0" "s3_acc c = lane_list A"
  shows "cx_sha3_block c = c\<lparr>s3_acc := lane_list (keccak_p A)\<rparr>"
proof -
  let ?n = "sha3_lanes (s3_block_size c)"
  have n: "unat (s3_block_size c) = 8 * ?n" "?n \<le> 25" using sha3_lanes_rate [OF assms(1)] by simp_all
  have "lanes_xor A (replicate (8 * ?n) 0) = A" by (simp add: lanes_xor_def le_words_zero fun_eq_iff)
  then show ?thesis using sha3_block_eq [OF assms(1) _ assms(3)] assms(2) n by simp
qed

lemma length_lanes_bytes [simp]: "length (lanes_bytes A) = 200"
  by (simp add: lanes_bytes_def)

lemma sponge_squeeze_last: "0 < r \<Longrightarrow> r \<le> 200 \<Longrightarrow> d \<le> r \<Longrightarrow> sponge_squeeze r A d = take d (lanes_bytes A)"
  by (cases "d = r") (simp_all add: sponge_squeeze_def upt_conv_Cons)

lemma sponge_squeeze_more:
  assumes "0 < r" "r \<le> 200" "r < d"
  shows "sponge_squeeze r A d = take r (lanes_bytes A) @ sponge_squeeze r (keccak_p A) (d - r)"
proof -
  have "d div r = Suc ((d - r) div r)" using assms by (simp add: le_div_geq)
  then have "[0..<d div r + 1] = 0 # map Suc [0..<(d - r) div r + 1]" by (subst upt_conv_Cons) (simp_all add: map_Suc_upt del: upt_Suc)
  then show ?thesis
    using assms by (simp add: sponge_squeeze_def comp_def funpow_swap1 del: upt_Suc)
qed

lemma length_sponge_squeeze: "0 < r \<Longrightarrow> r \<le> 200 \<Longrightarrow> length (sponge_squeeze r A d) = d"
proof (induction d arbitrary: A rule: less_induct)
  case (less d)
  then show ?case
    by (cases "d \<le> r") (simp_all add: sponge_squeeze_last sponge_squeeze_more)
qed

text \<open>The loop ends, and with the copy after it writes the output of the sponge.\<close>

lemma sha3_squeeze_rep:
  assumes "sha3_rate (s3_block_size c)" "s3_block c = replicate 200 0" "s3_acc c = lane_list A" "bs = s3_block_size c"
    "pos + unat blen \<le> length dg"
  shows "\<exists>c' dg1 pos1 blen1. sha3_squeeze c bs dg pos blen = Some (c', dg1, pos1, blen1) \<and>
     memcpy_n dg1 pos1 (words_le 8 (s3_acc c')) 0 (unat blen1) =
       Some (take pos dg @ sponge_squeeze (unat bs) A (unat blen) @ drop (pos + unat blen) dg) \<and> s3_same c c'"
  using assms
proof (induction "unat blen" arbitrary: c A dg pos blen rule: less_induct)
  case less
  let ?r = "unat bs"
  have bs: "72 \<le> ?r" "?r \<le> 168" using sha3_lanes_rate [OF less.prems(1)] less.prems(4) by simp_all
  show ?case
  proof (cases "blen > bs")
    case False
    then have "unat blen \<le> ?r" by (simp add: not_less word_le_nat_alt)
    then have "memcpy_n dg pos (words_le 8 (s3_acc c)) 0 (unat blen) =
        Some (take pos dg @ sponge_squeeze ?r A (unat blen) @ drop (pos + unat blen) dg)"
      using less.prems(3,5) bs by (simp add: memcpy_n_in sponge_squeeze_last lanes_bytes_def)
    then show ?thesis using False by (subst sha3_squeeze.simps) (simp add: s3_same_def)
  next
    case True
    then have lt: "?r < unat blen" by (simp add: word_less_nat_alt)
    have ub: "unat (blen - bs) = unat blen - ?r" using lt by (subst unat_sub_no_wrap) (simp_all add: word_le_nat_alt)
    let ?dg = "take pos dg @ take ?r (lanes_bytes A) @ drop (pos + ?r) dg"
    let ?c = "c\<lparr>s3_acc := lane_list (keccak_p A)\<rparr>"
    have m: "memcpy_n dg pos (words_le 8 (s3_acc c)) 0 ?r = Some ?dg"
      using less.prems(3,5) bs lt by (simp add: memcpy_n_in lanes_bytes_def)
    have step: "sha3_squeeze c bs dg pos blen = sha3_squeeze ?c bs ?dg (pos + ?r) (blen - bs)"
      by (subst sha3_squeeze.simps) (simp add: True m sha3_zero_block [OF less.prems(1-3)])
    have le: "unat (blen - bs) < unat blen" "pos + ?r + unat (blen - bs) \<le> length ?dg"
      using ub lt bs less.prems(5) by simp_all
    have pre: "sha3_rate (s3_block_size ?c)" "s3_block ?c = replicate 200 0" "s3_acc ?c = lane_list (keccak_p A)" "bs = s3_block_size ?c"
      using less.prems by simp_all
    have e: "take (pos + ?r) ?dg @ sponge_squeeze ?r (keccak_p A) (unat (blen - bs)) @ drop (pos + ?r + unat (blen - bs)) ?dg =
        take pos dg @ sponge_squeeze ?r A (unat blen) @ drop (pos + unat blen) dg"
      using less.prems(5) lt bs ub by (simp add: sponge_squeeze_more [where d = "unat blen"] add.commute)
    show ?thesis using less.hyps [OF le(1) pre le(2)] unfolding step e by (simp add: s3_same_def)
  qed
qed

text \<open>The padding byte \<open>p\<close> of an algorithm; the output of the hash functions fits in one block.\<close>

definition sha3_kind :: "cx_md_t \<Rightarrow> size_t \<Rightarrow> size_t \<Rightarrow> u8 \<Rightarrow> bool" where
  "sha3_kind md osz bsz p =
     (md \<in> {CX_SHA3, CX_KECCAK} \<and> osz \<le> bsz \<and> p = (if md = CX_KECCAK then 0x01 else 0x06) \<or>
      md \<notin> {CX_SHA3, CX_KECCAK} \<and> p = 0x1F)"

lemma sha3_final_rep:
  assumes rep: "sha3_rep md osz bsz m c" and l: "unat osz \<le> length dg"
    and kind: "sha3_kind md osz bsz p"
  shows "\<exists>c'. cx_sha3_final c dg = Some (CX_OK, c', sponge (unat bsz) p m (unat osz) @ drop (unat osz) dg) \<and> s3_same c c'"
proof -
  note md = kind [unfolded sha3_kind_def]
  have c: "s3_type c = md" "s3_output_size c = osz" "s3_block_size c = bsz" "sha3_rate bsz"
    using rep by (auto simp: sha3_rep_def sha3_holds_def)
  have bs: "0 < unat bsz" "unat bsz \<le> 200" using sha3_lanes_rate [OF c(4)] by simp_all
  obtain c1 where c1: "sha3_pad_block c p = Some c1" "s3_same c c1" "length (s3_block c1) = 200"
      "s3_acc c1 = lane_list (sponge_absorb (unat bsz) (sponge_pad (unat bsz) p m))"
    using sha3_pad_rep [OF rep, of p] by blast
  show ?thesis
  proof (cases "md = CX_SHA3 \<or> md = CX_KECCAK")
    case True
    have "unat osz \<le> unat bsz" using md True by (auto simp: word_le_nat_alt)
    then have "memcpy_n dg 0 (words_le 8 (s3_acc c1)) 0 (unat osz) =
        Some (sponge (unat bsz) p m (unat osz) @ drop (unat osz) dg)"
      using l bs c1(4) by (simp add: memcpy_n_in sponge_def sponge_squeeze_last lanes_bytes_def)
    moreover have "p = (if s3_type c = CX_KECCAK then 0x01 else 0x06)" "s3_output_size c1 = osz" using md True c c1(2) by (auto simp: s3_same_def)
    ultimately show ?thesis using True c c1(1,2) by (auto simp: cx_sha3_final_def)
  next
    case False
    let ?c = "c1\<lparr>s3_block := replicate 200 0\<rparr>"
    have p: "p = 0x1F" using md False by auto
    have "sha3_rate (s3_block_size ?c)" "bsz = s3_block_size ?c" "s3_acc ?c = lane_list (sponge_absorb (unat bsz) (sponge_pad (unat bsz) p m))"
      using c c1(2,4) by (simp_all add: s3_same_def)
    from sha3_squeeze_rep [OF this(1) _ this(3,2), of 0 osz dg] l
    obtain c' dg1 pos1 blen1 where q: "sha3_squeeze ?c bsz dg 0 osz = Some (c', dg1, pos1, blen1)" "s3_same ?c c'"
      "memcpy_n dg1 pos1 (words_le 8 (s3_acc c')) 0 (unat blen1) = Some (sponge (unat bsz) p m (unat osz) @ drop (unat osz) dg)"
      by (auto simp: sponge_def)
    have "memset_n (s3_block c1) 0 0 200 = Some (replicate 200 0)" using c1(3) by (simp add: memset_n_in)
    then have "cx_sha3_final c dg = Some (CX_OK, c', sponge (unat bsz) p m (unat osz) @ drop (unat osz) dg)"
      using False c c1(1,2) q(1,3) p by (simp add: cx_sha3_final_def s3_same_def)
    then show ?thesis using c1(2) q(2) by (simp add: s3_same_def)
  qed
qed

lemma sha3_updates_rep:
  assumes "\<forall>d\<in>set ds. length d < 2 ^ 32 - 256"
  shows "sha3_rep md osz bsz m c \<Longrightarrow> length (m @ concat ds) div unat bsz \<le> 65535 \<Longrightarrow>
    \<exists>c'. md_updates cx_sha3_update c ds = Some (CX_OK, c') \<and> sha3_rep md osz bsz (m @ concat ds) c'"
  using assms
proof (induction ds arbitrary: m c)
  case (Cons d ds)
  have "length (m @ d) div unat bsz \<le> 65535"
    using Cons.prems(2) by (elim order_trans [rotated]) (simp add: div_le_mono)
  then obtain c1 where c1: "cx_sha3_update c (Some d) (of_nat (length d)) = Some (CX_OK, c1)" "sha3_rep md osz bsz (m @ d) c1"
    using sha3_update_rep [OF Cons.prems(1), of d] Cons.prems(3) by auto
  then show ?case using Cons.IH [OF c1(2)] Cons.prems by auto
qed auto

lemma sha3_rep_init: "sha3_rate bsz \<Longrightarrow> sha3_rep md osz bsz [] (cx_sha3_ctx md osz bsz)"
  using sha3_lanes_rate [of bsz]
  by (auto simp: sha3_rep_def sha3_holds_def cx_sha3_ctx_def sponge_absorb_def lane_list_def map_replicate_const)

section \<open>Hashing in pieces\<close>

text \<open>The algorithm, the output size, the rate and the padding byte that an initialisation selects.\<close>

definition sha3_mode :: "cx_sha3_t \<Rightarrow> cx_md_t \<Rightarrow> size_t \<Rightarrow> size_t \<Rightarrow> u8 \<Rightarrow> bool" where
  "sha3_mode c md osz bsz p = (c = cx_sha3_ctx md osz bsz \<and> sha3_rate bsz \<and> sha3_kind md osz bsz p)"

lemma sha3_init_modes:
  "check_hash_out_size sz \<Longrightarrow> \<exists>c. cx_sha3_init_no_throw sz = (CX_OK, Some c) \<and> sha3_mode c CX_SHA3 (sz div 8) (200 - sz div 4) 0x06"
  "check_hash_out_size sz \<Longrightarrow> \<exists>c. cx_keccak_init_no_throw sz = (CX_OK, Some c) \<and> sha3_mode c CX_KECCAK (sz div 8) (200 - sz div 4) 0x01"
  "sz mod 8 = 0 \<Longrightarrow> \<exists>c. cx_shake128_init_no_throw sz = (CX_OK, Some c) \<and> sha3_mode c CX_SHAKE128 (sz div 8) 168 0x1F"
  "sz mod 8 = 0 \<Longrightarrow> \<exists>c. cx_shake256_init_no_throw sz = (CX_OK, Some c) \<and> sha3_mode c CX_SHAKE256 (sz div 8) 136 0x1F"
  "\<exists>c. cx_sha3_xof_init_no_throw 128 n = (CX_OK, Some c) \<and> sha3_mode c CX_SHAKE128 n 168 0x1F"
  "\<exists>c. cx_sha3_xof_init_no_throw 256 n = (CX_OK, Some c) \<and> sha3_mode c CX_SHAKE256 n 136 0x1F"
  by (auto simp: check_hash_out_size_def cx_sha3_init_no_throw_def cx_keccak_init_no_throw_def cx_shake128_init_no_throw_def
      cx_shake256_init_no_throw_def cx_sha3_xof_init_no_throw_def sha3_mode_def sha3_kind_def sha3_rate_def cx_sha3_ctx_def)

end
