(* ===== verification/Cx_Blake2b.thy ===== *)
theory Cx_Blake2b
  imports Cx_Sha512
begin

text \<open>
  BLAKE2b, \<^verbatim>\<open>lib_cxng/src/cx_blake2b.c\<close>: the reference implementation it contains and the functions of the hash
  interface over it.  The reference is RFC 7693, extended by the salt and personalisation fields of the parameter
  block.  The field \<open>counter\<close> of the context header is not used by this code and is left out, as is the clearing of
  the working memory.
\<close>

section \<open>State\<close>

definition BLAKE2B_BLOCKBYTES :: size_t where "BLAKE2B_BLOCKBYTES = 128"
definition BLAKE2B_OUTBYTES :: size_t where "BLAKE2B_OUTBYTES = 64"
definition BLAKE2B_KEYBYTES :: size_t where "BLAKE2B_KEYBYTES = 64"

record blake2b_state =
  b2_h :: "u64 list"
  b2_t0 :: u64
  b2_t1 :: u64
  b2_f0 :: u64
  b2_f1 :: u64
  b2_buf :: bytes
  b2_buflen :: size_t
  b2_outlen :: size_t
  b2_last_node :: u8

record cx_blake2b_t =
  bl_type :: cx_md_t
  bl_output_size :: size_t
  bl_ctx :: blake2b_state

record blake2b_param =
  p_digest_length :: u8
  p_key_length :: u8
  p_fanout :: u8
  p_depth :: u8
  p_leaf_length :: u32
  p_node_offset :: u32
  p_xof_length :: u32
  p_node_depth :: u8
  p_inner_length :: u8
  p_reserved :: bytes
  p_salt :: bytes
  p_personal :: bytes

text \<open>The packed structure as the bytes the code reads through a \<open>uint8_t\<close> pointer.\<close>

definition param_bytes :: "blake2b_param \<Rightarrow> bytes" where
  "param_bytes P =
     [p_digest_length P, p_key_length P, p_fanout P, p_depth P] @ le_bytes 4 (p_leaf_length P) @
     le_bytes 4 (p_node_offset P) @ le_bytes 4 (p_xof_length P) @ [p_node_depth P, p_inner_length P] @
     p_reserved P @ p_salt P @ p_personal P"

definition rotr64 :: "u64 \<Rightarrow> nat \<Rightarrow> u64" where
  "rotr64 w c = (drop_bit c w OR push_bit (64 - c) w)"

definition blake2b_IV :: "u64 list" where
  "blake2b_IV =
     [0x6a09e667f3bcc908, 0xbb67ae8584caa73b, 0x3c6ef372fe94f82b, 0xa54ff53a5f1d36f1,
      0x510e527fade682d1, 0x9b05688c2b3e6c1f, 0x1f83d9abfb41bd6b, 0x5be0cd19137e2179]"

definition blake2b_sigma :: "nat list list" where
  "blake2b_sigma =
     [[0, 1, 2, 3, 4, 5, 6, 7, 8, 9, 10, 11, 12, 13, 14, 15],
      [14, 10, 4, 8, 9, 15, 13, 6, 1, 12, 0, 2, 11, 7, 5, 3],
      [11, 8, 12, 0, 5, 2, 15, 13, 10, 14, 3, 6, 7, 1, 9, 4],
      [7, 9, 3, 1, 13, 12, 11, 14, 2, 6, 5, 10, 4, 0, 15, 8],
      [9, 0, 5, 7, 2, 4, 10, 15, 14, 1, 11, 12, 6, 8, 3, 13],
      [2, 12, 6, 10, 0, 11, 8, 3, 4, 13, 7, 5, 15, 14, 1, 9],
      [12, 5, 1, 15, 14, 13, 4, 10, 0, 7, 6, 3, 9, 2, 8, 11],
      [13, 11, 7, 14, 12, 1, 3, 9, 5, 0, 15, 4, 8, 6, 2, 10],
      [6, 15, 14, 9, 11, 3, 0, 8, 12, 2, 13, 7, 1, 4, 10, 5],
      [10, 2, 8, 4, 7, 6, 1, 5, 15, 11, 9, 14, 3, 12, 13, 0],
      [0, 1, 2, 3, 4, 5, 6, 7, 8, 9, 10, 11, 12, 13, 14, 15],
      [14, 10, 4, 8, 9, 15, 13, 6, 1, 12, 0, 2, 11, 7, 5, 3]]"

section \<open>Flags and counter\<close>

definition blake2b_set_lastnode :: "blake2b_state \<Rightarrow> blake2b_state" where
  "blake2b_set_lastnode S = S\<lparr>b2_f1 := - 1\<rparr>"

definition blake2b_is_lastblock :: "blake2b_state \<Rightarrow> bool" where
  "blake2b_is_lastblock S = (b2_f0 S \<noteq> 0)"

definition blake2b_set_lastblock :: "blake2b_state \<Rightarrow> blake2b_state" where
  "blake2b_set_lastblock S =
     (let S = (if b2_last_node S \<noteq> 0 then blake2b_set_lastnode S else S) in S\<lparr>b2_f0 := - 1\<rparr>)"

definition blake2b_increment_counter :: "blake2b_state \<Rightarrow> u64 \<Rightarrow> blake2b_state" where
  "blake2b_increment_counter S inc =
     (let S = S\<lparr>b2_t0 := b2_t0 S + inc\<rparr> in S\<lparr>b2_t1 := b2_t1 S + (if b2_t0 S < inc then 1 else 0)\<rparr>)"

section \<open>Initialisation\<close>

definition blake2b_init0 :: blake2b_state where
  "blake2b_init0 =
     \<lparr>b2_h = blake2b_IV, b2_t0 = 0, b2_t1 = 0, b2_f0 = 0, b2_f1 = 0, b2_buf = replicate 128 0, b2_buflen = 0,
      b2_outlen = 0, b2_last_node = 0\<rparr>"

definition blake2b_init_param :: "blake2b_param \<Rightarrow> blake2b_state" where
  "blake2b_init_param P =
     (let p = le_words 8 (param_bytes P);
          h = map2 (XOR) (b2_h blake2b_init0) p
      in blake2b_init0\<lparr>b2_h := h, b2_outlen := ucast (p_digest_length P)\<rparr>)"

text \<open>The parameter block the two initialisations fill, with the salt and personalisation still cleared.\<close>

definition blake2b_param0 :: "size_t \<Rightarrow> size_t \<Rightarrow> blake2b_param" where
  "blake2b_param0 outlen keylen =
     \<lparr>p_digest_length = ucast outlen, p_key_length = ucast keylen, p_fanout = 1, p_depth = 1, p_leaf_length = 0,
      p_node_offset = 0, p_xof_length = 0, p_node_depth = 0, p_inner_length = 0, p_reserved = replicate 14 0,
      p_salt = replicate 16 0, p_personal = replicate 16 0\<rparr>"

text \<open>The value \<^term>\<open>Inl CX_INVALID_PARAMETER\<close> is the negative error result, \<^term>\<open>Inr S\<close> the result 0 with the
  initialised state.\<close>

definition blake2b_init ::
  "size_t \<Rightarrow> bytes option \<Rightarrow> size_t \<Rightarrow> bytes option \<Rightarrow> size_t \<Rightarrow> (cx_err_t + blake2b_state) option" where
  "blake2b_init outlen salt salt_len personal personal_len =
     (if outlen = 0 \<or> outlen > BLAKE2B_OUTBYTES then Some (Inl CX_INVALID_PARAMETER)
      else do {
        let P = blake2b_param0 outlen 0;
        P \<leftarrow> (case salt of None \<Rightarrow> Some P
              | Some s \<Rightarrow> do { b \<leftarrow> memcpy_n (p_salt P) 0 s 0 (unat salt_len); Some (P\<lparr>p_salt := b\<rparr>) });
        P \<leftarrow> (case personal of None \<Rightarrow> Some P
              | Some s \<Rightarrow> do { b \<leftarrow> memcpy_n (p_personal P) 0 s 0 (unat personal_len); Some (P\<lparr>p_personal := b\<rparr>) });
        Some (Inr (blake2b_init_param P)) })"

section \<open>Compression\<close>

text \<open>The macro \<open>G\<close>; \<open>a\<close>, \<open>b\<close>, \<open>c\<close> and \<open>d\<close> are the indices in \<open>v\<close> of its operands.\<close>

definition blake2b_G :: "u64 list \<Rightarrow> nat \<Rightarrow> nat \<Rightarrow> nat \<Rightarrow> nat \<Rightarrow> nat \<Rightarrow> nat \<Rightarrow> u64 list \<Rightarrow> u64 list" where
  "blake2b_G m r i a b c d v =
     (let v = v[a := v ! a + v ! b + m ! (blake2b_sigma ! r ! (2 * i + 0))];
          v = v[d := rotr64 (v ! d XOR v ! a) 32];
          v = v[c := v ! c + v ! d];
          v = v[b := rotr64 (v ! b XOR v ! c) 24];
          v = v[a := v ! a + v ! b + m ! (blake2b_sigma ! r ! (2 * i + 1))];
          v = v[d := rotr64 (v ! d XOR v ! a) 16];
          v = v[c := v ! c + v ! d];
          v = v[b := rotr64 (v ! b XOR v ! c) 63]
      in v)"

text \<open>The bitwise \<open>AND 3\<close> of the code is the remainder modulo 4.\<close>

definition blake2b_round :: "u64 list \<Rightarrow> nat \<Rightarrow> u64 list \<Rightarrow> u64 list" where
  "blake2b_round m r v =
     (let v = fold (\<lambda>i v. blake2b_G m r i i (4 + i) (8 + i) (12 + i) v) [0..<4] v
      in fold (\<lambda>i v. blake2b_G m r (4 + i) i (4 + (i + 1) mod 4) (8 + (i + 2) mod 4) (12 + (i + 3) mod 4) v) [0..<4] v)"

text \<open>The first 128 bytes of \<open>block\<close> are compressed.\<close>

definition blake2b_compress :: "blake2b_state \<Rightarrow> bytes \<Rightarrow> blake2b_state option" where
  "blake2b_compress S block = do {
     b \<leftarrow> ld_n block 0 128;
     let m = le_words 8 b;
     let v = b2_h S @
       [blake2b_IV ! 0, blake2b_IV ! 1, blake2b_IV ! 2, blake2b_IV ! 3, blake2b_IV ! 4 XOR b2_t0 S,
        blake2b_IV ! 5 XOR b2_t1 S, blake2b_IV ! 6 XOR b2_f0 S, blake2b_IV ! 7 XOR b2_f1 S];
     let v = fold (blake2b_round m) [0..<12] v;
     Some (S\<lparr>b2_h := map (\<lambda>i. b2_h S ! i XOR v ! i XOR v ! (i + 8)) [0..<8]\<rparr>) }"

section \<open>Update\<close>

text \<open>The loop over the full blocks that do not end the input.\<close>

function blake2b_blocks :: "blake2b_state \<Rightarrow> bytes \<Rightarrow> size_t \<Rightarrow> (blake2b_state \<times> bytes \<times> size_t) option" where
  "blake2b_blocks S in_data inlen =
     (if inlen > BLAKE2B_BLOCKBYTES then do {
        let S = blake2b_increment_counter S (ucast BLAKE2B_BLOCKBYTES);
        S \<leftarrow> blake2b_compress S in_data;
        blake2b_blocks S (drop (unat BLAKE2B_BLOCKBYTES) in_data) (inlen - BLAKE2B_BLOCKBYTES) }
      else Some (S, in_data, inlen))"
  by pat_completeness auto
termination
proof (relation "measure (\<lambda>(S, d, n). unat n)")
  fix n :: size_t
  assume "BLAKE2B_BLOCKBYTES < n"
  then have n: "128 < unat n" by (simp add: BLAKE2B_BLOCKBYTES_def word_less_nat_alt)
  then have "unat (n - 128) = unat n - unat (128 :: size_t)" by (intro unat_sub_no_wrap) (simp add: word_le_nat_alt)
  then show "((S, d, n - BLAKE2B_BLOCKBYTES), S', d', n) \<in> measure (\<lambda>(S, d, n). unat n)" for S S' :: blake2b_state and d d' :: bytes
    using n by (simp add: BLAKE2B_BLOCKBYTES_def)
qed simp

declare blake2b_blocks.simps [simp del]

definition blake2b_update :: "blake2b_state \<Rightarrow> bytes \<Rightarrow> size_t \<Rightarrow> blake2b_state option" where
  "blake2b_update S in_data inlen =
     (if inlen > 0 then do {
        let left = b2_buflen S;
        let fill = BLAKE2B_BLOCKBYTES - left;
        (S, in_data, inlen) \<leftarrow>
          (if inlen > fill then do {
             let S = S\<lparr>b2_buflen := 0\<rparr>;
             b \<leftarrow> memcpy_n (b2_buf S) (unat left) in_data 0 (unat fill);
             let S = S\<lparr>b2_buf := b\<rparr>;
             let S = blake2b_increment_counter S (ucast BLAKE2B_BLOCKBYTES);
             S \<leftarrow> blake2b_compress S (b2_buf S);
             blake2b_blocks S (drop (unat fill) in_data) (inlen - fill) }
           else Some (S, in_data, inlen));
        b \<leftarrow> memcpy_n (b2_buf S) (unat (b2_buflen S)) in_data 0 (unat inlen);
        Some (S\<lparr>b2_buf := b, b2_buflen := b2_buflen S + inlen\<rparr>) }
      else Some S)"

text \<open>\<open>blake2b_init_key\<close> returns \<^term>\<open>Inl ()\<close> for its result \<open>-1\<close>.\<close>

definition blake2b_init_key :: "size_t \<Rightarrow> bytes option \<Rightarrow> size_t \<Rightarrow> (unit + blake2b_state) option" where
  "blake2b_init_key outlen key keylen =
     (if outlen = 0 \<or> outlen > BLAKE2B_OUTBYTES then Some (Inl ())
      else case key of
        None \<Rightarrow> Some (Inl ())
      | Some key \<Rightarrow>
          if keylen = 0 \<or> keylen > BLAKE2B_KEYBYTES then Some (Inl ())
          else do {
            let S = blake2b_init_param (blake2b_param0 outlen keylen);
            b \<leftarrow> memcpy_n (replicate 128 0) 0 key 0 (unat keylen);
            S \<leftarrow> blake2b_update S b BLAKE2B_BLOCKBYTES;
            Some (Inr S) })"

section \<open>End\<close>

text \<open>The result is the state, the output buffer and \<^term>\<open>None\<close> for \<open>-1\<close> or the number of bytes.\<close>

definition blake2b_final :: "blake2b_state \<Rightarrow> bytes option \<Rightarrow> size_t \<Rightarrow> (size_t option \<times> blake2b_state \<times> bytes option) option" where
  "blake2b_final S out outlen =
     (if out \<noteq> None \<and> outlen < b2_outlen S then Some (None, S, out)
      else if blake2b_is_lastblock S then Some (None, S, out)
      else do {
        let S = blake2b_increment_counter S (ucast (b2_buflen S));
        let S = blake2b_set_lastblock S;
        b \<leftarrow> memset_n (b2_buf S) (unat (b2_buflen S)) 0 (unat (BLAKE2B_BLOCKBYTES - b2_buflen S));
        let S = S\<lparr>b2_buf := b\<rparr>;
        S \<leftarrow> blake2b_compress S (b2_buf S);
        let buffer = words_le 8 (b2_h S);
        b \<leftarrow> memcpy_n (b2_buf S) 0 buffer 0 (unat (b2_outlen S));
        let S = S\<lparr>b2_buf := b\<rparr>;
        out \<leftarrow> (case out of None \<Rightarrow> Some None
                | Some o1 \<Rightarrow> do { o1 \<leftarrow> memcpy_n o1 0 buffer 0 (unat (b2_outlen S)); Some (Some o1) });
        Some (Some (b2_outlen S), S, out) })"

section \<open>The hash interface\<close>

text \<open>As for SHA-3, an initialisation that leaves the context as it was returns no context.\<close>

definition cx_blake2b_init2_no_throw ::
  "size_t \<Rightarrow> bytes option \<Rightarrow> size_t \<Rightarrow> bytes option \<Rightarrow> size_t \<Rightarrow> (cx_err_t \<times> cx_blake2b_t option) option" where
  "cx_blake2b_init2_no_throw sz salt salt_len perso perso_len =
     (if salt = None \<and> salt_len \<noteq> 0 then Some (CX_INVALID_PARAMETER, None)
      else if perso = None \<and> perso_len \<noteq> 0 then Some (CX_INVALID_PARAMETER, None)
      else if salt_len > 16 \<or> perso_len > 16 then Some (CX_INVALID_PARAMETER, None)
      else if sz mod 8 \<noteq> 0 \<or> sz < 8 \<or> sz > 512 then Some (CX_INVALID_PARAMETER, None)
      else do {
        let sz = sz div 8;
        r \<leftarrow> blake2b_init sz salt salt_len perso perso_len;
        case r of
          Inl e \<Rightarrow> Some (CX_INVALID_PARAMETER,
            Some \<lparr>bl_type = CX_BLAKE2B, bl_output_size = sz, bl_ctx = blake2b_init0\<lparr>b2_h := replicate 8 0\<rparr>\<rparr>)
        | Inr S \<Rightarrow> Some (CX_OK, Some \<lparr>bl_type = CX_BLAKE2B, bl_output_size = sz, bl_ctx = S\<rparr>) })"

definition cx_blake2b_init_no_throw :: "size_t \<Rightarrow> (cx_err_t \<times> cx_blake2b_t option) option" where
  "cx_blake2b_init_no_throw sz = cx_blake2b_init2_no_throw sz None 0 None 0"

definition cx_blake2b_update :: "cx_blake2b_t \<Rightarrow> bytes option \<Rightarrow> size_t \<Rightarrow> (cx_err_t \<times> cx_blake2b_t) option" where
  "cx_blake2b_update ctx data len =
     (if data = None \<and> len \<noteq> 0 then Some (CX_INVALID_PARAMETER, ctx)
      else do {
        S \<leftarrow> blake2b_update (bl_ctx ctx) (case data of None \<Rightarrow> [] | Some d \<Rightarrow> d) len;
        Some (CX_OK, ctx\<lparr>bl_ctx := S\<rparr>) })"

definition cx_blake2b_final :: "cx_blake2b_t \<Rightarrow> bytes \<Rightarrow> (cx_err_t \<times> cx_blake2b_t \<times> bytes) option" where
  "cx_blake2b_final ctx digest = do {
     (n, S, out) \<leftarrow> blake2b_final (bl_ctx ctx) (Some digest) (bl_output_size ctx);
     Some (CX_OK, ctx\<lparr>bl_ctx := S\<rparr>, case out of None \<Rightarrow> digest | Some d \<Rightarrow> d) }"

definition cx_blake2b_get_output_size :: "cx_blake2b_t \<Rightarrow> size_t" where
  "cx_blake2b_get_output_size ctx = bl_output_size ctx"

text \<open>\<open>mode AND CX_LAST\<close> is the parameter \<open>is_last\<close>.\<close>

definition cx_blake2b ::
  "cx_blake2b_t \<Rightarrow> bool \<Rightarrow> bytes \<Rightarrow> size_t \<Rightarrow> bytes option \<Rightarrow> size_t \<Rightarrow> (cx_err_t \<times> cx_blake2b_t \<times> bytes option) option" where
  "cx_blake2b hash is_last in_data len out out_len = do {
     S \<leftarrow> blake2b_update (bl_ctx hash) in_data len;
     let hash = hash\<lparr>bl_ctx := S\<rparr>;
     if is_last then do {
       let sz = bl_output_size hash;
       if out \<noteq> None \<and> out_len < sz then Some (INVALID_PARAMETER, hash, out)
       else do {
         (n, S, out) \<leftarrow> blake2b_final S out out_len;
         let hash = hash\<lparr>bl_ctx := S\<rparr>;
         if n \<noteq> Some sz then Some (INVALID_PARAMETER, hash, out) else Some (CX_OK, hash, out) } }
     else Some (CX_OK, hash, out) }"

section \<open>RFC 7693\<close>

definition rfc_mix :: "u64 list \<Rightarrow> nat \<Rightarrow> nat \<Rightarrow> nat \<Rightarrow> nat \<Rightarrow> u64 \<Rightarrow> u64 \<Rightarrow> u64 list" where
  "rfc_mix v a b c d x y =
     (let v = v[a := v ! a + v ! b + x];
          v = v[d := word_rotr 32 (v ! d XOR v ! a)];
          v = v[c := v ! c + v ! d];
          v = v[b := word_rotr 24 (v ! b XOR v ! c)];
          v = v[a := v ! a + v ! b + y];
          v = v[d := word_rotr 16 (v ! d XOR v ! a)];
          v = v[c := v ! c + v ! d];
          v = v[b := word_rotr 63 (v ! b XOR v ! c)]
      in v)"

text \<open>A round with the message word schedule \<open>s\<close>.\<close>

definition rfc_round :: "u64 list \<Rightarrow> nat list \<Rightarrow> u64 list \<Rightarrow> u64 list" where
  "rfc_round m s v =
     (let v = rfc_mix v 0 4 8 12 (m ! (s ! 0)) (m ! (s ! 1));
          v = rfc_mix v 1 5 9 13 (m ! (s ! 2)) (m ! (s ! 3));
          v = rfc_mix v 2 6 10 14 (m ! (s ! 4)) (m ! (s ! 5));
          v = rfc_mix v 3 7 11 15 (m ! (s ! 6)) (m ! (s ! 7));
          v = rfc_mix v 0 5 10 15 (m ! (s ! 8)) (m ! (s ! 9));
          v = rfc_mix v 1 6 11 12 (m ! (s ! 10)) (m ! (s ! 11));
          v = rfc_mix v 2 7 8 13 (m ! (s ! 12)) (m ! (s ! 13));
          v = rfc_mix v 3 4 9 14 (m ! (s ! 14)) (m ! (s ! 15))
      in v)"

text \<open>The compression function \<open>F\<close>; \<open>t\<close> counts the bytes and \<open>f\<close> marks the last block.\<close>

definition blake_F :: "u64 list \<Rightarrow> bytes \<Rightarrow> nat \<Rightarrow> bool \<Rightarrow> u64 list" where
  "blake_F h b t f =
     (let m = le_words 8 b;
          v = h @ blake2b_IV;
          v = v[12 := v ! 12 XOR of_nat (t mod 2 ^ 64)];
          v = v[13 := v ! 13 XOR of_nat (t div 2 ^ 64)];
          v = (if f then v[14 := NOT (v ! 14)] else v);
          v = fold (\<lambda>i. rfc_round m (blake2b_sigma ! (i mod 10))) [0..<12] v
      in map (\<lambda>i. h ! i XOR v ! i XOR v ! (i + 8)) [0..<8])"

primrec rfc_chain :: "u64 list \<Rightarrow> nat \<Rightarrow> bytes list \<Rightarrow> u64 list" where
  "rfc_chain h i [] = h"
| "rfc_chain h i (b # bs) = rfc_chain (blake_F h b ((i + 1) * 128) False) (i + 1) bs"

text \<open>The initial value: the parameter block with no key, sequential mode, the salt and the personalisation.\<close>

definition rfc_h0 :: "nat \<Rightarrow> bytes \<Rightarrow> bytes \<Rightarrow> u64 list" where
  "rfc_h0 nn salt perso =
     map2 (XOR) blake2b_IV (le_words 8 ([of_nat nn, 0, 1, 1] @ replicate 28 0 @
       salt @ replicate (16 - length salt) 0 @ perso @ replicate (16 - length perso) 0))"

text \<open>All blocks but the last are chained; the last, padded with zeros, is never empty unless the message is.\<close>

definition rfc_blake2b :: "u64 list \<Rightarrow> bytes \<Rightarrow> nat \<Rightarrow> bytes" where
  "rfc_blake2b h0 m nn =
     (let k = (length m - 1) div 128 * 128; full = take k m; rest = drop k m
      in take nn (words_le 8
           (blake_F (rfc_chain h0 0 (chunks 128 full)) (rest @ replicate (128 - length rest) 0) (length m) True)))"

section \<open>Compression\<close>

lemma rotr64_word: "0 < n \<Longrightarrow> n < 64 \<Longrightarrow> rotr64 x n = word_rotr n x"
  using rotr_bits [of n x] by (simp add: rotr64_def)

lemma G_mix: "blake2b_G m r i a b c d v = rfc_mix v a b c d (m ! (blake2b_sigma ! r ! (2 * i))) (m ! (blake2b_sigma ! r ! (2 * i + 1)))"
  by (simp add: blake2b_G_def rfc_mix_def rotr64_word)

lemma blake2b_round_eq: "blake2b_round m r = rfc_round m (blake2b_sigma ! r)"
proof -
  have u: "[0..<4] = [0, 1, 2, 3::nat]" by (simp add: upt_conv_Cons)
  show ?thesis by (simp add: fun_eq_iff blake2b_round_def rfc_round_def u G_mix Let_def flip: numeral_2_eq_2)
qed

lemma sigma_rows:
  assumes "r < 12"
  shows "blake2b_sigma ! r = blake2b_sigma ! (r mod 10)"
proof -
  consider "r < 10" | "r = 10" | "r = 11" using assms by linarith
  then show ?thesis by cases (simp_all add: blake2b_sigma_def)
qed

lemma blake2b_rounds_eq: "fold (blake2b_round m) [0..<12] v = fold (\<lambda>i. rfc_round m (blake2b_sigma ! (i mod 10))) [0..<12] v"
proof (rule fold_cong)
  show "blake2b_round m r = rfc_round m (blake2b_sigma ! (r mod 10))" if "r \<in> set [0..<12]" for r
    unfolding blake2b_round_eq using that by (subst sigma_rows) simp_all
qed simp_all

lemma compress_eq:
  assumes "length (b2_h S) = 8" "128 \<le> length b" "t < 2 ^ 64" "b2_t0 S = of_nat t" "b2_t1 S = 0" "b2_f1 S = 0"
    "b2_f0 S = (if f then - 1 else 0)"
  shows "blake2b_compress S b = Some (S\<lparr>b2_h := blake_F (b2_h S) (take 128 b) t f\<rparr>)"
proof -
  have x: "x XOR - 1 = NOT x" for x :: u64 by simp
  have "b2_h S @ [blake2b_IV ! 0, blake2b_IV ! 1, blake2b_IV ! 2, blake2b_IV ! 3, blake2b_IV ! 4 XOR b2_t0 S,
      blake2b_IV ! 5 XOR b2_t1 S, blake2b_IV ! 6 XOR b2_f0 S, blake2b_IV ! 7 XOR b2_f1 S] =
    (let v = b2_h S @ blake2b_IV; v = v[12 := v ! 12 XOR of_nat (t mod 2 ^ 64)];
         v = v[13 := v ! 13 XOR of_nat (t div 2 ^ 64)] in (if f then v[14 := NOT (v ! 14)] else v))"
    using assms by (simp add: blake2b_IV_def nth_append list_update_append Let_def)
  then show ?thesis
    using assms(2) by (simp add: blake2b_compress_def ld_n_def blake2b_rounds_eq blake_F_def Let_def)
qed

section \<open>Streaming\<close>

text \<open>The state after the full blocks \<open>full\<close>, with nothing pending, and with \<open>rest\<close> pending.  A full buffer is kept
  until more input arrives, since the last block is compressed with its flag.\<close>

definition b2_mid :: "u64 list \<Rightarrow> bytes \<Rightarrow> blake2b_state \<Rightarrow> bool" where
  "b2_mid h0 full S =
     (b2_h S = rfc_chain h0 0 (chunks 128 full) \<and> length (b2_buf S) = 128 \<and> 128 dvd length full \<and>
      b2_t0 S = of_nat (length full) \<and> b2_t1 S = 0 \<and> b2_f0 S = 0 \<and> b2_f1 S = 0 \<and> b2_last_node S = 0)"

definition b2_rep :: "u64 list \<Rightarrow> size_t \<Rightarrow> bytes \<Rightarrow> blake2b_state \<Rightarrow> bool" where
  "b2_rep h0 n m S \<longleftrightarrow> b2_outlen S = n \<and>
     (\<exists>full rest. m = full @ rest \<and> b2_mid h0 full S \<and> length rest \<le> 128 \<and> (full \<noteq> [] \<longrightarrow> rest \<noteq> []) \<and>
        take (length rest) (b2_buf S) = rest \<and> b2_buflen S = of_nat (length rest))"

lemma length_blake_F [simp]: "length (blake_F h b t f) = 8"
  by (simp add: blake_F_def Let_def)

lemma length_rfc_chain [simp]: "length h = 8 \<Longrightarrow> length (rfc_chain h i bs) = 8"
  by (induction bs arbitrary: h i) simp_all

lemma rfc_chain_snoc: "rfc_chain h i (bs @ [b]) = blake_F (rfc_chain h i bs) b ((i + length bs + 1) * 128) False"
  by (induction bs arbitrary: h i) simp_all

lemma rfc_chain_block:
  assumes "128 dvd length full" "length b = 128"
  shows "rfc_chain h 0 (chunks 128 (full @ b)) = blake_F (rfc_chain h 0 (chunks 128 full)) b (length full + 128) False"
proof -
  have "chunks 128 (full @ b) = chunks 128 full @ [b]" using chunks_Cons [of 128 b "[]"] assms by (simp add: chunks_append)
  moreover have "length (chunks 128 full) * 128 = length full" using assms(1) by (simp add: length_chunks)
  ultimately show ?thesis by (simp add: rfc_chain_snoc add.commute)
qed

lemma b2_counter:
  assumes "b2_t0 S = of_nat t" "t + n < 2 ^ 64"
  shows "blake2b_increment_counter S (of_nat n) = S\<lparr>b2_t0 := of_nat (t + n)\<rparr>"
proof -
  have "unat (of_nat (t + n) :: u64) = t + n" "unat (of_nat n :: u64) = n"
    using assms(2) by (simp_all add: unsigned_of_nat take_bit_nat_eq_self del: of_nat_add)
  then have "\<not> (of_nat (t + n) :: u64) < of_nat n" by (simp add: word_less_nat_alt)
  then show ?thesis using assms(1) by (simp add: blake2b_increment_counter_def)
qed

lemma b2_buf_counter [simp]: "b2_buf (blake2b_increment_counter S n) = b2_buf S"
  by (simp add: blake2b_increment_counter_def Let_def)

lemma b2_step:
  assumes "b2_mid h0 full S" "length h0 = 8" "128 \<le> length b" "length full + 128 < 2 ^ 64"
  shows "\<exists>S'. blake2b_compress (blake2b_increment_counter S (ucast BLAKE2B_BLOCKBYTES)) b = Some S' \<and>
     b2_mid h0 (full @ take 128 b) S' \<and> b2_outlen S' = b2_outlen S \<and> b2_buflen S' = b2_buflen S \<and> b2_buf S' = b2_buf S"
proof -
  have h: "b2_h S = rfc_chain h0 0 (chunks 128 full)" "b2_t0 S = of_nat (length full)" "b2_t1 S = 0" "b2_f0 S = 0" "b2_f1 S = 0"
      "128 dvd length full"
    using assms(1) by (auto simp: b2_mid_def)
  let ?S = "S\<lparr>b2_t0 := of_nat (length full + 128)\<rparr>"
  have "(ucast BLAKE2B_BLOCKBYTES :: u64) = of_nat 128" by (simp add: BLAKE2B_BLOCKBYTES_def)
  then have i: "blake2b_increment_counter S (ucast BLAKE2B_BLOCKBYTES) = ?S" using b2_counter [OF h(2) assms(4)] by (simp only:)
  have c: "blake2b_compress ?S b = Some (?S\<lparr>b2_h := blake_F (b2_h ?S) (take 128 b) (length full + 128) False\<rparr>)"
    by (rule compress_eq) (use h assms(2-4) in simp_all)
  have "b2_mid h0 (full @ take 128 b) (?S\<lparr>b2_h := blake_F (b2_h ?S) (take 128 b) (length full + 128) False\<rparr>)"
    using assms(1,3) rfc_chain_block [OF h(6), of "take 128 b" h0] by (simp add: b2_mid_def)
  then show ?thesis unfolding i c by simp
qed

lemma b2_blocks:
  assumes "b2_mid h0 full S" "length h0 = 8" "d \<noteq> []" "length d < 2 ^ 32" "length (full @ d) < 2 ^ 64"
  shows "\<exists>S' full' rest'. blake2b_blocks S d (of_nat (length d)) = Some (S', rest', of_nat (length rest')) \<and>
     full' @ rest' = full @ d \<and> b2_mid h0 full' S' \<and> rest' \<noteq> [] \<and> length rest' \<le> 128 \<and> b2_outlen S' = b2_outlen S \<and>
     b2_buflen S' = b2_buflen S"
  using assms
proof (induction "length d" arbitrary: full S d rule: less_induct)
  case less
  have ud: "unat (of_nat (length d) :: size_t) = length d" using less.prems(4) by (simp add: unsigned_of_nat take_bit_nat_eq_self)
  have c: "of_nat (length d) > BLAKE2B_BLOCKBYTES \<longleftrightarrow> 128 < length d"
    using ud by (simp add: word_less_nat_alt BLAKE2B_BLOCKBYTES_def)
  show ?case
  proof (cases "128 < length d")
    case True
    obtain S1 where S1: "blake2b_compress (blake2b_increment_counter S (ucast BLAKE2B_BLOCKBYTES)) d = Some S1"
        "b2_mid h0 (full @ take 128 d) S1" "b2_outlen S1 = b2_outlen S" "b2_buflen S1 = b2_buflen S"
      using b2_step [OF less.prems(1,2), of d] True less.prems(5) by auto
    let ?d = "drop 128 d"
    have len: "of_nat (length d) - BLAKE2B_BLOCKBYTES = (of_nat (length ?d) :: size_t)" "unat BLAKE2B_BLOCKBYTES = 128"
      using of_nat_drop [of "128 :: size_t" d] True by (simp_all add: BLAKE2B_BLOCKBYTES_def)
    have "blake2b_blocks S d (of_nat (length d)) = blake2b_blocks S1 ?d (of_nat (length ?d))"
      using True c S1(1) len by (subst blake2b_blocks.simps) simp
    moreover have "length ?d < length d" "?d \<noteq> []" "length ?d < 2 ^ 32" "length ((full @ take 128 d) @ ?d) < 2 ^ 64"
      using True less.prems(4,5) by simp_all
    note less.hyps [OF this(1) S1(2) less.prems(2) this(2,3,4)]
    ultimately show ?thesis using S1(3,4) by simp
  next
    case False
    then show ?thesis using c less.prems by (subst blake2b_blocks.simps) (auto intro!: exI [of _ full])
  qed
qed

lemma b2_update_rep:
  assumes "b2_rep h0 n m S" "length h0 = 8" "length d < 2 ^ 32" "length (m @ d) < 2 ^ 64"
  shows "\<exists>S'. blake2b_update S d (of_nat (length d)) = Some S' \<and> b2_rep h0 n (m @ d) S'"
proof -
  obtain full rest where r: "m = full @ rest" "b2_mid h0 full S" "length rest \<le> 128" "full \<noteq> [] \<longrightarrow> rest \<noteq> []"
      "take (length rest) (b2_buf S) = rest" "b2_buflen S = of_nat (length rest)" "b2_outlen S = n"
    using assms(1) by (auto simp: b2_rep_def)
  have lb: "length (b2_buf S) = 128" using r(2) by (simp add: b2_mid_def)
  have ul: "unat (of_nat (length rest) :: size_t) = length rest" using r(3) by (simp add: unsigned_of_nat take_bit_nat_eq_self)
  have ud: "unat (of_nat (length d) :: size_t) = length d" using assms(3) by (simp add: unsigned_of_nat take_bit_nat_eq_self)
  define fill where "fill = BLAKE2B_BLOCKBYTES - of_nat (length rest)"
  have uf: "unat fill = 128 - length rest"
    unfolding fill_def BLAKE2B_BLOCKBYTES_def using r(3) ul by (subst unat_sub_no_wrap) (simp_all add: word_le_nat_alt)
  have gt: "of_nat (length d) > fill \<longleftrightarrow> 128 < length rest + length d" using r(3) by (simp add: word_less_nat_alt uf ud) arith
  have z: "of_nat (length d) > (0 :: size_t) \<longleftrightarrow> d \<noteq> []" using ud by (simp add: word_less_nat_alt)
  show ?thesis
  proof (cases "d = []")
    case True
    then show ?thesis using assms(1) by (simp add: blake2b_update_def)
  next
    case ne: False
    show ?thesis
    proof (cases "128 < length rest + length d")
      case True
      let ?k = "128 - length rest"
      let ?b = "rest @ take ?k d"
      have lk: "length ?b = 128" "?k < length d" using True r(3) by simp_all
      have m: "memcpy_n (b2_buf S) (length rest) d 0 ?k = Some ?b"
        using lb r(3,5) lk by (simp add: memcpy_n_in)
      let ?S = "S\<lparr>b2_buflen := 0, b2_buf := ?b\<rparr>"
      have "b2_mid h0 full ?S" using r(2) lk by (simp add: b2_mid_def)
      then obtain S1 where S1: "blake2b_compress (blake2b_increment_counter ?S (ucast BLAKE2B_BLOCKBYTES)) ?b = Some S1"
          "b2_mid h0 (full @ ?b) S1" "b2_outlen S1 = n" "b2_buflen S1 = 0"
        using b2_step [of h0 full ?S ?b] assms(2,4) lk True r(1,7) by auto
      define d1 where "d1 = drop ?k d"
      have d1: "d1 \<noteq> []" "length d1 < 2 ^ 32" using lk assms(3) by (simp_all add: d1_def)
      have fb: "(full @ ?b) @ d1 = m @ d" using r(1) by (simp add: d1_def)
      have "\<exists>S' full' rest'. blake2b_blocks S1 d1 (of_nat (length d1)) = Some (S', rest', of_nat (length rest')) \<and>
          full' @ rest' = (full @ ?b) @ d1 \<and> b2_mid h0 full' S' \<and> rest' \<noteq> [] \<and> length rest' \<le> 128 \<and> b2_outlen S' = b2_outlen S1 \<and>
          b2_buflen S' = b2_buflen S1"
        by (rule b2_blocks [OF S1(2) assms(2) d1]) (use assms(4) fb in \<open>simp only:\<close>)
      then obtain S2 full' rest' where S2: "blake2b_blocks S1 d1 (of_nat (length d1)) = Some (S2, rest', of_nat (length rest'))"
          "full' @ rest' = m @ d" "b2_mid h0 full' S2" "rest' \<noteq> []" "length rest' \<le> 128" "b2_outlen S2 = n" "b2_buflen S2 = 0"
        unfolding fb using S1(3,4) by (elim exE conjE) simp
      have len: "of_nat (length d) - fill = of_nat (length d1)" unfolding d1_def uf [symmetric] by (rule of_nat_drop) (use lk uf in simp)
      have ur: "unat (of_nat (length rest') :: size_t) = length rest'" using S2(5) by (simp add: unsigned_of_nat take_bit_nat_eq_self)
      have lb2: "length (b2_buf S2) = 128" using S2(3) by (simp add: b2_mid_def)
      let ?S2 = "S2\<lparr>b2_buf := rest' @ drop (length rest') (b2_buf S2), b2_buflen := of_nat (length rest')\<rparr>"
      have m2: "memcpy_n (b2_buf S2) 0 rest' 0 (length rest') = Some (rest' @ drop (length rest') (b2_buf S2))"
        using lb2 S2(5) by (simp add: memcpy_n_in)
      have "blake2b_update S d (of_nat (length d)) = Some ?S2"
        unfolding blake2b_update_def Let_def r(6) fill_def [symmetric]
        using ne True z gt ul uf m S1(1) S2(1,7) len ur m2 d1_def by simp
      moreover have "b2_rep h0 n (m @ d) ?S2"
        unfolding b2_rep_def using S2 lb2
        by (intro conjI exI [of _ full'] exI [of _ rest']) (simp_all add: b2_mid_def)
      ultimately show ?thesis by blast
    next
      case False
      let ?b = "rest @ d @ drop (length rest + length d) (b2_buf S)"
      let ?S = "S\<lparr>b2_buf := ?b, b2_buflen := of_nat (length rest) + of_nat (length d)\<rparr>"
      have m: "memcpy_n (b2_buf S) (length rest) d 0 (length d) = Some ?b" using lb r(5) False by (simp add: memcpy_n_in)
      have "blake2b_update S d (of_nat (length d)) = Some ?S"
        unfolding blake2b_update_def Let_def r(6) fill_def [symmetric] using ne False z gt r(6) ul ud m by simp
      moreover have "b2_rep h0 n (m @ d) ?S"
        unfolding b2_rep_def using r lb False ne
        by (intro conjI exI [of _ full] exI [of _ "rest @ d"]) (simp_all add: b2_mid_def)
      ultimately show ?thesis by blast
    qed
  qed
qed

lemma b2_split:
  fixes full rest :: bytes
  assumes "128 dvd length full" "length rest \<le> 128" "full \<noteq> [] \<longrightarrow> rest \<noteq> []"
  shows "(length (full @ rest) - 1) div 128 * 128 = length full"
proof (cases "rest = []")
  case False
  obtain k where k: "length full = 128 * k" using assms(1) by (elim dvdE)
  obtain x xs where "rest = x # xs" using False by (cases rest) auto
  then have "length (full @ rest) - 1 = 128 * k + length xs" "length xs div 128 = 0" using k assms(2) by auto
  then show ?thesis using k by (simp add: div_mult_self4)
qed (use assms(3) in auto)

lemma b2_final_rep:
  assumes "b2_rep h0 n m S" "length h0 = 8" "length m < 2 ^ 64" "n \<le> 64" "unat n \<le> length out" "n \<le> outlen"
  shows "\<exists>S'. blake2b_final S (Some out) outlen = Some (Some n, S', Some (rfc_blake2b h0 m (unat n) @ drop (unat n) out)) \<and>
     blake2b_is_lastblock S' \<and> b2_outlen S' = n"
proof -
  obtain full rest where r: "m = full @ rest" "b2_mid h0 full S" "length rest \<le> 128" "full \<noteq> [] \<longrightarrow> rest \<noteq> []"
      "take (length rest) (b2_buf S) = rest" "b2_buflen S = of_nat (length rest)" "b2_outlen S = n"
    using assms(1) by (auto simp: b2_rep_def)
  have h: "b2_h S = rfc_chain h0 0 (chunks 128 full)" "length (b2_buf S) = 128" "128 dvd length full" "b2_t0 S = of_nat (length full)"
      "b2_t1 S = 0" "b2_f0 S = 0" "b2_f1 S = 0" "b2_last_node S = 0"
    using r(2) by (auto simp: b2_mid_def)
  have ul: "unat (of_nat (length rest) :: size_t) = length rest" using r(3) by (simp add: unsigned_of_nat take_bit_nat_eq_self)
  have uc: "(ucast (of_nat (length rest) :: size_t) :: u64) = of_nat (length rest)"
    by (metis ul of_nat_unat)
  have u2: "unat (BLAKE2B_BLOCKBYTES - of_nat (length rest)) = 128 - length rest"
    unfolding BLAKE2B_BLOCKBYTES_def using r(3) ul by (subst unat_sub_no_wrap) (simp_all add: word_le_nat_alt)
  let ?b = "rest @ replicate (128 - length rest) 0"
  let ?S = "S\<lparr>b2_t0 := of_nat (length m), b2_f0 := - 1, b2_buf := ?b\<rparr>"
  have cnt: "blake2b_increment_counter S (of_nat (length rest)) = S\<lparr>b2_t0 := of_nat (length m)\<rparr>"
    using b2_counter [OF h(4), of "length rest"] assms(3) r(1) by simp
  have ms: "memset_n (b2_buf S) (length rest) 0 (128 - length rest) = Some ?b" using h(2) r(3,5) by (simp add: memset_n_in)
  let ?h = "blake_F (rfc_chain h0 0 (chunks 128 full)) ?b (length m) True"
  have c: "blake2b_compress ?S ?b = Some (?S\<lparr>b2_h := blake_F (b2_h ?S) (take 128 ?b) (length m) True\<rparr>)"
    by (rule compress_eq) (use h assms(2,3) r(3) in simp_all)
  have tb: "take 128 ?b = ?b" using r(3) by simp
  have un: "unat n \<le> 64" using assms(4) by (simp add: word_le_nat_alt)
  have o: "memcpy_n out 0 (words_le 8 ?h) 0 (unat n) = Some (take (unat n) (words_le 8 ?h) @ drop (unat n) out)"
      "memcpy_n ?b 0 (words_le 8 ?h) 0 (unat n) = Some (take (unat n) (words_le 8 ?h) @ drop (unat n) ?b)"
    using assms(5) un r(3) by (simp_all add: memcpy_n_in)
  have "rfc_blake2b h0 m (unat n) = take (unat n) (words_le 8 ?h)"
    using b2_split [OF h(3) r(3,4)] by (simp add: rfc_blake2b_def r(1) Let_def)
  moreover have "\<not> outlen < n" using assms(6) by simp
  ultimately show ?thesis
    unfolding blake2b_final_def Let_def blake2b_set_lastblock_def
    using h r(6,7) ul uc u2 cnt ms c tb o
    by (simp add: blake2b_is_lastblock_def)
qed

section \<open>Hashing in pieces\<close>

lemma param_zeros: "replicate 28 (0 :: u8) = le_bytes 4 (0 :: u32) @ le_bytes 4 (0 :: u32) @ le_bytes 4 (0 :: u32) @ [0, 0] @ replicate 14 0"
proof -
  have "le_bytes 4 (0 :: u32) = replicate 4 0" by (simp add: le_bytes_def be_bytes4 numeral_eq_Suc)
  moreover have "[0, 0] = replicate 2 (0 :: u8)" by (simp add: numeral_eq_Suc)
  ultimately show ?thesis by (simp flip: replicate_add)
qed

text \<open>The bytes an optional buffer and a length describe; a null pointer comes with length 0.\<close>

definition opt_buf :: "bytes option \<Rightarrow> size_t \<Rightarrow> bytes" where
  "opt_buf b n = (case b of None \<Rightarrow> [] | Some b \<Rightarrow> take (unat n) b)"

definition opt_ok :: "bytes option \<Rightarrow> size_t \<Rightarrow> bool" where
  "opt_ok b n = (n \<le> 16 \<and> (case b of None \<Rightarrow> n = 0 | Some b \<Rightarrow> unat n \<le> length b))"

lemma opt_buf_copy:
  assumes "opt_ok b n"
  shows "length (opt_buf b n) \<le> 16"
    "b = Some x \<Longrightarrow> memcpy_n (replicate 16 0) 0 x 0 (unat n) = Some (opt_buf b n @ replicate (16 - length (opt_buf b n)) 0)"
proof -
  have n: "unat n \<le> 16" using assms by (simp add: opt_ok_def word_le_nat_alt)
  then show "length (opt_buf b n) \<le> 16" by (auto simp: opt_buf_def split: option.splits)
  show "memcpy_n (replicate 16 0) 0 x 0 (unat n) = Some (opt_buf b n @ replicate (16 - length (opt_buf b n)) 0)" if "b = Some x"
    using that assms n by (simp add: opt_ok_def opt_buf_def memcpy_n_in)
qed

lemma blake2b_init_rep:
  assumes "opt_ok salt sl" "opt_ok perso pl" "0 < n" "n \<le> 64"
  shows "\<exists>S. blake2b_init n salt sl perso pl = Some (Inr S) \<and> b2_rep (rfc_h0 (unat n) (opt_buf salt sl) (opt_buf perso pl)) n [] S"
proof -
  let ?s = "opt_buf salt sl" and ?p = "opt_buf perso pl"
  define P where "P = (blake2b_param0 n 0)\<lparr>p_salt := ?s @ replicate (16 - length ?s) 0, p_personal := ?p @ replicate (16 - length ?p) 0\<rparr>"
  have "blake2b_init n salt sl perso pl = Some (Inr (blake2b_init_param P))"
    using assms(3,4) opt_buf_copy [OF assms(1)] opt_buf_copy [OF assms(2)]
    by (cases salt; cases perso)
      (auto simp: blake2b_init_def BLAKE2B_OUTBYTES_def P_def blake2b_param0_def Let_def opt_buf_def)
  moreover have "param_bytes P = [of_nat (unat n), 0, 1, 1] @ replicate 28 0 @ ?s @ replicate (16 - length ?s) 0 @ ?p @ replicate (16 - length ?p) 0"
    unfolding param_zeros by (simp add: param_bytes_def P_def blake2b_param0_def)
  then have "b2_h (blake2b_init_param P) = rfc_h0 (unat n) ?s ?p"
    by (simp add: blake2b_init_param_def blake2b_init0_def rfc_h0_def Let_def)
  moreover have "b2_outlen (blake2b_init_param P) = n"
  proof -
    have "unat n \<le> 64" using assms(4) by (simp add: word_le_nat_alt)
    then have "unat (ucast (ucast n :: u8) :: size_t) = unat n"
      by (simp add: unsigned_ucast_eq unsigned_take_bit_eq take_bit_nat_eq_self)
    then show ?thesis by (simp add: blake2b_init_param_def P_def blake2b_param0_def Let_def word_unat_eq_iff)
  qed
  ultimately show ?thesis
    by (simp add: b2_rep_def b2_mid_def) (simp add: blake2b_init_param_def blake2b_init0_def Let_def)
qed

lemma length_rfc_h0:
  assumes "length s \<le> 16" "length p \<le> 16"
  shows "length (rfc_h0 n s p) = 8"
  using assms by (simp add: rfc_h0_def length_le_words blake2b_IV_def)

text \<open>The context of the hash interface.\<close>

definition bl_rep :: "u64 list \<Rightarrow> size_t \<Rightarrow> bytes \<Rightarrow> cx_blake2b_t \<Rightarrow> bool" where
  "bl_rep h0 n m c = (bl_type c = CX_BLAKE2B \<and> bl_output_size c = n \<and> 0 < n \<and> n \<le> 64 \<and> length h0 = 8 \<and> b2_rep h0 n m (bl_ctx c))"

lemma cx_blake2b_init2_rep:
  assumes "opt_ok salt sl" "opt_ok perso pl" "sz mod 8 = 0" "8 \<le> sz" "sz \<le> 512"
  shows "\<exists>c. cx_blake2b_init2_no_throw sz salt sl perso pl = Some (CX_OK, Some c) \<and>
     bl_rep (rfc_h0 (unat (sz div 8)) (opt_buf salt sl) (opt_buf perso pl)) (sz div 8) [] c"
proof -
  have u: "unat (sz div 8) = unat sz div 8" by (simp add: unat_div)
  have "8 \<le> unat sz" "unat sz \<le> 512" using assms(4,5) by (simp_all add: word_le_nat_alt)
  then have "0 < unat (sz div 8)" "unat (sz div 8) \<le> 64" unfolding u by simp_all
  then have n: "0 < sz div 8" "sz div 8 \<le> 64" by (simp_all add: word_less_nat_alt word_le_nat_alt)
  obtain S where S: "blake2b_init (sz div 8) salt sl perso pl = Some (Inr S)"
      "b2_rep (rfc_h0 (unat (sz div 8)) (opt_buf salt sl) (opt_buf perso pl)) (sz div 8) [] S"
    using blake2b_init_rep [OF assms(1,2) n] by blast
  have "cx_blake2b_init2_no_throw sz salt sl perso pl =
      Some (CX_OK, Some \<lparr>bl_type = CX_BLAKE2B, bl_output_size = sz div 8, bl_ctx = S\<rparr>)"
    using assms S(1) by (auto simp: cx_blake2b_init2_no_throw_def opt_ok_def not_less [symmetric] split: option.splits)
  then show ?thesis
    using S(2) n length_rfc_h0 [OF opt_buf_copy(1) [OF assms(1)] opt_buf_copy(1) [OF assms(2)]] by (simp add: bl_rep_def)
qed

lemma cx_blake2b_update_rep:
  assumes "bl_rep h0 n m c" "length d < 2 ^ 32" "length (m @ d) < 2 ^ 64"
  shows "\<exists>c'. cx_blake2b_update c (Some d) (of_nat (length d)) = Some (CX_OK, c') \<and> bl_rep h0 n (m @ d) c'"
  using b2_update_rep [of h0 n m "bl_ctx c" d] assms by (auto simp: cx_blake2b_update_def bl_rep_def)

lemma cx_blake2b_final_rep:
  assumes "bl_rep h0 n m c" "length m < 2 ^ 64" "unat n \<le> length out"
  shows "\<exists>c'. cx_blake2b_final c out = Some (CX_OK, c', rfc_blake2b h0 m (unat n) @ drop (unat n) out) \<and>
     bl_type c' = CX_BLAKE2B \<and> bl_output_size c' = n \<and> blake2b_is_lastblock (bl_ctx c') \<and> b2_outlen (bl_ctx c') = n"
  using b2_final_rep [of h0 n m "bl_ctx c" out n] assms by (auto simp: cx_blake2b_final_def bl_rep_def)

text \<open>Ending a computation twice writes nothing the second time, and reports success.\<close>

lemma cx_blake2b_final_again:
  assumes "blake2b_is_lastblock (bl_ctx c)"
  shows "cx_blake2b_final c out = Some (CX_OK, c, out)"
  using assms by (cases c) (simp add: cx_blake2b_final_def blake2b_final_def)

end
