(* ===== verification/Cx_Hash.thy ===== *)
theory Cx_Hash
  imports Cx_Sha256 Cx_Sha512 Cx_Ripemd160 Cx_Sha3 Cx_Blake2b
begin

text \<open>
  The hash dispatch of \<^verbatim>\<open>lib_cxng/src/cx_hash.c\<close> over all algorithms of its table and the scattered-input functions of
  \<^verbatim>\<open>src/cx_hash_iovec.c\<close>.  The locale \<open>hash_core\<close> is the contract of hashing in pieces; it is interpreted on the
  dispatch functions twice, for the algorithms with a fixed and with a variable output size.  The locale
  \<open>hash_api\<close> extends it by what the clients (HMAC, HKDF, PBKDF2) rely on beyond that.
\<close>

section \<open>Dispatch\<close>

text \<open>The abstract context is one of the concrete ones, which its \<open>info\<close> pointer tells apart.\<close>

datatype cx_hash_t =
    Sha256_ctx cx_sha256_t | Sha512_ctx cx_sha512_t | Ripemd160_ctx cx_ripemd160_t | Sha3_ctx cx_sha3_t | Blake2b_ctx cx_blake2b_t

record cx_hash_info_t =
  info_md_type :: cx_md_t
  info_output_size :: size_t
  info_block_size :: size_t

definition cx_hash_get_info :: "cx_md_t \<Rightarrow> cx_hash_info_t option" where
  "cx_hash_get_info md =
     (case md of
        CX_SHA256 \<Rightarrow> Some \<lparr>info_md_type = CX_SHA256, info_output_size = 32, info_block_size = 64\<rparr>
      | CX_RIPEMD160 \<Rightarrow> Some \<lparr>info_md_type = CX_RIPEMD160, info_output_size = 20, info_block_size = 64\<rparr>
      | CX_SHA224 \<Rightarrow> Some \<lparr>info_md_type = CX_SHA224, info_output_size = 28, info_block_size = 64\<rparr>
      | CX_SHA384 \<Rightarrow> Some \<lparr>info_md_type = CX_SHA384, info_output_size = 48, info_block_size = 128\<rparr>
      | CX_SHA512 \<Rightarrow> Some \<lparr>info_md_type = CX_SHA512, info_output_size = 64, info_block_size = 128\<rparr>
      | CX_SHA3 \<Rightarrow> Some \<lparr>info_md_type = CX_SHA3, info_output_size = 0, info_block_size = 0\<rparr>
      | CX_SHA3_256 \<Rightarrow> Some \<lparr>info_md_type = CX_SHA3, info_output_size = 0, info_block_size = 0\<rparr>
      | CX_SHA3_512 \<Rightarrow> Some \<lparr>info_md_type = CX_SHA3, info_output_size = 0, info_block_size = 0\<rparr>
      | CX_KECCAK \<Rightarrow> Some \<lparr>info_md_type = CX_KECCAK, info_output_size = 0, info_block_size = 0\<rparr>
      | CX_SHAKE128 \<Rightarrow> Some \<lparr>info_md_type = CX_SHAKE128, info_output_size = 0, info_block_size = 0\<rparr>
      | CX_SHAKE256 \<Rightarrow> Some \<lparr>info_md_type = CX_SHAKE256, info_output_size = 0, info_block_size = 0\<rparr>
      | CX_BLAKE2B \<Rightarrow> Some \<lparr>info_md_type = CX_BLAKE2B, info_output_size = 0, info_block_size = BLAKE2B_BLOCKBYTES\<rparr>
      | _ \<Rightarrow> None)"

definition cx_hash_md :: "cx_hash_t \<Rightarrow> cx_md_t" where
  "cx_hash_md ctx =
     (case ctx of
        Sha256_ctx c \<Rightarrow> md_type c
      | Sha512_ctx c \<Rightarrow> md_type c
      | Ripemd160_ctx c \<Rightarrow> md_type c
      | Sha3_ctx c \<Rightarrow> s3_type c
      | Blake2b_ctx c \<Rightarrow> bl_type c)"

text \<open>\<open>info->output_size_func\<close>, which the algorithms with a fixed output size do not have.\<close>

definition hash_output_size_func :: "cx_hash_t \<Rightarrow> size_t option" where
  "hash_output_size_func ctx =
     (case ctx of
        Sha3_ctx c \<Rightarrow> Some (cx_sha3_get_output_size c)
      | Blake2b_ctx c \<Rightarrow> Some (cx_blake2b_get_output_size c)
      | _ \<Rightarrow> None)"

definition cx_hash_get_size :: "cx_hash_t \<Rightarrow> size_t option" where
  "cx_hash_get_size ctx = do {
     info \<leftarrow> cx_hash_get_info (cx_hash_md ctx);
     if info_output_size info \<noteq> 0 then Some (info_output_size info) else hash_output_size_func ctx }"

text \<open>\<open>info->init_func\<close>, \<open>info->update_func\<close> and \<open>info->finish_func\<close> of the algorithms; \<open>init_func\<close> is null for those with a
  variable output size, which have an \<open>init_ex_func\<close>.\<close>

definition hash_init_func :: "cx_md_t \<Rightarrow> cx_hash_t \<Rightarrow> cx_hash_t" where
  "hash_init_func md ctx =
     (case md of
        CX_SHA256 \<Rightarrow> Sha256_ctx (snd cx_sha256_init_no_throw)
      | CX_RIPEMD160 \<Rightarrow> Ripemd160_ctx (snd cx_ripemd160_init_no_throw)
      | CX_SHA224 \<Rightarrow> Sha256_ctx (snd cx_sha224_init_no_throw)
      | CX_SHA384 \<Rightarrow> Sha512_ctx (snd cx_sha384_init_no_throw)
      | CX_SHA512 \<Rightarrow> Sha512_ctx (snd cx_sha512_init_no_throw)
      | _ \<Rightarrow> ctx)"

definition cx_hash_init :: "cx_hash_t \<Rightarrow> cx_md_t \<Rightarrow> cx_err_t \<times> cx_hash_t" where
  "cx_hash_init ctx md =
     (case cx_hash_get_info md of
        None \<Rightarrow> (CX_INVALID_PARAMETER, ctx)
      | Some info \<Rightarrow>
          if info_output_size info = 0 then (CX_INVALID_PARAMETER, ctx)
          else (CX_OK, hash_init_func md ctx))"

definition hash_init_ex_func :: "cx_md_t \<Rightarrow> cx_hash_t \<Rightarrow> size_t \<Rightarrow> (cx_err_t \<times> cx_hash_t) option" where
  "hash_init_ex_func md ctx sz =
     (let sha3 = (\<lambda>(e, c). Some (e, case c of None \<Rightarrow> ctx | Some c \<Rightarrow> Sha3_ctx c))
      in case md of
        CX_SHA3 \<Rightarrow> sha3 (cx_sha3_init_no_throw sz)
      | CX_KECCAK \<Rightarrow> sha3 (cx_keccak_init_no_throw sz)
      | CX_SHAKE128 \<Rightarrow> sha3 (cx_shake128_init_no_throw sz)
      | CX_SHAKE256 \<Rightarrow> sha3 (cx_shake256_init_no_throw sz)
      | CX_BLAKE2B \<Rightarrow> do {
          (e, c) \<leftarrow> cx_blake2b_init_no_throw sz;
          Some (e, case c of None \<Rightarrow> ctx | Some c \<Rightarrow> Blake2b_ctx c) }
      | _ \<Rightarrow> None)"

definition cx_hash_init_ex :: "cx_hash_t \<Rightarrow> cx_md_t \<Rightarrow> size_t \<Rightarrow> (cx_err_t \<times> cx_hash_t) option" where
  "cx_hash_init_ex ctx md output_size =
     (case cx_hash_get_info md of
        None \<Rightarrow> Some (CX_INVALID_PARAMETER, ctx)
      | Some info \<Rightarrow>
          if info_output_size info \<noteq> 0 then
            if info_output_size info \<noteq> output_size then Some (CX_INVALID_PARAMETER, ctx)
            else Some (cx_hash_init ctx md)
          else hash_init_ex_func (info_md_type info) ctx (output_size * 8))"

definition cx_hash_update :: "cx_hash_t \<Rightarrow> bytes option \<Rightarrow> size_t \<Rightarrow> (cx_err_t \<times> cx_hash_t) option" where
  "cx_hash_update ctx data len =
     (case ctx of
        Sha256_ctx c \<Rightarrow> do { (e, c) \<leftarrow> cx_sha256_update c data len; Some (e, Sha256_ctx c) }
      | Sha512_ctx c \<Rightarrow> do { (e, c) \<leftarrow> cx_sha512_update c data len; Some (e, Sha512_ctx c) }
      | Ripemd160_ctx c \<Rightarrow> do { (e, c) \<leftarrow> cx_ripemd160_update c data len; Some (e, Ripemd160_ctx c) }
      | Sha3_ctx c \<Rightarrow> do { (e, c) \<leftarrow> cx_sha3_update c data len; Some (e, Sha3_ctx c) }
      | Blake2b_ctx c \<Rightarrow> do { (e, c) \<leftarrow> cx_blake2b_update c data len; Some (e, Blake2b_ctx c) })"

definition cx_hash_final :: "cx_hash_t \<Rightarrow> bytes \<Rightarrow> (cx_err_t \<times> cx_hash_t \<times> bytes) option" where
  "cx_hash_final ctx digest =
     (case ctx of
        Sha256_ctx c \<Rightarrow> do { (e, c, d) \<leftarrow> cx_sha256_final c digest; Some (e, Sha256_ctx c, d) }
      | Sha512_ctx c \<Rightarrow> do { (e, c, d) \<leftarrow> cx_sha512_final c digest; Some (e, Sha512_ctx c, d) }
      | Ripemd160_ctx c \<Rightarrow> do { (e, c, d) \<leftarrow> cx_ripemd160_final c digest; Some (e, Ripemd160_ctx c, d) }
      | Sha3_ctx c \<Rightarrow> do { (e, c, d) \<leftarrow> cx_sha3_final c digest; Some (e, Sha3_ctx c, d) }
      | Blake2b_ctx c \<Rightarrow> do { (e, c, d) \<leftarrow> cx_blake2b_final c digest; Some (e, Blake2b_ctx c, d) })"

text \<open>\<open>mode AND CX_LAST\<close> is the parameter \<open>last\<close>.\<close>

definition cx_hash_no_throw ::
  "cx_hash_t \<Rightarrow> bool \<Rightarrow> bytes option \<Rightarrow> size_t \<Rightarrow> bytes \<Rightarrow> size_t \<Rightarrow> (cx_err_t \<times> cx_hash_t \<times> bytes) option" where
  "cx_hash_no_throw hash is_last in_data len out out_len = do {
     digest_len \<leftarrow> cx_hash_get_size hash;
     (e, hash) \<leftarrow> cx_hash_update hash in_data len;
     if e \<noteq> CX_OK then Some (e, hash, out)
     else if is_last then
       if out_len < digest_len then Some (INVALID_PARAMETER, hash, out)
       else cx_hash_final hash out
     else Some (e, hash, out) }"

section \<open>Scattered input\<close>

type_synonym cx_iovec_t = "bytes option \<times> size_t"

primrec iovec_loop :: "cx_hash_t \<Rightarrow> cx_iovec_t list \<Rightarrow> (cx_err_t \<times> cx_hash_t) option" where
  "iovec_loop ctx [] = Some (CX_OK, ctx)"
| "iovec_loop ctx (v # vs) = do {
     (e, ctx) \<leftarrow> cx_hash_update ctx (fst v) (snd v);
     if e \<noteq> CX_OK then Some (e, ctx) else iovec_loop ctx vs }"

definition hash_iovec :: "cx_hash_t \<Rightarrow> cx_md_t \<Rightarrow> cx_iovec_t list \<Rightarrow> bytes \<Rightarrow> (cx_err_t \<times> bytes) option" where
  "hash_iovec ctx md iovec digest =
     (let (e, ctx) = cx_hash_init ctx md
      in if e \<noteq> CX_OK then Some (e, digest)
         else do {
           (e, ctx) \<leftarrow> iovec_loop ctx iovec;
           if e \<noteq> CX_OK then Some (e, digest)
           else do { (e, ctx, digest) \<leftarrow> cx_hash_final ctx digest; Some (e, digest) } })"

definition cx_ripemd160_hash_iovec :: "cx_hash_t \<Rightarrow> cx_iovec_t list \<Rightarrow> bytes \<Rightarrow> (cx_err_t \<times> bytes) option" where
  "cx_ripemd160_hash_iovec ctx iovec digest = hash_iovec ctx CX_RIPEMD160 iovec digest"

definition cx_sha224_hash_iovec :: "cx_hash_t \<Rightarrow> cx_iovec_t list \<Rightarrow> bytes \<Rightarrow> (cx_err_t \<times> bytes) option" where
  "cx_sha224_hash_iovec ctx iovec digest = hash_iovec ctx CX_SHA224 iovec digest"

definition cx_sha256_hash_iovec :: "cx_hash_t \<Rightarrow> cx_iovec_t list \<Rightarrow> bytes \<Rightarrow> (cx_err_t \<times> bytes) option" where
  "cx_sha256_hash_iovec ctx iovec digest = hash_iovec ctx CX_SHA256 iovec digest"

definition cx_sha384_hash_iovec :: "cx_hash_t \<Rightarrow> cx_iovec_t list \<Rightarrow> bytes \<Rightarrow> (cx_err_t \<times> bytes) option" where
  "cx_sha384_hash_iovec ctx iovec digest = hash_iovec ctx CX_SHA384 iovec digest"

definition cx_sha512_hash_iovec :: "cx_hash_t \<Rightarrow> cx_iovec_t list \<Rightarrow> bytes \<Rightarrow> (cx_err_t \<times> bytes) option" where
  "cx_sha512_hash_iovec ctx iovec digest = hash_iovec ctx CX_SHA512 iovec digest"

definition hash_iovec_ex ::
  "cx_hash_t \<Rightarrow> cx_md_t \<Rightarrow> size_t \<Rightarrow> cx_iovec_t list \<Rightarrow> bytes \<Rightarrow> (cx_err_t \<times> bytes) option" where
  "hash_iovec_ex ctx md digest_len iovec digest = do {
     (e, ctx) \<leftarrow> cx_hash_init_ex ctx md digest_len;
     if e \<noteq> CX_OK then Some (e, digest)
     else do {
       (e, ctx) \<leftarrow> iovec_loop ctx iovec;
       if e \<noteq> CX_OK then Some (e, digest)
       else do { (e, ctx, digest) \<leftarrow> cx_hash_final ctx digest; Some (e, digest) } } }"

definition cx_sha3_224_hash_iovec :: "cx_hash_t \<Rightarrow> cx_iovec_t list \<Rightarrow> bytes \<Rightarrow> (cx_err_t \<times> bytes) option" where
  "cx_sha3_224_hash_iovec ctx iovec digest = hash_iovec_ex ctx CX_SHA3 28 iovec digest"

definition cx_sha3_256_hash_iovec :: "cx_hash_t \<Rightarrow> cx_iovec_t list \<Rightarrow> bytes \<Rightarrow> (cx_err_t \<times> bytes) option" where
  "cx_sha3_256_hash_iovec ctx iovec digest = hash_iovec_ex ctx CX_SHA3 32 iovec digest"

definition cx_sha3_384_hash_iovec :: "cx_hash_t \<Rightarrow> cx_iovec_t list \<Rightarrow> bytes \<Rightarrow> (cx_err_t \<times> bytes) option" where
  "cx_sha3_384_hash_iovec ctx iovec digest = hash_iovec_ex ctx CX_SHA3 48 iovec digest"

definition cx_sha3_512_hash_iovec :: "cx_hash_t \<Rightarrow> cx_iovec_t list \<Rightarrow> bytes \<Rightarrow> (cx_err_t \<times> bytes) option" where
  "cx_sha3_512_hash_iovec ctx iovec digest = hash_iovec_ex ctx CX_SHA3 64 iovec digest"

definition cx_keccak_224_hash_iovec :: "cx_hash_t \<Rightarrow> cx_iovec_t list \<Rightarrow> bytes \<Rightarrow> (cx_err_t \<times> bytes) option" where
  "cx_keccak_224_hash_iovec ctx iovec digest = hash_iovec_ex ctx CX_KECCAK 28 iovec digest"

definition cx_keccak_256_hash_iovec :: "cx_hash_t \<Rightarrow> cx_iovec_t list \<Rightarrow> bytes \<Rightarrow> (cx_err_t \<times> bytes) option" where
  "cx_keccak_256_hash_iovec ctx iovec digest = hash_iovec_ex ctx CX_KECCAK 32 iovec digest"

definition cx_keccak_384_hash_iovec :: "cx_hash_t \<Rightarrow> cx_iovec_t list \<Rightarrow> bytes \<Rightarrow> (cx_err_t \<times> bytes) option" where
  "cx_keccak_384_hash_iovec ctx iovec digest = hash_iovec_ex ctx CX_KECCAK 48 iovec digest"

definition cx_keccak_512_hash_iovec :: "cx_hash_t \<Rightarrow> cx_iovec_t list \<Rightarrow> bytes \<Rightarrow> (cx_err_t \<times> bytes) option" where
  "cx_keccak_512_hash_iovec ctx iovec digest = hash_iovec_ex ctx CX_KECCAK 64 iovec digest"

definition cx_shake128_hash_iovec :: "cx_hash_t \<Rightarrow> cx_iovec_t list \<Rightarrow> bytes \<Rightarrow> size_t \<Rightarrow> (cx_err_t \<times> bytes) option" where
  "cx_shake128_hash_iovec ctx iovec digest out_length = hash_iovec_ex ctx CX_SHAKE128 out_length iovec digest"

definition cx_shake256_hash_iovec :: "cx_hash_t \<Rightarrow> cx_iovec_t list \<Rightarrow> bytes \<Rightarrow> size_t \<Rightarrow> (cx_err_t \<times> bytes) option" where
  "cx_shake256_hash_iovec ctx iovec digest out_length = hash_iovec_ex ctx CX_SHAKE256 out_length iovec digest"

definition cx_blake2b_256_hash_iovec :: "cx_hash_t \<Rightarrow> cx_iovec_t list \<Rightarrow> bytes \<Rightarrow> (cx_err_t \<times> bytes) option" where
  "cx_blake2b_256_hash_iovec ctx iovec digest = hash_iovec_ex ctx CX_BLAKE2B 32 iovec digest"

definition cx_blake2b_512_hash_iovec :: "cx_hash_t \<Rightarrow> cx_iovec_t list \<Rightarrow> bytes \<Rightarrow> (cx_err_t \<times> bytes) option" where
  "cx_blake2b_512_hash_iovec ctx iovec digest = hash_iovec_ex ctx CX_BLAKE2B 64 iovec digest"

section \<open>What the hash functions compute\<close>

text \<open>SHA-224 starts from the second 32 bits of the initial values of SHA-384.\<close>

lemma sha224_constants: "hzero_224 = map ucast hzero_384"
  by (simp add: hzero_224_def hzero_384_def BITS64_def)

definition hash_allowed :: "cx_md_t \<Rightarrow> bool" where
  "hash_allowed md = (md \<in> {CX_SHA224, CX_SHA256, CX_SHA384, CX_SHA512, CX_RIPEMD160})"

definition hash_osize :: "cx_md_t \<Rightarrow> nat" where
  "hash_osize md = (case md of CX_SHA224 \<Rightarrow> 28 | CX_SHA256 \<Rightarrow> 32 | CX_SHA384 \<Rightarrow> 48 | CX_SHA512 \<Rightarrow> 64 | _ \<Rightarrow> 20)"

definition hash_bsize :: "cx_md_t \<Rightarrow> nat" where
  "hash_bsize md = (case md of CX_SHA384 \<Rightarrow> 128 | CX_SHA512 \<Rightarrow> 128 | _ \<Rightarrow> 64)"

definition hash_fn :: "cx_md_t \<Rightarrow> bytes \<Rightarrow> bytes" where
  "hash_fn md m =
     (case md of
        CX_SHA224 \<Rightarrow> take 28 (fips_sha256 hzero_224 m)
      | CX_SHA256 \<Rightarrow> fips_sha256 hzero m
      | CX_SHA384 \<Rightarrow> take 48 (fips_sha512 hzero_384 m)
      | CX_SHA512 \<Rightarrow> fips_sha512 hzero_512 m
      | _ \<Rightarrow> rmd160 m)"

text \<open>The lengths for which the code computes the hash function.\<close>

definition hash_limit :: "cx_md_t \<Rightarrow> nat \<Rightarrow> bool" where
  "hash_limit md n =
     (case md of
        CX_SHA224 \<Rightarrow> n < 2 ^ 38
      | CX_SHA256 \<Rightarrow> n < 2 ^ 38
      | CX_SHA384 \<Rightarrow> n div 128 \<le> 65535
      | CX_SHA512 \<Rightarrow> n div 128 \<le> 65535
      | _ \<Rightarrow> n div 64 \<le> 65535)"

definition hash_rep :: "cx_md_t \<Rightarrow> bytes \<Rightarrow> cx_hash_t \<Rightarrow> bool" where
  "hash_rep md m ctx =
     (cx_hash_md ctx = md \<and>
      (case ctx of
         Sha256_ctx c \<Rightarrow> md = CX_SHA224 \<and> sha256_rep hzero_224 m c \<or> md = CX_SHA256 \<and> sha256_rep hzero m c
       | Sha512_ctx c \<Rightarrow> md = CX_SHA384 \<and> sha512_rep hzero_384 m c \<or> md = CX_SHA512 \<and> sha512_rep hzero_512 m c
       | Ripemd160_ctx c \<Rightarrow> md = CX_RIPEMD160 \<and> ripemd160_rep m c
       | _ \<Rightarrow> False))"

text \<open>The contract of hashing in pieces; \<open>cap\<close> bounds one piece, \<open>limit\<close> the whole message.\<close>

locale hash_core =
  fixes init :: "'c \<Rightarrow> 'k \<Rightarrow> (cx_err_t \<times> 'c) option"
    and upd :: "'c \<Rightarrow> bytes option \<Rightarrow> size_t \<Rightarrow> (cx_err_t \<times> 'c) option"
    and fin :: "'c \<Rightarrow> bytes \<Rightarrow> (cx_err_t \<times> 'c \<times> bytes) option"
    and rep :: "'k \<Rightarrow> bytes \<Rightarrow> 'c \<Rightarrow> bool"
    and H :: "'k \<Rightarrow> bytes \<Rightarrow> bytes"
    and osize :: "'k \<Rightarrow> nat"
    and limit :: "'k \<Rightarrow> nat \<Rightarrow> bool"
    and ok :: "'k \<Rightarrow> bool"
    and cap :: nat
  assumes init_rep: "ok md \<Longrightarrow> \<exists>c. init c0 md = Some (CX_OK, c) \<and> rep md [] c"
    and upd_rep: "rep md m c \<Longrightarrow> length d < cap \<Longrightarrow> limit md (length (m @ d)) \<Longrightarrow>
      \<exists>c'. upd c (Some d) (of_nat (length d)) = Some (CX_OK, c') \<and> rep md (m @ d) c'"
    and fin_rep: "rep md m c \<Longrightarrow> limit md (length m) \<Longrightarrow> osize md \<le> length out \<Longrightarrow>
      \<exists>c'. fin c out = Some (CX_OK, c', H md m @ drop (osize md) out)"
    and limit_mono: "limit md n \<Longrightarrow> k \<le> n \<Longrightarrow> limit md k"
begin

lemma updates_rep:
  assumes "\<forall>d\<in>set ds. length d < cap"
  shows "rep md m c \<Longrightarrow> limit md (length (m @ concat ds)) \<Longrightarrow>
    \<exists>c'. md_updates upd c ds = Some (CX_OK, c') \<and> rep md (m @ concat ds) c'"
  using assms
proof (induction ds arbitrary: m c)
  case (Cons d ds)
  have "limit md (length (m @ d))" by (rule limit_mono [OF Cons.prems(2)]) simp
  then obtain c1 where c1: "upd c (Some d) (of_nat (length d)) = Some (CX_OK, c1)" "rep md (m @ d) c1"
    using upd_rep [OF Cons.prems(1), of d] Cons.prems(3) by auto
  then show ?case using Cons.IH [OF c1(2)] Cons.prems by auto
qed auto

lemma hash_pieces:
  assumes "ok md" "\<forall>d\<in>set ds. length d < cap" "limit md (length (concat ds))" "osize md \<le> length out"
  shows "\<exists>c1 c2 c3. init c0 md = Some (CX_OK, c1) \<and> md_updates upd c1 ds = Some (CX_OK, c2) \<and>
     fin c2 out = Some (CX_OK, c3, H md (concat ds) @ drop (osize md) out)"
proof -
  obtain c1 where c1: "init c0 md = Some (CX_OK, c1)" "rep md [] c1" using init_rep [OF assms(1)] by blast
  obtain c2 where c2: "md_updates upd c1 ds = Some (CX_OK, c2)" "rep md (concat ds) c2"
    using updates_rep [OF assms(2) c1(2)] assms(3) by auto
  show ?thesis using c1 c2 fin_rep [OF c2(2) assms(3,4)] by blast
qed

end

text \<open>The clients read the algorithm back from the context, also after the end of a computation.\<close>

locale hash_api = hash_core +
  fixes alg :: "'a \<Rightarrow> 'b"
  assumes rep_alg: "rep md m c \<Longrightarrow> alg c = md"
    and fin_alg: "rep md m c \<Longrightarrow> limit md (length m) \<Longrightarrow> osize md \<le> length out \<Longrightarrow> fin c out = Some (e, c', d) \<Longrightarrow> alg c' = md"
begin

lemma fin_rep_alg:
  assumes "rep md m c" "limit md (length m)" "osize md \<le> length out"
  shows "\<exists>c'. fin c out = Some (CX_OK, c', H md m @ drop (osize md) out) \<and> alg c' = md"
  using fin_rep [OF assms] fin_alg [OF assms] by blast

end

lemma hash_md_cases:
  assumes "hash_allowed md"
  obtains "md = CX_SHA224" | "md = CX_SHA256" | "md = CX_SHA384" | "md = CX_SHA512" | "md = CX_RIPEMD160"
  using assms by (auto simp: hash_allowed_def)

lemma md_type_init [simp]:
  "md_type (cx_sha256_ctx md h) = md" "md_type (cx_sha512_ctx md g) = md" "md_type (snd cx_ripemd160_init_no_throw) = CX_RIPEMD160"
  by (simp_all add: cx_sha256_ctx_def cx_sha512_ctx_def cx_ripemd160_init_no_throw_def)

lemma length_hzero [simp]: "length hzero_224 = 8" "length hzero = 8" "length hzero_384 = 8" "length hzero_512 = 8"
  by (simp_all add: hzero_224_def hzero_def hzero_384_def hzero_512_def)

lemma hash_init_rep: "hash_allowed md \<Longrightarrow> \<exists>c. cx_hash_init c0 md = (CX_OK, c) \<and> hash_rep md [] c"
  by (erule hash_md_cases)
    (simp_all add: cx_hash_init_def cx_hash_get_info_def hash_init_func_def hash_rep_def cx_hash_md_def ripemd160_rep_init
      cx_sha224_init_no_throw_def cx_sha256_init_no_throw_def cx_sha384_init_no_throw_def cx_sha512_init_no_throw_def
      sha256_rep_init sha512_rep_init)

lemma hash_update_rep:
  assumes "hash_rep md m c" "length d < 2 ^ 32 - 128" "hash_limit md (length (m @ d))"
  shows "\<exists>c'. cx_hash_update c (Some d) (of_nat (length d)) = Some (CX_OK, c') \<and> hash_rep md (m @ d) c'"
  using assms sha256.upd_rep [of _ m _ d] sha512.upd_rep [of _ m _ d] ripemd160.upd_rep [of _ m _ d]
  by (cases c) (fastforce simp: hash_rep_def cx_hash_update_def cx_hash_md_def hash_limit_def)+

lemma hash_final_rep:
  assumes r: "hash_rep md m c" and l: "hash_limit md (length m)" and o: "hash_osize md \<le> length out"
  shows "\<exists>c'. cx_hash_final c out = Some (CX_OK, c', hash_fn md m @ drop (hash_osize md) out) \<and> cx_hash_md c' = md"
proof (cases c)
  case (Sha256_ctx x)
  then have x: "md_type x = md" "md = CX_SHA224 \<and> sha256_rep hzero_224 m x \<or> md = CX_SHA256 \<and> sha256_rep hzero m x"
    using r by (auto simp: hash_rep_def cx_hash_md_def)
  have "length m div 64 < 2 ^ 32" using l x(2) by (auto simp: hash_limit_def div_less_iff_less_mult)
  then show ?thesis
    using cx_sha256_final_rep [of _ m x _ out] x o length_fips_sha256 [of hzero m] Sha256_ctx
    by (fastforce simp: cx_hash_final_def hash_fn_def hash_osize_def cx_hash_md_def)
next
  case (Sha512_ctx x)
  then have x: "md_type x = md" "md = CX_SHA384 \<and> sha512_rep hzero_384 m x \<or> md = CX_SHA512 \<and> sha512_rep hzero_512 m x"
    using r by (auto simp: hash_rep_def cx_hash_md_def)
  have "length m div 128 < 2 ^ 32" using l x(2) by (auto simp: hash_limit_def)
  then show ?thesis
    using cx_sha512_final_rep [of _ m x _ out] x o length_fips_sha512 [of hzero_512 m] Sha512_ctx
    by (fastforce simp: cx_hash_final_def hash_fn_def hash_osize_def cx_hash_md_def)
next
  case (Ripemd160_ctx x)
  then show ?thesis
    using cx_ripemd160_final_rep [of m x out] r l o
    by (auto simp: hash_rep_def cx_hash_final_def hash_fn_def hash_osize_def hash_limit_def cx_hash_md_def)
qed (use r in \<open>simp_all add: hash_rep_def\<close>)

lemma hash_rep_md: "hash_rep md m c \<Longrightarrow> cx_hash_md c = md"
  by (simp add: hash_rep_def)

lemma hash_limit_mono: "hash_limit md n \<Longrightarrow> k \<le> n \<Longrightarrow> hash_limit md k"
  using div_le_mono [of k n 64] div_le_mono [of k n 128] by (auto simp: hash_limit_def split: cx_md_t.splits)

interpretation hash: hash_api "\<lambda>c md. Some (cx_hash_init c md)" cx_hash_update cx_hash_final hash_rep hash_fn hash_osize
  hash_limit hash_allowed "2 ^ 32 - 128" cx_hash_md
proof
  show "\<exists>c. Some (cx_hash_init c0 md) = Some (CX_OK, c) \<and> hash_rep md [] c" if "hash_allowed md" for c0 md
    using hash_init_rep [OF that, of c0] by simp
  show "\<exists>c'. cx_hash_final c out = Some (CX_OK, c', hash_fn md m @ drop (hash_osize md) out)"
    if "hash_rep md m c" "hash_limit md (length m)" "hash_osize md \<le> length out" for md m c out
    using hash_final_rep [OF that] by blast
  show "cx_hash_md c' = md"
    if "hash_rep md m c" "hash_limit md (length m)" "hash_osize md \<le> length out" "cx_hash_final c out = Some (e, c', d)" for md m c out e c' d
    using hash_final_rep [OF that(1-3)] that(4) by auto
qed (fact hash_update_rep hash_rep_md hash_limit_mono)+

section \<open>Algorithms with a variable output size\<close>

text \<open>The rate and the padding byte of the sponge that the code runs for an output of \<open>n\<close> bytes.\<close>

definition sha3_param :: "cx_md_t \<Rightarrow> nat \<Rightarrow> (nat \<times> u8) option" where
  "sha3_param md n =
     (if md \<in> {CX_SHA3, CX_SHA3_256, CX_SHA3_512} \<and> n \<in> {16, 28, 32, 48, 64} then Some (200 - 2 * n, 0x06)
      else if md = CX_KECCAK \<and> n \<in> {16, 28, 32, 48, 64} then Some (200 - 2 * n, 0x01)
      else if md = CX_SHAKE128 \<and> n < 2 ^ 29 then Some (168, 0x1F)
      else if md = CX_SHAKE256 \<and> n < 2 ^ 29 then Some (136, 0x1F)
      else None)"

definition xhash_ok :: "cx_md_t \<times> nat \<Rightarrow> bool" where
  "xhash_ok = (\<lambda>(md, n). sha3_param md n \<noteq> None \<or> md = CX_BLAKE2B \<and> 1 \<le> n \<and> n \<le> 64)"

definition xhash_fn :: "cx_md_t \<times> nat \<Rightarrow> bytes \<Rightarrow> bytes" where
  "xhash_fn = (\<lambda>(md, n) m.
     case sha3_param md n of Some (r, p) \<Rightarrow> sponge r p m n | None \<Rightarrow> rfc_blake2b (rfc_h0 n [] []) m n)"

definition xhash_limit :: "cx_md_t \<times> nat \<Rightarrow> nat \<Rightarrow> bool" where
  "xhash_limit = (\<lambda>(md, n) k. case sha3_param md n of Some (r, p) \<Rightarrow> k div r \<le> 65535 | None \<Rightarrow> k < 2 ^ 64)"

definition xhash_rep :: "cx_md_t \<times> nat \<Rightarrow> bytes \<Rightarrow> cx_hash_t \<Rightarrow> bool" where
  "xhash_rep = (\<lambda>(md, n) m c.
     case c of
       Sha3_ctx c \<Rightarrow> (\<exists>md' bsz p. sha3_param md n = Some (unat bsz, p) \<and> n < 2 ^ 29 \<and> sha3_rep md' (of_nat n) bsz m c \<and> sha3_rate bsz \<and>
         sha3_kind md' (of_nat n) bsz p)
     | Blake2b_ctx c \<Rightarrow> sha3_param md n = None \<and> n \<le> 64 \<and> bl_rep (rfc_h0 n [] []) (of_nat n) m c
     | _ \<Rightarrow> False)"

definition xhash_init :: "cx_hash_t \<Rightarrow> cx_md_t \<times> nat \<Rightarrow> (cx_err_t \<times> cx_hash_t) option" where
  "xhash_init c = (\<lambda>(md, n). cx_hash_init_ex c md (of_nat n))"

lemma bits_of_bytes:
  assumes "n < 2 ^ 29"
  shows "of_nat n * 8 mod 8 = (0 :: size_t)" "of_nat n * 8 div 8 = (of_nat n :: size_t)"
proof -
  have "unat (of_nat n :: size_t) = n" using assms by (simp add: unsigned_of_nat take_bit_nat_eq_self)
  moreover from this have "unat (of_nat n * 8 :: size_t) = n * 8"
    using assms unat_mult_lem [of "of_nat n :: size_t" 8] by simp
  ultimately show "of_nat n * 8 mod 8 = (0 :: size_t)" "of_nat n * 8 div 8 = (of_nat n :: size_t)"
    by (simp_all add: word_unat_eq_iff unat_mod unat_div)
qed

lemma sha3_init_ex:
  assumes p: "sha3_param md n = Some (r, p)"
  shows "\<exists>c md' bsz. hash_init_ex_func (info_md_type (the (cx_hash_get_info md))) c0 (of_nat n * 8) = Some (CX_OK, Sha3_ctx c) \<and>
     unat bsz = r \<and> n < 2 ^ 29 \<and> sha3_mode c md' (of_nat n) bsz p"
proof -
  note defs = sha3_param_def hash_init_ex_func_def cx_hash_get_info_def Let_def
  consider "md \<in> {CX_SHA3, CX_SHA3_256, CX_SHA3_512}" | "md = CX_KECCAK" | "md = CX_SHAKE128" | "md = CX_SHAKE256"
    using p by (auto simp: sha3_param_def split: if_splits)
  then show ?thesis
  proof cases
    case 1
    then have n: "n \<in> {16, 28, 32, 48, 64}" using p by (auto simp: sha3_param_def split: if_splits)
    let ?b = "200 - (of_nat n * 8 :: size_t) div 4"
    have "check_hash_out_size (of_nat n * 8)" "(of_nat n * 8 :: size_t) div 8 = of_nat n" "unat ?b = 200 - 2 * n"
      using n by (auto simp: check_hash_out_size_def)
    with sha3_init_modes(1) [of "of_nat n * 8"] show ?thesis
      using 1 n p by (intro exI [of _ "the (snd (cx_sha3_init_no_throw (of_nat n * 8)))"] exI [of _ CX_SHA3] exI [of _ ?b]) (auto simp: defs)
  next
    case 2
    then have n: "n \<in> {16, 28, 32, 48, 64}" using p by (auto simp: sha3_param_def split: if_splits)
    let ?b = "200 - (of_nat n * 8 :: size_t) div 4"
    have "check_hash_out_size (of_nat n * 8)" "(of_nat n * 8 :: size_t) div 8 = of_nat n" "unat ?b = 200 - 2 * n"
      using n by (auto simp: check_hash_out_size_def)
    with sha3_init_modes(2) [of "of_nat n * 8"] show ?thesis
      using 2 n p by (intro exI [of _ "the (snd (cx_keccak_init_no_throw (of_nat n * 8)))"] exI [of _ CX_KECCAK] exI [of _ ?b]) (auto simp: defs)
  next
    case 3
    then have n: "n < 2 ^ 29" using p by (auto simp: sha3_param_def split: if_splits)
    with sha3_init_modes(3) [of "of_nat n * 8"] bits_of_bytes [OF n] show ?thesis
      using 3 p by (intro exI [of _ "the (snd (cx_shake128_init_no_throw (of_nat n * 8)))"] exI [of _ CX_SHAKE128] exI [of _ 168]) (auto simp: defs)
  next
    case 4
    then have n: "n < 2 ^ 29" using p by (auto simp: sha3_param_def split: if_splits)
    with sha3_init_modes(4) [of "of_nat n * 8"] bits_of_bytes [OF n] show ?thesis
      using 4 p by (intro exI [of _ "the (snd (cx_shake256_init_no_throw (of_nat n * 8)))"] exI [of _ CX_SHAKE256] exI [of _ 136]) (auto simp: defs)
  qed
qed

lemma xhash_init_rep:
  assumes "xhash_ok k"
  shows "\<exists>c. xhash_init c0 k = Some (CX_OK, c) \<and> xhash_rep k [] c"
proof -
  obtain md n where k: "k = (md, n)" by (cases k)
  show ?thesis
  proof (cases "sha3_param md n")
    case (Some rp)
    obtain r p where rp: "rp = (r, p)" by (cases rp)
    obtain c md' bsz where c: "hash_init_ex_func (info_md_type (the (cx_hash_get_info md))) c0 (of_nat n * 8) = Some (CX_OK, Sha3_ctx c)"
        "unat bsz = r" "n < 2 ^ 29" "sha3_mode c md' (of_nat n) bsz p"
      using sha3_init_ex [of md n r p c0] Some rp by auto
    have "\<exists>info. cx_hash_get_info md = Some info \<and> info_output_size info = 0"
      using Some by (auto simp: sha3_param_def cx_hash_get_info_def split: if_splits)
    then have "xhash_init c0 k = Some (CX_OK, Sha3_ctx c)" using c(1) by (auto simp: xhash_init_def k cx_hash_init_ex_def)
    moreover have "xhash_rep k [] (Sha3_ctx c)"
      using c(2-4) sha3_rep_init [of bsz md' "of_nat n"] Some rp by (fastforce simp: xhash_rep_def k sha3_mode_def)
    ultimately show ?thesis by blast
  next
    case None
    then have n: "md = CX_BLAKE2B" "1 \<le> n" "n \<le> 64" using assms by (auto simp: xhash_ok_def k)
    have b: "of_nat n * 8 mod 8 = (0 :: size_t)" "of_nat n * 8 div 8 = (of_nat n :: size_t)" using bits_of_bytes [of n] n by simp_all
    have u: "unat (of_nat n :: size_t) = n" using n by (simp add: unsigned_of_nat take_bit_nat_eq_self)
    moreover from this have "unat (of_nat n * 8 :: size_t) = n * 8" using n unat_mult_lem [of "of_nat n :: size_t" 8] by simp
    ultimately have "8 \<le> (of_nat n * 8 :: size_t)" "of_nat n * 8 \<le> (512 :: size_t)" using n by (simp_all add: word_le_nat_alt)
    from cx_blake2b_init2_rep [of None 0 None 0, OF _ _ b(1) this] obtain c where
      "cx_blake2b_init_no_throw (of_nat n * 8) = Some (CX_OK, Some c)" "bl_rep (rfc_h0 n [] []) (of_nat n) [] c"
      by (auto simp: opt_ok_def opt_buf_def b(2) u cx_blake2b_init_no_throw_def)
    then show ?thesis
      using n None by (intro exI [of _ "Blake2b_ctx c"])
        (simp add: xhash_init_def k cx_hash_init_ex_def cx_hash_get_info_def hash_init_ex_func_def xhash_rep_def)
  qed
qed

lemma xhash_update_rep:
  assumes "xhash_rep k m c" "length d < 2 ^ 32 - 256" "xhash_limit k (length (m @ d))"
  shows "\<exists>c'. cx_hash_update c (Some d) (of_nat (length d)) = Some (CX_OK, c') \<and> xhash_rep k (m @ d) c'"
proof -
  obtain md n where k: "k = (md, n)" by (cases k)
  show ?thesis
  proof (cases c)
    case (Sha3_ctx x)
    then obtain md' bsz p where x: "sha3_param md n = Some (unat bsz, p)" "n < 2 ^ 29" "sha3_rep md' (of_nat n) bsz m x" "sha3_rate bsz"
        "sha3_kind md' (of_nat n) bsz p"
      using assms(1) by (auto simp: xhash_rep_def k)
    obtain x' where "cx_sha3_update x (Some d) (of_nat (length d)) = Some (CX_OK, x')" "sha3_rep md' (of_nat n) bsz (m @ d) x'"
      using sha3_update_rep [OF x(3) assms(2)] assms(3) x(1) by (auto simp: xhash_limit_def k)
    moreover from this(2) have "xhash_rep k (m @ d) (Sha3_ctx x')" unfolding xhash_rep_def k prod.case cx_hash_t.case using x by blast
    ultimately show ?thesis by (simp add: cx_hash_update_def Sha3_ctx)
  next
    case (Blake2b_ctx x)
    then show ?thesis
      using assms cx_blake2b_update_rep [of "rfc_h0 n [] []" "of_nat n" m x d]
      by (auto simp: xhash_rep_def xhash_limit_def k cx_hash_update_def)
  qed (use assms(1) in \<open>simp_all add: xhash_rep_def k\<close>)
qed

lemma xhash_final_rep:
  assumes "xhash_rep k m c" "xhash_limit k (length m)" "snd k \<le> length out"
  shows "\<exists>c'. cx_hash_final c out = Some (CX_OK, c', xhash_fn k m @ drop (snd k) out)"
proof -
  obtain md n where k: "k = (md, n)" by (cases k)
  show ?thesis
  proof (cases c)
    case (Sha3_ctx x)
    then obtain md' bsz p where x: "sha3_param md n = Some (unat bsz, p)" "n < 2 ^ 29" "sha3_rep md' (of_nat n) bsz m x"
        "sha3_kind md' (of_nat n) bsz p"
      using assms(1) by (auto simp: xhash_rep_def k)
    have u: "unat (of_nat n :: size_t) = n" using x(2) by (simp add: unsigned_of_nat take_bit_nat_eq_self)
    show ?thesis
      using sha3_final_rep [OF x(3) _ x(4), of out] assms(3) x(1) u by (auto simp: cx_hash_final_def Sha3_ctx xhash_fn_def k)
  next
    case (Blake2b_ctx x)
    then have x: "sha3_param md n = None" "n \<le> 64" "bl_rep (rfc_h0 n [] []) (of_nat n) m x" "length m < 2 ^ 64"
      using assms(1,2) by (auto simp: xhash_rep_def xhash_limit_def k)
    have u: "unat (of_nat n :: size_t) = n" using x(2) by (simp add: unsigned_of_nat take_bit_nat_eq_self)
    show ?thesis
      using cx_blake2b_final_rep [OF x(3,4), of out] assms(3) x(1) u by (auto simp: cx_hash_final_def Blake2b_ctx xhash_fn_def k)
  qed (use assms(1) in \<open>simp_all add: xhash_rep_def k\<close>)
qed

lemma xhash_limit_mono: "xhash_limit k n \<Longrightarrow> j \<le> n \<Longrightarrow> xhash_limit k j"
  by (auto simp: xhash_limit_def split: option.splits dest: div_le_mono intro: order_trans [OF div_le_mono])

interpretation xhash: hash_core xhash_init cx_hash_update cx_hash_final xhash_rep xhash_fn snd xhash_limit xhash_ok "2 ^ 32 - 256"
  by unfold_locales (fact xhash_init_rep xhash_update_rep xhash_final_rep xhash_limit_mono)+

lemma iovec_loop_updates:
  "iovec_loop c (map (\<lambda>d. (Some d, of_nat (length d))) ds) = md_updates cx_hash_update c ds"
  by (induction ds arbitrary: c) (simp_all cong: if_cong)

lemma iovec_loop_error:
  "iovec_loop c vs = Some (e, c') \<Longrightarrow> e \<noteq> CX_OK \<Longrightarrow> iovec_loop c (vs @ ws) = Some (e, c')"
  by (induction vs arbitrary: c) (auto split: bind_splits if_splits)

section \<open>Properties\<close>

text \<open>Property C36.  The five \<open>iovec\<close> functions compute the hash of the concatenation of the scattered pieces, whatever
  the previous state of the shared context, when the digest buffer has the size of the hash; the length the
  block counter can represent bounds the message.\<close>

theorem hash_iovec_correct:
  assumes "hash_allowed md" "\<forall>d\<in>set ds. length d < 2 ^ 32 - 128" "hash_limit md (length (concat ds))"
    and "hash_osize md \<le> length digest"
  shows "hash_iovec ctx md (map (\<lambda>d. (Some d, of_nat (length d))) ds) digest =
     Some (CX_OK, hash_fn md (concat ds) @ drop (hash_osize md) digest)"
  using hash.hash_pieces [OF assms, of ctx] by (auto simp: hash_iovec_def iovec_loop_updates)

theorem hash_iovec_correct_witness:
  "hash_iovec (Sha256_ctx (snd cx_sha256_init_no_throw)) CX_SHA512
     (map (\<lambda>d. (Some d, of_nat (length d))) [[0x61], [], [0x62, 0x63]]) (replicate 64 0) =
   Some (CX_OK, hash_fn CX_SHA512 [0x61, 0x62, 0x63])"
  using hash_iovec_correct [of CX_SHA512 "[[0x61], [], [0x62, 0x63]]" "replicate 64 0"]
  by (simp add: hash_allowed_def hash_limit_def hash_osize_def)

text \<open>The output sizes outside the list of \<open>check_hash_out_size\<close>, and BLAKE2b outputs of 0 or more than 64 bytes, are refused before
  anything is written.\<close>

lemma hash_iovec_ex_refused:
  assumes "md \<in> {CX_SHA3, CX_SHA3_256, CX_SHA3_512, CX_KECCAK, CX_BLAKE2B}" "n < 2 ^ 29" "\<not> xhash_ok (md, n)"
  shows "hash_iovec_ex ctx md (of_nat n) iov digest = Some (CX_INVALID_PARAMETER, digest)"
proof -
  have u: "unat (of_nat n * 8 :: size_t) = n * 8"
    using assms(2) unat_mult_lem [of "of_nat n :: size_t" 8] by (simp add: unsigned_of_nat take_bit_nat_eq_self)
  show ?thesis
  proof (cases "md = CX_BLAKE2B")
    case True
    then have "n = 0 \<or> 64 < n" using assms(3) by (auto simp: xhash_ok_def)
    then have "of_nat n * 8 < (8 :: size_t) \<or> (512 :: size_t) < of_nat n * 8" using u by (auto simp: word_less_nat_alt)
    then show ?thesis
      by (auto simp: True hash_iovec_ex_def cx_hash_init_ex_def cx_hash_get_info_def hash_init_ex_func_def
          cx_blake2b_init_no_throw_def cx_blake2b_init2_no_throw_def)
  next
    case False
    then have "n \<notin> {16, 28, 32, 48, 64}" using assms(1,3) by (auto simp: xhash_ok_def sha3_param_def)
    then have "\<not> check_hash_out_size (of_nat n * 8)" using u by (auto simp: check_hash_out_size_def word_unat_eq_iff)
    then show ?thesis
      using assms(1) False
      by (auto simp: hash_iovec_ex_def cx_hash_init_ex_def cx_hash_get_info_def hash_init_ex_func_def
          cx_sha3_init_no_throw_def cx_keccak_init_no_throw_def)
  qed
qed

text \<open>The output sizes in bytes that \<^verbatim>\<open>lcx_sha3.h\<close> and \<^verbatim>\<open>lcx_blake2.h\<close> document: those of FIPS 202 and of RFC 7693.\<close>

definition documented_size :: "cx_md_t \<Rightarrow> nat \<Rightarrow> bool" where
  "documented_size md n =
     (if md \<in> {CX_SHA3, CX_SHA3_256, CX_SHA3_512, CX_KECCAK} then n \<in> {28, 32, 48, 64}
      else if md = CX_BLAKE2B then 1 \<le> n \<and> n \<le> 64
      else True)"

text \<open>The functions of the standards: SHA-3 and Keccak of \<open>n\<close> bytes have the capacity \<open>2 n\<close> and the domain bits 01 or
  none before the padding, the SHAKEs the capacities 256 and 512 bits and the domain bits 1111.\<close>

definition standard_hash :: "cx_md_t \<Rightarrow> nat \<Rightarrow> bytes \<Rightarrow> bytes" where
  "standard_hash md n m =
     (if md = CX_SHAKE128 then sponge 168 0x1F m n
      else if md = CX_SHAKE256 then sponge 136 0x1F m n
      else if md = CX_BLAKE2B then rfc_blake2b (rfc_h0 n [] []) m n
      else if md = CX_KECCAK then sponge (200 - 2 * n) 0x01 m n
      else sponge (200 - 2 * n) 0x06 m n)"



end
