(* ===== verification/Cx_Hmac.thy ===== *)
theory Cx_Hmac
  imports Cx_Hash
begin

text \<open>
  HMAC, \<^verbatim>\<open>lib_cxng/src/cx_hmac.c\<close>.  The reference is RFC 2104 over the hash functions of \<open>Cx_Hash\<close>.
\<close>

section \<open>HMAC\<close>

record cx_hmac_t =
  hmac_key :: bytes
  hmac_hash_ctx :: cx_hash_t

definition IPAD :: u8 where "IPAD = 0x36"
definition OPAD :: u8 where "OPAD = 0x5c"

definition cx_get_block_size :: "cx_md_t \<Rightarrow> size_t" where
  "cx_get_block_size md = (case cx_hash_get_info md of None \<Rightarrow> 0 | Some info \<Rightarrow> info_block_size info)"

definition cx_get_algorithm :: "cx_hmac_t \<Rightarrow> cx_md_t" where
  "cx_get_algorithm ctx = cx_hash_md (hmac_hash_ctx ctx)"

definition cx_is_allowed_digest :: "cx_md_t \<Rightarrow> bool" where
  "cx_is_allowed_digest md = (md \<in> set [CX_SHA224, CX_SHA256, CX_SHA384, CX_SHA512, CX_RIPEMD160])"

text \<open>The loops that XOR a constant into the first \<open>n\<close> bytes of a buffer.\<close>

definition xor_first :: "u8 \<Rightarrow> nat \<Rightarrow> bytes \<Rightarrow> bytes" where
  "xor_first c n b = map (\<lambda>x. x XOR c) (take n b) @ drop n b"

text \<open>The key part of \<open>cx_hmac_init\<close>: the key, or its hash when it is longer than a block, XORed with \<open>IPAD\<close>.\<close>

definition hmac_set_key :: "cx_hmac_t \<Rightarrow> cx_md_t \<Rightarrow> bytes \<Rightarrow> size_t \<Rightarrow> (cx_err_t \<times> cx_hmac_t) option" where
  "hmac_set_key ctx md key key_len = do {
     let block_size = cx_get_block_size md;
     (e, ctx) \<leftarrow>
       (if key_len > block_size then do {
          let (e, h) = cx_hash_init (hmac_hash_ctx ctx) md;
          if e \<noteq> CX_OK then Some (e, ctx\<lparr>hmac_hash_ctx := h\<rparr>)
          else do {
            (e, h) \<leftarrow> cx_hash_update h (Some key) key_len;
            if e \<noteq> CX_OK then Some (e, ctx\<lparr>hmac_hash_ctx := h\<rparr>)
            else do {
              (e, h, k) \<leftarrow> cx_hash_final h (hmac_key ctx);
              Some (e, ctx\<lparr>hmac_hash_ctx := h, hmac_key := k\<rparr>) } } }
        else do {
          k \<leftarrow> memcpy_n (hmac_key ctx) 0 key 0 (unat key_len);
          Some (CX_OK, ctx\<lparr>hmac_key := k\<rparr>) });
     if e \<noteq> CX_OK then Some (e, ctx)
     else Some (e, ctx\<lparr>hmac_key := xor_first IPAD (unat block_size) (hmac_key ctx)\<rparr>) }"

definition cx_hmac_init :: "cx_hmac_t \<Rightarrow> cx_md_t \<Rightarrow> bytes option \<Rightarrow> size_t \<Rightarrow> (cx_err_t \<times> cx_hmac_t) option" where
  "cx_hmac_init ctx md key key_len =
     (if \<not> cx_is_allowed_digest md \<or> (key = None \<and> key_len \<noteq> 0) then Some (CX_INVALID_PARAMETER, ctx)
      else do {
        let ctx = ctx\<lparr>hmac_key := replicate 128 0\<rparr>;
        (e, ctx) \<leftarrow> (case key of None \<Rightarrow> Some (CX_OK, ctx) | Some k \<Rightarrow> hmac_set_key ctx md k key_len);
        if e \<noteq> CX_OK then Some (e, ctx)
        else do {
          let (e, h) = cx_hash_init (hmac_hash_ctx ctx) md;
          if e \<noteq> CX_OK then Some (e, ctx\<lparr>hmac_hash_ctx := h\<rparr>)
          else do {
            (e, h) \<leftarrow> cx_hash_update h (Some (hmac_key ctx)) (cx_get_block_size md);
            Some (e, ctx\<lparr>hmac_hash_ctx := h\<rparr>) } } })"

definition cx_hmac_update :: "cx_hmac_t \<Rightarrow> bytes option \<Rightarrow> size_t \<Rightarrow> (cx_err_t \<times> cx_hmac_t) option" where
  "cx_hmac_update ctx data data_len =
     (if data_len = 0 then Some (CX_OK, ctx)
      else do {
        (e, h) \<leftarrow> cx_hash_update (hmac_hash_ctx ctx) data data_len;
        Some (e, ctx\<lparr>hmac_hash_ctx := h\<rparr>) })"

text \<open>\<open>cx_hmac_final\<close> returns the error, the context, the output buffer and \<open>*out_len\<close>.  The local arrays are
  uninitialised in the code; only the bytes written before are read.\<close>

definition cx_hmac_final :: "cx_hmac_t \<Rightarrow> bytes \<Rightarrow> size_t \<Rightarrow> (cx_err_t \<times> cx_hmac_t \<times> bytes \<times> size_t) option" where
  "cx_hmac_final ctx out out_len = do {
     let h = hmac_hash_ctx ctx;
     let md = cx_get_algorithm ctx;
     let block_size = cx_get_block_size md;
     hash_output_size \<leftarrow> cx_hash_get_size h;
     (e, h, inner_hash) \<leftarrow> cx_hash_final h (replicate 128 0);
     if e \<noteq> CX_OK then Some (e, ctx\<lparr>hmac_hash_ctx := h\<rparr>, out, out_len)
     else do {
       hkey \<leftarrow> memcpy_n (replicate 128 0) 0 (hmac_key ctx) 0 (unat block_size);
       let hkey = xor_first (OPAD XOR IPAD) (unat block_size) hkey;
       let (e, h) = cx_hash_init h md;
       if e \<noteq> CX_OK then Some (e, ctx\<lparr>hmac_hash_ctx := h\<rparr>, out, out_len)
       else do {
         (e, h) \<leftarrow> cx_hash_update h (Some hkey) block_size;
         if e \<noteq> CX_OK then Some (e, ctx\<lparr>hmac_hash_ctx := h\<rparr>, out, out_len)
         else do {
           (e, h) \<leftarrow> cx_hash_update h (Some inner_hash) hash_output_size;
           if e \<noteq> CX_OK then Some (e, ctx\<lparr>hmac_hash_ctx := h\<rparr>, out, out_len)
           else do {
             (e, h, hkey) \<leftarrow> cx_hash_final h hkey;
             if e \<noteq> CX_OK then Some (e, ctx\<lparr>hmac_hash_ctx := h\<rparr>, out, out_len)
             else do {
               let out_len = (if out_len \<ge> hash_output_size then hash_output_size else out_len);
               out \<leftarrow> memcpy_n out 0 hkey 0 (unat out_len);
               Some (e, ctx\<lparr>hmac_hash_ctx := h\<rparr>, out, out_len) } } } } } }"

definition cx_hmac_sha224_init :: "cx_hmac_t \<Rightarrow> bytes option \<Rightarrow> size_t \<Rightarrow> (cx_err_t \<times> cx_hmac_t) option" where
  "cx_hmac_sha224_init hmac key key_len = cx_hmac_init hmac CX_SHA224 key key_len"

definition cx_hmac_sha256_init_no_throw :: "cx_hmac_t \<Rightarrow> bytes option \<Rightarrow> size_t \<Rightarrow> (cx_err_t \<times> cx_hmac_t) option" where
  "cx_hmac_sha256_init_no_throw hmac key key_len = cx_hmac_init hmac CX_SHA256 key key_len"

definition cx_hmac_sha384_init :: "cx_hmac_t \<Rightarrow> bytes option \<Rightarrow> size_t \<Rightarrow> (cx_err_t \<times> cx_hmac_t) option" where
  "cx_hmac_sha384_init hmac key key_len = cx_hmac_init hmac CX_SHA384 key key_len"

definition cx_hmac_sha512_init_no_throw :: "cx_hmac_t \<Rightarrow> bytes option \<Rightarrow> size_t \<Rightarrow> (cx_err_t \<times> cx_hmac_t) option" where
  "cx_hmac_sha512_init_no_throw hmac key key_len = cx_hmac_init hmac CX_SHA512 key key_len"

definition cx_hmac_ripemd160_init_no_throw :: "cx_hmac_t \<Rightarrow> bytes option \<Rightarrow> size_t \<Rightarrow> (cx_err_t \<times> cx_hmac_t) option" where
  "cx_hmac_ripemd160_init_no_throw hmac key key_len = cx_hmac_init hmac CX_RIPEMD160 key key_len"

text \<open>The flags \<open>CX_LAST\<close> and \<open>CX_NO_REINIT\<close> of \<open>mode\<close> are the parameters \<open>is_last\<close> and \<open>no_reinit\<close>.\<close>

definition cx_hmac_no_throw ::
  "cx_hmac_t \<Rightarrow> bool \<Rightarrow> bool \<Rightarrow> bytes option \<Rightarrow> size_t \<Rightarrow> bytes option \<Rightarrow> size_t \<Rightarrow>
     (cx_err_t \<times> cx_hmac_t \<times> bytes option) option" where
  "cx_hmac_no_throw hmac is_last no_reinit in_data len out out_len =
     (if in_data = None \<and> len \<noteq> 0 then Some (CX_INVALID_PARAMETER, hmac, out)
      else if out = None \<and> out_len \<noteq> 0 then Some (CX_INVALID_PARAMETER, hmac, out)
      else do {
        (e, hmac) \<leftarrow> (if in_data \<noteq> None then cx_hmac_update hmac in_data len else Some (CX_OK, hmac));
        if e \<noteq> CX_OK then Some (e, hmac, out)
        else if is_last then do {
          (e, hmac, o', n) \<leftarrow> cx_hmac_final hmac (case out of None \<Rightarrow> [] | Some b \<Rightarrow> b) out_len;
          let out = (case out of None \<Rightarrow> None | Some _ \<Rightarrow> Some o');
          if e \<noteq> CX_OK then Some (e, hmac, out)
          else if \<not> no_reinit then do {
            (e, hmac) \<leftarrow> cx_hmac_init hmac (cx_get_algorithm hmac) None 0;
            Some (e, hmac, out) }
          else Some (e, hmac, out) }
        else Some (e, hmac, out) })"

text \<open>\<open>cx_hmac_sha256\<close> and \<open>cx_hmac_sha512\<close> share their body; \<open>G_cx.hmac\<close> is the parameter \<open>g\<close>.\<close>

definition hmac_oneshot ::
  "cx_hmac_t \<Rightarrow> cx_md_t \<Rightarrow> bytes option \<Rightarrow> size_t \<Rightarrow> bytes option \<Rightarrow> size_t \<Rightarrow> bytes \<Rightarrow> size_t \<Rightarrow> (size_t \<times> bytes) option" where
  "hmac_oneshot g md key key_len in_data len out out_len = do {
     (e, g) \<leftarrow> cx_hmac_init g md key key_len;
     if e \<noteq> CX_OK then Some (0, out)
     else do {
       (e, g) \<leftarrow> cx_hmac_update g in_data len;
       if e \<noteq> CX_OK then Some (0, out)
       else do {
         (e, g, out, mac_len) \<leftarrow> cx_hmac_final g out out_len;
         if e \<noteq> CX_OK then Some (0, out) else Some (mac_len, out) } } }"

definition cx_hmac_sha256 ::
  "cx_hmac_t \<Rightarrow> bytes option \<Rightarrow> size_t \<Rightarrow> bytes option \<Rightarrow> size_t \<Rightarrow> bytes \<Rightarrow> size_t \<Rightarrow> (size_t \<times> bytes) option" where
  "cx_hmac_sha256 g key key_len in_data len out out_len = hmac_oneshot g CX_SHA256 key key_len in_data len out out_len"

definition cx_hmac_sha512 ::
  "cx_hmac_t \<Rightarrow> bytes option \<Rightarrow> size_t \<Rightarrow> bytes option \<Rightarrow> size_t \<Rightarrow> bytes \<Rightarrow> size_t \<Rightarrow> (size_t \<times> bytes) option" where
  "cx_hmac_sha512 g key key_len in_data len out out_len = hmac_oneshot g CX_SHA512 key key_len in_data len out out_len"

section \<open>RFC 2104\<close>

definition hmac_pad_key :: "cx_md_t \<Rightarrow> bytes \<Rightarrow> bytes" where
  "hmac_pad_key md key =
     (let k = (if length key > hash_bsize md then hash_fn md key else key)
      in k @ replicate (hash_bsize md - length k) 0)"

definition rfc_hmac :: "cx_md_t \<Rightarrow> bytes \<Rightarrow> bytes \<Rightarrow> bytes" where
  "rfc_hmac md key m =
     hash_fn md (map (\<lambda>x. x XOR 0x5c) (hmac_pad_key md key) @
       hash_fn md (map (\<lambda>x. x XOR 0x36) (hmac_pad_key md key) @ m))"

lemma hash_sizes:
  assumes "hash_allowed md"
  shows "unat (cx_get_block_size md) = hash_bsize md" "hash_bsize md \<le> 128" "hash_osize md \<le> hash_bsize md"
    "0 < hash_osize md" "cx_is_allowed_digest md"
    "cx_hash_md c = md \<Longrightarrow> cx_hash_get_size c = Some (of_nat (hash_osize md))" "length (hash_fn md m) = hash_osize md"
  using assms
  by (auto simp: hash_allowed_def cx_get_block_size_def cx_hash_get_info_def hash_bsize_def hash_osize_def
      cx_is_allowed_digest_def cx_hash_get_size_def hash_fn_def)

section \<open>Buffers longer than the input\<close>

text \<open>An update reads only the first \<open>len\<close> bytes, so what follows them in the object does not matter.\<close>

lemma memcpy_n_append: "memcpy_n b i d j n = Some b' \<Longrightarrow> memcpy_n b i (d @ x) j n = Some b' \<and> j + n \<le> length d"
  by (auto simp: memcpy_n_def ld_n_def split: if_splits)

lemma md_blocks_append:
  "md_blocks chk bs blk c l0 r d len = Some y \<Longrightarrow>
     md_blocks chk bs blk c l0 r (d @ x) len = Some (fst y, fst (snd y), fst (snd (snd y)) @ x, snd (snd (snd y)))"
proof (induction rule: md_blocks.raw_induct [rotated, consumes 1, case_names 1])
  case (1 f chk bs blk c l0 r d len y)
  show ?case
  proof (cases "chk \<and> md_counter c = CX_HASH_MAX_BLOCK_COUNT")
    case True
    then show ?thesis using 1(2) by (subst md_blocks.simps) auto
  next
    case False
    then obtain b where b: "memcpy_n (md_block c) (unat l0) d 0 (unat r) = Some b"
      using 1(2) by (auto split: bind_splits)
    note ba = memcpy_n_append [OF b, of x]
    show ?thesis
      using 1(2) ba b 1(1) False
      by (subst md_blocks.simps) (auto simp: Let_def split: if_splits)
  qed
qed

lemma md_rest_append: "md_rest c l0 d len = Some r \<Longrightarrow> md_rest c l0 (d @ x) len = Some r"
  using memcpy_n_append [of "md_block c" "unat l0" d 0 "unat len" _ x] by (auto simp: md_rest_def split: bind_splits)

lemma md_update_append:
  assumes "md_update chk bs blk c d len = Some r"
  shows "md_update chk bs blk c (d @ x) len = Some r"
proof (cases "bs \<le> md_blen c + len")
  case True
  then obtain y where y: "md_blocks chk bs blk (c\<lparr>md_blen := 0\<rparr>) (md_blen c) (bs - md_blen c) d len = Some y"
    using assms by (auto simp: md_update_def Let_def split: bind_splits)
  obtain e c' d' l' where e: "y = (e, c', d', l')" by (cases y)
  show ?thesis
    using assms True y md_blocks_append [OF y, of x] md_rest_append [of c' 0 d' l' r x] e
    by (auto simp: md_update_def Let_def split: if_splits)
next
  case False
  then show ?thesis
    using assms md_rest_append [of "c\<lparr>md_blen := 0\<rparr>" "md_blen c" d len r x] by (auto simp: md_update_def Let_def)
qed

lemma cx_hash_update_append:
  assumes "cx_hash_update c (Some d) len = Some r" "hash_rep md m c"
  shows "cx_hash_update c (Some (d @ x)) len = Some r"
proof (cases c)
  case (Sha256_ctx c1)
  then show ?thesis
    using assms(1) md_update_append [of False 64 cx_sha256_block c1 d len _ x]
    by (auto simp: cx_hash_update_def cx_sha256_update_def split: bind_splits if_splits)
next
  case (Sha512_ctx c1)
  then show ?thesis
    using assms(1) md_update_append [of True 128 cx_sha512_block c1 d len _ x]
    by (auto simp: cx_hash_update_def cx_sha512_update_def split: bind_splits)
next
  case (Ripemd160_ctx c1)
  then show ?thesis
    using assms(1) md_update_append [of True 64 cx_ripemd160_block c1 d len _ x]
    by (auto simp: cx_hash_update_def cx_ripemd160_update_def split: bind_splits if_splits)
qed (use assms(2) in \<open>simp_all add: hash_rep_def\<close>)

lemma hash_update_prefix:
  assumes "hash_rep md m c" "unat len \<le> length d" "unat len < 2 ^ 32 - 128" "hash_limit md (length m + unat len)"
  shows "\<exists>c'. cx_hash_update c (Some d) len = Some (CX_OK, c') \<and> hash_rep md (m @ take (unat len) d) c'"
proof -
  have l: "length (take (unat len) d) = unat len" using assms(2) by simp
  obtain c' where "cx_hash_update c (Some (take (unat len) d)) len = Some (CX_OK, c')" "hash_rep md (m @ take (unat len) d) c'"
    using hash.upd_rep [OF assms(1), of "take (unat len) d"] assms(3,4) l by auto
  then show ?thesis using cx_hash_update_append [of c "take (unat len) d" len _ md m "drop (unat len) d"] assms(1) by auto
qed

section \<open>The HMAC context\<close>

text \<open>The context has absorbed the inner key \<open>k0\<close> and the bytes \<open>m\<close>.\<close>

definition hmac_rep :: "cx_md_t \<Rightarrow> bytes \<Rightarrow> bytes \<Rightarrow> cx_hmac_t \<Rightarrow> bool" where
  "hmac_rep md k0 m c =
     (length (hmac_key c) = 128 \<and> length k0 = hash_bsize md \<and> take (hash_bsize md) (hmac_key c) = k0 \<and>
      hash_rep md (k0 @ m) (hmac_hash_ctx c))"

lemma xor_first_take: "take n (xor_first c n b) = map (\<lambda>x. x XOR c) (take n b)" "length (xor_first c n b) = length b"
  by (auto simp: xor_first_def)

lemma hash_limit_small: "n \<le> 1000 \<Longrightarrow> hash_limit md n"
  using div_le_mono [of n 1000 64] div_le_mono [of n 1000 128] by (auto simp: hash_limit_def split: cx_md_t.splits)

lemma hmac_set_key_eq:
  assumes md: "hash_allowed md" and k: "length key < 2 ^ 32 - 128" "hash_limit md (length key)"
    and c: "hmac_key c = replicate 128 0"
  shows "\<exists>c'. hmac_set_key c md key (of_nat (length key)) = Some (CX_OK, c') \<and> length (hmac_key c') = 128 \<and>
     take (hash_bsize md) (hmac_key c') = map (\<lambda>x. x XOR 0x36) (hmac_pad_key md key)"
proof -
  note sz = hash_sizes [OF md]
  have u: "unat (of_nat (length key) :: size_t) = length key"
    using k(1) by (simp add: unsigned_of_nat take_bit_nat_eq_self)
  have gt: "cx_get_block_size md < of_nat (length key) \<longleftrightarrow> hash_bsize md < length key"
    using sz(1) u by (simp add: word_less_nat_alt)
  show ?thesis
  proof (cases "hash_bsize md < length key")
    case True
    obtain h1 where h1: "cx_hash_init (hmac_hash_ctx c) md = (CX_OK, h1)" "hash_rep md [] h1"
      using hash_init_rep [OF md] by blast
    obtain h2 where h2: "cx_hash_update h1 (Some key) (of_nat (length key)) = Some (CX_OK, h2)" "hash_rep md key h2"
      using hash.upd_rep [OF h1(2), of key] k by auto
    obtain h3 where h3: "cx_hash_final h2 (hmac_key c) = Some (CX_OK, h3, hash_fn md key @ drop (hash_osize md) (hmac_key c))"
      using hash.fin_rep [OF h2(2) k(2), of "hmac_key c"] sz(2,3) c by auto
    show ?thesis
      using True gt h1(1) h2(1) h3 sz c
      by (auto simp: hmac_set_key_def hmac_pad_key_def xor_first_take IPAD_def Let_def min_def)
  next
    case False
    have "memcpy_n (hmac_key c) 0 key 0 (length key) = Some (key @ replicate (128 - length key) 0)"
      using False sz(2) c by (simp add: memcpy_n_in)
    then show ?thesis
      using False gt sz u by (auto simp: hmac_set_key_def hmac_pad_key_def xor_first_take IPAD_def Let_def min_def)
  qed
qed

lemma hmac_init_rest:
  assumes md: "hash_allowed md" and c: "length (hmac_key c) = 128"
  shows "\<exists>h1 h2. cx_hash_init (hmac_hash_ctx c) md = (CX_OK, h1) \<and>
     cx_hash_update h1 (Some (hmac_key c)) (cx_get_block_size md) = Some (CX_OK, h2) \<and>
     hmac_rep md (take (hash_bsize md) (hmac_key c)) [] (c\<lparr>hmac_hash_ctx := h2\<rparr>)"
proof -
  note sz = hash_sizes [OF md]
  obtain h1 where h1: "cx_hash_init (hmac_hash_ctx c) md = (CX_OK, h1)" "hash_rep md [] h1"
    using hash_init_rep [OF md] by blast
  obtain h2 where "cx_hash_update h1 (Some (hmac_key c)) (cx_get_block_size md) = Some (CX_OK, h2)"
      "hash_rep md (take (hash_bsize md) (hmac_key c)) h2"
    using hash_update_prefix [OF h1(2), of "cx_get_block_size md" "hmac_key c"] sz c hash_limit_small [of "hash_bsize md" md] by auto
  then show ?thesis using h1(1) sz(2) c by (auto simp: hmac_rep_def)
qed

lemma cx_hmac_init_rep:
  assumes md: "hash_allowed md" and k: "length key < 2 ^ 32 - 128" "hash_limit md (length key)"
  shows "\<exists>c'. cx_hmac_init c md (Some key) (of_nat (length key)) = Some (CX_OK, c') \<and>
     hmac_rep md (map (\<lambda>x. x XOR 0x36) (hmac_pad_key md key)) [] c'"
proof -
  obtain c1 where c1: "hmac_set_key (c\<lparr>hmac_key := replicate 128 0\<rparr>) md key (of_nat (length key)) = Some (CX_OK, c1)"
      "length (hmac_key c1) = 128" "take (hash_bsize md) (hmac_key c1) = map (\<lambda>x. x XOR 0x36) (hmac_pad_key md key)"
    using hmac_set_key_eq [OF md k, of "c\<lparr>hmac_key := replicate 128 0\<rparr>"] by auto
  show ?thesis
    using hmac_init_rest [OF md c1(2)] c1 hash_sizes(5) [OF md] by (auto simp: cx_hmac_init_def)
qed

text \<open>Without a key the inner key is the zero block, not the zero key XORed with \<open>IPAD\<close>.\<close>

lemma cx_hmac_init_null:
  assumes "hash_allowed md"
  shows "\<exists>c'. cx_hmac_init c md None 0 = Some (CX_OK, c') \<and> hmac_rep md (replicate (hash_bsize md) 0) [] c'"
  using hmac_init_rest [OF assms, of "c\<lparr>hmac_key := replicate 128 0\<rparr>"] hash_sizes(2,5) [OF assms]
  by (auto simp: cx_hmac_init_def min_def)

lemma cx_hmac_update_rep:
  assumes "hmac_rep md k0 m c" "length d < 2 ^ 32 - 128" "hash_limit md (hash_bsize md + length (m @ d))"
  shows "\<exists>c'. cx_hmac_update c (Some d) (of_nat (length d)) = Some (CX_OK, c') \<and> hmac_rep md k0 (m @ d) c'"
proof (cases "d = []")
  case False
  moreover have "unat (of_nat (length d) :: size_t) = length d"
    using assms(2) by (simp add: unsigned_of_nat take_bit_nat_eq_self)
  ultimately have "(of_nat (length d) :: size_t) \<noteq> 0" by auto
  then show ?thesis
    using hash.upd_rep [of md "k0 @ m" "hmac_hash_ctx c" d] assms
    by (auto simp: cx_hmac_update_def hmac_rep_def add.assoc)
qed (use assms in \<open>simp add: cx_hmac_update_def\<close>)

lemma cx_hmac_final_rep:
  assumes r: "hmac_rep md k0 m c" and md: "hash_allowed md" and l: "hash_limit md (hash_bsize md + length m)"
    and o: "k = min (unat out_len) (hash_osize md)" "k \<le> length out"
    and mac: "mac = hash_fn md (map (\<lambda>x. x XOR (0x5c XOR 0x36)) k0 @ hash_fn md (k0 @ m))"
  shows "\<exists>c'. cx_hmac_final c out out_len = Some (CX_OK, c', take k mac @ drop k out, of_nat k) \<and> cx_get_algorithm c' = md"
proof -
  note sz = hash_sizes [OF md]
  let ?h = "hmac_hash_ctx c" and ?B = "hash_bsize md" and ?n = "hash_osize md"
  have h: "hash_rep md (k0 @ m) ?h" "length (hmac_key c) = 128" "length k0 = ?B" "take ?B (hmac_key c) = k0"
    using r by (auto simp: hmac_rep_def)
  have alg: "cx_get_algorithm c = md" using hash.rep_alg [OF h(1)] by (simp add: cx_get_algorithm_def)
  have gs: "cx_hash_get_size ?h = Some (of_nat ?n)" using sz(6) hash.rep_alg [OF h(1)] by simp
  have un: "unat (of_nat ?n :: size_t) = ?n" using sz(2,3) by (simp add: unsigned_of_nat take_bit_nat_eq_self)
  let ?ih = "hash_fn md (k0 @ m) @ drop ?n (replicate 128 0)"
  obtain h1 where h1: "cx_hash_final ?h (replicate 128 0) = Some (CX_OK, h1, ?ih)"
    using hash.fin_rep [OF h(1), of "replicate 128 0"] l h(3) sz(2,3) by (auto simp: add.commute)
  let ?k1 = "k0 @ drop ?B (replicate 128 0)"
  have mc: "memcpy_n (replicate 128 0) 0 (hmac_key c) 0 ?B = Some ?k1"
    using h(2,4) sz(2) by (simp add: memcpy_n_in)
  define hk where "hk = xor_first (OPAD XOR IPAD) ?B ?k1"
  have hk: "length hk = 128" "take ?B hk = map (\<lambda>x. x XOR (0x5c XOR 0x36)) k0"
    using h(3) sz(2) by (auto simp: hk_def xor_first_take OPAD_def IPAD_def)
  obtain h2 where h2: "cx_hash_init h1 md = (CX_OK, h2)" "hash_rep md [] h2" using hash_init_rep [OF md] by blast
  obtain h3 where h3: "cx_hash_update h2 (Some hk) (cx_get_block_size md) = Some (CX_OK, h3)" "hash_rep md (take ?B hk) h3"
    using hash_update_prefix [OF h2(2), of "cx_get_block_size md" hk] sz(1,2) hk(1) hash_limit_small [of ?B md] by auto
  obtain h4 where h4: "cx_hash_update h3 (Some ?ih) (of_nat ?n) = Some (CX_OK, h4)" "hash_rep md (take ?B hk @ hash_fn md (k0 @ m)) h4"
    using hash_update_prefix [OF h3(2), of "of_nat ?n" ?ih] sz(2,3,7) hk h(3) un hash_limit_small [of "?B + ?n" md] by auto
  have "hash_limit md (length (take ?B hk @ hash_fn md (k0 @ m)))"
    using sz(2,3,7) hk h(3) by (intro hash_limit_small) simp
  then obtain h5 where h5: "cx_hash_final h4 hk = Some (CX_OK, h5, mac @ drop ?n hk)" "cx_hash_md h5 = md"
    using hash.fin_rep_alg [OF h4(2), of hk] sz(2,3) hk by (auto simp: mac)
  have lm: "length mac = ?n" using sz(7) by (simp add: mac)
  have ol: "(if out_len \<ge> of_nat ?n then of_nat ?n else out_len) = of_nat k"
    using un by (auto simp: o(1) word_le_nat_alt min_def not_le)
  have uk: "unat (of_nat k :: size_t) = k"
    using sz(2,3) by (simp add: o(1) unsigned_of_nat take_bit_nat_eq_self min_def)
  have "memcpy_n out 0 (mac @ drop ?n hk) 0 k = Some (take k mac @ drop k out)"
    using o lm hk(1) sz(2,3) by (simp add: memcpy_n_in)
  then show ?thesis
    unfolding cx_hmac_final_def Let_def alg gs sz(1)
    using h1 mc h2(1) h3(1) h4(1) h5 uk hk_def ol
    by (cases "of_nat ?n \<le> out_len") (simp_all add: cx_get_algorithm_def)
qed

lemma xor_twice: "map (\<lambda>x. x XOR (0x5c XOR 0x36)) (map (\<lambda>x. x XOR 0x36) b) = map (\<lambda>x. x XOR (0x5c :: u8)) b"
proof -
  have "(x XOR 0x36) XOR (0x5c XOR 0x36) = x XOR (0x5c :: u8)" for x
    by (simp add: xor.assoc)
  then show ?thesis by simp
qed

lemma rfc_hmac_inner:
  "rfc_hmac md key m =
     hash_fn md (map (\<lambda>x. x XOR (0x5c XOR 0x36)) (map (\<lambda>x. x XOR 0x36) (hmac_pad_key md key)) @
       hash_fn md (map (\<lambda>x. x XOR 0x36) (hmac_pad_key md key) @ m))"
  unfolding xor_twice rfc_hmac_def by (rule refl)

lemma cx_hmac_updates_rep:
  assumes "\<forall>d\<in>set ds. length d < 2 ^ 32 - 128"
  shows "hmac_rep md k0 m c \<Longrightarrow> hash_limit md (hash_bsize md + length (m @ concat ds)) \<Longrightarrow>
    \<exists>c'. md_updates cx_hmac_update c ds = Some (CX_OK, c') \<and> hmac_rep md k0 (m @ concat ds) c'"
  using assms
proof (induction ds arbitrary: m c)
  case (Cons d ds)
  have "hash_limit md (hash_bsize md + length (m @ d))" by (rule hash_limit_mono [OF Cons.prems(2)]) simp
  then obtain c1 where c1: "cx_hmac_update c (Some d) (of_nat (length d)) = Some (CX_OK, c1)" "hmac_rep md k0 (m @ d) c1"
    using cx_hmac_update_rep [OF Cons.prems(1), of d] Cons.prems(3) by auto
  then show ?case using Cons.IH [OF c1(2)] Cons.prems by auto
qed auto

lemma length_rfc_hmac [simp]: "hash_allowed md \<Longrightarrow> length (rfc_hmac md key m) = hash_osize md"
  by (simp add: rfc_hmac_def hash_sizes)

text \<open>A whole computation: initialisation, updates and end.\<close>

lemma hmac_compute:
  assumes md: "hash_allowed md" and k: "length key < 2 ^ 32 - 128" "hash_limit md (length key)"
    and d: "\<forall>d\<in>set ds. length d < 2 ^ 32 - 128" "hash_limit md (hash_bsize md + length (concat ds))"
    and o: "n = min (unat out_len) (hash_osize md)" "n \<le> length out"
  shows "\<exists>c1 c2 c3. cx_hmac_init c md (Some key) (of_nat (length key)) = Some (CX_OK, c1) \<and>
     md_updates cx_hmac_update c1 ds = Some (CX_OK, c2) \<and>
     cx_hmac_final c2 out out_len = Some (CX_OK, c3, take n (rfc_hmac md key (concat ds)) @ drop n out, of_nat n) \<and>
     cx_get_algorithm c3 = md"
proof -
  obtain c1 where c1: "cx_hmac_init c md (Some key) (of_nat (length key)) = Some (CX_OK, c1)"
      "hmac_rep md (map (\<lambda>x. x XOR 0x36) (hmac_pad_key md key)) [] c1"
    using cx_hmac_init_rep [OF md k] by blast
  obtain c2 where c2: "md_updates cx_hmac_update c1 ds = Some (CX_OK, c2)"
      "hmac_rep md (map (\<lambda>x. x XOR 0x36) (hmac_pad_key md key)) (concat ds) c2"
    using cx_hmac_updates_rep [OF d(1) c1(2)] d(2) by auto
  show ?thesis
    using c1(1) c2(1) cx_hmac_final_rep [OF c2(2) md d(2) o refl] unfolding rfc_hmac_inner by blast
qed

section \<open>Properties\<close>

text \<open>Property C38.  HMAC is RFC 2104: for the five digests \<open>cx_hmac_init\<close> accepts, initialising with a key of any length
  (keys longer than a block are hashed first), adding the data in pieces and finishing gives the HMAC of the
  concatenation, truncated to the smaller of \<open>*out_len\<close> and the digest size, which is the length returned.\<close>

theorem cx_hmac_correct:
  assumes "hash_allowed md" "length key < 2 ^ 32 - 128" "hash_limit md (length key)"
    and "\<forall>d\<in>set ds. length d < 2 ^ 32 - 128" "hash_limit md (hash_bsize md + length (concat ds))"
    and "n = min (unat out_len) (hash_osize md)" "n \<le> length out"
  shows "\<exists>c1 c2 c3. cx_hmac_init c md (Some key) (of_nat (length key)) = Some (CX_OK, c1) \<and>
     md_updates cx_hmac_update c1 ds = Some (CX_OK, c2) \<and>
     cx_hmac_final c2 out out_len = Some (CX_OK, c3, take n (rfc_hmac md key (concat ds)) @ drop n out, of_nat n)"
  using hmac_compute [OF assms] by blast

theorem cx_hmac_correct_witness:
  "\<exists>c1 c2 c3. cx_hmac_init (\<lparr>hmac_key = [], hmac_hash_ctx = Sha256_ctx (snd cx_sha256_init_no_throw)\<rparr>) CX_SHA256 (Some [1, 2, 3]) 3 = Some (CX_OK, c1) \<and>
     md_updates cx_hmac_update c1 [[0x61], [], [0x62, 0x63]] = Some (CX_OK, c2) \<and>
     cx_hmac_final c2 (replicate 16 0) 16 = Some (CX_OK, c3, take 16 (rfc_hmac CX_SHA256 [1, 2, 3] [0x61, 0x62, 0x63]), 16)"
  using cx_hmac_correct [of CX_SHA256 "[1, 2, 3]" "[[0x61], [], [0x62, 0x63]]" 16 16 "replicate 16 0"
    "\<lparr>hmac_key = [], hmac_hash_ctx = Sha256_ctx (snd cx_sha256_init_no_throw)\<rparr>"]
  by (simp add: hash_allowed_def hash_limit_def hash_osize_def hash_bsize_def)

lemma no_throw_last:
  assumes r: "hmac_rep md k0 [] c" and md: "hash_allowed md" and d: "length d < 2 ^ 32 - 128" "hash_limit md (hash_bsize md + length d)"
    and o: "length out = hash_osize md" and k0: "k0 = map (\<lambda>x. x XOR 0x36) (hmac_pad_key md key)"
  shows "\<exists>c'. cx_hmac_no_throw c True no_reinit (Some d) (of_nat (length d)) (Some out) (of_nat (hash_osize md)) =
     Some (CX_OK, c', Some (rfc_hmac md key d)) \<and>
     (\<not> no_reinit \<longrightarrow> hmac_rep md (replicate (hash_bsize md) 0) [] c')"
proof -
  note sz = hash_sizes [OF md]
  have un: "unat (of_nat (hash_osize md) :: size_t) = hash_osize md"
    using sz(2,3) by (simp add: unsigned_of_nat take_bit_nat_eq_self)
  obtain c1 where c1: "cx_hmac_update c (Some d) (of_nat (length d)) = Some (CX_OK, c1)" "hmac_rep md k0 d c1"
    using cx_hmac_update_rep [OF r, of d] d by auto
  obtain c2 where c2: "cx_hmac_final c1 out (of_nat (hash_osize md)) = Some (CX_OK, c2, rfc_hmac md key d, of_nat (hash_osize md))"
      "cx_get_algorithm c2 = md"
    using cx_hmac_final_rep [OF c1(2) md d(2), of "hash_osize md" "of_nat (hash_osize md)" out] un o md
    unfolding k0 rfc_hmac_inner [symmetric] by auto
  show ?thesis using c1(1) c2 cx_hmac_init_null [OF md, of c2] by (cases no_reinit) (auto simp: cx_hmac_no_throw_def)
qed

text \<open>Finishing with \<open>CX_LAST\<close> and without \<open>CX_NO_REINIT\<close> does not make the context ready for another message
  under the same key: \<open>cx_hmac_init\<close> is called with a NULL key after erasing the key, and skips the \<open>IPAD\<close> XOR.  The
  next message is authenticated with the constant key of \<open>0x36\<close> bytes, whatever the key was.\<close>

lemma cx_hmac_reinit:
  assumes "hash_allowed md" "length key < 2 ^ 32 - 128" "hash_limit md (length key)"
    and "length d1 < 2 ^ 32 - 128" "hash_limit md (hash_bsize md + length d1)"
    and "length d2 < 2 ^ 32 - 128" "hash_limit md (hash_bsize md + length d2)"
    and "length o1 = hash_osize md" "length o2 = hash_osize md"
  shows "\<exists>c1 c2 c3. cx_hmac_init c md (Some key) (of_nat (length key)) = Some (CX_OK, c1) \<and>
     cx_hmac_no_throw c1 True False (Some d1) (of_nat (length d1)) (Some o1) (of_nat (hash_osize md)) =
       Some (CX_OK, c2, Some (rfc_hmac md key d1)) \<and>
     cx_hmac_no_throw c2 True True (Some d2) (of_nat (length d2)) (Some o2) (of_nat (hash_osize md)) =
       Some (CX_OK, c3, Some (rfc_hmac md (replicate (hash_bsize md) 0x36) d2))"
proof -
  obtain c1 where c1: "cx_hmac_init c md (Some key) (of_nat (length key)) = Some (CX_OK, c1)"
      "hmac_rep md (map (\<lambda>x. x XOR 0x36) (hmac_pad_key md key)) [] c1"
    using cx_hmac_init_rep [OF assms(1-3)] by blast
  obtain c2 where c2: "cx_hmac_no_throw c1 True False (Some d1) (of_nat (length d1)) (Some o1) (of_nat (hash_osize md)) =
       Some (CX_OK, c2, Some (rfc_hmac md key d1))" "hmac_rep md (replicate (hash_bsize md) 0) [] c2"
    using no_throw_last [OF c1(2) assms(1,4,5,8) refl, of False] by auto
  have "replicate (hash_bsize md) 0 = map (\<lambda>x. x XOR 0x36) (hmac_pad_key md (replicate (hash_bsize md) 0x36))"
    by (simp add: hmac_pad_key_def)
  then show ?thesis using c1(1) c2 no_throw_last [OF c2(2) assms(1,6,7,9), of _ True] by blast
qed

end
