(* ===== verification/Cx_Kdf.thy ===== *)
theory Cx_Kdf
  imports Cx_Hmac
begin

text \<open>
  HKDF and PBKDF2, \<^verbatim>\<open>lib_cxng/src/cx_hkdf.c\<close> and \<^verbatim>\<open>lib_cxng/src/cx_pbkdf2.c\<close>, on the HMAC of \<open>Cx_Hmac\<close>.  The global context
  \<open>G_cx\<close> they share is the parameter \<open>g\<close>; the references are RFC 5869 and RFC 2898.
\<close>

section \<open>HKDF\<close>

text \<open>\<open>cx_hkdf_extract\<close>.  Without a salt the code clears the first \<open>md_len\<close> bytes of the key of the context and
  passes that very array as the key of \<open>cx_hmac_init\<close>, whose first step is to clear the whole context; what it
  then copies from the array onto itself is the cleared array, the argument here.\<close>

definition cx_hkdf_extract ::
  "cx_hmac_t \<Rightarrow> cx_md_t \<Rightarrow> bytes option \<Rightarrow> size_t \<Rightarrow> bytes option \<Rightarrow> size_t \<Rightarrow> bytes \<Rightarrow> bytes option" where
  "cx_hkdf_extract g md ikm ikm_len salt salt_len prk = do {
     info \<leftarrow> cx_hash_get_info md;
     let md_len = info_output_size info;
     (g, salt, salt_len) \<leftarrow>
       (case salt of
          None \<Rightarrow> do {
            k \<leftarrow> memset_n (hmac_key g) 0 0 (unat md_len);
            Some (g\<lparr>hmac_key := k\<rparr>, Some (replicate 128 0), md_len) }
        | Some s \<Rightarrow> Some (g, Some s, salt_len));
     (e, g) \<leftarrow> cx_hmac_init g md salt salt_len;
     if e \<noteq> CX_OK then Some prk
     else do {
       (e, g) \<leftarrow> cx_hmac_update g ikm ikm_len;
       if e \<noteq> CX_OK then Some prk
       else do {
         (e, g, prk, md_len) \<leftarrow> cx_hmac_final g prk md_len;
         Some prk } } }"

text \<open>The loop of \<open>cx_hkdf_expand\<close>.  \<open>i\<close> is an \<open>unsigned char\<close>; when it has wrapped to 0, \<open>okm + (i - 1) * md_len\<close>
  points before the buffer.\<close>

partial_function (option) hkdf_loop ::
  "cx_hmac_t \<Rightarrow> cx_md_t \<Rightarrow> bytes option \<Rightarrow> size_t \<Rightarrow> bytes option \<Rightarrow> size_t \<Rightarrow> size_t \<Rightarrow> u8 \<Rightarrow> size_t \<Rightarrow> bytes \<Rightarrow> bytes \<Rightarrow> size_t \<Rightarrow>
     bytes option" where
  "hkdf_loop g md prk prk_len info info_len md_len i offset T okm okm_len =
     (if okm_len = 0 then Some okm
      else do {
        (e, g) \<leftarrow> cx_hmac_init g md prk prk_len;
        if e \<noteq> CX_OK then Some okm
        else do {
          (e, g) \<leftarrow> (if i > 1 then cx_hmac_update g (Some T) offset else Some (CX_OK, g));
          if e \<noteq> CX_OK then Some okm
          else do {
            (e, g) \<leftarrow> cx_hmac_update g info info_len;
            if e \<noteq> CX_OK then Some okm
            else do {
              (e, g) \<leftarrow> cx_hmac_update g (Some [i]) 1;
              if e \<noteq> CX_OK then Some okm
              else do {
                (e, g, T, md_len) \<leftarrow> cx_hmac_final g T md_len;
                if e \<noteq> CX_OK then Some okm
                else do {
                  let offset = (if okm_len < md_len then okm_len else md_len);
                  okm \<leftarrow> (if i = 0 then None
                           else memcpy_n okm ((unat i - 1) * unat md_len) T 0 (unat offset));
                  hkdf_loop g md prk prk_len info info_len md_len (i + 1) offset T okm (okm_len - offset) } } } } } })"

definition cx_hkdf_expand ::
  "cx_hmac_t \<Rightarrow> cx_md_t \<Rightarrow> bytes option \<Rightarrow> size_t \<Rightarrow> bytes option \<Rightarrow> size_t \<Rightarrow> bytes \<Rightarrow> size_t \<Rightarrow> bytes option" where
  "cx_hkdf_expand g md prk prk_len info info_len okm okm_len = do {
     i \<leftarrow> cx_hash_get_info md;
     hkdf_loop g md prk prk_len info info_len (info_output_size i) 1 0 (replicate 128 0) okm okm_len }"

section \<open>PBKDF2\<close>

text \<open>The size of \<open>work\<close> and \<open>md1\<close> in \<^verbatim>\<open>cx_pbkdf2.h\<close>.\<close>

definition PBKDF2_BUFFER_LENGTH :: nat where "PBKDF2_BUFFER_LENGTH = 64"

text \<open>The iterations after the first one: \<open>md1\<close> is hashed again and XORed into \<open>work\<close>, \<open>n\<close> times.\<close>

primrec pbkdf2_iter ::
  "cx_md_t \<Rightarrow> bytes \<Rightarrow> size_t \<Rightarrow> size_t \<Rightarrow> nat \<Rightarrow> cx_hmac_t \<Rightarrow> bytes \<Rightarrow> bytes \<Rightarrow> (cx_err_t \<times> cx_hmac_t \<times> bytes \<times> bytes) option" where
  "pbkdf2_iter md pw pw_len dsize 0 g md1 work = Some (CX_OK, g, md1, work)"
| "pbkdf2_iter md pw pw_len dsize (Suc n) g md1 work = do {
     (e, g) \<leftarrow> cx_hmac_init g md (Some pw) pw_len;
     if e \<noteq> CX_OK then Some (e, g, md1, work)
     else do {
       (e, g) \<leftarrow> cx_hmac_update g (Some md1) dsize;
       if e \<noteq> CX_OK then Some (e, g, md1, work)
       else do {
         (e, g, md1, work_size) \<leftarrow> cx_hmac_final g md1 dsize;
         if e \<noteq> CX_OK then Some (e, g, md1, work)
         else do {
           work \<leftarrow> memxor_from work md1 0 (unat dsize);
           pbkdf2_iter md pw pw_len dsize n g md1 work } } } }"

text \<open>The increment of the big-endian block counter.\<close>

fun incr_from :: "bytes \<Rightarrow> nat \<Rightarrow> bytes" where
  "incr_from counter i =
     (let counter = counter[i := counter ! i + 1]
      in if counter ! i \<noteq> 0 then counter else if i = 0 then counter else incr_from counter (i - 1))"

declare incr_from.simps [simp del]

text \<open>The outer loop; \<open>off\<close> is the distance \<open>key\<close> has moved.\<close>

partial_function (option) pbkdf2_loop ::
  "cx_md_t \<Rightarrow> bytes \<Rightarrow> size_t \<Rightarrow> bytes \<Rightarrow> size_t \<Rightarrow> u32 \<Rightarrow> size_t \<Rightarrow> cx_hmac_t \<Rightarrow> bytes \<Rightarrow> bytes \<Rightarrow> bytes \<Rightarrow> bytes \<Rightarrow> nat \<Rightarrow> size_t \<Rightarrow>
     (cx_err_t \<times> bytes) option" where
  "pbkdf2_loop md pw pw_len salt salt_len iterations dsize g cnt work md1 key off key_len =
     (if key_len = 0 then Some (CX_OK, key)
      else do {
        (e, g) \<leftarrow> cx_hmac_init g md (Some pw) pw_len;
        if e \<noteq> CX_OK then Some (e, key)
        else do {
          (e, g) \<leftarrow> cx_hmac_update g (Some salt) salt_len;
          if e \<noteq> CX_OK then Some (e, key)
          else do {
            (e, g) \<leftarrow> cx_hmac_update g (Some cnt) 4;
            if e \<noteq> CX_OK then Some (e, key)
            else do {
              (e, g, work, work_size) \<leftarrow> cx_hmac_final g work dsize;
              if e \<noteq> CX_OK then Some (e, key)
              else do {
                md1 \<leftarrow> memcpy_n md1 0 work 0 (unat dsize);
                (e, g, md1, work) \<leftarrow> pbkdf2_iter md pw pw_len dsize (unat iterations - 1) g md1 work;
                if e \<noteq> CX_OK then Some (e, key)
                else do {
                  let copy_len = (if key_len < dsize then key_len else dsize);
                  key \<leftarrow> memcpy_n key off work 0 (unat copy_len);
                  pbkdf2_loop md pw pw_len salt salt_len iterations dsize g (incr_from cnt 3) work md1 key
                    (off + unat copy_len) (key_len - copy_len) } } } } } })"

definition cx_pbkdf2_hmac ::
  "cx_hmac_t \<Rightarrow> cx_md_t \<Rightarrow> bytes option \<Rightarrow> size_t \<Rightarrow> bytes option \<Rightarrow> size_t \<Rightarrow> u32 \<Rightarrow> bytes option \<Rightarrow> size_t \<Rightarrow>
     (cx_err_t \<times> bytes option) option" where
  "cx_pbkdf2_hmac g md password password_len salt salt_len iterations key key_len =
     (case (password, salt, key) of
        (Some pw, Some sl, Some k) \<Rightarrow> do {
          info \<leftarrow> cx_hash_get_info md;
          (e, k) \<leftarrow> pbkdf2_loop md pw password_len sl salt_len iterations (info_output_size info) g [0, 0, 0, 1]
                     (replicate PBKDF2_BUFFER_LENGTH 0) (replicate PBKDF2_BUFFER_LENGTH 0) k 0 key_len;
          Some (e, Some k) }
      | _ \<Rightarrow> Some (CX_INVALID_PARAMETER, key))"

definition cx_pbkdf2_no_throw ::
  "cx_hmac_t \<Rightarrow> cx_md_t \<Rightarrow> bytes option \<Rightarrow> size_t \<Rightarrow> bytes option \<Rightarrow> size_t \<Rightarrow> u32 \<Rightarrow> bytes option \<Rightarrow> size_t \<Rightarrow>
     (cx_err_t \<times> bytes option) option" where
  "cx_pbkdf2_no_throw g md password password_len salt salt_len iterations out out_len =
     cx_pbkdf2_hmac g md password password_len salt salt_len iterations out out_len"

section \<open>RFC 5869 and RFC 2898\<close>

text \<open>The first \<open>l\<close> bytes of the blocks \<open>B k\<close>, \<open>B (k + 1)\<close>, ..., each of \<open>n\<close> bytes: as many blocks as \<open>l / n\<close>
  rounded up.\<close>

definition kdf_out :: "(nat \<Rightarrow> bytes) \<Rightarrow> nat \<Rightarrow> nat \<Rightarrow> nat \<Rightarrow> bytes" where
  "kdf_out B n k l = take l (concat (map B [k..<k + (l + n - 1) div n]))"

primrec rfc_hkdf_T :: "cx_md_t \<Rightarrow> bytes \<Rightarrow> bytes \<Rightarrow> nat \<Rightarrow> bytes" where
  "rfc_hkdf_T md prk info 0 = []"
| "rfc_hkdf_T md prk info (Suc n) = rfc_hmac md prk (rfc_hkdf_T md prk info n @ info @ [of_nat (Suc n)])"

definition rfc_hkdf_expand :: "cx_md_t \<Rightarrow> bytes \<Rightarrow> bytes \<Rightarrow> nat \<Rightarrow> bytes" where
  "rfc_hkdf_expand md prk info l = kdf_out (rfc_hkdf_T md prk info) (hash_osize md) 1 l"

definition rfc_hkdf_extract :: "cx_md_t \<Rightarrow> bytes option \<Rightarrow> bytes \<Rightarrow> bytes" where
  "rfc_hkdf_extract md salt ikm = rfc_hmac md (case salt of None \<Rightarrow> replicate (hash_osize md) 0 | Some s \<Rightarrow> s) ikm"

primrec rfc_U :: "cx_md_t \<Rightarrow> bytes \<Rightarrow> bytes \<Rightarrow> nat \<Rightarrow> bytes" where
  "rfc_U md pw s 0 = rfc_hmac md pw s"
| "rfc_U md pw s (Suc j) = rfc_hmac md pw (rfc_U md pw s j)"

text \<open>\<open>rfc_F md pw s c\<close> is the XOR of the first \<open>Suc c\<close> iterates.\<close>

primrec rfc_F :: "cx_md_t \<Rightarrow> bytes \<Rightarrow> bytes \<Rightarrow> nat \<Rightarrow> bytes" where
  "rfc_F md pw s 0 = rfc_U md pw s 0"
| "rfc_F md pw s (Suc c) = map2 (XOR) (rfc_F md pw s c) (rfc_U md pw s (Suc c))"

definition rfc_pbkdf2 :: "cx_md_t \<Rightarrow> bytes \<Rightarrow> bytes \<Rightarrow> nat \<Rightarrow> nat \<Rightarrow> bytes" where
  "rfc_pbkdf2 md pw salt c l =
     kdf_out (\<lambda>i. rfc_F md pw (salt @ be_bytes 4 (of_nat i :: u32)) (c - 1)) (hash_osize md) 1 l"

lemma kdf_out_0 [simp]: "kdf_out B n k 0 = []"
  by (simp add: kdf_out_def)

lemma kdf_out_step:
  assumes "0 < l" "0 < n" "length (B k) = n"
  shows "kdf_out B n k l = take (min l n) (B k) @ kdf_out B n (Suc k) (l - min l n)"
proof (cases "l \<le> n")
  case True
  have "(l + n - 1) div n = 1"
  proof -
    obtain r where "l = Suc r" using assms(1) by (cases l) auto
    then show ?thesis using True assms(2) by (simp add: div_nat_eqI)
  qed
  then show ?thesis using True assms(3) by (simp add: kdf_out_def min_def)
next
  case False
  have "l + n - 1 = (l - 1) + n" "l - n + n - 1 = l - 1" using False assms(1) by simp_all
  then have "(l + n - 1) div n = Suc ((l - n + n - 1) div n)" using assms(2) by (simp only: div_add_self2)
  then have "[k..<k + (l + n - 1) div n] = k # [Suc k..<Suc k + (l - n + n - 1) div n]"
    by (simp add: upt_conv_Cons)
  then show ?thesis using False assms(3) by (simp add: kdf_out_def min_def)
qed

lemma length_kdf_out:
  assumes "\<And>j. k \<le> j \<Longrightarrow> length (B j) = n" "0 < n"
  shows "length (kdf_out B n k l) = l"
  using assms(1)
proof (induction l arbitrary: k rule: less_induct)
  case (less l)
  show ?case
  proof (cases "l = 0")
    case False
    then have s: "kdf_out B n k l = take (min l n) (B k) @ kdf_out B n (Suc k) (l - min l n)"
      using kdf_out_step less.prems assms(2) by blast
    have "length (kdf_out B n (Suc k) (l - min l n)) = l - min l n"
      using less.IH [of "l - min l n" "Suc k"] less.prems False assms(2) by auto
    then show ?thesis using s less.prems [of k] by simp
  qed simp
qed

text \<open>Writing the next block and then the rest is writing all of it.\<close>

lemma kdf_out_write:
  assumes "0 < l" "0 < n" "\<And>j. k \<le> j \<Longrightarrow> length (B j) = n" "off + l \<le> length buf" "m = min l n"
    and b1: "buf1 = take off buf @ take m (B k) @ drop (off + m) buf"
  shows "take (off + m) buf1 @ kdf_out B n (Suc k) (l - m) @ drop (off + m + (l - m)) buf1 =
     take off buf @ kdf_out B n k l @ drop (off + l) buf"
proof -
  have lb: "length (take off buf @ take m (B k)) = off + m" using assms(3) [of k] assms(4,5) by auto
  have s: "kdf_out B n k l = take m (B k) @ kdf_out B n (Suc k) (l - m)"
    using kdf_out_step [OF assms(1,2)] assms(3) [of k] assms(5) by simp
  have e: "buf1 = (take off buf @ take m (B k)) @ drop (off + m) buf" by (simp add: b1)
  have "take (off + m) buf1 = take off buf @ take m (B k)" unfolding e using lb by (metis append_eq_conv_conj)
  moreover have "drop (off + m + (l - m)) buf1 = drop (off + l) buf"
  proof -
    have "drop (off + m + (l - m)) buf1 = drop (l - m) (drop (off + m) buf1)" by (simp add: add.commute)
    also have "drop (off + m) buf1 = drop (off + m) buf" unfolding e using lb by (metis append_eq_conv_conj)
    finally show ?thesis using assms(5) by (simp add: add.commute)
  qed
  ultimately show ?thesis by (simp add: s)
qed

section \<open>HKDF against RFC 5869\<close>

text \<open>An update whose object may be longer than the length that is given.\<close>

lemma hmac_update_prefix:
  assumes "hmac_rep md k0 m c" "unat len \<le> length d" "unat len < 2 ^ 32 - 128" "hash_limit md (hash_bsize md + length m + unat len)"
  shows "\<exists>c'. cx_hmac_update c (Some d) len = Some (CX_OK, c') \<and> hmac_rep md k0 (m @ take (unat len) d) c'"
proof (cases "len = 0")
  case False
  then show ?thesis
    using hash_update_prefix [of md "k0 @ m" "hmac_hash_ctx c" len d] assms
    by (auto simp: cx_hmac_update_def hmac_rep_def add.assoc)
qed (use assms in \<open>simp add: cx_hmac_update_def\<close>)

definition hmac_started :: "cx_md_t \<Rightarrow> bytes \<Rightarrow> bytes \<Rightarrow> cx_hmac_t \<Rightarrow> bool" where
  "hmac_started md key m c = hmac_rep md (map (\<lambda>x. x XOR 0x36) (hmac_pad_key md key)) m c"

lemma hmac_started_init:
  assumes "hash_allowed md" "length key < 2 ^ 32 - 128" "hash_limit md (length key)"
  shows "\<exists>c'. cx_hmac_init c md (Some key) (of_nat (length key)) = Some (CX_OK, c') \<and> hmac_started md key [] c'"
  using cx_hmac_init_rep [OF assms] by (simp add: hmac_started_def)

lemma hmac_started_update:
  assumes "hmac_started md key m c" "unat len \<le> length d" "unat len < 2 ^ 32 - 128" "hash_limit md (hash_bsize md + length m + unat len)"
  shows "\<exists>c'. cx_hmac_update c (Some d) len = Some (CX_OK, c') \<and> hmac_started md key (m @ take (unat len) d) c'"
  using hmac_update_prefix assms by (simp add: hmac_started_def)

lemma hmac_started_final:
  assumes "hmac_started md key m c" "hash_allowed md" "hash_limit md (hash_bsize md + length m)" "hash_osize md \<le> length out"
  shows "\<exists>c'. cx_hmac_final c out (of_nat (hash_osize md)) =
     Some (CX_OK, c', rfc_hmac md key m @ drop (hash_osize md) out, of_nat (hash_osize md))"
proof -
  have "unat (of_nat (hash_osize md) :: size_t) = hash_osize md"
    using hash_sizes(2,3) [OF assms(2)] by (simp add: unsigned_of_nat take_bit_nat_eq_self)
  then show ?thesis
    using cx_hmac_final_rep [OF assms(1) [unfolded hmac_started_def] assms(2,3), of "hash_osize md" "of_nat (hash_osize md)" out] assms(2,4)
    unfolding rfc_hmac_inner [symmetric] by auto
qed

lemma length_hkdf_T: "hash_allowed md \<Longrightarrow> 0 < k \<Longrightarrow> length (rfc_hkdf_T md prk info k) = hash_osize md"
  by (cases k) simp_all

text \<open>One round: \<open>T(k)\<close> is computed from \<open>T(k - 1)\<close>.\<close>

lemma hkdf_round:
  assumes md: "hash_allowed md" and prk: "length prk < 2 ^ 32 - 128" "hash_limit md (length prk)"
    and info: "length info < 2 ^ 32 - 128" "hash_limit md (hash_bsize md + hash_osize md + length info + 1)"
    and k: "1 \<le> k" "k < 256"
    and T: "length T = 128" "1 < k \<Longrightarrow> offset = of_nat (hash_osize md) \<and> take (hash_osize md) T = rfc_hkdf_T md prk info (k - 1)"
    and i: "i = of_nat k"
  shows "\<exists>g1 g2 g3 g4 g5. cx_hmac_init g md (Some prk) (of_nat (length prk)) = Some (CX_OK, g1) \<and>
     (if i > 1 then cx_hmac_update g1 (Some T) offset else Some (CX_OK, g1)) = Some (CX_OK, g2) \<and>
     cx_hmac_update g2 (Some info) (of_nat (length info)) = Some (CX_OK, g3) \<and>
     cx_hmac_update g3 (Some [i]) 1 = Some (CX_OK, g4) \<and>
     cx_hmac_final g4 T (of_nat (hash_osize md)) =
       Some (CX_OK, g5, rfc_hkdf_T md prk info k @ drop (hash_osize md) T, of_nat (hash_osize md))"
proof -
  note sz = hash_sizes [OF md]
  let ?n = "hash_osize md" and ?P = "rfc_hkdf_T md prk info (k - 1)"
  have un: "unat (of_nat ?n :: size_t) = ?n" using sz(2,3) by (simp add: unsigned_of_nat take_bit_nat_eq_self)
  have ul: "unat (of_nat (length info) :: size_t) = length info"
    using info(1) by (simp add: unsigned_of_nat take_bit_nat_eq_self)
  have i1: "i > 1 \<longleftrightarrow> k > 1" using k(2) i by (simp add: word_less_nat_alt unsigned_of_nat take_bit_nat_eq_self)
  have lp: "length ?P \<le> ?n" using length_hkdf_T [OF md, of "k - 1"] k(1) by (cases "k = 1") auto
  note lim = hash_limit_mono [OF info(2)]
  obtain g1 where g1: "cx_hmac_init g md (Some prk) (of_nat (length prk)) = Some (CX_OK, g1)" "hmac_started md prk [] g1"
    using hmac_started_init [OF md prk] by blast
  have "\<exists>g2. (if i > 1 then cx_hmac_update g1 (Some T) offset else Some (CX_OK, g1)) = Some (CX_OK, g2) \<and> hmac_started md prk ?P g2"
  proof (cases "k > 1")
    case True
    then show ?thesis
      using hmac_started_update [OF g1(2), of offset T] T sz(2,3) i1 un lim [of "hash_bsize md + ?n"] by simp
  qed (use g1(2) i1 k(1) in simp)
  then obtain g2 where g2: "(if i > 1 then cx_hmac_update g1 (Some T) offset else Some (CX_OK, g1)) = Some (CX_OK, g2)"
      "hmac_started md prk ?P g2" by blast
  obtain g3 where g3: "cx_hmac_update g2 (Some info) (of_nat (length info)) = Some (CX_OK, g3)" "hmac_started md prk (?P @ info) g3"
    using hmac_started_update [OF g2(2), of "of_nat (length info)" info] ul info(1) lp lim by auto
  obtain g4 where g4: "cx_hmac_update g3 (Some [i]) 1 = Some (CX_OK, g4)" "hmac_started md prk (?P @ info @ [i]) g4"
    using hmac_started_update [OF g3(2), of 1 "[i]"] lp lim by auto
  have "rfc_hmac md prk (?P @ info @ [i]) = rfc_hkdf_T md prk info k" using k(1) i by (cases k) auto
  moreover obtain g5 where "cx_hmac_final g4 T (of_nat ?n) = Some (CX_OK, g5, rfc_hmac md prk (?P @ info @ [i]) @ drop ?n T, of_nat ?n)"
    using hmac_started_final [OF g4(2) md _, of T] lp lim [of "hash_bsize md + length (?P @ info @ [i])"] T(1) sz(2,3) by auto
  ultimately show ?thesis using g1(1) g2(1) g3(1) g4(1) by auto
qed

lemma hkdf_loop_eq:
  assumes md: "hash_allowed md" and prk: "length prk < 2 ^ 32 - 128" "hash_limit md (length prk)"
    and info: "length info < 2 ^ 32 - 128" "hash_limit md (hash_bsize md + hash_osize md + length info + 1)"
  shows "1 \<le> k \<Longrightarrow> (k - 1) * hash_osize md + l \<le> 255 * hash_osize md \<Longrightarrow> (k - 1) * hash_osize md + l \<le> length okm \<Longrightarrow>
     length T = 128 \<Longrightarrow>
     (1 < k \<Longrightarrow> 0 < l \<Longrightarrow> offset = of_nat (hash_osize md) \<and> take (hash_osize md) T = rfc_hkdf_T md prk info (k - 1)) \<Longrightarrow>
     hkdf_loop g md (Some prk) (of_nat (length prk)) (Some info) (of_nat (length info)) (of_nat (hash_osize md))
       (of_nat k) offset T okm (of_nat l) =
     Some (take ((k - 1) * hash_osize md) okm @ kdf_out (rfc_hkdf_T md prk info) (hash_osize md) k l @
       drop ((k - 1) * hash_osize md + l) okm)"
proof (induction l arbitrary: k g T okm offset rule: less_induct)
  case (less l)
  note sz = hash_sizes [OF md]
  let ?n = "hash_osize md" and ?B = "rfc_hkdf_T md prk info"
  have un: "unat (of_nat ?n :: size_t) = ?n" using sz(2,3) by (simp add: unsigned_of_nat take_bit_nat_eq_self)
  have n: "0 < ?n" "?n \<le> 128" using sz by auto
  show ?case
  proof (cases "l = 0")
    case True
    then show ?thesis by (subst hkdf_loop.simps) simp
  next
    case False
    have "(k - 1) * ?n < 255 * ?n" using less.prems(2) False by linarith
    then have k: "k < 256" by auto
    have ul: "unat (of_nat l :: size_t) = l"
      using less.prems(2) n by (simp add: unsigned_of_nat take_bit_nat_eq_self)
    have uk: "unat (of_nat k :: u8) = k" using k by (simp add: unsigned_of_nat take_bit_nat_eq_self)
    have k0: "(of_nat k :: u8) \<noteq> 0" using uk less.prems(1) by auto
    define m where "m = min l ?n"
    have om: "(if (of_nat l :: size_t) < of_nat ?n then of_nat l else of_nat ?n) = (of_nat m :: size_t)"
      using ul un by (auto simp: m_def word_less_nat_alt min_def)
    have um: "unat (of_nat m :: size_t) = m" using ul un by (simp add: m_def min_def)
    obtain g1 g2 g3 g4 g5 where g: "cx_hmac_init g md (Some prk) (of_nat (length prk)) = Some (CX_OK, g1)"
       "(if (of_nat k :: u8) > 1 then cx_hmac_update g1 (Some T) offset else Some (CX_OK, g1)) = Some (CX_OK, g2)"
       "cx_hmac_update g2 (Some info) (of_nat (length info)) = Some (CX_OK, g3)"
       "cx_hmac_update g3 (Some [of_nat k]) 1 = Some (CX_OK, g4)"
       "cx_hmac_final g4 T (of_nat ?n) = Some (CX_OK, g5, ?B k @ drop ?n T, of_nat ?n)"
      using hkdf_round [where g = g and offset = offset, OF md prk info less.prems(1) k less.prems(4) _ refl] less.prems(5) False
      by (metis (full_types) bot_nat_0.not_eq_extremum)
    have lB: "k \<le> j \<Longrightarrow> length (?B j) = ?n" for j using length_hkdf_T [OF md] less.prems(1) by auto
    define okm1 where "okm1 = take ((k - 1) * ?n) okm @ take m (?B k) @ drop ((k - 1) * ?n + m) okm"
    have mc: "memcpy_n okm ((k - 1) * ?n) (?B k @ drop ?n T) 0 m = Some okm1"
      using lB [of k] less.prems(3) by (simp add: memcpy_n_in okm1_def m_def)
    have l1: "length okm1 = length okm" using lB [of k] less.prems(3) by (simp add: okm1_def m_def)
    have mi: "of_nat l - of_nat m = (of_nat (l - m) :: size_t)" by (simp add: m_def)
    have lm: "l - m < l" "m \<le> l" using False n by (auto simp: m_def)
    have step: "hkdf_loop g md (Some prk) (of_nat (length prk)) (Some info) (of_nat (length info)) (of_nat ?n) (of_nat k) offset T okm (of_nat l) =
       hkdf_loop g5 md (Some prk) (of_nat (length prk)) (Some info) (of_nat (length info)) (of_nat ?n)
         (of_nat (Suc k)) (of_nat m) (?B k @ drop ?n T) okm1 (of_nat (l - m))"
      apply (subst hkdf_loop.simps)
      using g ul False k0 uk om um un mc mi by (auto simp: Let_def add.commute)
    show ?thesis
    proof (cases "l \<le> ?n")
      case True
      then have m: "m = l" "l - m = 0" by (auto simp: m_def)
      have "kdf_out ?B ?n k l = take l (?B k)" using kdf_out_step [of l ?n ?B k] lB [of k] True False n by auto
      then show ?thesis unfolding step m by (subst hkdf_loop.simps) (simp add: okm1_def m)
    next
      case F: False
      then have m: "m = ?n" by (simp add: m_def)
      have kn: "(Suc k - 1) * ?n = (k - 1) * ?n + m" using less.prems(1) m by (cases k) auto
      have b: "(k - 1) * ?n + m + (l - m) = (k - 1) * ?n + l" using lm(2) by simp
      have "hkdf_loop g5 md (Some prk) (of_nat (length prk)) (Some info) (of_nat (length info)) (of_nat ?n)
           (of_nat (Suc k)) (of_nat m) (?B k @ drop ?n T) okm1 (of_nat (l - m)) =
         Some (take ((k - 1) * ?n + m) okm1 @ kdf_out ?B ?n (Suc k) (l - m) @ drop ((k - 1) * ?n + m + (l - m)) okm1)"
        using less.IH [of "l - m" "Suc k" okm1 "?B k @ drop ?n T" "of_nat m" g5, unfolded kn b l1] lm less.prems(2,3,4) lB [of k] m n b
        by (simp only: m) simp
      then show ?thesis
        unfolding step using kdf_out_write [where B = ?B and k = k, OF _ n(1) lB less.prems(3) m_def okm1_def] False by simp
    qed
  qed
qed

section \<open>PBKDF2 against RFC 2898\<close>

lemma length_rfc_U: "hash_allowed md \<Longrightarrow> length (rfc_U md pw s j) = hash_osize md"
  by (cases j) simp_all

lemma length_rfc_F: "hash_allowed md \<Longrightarrow> length (rfc_F md pw s j) = hash_osize md"
  by (induction j) (simp_all add: length_rfc_U)

text \<open>The whole computation of one HMAC, as the loops of the key derivation use it.\<close>

lemma hmac_round:
  assumes md: "hash_allowed md" and pw: "length pw < 2 ^ 32 - 128" "hash_limit md (length pw)"
    and d: "unat len \<le> length d" "unat len < 2 ^ 32 - 128" "hash_limit md (hash_bsize md + unat len)"
    and out: "hash_osize md \<le> length out"
  shows "\<exists>g1 g2 g3. cx_hmac_init g md (Some pw) (of_nat (length pw)) = Some (CX_OK, g1) \<and>
     cx_hmac_update g1 (Some d) len = Some (CX_OK, g2) \<and>
     cx_hmac_final g2 out (of_nat (hash_osize md)) =
       Some (CX_OK, g3, rfc_hmac md pw (take (unat len) d) @ drop (hash_osize md) out, of_nat (hash_osize md))"
proof -
  obtain g1 where g1: "cx_hmac_init g md (Some pw) (of_nat (length pw)) = Some (CX_OK, g1)" "hmac_started md pw [] g1"
    using hmac_started_init [OF md pw] by blast
  obtain g2 where g2: "cx_hmac_update g1 (Some d) len = Some (CX_OK, g2)" "hmac_started md pw (take (unat len) d) g2"
    using hmac_started_update [OF g1(2) d(1,2)] d(3) by auto
  show ?thesis using g1(1) g2(1) hmac_started_final [OF g2(2) md _ out] d(1,3) by (simp add: min_def)
qed

lemma hash_osize_64: "hash_allowed md \<Longrightarrow> hash_osize md \<le> 64"
  by (auto simp: hash_allowed_def hash_osize_def)

lemma pbkdf2_iter_eq:
  assumes md: "hash_allowed md" and pw: "length pw < 2 ^ 32 - 128" "hash_limit md (length pw)"
  shows "length md1 = 64 \<Longrightarrow> length work = 64 \<Longrightarrow>
     take (hash_osize md) md1 = rfc_U md pw s j \<Longrightarrow> take (hash_osize md) work = rfc_F md pw s j \<Longrightarrow>
     \<exists>g' md1' work'. pbkdf2_iter md pw (of_nat (length pw)) (of_nat (hash_osize md)) n g md1 work = Some (CX_OK, g', md1', work') \<and>
       length md1' = 64 \<and> length work' = 64 \<and> take (hash_osize md) work' = rfc_F md pw s (j + n)"
proof (induction n arbitrary: j g md1 work)
  case (Suc n)
  note sz = hash_sizes [OF md] and sz64 = hash_osize_64 [OF md]
  let ?n = "hash_osize md"
  have un: "unat (of_nat ?n :: size_t) = ?n" using sz(2,3) sz64 by (simp add: unsigned_of_nat take_bit_nat_eq_self)
  let ?m = "rfc_U md pw s (Suc j) @ drop ?n md1"
  let ?w = "rfc_F md pw s (Suc j) @ drop ?n work"
  have lm: "length ?m = 64" "length ?w = 64" using Suc.prems(1,2) sz(2,3) sz64 by (auto simp: length_rfc_U length_rfc_F md)
  obtain g1 g2 g3 where g: "cx_hmac_init g md (Some pw) (of_nat (length pw)) = Some (CX_OK, g1)"
     "cx_hmac_update g1 (Some md1) (of_nat ?n) = Some (CX_OK, g2)"
     "cx_hmac_final g2 md1 (of_nat ?n) = Some (CX_OK, g3, ?m, of_nat ?n)"
    using hmac_round [OF md pw, of "of_nat ?n" md1 md1 g] Suc.prems(1,3) sz(2,3) sz64 un hash_limit_small [of "hash_bsize md + ?n" md] by auto
  have x: "memxor_from work ?m 0 ?n = Some ?w"
    using Suc.prems(1,2,4) sz(2,3) sz64 by (simp add: memxor_from_eq length_rfc_U md)
  have "take ?n ?m = rfc_U md pw s (Suc j)" "take ?n ?w = rfc_F md pw s (Suc j)"
    using md by (simp_all add: length_rfc_U length_rfc_F del: rfc_U.simps rfc_F.simps)
  then show ?case
    using Suc.IH [OF lm, of "Suc j" g3] g x un by (simp del: rfc_U.simps rfc_F.simps)
qed simp

lemma be_val_take_Suc: "i < length cnt \<Longrightarrow> be_val (take (Suc i) cnt) = be_val (take i cnt) * 256 + unat (cnt ! i)"
  by (simp add: take_Suc_conv_app_nth be_val_append)

lemma incr_from_eq:
  "i < length cnt \<Longrightarrow>
     length (incr_from cnt i) = length cnt \<and> drop (Suc i) (incr_from cnt i) = drop (Suc i) cnt \<and>
     be_val (take (Suc i) (incr_from cnt i)) = (be_val (take (Suc i) cnt) + 1) mod 256 ^ Suc i"
proof (induction i arbitrary: cnt)
  case 0
  have "incr_from cnt 0 = cnt[0 := cnt ! 0 + 1]" by (subst incr_from.simps) (simp add: Let_def)
  then show ?case using 0 by (cases cnt) (simp_all add: unat_word_ariths)
next
  case (Suc i)
  let ?c = "cnt[Suc i := cnt ! Suc i + 1]"
  have v: "be_val (take (Suc (Suc i)) ?c) = be_val (take (Suc i) cnt) * 256 + unat (cnt ! Suc i + 1)"
    using Suc.prems by (simp add: be_val_take_Suc)
  show ?case
  proof (cases "cnt ! Suc i + 1 = 0")
    case False
    then have "unat (cnt ! Suc i + 1) = unat (cnt ! Suc i) + 1" using unatSuc [of "cnt ! Suc i"] by (simp add: add.commute)
    moreover have "be_val (take (Suc (Suc i)) ?c) < 256 ^ Suc (Suc i)"
      using be_val_bound [of "take (Suc (Suc i)) ?c"] Suc.prems by simp
    moreover have "incr_from cnt (Suc i) = ?c" using False Suc.prems by (subst incr_from.simps) (simp add: Let_def)
    ultimately show ?thesis using v Suc.prems by (simp add: be_val_take_Suc)
  next
    case True
    then have "cnt ! Suc i = 255" by (simp add: eq_neg_iff_add_eq_0 [symmetric])
    then have x: "unat (cnt ! Suc i) = 255" by simp
    have c: "incr_from cnt (Suc i) = incr_from ?c i" using True Suc.prems by (subst incr_from.simps) simp
    have ih: "length (incr_from ?c i) = length cnt" "drop (Suc i) (incr_from ?c i) = drop (Suc i) ?c"
        "be_val (take (Suc i) (incr_from ?c i)) = (be_val (take (Suc i) cnt) + 1) mod 256 ^ Suc i"
      using Suc.IH [of ?c] Suc.prems by simp_all
    have n: "incr_from ?c i ! Suc i = 0" "drop (Suc (Suc i)) (incr_from ?c i) = drop (Suc (Suc i)) cnt"
      using ih(2) True Suc.prems ih(1) by (simp_all add: Cons_nth_drop_Suc [symmetric])
    have "be_val (take (Suc (Suc i)) (incr_from ?c i)) = ((be_val (take (Suc i) cnt) + 1) mod 256 ^ Suc i) * 256"
      using Suc.prems ih(1,3) n(1) by (simp add: be_val_take_Suc)
    also have "\<dots> = (be_val (take (Suc i) cnt) * 256 + 256) mod 256 ^ Suc (Suc i)"
      by (simp add: mult_mod_right algebra_simps)
    finally show ?thesis using c x ih(1) n(2) Suc.prems by (simp add: be_val_take_Suc add.commute)
  qed
qed

lemma incr_counter: "incr_from (be_bytes 4 (w :: u32)) 3 = be_bytes 4 (w + 1)"
proof (rule be_val_inj)
  have l: "length (incr_from (be_bytes 4 w) 3) = 4" using incr_from_eq [of 3 "be_bytes 4 w"] by simp
  then show "length (incr_from (be_bytes 4 w) 3) = length (be_bytes 4 (w + 1))" by simp
  show "be_val (incr_from (be_bytes 4 w) 3) = be_val (be_bytes 4 (w + 1))"
    using incr_from_eq [of 3 "be_bytes 4 w"] l by (simp add: be_val_be_bytes_full unat_word_ariths)
qed

lemma pbkdf2_round:
  assumes md: "hash_allowed md" and pw: "length pw < 2 ^ 32 - 128" "hash_limit md (length pw)"
    and salt: "length salt < 2 ^ 32 - 128" "hash_limit md (hash_bsize md + length salt + 4)"
    and l: "length cnt = 4" "length work = 64" "length md1 = 64"
  shows "\<exists>g1 g2 g3 g4 w1 m1 g5 m2 w2. cx_hmac_init g md (Some pw) (of_nat (length pw)) = Some (CX_OK, g1) \<and>
     cx_hmac_update g1 (Some salt) (of_nat (length salt)) = Some (CX_OK, g2) \<and>
     cx_hmac_update g2 (Some cnt) 4 = Some (CX_OK, g3) \<and>
     cx_hmac_final g3 work (of_nat (hash_osize md)) = Some (CX_OK, g4, w1, of_nat (hash_osize md)) \<and>
     memcpy_n md1 0 w1 0 (hash_osize md) = Some m1 \<and>
     pbkdf2_iter md pw (of_nat (length pw)) (of_nat (hash_osize md)) n g4 m1 w1 = Some (CX_OK, g5, m2, w2) \<and>
     length m2 = 64 \<and> length w2 = 64 \<and> take (hash_osize md) w2 = rfc_F md pw (salt @ cnt) n"
proof -
  note sz = hash_sizes [OF md] and sz64 = hash_osize_64 [OF md]
  let ?n = "hash_osize md"
  note lim = hash_limit_mono [OF salt(2)]
  have us: "unat (of_nat (length salt) :: size_t) = length salt"
    using salt(1) by (simp add: unsigned_of_nat take_bit_nat_eq_self)
  obtain g1 where g1: "cx_hmac_init g md (Some pw) (of_nat (length pw)) = Some (CX_OK, g1)" "hmac_started md pw [] g1"
    using hmac_started_init [OF md pw] by blast
  obtain g2 where g2: "cx_hmac_update g1 (Some salt) (of_nat (length salt)) = Some (CX_OK, g2)" "hmac_started md pw salt g2"
    using hmac_started_update [OF g1(2), of "of_nat (length salt)" salt] us salt(1) lim by auto
  obtain g3 where g3: "cx_hmac_update g2 (Some cnt) 4 = Some (CX_OK, g3)" "hmac_started md pw (salt @ cnt) g3"
    using hmac_started_update [OF g2(2), of 4 cnt] l(1) salt(2) by auto
  define w1 where "w1 = rfc_U md pw (salt @ cnt) 0 @ drop ?n work"
  define m1 where "m1 = rfc_U md pw (salt @ cnt) 0 @ drop ?n md1"
  obtain g4 where g4: "cx_hmac_final g3 work (of_nat ?n) = Some (CX_OK, g4, w1, of_nat ?n)"
    using hmac_started_final [OF g3(2) md, of work] salt(2) l sz(2,3) sz64 by (auto simp: w1_def add.assoc)
  have l1: "length m1 = 64" "length w1 = 64" "take ?n m1 = rfc_U md pw (salt @ cnt) 0" "take ?n w1 = rfc_F md pw (salt @ cnt) 0"
    using l sz(2,3) sz64 md by (auto simp: m1_def w1_def)
  have "memcpy_n md1 0 w1 0 ?n = Some m1" using l sz(2,3) sz64 md by (simp add: memcpy_n_in m1_def w1_def)
  then show ?thesis
    using g1(1) g2(1) g3(1) g4 pbkdf2_iter_eq [OF md pw l1, of n g4] by fastforce
qed

lemma pbkdf2_loop_eq:
  assumes md: "hash_allowed md" and pw: "length pw < 2 ^ 32 - 128" "hash_limit md (length pw)"
    and salt: "length salt < 2 ^ 32 - 128" "hash_limit md (hash_bsize md + length salt + 4)"
  shows "length work = 64 \<Longrightarrow> length md1 = 64 \<Longrightarrow> off + l \<le> length key \<Longrightarrow> l < 2 ^ 32 \<Longrightarrow>
     pbkdf2_loop md pw (of_nat (length pw)) salt (of_nat (length salt)) iterations (of_nat (hash_osize md)) g
       (be_bytes 4 (of_nat k :: u32)) work md1 key off (of_nat l) =
     Some (CX_OK, take off key @
       kdf_out (\<lambda>i. rfc_F md pw (salt @ be_bytes 4 (of_nat i :: u32)) (unat iterations - 1)) (hash_osize md) k l @
       drop (off + l) key)"
proof (induction l arbitrary: k g work md1 key off rule: less_induct)
  case (less l)
  note sz = hash_sizes [OF md] and sz64 = hash_osize_64 [OF md]
  let ?n = "hash_osize md" and ?B = "\<lambda>i. rfc_F md pw (salt @ be_bytes 4 (of_nat i :: u32)) (unat iterations - 1)"
  have un: "unat (of_nat ?n :: size_t) = ?n" using sz(2,3) sz64 by (simp add: unsigned_of_nat take_bit_nat_eq_self)
  show ?case
  proof (cases "l = 0")
    case True
    then show ?thesis by (subst pbkdf2_loop.simps) simp
  next
    case False
    have ul: "unat (of_nat l :: size_t) = l" using less.prems(4) by (simp add: unsigned_of_nat take_bit_nat_eq_self)
    define m where "m = min l ?n"
    have om: "(if (of_nat l :: size_t) < of_nat ?n then of_nat l else of_nat ?n) = (of_nat m :: size_t)"
      using ul un by (auto simp: m_def word_less_nat_alt min_def)
    have um: "unat (of_nat m :: size_t) = m" using ul un by (simp add: m_def min_def)
    obtain g1 g2 g3 g4 w1 m1 g5 m2 w2 where g: "cx_hmac_init g md (Some pw) (of_nat (length pw)) = Some (CX_OK, g1)"
       "cx_hmac_update g1 (Some salt) (of_nat (length salt)) = Some (CX_OK, g2)"
       "cx_hmac_update g2 (Some (be_bytes 4 (of_nat k :: u32))) 4 = Some (CX_OK, g3)"
       "cx_hmac_final g3 work (of_nat ?n) = Some (CX_OK, g4, w1, of_nat ?n)" "memcpy_n md1 0 w1 0 ?n = Some m1"
       "pbkdf2_iter md pw (of_nat (length pw)) (of_nat ?n) (unat iterations - 1) g4 m1 w1 = Some (CX_OK, g5, m2, w2)"
       and w: "length m2 = 64" "length w2 = 64" "take ?n w2 = ?B k"
      using pbkdf2_round [OF md pw salt, of "be_bytes 4 (of_nat k :: u32)" work md1 g "unat iterations - 1"] less.prems(1,2) by auto
    have lB: "length (?B j) = ?n" for j using length_rfc_F [OF md] .
    define key1 where "key1 = take off key @ take m (?B k) @ drop (off + m) key"
    have "take m w2 = take m (?B k)" unfolding w(3) [symmetric] by (simp add: m_def)
    then have mc: "memcpy_n key off w2 0 m = Some key1"
      using w(2) less.prems(3) sz(2,3) sz64 by (simp add: memcpy_n_in key1_def m_def)
    have l1: "length key1 = length key" using lB [of k] less.prems(3) by (simp add: key1_def m_def)
    have mi: "of_nat l - of_nat m = (of_nat (l - m) :: size_t)" by (simp add: m_def)
    have lm: "l - m < l" "off + m + (l - m) \<le> length key" "m \<le> l" using False sz(4) less.prems(3) by (auto simp: m_def)
    have inc: "incr_from (be_bytes 4 (of_nat k :: u32)) 3 = be_bytes 4 (of_nat (Suc k) :: u32)"
      by (simp add: incr_counter add.commute)
    have "pbkdf2_loop md pw (of_nat (length pw)) salt (of_nat (length salt)) iterations (of_nat ?n) g
       (be_bytes 4 (of_nat k :: u32)) work md1 key off (of_nat l) =
       pbkdf2_loop md pw (of_nat (length pw)) salt (of_nat (length salt)) iterations (of_nat ?n) g5
       (be_bytes 4 (of_nat (Suc k) :: u32)) w2 m2 key1 (off + m) (of_nat (l - m))"
      apply (subst pbkdf2_loop.simps)
      using g ul False om um un mc mi inc by (auto simp: Let_def simp del: of_nat_Suc)
    also have "\<dots> = Some (CX_OK, take (off + m) key1 @ kdf_out ?B ?n (Suc k) (l - m) @ drop (off + m + (l - m)) key1)"
      using less.IH [OF lm(1) w(2,1), of "off + m" key1 g5 "Suc k"] lm l1 less.prems(4) by simp
    also have "\<dots> = Some (CX_OK, take off key @ kdf_out ?B ?n k l @ drop (off + l) key)"
      using kdf_out_write [where B = ?B and k = k, OF _ sz(4) lB less.prems(3) m_def key1_def] False by simp
    finally show ?thesis .
  qed
qed

section \<open>Properties\<close>

text \<open>A key that fits a block is read up to its length.\<close>

lemma cx_hmac_init_prefix:
  assumes "n \<le> length key" "n \<le> length key'" "take n key = take n key'" "n < 2 ^ 32" "of_nat n \<le> cx_get_block_size md"
  shows "cx_hmac_init g md (Some key) (of_nat n) = cx_hmac_init g md (Some key') (of_nat n)"
proof -
  have u: "unat (of_nat n :: size_t) = n" using assms(4) by (simp add: unsigned_of_nat take_bit_nat_eq_self)
  have "memcpy_n b 0 key 0 n = memcpy_n b 0 key' 0 n" for b
    using assms(1-3) by (simp add: memcpy_n_def ld_n_def)
  then have "hmac_set_key c md key (of_nat n) = hmac_set_key c md key' (of_nat n)" for c
    using assms(5) by (simp add: hmac_set_key_def u not_less [symmetric])
  then show ?thesis by (simp add: cx_hmac_init_def)
qed

lemma cx_hkdf_extract_eq:
  assumes md: "hash_allowed md"
    and key: "k = (case salt of None \<Rightarrow> replicate (hash_osize md) 0 | Some s \<Rightarrow> s)"
      "length k < 2 ^ 32 - 128" "hash_limit md (length k)" "salt \<noteq> None \<Longrightarrow> salt_len = of_nat (length k)"
    and g: "length (hmac_key g) = 128"
    and ikm: "length ikm < 2 ^ 32 - 128" "hash_limit md (hash_bsize md + length ikm)"
    and o: "hash_osize md \<le> length prk"
  shows "cx_hkdf_extract g md (Some ikm) (of_nat (length ikm)) salt salt_len prk =
     Some (rfc_hkdf_extract md salt ikm @ drop (hash_osize md) prk)"
proof -
  let ?n = "hash_osize md"
  have i: "\<exists>info. cx_hash_get_info md = Some info \<and> info_output_size info = of_nat ?n"
    using md by (auto simp: hash_allowed_def cx_hash_get_info_def hash_osize_def)
  have un: "unat (of_nat ?n :: size_t) = ?n"
    using hash_sizes(2,3) [OF md] by (simp add: unsigned_of_nat take_bit_nat_eq_self)
  have round: "\<exists>g1 g2 g3. cx_hmac_init h md (Some k) (of_nat (length k)) = Some (CX_OK, g1) \<and>
      cx_hmac_update g1 (Some ikm) (of_nat (length ikm)) = Some (CX_OK, g2) \<and>
      cx_hmac_final g2 prk (of_nat ?n) = Some (CX_OK, g3, rfc_hmac md k ikm @ drop ?n prk, of_nat ?n)" for h
    using hmac_round [OF md key(2,3), of "of_nat (length ikm)" ikm prk h] ikm o
    by (auto simp: unsigned_of_nat take_bit_nat_eq_self)
  show ?thesis
  proof (cases salt)
    case None
    have "(of_nat ?n :: size_t) \<le> cx_get_block_size md"
      using hash_sizes(1,3) [OF md] un by (simp add: word_le_nat_alt)
    then have p: "cx_hmac_init h md (Some (replicate 128 0)) (of_nat ?n) = cx_hmac_init h md (Some k) (of_nat ?n)" for h
      using hash_sizes(2,3) [OF md] by (intro cx_hmac_init_prefix) (auto simp: key(1) None min_def)
    define g' where "g' = g\<lparr>hmac_key := replicate ?n 0 @ drop ?n (hmac_key g)\<rparr>"
    have m: "memset_n (hmac_key g) 0 0 ?n = Some (hmac_key g')"
      using g hash_sizes(2,3) [OF md] by (simp add: memset_n_in g'_def)
    have lk: "length k = ?n" by (simp add: key(1) None)
    show ?thesis
      using round [of "g\<lparr>hmac_key := hmac_key g'\<rparr>"] i un m p lk
      by (auto simp: cx_hkdf_extract_def rfc_hkdf_extract_def None key(1))
  next
    case (Some s)
    then show ?thesis
      using round [of g] i un key(1,4) by (auto simp: cx_hkdf_extract_def rfc_hkdf_extract_def)
  qed
qed

text \<open>Property C39.  HKDF is RFC 5869: \<open>cx_hkdf_extract\<close> gives the HMAC of the input keying material under the salt, or under
  \<open>HashLen\<close> zeros when there is none, and \<open>cx_hkdf_expand\<close>, for any pseudorandom key, the first \<open>okm_len\<close> bytes of
  \<open>T(1), T(2), \<dots>\<close>, up to the 255 blocks the one-byte counter allows; only the \<open>okm_len\<close> bytes of the output
  are written.\<close>

theorem cx_hkdf_correct:
  assumes "hash_allowed md" "length (hmac_key g) = 128"
    and "salt = None \<or> (\<exists>s. salt = Some s \<and> length s < 2 ^ 32 - 128 \<and> hash_limit md (length s) \<and> salt_len = of_nat (length s))"
    and "length ikm < 2 ^ 32 - 128" "hash_limit md (hash_bsize md + length ikm)" "hash_osize md \<le> length out"
    and "length prk < 2 ^ 32 - 128" "hash_limit md (length prk)"
    and "length info < 2 ^ 32 - 128" "hash_limit md (hash_bsize md + hash_osize md + length info + 1)"
    and "l \<le> 255 * hash_osize md" "l \<le> length okm"
  shows "cx_hkdf_extract g md (Some ikm) (of_nat (length ikm)) salt salt_len out =
      Some (rfc_hkdf_extract md salt ikm @ drop (hash_osize md) out) \<and>
     cx_hkdf_expand g' md (Some prk) (of_nat (length prk)) (Some info) (of_nat (length info)) okm (of_nat l) =
       Some (rfc_hkdf_expand md prk info l @ drop l okm)"
proof
  let ?k = "case salt of None \<Rightarrow> replicate (hash_osize md) 0 | Some s \<Rightarrow> s"
  have "length ?k < 2 ^ 32 - 128" "hash_limit md (length ?k)" "salt \<noteq> None \<Longrightarrow> salt_len = of_nat (length ?k)"
    using assms(3) hash_osize_64 [OF assms(1)] hash_limit_small [of "hash_osize md" md] by auto
  then show "cx_hkdf_extract g md (Some ikm) (of_nat (length ikm)) salt salt_len out =
      Some (rfc_hkdf_extract md salt ikm @ drop (hash_osize md) out)"
    by (intro cx_hkdf_extract_eq [OF assms(1) refl _ _ _ assms(2,4-6)])
  obtain inf where i: "cx_hash_get_info md = Some inf" "info_output_size inf = of_nat (hash_osize md)"
    using assms(1) by (auto simp: hash_allowed_def cx_hash_get_info_def hash_osize_def)
  show "cx_hkdf_expand g' md (Some prk) (of_nat (length prk)) (Some info) (of_nat (length info)) okm (of_nat l) =
       Some (rfc_hkdf_expand md prk info l @ drop l okm)"
    using hkdf_loop_eq [OF assms(1,7-10), of 1 l okm "replicate 128 0" 0 g'] assms(11,12) i
    by (simp add: cx_hkdf_expand_def rfc_hkdf_expand_def)
qed

theorem cx_hkdf_correct_witness:
  "cx_hkdf_extract (\<lparr>hmac_key = replicate 128 7, hmac_hash_ctx = Sha256_ctx (snd cx_sha256_init_no_throw)\<rparr>) CX_SHA256
     (Some [1, 2, 3]) 3 None 9 (replicate 32 0) = Some (rfc_hkdf_extract CX_SHA256 None [1, 2, 3]) \<and>
   cx_hkdf_extract (\<lparr>hmac_key = replicate 128 7, hmac_hash_ctx = Sha256_ctx (snd cx_sha256_init_no_throw)\<rparr>) CX_SHA256
     (Some [1, 2, 3]) 3 (Some [4, 5]) 2 (replicate 32 0) = Some (rfc_hkdf_extract CX_SHA256 (Some [4, 5]) [1, 2, 3]) \<and>
   cx_hkdf_expand (\<lparr>hmac_key = [], hmac_hash_ctx = Sha256_ctx (snd cx_sha256_init_no_throw)\<rparr>) CX_SHA256
       (Some [8, 9]) 2 (Some [6]) 1 (replicate 42 0) 42 = Some (rfc_hkdf_expand CX_SHA256 [8, 9] [6] 42)"
  using cx_hkdf_correct [of CX_SHA256 "\<lparr>hmac_key = replicate 128 7, hmac_hash_ctx = Sha256_ctx (snd cx_sha256_init_no_throw)\<rparr>"
      None 9 "[1, 2, 3]" "replicate 32 0" "[8, 9]" "[6]" 42 "replicate 42 0"
      "\<lparr>hmac_key = [], hmac_hash_ctx = Sha256_ctx (snd cx_sha256_init_no_throw)\<rparr>"]
    cx_hkdf_correct [of CX_SHA256 "\<lparr>hmac_key = replicate 128 7, hmac_hash_ctx = Sha256_ctx (snd cx_sha256_init_no_throw)\<rparr>"
      "Some [4, 5]" 2 "[1, 2, 3]" "replicate 32 0" "[8, 9]" "[6]" 42 "replicate 42 0"
      "\<lparr>hmac_key = [], hmac_hash_ctx = Sha256_ctx (snd cx_sha256_init_no_throw)\<rparr>"]
  by (simp add: hash_allowed_def hash_limit_def hash_osize_def hash_bsize_def)

text \<open>Property C40.  PBKDF2 is RFC 2898: for every iteration count (0 counts as 1) the key is the concatenation of the
  blocks \<open>F(1), F(2), \<dots>\<close>, each the XOR of the iterates of HMAC on the salt and the big-endian block number, cut at
  \<open>key_len\<close> bytes; the carry of the four-byte counter is right.\<close>

theorem cx_pbkdf2_correct:
  assumes "hash_allowed md" "length pw < 2 ^ 32 - 128" "hash_limit md (length pw)"
    and "length salt < 2 ^ 32 - 128" "hash_limit md (hash_bsize md + length salt + 4)"
    and "l \<le> length key" "l < 2 ^ 32"
  shows "cx_pbkdf2_no_throw g md (Some pw) (of_nat (length pw)) (Some salt) (of_nat (length salt)) iterations (Some key) (of_nat l) =
     Some (CX_OK, Some (rfc_pbkdf2 md pw salt (unat iterations) l @ drop l key))"
proof -
  obtain inf where i: "cx_hash_get_info md = Some inf" "info_output_size inf = of_nat (hash_osize md)"
    using assms(1) by (auto simp: hash_allowed_def cx_hash_get_info_def hash_osize_def)
  have "be_bytes 4 (of_nat 1 :: u32) = [0, 0, 0, 1]" by (simp add: be_bytes4)
  then show ?thesis
    using pbkdf2_loop_eq [OF assms(1-5), of "replicate 64 0" "replicate 64 0" 0 l key iterations g 1] assms(6,7) i
    by (simp add: PBKDF2_BUFFER_LENGTH_def cx_pbkdf2_no_throw_def cx_pbkdf2_hmac_def rfc_pbkdf2_def)
qed

theorem cx_pbkdf2_correct_witness:
  "cx_pbkdf2_no_throw (\<lparr>hmac_key = [], hmac_hash_ctx = Sha256_ctx (snd cx_sha256_init_no_throw)\<rparr>) CX_SHA512
     (Some [1, 2, 3]) 3 (Some [4, 5]) 2 2048 (Some (replicate 64 0)) 64 =
   Some (CX_OK, Some (rfc_pbkdf2 CX_SHA512 [1, 2, 3] [4, 5] 2048 64))"
  using cx_pbkdf2_correct [of CX_SHA512 "[1, 2, 3]" "[4, 5]" 64 "replicate 64 0"
    "\<lparr>hmac_key = [], hmac_hash_ctx = Sha256_ctx (snd cx_sha256_init_no_throw)\<rparr>" 2048]
  by (simp add: hash_allowed_def hash_limit_def hash_osize_def hash_bsize_def)

end
