(* ===== verification/Mem_Alloc.thy ===== *)
theory Mem_Alloc
  imports Prelude
begin

text \<open>
The memory allocator of \<^verbatim>\<open>lib_alloc/mem_alloc.c\<close> and the application wrappers of \<^verbatim>\<open>lib_alloc/app_mem_utils.c\<close>.

A heap is a header with segregated free lists followed by chunks.  Every chunk starts with a \<open>header_t\<close>; the free chunks of a
size class are linked through their headers.  Addresses are byte offsets from the start of the heap, so the pointer \<open>NULL\<close> is the
absence of an address.  A function returns \<open>None\<close> when it would access a header outside the heap, and \<open>Throw_EXCEPTION_CORRUPT\<close>
when it raises the exception of the consistency check.
\<close>

section \<open>Memory\<close>

text \<open>A \<open>header_t\<close> is eight bytes and every chunk starts at a multiple of eight, so the heap is an array of cells of
  eight bytes, each read as a header.  In an allocated chunk the payload starts after \<open>phys_prev\<close>: it is the last two
  fields of the first cell and the whole cells that follow.  Addresses are byte offsets from the start of the heap;
  indices are offsets in cells.\<close>

record header_t =
  h_size :: nat
  h_allocated :: bool
  h_phys_prev :: nat
  h_fprev :: nat
  h_fnext :: nat

record heap_t =
  heap_end :: nat
  nb_segs :: nat
  free_segments :: "nat list"
  mem :: "nat \<Rightarrow> header_t"

definition PAYLOAD_ALIGNEMENT :: nat where "PAYLOAD_ALIGNEMENT = 4"
definition ALLOC_CHUNK_HEADER_SIZE :: nat where "ALLOC_CHUNK_HEADER_SIZE = 4"
definition FREE_CHUNK_HEADER_SIZE :: nat where "FREE_CHUNK_HEADER_SIZE = 8"
definition MAX_BLOCK_SIZE :: nat where "MAX_BLOCK_SIZE = 0x7FFF"
definition NB_LINEAR_SEGMENTS :: nat where "NB_LINEAR_SEGMENTS = 5"
definition NB_MAX_SEGMENTS :: nat where "NB_MAX_SEGMENTS = 10"
definition NB_SUB_SEGMENTS :: nat where "NB_SUB_SEGMENTS = 4"

text \<open>\<open>sizeof(heap_t)\<close> is 88 on the 32-bit targets, already a multiple of eight.\<close>

definition HEAP_HEADER_SIZE :: nat where "HEAP_HEADER_SIZE = 88"

lemmas mem_consts = PAYLOAD_ALIGNEMENT_def ALLOC_CHUNK_HEADER_SIZE_def FREE_CHUNK_HEADER_SIZE_def MAX_BLOCK_SIZE_def
  NB_LINEAR_SEGMENTS_def NB_MAX_SEGMENTS_def NB_SUB_SEGMENTS_def HEAP_HEADER_SIZE_def

definition GET_PTR :: "nat \<Rightarrow> nat" where "GET_PTR i = i * 8"
definition GET_IDX :: "nat \<Rightarrow> nat" where "GET_IDX a = a div 8"

text \<open>A header is read or written inside the heap area, after the \<open>heap_t\<close>; anything else is no value.\<close>

definition hd_ok :: "heap_t \<Rightarrow> nat \<Rightarrow> bool" where
  "hd_ok h a = (a mod 8 = 0 \<and> HEAP_HEADER_SIZE \<le> a \<and> a + 8 \<le> heap_end h)"

definition hd_ld :: "heap_t \<Rightarrow> nat \<Rightarrow> header_t option" where
  "hd_ld h a = (if hd_ok h a then Some (mem h a) else None)"

definition hd_upd :: "heap_t \<Rightarrow> nat \<Rightarrow> (header_t \<Rightarrow> header_t) \<Rightarrow> heap_t option" where
  "hd_upd h a f = (if hd_ok h a then Some (h\<lparr>mem := (mem h)(a := f (mem h a))\<rparr>) else None)"

text \<open>The assignments to the 15-bit \<open>size\<close> and to the 16-bit indices.\<close>

definition set_size :: "nat \<Rightarrow> header_t \<Rightarrow> header_t" where
  "set_size n c = c\<lparr>h_size := n mod 2 ^ 15\<rparr>"

definition set_phys_prev :: "nat \<Rightarrow> header_t \<Rightarrow> header_t" where
  "set_phys_prev i c = c\<lparr>h_phys_prev := i mod 2 ^ 16\<rparr>"

datatype 'a mem_out = Ret 'a | Throw_EXCEPTION_CORRUPT

section \<open>Segments\<close>

definition align_alloc_size :: "nat \<Rightarrow> nat" where
  "align_alloc_size n =
     (let n = n + (PAYLOAD_ALIGNEMENT - 1);
          n = n - n mod PAYLOAD_ALIGNEMENT
      in n + (if n mod 8 \<ge> PAYLOAD_ALIGNEMENT then ALLOC_CHUNK_HEADER_SIZE else ALLOC_CHUNK_HEADER_SIZE + PAYLOAD_ALIGNEMENT))"

text \<open>The index of the most significant bit, \<open>31 - __builtin_clz(n)\<close> for positive \<open>n\<close>.\<close>

fun msb_idx :: "nat \<Rightarrow> nat" where
  "msb_idx n = (if n < 2 then 0 else Suc (msb_idx (n div 2)))"

declare msb_idx.simps [simp del]

definition builtin_clz :: "nat \<Rightarrow> nat option" where
  "builtin_clz n = (if n = 0 then None else Some (31 - msb_idx n))"

definition GET_SEGMENT :: "nat \<Rightarrow> nat option" where
  "GET_SEGMENT n = do { z \<leftarrow> builtin_clz n; Some (max NB_LINEAR_SEGMENTS (31 - z)) }"

definition sub_segment_shift :: "nat \<Rightarrow> nat" where
  "sub_segment_shift seg = (if seg = NB_LINEAR_SEGMENTS then seg - 1 else seg - 2)"

text \<open>The inner \<open>None\<close> is the result -1.\<close>

definition seglist_index :: "heap_t \<Rightarrow> nat \<Rightarrow> nat option option" where
  "seglist_index heap sz = do {
     seg \<leftarrow> GET_SEGMENT sz;
     let sub_segment = (sz div 2 ^ sub_segment_shift seg) mod 4;
     let seg = seg - NB_LINEAR_SEGMENTS;
     Some (if seg \<ge> nb_segs heap then None else Some (seg * NB_SUB_SEGMENTS + sub_segment)) }"

definition seglist_index_up :: "heap_t \<Rightarrow> nat \<Rightarrow> nat option option" where
  "seglist_index_up heap sz = do {
     seg \<leftarrow> GET_SEGMENT sz;
     let sub_segment_size = 2 ^ sub_segment_shift seg;
     let sz = sz + (sub_segment_size - 1);
     let sz = sz - sz mod sub_segment_size;
     seg \<leftarrow> GET_SEGMENT sz;
     let sub_segment = (sz div 2 ^ sub_segment_shift seg) mod 4;
     let seg = seg - NB_LINEAR_SEGMENTS;
     Some (if seg \<ge> nb_segs heap then None else Some (seg * NB_SUB_SEGMENTS + sub_segment)) }"

section \<open>Free lists\<close>

definition set_seg :: "heap_t \<Rightarrow> nat \<Rightarrow> nat \<Rightarrow> heap_t option" where
  "set_seg heap seg i = do { fs \<leftarrow> st (free_segments heap) seg i; Some (heap\<lparr>free_segments := fs\<rparr>) }"

text \<open>\<open>first_free\<close> is always the address of an element of \<open>free_segments\<close>, given by its position.\<close>

definition seg_remove :: "heap_t \<Rightarrow> nat \<Rightarrow> nat \<Rightarrow> heap_t option" where
  "seg_remove heap seg elem = do {
     first \<leftarrow> ld (free_segments heap) seg;
     e \<leftarrow> hd_ld heap (GET_PTR elem);
     if first = elem then do {
       heap \<leftarrow> set_seg heap seg (h_fnext e);
       if h_fnext e \<noteq> 0 then hd_upd heap (GET_PTR (h_fnext e)) (\<lambda>c. c\<lparr>h_fprev := 0\<rparr>) else Some heap }
     else do {
       heap \<leftarrow> (if h_fprev e \<noteq> 0 then hd_upd heap (GET_PTR (h_fprev e)) (\<lambda>c. c\<lparr>h_fnext := h_fnext e\<rparr>) else Some heap);
       e \<leftarrow> hd_ld heap (GET_PTR elem);
       if h_fnext e \<noteq> 0 then hd_upd heap (GET_PTR (h_fnext e)) (\<lambda>c. c\<lparr>h_fprev := h_fprev e\<rparr>) else Some heap } }"

definition list_push :: "heap_t \<Rightarrow> nat \<Rightarrow> heap_t option" where
  "list_push heap header = do {
     c \<leftarrow> hd_ld heap header;
     seg_index \<leftarrow> seglist_index heap (h_size c);
     (case seg_index of
        None \<Rightarrow> Some heap
      | Some seg \<Rightarrow> do {
          first_idx \<leftarrow> ld (free_segments heap) seg;
          if first_idx = GET_IDX header then Some heap
          else do {
            heap \<leftarrow> hd_upd heap header (\<lambda>c. c\<lparr>h_fnext := first_idx, h_fprev := 0, h_allocated := False\<rparr>);
            heap \<leftarrow> (if first_idx \<noteq> 0
                     then hd_upd heap (GET_PTR first_idx) (\<lambda>c. c\<lparr>h_fprev := GET_IDX header mod 2 ^ 16\<rparr>)
                     else Some heap);
            set_seg heap seg (GET_IDX header mod 2 ^ 16) } }) }"

section \<open>Chunks\<close>

text \<open>\<open>False\<close> is the exception \<open>EXCEPTION_CORRUPT\<close>.\<close>

definition ensure_chunk_valid :: "heap_t \<Rightarrow> nat \<Rightarrow> bool option" where
  "ensure_chunk_valid heap header = do {
     c \<leftarrow> hd_ld heap header;
     if h_size c mod PAYLOAD_ALIGNEMENT \<noteq> 0 \<or> h_size c < FREE_CHUNK_HEADER_SIZE \<or> header + h_size c > heap_end heap
     then Some False
     else if h_phys_prev c \<noteq> 0 then do {
       let prev = GET_PTR (h_phys_prev c);
       if prev < HEAP_HEADER_SIZE \<or> prev > heap_end heap then Some False
       else do { p \<leftarrow> hd_ld heap prev; Some (prev + h_size p = header) } }
     else Some True }"

definition zero_header :: header_t where
  "zero_header = \<lparr>h_size = 0, h_allocated = False, h_phys_prev = 0, h_fprev = 0, h_fnext = 0\<rparr>"

text \<open>The writes of \<open>coalesce\<close>: \<open>lower\<close> absorbs the chunk \<open>upper\<close> that follows it.\<close>

definition merge_chunks :: "heap_t \<Rightarrow> nat \<Rightarrow> nat \<Rightarrow> heap_t option" where
  "merge_chunks heap lower upper = do {
     u \<leftarrow> hd_ld heap upper;
     let nxt = upper + h_size u;
     heap \<leftarrow> (if nxt < heap_end heap then hd_upd heap nxt (set_phys_prev (GET_IDX lower)) else Some heap);
     u \<leftarrow> hd_ld heap upper;
     heap \<leftarrow> hd_upd heap lower (\<lambda>c. set_size (h_size c + h_size u) c);
     hd_upd heap upper (\<lambda>_. zero_header) }"

definition coalesce :: "heap_t \<Rightarrow> nat \<Rightarrow> nat \<Rightarrow> (nat mem_out \<times> heap_t) option" where
  "coalesce heap header neighbour = do {
     let neighbour_idx = GET_IDX neighbour mod 2 ^ 16;
     valid \<leftarrow> ensure_chunk_valid heap neighbour;
     if \<not> valid then Some (Throw_EXCEPTION_CORRUPT, heap)
     else do {
       c \<leftarrow> hd_ld heap neighbour;
       if \<not> h_allocated c then do {
         seg_index \<leftarrow> seglist_index heap (h_size c);
         heap \<leftarrow> (case seg_index of None \<Rightarrow> Some heap | Some seg \<Rightarrow> seg_remove heap seg neighbour_idx);
         if header < neighbour then do { heap \<leftarrow> merge_chunks heap header neighbour; Some (Ret header, heap) }
         else do { heap \<leftarrow> merge_chunks heap neighbour header; Some (Ret neighbour, heap) } }
       else Some (Ret header, heap) } }"

section \<open>The interface\<close>

definition mem_init :: "(nat \<Rightarrow> header_t) \<Rightarrow> nat list \<Rightarrow> nat \<Rightarrow> heap_t option option" where
  "mem_init m segs heap_size =
     (if heap_size mod FREE_CHUNK_HEADER_SIZE \<noteq> 0 \<or> heap_size < 200 \<or> heap_size > 0x7FF8 + HEAP_HEADER_SIZE then Some None
      else do {
        z \<leftarrow> builtin_clz (heap_size - HEAP_HEADER_SIZE);
        let n = 31 - z - NB_LINEAR_SEGMENTS + 1;
        if n > NB_MAX_SEGMENTS then Some None
        else do {
          fs \<leftarrow> memset_n segs 0 0 (n * NB_SUB_SEGMENTS);
          let heap = \<lparr>heap_end = heap_size, nb_segs = n, free_segments = fs, mem = m\<rparr>;
          heap \<leftarrow> hd_upd heap HEAP_HEADER_SIZE (\<lambda>c. set_phys_prev 0 (set_size (heap_size - HEAP_HEADER_SIZE) c));
          heap \<leftarrow> list_push heap HEAP_HEADER_SIZE;
          Some (Some heap) } })"

text \<open>The chunk at \<open>header\<close> is cut after \<open>n\<close> bytes; the rest becomes a free chunk.  \<open>mem_alloc\<close> and \<open>mem_realloc\<close> share
  this code.\<close>

definition split_chunk :: "heap_t \<Rightarrow> nat \<Rightarrow> nat \<Rightarrow> heap_t option" where
  "split_chunk heap header n = do {
     c \<leftarrow> hd_ld heap header;
     let new_free = header + n;
     let nxt = header + h_size c;
     heap \<leftarrow> hd_upd heap new_free (set_size ((h_size c + 2 ^ 32 - n) mod 2 ^ 32));
     heap \<leftarrow> hd_upd heap new_free (set_phys_prev (GET_IDX header));
     heap \<leftarrow> (if nxt < heap_end heap then hd_upd heap nxt (set_phys_prev (GET_IDX new_free)) else Some heap);
     heap \<leftarrow> list_push heap new_free;
     hd_upd heap header (set_size n) }"

text \<open>The body of the search loop for a list that is not empty.\<close>

definition alloc_chunk :: "heap_t \<Rightarrow> nat \<Rightarrow> nat \<Rightarrow> nat \<Rightarrow> (nat option mem_out \<times> heap_t) option" where
  "alloc_chunk heap seg chunk_idx nb_bytes = do {
     let header = GET_PTR chunk_idx;
     valid \<leftarrow> ensure_chunk_valid heap header;
     if \<not> valid then Some (Throw_EXCEPTION_CORRUPT, heap)
     else do {
       c \<leftarrow> hd_ld heap header;
       if nb_bytes > h_size c then Some (Ret None, heap)
       else do {
         heap \<leftarrow> seg_remove heap seg chunk_idx;
         heap \<leftarrow> (if h_size c \<ge> nb_bytes + FREE_CHUNK_HEADER_SIZE then split_chunk heap header nb_bytes else Some heap);
         heap \<leftarrow> hd_upd heap header (\<lambda>c. c\<lparr>h_allocated := True, h_fnext := 0, h_fprev := 0\<rparr>);
         Some (Ret (Some (header + ALLOC_CHUNK_HEADER_SIZE)), heap) } } }"

function alloc_loop :: "heap_t \<Rightarrow> nat \<Rightarrow> nat \<Rightarrow> (nat option mem_out \<times> heap_t) option" where
  "alloc_loop heap nb_bytes seg =
     (if seg < nb_segs heap * NB_SUB_SEGMENTS then do {
        chunk_idx \<leftarrow> ld (free_segments heap) seg;
        if chunk_idx \<noteq> 0 then alloc_chunk heap seg chunk_idx nb_bytes
        else alloc_loop heap nb_bytes (seg + 1) }
      else Some (Ret None, heap))"
  by pat_completeness auto
termination by (relation "measure (\<lambda>(heap, nb_bytes, seg). nb_segs heap * NB_SUB_SEGMENTS - seg)") auto

declare alloc_loop.simps [simp del]

definition size_too_big :: "nat \<Rightarrow> bool" where
  "size_too_big n =
     (n > MAX_BLOCK_SIZE - (PAYLOAD_ALIGNEMENT - 1 + ALLOC_CHUNK_HEADER_SIZE + PAYLOAD_ALIGNEMENT))"

definition mem_alloc :: "heap_t \<Rightarrow> nat \<Rightarrow> (nat option mem_out \<times> heap_t) option" where
  "mem_alloc heap nb_bytes =
     (if nb_bytes = 0 then Some (Ret None, heap)
      else if size_too_big nb_bytes then Some (Ret None, heap)
      else do {
        let nb_bytes = align_alloc_size nb_bytes;
        seg \<leftarrow> seglist_index_up heap nb_bytes;
        (case seg of None \<Rightarrow> Some (Ret None, heap) | Some seg \<Rightarrow> alloc_loop heap nb_bytes seg) })"

definition mem_free :: "heap_t \<Rightarrow> nat \<Rightarrow> (unit mem_out \<times> heap_t) option" where
  "mem_free heap ptr = do {
     let block = ptr - ALLOC_CHUNK_HEADER_SIZE;
     valid \<leftarrow> ensure_chunk_valid heap block;
     if \<not> valid then Some (Throw_EXCEPTION_CORRUPT, heap)
     else do {
       c \<leftarrow> hd_ld heap block;
       if \<not> h_allocated c then Some (Ret (), heap)
       else do {
         (r, heap) \<leftarrow> (if block + h_size c < heap_end heap then coalesce heap block (block + h_size c) else Some (Ret block, heap));
         (case r of
            Throw_EXCEPTION_CORRUPT \<Rightarrow> Some (Throw_EXCEPTION_CORRUPT, heap)
          | Ret header \<Rightarrow> do {
              c \<leftarrow> hd_ld heap header;
              (r, heap) \<leftarrow> (if h_phys_prev c \<noteq> 0 then coalesce heap header (GET_PTR (h_phys_prev c)) else Some (Ret header, heap));
              (case r of
                 Throw_EXCEPTION_CORRUPT \<Rightarrow> Some (Throw_EXCEPTION_CORRUPT, heap)
               | Ret header \<Rightarrow> do { heap \<leftarrow> list_push heap header; Some (Ret (), heap) }) }) } } }"

text \<open>\<open>memcpy\<close> of \<open>n\<close> bytes between two payloads, which both start in the middle of a cell.  \<open>n\<close> is a multiple of four.\<close>

primrec copy_cells :: "(nat \<Rightarrow> header_t) \<Rightarrow> nat \<Rightarrow> nat \<Rightarrow> nat \<Rightarrow> (nat \<Rightarrow> header_t)" where
  "copy_cells m d s 0 = m"
| "copy_cells m d s (Suc k) = copy_cells (m(d := m s)) (d + 8) (s + 8) k"

definition copy_payload :: "heap_t \<Rightarrow> nat \<Rightarrow> nat \<Rightarrow> nat \<Rightarrow> heap_t option" where
  "copy_payload heap d s n =
     (if d + 4 + n > heap_end heap \<or> s + 4 + n > heap_end heap then None
      else if n = 0 then Some heap
      else let m = (mem heap)(d := (mem heap d)\<lparr>h_fprev := h_fprev (mem heap s), h_fnext := h_fnext (mem heap s)\<rparr>);
               k = (n - 4) div 8;
               m = copy_cells m (d + 8) (s + 8) k;
               d = d + 8 + 8 * k;
               s = s + 8 + 8 * k;
               m = (if (n - 4) mod 8 = 0 then m
                    else m(d := (m s)\<lparr>h_fprev := h_fprev (m d), h_fnext := h_fnext (m d)\<rparr>))
           in Some (heap\<lparr>mem := m\<rparr>))"

definition mem_realloc :: "heap_t \<Rightarrow> nat option \<Rightarrow> nat \<Rightarrow> (nat option mem_out \<times> heap_t) option" where
  "mem_realloc heap ptr sz =
     (case ptr of
        None \<Rightarrow> mem_alloc heap sz
      | Some p \<Rightarrow>
          if p < HEAP_HEADER_SIZE \<or> p \<ge> heap_end heap then Some (Ret None, heap)
          else if sz = 0 then do {
            (r, heap) \<leftarrow> mem_free heap p;
            Some (case r of Throw_EXCEPTION_CORRUPT \<Rightarrow> Throw_EXCEPTION_CORRUPT | Ret _ \<Rightarrow> Ret None, heap) }
          else if size_too_big sz then Some (Ret None, heap)
          else do {
            let block = p - ALLOC_CHUNK_HEADER_SIZE;
            valid \<leftarrow> ensure_chunk_valid heap block;
            if \<not> valid then Some (Throw_EXCEPTION_CORRUPT, heap)
            else do {
              c \<leftarrow> hd_ld heap block;
              let old_block_size = h_size c;
              let old_payload_size = old_block_size - ALLOC_CHUNK_HEADER_SIZE;
              let new_block_size = align_alloc_size sz;
              if old_payload_size \<ge> sz then do {
                let remainder = (old_block_size + 2 ^ 32 - new_block_size) mod 2 ^ 32;
                heap \<leftarrow> (if remainder \<ge> FREE_CHUNK_HEADER_SIZE then split_chunk heap block new_block_size else Some heap);
                Some (Ret (Some p), heap) }
              else do {
                (r, heap) \<leftarrow> mem_alloc heap sz;
                (case r of
                   Ret (Some new_ptr) \<Rightarrow> do {
                     heap \<leftarrow> copy_payload heap (new_ptr - ALLOC_CHUNK_HEADER_SIZE) block old_payload_size;
                     (r, heap) \<leftarrow> mem_free heap p;
                     Some (case r of Throw_EXCEPTION_CORRUPT \<Rightarrow> Throw_EXCEPTION_CORRUPT | Ret _ \<Rightarrow> Ret (Some new_ptr), heap) }
                 | _ \<Rightarrow> Some (r, heap)) } } })"

section \<open>Walking the heap\<close>

text \<open>\<open>mem_parse\<close>; the callback returns whether to stop.\<close>

partial_function (option) parse_loop :: "heap_t \<Rightarrow> ('d \<Rightarrow> nat \<Rightarrow> bool \<Rightarrow> nat \<Rightarrow> bool \<times> 'd) \<Rightarrow> nat \<Rightarrow> 'd \<Rightarrow> 'd option" where
  "parse_loop heap callback header data = do {
     c \<leftarrow> hd_ld heap header;
     let (stop, data) = callback data header (h_allocated c) (h_size c);
     if stop then Some data
     else if header + h_size c < heap_end heap then parse_loop heap callback (header + h_size c) data
     else Some data }"

definition mem_parse :: "heap_t \<Rightarrow> ('d \<Rightarrow> nat \<Rightarrow> bool \<Rightarrow> nat \<Rightarrow> bool \<times> 'd) \<Rightarrow> 'd \<Rightarrow> 'd option" where
  "mem_parse heap callback data = parse_loop heap callback HEAP_HEADER_SIZE data"

record mem_stat_t =
  total_size :: nat
  free_size :: nat
  allocated_size :: nat
  nb_chunks :: nat
  nb_allocated :: nat

definition parse_callback :: "mem_stat_t \<Rightarrow> nat \<Rightarrow> bool \<Rightarrow> nat \<Rightarrow> bool \<times> mem_stat_t" where
  "parse_callback stat addr allocated n =
     (if n = 0 then (True, stat)
      else
        let stat = stat\<lparr>nb_chunks := nb_chunks stat + 1\<rparr>;
            stat = (if allocated then stat\<lparr>nb_allocated := nb_allocated stat + 1, allocated_size := allocated_size stat + n\<rparr>
                    else stat\<lparr>free_size := free_size stat + n\<rparr>)
        in (False, stat\<lparr>total_size := total_size stat + n\<rparr>))"

definition mem_stat :: "heap_t \<Rightarrow> mem_stat_t option" where
  "mem_stat heap =
     mem_parse heap parse_callback
       \<lparr>total_size = HEAP_HEADER_SIZE, free_size = 0, allocated_size = 0, nb_chunks = 0, nb_allocated = 0\<rparr>"

section \<open>The application heap\<close>

text \<open>\<^verbatim>\<open>lib_alloc/app_mem_utils.c\<close>: the static \<open>mem_utils_ctx\<close> is the first argument; without a context the calls access NULL.
  The logging and the zeroing and string copies of \<open>mem_utils_calloc\<close> and \<open>mem_utils_strdup\<close> are left out.\<close>

definition mem_utils_init :: "(nat \<Rightarrow> header_t) \<Rightarrow> nat list \<Rightarrow> nat \<Rightarrow> (bool \<times> heap_t option) option" where
  "mem_utils_init m segs heap_size = do { ctx \<leftarrow> mem_init m segs heap_size; Some (ctx \<noteq> None, ctx) }"

definition mem_utils_alloc :: "heap_t option \<Rightarrow> nat \<Rightarrow> (nat option mem_out \<times> heap_t) option" where
  "mem_utils_alloc ctx n = do { heap \<leftarrow> ctx; mem_alloc heap n }"

definition mem_utils_realloc :: "heap_t option \<Rightarrow> nat option \<Rightarrow> nat \<Rightarrow> (nat option mem_out \<times> heap_t) option" where
  "mem_utils_realloc ctx ptr n = do { heap \<leftarrow> ctx; mem_realloc heap ptr n }"

definition mem_utils_free :: "heap_t option \<Rightarrow> nat option \<Rightarrow> (unit mem_out \<times> heap_t option) option" where
  "mem_utils_free ctx ptr =
     (case ptr of None \<Rightarrow> Some (Ret (), ctx)
      | Some p \<Rightarrow> do { heap \<leftarrow> ctx; (r, heap) \<leftarrow> mem_free heap p; Some (r, Some heap) })"

definition mem_utils_free_and_null :: "heap_t option \<Rightarrow> nat option \<Rightarrow> (unit mem_out \<times> nat option \<times> heap_t option) option" where
  "mem_utils_free_and_null ctx buffer =
     (if buffer \<noteq> None then do {
        (r, ctx) \<leftarrow> mem_utils_free ctx buffer;
        Some (case r of Throw_EXCEPTION_CORRUPT \<Rightarrow> (Throw_EXCEPTION_CORRUPT, buffer, ctx) | Ret _ \<Rightarrow> (Ret (), None, ctx)) }
      else Some (Ret (), buffer, ctx))"

end
