(* ===== verification/Mem_Alloc_Inv.thy ===== *)
theory Mem_Alloc_Inv
  imports Mem_Alloc
begin

text \<open>
The invariant of the allocator and its preservation by every operation: the size classes, the doubly linked free lists, the sequence
of chunks that covers the heap, and the merging, splitting, allocation, release and resizing of chunks.  \<open>heap_wf X cs F h\<close> says that
the chunks of the heap \<open>h\<close> start at \<open>cs\<close>, that \<open>F\<close> lists the free chunks of each size class, and that the chunks in \<open>X\<close> are being
worked on and are in no list.
\<close>

section \<open>Buckets\<close>

text \<open>\<open>align_alloc_size\<close> rounds the payload and its header up to a multiple of eight.\<close>

lemma align_alloc_size_eq: "align_alloc_size n = 8 * ((n + 11) div 8)"
proof -
  define u where "u = (n + 3) div 4"
  have a: "n + (4 - 1) - (n + (4 - 1)) mod 4 = 4 * u" by (simp add: u_def minus_mod_eq_mult_div)
  have "(n + 11) div 8 = (n + 3) div 8 + 1" by simp
  also have "(n + 3) div 8 = u div 2" by (simp add: u_def div_mult2_eq [symmetric])
  finally have b: "(n + 11) div 8 = u div 2 + 1" .
  obtain k where "u = 2 * k \<or> u = 2 * k + 1" by (metis oddE evenE)
  then show ?thesis
    unfolding align_alloc_size_def mem_consts Let_def a b by (auto simp: mod_mult_self4)
qed

lemma align_alloc_size_bounds:
  "align_alloc_size n mod 8 = 0" "n + 4 \<le> align_alloc_size n" "align_alloc_size n \<le> n + 11"
  unfolding align_alloc_size_eq by (simp, linarith, linarith)

lemma msb_idx_bounds: "0 < n \<Longrightarrow> 2 ^ msb_idx n \<le> n \<and> n < 2 * 2 ^ msb_idx n"
proof (induction n rule: msb_idx.induct)
  case (1 n)
  show ?case
  proof (cases "n < 2")
    case True
    then show ?thesis using 1(2) by (simp add: msb_idx.simps)
  next
    case False
    then have "2 ^ msb_idx (n div 2) \<le> n div 2 \<and> n div 2 < 2 * 2 ^ msb_idx (n div 2)" using 1 by simp
    moreover have "msb_idx n = Suc (msb_idx (n div 2))" using False by (subst msb_idx.simps) simp
    ultimately show ?thesis by auto
  qed
qed

lemma msb_idx_unique: "2 ^ k \<le> n \<Longrightarrow> n < 2 * 2 ^ k \<Longrightarrow> msb_idx n = k"
proof -
  assume k: "2 ^ k \<le> n" "n < 2 * 2 ^ k"
  then have "0 < n" using less_le_trans [of 0 "2 ^ k" n] by simp
  note b = msb_idx_bounds [OF this]
  have "(2 :: nat) ^ k < 2 ^ Suc (msb_idx n)" "(2 :: nat) ^ msb_idx n < 2 ^ Suc k" using b k by auto
  then have "k < Suc (msb_idx n) \<and> msb_idx n < Suc k"
    using power_less_imp_less_exp [of "2 :: nat" k "Suc (msb_idx n)"] power_less_imp_less_exp [of "2 :: nat" "msb_idx n" "Suc k"] by simp
  then show ?thesis by simp
qed

lemma msb_idx_mono: "0 < m \<Longrightarrow> m \<le> n \<Longrightarrow> msb_idx m \<le> msb_idx n"
proof -
  assume "0 < m" "m \<le> n"
  then have "(2 :: nat) ^ msb_idx m < 2 ^ Suc (msb_idx n)" using msb_idx_bounds [of m] msb_idx_bounds [of n] by simp
  then have "msb_idx m < Suc (msb_idx n)" by (rule power_less_imp_less_exp [rotated]) simp
  then show ?thesis by simp
qed

definition seg_of :: "nat \<Rightarrow> nat" where
  "seg_of n = max 5 (msb_idx n)"

definition bucket :: "nat \<Rightarrow> nat" where
  "bucket n = (seg_of n - 5) * 4 + (n div 2 ^ sub_segment_shift (seg_of n)) mod 4"

lemma GET_SEGMENT_eq: "0 < n \<Longrightarrow> n < 2 ^ 32 \<Longrightarrow> GET_SEGMENT n = Some (seg_of n)"
proof -
  assume "0 < n" "n < 2 ^ 32"
  then have "(2 :: nat) ^ msb_idx n < 2 ^ 32" using msb_idx_bounds [of n] by linarith
  then have "msb_idx n < 32" by (rule power_less_imp_less_exp [rotated]) simp
  then show ?thesis using \<open>0 < n\<close> by (simp add: GET_SEGMENT_def builtin_clz_def seg_of_def mem_consts)
qed

lemma seglist_index_eq:
  "0 < n \<Longrightarrow> n < 2 ^ 32 \<Longrightarrow> seglist_index h n = Some (if seg_of n - 5 \<ge> nb_segs h then None else Some (bucket n))"
  by (simp add: seglist_index_def GET_SEGMENT_eq bucket_def mem_consts)

lemma seg_of_bounds:
  assumes "0 < n"
  shows "5 \<le> seg_of n" "n < 2 * 2 ^ seg_of n" "seg_of n > 5 \<Longrightarrow> 2 ^ seg_of n \<le> n"
proof -
  note b = msb_idx_bounds [OF assms]
  have "(2 :: nat) ^ msb_idx n \<le> 2 ^ seg_of n" by (rule power_increasing) (auto simp: seg_of_def)
  then show "n < 2 * 2 ^ seg_of n" using b by linarith
  show "5 \<le> seg_of n" "seg_of n > 5 \<Longrightarrow> 2 ^ seg_of n \<le> n" using b by (auto simp: seg_of_def max_def split: if_splits)
qed

text \<open>The quotient by the size of a sub-segment is 0 to 3 in the first segment and 4 to 7 in the others.\<close>

lemma sub_quotient:
  assumes "0 < n"
  shows "seg_of n = 5 \<Longrightarrow> n div 2 ^ sub_segment_shift (seg_of n) < 4"
    "seg_of n > 5 \<Longrightarrow> 4 \<le> n div 2 ^ sub_segment_shift (seg_of n) \<and> n div 2 ^ sub_segment_shift (seg_of n) < 8"
proof -
  note b = seg_of_bounds [OF assms]
  show "n div 2 ^ sub_segment_shift (seg_of n) < 4" if "seg_of n = 5"
    using b(2) that by (simp add: sub_segment_shift_def mem_consts div_less_iff_less_mult)
  assume g: "seg_of n > 5"
  define k where "k = seg_of n - 2"
  have s: "seg_of n = k + 2" "sub_segment_shift (seg_of n) = k" using g by (auto simp: k_def sub_segment_shift_def mem_consts)
  have "4 * 2 ^ k \<le> n" "n < 8 * 2 ^ k" using b(2) b(3) [OF g] by (simp_all add: s power_add)
  then show "4 \<le> n div 2 ^ sub_segment_shift (seg_of n) \<and> n div 2 ^ sub_segment_shift (seg_of n) < 8"
    unfolding s(2) by (simp add: less_eq_div_iff_mult_less_eq div_less_iff_less_mult)
qed

text \<open>A size that is a multiple of the size of its sub-segment is the least one of its bucket.\<close>

lemma bucket_least:
  assumes "0 < m" "0 < r" "r mod 2 ^ sub_segment_shift (seg_of r) = 0" "bucket r \<le> bucket m"
  shows "r \<le> m"
proof (rule ccontr)
  assume "\<not> r \<le> m"
  then have g: "seg_of m \<le> seg_of r" using msb_idx_mono [OF assms(1), of r] by (simp add: seg_of_def max_def)
  let ?q = "\<lambda>n. n div 2 ^ sub_segment_shift (seg_of n)"
  have s: "seg_of m = seg_of r"
  proof (rule ccontr)
    assume "seg_of m \<noteq> seg_of r"
    then have "seg_of m < seg_of r" using g by simp
    moreover have "?q m mod 4 < 4" by simp
    ultimately have "bucket m < bucket r" using seg_of_bounds(1) [OF assms(1)] unfolding bucket_def by linarith
    then show False using assms(4) by simp
  qed
  have "?q r \<le> ?q m"
  proof (cases "seg_of r = 5")
    case True
    then show ?thesis using assms(4) sub_quotient(1) [OF assms(1)] sub_quotient(1) [OF assms(2)] s by (simp add: bucket_def)
  next
    case False
    then have "seg_of r > 5" using seg_of_bounds(1) [OF assms(2)] by simp
    then have "4 \<le> ?q r" "?q r < 8" "4 \<le> ?q m" "?q m < 8" "?q r mod 4 \<le> ?q m mod 4"
      using assms(4) sub_quotient(2) [OF assms(1)] sub_quotient(2) [OF assms(2)] s by (simp_all add: bucket_def)
    then show ?thesis by (simp add: mod_if split: if_splits)
  qed
  then have "?q r * 2 ^ sub_segment_shift (seg_of r) \<le> m"
    using s by (metis div_times_less_eq_dividend le_trans mult_le_mono1)
  moreover have "?q r * 2 ^ sub_segment_shift (seg_of r) = r" using assms(3) by (simp add: mod_0_imp_dvd)
  ultimately show False using \<open>\<not> r \<le> m\<close> by simp
qed

lemma shift_le: "5 \<le> g \<Longrightarrow> sub_segment_shift g \<le> g"
  by (simp add: sub_segment_shift_def)

lemma round_up_nat:
  fixes n d b :: nat
  assumes "0 < d" "n \<le> b" "b mod d = 0"
  defines "r \<equiv> n + (d - 1) - (n + (d - 1)) mod d"
  shows "n \<le> r" "r mod d = 0" "r \<le> b"
proof -
  have e: "r = d * ((n + (d - 1)) div d)" by (simp add: r_def minus_mod_eq_mult_div)
  then show "r mod d = 0" by simp
  have "(n + (d - 1)) mod d < d" using assms(1) by (rule mod_less_divisor)
  then show "n \<le> r" using assms(1) unfolding r_def by linarith
  have "b = d * (b div d)" using assms(3) by (metis mult_div_mod_eq add.right_neutral)
  moreover have "(n + (d - 1)) div d \<le> (b + (d - 1)) div d" using assms(2) by (intro div_le_mono) simp
  moreover have "(b + (d - 1)) div d = b div d"
  proof -
    have "(d * (b div d) + (d - 1)) div d = b div d" using assms(1) by (intro div_nat_eqI) (auto simp: algebra_simps)
    then show ?thesis using \<open>b = d * (b div d)\<close> by simp
  qed
  ultimately show "r \<le> b" unfolding e by (metis mult_le_mono2)
qed

lemma seglist_index_up_eq:
  assumes "0 < n" "n < 2 ^ 15"
  obtains r where "n \<le> r" "r < 2 ^ 32" "r mod 2 ^ sub_segment_shift (seg_of r) = 0"
    "seglist_index_up h n = Some (if seg_of r - 5 \<ge> nb_segs h then None else Some (bucket r))"
proof -
  define g where "g = seg_of n"
  define d where "d = (2 :: nat) ^ sub_segment_shift g"
  define r where "r = n + (d - 1) - (n + (d - 1)) mod d"
  note b = seg_of_bounds [OF assms(1), folded g_def]
  have d: "0 < d" "(2 * 2 ^ g) mod d = 0"
    using dvd_mult [OF le_imp_power_dvd [OF shift_le [OF b(1)], of "2 :: nat"], of 2] by (auto simp: d_def)
  note rr = round_up_nat [OF d(1) less_imp_le [OF b(2)] d(2), folded r_def]
  have g15: "g < 15"
  proof (cases "g > 5")
    case True
    then have "(2 :: nat) ^ g < 2 ^ 15" using b(3) assms(2) by linarith
    then show ?thesis by (rule power_less_imp_less_exp [rotated]) simp
  qed simp
  have "(2 :: nat) ^ g \<le> 2 ^ 14" using g15 by (intro power_increasing) auto
  then have r32: "r < 2 ^ 32" using rr(3) by simp
  have r0: "0 < r" using rr(1) assms(1) by simp
  have dv: "r mod 2 ^ sub_segment_shift (seg_of r) = 0"
  proof (cases "seg_of r = g")
    case True
    then show ?thesis using rr(2) by (simp add: d_def)
  next
    case False
    have "seg_of r \<ge> g" using msb_idx_mono [OF assms(1) rr(1)] by (simp add: g_def seg_of_def)
    then have g1: "Suc g \<le> seg_of r" using False by simp
    moreover have "(2 :: nat) ^ seg_of r \<le> r" using seg_of_bounds(3) [OF r0] g1 b(1) by simp
    moreover have "(2 :: nat) ^ Suc g \<le> 2 ^ seg_of r" using g1 by (intro power_increasing) auto
    ultimately have "r = 2 ^ seg_of r" using rr(3) by simp
    then show ?thesis
      using le_imp_power_dvd [OF shift_le [OF seg_of_bounds(1) [OF r0]], of "2 :: nat"] by (metis mod_0_imp_dvd dvd_imp_mod_0)
  qed
  have "n < 2 ^ 32" using assms(2) by simp
  then have 1: "GET_SEGMENT n = Some g" using GET_SEGMENT_eq [OF assms(1)] by (simp add: g_def)
  have 2: "GET_SEGMENT (n + (2 ^ sub_segment_shift g - 1) - (n + (2 ^ sub_segment_shift g - 1)) mod 2 ^ sub_segment_shift g) =
      Some (seg_of r)"
    using GET_SEGMENT_eq [OF r0 r32] unfolding r_def d_def .
  have "seglist_index_up h n = Some (if seg_of r - 5 \<ge> nb_segs h then None else Some (bucket r))"
    unfolding seglist_index_up_def Let_def 1 bind.bind_lunit 2 bucket_def NB_LINEAR_SEGMENTS_def NB_SUB_SEGMENTS_def
    unfolding r_def d_def by (rule refl)
  then show ?thesis by (rule that [OF rr(1) r32 dv])
qed

lemma bucket_bound: "0 < n \<Longrightarrow> seg_of n - 5 < k \<longleftrightarrow> bucket n < k * 4"
  unfolding bucket_def by auto

text \<open>The buckets of the sizes up to the size of the heap are used.\<close>

lemma seg_of_less:
  assumes "0 < n" "n < 2 ^ (k + 5)" "0 < k"
  shows "seg_of n - 5 < k"
proof (cases "seg_of n > 5")
  case True
  then have "(2 :: nat) ^ seg_of n < 2 ^ (k + 5)" using seg_of_bounds(3) [OF assms(1)] assms(2) by linarith
  then have "seg_of n < k + 5" by (rule power_less_imp_less_exp [rotated]) simp
  then show ?thesis using assms(3) by simp
qed (use assms in simp)

section \<open>Free lists\<close>

text \<open>\<open>links m p x xs e\<close>: from the index \<open>x\<close> the headers at \<open>xs\<close> are chained by \<open>fnext\<close>, up to the index \<open>e\<close>, and back by
  \<open>fprev\<close>, the first one to \<open>p\<close>.\<close>

fun links :: "(nat \<Rightarrow> header_t) \<Rightarrow> nat \<Rightarrow> nat \<Rightarrow> nat list \<Rightarrow> nat \<Rightarrow> bool" where
  "links m p x [] e = (x = e)"
| "links m p x (y # ys) e = (x = y div 8 \<and> h_fprev (m y) = p div 8 \<and> links m y (h_fnext (m y)) ys e)"

lemma links_append: "links m p x (xs @ ys) e \<longleftrightarrow> (\<exists>k. links m p x xs k \<and> links m (last (p # xs)) k ys e)"
  by (induction xs arbitrary: p x) auto

lemma links_cong:
  "(\<And>y. y \<in> set xs \<Longrightarrow> h_fprev (m' y) = h_fprev (m y) \<and> h_fnext (m' y) = h_fnext (m y)) \<Longrightarrow>
     links m' p x xs e = links m p x xs e"
  by (induction xs arbitrary: p x) auto

lemma links_upd [simp]: "a \<notin> set xs \<Longrightarrow> links (m(a := v)) p x xs e = links m p x xs e"
  by (rule links_cong) auto

definition same_headers :: "heap_t \<Rightarrow> heap_t \<Rightarrow> bool" where
  "same_headers h h' =
     (heap_end h' = heap_end h \<and> nb_segs h' = nb_segs h \<and>
      (\<forall>y. h_size (mem h' y) = h_size (mem h y) \<and> h_phys_prev (mem h' y) = h_phys_prev (mem h y)))"

lemma aligned_idx: "a mod 8 = 0 \<Longrightarrow> GET_PTR (a div 8) = a"
  by (simp add: GET_PTR_def mod_eq_0_iff_dvd)

lemma hd_ok_idx: "hd_ok h a \<Longrightarrow> GET_PTR (a div 8) = a \<and> a div 8 \<noteq> 0"
  by (auto simp: hd_ok_def HEAP_HEADER_SIZE_def aligned_idx)

lemma hd_ok_inj: "hd_ok h a \<Longrightarrow> hd_ok h b \<Longrightarrow> a div 8 = b div 8 \<longleftrightarrow> a = b"
  using hd_ok_idx by metis

lemma hd_ok_upd [simp]:
  "hd_ok (h\<lparr>mem := m\<rparr>) a = hd_ok h a" "hd_ok (h\<lparr>free_segments := fs\<rparr>) a = hd_ok h a"
  by (simp_all add: hd_ok_def)

lemma links_next:
  assumes "links m c x bs 0" "\<forall>y\<in>set bs. hd_ok h y"
  shows "x = 0 \<longleftrightarrow> bs = []" "bs \<noteq> [] \<Longrightarrow> GET_PTR x = hd bs"
  using assms hd_ok_idx by (cases bs; fastforce)+

lemma seg_remove_first:
  assumes "s < length (free_segments h)" "links (mem h) 0 (free_segments h ! s) (c # bs) 0"
    and "distinct (c # bs)" "\<forall>y\<in>set (c # bs). hd_ok h y"
  shows "\<exists>h' x. seg_remove h s (c div 8) = Some h' \<and> same_headers h h' \<and> free_segments h' = (free_segments h)[s := x] \<and>
     links (mem h') 0 x bs 0 \<and> (\<forall>y. y \<notin> set bs \<longrightarrow> mem h' y = mem h y) \<and> (\<forall>y. h_allocated (mem h' y) = h_allocated (mem h y))"
proof -
  let ?x = "h_fnext (mem h c)"
  have l: "free_segments h ! s = c div 8" "links (mem h) c ?x bs 0" using assms(2) by auto
  have c: "hd_ld h (GET_PTR (c div 8)) = Some (mem h c)" using assms(4) hd_ok_idx [of h c] by (simp add: hd_ld_def)
  define h1 where "h1 = h\<lparr>free_segments := (free_segments h)[s := ?x]\<rparr>"
  have s: "set_seg h s ?x = Some h1" using assms(1) by (simp add: set_seg_def st_def h1_def)
  show ?thesis
  proof (cases bs)
    case Nil
    then have "?x = 0" using l(2) by simp
    then have "seg_remove h s (c div 8) = Some h1" using l c s assms(1) by (simp add: seg_remove_def ld_def)
    then show ?thesis using Nil by (intro exI [of _ h1] exI [of _ ?x]) (auto simp: h1_def same_headers_def \<open>?x = 0\<close>)
  next
    case (Cons b bs')
    have b: "GET_PTR ?x = b" "?x \<noteq> 0" "hd_ok h b" using links_next [OF l(2), of h] assms(4) Cons by auto
    define h2 where "h2 = h1\<lparr>mem := (mem h1)(b := (mem h1 b)\<lparr>h_fprev := 0\<rparr>)\<rparr>"
    have "hd_upd h1 b (\<lambda>c. c\<lparr>h_fprev := 0\<rparr>) = Some h2" using b(3) by (simp add: hd_upd_def h2_def h1_def)
    then have "seg_remove h s (c div 8) = Some h2" using l c s assms(1) b(1,2) by (simp add: seg_remove_def ld_def)
    moreover have "links (mem h2) 0 ?x bs 0"
      using l(2) assms(3) Cons by (auto simp: h2_def h1_def)
    ultimately show ?thesis using Cons
      by (intro exI [of _ h2] exI [of _ ?x]) (auto simp: h1_def h2_def same_headers_def)
  qed
qed

lemma seg_remove_inner:
  assumes "s < length (free_segments h)" "links (mem h) 0 (free_segments h ! s) (as @ a # c # bs) 0"
    and "distinct (as @ a # c # bs)" "\<forall>y\<in>set (as @ a # c # bs). hd_ok h y"
  shows "\<exists>h'. seg_remove h s (c div 8) = Some h' \<and> same_headers h h' \<and> free_segments h' = free_segments h \<and>
     links (mem h') 0 (free_segments h ! s) (as @ a # bs) 0 \<and> (\<forall>y. y \<notin> set (as @ a # bs) \<longrightarrow> mem h' y = mem h y) \<and>
     (\<forall>y. h_allocated (mem h' y) = h_allocated (mem h y))"
proof -
  let ?x = "free_segments h ! s" and ?f = "h_fnext (mem h c)"
  obtain k where k: "links (mem h) 0 ?x as k" "k = a div 8" "h_fprev (mem h a) = last (0 # as) div 8"
      "h_fnext (mem h a) = c div 8" "h_fprev (mem h c) = a div 8" "links (mem h) c ?f bs 0"
    using assms(2) by (auto simp: links_append)
  have ok: "hd_ok h a" "hd_ok h c" "GET_PTR (a div 8) = a" "a div 8 \<noteq> 0" "GET_PTR (c div 8) = c" "a \<noteq> c"
    using assms(3,4) hd_ok_idx by auto
  have ne: "?x \<noteq> c div 8"
  proof (cases as)
    case Nil
    then show ?thesis using k(1,2) ok hd_ok_inj [OF ok(1,2)] by simp
  next
    case (Cons z zs)
    then show ?thesis using k(1) ok assms(3,4) hd_ok_inj [of h z c] by auto
  qed
  define h1 where "h1 = h\<lparr>mem := (mem h)(a := (mem h a)\<lparr>h_fnext := ?f\<rparr>)\<rparr>"
  have u1: "hd_upd h (GET_PTR (h_fprev (mem h c))) (\<lambda>c. c\<lparr>h_fnext := ?f\<rparr>) = Some h1"
    using ok k(5) by (simp add: hd_upd_def h1_def)
  have c1: "hd_ld h1 (GET_PTR (c div 8)) = Some (mem h c)" using ok by (simp add: hd_ld_def h1_def)
  have las: "links (mem h1) 0 ?x as (a div 8)"
    using k(1,2) assms(3) by (auto simp: h1_def)
  have c0: "hd_ld h (GET_PTR (c div 8)) = Some (mem h c)" using ok by (simp add: hd_ld_def)
  show ?thesis
  proof (cases bs)
    case Nil
    then have "seg_remove h s (c div 8) = Some h1"
      using k(5,6) c0 c1 u1 assms(1) ne ok(4) by (simp add: seg_remove_def ld_def)
    moreover have "links (mem h1) 0 ?x (as @ a # bs) 0"
      using las k(3,6) Nil by (auto simp: links_append h1_def)
    ultimately show ?thesis by (intro exI [of _ h1]) (auto simp: h1_def same_headers_def)
  next
    case (Cons b bs')
    have b: "GET_PTR ?f = b" "?f \<noteq> 0" "hd_ok h b" using links_next [OF k(6), of h] assms(4) Cons by auto
    have d: "b \<noteq> a" "b \<noteq> c" "b \<notin> set as" "b \<notin> set bs'" "a \<notin> set bs'" using assms(3) Cons by auto
    define h2 where "h2 = h1\<lparr>mem := (mem h1)(b := (mem h1 b)\<lparr>h_fprev := a div 8\<rparr>)\<rparr>"
    have "hd_upd h1 b (\<lambda>x. x\<lparr>h_fprev := h_fprev (mem h c)\<rparr>) = Some h2" using b(3) k(5) by (simp add: hd_upd_def h2_def h1_def)
    then have "seg_remove h s (c div 8) = Some h2"
      using k(5) c0 c1 u1 assms(1) ne ok(4) b(1,2) by (simp add: seg_remove_def ld_def)
    moreover have "links (mem h2) 0 ?x as (a div 8)" using las d(3) by (auto simp: h2_def)
    moreover have "links (mem h2) b (h_fnext (mem h b)) bs' 0"
      using k(6) Cons d(4,5) by (auto simp: h2_def h1_def)
    ultimately show ?thesis using Cons d k(3,6)
      by (intro exI [of _ h2]) (auto simp: h1_def h2_def same_headers_def links_append)
  qed
qed

lemma seg_remove_links:
  assumes "s < length (free_segments h)" "links (mem h) 0 (free_segments h ! s) xs 0"
    and "distinct xs" "\<forall>y\<in>set xs. hd_ok h y" "c \<in> set xs"
  shows "\<exists>h' x. seg_remove h s (c div 8) = Some h' \<and> same_headers h h' \<and> free_segments h' = (free_segments h)[s := x] \<and>
     links (mem h') 0 x (remove1 c xs) 0 \<and> (\<forall>y. y \<notin> set (remove1 c xs) \<longrightarrow> mem h' y = mem h y) \<and>
     (\<forall>y. h_allocated (mem h' y) = h_allocated (mem h y))"
proof -
  obtain as bs where xs: "xs = as @ c # bs" "c \<notin> set as" using assms(5) split_list_first by fast
  show ?thesis
  proof (cases as rule: rev_cases)
    case Nil
    then show ?thesis using seg_remove_first [of s h c bs] assms xs by simp
  next
    case (snoc as' a)
    have r: "remove1 c xs = as' @ a # bs" using xs snoc by (simp add: remove1_append)
    have "(free_segments h)[s := free_segments h ! s] = free_segments h" by simp
    then show ?thesis using seg_remove_inner [of s h as' a c bs] assms xs snoc unfolding r by (metis append.assoc append_Cons append_Nil)
  qed
qed

text \<open>The free lists of the heap.  \<open>C\<close> are the chunks; those of \<open>X\<close> are in no list yet (or not any more), and the
  others are in the list of their size exactly when they are free.\<close>

definition free_lists :: "nat set \<Rightarrow> nat set \<Rightarrow> (nat \<Rightarrow> nat list) \<Rightarrow> heap_t \<Rightarrow> bool" where
  "free_lists X C F h =
     (length (free_segments h) = 40 \<and> nb_segs h \<le> 10 \<and> heap_end h < 2 ^ 16 \<and> (\<forall>c\<in>C. hd_ok h c) \<and>
      (\<forall>s < nb_segs h * 4. distinct (F s) \<and> links (mem h) 0 (free_segments h ! s) (F s) 0 \<and>
        set (F s) = {c \<in> C. c \<notin> X \<and> \<not> h_allocated (mem h c) \<and> bucket (h_size (mem h c)) = s}))"

lemma free_listsD:
  assumes "free_lists X C F h"
  shows "length (free_segments h) = 40" "nb_segs h \<le> 10" "heap_end h < 2 ^ 16" "c \<in> C \<Longrightarrow> hd_ok h c"
    "s < nb_segs h * 4 \<Longrightarrow> distinct (F s)" "s < nb_segs h * 4 \<Longrightarrow> links (mem h) 0 (free_segments h ! s) (F s) 0"
    "s < nb_segs h * 4 \<Longrightarrow> set (F s) = {c \<in> C. c \<notin> X \<and> \<not> h_allocated (mem h c) \<and> bucket (h_size (mem h c)) = s}"
  using assms by (auto simp: free_lists_def)

text \<open>A step leaves alone every cell that is not a free chunk of a list.\<close>

definition only_free :: "nat set \<Rightarrow> nat set \<Rightarrow> heap_t \<Rightarrow> heap_t \<Rightarrow> bool" where
  "only_free X C h h' = (\<forall>y. y \<in> C \<and> y \<notin> X \<and> \<not> h_allocated (mem h y) \<or> mem h' y = mem h y)"

lemma seg_remove_free:
  assumes f: "free_lists X C F h" and c: "c \<in> C" "c \<notin> X" "\<not> h_allocated (mem h c)"
    and s: "s = bucket (h_size (mem h c))" "s < nb_segs h * 4"
  shows "\<exists>h'. seg_remove h s (c div 8) = Some h' \<and> same_headers h h' \<and> only_free X C h h' \<and>
     (\<forall>y. h_allocated (mem h' y) = h_allocated (mem h y)) \<and> free_lists (insert c X) C (F(s := remove1 c (F s))) h'"
proof -
  note D = free_listsD [OF f]
  have cF: "c \<in> set (F s)" using D(7) [OF s(2)] c s(1) by simp
  have "s < 40" using D(2) s(2) by simp
  then obtain h' x where h': "seg_remove h s (c div 8) = Some h'" "same_headers h h'" "free_segments h' = (free_segments h)[s := x]"
      "links (mem h') 0 x (remove1 c (F s)) 0" "\<forall>y. y \<notin> set (remove1 c (F s)) \<longrightarrow> mem h' y = mem h y"
      "\<forall>y. h_allocated (mem h' y) = h_allocated (mem h y)"
    using seg_remove_links [OF _ D(6) [OF s(2)] D(5) [OF s(2)] _ cF] D(1,4,7) s(2) by auto
  have sz: "h_size (mem h' y) = h_size (mem h y)" "nb_segs h' = nb_segs h" "heap_end h' = heap_end h" for y
    using h'(2) by (auto simp: same_headers_def)
  have "links (mem h') 0 (free_segments h' ! t) ((F(s := remove1 c (F s))) t) 0 \<and> distinct ((F(s := remove1 c (F s))) t) \<and>
      set ((F(s := remove1 c (F s))) t) = {d \<in> C. d \<notin> insert c X \<and> \<not> h_allocated (mem h' d) \<and> bucket (h_size (mem h' d)) = t}"
    if t: "t < nb_segs h * 4" for t
  proof (cases "t = s")
    case True
    then show ?thesis using h'(3,4,6) D(1) D(5,7) [OF t] \<open>s < 40\<close> by (auto simp: sz)
  next
    case False
    then have "mem h' y = mem h y" if "y \<in> set (F t)" for y
      using h'(5) D(5,7) [OF t] D(5,7) [OF s(2)] that by auto
    then have "links (mem h') 0 (free_segments h ! t) (F t) 0 = links (mem h) 0 (free_segments h ! t) (F t) 0"
      by (intro links_cong) simp
    then show ?thesis using False h'(3,6) D(5,6,7) [OF t] s(1) by (auto simp: sz)
  qed
  moreover have "only_free X C h h'" using h'(5) D(5,7) [OF s(2)] by (auto simp: only_free_def dest: notin_set_remove1)
  ultimately show ?thesis
    using h'(1,2,6) D(1-4) by (auto simp: free_lists_def sz h'(3) hd_ok_def)
qed

lemma list_push_free:
  assumes f: "free_lists (insert c X) C F h" and c: "c \<in> C" "c \<notin> X"
    and s: "s = bucket (h_size (mem h c))" "s < nb_segs h * 4" "0 < h_size (mem h c)" "h_size (mem h c) < 2 ^ 32"
  shows "\<exists>h'. list_push h c = Some h' \<and> same_headers h h' \<and> only_free X C (h\<lparr>mem := (mem h)(c := (mem h c)\<lparr>h_allocated := False\<rparr>)\<rparr>) h' \<and>
     (\<forall>y. h_allocated (mem h' y) = (y \<noteq> c \<and> h_allocated (mem h y))) \<and> free_lists X C (F(s := c # F s)) h'"
proof -
  note D = free_listsD [OF f]
  have ok: "hd_ok h c" using D(4) c(1) by simp
  have s40: "s < 40" using D(2) s(2) by simp
  have "seg_of (h_size (mem h c)) - 5 < nb_segs h" using s bucket_bound by blast
  then have ix: "seglist_index h (h_size (mem h c)) = Some (Some s)" using seglist_index_eq [OF s(3,4), of h] s(1) by simp
  let ?x = "free_segments h ! s"
  have cF: "c \<notin> set (F s)" using D(7) [OF s(2)] by simp
  have okF: "\<forall>y\<in>set (F s). hd_ok h y" using D(4,7) s(2) by auto
  have lF: "links (mem h) 0 ?x (F s) 0" using D(6) [OF s(2)] .
  have ne: "?x \<noteq> c div 8"
    using lF okF cF hd_ok_idx [OF ok] hd_ok_inj [OF _ ok] by (cases "F s") fastforce+
  have "c div 8 \<le> c" by simp
  then have ci: "c div 8 mod 2 ^ 16 = c div 8" using ok D(3) unfolding hd_ok_def by (intro mod_less) linarith
  define h1 where "h1 = h\<lparr>mem := (mem h)(c := (mem h c)\<lparr>h_fnext := ?x, h_fprev := 0, h_allocated := False\<rparr>)\<rparr>"
  have u1: "hd_upd h c (\<lambda>c. c\<lparr>h_fnext := ?x, h_fprev := 0, h_allocated := False\<rparr>) = Some h1"
    using ok by (simp add: hd_upd_def h1_def)
  define h2 where "h2 = (if F s = [] then h1 else h1\<lparr>mem := (mem h1)(hd (F s) := (mem h1 (hd (F s)))\<lparr>h_fprev := c div 8\<rparr>)\<rparr>)"
  have u2: "(if ?x \<noteq> 0 then hd_upd h1 (GET_PTR ?x) (\<lambda>d. d\<lparr>h_fprev := c div 8\<rparr>) else Some h1) = Some h2"
    using links_next [OF lF okF] okF by (cases "F s") (auto simp: h2_def hd_upd_def h1_def)
  define h3 where "h3 = h2\<lparr>free_segments := (free_segments h)[s := c div 8]\<rparr>"
  have fs2: "free_segments h2 = free_segments h" by (simp add: h2_def h1_def)
  have u3: "set_seg h2 s (c div 8) = Some h3"
    using D(1) s40 by (simp add: set_seg_def st_def h3_def fs2)
  have p: "list_push h c = Some h3"
    using ok ix u1 u2 u3 D(1) s40 ne ci
    by (simp add: list_push_def hd_ld_def ld_def GET_IDX_def split: if_splits)
  have m3: "mem h3 y = (if y = c then (mem h c)\<lparr>h_fnext := ?x, h_fprev := 0, h_allocated := False\<rparr>
      else if F s \<noteq> [] \<and> y = hd (F s) then (mem h y)\<lparr>h_fprev := c div 8\<rparr> else mem h y)" for y
    using cF by (cases "F s") (auto simp: h3_def h2_def h1_def)
  have sh: "same_headers h h3" by (auto simp: same_headers_def m3) (simp_all add: h3_def h2_def h1_def)
  have al: "h_allocated (mem h3 y) = (y \<noteq> c \<and> h_allocated (mem h y))" for y by (simp add: m3)
  have sz: "h_size (mem h3 y) = h_size (mem h y)" "nb_segs h3 = nb_segs h" "heap_end h3 = heap_end h" for y
    using sh by (auto simp: same_headers_def)
  have fs3: "free_segments h3 = (free_segments h)[s := c div 8]" by (simp add: h3_def)
  have "links (mem h3) 0 (free_segments h3 ! t) ((F(s := c # F s)) t) 0 \<and> distinct ((F(s := c # F s)) t) \<and>
      set ((F(s := c # F s)) t) = {d \<in> C. d \<notin> X \<and> \<not> h_allocated (mem h3 d) \<and> bucket (h_size (mem h3 d)) = t}"
    if t: "t < nb_segs h * 4" for t
  proof (cases "t = s")
    case True
    have "links (mem h3) c ?x (F s) 0"
    proof (cases "F s")
      case (Cons b bs)
      then have "links (mem h3) b (h_fnext (mem h b)) bs 0 = links (mem h) b (h_fnext (mem h b)) bs 0"
        using cF D(5) [OF s(2)] by (intro links_cong) (auto simp: m3)
      then show ?thesis using Cons lF cF by (auto simp: m3)
    qed (use lF in simp)
    moreover have "links (mem h3) 0 (c div 8) (c # F s) 0 = links (mem h3) c ?x (F s) 0" by (simp add: m3)
    ultimately show ?thesis using True D(1) D(5,7) [OF t] s40 cF c s(1) by (auto simp: sz al fs3)
  next
    case False
    have "mem h3 y = mem h y" if "y \<in> set (F t)" for y
    proof -
      have "y \<notin> set (F s)" "y \<noteq> c" using D(7) [OF t] D(7) [OF s(2)] that False by auto
      then show ?thesis by (cases "F s") (auto simp: m3)
    qed
    then have "links (mem h3) 0 (free_segments h ! t) (F t) 0 = links (mem h) 0 (free_segments h ! t) (F t) 0"
      by (intro links_cong) simp
    then show ?thesis using False D(5,6,7) [OF t] s(1) by (auto simp: sz al fs3)
  qed
  moreover have "only_free X C (h\<lparr>mem := (mem h)(c := (mem h c)\<lparr>h_allocated := False\<rparr>)\<rparr>) h3"
  proof -
    have "y \<in> C \<and> y \<notin> X \<and> \<not> h_allocated (mem h y)" if "F s \<noteq> []" "y = hd (F s)" for y
      using D(7) [OF s(2)] that hd_in_set [of "F s"] by auto
    then show ?thesis using c by (auto simp: only_free_def m3)
  qed
  ultimately show ?thesis
    using p sh al D(1-4) by (auto simp: free_lists_def sz fs3 hd_ok_def)
qed

section \<open>Chunks\<close>

text \<open>\<open>layout m e p a cs\<close>: from the address \<open>a\<close> to \<open>e\<close> the memory is cut into the chunks that start at \<open>cs\<close>; the one before
  \<open>a\<close> starts at \<open>p\<close> (0 when there is none).\<close>

fun layout :: "(nat \<Rightarrow> header_t) \<Rightarrow> nat \<Rightarrow> nat \<Rightarrow> nat \<Rightarrow> nat list \<Rightarrow> bool" where
  "layout m e p a [] = (a = e)"
| "layout m e p a (c # cs) =
     (c = a \<and> h_phys_prev (m a) = p div 8 \<and> 8 \<le> h_size (m a) \<and> h_size (m a) mod 8 = 0 \<and>
      layout m e a (a + h_size (m a)) cs)"

lemma layout_append: "layout m e p a (xs @ ys) \<longleftrightarrow> (\<exists>b. layout m b p a xs \<and> layout m e (last (p # xs)) b ys)"
  by (induction xs arbitrary: p a) auto

lemma layout_cong:
  "(\<And>y. y \<in> set cs \<Longrightarrow> h_size (m' y) = h_size (m y) \<and> h_phys_prev (m' y) = h_phys_prev (m y)) \<Longrightarrow>
     layout m' e p a cs = layout m e p a cs"
  by (induction cs arbitrary: p a) auto

lemma layout_upd [simp]: "y \<notin> set cs \<Longrightarrow> layout (m(y := v)) e p a cs = layout m e p a cs"
  by (rule layout_cong) auto

lemma layout_le: "layout m e p a cs \<Longrightarrow> a \<le> e \<and> (cs \<noteq> [] \<longrightarrow> a < e)"
  by (induction cs arbitrary: p a) fastforce+

lemma layout_chunk:
  "layout m e p a cs \<Longrightarrow> c \<in> set cs \<Longrightarrow>
     a \<le> c \<and> c + h_size (m c) \<le> e \<and> 8 \<le> h_size (m c) \<and> h_size (m c) mod 8 = 0 \<and> (a mod 8 = 0 \<longrightarrow> c mod 8 = 0)"
proof (induction cs arbitrary: p a)
  case (Cons d cs)
  show ?case
  proof (cases "c = d")
    case True
    then show ?thesis using Cons.prems layout_le [of m e a "a + h_size (m a)" cs] by auto
  next
    case False
    then show ?thesis using Cons.IH [of a "a + h_size (m a)"] Cons.prems by (auto simp: mod_add_eq [of a 8, symmetric])
  qed
qed simp

lemma layout_distinct: "layout m e p a cs \<Longrightarrow> distinct cs"
proof (induction cs arbitrary: p a)
  case (Cons d cs)
  then show ?case using layout_chunk [of m e a "a + h_size (m a)" cs a] by fastforce
qed simp

lemma layout_last: "layout m e p a (xs @ [x]) \<Longrightarrow> x + h_size (m x) = e"
  by (auto simp: layout_append)

text \<open>Two chunks do not overlap.\<close>

lemma layout_disjoint:
  "layout m e p a cs \<Longrightarrow> c \<in> set cs \<Longrightarrow> d \<in> set cs \<Longrightarrow> c < d \<Longrightarrow> c + h_size (m c) \<le> d"
proof (induction cs arbitrary: p a)
  case (Cons x cs)
  then show ?case
    using layout_chunk [of m e a "a + h_size (m a)" cs] by fastforce
qed simp

text \<open>The chunk after a change of its predecessor.\<close>

lemma layout_relink:
  assumes "layout m e p a cs"
  shows "layout (m(a := (m a)\<lparr>h_phys_prev := q div 8\<rparr>)) e q a cs"
proof (cases cs)
  case (Cons c cs')
  then have "a \<notin> set cs'" using layout_distinct [OF assms] assms by simp
  then show ?thesis using assms Cons by simp
qed (use assms in simp)

text \<open>The whole heap.\<close>

definition heap_wf :: "nat set \<Rightarrow> nat list \<Rightarrow> (nat \<Rightarrow> nat list) \<Rightarrow> heap_t \<Rightarrow> bool" where
  "heap_wf X cs F h =
     (layout (mem h) (heap_end h) 0 88 cs \<and> free_lists X (set cs) F h \<and> (heap_end h mod 8 = 0 \<and> 200 \<le> heap_end h) \<and>
      heap_end h \<le> 0x7FF8 + 88 \<and> 0 < nb_segs h \<and> heap_end h - 88 < 2 ^ (nb_segs h + 5))"

lemma heap_wfD:
  assumes "heap_wf X cs F h"
  shows "layout (mem h) (heap_end h) 0 88 cs" "free_lists X (set cs) F h" "heap_end h mod 8 = 0 \<and> 200 \<le> heap_end h"
    "heap_end h \<le> 0x7FF8 + 88" "0 < nb_segs h" "heap_end h - 88 < 2 ^ (nb_segs h + 5)"
  using assms by (auto simp: heap_wf_def)

lemma heap_chunk:
  assumes "heap_wf X cs F h" "c \<in> set cs"
  shows "hd_ok h c" "h_size (mem h c) mod 8 = 0" "8 \<le> h_size (mem h c)" "c + h_size (mem h c) \<le> heap_end h" "88 \<le> c"
    "c mod 8 = 0" "h_size (mem h c) < 2 ^ 15" "bucket (h_size (mem h c)) < nb_segs h * 4"
proof -
  note D = heap_wfD [OF assms(1)]
  have l: "88 \<le> c" "c + h_size (mem h c) \<le> heap_end h" "8 \<le> h_size (mem h c)" "h_size (mem h c) mod 8 = 0" "c mod 8 = 0"
    using layout_chunk [OF D(1) assms(2)] by auto
  then show "hd_ok h c" "h_size (mem h c) mod 8 = 0" "8 \<le> h_size (mem h c)" "c + h_size (mem h c) \<le> heap_end h" "88 \<le> c"
    "c mod 8 = 0" "h_size (mem h c) < 2 ^ 15" using D(4) by (auto simp: hd_ok_def HEAP_HEADER_SIZE_def)
  have "h_size (mem h c) < 2 ^ (nb_segs h + 5)" using l D(6) by linarith
  then show "bucket (h_size (mem h c)) < nb_segs h * 4"
    using seg_of_less [of "h_size (mem h c)" "nb_segs h"] bucket_bound [of "h_size (mem h c)" "nb_segs h"] l(3) D(5) by auto
qed

lemma chunk_valid:
  assumes "heap_wf X cs F h" "c \<in> set cs"
  shows "ensure_chunk_valid h c = Some True"
proof -
  note D = heap_wfD [OF assms(1)] and C = heap_chunk [OF assms]
  obtain as bs where cs: "cs = as @ c # bs" using assms(2) by (meson split_list)
  have l: "layout (mem h) c 0 88 as" "h_phys_prev (mem h c) = last (0 # as) div 8"
    using D(1) by (auto simp: cs layout_append)
  have "h_size (mem h c) mod 4 = 0" using C(2) by presburger
  moreover have "ensure_chunk_valid h c = Some True" if "as = []" "h_size (mem h c) mod 4 = 0"
    using C l that by (simp add: ensure_chunk_valid_def hd_ld_def mem_consts)
  moreover have "ensure_chunk_valid h c = Some True" if as: "as = as' @ [p]" and m4: "h_size (mem h c) mod 4 = 0" for as' p
  proof -
    have p: "p \<in> set cs" "p + h_size (mem h p) = c" using l(1) layout_last as cs by auto
    note P = heap_chunk [OF assms(1) p(1)]
    have "GET_PTR (h_phys_prev (mem h c)) = p" "h_phys_prev (mem h c) \<noteq> 0" using hd_ok_idx [OF P(1)] l(2) as by auto
    moreover have "p \<le> heap_end h" using P by linarith
    ultimately show ?thesis
      using C P m4 p(2) by (simp add: ensure_chunk_valid_def hd_ld_def mem_consts)
  qed
  ultimately show ?thesis by (cases as rule: rev_cases) auto
qed

text \<open>The live blocks other than those of \<open>X\<close> stay: their headers, their sizes and every byte of their payloads.\<close>

definition keeps :: "nat set \<Rightarrow> heap_t \<Rightarrow> nat list \<Rightarrow> heap_t \<Rightarrow> nat list \<Rightarrow> bool" where
  "keeps X h cs h' cs' =
     (\<forall>c\<in>set cs. h_allocated (mem h c) \<and> c \<notin> X \<longrightarrow>
        c \<in> set cs' \<and> h_allocated (mem h' c) \<and> h_size (mem h' c) = h_size (mem h c) \<and>
        h_fprev (mem h' c) = h_fprev (mem h c) \<and> h_fnext (mem h' c) = h_fnext (mem h c) \<and>
        (\<forall>y. c < y \<and> y < c + h_size (mem h c) \<longrightarrow> mem h' y = mem h y))"

text \<open>The live blocks.\<close>

definition live_in :: "heap_t \<Rightarrow> nat list \<Rightarrow> nat set" where
  "live_in h cs = {c \<in> set cs. h_allocated (mem h c)}"

lemma keeps_trans: "keeps X h cs h1 cs1 \<Longrightarrow> keeps X h1 cs1 h2 cs2 \<Longrightarrow> keeps X h cs h2 cs2"
  unfolding keeps_def by fastforce

lemma keeps_mono:
  "keeps X h cs h' cs' \<Longrightarrow> (\<And>c. c \<in> set cs \<Longrightarrow> h_allocated (mem h c) \<Longrightarrow> c \<in> X \<Longrightarrow> c \<in> Y) \<Longrightarrow> keeps Y h cs h' cs'"
  unfolding keeps_def by blast

lemma keepsI:
  assumes "layout (mem h) e 0 a cs"
    and "\<And>y. mem h' y = mem h y \<or> y \<in> set cs \<or> (\<exists>x\<in>X. x \<in> set cs \<and> x < y \<and> y < x + h_size (mem h x))"
    and "\<And>c. c \<in> set cs \<Longrightarrow> h_allocated (mem h c) \<Longrightarrow> c \<notin> X \<Longrightarrow>
        c \<in> set cs' \<and> h_allocated (mem h' c) \<and> h_size (mem h' c) = h_size (mem h c) \<and>
        h_fprev (mem h' c) = h_fprev (mem h c) \<and> h_fnext (mem h' c) = h_fnext (mem h c)"
  shows "keeps X h cs h' cs'"
  unfolding keeps_def
proof (intro ballI impI conjI allI)
  fix c y assume c: "c \<in> set cs" "h_allocated (mem h c) \<and> c \<notin> X" "c < y \<and> y < c + h_size (mem h c)"
  have "y \<notin> set cs" using layout_disjoint [OF assms(1) c(1), of y] c(3) by auto
  moreover have "\<not> (x < y \<and> y < x + h_size (mem h x))" if "x \<in> X" "x \<in> set cs" for x
    using layout_disjoint [OF assms(1) c(1) that(2)] layout_disjoint [OF assms(1) that(2) c(1)] c that by force
  ultimately show "mem h' y = mem h y" using assms(2) by blast
qed (use assms(3) in auto)

lemma free_lists_frame:
  assumes f: "free_lists X C F h" and C: "C' - X' = C - X" "\<And>c. c \<in> C' \<Longrightarrow> hd_ok h c"
    and h: "free_segments h' = free_segments h" "nb_segs h' = nb_segs h" "heap_end h' = heap_end h"
    and s: "\<And>y. y \<in> C - X \<Longrightarrow> h_allocated (mem h' y) = h_allocated (mem h y) \<and> h_size (mem h' y) = h_size (mem h y) \<and>
      h_fprev (mem h' y) = h_fprev (mem h y) \<and> h_fnext (mem h' y) = h_fnext (mem h y)"
  shows "free_lists X' C' F h'"
proof -
  note D = free_listsD [OF f]
  have "links (mem h') 0 (free_segments h' ! t) (F t) 0 \<and>
      set (F t) = {c \<in> C'. c \<notin> X' \<and> \<not> h_allocated (mem h' c) \<and> bucket (h_size (mem h' c)) = t}"
    if t: "t < nb_segs h * 4" for t
  proof -
    have "y \<in> C - X" if "y \<in> set (F t)" for y using D(7) [OF t] that by auto
    then have "links (mem h') 0 (free_segments h ! t) (F t) 0 = links (mem h) 0 (free_segments h ! t) (F t) 0"
      using s by (intro links_cong) blast
    moreover have "{c \<in> C'. c \<notin> X' \<and> \<not> h_allocated (mem h' c) \<and> bucket (h_size (mem h' c)) = t} =
        {c \<in> C. c \<notin> X \<and> \<not> h_allocated (mem h c) \<and> bucket (h_size (mem h c)) = t}"
      using C(1) s by (smt (verit) Collect_cong Diff_iff)
    ultimately show ?thesis using D(6,7) [OF t] h(1) by simp
  qed
  then show ?thesis using D(1-3,5) C(2) h by (auto simp: free_lists_def hd_ok_def)
qed

lemma idx16:
  assumes "heap_wf X cs F h" "a \<le> heap_end h"
  shows "GET_IDX a mod 2 ^ 16 = a div 8"
proof -
  have "a div 8 \<le> a" "a \<le> 0x7FF8 + 88" using heap_wfD(4) [OF assms(1)] assms(2) by auto
  then have "a div 8 < 2 ^ 16" by simp
  then show ?thesis by (simp add: GET_IDX_def)
qed

text \<open>The write of the back link of the next chunk, when there is one.\<close>

definition relink :: "nat \<Rightarrow> nat \<Rightarrow> nat \<Rightarrow> (nat \<Rightarrow> header_t) \<Rightarrow> (nat \<Rightarrow> header_t)" where
  "relink e nxt p m = (if nxt < e then m(nxt := (m nxt)\<lparr>h_phys_prev := p div 8\<rparr>) else m)"

lemma relink_other: "y \<noteq> nxt \<Longrightarrow> relink e nxt p m y = m y"
  and relink_fields: "h_size (relink e nxt p m y) = h_size (m y)" "h_allocated (relink e nxt p m y) = h_allocated (m y)"
    "h_fprev (relink e nxt p m y) = h_fprev (m y)" "h_fnext (relink e nxt p m y) = h_fnext (m y)"
  by (auto simp: relink_def)

lemma layout_relink_out [simp]: "nxt \<notin> set cs \<Longrightarrow> layout (relink e nxt p m) b q a cs = layout m b q a cs"
  by (simp add: relink_def)

lemma layout_relinked:
  assumes "layout m e q nxt bs"
  shows "layout (relink e nxt p m) e p nxt bs"
  using layout_relink [OF assms, of p] layout_le [OF assms] assms by (cases bs) (auto simp: relink_def)

lemma relink_step:
  assumes wf: "heap_wf X (as @ c # bs) F h" and n: "nxt = c + h_size (mem h c)" and p: "p \<le> heap_end h"
    and h': "heap_end h' = heap_end h"
  shows "(if nxt < heap_end h' then hd_upd h' nxt (set_phys_prev (GET_IDX p)) else Some h') =
     Some (h'\<lparr>mem := relink (heap_end h) nxt p (mem h')\<rparr>)"
proof -
  have l: "layout (mem h) (heap_end h) c nxt bs" using heap_wfD(1) [OF wf] n by (auto simp: layout_append)
  have "hd_ok h' nxt" if "nxt < heap_end h"
  proof -
    have "nxt \<in> set bs" using l that by (cases bs) auto
    then show ?thesis using heap_chunk(1) [OF wf, of nxt] h' by (simp add: hd_ok_def)
  qed
  then show ?thesis using idx16 [OF wf p] h' by (auto simp: hd_upd_def relink_def set_phys_prev_def)
qed

lemma merge_chunks_wf:
  assumes wf: "heap_wf X (as @ l # u # bs) F h" and X: "l \<in> X" "u \<in> X"
  shows "\<exists>h'. merge_chunks h l u = Some h' \<and> heap_wf X (as @ l # bs) F h' \<and>
     h_allocated (mem h' l) = h_allocated (mem h l) \<and> keeps X h (as @ l # u # bs) h' (as @ l # bs) \<and>
     h_phys_prev (mem h' l) = h_phys_prev (mem h l) \<and> heap_end h' = heap_end h \<and>
     live_in h' (as @ l # bs) = live_in h (as @ l # u # bs) - {u}"
proof -
  note D = heap_wfD [OF wf]
  let ?m = "mem h" and ?e = "heap_end h"
  define nxt where "nxt = u + h_size (?m u)"
  have L: "layout ?m l 0 88 as" "h_phys_prev (?m l) = last (0 # as) div 8" "u = l + h_size (?m l)" "h_phys_prev (?m u) = l div 8"
      "layout ?m ?e u nxt bs"
    using D(1) by (auto simp: layout_append nxt_def)
  have U: "u \<in> set (as @ l # u # bs)" "l \<in> set (as @ l # u # bs)" by auto
  note CU = heap_chunk [OF wf U(1)] and CL = heap_chunk [OF wf U(2)]
  have dist: "distinct (as @ l # u # bs)" using layout_distinct [OF D(1)] .
  have nx: "nxt \<noteq> l" "nxt \<noteq> u" "nxt \<notin> set as" using L(3) CU(3) CL(3) layout_chunk [OF L(1), of nxt] by (auto simp: nxt_def)
  define m1 where "m1 = relink ?e nxt l ?m"
  define m3 where "m3 = m1(l := (m1 l)\<lparr>h_size := h_size (?m l) + h_size (?m u)\<rparr>, u := zero_header)"
  have sz: "(h_size (?m l) + h_size (?m u)) mod 2 ^ 15 = h_size (?m l) + h_size (?m u)"
    using CU(4) CL(5) L(3) D(4) by (intro mod_less) simp
  have wf2: "heap_wf X ((as @ [l]) @ u # bs) F h" using wf by simp
  have "l \<le> ?e" using CL(4) by linarith
  then have r: "(if nxt < ?e then hd_upd h nxt (set_phys_prev (GET_IDX l)) else Some h) = Some (h\<lparr>mem := m1\<rparr>)"
    using relink_step [OF wf2 nxt_def, of l h] by (simp add: m1_def)
  have m1: "m1 u = ?m u" "m1 l = ?m l" using nx by (simp_all add: m1_def relink_other)
  have "l \<noteq> u" using dist by auto
  have ldu: "hd_ld h u = Some (?m u)" using CU(1) by (simp add: hd_ld_def)
  have "merge_chunks h l u = Some (h\<lparr>mem := m3\<rparr>)"
    unfolding merge_chunks_def Let_def ldu bind.bind_lunit nxt_def [symmetric] r
    using CU(1) CL(1) sz m1 \<open>l \<noteq> u\<close> by (simp add: hd_ld_def hd_upd_def m3_def set_size_def)
  moreover have lay: "layout m3 ?e 0 88 (as @ l # bs)"
  proof -
    have "layout m3 l 0 88 as = layout ?m l 0 88 as"
      using dist nx by (simp add: m3_def m1_def)
    moreover have "layout m3 ?e l nxt bs = layout m1 ?e l nxt bs"
      using dist by (intro layout_cong) (auto simp: m3_def)
    ultimately show ?thesis
      using L layout_relinked [OF L(5), of l] CL CU nx dist
      by (auto simp: layout_append m3_def m1_def relink_other nxt_def mod_add_eq [of "h_size (?m l)" 8, symmetric] add.assoc)
  qed
  moreover have "free_lists X (set (as @ l # bs)) F (h\<lparr>mem := m3\<rparr>)"
    using X heap_chunk(1) [OF wf] by (intro free_lists_frame [OF D(2)]) (auto simp: m3_def m1_def relink_fields)
  moreover have "keeps X h (as @ l # u # bs) (h\<lparr>mem := m3\<rparr>) (as @ l # bs)"
  proof (rule keepsI [OF D(1)])
    have "nxt \<in> set bs" if "nxt < ?e" using L(5) that by (cases bs) auto
    then show "mem (h\<lparr>mem := m3\<rparr>) y = ?m y \<or> y \<in> set (as @ l # u # bs) \<or>
        (\<exists>x\<in>X. x \<in> set (as @ l # u # bs) \<and> x < y \<and> y < x + h_size (?m x))" for y
      by (auto simp: m3_def m1_def relink_def)
  qed (use X in \<open>auto simp: m3_def m1_def relink_fields\<close>)
  moreover have "live_in (h\<lparr>mem := m3\<rparr>) (as @ l # bs) = live_in h (as @ l # u # bs) - {u}"
    using dist by (auto simp: live_in_def m3_def m1_def relink_fields split: if_splits)
  ultimately show ?thesis
    using D(3-6) nx \<open>l \<noteq> u\<close> by (intro exI [of _ "h\<lparr>mem := m3\<rparr>"]) (auto simp: heap_wf_def m3_def m1_def relink_fields relink_other)
qed

lemma size_bucket:
  assumes "heap_wf X cs F h" "0 < n" "n \<le> heap_end h - 88"
  shows "bucket n < nb_segs h * 4"
  using seg_of_less [of n "nb_segs h"] bucket_bound [of n "nb_segs h"] heap_wfD(5,6) [OF assms(1)] assms(2,3) by simp

text \<open>The memory before the new free chunk is pushed.\<close>

lemma split_layout:
  assumes wf: "heap_wf X (as @ c # bs) F h" and n: "n mod 8 = 0" "8 \<le> n" "n + 8 \<le> h_size (mem h c)"
    and m1: "m1 = relink (heap_end h) (c + h_size (mem h c)) (c + n)
       ((mem h)(c + n := (mem h (c + n))\<lparr>h_size := h_size (mem h c) - n, h_phys_prev := c div 8\<rparr>))"
    and m': "\<And>y. h_size (m' y) = (if y = c then n else h_size (m1 y)) \<and> h_phys_prev (m' y) = h_phys_prev (m1 y)"
  shows "layout m' (heap_end h) 0 88 (as @ c # (c + n) # bs)" "c + n \<notin> set (as @ c # bs)"
    "c + h_size (mem h c) \<notin> set (as @ [c])" "c + n \<noteq> c + h_size (mem h c)"
proof -
  note D = heap_wfD [OF wf]
  let ?m = "mem h" and ?e = "heap_end h"
  let ?nf = "c + n" and ?nx = "c + h_size (mem h c)"
  have c: "c \<in> set (as @ c # bs)" by simp
  note C = heap_chunk [OF wf c]
  have L: "layout ?m c 0 88 as" "h_phys_prev (?m c) = last (0 # as) div 8" "layout ?m ?e c ?nx bs"
    using D(1) by (auto simp: layout_append)
  have d: "c \<notin> set as" "c \<notin> set bs" using layout_distinct [OF D(1)] by auto
  show out: "?nf \<notin> set (as @ c # bs)" using layout_disjoint [OF D(1) c, of ?nf] n by fastforce
  show "?nx \<notin> set (as @ [c])" using layout_chunk [OF L(1), of ?nx] C(3) by auto
  then have nx: "?nx \<notin> set as" "?nx \<noteq> c" by auto
  show ne: "?nf \<noteq> ?nx" using n by auto
  define m2 where "m2 = m1(c := (m1 c)\<lparr>h_size := n\<rparr>)"
  have "layout m2 c 0 88 as" using L(1) d out nx by (simp add: m2_def m1)
  moreover have "h_size (m2 c) = n" "h_phys_prev (m2 c) = last (0 # as) div 8"
    using L(2) nx out n by (auto simp: m2_def m1 relink_other)
  moreover have "h_size (m2 ?nf) = h_size (?m c) - n" "h_phys_prev (m2 ?nf) = c div 8"
    using ne n by (auto simp: m2_def m1 relink_other)
  moreover have "layout m2 ?e ?nf ?nx bs"
  proof -
    have "layout (relink ?e ?nx ?nf (?m(?nf := v))) ?e ?nf ?nx bs" for v
      by (rule layout_relinked [of _ _ c]) (use L(3) out in simp)
    then show ?thesis using d(2) by (simp add: m2_def m1)
  qed
  moreover have "(h_size (?m c) - n) mod 8 = 0" "8 \<le> h_size (?m c) - n" using n C(2) by (auto simp: mod_eq_0_iff_dvd dvd_diff_nat)
  ultimately have "layout m2 ?e 0 88 (as @ c # ?nf # bs)" using n by (auto simp: layout_append)
  moreover have "layout m' ?e 0 88 (as @ c # ?nf # bs) = layout m2 ?e 0 88 (as @ c # ?nf # bs)"
    using m' by (intro layout_cong) (auto simp: m2_def)
  ultimately show "layout m' ?e 0 88 (as @ c # ?nf # bs)" by simp
qed

lemma split_chunk_wf:
  assumes wf: "heap_wf X (as @ c # bs) F h" and X: "c \<in> X" "c + n \<notin> X"
    and n: "n mod 8 = 0" "8 \<le> n" "n + 8 \<le> h_size (mem h c)"
  shows "\<exists>h' F'. split_chunk h c n = Some h' \<and> heap_wf X (as @ c # (c + n) # bs) F' h' \<and>
     h_allocated (mem h' c) = h_allocated (mem h c) \<and> h_size (mem h' c) = n \<and> h_fprev (mem h' c) = h_fprev (mem h c) \<and>
     h_fnext (mem h' c) = h_fnext (mem h c) \<and> (\<forall>y. c < y \<and> y < c + n \<longrightarrow> mem h' y = mem h y) \<and>
     keeps X h (as @ c # bs) h' (as @ c # (c + n) # bs) \<and> heap_end h' = heap_end h \<and>
     live_in h' (as @ c # (c + n) # bs) = live_in h (as @ c # bs)"
proof -
  note D = heap_wfD [OF wf]
  let ?m = "mem h" and ?e = "heap_end h" and ?nf = "c + n" and ?nx = "c + h_size (mem h c)" and ?S = "h_size (mem h c)"
  let ?C = "set (as @ c # ?nf # bs)"
  have c: "c \<in> set (as @ c # bs)" by simp
  note C = heap_chunk [OF wf c]
  define m0 where "m0 = ?m(?nf := (?m ?nf)\<lparr>h_size := ?S - n, h_phys_prev := c div 8\<rparr>)"
  define m1 where "m1 = relink ?e ?nx ?nf m0"
  define h1 where "h1 = h\<lparr>mem := m1\<rparr>"
  note SL = split_layout [OF wf n, of m1, unfolded m0_def [symmetric], OF m1_def]
  have out: "?nf \<notin> set (as @ c # bs)" and nx: "?nx \<noteq> c" "?nf \<noteq> ?nx" using SL(2-4) [of "\<lambda>y. (m1 y)\<lparr>h_size := if y = c then n else h_size (m1 y)\<rparr>"] by auto
  have oknf: "hd_ok h ?nf" using C(4,5,6) n by (auto simp: hd_ok_def HEAP_HEADER_SIZE_def mod_add_eq [of c 8, symmetric])
  have le: "?S \<le> ?e - 88" "?S < 2 ^ 15" "c \<le> ?e" "?nf \<le> ?e" using C n D(4) by auto
  have m1f: "h_size (m1 ?nf) = ?S - n" "m1 c = ?m c" "\<And>y. y \<noteq> ?nf \<Longrightarrow> h_size (m1 y) = h_size (?m y)"
      "\<And>y. y \<noteq> ?nf \<Longrightarrow> h_allocated (m1 y) = h_allocated (?m y)"
      "\<And>y. y \<noteq> ?nf \<Longrightarrow> h_fprev (m1 y) = h_fprev (?m y) \<and> h_fnext (m1 y) = h_fnext (?m y)"
    using nx n by (auto simp: m1_def m0_def relink_fields relink_other)
  have m1c: "h_allocated (mem h1 y) = h_allocated (?m y) \<and> h_size (mem h1 y) = h_size (?m y) \<and>
      h_fprev (mem h1 y) = h_fprev (?m y) \<and> h_fnext (mem h1 y) = h_fnext (?m y)" if "y \<in> set (as @ c # bs) - X" for y
    using m1f(3-5) [of y] that out by (auto simp: h1_def)
  have pre: "free_lists (insert ?nf X) ?C F h1"
    by (rule free_lists_frame [OF D(2) _ _ _ _ _ m1c]) (use out heap_chunk(1) [OF wf] oknf in \<open>auto simp: h1_def\<close>)
  have sb: "bucket (h_size (mem h1 ?nf)) < nb_segs h1 * 4" "0 < h_size (mem h1 ?nf)" "h_size (mem h1 ?nf) < 2 ^ 32"
    using size_bucket [OF wf, of "?S - n"] n le m1f(1) by (auto simp: h1_def)
  obtain h2 where h2: "list_push h1 ?nf = Some h2" "same_headers h1 h2"
      "only_free X ?C (h1\<lparr>mem := (mem h1)(?nf := (mem h1 ?nf)\<lparr>h_allocated := False\<rparr>)\<rparr>) h2"
      "\<forall>y. h_allocated (mem h2 y) = (y \<noteq> ?nf \<and> h_allocated (mem h1 y))"
      "free_lists X ?C (F(bucket (h_size (mem h1 ?nf)) := ?nf # F (bucket (h_size (mem h1 ?nf))))) h2"
    using list_push_free [OF pre _ X(2) refl sb] by auto
  have e2: "heap_end h2 = ?e" "nb_segs h2 = nb_segs h" and sz2: "\<And>y. h_size (mem h2 y) = h_size (m1 y)"
      "\<And>y. h_phys_prev (mem h2 y) = h_phys_prev (m1 y)"
    using h2(2) by (auto simp: same_headers_def h1_def)
  define h3 where "h3 = h2\<lparr>mem := (mem h2)(c := (mem h2 c)\<lparr>h_size := n\<rparr>)\<rparr>"
  have sc: "split_chunk h c n = Some h3"
  proof -
    have mods: "((?S + 2 ^ 32 - n) mod 2 ^ 32) mod 2 ^ 15 = ?S - n" "n mod 2 ^ 15 = n"
    proof -
      have "(?S + 2 ^ 32 - n) mod 2 ^ 32 = (?S - n + 2 ^ 32) mod 2 ^ 32" using n by simp
      also have "\<dots> = ?S - n" using le(2) by (simp only: mod_add_self2) simp
      finally show "((?S + 2 ^ 32 - n) mod 2 ^ 32) mod 2 ^ 15 = ?S - n" using le(2) by simp
      show "n mod 2 ^ 15 = n" using le(2) n by simp
    qed
    have 1: "hd_upd h ?nf (set_size ((?S + 2 ^ 32 - n) mod 2 ^ 32)) = Some (h\<lparr>mem := ?m(?nf := (?m ?nf)\<lparr>h_size := ?S - n\<rparr>)\<rparr>)"
      unfolding hd_upd_def set_size_def mods using oknf by simp
    have 2: "hd_upd (h\<lparr>mem := ?m(?nf := (?m ?nf)\<lparr>h_size := ?S - n\<rparr>)\<rparr>) ?nf (set_phys_prev (GET_IDX c)) = Some (h\<lparr>mem := m0\<rparr>)"
      unfolding hd_upd_def set_phys_prev_def idx16 [OF wf le(3)] using oknf by (simp add: m0_def)
    have 3: "(if ?nx < heap_end (h\<lparr>mem := m0\<rparr>) then hd_upd (h\<lparr>mem := m0\<rparr>) ?nx (set_phys_prev (GET_IDX ?nf)) else Some (h\<lparr>mem := m0\<rparr>)) = Some h1"
      using relink_step [OF wf refl le(4), of "h\<lparr>mem := m0\<rparr>"] by (simp add: h1_def m1_def)
    have 4: "hd_upd h2 c (set_size n) = Some h3"
      using C(1) e2 unfolding hd_upd_def set_size_def mods by (simp add: h3_def hd_ok_def)
    have 0: "hd_ld h c = Some (?m c)" using C(1) by (simp add: hd_ld_def)
    show ?thesis unfolding split_chunk_def Let_def 0 bind.bind_lunit 1 2 3 h2(1) 4 ..
  qed
  have lay: "layout (mem h3) ?e 0 88 (as @ c # ?nf # bs)" by (rule SL(1)) (auto simp: h3_def sz2)
  have fl: "free_lists X ?C (F(bucket (h_size (mem h1 ?nf)) := ?nf # F (bucket (h_size (mem h1 ?nf))))) h3"
    using X heap_chunk(1) [OF wf] oknf e2 by (intro free_lists_frame [OF h2(5)]) (auto simp: h3_def hd_ok_def)
  have same: "mem h2 y = m1 y" if "y \<noteq> ?nf" "y \<notin> ?C \<or> y \<in> X \<or> h_allocated (?m y)" for y
    using h2(3) [unfolded only_free_def, rule_format, of y] that m1f(4) [OF that(1)] by (auto simp: h1_def)
  have inner: "mem h3 y = ?m y" if "y \<notin> ?C" for y
  proof -
    have "?nx \<in> set bs" if "?nx < ?e" using heap_wfD(1) [OF wf] that by (cases bs) (auto simp: layout_append)
    then have "m1 y = ?m y" using that by (auto simp: m1_def m0_def relink_def)
    then show ?thesis using same [of y] that by (auto simp: h3_def)
  qed
  have ends: "y \<notin> ?C" if "c < y" "y < ?nf" for y
    using layout_disjoint [OF lay, of c y] that by (auto simp: h3_def)
  have "keeps X h (as @ c # bs) h3 (as @ c # ?nf # bs)"
  proof (rule keepsI [OF D(1)])
    show "mem h3 y = ?m y \<or> y \<in> set (as @ c # bs) \<or> (\<exists>x\<in>X. x \<in> set (as @ c # bs) \<and> x < y \<and> y < x + h_size (?m x))" for y
      using inner [of y] X n by (cases "y = ?nf") auto
    show "y \<in> set (as @ c # ?nf # bs) \<and> h_allocated (mem h3 y) \<and> h_size (mem h3 y) = h_size (?m y) \<and>
        h_fprev (mem h3 y) = h_fprev (?m y) \<and> h_fnext (mem h3 y) = h_fnext (?m y)"
      if "y \<in> set (as @ c # bs)" "h_allocated (?m y)" "y \<notin> X" for y
    proof -
      have "y \<noteq> ?nf" "y \<noteq> c" using that out X by auto
      then show ?thesis using that same [of y] m1f(3,4,5) by (auto simp: h3_def)
    qed
  qed
  moreover have "live_in h3 (as @ c # ?nf # bs) = live_in h (as @ c # bs)"
  proof -
    have "h_allocated (mem h3 y) = h_allocated (?m y)" if "y \<in> set (as @ c # bs)" for y
    proof -
      have "y \<noteq> ?nf" using out that by blast
      then show ?thesis using h2(4) [rule_format, of y] m1f(4) [of y] by (auto simp: h3_def h1_def)
    qed
    moreover have "\<not> h_allocated (mem h3 ?nf)" using h2(4) [rule_format, of ?nf] n by (simp add: h3_def)
    ultimately show ?thesis by (auto simp: live_in_def)
  qed
  ultimately show ?thesis
    using sc lay fl D(3-6) e2 same [of c] X n m1f(2) inner ends
    by (intro exI [of _ h3] exI) (auto simp: heap_wf_def h3_def)
qed

section \<open>Allocation\<close>

lemma heap_remove:
  assumes wf: "heap_wf X cs F h" and c: "c \<in> set cs" "c \<notin> X" "\<not> h_allocated (mem h c)"
  shows "\<exists>h' F'. seg_remove h (bucket (h_size (mem h c))) (c div 8) = Some h' \<and> heap_wf (insert c X) cs F' h' \<and>
     same_headers h h' \<and> (\<forall>y. h_allocated (mem h' y) = h_allocated (mem h y)) \<and> keeps {} h cs h' cs"
proof -
  note D = heap_wfD [OF wf]
  obtain h' where h': "seg_remove h (bucket (h_size (mem h c))) (c div 8) = Some h'" "same_headers h h'"
      "only_free X (set cs) h h'" "\<forall>y. h_allocated (mem h' y) = h_allocated (mem h y)"
      "free_lists (insert c X) (set cs) (F(bucket (h_size (mem h c)) := remove1 c (F (bucket (h_size (mem h c)))))) h'"
    using seg_remove_free [OF D(2) c refl heap_chunk(8) [OF wf c(1)]] by blast
  have "layout (mem h') (heap_end h) 0 88 cs = layout (mem h) (heap_end h) 0 88 cs"
    using h'(2) by (intro layout_cong) (auto simp: same_headers_def)
  then have "heap_wf (insert c X) cs (F(bucket (h_size (mem h c)) := remove1 c (F (bucket (h_size (mem h c)))))) h'"
    using D h'(2,5) by (auto simp: heap_wf_def same_headers_def)
  moreover have "keeps {} h cs h' cs"
  proof (rule keepsI [OF D(1)])
    show "mem h' y = mem h y \<or> y \<in> set cs \<or> (\<exists>x\<in>{}. x \<in> set cs \<and> x < y \<and> y < x + h_size (mem h x))" for y
      using h'(3) by (auto simp: only_free_def)
    show "y \<in> set cs \<and> h_allocated (mem h' y) \<and> h_size (mem h' y) = h_size (mem h y) \<and>
        h_fprev (mem h' y) = h_fprev (mem h y) \<and> h_fnext (mem h' y) = h_fnext (mem h y)"
      if "y \<in> set cs" "h_allocated (mem h y)" for y
      using h'(3) [unfolded only_free_def, rule_format, of y] that by auto
  qed
  ultimately show ?thesis using h' by blast
qed

text \<open>Only the free chunks outside \<open>X\<close> matter.\<close>

lemma heap_wf_excl:
  assumes "heap_wf X cs F h" "\<And>c. c \<in> set cs \<Longrightarrow> \<not> h_allocated (mem h c) \<Longrightarrow> c \<in> X \<longleftrightarrow> c \<in> Y"
  shows "heap_wf Y cs F h"
proof -
  have "{c \<in> set cs. c \<notin> X \<and> \<not> h_allocated (mem h c) \<and> bucket (h_size (mem h c)) = s} =
      {c \<in> set cs. c \<notin> Y \<and> \<not> h_allocated (mem h c) \<and> bucket (h_size (mem h c)) = s}" for s
    using assms(2) by auto
  then show ?thesis using assms(1) by (simp add: heap_wf_def free_lists_def)
qed

text \<open>A chunk that is in no list may be marked as allocated; its payload is then free to change.\<close>

lemma heap_mark:
  assumes wf: "heap_wf X cs F h" and c: "c \<in> set cs" "c \<in> X" and f: "h_size (f (mem h c)) = h_size (mem h c)" "h_phys_prev (f (mem h c)) = h_phys_prev (mem h c)"
  shows "\<exists>h'. hd_upd h c f = Some h' \<and> h' = h\<lparr>mem := (mem h)(c := f (mem h c))\<rparr> \<and> heap_wf X cs F h' \<and> keeps X h cs h' cs"
proof -
  note D = heap_wfD [OF wf]
  let ?h = "h\<lparr>mem := (mem h)(c := f (mem h c))\<rparr>"
  have "layout (mem ?h) (heap_end h) 0 88 cs = layout (mem h) (heap_end h) 0 88 cs" using f by (intro layout_cong) auto
  moreover have "free_lists X (set cs) F ?h"
    using c heap_chunk(1) [OF wf] by (intro free_lists_frame [OF D(2)]) auto
  moreover have "keeps X h cs ?h cs" using c by (intro keepsI [OF D(1)]) auto
  ultimately show ?thesis using D heap_chunk(1) [OF wf c(1)] by (auto simp: hd_upd_def heap_wf_def)
qed

lemma alloc_chunk_wf:
  assumes wf: "heap_wf {} cs F h" and c: "c \<in> set cs" "\<not> h_allocated (mem h c)" and s: "s = bucket (h_size (mem h c))"
    and n: "n mod 8 = 0" "8 \<le> n" "n \<le> h_size (mem h c)"
  shows "\<exists>h' cs' F'. alloc_chunk h s (c div 8) n = Some (Ret (Some (c + 4)), h') \<and> heap_wf {} cs' F' h' \<and>
     n \<le> h_size (mem h' c) \<and> keeps {} h cs h' cs' \<and> live_in h' cs' = insert c (live_in h cs) \<and> heap_end h' = heap_end h"
proof -
  note C = heap_chunk [OF wf c(1)]
  obtain h1 F1 where h1: "seg_remove h s (c div 8) = Some h1" "heap_wf {c} cs F1 h1" "same_headers h h1"
      "\<forall>y. h_allocated (mem h1 y) = h_allocated (mem h y)" "keeps {} h cs h1 cs"
    using heap_remove [OF wf c(1) _ c(2)] s by auto
  have sz: "h_size (mem h1 c) = h_size (mem h c)" "heap_end h1 = heap_end h" using h1(3) by (auto simp: same_headers_def)
  obtain as bs where cs: "cs = as @ c # bs" using c(1) by (meson split_list)
  have step: "\<exists>h2 cs2 F2. (if h_size (mem h c) \<ge> n + 8 then split_chunk h1 c n else Some h1) = Some h2 \<and> heap_wf {c} cs2 F2 h2 \<and>
      c \<in> set cs2 \<and> n \<le> h_size (mem h2 c) \<and> keeps {c} h1 cs h2 cs2 \<and> live_in h2 cs2 = live_in h1 cs \<and> heap_end h2 = heap_end h"
  proof (cases "h_size (mem h c) \<ge> n + 8")
    case True
    obtain h2 F2 where h2: "split_chunk h1 c n = Some h2" "heap_wf {c} (as @ c # (c + n) # bs) F2 h2" "h_size (mem h2 c) = n"
       "keeps {c} h1 cs h2 (as @ c # (c + n) # bs)" "live_in h2 (as @ c # (c + n) # bs) = live_in h1 cs" "heap_end h2 = heap_end h1"
      using split_chunk_wf [of "{c}" as c bs F1 h1 n] h1(2) n True sz unfolding cs by auto
    then show ?thesis using True sz by (intro exI [of _ h2] exI [of _ "as @ c # (c + n) # bs"] exI [of _ F2]) auto
  next
    case False
    moreover have "keeps {c} h1 cs h1 cs" by (simp add: keeps_def)
    ultimately show ?thesis using h1(2) c(1) n sz by (intro exI [of _ h1] exI [of _ cs] exI [of _ F1]) auto
  qed
  then obtain h2 cs2 F2 where h2: "(if h_size (mem h c) \<ge> n + 8 then split_chunk h1 c n else Some h1) = Some h2" "heap_wf {c} cs2 F2 h2"
      "c \<in> set cs2" "n \<le> h_size (mem h2 c)" "keeps {c} h1 cs h2 cs2" "live_in h2 cs2 = live_in h1 cs" "heap_end h2 = heap_end h" by blast
  let ?f = "\<lambda>c. c\<lparr>h_allocated := True, h_fnext := 0, h_fprev := 0\<rparr>"
  obtain h3 where h3: "hd_upd h2 c ?f = Some h3" "h3 = h2\<lparr>mem := (mem h2)(c := ?f (mem h2 c))\<rparr>" "heap_wf {c} cs2 F2 h3" "keeps {c} h2 cs2 h3 cs2"
    using heap_mark [OF h2(2,3), of ?f] by auto
  have "heap_wf {} cs2 F2 h3" by (rule heap_wf_excl [OF h3(3)]) (auto simp: h3(2))
  moreover have "alloc_chunk h s (c div 8) n = Some (Ret (Some (c + 4)), h3)"
    using chunk_valid [OF wf c(1)] hd_ok_idx [OF C(1)] C(1) n(3) h1(1) h2(1) h3(1)
    by (simp add: alloc_chunk_def hd_ld_def mem_consts)
  moreover have "keeps {c} h cs h3 cs2"
    using keeps_mono [OF h1(5), of "{c}"] keeps_trans h2(5) h3(4) by blast
  then have "keeps {} h cs h3 cs2" using keeps_mono [of "{c}" h cs h3 cs2 "{}"] c(2) by blast
  moreover have "live_in h3 cs2 = insert c (live_in h cs)"
  proof -
    have "live_in h3 cs2 = insert c (live_in h2 cs2)" using h2(3) by (auto simp: h3(2) live_in_def)
    also have "live_in h2 cs2 = live_in h cs" using h2(6) h1(4) by (auto simp: live_in_def)
    finally show ?thesis .
  qed
  ultimately show ?thesis using h2(4,7) h3(2) by (intro exI [of _ h3] exI [of _ cs2] exI [of _ F2]) auto
qed

lemma alloc_loop_wf:
  assumes wf: "heap_wf {} cs F h" and n: "n mod 8 = 0" "8 \<le> n" and r: "n \<le> r" "0 < r" "r mod 2 ^ sub_segment_shift (seg_of r) = 0"
  shows "bucket r \<le> s \<Longrightarrow>
     (\<exists>h' cs' F' c. alloc_loop h n s = Some (Ret (Some (c + 4)), h') \<and> heap_wf {} cs' F' h' \<and> c \<notin> live_in h cs \<and>
       n \<le> h_size (mem h' c) \<and> keeps {} h cs h' cs' \<and> live_in h' cs' = insert c (live_in h cs) \<and> heap_end h' = heap_end h) \<or>
     alloc_loop h n s = Some (Ret None, h)"
proof (induction "nb_segs h * 4 - s" arbitrary: s)
  case 0
  then show ?case by (subst alloc_loop.simps, subst (2) alloc_loop.simps) (simp add: mem_consts)
next
  case (Suc k)
  note D = free_listsD [OF heap_wfD(2) [OF wf]]
  have s: "s < nb_segs h * 4" using Suc.hyps(2) by simp
  then have ls: "ld (free_segments h) s = Some (free_segments h ! s)" using D(1,2) by (simp add: ld_def)
  show ?case
  proof (cases "F s")
    case Nil
    then have "free_segments h ! s = 0" using D(6) [OF s] by simp
    then have "alloc_loop h n s = alloc_loop h n (s + 1)" using s ls by (subst alloc_loop.simps) (simp add: mem_consts)
    then show ?thesis using Suc.hyps(1) [of "s + 1"] Suc.hyps(2) Suc.prems by simp
  next
    case (Cons c ys)
    then have c: "c \<in> set cs" "\<not> h_allocated (mem h c)" "bucket (h_size (mem h c)) = s" and x: "free_segments h ! s = c div 8"
      using D(6,7) [OF s] by auto
    note C = heap_chunk [OF wf c(1)]
    have "r \<le> h_size (mem h c)" using bucket_least [OF _ r(2,3)] C(3) c(3) Suc.prems by simp
    moreover have "alloc_loop h n s = alloc_chunk h s (c div 8) n"
      using s ls x hd_ok_idx [OF C(1)] by (subst alloc_loop.simps) (simp add: mem_consts)
    ultimately show ?thesis
      using alloc_chunk_wf [OF wf c(1,2) c(3) [symmetric] n] r(1) c(2) by (fastforce simp: live_in_def)
  qed
qed

theorem mem_alloc_wf:
  assumes wf: "heap_wf {} cs F h"
  shows "(\<exists>h' cs' F' c. mem_alloc h n = Some (Ret (Some (c + 4)), h') \<and> 0 < n \<and> heap_wf {} cs' F' h' \<and> c \<notin> live_in h cs \<and>
       n + 4 \<le> h_size (mem h' c) \<and> keeps {} h cs h' cs' \<and> live_in h' cs' = insert c (live_in h cs) \<and> heap_end h' = heap_end h) \<or>
     mem_alloc h n = Some (Ret None, h)"
proof (cases "n = 0 \<or> size_too_big n")
  case False
  let ?n = "align_alloc_size n"
  have n: "?n mod 8 = 0" "n + 4 \<le> ?n" "?n < 2 ^ 15" "8 \<le> ?n"
    using align_alloc_size_bounds [of n] False align_alloc_size_eq [of n] by (auto simp: size_too_big_def mem_consts)
  obtain r where r: "?n \<le> r" "r < 2 ^ 32" "r mod 2 ^ sub_segment_shift (seg_of r) = 0"
      "seglist_index_up h ?n = Some (if seg_of r - 5 \<ge> nb_segs h then None else Some (bucket r))"
    using seglist_index_up_eq [of ?n h] n by auto
  have eq: "mem_alloc h n = (if seg_of r - 5 \<ge> nb_segs h then Some (Ret None, h) else alloc_loop h ?n (bucket r))"
    using False r(4) by (simp add: mem_alloc_def Let_def)
  show ?thesis
    using alloc_loop_wf [OF wf n(1,4) r(1) _ r(3), of "bucket r"] n(2,4) r(1) False unfolding eq
    by (cases "seg_of r - 5 \<ge> nb_segs h") fastforce+
qed (auto simp: mem_alloc_def)

section \<open>Freeing\<close>

lemma live_same: "\<forall>y. h_allocated (mem h' y) = h_allocated (mem h y) \<Longrightarrow> live_in h' cs = live_in h cs"
  by (simp add: live_in_def)

lemma coalesce_index:
  assumes "heap_wf X cs F h" "c \<in> set cs"
  shows "GET_IDX c mod 2 ^ 16 = c div 8" "seglist_index h (h_size (mem h c)) = Some (Some (bucket (h_size (mem h c))))"
proof -
  note C = heap_chunk [OF assms]
  show "GET_IDX c mod 2 ^ 16 = c div 8" using idx16 [OF assms(1), of c] C(4) by simp
  have "seg_of (h_size (mem h c)) - 5 < nb_segs h" using C(3,8) bucket_bound [of "h_size (mem h c)" "nb_segs h"] by simp
  then show "seglist_index h (h_size (mem h c)) = Some (Some (bucket (h_size (mem h c))))"
    using seglist_index_eq [of "h_size (mem h c)" h] C(3,7) by simp
qed

text \<open>A neighbour that is allocated stays; one that is free is taken out of its list and merged.  \<open>lo\<close> and \<open>hi\<close> are the two
  chunks in the order of their addresses, \<open>b\<close> the one being freed and \<open>nb\<close> its neighbour.\<close>

lemma coalesce_wf:
  assumes wf: "heap_wf X (as @ lo # hi # bs) F h" and b: "b = lo \<and> nb = hi \<or> b = hi \<and> nb = lo" and X: "b \<in> X" "nb \<notin> X"
  shows "(h_allocated (mem h nb) \<and> coalesce h b nb = Some (Ret b, h)) \<or>
     (\<exists>h' F'. \<not> h_allocated (mem h nb) \<and> coalesce h b nb = Some (Ret lo, h') \<and> heap_wf (insert nb X) (as @ lo # bs) F' h' \<and>
       h_phys_prev (mem h' lo) = last (0 # as) div 8 \<and> keeps X h (as @ lo # hi # bs) h' (as @ lo # bs) \<and> heap_end h' = heap_end h \<and>
       live_in h' (as @ lo # bs) = live_in h (as @ lo # hi # bs) - {hi})"
proof -
  let ?cs = "as @ lo # hi # bs"
  have nb: "nb \<in> set ?cs" using b by auto
  note C = heap_chunk [OF wf nb] and ix = coalesce_index [OF wf nb]
  have lh: "lo < hi" using heap_wfD(1) [OF wf] by (auto simp: layout_append)
  have v: "ensure_chunk_valid h nb = Some True" using chunk_valid [OF wf nb] .
  have ld: "hd_ld h nb = Some (mem h nb)" using C(1) by (simp add: hd_ld_def)
  show ?thesis
  proof (cases "h_allocated (mem h nb)")
    case True
    then show ?thesis using v ld by (simp add: coalesce_def)
  next
    case False
    obtain h1 F1 where h1: "seg_remove h (bucket (h_size (mem h nb))) (nb div 8) = Some h1" "heap_wf (insert nb X) ?cs F1 h1" "same_headers h h1"
        "\<forall>y. h_allocated (mem h1 y) = h_allocated (mem h y)" "keeps {} h ?cs h1 ?cs"
      using heap_remove [OF wf nb X(2) False] by blast
    obtain h2 where h2: "merge_chunks h1 lo hi = Some h2" "heap_wf (insert nb X) (as @ lo # bs) F1 h2"
        "keeps (insert nb X) h1 ?cs h2 (as @ lo # bs)" "h_phys_prev (mem h2 lo) = h_phys_prev (mem h1 lo)" "heap_end h2 = heap_end h1"
        "live_in h2 (as @ lo # bs) = live_in h1 ?cs - {hi}"
      using merge_chunks_wf [OF h1(2)] b X by auto
    have "coalesce h b nb = Some (Ret lo, h2)"
      using b lh False v ld ix h1(1) h2(1) by (auto simp: coalesce_def Let_def)
    moreover have "keeps X h ?cs h2 (as @ lo # bs)"
    proof (rule keeps_trans [OF keeps_mono [OF h1(5)]])
      show "keeps X h1 ?cs h2 (as @ lo # bs)" using keeps_mono [OF h2(3), of X] h1(4) False by blast
    qed simp
    moreover have "h_phys_prev (mem h2 lo) = last (0 # as) div 8"
      using heap_wfD(1) [OF h1(2)] h2(4) by (auto simp: layout_append)
    moreover have "heap_end h2 = heap_end h" using h2(5) h1(3) by (simp add: same_headers_def)
    ultimately show ?thesis using False h2(2,6) live_same [OF h1(4)] by blast
  qed
qed

lemma heap_push:
  assumes wf: "heap_wf (insert c X) cs F h" and c: "c \<in> set cs" "c \<notin> X"
  shows "\<exists>h' F'. list_push h c = Some h' \<and> heap_wf X cs F' h' \<and> live_in h' cs = live_in h cs - {c} \<and> keeps {c} h cs h' cs \<and>
     heap_end h' = heap_end h"
proof -
  note D = heap_wfD [OF wf] and C = heap_chunk [OF wf c(1)]
  obtain h' F' where h': "list_push h c = Some h'" "same_headers h h'" "free_lists X (set cs) F' h'"
      "only_free X (set cs) (h\<lparr>mem := (mem h)(c := (mem h c)\<lparr>h_allocated := False\<rparr>)\<rparr>) h'"
      "\<forall>y. h_allocated (mem h' y) = (y \<noteq> c \<and> h_allocated (mem h y))"
    using list_push_free [OF D(2) c refl C(8)] C(3,7) by auto
  have "layout (mem h') (heap_end h) 0 88 cs = layout (mem h) (heap_end h) 0 88 cs"
    using h'(2) by (intro layout_cong) (auto simp: same_headers_def)
  then have "heap_wf X cs F' h'" using D h'(2,3) by (auto simp: heap_wf_def same_headers_def)
  moreover have "keeps {c} h cs h' cs"
  proof (rule keepsI [OF D(1)])
    note o = h'(4) [unfolded only_free_def, rule_format]
    show "mem h' y = mem h y \<or> y \<in> set cs \<or> (\<exists>x\<in>{c}. x \<in> set cs \<and> x < y \<and> y < x + h_size (mem h x))" for y
      using o [of y] c(1) by (cases "y = c") auto
    show "y \<in> set cs \<and> h_allocated (mem h' y) \<and> h_size (mem h' y) = h_size (mem h y) \<and>
        h_fprev (mem h' y) = h_fprev (mem h y) \<and> h_fnext (mem h' y) = h_fnext (mem h y)"
      if "y \<in> set cs" "h_allocated (mem h y)" "y \<notin> {c}" for y
      using o [of y] that by auto
  qed
  moreover have "live_in h' cs = live_in h cs - {c}" using h'(5) by (auto simp: live_in_def)
  ultimately show ?thesis using h'(1,2) by (auto simp: same_headers_def)
qed

text \<open>Merging with the next chunk, then with the previous one.\<close>

lemma free_next:
  assumes wf: "heap_wf {b} (as @ b # bs) F h"
  shows "\<exists>h' bs' F' X. (if b + h_size (mem h b) < heap_end h then coalesce h b (b + h_size (mem h b)) else Some (Ret b, h)) = Some (Ret b, h') \<and>
     heap_wf X (as @ b # bs') F' h' \<and> b \<in> X \<and> (\<forall>y\<in>set (as @ b # bs'). y \<in> X \<longrightarrow> y = b) \<and> h_phys_prev (mem h' b) = last (0 # as) div 8 \<and>
     keeps {b} h (as @ b # bs) h' (as @ b # bs') \<and> live_in h' (as @ b # bs') = live_in h (as @ b # bs) \<and> heap_end h' = heap_end h"
proof -
  have L: "layout (mem h) (heap_end h) b (b + h_size (mem h b)) bs" "h_phys_prev (mem h b) = last (0 # as) div 8"
    using heap_wfD(1) [OF wf] by (auto simp: layout_append)
  have k: "keeps {b} h (as @ b # bs) h (as @ b # bs)" by (simp add: keeps_def)
  show ?thesis
  proof (cases bs)
    case Nil
    then show ?thesis using L wf k by (intro exI [of _ h] exI [of _ bs] exI [of _ F] exI [of _ "{b}"]) auto
  next
    case (Cons u bs')
    have u: "u = b + h_size (mem h b)" "u < heap_end h" using L(1) layout_le [OF L(1)] Cons by auto
    have d: "b \<noteq> u" "u \<notin> set (as @ b # bs')" using layout_distinct [OF heap_wfD(1) [OF wf]] Cons by auto
    have "h_allocated (mem h u) \<and> coalesce h b u = Some (Ret b, h) \<or>
      (\<exists>h' F'. \<not> h_allocated (mem h u) \<and> coalesce h b u = Some (Ret b, h') \<and> heap_wf (insert u {b}) (as @ b # bs') F' h' \<and>
       h_phys_prev (mem h' b) = last (0 # as) div 8 \<and> keeps {b} h (as @ b # bs) h' (as @ b # bs') \<and> heap_end h' = heap_end h \<and>
       live_in h' (as @ b # bs') = live_in h (as @ b # bs) - {u})"
      using coalesce_wf [of "{b}" as b u bs' F h b u] wf d unfolding Cons by simp
    then show ?thesis
    proof (elim disjE exE conjE)
      assume "coalesce h b u = Some (Ret b, h)"
      then show ?thesis using u L wf k Cons by (intro exI [of _ h] exI [of _ bs] exI [of _ F] exI [of _ "{b}"]) auto
    next
      fix h' F'
      assume a: "\<not> h_allocated (mem h u)" "coalesce h b u = Some (Ret b, h')" "heap_wf (insert u {b}) (as @ b # bs') F' h'"
        "h_phys_prev (mem h' b) = last (0 # as) div 8" "keeps {b} h (as @ b # bs) h' (as @ b # bs')" "heap_end h' = heap_end h"
        "live_in h' (as @ b # bs') = live_in h (as @ b # bs) - {u}"
      have "live_in h (as @ b # bs) - {u} = live_in h (as @ b # bs)" using a(1) by (auto simp: live_in_def)
      then show ?thesis using a u d
        by (intro exI [of _ h'] exI [of _ bs'] exI [of _ F'] exI [of _ "insert u {b}"]) auto
    qed
  qed
qed

lemma free_prev:
  assumes wf: "heap_wf X (as @ b # bs) F h" and X: "b \<in> X" "\<forall>y\<in>set (as @ b # bs). y \<in> X \<longrightarrow> y = b" and al: "h_allocated (mem h b)"
  shows "\<exists>h' cs' F' Y c. (if h_phys_prev (mem h b) \<noteq> 0 then coalesce h b (GET_PTR (h_phys_prev (mem h b))) else Some (Ret b, h)) = Some (Ret c, h') \<and>
     heap_wf (insert c Y) cs' F' h' \<and> c \<in> set cs' \<and> c \<notin> Y \<and> (\<forall>y\<in>set cs'. y \<notin> Y) \<and> keeps {b} h (as @ b # bs) h' cs' \<and>
     live_in h' cs' - {c} = live_in h (as @ b # bs) - {b} \<and> (c = b \<or> \<not> h_allocated (mem h c)) \<and> c \<in> set (as @ b # bs) \<and> heap_end h' = heap_end h"
proof -
  have ph: "h_phys_prev (mem h b) = last (0 # as) div 8" using heap_wfD(1) [OF wf] by (auto simp: layout_append)
  have k: "keeps {b} h (as @ b # bs) h (as @ b # bs)" by (simp add: keeps_def)
  have wfb: "heap_wf (insert b (X - set (as @ b # bs))) (as @ b # bs) F h"
    by (rule heap_wf_excl [OF wf]) (use X in auto)
  have keep: ?thesis if "(if h_phys_prev (mem h b) \<noteq> 0 then coalesce h b (GET_PTR (h_phys_prev (mem h b))) else Some (Ret b, h)) = Some (Ret b, h)"
    using that wfb k by (intro exI [of _ h] exI [of _ "as @ b # bs"] exI [of _ F] exI [of _ "X - set (as @ b # bs)"] exI [of _ b]) auto
  show ?thesis
  proof (cases as rule: rev_cases)
    case Nil
    then show ?thesis using ph keep by simp
  next
    case (snoc as' p)
    have wf': "heap_wf X (as' @ p # b # bs) F h" using wf snoc by simp
    have p: "p \<in> set (as @ b # bs)" using snoc by simp
    have d: "p \<noteq> b" "b \<notin> set (as' @ p # bs)" using layout_distinct [OF heap_wfD(1) [OF wf']] by auto
    have pX: "p \<notin> X" using X(2) p d by auto
    have ptr: "GET_PTR (h_phys_prev (mem h b)) = p" "h_phys_prev (mem h b) \<noteq> 0"
      using hd_ok_idx [OF heap_chunk(1) [OF wf p]] ph snoc by auto
    from coalesce_wf [OF wf' _ X(1) pX, of] have "h_allocated (mem h p) \<and> coalesce h b p = Some (Ret b, h) \<or>
      (\<exists>h' F'. \<not> h_allocated (mem h p) \<and> coalesce h b p = Some (Ret p, h') \<and> heap_wf (insert p X) (as' @ p # bs) F' h' \<and>
       keeps X h (as' @ p # b # bs) h' (as' @ p # bs) \<and> heap_end h' = heap_end h \<and>
       live_in h' (as' @ p # bs) = live_in h (as' @ p # b # bs) - {b})" by auto
    then show ?thesis
    proof (elim disjE exE conjE)
      assume "coalesce h b p = Some (Ret b, h)"
      then show ?thesis using keep ptr by simp
    next
      fix h' F'
      assume a: "\<not> h_allocated (mem h p)" "coalesce h b p = Some (Ret p, h')" "heap_wf (insert p X) (as' @ p # bs) F' h'"
        "keeps X h (as' @ p # b # bs) h' (as' @ p # bs)" "heap_end h' = heap_end h"
        "live_in h' (as' @ p # bs) = live_in h (as' @ p # b # bs) - {b}"
      have "keeps {b} h (as @ b # bs) h' (as' @ p # bs)"
        using keeps_mono [OF a(4), of "{b}"] X(2) snoc by auto
      moreover have "heap_wf (insert p (X - set (as' @ p # bs))) (as' @ p # bs) F' h'"
        by (rule heap_wf_excl [OF a(3)]) (use X d snoc in auto)
      moreover have "live_in h' (as' @ p # bs) - {p} = live_in h (as @ b # bs) - {b}"
        using a(1,6) snoc by (auto simp: live_in_def)
      ultimately show ?thesis using a(1,2,5) ptr p
        by (intro exI [of _ h'] exI [of _ "as' @ p # bs"] exI [of _ F'] exI [of _ "X - set (as' @ p # bs)"] exI [of _ p]) auto
    qed
  qed
qed

theorem mem_free_wf:
  assumes wf: "heap_wf {} cs F h" and b: "b \<in> live_in h cs"
  shows "\<exists>h' cs' F'. mem_free h (b + 4) = Some (Ret (), h') \<and> heap_wf {} cs' F' h' \<and> keeps {b} h cs h' cs' \<and>
     live_in h' cs' = live_in h cs - {b} \<and> heap_end h' = heap_end h"
proof -
  have bc: "b \<in> set cs" "h_allocated (mem h b)" using b by (auto simp: live_in_def)
  obtain as bs where cs: "cs = as @ b # bs" using bc(1) by (meson split_list)
  note C = heap_chunk [OF wf bc(1)]
  have "heap_wf {b} (as @ b # bs) F h" using heap_wf_excl [OF wf, of "{b}"] bc(2) cs by auto
  from free_next [OF this] obtain h1 bs1 F1 X where h1:
     "(if b + h_size (mem h b) < heap_end h then coalesce h b (b + h_size (mem h b)) else Some (Ret b, h)) = Some (Ret b, h1)"
     "heap_wf X (as @ b # bs1) F1 h1" "b \<in> X" "\<forall>y\<in>set (as @ b # bs1). y \<in> X \<longrightarrow> y = b"
     "keeps {b} h cs h1 (as @ b # bs1)" "live_in h1 (as @ b # bs1) = live_in h cs" "heap_end h1 = heap_end h"
    unfolding cs by blast
  have al: "h_allocated (mem h1 b)" using h1(6) b by (auto simp: live_in_def)
  from free_prev [OF h1(2-4) al] obtain h2 cs2 F2 Y c where h2:
     "(if h_phys_prev (mem h1 b) \<noteq> 0 then coalesce h1 b (GET_PTR (h_phys_prev (mem h1 b))) else Some (Ret b, h1)) = Some (Ret c, h2)"
     "heap_wf (insert c Y) cs2 F2 h2" "c \<in> set cs2" "c \<notin> Y" "\<forall>y\<in>set cs2. y \<notin> Y" "keeps {b} h1 (as @ b # bs1) h2 cs2"
     "live_in h2 cs2 - {c} = live_in h1 (as @ b # bs1) - {b}" "c = b \<or> \<not> h_allocated (mem h1 c)" "heap_end h2 = heap_end h1"
    by (elim exE conjE) assumption
  obtain h3 F3 where h3: "list_push h2 c = Some h3" "heap_wf Y cs2 F3 h3" "live_in h3 cs2 = live_in h2 cs2 - {c}" "keeps {c} h2 cs2 h3 cs2"
      "heap_end h3 = heap_end h2"
    using heap_push [OF h2(2-4)] by blast
  have k: "keeps {b, c} h cs h3 cs2"
    using keeps_mono [OF h1(5), of "{b, c}"] keeps_mono [OF h2(6), of "{b, c}"] keeps_mono [OF h3(4), of "{b, c}"] keeps_trans by blast
  have "c \<notin> live_in h cs \<or> c = b" using h2(8) h1(6) by (auto simp: live_in_def)
  then have "keeps {b} h cs h3 cs2" using keeps_mono [OF k, of "{b}"] by (auto simp: live_in_def)
  moreover have "heap_wf {} cs2 F3 h3" by (rule heap_wf_excl [OF h3(2)]) (use h2(5) in auto)
  moreover have "mem_free h (b + 4) = Some (Ret (), h3)"
  proof -
    have "hd_ok h1 b" using heap_chunk(1) [OF h1(2), of b] by simp
    then have ld: "hd_ld h b = Some (mem h b)" "hd_ld h1 b = Some (mem h1 b)" using C(1) by (simp_all add: hd_ld_def)
    show ?thesis
      using chunk_valid [OF wf bc(1)] ld bc(2) h3(1) h2(1)
      by (auto simp: mem_free_def ALLOC_CHUNK_HEADER_SIZE_def h1(1) split: if_splits)
  qed
  ultimately show ?thesis using h1(6,7) h2(7,9) h3(3,5) by (intro exI [of _ h3] exI [of _ cs2] exI [of _ F3]) auto
qed

section \<open>Initialisation\<close>

lemma mem_init_ok:
  assumes n: "n mod 8 = 0" "200 \<le> n" "n \<le> 0x7FF8 + 88" and "length segs = 40"
  shows "\<exists>h F. mem_init m segs n = Some (Some h) \<and> heap_wf {} [88] F h \<and> live_in h [88] = {} \<and> heap_end h = n"
proof -
  define k where "k = msb_idx (n - 88) - 5 + 1"
  have b: "2 ^ msb_idx (n - 88) \<le> n - 88" "n - 88 < 2 * 2 ^ msb_idx (n - 88)" using msb_idx_bounds [of "n - 88"] n(2) by auto
  have g: "6 \<le> msb_idx (n - 88)" "msb_idx (n - 88) < 15"
  proof -
    have "msb_idx 112 = 6" by (rule msb_idx_unique) auto
    then show "6 \<le> msb_idx (n - 88)" using msb_idx_mono [of 112 "n - 88"] n(2) by simp
    have "(2 :: nat) ^ msb_idx (n - 88) < 32768" using b(1) n(3) by linarith
    then have "(2 :: nat) ^ msb_idx (n - 88) < 2 ^ 15" by simp
    then show "msb_idx (n - 88) < 15" by (rule power_less_imp_less_exp [rotated]) simp
  qed
  have k: "k \<le> 10" "0 < k" "k + 5 = Suc (msb_idx (n - 88))" using g by (auto simp: k_def)
  define fs where "fs = replicate (k * 4) 0 @ drop (k * 4) segs"
  have ms: "memset_n segs 0 0 (k * 4) = Some fs"
    using assms(4) k(1) by (simp add: memset_n_def st_n_def fs_def)
  define h0 where "h0 = \<lparr>heap_end = n, nb_segs = k, free_segments = fs, mem = m(88 := (m 88)\<lparr>h_size := n - 88, h_phys_prev := 0\<rparr>)\<rparr>"
  have sz: "(n - 88) mod 2 ^ 15 = n - 88" using n(3) by (intro mod_less) simp
  have ok: "hd_ok h0 88" using n by (auto simp: hd_ok_def HEAP_HEADER_SIZE_def h0_def)
  have "fs ! s = 0" if "s < k * 4" for s using that by (simp add: fs_def nth_append)
  then have "free_lists {88} (set [88]) (\<lambda>_. []) h0"
    using k(1) n(3) assms(4) ok by (auto simp: free_lists_def h0_def fs_def)
  moreover have "n - 88 < 2 ^ (k + 5)" using b(2) unfolding k(3) by simp
  ultimately have wf: "heap_wf (insert 88 {}) [88] (\<lambda>_. []) h0"
    using n k(1,2) by (auto simp: heap_wf_def h0_def dvd_diff_nat mod_eq_0_iff_dvd)
  obtain h' F where h': "list_push h0 88 = Some h'" "heap_wf {} [88] F h'" "live_in h' [88] = live_in h0 [88] - {88}" "heap_end h' = heap_end h0"
    using heap_push [OF wf] by auto
  have clz: "builtin_clz (n - 88) = Some (31 - msb_idx (n - 88))" using n(2) by (simp add: builtin_clz_def)
  have kk: "31 - (31 - msb_idx (n - 88)) - 5 + 1 = k" using g by (simp add: k_def)
  have up: "hd_upd \<lparr>heap_end = n, nb_segs = k, free_segments = fs, mem = m\<rparr> 88 (\<lambda>c. set_phys_prev 0 (set_size (n - 88) c)) = Some h0"
    unfolding hd_upd_def set_phys_prev_def set_size_def sz using ok by (simp add: h0_def hd_ok_def)
  have "mem_init m segs n = Some (Some h')"
    unfolding mem_init_def mem_consts clz bind.bind_lunit Let_def kk ms up h'(1) using n k(1) by simp
  moreover have "live_in h' [88] = {}" using h'(3) by (auto simp: live_in_def)
  moreover have "heap_end h' = n" using h'(4) by (simp add: h0_def)
  ultimately show ?thesis using h'(2) by blast
qed

lemma mem_init_wf:
  assumes "mem_init m segs n = Some (Some h)" "length segs = 40"
  shows "\<exists>F. heap_wf {} [88] F h \<and> live_in h [88] = {} \<and> heap_end h = n"
proof -
  have n: "n mod 8 = 0" "200 \<le> n" "n \<le> 0x7FF8 + 88"
    using assms(1) by (auto simp: mem_init_def mem_consts split: if_splits)
  show ?thesis using mem_init_ok [OF n assms(2), of m] assms(1) by auto
qed

section \<open>Writing to a block\<close>

text \<open>A program writes to the payload of a live block: the last four bytes of the header cell and the cells inside.\<close>

definition payload_write :: "heap_t \<Rightarrow> nat \<Rightarrow> (nat \<Rightarrow> header_t) \<Rightarrow> bool" where
  "payload_write h c m =
     (\<forall>y. m y = (if y = c then (mem h c)\<lparr>h_fprev := h_fprev (m c), h_fnext := h_fnext (m c)\<rparr>
                 else if c < y \<and> y < c + h_size (mem h c) then m y else mem h y))"

lemma payload_write_wf:
  assumes wf: "heap_wf {} cs F h" and c: "c \<in> live_in h cs" and w: "payload_write h c m"
  shows "heap_wf {} cs F (h\<lparr>mem := m\<rparr>)" "keeps {c} h cs (h\<lparr>mem := m\<rparr>) cs" "live_in (h\<lparr>mem := m\<rparr>) cs = live_in h cs"
proof -
  note D = heap_wfD [OF wf]
  have cc: "c \<in> set cs" "h_allocated (mem h c)" using c by (auto simp: live_in_def)
  have out: "m y = mem h y" if "y \<in> set cs" "y \<noteq> c" for y
    using w [unfolded payload_write_def, rule_format, of y] layout_disjoint [OF D(1) cc(1) that(1)] that by (auto split: if_splits)
  have mc: "h_size (m c) = h_size (mem h c)" "h_phys_prev (m c) = h_phys_prev (mem h c)" "h_allocated (m c)"
    using w [unfolded payload_write_def, rule_format, of c] cc(2) by (metis header_t.select_convs(1,2,3) header_t.surjective header_t.update_convs(4,5))+
  have "layout m (heap_end h) 0 88 cs = layout (mem h) (heap_end h) 0 88 cs"
    by (intro layout_cong) (metis out mc(1,2))
  moreover have "free_lists {c} (set cs) F (h\<lparr>mem := m\<rparr>)"
  proof (rule free_lists_frame)
    show "free_lists {c} (set cs) F h"
      using heap_wfD(2) [OF heap_wf_excl [OF wf, of "{c}"]] cc(2) by auto
  qed (use heap_chunk(1) [OF wf] out in auto)
  ultimately have "heap_wf {c} cs F (h\<lparr>mem := m\<rparr>)" using D by (simp add: heap_wf_def)
  then show "heap_wf {} cs F (h\<lparr>mem := m\<rparr>)" by (rule heap_wf_excl) (use mc(3) in auto)
  show "keeps {c} h cs (h\<lparr>mem := m\<rparr>) cs"
  proof (rule keepsI [OF D(1)])
    show "mem (h\<lparr>mem := m\<rparr>) y = mem h y \<or> y \<in> set cs \<or> (\<exists>x\<in>{c}. x \<in> set cs \<and> x < y \<and> y < x + h_size (mem h x))" for y
      using w [unfolded payload_write_def, rule_format, of y] cc(1) by (auto split: if_splits)
  qed (use out in auto)
  have "h_allocated (m x) = h_allocated (mem h x)" if "x \<in> set cs" for x
    using out [OF that] mc(3) cc(2) by (cases "x = c") auto
  then show "live_in (h\<lparr>mem := m\<rparr>) cs = live_in h cs" by (auto simp: live_in_def)
qed

lemma copy_cells_out: "y < d \<or> d + 8 * k \<le> y \<Longrightarrow> copy_cells m d s k y = m y"
  by (induction k arbitrary: m d s) auto

lemma copy_cells_in:
  "s + 8 * k \<le> d \<or> d + 8 * k \<le> s \<Longrightarrow> i < k \<Longrightarrow> copy_cells m d s k (d + 8 * i) = m (s + 8 * i)"
proof (induction k arbitrary: m d s i)
  case (Suc k)
  show ?case
  proof (cases i)
    case 0
    then show ?thesis by (simp add: copy_cells_out)
  next
    case (Suc j)
    have "copy_cells m d s (Suc k) (d + 8 * i) = copy_cells (m(d := m s)) (d + 8) (s + 8) k ((d + 8) + 8 * j)"
      by (simp only: copy_cells.simps Suc mult_Suc_right add.assoc)
    also have "\<dots> = (m(d := m s)) ((s + 8) + 8 * j)"
      using Suc.prems Suc by (intro Suc.IH) auto
    also have "\<dots> = m (s + 8 * i)" using Suc.prems Suc by (auto simp: add.assoc)
    finally show ?thesis .
  qed
qed simp

text \<open>\<open>n\<close> cells of payload are the same.\<close>

definition same_payload :: "heap_t \<Rightarrow> nat \<Rightarrow> heap_t \<Rightarrow> nat \<Rightarrow> nat \<Rightarrow> bool" where
  "same_payload h b h' c n =
     (h_fprev (mem h' c) = h_fprev (mem h b) \<and> h_fnext (mem h' c) = h_fnext (mem h b) \<and>
      (\<forall>i. 0 < i \<and> i < n \<longrightarrow> mem h' (c + 8 * i) = mem h (b + 8 * i)))"

lemma copy_payload_wf:
  assumes wf: "heap_wf {} cs F h" and b: "b \<in> live_in h cs" "c \<in> live_in h cs" "b \<noteq> c" "h_size (mem h b) \<le> h_size (mem h c)"
  shows "\<exists>h'. copy_payload h c b (h_size (mem h b) - 4) = Some h' \<and> heap_wf {} cs F h' \<and> keeps {c} h cs h' cs \<and>
     live_in h' cs = live_in h cs \<and> same_payload h b h' c (h_size (mem h b) div 8) \<and> heap_end h' = heap_end h \<and>
     h_size (mem h' c) = h_size (mem h c)"
proof -
  have in_cs: "b \<in> set cs" "c \<in> set cs" using b by (auto simp: live_in_def)
  note B = heap_chunk [OF wf in_cs(1)] and C = heap_chunk [OF wf in_cs(2)]
  obtain k where k: "h_size (mem h b) = 8 * Suc k" using B(2,3) by (metis mod_0_imp_dvd dvdE Suc_pred mult_0_right not_numeral_le_zero gr0I)
  have apart: "b + 8 * Suc k \<le> c \<or> c + 8 * Suc k \<le> b"
    using layout_disjoint [OF heap_wfD(1) [OF wf] in_cs] layout_disjoint [OF heap_wfD(1) [OF wf] in_cs(2,1)] b(3,4) k by linarith
  define m1 where "m1 = (mem h)(c := (mem h c)\<lparr>h_fprev := h_fprev (mem h b), h_fnext := h_fnext (mem h b)\<rparr>)"
  define m2 where "m2 = copy_cells m1 (c + 8) (b + 8) k"
  have n4: "8 * Suc k - 4 - 4 = 8 * k" by simp
  have cp: "copy_payload h c b (h_size (mem h b) - 4) = Some (h\<lparr>mem := m2\<rparr>)"
    using B(4) C(4) b(4) unfolding k copy_payload_def n4 by (simp add: m1_def m2_def Let_def)
  have m2c: "m2 c = (mem h c)\<lparr>h_fprev := h_fprev (mem h b), h_fnext := h_fnext (mem h b)\<rparr>"
    by (simp add: m2_def copy_cells_out m1_def)
  have "payload_write h c m2"
  proof -
    have "m2 y = mem h y" if "y \<noteq> c" "\<not> (c < y \<and> y < c + h_size (mem h c))" for y
      using that b(4) k by (auto simp: m2_def m1_def copy_cells_out)
    then show ?thesis by (simp add: payload_write_def m2c)
  qed
  note pw = payload_write_wf [OF wf b(2) this]
  have "m2 (c + 8 * i) = mem h (b + 8 * i)" if i: "0 < i" "i < Suc k" for i
  proof -
    obtain j where j: "i = Suc j" using i(1) by (cases i) auto
    have "m2 ((c + 8) + 8 * j) = m1 ((b + 8) + 8 * j)"
      unfolding m2_def using apart i(2) j by (intro copy_cells_in) auto
    moreover have "b + 8 + 8 * j \<noteq> c" using apart i(2) j by auto
    ultimately show ?thesis by (simp add: j m1_def add.assoc)
  qed
  then have "same_payload h b (h\<lparr>mem := m2\<rparr>) c (h_size (mem h b) div 8)" by (simp add: same_payload_def m2c k)
  then show ?thesis using cp pw m2c by auto
qed

section \<open>Reallocation\<close>

lemma same_payload_keeps:
  assumes "keeps X h cs h' cs'" "c \<in> live_in h cs" "c \<notin> X" "8 * n \<le> h_size (mem h c)"
  shows "same_payload h c h' c n"
  using assms unfolding keeps_def live_in_def same_payload_def by fastforce

lemma same_payload_trans: "same_payload h b h1 c n \<Longrightarrow> same_payload h1 c h2 d n \<Longrightarrow> same_payload h b h2 d n"
  by (simp add: same_payload_def)

lemma same_payload_mono: "same_payload h b h' c n \<Longrightarrow> k \<le> n \<Longrightarrow> same_payload h b h' c k"
  by (auto simp: same_payload_def)

text \<open>The outcomes of \<open>mem_realloc\<close> on a live block \<open>b\<close>: nothing happens; the block is freed; it stays, perhaps shrunk; or it
  moves to \<open>c\<close> with its contents.\<close>

definition realloc_ok :: "heap_t \<Rightarrow> nat list \<Rightarrow> nat \<Rightarrow> nat \<Rightarrow> nat option \<Rightarrow> heap_t \<Rightarrow> nat list \<Rightarrow> bool" where
  "realloc_ok h cs b n r h' cs' =
     (case r of
        None \<Rightarrow> if n = 0 then live_in h' cs' = live_in h cs - {b} \<and> keeps {b} h cs h' cs' else h' = h \<and> cs' = cs
      | Some p \<Rightarrow> 0 < n \<and> keeps {b} h cs h' cs' \<and> (\<exists>c. p = c + 4 \<and> n + 4 \<le> h_size (mem h' c) \<and>
          same_payload h b h' c (min (h_size (mem h b)) (h_size (mem h' c)) div 8) \<and>
          (if c = b then live_in h' cs' = live_in h cs else c \<notin> live_in h cs \<and> live_in h' cs' = insert c (live_in h cs - {b}))))"

lemma realloc_shrink:
  assumes wf: "heap_wf {} cs F h" and b: "b \<in> live_in h cs" and n: "0 < n" "n \<le> h_size (mem h b) - 4"
  shows "\<exists>h' cs' F'. (if (h_size (mem h b) + 2 ^ 32 - align_alloc_size n) mod 2 ^ 32 \<ge> 8 then split_chunk h b (align_alloc_size n) else Some h) = Some h' \<and>
     heap_wf {} cs' F' h' \<and> realloc_ok h cs b n (Some (b + 4)) h' cs'"
proof -
  let ?n = "align_alloc_size n"
  have bc: "b \<in> set cs" "h_allocated (mem h b)" using b by (auto simp: live_in_def)
  note B = heap_chunk [OF wf bc(1)]
  have n8: "?n mod 8 = 0" "n + 4 \<le> ?n" "8 \<le> ?n" using align_alloc_size_bounds [of n] align_alloc_size_eq [of n] n(1) by auto
  have le: "?n \<le> h_size (mem h b)"
  proof -
    obtain q where q: "h_size (mem h b) = 8 * q" using B(2) by (metis mod_0_imp_dvd dvdE)
    then have "(n + 11) div 8 \<le> q" using n B(3) by (simp add: div_le_mono [of "n + 11" "8 * q + 7" 8, simplified])
    then show ?thesis unfolding align_alloc_size_eq q by simp
  qed
  have rem: "(h_size (mem h b) + 2 ^ 32 - ?n) mod 2 ^ 32 = h_size (mem h b) - ?n"
  proof -
    have "(h_size (mem h b) + 2 ^ 32 - ?n) mod 2 ^ 32 = (h_size (mem h b) - ?n + 2 ^ 32) mod 2 ^ 32" using le by simp
    also have "\<dots> = h_size (mem h b) - ?n" using B(7) by (simp only: mod_add_self2) simp
    finally show ?thesis .
  qed
  show ?thesis
  proof (cases "h_size (mem h b) - ?n \<ge> 8")
    case True
    obtain as bs where cs: "cs = as @ b # bs" using bc(1) by (meson split_list)
    have wfb: "heap_wf {b} (as @ b # bs) F h" using heap_wf_excl [OF wf, of "{b}"] bc(2) cs by auto
    obtain h' F' where h': "split_chunk h b ?n = Some h'" "heap_wf {b} (as @ b # (b + ?n) # bs) F' h'" "h_allocated (mem h' b)"
       "h_size (mem h' b) = ?n" "h_fprev (mem h' b) = h_fprev (mem h b)" "h_fnext (mem h' b) = h_fnext (mem h b)"
       "\<forall>y. b < y \<and> y < b + ?n \<longrightarrow> mem h' y = mem h y" "keeps {b} h cs h' (as @ b # (b + ?n) # bs)"
       "live_in h' (as @ b # (b + ?n) # bs) = live_in h cs"
      using split_chunk_wf [OF wfb, of ?n] n8 le_diff_conv2 [OF le, of 8] True bc(2) unfolding cs by (auto simp: add.commute)
    have "heap_wf {} (as @ b # (b + ?n) # bs) F' h'" by (rule heap_wf_excl [OF h'(2)]) (use h'(3) in auto)
    moreover have "same_payload h b h' b (?n div 8)" using h'(5-7) n8 by (auto simp: same_payload_def)
    ultimately show ?thesis using h' True n n8 le rem
      by (intro exI [of _ h'] exI [of _ "as @ b # (b + ?n) # bs"] exI [of _ F']) (auto simp: realloc_ok_def min_def)
  next
    case False
    moreover have "keeps {b} h cs h cs" "same_payload h b h b k" for k by (simp_all add: keeps_def same_payload_def)
    ultimately show ?thesis using wf rem n n8(2) le
      by (intro exI [of _ h] exI [of _ cs] exI [of _ F]) (auto simp: realloc_ok_def)
  qed
qed

lemma realloc_move:
  assumes wf: "heap_wf {} cs F h" and b: "b \<in> live_in h cs"
    and a: "mem_alloc h n = Some (Ret (Some (c + 4)), h1)" "0 < n" "heap_wf {} cs1 F1 h1" "c \<notin> live_in h cs" "n + 4 \<le> h_size (mem h1 c)"
      "keeps {} h cs h1 cs1" "live_in h1 cs1 = insert c (live_in h cs)"
    and n: "h_size (mem h b) - 4 < n"
  shows "\<exists>h2 h3 cs' F'. copy_payload h1 c b (h_size (mem h b) - 4) = Some h2 \<and> mem_free h2 (b + 4) = Some (Ret (), h3) \<and>
     heap_wf {} cs' F' h3 \<and> realloc_ok h cs b n (Some (c + 4)) h3 cs'"
proof -
  have bc: "b \<in> set cs" "h_allocated (mem h b)" using b by (auto simp: live_in_def)
  have cb: "c \<noteq> b" using a(4) b by auto
  have sb: "h_size (mem h1 b) = h_size (mem h b)" using a(6) bc by (auto simp: keeps_def)
  have live1: "b \<in> live_in h1 cs1" "c \<in> live_in h1 cs1" using a(7) b by auto
  have big: "h_size (mem h1 b) \<le> h_size (mem h1 c)" using sb n a(5) by simp
  obtain h2 where h2: "copy_payload h1 c b (h_size (mem h1 b) - 4) = Some h2" "heap_wf {} cs1 F1 h2" "keeps {c} h1 cs1 h2 cs1"
     "live_in h2 cs1 = live_in h1 cs1" "same_payload h1 b h2 c (h_size (mem h1 b) div 8)" "h_size (mem h2 c) = h_size (mem h1 c)"
    using copy_payload_wf [OF a(3) live1 cb [symmetric] big] by blast
  obtain h3 cs3 F3 where h3: "mem_free h2 (b + 4) = Some (Ret (), h3)" "heap_wf {} cs3 F3 h3" "keeps {b} h2 cs1 h3 cs3"
     "live_in h3 cs3 = live_in h2 cs1 - {b}"
    using mem_free_wf [OF h2(2), of b] h2(4) live1(1) by auto
  have c2: "c \<in> live_in h2 cs1" using h2(4) live1 by simp
  have sc: "h_size (mem h3 c) = h_size (mem h1 c)" using h3(3) c2 cb h2(6) by (auto simp: keeps_def live_in_def)
  let ?k = "h_size (mem h b) div 8"
  have "same_payload h b h1 b ?k" by (rule same_payload_keeps [OF a(6) b]) auto
  moreover have "same_payload h2 c h3 c ?k" by (rule same_payload_keeps [OF h3(3) c2]) (use cb big sb h2(6) in auto)
  ultimately have sp: "same_payload h b h3 c ?k" using h2(5) same_payload_trans unfolding sb by blast
  have k: "keeps {b, c} h cs h3 cs3"
    using keeps_mono [OF a(6), of "{b, c}"] keeps_mono [OF h2(3), of "{b, c}"] keeps_mono [OF h3(3), of "{b, c}"] keeps_trans by blast
  have "keeps {b} h cs h3 cs3" by (rule keeps_mono [OF k]) (use a(4) in \<open>auto simp: live_in_def\<close>)
  then have "realloc_ok h cs b n (Some (c + 4)) h3 cs3"
    using cb sc a(2,4,5,7) h2(4) h3(4) same_payload_mono [OF sp] by (auto simp: realloc_ok_def div_le_mono)
  then show ?thesis using h2(1) h3(1,2) sb by auto
qed

theorem mem_realloc_wf:
  assumes wf: "heap_wf {} cs F h" and b: "b \<in> live_in h cs"
  shows "\<exists>r h' cs' F'. mem_realloc h (Some (b + 4)) n = Some (Ret r, h') \<and> heap_wf {} cs' F' h' \<and> realloc_ok h cs b n r h' cs'"
proof -
  have bc: "b \<in> set cs" "h_allocated (mem h b)" using b by (auto simp: live_in_def)
  note B = heap_chunk [OF wf bc(1)]
  have p: "\<not> (b + 4 < 88 \<or> b + 4 \<ge> heap_end h)" using B by linarith
  have ld: "hd_ld h b = Some (mem h b)" using B(1) by (simp add: hd_ld_def)
  consider "n = 0" | "0 < n" "size_too_big n" | "0 < n" "\<not> size_too_big n" "n \<le> h_size (mem h b) - 4"
    | "0 < n" "\<not> size_too_big n" "h_size (mem h b) - 4 < n" by linarith
  then show ?thesis
  proof cases
    case 1
    obtain h' cs' F' where "mem_free h (b + 4) = Some (Ret (), h')" "heap_wf {} cs' F' h'" "keeps {b} h cs h' cs'" "live_in h' cs' = live_in h cs - {b}"
      using mem_free_wf [OF wf b] by blast
    then show ?thesis using 1 p
      by (intro exI [of _ None] exI [of _ h'] exI [of _ cs'] exI [of _ F']) (auto simp: mem_realloc_def mem_consts realloc_ok_def)
  next
    case 2
    then show ?thesis using p wf
      by (intro exI [of _ None] exI [of _ h] exI [of _ cs] exI [of _ F]) (auto simp: mem_realloc_def mem_consts realloc_ok_def)
  next
    case 3
    obtain h' cs' F' where h': "(if (h_size (mem h b) + 2 ^ 32 - align_alloc_size n) mod 2 ^ 32 \<ge> 8 then split_chunk h b (align_alloc_size n) else Some h) = Some h'"
       "heap_wf {} cs' F' h'" "realloc_ok h cs b n (Some (b + 4)) h' cs'"
      using realloc_shrink [OF wf b 3(1,3)] by blast
    have "mem_realloc h (Some (b + 4)) n = Some (Ret (Some (b + 4)), h')"
      using 3 p chunk_valid [OF wf bc(1)] ld h'(1) unfolding mem_realloc_def HEAP_HEADER_SIZE_def ALLOC_CHUNK_HEADER_SIZE_def FREE_CHUNK_HEADER_SIZE_def Let_def
      by (auto split: if_splits)
    then show ?thesis using h' by blast
  next
    case 4
    have eq: "mem_realloc h (Some (b + 4)) n = do {
         (r, h') \<leftarrow> mem_alloc h n;
         (case r of
            Ret (Some q) \<Rightarrow> do {
              h' \<leftarrow> copy_payload h' (q - 4) b (h_size (mem h b) - 4);
              (r, h') \<leftarrow> mem_free h' (b + 4);
              Some (case r of Throw_EXCEPTION_CORRUPT \<Rightarrow> Throw_EXCEPTION_CORRUPT | Ret _ \<Rightarrow> Ret (Some q), h') }
          | _ \<Rightarrow> Some (r, h')) }"
      using 4 p chunk_valid [OF wf bc(1)] ld 
      unfolding mem_realloc_def HEAP_HEADER_SIZE_def ALLOC_CHUNK_HEADER_SIZE_def Let_def option.case add_diff_cancel_right' by simp
    from mem_alloc_wf [OF wf, of n] show ?thesis
    proof (elim disjE exE conjE)
      assume "mem_alloc h n = Some (Ret None, h)"
      then show ?thesis using eq wf 4(1)
        by (intro exI [of _ None] exI [of _ h] exI [of _ cs] exI [of _ F]) (auto simp: realloc_ok_def)
    next
      fix h1 cs1 F1 c
      assume a: "mem_alloc h n = Some (Ret (Some (c + 4)), h1)" "0 < n" "heap_wf {} cs1 F1 h1" "c \<notin> live_in h cs" "n + 4 \<le> h_size (mem h1 c)"
        "keeps {} h cs h1 cs1" "live_in h1 cs1 = insert c (live_in h cs)"
      obtain h2 h3 cs' F' where "copy_payload h1 c b (h_size (mem h b) - 4) = Some h2" "mem_free h2 (b + 4) = Some (Ret (), h3)"
          "heap_wf {} cs' F' h3" "realloc_ok h cs b n (Some (c + 4)) h3 cs'"
        using realloc_move [OF wf b a 4(3)] by blast
      then show ?thesis using eq a(1)
        by (intro exI [of _ "Some (c + 4)"] exI [of _ h3] exI [of _ cs'] exI [of _ F']) auto
    qed
  qed
qed

end
