(* ===== verification/Mem_Alloc_Spec.thy ===== *)
theory Mem_Alloc_Spec
  imports Mem_Alloc_Inv
begin

text \<open>
What a program sees of the allocator: the live blocks of a reachable heap, the contract \<open>allocator\<close> the model satisfies, and the
properties of allocation, release and resizing.
\<close>

section \<open>What a program sees\<close>

text \<open>The addresses of the chunks, the pointers to the live blocks and the sizes of their payloads.\<close>

primrec walk :: "(nat \<Rightarrow> header_t) \<Rightarrow> nat \<Rightarrow> nat \<Rightarrow> nat \<Rightarrow> nat list" where
  "walk m e a 0 = []"
| "walk m e a (Suc k) = (if a < e then a # walk m e (a + h_size (m a)) k else [])"

definition chunk_list :: "heap_t \<Rightarrow> nat list" where
  "chunk_list h = walk (mem h) (heap_end h) 88 (heap_end h)"

definition live_ptrs :: "heap_t \<Rightarrow> nat set" where
  "live_ptrs h = (\<lambda>c. c + 4) ` {c \<in> set (chunk_list h). h_allocated (mem h c)}"

definition block_size :: "heap_t \<Rightarrow> nat \<Rightarrow> nat" where
  "block_size h p = h_size (mem h (p - 4)) - 4"

text \<open>The first \<open>n\<close> bytes of two payloads are the same; \<open>n\<close> is four more than a multiple of eight.\<close>

definition same_bytes :: "heap_t \<Rightarrow> nat \<Rightarrow> heap_t \<Rightarrow> nat \<Rightarrow> nat \<Rightarrow> bool" where
  "same_bytes h p h' q n = same_payload h (p - 4) h' (q - 4) ((n + 4) div 8)"

inductive mem_reachable :: "heap_t \<Rightarrow> bool" where
  r_init: "\<lbrakk>mem_init m segs n = Some (Some h); length segs = 40\<rbrakk> \<Longrightarrow> mem_reachable h"
| r_alloc: "\<lbrakk>mem_reachable h; mem_alloc h n = Some (r, h')\<rbrakk> \<Longrightarrow> mem_reachable h'"
| r_free: "\<lbrakk>mem_reachable h; p \<in> live_ptrs h; mem_free h p = Some (r, h')\<rbrakk> \<Longrightarrow> mem_reachable h'"
| r_realloc: "\<lbrakk>mem_reachable h; p \<in> live_ptrs h; mem_realloc h (Some p) n = Some (s, h')\<rbrakk> \<Longrightarrow> mem_reachable h'"
| r_write: "\<lbrakk>mem_reachable h; p \<in> live_ptrs h; payload_write h (p - 4) m\<rbrakk> \<Longrightarrow> mem_reachable (h\<lparr>mem := m\<rparr>)"

lemma layout_walk: "layout m e p a cs \<Longrightarrow> length cs \<le> k \<Longrightarrow> walk m e a k = cs"
proof (induction cs arbitrary: p a k)
  case Nil
  then show ?case by (cases k) auto
next
  case (Cons c cs)
  then obtain k' where "k = Suc k'" by (cases k) auto
  then show ?case using Cons layout_le [OF Cons.prems(1)] by auto
qed

lemma layout_length: "layout m e p a cs \<Longrightarrow> a + 8 * length cs \<le> e"
  by (induction cs arbitrary: p a) fastforce+

lemma heap_view:
  assumes "heap_wf {} cs F h"
  shows "chunk_list h = cs" "live_ptrs h = (\<lambda>c. c + 4) ` live_in h cs"
proof -
  have l: "layout (mem h) (heap_end h) 0 88 cs" using heap_wfD(1) [OF assms] .
  show "chunk_list h = cs" unfolding chunk_list_def by (rule layout_walk [OF l]) (use layout_length [OF l] in simp)
  then show "live_ptrs h = (\<lambda>c. c + 4) ` live_in h cs" by (simp add: live_ptrs_def live_in_def)
qed

lemma mem_reachable_wf: "mem_reachable h \<Longrightarrow> \<exists>cs F. heap_wf {} cs F h"
proof (induction rule: mem_reachable.induct)
  case (r_init m segs n h)
  then show ?case using mem_init_wf by blast
next
  case (r_alloc h n r h')
  then obtain cs F where wf: "heap_wf {} cs F h" by blast
  from mem_alloc_wf [OF wf, of n] show ?case using r_alloc.hyps(2) wf by auto
next
  case (r_free h p r h')
  then obtain cs F where wf: "heap_wf {} cs F h" by blast
  then obtain b where "b \<in> live_in h cs" "p = b + 4" using r_free.hyps(2) heap_view(2) by auto
  then show ?case using mem_free_wf [OF wf, of b] r_free.hyps(3) by auto
next
  case (r_realloc h p n s h')
  then obtain cs F where wf: "heap_wf {} cs F h" by blast
  then obtain b where "b \<in> live_in h cs" "p = b + 4" using r_realloc.hyps(2) heap_view(2) by auto
  then show ?case using mem_realloc_wf [OF wf, of b n] r_realloc.hyps(3) by auto
next
  case (r_write h p m)
  then obtain cs F where wf: "heap_wf {} cs F h" by blast
  then obtain b where "b \<in> live_in h cs" "p = b + 4" using r_write.hyps(2) heap_view(2) by auto
  then show ?case using payload_write_wf(1) [OF wf, of b m] r_write.hyps(3) by auto
qed

lemma keeps_bytes:
  assumes "heap_wf {} cs F h" "heap_wf {} cs' F' h'" "keeps X h cs h' cs'" "q \<in> live_ptrs h" "q - 4 \<notin> X"
  shows "q \<in> live_ptrs h'" "block_size h' q = block_size h q" "same_bytes h q h' q (block_size h q)"
proof -
  obtain c where c: "c \<in> live_in h cs" "q = c + 4" using assms(4) heap_view(2) [OF assms(1)] by auto
  have k: "c \<in> live_in h' cs'" "h_size (mem h' c) = h_size (mem h c)" using assms(3,5) c by (auto simp: keeps_def live_in_def)
  show "q \<in> live_ptrs h'" "block_size h' q = block_size h q" using k c(2) heap_view(2) [OF assms(2)] by (auto simp: block_size_def)
  have s: "8 \<le> h_size (mem h c)" "h_size (mem h c) mod 8 = 0" using heap_chunk(2,3) [OF assms(1), of c] c(1) by (auto simp: live_in_def)
  have "same_payload h c h' c (h_size (mem h c) div 8)"
    by (rule same_payload_keeps [OF assms(3) c(1)]) (use assms(5) c(2) in auto)
  then show "same_bytes h q h' q (block_size h q)" using s c(2) by (simp add: same_bytes_def block_size_def)
qed

section \<open>Statistics\<close>

lemma parse_callback_step:
  "0 < n \<Longrightarrow> parse_callback t a al n =
     (False, t\<lparr>total_size := total_size t + n, free_size := free_size t + (if al then 0 else n),
       allocated_size := allocated_size t + (if al then n else 0), nb_chunks := nb_chunks t + 1,
       nb_allocated := nb_allocated t + (if al then 1 else 0)\<rparr>)"
  by (simp add: parse_callback_def Let_def)

lemma parse_stat:
  "layout (mem h) (heap_end h) p a cs \<Longrightarrow> cs \<noteq> [] \<Longrightarrow> \<forall>c\<in>set cs. hd_ok h c \<Longrightarrow>
     parse_loop h parse_callback a t =
     Some \<lparr>total_size = total_size t + (heap_end h - a),
       free_size = free_size t + (\<Sum>c\<leftarrow>filter (\<lambda>c. \<not> h_allocated (mem h c)) cs. h_size (mem h c)),
       allocated_size = allocated_size t + (\<Sum>c\<leftarrow>filter (\<lambda>c. h_allocated (mem h c)) cs. h_size (mem h c)),
       nb_chunks = nb_chunks t + length cs,
       nb_allocated = nb_allocated t + length (filter (\<lambda>c. h_allocated (mem h c)) cs)\<rparr>"
proof (induction cs arbitrary: p a t)
  case (Cons c cs)
  have c: "c = a" "8 \<le> h_size (mem h a)" "layout (mem h) (heap_end h) a (a + h_size (mem h a)) cs" "hd_ok h a"
    using Cons.prems by auto
  note le = layout_le [OF c(3)]
  have ld: "hd_ld h a = Some (mem h a)" using c(4) by (simp add: hd_ld_def)
  show ?case
  proof (cases cs)
    case Nil
    then show ?thesis using c ld by (subst parse_loop.simps) (auto simp: parse_callback_step)
  next
    case (Cons d ds)
    then show ?thesis
      using c ld le Cons.IH [OF c(3)] Cons.prems
      by (subst parse_loop.simps) (auto simp: parse_callback_step)
  qed
qed simp

lemma layout_sizes: "layout m e p a cs \<Longrightarrow> (\<Sum>c\<leftarrow>cs. h_size (m c)) = e - a"
proof (induction cs arbitrary: p a)
  case (Cons c cs)
  then show ?case using layout_le [of m e a "a + h_size (m a)" cs] by fastforce
qed simp

lemma sum_list_filter_split: "(\<Sum>c\<leftarrow>filter P cs. f c) + (\<Sum>c\<leftarrow>filter (\<lambda>c. \<not> P c) cs. f c) = (\<Sum>c\<leftarrow>cs. f c :: nat)"
  by (induction cs) auto

text \<open>\<open>mem_stat\<close> counts every byte of the heap once and every live block.\<close>

lemma mem_stat_spec:
  assumes "mem_reachable h"
  shows "\<exists>t. mem_stat h = Some t \<and> total_size t = heap_end h \<and> 88 + allocated_size t + free_size t = heap_end h \<and>
     nb_chunks t = length (chunk_list h) \<and> nb_allocated t = card (live_ptrs h)"
proof -
  obtain cs F where wf: "heap_wf {} cs F h" using mem_reachable_wf [OF assms] by blast
  have l: "layout (mem h) (heap_end h) 0 88 cs" using heap_wfD(1) [OF wf] .
  have ne: "cs \<noteq> []" using l heap_wfD(3) [OF wf] by auto
  have v: "chunk_list h = cs" "live_ptrs h = (\<lambda>c. c + 4) ` live_in h cs" using heap_view [OF wf] by auto
  have "card (live_ptrs h) = length (filter (\<lambda>c. h_allocated (mem h c)) cs)"
  proof -
    have "live_in h cs = set (filter (\<lambda>c. h_allocated (mem h c)) cs)" by (auto simp: live_in_def)
    then have "card (live_in h cs) = length (filter (\<lambda>c. h_allocated (mem h c)) cs)"
      using distinct_card [OF distinct_filter [OF layout_distinct [OF l]], of "\<lambda>c. h_allocated (mem h c)"] by simp
    then show ?thesis unfolding v(2) by (simp add: card_image)
  qed
  moreover have "\<forall>c\<in>set cs. hd_ok h c" using heap_chunk(1) [OF wf] by blast
  ultimately show ?thesis
    using parse_stat [OF l ne] layout_le [OF l] layout_sizes [OF l]
      sum_list_filter_split [of "\<lambda>c. h_size (mem h c)" "\<lambda>c. h_allocated (mem h c)" cs]
    by (auto simp: mem_stat_def mem_parse_def HEAP_HEADER_SIZE_def v(1))
qed

section \<open>The allocator contract\<close>

text \<open>What a client relies on: \<open>ok\<close> states, the pointers to their live blocks, the sizes of the blocks, and that a block
  of one state is untouched in another.\<close>

locale allocator =
  fixes ok :: "'h \<Rightarrow> bool"
    and live :: "'h \<Rightarrow> nat set"
    and same :: "'h \<Rightarrow> 'h \<Rightarrow> nat \<Rightarrow> bool"
    and room :: "'h \<Rightarrow> nat \<Rightarrow> nat"
    and alloc :: "'h \<Rightarrow> nat \<Rightarrow> (nat option mem_out \<times> 'h) option"
    and free :: "'h \<Rightarrow> nat \<Rightarrow> (unit mem_out \<times> 'h) option"
  assumes same_trans: "same h h1 p \<Longrightarrow> same h1 h2 p \<Longrightarrow> same h h2 p"
    and alloc_total: "ok h \<Longrightarrow> \<exists>r h'. alloc h n = Some (Ret r, h')"
    and alloc_ok: "ok h \<Longrightarrow> alloc h n = Some (r, h') \<Longrightarrow> ok h'"
    and alloc_null: "ok h \<Longrightarrow> alloc h n = Some (Ret None, h') \<Longrightarrow> h' = h"
    and alloc_some: "ok h \<Longrightarrow> alloc h n = Some (Ret (Some p), h') \<Longrightarrow>
      p \<notin> live h \<and> live h' = insert p (live h) \<and> n \<le> room h' p \<and> (\<forall>q\<in>live h. same h h' q)"
    and free_live: "ok h \<Longrightarrow> p \<in> live h \<Longrightarrow>
      \<exists>h'. free h p = Some (Ret (), h') \<and> ok h' \<and> live h' = live h - {p} \<and> (\<forall>q\<in>live h - {p}. same h h' q)"
begin

lemma alloc_free_live:
  assumes "ok h" "alloc h n = Some (Ret (Some p), h1)"
  shows "\<exists>h2. free h1 p = Some (Ret (), h2) \<and> ok h2 \<and> live h2 = live h \<and> (\<forall>q\<in>live h. same h h2 q)"
proof -
  have a: "p \<notin> live h" "live h1 = insert p (live h)" "\<forall>q\<in>live h. same h h1 q"
    using alloc_some [OF assms] by auto
  obtain h2 where f: "free h1 p = Some (Ret (), h2)" "ok h2" "live h2 = live h1 - {p}" "\<forall>q\<in>live h1 - {p}. same h1 h2 q"
    using free_live [OF alloc_ok [OF assms], of p] a(2) by auto
  have "same h h2 q" if "q \<in> live h" for q
    using same_trans [of h h1 q h2] that a f(4) by blast
  then show ?thesis using f(1,2,3) a(1,2) by auto
qed

end

lemma live_bounds:
  assumes "mem_reachable h" "p \<in> live_ptrs h"
  shows "92 \<le> p" "p mod 8 = 4" "p + block_size h p \<le> heap_end h"
proof -
  obtain cs F where wf: "heap_wf {} cs F h" using mem_reachable_wf [OF assms(1)] by blast
  obtain c where c: "c \<in> set cs" "p = c + 4" using assms(2) heap_view(2) [OF wf] by (auto simp: live_in_def)
  note C = heap_chunk [OF wf c(1)]
  show "92 \<le> p" using C c(2) by linarith
  show "p mod 8 = 4" using C(6) c(2) by presburger
  show "p + block_size h p \<le> heap_end h" using C c(2) by (simp add: block_size_def)
qed

lemma live_disjoint:
  assumes "mem_reachable h" "p \<in> live_ptrs h" "q \<in> live_ptrs h" "p < q"
  shows "p + block_size h p \<le> q"
proof -
  obtain cs F where wf: "heap_wf {} cs F h" using mem_reachable_wf [OF assms(1)] by blast
  obtain c d where c: "c \<in> set cs" "p = c + 4" "d \<in> set cs" "q = d + 4"
    using assms(2,3) heap_view(2) [OF wf] by (auto simp: live_in_def)
  show ?thesis
    using layout_disjoint [OF heap_wfD(1) [OF wf] c(1,3)] heap_chunk [OF wf c(1)] c(2,4) assms(4) by (simp add: block_size_def)
qed

lemma alloc_cases:
  assumes "mem_reachable h"
  shows "mem_alloc h n = Some (Ret None, h) \<or>
     (\<exists>p h'. mem_alloc h n = Some (Ret (Some p), h') \<and> 0 < n \<and> p \<notin> live_ptrs h \<and> live_ptrs h' = insert p (live_ptrs h) \<and>
        n \<le> block_size h' p \<and>
        (\<forall>q\<in>live_ptrs h. block_size h' q = block_size h q \<and> same_bytes h q h' q (block_size h q)))"
proof -
  obtain cs F where wf: "heap_wf {} cs F h" using mem_reachable_wf [OF assms] by blast
  from mem_alloc_wf [OF wf, of n] show ?thesis
  proof (elim disjE exE conjE)
    fix h' cs' F' c
    assume a: "mem_alloc h n = Some (Ret (Some (c + 4)), h')" "0 < n" "c \<notin> live_in h cs" "n + 4 \<le> h_size (mem h' c)"
      "live_in h' cs' = insert c (live_in h cs)" and wf': "heap_wf {} cs' F' h'" and k: "keeps {} h cs h' cs'"
    have "c + 4 \<notin> live_ptrs h" "live_ptrs h' = insert (c + 4) (live_ptrs h)"
      using a heap_view(2) [OF wf] heap_view(2) [OF wf'] by auto
    moreover have "n \<le> block_size h' (c + 4)" using a(4) by (simp add: block_size_def)
    ultimately show ?thesis using a(1,2) keeps_bytes [OF wf wf' k] by auto
  qed simp
qed

lemma free_cases:
  assumes "mem_reachable h" "p \<in> live_ptrs h"
  shows "\<exists>h'. mem_free h p = Some (Ret (), h') \<and> live_ptrs h' = live_ptrs h - {p} \<and>
     (\<forall>q\<in>live_ptrs h - {p}. block_size h' q = block_size h q \<and> same_bytes h q h' q (block_size h q))"
proof -
  obtain cs F where wf: "heap_wf {} cs F h" using mem_reachable_wf [OF assms(1)] by blast
  obtain c where c: "c \<in> live_in h cs" "p = c + 4" using assms(2) heap_view(2) [OF wf] by auto
  from mem_free_wf [OF wf c(1)] show ?thesis
  proof (elim exE conjE)
    fix h' cs' F'
    assume a: "mem_free h (c + 4) = Some (Ret (), h')" "live_in h' cs' = live_in h cs - {c}"
      and wf': "heap_wf {} cs' F' h'" and k: "keeps {c} h cs h' cs'"
    have "live_ptrs h' = live_ptrs h - {p}" using a(2) c(2) heap_view(2) [OF wf] heap_view(2) [OF wf'] by auto
    moreover have "block_size h' q = block_size h q \<and> same_bytes h q h' q (block_size h q)" if q: "q \<in> live_ptrs h - {p}" for q
    proof -
      have "q - 4 \<notin> {c}" using q c(2) live_bounds(1) [OF assms(1), of q] by auto
      then show ?thesis using keeps_bytes(2,3) [OF wf wf' k] q by blast
    qed
    ultimately show ?thesis using a(1) c(2) by blast
  qed
qed

lemma same_bytes_trans: "same_bytes h p h1 q n \<Longrightarrow> same_bytes h1 q h2 r n \<Longrightarrow> same_bytes h p h2 r n"
  unfolding same_bytes_def by (rule same_payload_trans)

interpretation ma: allocator mem_reachable live_ptrs
  "\<lambda>h h' q. block_size h' q = block_size h q \<and> same_bytes h q h' q (block_size h q)" block_size mem_alloc mem_free
proof unfold_locales
  fix h n assume r: "mem_reachable h"
  show "\<exists>r h'. mem_alloc h n = Some (Ret r, h')" using alloc_cases [OF r, of n] by blast
  fix r h' assume "mem_alloc h n = Some (r, h')"
  then show "mem_reachable h'" using r mem_reachable.r_alloc by blast
next
  fix h n h' assume "mem_reachable h" "mem_alloc h n = Some (Ret None, h')"
  then show "h' = h" using alloc_cases [of h n] by auto
next
  fix h n p h' assume "mem_reachable h" "mem_alloc h n = Some (Ret (Some p), h')"
  then show "p \<notin> live_ptrs h \<and> live_ptrs h' = insert p (live_ptrs h) \<and> n \<le> block_size h' p \<and>
      (\<forall>q\<in>live_ptrs h. block_size h' q = block_size h q \<and> same_bytes h q h' q (block_size h q))"
    using alloc_cases [of h n] by auto
next
  fix h p assume "mem_reachable h" "p \<in> live_ptrs h"
  then show "\<exists>h'. mem_free h p = Some (Ret (), h') \<and> mem_reachable h' \<and> live_ptrs h' = live_ptrs h - {p} \<and>
      (\<forall>q\<in>live_ptrs h - {p}. block_size h' q = block_size h q \<and> same_bytes h q h' q (block_size h q))"
    using free_cases [of h p] mem_reachable.r_free by metis
qed (auto intro: same_bytes_trans)

section \<open>Resizing\<close>

lemma same_bytes_self: "same_bytes h p h p n"
  by (simp add: same_bytes_def same_payload_def)

lemma realloc_cases:
  assumes "mem_reachable h" "p \<in> live_ptrs h"
  shows "\<exists>r h'. mem_realloc h (Some p) n = Some (Ret r, h') \<and>
     (case r of
        None \<Rightarrow> if n = 0 then live_ptrs h' = live_ptrs h - {p} else h' = h
      | Some q \<Rightarrow> 0 < n \<and> n \<le> block_size h' q \<and> same_bytes h p h' q (min (block_size h p) (block_size h' q)) \<and>
          q \<notin> live_ptrs h - {p} \<and> live_ptrs h' = insert q (live_ptrs h - {p})) \<and>
     (\<forall>q\<in>live_ptrs h - {p}. block_size h' q = block_size h q \<and> same_bytes h q h' q (block_size h q))"
proof -
  obtain cs F where wf: "heap_wf {} cs F h" using mem_reachable_wf [OF assms(1)] by blast
  obtain b where b: "b \<in> live_in h cs" "p = b + 4" using assms(2) heap_view(2) [OF wf] by auto
  obtain r h' cs' F' where e: "mem_realloc h (Some p) n = Some (Ret r, h')" and wf': "heap_wf {} cs' F' h'"
    and ok: "realloc_ok h cs b n r h' cs'"
    using mem_realloc_wf [OF wf b(1), of n] b(2) by blast
  note v = heap_view(2) [OF wf] heap_view(2) [OF wf']
  have others: "block_size h' q = block_size h q \<and> same_bytes h q h' q (block_size h q)" if q: "q \<in> live_ptrs h - {p}" for q
  proof (cases "keeps {b} h cs h' cs'")
    case True
    have "q - 4 \<notin> {b}" using q b(2) live_bounds(1) [OF assms(1), of q] by auto
    then show ?thesis using keeps_bytes(2,3) [OF wf wf' True] q by blast
  next
    case False
    then have "h' = h" using ok by (auto simp: realloc_ok_def split: option.splits if_splits)
    then show ?thesis by (simp add: same_bytes_self)
  qed
  have "case r of
        None \<Rightarrow> if n = 0 then live_ptrs h' = live_ptrs h - {p} else h' = h
      | Some q \<Rightarrow> 0 < n \<and> n \<le> block_size h' q \<and> same_bytes h p h' q (min (block_size h p) (block_size h' q)) \<and>
          q \<notin> live_ptrs h - {p} \<and> live_ptrs h' = insert q (live_ptrs h - {p})"
  proof (cases r)
    case None
    then show ?thesis using ok v b(2) by (auto simp: realloc_ok_def)
  next
    case (Some q)
    then obtain c where c: "q = c + 4" "0 < n" "n + 4 \<le> h_size (mem h' c)"
        "same_payload h b h' c (min (h_size (mem h b)) (h_size (mem h' c)) div 8)"
        "c = b \<and> live_in h' cs' = live_in h cs \<or> c \<noteq> b \<and> c \<notin> live_in h cs \<and> live_in h' cs' = insert c (live_in h cs - {b})"
      using ok by (auto simp: realloc_ok_def split: if_splits)
    have l: "c \<notin> live_in h cs - {b} \<and> live_in h' cs' = insert c (live_in h cs - {b})" using c(5) b(1) by auto
    have "8 \<le> h_size (mem h b)" "8 \<le> h_size (mem h' c)"
      using heap_chunk(3) [OF wf, of b] heap_chunk(3) [OF wf', of c] l b(1) by (auto simp: live_in_def)
    then have "min (block_size h p) (block_size h' q) + 4 = min (h_size (mem h b)) (h_size (mem h' c))"
      using b(2) c(1) by (simp add: block_size_def)
    then have "same_bytes h p h' q (min (block_size h p) (block_size h' q))"
      using c(4) b(2) c(1) by (simp add: same_bytes_def)
    moreover have "q \<notin> live_ptrs h - {p} \<and> live_ptrs h' = insert q (live_ptrs h - {p})"
      unfolding v using l b(2) c(1) by auto
    moreover have "n \<le> block_size h' q" using c(1,3) by (simp add: block_size_def)
    ultimately show ?thesis using Some c(2) by simp
  qed
  then show ?thesis using e others by blast
qed

section \<open>Properties\<close>

text \<open>A heap of 200 bytes, and the same heap after a request of 20 bytes.\<close>

definition heap200 :: heap_t where
  "heap200 = \<lparr>heap_end = 200, nb_segs = 2, free_segments = (replicate 40 0)[7 := 11],
     mem = (\<lambda>_. zero_header)(88 := zero_header\<lparr>h_size := 112\<rparr>)\<rparr>"

definition heap200a :: heap_t where
  "heap200a = \<lparr>heap_end = 200, nb_segs = 2, free_segments = (replicate 40 0)[7 := 0, 5 := 14],
     mem = (\<lambda>_. zero_header)(88 := zero_header\<lparr>h_size := 24, h_allocated := True\<rparr>, 112 := zero_header\<lparr>h_size := 88, h_phys_prev := 11\<rparr>)\<rparr>"

lemma msb_idx_112: "msb_idx 112 = 6" "msb_idx 88 = 6" "msb_idx 24 = 4" "msb_idx 32 = 5"
  by (rule msb_idx_unique; simp)+

lemma segs200: "memset_n (replicate 40 0) 0 0 8 = Some (replicate 40 (0 :: nat))"
  by (simp add: memset_n_def st_n_def replicate_add [symmetric])

lemmas heap_eval = mem_consts builtin_clz_def msb_idx_112 size_too_big_def align_alloc_size_def seglist_index_def seglist_index_up_def
  GET_SEGMENT_def sub_segment_shift_def hd_upd_def hd_ld_def hd_ok_def set_phys_prev_def set_size_def GET_IDX_def GET_PTR_def
  list_push_def set_seg_def ld_def st_def zero_header_def ensure_chunk_valid_def seg_remove_def split_chunk_def Let_def

lemma heap200_init: "mem_init (\<lambda>_. zero_header) (replicate 40 0) 200 = Some (Some heap200)"
  by (simp add: mem_init_def heap200_def heap_eval segs200)

lemma heap200a_alloc: "mem_alloc heap200 20 = Some (Ret (Some 92), heap200a)"
proof -
  have l: "alloc_loop heap200 24 2 = alloc_chunk heap200 7 11 24"
    by (simp add: alloc_loop.simps [of _ _ 2] alloc_loop.simps [of _ _ 3] alloc_loop.simps [of _ _ 4] alloc_loop.simps [of _ _ 5]
      alloc_loop.simps [of _ _ 6] alloc_loop.simps [of _ _ 7] heap200_def mem_consts ld_def numeral_2_eq_2 [symmetric])
  have "mem_alloc heap200 20 = alloc_loop heap200 24 2"
    by (simp add: mem_alloc_def heap200_def heap_eval numeral_2_eq_2 [symmetric])
  also have "\<dots> = Some (Ret (Some 92), heap200a)"
    unfolding l
    by (simp add: alloc_chunk_def heap200_def heap200a_def heap_eval fun_eq_iff)
  finally show ?thesis .
qed

lemma heap200_reachable: "mem_reachable heap200" "mem_reachable heap200a"
proof -
  show r: "mem_reachable heap200" by (rule mem_reachable.r_init [OF heap200_init]) simp
  show "mem_reachable heap200a" by (rule mem_reachable.r_alloc [OF r heap200a_alloc])
qed

lemma heap200_live: "live_ptrs heap200 = {}" "live_ptrs heap200a = {92}"
proof -
  show l: "live_ptrs heap200 = {}"
    using mem_init_wf [OF heap200_init] heap_view(2) by auto
  show "live_ptrs heap200a = {92}"
    using ma.alloc_some [OF heap200_reachable(1) heap200a_alloc] l by simp
qed

text \<open>Property C19.  Heap safety: after any sequence of requests and of writes to live blocks from a fresh heap, a request, and the release or resizing of
  a live block, finish and return; none raises the corruption exception or accesses memory outside the heap.  The live blocks lie inside the heap after its header, at addresses
  four more than a multiple of eight, and are disjoint.\<close>

theorem mem_heap_safe:
  assumes "mem_reachable h"
  shows "(\<forall>n. \<exists>r h'. mem_alloc h n = Some (Ret r, h')) \<and>
     (\<forall>p\<in>live_ptrs h. (\<exists>h'. mem_free h p = Some (Ret (), h')) \<and> (\<forall>n. \<exists>r h'. mem_realloc h (Some p) n = Some (Ret r, h'))) \<and>
     (\<forall>p\<in>live_ptrs h. 92 \<le> p \<and> p mod 8 = 4 \<and> p + block_size h p \<le> heap_end h) \<and>
     (\<forall>p\<in>live_ptrs h. \<forall>q\<in>live_ptrs h. p \<noteq> q \<longrightarrow> p + block_size h p \<le> q \<or> q + block_size h q \<le> p)"
proof (intro conjI ballI allI impI)
  fix p q assume "p \<in> live_ptrs h" "q \<in> live_ptrs h" "p \<noteq> q"
  then show "p + block_size h p \<le> q \<or> q + block_size h q \<le> p"
    using live_disjoint [OF assms, of p q] live_disjoint [OF assms, of q p] by (cases "p < q") auto
next
  fix n show "\<exists>r h'. mem_alloc h n = Some (Ret r, h')" by (rule ma.alloc_total [OF assms])
next
  fix p assume "p \<in> live_ptrs h"
  from ma.free_live [OF assms this] show "\<exists>h'. mem_free h p = Some (Ret (), h')" by (elim exE conjE) (rule exI)
next
  fix p n assume "p \<in> live_ptrs h"
  from realloc_cases [OF assms this, of n] show "\<exists>r h'. mem_realloc h (Some p) n = Some (Ret r, h')"
    by (elim exE conjE) (intro exI)
qed (simp_all add: live_bounds [OF assms])

theorem mem_heap_safe_witness:
  "(\<exists>r h'. mem_alloc heap200a 8 = Some (Ret r, h')) \<and> (\<exists>h'. mem_free heap200a 92 = Some (Ret (), h')) \<and>
   92 + block_size heap200a 92 \<le> 200"
proof -
  have "heap_end heap200a = 200" by (simp add: heap200a_def)
  then show ?thesis using mem_heap_safe [OF heap200_reachable(2)] heap200_live(2) by simp
qed

text \<open>Property C20.  A request that is served returns a new block of at least the requested size; every other live block keeps its size and its bytes.  One
  that is not served returns NULL and changes nothing.\<close>

theorem mem_alloc_spec:
  assumes "mem_reachable h" "mem_alloc h n = Some (Ret r, h')"
  shows "case r of
       None \<Rightarrow> h' = h
     | Some p \<Rightarrow> 0 < n \<and> p \<notin> live_ptrs h \<and> live_ptrs h' = insert p (live_ptrs h) \<and> n \<le> block_size h' p \<and>
         (\<forall>q\<in>live_ptrs h. block_size h' q = block_size h q \<and> same_bytes h q h' q (block_size h q))"
  using alloc_cases [OF assms(1), of n] assms(2) by auto

theorem mem_alloc_spec_witness: "20 \<le> block_size heap200a 92 \<and> live_ptrs heap200a = insert 92 (live_ptrs heap200)"
  using mem_alloc_spec [OF heap200_reachable(1) heap200a_alloc] by simp

text \<open>Property C21.  A live block can be released: exactly its pointer leaves the live ones, and every other live block keeps its size and its bytes; releasing
  the block of a served request restores the live blocks from before it.\<close>

theorem mem_free_spec:
  assumes "mem_reachable h"
  shows "(\<forall>p\<in>live_ptrs h. \<exists>h'. mem_free h p = Some (Ret (), h') \<and> live_ptrs h' = live_ptrs h - {p} \<and>
       (\<forall>q\<in>live_ptrs h - {p}. block_size h' q = block_size h q \<and> same_bytes h q h' q (block_size h q))) \<and>
     (\<forall>n p h1. mem_alloc h n = Some (Ret (Some p), h1) \<longrightarrow>
       (\<exists>h2. mem_free h1 p = Some (Ret (), h2) \<and> live_ptrs h2 = live_ptrs h \<and>
          (\<forall>q\<in>live_ptrs h. block_size h2 q = block_size h q \<and> same_bytes h q h2 q (block_size h q))))"
proof (intro conjI ballI allI impI)
  fix n p h1 assume "mem_alloc h n = Some (Ret (Some p), h1)"
  from ma.alloc_free_live [OF assms this]
  show "\<exists>h2. mem_free h1 p = Some (Ret (), h2) \<and> live_ptrs h2 = live_ptrs h \<and>
          (\<forall>q\<in>live_ptrs h. block_size h2 q = block_size h q \<and> same_bytes h q h2 q (block_size h q))"
    by (elim exE conjE) (intro exI conjI)
qed (rule free_cases [OF assms])

theorem mem_free_spec_witness: "\<exists>h'. mem_free heap200a 92 = Some (Ret (), h') \<and> live_ptrs h' = {}"
  using mem_free_spec [OF heap200_reachable(2)] heap200_live(2) by auto

text \<open>Property C22.  Resizing a live block to a positive size either returns NULL and changes nothing, or returns a block of at least the new size that
  starts with the bytes of the old one, up to the smaller of the two sizes, in place of the old one.  Resizing to 0 releases it.  Every other live block keeps its size and its bytes.\<close>

theorem mem_realloc_spec:
  assumes "mem_reachable h" "p \<in> live_ptrs h" "mem_realloc h (Some p) n = Some (Ret r, h')"
  shows "(case r of
        None \<Rightarrow> if n = 0 then live_ptrs h' = live_ptrs h - {p} else h' = h
      | Some q \<Rightarrow> 0 < n \<and> n \<le> block_size h' q \<and> same_bytes h p h' q (min (block_size h p) (block_size h' q)) \<and>
          q \<notin> live_ptrs h - {p} \<and> live_ptrs h' = insert q (live_ptrs h - {p})) \<and>
     (\<forall>q\<in>live_ptrs h - {p}. block_size h' q = block_size h q \<and> same_bytes h q h' q (block_size h q))"
  using realloc_cases [OF assms(1,2), of n] assms(3) by auto

theorem mem_realloc_spec_witness:
  "\<exists>r h'. mem_realloc heap200a (Some 92) 0 = Some (Ret r, h') \<and> (r = None \<longrightarrow> live_ptrs h' = {})"
proof -
  have p: "92 \<in> live_ptrs heap200a" using heap200_live(2) by simp
  obtain r h' where e: "mem_realloc heap200a (Some 92) 0 = Some (Ret r, h')"
    using realloc_cases [OF heap200_reachable(2) p] by blast
  then show ?thesis using mem_realloc_spec [OF heap200_reachable(2) p e] heap200_live(2) by auto
qed

end
