(* ===== verification/Digits.thy ===== *)
theory Digits
  imports Prelude
begin

text \<open>
Numbers in positional notation, shared by the text formats: the value of a list of digits and the shortest notation of a number.
\<close>

section \<open>Positional notation\<close>

definition digits_val :: "nat \<Rightarrow> nat list \<Rightarrow> nat" where
  "digits_val b ds = foldl (\<lambda>v d. v * b + d) 0 ds"

text \<open>The shortest notation, most significant digit first; nothing for 0.\<close>

fun digits_of :: "nat \<Rightarrow> nat \<Rightarrow> nat list" where
  "digits_of b n = (if n = 0 \<or> b < 2 then [] else digits_of b (n div b) @ [n mod b])"

declare digits_of.simps [simp del]

lemma digits_val_simps [simp]:
  "digits_val b [] = 0" "digits_val b (ds @ [d]) = digits_val b ds * b + d" "digits_val b [d] = d"
  by (simp_all add: digits_val_def)

lemma digits_of_0 [simp]: "digits_of b 0 = []"
  by (simp add: digits_of.simps)

lemma digits_val_append: "digits_val b (xs @ ys) = digits_val b xs * b ^ length ys + digits_val b ys"
proof (induction ys rule: rev_induct)
  case (snoc y ys)
  then show ?case by (simp add: append_assoc [symmetric] algebra_simps del: append_assoc)
qed simp

lemma digits_val_Cons: "digits_val b (d # ds) = d * b ^ length ds + digits_val b ds"
  using digits_val_append [of b "[d]" ds] by simp

lemma digits_val_zeros [simp]: "digits_val b (replicate n 0 @ ds) = digits_val b ds"
  by (induction n) (simp_all add: digits_val_Cons)

lemma digits_val_bound: "\<forall>d\<in>set ds. d < b \<Longrightarrow> digits_val b ds < b ^ length ds"
proof (induction ds rule: rev_induct)
  case (snoc d ds)
  have "digits_val b ds * b + d < (digits_val b ds + 1) * b" using snoc.prems by simp
  also have "\<dots> \<le> b ^ length ds * b" using snoc by (intro mult_right_mono) auto
  finally show ?case by (simp add: mult.commute)
qed simp

lemma digits_of_less: "d \<in> set (digits_of b n) \<Longrightarrow> d < b"
proof (induction b n rule: digits_of.induct)
  case (1 b n)
  then show ?case by (subst (asm) (2) digits_of.simps) (auto split: if_splits)
qed

lemma digits_val_of [simp]: "2 \<le> b \<Longrightarrow> digits_val b (digits_of b n) = n"
proof (induction b n rule: digits_of.induct)
  case (1 b n)
  then show ?case by (subst digits_of.simps) auto
qed

lemma digits_val_0_iff: "0 < b \<Longrightarrow> digits_val b ds = 0 \<longleftrightarrow> (\<forall>d\<in>set ds. d = 0)"
  by (induction ds) (auto simp: digits_val_Cons)

text \<open>Cutting leading zeros gives the shortest notation.\<close>

lemma digits_of_val:
  assumes "2 \<le> b" "\<forall>d\<in>set ds. d < b"
  shows "digits_of b (digits_val b ds) = dropWhile (\<lambda>d. d = 0) ds"
  using assms(2)
proof (induction ds rule: rev_induct)
  case (snoc d ds)
  then have d: "d < b" and IH: "digits_of b (digits_val b ds) = dropWhile (\<lambda>d. d = 0) ds" by auto
  show ?case
  proof (cases "\<forall>x\<in>set ds. x = 0")
    case True
    then have "digits_val b ds = 0" using assms(1) by (simp add: digits_val_0_iff)
    then show ?thesis using True d assms(1) by (subst digits_of.simps) (auto simp: dropWhile_append2)
  next
    case False
    then have "0 < digits_val b ds" using assms(1) digits_val_0_iff [of b ds] by auto
    then have "digits_of b (digits_val b (ds @ [d])) = digits_of b (digits_val b ds) @ [d]"
      using assms(1) d by (subst digits_of.simps) auto
    moreover have "dropWhile (\<lambda>d. d = 0) (ds @ [d]) = dropWhile (\<lambda>d. d = 0) ds @ [d]"
      using False by (auto simp: dropWhile_append1)
    ultimately show ?thesis using IH by simp
  qed
qed simp

lemma digits_of_hd: "digits_of b n = d # ds \<Longrightarrow> d \<noteq> 0"
proof (induction b n arbitrary: ds rule: digits_of.induct)
  case (1 b n)
  then have nb: "\<not> (n = 0 \<or> b < 2)" by (metis digits_of.simps list.distinct(1))
  then have e: "digits_of b (n div b) @ [n mod b] = d # ds" using 1(2) digits_of.simps [of b n] by simp
  show ?case
  proof (cases "digits_of b (n div b)")
    case Nil
    then have "n div b = 0" using nb by (metis digits_val_of digits_val_simps(1) linorder_not_less)
    then have "n mod b = n" using mod_less [of n b] nb by (auto simp: div_eq_0_iff)
    then show ?thesis using e Nil nb by auto
  next
    case (Cons x xs)
    then show ?thesis using e 1(1) [OF nb, of xs] by auto
  qed
qed

lemma dropWhile_zeros: "dropWhile (\<lambda>d. d = 0) (replicate n 0 @ ds) = dropWhile (\<lambda>d. d = (0 :: nat)) ds"
  by (induction n) auto

text \<open>A list is its leading zeros and the rest.\<close>

lemma zeros_split:
  "ds = replicate (length (takeWhile (\<lambda>d. d = z) ds)) z @ dropWhile (\<lambda>d. d = z) ds"
  by (induction ds) auto

lemma digits_of_length:
  assumes "2 \<le> b" "n < b ^ k"
  shows "length (digits_of b n) \<le> k"
proof (rule ccontr)
  assume "\<not> length (digits_of b n) \<le> k"
  then obtain d ds where c: "digits_of b n = d # ds" "k \<le> length ds" by (cases "digits_of b n") auto
  have "b ^ k \<le> b ^ length ds" using c(2) assms(1) by (simp add: power_increasing)
  also have "\<dots> \<le> d * b ^ length ds" using digits_of_hd [OF c(1)] by simp
  also have "\<dots> \<le> n" using digits_val_of [OF assms(1), of n] c(1) by (simp add: digits_val_Cons)
  finally show False using assms(2) by simp
qed

end
