(* ===== verification/Base58.thy ===== *)
theory Base58
  imports Digits
begin

text \<open>
Base 58: \<^verbatim>\<open>lib_standard_app/base58.c\<close>.

The local arrays \<open>tmp\<close> and \<open>buffer\<close> hold values below 256 and are lists of numbers; \<open>size_t\<close> and \<open>uint8_t\<close> counters are
numbers whose wrap-around is written out where it can happen.  Both functions are shown to compute the positional notation that
\<open>base58_encoded\<close> and \<open>base58_decoded\<close> describe.  The encoder stops its inner loop early: the proof keeps that all digits below
the last stop are zero and that \<open>58\<close> to the power of the digits in use is at most \<open>256\<close> to the power of the bytes read, which
shows that the wrap-around of \<open>stop_at - 1\<close> is never reached before the last byte.
\<close>

section \<open>Tables\<close>

definition MAX_DEC_INPUT_SIZE :: nat where "MAX_DEC_INPUT_SIZE = 164"
definition MAX_ENC_INPUT_SIZE :: nat where "MAX_ENC_INPUT_SIZE = 120"

definition BASE58_TABLE :: "nat list" where
  "BASE58_TABLE =
     replicate 49 0xFF @
     [0x00, 0x01, 0x02, 0x03, 0x04, 0x05, 0x06, 0x07, 0x08] @ replicate 7 0xFF @
     [0x09, 0x0A, 0x0B, 0x0C, 0x0D, 0x0E, 0x0F, 0x10, 0xFF, 0x11, 0x12, 0x13, 0x14, 0x15, 0xFF,
      0x16, 0x17, 0x18, 0x19, 0x1A, 0x1B, 0x1C, 0x1D, 0x1E, 0x1F, 0x20] @ replicate 6 0xFF @
     [0x21, 0x22, 0x23, 0x24, 0x25, 0x26, 0x27, 0x28, 0x29, 0x2A, 0x2B, 0xFF,
      0x2C, 0x2D, 0x2E, 0x2F, 0x30, 0x31, 0x32, 0x33, 0x34, 0x35, 0x36, 0x37, 0x38, 0x39] @ replicate 5 0xFF"

definition BASE58_ALPHABET :: bytes where
  "BASE58_ALPHABET = map of_char ''123456789ABCDEFGHJKLMNPQRSTUVWXYZabcdefghijkmnopqrstuvwxyz''"

section \<open>Decoding\<close>

text \<open>\<open>tmp\<close> and \<open>buffer\<close> hold values below 256.  The result is the returned \<open>int\<close> and the output array.
  The first loop looks every character up; the inner \<open>None\<close> is the return of -1.\<close>

function decode_lookup :: "bytes \<Rightarrow> nat \<Rightarrow> nat list \<Rightarrow> nat \<Rightarrow> nat list option option" where
  "decode_lookup inp in_len tmp i =
     (if i < in_len then do {
        c \<leftarrow> ld inp i;
        if unat c \<ge> length BASE58_TABLE then Some None
        else do {
          v \<leftarrow> ld BASE58_TABLE (unat c);
          tmp \<leftarrow> st tmp i v;
          if v = 0xFF then Some None else decode_lookup inp in_len tmp (i + 1) } }
      else Some (Some tmp))"
  by pat_completeness auto
termination by (relation "measure (\<lambda>(inp, in_len, tmp, i). in_len - i)") auto

text \<open>\<open>while ((i < n) && (a[i] == 0)) ++i\<close>, which both directions use three times.\<close>

function skip_zeros :: "nat list \<Rightarrow> nat \<Rightarrow> nat \<Rightarrow> nat option" where
  "skip_zeros a n i =
     (if i < n then do { v \<leftarrow> ld a i; if v = 0 then skip_zeros a n (i + 1) else Some i } else Some i)"
  by pat_completeness auto
termination by (relation "measure (\<lambda>(a, n, i). n - i)") auto

function decode_div :: "nat list \<Rightarrow> nat \<Rightarrow> nat \<Rightarrow> nat \<Rightarrow> (nat list \<times> nat) option" where
  "decode_div tmp in_len div_loop remainder =
     (if div_loop < in_len then do {
        digit256 \<leftarrow> ld tmp div_loop;
        let tmp_div = (remainder * 58 + digit256) mod 2 ^ 16;
        tmp \<leftarrow> st tmp div_loop (tmp_div div 256 mod 256);
        decode_div tmp in_len (div_loop + 1) (tmp_div mod 256) }
      else Some (tmp, remainder))"
  by pat_completeness auto
termination by (relation "measure (\<lambda>(tmp, in_len, div_loop, remainder). in_len - div_loop)") auto

partial_function (option) decode_loop :: "nat list \<Rightarrow> nat list \<Rightarrow> nat \<Rightarrow> nat \<Rightarrow> nat \<Rightarrow> (nat list \<times> nat) option" where
  "decode_loop tmp buffer in_len start_at j =
     (if start_at < in_len then do {
        (tmp, remainder) \<leftarrow> decode_div tmp in_len start_at 0;
        v \<leftarrow> ld tmp start_at;
        let start_at = (if v = 0 then start_at + 1 else start_at);
        let j = (j + 255) mod 256;
        buffer \<leftarrow> st buffer j (remainder mod 256);
        decode_loop tmp buffer in_len start_at j }
      else Some (buffer, j))"

definition base58_decode :: "bytes \<Rightarrow> nat \<Rightarrow> bytes \<Rightarrow> nat \<Rightarrow> (int \<times> bytes) option" where
  "base58_decode inp in_len out out_len =
     (if in_len > MAX_DEC_INPUT_SIZE \<or> in_len < 2 then Some (-1, out)
      else do {
        xs \<leftarrow> ld_n inp 0 in_len;
        tmp \<leftarrow> st_n (replicate MAX_DEC_INPUT_SIZE 0) 0 (map unat xs);
        r \<leftarrow> decode_lookup inp in_len tmp 0;
        (case r of
           None \<Rightarrow> Some (-1, out)
         | Some tmp \<Rightarrow> do {
             zero_count \<leftarrow> skip_zeros tmp in_len 0;
             (buffer, j) \<leftarrow> decode_loop tmp (replicate MAX_DEC_INPUT_SIZE 0) in_len zero_count in_len;
             j \<leftarrow> skip_zeros buffer in_len j;
             let len = int in_len - (int j - int zero_count);
             if signed (word_of_nat out_len :: size_t) < len then Some (-1, out)
             else do {
               bs \<leftarrow> ld_n buffer (j - zero_count) (nat len);
               out \<leftarrow> st_n out 0 (map word_of_nat bs);
               Some (len, out) } }) })"

section \<open>Encoding\<close>

text \<open>\<open>j\<close> and \<open>stop_at\<close> are \<open>size_t\<close> of 32 bits; the loop ends when \<open>(int) j\<close> is negative.\<close>

definition size_dec :: "nat \<Rightarrow> nat" where
  "size_dec j = (if j = 0 then 2 ^ 32 - 1 else j - 1)"

function encode_digits :: "nat list \<Rightarrow> nat \<Rightarrow> nat \<Rightarrow> nat \<Rightarrow> (nat list \<times> nat) option" where
  "encode_digits buffer carry stop_at j =
     (if j < 2 ^ 31 then do {
        v \<leftarrow> ld buffer j;
        let carry = carry + 256 * v;
        buffer \<leftarrow> st buffer j (carry mod 58);
        let carry = carry div 58;
        if j \<le> size_dec stop_at \<and> carry = 0 then Some (buffer, j)
        else encode_digits buffer carry stop_at (size_dec j) }
      else Some (buffer, j))"
  by pat_completeness auto
termination
  by (relation "measure (\<lambda>(buffer, carry, stop_at, j). if j < 2 ^ 31 then j + 1 else 0)") (auto simp: size_dec_def)

function encode_bytes :: "bytes \<Rightarrow> nat \<Rightarrow> nat list \<Rightarrow> nat \<Rightarrow> nat \<Rightarrow> nat \<Rightarrow> nat list option" where
  "encode_bytes inp in_len buffer output_size stop_at start_at =
     (if start_at < in_len then do {
        c \<leftarrow> ld inp start_at;
        (buffer, j) \<leftarrow> encode_digits buffer (unat c) stop_at (output_size - 1);
        encode_bytes inp in_len buffer output_size j (start_at + 1) }
      else Some buffer)"
  by pat_completeness auto
termination by (relation "measure (\<lambda>(inp, in_len, buffer, output_size, stop_at, start_at). in_len - start_at)") auto

function encode_out :: "nat list \<Rightarrow> nat \<Rightarrow> nat \<Rightarrow> bytes \<Rightarrow> nat \<Rightarrow> (int \<times> bytes) option" where
  "encode_out buffer output_size j out i =
     (if j < output_size then do {
        d \<leftarrow> ld buffer j;
        c \<leftarrow> ld BASE58_ALPHABET d;
        out \<leftarrow> st out i c;
        encode_out buffer output_size (j + 1) out (i + 1) }
      else Some (int i, out))"
  by pat_completeness auto
termination by (relation "measure (\<lambda>(buffer, output_size, j, out, i). output_size - j)") auto

definition base58_encode :: "bytes \<Rightarrow> nat \<Rightarrow> bytes \<Rightarrow> nat \<Rightarrow> (int \<times> bytes) option" where
  "base58_encode inp in_len out out_len =
     (if in_len > MAX_ENC_INPUT_SIZE then Some (-1, out)
      else do {
        zero_count \<leftarrow> skip_zeros (map unat inp) in_len 0;
        let output_size = (in_len - zero_count) * 138 div 100 + 1;
        buffer \<leftarrow> encode_bytes inp in_len (replicate (MAX_ENC_INPUT_SIZE * 138 div 100 + 1) 0) output_size (output_size - 1) zero_count;
        j \<leftarrow> skip_zeros buffer output_size 0;
        if out_len < zero_count + output_size - j then Some (-1, out)
        else do {
          c \<leftarrow> ld BASE58_ALPHABET 0;
          out \<leftarrow> memset_n out 0 c zero_count;
          encode_out buffer output_size j out zero_count } })"

declare decode_lookup.simps [simp del] skip_zeros.simps [simp del] decode_div.simps [simp del]
  encode_digits.simps [simp del] encode_bytes.simps [simp del] encode_out.simps [simp del]

section \<open>The alphabet\<close>

text \<open>The digit of a character; 0xFF for the other bytes.\<close>

definition b58_digit :: "u8 \<Rightarrow> nat" where
  "b58_digit c = (if unat c < 128 then BASE58_TABLE ! unat c else 0xFF)"

definition b58_char :: "nat \<Rightarrow> u8" where
  "b58_char d = BASE58_ALPHABET ! d"

lemma b58_lengths [simp]: "length BASE58_TABLE = 128" "length BASE58_ALPHABET = 58"
  by (simp_all add: BASE58_TABLE_def BASE58_ALPHABET_def)

lemma b58_alphabet:
  "map unat BASE58_ALPHABET = [49..<58] @ [65..<73] @ [74..<79] @ [80..<91] @ [97..<108] @ [109..<123]"
  by (simp add: BASE58_ALPHABET_def upt_rec)

lemma b58_table_less: "\<forall>v\<in>set BASE58_TABLE. v < 58 \<or> v = 0xFF"
  by (simp add: BASE58_TABLE_def)

lemma b58_digit_less: "b58_digit c \<noteq> 0xFF \<Longrightarrow> b58_digit c < 58"
  using b58_table_less nth_mem [of "unat c" BASE58_TABLE] by (auto simp: b58_digit_def split: if_splits)

lemma b58_digit_char: "d < 58 \<Longrightarrow> b58_digit (b58_char d) = d"
proof -
  have "map (\<lambda>d. BASE58_TABLE ! d) (map unat BASE58_ALPHABET) = [0..<58]"
    unfolding b58_alphabet by (simp add: BASE58_TABLE_def upt_rec nth_append)
  moreover assume "d < 58"
  ultimately have "BASE58_TABLE ! (map unat BASE58_ALPHABET ! d) = d"
    by (metis (no_types, lifting) b58_lengths(2) diff_zero length_map length_upt nth_map nth_upt add_0)
  moreover have "\<forall>v\<in>set (map unat BASE58_ALPHABET). v < 128" unfolding b58_alphabet by auto
  ultimately show ?thesis using \<open>d < 58\<close> by (simp add: b58_digit_def b58_char_def)
qed

section \<open>The loops of the decoder\<close>

lemma skip_zeros_eq:
  "i \<le> n \<Longrightarrow> n \<le> length a \<Longrightarrow>
     skip_zeros a n i = Some (i + length (takeWhile (\<lambda>d. d = 0) (take (n - i) (drop i a))))"
proof (induction a n i rule: skip_zeros.induct)
  case (1 a n i)
  show ?case
  proof (cases "i < n")
    case True
    then have d: "take (n - i) (drop i a) = a ! i # take (n - Suc i) (drop (Suc i) a)"
      using 1(3) take_drop_Suc [of i "n - Suc i" a] by (simp add: Suc_diff_Suc)
    then show ?thesis using True 1 by (subst skip_zeros.simps) (simp add: mem_simps)
  qed (use 1 in \<open>simp add: skip_zeros.simps\<close>)
qed

lemma decode_lookup_eq:
  "i \<le> n \<Longrightarrow> n \<le> length inp \<Longrightarrow> n \<le> length tmp \<Longrightarrow>
     decode_lookup inp n tmp i =
     Some (if \<forall>c\<in>set (take (n - i) (drop i inp)). b58_digit c \<noteq> 0xFF
           then Some (take i tmp @ map b58_digit (take (n - i) (drop i inp)) @ drop n tmp) else None)"
proof (induction inp n tmp i rule: decode_lookup.induct)
  case (1 inp n tmp i)
  show ?case
  proof (cases "i < n")
    case True
    then have d: "take (n - i) (drop i inp) = inp ! i # take (n - Suc i) (drop (Suc i) inp)"
      using 1(3) take_drop_Suc [of i "n - Suc i" inp] by (simp add: Suc_diff_Suc)
    show ?thesis
    proof (cases "b58_digit (inp ! i) = 0xFF")
      case bad: True
      then show ?thesis using True 1(3,4) d
        by (subst decode_lookup.simps) (auto simp: mem_simps b58_digit_def split: if_splits)
    next
      case False
      then have u: "unat (inp ! i) < 128" "BASE58_TABLE ! unat (inp ! i) = b58_digit (inp ! i)"
        by (auto simp: b58_digit_def split: if_splits)
      have "decode_lookup inp n tmp i = decode_lookup inp n (tmp[i := b58_digit (inp ! i)]) (Suc i)"
        using True 1(3,4) False u by (subst decode_lookup.simps) (simp add: mem_simps)
      also have "\<dots> = Some (if \<forall>c\<in>set (take (n - Suc i) (drop (Suc i) inp)). b58_digit c \<noteq> 0xFF
           then Some (take (Suc i) (tmp[i := b58_digit (inp ! i)]) @ map b58_digit (take (n - Suc i) (drop (Suc i) inp)) @ drop n tmp) else None)"
        using 1(1) [of "inp ! i" "b58_digit (inp ! i)" "tmp[i := b58_digit (inp ! i)]"] True 1(3,4) False u by (simp add: mem_simps)
      finally show ?thesis using True 1(4) False unfolding d by (simp add: take_Suc_conv_app_nth)
    qed
  qed (use 1 in \<open>simp add: decode_lookup.simps\<close>)
qed

text \<open>Long division of base 58 digits by 256.\<close>

fun long_div :: "nat list \<Rightarrow> nat \<Rightarrow> nat list \<times> nat" where
  "long_div [] r = ([], r)"
| "long_div (x # xs) r =
     (let t = r * 58 + x; (ys, r) = long_div xs (t mod 256) in (t div 256 # ys, r))"

lemma long_div_spec:
  "r < 256 \<Longrightarrow> \<forall>x\<in>set xs. x < 58 \<Longrightarrow> long_div xs r = (ys, q) \<Longrightarrow>
     length ys = length xs \<and> (\<forall>y\<in>set ys. y < 58) \<and> q < 256 \<and> digits_val 58 ys * 256 + q = r * 58 ^ length xs + digits_val 58 xs"
proof (induction xs arbitrary: r ys)
  case (Cons x xs)
  define t where "t = r * 58 + x"
  obtain zs where zs: "long_div xs (t mod 256) = (zs, q)" "ys = t div 256 # zs"
    using Cons.prems(3) by (auto simp: Let_def t_def split: prod.splits)
  have IH: "length zs = length xs" "\<forall>y\<in>set zs. y < 58" "q < 256"
    "digits_val 58 zs * 256 + q = t mod 256 * 58 ^ length xs + digits_val 58 xs"
    using Cons.IH [OF _ _ zs(1)] Cons.prems(2) by auto
  have t: "t div 256 < 58" using Cons.prems(1,2) by (simp add: t_def less_mult_imp_div_less)
  have "digits_val 58 ys * 256 + q = t div 256 * 58 ^ length xs * 256 + (digits_val 58 zs * 256 + q)"
    using zs(2) IH(1) by (simp add: digits_val_Cons algebra_simps)
  also have "\<dots> = (t div 256 * 256 + t mod 256) * 58 ^ length xs + digits_val 58 xs"
    unfolding IH(4) by (simp only: add_mult_distrib add_mult_distrib2 ac_simps)
  also have "t div 256 * 256 + t mod 256 = t" by simp
  finally show ?case using IH t zs(2) by (simp add: digits_val_Cons t_def algebra_simps)
qed simp

lemma decode_div_eq:
  "r < 256 \<Longrightarrow> \<forall>x\<in>set xs. x < 58 \<Longrightarrow> long_div xs r = (ys, q) \<Longrightarrow> n = length pre + length xs \<Longrightarrow>
     decode_div (pre @ xs @ post) n (length pre) r = Some (pre @ ys @ post, q)"
proof (induction xs arbitrary: r ys pre)
  case Nil
  then show ?case by (simp add: decode_div.simps)
next
  case (Cons x xs)
  define t where "t = r * 58 + x"
  obtain zs where zs: "long_div xs (t mod 256) = (zs, q)" "ys = t div 256 # zs"
    using Cons.prems(3) by (auto simp: Let_def t_def split: prod.splits)
  have t: "t < 65536" "t div 256 < 256" using Cons.prems(1,2) by (auto simp: t_def)
  have "decode_div (pre @ (x # xs) @ post) n (length pre) r
      = decode_div ((pre @ [t div 256]) @ xs @ post) n (length (pre @ [t div 256])) (t mod 256)"
    using Cons.prems(4) t by (subst decode_div.simps) (simp add: mem_simps Let_def t_def [symmetric] list_update_append)
  also have "\<dots> = Some ((pre @ [t div 256]) @ zs @ post, q)"
    by (rule Cons.IH [OF _ _ zs(1)]) (use Cons.prems in auto)
  finally show ?case using zs(2) by simp
qed

text \<open>The notation with a given number of digits.\<close>

primrec digits_fix :: "nat \<Rightarrow> nat \<Rightarrow> nat \<Rightarrow> nat list" where
  "digits_fix b 0 n = []"
| "digits_fix b (Suc k) n = digits_fix b k (n div b) @ [n mod b]"

lemma digits_fix_spec:
  assumes "0 < b"
  shows "length (digits_fix b k n) = k" "\<forall>d\<in>set (digits_fix b k n). d < b" "digits_val b (digits_fix b k n) = n mod b ^ k"
  using assms by (induction k arbitrary: n) (auto simp: mod_mult2_eq)

lemma decode_loop_eq:
  "\<forall>x\<in>set xs. x < 58 \<Longrightarrow> n = length pre + length xs \<Longrightarrow> length xs \<le> j \<Longrightarrow> j \<le> length buffer \<Longrightarrow> j < 256 \<Longrightarrow>
     decode_loop (pre @ xs @ post) buffer n (length pre) j =
     Some (take (j - length xs) buffer @ digits_fix 256 (length xs) (digits_val 58 xs) @ drop j buffer, j - length xs)"
proof (induction "length xs" arbitrary: xs pre buffer j)
  case 0
  then show ?case by (subst decode_loop.simps) simp
next
  case (Suc k)
  obtain ys q where d: "long_div xs 0 = (ys, q)" by fastforce
  have D: "length ys = length xs" "\<forall>y\<in>set ys. y < 58" "q < 256" "digits_val 58 ys * 256 + q = digits_val 58 xs"
    using long_div_spec [OF _ Suc.prems(1) d] by auto
  obtain x xs' where xs: "xs = x # xs'" using Suc.hyps(2) by (cases xs) auto
  obtain zs where ys: "ys = 0 # zs" using d Suc.prems(1) by (auto simp: xs Let_def split: prod.splits)
  have V: "digits_val 58 zs = digits_val 58 xs div 256" "q = digits_val 58 xs mod 256"
    using D(3) D(4) [symmetric] unfolding ys by (simp_all add: digits_val_Cons)
  have j: "(j + 255) mod 256 = j - 1" "0 < j"
    using Suc.prems(3,5) xs by (auto simp: mod_if)
  have "decode_loop (pre @ xs @ post) buffer n (length pre) j
      = decode_loop ((pre @ [0]) @ zs @ post) (buffer[j - 1 := q]) n (length (pre @ [0])) (j - 1)"
    using decode_div_eq [OF _ Suc.prems(1) d Suc.prems(2), of post] Suc.prems(2,4) D(3) j xs
    by (subst decode_loop.simps) (simp add: ys mem_simps Let_def)
  also have "\<dots> = Some (take (j - 1 - length zs) (buffer[j - 1 := q]) @ digits_fix 256 (length zs) (digits_val 58 zs) @
      drop (j - 1) (buffer[j - 1 := q]), j - 1 - length zs)"
    by (rule Suc.hyps(1)) (use Suc.hyps(2) Suc.prems D ys j in \<open>auto simp: xs\<close>)
  also have "drop (j - 1) (buffer[j - 1 := q]) = q # drop j buffer"
    using j(2) Suc.prems(4) by (simp add: drop_update_swap Cons_nth_drop_Suc [symmetric])
  finally show ?case using D(1) j(2) V by (simp add: ys xs)
qed

section \<open>The decoder\<close>

text \<open>Every leading digit 0 stands for a zero byte; the rest is a number in base 58.\<close>

definition base58_decoded :: "bytes \<Rightarrow> bytes" where
  "base58_decoded cs =
     (let ds = map b58_digit cs
      in map word_of_nat (replicate (length (takeWhile (\<lambda>d. d = 0) ds)) 0 @ digits_of 256 (digits_val 58 ds)))"

lemma decode_number:
  assumes "\<forall>d\<in>set ds. d < 58" and z_def: "z = length (takeWhile (\<lambda>d. d = 0) ds)"
  shows "dropWhile (\<lambda>d. d = 0) (digits_fix 256 (length ds - z) (digits_val 58 (drop z ds))) = digits_of 256 (digits_val 58 ds)"
    and "digits_val 58 (drop z ds) = digits_val 58 ds"
proof -
  let ?xs = "dropWhile (\<lambda>d. d = 0) ds"
  have s: "ds = replicate z 0 @ ?xs" unfolding z_def by (rule zeros_split)
  have d: "drop z ds = ?xs" by (subst s) simp
  show v: "digits_val 58 (drop z ds) = digits_val 58 ds" unfolding d by (subst (2) s) simp
  have l: "length ?xs = length ds - z" by (metis d length_drop)
  have "digits_val 58 ?xs < 58 ^ length ?xs"
    by (rule digits_val_bound) (use assms(1) set_dropWhileD in fastforce)
  also have "(58 :: nat) ^ length ?xs \<le> 256 ^ length ?xs" by (rule power_mono) auto
  finally have "digits_val 256 (digits_fix 256 (length ds - z) (digits_val 58 ?xs)) = digits_val 58 ds"
    using digits_fix_spec(3) [of 256 "length ds - z"] l v d by simp
  then show "dropWhile (\<lambda>d. d = 0) (digits_fix 256 (length ds - z) (digits_val 58 (drop z ds))) = digits_of 256 (digits_val 58 ds)"
    using digits_of_val [of 256 "digits_fix 256 (length ds - z) (digits_val 58 ?xs)"] digits_fix_spec(2) [of 256] d by simp
qed

lemma base58_decode_eq:
  assumes "in_len \<le> length inp" "out_len \<le> length out" "out_len < 2 ^ 31"
  shows "base58_decode inp in_len out out_len = Some (let cs = take in_len inp; bs = base58_decoded cs in
     if in_len < 2 \<or> 164 < in_len \<or> (\<exists>c\<in>set cs. b58_digit c = 0xFF) \<or> out_len < length bs then (-1, out)
     else (int (length bs), bs @ drop (length bs) out))"
proof (cases "in_len < 2 \<or> 164 < in_len")
  case False
  let ?cs = "take in_len inp" and ?t = "map unat (take in_len inp) @ replicate (164 - in_len) 0"
  have look: "decode_lookup inp in_len ?t 0 =
      Some (if \<forall>c\<in>set ?cs. b58_digit c \<noteq> 0xFF then Some (map b58_digit ?cs @ replicate (164 - in_len) 0) else None)"
    using decode_lookup_eq [of 0 in_len inp ?t] assms(1) False by simp
  have pre: "ld_n inp 0 in_len = Some ?cs" "st_n (replicate 164 0) 0 (map unat ?cs) = Some ?t"
    using assms(1) False by (simp_all add: mem_simps min_absorb2)
  show ?thesis
  proof (cases "\<forall>c\<in>set ?cs. b58_digit c \<noteq> 0xFF")
    case bad: False
    then show ?thesis using False pre look by (auto simp: base58_decode_def MAX_DEC_INPUT_SIZE_def Let_def)
  next
    case True
    define ds where "ds = map b58_digit ?cs"
    define z where "z = length (takeWhile (\<lambda>d. d = 0) ds)"
    define xs where "xs = drop z ds"
    define D where "D = digits_fix 256 (in_len - z) (digits_val 58 ds)"
    have ds: "\<forall>d\<in>set ds. d < 58" "length ds = in_len" using True b58_digit_less assms(1) by (auto simp: ds_def)
    have z: "z \<le> in_len" "length xs = in_len - z" using ds(2) length_takeWhile_le [of "\<lambda>d. d = 0" ds] by (auto simp: z_def xs_def)
    have dec: "dropWhile (\<lambda>d. d = 0) D = digits_of 256 (digits_val 58 ds)" "digits_val 58 xs = digits_val 58 ds" "length D = in_len - z"
      using decode_number [OF ds(1) z_def] ds(2) digits_fix_spec(1) [of 256] by (auto simp: D_def xs_def)
    have split: "ds @ replicate (164 - in_len) 0 = replicate z 0 @ xs @ replicate (164 - in_len) 0"
      using zeros_split [of ds 0] by (metis (no_types) append_assoc append_eq_conv_conj length_replicate xs_def z_def)
    have sk: "skip_zeros (ds @ replicate (164 - in_len) 0) in_len 0 = Some z"
      using skip_zeros_eq [of 0 in_len "ds @ replicate (164 - in_len) 0"] ds(2) by (simp add: z_def)
    have lp: "decode_loop (ds @ replicate (164 - in_len) 0) (replicate 164 0) in_len z in_len
        = Some (replicate z 0 @ D @ replicate (164 - in_len) 0, z)"
    proof -
      have "\<forall>x\<in>set xs. x < 58" using ds(1) by (auto simp: xs_def dest: in_set_dropD)
      then have "decode_loop (replicate z 0 @ xs @ replicate (164 - in_len) 0) (replicate 164 0) in_len (length (replicate z (0 :: nat))) in_len
          = Some (take (in_len - length xs) (replicate 164 0) @ digits_fix 256 (length xs) (digits_val 58 xs) @ drop in_len (replicate 164 0),
              in_len - length xs)"
        by (rule decode_loop_eq) (use z False in auto)
      then show ?thesis using z False unfolding split D_def dec(2) z(2) by simp
    qed
    define k where "k = length (takeWhile (\<lambda>d. d = 0) D)"
    have k: "k \<le> in_len - z" "drop k D = digits_of 256 (digits_val 58 ds)" "take k D = replicate k 0"
      using length_takeWhile_le [of "\<lambda>d. d = 0" D] dec(1,3) zeros_split [of D 0]
      by (auto simp: k_def dropWhile_eq_drop) (metis append_eq_conv_conj length_replicate)
    have sk2: "skip_zeros (replicate z 0 @ D @ replicate (164 - in_len) 0) in_len z = Some (z + k)"
      using skip_zeros_eq [of z in_len "replicate z 0 @ D @ replicate (164 - in_len) 0"] z(1) dec(3) False by (simp add: k_def)
    let ?bs = "base58_decoded ?cs"
    have bs: "?bs = map word_of_nat (replicate z 0 @ drop k D)" by (simp add: base58_decoded_def Let_def ds_def [symmetric] z_def k(2))
    have len: "length ?bs = in_len - k" using k(1) z(1) dec(3) by (simp add: bs)
    have rd: "ld_n (replicate z 0 @ D @ replicate (164 - in_len) 0) k (in_len - k) = Some (replicate z 0 @ drop k D)"
    proof -
      have "replicate z 0 @ D = replicate k 0 @ replicate z 0 @ drop k D"
        using k(3) append_take_drop_id [of k D] by (metis append_assoc replicate_add add.commute)
      then have e: "replicate z 0 @ D @ replicate (164 - in_len) 0 = replicate k 0 @ (replicate z 0 @ drop k D) @ replicate (164 - in_len) 0"
        by simp
      show ?thesis using dec(3) z(1) k(1) False unfolding e by (simp add: ld_n_def) linarith
    qed
    have look': "decode_lookup inp in_len ?t 0 = Some (Some (ds @ replicate (164 - in_len) 0))" using look True by (simp add: ds_def)
    have le: "int in_len - (int (z + k) - int z) = int (in_len - k)" "z + k - z = k" using k(1) z(1) by auto
    have g: "(in_len > MAX_DEC_INPUT_SIZE \<or> in_len < 2) = False" using False by (auto simp: MAX_DEC_INPUT_SIZE_def)
    have eq: "base58_decode inp in_len out out_len =
        (if out_len < in_len - k then Some (-1, out)
         else do { out \<leftarrow> st_n out 0 ?bs; Some (int (in_len - k), out) })"
      unfolding base58_decode_def g unfolding MAX_DEC_INPUT_SIZE_def
      by (simp only: pre look' sk lp sk2 bs Let_def le rd signed_size [OF assms(3)] bind.bind_lunit option.case prod.case if_False nat_int
        of_nat_less_iff)
    have "st_n out 0 ?bs = Some (?bs @ drop (length ?bs) out)" if "\<not> out_len < in_len - k"
      using assms(2) len that by (simp add: st_n_def)
    moreover have "\<not> (\<exists>c\<in>set ?cs. b58_digit c = 0xFF)" using True by blast
    ultimately show ?thesis using False unfolding eq len [symmetric] Let_def by simp
  qed
qed (auto simp: base58_decode_def MAX_DEC_INPUT_SIZE_def)

section \<open>The loops of the encoder\<close>

text \<open>The value of the digits from position \<open>a\<close> up to \<open>c\<close> of the first \<open>k\<close> digits of a buffer.\<close>

definition part_val :: "nat \<Rightarrow> nat list \<Rightarrow> nat \<Rightarrow> nat \<Rightarrow> nat" where
  "part_val k buf a c = (\<Sum>i = a..<c. buf ! i * 58 ^ (k - 1 - i))"

lemma part_val_all: "k \<le> length buf \<Longrightarrow> part_val k buf 0 k = digits_val 58 (take k buf)"
proof -
  have "digits_val 58 ds = (\<Sum>i = 0..<length ds. ds ! i * 58 ^ (length ds - 1 - i))" for ds
  proof (induction ds rule: rev_induct)
    case (snoc d ds)
    have "(\<Sum>i = 0..<length ds. (ds @ [d]) ! i * 58 ^ (length ds - i)) = (\<Sum>i = 0..<length ds. ds ! i * 58 ^ (length ds - 1 - i)) * 58"
      unfolding sum_distrib_right
      by (rule sum.cong) (auto simp: nth_append Suc_diff_Suc [symmetric] mult.assoc simp flip: power_Suc2)
    then show ?case using snoc by simp
  qed simp
  from this [of "take k buf"] show "k \<le> length buf \<Longrightarrow> ?thesis" by (simp add: part_val_def min_absorb2)
qed

lemma part_val_upd:
  assumes "j < k" "k \<le> length buf"
  shows "part_val k (buf[j := d]) 0 j = part_val k buf 0 j"
    and "part_val k (buf[j := d]) j k = d * 58 ^ (k - 1 - j) + part_val k buf (Suc j) k"
    and "part_val k buf 0 (Suc j) = part_val k buf 0 j + buf ! j * 58 ^ (k - 1 - j)"
    and "part_val k buf 0 k = part_val k buf 0 j + part_val k buf j k"
proof -
  show "part_val k buf 0 k = part_val k buf 0 j + part_val k buf j k"
    unfolding part_val_def using assms(1) by (simp add: sum.atLeastLessThan_concat)
qed (use assms in \<open>auto simp: part_val_def sum.atLeast_Suc_lessThan [of j k] intro!: sum.cong\<close>)

lemma part_val_zero: "\<forall>i<j. buf ! i = 0 \<Longrightarrow> part_val k buf 0 j = 0"
  by (simp add: part_val_def)

lemma carry_step:
  assumes "j < k"
  shows "256 * (a + v * 58 ^ (k - 1 - j)) + c * 58 ^ (k - 1 - j) + p
     = 256 * a + (c + 256 * v) div 58 * 58 ^ (k - j) + ((c + 256 * v) mod 58 * 58 ^ (k - 1 - j) + p :: nat)"
proof -
  have "58 ^ (k - j) = 58 * (58 :: nat) ^ (k - 1 - j)" using assms by (simp flip: power_Suc)
  moreover have "((c + 256 * v) div 58 * 58 + (c + 256 * v) mod 58) * 58 ^ (k - 1 - j) = (c + 256 * v) * 58 ^ (k - 1 - j)" by simp
  ultimately show ?thesis by (simp only: algebra_simps)
qed

lemma last_carry: "T = a + q * n + p \<Longrightarrow> T < n \<Longrightarrow> q = (0 :: nat)"
  by (cases q) auto

lemma carry_le: "T = a + c * n + p \<Longrightarrow> 0 < c \<Longrightarrow> n \<le> (T :: nat)"
  by (cases c) auto

lemma upd_less: "\<forall>i<k. buf ! i < n \<Longrightarrow> v < n \<Longrightarrow> \<forall>i<k. buf[j := v] ! i < (n :: nat)"
  by (metis nth_list_update_eq nth_list_update_neq list_update_beyond not_less)

lemma encode_digits_step:
  "j < length buf \<Longrightarrow> j < 2 ^ 31 \<Longrightarrow> 0 < stop \<Longrightarrow>
     encode_digits buf carry stop j =
     (if j \<le> stop - 1 \<and> (carry + 256 * buf ! j) div 58 = 0 then Some (buf[j := (carry + 256 * buf ! j) mod 58], j)
      else encode_digits (buf[j := (carry + 256 * buf ! j) mod 58]) ((carry + 256 * buf ! j) div 58) stop (size_dec j))"
  by (subst encode_digits.simps) (auto simp: mem_simps size_dec_def Let_def)

lemma encode_digits_ok:
  assumes "j < k" "k \<le> length buf" "k \<le> 200" "0 < stop" "stop < k" "\<forall>i. i < stop \<and> i \<le> j \<longrightarrow> buf ! i = 0" "\<forall>i<k. buf ! i < 58"
    and T: "T = 256 * part_val k buf 0 (Suc j) + carry * 58 ^ (k - 1 - j) + part_val k buf (Suc j) k" "T < 58 ^ k"
    and Q: "j < stop - 1 \<longrightarrow> 0 < carry"
  shows "\<exists>buf' j'. encode_digits buf carry stop j = Some (buf', j') \<and> length buf' = length buf \<and> part_val k buf' 0 k = T \<and>
     (\<forall>i<k. buf' ! i < 58) \<and> (\<forall>i<j'. buf' ! i = 0) \<and> j' < stop \<and> (j' = stop - 1 \<or> 58 ^ (k - 1 - j') \<le> T)"
  using assms
proof (induction j arbitrary: buf carry)
  case (0 buf carry)
  let ?c = "carry + 256 * buf ! 0" and ?buf = "buf[0 := (carry + 256 * buf ! 0) mod 58]"
  note U = part_val_upd [OF 0(1,2)]
  have T: "T = 256 * part_val k buf 0 0 + ?c div 58 * 58 ^ (k - 0) + part_val k ?buf 0 k"
    using 0(8) carry_step [OF 0(1)] unfolding U(2,3) by simp
  have z: "?c div 58 = 0" by (rule last_carry [OF T]) (use 0(9) in simp)
  then have "encode_digits buf carry stop 0 = Some (?buf, 0)"
    using 0(1,2,4) by (subst encode_digits_step) auto
  moreover have "stop - 1 = 0 \<or> 58 ^ (k - 1 - 0) \<le> T"
    using carry_le [OF 0(8)] 0(10) by blast
  moreover have "part_val k ?buf 0 k = T" using T z by (simp add: part_val_def)
  moreover have "\<forall>i<k. ?buf ! i < 58" by (rule upd_less [OF 0(7)]) simp
  ultimately show ?case using 0(4) by (metis length_list_update not_less_zero)
next
  case (Suc j buf carry)
  let ?c = "carry + 256 * buf ! Suc j" and ?buf = "buf[Suc j := (carry + 256 * buf ! Suc j) mod 58]"
  note U = part_val_upd [OF Suc.prems(1,2)]
  have T: "T = 256 * part_val k ?buf 0 (Suc j) + ?c div 58 * 58 ^ (k - Suc j) + part_val k ?buf (Suc j) k"
    using Suc.prems(8) carry_step [OF Suc.prems(1)] unfolding U(1,2) U(3) by simp
  have d: "\<forall>i<k. ?buf ! i < 58" by (rule upd_less [OF Suc.prems(7)]) simp
  have small: "Suc j < 2 ^ 31" using Suc.prems(1,3) by simp
  show ?case
  proof (cases "Suc j \<le> stop - 1 \<and> ?c div 58 = 0")
    case True
    then have e: "encode_digits buf carry stop (Suc j) = Some (?buf, Suc j)"
      using Suc.prems(1,2,4) small by (subst encode_digits_step) auto
    have z: "\<forall>i<Suc j. ?buf ! i = 0" using True Suc.prems(6) by auto
    have "part_val k ?buf 0 (Suc j) = 0" by (rule part_val_zero [OF z])
    then have v: "part_val k ?buf 0 k = T"
      using T True part_val_upd(4) [of "Suc j" k ?buf] Suc.prems(1,2) by simp
    have "Suc j = stop - 1 \<or> 58 ^ (k - 1 - Suc j) \<le> T"
      using carry_le [OF Suc.prems(8)] Suc.prems(10) True by linarith
    then show ?thesis using e v d z True Suc.prems(4) by (intro exI [of _ ?buf] exI [of _ "Suc j"]) auto
  next
    case False
    then have e: "encode_digits buf carry stop (Suc j) = encode_digits ?buf (?c div 58) stop j"
      using Suc.prems(1,2,4) small by (subst encode_digits_step) (auto simp: size_dec_def)
    have "\<exists>buf' j'. encode_digits ?buf (?c div 58) stop j = Some (buf', j') \<and> length buf' = length ?buf \<and> part_val k buf' 0 k = T \<and>
       (\<forall>i<k. buf' ! i < 58) \<and> (\<forall>i<j'. buf' ! i = 0) \<and> j' < stop \<and> (j' = stop - 1 \<or> 58 ^ (k - 1 - j') \<le> T)"
    proof (rule Suc.IH [OF _ _ Suc.prems(3,4,5) _ d _ Suc.prems(9)])
      show "T = 256 * part_val k ?buf 0 (Suc j) + ?c div 58 * 58 ^ (k - 1 - j) + part_val k ?buf (Suc j) k" using T by simp
      show "\<forall>i. i < stop \<and> i \<le> j \<longrightarrow> ?buf ! i = 0" using Suc.prems(6) by auto
    qed (use False Suc.prems in auto)
    then show ?thesis unfolding e by simp
  qed
qed

text \<open>A factor of 1.38 digits for each byte is enough.\<close>

lemma pow58_bound:
  assumes "58 ^ s \<le> (256 :: nat) ^ t"
  shows "100 * s \<le> 138 * t"
proof (rule ccontr)
  assume "\<not> 100 * s \<le> 138 * t"
  then have "(58 :: nat) ^ (138 * t + 1) \<le> 58 ^ (100 * s)" by (intro power_increasing) auto
  also have "\<dots> = (58 ^ s) ^ 100" by (simp add: power_mult mult.commute)
  also have "\<dots> \<le> (256 ^ t) ^ 100" by (rule power_mono [OF assms]) simp
  also have "\<dots> = (256 ^ 100) ^ t" by (metis power_mult mult.commute)
  also have "\<dots> \<le> (58 ^ 138) ^ t" by (rule power_mono) auto
  also have "\<dots> = 58 ^ (138 * t)" by (simp only: power_mult)
  finally show False by simp
qed

lemma be_val_digits: "be_val bs = digits_val 256 (map unat bs)"
  by (induction bs) (simp_all add: digits_val_Cons)

lemma encode_bytes_ok:
  assumes "z + n = in_len" "in_len \<le> length inp" "k = n * 138 div 100 + 1" "k \<le> 200"
  shows "t \<le> n \<Longrightarrow> length buf = L \<Longrightarrow> k \<le> L \<Longrightarrow> stop < k \<Longrightarrow> \<forall>i. i < stop \<longrightarrow> buf ! i = 0 \<Longrightarrow> \<forall>i<k. buf ! i < 58 \<Longrightarrow>
     part_val k buf 0 k = digits_val 256 (map unat (take t (drop z inp))) \<Longrightarrow> 58 ^ (k - 1 - stop) \<le> (256 :: nat) ^ t \<Longrightarrow>
     \<exists>buf'. encode_bytes inp in_len buf k stop (z + t) = Some buf' \<and> length buf' = L \<and> (\<forall>i<k. buf' ! i < 58) \<and>
       part_val k buf' 0 k = digits_val 256 (map unat (take n (drop z inp)))"
proof (induction "n - t" arbitrary: t buf stop)
  case 0
  then show ?case using assms(1) by (subst encode_bytes.simps) simp
next
  case (Suc m)
  have tn: "t < n" using Suc.hyps(2) by simp
  let ?b = "inp ! (z + t)" and ?T = "digits_val 256 (map unat (take (Suc t) (drop z inp)))"
  have tk: "take (Suc t) (drop z inp) = take t (drop z inp) @ [?b]"
    using tn assms(1,2) by (simp add: take_Suc_conv_app_nth)
  have T: "?T = 256 * part_val k buf 0 (Suc (k - 1)) + unat ?b * 58 ^ (k - 1 - (k - 1)) + part_val k buf (Suc (k - 1)) k"
  proof -
    have "Suc (k - 1) = k" "part_val k buf k k = 0" using assms(3) by (simp_all add: part_val_def)
    then show ?thesis using Suc.prems(7) by (simp only: tk map_append list.map digits_val_simps) simp
  qed
  have B: "?T < 256 ^ Suc t"
  proof -
    have "length (take (Suc t) (drop z inp)) = Suc t" using tn assms(1,2) by simp
    then show ?thesis using be_val_bound [of "take (Suc t) (drop z inp)"] by (simp only: be_val_digits)
  qed
  have "\<not> 58 ^ k \<le> (256 :: nat) ^ n" using pow58_bound [of k n] assms(3) by auto
  moreover have "(256 :: nat) ^ Suc t \<le> 256 ^ n" using tn by (intro power_increasing) auto
  ultimately have fits: "?T < 58 ^ k" using B by linarith
  have "0 < stop"
  proof (rule ccontr)
    assume "\<not> 0 < stop"
    then have "100 * (k - 1) \<le> 138 * t" using pow58_bound [OF Suc.prems(8)] by simp
    then show False using assms(3) tn by simp
  qed
  then have "\<exists>buf' j'. encode_digits buf (unat ?b) stop (k - 1) = Some (buf', j') \<and> length buf' = length buf \<and> part_val k buf' 0 k = ?T \<and>
     (\<forall>i<k. buf' ! i < 58) \<and> (\<forall>i<j'. buf' ! i = 0) \<and> j' < stop \<and> (j' = stop - 1 \<or> 58 ^ (k - 1 - j') \<le> ?T)"
    by (intro encode_digits_ok [OF _ _ assms(4) _ Suc.prems(4) _ Suc.prems(6) T fits]) (use Suc.prems(2,3,4,5) in auto)
  then obtain buf' j' where e: "encode_digits buf (unat ?b) stop (k - 1) = Some (buf', j')" "length buf' = length buf"
     "part_val k buf' 0 k = ?T" "\<forall>i<k. buf' ! i < 58" "\<forall>i<j'. buf' ! i = 0" "j' < stop" "j' = stop - 1 \<or> 58 ^ (k - 1 - j') \<le> ?T"
    by (elim exE conjE)
  have "58 ^ (k - 1 - j') \<le> (256 :: nat) ^ Suc t"
  proof (rule disjE [OF e(7)])
    assume "j' = stop - 1"
    then have "k - 1 - j' = Suc (k - 1 - stop)" using \<open>0 < stop\<close> Suc.prems(4) by simp
    then show ?thesis using mult_mono [of 58 256 "58 ^ (k - 1 - stop)" "256 ^ t :: nat"] Suc.prems(8) by simp
  qed (use B in linarith)
  moreover have "encode_bytes inp in_len buf k stop (z + t) = encode_bytes inp in_len buf' k j' (z + Suc t)"
    using tn assms(1,2) e(1) by (subst encode_bytes.simps) (simp add: mem_simps)
  ultimately show ?case
    using Suc.hyps(1) [of "Suc t" buf' j'] Suc.hyps(2) tn e Suc.prems by auto
qed

lemma encode_out_eq:
  "j \<le> k \<Longrightarrow> k \<le> length buf \<Longrightarrow> \<forall>d\<in>set (take (k - j) (drop j buf)). d < 58 \<Longrightarrow> i + (k - j) \<le> length out \<Longrightarrow>
     encode_out buf k j out i =
     Some (int (i + (k - j)), take i out @ map b58_char (take (k - j) (drop j buf)) @ drop (i + (k - j)) out)"
proof (induction "k - j" arbitrary: j out i)
  case 0
  then show ?case by (subst encode_out.simps) simp
next
  case (Suc m)
  have jk: "j < k" using Suc.hyps(2) by simp
  have d: "take (k - j) (drop j buf) = buf ! j # take (k - Suc j) (drop (Suc j) buf)"
    using jk Suc.prems(2) take_drop_Suc [of j "k - Suc j" buf] by (simp add: Suc_diff_Suc)
  have "encode_out buf k j out i = encode_out buf k (Suc j) (out[i := b58_char (buf ! j)]) (Suc i)"
    using jk Suc.prems d by (subst encode_out.simps) (auto simp: mem_simps b58_char_def)
  also have "\<dots> = Some (int (Suc i + (k - Suc j)), take (Suc i) (out[i := b58_char (buf ! j)]) @
      map b58_char (take (k - Suc j) (drop (Suc j) buf)) @ drop (Suc i + (k - Suc j)) (out[i := b58_char (buf ! j)]))"
    by (rule Suc.hyps(1)) (use Suc.hyps(2) Suc.prems jk d in auto)
  finally show ?case using jk Suc.prems(4) unfolding d by (simp add: take_Suc_conv_app_nth Suc_diff_Suc [symmetric])
qed

section \<open>The encoder\<close>

definition base58_encoded :: "bytes \<Rightarrow> bytes" where
  "base58_encoded bs =
     map b58_char (replicate (length (takeWhile (\<lambda>b. b = 0) bs)) 0 @ digits_of 58 (be_val bs))"

lemma takeWhile_unat: "length (takeWhile (\<lambda>d. d = 0) (map unat bs)) = length (takeWhile (\<lambda>b. b = 0) (bs :: bytes))"
  by (simp add: takeWhile_map o_def unat_eq_0)

lemma base58_encode_eq:
  assumes "in_len \<le> length inp" "out_len \<le> length out"
  shows "base58_encode inp in_len out out_len = Some (let cs = base58_encoded (take in_len inp) in
     if 120 < in_len \<or> out_len < length cs then (-1, out) else (int (length cs), cs @ drop (length cs) out))"
proof (cases "120 < in_len")
  case False
  define z where "z = length (takeWhile (\<lambda>b. b = 0) (take in_len inp))"
  define n where "n = in_len - z"
  define k where "k = n * 138 div 100 + 1"
  let ?N = "be_val (take in_len inp)" and ?b0 = "replicate 166 0 :: nat list"
  have z: "z + n = in_len" "z \<le> in_len" using length_takeWhile_le [of "\<lambda>b. b = 0" "take in_len inp"] assms(1) by (auto simp: z_def n_def)
  have k: "k \<le> 166" using z False by (simp add: k_def)
  have sk: "skip_zeros (map unat inp) in_len 0 = Some z"
    using skip_zeros_eq [of 0 in_len "map unat inp"] assms(1) takeWhile_unat by (simp add: z_def take_map)
  have rest: "take in_len inp = replicate z 0 @ take n (drop z inp)"
  proof -
    have "take in_len inp = replicate z 0 @ dropWhile (\<lambda>b. b = 0) (take in_len inp)" unfolding z_def by (rule zeros_split)
    also have "dropWhile (\<lambda>b. b = 0) (take in_len inp) = take n (drop z inp)" by (simp add: dropWhile_eq_drop z_def n_def drop_take)
    finally show ?thesis .
  qed
  have N: "?N = digits_val 256 (map unat (take n (drop z inp)))" unfolding rest by (simp add: be_val_append be_val_digits)
  have "\<exists>buf'. encode_bytes inp in_len ?b0 k (k - 1) (z + 0) = Some buf' \<and> length buf' = 166 \<and> (\<forall>i<k. buf' ! i < 58) \<and>
       part_val k buf' 0 k = digits_val 256 (map unat (take n (drop z inp)))"
    by (rule encode_bytes_ok [OF z(1) assms(1) k_def]) (use k in \<open>auto simp: k_def part_val_def\<close>)
  then obtain buf where b: "encode_bytes inp in_len ?b0 k (k - 1) z = Some buf" "length buf = 166" "\<forall>i<k. buf ! i < 58"
    "digits_val 58 (take k buf) = ?N"
    using part_val_all [of k] k N by auto
  define j where "j = length (takeWhile (\<lambda>d. d = 0) (take k buf))"
  have dl: "\<forall>d\<in>set (take k buf). d < 58" using b(2,3) k by (auto simp: in_set_conv_nth)
  have j: "j \<le> k" "take (k - j) (drop j buf) = digits_of 58 ?N"
    using length_takeWhile_le [of "\<lambda>d. d = 0" "take k buf"] digits_of_val [of 58 "take k buf"] dl b(2,4) k
    by (auto simp: j_def dropWhile_eq_drop drop_take)
  have sk2: "skip_zeros buf k 0 = Some j" using skip_zeros_eq [of 0 k buf] b(2) k by (simp add: j_def)
  let ?cs = "base58_encoded (take in_len inp)"
  have "length (digits_of 58 ?N) = k - j" using j b(2) k by (metis length_take length_drop min.absorb2 diff_le_mono)
  then have len: "length ?cs = z + (k - j)" by (simp add: base58_encoded_def z_def)
  have g: "(in_len > MAX_ENC_INPUT_SIZE) = False" "z + k - j = z + (k - j)" using False j(1) by (auto simp: MAX_ENC_INPUT_SIZE_def)
  have b166: "MAX_ENC_INPUT_SIZE * 138 div 100 + 1 = 166" by (simp add: MAX_ENC_INPUT_SIZE_def)
  have eq: "base58_encode inp in_len out out_len =
      (if out_len < length ?cs then Some (-1, out)
       else do { out \<leftarrow> memset_n out 0 (b58_char 0) z; encode_out buf k j out z })"
    unfolding base58_encode_def g(1) b166 if_False sk bind.bind_lunit Let_def n_def [symmetric] k_def [symmetric] b(1) sk2 g(2) len
    by (simp add: ld_def b58_char_def)
  show ?thesis
  proof (cases "out_len < length ?cs")
    case fits: False
    then have m: "memset_n out 0 (b58_char 0) z = Some (replicate z (b58_char 0) @ drop z out)"
      using assms(2) len by (simp add: mem_simps)
    have "encode_out buf k j (replicate z (b58_char 0) @ drop z out) z = Some (int (z + (k - j)), ?cs @ drop (z + (k - j)) out)"
      using encode_out_eq [of j k buf z "replicate z (b58_char 0) @ drop z out"] j b(2) k dl fits len assms(2) digits_of_less [of _ 58 ?N]
      by (auto simp: base58_encoded_def z_def add.commute)
    then show ?thesis using fits False len unfolding eq m bind.bind_lunit Let_def by simp
  qed (unfold eq, simp)
qed (simp add: base58_encode_def MAX_ENC_INPUT_SIZE_def)

section \<open>Properties\<close>

lemma base58_encoded_length:
  assumes "length bs \<le> 120"
  shows "length (base58_encoded bs) \<le> 164"
proof -
  define z where "z = length (takeWhile (\<lambda>b. b = 0) bs)"
  define m where "m = length (dropWhile (\<lambda>b. b = 0) bs)"
  let ?ds = "digits_of 58 (be_val bs)"
  have zm: "z + m = length bs" unfolding z_def m_def by (metis length_append takeWhile_dropWhile_id)
  have "be_val bs = be_val (dropWhile (\<lambda>b. b = 0) bs)"
    by (subst zeros_split [of bs 0]) (simp add: be_val_append)
  then have N: "be_val bs < 256 ^ m" using be_val_bound [of "dropWhile (\<lambda>b. b = 0) bs"] by (simp add: m_def)
  show ?thesis
  proof (cases ?ds)
    case Nil
    then show ?thesis using zm assms by (simp add: base58_encoded_def z_def)
  next
    case (Cons d ds)
    have "58 ^ length ds \<le> d * 58 ^ length ds" using digits_of_hd [OF Cons] by simp
    also have "\<dots> \<le> be_val bs" using digits_val_of [of 58 "be_val bs"] Cons by (simp add: digits_val_Cons)
    finally have "58 ^ length ds < (256 :: nat) ^ m" using N by simp
    then have "58 ^ z * 58 ^ length ds < (256 :: nat) ^ z * 256 ^ m"
      by (intro mult_le_less_imp_less) (auto intro: power_mono)
    then have "(58 :: nat) ^ (z + length ds) < 256 ^ length bs" using zm by (simp add: power_add [symmetric])
    also have "(256 :: nat) ^ length bs \<le> 256 ^ 120" using assms by (intro power_increasing) auto
    also have "(256 :: nat) ^ 120 \<le> 58 ^ 164" by simp
    finally have "z + length ds < 164" using power_less_imp_less_exp [of 58 "z + length ds" 164] by simp
    then show ?thesis using Cons by (simp add: base58_encoded_def z_def)
  qed
qed

lemma base58_encoded_digits: "map b58_digit (base58_encoded bs) = replicate (length (takeWhile (\<lambda>b. b = 0) bs)) 0 @ digits_of 58 (be_val bs)"
  using digits_of_less [of _ 58 "be_val bs"] by (auto simp: base58_encoded_def b58_digit_char intro!: map_idI)

lemma base58_decoded_encoded: "base58_decoded (base58_encoded bs) = bs"
proof -
  let ?z = "length (takeWhile (\<lambda>b. b = 0) bs)" and ?ds = "digits_of 58 (be_val bs)"
  let ?rest = "dropWhile (\<lambda>b. b = 0) bs"
  have h: "takeWhile (\<lambda>d. d = 0) ?ds = []" using digits_of_hd [of 58 "be_val bs"] by (cases ?ds) auto
  have z: "length (takeWhile (\<lambda>d. d = 0) (replicate ?z 0 @ ?ds)) = ?z" using h by (subst takeWhile_append2) auto
  have "digits_of 256 (be_val bs) = map unat ?rest"
    using digits_of_val [of 256 "map unat bs"] unat_bound8
    by (auto simp: be_val_digits dropWhile_map o_def unat_eq_0)
  then have "base58_decoded (base58_encoded bs) = replicate ?z 0 @ ?rest"
    by (simp add: base58_decoded_def Let_def base58_encoded_digits z map_idI)
  then show ?thesis using zeros_split [of bs 0] by simp
qed

lemma b58_digit_encoded: "c \<in> set (base58_encoded bs) \<Longrightarrow> b58_digit c \<noteq> 0xFF"
  using digits_of_less [of _ 58 "be_val bs"] by (force simp: base58_encoded_def b58_digit_char)

text \<open>Property C26.  For buffers as long as announced, \<open>base58_encode\<close> and \<open>base58_decode\<close> access nothing outside their arrays, and compute the
  positional notation: one zero digit for every leading zero byte and then the shortest notation of the number in base 58, and back.  They return -1 exactly for inputs that are
  too long (or, decoding, too short), for characters outside the alphabet, and when the output does not fit.\<close>

theorem base58_codec_spec:
  assumes "in_len \<le> length inp" "out_len \<le> length out" "out_len < 2 ^ 31"
  shows "base58_encode inp in_len out out_len = Some (let cs = base58_encoded (take in_len inp) in
       if 120 < in_len \<or> out_len < length cs then (-1, out) else (int (length cs), cs @ drop (length cs) out)) \<and>
     base58_decode inp in_len out out_len = Some (let cs = take in_len inp; bs = base58_decoded cs in
       if in_len < 2 \<or> 164 < in_len \<or> (\<exists>c\<in>set cs. b58_digit c = 0xFF) \<or> out_len < length bs then (-1, out)
       else (int (length bs), bs @ drop (length bs) out))"
  using base58_encode_eq [OF assms(1,2)] base58_decode_eq [OF assms] by blast

theorem base58_codec_spec_witness:
  "base58_encode [0, 1] 2 [0, 0, 0] 3 = Some (2, [0x31, 0x32, 0]) \<and> base58_decode [0x30, 0x32] 2 [0, 0, 0] 3 = Some (-1, [0, 0, 0])"
proof -
  have "base58_encoded [0, 1] = [0x31, 0x32]"
    by (simp add: base58_encoded_def digits_of.simps b58_char_def BASE58_ALPHABET_def numeral_2_eq_2)
  moreover have "b58_digit 0x30 = 0xFF" by (simp add: b58_digit_def BASE58_TABLE_def nth_append)
  ultimately show ?thesis
    using base58_codec_spec [of 2 "[0, 1]" 3 "[0, 0, 0]"] base58_codec_spec [of 2 "[0x30, 0x32]" 3 "[0, 0, 0]"]
    by (simp add: Let_def)
qed

lemma length_digits_of_less_2: "length (digits_of 58 n) < 2 \<longleftrightarrow> n < 58"
proof (cases "n = 0")
  case False
  have "digits_of 58 n = digits_of 58 (n div 58) @ [n mod 58]" using False by (subst digits_of.simps) simp
  moreover have "digits_of 58 (n div 58) = [] \<longleftrightarrow> n div 58 = 0"
    by (subst digits_of.simps) simp
  moreover have "n div 58 = 0 \<longleftrightarrow> n < 58" by (simp add: div_eq_0_iff)
  ultimately show ?thesis by simp
qed simp

text \<open>The byte strings whose text has fewer than two characters.\<close>

lemma base58_encoded_short:
  "length (base58_encoded bs) < 2 \<longleftrightarrow> bs = [] \<or> (\<exists>b. bs = [b] \<and> unat b < 58)"
proof (cases bs rule: remdups_adj.cases)
  case 1
  then show ?thesis by (simp add: base58_encoded_def)
next
  case (2 b)
  have "length (digits_of 58 (unat b)) = 0" if "b = 0" using that by simp
  then show ?thesis
    using 2 length_digits_of_less_2 [of "unat b"] by (auto simp: base58_encoded_def)
next
  case (3 b c cs)
  have "\<not> length (base58_encoded bs) < 2"
  proof (cases "b = 0")
    case True
    show ?thesis
    proof (cases "c = 0")
      case c: True
      have "2 \<le> length (takeWhile (\<lambda>b. b = 0) bs)" using True c 3 by simp
      then show ?thesis by (simp add: base58_encoded_def)
    next
      case False
      then have "0 < be_val bs" using 3 True by (simp add: unat_gt_0)
      then have "0 < length (digits_of 58 (be_val bs))" by (subst digits_of.simps) simp
      moreover have "length (takeWhile (\<lambda>b. b = 0) bs) = 1" using True False 3 by simp
      ultimately show ?thesis by (simp add: base58_encoded_def)
    qed
  next
    case False
    then have "1 * 256 ^ 1 \<le> unat b * 256 ^ length (c # cs)"
      by (intro mult_mono power_increasing) (auto simp: unat_gt_0 Suc_le_eq)
    also have "\<dots> \<le> be_val bs" unfolding 3 by (simp only: be_val.simps le_add1)
    finally have "\<not> be_val bs < 58" by simp
    then show ?thesis using length_digits_of_less_2 [of "be_val bs"] by (simp add: base58_encoded_def)
  qed
  then show ?thesis using 3 by simp
qed

text \<open>Property C25.  What \<open>base58_encode\<close> writes for at most 120 bytes, \<open>base58_decode\<close> turns back into these bytes, except for
  the empty string and a single byte below 58: their text has fewer than two characters, which \<open>base58_decode\<close> refuses
  with -1, writing nothing.\<close>

theorem base58_roundtrip:
  assumes "length bs \<le> 120"
    and "length (base58_encoded bs) \<le> length out" "length out < 2 ^ 31" "length bs \<le> length dst" "length dst < 2 ^ 31"
  shows "\<exists>m cs. base58_encode bs (length bs) out (length out) = Some (int m, cs) \<and>
     base58_decode cs m dst (length dst) =
       Some (if bs = [] \<or> (\<exists>b. bs = [b] \<and> unat b < 58) then (-1, dst)
             else (int (length bs), bs @ drop (length bs) dst))"
proof -
  let ?e = "base58_encoded bs"
  let ?cs = "?e @ drop (length ?e) out"
  have "base58_encode bs (length bs) out (length out) = Some (int (length ?e), ?cs)"
    using base58_encode_eq [of "length bs" bs "length out" out] assms by (simp add: Let_def)
  moreover have "base58_decode ?cs (length ?e) dst (length dst) =
      Some (if length ?e < 2 then (-1, dst) else (int (length bs), bs @ drop (length bs) dst))"
    using base58_decode_eq [of "length ?e" ?cs "length dst" dst] assms base58_encoded_length [OF assms(1)] b58_digit_encoded [of _ bs]
    by (auto simp: Let_def base58_decoded_encoded)
  ultimately show ?thesis unfolding base58_encoded_short by blast
qed

theorem base58_roundtrip_witness:
  "(\<exists>m cs. base58_encode [0, 200] 2 [0, 0, 0, 0] 4 = Some (int m, cs) \<and> base58_decode cs m [0, 0, 7] 3 = Some (2, [0, 200, 7])) \<and>
   (\<exists>m cs. base58_encode [5] 1 [0, 0, 0, 0] 4 = Some (int m, cs) \<and> base58_decode cs m [0, 0, 7] 3 = Some (-1, [0, 0, 7]))"
proof -
  have "length (base58_encoded [0, 200]) = 3" "length (base58_encoded [5]) = 1"
    by (simp_all add: base58_encoded_def digits_of.simps)
  moreover have l: "length [0, 200 :: u8] = 2" "length [0, 0, 0, 0 :: u8] = 4" "length [0, 0, 7 :: u8] = 3" "length [5 :: u8] = 1" by simp_all
  ultimately show ?thesis
    using base58_roundtrip [of "[0, 200]" "[0, 0, 0, 0]" "[0, 0, 7]"] base58_roundtrip [of "[5]" "[0, 0, 0, 0]" "[0, 0, 7]"]
    unfolding l by simp
qed

end
