(* ===== verification/App_Storage.thy ===== *)
theory App_Storage
  imports Prelude
begin

text \<open>
The application storage: \<^verbatim>\<open>lib_standard_app/app_storage.c\<close>.

The storage is the byte image of \<open>app_storage_t\<close> in flash: the checksum, the header of 16 bytes and the data.  The checksum
\<open>cx_crc32\<close> is computed by hardware and \<open>nvm_write\<close> is a system call: both are arguments, \<open>crc\<close> without any assumption and \<open>nvm\<close> with
\<open>nvm_ok\<close>, that it writes the bytes it is given and nothing else.  \<open>n\<close> is the build constant \<open>APP_STORAGE_SIZE\<close> and \<open>props\<close> the
properties word of the build.  The operations are shown to implement a byte array with a used part.
\<close>

section \<open>The storage\<close>

definition APP_STORAGE_TAG :: bytes where "APP_STORAGE_TAG = map of_char ''NVRA''"
definition APP_STORAGE_SUCCESS :: int where "APP_STORAGE_SUCCESS = 0"
definition APP_STORAGE_ERR_INVALID_ARGUMENT :: int where "APP_STORAGE_ERR_INVALID_ARGUMENT = -1"
definition APP_STORAGE_ERR_NO_DATA_AVAILABLE :: int where "APP_STORAGE_ERR_NO_DATA_AVAILABLE = -2"
definition APP_STORAGE_ERR_OVERFLOW :: int where "APP_STORAGE_ERR_OVERFLOW = -3"
definition APP_STORAGE_ERR_INVALID_HEADER :: int where "APP_STORAGE_ERR_INVALID_HEADER = -4"
definition APP_STORAGE_ERR_CORRUPTED :: int where "APP_STORAGE_ERR_CORRUPTED = -5"
definition APP_STORAGE_ERASE_BLOCK_SIZE :: nat where "APP_STORAGE_ERASE_BLOCK_SIZE = 256"

lemmas storage_codes = APP_STORAGE_SUCCESS_def APP_STORAGE_ERR_INVALID_ARGUMENT_def APP_STORAGE_ERR_NO_DATA_AVAILABLE_def
  APP_STORAGE_ERR_OVERFLOW_def APP_STORAGE_ERR_INVALID_HEADER_def APP_STORAGE_ERR_CORRUPTED_def

text \<open>The offsets of the fields of \<open>app_storage_t\<close> and of the header in it.\<close>

definition off_header :: nat where "off_header = 4"
definition off_size :: nat where "off_size = 8"
definition off_properties :: nat where "off_properties = 14"
definition off_version :: nat where "off_version = 16"
definition off_data :: nat where "off_data = 20"

lemmas storage_offsets = off_header_def off_size_def off_properties_def off_version_def off_data_def

definition ld_u32 :: "bytes \<Rightarrow> nat \<Rightarrow> u32 option" where
  "ld_u32 m i = do { bs \<leftarrow> ld_n m i 4; Some (word_of_nat (le_val bs)) }"

definition ld_u16 :: "bytes \<Rightarrow> nat \<Rightarrow> u16 option" where
  "ld_u16 m i = do { bs \<leftarrow> ld_n m i 2; Some (word_of_nat (le_val bs)) }"

type_synonym nvm_writer = "bytes \<Rightarrow> nat \<Rightarrow> bytes \<Rightarrow> bytes"

section \<open>Operations\<close>

text \<open>\<open>sizeof(app_storage.header) + app_storage.header.size\<close> bytes from the header.\<close>

definition cx_crc32_storage :: "(bytes \<Rightarrow> u32) \<Rightarrow> bytes \<Rightarrow> u32 option" where
  "cx_crc32_storage crc m = do {
     sz \<leftarrow> ld_u32 m off_size;
     bs \<leftarrow> ld_n m off_header (unat (16 + sz));
     Some (crc bs) }"

definition app_storage_is_initalized :: "(bytes \<Rightarrow> u32) \<Rightarrow> bytes \<Rightarrow> int option" where
  "app_storage_is_initalized crc m = do {
     tag \<leftarrow> ld_n m off_header 4;
     if tag \<noteq> APP_STORAGE_TAG then Some APP_STORAGE_ERR_INVALID_HEADER
     else do {
       c \<leftarrow> cx_crc32_storage crc m;
       s \<leftarrow> ld_u32 m 0;
       Some (if c \<noteq> s then APP_STORAGE_ERR_CORRUPTED else APP_STORAGE_SUCCESS) } }"

definition update_crc :: "(bytes \<Rightarrow> u32) \<Rightarrow> nvm_writer \<Rightarrow> bytes \<Rightarrow> bytes option" where
  "update_crc crc nvm m = do {
     c \<leftarrow> cx_crc32_storage crc m;
     Some (nvm m 0 (le_bytes 4 c)) }"

definition system_header_reset :: "(bytes \<Rightarrow> u32) \<Rightarrow> nvm_writer \<Rightarrow> u16 \<Rightarrow> bytes \<Rightarrow> bytes option" where
  "system_header_reset crc nvm props m =
     update_crc crc nvm (nvm m off_header (APP_STORAGE_TAG @ le_bytes 4 (0 :: u32) @ le_bytes 2 (1 :: u16) @ le_bytes 2 props @ le_bytes 4 (1 :: u32)))"

definition app_storage_init :: "(bytes \<Rightarrow> u32) \<Rightarrow> nvm_writer \<Rightarrow> u16 \<Rightarrow> bytes \<Rightarrow> (int \<times> bytes) option" where
  "app_storage_init crc nvm props m = do {
     status \<leftarrow> app_storage_is_initalized crc m;
     if status = APP_STORAGE_ERR_INVALID_HEADER then do {
       m \<leftarrow> system_header_reset crc nvm props m;
       Some (APP_STORAGE_SUCCESS, m) }
     else if status = APP_STORAGE_ERR_CORRUPTED then do {
       m \<leftarrow> system_header_reset crc nvm props m;
       Some (status, m) }
     else Some (status, m) }"

text \<open>\<open>n\<close> is \<open>APP_STORAGE_SIZE\<close>.\<close>

function erase_loop :: "nvm_writer \<Rightarrow> nat \<Rightarrow> bytes \<Rightarrow> nat \<Rightarrow> bytes \<times> nat" where
  "erase_loop nvm n m offset =
     (if offset < n - APP_STORAGE_ERASE_BLOCK_SIZE
      then erase_loop nvm n (nvm m (off_data + offset) (replicate APP_STORAGE_ERASE_BLOCK_SIZE 0)) (offset + APP_STORAGE_ERASE_BLOCK_SIZE)
      else (m, offset))"
  by pat_completeness auto
termination by (relation "measure (\<lambda>(nvm, n, m, offset). n - offset)") (auto simp: APP_STORAGE_ERASE_BLOCK_SIZE_def)

declare erase_loop.simps [simp del]

definition app_storage_reset :: "(bytes \<Rightarrow> u32) \<Rightarrow> nvm_writer \<Rightarrow> u16 \<Rightarrow> nat \<Rightarrow> bytes \<Rightarrow> bytes option" where
  "app_storage_reset crc nvm props n m = do {
     m \<leftarrow> system_header_reset crc nvm props m;
     let (m, offset, need_update) =
       (if n > APP_STORAGE_ERASE_BLOCK_SIZE then let (m, offset) = erase_loop nvm n m 0 in (m, offset, True) else (m, 0, False));
     let (m, need_update) =
       (if n > offset then (nvm m (off_data + offset) (take (n - offset) (replicate APP_STORAGE_ERASE_BLOCK_SIZE 0)), True) else (m, need_update));
     if need_update then update_crc crc nvm m else Some m }"

definition app_storage_get_size :: "bytes \<Rightarrow> u32 option" where
  "app_storage_get_size m = ld_u32 m off_size"

definition app_storage_get_data_version :: "bytes \<Rightarrow> u32 option" where
  "app_storage_get_data_version m = ld_u32 m off_version"

definition app_storage_get_properties :: "bytes \<Rightarrow> u16 option" where
  "app_storage_get_properties m = ld_u16 m off_properties"

definition app_storage_set_data_version :: "(bytes \<Rightarrow> u32) \<Rightarrow> nvm_writer \<Rightarrow> bytes \<Rightarrow> u32 \<Rightarrow> bytes option" where
  "app_storage_set_data_version crc nvm m data_version = update_crc crc nvm (nvm m off_version (le_bytes 4 data_version))"

definition app_storage_increment_data_version :: "(bytes \<Rightarrow> u32) \<Rightarrow> nvm_writer \<Rightarrow> bytes \<Rightarrow> bytes option" where
  "app_storage_increment_data_version crc nvm m = do {
     data_version \<leftarrow> ld_u32 m off_version;
     let data_version = data_version + 1;
     let data_version = (if data_version = 0 then 1 else data_version);
     update_crc crc nvm (nvm m off_version (le_bytes 4 data_version)) }"

text \<open>A pointer that may be NULL is an option; \<open>buf\<close> holds at least \<open>nbyte\<close> bytes.\<close>

definition app_storage_write :: "(bytes \<Rightarrow> u32) \<Rightarrow> nvm_writer \<Rightarrow> nat \<Rightarrow> bytes \<Rightarrow> bytes option \<Rightarrow> u32 \<Rightarrow> u32 \<Rightarrow> (int \<times> bytes) option" where
  "app_storage_write crc nvm n m buf nbyte offset =
     (case buf of
        None \<Rightarrow> Some (APP_STORAGE_ERR_INVALID_ARGUMENT, m)
      | Some b \<Rightarrow>
          if nbyte = 0 then Some (APP_STORAGE_ERR_INVALID_ARGUMENT, m)
          else if unat offset + unat nbyte \<ge> 2 ^ 32 then Some (APP_STORAGE_ERR_INVALID_ARGUMENT, m)
          else do {
            let max_offset = offset + nbyte;
            if unat max_offset > n then Some (APP_STORAGE_ERR_OVERFLOW, m)
            else do {
              bs \<leftarrow> ld_n b 0 (unat nbyte);
              let m = nvm m (off_data + unat offset) bs;
              sz \<leftarrow> ld_u32 m off_size;
              let m = (if sz < max_offset then nvm m off_size (le_bytes 4 max_offset) else m);
              m \<leftarrow> update_crc crc nvm m;
              Some (sint nbyte, m) } })"

definition app_storage_read :: "bytes \<Rightarrow> bytes option \<Rightarrow> u32 \<Rightarrow> u32 \<Rightarrow> (int \<times> bytes option) option" where
  "app_storage_read m buf nbyte offset =
     (case buf of
        None \<Rightarrow> Some (APP_STORAGE_ERR_INVALID_ARGUMENT, buf)
      | Some b \<Rightarrow>
          if nbyte = 0 then Some (APP_STORAGE_ERR_INVALID_ARGUMENT, buf)
          else if unat offset + unat nbyte \<ge> 2 ^ 32 then Some (APP_STORAGE_ERR_INVALID_ARGUMENT, buf)
          else do {
            let max_offset = offset + nbyte;
            sz \<leftarrow> ld_u32 m off_size;
            if max_offset > sz then Some (APP_STORAGE_ERR_NO_DATA_AVAILABLE, buf)
            else do {
              b \<leftarrow> memcpy_n b 0 m (off_data + unat offset) (unat nbyte);
              Some (sint nbyte, Some b) } })"

section \<open>The abstract store\<close>

text \<open>A byte array, the length of its used part, a version and properties.\<close>

record store =
  s_data :: bytes
  s_used :: u32
  s_version :: u32
  s_props :: u16

datatype storage_op =
    St_init
  | St_reset
  | St_write "bytes option" u32 u32
  | St_read "bytes option" u32 u32
  | St_set_version u32
  | St_increment_version
  | St_get_size
  | St_get_version
  | St_get_properties

text \<open>A result is a number and the contents of the caller's buffer.  A call is given buffers of at least the announced length.\<close>

definition store_step :: "u16 \<Rightarrow> storage_op \<Rightarrow> store \<Rightarrow> ((int \<times> bytes option) \<times> store) option" where
  "store_step props op s =
     (case op of
        St_init \<Rightarrow> Some ((0, None), s)
      | St_reset \<Rightarrow> Some ((0, None), \<lparr>s_data = replicate (length (s_data s)) 0, s_used = 0, s_version = 1, s_props = props\<rparr>)
      | St_write buf nbyte offset \<Rightarrow>
          (case buf of
             None \<Rightarrow> Some ((-1, None), s)
           | Some b \<Rightarrow>
               if length b < unat nbyte then None
               else if nbyte = 0 \<or> unat offset + unat nbyte \<ge> 2 ^ 32 then Some ((-1, None), s)
               else if unat offset + unat nbyte > length (s_data s) then Some ((-3, None), s)
               else Some ((int (unat nbyte), None),
                 s\<lparr>s_data := take (unat offset) (s_data s) @ take (unat nbyte) b @ drop (unat offset + unat nbyte) (s_data s),
                   s_used := max (s_used s) (offset + nbyte)\<rparr>))
      | St_read buf nbyte offset \<Rightarrow>
          (case buf of
             None \<Rightarrow> Some ((-1, None), s)
           | Some b \<Rightarrow>
               if length b < unat nbyte then None
               else if nbyte = 0 \<or> unat offset + unat nbyte \<ge> 2 ^ 32 then Some ((-1, Some b), s)
               else if unat offset + unat nbyte > unat (s_used s) then Some ((-2, Some b), s)
               else Some ((int (unat nbyte), Some (take (unat nbyte) (drop (unat offset) (s_data s)) @ drop (unat nbyte) b)), s))
      | St_set_version v \<Rightarrow> Some ((0, None), s\<lparr>s_version := v\<rparr>)
      | St_increment_version \<Rightarrow> Some ((0, None), s\<lparr>s_version := if s_version s + 1 = 0 then 1 else s_version s + 1\<rparr>)
      | St_get_size \<Rightarrow> Some ((int (unat (s_used s)), None), s)
      | St_get_version \<Rightarrow> Some ((int (unat (s_version s)), None), s)
      | St_get_properties \<Rightarrow> Some ((int (unat (s_props s)), None), s))"

definition storage_step ::
  "(bytes \<Rightarrow> u32) \<Rightarrow> nvm_writer \<Rightarrow> nat \<Rightarrow> u16 \<Rightarrow> storage_op \<Rightarrow> bytes \<Rightarrow> ((int \<times> bytes option) \<times> bytes) option" where
  "storage_step crc nvm n props op m =
     (case op of
        St_init \<Rightarrow> do { (r, m) \<leftarrow> app_storage_init crc nvm props m; Some ((r, None), m) }
      | St_reset \<Rightarrow> do { m \<leftarrow> app_storage_reset crc nvm props n m; Some ((0, None), m) }
      | St_write buf nbyte offset \<Rightarrow> do { (r, m) \<leftarrow> app_storage_write crc nvm n m buf nbyte offset; Some ((r, None), m) }
      | St_read buf nbyte offset \<Rightarrow> do { (r, b) \<leftarrow> app_storage_read m buf nbyte offset; Some ((r, b), m) }
      | St_set_version v \<Rightarrow> do { m \<leftarrow> app_storage_set_data_version crc nvm m v; Some ((0, None), m) }
      | St_increment_version \<Rightarrow> do { m \<leftarrow> app_storage_increment_data_version crc nvm m; Some ((0, None), m) }
      | St_get_size \<Rightarrow> do { v \<leftarrow> app_storage_get_size m; Some ((int (unat v), None), m) }
      | St_get_version \<Rightarrow> do { v \<leftarrow> app_storage_get_data_version m; Some ((int (unat v), None), m) }
      | St_get_properties \<Rightarrow> do { v \<leftarrow> app_storage_get_properties m; Some ((int (unat v), None), m) })"

section \<open>Images\<close>

text \<open>The write primitive of the operating system.\<close>

definition nvm_ok :: "nvm_writer \<Rightarrow> bool" where
  "nvm_ok nvm = (\<forall>m i xs. i + length xs \<le> length m \<longrightarrow> nvm m i xs = take i m @ xs @ drop (i + length xs) m)"

definition header_bytes :: "store \<Rightarrow> bytes" where
  "header_bytes s = APP_STORAGE_TAG @ le_bytes 4 (s_used s) @ le_bytes 2 (1 :: u16) @ le_bytes 2 (s_props s) @ le_bytes 4 (s_version s)"

definition raw_image :: "bytes \<Rightarrow> store \<Rightarrow> bytes" where
  "raw_image c s = c @ header_bytes s @ s_data s"

definition storage_rep :: "(bytes \<Rightarrow> u32) \<Rightarrow> nat \<Rightarrow> bytes \<Rightarrow> store \<Rightarrow> bool" where
  "storage_rep crc n m s =
     (length (s_data s) = n \<and> n < 2 ^ 31 \<and> unat (s_used s) \<le> n \<and>
      m = raw_image (le_bytes 4 (crc (header_bytes s @ take (unat (s_used s)) (s_data s)))) s)"

lemma nvm_write_at: "nvm_ok nvm \<Longrightarrow> length xs = length ys \<Longrightarrow> nvm (a @ ys @ b) (length a) xs = a @ xs @ b"
  by (simp add: nvm_ok_def)

lemma le_val_le_bytes: "le_val (le_bytes k v) = unat v mod 256 ^ k"
  by (simp add: le_val_be_val le_bytes_def be_val_be_bytes)

lemma ld_u32_at: "ld_u32 (a @ le_bytes 4 v @ b) (length a) = Some v"
  using unat_bound32 [of v] by (simp add: ld_u32_def ld_n_def le_val_le_bytes)

lemma ld_u16_at: "ld_u16 (a @ le_bytes 2 v @ b) (length a) = Some v"
  using unat_bound16 [of v] by (simp add: ld_u16_def ld_n_def le_val_le_bytes)

lemma header_bytes_length [simp]: "length (header_bytes s) = 16" "length APP_STORAGE_TAG = 4"
  by (simp_all add: header_bytes_def APP_STORAGE_TAG_def)

lemma raw_fields:
  assumes "length c = 4"
  shows "ld_u32 (raw_image c s) off_size = Some (s_used s)" "ld_u32 (raw_image c s) off_version = Some (s_version s)"
    "ld_u16 (raw_image c s) off_properties = Some (s_props s)" "ld_n (raw_image c s) off_header 4 = Some APP_STORAGE_TAG"
proof -
  show "ld_u32 (raw_image c s) off_size = Some (s_used s)"
    using ld_u32_at [of "c @ APP_STORAGE_TAG" "s_used s"] assms by (simp add: raw_image_def header_bytes_def off_size_def)
  show "ld_u32 (raw_image c s) off_version = Some (s_version s)"
    using ld_u32_at [of "c @ APP_STORAGE_TAG @ le_bytes 4 (s_used s) @ le_bytes 2 (1 :: u16) @ le_bytes 2 (s_props s)" "s_version s"] assms
    by (simp add: raw_image_def header_bytes_def off_version_def)
  show "ld_u16 (raw_image c s) off_properties = Some (s_props s)"
    using ld_u16_at [of "c @ APP_STORAGE_TAG @ le_bytes 4 (s_used s) @ le_bytes 2 (1 :: u16)" "s_props s"] assms
    by (simp add: raw_image_def header_bytes_def off_properties_def)
  show "ld_n (raw_image c s) off_header 4 = Some APP_STORAGE_TAG"
    using assms by (simp add: raw_image_def header_bytes_def off_header_def ld_n_def)
qed

lemma raw_writes:
  assumes "nvm_ok nvm" "length c = 4"
  shows "nvm (raw_image c s) off_size (le_bytes 4 v) = raw_image c (s\<lparr>s_used := v\<rparr>)"
    "nvm (raw_image c s) off_version (le_bytes 4 v) = raw_image c (s\<lparr>s_version := v\<rparr>)"
    "length xs = 4 \<Longrightarrow> nvm (raw_image c s) 0 xs = raw_image xs s"
    "nvm (raw_image c s) off_header (header_bytes t) = raw_image c (t\<lparr>s_data := s_data s\<rparr>)"
    "i + length xs \<le> length (s_data s) \<Longrightarrow> nvm (raw_image c s) (off_data + i) xs
       = raw_image c (s\<lparr>s_data := take i (s_data s) @ xs @ drop (i + length xs) (s_data s)\<rparr>)"
proof -
  note at = nvm_write_at [OF assms(1)]
  show "nvm (raw_image c s) off_size (le_bytes 4 v) = raw_image c (s\<lparr>s_used := v\<rparr>)"
    using at [of "le_bytes 4 v" "le_bytes 4 (s_used s)" "c @ APP_STORAGE_TAG"] assms(2) by (simp add: raw_image_def header_bytes_def off_size_def)
  show "nvm (raw_image c s) off_version (le_bytes 4 v) = raw_image c (s\<lparr>s_version := v\<rparr>)"
    using at [of "le_bytes 4 v" "le_bytes 4 (s_version s)" "c @ APP_STORAGE_TAG @ le_bytes 4 (s_used s) @ le_bytes 2 (1 :: u16) @ le_bytes 2 (s_props s)"] assms(2)
    by (simp add: raw_image_def header_bytes_def off_version_def)
  show "length xs = 4 \<Longrightarrow> nvm (raw_image c s) 0 xs = raw_image xs s"
    using at [of xs c "[]"] assms(2) by (simp add: raw_image_def)
  show "nvm (raw_image c s) off_header (header_bytes t) = raw_image c (t\<lparr>s_data := s_data s\<rparr>)"
    using at [of "header_bytes t" "header_bytes s" c "s_data s"] assms(2) by (simp add: raw_image_def off_header_def header_bytes_def [of "t\<lparr>s_data := _\<rparr>"] header_bytes_def [of t, symmetric])
  assume b: "i + length xs \<le> length (s_data s)"
  have d: "s_data s = take i (s_data s) @ take (length xs) (drop i (s_data s)) @ drop (i + length xs) (s_data s)"
    by (metis append_take_drop_id drop_drop add.commute)
  have "nvm ((c @ header_bytes s @ take i (s_data s)) @ take (length xs) (drop i (s_data s)) @ drop (i + length xs) (s_data s))
      (length (c @ header_bytes s @ take i (s_data s))) xs
      = (c @ header_bytes s @ take i (s_data s)) @ xs @ drop (i + length xs) (s_data s)"
    by (rule at) (use b in simp)
  then show "nvm (raw_image c s) (off_data + i) xs
       = raw_image c (s\<lparr>s_data := take i (s_data s) @ xs @ drop (i + length xs) (s_data s)\<rparr>)"
    using assms(2) b d by (simp add: raw_image_def off_data_def header_bytes_def)
qed

lemma crc_raw:
  assumes "length c = 4" "unat (s_used s) \<le> length (s_data s)" "length (s_data s) < 2 ^ 31"
  shows "cx_crc32_storage crc (raw_image c s) = Some (crc (header_bytes s @ take (unat (s_used s)) (s_data s)))"
proof -
  have "unat (16 + s_used s) = 16 + unat (s_used s)" using assms(2,3) by (subst unat_add_no_wrap) auto
  then show ?thesis using assms by (simp add: cx_crc32_storage_def raw_fields ld_n_def) (simp add: raw_image_def off_header_def)
qed

lemma update_crc_rep:
  assumes "nvm_ok nvm" "length c = 4" "unat (s_used s) \<le> n" "length (s_data s) = n" "n < 2 ^ 31"
  shows "\<exists>m. update_crc crc nvm (raw_image c s) = Some m \<and> storage_rep crc n m s"
  using assms crc_raw [OF assms(2), of s crc] by (simp add: update_crc_def raw_writes storage_rep_def)

section \<open>Every operation implements its abstract counterpart\<close>

lemma repD:
  assumes "storage_rep crc n m s"
  obtains c where "m = raw_image c s" "length c = 4" "length (s_data s) = n" "n < 2 ^ 31" "unat (s_used s) \<le> n"
    "c = le_bytes 4 (crc (header_bytes s @ take (unat (s_used s)) (s_data s)))"
  using assms by (auto simp: storage_rep_def)

lemma init_rep:
  assumes "storage_rep crc n m s"
  shows "app_storage_init crc nvm props m = Some (0, m)"
proof -
  obtain c where m: "m = raw_image c s" "length c = 4" "length (s_data s) = n" "n < 2 ^ 31" "unat (s_used s) \<le> n"
    "c = le_bytes 4 (crc (header_bytes s @ take (unat (s_used s)) (s_data s)))" using assms by (rule repD)
  have "ld_u32 m 0 = Some (crc (header_bytes s @ take (unat (s_used s)) (s_data s)))"
    using ld_u32_at [of "[]" "crc (header_bytes s @ take (unat (s_used s)) (s_data s))"] m(6) unfolding m(1) by (simp add: raw_image_def)
  then have "app_storage_is_initalized crc m = Some 0"
    using m crc_raw [OF m(2), of s crc] by (simp add: app_storage_is_initalized_def raw_fields storage_codes)
  then show ?thesis by (simp add: app_storage_init_def storage_codes)
qed

lemma header_reset_rep:
  assumes "nvm_ok nvm" "storage_rep crc n m s"
  shows "\<exists>m'. system_header_reset crc nvm props m = Some m' \<and> storage_rep crc n m' (s\<lparr>s_used := 0, s_version := 1, s_props := props\<rparr>)"
proof -
  let ?s = "s\<lparr>s_used := 0, s_version := 1, s_props := props\<rparr>"
  obtain c where m: "m = raw_image c s" "length c = 4" "length (s_data s) = n" "n < 2 ^ 31" using assms(2) by (rule repD)
  have "nvm m off_header (header_bytes ?s) = raw_image c ?s" using raw_writes(4) [OF assms(1) m(2), of s ?s] m(1) by simp
  moreover have "\<exists>m'. update_crc crc nvm (raw_image c ?s) = Some m' \<and> storage_rep crc n m' ?s"
    by (rule update_crc_rep [OF assms(1) m(2)]) (use m in auto)
  ultimately show ?thesis by (simp add: system_header_reset_def header_bytes_def)
qed

lemma erase_loop_eq:
  assumes "nvm_ok nvm" "length c = 4" "256 < n"
  shows "length (s_data s) = n \<Longrightarrow> offset < n \<Longrightarrow> take offset (s_data s) = replicate offset 0 \<Longrightarrow>
     \<exists>o'. o' < n \<and> n - 256 \<le> o' \<and> erase_loop nvm n (raw_image c s) offset = (raw_image c (s\<lparr>s_data := replicate o' 0 @ drop o' (s_data s)\<rparr>), o') \<and>
       offset \<le> o'"
proof (induction "n - offset" arbitrary: s offset rule: less_induct)
  case less
  show ?case
  proof (cases "offset < n - 256")
    case True
    let ?s = "s\<lparr>s_data := take offset (s_data s) @ replicate 256 0 @ drop (offset + 256) (s_data s)\<rparr>"
    have e: "erase_loop nvm n (raw_image c s) offset = erase_loop nvm n (raw_image c ?s) (offset + 256)"
      using True raw_writes(5) [OF assms(1,2), of offset "replicate 256 0" s] less.prems(1)
      by (subst erase_loop.simps) (simp add: APP_STORAGE_ERASE_BLOCK_SIZE_def)
    have "\<exists>o'. o' < n \<and> n - 256 \<le> o' \<and> erase_loop nvm n (raw_image c ?s) (offset + 256)
        = (raw_image c (?s\<lparr>s_data := replicate o' 0 @ drop o' (s_data ?s)\<rparr>), o') \<and> offset + 256 \<le> o'"
      by (rule less.hyps) (use True less.prems in \<open>auto simp: replicate_add\<close>)
    then obtain o' where o': "o' < n" "n - 256 \<le> o'"
      "erase_loop nvm n (raw_image c ?s) (offset + 256) = (raw_image c (?s\<lparr>s_data := replicate o' 0 @ drop o' (s_data ?s)\<rparr>), o')"
      "offset + 256 \<le> o'" by (elim exE conjE)
    moreover have "drop o' (s_data ?s) = drop o' (s_data s)" using o'(1,4) less.prems(1,2) True by simp
    ultimately show ?thesis using e by (intro exI [of _ o']) simp
  next
    case False
    have "s_data s = replicate offset 0 @ drop offset (s_data s)" using less.prems(3) by (metis append_take_drop_id)
    then have "s = s\<lparr>s_data := replicate offset 0 @ drop offset (s_data s)\<rparr>" by (metis store.surjective store.update_convs(1) store.select_convs(1) store.simps(1))
    moreover have "erase_loop nvm n (raw_image c s) offset = (raw_image c s, offset)"
      using False by (subst erase_loop.simps) (simp add: APP_STORAGE_ERASE_BLOCK_SIZE_def)
    ultimately show ?thesis using False less.prems(2) by (intro exI [of _ offset]) auto
  qed
qed

lemma reset_rep:
  assumes "nvm_ok nvm" "storage_rep crc n m s"
  shows "\<exists>m'. app_storage_reset crc nvm props n m = Some m' \<and>
     storage_rep crc n m' \<lparr>s_data = replicate (length (s_data s)) 0, s_used = 0, s_version = 1, s_props = props\<rparr>"
proof -
  let ?s = "s\<lparr>s_used := 0, s_version := 1, s_props := props\<rparr>"
    and ?t = "\<lparr>s_data = replicate (length (s_data s)) 0, s_used = 0, s_version = 1, s_props = props\<rparr>"
  obtain m1 where m1: "system_header_reset crc nvm props m = Some m1" "storage_rep crc n m1 ?s"
    using header_reset_rep [OF assms] by blast
  obtain c where c: "m1 = raw_image c ?s" "length c = 4" "length (s_data ?s) = n" "n < 2 ^ 31" using m1(2) by (rule repD)
  have last: "nvm (raw_image c (?s\<lparr>s_data := replicate i 0 @ drop i (s_data s)\<rparr>)) (off_data + i) (take (n - i) (replicate 256 0)) = raw_image c ?t"
    if "i < n" "n - 256 \<le> i" for i
  proof -
    let ?u = "?s\<lparr>s_data := replicate i 0 @ drop i (s_data s)\<rparr>"
    have "take (n - i) (replicate 256 0) = replicate (n - i) (0 :: u8)" using that by (simp add: min_def)
    moreover have "take i (s_data ?u) @ replicate (n - i) 0 @ drop (i + (n - i)) (s_data ?u) = replicate n 0"
      using that c(3) by (simp add: replicate_add [symmetric])
    moreover have "?u\<lparr>s_data := replicate n 0\<rparr> = ?t" using c(3) by (cases s) simp
    ultimately show ?thesis
      using raw_writes(5) [OF assms(1) c(2), of i "replicate (n - i) 0" ?u] that c(3) by simp
  qed
  have upd: "\<exists>m'. update_crc crc nvm (raw_image c ?t) = Some m' \<and> storage_rep crc n m' ?t"
    by (rule update_crc_rep [OF assms(1) c(2)]) (use c in auto)
  consider "256 < n" | "0 < n" "n \<le> 256" | "n = 0" by linarith
  then show ?thesis
  proof cases
    case 1
    obtain i where i: "i < n" "n - 256 \<le> i"
      "erase_loop nvm n m1 0 = (raw_image c (?s\<lparr>s_data := replicate i 0 @ drop i (s_data ?s)\<rparr>), i)"
      using erase_loop_eq [OF assms(1) c(2) 1, of ?s 0] 1 c(1,3) by auto
    then show ?thesis using 1 m1(1) last [OF i(1,2)] upd
      by (simp add: app_storage_reset_def APP_STORAGE_ERASE_BLOCK_SIZE_def)
  next
    case 2
    then show ?thesis using m1(1) last [of 0] upd c(1) by (simp add: app_storage_reset_def APP_STORAGE_ERASE_BLOCK_SIZE_def)
  next
    case 3
    then have "?t = ?s" using c(3) by simp
    then show ?thesis using 3 m1 by (simp add: app_storage_reset_def APP_STORAGE_ERASE_BLOCK_SIZE_def)
  qed
qed

lemma write_rep:
  assumes "nvm_ok nvm" "storage_rep crc n m s" "unat nbyte \<le> length b" "nbyte \<noteq> 0" "unat offset + unat nbyte \<le> n"
  shows "\<exists>m'. app_storage_write crc nvm n m (Some b) nbyte offset = Some (int (unat nbyte), m') \<and>
     storage_rep crc n m' (s\<lparr>s_data := take (unat offset) (s_data s) @ take (unat nbyte) b @ drop (unat offset + unat nbyte) (s_data s),
       s_used := max (s_used s) (offset + nbyte)\<rparr>)"
proof -
  obtain c where m: "m = raw_image c s" "length c = 4" "length (s_data s) = n" "n < 2 ^ 31" "unat (s_used s) \<le> n" using assms(2) by (rule repD)
  have u: "unat (offset + nbyte) = unat offset + unat nbyte" using assms(5) m(4) by (intro unat_add_no_wrap) simp
  let ?d = "take (unat offset) (s_data s) @ take (unat nbyte) b @ drop (unat offset + unat nbyte) (s_data s)"
  let ?s = "s\<lparr>s_data := ?d\<rparr>" and ?t = "s\<lparr>s_data := ?d, s_used := max (s_used s) (offset + nbyte)\<rparr>"
  have w: "nvm m (off_data + unat offset) (take (unat nbyte) b) = raw_image c ?s"
    using raw_writes(5) [OF assms(1) m(2), of "unat offset" "take (unat nbyte) b" s] assms(3,5) m(1,3) by simp
  have z: "(if s_used ?s < offset + nbyte then nvm (raw_image c ?s) off_size (le_bytes 4 (offset + nbyte)) else raw_image c ?s) = raw_image c ?t"
    using raw_writes(1) [OF assms(1) m(2), of ?s] by (auto simp: max_def not_less)
  have "\<exists>m'. update_crc crc nvm (raw_image c ?t) = Some m' \<and> storage_rep crc n m' ?t"
    by (rule update_crc_rep [OF assms(1) m(2)]) (use m assms(3,5) u in \<open>auto simp: max_def\<close>)
  moreover have "sint nbyte = int (unat nbyte)" by (rule sint_small) (use assms(5) m(4) in linarith)
  ultimately show ?thesis
    using assms(3,4,5) m(4) w z u raw_fields(1) [OF m(2), of ?s]
    by (auto simp: app_storage_write_def Let_def ld_n_def)
qed

lemma read_rep:
  assumes "storage_rep crc n m s" "unat nbyte \<le> length b" "nbyte \<noteq> 0" "unat offset + unat nbyte < 2 ^ 32"
  shows "app_storage_read m (Some b) nbyte offset = Some (
     if unat offset + unat nbyte > unat (s_used s) then (-2, Some b)
     else (int (unat nbyte), Some (take (unat nbyte) (drop (unat offset) (s_data s)) @ drop (unat nbyte) b)))"
proof -
  obtain c where m: "m = raw_image c s" "length c = 4" "length (s_data s) = n" "n < 2 ^ 31" "unat (s_used s) \<le> n" using assms(1) by (rule repD)
  have u: "unat (offset + nbyte) = unat offset + unat nbyte" using assms(4) by (intro unat_add_no_wrap) simp
  have sz: "ld_u32 m off_size = Some (s_used s)" using raw_fields(1) [OF m(2)] m(1) by simp
  show ?thesis
  proof (cases "unat offset + unat nbyte > unat (s_used s)")
    case True
    then show ?thesis using assms sz u by (auto simp: app_storage_read_def Let_def word_less_nat_alt storage_codes)
  next
    case False
    have "sint nbyte = int (unat nbyte)" by (rule sint_small) (use False m(4,5) in linarith)
    moreover have "memcpy_n b 0 m (off_data + unat offset) (unat nbyte) = Some (take (unat nbyte) (drop (unat offset) (s_data s)) @ drop (unat nbyte) b)"
      using False m(2-5) assms(2) unfolding m(1) by (simp add: memcpy_n_def mem_simps raw_image_def off_data_def)
    ultimately show ?thesis using False assms sz u by (auto simp: app_storage_read_def Let_def word_less_nat_alt not_less)
  qed
qed

lemma version_rep:
  assumes "nvm_ok nvm" "storage_rep crc n m s"
  shows "\<exists>m'. update_crc crc nvm (nvm m off_version (le_bytes 4 v)) = Some m' \<and> storage_rep crc n m' (s\<lparr>s_version := v\<rparr>)"
proof -
  obtain c where m: "m = raw_image c s" "length c = 4" "length (s_data s) = n" "n < 2 ^ 31" "unat (s_used s) \<le> n" using assms(2) by (rule repD)
  show ?thesis unfolding m(1) raw_writes(2) [OF assms(1) m(2)]
    by (rule update_crc_rep [OF assms(1) m(2)]) (use m in auto)
qed

lemma storage_fields:
  assumes "storage_rep crc n m s"
  shows "ld_u32 m off_size = Some (s_used s)" "ld_u32 m off_version = Some (s_version s)" "ld_u16 m off_properties = Some (s_props s)"
  using assms raw_fields [of _ s] by (auto elim!: repD)

lemma storage_sim:
  assumes nvm: "nvm_ok nvm" and rep: "storage_rep crc n m s" and step: "store_step props op s = Some (r, s')"
  shows "\<exists>m'. storage_step crc nvm n props op m = Some (r, m') \<and> storage_rep crc n m' s'"
proof (cases op)
  case (St_write buf nbyte offset)
  show ?thesis
  proof (cases "\<exists>b. buf = Some b \<and> nbyte \<noteq> 0 \<and> unat offset + unat nbyte \<le> n")
    case True
    then obtain b where b: "buf = Some b" "nbyte \<noteq> 0" "unat offset + unat nbyte \<le> n" by blast
    have n: "length (s_data s) = n" "n < 2 ^ 31" using rep by (auto elim: repD)
    have l: "unat nbyte \<le> length b" using step b(1) by (auto simp: store_step_def St_write split: if_splits)
    then show ?thesis using write_rep [OF nvm rep l b(2,3)] step b n by (auto simp: store_step_def storage_step_def St_write split: if_splits)
  next
    case False
    have n: "length (s_data s) = n" "n < 2 ^ 31" using rep by (auto elim: repD)
    have u: "unat (offset + nbyte) = unat offset + unat nbyte" if "unat offset + unat nbyte < 2 ^ 32"
      using that by (intro unat_add_no_wrap) simp
    then show ?thesis using False step rep n
      by (auto simp: store_step_def storage_step_def St_write app_storage_write_def storage_codes Let_def split: option.splits if_splits)
  qed
next
  case (St_read buf nbyte offset)
  show ?thesis
  proof (cases "\<exists>b. buf = Some b \<and> nbyte \<noteq> 0 \<and> unat offset + unat nbyte < 2 ^ 32")
    case True
    then obtain b where b: "buf = Some b" "nbyte \<noteq> 0" "unat offset + unat nbyte < 2 ^ 32" by blast
    then have l: "unat nbyte \<le> length b" using step by (auto simp: store_step_def St_read split: if_splits)
    then show ?thesis using read_rep [OF rep l b(2,3)] step b rep
      by (auto simp: store_step_def storage_step_def St_read split: if_splits)
  next
    case False
    then show ?thesis using step rep
      by (auto simp: store_step_def storage_step_def St_read app_storage_read_def storage_codes split: option.splits if_splits)
  qed
next
  case (St_set_version v)
  then show ?thesis using version_rep [OF nvm rep, of v] step
    by (auto simp: store_step_def storage_step_def app_storage_set_data_version_def)
next
  case St_increment_version
  then show ?thesis using version_rep [OF nvm rep, of "if s_version s + 1 = 0 then 1 else s_version s + 1"] step storage_fields(2) [OF rep]
    by (auto simp: store_step_def storage_step_def app_storage_increment_data_version_def Let_def)
next
  case St_reset
  then show ?thesis using reset_rep [OF nvm rep, of props] step by (auto simp: store_step_def storage_step_def)
qed (use rep step init_rep [OF rep] storage_fields [OF rep] in
  \<open>auto simp: store_step_def storage_step_def app_storage_get_size_def app_storage_get_data_version_def app_storage_get_properties_def\<close>)

lemma storage_refinement:
  assumes "nvm_ok nvm"
  shows "refinement (storage_rep crc n) (storage_step crc nvm n props) (store_step props)"
  by unfold_locales (rule storage_sim [OF assms])

text \<open>The first initialisation of an image.\<close>

lemma init_fresh:
  assumes "nvm_ok nvm" "length m = 20 + n" "n < 2 ^ 31" "take 4 (drop 4 m) \<noteq> APP_STORAGE_TAG"
  shows "\<exists>m'. app_storage_init crc nvm props m = Some (0, m') \<and>
     storage_rep crc n m' \<lparr>s_data = drop 20 m, s_used = 0, s_version = 1, s_props = props\<rparr>"
proof -
  let ?s = "\<lparr>s_data = drop 20 m, s_used = 0, s_version = 1, s_props = props\<rparr>"
  have "nvm m off_header (header_bytes ?s) = raw_image (take 4 m) ?s"
    using assms(1,2) by (simp add: nvm_ok_def raw_image_def off_header_def)
  moreover have "\<exists>m'. update_crc crc nvm (raw_image (take 4 m) ?s) = Some m' \<and> storage_rep crc n m' ?s"
    by (rule update_crc_rep [OF assms(1)]) (use assms in auto)
  moreover have "app_storage_is_initalized crc m = Some (-4)"
    using assms(2,4) by (simp add: app_storage_is_initalized_def ld_n_def off_header_def storage_codes)
  ultimately show ?thesis by (auto simp: app_storage_init_def system_header_reset_def header_bytes_def storage_codes)
qed

section \<open>Properties\<close>

definition nvm_mem :: nvm_writer where
  "nvm_mem m i xs = take i m @ xs @ drop (i + length xs) m"

text \<open>Property C27.  After the initialisation of a blank image the storage behaves as a byte array with a used part, whatever the checksum function: every sequence of calls
  returns the results of the array, accesses nothing outside the image and ends in an image that holds the array, with the checksum that the next initialisation accepts.\<close>

theorem app_storage_refine:
  assumes "nvm_ok nvm" "length m = 20 + n" "n < 2 ^ 31" "take 4 (drop 4 m) \<noteq> APP_STORAGE_TAG"
    and "run (store_step props) ops \<lparr>s_data = drop 20 m, s_used = 0, s_version = 1, s_props = props\<rparr> = Some (rs, s)"
  shows "\<exists>m'. run (storage_step crc nvm n props) (St_init # ops) m = Some ((0, None) # rs, m') \<and> storage_rep crc n m' s \<and>
     app_storage_init crc nvm props m' = Some (0, m')"
proof -
  obtain m1 where m1: "app_storage_init crc nvm props m = Some (0, m1)"
     "storage_rep crc n m1 \<lparr>s_data = drop 20 m, s_used = 0, s_version = 1, s_props = props\<rparr>"
    using init_fresh [OF assms(1-4)] by blast
  obtain m2 where m2: "run (storage_step crc nvm n props) ops m1 = Some (rs, m2)" "storage_rep crc n m2 s"
    using refinement.run_sim [OF storage_refinement [OF assms(1)] m1(2) assms(5)] by blast
  then show ?thesis using m1(1) init_rep [OF m2(2)] by (simp add: storage_step_def)
qed

theorem app_storage_refine_witness:
  "\<exists>m' s. run (storage_step (\<lambda>bs. word_of_nat (length bs)) nvm_mem 2 3) [St_init, St_write (Some [7, 8]) 2 0, St_read (Some [0]) 1 1] (replicate 22 0) =
     Some ([(0, None), (2, None), (1, Some [8])], m') \<and> storage_rep (\<lambda>bs. word_of_nat (length bs)) 2 m' s"
proof -
  have "nvm_ok nvm_mem" by (simp add: nvm_ok_def nvm_mem_def)
  moreover have "take 4 (drop 4 (replicate 22 0)) \<noteq> APP_STORAGE_TAG" by code_simp
  moreover have "run (store_step 3) [St_write (Some [7, 8]) 2 0, St_read (Some [0]) 1 1]
      \<lparr>s_data = drop 20 (replicate 22 0), s_used = 0, s_version = 1, s_props = 3\<rparr> =
      Some ([(2, None), (1, Some [8])], \<lparr>s_data = [7, 8], s_used = 2, s_version = 1, s_props = 3\<rparr>)"
    by (simp add: store_step_def)
  ultimately show ?thesis
    using app_storage_refine [of nvm_mem "replicate 22 0" 2 3 _ _ _ "\<lambda>bs. word_of_nat (length bs)"] by fastforce
qed

end
