(* ===== verification/Ledger_Pki.thy ===== *)
theory Ledger_Pki
  imports Buffer
begin

text \<open>
  The signature check of \<^verbatim>\<open>lib_pki/ledger_pki.c\<close>.  The certificate store and the verification belong to the operating system and are
  reached by system calls; they are the parameter \<open>os_pki\<close> of the definitions.
\<close>

section \<open>The system calls\<close>

text \<open>\<open>pki_error\<close>, \<open>pki_key_usage\<close>, \<open>pki_name\<close> and \<open>pki_curve\<close> are what \<open>os_pki_get_info\<close> reports of the certificate loaded last;
  \<open>pki_verify\<close> is the answer of \<open>os_pki_verify\<close> for a hash and a signature.\<close>

record os_pki =
  pki_error :: u32
  pki_key_usage :: u8
  pki_name :: bytes
  pki_curve :: u8
  pki_verify :: "bytes \<Rightarrow> bytes \<Rightarrow> bool"

definition CERTIFICATE_TRUSTED_NAME_MAXLEN :: nat where "CERTIFICATE_TRUSTED_NAME_MAXLEN = 32"
definition CERTIFICATE_PUBLIC_KEY_USAGE_TRUSTED_NAME :: u8 where "CERTIFICATE_PUBLIC_KEY_USAGE_TRUSTED_NAME = 0x04"
definition CERTIFICATE_PUBLIC_KEY_USAGE_COIN_META :: u8 where "CERTIFICATE_PUBLIC_KEY_USAGE_COIN_META = 0x08"
definition CERTIFICATE_PUBLIC_KEY_USAGE_TX_SIMU_SIGNER :: u8 where "CERTIFICATE_PUBLIC_KEY_USAGE_TX_SIMU_SIGNER = 0x0A"
definition CX_CURVE_SECP256K1 :: u8 where "CX_CURVE_SECP256K1 = 0x21"
definition CX_CURVE_Ed25519 :: u8 where "CX_CURVE_Ed25519 = 0x71"

text \<open>Every caller passes zeroed variables; the name is written at the start of its array.\<close>

definition os_pki_get_info :: "os_pki \<Rightarrow> (u32 \<times> u8 \<times> bytes \<times> u8) option" where
  "os_pki_get_info pki = do {
     trusted_name \<leftarrow> st_n (replicate CERTIFICATE_TRUSTED_NAME_MAXLEN 0) 0 (pki_name pki);
     Some (pki_error pki, pki_key_usage pki, trusted_name, pki_curve pki) }"

definition os_pki_verify :: "os_pki \<Rightarrow> bytes \<Rightarrow> size_t \<Rightarrow> bytes \<Rightarrow> size_t \<Rightarrow> bool option" where
  "os_pki_verify pki hash hash_len signature signature_len = do {
     h \<leftarrow> ld_n hash 0 (unat hash_len);
     s \<leftarrow> ld_n signature 0 (unat signature_len);
     Some (pki_verify pki h s) }"

section \<open>Checking a signature\<close>

type_synonym check_signature_with_pki_status_t = u32

definition CHECK_SIGNATURE_WITH_PKI_SUCCESS :: u32 where "CHECK_SIGNATURE_WITH_PKI_SUCCESS = 0"
definition CHECK_SIGNATURE_WITH_PKI_MISSING_CERTIFICATE :: u32 where "CHECK_SIGNATURE_WITH_PKI_MISSING_CERTIFICATE = 1"
definition CHECK_SIGNATURE_WITH_PKI_WRONG_CERTIFICATE_USAGE :: u32 where "CHECK_SIGNATURE_WITH_PKI_WRONG_CERTIFICATE_USAGE = 2"
definition CHECK_SIGNATURE_WITH_PKI_WRONG_CERTIFICATE_CURVE :: u32 where "CHECK_SIGNATURE_WITH_PKI_WRONG_CERTIFICATE_CURVE = 3"
definition CHECK_SIGNATURE_WITH_PKI_WRONG_SIGNATURE :: u32 where "CHECK_SIGNATURE_WITH_PKI_WRONG_SIGNATURE = 4"

definition check_signature_with_pki ::
  "os_pki \<Rightarrow> buffer_t \<Rightarrow> u8 option \<Rightarrow> u8 option \<Rightarrow> buffer_t \<Rightarrow> check_signature_with_pki_status_t option" where
  "check_signature_with_pki pki hash expected_key_usage expected_curve signature = do {
     (bolos_err, key_usage, certificate_name, curve) \<leftarrow> os_pki_get_info pki;
     if bolos_err \<noteq> 0 then Some CHECK_SIGNATURE_WITH_PKI_MISSING_CERTIFICATE
     else if expected_key_usage \<noteq> None \<and> Some key_usage \<noteq> expected_key_usage
       then Some CHECK_SIGNATURE_WITH_PKI_WRONG_CERTIFICATE_USAGE
     else if expected_curve \<noteq> None \<and> Some curve \<noteq> expected_curve
       then Some CHECK_SIGNATURE_WITH_PKI_WRONG_CERTIFICATE_CURVE
     else do {
       ok \<leftarrow> os_pki_verify pki (b_ptr hash) (b_size hash) (b_ptr signature) (b_size signature);
       if \<not> ok then Some CHECK_SIGNATURE_WITH_PKI_WRONG_SIGNATURE
       else Some CHECK_SIGNATURE_WITH_PKI_SUCCESS } }"

section \<open>What it decides\<close>

text \<open>The operating system reports no name longer than \<open>CERTIFICATE_TRUSTED_NAME_MAXLEN\<close>.\<close>

definition pki_wf :: "os_pki \<Rightarrow> bool" where
  "pki_wf pki = (length (pki_name pki) \<le> CERTIFICATE_TRUSTED_NAME_MAXLEN)"

text \<open>The array that receives the name ends it with a zero, unless the name has all 32 bytes and none of them is zero.\<close>

definition pki_name_terminated :: "os_pki \<Rightarrow> bool" where
  "pki_name_terminated pki = (length (pki_name pki) < CERTIFICATE_TRUSTED_NAME_MAXLEN \<or> 0 \<in> set (pki_name pki))"

text \<open>The bytes a buffer holds.\<close>

definition buf_holds :: "buffer_t \<Rightarrow> bytes \<Rightarrow> bool" where
  "buf_holds b v = (length v = unat (b_size b) \<and> (\<exists>r. b_ptr b = v @ r))"

definition pki_decision :: "os_pki \<Rightarrow> u8 \<Rightarrow> u8 \<Rightarrow> bytes \<Rightarrow> bytes \<Rightarrow> u32" where
  "pki_decision pki usage curve h sig =
     (if pki_error pki \<noteq> 0 then 1
      else if pki_key_usage pki \<noteq> usage then 2
      else if pki_curve pki \<noteq> curve then 3
      else if \<not> pki_verify pki h sig then 4 else 0)"

lemma get_info_ok:
  "pki_wf pki \<Longrightarrow> os_pki_get_info pki =
     Some (pki_error pki, pki_key_usage pki, pki_name pki @ replicate (32 - length (pki_name pki)) 0, pki_curve pki)"
  by (simp add: os_pki_get_info_def pki_wf_def CERTIFICATE_TRUSTED_NAME_MAXLEN_def st_n_in)

lemma check_signature_spec:
  assumes "pki_wf pki" "buf_holds hash h" "buf_holds signature s"
  shows "check_signature_with_pki pki hash (Some usage) (Some curve) signature = Some (pki_decision pki usage curve h s)"
proof -
  have "ld_n (b_ptr b) 0 (unat (b_size b)) = Some v" if "buf_holds b v" for b v
    using that by (auto simp: buf_holds_def ld_n_in)
  then have "os_pki_verify pki (b_ptr hash) (b_size hash) (b_ptr signature) (b_size signature) = Some (pki_verify pki h s)"
    using assms(2,3) by (simp add: os_pki_verify_def)
  then show ?thesis
    using get_info_ok [OF assms(1)]
    by (simp add: check_signature_with_pki_def pki_decision_def CHECK_SIGNATURE_WITH_PKI_SUCCESS_def
        CHECK_SIGNATURE_WITH_PKI_MISSING_CERTIFICATE_def CHECK_SIGNATURE_WITH_PKI_WRONG_CERTIFICATE_USAGE_def
        CHECK_SIGNATURE_WITH_PKI_WRONG_CERTIFICATE_CURVE_def CHECK_SIGNATURE_WITH_PKI_WRONG_SIGNATURE_def)
qed

lemma pki_decision_0:
  "pki_decision pki usage curve h s = 0 \<longleftrightarrow>
     pki_error pki = 0 \<and> pki_key_usage pki = usage \<and> pki_curve pki = curve \<and> pki_verify pki h s"
  by (simp add: pki_decision_def)

lemma pki_decision_less: "pki_decision pki usage curve h s < 5"
  by (simp add: pki_decision_def)

lemma signature_error: "x < 5 \<Longrightarrow> (0x80 OR x = (0 :: u32)) = False"
  by (simp add: or_eq_0_iff)

end
