(* ===== verification/Tlv_Client.thy ===== *)
theory Tlv_Client
  imports Tlv_Spec Ledger_Pki
begin

text \<open>
  The contract between the TLV parser and an application that uses it.  The locale \<open>tlv_client\<close> fixes a tag list, its
  handlers and a relation between the items received so far and the output structure; from one law about a single
  item it derives what the parser generated from the tag list does with a whole payload.
\<close>

section \<open>Handlers that may stop the program\<close>

text \<open>A handler may fail an assertion, which ends the program, or access memory outside an object: \<^term>\<open>None\<close>.  Nothing is
  handled after that.\<close>

definition tlv_cb :: "(tlv_data_t \<Rightarrow> 'x \<Rightarrow> (bool \<times> 'x) option) \<Rightarrow> 'x option tlv_handler_cb_t option" where
  "tlv_cb f = Some (\<lambda>data flags out.
     case out of
       None \<Rightarrow> (False, None)
     | Some x \<Rightarrow> (case f data x of None \<Rightarrow> (False, None) | Some (ok, x) \<Rightarrow> (ok, Some x)))"

lemma call_tlv_cb: "f d x = Some (ok, x') \<Longrightarrow> call_handler (tlv_cb f) d fl (Some x) = (ok, Some x')"
  by (simp add: call_handler_def tlv_cb_def)

section \<open>Received items\<close>

definition entry_raw :: "tlv_entry \<Rightarrow> bytes" where "entry_raw e = snd (snd e)"
definition entry_value :: "tlv_entry \<Rightarrow> bytes" where "entry_value e = fst (snd e)"

definition raw_bytes :: "tlv_entry list \<Rightarrow> bytes" where "raw_bytes es = concat (map entry_raw es)"

text \<open>The value received for each tag, and the bytes a signature covers: all items but the one with the
  signature.\<close>

definition tlv_vals :: "tlv_entry list \<Rightarrow> TLV_tag_t \<rightharpoonup> bytes" where
  "tlv_vals es = map_of (rev (map (\<lambda>e. (fst e, entry_value e)) es))"

definition signed_bytes :: "TLV_tag_t \<Rightarrow> tlv_entry list \<Rightarrow> bytes" where
  "signed_bytes sig_tag es = raw_bytes (filter (\<lambda>e. fst e \<noteq> sig_tag) es)"

lemma raw_bytes_simps [simp]: "raw_bytes [] = []" "raw_bytes (es @ [e]) = raw_bytes es @ entry_raw e"
  by (simp_all add: raw_bytes_def)

lemma tlv_vals_simps [simp]: "tlv_vals [] = Map.empty" "tlv_vals (es @ [e]) = (tlv_vals es)(fst e \<mapsto> entry_value e)"
  by (simp_all add: tlv_vals_def)

lemma signed_bytes_simps [simp]:
  "signed_bytes t [] = []" "signed_bytes t (es @ [e]) = signed_bytes t es @ (if fst e = t then [] else entry_raw e)"
  by (simp_all add: signed_bytes_def)

lemma signed_bytes_length: "length (signed_bytes t es) \<le> length (raw_bytes es)"
  unfolding signed_bytes_def raw_bytes_def by (induction es) auto

lemma dom_tlv_vals: "dom (tlv_vals es) = fst ` set es"
  by (simp add: tlv_vals_def dom_map_of_conv_image_fst image_image)

lemma raw_bytes_split: "tlv_split bs = Some es \<Longrightarrow> raw_bytes es = bs"
proof -
  have "entry_raw = (\<lambda>(t, v, r). r)" by (auto simp: entry_raw_def)
  then show "tlv_split bs = Some es \<Longrightarrow> raw_bytes es = bs" using tlv_split_raw [of bs es] by (simp add: raw_bytes_def)
qed

lemma items_ok_Nil [simp]: "items_ok ts T []"
  by (simp add: items_ok_def)

lemma items_ok_Cons:
  assumes "distinct (map fst ts)" "(tag, cb, u) \<in> set ts" "fst e = tag"
  shows "items_ok ts T (e # es) = (\<not> (u = ENFORCE_UNIQUE_TAG \<and> tag \<in> T) \<and> items_ok ts (insert tag T) es)"
proof -
  have k: "c = cb \<and> w = u" if "(tag, c, w) \<in> set ts" for c w
    using eq_key_imp_eq_value [OF assms(1,2) that] by simp
  have t: "tag \<in> fst ` set ts" using assms(2) by force
  show ?thesis
  proof
    assume l: "items_ok ts T (e # es)"
    then have l2: "length (filter (\<lambda>x. fst x = t) (e # es)) \<le> (if t \<in> T then 0 else 1)"
      if "(t, c, ENFORCE_UNIQUE_TAG) \<in> set ts" for t c
      using that unfolding items_ok_def by blast
    have "items_ok ts (insert tag T) es"
      unfolding items_ok_def
    proof (intro conjI allI impI)
      show "fst ` set es \<subseteq> fst ` set ts" using l by (simp add: items_ok_def)
      fix t c assume "(t, c, ENFORCE_UNIQUE_TAG) \<in> set ts"
      from l2 [OF this] show "length (filter (\<lambda>x. fst x = t) es) \<le> (if t \<in> insert tag T then 0 else 1)"
        using assms(3) by (auto split: if_splits)
    qed
    moreover have "\<not> (u = ENFORCE_UNIQUE_TAG \<and> tag \<in> T)"
      using l2 [of tag cb] assms(2,3) by (auto split: if_splits)
    ultimately show "\<not> (u = ENFORCE_UNIQUE_TAG \<and> tag \<in> T) \<and> items_ok ts (insert tag T) es" by blast
  next
    assume r: "\<not> (u = ENFORCE_UNIQUE_TAG \<and> tag \<in> T) \<and> items_ok ts (insert tag T) es"
    show "items_ok ts T (e # es)"
      unfolding items_ok_def
    proof (intro conjI allI impI)
      show "fst ` set (e # es) \<subseteq> fst ` set ts" using r t assms(3) by (simp add: items_ok_def)
      fix t c assume m: "(t, c, ENFORCE_UNIQUE_TAG) \<in> set ts"
      then have "length (filter (\<lambda>x. fst x = t) es) \<le> (if t \<in> insert tag T then 0 else 1)"
        using r unfolding items_ok_def by blast
      then show "length (filter (\<lambda>x. fst x = t) (e # es)) \<le> (if t \<in> T then 0 else 1)"
        using r m k assms(3) by (auto split: if_splits)
    qed
  qed
qed

lemma find_handler_tags:
  assumes "distinct (map fst ts)"
  shows "tag \<notin> fst ` set ts \<Longrightarrow> find_handler_from (tag_callbacks ts) tag = None"
    and "(tag, cb, u) \<in> set ts \<Longrightarrow>
      find_handler_from (tag_callbacks ts) tag =
        Some \<lparr>th_tag = tag, th_func = cb, th_is_unique = (u = ENFORCE_UNIQUE_TAG)\<rparr>"
  using assms unfolding tag_callbacks_def by (induction ts) (auto simp: image_iff)

text \<open>What a parser accepts: known tags, unique tags at most once, and values its handlers accept.\<close>

definition good_items :: "'o tag_list \<Rightarrow> (tlv_entry \<Rightarrow> bool) \<Rightarrow> TLV_tag_t set \<Rightarrow> tlv_entry list \<Rightarrow> bool" where
  "good_items ts valid T es = (items_ok ts T es \<and> (\<forall>e\<in>set es. valid e))"

section \<open>The contract\<close>

locale tlv_client =
  fixes ts :: "'o tag_list"
    and common :: "'o tlv_handler_cb_t option"
    and R :: "tlv_entry list \<Rightarrow> 'o \<Rightarrow> bool"
    and Q :: "'o \<Rightarrow> bool"
    and valid :: "tlv_entry \<Rightarrow> bool"
    and limit :: nat
  assumes tags: "distinct (map fst ts)" "length ts \<le> 64"
    and R_Q: "R es out \<Longrightarrow> Q out"
    and step: "R es out \<Longrightarrow> data_ok d \<Longrightarrow> (d_tag d, cb, u) \<in> set ts \<Longrightarrow> length (data_value d) < 65536 \<Longrightarrow>
      length (raw_bytes (es @ [entry_of d])) \<le> limit \<Longrightarrow>
      \<exists>out1 out2. call_handler common d fl out = (True, out1) \<and>
        call_handler cb d fl out1 = (valid (entry_of d), out2) \<and> Q out2 \<and>
        (valid (entry_of d) \<longrightarrow> R (es @ [entry_of d]) out2)"
begin

lemma parse_item:
  assumes "R es0 out" "flag_set ts (fst ` set es0) fl" "data_ok d" "(d_tag d, cb, u) \<in> set ts" "length (data_value d) < 65536"
    and "length (raw_bytes (es0 @ [entry_of d])) \<le> limit"
    and "h = \<lparr>th_tag = d_tag d, th_func = cb, th_is_unique = (u = ENFORCE_UNIQUE_TAG)\<rparr>"
  shows "\<exists>ok fl' out'. tlv_accept common (tag_to_flag ts) h d fl out = (ok, fl', out') \<and> Q out' \<and>
    ok = (\<not> (u = ENFORCE_UNIQUE_TAG \<and> d_tag d \<in> fst ` set es0) \<and> valid (entry_of d)) \<and>
    (ok \<longrightarrow> R (es0 @ [entry_of d]) out' \<and> flag_set ts (fst ` set (es0 @ [entry_of d])) fl')"
proof -
  have m: "d_tag d \<in> fst ` set ts" using assms(4) by force
  have f: "(fl AND tag_to_flag ts (d_tag d) = tag_to_flag ts (d_tag d)) = (d_tag d \<in> fst ` set es0)"
    using flag_set_test(1) [OF tags assms(2) m] .
  obtain out1 out2 where c: "call_handler common d fl out = (True, out1)"
      "call_handler cb d fl out1 = (valid (entry_of d), out2)" "Q out2"
      "valid (entry_of d) \<longrightarrow> R (es0 @ [entry_of d]) out2"
    using step [OF assms(1,3,4,5,6), of fl] by blast
  have e: "fst (entry_of d) = d_tag d" by (simp add: entry_of_def)
  show ?thesis
    using c f flag_set_insert [OF tags assms(2), of "d_tag d"] R_Q [OF assms(1)] e assms(7)
    by (auto simp: tlv_accept_def)
qed

lemma parse_items:
  assumes "R es0 out" "flag_set ts (fst ` set es0) fl" "length (raw_bytes es0) + length bs \<le> limit" "length bs < 2 ^ 31"
  shows "\<exists>ok fl' out'. tlv_parse (tag_callbacks ts) common (tag_to_flag ts) bs fl out = (ok, fl', out') \<and> Q out' \<and>
    ok = (\<exists>es. tlv_split bs = Some es \<and> good_items ts valid (fst ` set es0) es) \<and>
    (\<forall>es. ok \<longrightarrow> tlv_split bs = Some es \<longrightarrow> R (es0 @ es) out' \<and> flag_set ts (fst ` set (es0 @ es)) fl')"
  using assms
proof (induction "length bs" arbitrary: bs es0 fl out rule: less_induct)
  case less
  show ?case
  proof (cases "tlv_header bs")
    case None
    then show ?thesis
      using less.prems R_Q by (cases "bs = []") (auto simp: tlv_parse.simps good_items_def)
  next
    case (Some r)
    then obtain tag n bs2 where h: "tlv_header bs = Some (tag, n, bs2)" by (cases r) auto
    have l: "length bs2 < length bs" "n \<le> length bs2" and ne: "bs \<noteq> []"
      using tlv_header_length [OF h] by auto
    let ?d = "tlv_view bs (tag, n, bs2)" and ?e = "(tag, take n bs2, take (length bs - length bs2 + n) bs)"
    note v = entry_of_view [OF h less.prems(4)]
    show ?thesis
    proof (cases "tag \<in> fst ` set ts")
      case False
      then have "\<not> good_items ts valid (fst ` set es0) (?e # es)" for es by (auto simp: good_items_def items_ok_def)
      then show ?thesis
        using h ne R_Q [OF less.prems(1)] find_handler_tags(1) [OF tags(1) False]
        by (subst tlv_parse.simps) auto
    next
      case True
      then obtain cb u where m: "(tag, cb, u) \<in> set ts" by force
      let ?h = "\<lparr>th_tag = tag, th_func = cb, th_is_unique = (u = ENFORCE_UNIQUE_TAG)\<rparr>"
      have "data_value ?d = entry_value (entry_of ?d)" by (simp add: data_value_def entry_of_def entry_value_def)
      moreover have "n < 65536"
        using h by (auto simp: tlv_header_def split: bind_splits if_splits dest!: der_dec16_length)
      ultimately have n16: "length (data_value ?d) < 65536" unfolding v(1) by (simp add: entry_value_def)
      have lim: "length (raw_bytes (es0 @ [entry_of ?d])) + length (drop n bs2) \<le> limit"
        using less.prems(3) l unfolding v(1) by (simp add: entry_raw_def min_absorb2)
      obtain ok fl1 out1 where a: "tlv_accept common (tag_to_flag ts) ?h ?d fl out = (ok, fl1, out1)" "Q out1"
          "ok = (\<not> (u = ENFORCE_UNIQUE_TAG \<and> tag \<in> fst ` set es0) \<and> valid ?e)"
          "ok \<longrightarrow> R (es0 @ [?e]) out1 \<and> flag_set ts (fst ` set (es0 @ [?e])) fl1"
        using parse_item [OF less.prems(1,2) v(2), of cb u ?h] m n16 lim unfolding v(1) by auto
      have p: "tlv_parse (tag_callbacks ts) common (tag_to_flag ts) bs fl out =
          (if ok then tlv_parse (tag_callbacks ts) common (tag_to_flag ts) (drop n bs2) fl1 out1 else (False, fl1, out1))"
        using ne h find_handler_tags(2) [OF tags(1) m] a(1) by (subst tlv_parse.simps) simp
      have g: "good_items ts valid (fst ` set es0) (?e # es) = (ok \<and> good_items ts valid (fst ` set (es0 @ [?e])) es)" for es
        using items_ok_Cons [OF tags(1) m, of ?e "fst ` set es0" es] a(3) by (auto simp: good_items_def)
      show ?thesis
      proof (cases ok)
        case False
        then show ?thesis using p g h ne a(2) by auto
      next
        case True
        have "length (drop n bs2) < length bs" "length (drop n bs2) < 2 ^ 31" using l less.prems(4) by auto
        from less.hyps [OF this(1) _ _ _ this(2), of "es0 @ [?e]" out1 fl1] show ?thesis
          using a(4) True lim p g h ne unfolding v(1) by auto
      qed
    qed
  qed
qed

lemma parser_spec:
  assumes "R [] out" "payload_ok p" "unat (b_size p) \<le> limit"
  shows "\<exists>ok rcv out'. define_tlv_parser ts common p out = Some (ok, rcv, out') \<and> Q out' \<and>
    ok = (\<exists>es. tlv_split (b_ptr p) = Some es \<and> good_items ts valid {} es) \<and>
    (\<forall>es. ok \<longrightarrow> tlv_split (b_ptr p) = Some es \<longrightarrow> R es out' \<and>
       (\<forall>tags. length tags < 2 ^ 32 \<longrightarrow>
          tlv_check_received_tags rcv tags (of_nat (length tags)) = Some (set tags \<subseteq> dom (tlv_vals es))))"
proof -
  have "flag_set ts (fst ` set []) 0" by (simp add: flag_set_def)
  from parse_items [OF assms(1) this, of "b_ptr p"] obtain ok fl out' where
      r: "tlv_parse (tag_callbacks ts) common (tag_to_flag ts) (b_ptr p) 0 out = (ok, fl, out')" "Q out'"
        "ok = (\<exists>es. tlv_split (b_ptr p) = Some es \<and> good_items ts valid {} es)"
        "\<forall>es. ok \<longrightarrow> tlv_split (b_ptr p) = Some es \<longrightarrow> R es out' \<and> flag_set ts (fst ` set es) fl"
    using assms(2,3) by (auto simp: payload_ok_def)
  let ?rcv = "\<lparr>r_flags = fl, r_tag_to_flag = tag_to_flag ts\<rparr>"
  have "tlv_check_received_tags ?rcv tags (of_nat (length tags)) = Some (set tags \<subseteq> dom (tlv_vals es))"
    if "ok" "tlv_split (b_ptr p) = Some es" "length tags < 2 ^ 32" for es tags
  proof -
    have "fst ` set es \<subseteq> fst ` set ts" "flag_set ts (fst ` set es) fl"
      using r(3,4) that(1,2) by (auto simp: good_items_def items_ok_def)
    then show ?thesis
      using check_received_tags_iff [OF tags, of "fst ` set es" ?rcv tags] that(3)
      by (simp add: tlv_check_received_tags_def unat_of_nat_small ld_n_in dom_tlv_vals)
  qed
  then show ?thesis
    using r define_tlv_parser_eq [OF assms(2) tags(2), of common out] by auto
qed

end

section \<open>Accessors on an item\<close>

text \<open>The values the accessors accept, and an array that holds a C string.\<close>

definition uint_item :: "nat \<Rightarrow> bytes \<Rightarrow> bool" where
  "uint_item k v = (v \<noteq> [] \<and> length v \<le> 8 \<and> be_val v < 2 ^ k)"

definition range_item :: "u16 \<Rightarrow> u16 \<Rightarrow> bytes \<Rightarrow> bool" where
  "range_item mn mx v = ((mn = 0 \<or> unat mn \<le> length v) \<and> (mx = 0 \<or> length v \<le> unat mx))"

definition text_item :: "nat \<Rightarrow> nat \<Rightarrow> bytes \<Rightarrow> bool" where
  "text_item mn cap v = (0 \<notin> set v \<and> mn \<le> length v \<and> length v < cap)"

definition str_holds :: "bytes \<Rightarrow> bytes \<Rightarrow> bool" where
  "str_holds a v = (0 \<notin> set v \<and> (\<exists>r. a = v @ 0 # r))"

lemma get_uint_items:
  assumes "data_ok d"
  shows "get_uint8_t_from_tlv_data (Some d) = Some (if uint_item 8 (data_value d) then Some (of_nat (be_val (data_value d))) else None)"
    and "get_uint16_t_from_tlv_data (Some d) = Some (if uint_item 16 (data_value d) then Some (of_nat (be_val (data_value d))) else None)"
    and "get_uint32_t_from_tlv_data (Some d) = Some (if uint_item 32 (data_value d) then Some (of_nat (be_val (data_value d))) else None)"
    and "get_uint64_t_from_tlv_data (Some d) = Some (if uint_item 64 (data_value d) then Some (of_nat (be_val (data_value d))) else None)"
proof -
  have "256 ^ n \<le> (2 :: nat) ^ 64" if "n \<le> 8" for n :: nat
    using power_increasing [OF that, of "256 :: nat"] by simp
  then have "length (data_value d) \<le> 8 \<Longrightarrow> be_val (data_value d) < 2 ^ 64"
    using be_val_bound [of "data_value d"] by (metis less_le_trans)
  then show "get_uint64_t_from_tlv_data (Some d) =
      Some (if uint_item 64 (data_value d) then Some (of_nat (be_val (data_value d))) else None)"
    by (auto simp: get_uint64_spec [OF assms] uint_item_def)
qed (use get_uint_narrow_spec [OF assms] in \<open>auto simp: uint_item_def\<close>)

lemma unat_item: "uint_item LENGTH('a) v \<Longrightarrow> unat (of_nat (be_val v) :: 'a::len word) = be_val v"
  by (simp add: uint_item_def unat_of_nat_small)

lemma get_buffer_item:
  assumes "data_ok d"
  shows "\<exists>b'. get_buffer_from_tlv_data (Some d) b mn mx = (range_item mn mx (data_value d), b') \<and>
     (range_item mn mx (data_value d) \<longrightarrow> buf_holds b' (data_value d))"
proof -
  have l: "length (data_value d) = unat (d_value_size d)" using assms by (simp add: data_value_def data_ok_def)
  have p: "d_value_ptr d = data_value d @ drop (unat (d_value_size d)) (d_value_ptr d)" by (simp add: data_value_def)
  have c: "(d_value_size d < ucast mn) = (length (data_value d) < unat mn)"
    "(ucast mx < d_value_size d) = (unat mx < length (data_value d))"
    using unat_bound16 [of mn] unat_bound16 [of mx]
    by (simp_all add: l word_less_nat_alt unsigned_ucast_eq take_bit_nat_eq_self)
  show ?thesis
    using c l p by (auto simp: get_buffer_from_tlv_data_def range_item_def buf_holds_def not_less)
qed

lemma string_item_eq:
  assumes "data_ok d" "length (data_value d) < 65536" "cap \<noteq> 0" "unat cap \<le> length out"
  shows "get_string_from_tlv_data (Some d) out mn cap =
     Some (if text_item (unat mn) (unat cap) (data_value d)
           then (True, data_value d @ 0 # drop (Suc (length (data_value d))) out)
           else (False, out))"
  using tlv_string_spec [OF assms(1), of cap out mn] assms
  by (auto simp: text_item_def word_unat_eq_iff data_value_def data_ok_def)

end
