(* ===== verification/Format.thy ===== *)
theory Format
  imports Digits
begin

text \<open>
Numbers and bytes as text: \<^verbatim>\<open>lib_standard_app/format.c\<close>.

Characters are bytes; the destination is the array the caller passes and is returned as it is left.  The lemmas \<open>format_u64_eq\<close>,
\<open>format_i64_eq\<close>, \<open>format_fpu64_eq\<close>, \<open>trim_loop_eq\<close> and \<open>format_hex_eq\<close> give the exact result of each function.
\<close>

section \<open>C strings\<close>

text \<open>\<open>strlen\<close> and \<open>strncpy\<close> of the C library; without a terminator inside the object they read past its end.\<close>

definition strlen_c :: "bytes \<Rightarrow> nat option" where
  "strlen_c s = (if 0 \<in> set s then Some (length (takeWhile (\<lambda>c. c \<noteq> 0) s)) else None)"

definition strncpy_n :: "bytes \<Rightarrow> nat \<Rightarrow> bytes \<Rightarrow> nat \<Rightarrow> bytes option" where
  "strncpy_n d i s n =
     (let t = takeWhile (\<lambda>c. c \<noteq> 0) s
      in if n > length s \<and> 0 \<notin> set s then None
         else st_n d i (take n t @ replicate (n - length t) 0))"

section \<open>Integers\<close>

text \<open>Division and remainder of C truncate toward zero.\<close>

definition c_div :: "int \<Rightarrow> int \<Rightarrow> int" where
  "c_div a b = sgn a * sgn b * (\<bar>a\<bar> div \<bar>b\<bar>)"

definition c_mod :: "int \<Rightarrow> int \<Rightarrow> int" where
  "c_mod a b = a - c_div a b * b"

text \<open>\<open>format_i64\<close>: the digits are written backwards into \<open>temp\<close>.\<close>

function i64_digits :: "bytes \<Rightarrow> nat \<Rightarrow> int \<Rightarrow> int \<Rightarrow> (bytes \<times> nat) option" where
  "i64_digits temp ptr num sign =
     (if num \<noteq> 0 then do {
        temp \<leftarrow> st temp ptr (word_of_int (48 + c_mod num 10 * sign));
        i64_digits temp (ptr + 1) (c_div num 10) sign }
      else Some (temp, ptr))"
  by pat_completeness auto
termination by (relation "measure (\<lambda>(temp, ptr, num, sign). nat \<bar>num\<bar>)") (auto simp: c_div_def abs_mult)

primrec copy_back :: "bytes \<Rightarrow> nat \<Rightarrow> bytes \<Rightarrow> nat \<Rightarrow> (bytes \<times> nat) option" where
  "copy_back temp 0 dst index = Some (dst, index)"
| "copy_back temp (Suc ptr) dst index = do {
     c \<leftarrow> ld temp ptr;
     dst \<leftarrow> st dst index c;
     copy_back temp ptr dst (index + 1) }"

definition format_i64 :: "bytes \<Rightarrow> nat \<Rightarrow> int \<Rightarrow> (bool \<times> bytes) option" where
  "format_i64 dst dst_len value = do {
     let temp = map of_char ''-9223372036854775808'' @ [0];
     let sign = (if value < 0 then -1 else 1);
     (temp, ptr) \<leftarrow> i64_digits temp 0 value sign;
     (temp, ptr) \<leftarrow> (if value < 0 then do { temp \<leftarrow> st temp ptr 45; Some (temp, ptr + 1) }
                     else if value = 0 then do { temp \<leftarrow> st temp ptr 48; Some (temp, ptr + 1) }
                     else Some (temp, ptr));
     let distance = int ptr + 1;
     if signed (word_of_nat dst_len :: size_t) < distance then Some (False, dst)
     else do {
       (dst, index) \<leftarrow> copy_back temp ptr dst 0;
       dst \<leftarrow> st dst index 0;
       Some (True, dst) } }"

text \<open>\<open>format_u64\<close>; the first component of the digit loop's result is false for an early return.\<close>

function u64_digits :: "bytes \<Rightarrow> nat \<Rightarrow> nat \<Rightarrow> nat \<Rightarrow> (bool \<times> bytes \<times> nat \<times> nat) option" where
  "u64_digits out outLen inp i =
     (if inp > 9 then do {
        out \<leftarrow> st out i (word_of_nat (inp mod 10 + 48));
        if i + 1 + 1 > outLen then Some (False, out, inp div 10, i + 1)
        else u64_digits out outLen (inp div 10) (i + 1) }
      else Some (True, out, inp, i))"
  by pat_completeness auto
termination by (relation "measure (\<lambda>(out, outLen, inp, i). inp)") auto

function swap_ends :: "bytes \<Rightarrow> nat \<Rightarrow> nat \<Rightarrow> bytes option" where
  "swap_ends out i j =
     (if j < i then do {
        tmp \<leftarrow> ld out j;
        v \<leftarrow> ld out i;
        out \<leftarrow> st out j v;
        out \<leftarrow> st out i tmp;
        swap_ends out (i - 1) (j + 1) }
      else Some out)"
  by pat_completeness auto
termination by (relation "measure (\<lambda>(out, i, j). i - j)") auto

definition format_u64 :: "bytes \<Rightarrow> nat \<Rightarrow> u64 \<Rightarrow> (bool \<times> bytes) option" where
  "format_u64 out outLen inp =
     (if outLen = 0 then Some (False, out)
      else do {
        let outLen = outLen - 1;
        (more, out, v, i) \<leftarrow> u64_digits out outLen (unat inp) 0;
        if \<not> more then Some (False, out)
        else do {
          out \<leftarrow> st out i (word_of_nat (v + 48));
          out \<leftarrow> st out (i + 1) 0;
          out \<leftarrow> swap_ends out i 0;
          Some (True, out) } })"

section \<open>Fixed-point numbers\<close>

text \<open>\<open>dst\<close> is advanced in the first branch: the position is the index.  \<open>dst_len\<close> is below \<open>2^32\<close> and \<open>decimals\<close> below 256.\<close>

definition format_fpu64 :: "bytes \<Rightarrow> nat \<Rightarrow> u64 \<Rightarrow> nat \<Rightarrow> (bool \<times> bytes) option" where
  "format_fpu64 dst dst_len value decimals = do {
     (r, buffer) \<leftarrow> format_u64 (replicate 21 0) 21 value;
     if \<not> r then Some (False, dst)
     else do {
       digits \<leftarrow> strlen_c buffer;
       if digits \<le> decimals then
         (if dst_len \<le> 2 + decimals - digits then Some (False, dst)
          else do {
            dst \<leftarrow> st dst 0 48;
            dst \<leftarrow> st dst 1 46;
            dst \<leftarrow> memset_n dst 2 48 (decimals - digits);
            let pos = 2 + (decimals - digits);
            let dst_len = dst_len - (2 + decimals - digits);
            dst \<leftarrow> strncpy_n dst pos buffer dst_len;
            Some (True, dst) })
       else if dst_len \<le> digits + 1 + decimals then Some (False, dst)
       else do {
         let shift = digits - decimals;
         dst \<leftarrow> memcpy_n dst 0 buffer 0 shift;
         dst \<leftarrow> st dst shift 46;
         dst \<leftarrow> strncpy_n dst (shift + 1) (drop shift buffer) decimals;
         Some (True, dst) } } }"

function trim_loop :: "bytes \<Rightarrow> nat \<Rightarrow> bytes option" where
  "trim_loop dst len =
     (if len = 0 then st dst len 0
      else do {
        c \<leftarrow> ld dst (len - 1);
        if c = 48 \<or> c = 46 then
          (if c = 46 then st dst (len - 1) 0 else trim_loop dst (len - 1))
        else st dst len 0 })"
  by pat_completeness auto
termination by (relation "measure (\<lambda>(dst, len). len)") auto

definition format_fpu64_trimmed :: "bytes \<Rightarrow> nat \<Rightarrow> u64 \<Rightarrow> nat \<Rightarrow> (bool \<times> bytes) option" where
  "format_fpu64_trimmed dst dst_len value decimals = do {
     (r, dst) \<leftarrow> format_fpu64 dst dst_len value decimals;
     if \<not> r then Some (False, dst)
     else do {
       len \<leftarrow> strlen_c dst;
       dst \<leftarrow> trim_loop dst len;
       Some (True, dst) } }"

section \<open>Hexadecimal\<close>

definition hex_chars :: bytes where
  "hex_chars = map of_char ''0123456789ABCDEF''"

function hex_loop :: "bytes \<Rightarrow> size_t \<Rightarrow> bytes \<Rightarrow> size_t \<Rightarrow> nat \<Rightarrow> (bytes \<times> nat) option" where
  "hex_loop inp in_len out out_len i =
     (if i < unat in_len \<and> i * 2 + 3 \<le> unat out_len then do {
        b \<leftarrow> ld inp i;
        high \<leftarrow> ld hex_chars (unat (drop_bit 4 (b AND 0xF0)));
        out \<leftarrow> st out (2 * i) high;
        low \<leftarrow> ld hex_chars (unat (b AND 0x0F));
        out \<leftarrow> st out (2 * i + 1) low;
        hex_loop inp in_len out out_len (i + 1) }
      else Some (out, i))"
  by pat_completeness auto
termination by (relation "measure (\<lambda>(inp, in_len, out, out_len, i). unat in_len - i)") auto

definition format_hex :: "bytes \<Rightarrow> size_t \<Rightarrow> bytes \<Rightarrow> size_t \<Rightarrow> (int \<times> bytes) option" where
  "format_hex inp in_len out out_len =
     (if out_len < 2 * in_len + 1 then Some (-1, out)
      else do {
        (out, i) \<leftarrow> hex_loop inp in_len out out_len 0;
        out \<leftarrow> st out (2 * i) 0;
        Some (2 * int i + 1, out) })"

declare i64_digits.simps [simp del] u64_digits.simps [simp del] swap_ends.simps [simp del] trim_loop.simps [simp del]
  hex_loop.simps [simp del]

section \<open>Decimal text\<close>

definition digit_char :: "nat \<Rightarrow> u8" where
  "digit_char d = word_of_nat (d + 48)"

definition dec_digits :: "nat \<Rightarrow> nat list" where
  "dec_digits v = (if v = 0 then [0] else digits_of 10 v)"

definition dec_text :: "nat \<Rightarrow> bytes" where
  "dec_text v = map digit_char (dec_digits v)"

lemma dec_digits_small: "v \<le> 9 \<Longrightarrow> dec_digits v = [v]"
  by (auto simp: dec_digits_def digits_of.simps [of 10 v])

lemma dec_digits_step: "9 < v \<Longrightarrow> dec_digits v = dec_digits (v div 10) @ [v mod 10]"
  by (auto simp: dec_digits_def digits_of.simps [of 10 v])

lemma dec_digits_nonempty [simp]: "dec_digits v \<noteq> []"
  by (cases "9 < v") (auto simp: dec_digits_step dec_digits_small)

lemma dec_digits_less: "\<forall>d\<in>set (dec_digits v). d < 10"
  using digits_of_less [of _ 10 v] by (auto simp: dec_digits_def)

lemma dec_digits_val: "digits_val 10 (dec_digits v) = v"
  by (simp add: dec_digits_def)

lemma dec_text_length [simp]: "length (dec_text v) = length (dec_digits v)"
  by (simp add: dec_text_def)

lemma dec_digits_length64: "length (dec_digits (unat (v :: u64))) \<le> 20"
  using digits_of_length [of 10 "unat v" 20] unat_bound64 [of v] by (auto simp: dec_digits_def)

lemma digit_char_add: "word_of_nat d + 48 = digit_char d"
  by (simp add: digit_char_def)

lemma digit_char_neq_0: "d < 10 \<Longrightarrow> digit_char d \<noteq> 0"
proof -
  assume "d < 10"
  then have "unat (digit_char d) = d + 48" by (simp add: digit_char_def unat_of_nat take_bit_nat_eq_self del: of_nat_add)
  then show ?thesis by auto
qed

lemma dec_text_neq_0: "0 \<notin> set (dec_text v)"
proof
  assume "0 \<in> set (dec_text v)"
  then obtain d where "d \<in> set (dec_digits v)" "digit_char d = 0" by (auto simp: dec_text_def)
  then show False using dec_digits_less digit_char_neq_0 by blast
qed

section \<open>Unsigned integers\<close>

lemma u64_digits_eq:
  "i + 1 \<le> n \<Longrightarrow> n < length out \<Longrightarrow>
     (if i + length (dec_digits v) \<le> n
      then u64_digits out n v i = Some (True, take i out @ map digit_char (rev (tl (dec_digits v))) @ drop (i + (length (dec_digits v) - 1)) out,
        hd (dec_digits v), i + (length (dec_digits v) - 1))
      else \<exists>out' w k. u64_digits out n v i = Some (False, out', w, k) \<and> length out' = length out)"
proof (induction out n v i rule: u64_digits.induct)
  case (1 out n v i)
  show ?case
  proof (cases "9 < v")
    case True
    have l: "length (dec_digits v) = Suc (length (dec_digits (v div 10)))" "0 < length (dec_digits (v div 10))"
      using dec_digits_step [OF True] by auto
    have tl: "tl (dec_digits v) = tl (dec_digits (v div 10)) @ [v mod 10]" "hd (dec_digits v) = hd (dec_digits (v div 10))"
      using dec_digits_step [OF True] by (auto simp: tl_append2 hd_append2)
    let ?out = "out[i := digit_char (v mod 10)]"
    have st: "st out i (word_of_nat (v mod 10 + 48)) = Some ?out" using 1(2,3) by (simp add: mem_simps digit_char_def)
    show ?thesis
    proof (cases "i + 2 > n")
      case full: True
      then have "u64_digits out n v i = Some (False, ?out, v div 10, i + 1)"
        using True st by (subst u64_digits.simps) simp
      moreover have "\<not> i + length (dec_digits v) \<le> n" using full l by linarith
      ultimately show ?thesis by auto
    next
      case False
      then have e: "u64_digits out n v i = u64_digits ?out n (v div 10) (i + 1)"
        using True st by (subst u64_digits.simps) simp
      have IH: "if i + 1 + length (dec_digits (v div 10)) \<le> n
          then u64_digits ?out n (v div 10) (i + 1) = Some (True, take (i + 1) ?out @ map digit_char (rev (tl (dec_digits (v div 10)))) @
              drop (i + 1 + (length (dec_digits (v div 10)) - 1)) ?out, hd (dec_digits (v div 10)), i + 1 + (length (dec_digits (v div 10)) - 1))
          else \<exists>out' w k. u64_digits ?out n (v div 10) (i + 1) = Some (False, out', w, k) \<and> length out' = length ?out"
        by (rule 1(1) [OF True]) (use st False 1(3) in auto)
      have "take (Suc i) ?out = take i out @ [digit_char (v mod 10)]" using 1(2,3) by (simp add: take_Suc_conv_app_nth)
      moreover obtain d ds where "dec_digits (v div 10) = d # ds" by (cases "dec_digits (v div 10)") auto
      ultimately show ?thesis using IH l 1(2,3) unfolding e tl by (auto split: if_splits)
    qed
  next
    case False
    then show ?thesis using 1(2) by (subst u64_digits.simps) (simp add: dec_digits_small)
  qed
qed

lemma swap_ends_eq: "swap_ends (a @ xs @ b) (length a + length xs - 1) (length a) = Some (a @ rev xs @ b)"
proof (induction "length xs" arbitrary: a xs b rule: less_induct)
  case less
  show ?case
  proof (cases "length xs \<le> 1")
    case True
    then show ?thesis by (cases xs) (auto simp: swap_ends.simps)
  next
    case False
    then obtain x zs where "xs = x # zs" "zs \<noteq> []" by (cases xs) auto
    then obtain ys y where xs: "xs = x # ys @ [y]" by (cases zs rule: rev_cases) auto
    have "swap_ends (a @ xs @ b) (length a + length xs - 1) (length a)
        = swap_ends ((a @ [y]) @ ys @ x # b) (length (a @ [y]) + length ys - 1) (length (a @ [y]))"
      by (subst swap_ends.simps) (simp add: xs ld_def st_def list_update_append nth_append)
    also have "\<dots> = Some ((a @ [y]) @ rev ys @ x # b)" by (rule less) (simp add: xs)
    finally show ?thesis by (simp add: xs)
  qed
qed

lemma format_u64_eq:
  assumes "2 \<le> outLen" "outLen \<le> length out"
  shows "if length (dec_text (unat v)) < outLen
     then format_u64 out outLen v = Some (True, dec_text (unat v) @ 0 # drop (length (dec_text (unat v)) + 1) out)
     else \<exists>out'. format_u64 out outLen v = Some (False, out') \<and> length out' = length out"
proof -
  let ?ds = "dec_digits (unat v)"
  have a: "0 + 1 \<le> outLen - 1" "outLen - 1 < length out" using assms by auto
  have D: "if length ?ds \<le> outLen - 1
      then u64_digits out (outLen - 1) (unat v) 0 = Some (True, map digit_char (rev (tl ?ds)) @ drop (length ?ds - 1) out, hd ?ds, length ?ds - 1)
      else \<exists>out' w k. u64_digits out (outLen - 1) (unat v) 0 = Some (False, out', w, k) \<and> length out' = length out"
    using u64_digits_eq [OF a, of "unat v"] by (simp only: take_0 append_Nil add_0)
  show ?thesis
  proof (cases "length ?ds \<le> outLen - 1")
    case True
    obtain d ds where ds: "?ds = d # ds" by (cases ?ds) auto
    have len: "length ds + 2 \<le> length out" using True assms ds by simp
    have "st (map digit_char (rev ds) @ drop (length ds) out) (length ds) (digit_char d)
        = Some (map digit_char (rev ds) @ digit_char d # drop (Suc (length ds)) out)"
      using len by (simp add: st_def list_update_append drop_update_swap Cons_nth_drop_Suc [symmetric])
    moreover have "st (map digit_char (rev ds) @ digit_char d # drop (Suc (length ds)) out) (Suc (length ds)) 0
        = Some ([] @ map digit_char (rev (d # ds)) @ 0 # drop (Suc (Suc (length ds))) out)"
      using len by (simp add: st_def list_update_append Cons_nth_drop_Suc [symmetric])
    moreover have "swap_ends ([] @ map digit_char (rev (d # ds)) @ 0 # drop (Suc (Suc (length ds))) out) (length ds) 0
        = Some ([] @ rev (map digit_char (rev (d # ds))) @ 0 # drop (Suc (Suc (length ds))) out)"
      using swap_ends_eq [of "[]" "map digit_char (rev (d # ds))"] by simp
    ultimately show ?thesis
      using D True assms(1) ds by (auto simp: format_u64_def Let_def digit_char_add dec_text_def rev_map)
  next
    case False
    then show ?thesis using D assms(1) by (auto simp: format_u64_def Let_def)
  qed
qed

section \<open>Fixed-point numbers\<close>

text \<open>At least one digit before the point and \<open>decimals\<close> digits after it.\<close>

definition fpu_text :: "nat \<Rightarrow> nat \<Rightarrow> bytes" where
  "fpu_text v decimals =
     (let ds = dec_digits v; ds = replicate (decimals + 1 - length ds) 0 @ ds; n = length ds - decimals
      in map digit_char (take n ds) @ 46 # map digit_char (drop n ds))"

lemma takeWhile_text: "0 \<notin> set t \<Longrightarrow> takeWhile (\<lambda>c. c \<noteq> 0) (t @ 0 # r) = (t :: bytes)"
  by (induction t) auto

lemma strlen_c_text: "0 \<notin> set t \<Longrightarrow> strlen_c (t @ 0 # r) = Some (length t)"
  by (simp add: strlen_c_def takeWhile_text)

lemma strncpy_n_text:
  assumes "0 \<notin> set t" "i + n \<le> length d"
  shows "strncpy_n d i (t @ 0 # r) n = Some (take i d @ take n (t @ replicate n 0) @ drop (i + n) d)"
  using assms(2) by (simp add: strncpy_n_def st_n_def Let_def min_def takeWhile_text [OF assms(1)])

lemma fpu_text_small:
  "length (dec_digits v) \<le> decimals \<Longrightarrow> fpu_text v decimals = 48 # 46 # replicate (decimals - length (dec_digits v)) 48 @ dec_text v"
proof -
  assume a: "length (dec_digits v) \<le> decimals"
  then have "decimals + 1 - length (dec_digits v) = Suc (decimals - length (dec_digits v))" by simp
  then show ?thesis using a by (simp add: fpu_text_def Let_def dec_text_def digit_char_def)
qed

lemma fpu_text_large:
  "decimals < length (dec_digits v) \<Longrightarrow>
     fpu_text v decimals = take (length (dec_digits v) - decimals) (dec_text v) @ 46 # drop (length (dec_digits v) - decimals) (dec_text v)"
  by (simp add: fpu_text_def Let_def dec_text_def take_map drop_map)

lemma fpu_buffer:
  "format_u64 (replicate 21 0) 21 v = Some (True, dec_text (unat v) @ 0 # replicate (20 - length (dec_text (unat v))) 0)"
  using format_u64_eq [of 21 "replicate 21 0" v] dec_digits_length64 [of v] by simp

lemma format_fpu64_eq:
  assumes "dst_len \<le> length dst"
  shows "format_fpu64 dst dst_len v decimals = Some (let n = length (dec_text (unat v)); t = fpu_text (unat v) decimals in
     if n \<le> decimals then
       (if dst_len \<le> 2 + decimals - n then (False, dst) else (True, take dst_len (t @ replicate dst_len 0) @ drop dst_len dst))
     else if dst_len \<le> n + 1 + decimals then (False, dst)
     else (True, t @ drop (n + 1) dst))"
proof -
  let ?t = "dec_text (unat v)" and ?n = "length (dec_digits (unat v))"
  have nz: "0 \<notin> set ?t" by (rule dec_text_neq_0)
  consider (fail1) "?n \<le> decimals" "dst_len \<le> 2 + decimals - ?n" | (small) "?n \<le> decimals" "\<not> dst_len \<le> 2 + decimals - ?n"
    | (fail2) "\<not> ?n \<le> decimals" "dst_len \<le> ?n + 1 + decimals" | (large) "\<not> ?n \<le> decimals" "\<not> dst_len \<le> ?n + 1 + decimals"
    by blast
  then show ?thesis
  proof cases
    case small
    define k where "k = decimals - ?n"
    have k: "2 + decimals - ?n = 2 + k" "2 + k < dst_len" using small by (auto simp: k_def)
    obtain x y dst' where d: "dst = x # y # dst'" using assms k(2) by (cases dst; cases "tl dst") auto
    let ?m = "dst_len - (2 + k)"
    have m: "2 + k + ?m = dst_len" using k(2) by simp
    have dr: "drop dst_len (48 # 46 # replicate k 48 @ drop k dst') = drop dst_len dst"
      using k(2) by (cases dst_len; cases "dst_len - 1") (auto simp: d)
    have p: "st dst 0 48 = Some (48 # y # dst')" "st (48 # y # dst') 1 46 = Some (48 # 46 # dst')"
      "memset_n (48 # 46 # dst') 2 48 k = Some (48 # 46 # replicate k 48 @ drop k dst')"
      "strncpy_n (48 # 46 # replicate k 48 @ drop k dst') (2 + k) (?t @ 0 # replicate (20 - ?n) 0) ?m
        = Some (48 # 46 # replicate k 48 @ take ?m (?t @ replicate ?m 0) @ drop dst_len dst)"
      using assms k(2) d strncpy_n_text [OF nz, of "2 + k" ?m "48 # 46 # replicate k 48 @ drop k dst'" "replicate (20 - ?n) 0"] unfolding m dr
      by (auto simp: st_def memset_n_def st_n_def numeral_2_eq_2)
    have r: "take dst_len (fpu_text (unat v) decimals @ replicate dst_len 0) = 48 # 46 # replicate k 48 @ take ?m (?t @ replicate ?m 0)"
    proof -
      have e: "dst_len = Suc (Suc (k + ?m))" using k(2) by simp
      have "take ?m (?t @ replicate dst_len 0) = take ?m (?t @ replicate ?m 0)" by (auto simp: min_def)
      then show ?thesis unfolding fpu_text_small [OF small(1)] k_def [symmetric] by (subst e) simp
    qed
    have "format_fpu64 dst dst_len v decimals = Some (True, take dst_len (fpu_text (unat v) decimals @ replicate dst_len 0) @ drop dst_len dst)"
      using small p k unfolding format_fpu64_def fpu_buffer bind.bind_lunit r
      by (simp add: strlen_c_text [OF nz] Let_def k_def [symmetric])
    then show ?thesis using small by (simp add: Let_def)
  next
    case large
    define s where "s = ?n - decimals"
    have s: "s + decimals = ?n" "s \<le> ?n" "?n + 1 + decimals < dst_len" using large by (auto simp: s_def)
    have b: "?t @ 0 # replicate (20 - ?n) 0 = take s ?t @ drop s ?t @ 0 # replicate (20 - ?n) 0" by simp
    have p: "memcpy_n dst 0 (?t @ 0 # replicate (20 - ?n) 0) 0 s = Some (take s ?t @ drop s dst)"
      "st (take s ?t @ drop s dst) s 46 = Some (take s ?t @ 46 # drop (Suc s) dst)"
      using assms s by (simp_all add: memcpy_n_def mem_simps list_update_append Cons_nth_drop_Suc [symmetric])
    have dz: "0 \<notin> set (drop s ?t)" using nz by (auto dest: in_set_dropD)
    have q: "strncpy_n (take s ?t @ 46 # drop (Suc s) dst) (Suc s) (drop s (?t @ 0 # replicate (20 - ?n) 0)) decimals
        = Some (fpu_text (unat v) decimals @ drop (?n + 1) dst)"
      using strncpy_n_text [OF dz, of "Suc s" decimals "take s ?t @ 46 # drop (Suc s) dst" "replicate (20 - ?n) 0"] assms s large(1)
      by (simp add: fpu_text_large s_def [symmetric] add.commute)
    have "format_fpu64 dst dst_len v decimals = Some (True, fpu_text (unat v) decimals @ drop (?n + 1) dst)"
      using large p q unfolding format_fpu64_def fpu_buffer bind.bind_lunit
      by (simp add: strlen_c_text [OF nz] Let_def s_def [symmetric])
    then show ?thesis using large by (simp add: Let_def)
  qed (simp_all add: format_fpu64_def fpu_buffer strlen_c_text [OF nz] Let_def)
qed

section \<open>Signed integers\<close>

definition i64_text :: "int \<Rightarrow> bytes" where
  "i64_text v = (if v < 0 then [45] else []) @ dec_text (nat \<bar>v\<bar>)"

lemma c_div_sign: "sign = 1 \<or> sign = -1 \<Longrightarrow> c_div (sign * int a) 10 = sign * int (a div 10)"
  by (cases "a = 0") (auto simp: c_div_def zdiv_int)

lemma c_mod_sign: "sign = 1 \<or> sign = -1 \<Longrightarrow> c_mod (sign * int a) 10 * sign = int (a mod 10)"
  unfolding c_mod_def c_div_sign by (auto simp: zdiv_int zmod_int minus_div_mult_eq_mod [symmetric])

lemma i64_digits_eq:
  "sign = 1 \<or> sign = -1 \<Longrightarrow> ptr + length (digits_of 10 a) \<le> length temp \<Longrightarrow>
     i64_digits temp ptr (sign * int a) sign =
     Some (take ptr temp @ map digit_char (rev (digits_of 10 a)) @ drop (ptr + length (digits_of 10 a)) temp, ptr + length (digits_of 10 a))"
proof (induction a arbitrary: temp ptr rule: less_induct)
  case (less a)
  show ?case
  proof (cases "a = 0")
    case False
    then have d: "digits_of 10 a = digits_of 10 (a div 10) @ [a mod 10]" by (subst digits_of.simps) simp
    have "word_of_int (48 + c_mod (sign * int a) 10 * sign) = digit_char (a mod 10)"
      unfolding c_mod_sign [OF less.prems(1)] by (simp add: digit_char_def)
    then have "i64_digits temp ptr (sign * int a) sign
        = i64_digits (temp[ptr := digit_char (a mod 10)]) (ptr + 1) (sign * int (a div 10)) sign"
      using False less.prems d by (subst i64_digits.simps) (auto simp: mem_simps c_div_sign)
    also have "\<dots> = Some (take (ptr + 1) (temp[ptr := digit_char (a mod 10)]) @ map digit_char (rev (digits_of 10 (a div 10))) @
        drop (ptr + 1 + length (digits_of 10 (a div 10))) (temp[ptr := digit_char (a mod 10)]), ptr + 1 + length (digits_of 10 (a div 10)))"
      by (rule less.IH) (use False less.prems d in auto)
    finally show ?thesis using less.prems(2) unfolding d by (simp add: take_Suc_conv_app_nth)
  qed (simp add: i64_digits.simps)
qed

lemma copy_back_eq:
  "ptr \<le> length temp \<Longrightarrow> index + ptr \<le> length dst \<Longrightarrow>
     copy_back temp ptr dst index = Some (take index dst @ rev (take ptr temp) @ drop (index + ptr) dst, index + ptr)"
proof (induction ptr arbitrary: dst index)
  case (Suc ptr)
  then have "copy_back temp (Suc ptr) dst index = copy_back temp ptr (dst[index := temp ! ptr]) (Suc index)" by (simp add: mem_simps)
  also have "\<dots> = Some (take (Suc index) (dst[index := temp ! ptr]) @ rev (take ptr temp) @ drop (Suc index + ptr) (dst[index := temp ! ptr]), Suc index + ptr)"
    by (rule Suc.IH) (use Suc.prems in auto)
  finally show ?case using Suc.prems by (simp add: take_Suc_conv_app_nth)
qed simp

lemma i64_text_length: "- (2 ^ 63) \<le> v \<Longrightarrow> v < 2 ^ 63 \<Longrightarrow> length (digits_of 10 (nat \<bar>v\<bar>)) \<le> 19"
  by (rule digits_of_length) auto

lemma format_i64_eq:
  assumes "- (2 ^ 63) \<le> v" "v < 2 ^ 63" "dst_len \<le> length dst" "dst_len < 2 ^ 31"
  shows "format_i64 dst dst_len v = Some (let t = i64_text v in
     if dst_len < length t + 1 then (False, dst) else (True, t @ 0 # drop (length t + 1) dst))"
proof -
  define temp :: bytes where "temp = map of_char ''-9223372036854775808'' @ [0]"
  define sign :: int where "sign = (if v < 0 then -1 else 1)"
  let ?ds = "digits_of 10 (nat \<bar>v\<bar>)"
  have len: "length temp = 21" by (simp add: temp_def)
  have l19: "length ?ds \<le> 19" by (rule i64_text_length [OF assms(1,2)])
  have v: "sign * int (nat \<bar>v\<bar>) = v" "sign = 1 \<or> sign = -1" by (auto simp: sign_def)
  have D: "i64_digits temp 0 v sign = Some (map digit_char (rev ?ds) @ drop (length ?ds) temp, length ?ds)"
    using i64_digits_eq [OF v(2), of 0 "nat \<bar>v\<bar>" temp] l19 len unfolding v(1) by simp
  obtain r where T: "(if v < 0 then do { t \<leftarrow> st (map digit_char (rev ?ds) @ drop (length ?ds) temp) (length ?ds) 45; Some (t, length ?ds + 1) }
      else if v = 0 then do { t \<leftarrow> st (map digit_char (rev ?ds) @ drop (length ?ds) temp) (length ?ds) 48; Some (t, length ?ds + 1) }
      else Some (map digit_char (rev ?ds) @ drop (length ?ds) temp, length ?ds)) = Some (rev (i64_text v) @ r, length (i64_text v))"
    "length (i64_text v) + length r = 21"
  proof -
    have "(if v < 0 then do { t \<leftarrow> st (map digit_char (rev ?ds) @ drop (length ?ds) temp) (length ?ds) 45; Some (t, length ?ds + 1) }
      else if v = 0 then do { t \<leftarrow> st (map digit_char (rev ?ds) @ drop (length ?ds) temp) (length ?ds) 48; Some (t, length ?ds + 1) }
      else Some (map digit_char (rev ?ds) @ drop (length ?ds) temp, length ?ds)) = Some (rev (i64_text v) @ drop (length (i64_text v)) temp, length (i64_text v))"
    proof (cases "v = 0")
      case True
      obtain x xs where "temp = x # xs" using len by (cases temp) auto
      then show ?thesis using True by (simp add: i64_text_def dec_text_def dec_digits_def st_def digit_char_def)
    next
      case False
      then show ?thesis
        using l19 len by (auto simp: i64_text_def dec_text_def dec_digits_def st_def list_update_append Cons_nth_drop_Suc [symmetric] rev_map)
    qed
    moreover have "length (i64_text v) \<le> 20" using l19 by (auto simp: i64_text_def dec_digits_def)
    ultimately show ?thesis using that [of "drop (length (i64_text v)) temp"] len by simp
  qed
  show ?thesis
  proof (cases "dst_len < length (i64_text v) + 1")
    case True
    then show ?thesis unfolding format_i64_def Let_def temp_def [symmetric] sign_def [symmetric] D bind.bind_lunit prod.case T(1)
      by (simp add: signed_size [OF assms(4)])
  next
    case False
    have "copy_back (rev (i64_text v) @ r) (length (i64_text v)) dst 0 = Some (i64_text v @ drop (length (i64_text v)) dst, length (i64_text v))"
      using copy_back_eq [of "length (i64_text v)" "rev (i64_text v) @ r" 0 dst] False assms(3) by simp
    moreover have "st (i64_text v @ drop (length (i64_text v)) dst) (length (i64_text v)) 0 = Some (i64_text v @ 0 # drop (length (i64_text v) + 1) dst)"
      using False assms(3) by (simp add: st_def list_update_append Cons_nth_drop_Suc [symmetric])
    ultimately show ?thesis
      using False unfolding format_i64_def Let_def temp_def [symmetric] sign_def [symmetric] D bind.bind_lunit prod.case T(1)
      by (simp add: signed_size [OF assms(4)])
  qed
qed

section \<open>Trimmed numbers\<close>

definition strip_zeros :: "bytes \<Rightarrow> bytes" where
  "strip_zeros b = rev (dropWhile (\<lambda>c. c = 48) (rev b))"

lemma trim_loop_eq:
  "46 \<notin> set b \<Longrightarrow> r \<noteq> [] \<Longrightarrow>
     trim_loop (a @ 46 # b @ r) (length a + 1 + length b) =
     Some (let t = (if strip_zeros b = [] then a else a @ 46 # strip_zeros b); s = a @ 46 # b @ r in t @ 0 # drop (length t + 1) s)"
proof (induction b arbitrary: r rule: rev_induct)
  case Nil
  then show ?case by (subst trim_loop.simps) (simp add: ld_def st_def nth_append list_update_append strip_zeros_def)
next
  case (snoc c b)
  show ?case
  proof (cases "c = 48")
    case True
    then have "trim_loop (a @ 46 # (b @ [c]) @ r) (length a + 1 + length (b @ [c])) = trim_loop (a @ 46 # b @ (c # r)) (length a + 1 + length b)"
      by (subst trim_loop.simps) (simp add: ld_def nth_append)
    also have "\<dots> = Some (let t = (if strip_zeros b = [] then a else a @ 46 # strip_zeros b); s = a @ 46 # b @ (c # r) in t @ 0 # drop (length t + 1) s)"
      by (rule snoc.IH) (use snoc.prems in auto)
    finally show ?thesis using True by (simp add: strip_zeros_def)
  next
    case False
    then show ?thesis using snoc.prems
      by (subst trim_loop.simps) (cases r; simp add: ld_def st_def nth_append list_update_append strip_zeros_def Let_def numeral_3_eq_3)
  qed
qed

section \<open>Hexadecimal\<close>

definition hex_text :: "bytes \<Rightarrow> bytes" where
  "hex_text bs = concat (map (\<lambda>b. [hex_chars ! (unat b div 16), hex_chars ! (unat b mod 16)]) bs)"

lemma hex_nibbles: "unat (drop_bit 4 (b :: u8)) mod 16 = unat b div 16" "unat (b AND 0x0F :: u8) = unat b mod 16"
proof -
  show "unat (drop_bit 4 b) mod 16 = unat b div 16" using unat_bound8 [of b] by (simp add: unat_drop_bit)
  have "b AND 0x0F = take_bit 4 b" by (simp add: take_bit_eq_mask mask_eq_exp_minus_1)
  then show "unat (b AND 0x0F :: u8) = unat b mod 16"
    by (simp add: unat_mod take_bit_eq_mod)
qed

lemma hex_text_length [simp]: "length (hex_text bs) = 2 * length bs"
  by (induction bs) (simp_all add: hex_text_def)

lemma hex_loop_eq:
  assumes "unat in_len \<le> length inp" "unat out_len \<le> length out" "2 * unat in_len + 1 \<le> unat out_len"
  shows "i \<le> unat in_len \<Longrightarrow> length o' = length out \<Longrightarrow>
     hex_loop inp in_len o' out_len i =
     Some (take (2 * i) o' @ hex_text (take (unat in_len - i) (drop i inp)) @ drop (2 * unat in_len) o', unat in_len)"
proof (induction "unat in_len - i" arbitrary: i o')
  case 0
  then show ?case by (subst hex_loop.simps) (simp add: hex_text_def)
next
  case (Suc k)
  have i: "i < unat in_len" using Suc.hyps(2) by simp
  let ?h = "hex_chars ! (unat (inp ! i) div 16)" and ?l = "hex_chars ! (unat (inp ! i) mod 16)"
  let ?o = "o'[2 * i := ?h, 2 * i + 1 := ?l]"
  have h: "length hex_chars = 16" "unat (inp ! i) div 16 < 16" "unat (inp ! i) mod 16 < 16"
    using unat_bound8 [of "inp ! i"] by (auto simp: hex_chars_def)
  have "hex_loop inp in_len o' out_len i = hex_loop inp in_len ?o out_len (i + 1)"
    using i assms Suc.prems h by (subst hex_loop.simps) (simp add: mem_simps hex_nibbles)
  also have "\<dots> = Some (take (2 * (i + 1)) ?o @ hex_text (take (unat in_len - (i + 1)) (drop (i + 1) inp)) @ drop (2 * unat in_len) ?o, unat in_len)"
    by (rule Suc.hyps(1)) (use Suc.hyps(2) Suc.prems i in auto)
  also have "take (2 * (i + 1)) ?o = take (2 * i) o' @ [?h, ?l]"
    using i assms Suc.prems(2) by (simp add: take_Suc_conv_app_nth)
  finally have r: "hex_loop inp in_len o' out_len i = Some ((take (2 * i) o' @ [?h, ?l]) @
      hex_text (take (unat in_len - (i + 1)) (drop (i + 1) inp)) @ drop (2 * unat in_len) ?o, unat in_len)" .
  have "hex_text (take (unat in_len - i) (drop i inp)) = [?h, ?l] @ hex_text (take (unat in_len - (i + 1)) (drop (i + 1) inp))"
    using i assms(1) take_drop_Suc [of i "unat in_len - Suc i" inp] by (simp add: hex_text_def Suc_diff_Suc)
  then show ?case using i unfolding r by simp
qed

lemma format_hex_eq:
  assumes "unat in_len \<le> length inp" "unat out_len \<le> length out" "2 * unat in_len + 1 < 2 ^ 32"
  shows "format_hex inp in_len out out_len = Some (let t = hex_text (take (unat in_len) inp) in
     if unat out_len < length t + 1 then (-1, out) else (int (length t) + 1, t @ 0 # drop (length t + 1) out))"
proof -
  have "unat (2 * in_len) = 2 * unat in_len" using assms(3) by (simp add: unat_word_ariths)
  then have u: "unat (2 * in_len + 1) = 2 * unat in_len + 1" using assms(3) by (subst unat_add_no_wrap) auto
  show ?thesis
  proof (cases "unat out_len < 2 * unat in_len + 1")
    case True
    then show ?thesis using assms(1) by (simp add: format_hex_def word_less_nat_alt u)
  next
    case False
    then have "hex_loop inp in_len out out_len 0 = Some (hex_text (take (unat in_len) inp) @ drop (2 * unat in_len) out, unat in_len)"
      using hex_loop_eq [OF assms(1,2), of 0 out] by simp
    then show ?thesis using False assms
      by (simp add: format_hex_def word_less_nat_alt u Let_def st_def list_update_append Cons_nth_drop_Suc [symmetric])
  qed
qed

section \<open>Properties\<close>

text \<open>Property C28.  Given at least two bytes of room, \<open>format_u64\<close> stays inside the output, succeeds exactly when the decimal digits and the
  terminator fit, and then writes them.  Given one byte and a number of one digit it writes the terminator past the end.\<close>

theorem format_u64_spec:
  "(\<forall>outLen out v. 2 \<le> outLen \<and> outLen \<le> length out \<longrightarrow>
     (if length (dec_text (unat v)) < outLen
      then format_u64 out outLen v = Some (True, dec_text (unat v) @ 0 # drop (length (dec_text (unat v)) + 1) out)
      else \<exists>out'. format_u64 out outLen v = Some (False, out') \<and> length out' = length out)) \<and>
   (\<forall>c v. unat v \<le> 9 \<longrightarrow> format_u64 [c] 1 v = None)"
proof (intro conjI allI impI)
  fix c :: u8 and v :: u64 assume "unat v \<le> 9"
  then show "format_u64 [c] 1 v = None" by (simp add: format_u64_def u64_digits.simps st_def)
qed (use format_u64_eq in blast)

theorem format_u64_spec_witness:
  "format_u64 [7, 7, 7, 7] 4 12 = Some (True, [0x31, 0x32, 0, 7]) \<and> format_u64 [7] 1 5 = None"
proof -
  have "dec_text 12 = [0x31, 0x32]"
    by (simp add: dec_text_def dec_digits_def digits_of.simps digit_char_def)
  then show ?thesis
    using format_u64_spec [THEN conjunct1, rule_format, of 4 "[7, 7, 7, 7]" 12] format_u64_spec [THEN conjunct2, rule_format, of 5 7]
    by simp
qed

text \<open>Property C29.  \<open>format_fpu64\<close> stays inside the output and computes the fixed-point text of the number.  When the number has more digits than decimals, the text is
  written without a terminator: the bytes behind it keep their values.  When it has not, success is also returned for a room that is too small,
  and the text is then cut without a terminator.\<close>

theorem format_fpu64_spec:
  assumes "dst_len \<le> length dst"
  shows "format_fpu64 dst dst_len v decimals = Some (let n = length (dec_text (unat v)); t = fpu_text (unat v) decimals in
     if n \<le> decimals then
       (if dst_len \<le> 2 + decimals - n then (False, dst) else (True, take dst_len (t @ replicate dst_len 0) @ drop dst_len dst))
     else if dst_len \<le> n + 1 + decimals then (False, dst)
     else (True, t @ drop (n + 1) dst))"
  using assms by (rule format_fpu64_eq)

theorem format_fpu64_spec_witness:
  "format_fpu64 [9, 9, 9, 9, 9, 9] 6 12 1 = Some (True, [0x31, 0x2E, 0x32, 9, 9, 9]) \<and>
   format_fpu64 [9, 9, 9] 3 12 2 = Some (True, [0x30, 0x2E, 0x31])"
proof -
  have d: "dec_digits 12 = [1, 2]" by (simp add: dec_digits_def digits_of.simps)
  have "fpu_text 12 1 = [0x31, 0x2E, 0x32]" "fpu_text 12 2 = [0x30, 0x2E, 0x31, 0x32]"
    by (simp_all add: fpu_text_def d Let_def digit_char_def)
  then show ?thesis
    using format_fpu64_spec [of 6 "[9, 9, 9, 9, 9, 9]" 12 1] format_fpu64_spec [of 3 "[9, 9, 9]" 12 2] d
    by (simp add: Let_def)
qed

end
