(* ===== verification/Os_Utils.thy ===== *)
theory Os_Utils
  imports Format Endian
begin

text \<open>
  The helpers of \<^verbatim>\<open>src/os.c\<close> and the UTF-8 aware copy of \<^verbatim>\<open>src/os_printf.c\<close>, over the string functions of the C
  library they use.
\<close>

section \<open>C strings\<close>

text \<open>\<open>strcmp\<close> compares up to and including the first terminator; \<open>strlcpy\<close> copies at most \<open>dstlen - 1\<close> bytes, adds the
  terminator and returns the length of the source, which it therefore reads to its end.\<close>

fun strcmp :: "bytes \<Rightarrow> bytes \<Rightarrow> int option" where
  "strcmp (a # as) (b # bs) =
     (if a \<noteq> b then Some (int (unat a) - int (unat b)) else if a = 0 then Some 0 else strcmp as bs)"
| "strcmp _ _ = None"

definition strlcpy :: "bytes \<Rightarrow> bytes \<Rightarrow> nat \<Rightarrow> (nat \<times> bytes) option" where
  "strlcpy dst src dstlen = do {
     srclen \<leftarrow> strlen_c src;
     if dstlen = 0 then Some (srclen, dst)
     else do {
       let n = min srclen (dstlen - 1);
       dst \<leftarrow> memcpy_n dst 0 src 0 n;
       dst \<leftarrow> st dst n 0;
       Some (srclen, dst) } }"

definition isprint :: "u8 \<Rightarrow> bool" where
  "isprint c = (0x20 \<le> c \<and> c \<le> 0x7E)"

section \<open>Operations\<close>

text \<open>The loops of the source run over an index; \<open>k\<close> is the number of iterations left.\<close>

fun all_from :: "(u8 \<Rightarrow> bool) \<Rightarrow> bytes \<Rightarrow> nat \<Rightarrow> nat \<Rightarrow> bool option" where
  "all_from P s i 0 = Some True"
| "all_from P s i (Suc k) = do {
     c \<leftarrow> ld s i;
     if \<not> P c then Some False else all_from P s (Suc i) k }"

definition is_printable_string :: "bytes \<Rightarrow> size_t \<Rightarrow> bool option" where
  "is_printable_string str len = all_from isprint str 0 (unat len)"

definition is_zeroes_buffer :: "bytes \<Rightarrow> size_t \<Rightarrow> bool option" where
  "is_zeroes_buffer buf n = all_from (\<lambda>c. c = 0) buf 0 (unat n)"

text \<open>Both counters of \<open>os_xor\<close> and \<open>os_secure_memcmp\<close> start at \<open>length\<close> and go down together; the check for a glitch compares
  them at the end.\<close>

fun os_xor_loop :: "bytes \<Rightarrow> bytes \<Rightarrow> bytes \<Rightarrow> nat \<Rightarrow> bytes option" where
  "os_xor_loop dst src1 src2 0 = Some dst"
| "os_xor_loop dst src1 src2 (Suc n) = do {
     a \<leftarrow> ld src1 n;
     b \<leftarrow> ld src2 n;
     dst \<leftarrow> st dst n (a XOR b);
     os_xor_loop dst src1 src2 n }"

definition os_xor :: "bytes \<Rightarrow> bytes \<Rightarrow> bytes \<Rightarrow> u32 \<Rightarrow> bytes option" where
  "os_xor dst src1 src2 len = os_xor_loop dst src1 src2 (unat len)"

fun os_memcmp_loop :: "bytes \<Rightarrow> bytes \<Rightarrow> u8 \<Rightarrow> nat \<Rightarrow> u8 option" where
  "os_memcmp_loop src1 src2 xoracc 0 = Some xoracc"
| "os_memcmp_loop src1 src2 xoracc (Suc n) = do {
     a \<leftarrow> ld src1 n;
     b \<leftarrow> ld src2 n;
     os_memcmp_loop src1 src2 (xoracc OR (a XOR b)) n }"

definition os_secure_memcmp :: "bytes \<Rightarrow> bytes \<Rightarrow> size_t \<Rightarrow> u8 option" where
  "os_secure_memcmp src1 src2 len = os_memcmp_loop src1 src2 0 (unat len)"

text \<open>\<open>bytes_to_hex\<close> and \<open>bytes_to_lowercase_hex\<close> differ in the alphabet; \<open>p\<close> is the position of the moving \<open>out\<close>.\<close>

fun to_hex_loop :: "bytes \<Rightarrow> bytes \<Rightarrow> nat \<Rightarrow> bytes \<Rightarrow> nat \<Rightarrow> nat \<Rightarrow> (bytes \<times> nat) option" where
  "to_hex_loop hex out p bs i 0 = Some (out, p)"
| "to_hex_loop hex out p bs i (Suc k) = do {
     b \<leftarrow> ld bs i;
     h \<leftarrow> ld hex (unat (drop_bit 4 b AND 0xF));
     out \<leftarrow> st out p h;
     l \<leftarrow> ld hex (unat (b AND 0xF));
     out \<leftarrow> st out (p + 1) l;
     to_hex_loop hex out (p + 2) bs (i + 1) k }"

definition to_hex :: "bytes \<Rightarrow> bytes \<Rightarrow> size_t \<Rightarrow> bytes \<Rightarrow> size_t \<Rightarrow> (int \<times> bytes) option" where
  "to_hex hex out outl v len =
     (if outl < 2 * len + 1 then do { out \<leftarrow> st out 0 0; Some (- 1, out) }
      else do {
        (out, p) \<leftarrow> to_hex_loop hex out 0 v 0 (unat len);
        out \<leftarrow> st out p 0;
        Some (0, out) })"

definition bytes_to_hex :: "bytes \<Rightarrow> size_t \<Rightarrow> bytes \<Rightarrow> size_t \<Rightarrow> (int \<times> bytes) option" where
  "bytes_to_hex = to_hex (map of_char ''0123456789ABCDEF'')"

definition bytes_to_lowercase_hex :: "bytes \<Rightarrow> size_t \<Rightarrow> bytes \<Rightarrow> size_t \<Rightarrow> (int \<times> bytes) option" where
  "bytes_to_lowercase_hex = to_hex (map of_char ''0123456789abcdef'')"

text \<open>\<open>find_invalid_trailing_bytes\<close>: the scan goes back from the last byte to a leading byte; \<^term>\<open>None\<close> inside the
  result of the scan is its early return.\<close>

fun utf8_scan :: "bytes \<Rightarrow> nat \<Rightarrow> u8 \<Rightarrow> (nat \<times> u8) option option" where
  "utf8_scan data index c =
     (if index \<ge> 1 \<and> c < 0xC0 then
        if c AND 0x80 = 0 then Some None
        else case ld data (index - 1) of
               None \<Rightarrow> None
             | Some c \<Rightarrow> utf8_scan data (index - 1) c
      else Some (Some (index, c)))"

declare utf8_scan.simps [simp del]

definition find_invalid_trailing_bytes :: "bytes \<Rightarrow> nat \<Rightarrow> nat option" where
  "find_invalid_trailing_bytes data len =
     (if len < 1 then Some 0
      else do {
        c \<leftarrow> ld data (len - 1);
        if c AND 0x80 = 0 then Some 0
        else do {
          r \<leftarrow> utf8_scan data (len - 1) c;
          (case r of
             None \<Rightarrow> Some 0
           | Some (index, c) \<Rightarrow>
               if c < 0xC0 then Some 0
               else
                 let expected = (if c \<ge> 0xF0 then 4 else if c \<ge> 0xE0 then 3 else 2);
                     nb_multibytes = len - index
                 in Some (if expected > nb_multibytes then nb_multibytes else 0)) } })"

definition strlcpy_utf8 :: "bytes option \<Rightarrow> bytes option \<Rightarrow> size_t \<Rightarrow> (nat \<times> bytes option) option" where
  "strlcpy_utf8 dst src dstlen =
     (case src of
        None \<Rightarrow> Some (0, dst)
      | Some src \<Rightarrow>
          (case dst of
             None \<Rightarrow> do { n \<leftarrow> strlen_c src; Some (n, None) }
           | Some d \<Rightarrow>
               if dstlen = 0 then do { n \<leftarrow> strlen_c src; Some (n, dst) }
               else do {
                 (srclen, d) \<leftarrow> strlcpy d src (unat dstlen);
                 let len = min (unat dstlen - 1) srclen;
                 k \<leftarrow> find_invalid_trailing_bytes d len;
                 d \<leftarrow> (if k \<noteq> 0 then st d (len - k) 0 else Some d);
                 Some (srclen, Some d) }))"

section \<open>The simple loops\<close>

lemma all_from_eq: "i + k \<le> length s \<Longrightarrow> all_from P s i k = Some (\<forall>c \<in> set (take k (drop i s)). P c)"
proof (induction k arbitrary: i)
  case (Suc k)
  then show ?case by (simp add: ld_in take_drop_Suc)
qed simp

lemma is_printable_string_spec:
  "unat len \<le> length str \<Longrightarrow> is_printable_string str len = Some (\<forall>c \<in> set (take (unat len) str). 0x20 \<le> c \<and> c \<le> 0x7E)"
  by (simp add: is_printable_string_def all_from_eq isprint_def)

lemma is_zeroes_buffer_spec:
  assumes "unat n \<le> length buf"
  shows "is_zeroes_buffer buf n = Some (take (unat n) buf = replicate (unat n) 0)"
  using assms by (auto simp: is_zeroes_buffer_def all_from_eq min_absorb2 intro!: replicate_eqI dest: in_set_takeD)

lemma os_xor_loop_eq:
  "n \<le> length dst \<Longrightarrow> n \<le> length src1 \<Longrightarrow> n \<le> length src2 \<Longrightarrow>
     os_xor_loop dst src1 src2 n = Some (map2 (XOR) (take n src1) (take n src2) @ drop n dst)"
proof (induction n arbitrary: dst)
  case (Suc n)
  have "os_xor_loop (dst[n := src1 ! n XOR src2 ! n]) src1 src2 n =
      Some (map2 (XOR) (take n src1) (take n src2) @ drop n (dst[n := src1 ! n XOR src2 ! n]))"
    using Suc.prems by (intro Suc.IH) simp_all
  moreover have "drop n (dst[n := src1 ! n XOR src2 ! n]) = (src1 ! n XOR src2 ! n) # drop (Suc n) dst"
    using Suc.prems by (simp add: Cons_nth_drop_Suc [symmetric])
  ultimately show ?case
    using Suc.prems by (simp add: ld_in st_in take_Suc_conv_app_nth)
qed simp

lemma os_memcmp_loop_eq:
  "n \<le> length src1 \<Longrightarrow> n \<le> length src2 \<Longrightarrow>
     \<exists>r. os_memcmp_loop src1 src2 acc n = Some r \<and> (r = 0) = (acc = 0 \<and> take n src1 = take n src2)"
proof (induction n arbitrary: acc)
  case (Suc n)
  have o: "(acc OR (a XOR b) = 0) = (acc = 0 \<and> a = b)" for a b :: u8
    by (auto simp: bit_eq_iff bit_simps)
  show ?case
    using Suc.prems Suc.IH [of "acc OR (src1 ! n XOR src2 ! n)"]
    by (auto simp: ld_in o take_Suc_conv_app_nth)
qed simp

lemma os_secure_memcmp_spec:
  assumes "unat len \<le> length src1" "unat len \<le> length src2"
  shows "\<exists>r. os_secure_memcmp src1 src2 len = Some r \<and> (r = 0) = (take (unat len) src1 = take (unat len) src2)"
  using os_memcmp_loop_eq [OF assms, of 0] by (simp add: os_secure_memcmp_def)

definition hex_pairs :: "bytes \<Rightarrow> bytes \<Rightarrow> bytes" where
  "hex_pairs hex bs = concat (map (\<lambda>b. [hex ! (unat b div 16), hex ! (unat b mod 16)]) bs)"

lemma hex_pairs_simps [simp]:
  "hex_pairs hex [] = []" "hex_pairs hex (b # bs) = hex ! (unat b div 16) # hex ! (unat b mod 16) # hex_pairs hex bs"
  "length (hex_pairs hex bs) = 2 * length bs"
  by (simp_all add: hex_pairs_def) (induction bs, simp_all)

lemma to_hex_loop_eq:
  assumes "length hex = 16"
  shows "i + k \<le> length bs \<Longrightarrow> p + 2 * k \<le> length out \<Longrightarrow>
    to_hex_loop hex out p bs i k =
      Some (take p out @ hex_pairs hex (take k (drop i bs)) @
            drop (p + 2 * k) out, p + 2 * k)"
proof (induction k arbitrary: i p out)
  case (Suc k)
  have n: "unat (drop_bit 4 b AND 0xF) = unat b div 16" "unat (b AND 0xF) = unat b mod 16" for b :: u8
    using hex_nibbles [of b] hex_nibbles(2) [of "drop_bit 4 b"] by simp_all
  let ?o = "out[p := hex ! (unat (bs ! i) div 16), p + 1 := hex ! (unat (bs ! i) mod 16)]"
  have "to_hex_loop hex out p bs i (Suc k) = to_hex_loop hex ?o (p + 2) bs (i + 1) k"
    using Suc.prems assms unat_bound8 [of "bs ! i"] by (simp add: ld_in st_in n hex_nibbles)
  moreover have "take (p + 2) ?o = take p out @ [hex ! (unat (bs ! i) div 16), hex ! (unat (bs ! i) mod 16)]"
    using Suc.prems by (simp add: take_Suc_conv_app_nth)
  ultimately show ?case
    using Suc.prems Suc.IH [of "i + 1" "p + 2" ?o] by (simp add: take_drop_Suc)
qed simp

lemma to_hex_spec:
  assumes "length hex = 16" "unat len < 2 ^ 31" "unat len \<le> length v" "unat outl \<le> length out" "0 < length out"
  shows "to_hex hex out outl v len =
     (if 2 * unat len < unat outl
      then Some (0, hex_pairs hex (take (unat len) v) @
                    0 # drop (2 * unat len + 1) out)
      else Some (- 1, out[0 := 0]))"
proof -
  have "unat (2 * len + 1) = 2 * unat len + 1"
    using assms(2) by (simp add: unat_word_ariths)
  then have c: "(outl < 2 * len + 1) = (\<not> 2 * unat len < unat outl)" by (auto simp: word_less_nat_alt)
  show ?thesis
  proof (cases "2 * unat len < unat outl")
    case True
    then show ?thesis
      using assms to_hex_loop_eq [OF assms(1), of 0 "unat len" v 0 out] c
      by (simp add: to_hex_def st_in list_update_append min_absorb2 Cons_nth_drop_Suc [symmetric])
  qed (use assms c in \<open>simp add: to_hex_def st_in\<close>)
qed

lemma strcmp_text:
  "0 \<notin> set s \<Longrightarrow> 0 \<notin> set t \<Longrightarrow> \<exists>r. strcmp (s @ 0 # x) (t @ 0 # y) = Some r \<and> (r = 0) = (s = t)"
proof (induction s arbitrary: t)
  case Nil
  then show ?case by (cases t) (auto simp: uint_0_iff)
next
  case (Cons a s)
  have n: "(int (unat a) - int (unat b) = 0) = (a = b)" for b by (auto simp: word_uint_eq_iff)
  show ?case
  proof (cases t)
    case Nil
    then show ?thesis using Cons.prems n [of 0] by simp
  next
    case (Cons b u)
    then show ?thesis using Cons.prems Cons.IH [of u] n [of b] by (cases "a = b") simp_all
  qed
qed

lemma strlcpy_text:
  assumes "0 \<notin> set s" "0 < n" "n \<le> length d"
  shows "strlcpy d (s @ 0 # x) n = Some (length s, take (n - 1) s @ 0 # drop (Suc (min (length s) (n - 1))) d)"
proof -
  let ?k = "min (length s) (n - 1)"
  have k: "?k < length d" using assms by simp
  then have "memcpy_n d 0 (s @ 0 # x) 0 ?k = Some (take (n - 1) s @ drop ?k d)"
    by (simp add: memcpy_n_in min_def)
  moreover have "st (take (n - 1) s @ drop ?k d) ?k 0 = Some (take (n - 1) s @ 0 # drop (Suc ?k) d)"
    using k by (simp add: st_in min.commute list_update_append Cons_nth_drop_Suc [symmetric])
  ultimately show ?thesis
    using assms by (simp add: strlcpy_def strlen_c_text)
qed

section \<open>Truncation at a character boundary\<close>

definition utf8_cont :: "u8 \<Rightarrow> bool" where
  "utf8_cont b = (0x80 \<le> b \<and> b < 0xC0)"

text \<open>The number of bytes a leading byte announces, and the encoded characters other than NUL.\<close>

definition utf8_size :: "u8 \<Rightarrow> nat" where
  "utf8_size b = (if b < 0x80 then 1 else if b < 0xE0 then 2 else if b < 0xF0 then 3 else 4)"

fun utf8_char :: "bytes \<Rightarrow> bool" where
  "utf8_char [] = False"
| "utf8_char (b # bs) =
     (b \<noteq> 0 \<and> \<not> utf8_cont b \<and> b < 0xF8 \<and> list_all utf8_cont bs \<and> Suc (length bs) = utf8_size b)"

lemma byte_high_bit: "(b AND 0x80 = 0) = (b < 0x80)" for b :: u8
  using byte_flag_iff(1) [of b] by (auto simp: word_less_nat_alt)

lemma utf8_scan_back:
  assumes "list_all utf8_cont cs" "0xC0 \<le> b" "take n data = s @ b # cs" "n \<le> length data"
  shows "utf8_scan data (n - 1) (data ! (n - 1)) = Some (Some (length s, b))"
  using assms
proof (induction cs arbitrary: n rule: rev_induct)
  case Nil
  then have "n = Suc (length s)" by (metis (no_types, lifting) length_append_singleton length_take min_absorb2)
  moreover have "data ! length s = b" using Nil by (metis calculation lessI nth_append_length nth_take)
  ultimately show ?case using Nil by (simp add: utf8_scan.simps not_less [symmetric])
next
  case (snoc c cs)
  have n: "n = Suc (Suc (length s + length cs))"
    using arg_cong [OF snoc.prems(3), of length] snoc.prems(4) by simp
  have c: "data ! (n - 1) = c"
    using arg_cong [OF snoc.prems(3), of "\<lambda>l. l ! (n - 1)"] n by (simp add: nth_append)
  have t: "take (n - 1) data = s @ b # cs"
    using arg_cong [OF snoc.prems(3), of "take (n - 1)"] n snoc.prems(4) by simp
  have "utf8_scan data (n - 1) c = utf8_scan data (n - 1 - 1) (data ! (n - 1 - 1))"
    using snoc.prems(1,4) n by (subst utf8_scan.simps) (auto simp: utf8_cont_def byte_high_bit ld_in not_less)
  also have "\<dots> = Some (Some (length s, b))"
    using snoc.IH [of "n - 1"] snoc.prems t by simp
  finally show ?case by (simp only: c)
qed

lemma find_invalid_lead:
  assumes "list_all utf8_cont cs" "0xC0 \<le> b" "take n data = s @ b # cs" "n \<le> length data"
  shows "find_invalid_trailing_bytes data n = Some (if Suc (length cs) < utf8_size b then Suc (length cs) else 0)"
proof -
  have n: "n = Suc (length s + length cs)"
    using arg_cong [OF assms(3), of length] assms(4) by simp
  have "data ! (n - 1) = (b # cs) ! length cs"
    using arg_cong [OF assms(3), of "\<lambda>l. l ! (n - 1)"] n by (simp add: nth_append)
  then have "0x80 \<le> data ! (n - 1)"
    using assms(1,2) by (cases cs rule: rev_cases) (auto simp: utf8_cont_def nth_append elim: order_trans [rotated])
  moreover have "\<not> b < 0x80" using assms(2) by (simp add: word_less_nat_alt word_le_nat_alt)
  moreover have "b < 0xE0 \<Longrightarrow> b < 0xF0" by (simp add: word_less_nat_alt)
  ultimately show ?thesis
    using utf8_scan_back [OF assms] assms(2,4) n
    by (auto simp: find_invalid_trailing_bytes_def ld_in byte_high_bit not_less [symmetric] utf8_size_def Let_def)
qed

lemma utf8_charE:
  assumes "utf8_char c"
  obtains b where "c = [b]" "b < 0x80"
    | b cs where "c = b # cs" "0xC0 \<le> b" "list_all utf8_cont cs" "Suc (length cs) = utf8_size b"
  using assms by (cases c) (auto simp: utf8_cont_def utf8_size_def not_le not_less split: if_splits)

lemma utf8_char_nonzero: "utf8_char c \<Longrightarrow> 0 \<notin> set c"
  by (cases c) (auto simp: utf8_cont_def list_all_iff)

lemma find_invalid_whole:
  assumes "list_all utf8_char cs" "take n data = concat cs" "n \<le> length data"
  shows "find_invalid_trailing_bytes data n = Some 0"
proof (cases cs rule: rev_cases)
  case Nil
  then show ?thesis using assms by (auto simp: find_invalid_trailing_bytes_def)
next
  case (snoc ds c)
  then have "utf8_char c" using assms(1) by simp
  then show ?thesis
  proof (cases rule: utf8_charE)
    case (1 b)
    then have n: "n = Suc (length (concat ds))"
      using arg_cong [OF assms(2), of length] snoc assms(3) by simp
    have "data ! (n - 1) = b"
      using arg_cong [OF assms(2), of "\<lambda>l. l ! (n - 1)"] n snoc 1 by (simp add: nth_append)
    then show ?thesis using 1 assms(3) n by (simp add: find_invalid_trailing_bytes_def ld_in byte_high_bit)
  next
    case (2 b bs)
    then show ?thesis using find_invalid_lead [of bs b n data "concat ds"] assms snoc by simp
  qed
qed

lemma find_invalid_part:
  assumes "utf8_char (p @ q)" "p \<noteq> []" "q \<noteq> []" "take n data = s @ p" "n \<le> length data"
  shows "find_invalid_trailing_bytes data n = Some (length p)"
  using assms(1)
proof (cases rule: utf8_charE)
  case (2 b cs)
  then obtain ps where p: "p = b # ps" "cs = ps @ q" using assms(2) by (cases p) auto
  then show ?thesis using find_invalid_lead [of ps b n data s] 2 assms(3-5) by (cases q) auto
qed (use assms(2,3) in \<open>auto simp: append_eq_Cons_conv\<close>)

lemma take_min: "take (min (length xs) n) xs = take n xs"
  by (simp add: min_def)

lemma concat_prefix:
  "n \<le> length (concat cs) \<Longrightarrow> \<exists>k p q. k \<le> length cs \<and> take n (concat cs) = concat (take k cs) @ p \<and>
     (k = length cs \<and> p = [] \<or> k < length cs \<and> cs ! k = p @ q \<and> q \<noteq> [])"
proof (induction cs arbitrary: n)
  case (Cons c cs)
  show ?case
  proof (cases "n < length c")
    case True
    then show ?thesis by (intro exI [of _ 0] exI [of _ "take n c"] exI [of _ "drop n c"]) simp
  next
    case False
    then obtain k p q where k: "k \<le> length cs" "take (n - length c) (concat cs) = concat (take k cs) @ p"
        "k = length cs \<and> p = [] \<or> k < length cs \<and> cs ! k = p @ q \<and> q \<noteq> []"
      using Cons.IH [of "n - length c"] Cons.prems by (elim exE conjE impE meta_impE) auto
    then show ?thesis using False by (intro exI [of _ "Suc k"] exI [of _ p] exI [of _ q]) auto
  qed
qed simp

section \<open>Properties\<close>

text \<open>Property C30.  \<open>strlcpy_utf8\<close> truncates at a character boundary: for a source of well-formed UTF-8 characters and a
  destination of the announced size it writes the longest prefix of whole characters that fits with its terminator, stays inside the
  destination and returns the length of the source.\<close>

theorem strlcpy_utf8_spec:
  assumes "list_all utf8_char cs" "0 < dstlen" "unat dstlen \<le> length d"
  shows "\<exists>k y. strlcpy_utf8 (Some d) (Some (concat cs @ 0 # x)) dstlen =
       Some (length (concat cs), Some (concat (take k cs) @ 0 # y)) \<and>
     length (concat (take k cs) @ 0 # y) = length d \<and> k \<le> length cs \<and> length (concat (take k cs)) < unat dstlen \<and>
     (k < length cs \<longrightarrow> unat dstlen \<le> length (concat (take (Suc k) cs)))"
proof -
  let ?src = "concat cs" and ?n = "min (unat dstlen - 1) (length (concat cs))"
  have z: "0 \<notin> set ?src" using assms(1) by (auto simp: list_all_iff dest: utf8_char_nonzero)
  have d0: "0 < unat dstlen" using assms(2) by (simp add: word_less_nat_alt)
  obtain k p q where k: "k \<le> length cs" "take ?n ?src = concat (take k cs) @ p"
      "k = length cs \<and> p = [] \<or> k < length cs \<and> cs ! k = p @ q \<and> q \<noteq> []"
    using concat_prefix [of ?n cs] by auto
  have n: "?n = length (concat (take k cs)) + length p" using arg_cong [OF k(2), of length] by simp
  let ?d = "take ?n ?src @ 0 # drop (Suc ?n) d"
  have c: "strlcpy d (?src @ 0 # x) (unat dstlen) = Some (length ?src, ?d)"
    using strlcpy_text [OF z d0 assms(3), of x] by (simp add: min.commute take_min)
  have ld: "length ?d = length d" using assms(3) d0 by auto
  have "take ?n ?d = take ?n ?src" by simp
  with k(2) have td: "take ?n ?d = concat (take k cs) @ p" by (simp only:)
  have nd: "?n \<le> length ?d" by simp
  have f: "find_invalid_trailing_bytes ?d ?n = Some (length p)"
  proof (cases "p = []")
    case True
    have "list_all utf8_char (take k cs)" using assms(1) by (auto simp: list_all_iff dest: in_set_takeD)
    from find_invalid_whole [OF this _ nd] show ?thesis using td True by simp
  next
    case False
    then have "utf8_char (p @ q)" "q \<noteq> []" using k(3) assms(1) by (auto simp: list_all_length)
    from find_invalid_part [OF this(1) False this(2) td nd] show ?thesis .
  qed
  have cut: "(if length p \<noteq> 0 then st ?d (?n - length p) 0 else Some ?d) =
      Some (concat (take k cs) @ 0 # drop (Suc (length (concat (take k cs)))) ?d)"
  proof (cases p)
    case Nil
    then show ?thesis using k(2) by (simp add: min.commute)
  next
    case (Cons c p')
    then show ?thesis using n k(2) by (simp add: st_in list_update_append)
  qed
  have "k < length cs \<longrightarrow> unat dstlen \<le> length (concat (take (Suc k) cs))"
  proof
    assume "k < length cs"
    then have q: "cs ! k = p @ q" "q \<noteq> []" using k(3) by auto
    then have l: "length (concat (take (Suc k) cs)) = ?n + length q"
      using n \<open>k < length cs\<close> by (simp add: take_Suc_conv_app_nth)
    have "length (concat (take (Suc k) cs)) \<le> length ?src"
      by (metis append_take_drop_id concat_append length_append le_add1)
    then show "unat dstlen \<le> length (concat (take (Suc k) cs))"
      using l q(2) by (cases q) auto
  qed
  moreover have "length (concat (take k cs)) < unat dstlen" using n d0 by linarith
  moreover have "length (concat (take k cs) @ 0 # drop (Suc (length (concat (take k cs)))) ?d) = length d"
    using ld n by simp
  moreover have "strlcpy_utf8 (Some d) (Some (?src @ 0 # x)) dstlen =
      Some (length ?src, Some (concat (take k cs) @ 0 # drop (Suc (length (concat (take k cs)))) ?d))"
    using assms(2) by (simp only: strlcpy_utf8_def option.case c f cut Let_def bind.simps prod.case word_gt_0) simp
  ultimately show ?thesis using k(1) by blast
qed

theorem strlcpy_utf8_spec_witness:
  "\<exists>k y. strlcpy_utf8 (Some [1, 1, 1, 1]) (Some (concat [[0x61], [0xE2, 0x82, 0xAC]] @ 0 # [])) 4 =
       Some (length (concat [[0x61 :: u8], [0xE2, 0x82, 0xAC]]), Some (concat (take k [[0x61], [0xE2, 0x82, 0xAC]]) @ 0 # y)) \<and>
     length (concat (take k [[0x61], [0xE2, 0x82, 0xAC]]) @ 0 # y) = length [1, 1, 1, 1 :: u8] \<and>
     k \<le> length [[0x61 :: u8], [0xE2, 0x82, 0xAC]] \<and>
     length (concat (take k [[0x61 :: u8], [0xE2, 0x82, 0xAC]])) < unat (4 :: size_t) \<and>
     (k < length [[0x61 :: u8], [0xE2, 0x82, 0xAC]] \<longrightarrow>
        unat (4 :: size_t) \<le> length (concat (take (Suc k) [[0x61 :: u8], [0xE2, 0x82, 0xAC]])))"
  by (rule strlcpy_utf8_spec) (simp_all add: utf8_cont_def utf8_size_def)

end
