(* ===== verification/Tlv_Use_Case.thy ===== *)
theory Tlv_Use_Case
  imports Tlv_Client Os_Utils Cx_Hmac
begin

text \<open>
  What the TLV use cases of \<^verbatim>\<open>lib_tlv/use_cases\<close> share: the macros they use, the sizes of a signature, and the
  progressive hash of the received items.
\<close>

section \<open>Shared operations\<close>

definition TLV_CHECK_RECEIVED_TAGS :: "TLV_reception_t \<Rightarrow> TLV_tag_t list \<Rightarrow> bool option" where
  "TLV_CHECK_RECEIVED_TAGS received tags = tlv_check_received_tags received tags (of_nat (length tags))"

definition CX_ASSERT :: "(cx_err_t \<times> 'a) option \<Rightarrow> 'a option" where
  "CX_ASSERT call = do { (e, r) \<leftarrow> call; if e = CX_OK then Some r else None }"

text \<open>Storing the result of an integer accessor through its out-parameter.\<close>

definition put_uint :: "'w option option \<Rightarrow> ('w \<Rightarrow> 'x) \<Rightarrow> 'x \<Rightarrow> (bool \<times> 'x) option" where
  "put_uint r upd x = do { v \<leftarrow> r; Some (case v of None \<Rightarrow> (False, x) | Some v \<Rightarrow> (True, upd v)) }"

definition buffer_zero :: buffer_t where "buffer_zero = \<lparr>b_ptr = [], b_size = 0, b_offset = 0\<rparr>"

definition DER_SIGNATURE_MIN_SIZE :: u16 where "DER_SIGNATURE_MIN_SIZE = 64"
definition DER_SIGNATURE_MAX_SIZE :: u16 where "DER_SIGNATURE_MAX_SIZE = 72"

section \<open>Hashing the items\<close>

lemma hash_update_entry:
  assumes "hash_rep CX_SHA256 m c" "data_ok d" "length m + length (entry_raw (entry_of d)) < 2 ^ 31"
  shows "\<exists>c'. CX_ASSERT (cx_hash_update c (Some (d_raw_ptr d)) (d_raw_size d)) = Some c' \<and>
    hash_rep CX_SHA256 (m @ entry_raw (entry_of d)) c'"
proof -
  have r: "entry_raw (entry_of d) = take (unat (d_raw_size d)) (d_raw_ptr d)" "unat (d_raw_size d) \<le> length (d_raw_ptr d)"
    using assms(2) by (simp_all add: entry_raw_def entry_of_def data_ok_def)
  then have "length m + unat (d_raw_size d) < 2 ^ 31" using assms(3) by simp
  then show ?thesis
    using hash_update_prefix [OF assms(1) r(2)] r(1) by (auto simp: CX_ASSERT_def hash_limit_def)
qed

lemma hash_final_signed:
  assumes "hash_rep CX_SHA256 m c" "length m < 2 ^ 31"
  shows "\<exists>c'. CX_ASSERT (cx_hash_final c (replicate 32 0)) = Some (c', hash_fn CX_SHA256 m) \<and>
    buf_holds (buffer_create (hash_fn CX_SHA256 m) 32) (hash_fn CX_SHA256 m)"
proof -
  have "hash_limit CX_SHA256 (length m)" using assms(2) by (simp add: hash_limit_def)
  from hash_final_rep [OF assms(1) this, of "replicate 32 0"] show ?thesis
    by (auto simp: CX_ASSERT_def hash_osize_def buf_holds_def buffer_create_def hash_fn_def length_fips_sha256)
qed

section \<open>Further facts on items\<close>

lemma str_holds_text: "text_item mn cap v \<Longrightarrow> str_holds (v @ 0 # r) v"
  by (auto simp: str_holds_def text_item_def)

lemma items_ok_distinct:
  assumes "distinct (map fst es)" "fst ` set es \<subseteq> fst ` set ts"
  shows "items_ok ts {} es"
proof -
  have "length (filter (\<lambda>e. fst e = t) es) \<le> 1" for t
    using assms(1) by (induction es) (auto simp: filter_empty_conv image_iff)
  then show ?thesis using assms(2) by (simp add: items_ok_def)
qed

end
