(* ===== verification/Tlv_Dynamic_Descriptor.thy ===== *)
theory Tlv_Dynamic_Descriptor
  imports Tlv_Use_Case
begin

text \<open>
  The token descriptor of \<^verbatim>\<open>lib_tlv/use_cases/tlv_use_case_dynamic_descriptor.c\<close>: a TLV payload is parsed by the generated
  parser, hashed item by item and accepted when its signature verifies.  The name of the running application is a
  build parameter.  A failed assertion ends the program; it is \<^term>\<open>None\<close>, as is an access outside an object.
\<close>

section \<open>Data\<close>

definition TYPE_DYNAMIC_TOKEN :: u8 where "TYPE_DYNAMIC_TOKEN = 0x90"

record tlv_dynamic_descriptor_out_t =
  dd_version :: u8
  dd_coin_type :: u32
  dd_magnitude :: u8
  dd_TUID :: buffer_t
  dd_ticker :: bytes

text \<open>\<open>hash_ctx\<close> is used through the abstract context only.\<close>

record dd_extracted_t =
  dx_output :: tlv_dynamic_descriptor_out_t
  dx_structure_type :: u8
  dx_application_name :: bytes
  dx_input_sig :: buffer_t
  dx_hash_ctx :: cx_hash_t

abbreviation (input) "TAG_STRUCTURE_TYPE \<equiv> (0x01 :: TLV_tag_t)"
abbreviation (input) "TAG_VERSION \<equiv> (0x02 :: TLV_tag_t)"
abbreviation (input) "TAG_COIN_TYPE \<equiv> (0x03 :: TLV_tag_t)"
abbreviation (input) "TAG_APPLICATION_NAME \<equiv> (0x04 :: TLV_tag_t)"
abbreviation (input) "TAG_TICKER \<equiv> (0x05 :: TLV_tag_t)"
abbreviation (input) "TAG_MAGNITUDE \<equiv> (0x06 :: TLV_tag_t)"
abbreviation (input) "TAG_TUID \<equiv> (0x07 :: TLV_tag_t)"
abbreviation (input) "TAG_SIGNATURE \<equiv> (0x08 :: TLV_tag_t)"

section \<open>Handlers\<close>

definition dd_handle_structure_type :: "tlv_data_t \<Rightarrow> dd_extracted_t \<Rightarrow> (bool \<times> dd_extracted_t) option" where
  "dd_handle_structure_type data x = put_uint (get_uint8_t_from_tlv_data (Some data)) (\<lambda>v. x\<lparr>dx_structure_type := v\<rparr>) x"

definition dd_handle_version :: "tlv_data_t \<Rightarrow> dd_extracted_t \<Rightarrow> (bool \<times> dd_extracted_t) option" where
  "dd_handle_version data x =
     put_uint (get_uint8_t_from_tlv_data (Some data)) (\<lambda>v. x\<lparr>dx_output := (dx_output x)\<lparr>dd_version := v\<rparr>\<rparr>) x"

definition dd_handle_coin_type :: "tlv_data_t \<Rightarrow> dd_extracted_t \<Rightarrow> (bool \<times> dd_extracted_t) option" where
  "dd_handle_coin_type data x =
     put_uint (get_uint32_t_from_tlv_data (Some data)) (\<lambda>v. x\<lparr>dx_output := (dx_output x)\<lparr>dd_coin_type := v\<rparr>\<rparr>) x"

definition dd_handle_application_name :: "tlv_data_t \<Rightarrow> dd_extracted_t \<Rightarrow> (bool \<times> dd_extracted_t) option" where
  "dd_handle_application_name data x = do {
     (ok, s) \<leftarrow> get_string_from_tlv_data (Some data) (dx_application_name x) 1 33;
     Some (ok, x\<lparr>dx_application_name := s\<rparr>) }"

definition dd_handle_ticker :: "tlv_data_t \<Rightarrow> dd_extracted_t \<Rightarrow> (bool \<times> dd_extracted_t) option" where
  "dd_handle_ticker data x = do {
     (ok, s) \<leftarrow> get_string_from_tlv_data (Some data) (dd_ticker (dx_output x)) 1 51;
     Some (ok, x\<lparr>dx_output := (dx_output x)\<lparr>dd_ticker := s\<rparr>\<rparr>) }"

definition dd_handle_magnitude :: "tlv_data_t \<Rightarrow> dd_extracted_t \<Rightarrow> (bool \<times> dd_extracted_t) option" where
  "dd_handle_magnitude data x =
     put_uint (get_uint8_t_from_tlv_data (Some data)) (\<lambda>v. x\<lparr>dx_output := (dx_output x)\<lparr>dd_magnitude := v\<rparr>\<rparr>) x"

definition dd_handle_tuid :: "tlv_data_t \<Rightarrow> dd_extracted_t \<Rightarrow> (bool \<times> dd_extracted_t) option" where
  "dd_handle_tuid data x =
     (case get_buffer_from_tlv_data (Some data) (dd_TUID (dx_output x)) 0 0 of
        (ok, b) \<Rightarrow> Some (ok, x\<lparr>dx_output := (dx_output x)\<lparr>dd_TUID := b\<rparr>\<rparr>))"

definition dd_handle_signature :: "tlv_data_t \<Rightarrow> dd_extracted_t \<Rightarrow> (bool \<times> dd_extracted_t) option" where
  "dd_handle_signature data x =
     (case get_buffer_from_tlv_data (Some data) (dx_input_sig x) DER_SIGNATURE_MIN_SIZE DER_SIGNATURE_MAX_SIZE of
        (ok, b) \<Rightarrow> Some (ok, x\<lparr>dx_input_sig := b\<rparr>))"

definition dd_handle_common :: "tlv_data_t \<Rightarrow> dd_extracted_t \<Rightarrow> (bool \<times> dd_extracted_t) option" where
  "dd_handle_common data x =
     (if d_tag data \<noteq> TAG_SIGNATURE then do {
        c \<leftarrow> CX_ASSERT (cx_hash_update (dx_hash_ctx x) (Some (d_raw_ptr data)) (d_raw_size data));
        Some (True, x\<lparr>dx_hash_ctx := c\<rparr>) }
      else Some (True, x))"

definition dd_tags :: "dd_extracted_t option tag_list" where
  "dd_tags =
     [(TAG_STRUCTURE_TYPE, tlv_cb dd_handle_structure_type, ENFORCE_UNIQUE_TAG),
      (TAG_VERSION, tlv_cb dd_handle_version, ENFORCE_UNIQUE_TAG),
      (TAG_COIN_TYPE, tlv_cb dd_handle_coin_type, ENFORCE_UNIQUE_TAG),
      (TAG_APPLICATION_NAME, tlv_cb dd_handle_application_name, ENFORCE_UNIQUE_TAG),
      (TAG_TICKER, tlv_cb dd_handle_ticker, ENFORCE_UNIQUE_TAG),
      (TAG_MAGNITUDE, tlv_cb dd_handle_magnitude, ENFORCE_UNIQUE_TAG),
      (TAG_TUID, tlv_cb dd_handle_tuid, ENFORCE_UNIQUE_TAG),
      (TAG_SIGNATURE, tlv_cb dd_handle_signature, ENFORCE_UNIQUE_TAG)]"

definition parse_dynamic_token_tag ::
  "buffer_t \<Rightarrow> dd_extracted_t option \<Rightarrow> (bool \<times> TLV_reception_t \<times> dd_extracted_t option) option" where
  "parse_dynamic_token_tag = define_tlv_parser dd_tags (tlv_cb dd_handle_common)"

section \<open>The use case\<close>

text \<open>The status codes 1 to 6 are those of \<open>tlv_dynamic_descriptor_status_t\<close>; \<open>0x80\<close> is the mask
  \<open>TLV_DYNAMIC_DESCRIPTOR_SIGNATURE_ERROR\<close>.\<close>

definition tlv_use_case_dynamic_descriptor ::
  "os_pki \<Rightarrow> bytes \<Rightarrow> buffer_t \<Rightarrow> tlv_dynamic_descriptor_out_t \<Rightarrow> (u32 \<times> tlv_dynamic_descriptor_out_t) option" where
  "tlv_use_case_dynamic_descriptor pki APPNAME payload out = do {
     let x = \<lparr>dx_output = out, dx_structure_type = 0, dx_application_name = replicate 33 0, dx_input_sig = buffer_zero,
              dx_hash_ctx = Sha256_ctx (snd cx_sha256_init_no_throw)\<rparr>;
     (ok, received_tags, x) \<leftarrow> parse_dynamic_token_tag payload (Some x);
     x \<leftarrow> x;
     if \<not> ok then Some (1, dx_output x)
     else do {
       t \<leftarrow> TLV_CHECK_RECEIVED_TAGS received_tags [TAG_STRUCTURE_TYPE];
       if \<not> t then Some (2, dx_output x)
       else if dx_structure_type x \<noteq> TYPE_DYNAMIC_TOKEN then Some (3, dx_output x)
       else do {
         t \<leftarrow> TLV_CHECK_RECEIVED_TAGS received_tags
               [TAG_VERSION, TAG_COIN_TYPE, TAG_APPLICATION_NAME, TAG_TICKER, TAG_MAGNITUDE, TAG_TUID, TAG_SIGNATURE];
         if \<not> t then Some (4, dx_output x)
         else do {
           c \<leftarrow> strcmp (dx_application_name x) (APPNAME @ [0]);
           if c \<noteq> 0 then Some (5, dx_output x)
           else if dd_version (dx_output x) = 0 \<or> dd_version (dx_output x) > 1 then Some (6, dx_output x)
           else do {
             (_, tlv_hash) \<leftarrow> CX_ASSERT (cx_hash_final (dx_hash_ctx x) (replicate 32 0));
             err \<leftarrow> check_signature_with_pki pki (buffer_create tlv_hash 32)
                     (Some CERTIFICATE_PUBLIC_KEY_USAGE_COIN_META) (Some CX_CURVE_SECP256K1) (dx_input_sig x);
             if err \<noteq> CHECK_SIGNATURE_WITH_PKI_SUCCESS then Some (0x80 OR err, dx_output x)
             else Some (0, dx_output x) } } } } }"

section \<open>Items and output\<close>

definition dd_valid :: "tlv_entry \<Rightarrow> bool" where
  "dd_valid e =
     (let v = entry_value e; t = fst e in
      if t = TAG_COIN_TYPE then uint_item 32 v
      else if t = TAG_APPLICATION_NAME then text_item 1 33 v
      else if t = TAG_TICKER then text_item 1 51 v
      else if t = TAG_TUID then True
      else if t = TAG_SIGNATURE then range_item 64 72 v
      else uint_item 8 v)"

definition dd_output :: "tlv_entry list \<Rightarrow> tlv_dynamic_descriptor_out_t \<Rightarrow> bool" where
  "dd_output es out =
     (length (dd_ticker out) = 51 \<and>
      (\<forall>v. tlv_vals es TAG_VERSION = Some v \<longrightarrow> unat (dd_version out) = be_val v) \<and>
      (\<forall>v. tlv_vals es TAG_COIN_TYPE = Some v \<longrightarrow> unat (dd_coin_type out) = be_val v) \<and>
      (\<forall>v. tlv_vals es TAG_MAGNITUDE = Some v \<longrightarrow> unat (dd_magnitude out) = be_val v) \<and>
      (\<forall>v. tlv_vals es TAG_TUID = Some v \<longrightarrow> buf_holds (dd_TUID out) v) \<and>
      (\<forall>v. tlv_vals es TAG_TICKER = Some v \<longrightarrow> str_holds (dd_ticker out) v))"

definition dd_fields :: "tlv_entry list \<Rightarrow> dd_extracted_t \<Rightarrow> bool" where
  "dd_fields es x =
     (dd_output es (dx_output x) \<and> length (dx_application_name x) = 33 \<and>
      (\<forall>v. tlv_vals es TAG_STRUCTURE_TYPE = Some v \<longrightarrow> unat (dx_structure_type x) = be_val v) \<and>
      (\<forall>v. tlv_vals es TAG_APPLICATION_NAME = Some v \<longrightarrow> str_holds (dx_application_name x) v) \<and>
      (\<forall>v. tlv_vals es TAG_SIGNATURE = Some v \<longrightarrow> buf_holds (dx_input_sig x) v))"

definition dd_rel :: "tlv_entry list \<Rightarrow> dd_extracted_t option \<Rightarrow> bool" where
  "dd_rel es s =
     (\<exists>x. s = Some x \<and> hash_rep CX_SHA256 (signed_bytes TAG_SIGNATURE es) (dx_hash_ctx x) \<and> dd_fields es x)"

lemma dd_common:
  assumes h: "hash_rep CX_SHA256 (signed_bytes TAG_SIGNATURE es) (dx_hash_ctx x)" and "data_ok d" "length (raw_bytes (es @ [entry_of d])) < 2 ^ 31"
  shows "\<exists>c. dd_handle_common d x = Some (True, x\<lparr>dx_hash_ctx := c\<rparr>) \<and>
    hash_rep CX_SHA256 (signed_bytes TAG_SIGNATURE (es @ [entry_of d])) c"
proof -
  have t: "fst (entry_of d) = d_tag d" by (simp add: entry_of_def)
  show ?thesis
  proof (cases "d_tag d = TAG_SIGNATURE")
    case True
    then show ?thesis using h t by (intro exI [of _ "dx_hash_ctx x"]) (simp add: dd_handle_common_def)
  next
    case False
    have "length (signed_bytes TAG_SIGNATURE es) + length (entry_raw (entry_of d)) < 2 ^ 31"
      using assms(3) signed_bytes_length [of TAG_SIGNATURE es] by simp
    from hash_update_entry [OF h assms(2) this] show ?thesis
      using False t by (auto simp: dd_handle_common_def)
  qed
qed

lemmas dd_handler_defs = dd_handle_structure_type_def dd_handle_version_def dd_handle_coin_type_def dd_handle_application_name_def
  dd_handle_ticker_def dd_handle_magnitude_def dd_handle_tuid_def dd_handle_signature_def put_uint_def
  DER_SIGNATURE_MIN_SIZE_def DER_SIGNATURE_MAX_SIZE_def

lemma dd_handler:
  assumes "(d_tag d, cb, u) \<in> set dd_tags" "data_ok d" "length (data_value d) < 65536" "dd_fields es x"
  shows "\<exists>f x'. cb = tlv_cb f \<and> f d x = Some (dd_valid (entry_of d), x') \<and> dx_hash_ctx x' = dx_hash_ctx x \<and>
    (dd_valid (entry_of d) \<longrightarrow> dd_fields (es @ [entry_of d]) x')"
proof -
  have e: "fst (entry_of d) = d_tag d" "entry_value (entry_of d) = data_value d"
    by (simp_all add: entry_of_def entry_value_def data_value_def)
  have s: "get_string_from_tlv_data (Some d) (dx_application_name x) 1 33 =
      Some (if text_item 1 33 (data_value d)
            then (True, data_value d @ 0 # drop (Suc (length (data_value d))) (dx_application_name x))
            else (False, dx_application_name x))"
    "get_string_from_tlv_data (Some d) (dd_ticker (dx_output x)) 1 51 =
      Some (if text_item 1 51 (data_value d)
            then (True, data_value d @ 0 # drop (Suc (length (data_value d))) (dd_ticker (dx_output x)))
            else (False, dd_ticker (dx_output x)))"
    using string_item_eq [OF assms(2,3), of 33 "dx_application_name x" 1]
      string_item_eq [OF assms(2,3), of 51 "dd_ticker (dx_output x)" 1] assms(4)
    by (simp_all add: dd_fields_def dd_output_def)
  obtain b1 where b1: "get_buffer_from_tlv_data (Some d) (dd_TUID (dx_output x)) 0 0 = (range_item 0 0 (data_value d), b1)"
      "range_item 0 0 (data_value d) \<longrightarrow> buf_holds b1 (data_value d)"
    using get_buffer_item [OF assms(2)] by blast
  obtain b2 where b2: "get_buffer_from_tlv_data (Some d) (dx_input_sig x) 64 72 = (range_item 64 72 (data_value d), b2)"
      "range_item 64 72 (data_value d) \<longrightarrow> buf_holds b2 (data_value d)"
    using get_buffer_item [OF assms(2)] by blast
  note facts = dd_handler_defs get_uint_items [OF assms(2)] s b1 b2 e dd_valid_def dd_fields_def dd_output_def unat_item str_holds_text
  consider "d_tag d = TAG_STRUCTURE_TYPE" "cb = tlv_cb dd_handle_structure_type"
    | "d_tag d = TAG_VERSION" "cb = tlv_cb dd_handle_version"
    | "d_tag d = TAG_COIN_TYPE" "cb = tlv_cb dd_handle_coin_type"
    | "d_tag d = TAG_APPLICATION_NAME" "cb = tlv_cb dd_handle_application_name"
    | "d_tag d = TAG_TICKER" "cb = tlv_cb dd_handle_ticker"
    | "d_tag d = TAG_MAGNITUDE" "cb = tlv_cb dd_handle_magnitude"
    | "d_tag d = TAG_TUID" "cb = tlv_cb dd_handle_tuid"
    | "d_tag d = TAG_SIGNATURE" "cb = tlv_cb dd_handle_signature"
    using assms(1) by (auto simp: dd_tags_def)
  then show ?thesis
  proof cases
    case 1
    then show ?thesis using assms(4) by (intro exI [of _ dd_handle_structure_type]) (auto simp: facts)
  next
    case 2
    then show ?thesis using assms(4) by (intro exI [of _ dd_handle_version]) (auto simp: facts)
  next
    case 3
    then show ?thesis using assms(4) by (intro exI [of _ dd_handle_coin_type]) (auto simp: facts)
  next
    case 4
    then show ?thesis using assms(4) by (intro exI [of _ dd_handle_application_name]) (auto simp: facts text_item_def)
  next
    case 5
    then show ?thesis using assms(4) by (intro exI [of _ dd_handle_ticker]) (auto simp: facts text_item_def)
  next
    case 6
    then show ?thesis using assms(4) by (intro exI [of _ dd_handle_magnitude]) (auto simp: facts)
  next
    case 7
    then show ?thesis using assms(4) b1 by (intro exI [of _ dd_handle_tuid]) (auto simp: facts range_item_def)
  next
    case 8
    then show ?thesis using assms(4) b2 by (intro exI [of _ dd_handle_signature]) (auto simp: facts)
  qed
qed

lemma dd_step:
  assumes "dd_rel es s" "data_ok d" "(d_tag d, cb, u) \<in> set dd_tags" "length (data_value d) < 65536"
    and "length (raw_bytes (es @ [entry_of d])) \<le> 2 ^ 31 - 1"
  shows "\<exists>s1 s2. call_handler (tlv_cb dd_handle_common) d fl s = (True, s1) \<and>
    call_handler cb d fl s1 = (dd_valid (entry_of d), s2) \<and> s2 \<noteq> None \<and>
    (dd_valid (entry_of d) \<longrightarrow> dd_rel (es @ [entry_of d]) s2)"
proof -
  obtain x where x: "s = Some x" "hash_rep CX_SHA256 (signed_bytes TAG_SIGNATURE es) (dx_hash_ctx x)" "dd_fields es x"
    using assms(1) by (auto simp: dd_rel_def)
  have "length (raw_bytes (es @ [entry_of d])) < 2 ^ 31" using assms(5) by simp
  from dd_common [OF x(2) assms(2) this] obtain c where c: "dd_handle_common d x = Some (True, x\<lparr>dx_hash_ctx := c\<rparr>)"
      "hash_rep CX_SHA256 (signed_bytes TAG_SIGNATURE (es @ [entry_of d])) c" by blast
  have "dd_fields es (x\<lparr>dx_hash_ctx := c\<rparr>)" using x(3) by (simp add: dd_fields_def)
  from dd_handler [OF assms(3,2,4) this] obtain f x' where f: "cb = tlv_cb f"
      "f d (x\<lparr>dx_hash_ctx := c\<rparr>) = Some (dd_valid (entry_of d), x')" "dx_hash_ctx x' = c"
      "dd_valid (entry_of d) \<longrightarrow> dd_fields (es @ [entry_of d]) x'" by auto
  show ?thesis
    using call_tlv_cb [of dd_handle_common, OF c(1)] call_tlv_cb [of f, OF f(2)] f c(2) x(1) by (auto simp: dd_rel_def)
qed

interpretation dd: tlv_client dd_tags "tlv_cb dd_handle_common" dd_rel "\<lambda>s. s \<noteq> None" dd_valid "2 ^ 31 - 1"
proof
  show "distinct (map fst dd_tags)" "length dd_tags \<le> 64" by (simp_all add: dd_tags_def)
  show "out \<noteq> None" if "dd_rel es out" for es out using that by (auto simp: dd_rel_def)
qed (fact dd_step)

section \<open>Properties\<close>

text \<open>The verdict on a payload: the TLV items it consists of, their values, and the decision of the PKI on the SHA-256 hash of all
  items but the signature.\<close>

definition dd_verdict :: "os_pki \<Rightarrow> bytes \<Rightarrow> tlv_entry list \<Rightarrow> u32" where
  "dd_verdict pki APPNAME es =
     (let val = (\<lambda>t. the (tlv_vals es t)) in
      if \<not> good_items dd_tags dd_valid {} es then 1
      else if TAG_STRUCTURE_TYPE \<notin> dom (tlv_vals es) then 2
      else if be_val (val TAG_STRUCTURE_TYPE) \<noteq> 0x90 then 3
      else if \<not> {TAG_VERSION, TAG_COIN_TYPE, TAG_APPLICATION_NAME, TAG_TICKER, TAG_MAGNITUDE, TAG_TUID, TAG_SIGNATURE} \<subseteq> dom (tlv_vals es)
        then 4
      else if val TAG_APPLICATION_NAME \<noteq> APPNAME then 5
      else if be_val (val TAG_VERSION) \<noteq> 1 then 6
      else
        let d = pki_decision pki CERTIFICATE_PUBLIC_KEY_USAGE_COIN_META CX_CURVE_SECP256K1
                  (hash_fn CX_SHA256 (signed_bytes TAG_SIGNATURE es)) (val TAG_SIGNATURE)
        in if d = 0 then 0 else 0x80 OR d)"

text \<open>Property C16.  The token descriptor: for every payload below 2 GiB the use case returns without a failed assertion or an
  out-of-bounds access, and its status is the verdict on the items of the payload.  Success thus means that the
  payload is a gapless sequence of known items, each tag present exactly once with a valid value, that type, version and application name
  match, and that the PKI verified the signature item, with a certificate of the right usage and curve, on the
  FIPS 180-4 hash of all other bytes of the payload; the output then holds the received values.\<close>

theorem dynamic_descriptor_spec:
  assumes "payload_ok p" "pki_wf pki" "0 \<notin> set APPNAME" "length (dd_ticker out) = 51"
  shows "\<exists>out'. tlv_use_case_dynamic_descriptor pki APPNAME p out =
       Some (case tlv_split (b_ptr p) of None \<Rightarrow> 1 | Some es \<Rightarrow> dd_verdict pki APPNAME es, out') \<and>
     (\<forall>es. tlv_split (b_ptr p) = Some es \<longrightarrow> dd_verdict pki APPNAME es = 0 \<longrightarrow> dd_output es out')"
proof -
  let ?x = "\<lparr>dx_output = out, dx_structure_type = 0, dx_application_name = replicate 33 0, dx_input_sig = buffer_zero,
              dx_hash_ctx = Sha256_ctx (snd cx_sha256_init_no_throw)\<rparr>"
  have "hash_rep CX_SHA256 [] (Sha256_ctx (snd cx_sha256_init_no_throw))"
    using hash_init_rep [of CX_SHA256] by (simp add: hash_allowed_def cx_hash_init_def cx_hash_get_info_def hash_init_func_def)
  then have R: "dd_rel [] (Some ?x)" using assms(4) by (simp add: dd_rel_def dd_fields_def dd_output_def)
  have sz: "length (b_ptr p) = unat (b_size p)" "unat (b_size p) < 2 ^ 31" using assms(1) by (simp_all add: payload_ok_def)
  then have "unat (b_size p) \<le> 2 ^ 31 - 1" by simp
  from dd.parser_spec [OF R assms(1) this] obtain ok rcv s where
      r: "parse_dynamic_token_tag p (Some ?x) = Some (ok, rcv, s)" "s \<noteq> None"
        "ok = (\<exists>es. tlv_split (b_ptr p) = Some es \<and> good_items dd_tags dd_valid {} es)"
        "\<forall>es. ok \<longrightarrow> tlv_split (b_ptr p) = Some es \<longrightarrow> dd_rel es s \<and>
          (\<forall>tags. length tags < 2 ^ 32 \<longrightarrow>
             tlv_check_received_tags rcv tags (of_nat (length tags)) = Some (set tags \<subseteq> dom (tlv_vals es)))"
    unfolding parse_dynamic_token_tag_def by blast
  show ?thesis
  proof (cases ok)
    case False
    then have "(case tlv_split (b_ptr p) of None \<Rightarrow> 1 | Some es \<Rightarrow> dd_verdict pki APPNAME es) = 1"
      using r(3) by (auto simp: dd_verdict_def split: option.splits)
    then show ?thesis using r(1,2,3) False by (auto simp: tlv_use_case_dynamic_descriptor_def dd_verdict_def)
  next
    case True
    then obtain es where es: "tlv_split (b_ptr p) = Some es" "good_items dd_tags dd_valid {} es" using r(3) by blast
    obtain x where x: "s = Some x" "hash_rep CX_SHA256 (signed_bytes TAG_SIGNATURE es) (dx_hash_ctx x)" "dd_fields es x"
      using r(4) True es(1) by (auto simp: dd_rel_def)
    have tg: "TLV_CHECK_RECEIVED_TAGS rcv tags = Some (set tags \<subseteq> dom (tlv_vals es))" if "length tags < 2 ^ 32" for tags
      using r(4) True es(1) that by (simp add: TLV_CHECK_RECEIVED_TAGS_def)
    have "length (signed_bytes TAG_SIGNATURE es) < 2 ^ 31"
      using signed_bytes_length [of TAG_SIGNATURE es] raw_bytes_split [OF es(1)] sz by simp
    from hash_final_signed [OF x(2) this] obtain c' where c': "CX_ASSERT (cx_hash_final (dx_hash_ctx x) (replicate 32 0)) =
          Some (c', hash_fn CX_SHA256 (signed_bytes TAG_SIGNATURE es))"
        "buf_holds (buffer_create (hash_fn CX_SHA256 (signed_bytes TAG_SIGNATURE es)) 32)
          (hash_fn CX_SHA256 (signed_bytes TAG_SIGNATURE es))" by blast
    have st: "TAG_STRUCTURE_TYPE \<in> dom (tlv_vals es) \<Longrightarrow>
        (dx_structure_type x = TYPE_DYNAMIC_TOKEN) = (be_val (the (tlv_vals es TAG_STRUCTURE_TYPE)) = 0x90)"
      using x(3) by (auto simp: dd_fields_def TYPE_DYNAMIC_TOKEN_def word_unat_eq_iff)
    have vs: "TAG_VERSION \<in> dom (tlv_vals es) \<Longrightarrow>
        (dd_version (dx_output x) = 0 \<or> dd_version (dx_output x) > 1) = (be_val (the (tlv_vals es TAG_VERSION)) \<noteq> 1)"
      using x(3) by (auto simp: dd_fields_def dd_output_def word_unat_eq_iff word_less_nat_alt)
    have nm: "TAG_APPLICATION_NAME \<in> dom (tlv_vals es) \<Longrightarrow>
        \<exists>c. strcmp (dx_application_name x) (APPNAME @ [0]) = Some c \<and> (c = 0) = (the (tlv_vals es TAG_APPLICATION_NAME) = APPNAME)"
      using x(3) strcmp_text [OF _ assms(3)] by (auto simp: dd_fields_def str_holds_def)
    have sg: "TAG_SIGNATURE \<in> dom (tlv_vals es) \<Longrightarrow>
        check_signature_with_pki pki (buffer_create (hash_fn CX_SHA256 (signed_bytes TAG_SIGNATURE es)) 32)
          (Some CERTIFICATE_PUBLIC_KEY_USAGE_COIN_META) (Some CX_CURVE_SECP256K1) (dx_input_sig x) =
        Some (pki_decision pki CERTIFICATE_PUBLIC_KEY_USAGE_COIN_META CX_CURVE_SECP256K1
          (hash_fn CX_SHA256 (signed_bytes TAG_SIGNATURE es)) (the (tlv_vals es TAG_SIGNATURE)))"
      using x(3) check_signature_spec [OF assms(2) c'(2)] by (auto simp: dd_fields_def)
    have "tlv_use_case_dynamic_descriptor pki APPNAME p out = Some (dd_verdict pki APPNAME es, dx_output x)"
    proof (cases "TAG_STRUCTURE_TYPE \<in> dom (tlv_vals es) \<and>
        {TAG_VERSION, TAG_COIN_TYPE, TAG_APPLICATION_NAME, TAG_TICKER, TAG_MAGNITUDE, TAG_TUID, TAG_SIGNATURE} \<subseteq> dom (tlv_vals es)")
      case False
      then show ?thesis
        using r(1) True x(1) es(2) st
        by (simp add: tlv_use_case_dynamic_descriptor_def dd_verdict_def Let_def tg)
    next
      case True
      then obtain c where c: "strcmp (dx_application_name x) (APPNAME @ [0]) = Some c"
          "(c = 0) = (the (tlv_vals es TAG_APPLICATION_NAME) = APPNAME)" using nm by auto
      show ?thesis
        using r(1) \<open>ok\<close> x(1) es(2) st vs sg True c'(1) c
        by (simp add: tlv_use_case_dynamic_descriptor_def dd_verdict_def Let_def tg CHECK_SIGNATURE_WITH_PKI_SUCCESS_def)
    qed
    then show ?thesis using es(1) x(3) by (auto simp: dd_fields_def)
  qed
qed

definition dd_demo_items :: "(TLV_tag_t \<times> bytes) list" where
  "dd_demo_items =
     [(1, [0x90]), (2, [1]), (3, [5]), (4, [0x41]), (5, [0x42]), (6, [2]), (7, []), (8, replicate 64 0)]"

definition dd_demo_pki :: os_pki where
  "dd_demo_pki = \<lparr>pki_error = 0, pki_key_usage = 0x08, pki_name = [], pki_curve = 0x21,
     pki_verify = (\<lambda>h s. length h = 32 \<and> s = replicate 64 0)\<rparr>"

lemma dd_demo_split:
  "tlv_split (concat (map tlv_enc dd_demo_items)) = Some (map (\<lambda>e. (fst e, snd e, tlv_enc e)) dd_demo_items)"
  by (rule tlv_split_enc) (simp add: dd_demo_items_def)

lemma dd_demo_verdict:
  "dd_verdict dd_demo_pki [0x41] (map (\<lambda>e. (fst e, snd e, tlv_enc e)) dd_demo_items) = 0"
proof -
  let ?es = "map (\<lambda>e. (fst e, snd e, tlv_enc e)) dd_demo_items"
  have "good_items dd_tags dd_valid {} ?es"
    by (auto simp: good_items_def dd_demo_items_def dd_tags_def dd_valid_def entry_value_def uint_item_def text_item_def range_item_def
        intro!: items_ok_distinct)
  moreover have "tlv_vals ?es = [1 \<mapsto> [0x90], 2 \<mapsto> [1], 3 \<mapsto> [5], 4 \<mapsto> [0x41], 5 \<mapsto> [0x42], 6 \<mapsto> [2], 7 \<mapsto> [], 8 \<mapsto> replicate 64 0]"
    by (simp add: tlv_vals_def dd_demo_items_def entry_value_def)
  moreover have "length (hash_fn CX_SHA256 m) = 32" for m by (simp add: hash_fn_def length_fips_sha256)
  ultimately show ?thesis
    by (simp add: dd_verdict_def dd_demo_pki_def pki_decision_def CERTIFICATE_PUBLIC_KEY_USAGE_COIN_META_def CX_CURVE_SECP256K1_def)
qed

theorem dynamic_descriptor_spec_witness:
  "\<exists>out'. tlv_use_case_dynamic_descriptor dd_demo_pki [0x41]
       (buffer_create (concat (map tlv_enc dd_demo_items)) (of_nat (length (concat (map tlv_enc dd_demo_items)))))
       \<lparr>dd_version = 0, dd_coin_type = 0, dd_magnitude = 0, dd_TUID = buffer_zero, dd_ticker = replicate 51 0\<rparr> = Some (0, out') \<and>
     unat (dd_coin_type out') = 5 \<and> str_holds (dd_ticker out') [0x42]"
proof -
  let ?bs = "concat (map tlv_enc dd_demo_items)"
  let ?out = "\<lparr>dd_version = 0, dd_coin_type = 0, dd_magnitude = 0, dd_TUID = buffer_zero, dd_ticker = replicate 51 0\<rparr>"
  have l: "length ?bs = 86" by (simp add: dd_demo_items_def tlv_enc_def der_enc_def)
  have p: "payload_ok (buffer_create ?bs (of_nat (length ?bs)))" by (simp add: payload_ok_def buffer_create_def l)
  have v: "tlv_vals (map (\<lambda>e. (fst e, snd e, tlv_enc e)) dd_demo_items) 3 = Some [5]"
    "tlv_vals (map (\<lambda>e. (fst e, snd e, tlv_enc e)) dd_demo_items) 5 = Some [0x42]"
    by (simp_all add: tlv_vals_def dd_demo_items_def entry_value_def)
  show ?thesis
    using dynamic_descriptor_spec [OF p, of dd_demo_pki "[0x41]" ?out] dd_demo_split dd_demo_verdict v
    by (auto simp: pki_wf_def dd_demo_pki_def CERTIFICATE_TRUSTED_NAME_MAXLEN_def buffer_create_def dd_output_def)
qed

end
