(* ===== verification/Tlv_Trusted_Name.thy ===== *)
theory Tlv_Trusted_Name
  imports Tlv_Use_Case
begin

text \<open>
  The trusted name descriptor of \<^verbatim>\<open>lib_tlv/use_cases/tlv_use_case_trusted_name.c\<close>: five hashes of the payload are computed in
  parallel, and the algorithm item selects the one whose signature is checked.
\<close>

section \<open>Hashing with all algorithms\<close>

text \<open>The five contexts are used through the abstract context only.\<close>

record multi_hash_ctx_t =
  mh_sha256 :: cx_hash_t
  mh_sha3_256 :: cx_hash_t
  mh_keccak_256 :: cx_hash_t
  mh_ripemd160 :: cx_hash_t
  mh_sha512 :: cx_hash_t

definition init_multi_hash_ctx :: "multi_hash_ctx_t option" where
  "init_multi_hash_ctx = do {
     a \<leftarrow> CX_ASSERT (Some cx_sha256_init_no_throw);
     b \<leftarrow> CX_ASSERT (Some (cx_sha3_init_no_throw (32 * 8)));
     b \<leftarrow> b;
     c \<leftarrow> CX_ASSERT (Some (cx_keccak_init_no_throw (32 * 8)));
     c \<leftarrow> c;
     d \<leftarrow> CX_ASSERT (Some cx_ripemd160_init_no_throw);
     e \<leftarrow> CX_ASSERT (Some cx_sha512_init_no_throw);
     Some \<lparr>mh_sha256 = Sha256_ctx a, mh_sha3_256 = Sha3_ctx b, mh_keccak_256 = Sha3_ctx c, mh_ripemd160 = Ripemd160_ctx d,
           mh_sha512 = Sha512_ctx e\<rparr> }"

definition update_multi_hash_ctx :: "multi_hash_ctx_t \<Rightarrow> bytes \<Rightarrow> size_t \<Rightarrow> multi_hash_ctx_t option" where
  "update_multi_hash_ctx ctx ptr sz = do {
     a \<leftarrow> CX_ASSERT (cx_hash_update (mh_sha256 ctx) (Some ptr) sz);
     b \<leftarrow> CX_ASSERT (cx_hash_update (mh_sha3_256 ctx) (Some ptr) sz);
     c \<leftarrow> CX_ASSERT (cx_hash_update (mh_keccak_256 ctx) (Some ptr) sz);
     d \<leftarrow> CX_ASSERT (cx_hash_update (mh_ripemd160 ctx) (Some ptr) sz);
     e \<leftarrow> CX_ASSERT (cx_hash_update (mh_sha512 ctx) (Some ptr) sz);
     Some \<lparr>mh_sha256 = a, mh_sha3_256 = b, mh_keccak_256 = c, mh_ripemd160 = d, mh_sha512 = e\<rparr> }"

text \<open>\<open>mem\<close> is the content of the uninitialised union of 64 bytes the digest is written to.  The result is the return value and
  the buffer on the digest.\<close>

definition finalize_hash_for_algo :: "multi_hash_ctx_t \<Rightarrow> u8 \<Rightarrow> bytes \<Rightarrow> (int \<times> buffer_t) option" where
  "finalize_hash_for_algo ctx signer_algo mem =
     (let sel = (if signer_algo = 0x01 then Some (mh_sha256 ctx, 32)
                 else if signer_algo = 0x02 \<or> signer_algo = 0x18 then Some (mh_sha3_256 ctx, 32)
                 else if signer_algo = 0x03 \<or> signer_algo = 0x17 then Some (mh_keccak_256 ctx, 32)
                 else if signer_algo = 0x04 then Some (mh_ripemd160 ctx, 20)
                 else if signer_algo = 0x16 then Some (mh_sha512 ctx, 64)
                 else None)
      in case sel of
           None \<Rightarrow> Some (- 1, buffer_zero)
         | Some (hash, sz) \<Rightarrow> do {
             (e, _, mem) \<leftarrow> cx_hash_final hash mem;
             if e \<noteq> CX_OK then Some (- 1, buffer_create mem sz) else Some (0, buffer_create mem sz) })"

section \<open>Data\<close>

record semver_t =
  sv_major :: u8
  sv_minor :: u8
  sv_patch :: u16

record tlv_trusted_name_out_t =
  tn_version :: u8
  tn_trusted_name_type :: u8
  tn_trusted_name_source :: u8
  tn_trusted_name :: buffer_t
  tn_chain_id :: u64
  tn_address :: buffer_t
  tn_nft_id :: buffer_t
  tn_source_contract :: buffer_t
  tn_challenge :: u32
  tn_not_valid_after :: semver_t
  tn_blockchain_family :: u8
  tn_nft_id_received :: bool
  tn_source_contract_received :: bool
  tn_challenge_received :: bool
  tn_not_valid_after_received :: bool
  tn_blockchain_family_received :: bool

record tn_extracted_t =
  tx_output :: tlv_trusted_name_out_t
  tx_structure_type :: u8
  tx_signer_key_id :: u16
  tx_signer_algo :: u8
  tx_input_sig :: buffer_t
  tx_hash_ctx :: multi_hash_ctx_t

abbreviation (input) "TN_STRUCTURE_TYPE \<equiv> (0x01 :: TLV_tag_t)"
abbreviation (input) "TN_VERSION \<equiv> (0x02 :: TLV_tag_t)"
abbreviation (input) "TN_NAME_TYPE \<equiv> (0x70 :: TLV_tag_t)"
abbreviation (input) "TN_NAME_SOURCE \<equiv> (0x71 :: TLV_tag_t)"
abbreviation (input) "TN_BLOCKCHAIN_FAMILY \<equiv> (0x51 :: TLV_tag_t)"
abbreviation (input) "TN_NAME \<equiv> (0x20 :: TLV_tag_t)"
abbreviation (input) "TN_CHAIN_ID \<equiv> (0x23 :: TLV_tag_t)"
abbreviation (input) "TN_ADDRESS \<equiv> (0x22 :: TLV_tag_t)"
abbreviation (input) "TN_NFT_ID \<equiv> (0x72 :: TLV_tag_t)"
abbreviation (input) "TN_SOURCE_CONTRACT \<equiv> (0x73 :: TLV_tag_t)"
abbreviation (input) "TN_CHALLENGE \<equiv> (0x12 :: TLV_tag_t)"
abbreviation (input) "TN_NOT_VALID_AFTER \<equiv> (0x10 :: TLV_tag_t)"
abbreviation (input) "TN_SIGNER_KEY_ID \<equiv> (0x13 :: TLV_tag_t)"
abbreviation (input) "TN_SIGNER_ALGORITHM \<equiv> (0x14 :: TLV_tag_t)"
abbreviation (input) "TN_DER_SIGNATURE \<equiv> (0x15 :: TLV_tag_t)"

section \<open>Handlers\<close>

type_synonym tn_handler = "tlv_data_t \<Rightarrow> tn_extracted_t \<Rightarrow> (bool \<times> tn_extracted_t) option"

definition tn_handle_structure_type :: tn_handler where
  "tn_handle_structure_type data x = put_uint (get_uint8_t_from_tlv_data (Some data)) (\<lambda>v. x\<lparr>tx_structure_type := v\<rparr>) x"

definition tn_handle_version :: tn_handler where
  "tn_handle_version data x =
     put_uint (get_uint8_t_from_tlv_data (Some data)) (\<lambda>v. x\<lparr>tx_output := (tx_output x)\<lparr>tn_version := v\<rparr>\<rparr>) x"

definition tn_handle_trusted_name_type :: tn_handler where
  "tn_handle_trusted_name_type data x =
     put_uint (get_uint8_t_from_tlv_data (Some data)) (\<lambda>v. x\<lparr>tx_output := (tx_output x)\<lparr>tn_trusted_name_type := v\<rparr>\<rparr>) x"

definition tn_handle_trusted_name_source :: tn_handler where
  "tn_handle_trusted_name_source data x =
     put_uint (get_uint8_t_from_tlv_data (Some data)) (\<lambda>v. x\<lparr>tx_output := (tx_output x)\<lparr>tn_trusted_name_source := v\<rparr>\<rparr>) x"

definition tn_handle_blockchain_family :: tn_handler where
  "tn_handle_blockchain_family data x =
     put_uint (get_uint8_t_from_tlv_data (Some data)) (\<lambda>v. x\<lparr>tx_output := (tx_output x)\<lparr>tn_blockchain_family := v\<rparr>\<rparr>) x"

definition tn_handle_trusted_name :: tn_handler where
  "tn_handle_trusted_name data x =
     (case get_buffer_from_tlv_data (Some data) (tn_trusted_name (tx_output x)) 1 64 of
        (ok, b) \<Rightarrow> Some (ok, x\<lparr>tx_output := (tx_output x)\<lparr>tn_trusted_name := b\<rparr>\<rparr>))"

definition tn_handle_chain_id :: tn_handler where
  "tn_handle_chain_id data x =
     put_uint (get_uint64_t_from_tlv_data (Some data)) (\<lambda>v. x\<lparr>tx_output := (tx_output x)\<lparr>tn_chain_id := v\<rparr>\<rparr>) x"

definition tn_handle_address :: tn_handler where
  "tn_handle_address data x =
     (case get_buffer_from_tlv_data (Some data) (tn_address (tx_output x)) 1 0 of
        (ok, b) \<Rightarrow> Some (ok, x\<lparr>tx_output := (tx_output x)\<lparr>tn_address := b\<rparr>\<rparr>))"

definition tn_handle_nft_id :: tn_handler where
  "tn_handle_nft_id data x =
     (case get_buffer_from_tlv_data (Some data) (tn_nft_id (tx_output x)) 32 32 of
        (ok, b) \<Rightarrow> Some (ok, x\<lparr>tx_output := (tx_output x)\<lparr>tn_nft_id := b\<rparr>\<rparr>))"

definition tn_handle_source_contract :: tn_handler where
  "tn_handle_source_contract data x =
     (case get_buffer_from_tlv_data (Some data) (tn_source_contract (tx_output x)) 1 0 of
        (ok, b) \<Rightarrow> Some (ok, x\<lparr>tx_output := (tx_output x)\<lparr>tn_source_contract := b\<rparr>\<rparr>))"

definition tn_handle_challenge :: tn_handler where
  "tn_handle_challenge data x =
     put_uint (get_uint32_t_from_tlv_data (Some data)) (\<lambda>v. x\<lparr>tx_output := (tx_output x)\<lparr>tn_challenge := v\<rparr>\<rparr>) x"

definition tn_handle_not_valid_after :: tn_handler where
  "tn_handle_not_valid_after data x =
     (if d_value_size data \<noteq> 4 then Some (False, x)
      else do {
        a \<leftarrow> ld (d_value_ptr data) 0;
        b \<leftarrow> ld (d_value_ptr data) 1;
        c \<leftarrow> U2BE (d_value_ptr data) 2;
        Some (True, x\<lparr>tx_output := (tx_output x)\<lparr>tn_not_valid_after := \<lparr>sv_major = a, sv_minor = b, sv_patch = c\<rparr>\<rparr>\<rparr>) })"

definition tn_handle_signer_key_id :: tn_handler where
  "tn_handle_signer_key_id data x = put_uint (get_uint16_t_from_tlv_data (Some data)) (\<lambda>v. x\<lparr>tx_signer_key_id := v\<rparr>) x"

definition tn_handle_signer_algorithm :: tn_handler where
  "tn_handle_signer_algorithm data x = put_uint (get_uint8_t_from_tlv_data (Some data)) (\<lambda>v. x\<lparr>tx_signer_algo := v\<rparr>) x"

definition tn_handle_der_signature :: tn_handler where
  "tn_handle_der_signature data x =
     (case get_buffer_from_tlv_data (Some data) (tx_input_sig x) DER_SIGNATURE_MIN_SIZE DER_SIGNATURE_MAX_SIZE of
        (ok, b) \<Rightarrow> Some (ok, x\<lparr>tx_input_sig := b\<rparr>))"

definition tn_handle_common :: tn_handler where
  "tn_handle_common data x =
     (if d_tag data \<noteq> TN_DER_SIGNATURE then do {
        c \<leftarrow> update_multi_hash_ctx (tx_hash_ctx x) (d_raw_ptr data) (d_raw_size data);
        Some (True, x\<lparr>tx_hash_ctx := c\<rparr>) }
      else Some (True, x))"

definition tn_tags :: "tn_extracted_t option tag_list" where
  "tn_tags =
     [(TN_STRUCTURE_TYPE, tlv_cb tn_handle_structure_type, ENFORCE_UNIQUE_TAG),
      (TN_VERSION, tlv_cb tn_handle_version, ENFORCE_UNIQUE_TAG),
      (TN_NAME_TYPE, tlv_cb tn_handle_trusted_name_type, ENFORCE_UNIQUE_TAG),
      (TN_NAME_SOURCE, tlv_cb tn_handle_trusted_name_source, ENFORCE_UNIQUE_TAG),
      (TN_BLOCKCHAIN_FAMILY, tlv_cb tn_handle_blockchain_family, ENFORCE_UNIQUE_TAG),
      (TN_NAME, tlv_cb tn_handle_trusted_name, ENFORCE_UNIQUE_TAG),
      (TN_CHAIN_ID, tlv_cb tn_handle_chain_id, ENFORCE_UNIQUE_TAG),
      (TN_ADDRESS, tlv_cb tn_handle_address, ENFORCE_UNIQUE_TAG),
      (TN_NFT_ID, tlv_cb tn_handle_nft_id, ENFORCE_UNIQUE_TAG),
      (TN_SOURCE_CONTRACT, tlv_cb tn_handle_source_contract, ENFORCE_UNIQUE_TAG),
      (TN_CHALLENGE, tlv_cb tn_handle_challenge, ENFORCE_UNIQUE_TAG),
      (TN_NOT_VALID_AFTER, tlv_cb tn_handle_not_valid_after, ENFORCE_UNIQUE_TAG),
      (TN_SIGNER_KEY_ID, tlv_cb tn_handle_signer_key_id, ENFORCE_UNIQUE_TAG),
      (TN_SIGNER_ALGORITHM, tlv_cb tn_handle_signer_algorithm, ENFORCE_UNIQUE_TAG),
      (TN_DER_SIGNATURE, tlv_cb tn_handle_der_signature, ENFORCE_UNIQUE_TAG)]"

definition parse_tlv_trusted_name ::
  "buffer_t \<Rightarrow> tn_extracted_t option \<Rightarrow> (bool \<times> TLV_reception_t \<times> tn_extracted_t option) option" where
  "parse_tlv_trusted_name = define_tlv_parser tn_tags (tlv_cb tn_handle_common)"

section \<open>Verification\<close>

text \<open>\<open>test_key\<close> says whether the build defines \<open>TRUSTED_NAME_TEST_KEY\<close>.  The status codes are those of
  \<open>tlv_trusted_name_status_t\<close>.\<close>

definition tn_verify_struct :: "bool \<Rightarrow> TLV_reception_t \<Rightarrow> tn_extracted_t \<Rightarrow> (u32 \<times> tn_extracted_t) option" where
  "tn_verify_struct test_key received_tags x = do {
     let valid_key_id = (if test_key then 0x00 else 0x07);
     t \<leftarrow> TLV_CHECK_RECEIVED_TAGS received_tags [TN_STRUCTURE_TYPE];
     if \<not> t then Some (2, x)
     else if tx_structure_type x \<noteq> 0x03 then Some (3, x)
     else do {
       t \<leftarrow> TLV_CHECK_RECEIVED_TAGS received_tags
             [TN_VERSION, TN_NAME_TYPE, TN_NAME_SOURCE, TN_NAME, TN_CHAIN_ID, TN_ADDRESS, TN_SIGNER_KEY_ID, TN_SIGNER_ALGORITHM,
              TN_DER_SIGNATURE];
       if \<not> t then Some (4, x)
       else do {
         a \<leftarrow> TLV_CHECK_RECEIVED_TAGS received_tags [TN_NFT_ID];
         b \<leftarrow> TLV_CHECK_RECEIVED_TAGS received_tags [TN_SOURCE_CONTRACT];
         c \<leftarrow> TLV_CHECK_RECEIVED_TAGS received_tags [TN_CHALLENGE];
         d \<leftarrow> TLV_CHECK_RECEIVED_TAGS received_tags [TN_NOT_VALID_AFTER];
         e \<leftarrow> TLV_CHECK_RECEIVED_TAGS received_tags [TN_BLOCKCHAIN_FAMILY];
         let out = (tx_output x)\<lparr>tn_nft_id_received := a, tn_source_contract_received := b, tn_challenge_received := c,
                                 tn_not_valid_after_received := d, tn_blockchain_family_received := e\<rparr>;
         let x = x\<lparr>tx_output := out\<rparr>;
         if tn_version out = 0 \<or> tn_version out > 3 then Some (5, x)
         else if tn_source_contract_received out \<and> tn_version out < 2 then Some (6, x)
         else if tx_signer_key_id x \<noteq> valid_key_id then Some (7, x)
         else Some (0, x) } } }"

definition tn_verify_signature :: "os_pki \<Rightarrow> bytes \<Rightarrow> tn_extracted_t \<Rightarrow> u32 option" where
  "tn_verify_signature pki mem x = do {
     (r, hash) \<leftarrow> finalize_hash_for_algo (tx_hash_ctx x) (tx_signer_algo x) mem;
     if r \<noteq> 0 then Some 8
     else do {
       let curve = (if tx_signer_algo x = 0x18 \<or> tx_signer_algo x = 0x17 then CX_CURVE_Ed25519 else CX_CURVE_SECP256K1);
       err \<leftarrow> check_signature_with_pki pki hash (Some CERTIFICATE_PUBLIC_KEY_USAGE_TRUSTED_NAME) (Some curve) (tx_input_sig x);
       Some (if err \<noteq> CHECK_SIGNATURE_WITH_PKI_SUCCESS then 0x80 OR err else 0) } }"

definition tlv_use_case_trusted_name ::
  "os_pki \<Rightarrow> bool \<Rightarrow> bytes \<Rightarrow> buffer_t \<Rightarrow> tlv_trusted_name_out_t \<Rightarrow> (u32 \<times> tlv_trusted_name_out_t) option" where
  "tlv_use_case_trusted_name pki test_key mem payload out = do {
     ctx \<leftarrow> init_multi_hash_ctx;
     (ok, received_tags, x) \<leftarrow> parse_tlv_trusted_name payload
        (Some \<lparr>tx_output = out, tx_structure_type = 0, tx_signer_key_id = 0, tx_signer_algo = 0, tx_input_sig = buffer_zero,
               tx_hash_ctx = ctx\<rparr>);
     x \<leftarrow> x;
     if \<not> ok then Some (1, tx_output x)
     else do {
       (err, x) \<leftarrow> tn_verify_struct test_key received_tags x;
       if err \<noteq> 0 then Some (err, tx_output x)
       else do {
         err \<leftarrow> tn_verify_signature pki mem x;
         if err \<noteq> 0 then Some (err, tx_output x) else Some (0, tx_output x) } } }"

section \<open>The hash contexts\<close>

lemma sha3_blocks_append:
  "sha3_blocks c bs l0 r d len = Some y \<Longrightarrow>
     sha3_blocks c bs l0 r (d @ x) len = Some (fst y, fst (snd y), fst (snd (snd y)) @ x, snd (snd (snd y)))"
proof (induction rule: sha3_blocks.raw_induct [rotated, consumes 1, case_names 1])
  case (1 f c bs l0 r d len y)
  show ?case
  proof (cases "s3_counter c = CX_HASH_MAX_BLOCK_COUNT")
    case True
    then show ?thesis using 1(2) by (subst sha3_blocks.simps) auto
  next
    case False
    then obtain b where b: "memcpy_n (s3_block c) (unat l0) d 0 (unat r) = Some b"
      using 1(2) by (auto split: bind_splits)
    show ?thesis
      using 1(2) memcpy_n_append [OF b, of x] b 1(1) False
      by (subst sha3_blocks.simps) (auto simp: Let_def split: if_splits)
  qed
qed

lemma sha3_rest_append: "sha3_rest c l0 d len = Some r \<Longrightarrow> sha3_rest c l0 (d @ x) len = Some r"
  using memcpy_n_append [of "s3_block c" "unat l0" d 0 "unat len" _ x] by (auto simp: sha3_rest_def split: bind_splits)

lemma cx_sha3_update_append:
  assumes "cx_sha3_update c (Some d) len = Some r"
  shows "cx_sha3_update c (Some (d @ x)) len = Some r"
proof -
  have a: "do { (e, ctx, data, len) \<leftarrow> sha3_blocks c' bs b0 r0 (d @ x) len;
                if e \<noteq> CX_OK then Some (e, ctx) else sha3_rest ctx 0 data len } = Some z"
    if h: "do { (e, ctx, data, len) \<leftarrow> sha3_blocks c' bs b0 r0 d len;
                if e \<noteq> CX_OK then Some (e, ctx) else sha3_rest ctx 0 data len } = Some z" for c' bs b0 r0 z
  proof -
    obtain e c2 d2 l2 where b: "sha3_blocks c' bs b0 r0 d len = Some (e, c2, d2, l2)"
      using h by (auto split: bind_splits)
    then show ?thesis
      using h sha3_blocks_append [OF b, of x] sha3_rest_append [of c2 0 d2 l2 z x] by (auto split: if_splits)
  qed
  show ?thesis
    using assms a sha3_rest_append [of _ _ d len r x] by (auto simp: cx_sha3_update_def Let_def split: if_splits)
qed

lemma xhash_update_prefix:
  assumes "xhash_rep (md, n) m c" "sha3_param md n \<noteq> None" "unat len \<le> length d" "unat len < 2 ^ 32 - 256"
    and "xhash_limit (md, n) (length m + unat len)"
  shows "\<exists>c'. cx_hash_update c (Some d) len = Some (CX_OK, c') \<and> xhash_rep (md, n) (m @ take (unat len) d) c'"
proof -
  have l: "length (take (unat len) d) = unat len" using assms(3) by simp
  obtain c' where c': "cx_hash_update c (Some (take (unat len) d)) len = Some (CX_OK, c')"
      "xhash_rep (md, n) (m @ take (unat len) d) c'"
    using xhash.upd_rep [OF assms(1), of "take (unat len) d"] assms(4,5) l by auto
  obtain k where k: "c = Sha3_ctx k" using assms(1,2) by (cases c) (auto simp: xhash_rep_def)
  obtain k' where k': "cx_sha3_update k (Some (take (unat len) d)) len = Some (CX_OK, k')" "c' = Sha3_ctx k'"
    using c'(1) k by (auto simp: cx_hash_update_def split: bind_splits)
  from cx_sha3_update_append [OF k'(1), of "drop (unat len) d"] show ?thesis
    using c'(2) k k'(2) by (simp add: cx_hash_update_def)
qed

definition mh_rep :: "bytes \<Rightarrow> multi_hash_ctx_t \<Rightarrow> bool" where
  "mh_rep m c =
     (hash_rep CX_SHA256 m (mh_sha256 c) \<and> xhash_rep (CX_SHA3, 32) m (mh_sha3_256 c) \<and> xhash_rep (CX_KECCAK, 32) m (mh_keccak_256 c) \<and>
      hash_rep CX_RIPEMD160 m (mh_ripemd160 c) \<and> hash_rep CX_SHA512 m (mh_sha512 c))"

lemma init_multi_hash_rep: "\<exists>c. init_multi_hash_ctx = Some c \<and> mh_rep [] c"
proof -
  have a: "hash_rep CX_SHA256 [] (Sha256_ctx (snd cx_sha256_init_no_throw))"
    "hash_rep CX_SHA512 [] (Sha512_ctx (snd cx_sha512_init_no_throw))"
    "hash_rep CX_RIPEMD160 [] (Ripemd160_ctx (snd cx_ripemd160_init_no_throw))"
    using hash_init_rep [of CX_SHA256] hash_init_rep [of CX_SHA512] hash_init_rep [of CX_RIPEMD160]
    by (simp_all add: hash_allowed_def cx_hash_init_def cx_hash_get_info_def hash_init_func_def)
  have o: "fst cx_sha256_init_no_throw = CX_OK" "fst cx_sha512_init_no_throw = CX_OK" "fst cx_ripemd160_init_no_throw = CX_OK"
    by (simp_all add: cx_sha256_init_no_throw_def cx_sha512_init_no_throw_def cx_ripemd160_init_no_throw_def)
  have k: "check_hash_out_size 256" by (simp add: check_hash_out_size_def)
  obtain s where s: "cx_sha3_init_no_throw 256 = (CX_OK, Some s)" by (simp add: cx_sha3_init_no_throw_def k)
  obtain q where q: "cx_keccak_init_no_throw 256 = (CX_OK, Some q)" by (simp add: cx_keccak_init_no_throw_def k s)
  have "xhash_rep (CX_SHA3, 32) [] (Sha3_ctx s)" "xhash_rep (CX_KECCAK, 32) [] (Sha3_ctx q)"
    using xhash_init_rep [of "(CX_SHA3, 32)"] xhash_init_rep [of "(CX_KECCAK, 32)"] s q
    by (simp_all add: xhash_ok_def sha3_param_def xhash_init_def cx_hash_init_ex_def cx_hash_get_info_def hash_init_ex_func_def)
  then show ?thesis
    using a o s q by (simp add: init_multi_hash_ctx_def CX_ASSERT_def split_beta mh_rep_def)
qed

lemma update_multi_hash_rep:
  assumes "mh_rep m c" "data_ok d" "length m + length (entry_raw (entry_of d)) < 2 ^ 22"
  shows "\<exists>c'. update_multi_hash_ctx c (d_raw_ptr d) (d_raw_size d) = Some c' \<and> mh_rep (m @ entry_raw (entry_of d)) c'"
proof -
  have r: "entry_raw (entry_of d) = take (unat (d_raw_size d)) (d_raw_ptr d)" "unat (d_raw_size d) \<le> length (d_raw_ptr d)"
    using assms(2) by (simp_all add: entry_raw_def entry_of_def data_ok_def)
  let ?n = "length m + unat (d_raw_size d)"
  have n: "?n < 4194304" using assms(3) r by simp
  have l: "hash_limit CX_SHA256 ?n" "hash_limit CX_RIPEMD160 ?n" "hash_limit CX_SHA512 ?n"
    "xhash_limit (CX_SHA3, 32) ?n" "xhash_limit (CX_KECCAK, 32) ?n"
    using n by (simp_all add: hash_limit_def xhash_limit_def sha3_param_def)
  let ?u = "\<lambda>x. CX_ASSERT (cx_hash_update x (Some (d_raw_ptr d)) (d_raw_size d))" and ?m = "m @ entry_raw (entry_of d)"
  have h: "\<exists>c'. ?u x = Some c' \<and> hash_rep md ?m c'" if "hash_rep md m x" "hash_limit md ?n" for md x
    using hash_update_prefix [OF that(1) r(2) _ that(2)] n r(1) by (auto simp: CX_ASSERT_def)
  have xh: "\<exists>c'. ?u x = Some c' \<and> xhash_rep (md, 32) ?m c'"
    if "xhash_rep (md, 32) m x" "sha3_param md 32 \<noteq> None" "xhash_limit (md, 32) ?n" for md x
    using xhash_update_prefix [OF that(1,2) r(2) _ that(3)] n r(1) by (auto simp: CX_ASSERT_def)
  have p: "sha3_param CX_SHA3 32 \<noteq> None" "sha3_param CX_KECCAK 32 \<noteq> None" by (simp_all add: sha3_param_def)
  note m = assms(1) [unfolded mh_rep_def]
  obtain c1 where c1: "?u (mh_sha256 c) = Some c1" "hash_rep CX_SHA256 ?m c1" using h m l(1) by blast
  obtain c2 where c2: "?u (mh_sha3_256 c) = Some c2" "xhash_rep (CX_SHA3, 32) ?m c2" using xh m l(4) p(1) by blast
  obtain c3 where c3: "?u (mh_keccak_256 c) = Some c3" "xhash_rep (CX_KECCAK, 32) ?m c3" using xh m l(5) p(2) by blast
  obtain c4 where c4: "?u (mh_ripemd160 c) = Some c4" "hash_rep CX_RIPEMD160 ?m c4" using h m l(2) by blast
  obtain c5 where c5: "?u (mh_sha512 c) = Some c5" "hash_rep CX_SHA512 ?m c5" using h m l(3) by blast
  show ?thesis using c1 c2 c3 c4 c5 by (simp add: update_multi_hash_ctx_def mh_rep_def)
qed

text \<open>The hash function and the curve of each signature algorithm.\<close>

definition tn_hash :: "nat \<Rightarrow> (bytes \<Rightarrow> bytes) option" where
  "tn_hash a =
     (if a = 0x01 then Some (hash_fn CX_SHA256)
      else if a = 0x02 \<or> a = 0x18 then Some (xhash_fn (CX_SHA3, 32))
      else if a = 0x03 \<or> a = 0x17 then Some (xhash_fn (CX_KECCAK, 32))
      else if a = 0x04 then Some (hash_fn CX_RIPEMD160)
      else if a = 0x16 then Some (hash_fn CX_SHA512)
      else None)"

definition tn_curve :: "nat \<Rightarrow> u8" where
  "tn_curve a = (if a = 0x17 \<or> a = 0x18 then CX_CURVE_Ed25519 else CX_CURVE_SECP256K1)"

lemma length_xhash_sha3 [simp]: "length (xhash_fn (CX_SHA3, 32) m) = 32" "length (xhash_fn (CX_KECCAK, 32) m) = 32"
  by (simp_all add: xhash_fn_def sha3_param_def sponge_def length_sponge_squeeze)

lemma finalize_hash_spec:
  assumes "mh_rep m c" "length m < 2 ^ 22" "length mem = 64"
  shows "\<exists>r b. finalize_hash_for_algo c a mem = Some (r, b) \<and>
    (case tn_hash (unat a) of None \<Rightarrow> r \<noteq> 0 | Some H \<Rightarrow> r = 0 \<and> buf_holds b (H m))"
proof -
  note m = assms(1) [unfolded mh_rep_def]
  have l: "hash_limit CX_SHA256 (length m)" "hash_limit CX_RIPEMD160 (length m)" "hash_limit CX_SHA512 (length m)"
    "xhash_limit (CX_SHA3, 32) (length m)" "xhash_limit (CX_KECCAK, 32) (length m)"
    using assms(2) by (simp_all add: hash_limit_def xhash_limit_def sha3_param_def)
  have h: "\<exists>r. (do { (e, _, mem) \<leftarrow> cx_hash_final x mem;
      if e \<noteq> CX_OK then Some (- 1, buffer_create mem sz) else Some (0, buffer_create mem sz) }) =
        Some (0, buffer_create (hash_fn md m @ r) sz)"
    if "hash_rep md m x" "hash_limit md (length m)" "hash_osize md \<le> 64" for md x sz
    using hash_final_rep [OF that(1,2), of mem] that(3) assms(3) by auto
  have xh: "\<exists>r. (do { (e, _, mem) \<leftarrow> cx_hash_final x mem;
      if e \<noteq> CX_OK then Some (- 1, buffer_create mem sz) else Some (0, buffer_create mem sz) }) =
        Some (0, buffer_create (xhash_fn (md, 32) m @ r) sz)"
    if "xhash_rep (md, 32) m x" "xhash_limit (md, 32) (length m)" for md x sz
    using xhash_final_rep [OF that, of mem] assms(3) by auto
  have b: "buf_holds (buffer_create (v @ r) sz) v" if "length v = unat sz" for v r sz
    using that by (auto simp: buf_holds_def buffer_create_def)
  have n: "length (hash_fn CX_SHA256 m) = 32" "length (hash_fn CX_RIPEMD160 m) = 20" "length (hash_fn CX_SHA512 m) = 64"
    by (simp_all add: hash_fn_def length_fips_sha256 length_fips_sha512 length_rmd160)
  have o: "hash_osize CX_SHA256 \<le> 64" "hash_osize CX_RIPEMD160 \<le> 64" "hash_osize CX_SHA512 \<le> 64" by (simp_all add: hash_osize_def)
  consider "a = 0x01" | "a = 0x02 \<or> a = 0x18" | "a = 0x03 \<or> a = 0x17" | "a = 0x04" | "a = 0x16"
    | "a \<notin> {0x01, 0x02, 0x03, 0x04, 0x16, 0x17, 0x18}" by blast
  then show ?thesis
  proof cases
    case 1
    then show ?thesis
      using h [of CX_SHA256 "mh_sha256 c" 32] m l o b n by (auto simp: finalize_hash_for_algo_def tn_hash_def)
  next
    case 2
    then show ?thesis
      using xh [of CX_SHA3 "mh_sha3_256 c" 32] m l b by (auto simp: finalize_hash_for_algo_def tn_hash_def)
  next
    case 3
    then show ?thesis
      using xh [of CX_KECCAK "mh_keccak_256 c" 32] m l b by (auto simp: finalize_hash_for_algo_def tn_hash_def)
  next
    case 4
    then show ?thesis
      using h [of CX_RIPEMD160 "mh_ripemd160 c" 20] m l o b n by (auto simp: finalize_hash_for_algo_def tn_hash_def)
  next
    case 5
    then show ?thesis
      using h [of CX_SHA512 "mh_sha512 c" 64] m l o b n by (auto simp: finalize_hash_for_algo_def tn_hash_def)
  next
    case 6
    then show ?thesis by (simp add: finalize_hash_for_algo_def tn_hash_def word_unat_eq_iff)
  qed
qed

section \<open>Items and output\<close>

definition tn_valid :: "tlv_entry \<Rightarrow> bool" where
  "tn_valid e =
     (let v = entry_value e; t = fst e in
      if t = TN_NAME then range_item 1 64 v
      else if t = TN_CHAIN_ID then uint_item 64 v
      else if t = TN_ADDRESS \<or> t = TN_SOURCE_CONTRACT then range_item 1 0 v
      else if t = TN_NFT_ID then range_item 32 32 v
      else if t = TN_CHALLENGE then uint_item 32 v
      else if t = TN_NOT_VALID_AFTER then length v = 4
      else if t = TN_SIGNER_KEY_ID then uint_item 16 v
      else if t = TN_DER_SIGNATURE then range_item 64 72 v
      else uint_item 8 v)"

definition tn_output :: "tlv_entry list \<Rightarrow> tlv_trusted_name_out_t \<Rightarrow> bool" where
  "tn_output es out =
     ((\<forall>v. tlv_vals es TN_VERSION = Some v \<longrightarrow> unat (tn_version out) = be_val v) \<and>
      (\<forall>v. tlv_vals es TN_NAME_TYPE = Some v \<longrightarrow> unat (tn_trusted_name_type out) = be_val v) \<and>
      (\<forall>v. tlv_vals es TN_NAME_SOURCE = Some v \<longrightarrow> unat (tn_trusted_name_source out) = be_val v) \<and>
      (\<forall>v. tlv_vals es TN_BLOCKCHAIN_FAMILY = Some v \<longrightarrow> unat (tn_blockchain_family out) = be_val v) \<and>
      (\<forall>v. tlv_vals es TN_NAME = Some v \<longrightarrow> buf_holds (tn_trusted_name out) v) \<and>
      (\<forall>v. tlv_vals es TN_CHAIN_ID = Some v \<longrightarrow> unat (tn_chain_id out) = be_val v) \<and>
      (\<forall>v. tlv_vals es TN_ADDRESS = Some v \<longrightarrow> buf_holds (tn_address out) v) \<and>
      (\<forall>v. tlv_vals es TN_NFT_ID = Some v \<longrightarrow> buf_holds (tn_nft_id out) v) \<and>
      (\<forall>v. tlv_vals es TN_SOURCE_CONTRACT = Some v \<longrightarrow> buf_holds (tn_source_contract out) v) \<and>
      (\<forall>v. tlv_vals es TN_CHALLENGE = Some v \<longrightarrow> unat (tn_challenge out) = be_val v) \<and>
      (\<forall>v. tlv_vals es TN_NOT_VALID_AFTER = Some v \<longrightarrow>
         take 2 v = [sv_major (tn_not_valid_after out), sv_minor (tn_not_valid_after out)] \<and>
         be_val (drop 2 v) = unat (sv_patch (tn_not_valid_after out))))"

definition tn_fields :: "tlv_entry list \<Rightarrow> tn_extracted_t \<Rightarrow> bool" where
  "tn_fields es x =
     (tn_output es (tx_output x) \<and>
      (\<forall>v. tlv_vals es TN_STRUCTURE_TYPE = Some v \<longrightarrow> unat (tx_structure_type x) = be_val v) \<and>
      (\<forall>v. tlv_vals es TN_SIGNER_KEY_ID = Some v \<longrightarrow> unat (tx_signer_key_id x) = be_val v) \<and>
      (\<forall>v. tlv_vals es TN_SIGNER_ALGORITHM = Some v \<longrightarrow> unat (tx_signer_algo x) = be_val v) \<and>
      (\<forall>v. tlv_vals es TN_DER_SIGNATURE = Some v \<longrightarrow> buf_holds (tx_input_sig x) v))"

definition tn_rel :: "tlv_entry list \<Rightarrow> tn_extracted_t option \<Rightarrow> bool" where
  "tn_rel es s = (\<exists>x. s = Some x \<and> mh_rep (signed_bytes TN_DER_SIGNATURE es) (tx_hash_ctx x) \<and> tn_fields es x)"

lemma tn_common:
  assumes h: "mh_rep (signed_bytes TN_DER_SIGNATURE es) (tx_hash_ctx x)" and "data_ok d" "length (raw_bytes (es @ [entry_of d])) < 2 ^ 22"
  shows "\<exists>c. tn_handle_common d x = Some (True, x\<lparr>tx_hash_ctx := c\<rparr>) \<and>
    mh_rep (signed_bytes TN_DER_SIGNATURE (es @ [entry_of d])) c"
proof -
  have t: "fst (entry_of d) = d_tag d" by (simp add: entry_of_def)
  show ?thesis
  proof (cases "d_tag d = TN_DER_SIGNATURE")
    case True
    then show ?thesis using h t by (intro exI [of _ "tx_hash_ctx x"]) (simp add: tn_handle_common_def)
  next
    case False
    have "length (signed_bytes TN_DER_SIGNATURE es) + length (entry_raw (entry_of d)) < 2 ^ 22"
      using assms(3) signed_bytes_length [of TN_DER_SIGNATURE es] by simp
    from update_multi_hash_rep [OF h assms(2) this] show ?thesis
      using False t by (auto simp: tn_handle_common_def)
  qed
qed

lemma not_valid_after_item:
  assumes "data_ok d" "length (data_value d) = 4"
  shows "\<exists>a b c. ld (d_value_ptr d) 0 = Some a \<and> ld (d_value_ptr d) 1 = Some b \<and> U2BE (d_value_ptr d) 2 = Some c \<and>
    take 2 (data_value d) = [a, b] \<and> be_val (drop 2 (data_value d)) = unat c"
proof -
  have n: "unat (d_value_size d) = 4" "4 \<le> length (d_value_ptr d)" "data_value d = take 4 (d_value_ptr d)"
    using assms by (auto simp: data_ok_def data_value_def)
  have "in_range (data_value d) 2 2" using assms(2) by (simp add: in_range_def)
  then obtain c where c: "U2BE (data_value d) 2 = Some c" "unat c = be_val (take 2 (drop 2 (data_value d)))"
    using u16_be.rd_val [of "data_value d" 2] by (auto simp: U2BE_eq)
  have "U2BE (d_value_ptr d) 2 = U2BE (data_value d) 2" using n by (simp add: U2BE_def ld_in)
  moreover have "take 2 (drop 2 (data_value d)) = drop 2 (data_value d)" using assms(2) by simp
  moreover have "take 2 (data_value d) = [d_value_ptr d ! 0, d_value_ptr d ! 1]"
    using n by (cases "d_value_ptr d"; cases "tl (d_value_ptr d)") (auto simp: numeral_2_eq_2 take_Suc)
  moreover have "ld (d_value_ptr d) 0 = Some (d_value_ptr d ! 0)" "ld (d_value_ptr d) 1 = Some (d_value_ptr d ! 1)"
    using n(2) by (auto simp: ld_def)
  ultimately show ?thesis using c by simp
qed

lemmas tn_handler_defs = tn_handle_structure_type_def tn_handle_version_def tn_handle_trusted_name_type_def
  tn_handle_trusted_name_source_def tn_handle_blockchain_family_def tn_handle_trusted_name_def tn_handle_chain_id_def
  tn_handle_address_def tn_handle_nft_id_def tn_handle_source_contract_def tn_handle_challenge_def
  tn_handle_signer_key_id_def tn_handle_signer_algorithm_def tn_handle_der_signature_def put_uint_def
  DER_SIGNATURE_MIN_SIZE_def DER_SIGNATURE_MAX_SIZE_def

lemma tn_handler:
  assumes "(d_tag d, cb, u) \<in> set tn_tags" "data_ok d" "tn_fields es x"
  shows "\<exists>f x'. cb = tlv_cb f \<and> f d x = Some (tn_valid (entry_of d), x') \<and> tx_hash_ctx x' = tx_hash_ctx x \<and>
    (tn_valid (entry_of d) \<longrightarrow> tn_fields (es @ [entry_of d]) x')"
proof -
  have e: "fst (entry_of d) = d_tag d" "entry_value (entry_of d) = data_value d"
    by (simp_all add: entry_of_def entry_value_def data_value_def)
  note facts = tn_handler_defs get_uint_items [OF assms(2)] e tn_valid_def tn_fields_def tn_output_def unat_item
  have buf: "\<exists>x'. (case get_buffer_from_tlv_data (Some d) b mn mx of (ok, b) \<Rightarrow> Some (ok, upd b)) =
        Some (range_item mn mx (data_value d), x') \<and> tx_hash_ctx x' = tx_hash_ctx x \<and> (range_item mn mx (data_value d) \<longrightarrow> P x')"
    if "\<And>b'. tx_hash_ctx (upd b') = tx_hash_ctx x" "\<And>b'. buf_holds b' (data_value d) \<Longrightarrow> P (upd b')" for b mn mx upd P
    using get_buffer_item [OF assms(2), of b mn mx] that by fastforce
  consider "d_tag d = TN_STRUCTURE_TYPE" "cb = tlv_cb tn_handle_structure_type"
    | "d_tag d = TN_VERSION" "cb = tlv_cb tn_handle_version"
    | "d_tag d = TN_NAME_TYPE" "cb = tlv_cb tn_handle_trusted_name_type"
    | "d_tag d = TN_NAME_SOURCE" "cb = tlv_cb tn_handle_trusted_name_source"
    | "d_tag d = TN_BLOCKCHAIN_FAMILY" "cb = tlv_cb tn_handle_blockchain_family"
    | "d_tag d = TN_NAME" "cb = tlv_cb tn_handle_trusted_name"
    | "d_tag d = TN_CHAIN_ID" "cb = tlv_cb tn_handle_chain_id"
    | "d_tag d = TN_ADDRESS" "cb = tlv_cb tn_handle_address"
    | "d_tag d = TN_NFT_ID" "cb = tlv_cb tn_handle_nft_id"
    | "d_tag d = TN_SOURCE_CONTRACT" "cb = tlv_cb tn_handle_source_contract"
    | "d_tag d = TN_CHALLENGE" "cb = tlv_cb tn_handle_challenge"
    | "d_tag d = TN_NOT_VALID_AFTER" "cb = tlv_cb tn_handle_not_valid_after"
    | "d_tag d = TN_SIGNER_KEY_ID" "cb = tlv_cb tn_handle_signer_key_id"
    | "d_tag d = TN_SIGNER_ALGORITHM" "cb = tlv_cb tn_handle_signer_algorithm"
    | "d_tag d = TN_DER_SIGNATURE" "cb = tlv_cb tn_handle_der_signature"
    using assms(1) by (auto simp: tn_tags_def)
  then show ?thesis
  proof cases
    case 1
    then show ?thesis using assms(3) by (intro exI [of _ tn_handle_structure_type]) (auto simp: facts)
  next
    case 2
    then show ?thesis using assms(3) by (intro exI [of _ tn_handle_version]) (auto simp: facts)
  next
    case 3
    then show ?thesis using assms(3) by (intro exI [of _ tn_handle_trusted_name_type]) (auto simp: facts)
  next
    case 4
    then show ?thesis using assms(3) by (intro exI [of _ tn_handle_trusted_name_source]) (auto simp: facts)
  next
    case 5
    then show ?thesis using assms(3) by (intro exI [of _ tn_handle_blockchain_family]) (auto simp: facts)
  next
    case 6
    then show ?thesis using assms(3) by (intro exI [of _ tn_handle_trusted_name]) (simp add: facts buf)
  next
    case 7
    then show ?thesis using assms(3) by (intro exI [of _ tn_handle_chain_id]) (auto simp: facts)
  next
    case 8
    then show ?thesis using assms(3) by (intro exI [of _ tn_handle_address]) (simp add: facts buf)
  next
    case 9
    then show ?thesis using assms(3) by (intro exI [of _ tn_handle_nft_id]) (simp add: facts buf)
  next
    case 10
    then show ?thesis using assms(3) by (intro exI [of _ tn_handle_source_contract]) (simp add: facts buf)
  next
    case 11
    then show ?thesis using assms(3) by (intro exI [of _ tn_handle_challenge]) (auto simp: facts)
  next
    case 12
    have "(d_value_size d \<noteq> 4) = (length (data_value d) \<noteq> 4)"
      using assms(2) by (auto simp: data_ok_def data_value_def word_unat_eq_iff)
    then show ?thesis
      using assms(3) 12 not_valid_after_item [OF assms(2)]
      by (intro exI [of _ tn_handle_not_valid_after]) (auto simp: tn_handle_not_valid_after_def facts)
  next
    case 13
    then show ?thesis using assms(3) by (intro exI [of _ tn_handle_signer_key_id]) (auto simp: facts)
  next
    case 14
    then show ?thesis using assms(3) by (intro exI [of _ tn_handle_signer_algorithm]) (auto simp: facts)
  next
    case 15
    then show ?thesis using assms(3) by (intro exI [of _ tn_handle_der_signature]) (simp add: facts buf)
  qed
qed

lemma tn_step:
  assumes "tn_rel es s" "data_ok d" "(d_tag d, cb, u) \<in> set tn_tags" "length (data_value d) < 65536"
    and "length (raw_bytes (es @ [entry_of d])) \<le> 2 ^ 22 - 1"
  shows "\<exists>s1 s2. call_handler (tlv_cb tn_handle_common) d fl s = (True, s1) \<and>
    call_handler cb d fl s1 = (tn_valid (entry_of d), s2) \<and> s2 \<noteq> None \<and>
    (tn_valid (entry_of d) \<longrightarrow> tn_rel (es @ [entry_of d]) s2)"
proof -
  obtain x where x: "s = Some x" "mh_rep (signed_bytes TN_DER_SIGNATURE es) (tx_hash_ctx x)" "tn_fields es x"
    using assms(1) by (auto simp: tn_rel_def)
  have "length (raw_bytes (es @ [entry_of d])) < 2 ^ 22" using assms(5) by simp
  from tn_common [OF x(2) assms(2) this] obtain c where c: "tn_handle_common d x = Some (True, x\<lparr>tx_hash_ctx := c\<rparr>)"
      "mh_rep (signed_bytes TN_DER_SIGNATURE (es @ [entry_of d])) c" by blast
  have "tn_fields es (x\<lparr>tx_hash_ctx := c\<rparr>)" using x(3) by (simp add: tn_fields_def)
  from tn_handler [OF assms(3,2) this] obtain f x' where f: "cb = tlv_cb f"
      "f d (x\<lparr>tx_hash_ctx := c\<rparr>) = Some (tn_valid (entry_of d), x')" "tx_hash_ctx x' = c"
      "tn_valid (entry_of d) \<longrightarrow> tn_fields (es @ [entry_of d]) x'" by auto
  show ?thesis
    using call_tlv_cb [of tn_handle_common, OF c(1)] call_tlv_cb [of f, OF f(2)] f c(2) x(1) by (auto simp: tn_rel_def)
qed

interpretation tn: tlv_client tn_tags "tlv_cb tn_handle_common" tn_rel "\<lambda>s. s \<noteq> None" tn_valid "2 ^ 22 - 1"
proof
  show "distinct (map fst tn_tags)" "length tn_tags \<le> 64" by (simp_all add: tn_tags_def)
  show "out \<noteq> None" if "tn_rel es out" for es out using that by (auto simp: tn_rel_def)
qed (fact tn_step)

section \<open>Properties\<close>

text \<open>The checks on the fields of a payload with the items \<open>es\<close>, and the verdict with the signature.\<close>

definition tn_struct_verdict :: "bool \<Rightarrow> tlv_entry list \<Rightarrow> u32" where
  "tn_struct_verdict test_key es =
     (let val = (\<lambda>t. be_val (the (tlv_vals es t))) in
      if TN_STRUCTURE_TYPE \<notin> dom (tlv_vals es) then 2
      else if val TN_STRUCTURE_TYPE \<noteq> 3 then 3
      else if \<not> {TN_VERSION, TN_NAME_TYPE, TN_NAME_SOURCE, TN_NAME, TN_CHAIN_ID, TN_ADDRESS, TN_SIGNER_KEY_ID, TN_SIGNER_ALGORITHM,
                  TN_DER_SIGNATURE} \<subseteq> dom (tlv_vals es) then 4
      else if val TN_VERSION = 0 \<or> val TN_VERSION > 3 then 5
      else if TN_SOURCE_CONTRACT \<in> dom (tlv_vals es) \<and> val TN_VERSION < 2 then 6
      else if val TN_SIGNER_KEY_ID \<noteq> (if test_key then 0 else 7) then 7
      else 0)"

definition tn_verdict :: "os_pki \<Rightarrow> bool \<Rightarrow> tlv_entry list \<Rightarrow> u32" where
  "tn_verdict pki test_key es =
     (let alg = be_val (the (tlv_vals es TN_SIGNER_ALGORITHM)) in
      if \<not> good_items tn_tags tn_valid {} es then 1
      else if tn_struct_verdict test_key es \<noteq> 0 then tn_struct_verdict test_key es
      else case tn_hash alg of
             None \<Rightarrow> 8
           | Some H \<Rightarrow>
               let d = pki_decision pki CERTIFICATE_PUBLIC_KEY_USAGE_TRUSTED_NAME (tn_curve alg)
                         (H (signed_bytes TN_DER_SIGNATURE es)) (the (tlv_vals es TN_DER_SIGNATURE))
               in if d = 0 then 0 else 0x80 OR d)"

definition tn_flags :: "tlv_entry list \<Rightarrow> tlv_trusted_name_out_t \<Rightarrow> bool" where
  "tn_flags es out =
     (tn_nft_id_received out = (TN_NFT_ID \<in> dom (tlv_vals es)) \<and>
      tn_source_contract_received out = (TN_SOURCE_CONTRACT \<in> dom (tlv_vals es)) \<and>
      tn_challenge_received out = (TN_CHALLENGE \<in> dom (tlv_vals es)) \<and>
      tn_not_valid_after_received out = (TN_NOT_VALID_AFTER \<in> dom (tlv_vals es)) \<and>
      tn_blockchain_family_received out = (TN_BLOCKCHAIN_FAMILY \<in> dom (tlv_vals es)))"

lemma tn_verify_struct_spec:
  assumes tg: "\<And>tags. length tags < 2 ^ 32 \<Longrightarrow> TLV_CHECK_RECEIVED_TAGS rcv tags = Some (set tags \<subseteq> dom (tlv_vals es))"
    and "tn_fields es x"
  shows "\<exists>x'. tn_verify_struct test_key rcv x = Some (tn_struct_verdict test_key es, x') \<and> tn_fields es x' \<and>
    tx_hash_ctx x' = tx_hash_ctx x \<and> (tn_struct_verdict test_key es = 0 \<longrightarrow> tn_flags es (tx_output x'))"
proof -
  let ?req = "{TN_VERSION, TN_NAME_TYPE, TN_NAME_SOURCE, TN_NAME, TN_CHAIN_ID, TN_ADDRESS, TN_SIGNER_KEY_ID, TN_SIGNER_ALGORITHM,
                  TN_DER_SIGNATURE}"
  have st: "TN_STRUCTURE_TYPE \<in> dom (tlv_vals es) \<Longrightarrow>
      (tx_structure_type x = 0x03) = (be_val (the (tlv_vals es TN_STRUCTURE_TYPE)) = 3)"
    using assms(2) by (auto simp: tn_fields_def word_unat_eq_iff)
  show ?thesis
  proof (cases "TN_STRUCTURE_TYPE \<in> dom (tlv_vals es) \<and> ?req \<subseteq> dom (tlv_vals es)")
    case False
    then show ?thesis using assms(2) st by (auto simp: tn_verify_struct_def tn_struct_verdict_def Let_def tg)
  next
    case True
    then have v: "unat (tn_version (tx_output x)) = be_val (the (tlv_vals es TN_VERSION))"
      "unat (tx_signer_key_id x) = be_val (the (tlv_vals es TN_SIGNER_KEY_ID))"
      using assms(2) by (auto simp: tn_fields_def tn_output_def)
    have vs: "(tn_version (tx_output x) = 0 \<or> tn_version (tx_output x) > 3) =
        (be_val (the (tlv_vals es TN_VERSION)) = 0 \<or> be_val (the (tlv_vals es TN_VERSION)) > 3)"
      "(tn_version (tx_output x) < 2) = (be_val (the (tlv_vals es TN_VERSION)) < 2)"
      "(tx_signer_key_id x \<noteq> (if test_key then 0x00 else 0x07)) =
        (be_val (the (tlv_vals es TN_SIGNER_KEY_ID)) \<noteq> (if test_key then 0 else 7))"
      unfolding v [symmetric] by (simp_all add: word_unat_eq_iff word_less_nat_alt)
    show ?thesis
      using True st assms(2) vs
      by (simp add: tn_verify_struct_def tn_struct_verdict_def Let_def tg tn_fields_def tn_output_def tn_flags_def)
  qed
qed

lemma tn_verify_signature_spec:
  assumes "tn_fields es x" "mh_rep (signed_bytes TN_DER_SIGNATURE es) (tx_hash_ctx x)"
    and "length (signed_bytes TN_DER_SIGNATURE es) < 2 ^ 22" "length mem = 64" "pki_wf pki"
    and "tlv_vals es TN_SIGNER_ALGORITHM = Some a" "tlv_vals es TN_DER_SIGNATURE = Some sig"
  shows "tn_verify_signature pki mem x =
    Some (case tn_hash (be_val a) of
            None \<Rightarrow> 8
          | Some H \<Rightarrow>
              let d = pki_decision pki CERTIFICATE_PUBLIC_KEY_USAGE_TRUSTED_NAME (tn_curve (be_val a))
                        (H (signed_bytes TN_DER_SIGNATURE es)) sig
              in if d = 0 then 0 else 0x80 OR d)"
proof -
  have a: "unat (tx_signer_algo x) = be_val a" and s: "buf_holds (tx_input_sig x) sig"
    using assms(1,6,7) by (auto simp: tn_fields_def)
  obtain r b where f: "finalize_hash_for_algo (tx_hash_ctx x) (tx_signer_algo x) mem = Some (r, b)"
      "case tn_hash (be_val a) of None \<Rightarrow> r \<noteq> 0 | Some H \<Rightarrow> r = 0 \<and> buf_holds b (H (signed_bytes TN_DER_SIGNATURE es))"
    using finalize_hash_spec [OF assms(2,3,4), of "tx_signer_algo x"] a by auto
  have c: "(if tx_signer_algo x = 0x18 \<or> tx_signer_algo x = 0x17 then CX_CURVE_Ed25519 else CX_CURVE_SECP256K1) = tn_curve (be_val a)"
    unfolding tn_curve_def a [symmetric] by (auto simp: word_unat_eq_iff)
  show ?thesis
  proof (cases "tn_hash (be_val a)")
    case None
    then show ?thesis using f by (simp add: tn_verify_signature_def)
  next
    case (Some H)
    then show ?thesis
      using f check_signature_spec [OF assms(5) _ s, of b "H (signed_bytes TN_DER_SIGNATURE es)"]
      by (simp add: tn_verify_signature_def c Let_def CHECK_SIGNATURE_WITH_PKI_SUCCESS_def)
  qed
qed

text \<open>Property C17.  The trusted name: for every payload below 4 MiB (the block counters of the slower hash functions bound it) the use case
  returns without a failed assertion or an out-of-bounds access, and its status is the verdict on the items.  Success
  means that every item is known, unique and valid, that all mandatory ones are there, that version, optional items and key
  match, and that the PKI verified the signature on the hash, by the function which the algorithm item
  names, of all bytes but the signature item; the output then holds the received values and the flags of the optional items.\<close>

theorem trusted_name_spec:
  assumes "payload_ok p" "unat (b_size p) < 2 ^ 22" "pki_wf pki" "length mem = 64"
  shows "\<exists>out'. tlv_use_case_trusted_name pki test_key mem p out =
       Some (case tlv_split (b_ptr p) of None \<Rightarrow> 1 | Some es \<Rightarrow> tn_verdict pki test_key es, out') \<and>
     (\<forall>es. tlv_split (b_ptr p) = Some es \<longrightarrow> tn_verdict pki test_key es = 0 \<longrightarrow> tn_output es out' \<and> tn_flags es out')"
proof -
  obtain c where c: "init_multi_hash_ctx = Some c" "mh_rep [] c" using init_multi_hash_rep by blast
  let ?x = "\<lparr>tx_output = out, tx_structure_type = 0, tx_signer_key_id = 0, tx_signer_algo = 0, tx_input_sig = buffer_zero, tx_hash_ctx = c\<rparr>"
  have R: "tn_rel [] (Some ?x)" using c(2) by (simp add: tn_rel_def tn_fields_def tn_output_def)
  have sz: "length (b_ptr p) = unat (b_size p)" using assms(1) by (simp add: payload_ok_def)
  have "unat (b_size p) \<le> 2 ^ 22 - 1" using assms(2) by simp
  from tn.parser_spec [OF R assms(1) this] obtain ok rcv s where
      r: "parse_tlv_trusted_name p (Some ?x) = Some (ok, rcv, s)" "s \<noteq> None"
        "ok = (\<exists>es. tlv_split (b_ptr p) = Some es \<and> good_items tn_tags tn_valid {} es)"
        "\<forall>es. ok \<longrightarrow> tlv_split (b_ptr p) = Some es \<longrightarrow> tn_rel es s \<and>
          (\<forall>tags. length tags < 2 ^ 32 \<longrightarrow>
             tlv_check_received_tags rcv tags (of_nat (length tags)) = Some (set tags \<subseteq> dom (tlv_vals es)))"
    unfolding parse_tlv_trusted_name_def by blast
  have run: "tlv_use_case_trusted_name pki test_key mem p out = do {
      x \<leftarrow> s;
      if \<not> ok then Some (1, tx_output x)
      else do {
        (err, x) \<leftarrow> tn_verify_struct test_key rcv x;
        if err \<noteq> 0 then Some (err, tx_output x)
        else do {
          err \<leftarrow> tn_verify_signature pki mem x;
          if err \<noteq> 0 then Some (err, tx_output x) else Some (0, tx_output x) } } }"
    unfolding tlv_use_case_trusted_name_def c(1) using r(1) by simp
  show ?thesis
  proof (cases ok)
    case False
    then have "(case tlv_split (b_ptr p) of None \<Rightarrow> 1 | Some es \<Rightarrow> tn_verdict pki test_key es) = 1"
      using r(3) by (auto simp: tn_verdict_def split: option.splits)
    moreover obtain y where "s = Some y" using r(2) by blast
    then have "tlv_use_case_trusted_name pki test_key mem p out = Some (1, tx_output y)"
      using False by (simp add: run)
    moreover have "tn_verdict pki test_key es = 1" if "tlv_split (b_ptr p) = Some es" for es
      using r(3) False that by (auto simp: tn_verdict_def)
    ultimately show ?thesis by simp
  next
    case True
    then obtain es where es: "tlv_split (b_ptr p) = Some es" "good_items tn_tags tn_valid {} es" using r(3) by blast
    obtain x where x: "s = Some x" "mh_rep (signed_bytes TN_DER_SIGNATURE es) (tx_hash_ctx x)" "tn_fields es x"
      using r(4) True es(1) by (auto simp: tn_rel_def)
    have tg: "TLV_CHECK_RECEIVED_TAGS rcv tags = Some (set tags \<subseteq> dom (tlv_vals es))" if "length tags < 2 ^ 32" for tags
      using r(4) True es(1) that by (simp add: TLV_CHECK_RECEIVED_TAGS_def)
    obtain x' where x': "tn_verify_struct test_key rcv x = Some (tn_struct_verdict test_key es, x')" "tn_fields es x'"
        "tx_hash_ctx x' = tx_hash_ctx x" "tn_struct_verdict test_key es = 0 \<longrightarrow> tn_flags es (tx_output x')"
      using tn_verify_struct_spec [OF tg x(3)] by blast
    have l: "length (signed_bytes TN_DER_SIGNATURE es) < 2 ^ 22"
      using signed_bytes_length [of TN_DER_SIGNATURE es] raw_bytes_split [OF es(1)] sz assms(2) by simp
    show ?thesis
    proof (cases "tn_struct_verdict test_key es = 0")
      case False
      then show ?thesis
        using True x(1) x' es by (simp add: run tn_verdict_def)
    next
      case True
      then have "TN_SIGNER_ALGORITHM \<in> dom (tlv_vals es)" "TN_DER_SIGNATURE \<in> dom (tlv_vals es)"
        by (auto simp: tn_struct_verdict_def Let_def split: if_splits)
      then obtain a sig where v: "tlv_vals es TN_SIGNER_ALGORITHM = Some a" "tlv_vals es TN_DER_SIGNATURE = Some sig" by blast
      have "tn_verify_signature pki mem x' = Some (tn_verdict pki test_key es)"
        using tn_verify_signature_spec [OF x'(2) _ l assms(4,3) v] x(2) x'(3) True es(2) v
        by (simp add: tn_verdict_def Let_def split: option.splits)
      then show ?thesis
        using \<open>ok\<close> x(1) x' es True by (simp add: run tn_fields_def)
    qed
  qed
qed

definition tn_demo_items :: "(TLV_tag_t \<times> bytes) list" where
  "tn_demo_items =
     [(0x01, [3]), (0x02, [2]), (0x70, [1]), (0x71, [6]), (0x20, [0x41]), (0x23, [1]), (0x22, [0xAA, 0xBB]), (0x73, [7]), (0x13, [7]),
      (0x14, [0x18]), (0x15, replicate 64 0)]"

definition tn_demo_pki :: os_pki where
  "tn_demo_pki = \<lparr>pki_error = 0, pki_key_usage = 0x04, pki_name = [], pki_curve = 0x71,
     pki_verify = (\<lambda>h s. length h = 32 \<and> s = replicate 64 0)\<rparr>"

lemma tn_demo_split:
  "tlv_split (concat (map tlv_enc tn_demo_items)) = Some (map (\<lambda>e. (fst e, snd e, tlv_enc e)) tn_demo_items)"
  by (rule tlv_split_enc) (simp add: tn_demo_items_def)

lemma tn_demo_vals:
  "tlv_vals (map (\<lambda>e. (fst e, snd e, tlv_enc e)) tn_demo_items) =
     [0x01 \<mapsto> [3], 0x02 \<mapsto> [2], 0x70 \<mapsto> [1], 0x71 \<mapsto> [6], 0x20 \<mapsto> [0x41], 0x23 \<mapsto> [1], 0x22 \<mapsto> [0xAA, 0xBB], 0x73 \<mapsto> [7],
      0x13 \<mapsto> [7], 0x14 \<mapsto> [0x18], 0x15 \<mapsto> replicate 64 0]"
  by (simp add: tlv_vals_def tn_demo_items_def entry_value_def)

lemma tn_demo_verdict:
  "tn_verdict tn_demo_pki False (map (\<lambda>e. (fst e, snd e, tlv_enc e)) tn_demo_items) = 0"
proof -
  let ?es = "map (\<lambda>e. (fst e, snd e, tlv_enc e)) tn_demo_items"
  have "good_items tn_tags tn_valid {} ?es"
    by (auto simp: good_items_def tn_demo_items_def tn_tags_def tn_valid_def entry_value_def uint_item_def range_item_def
        intro!: items_ok_distinct)
  then show ?thesis
    by (simp add: tn_verdict_def tn_struct_verdict_def tn_demo_vals tn_hash_def tn_curve_def tn_demo_pki_def pki_decision_def
        CERTIFICATE_PUBLIC_KEY_USAGE_TRUSTED_NAME_def CX_CURVE_Ed25519_def)
qed

definition tn_demo_out :: tlv_trusted_name_out_t where
  "tn_demo_out = \<lparr>tn_version = 0, tn_trusted_name_type = 0, tn_trusted_name_source = 0, tn_trusted_name = buffer_zero, tn_chain_id = 0,
     tn_address = buffer_zero, tn_nft_id = buffer_zero, tn_source_contract = buffer_zero, tn_challenge = 0,
     tn_not_valid_after = \<lparr>sv_major = 0, sv_minor = 0, sv_patch = 0\<rparr>, tn_blockchain_family = 0, tn_nft_id_received = True,
     tn_source_contract_received = False, tn_challenge_received = False, tn_not_valid_after_received = False,
     tn_blockchain_family_received = False\<rparr>"

theorem trusted_name_spec_witness:
  "\<exists>out'. tlv_use_case_trusted_name tn_demo_pki False (replicate 64 0)
       (buffer_create (concat (map tlv_enc tn_demo_items)) (of_nat (length (concat (map tlv_enc tn_demo_items))))) tn_demo_out =
       Some (0, out') \<and>
     buf_holds (tn_address out') [0xAA, 0xBB] \<and> tn_source_contract_received out' \<and> \<not> tn_nft_id_received out'"
proof -
  let ?bs = "concat (map tlv_enc tn_demo_items)"
  have l: "length ?bs = 97" by (simp add: tn_demo_items_def tlv_enc_def der_enc_def)
  have p: "payload_ok (buffer_create ?bs (of_nat (length ?bs)))" by (simp add: payload_ok_def buffer_create_def l)
  show ?thesis
    using trusted_name_spec [OF p, of tn_demo_pki "replicate 64 0" False tn_demo_out] tn_demo_split tn_demo_verdict tn_demo_vals l
    by (auto simp: pki_wf_def tn_demo_pki_def CERTIFICATE_TRUSTED_NAME_MAXLEN_def buffer_create_def tn_output_def tn_flags_def)
qed

end
