(* ===== verification/Tlv_Transaction_Check.thy ===== *)
theory Tlv_Transaction_Check
  imports Tlv_Use_Case
begin

text \<open>
  The transaction check descriptor of \<^verbatim>\<open>lib_tlv/use_cases/tlv_use_case_transaction_check.c\<close>: a signed risk assessment, with the name of
  the partner taken from the certificate.
\<close>

section \<open>Data\<close>

record tlv_transaction_check_out_t =
  tc_chain_id :: u64
  tc_tx_hash :: buffer_t
  tc_domain_hash :: buffer_t
  tc_provider_msg :: bytes
  tc_tiny_url :: bytes
  tc_address :: buffer_t
  tc_partner :: bytes
  tc_risk :: u8
  tc_type :: u8
  tc_category :: u8
  tc_chain_id_received :: bool
  tc_domain_hash_received :: bool
  tc_provider_msg_received :: bool
  tc_additional_data_received :: bool

definition tc_out_zero :: tlv_transaction_check_out_t where
  "tc_out_zero = \<lparr>tc_chain_id = 0, tc_tx_hash = buffer_zero, tc_domain_hash = buffer_zero, tc_provider_msg = replicate 26 0,
     tc_tiny_url = replicate 31 0, tc_address = buffer_zero, tc_partner = replicate 21 0, tc_risk = 0, tc_type = 0, tc_category = 0,
     tc_chain_id_received = False, tc_domain_hash_received = False, tc_provider_msg_received = False,
     tc_additional_data_received = False\<rparr>"

record tc_extracted_t =
  cx_output :: tlv_transaction_check_out_t
  cx_structure_type :: u8
  cx_structure_version :: u8
  cx_input_sig :: buffer_t
  cx_hash_ctx :: cx_hash_t

definition TRANSACTION_CHECK_RISK_COUNT :: u8 where "TRANSACTION_CHECK_RISK_COUNT = 3"
definition TRANSACTION_CHECK_TYPE_COUNT :: u8 where "TRANSACTION_CHECK_TYPE_COUNT = 2"
definition TRANSACTION_CHECK_CATEGORY_COUNT :: u8 where "TRANSACTION_CHECK_CATEGORY_COUNT = 5"

abbreviation (input) "TC_STRUCTURE_TYPE \<equiv> (0x01 :: TLV_tag_t)"
abbreviation (input) "TC_STRUCTURE_VERSION \<equiv> (0x02 :: TLV_tag_t)"
abbreviation (input) "TC_ADDRESS \<equiv> (0x22 :: TLV_tag_t)"
abbreviation (input) "TC_CHAIN_ID \<equiv> (0x23 :: TLV_tag_t)"
abbreviation (input) "TC_TX_HASH \<equiv> (0x27 :: TLV_tag_t)"
abbreviation (input) "TC_DOMAIN_HASH \<equiv> (0x28 :: TLV_tag_t)"
abbreviation (input) "TC_NORMALIZED_RISK \<equiv> (0x80 :: TLV_tag_t)"
abbreviation (input) "TC_NORMALIZED_CATEGORY \<equiv> (0x81 :: TLV_tag_t)"
abbreviation (input) "TC_PROVIDER_MSG \<equiv> (0x82 :: TLV_tag_t)"
abbreviation (input) "TC_TINY_URL \<equiv> (0x83 :: TLV_tag_t)"
abbreviation (input) "TC_SIMULATION_TYPE \<equiv> (0x84 :: TLV_tag_t)"
abbreviation (input) "TC_ADDITIONAL_DATA \<equiv> (0x85 :: TLV_tag_t)"
abbreviation (input) "TC_DER_SIGNATURE \<equiv> (0x15 :: TLV_tag_t)"

section \<open>Handlers\<close>

type_synonym tc_handler = "tlv_data_t \<Rightarrow> tc_extracted_t \<Rightarrow> (bool \<times> tc_extracted_t) option"

definition tc_handle_structure_type :: tc_handler where
  "tc_handle_structure_type data x = put_uint (get_uint8_t_from_tlv_data (Some data)) (\<lambda>v. x\<lparr>cx_structure_type := v\<rparr>) x"

definition tc_handle_structure_version :: tc_handler where
  "tc_handle_structure_version data x = put_uint (get_uint8_t_from_tlv_data (Some data)) (\<lambda>v. x\<lparr>cx_structure_version := v\<rparr>) x"

definition tc_handle_tx_hash :: tc_handler where
  "tc_handle_tx_hash data x =
     (case get_buffer_from_tlv_data (Some data) (tc_tx_hash (cx_output x)) 32 32 of
        (ok, b) \<Rightarrow> Some (ok, x\<lparr>cx_output := (cx_output x)\<lparr>tc_tx_hash := b\<rparr>\<rparr>))"

definition tc_handle_domain_hash :: tc_handler where
  "tc_handle_domain_hash data x =
     (case get_buffer_from_tlv_data (Some data) (tc_domain_hash (cx_output x)) 32 32 of
        (ok, b) \<Rightarrow> Some (ok, x\<lparr>cx_output := (cx_output x)\<lparr>tc_domain_hash := b\<rparr>\<rparr>))"

definition tc_handle_address :: tc_handler where
  "tc_handle_address data x =
     (case get_buffer_from_tlv_data (Some data) (tc_address (cx_output x)) 20 44 of
        (ok, b) \<Rightarrow> Some (ok, x\<lparr>cx_output := (cx_output x)\<lparr>tc_address := b\<rparr>\<rparr>))"

definition tc_handle_chain_id :: tc_handler where
  "tc_handle_chain_id data x =
     put_uint (get_uint64_t_from_tlv_data (Some data)) (\<lambda>v. x\<lparr>cx_output := (cx_output x)\<lparr>tc_chain_id := v\<rparr>\<rparr>) x"

text \<open>\<open>handle_risk\<close>, \<open>handle_category\<close> and \<open>handle_type\<close> store a byte below the number of values of the enumeration.\<close>

definition put_enum :: "u8 option option \<Rightarrow> u8 \<Rightarrow> (u8 \<Rightarrow> 'x) \<Rightarrow> 'x \<Rightarrow> (bool \<times> 'x) option" where
  "put_enum r cnt upd x = do {
     v \<leftarrow> r;
     Some (case v of None \<Rightarrow> (False, x) | Some v \<Rightarrow> if v \<ge> cnt then (False, x) else (True, upd v)) }"

definition tc_handle_risk :: tc_handler where
  "tc_handle_risk data x =
     put_enum (get_uint8_t_from_tlv_data (Some data)) TRANSACTION_CHECK_RISK_COUNT (\<lambda>v. x\<lparr>cx_output := (cx_output x)\<lparr>tc_risk := v\<rparr>\<rparr>) x"

definition tc_handle_category :: tc_handler where
  "tc_handle_category data x =
     put_enum (get_uint8_t_from_tlv_data (Some data)) TRANSACTION_CHECK_CATEGORY_COUNT (\<lambda>v. x\<lparr>cx_output := (cx_output x)\<lparr>tc_category := v\<rparr>\<rparr>) x"

definition tc_handle_type :: tc_handler where
  "tc_handle_type data x =
     put_enum (get_uint8_t_from_tlv_data (Some data)) TRANSACTION_CHECK_TYPE_COUNT (\<lambda>v. x\<lparr>cx_output := (cx_output x)\<lparr>tc_type := v\<rparr>\<rparr>) x"

definition tc_handle_provider_msg :: tc_handler where
  "tc_handle_provider_msg data x = do {
     (ok, s) \<leftarrow> get_string_from_tlv_data (Some data) (tc_provider_msg (cx_output x)) 0 26;
     let x = x\<lparr>cx_output := (cx_output x)\<lparr>tc_provider_msg := s\<rparr>\<rparr>;
     if \<not> ok then Some (False, x)
     else do {
       n \<leftarrow> strlen_c s;
       p \<leftarrow> is_printable_string s (of_nat n);
       Some (p, x) } }"

definition tc_handle_tiny_url :: tc_handler where
  "tc_handle_tiny_url data x = do {
     (ok, s) \<leftarrow> get_string_from_tlv_data (Some data) (tc_tiny_url (cx_output x)) 0 31;
     let x = x\<lparr>cx_output := (cx_output x)\<lparr>tc_tiny_url := s\<rparr>\<rparr>;
     if \<not> ok then Some (False, x)
     else do {
       n \<leftarrow> strlen_c s;
       p \<leftarrow> is_printable_string s (of_nat n);
       Some (p, x) } }"

definition tc_handle_signature :: tc_handler where
  "tc_handle_signature data x =
     (case get_buffer_from_tlv_data (Some data) (cx_input_sig x) 8 72 of (ok, b) \<Rightarrow> Some (ok, x\<lparr>cx_input_sig := b\<rparr>))"

definition tc_handle_common :: tc_handler where
  "tc_handle_common data x =
     (if d_tag data \<noteq> TC_DER_SIGNATURE then do {
        c \<leftarrow> CX_ASSERT (cx_hash_update (cx_hash_ctx x) (Some (d_raw_ptr data)) (d_raw_size data));
        Some (True, x\<lparr>cx_hash_ctx := c\<rparr>) }
      else Some (True, x))"

definition tc_tags :: "tc_extracted_t option tag_list" where
  "tc_tags =
     [(TC_STRUCTURE_TYPE, tlv_cb tc_handle_structure_type, ENFORCE_UNIQUE_TAG),
      (TC_STRUCTURE_VERSION, tlv_cb tc_handle_structure_version, ENFORCE_UNIQUE_TAG),
      (TC_ADDRESS, tlv_cb tc_handle_address, ENFORCE_UNIQUE_TAG),
      (TC_CHAIN_ID, tlv_cb tc_handle_chain_id, ENFORCE_UNIQUE_TAG),
      (TC_TX_HASH, tlv_cb tc_handle_tx_hash, ENFORCE_UNIQUE_TAG),
      (TC_DOMAIN_HASH, tlv_cb tc_handle_domain_hash, ENFORCE_UNIQUE_TAG),
      (TC_NORMALIZED_RISK, tlv_cb tc_handle_risk, ENFORCE_UNIQUE_TAG),
      (TC_NORMALIZED_CATEGORY, tlv_cb tc_handle_category, ENFORCE_UNIQUE_TAG),
      (TC_PROVIDER_MSG, tlv_cb tc_handle_provider_msg, ENFORCE_UNIQUE_TAG),
      (TC_TINY_URL, tlv_cb tc_handle_tiny_url, ENFORCE_UNIQUE_TAG),
      (TC_SIMULATION_TYPE, tlv_cb tc_handle_type, ENFORCE_UNIQUE_TAG),
      (TC_ADDITIONAL_DATA, None, ENFORCE_UNIQUE_TAG),
      (TC_DER_SIGNATURE, tlv_cb tc_handle_signature, ENFORCE_UNIQUE_TAG)]"

definition parse_transaction_check_tlv ::
  "buffer_t \<Rightarrow> tc_extracted_t option \<Rightarrow> (bool \<times> TLV_reception_t \<times> tc_extracted_t option) option" where
  "parse_transaction_check_tlv = define_tlv_parser tc_tags (tlv_cb tc_handle_common)"

section \<open>Verification\<close>

text \<open>The status codes are those of \<open>tlv_transaction_check_status_t\<close>.\<close>

definition tc_verify_struct :: "TLV_reception_t \<Rightarrow> tc_extracted_t \<Rightarrow> (u32 \<times> tc_extracted_t) option" where
  "tc_verify_struct received_tags x = do {
     t \<leftarrow> TLV_CHECK_RECEIVED_TAGS received_tags [TC_STRUCTURE_TYPE];
     if \<not> t then Some (2, x)
     else if cx_structure_type x \<noteq> 0x09 then Some (3, x)
     else do {
       t \<leftarrow> TLV_CHECK_RECEIVED_TAGS received_tags
             [TC_STRUCTURE_VERSION, TC_TX_HASH, TC_ADDRESS, TC_NORMALIZED_RISK, TC_NORMALIZED_CATEGORY, TC_TINY_URL, TC_SIMULATION_TYPE,
              TC_DER_SIGNATURE];
       if \<not> t then Some (4, x)
       else if cx_structure_version x \<noteq> 0x01 then Some (5, x)
       else do {
         a \<leftarrow> TLV_CHECK_RECEIVED_TAGS received_tags [TC_CHAIN_ID];
         b \<leftarrow> TLV_CHECK_RECEIVED_TAGS received_tags [TC_DOMAIN_HASH];
         c \<leftarrow> TLV_CHECK_RECEIVED_TAGS received_tags [TC_PROVIDER_MSG];
         d \<leftarrow> TLV_CHECK_RECEIVED_TAGS received_tags [TC_ADDITIONAL_DATA];
         Some (0, x\<lparr>cx_output := (cx_output x)\<lparr>tc_chain_id_received := a, tc_domain_hash_received := b,
                      tc_provider_msg_received := c, tc_additional_data_received := d\<rparr>\<rparr>) } } }"

definition tc_verify_signature :: "os_pki \<Rightarrow> tc_extracted_t \<Rightarrow> u32 option" where
  "tc_verify_signature pki x = do {
     (_, tlv_hash) \<leftarrow> CX_ASSERT (cx_hash_final (cx_hash_ctx x) (replicate 32 0));
     err \<leftarrow> check_signature_with_pki pki (buffer_create tlv_hash 32)
             (Some CERTIFICATE_PUBLIC_KEY_USAGE_TX_SIMU_SIGNER) (Some CX_CURVE_SECP256K1) (cx_input_sig x);
     Some (if err \<noteq> CHECK_SIGNATURE_WITH_PKI_SUCCESS then 0x80 OR err else 0) }"

text \<open>The default partner name is printed with a format that has no conversions.\<close>

definition tc_default_partner :: bytes where
  "tc_default_partner = map of_char ''Transaction Checks''"

definition tlv_use_case_transaction_check ::
  "os_pki \<Rightarrow> buffer_t \<Rightarrow> (u32 \<times> tlv_transaction_check_out_t) option" where
  "tlv_use_case_transaction_check pki payload = do {
     ctx \<leftarrow> CX_ASSERT (Some cx_sha256_init_no_throw);
     (ok, received_tags, x) \<leftarrow> parse_transaction_check_tlv payload
        (Some \<lparr>cx_output = tc_out_zero, cx_structure_type = 0, cx_structure_version = 0, cx_input_sig = buffer_zero,
               cx_hash_ctx = Sha256_ctx ctx\<rparr>);
     x \<leftarrow> x;
     if \<not> ok then Some (1, cx_output x)
     else do {
       (err, x) \<leftarrow> tc_verify_struct received_tags x;
       if err \<noteq> 0 then Some (err, cx_output x)
       else do {
         err \<leftarrow> tc_verify_signature pki x;
         if err \<noteq> 0 then Some (err, cx_output x)
         else do {
           let out = cx_output x;
           (e, _, trusted_name, _) \<leftarrow> os_pki_get_info pki;
           partner \<leftarrow> (if e = 0 then do { (_, d) \<leftarrow> strlcpy (tc_partner out) trusted_name 21; Some d } else Some (tc_partner out));
           n \<leftarrow> strlen_c partner;
           partner \<leftarrow> (if n = 0 then do { (_, d) \<leftarrow> strlcpy partner (tc_default_partner @ [0]) 21; Some d } else Some partner);
           Some (0, out\<lparr>tc_partner := partner\<rparr>) } } } }"

section \<open>Items and output\<close>

definition tc_valid :: "tlv_entry \<Rightarrow> bool" where
  "tc_valid e =
     (let v = entry_value e; t = fst e in
      if t = TC_STRUCTURE_TYPE \<or> t = TC_STRUCTURE_VERSION then uint_item 8 v
      else if t = TC_ADDRESS then range_item 20 44 v
      else if t = TC_CHAIN_ID then uint_item 64 v
      else if t = TC_TX_HASH \<or> t = TC_DOMAIN_HASH then range_item 32 32 v
      else if t = TC_NORMALIZED_RISK then uint_item 8 v \<and> be_val v < 3
      else if t = TC_NORMALIZED_CATEGORY then uint_item 8 v \<and> be_val v < 5
      else if t = TC_SIMULATION_TYPE then uint_item 8 v \<and> be_val v < 2
      else if t = TC_PROVIDER_MSG then text_item 0 26 v \<and> (\<forall>c\<in>set v. isprint c)
      else if t = TC_TINY_URL then text_item 0 31 v \<and> (\<forall>c\<in>set v. isprint c)
      else if t = TC_ADDITIONAL_DATA then True
      else range_item 8 72 v)"

definition tc_output :: "tlv_entry list \<Rightarrow> tlv_transaction_check_out_t \<Rightarrow> bool" where
  "tc_output es out =
     ((\<forall>v. tlv_vals es TC_CHAIN_ID = Some v \<longrightarrow> unat (tc_chain_id out) = be_val v) \<and>
      (\<forall>v. tlv_vals es TC_TX_HASH = Some v \<longrightarrow> buf_holds (tc_tx_hash out) v) \<and>
      (\<forall>v. tlv_vals es TC_DOMAIN_HASH = Some v \<longrightarrow> buf_holds (tc_domain_hash out) v) \<and>
      (\<forall>v. tlv_vals es TC_ADDRESS = Some v \<longrightarrow> buf_holds (tc_address out) v) \<and>
      (\<forall>v. tlv_vals es TC_PROVIDER_MSG = Some v \<longrightarrow> str_holds (tc_provider_msg out) v) \<and>
      (\<forall>v. tlv_vals es TC_TINY_URL = Some v \<longrightarrow> str_holds (tc_tiny_url out) v) \<and>
      (\<forall>v. tlv_vals es TC_NORMALIZED_RISK = Some v \<longrightarrow> unat (tc_risk out) = be_val v) \<and>
      (\<forall>v. tlv_vals es TC_NORMALIZED_CATEGORY = Some v \<longrightarrow> unat (tc_category out) = be_val v) \<and>
      (\<forall>v. tlv_vals es TC_SIMULATION_TYPE = Some v \<longrightarrow> unat (tc_type out) = be_val v))"

definition tc_fields :: "tlv_entry list \<Rightarrow> tc_extracted_t \<Rightarrow> bool" where
  "tc_fields es x =
     (tc_output es (cx_output x) \<and> length (tc_provider_msg (cx_output x)) = 26 \<and> length (tc_tiny_url (cx_output x)) = 31 \<and>
      tc_partner (cx_output x) = replicate 21 0 \<and>
      (\<forall>v. tlv_vals es TC_STRUCTURE_TYPE = Some v \<longrightarrow> unat (cx_structure_type x) = be_val v) \<and>
      (\<forall>v. tlv_vals es TC_STRUCTURE_VERSION = Some v \<longrightarrow> unat (cx_structure_version x) = be_val v) \<and>
      (\<forall>v. tlv_vals es TC_DER_SIGNATURE = Some v \<longrightarrow> buf_holds (cx_input_sig x) v))"

definition tc_rel :: "tlv_entry list \<Rightarrow> tc_extracted_t option \<Rightarrow> bool" where
  "tc_rel es s = (\<exists>x. s = Some x \<and> hash_rep CX_SHA256 (signed_bytes TC_DER_SIGNATURE es) (cx_hash_ctx x) \<and> tc_fields es x)"

lemma tc_common:
  assumes h: "hash_rep CX_SHA256 (signed_bytes TC_DER_SIGNATURE es) (cx_hash_ctx x)" and "data_ok d"
    "length (raw_bytes (es @ [entry_of d])) < 2 ^ 31"
  shows "\<exists>c. tc_handle_common d x = Some (True, x\<lparr>cx_hash_ctx := c\<rparr>) \<and>
    hash_rep CX_SHA256 (signed_bytes TC_DER_SIGNATURE (es @ [entry_of d])) c"
proof -
  have t: "fst (entry_of d) = d_tag d" by (simp add: entry_of_def)
  show ?thesis
  proof (cases "d_tag d = TC_DER_SIGNATURE")
    case True
    then show ?thesis using h t by (intro exI [of _ "cx_hash_ctx x"]) (simp add: tc_handle_common_def)
  next
    case False
    have "length (signed_bytes TC_DER_SIGNATURE es) + length (entry_raw (entry_of d)) < 2 ^ 31"
      using assms(3) signed_bytes_length [of TC_DER_SIGNATURE es] by simp
    from hash_update_entry [OF h assms(2) this] show ?thesis
      using False t by (auto simp: tc_handle_common_def)
  qed
qed

text \<open>A received text that is checked for printable characters.\<close>

lemma printable_item:
  assumes "data_ok d" "length (data_value d) < 65536" "cap \<noteq> 0" "unat cap = length out"
  shows "\<exists>s. get_string_from_tlv_data (Some d) out 0 cap = Some (text_item 0 (length out) (data_value d), s) \<and> length s = length out \<and>
    (text_item 0 (length out) (data_value d) \<longrightarrow>
       str_holds s (data_value d) \<and> strlen_c s = Some (length (data_value d)) \<and>
       is_printable_string s (of_nat (length (data_value d))) = Some (\<forall>c\<in>set (data_value d). isprint c))"
proof (cases "text_item 0 (length out) (data_value d)")
  case True
  let ?v = "data_value d" and ?s = "data_value d @ 0 # drop (Suc (length (data_value d))) out"
  have z: "0 \<notin> set ?v" "length ?v < length out" using True by (simp_all add: text_item_def)
  have "unat (of_nat (length ?v) :: size_t) = length ?v" using assms(2) by (intro unat_of_nat_small) simp
  then have "is_printable_string ?s (of_nat (length ?v)) = Some (\<forall>c\<in>set ?v. isprint c)"
    using is_printable_string_spec [of "of_nat (length ?v)" ?s] by (simp add: isprint_def)
  then show ?thesis
    using string_item_eq [OF assms(1,2,3), of out 0] assms(4) True z str_holds_text [OF True]
    by (intro exI [of _ ?s]) (simp add: strlen_c_text)
qed (use string_item_eq [OF assms(1,2,3), of out 0] assms(4) in simp)

lemmas tc_handler_defs = tc_handle_structure_type_def tc_handle_structure_version_def tc_handle_tx_hash_def tc_handle_domain_hash_def
  tc_handle_address_def tc_handle_chain_id_def tc_handle_risk_def tc_handle_category_def tc_handle_type_def
  tc_handle_provider_msg_def tc_handle_tiny_url_def tc_handle_signature_def put_uint_def put_enum_def
  TRANSACTION_CHECK_RISK_COUNT_def TRANSACTION_CHECK_TYPE_COUNT_def TRANSACTION_CHECK_CATEGORY_COUNT_def

lemma tc_handler:
  assumes "(d_tag d, cb, u) \<in> set tc_tags" "data_ok d" "length (data_value d) < 65536" "tc_fields es x"
  shows "\<exists>x'. call_handler cb d fl (Some x) = (tc_valid (entry_of d), Some x') \<and> cx_hash_ctx x' = cx_hash_ctx x \<and>
    (tc_valid (entry_of d) \<longrightarrow> tc_fields (es @ [entry_of d]) x')"
proof -
  have e: "fst (entry_of d) = d_tag d" "entry_value (entry_of d) = data_value d"
    by (simp_all add: entry_of_def entry_value_def data_value_def)
  have call: "\<exists>x'. call_handler (tlv_cb f) d fl (Some x) = (ok, Some x') \<and> P x'" if "\<exists>x'. f d x = Some (ok, x') \<and> P x'" for f ok P
    using that call_tlv_cb [of f d x ok _ fl] by auto
  note facts = tc_handler_defs get_uint_items [OF assms(2)] e tc_valid_def tc_fields_def tc_output_def unat_item
  have buf: "\<exists>x'. (case get_buffer_from_tlv_data (Some d) b mn mx of (ok, b) \<Rightarrow> Some (ok, upd b)) =
        Some (range_item mn mx (data_value d), x') \<and> cx_hash_ctx x' = cx_hash_ctx x \<and> (range_item mn mx (data_value d) \<longrightarrow> P x')"
    if "\<And>b'. cx_hash_ctx (upd b') = cx_hash_ctx x" "\<And>b'. buf_holds b' (data_value d) \<Longrightarrow> P (upd b')" for b mn mx upd P
    using get_buffer_item [OF assms(2), of b mn mx] that by fastforce
  have cnt: "(k \<le> of_nat (be_val v)) = (\<not> be_val v < unat k)" if "uint_item 8 v" for v and k :: u8
    using unat_item [where 'a = 8, of v] that by (auto simp: word_le_nat_alt)
  consider "d_tag d = TC_STRUCTURE_TYPE" "cb = tlv_cb tc_handle_structure_type"
    | "d_tag d = TC_STRUCTURE_VERSION" "cb = tlv_cb tc_handle_structure_version"
    | "d_tag d = TC_ADDRESS" "cb = tlv_cb tc_handle_address"
    | "d_tag d = TC_CHAIN_ID" "cb = tlv_cb tc_handle_chain_id"
    | "d_tag d = TC_TX_HASH" "cb = tlv_cb tc_handle_tx_hash"
    | "d_tag d = TC_DOMAIN_HASH" "cb = tlv_cb tc_handle_domain_hash"
    | "d_tag d = TC_NORMALIZED_RISK" "cb = tlv_cb tc_handle_risk"
    | "d_tag d = TC_NORMALIZED_CATEGORY" "cb = tlv_cb tc_handle_category"
    | "d_tag d = TC_PROVIDER_MSG" "cb = tlv_cb tc_handle_provider_msg"
    | "d_tag d = TC_TINY_URL" "cb = tlv_cb tc_handle_tiny_url"
    | "d_tag d = TC_SIMULATION_TYPE" "cb = tlv_cb tc_handle_type"
    | "d_tag d = TC_ADDITIONAL_DATA" "cb = None"
    | "d_tag d = TC_DER_SIGNATURE" "cb = tlv_cb tc_handle_signature"
    using assms(1) by (auto simp: tc_tags_def)
  then show ?thesis
  proof cases
    case 1
    show ?thesis unfolding 1(2) by (rule call) (use assms(4) 1(1) in \<open>auto simp: facts\<close>)
  next
    case 2
    show ?thesis unfolding 2(2) by (rule call) (use assms(4) 2(1) in \<open>auto simp: facts\<close>)
  next
    case 3
    show ?thesis unfolding 3(2) by (rule call) (use assms(4) 3(1) in \<open>simp add: facts buf\<close>)
  next
    case 4
    show ?thesis unfolding 4(2) by (rule call) (use assms(4) 4(1) in \<open>auto simp: facts\<close>)
  next
    case 5
    show ?thesis unfolding 5(2) by (rule call) (use assms(4) 5(1) in \<open>simp add: facts buf\<close>)
  next
    case 6
    show ?thesis unfolding 6(2) by (rule call) (use assms(4) 6(1) in \<open>simp add: facts buf\<close>)
  next
    case 7
    show ?thesis unfolding 7(2) by (rule call) (use assms(4) 7(1) in \<open>auto simp: facts cnt\<close>)
  next
    case 8
    show ?thesis unfolding 8(2) by (rule call) (use assms(4) 8(1) in \<open>auto simp: facts cnt\<close>)
  next
    case 9
    show ?thesis unfolding 9(2)
      by (rule call) (use assms(4) 9(1) printable_item [OF assms(2,3), of 26 "tc_provider_msg (cx_output x)"] in \<open>auto simp: facts Let_def\<close>)
  next
    case 10
    show ?thesis unfolding 10(2)
      by (rule call) (use assms(4) 10(1) printable_item [OF assms(2,3), of 31 "tc_tiny_url (cx_output x)"] in \<open>auto simp: facts Let_def\<close>)
  next
    case 11
    show ?thesis unfolding 11(2) by (rule call) (use assms(4) 11(1) in \<open>auto simp: facts cnt\<close>)
  next
    case 12
    then show ?thesis using assms(4) by (simp add: call_handler_def facts)
  next
    case 13
    show ?thesis unfolding 13(2) by (rule call) (use assms(4) 13(1) in \<open>simp add: facts buf\<close>)
  qed
qed

lemma tc_step:
  assumes "tc_rel es s" "data_ok d" "(d_tag d, cb, u) \<in> set tc_tags" "length (data_value d) < 65536"
    and "length (raw_bytes (es @ [entry_of d])) \<le> 2 ^ 31 - 1"
  shows "\<exists>s1 s2. call_handler (tlv_cb tc_handle_common) d fl s = (True, s1) \<and>
    call_handler cb d fl s1 = (tc_valid (entry_of d), s2) \<and> s2 \<noteq> None \<and>
    (tc_valid (entry_of d) \<longrightarrow> tc_rel (es @ [entry_of d]) s2)"
proof -
  obtain x where x: "s = Some x" "hash_rep CX_SHA256 (signed_bytes TC_DER_SIGNATURE es) (cx_hash_ctx x)" "tc_fields es x"
    using assms(1) by (auto simp: tc_rel_def)
  have "length (raw_bytes (es @ [entry_of d])) < 2 ^ 31" using assms(5) by simp
  from tc_common [OF x(2) assms(2) this] obtain c where c: "tc_handle_common d x = Some (True, x\<lparr>cx_hash_ctx := c\<rparr>)"
      "hash_rep CX_SHA256 (signed_bytes TC_DER_SIGNATURE (es @ [entry_of d])) c" by blast
  have "tc_fields es (x\<lparr>cx_hash_ctx := c\<rparr>)" using x(3) by (simp add: tc_fields_def)
  from tc_handler [OF assms(3,2,4) this] show ?thesis
    using call_tlv_cb [of tc_handle_common, OF c(1), of fl] c(2) x(1) by (fastforce simp: tc_rel_def)
qed

interpretation tc: tlv_client tc_tags "tlv_cb tc_handle_common" tc_rel "\<lambda>s. s \<noteq> None" tc_valid "2 ^ 31 - 1"
proof
  show "distinct (map fst tc_tags)" "length tc_tags \<le> 64" by (simp_all add: tc_tags_def)
  show "out \<noteq> None" if "tc_rel es out" for es out using that by (auto simp: tc_rel_def)
qed (fact tc_step)

section \<open>Properties\<close>

definition tc_struct_verdict :: "tlv_entry list \<Rightarrow> u32" where
  "tc_struct_verdict es =
     (if TC_STRUCTURE_TYPE \<notin> dom (tlv_vals es) then 2
      else if be_val (the (tlv_vals es TC_STRUCTURE_TYPE)) \<noteq> 9 then 3
      else if \<not> {TC_STRUCTURE_VERSION, TC_TX_HASH, TC_ADDRESS, TC_NORMALIZED_RISK, TC_NORMALIZED_CATEGORY, TC_TINY_URL, TC_SIMULATION_TYPE,
                  TC_DER_SIGNATURE} \<subseteq> dom (tlv_vals es) then 4
      else if be_val (the (tlv_vals es TC_STRUCTURE_VERSION)) \<noteq> 1 then 5
      else 0)"

definition tc_verdict :: "os_pki \<Rightarrow> tlv_entry list \<Rightarrow> u32" where
  "tc_verdict pki es =
     (if \<not> good_items tc_tags tc_valid {} es then 1
      else if tc_struct_verdict es \<noteq> 0 then tc_struct_verdict es
      else
        let d = pki_decision pki CERTIFICATE_PUBLIC_KEY_USAGE_TX_SIMU_SIGNER CX_CURVE_SECP256K1
                  (hash_fn CX_SHA256 (signed_bytes TC_DER_SIGNATURE es)) (the (tlv_vals es TC_DER_SIGNATURE))
        in if d = 0 then 0 else 0x80 OR d)"

definition tc_flags :: "tlv_entry list \<Rightarrow> tlv_transaction_check_out_t \<Rightarrow> bool" where
  "tc_flags es out =
     (tc_chain_id_received out = (TC_CHAIN_ID \<in> dom (tlv_vals es)) \<and>
      tc_domain_hash_received out = (TC_DOMAIN_HASH \<in> dom (tlv_vals es)) \<and>
      tc_provider_msg_received out = (TC_PROVIDER_MSG \<in> dom (tlv_vals es)) \<and>
      tc_additional_data_received out = (TC_ADDITIONAL_DATA \<in> dom (tlv_vals es)))"

text \<open>The partner name: the text of the certificate name, cut to 20 characters, or the default when it is empty.\<close>

definition tc_partner_name :: "os_pki \<Rightarrow> bytes" where
  "tc_partner_name pki =
     (let s = takeWhile (\<lambda>c. c \<noteq> 0) (pki_name pki) in if s = [] then tc_default_partner else take 20 s)"

lemma tc_verify_struct_spec:
  assumes tg: "\<And>tags. length tags < 2 ^ 32 \<Longrightarrow> TLV_CHECK_RECEIVED_TAGS rcv tags = Some (set tags \<subseteq> dom (tlv_vals es))"
    and "tc_fields es x"
  shows "\<exists>x'. tc_verify_struct rcv x = Some (tc_struct_verdict es, x') \<and> tc_fields es x' \<and>
    cx_hash_ctx x' = cx_hash_ctx x \<and> (tc_struct_verdict es = 0 \<longrightarrow> tc_flags es (cx_output x'))"
proof -
  have st: "TC_STRUCTURE_TYPE \<in> dom (tlv_vals es) \<Longrightarrow>
      (cx_structure_type x = 0x09) = (be_val (the (tlv_vals es TC_STRUCTURE_TYPE)) = 9)"
    "TC_STRUCTURE_VERSION \<in> dom (tlv_vals es) \<Longrightarrow>
      (cx_structure_version x = 0x01) = (be_val (the (tlv_vals es TC_STRUCTURE_VERSION)) = 1)"
    using assms(2) by (auto simp: tc_fields_def word_unat_eq_iff)
  show ?thesis
    using st assms(2)
    by (simp add: tc_verify_struct_def tc_struct_verdict_def tg) (auto simp: tc_fields_def tc_output_def tc_flags_def)
qed

lemma tc_verify_signature_spec:
  assumes "tc_fields es x" "hash_rep CX_SHA256 (signed_bytes TC_DER_SIGNATURE es) (cx_hash_ctx x)"
    and "length (signed_bytes TC_DER_SIGNATURE es) < 2 ^ 31" "pki_wf pki" "tlv_vals es TC_DER_SIGNATURE = Some sig"
  shows "tc_verify_signature pki x =
    Some (let d = pki_decision pki CERTIFICATE_PUBLIC_KEY_USAGE_TX_SIMU_SIGNER CX_CURVE_SECP256K1
                    (hash_fn CX_SHA256 (signed_bytes TC_DER_SIGNATURE es)) sig
          in if d = 0 then 0 else 0x80 OR d)"
proof -
  have s: "buf_holds (cx_input_sig x) sig" using assms(1,5) by (auto simp: tc_fields_def)
  show ?thesis
    using hash_final_signed [OF assms(2,3)] check_signature_spec [OF assms(4) _ s]
    by (auto simp: tc_verify_signature_def Let_def CHECK_SIGNATURE_WITH_PKI_SUCCESS_def)
qed

text \<open>Copying the name into the zeroed array, and the default.\<close>

lemma replicate_pad: "n \<le> 20 \<Longrightarrow> replicate (21 - n) x = x # replicate (20 - n) x"
proof -
  assume "n \<le> 20"
  then have "21 - n = Suc (20 - n)" by simp
  then show ?thesis by simp
qed

lemma partner_copy:
  assumes "0 \<notin> set s"
  shows "strlcpy (replicate 21 0) (s @ 0 # r) 21 = Some (length s, take 20 s @ replicate (21 - length (take 20 s)) 0)"
  using strlcpy_text [OF assms, of 21 "replicate 21 0" r] replicate_pad [of "min (length s) 20" "0 :: u8"] by simp

lemma partner_run:
  assumes "pki_wf pki" "pki_error pki = 0" "d0 = replicate 21 0" "pki_name_terminated pki"
  shows "do {
      (e, _, trusted_name, _) \<leftarrow> os_pki_get_info pki;
      partner \<leftarrow> (if e = 0 then do { (_, d) \<leftarrow> strlcpy d0 trusted_name 21; Some d } else Some d0);
      n \<leftarrow> strlen_c partner;
      partner \<leftarrow> (if n = 0 then do { (_, d) \<leftarrow> strlcpy partner (tc_default_partner @ [0]) 21; Some d } else Some partner);
      Some (f partner) } =
    Some (f (tc_partner_name pki @ replicate (21 - length (tc_partner_name pki)) 0))"
proof -
  let ?s = "takeWhile (\<lambda>c. c \<noteq> 0) (pki_name pki)"
  have z: "0 \<notin> set ?s" by (auto dest: set_takeWhileD)
  let ?z = "replicate (32 - length (pki_name pki)) (0 :: u8)"
  have "\<exists>r. pki_name pki @ ?z = ?s @ 0 # r"
  proof (cases "dropWhile (\<lambda>c. c \<noteq> 0) (pki_name pki)")
    case Nil
    then have n: "pki_name pki = ?s" by (metis append_Nil2 takeWhile_dropWhile_id)
    then have "length (pki_name pki) < 32"
      using assms(4) z by (metis CERTIFICATE_TRUSTED_NAME_MAXLEN_def pki_name_terminated_def)
    then obtain k where "?z = 0 # replicate k 0" by (metis Suc_diff_Suc replicate_Suc)
    then show ?thesis using n by metis
  next
    case (Cons c r)
    then have "c = 0" using hd_dropWhile [of "\<lambda>c. c \<noteq> 0" "pki_name pki"] by auto
    then have "pki_name pki = ?s @ 0 # r" using takeWhile_dropWhile_id [of "\<lambda>c. c \<noteq> 0" "pki_name pki"] Cons by simp
    then have "pki_name pki @ ?z = ?s @ 0 # (r @ ?z)" by (metis append_Cons append_assoc)
    then show ?thesis by blast
  qed
  then obtain r where r: "pki_name pki @ ?z = ?s @ 0 # r" by blast
  have i: "os_pki_get_info pki = Some (0, pki_key_usage pki, ?s @ 0 # r, pki_curve pki)"
    using get_info_ok [OF assms(1)] assms(2) by (simp only: r)
  have d: "0 \<notin> set tc_default_partner" "length tc_default_partner = 18" by (simp_all add: tc_default_partner_def)
  have p: "replicate (21 - length (take 20 t)) 0 = (0 :: u8) # replicate (20 - length (take 20 t)) 0" for t :: bytes
    by (rule replicate_pad) simp
  show ?thesis
  proof (cases "?s = []")
    case True
    then show ?thesis
      using i partner_copy [of "[]" r] partner_copy [OF d(1), of "[]"] d(2)
      by (simp add: tc_partner_name_def strlen_c_def assms(3))
  next
    case False
    have m0: "min (length ?s) 20 \<noteq> 0" using False by (simp add: min_def)
    have "0 \<notin> set (take 20 ?s)" using z by (auto dest: in_set_takeD)
    then have "strlen_c (take 20 ?s @ replicate (21 - length (take 20 ?s)) 0) = Some (length (take 20 ?s))"
      unfolding p by (rule strlen_c_text)
    then show ?thesis
      using i partner_copy [OF z, of r] False by (simp add: tc_partner_name_def assms(3) m0)
  qed
qed

text \<open>The status of the use case on a payload.\<close>

definition tc_status :: "os_pki \<Rightarrow> buffer_t \<Rightarrow> u32" where
  "tc_status pki p = (case tlv_split (b_ptr p) of None \<Rightarrow> 1 | Some es \<Rightarrow> tc_verdict pki es)"

lemma partner_overread:
  assumes "pki_wf pki" "pki_error pki = 0" "\<not> pki_name_terminated pki"
  shows "do {
      (e, _, trusted_name, _) \<leftarrow> os_pki_get_info pki;
      partner \<leftarrow> (if e = 0 then do { (_, d) \<leftarrow> strlcpy d0 trusted_name 21; Some d } else Some d0);
      n \<leftarrow> strlen_c partner;
      partner \<leftarrow> (if n = 0 then do { (_, d) \<leftarrow> strlcpy partner (tc_default_partner @ [0]) 21; Some d } else Some partner);
      Some (f partner) } = None"
proof -
  have l: "length (pki_name pki) = 32" "0 \<notin> set (pki_name pki)"
    using assms(1,3) by (auto simp: pki_wf_def pki_name_terminated_def CERTIFICATE_TRUSTED_NAME_MAXLEN_def)
  then show ?thesis using get_info_ok [OF assms(1)] assms(2) by (simp add: strlcpy_def strlen_c_def)
qed

text \<open>Property C18.  The transaction check: for every payload below 2 GiB the use case returns without a failed assertion or an
  out-of-bounds access, and its status is the verdict on the items; success means known, unique and valid items (risk, category and
  type in their ranges, printable texts), all mandatory ones, the right type and version, and a signature that the PKI
  verified on the FIPS 180-4 hash of all bytes but the signature item.  The output then holds the received values, the flags of the optional
  items and the partner name: the certificate name cut to 20 characters, or the default for an empty one.  The chain id is optional in every
  case: the code does not ask for it in a transaction, where the header requires it.  The one exception is a certificate name of
  all 32 bytes without a zero: when everything else is right, the copy of that name reads past its array.\<close>

theorem transaction_check_spec:
  assumes "payload_ok p" "pki_wf pki"
  shows "if tc_status pki p = 0 \<and> \<not> pki_name_terminated pki then tlv_use_case_transaction_check pki p = None
     else \<exists>out'. tlv_use_case_transaction_check pki p = Some (tc_status pki p, out') \<and>
     (\<forall>es. tlv_split (b_ptr p) = Some es \<longrightarrow> tc_verdict pki es = 0 \<longrightarrow>
        tc_output es out' \<and> tc_flags es out' \<and>
        tc_partner out' = tc_partner_name pki @ replicate (21 - length (tc_partner_name pki)) 0)"
proof -
  have i: "CX_ASSERT (Some cx_sha256_init_no_throw) = Some (snd cx_sha256_init_no_throw)"
    by (simp add: CX_ASSERT_def cx_sha256_init_no_throw_def)
  let ?x = "\<lparr>cx_output = tc_out_zero, cx_structure_type = 0, cx_structure_version = 0, cx_input_sig = buffer_zero,
               cx_hash_ctx = Sha256_ctx (snd cx_sha256_init_no_throw)\<rparr>"
  have "hash_rep CX_SHA256 [] (Sha256_ctx (snd cx_sha256_init_no_throw))"
    using hash_init_rep [of CX_SHA256] by (simp add: hash_allowed_def cx_hash_init_def cx_hash_get_info_def hash_init_func_def)
  then have R: "tc_rel [] (Some ?x)" by (simp add: tc_rel_def tc_fields_def tc_output_def tc_out_zero_def)
  have sz: "length (b_ptr p) = unat (b_size p)" "unat (b_size p) < 2 ^ 31" using assms(1) by (simp_all add: payload_ok_def)
  then have "unat (b_size p) \<le> 2 ^ 31 - 1" by simp
  from tc.parser_spec [OF R assms(1) this] obtain ok rcv s where
      r: "parse_transaction_check_tlv p (Some ?x) = Some (ok, rcv, s)" "s \<noteq> None"
        "ok = (\<exists>es. tlv_split (b_ptr p) = Some es \<and> good_items tc_tags tc_valid {} es)"
        "\<forall>es. ok \<longrightarrow> tlv_split (b_ptr p) = Some es \<longrightarrow> tc_rel es s \<and>
          (\<forall>tags. length tags < 2 ^ 32 \<longrightarrow>
             tlv_check_received_tags rcv tags (of_nat (length tags)) = Some (set tags \<subseteq> dom (tlv_vals es)))"
    unfolding parse_transaction_check_tlv_def by blast
  note run = tlv_use_case_transaction_check_def [of pki p, unfolded i bind.simps r(1) prod.case]
  show ?thesis
  proof (cases ok)
    case False
    then have "tc_status pki p = 1"
      using r(3) by (auto simp: tc_status_def tc_verdict_def split: option.splits)
    moreover obtain y where "s = Some y" using r(2) by blast
    then have "tlv_use_case_transaction_check pki p = Some (1, cx_output y)" using False by (simp add: run)
    moreover have "tc_verdict pki es = 1" if "tlv_split (b_ptr p) = Some es" for es
      using r(3) False that by (auto simp: tc_verdict_def)
    ultimately show ?thesis by simp
  next
    case True
    then obtain es where es: "tlv_split (b_ptr p) = Some es" "good_items tc_tags tc_valid {} es" using r(3) by blast
    obtain x where x: "s = Some x" "hash_rep CX_SHA256 (signed_bytes TC_DER_SIGNATURE es) (cx_hash_ctx x)" "tc_fields es x"
      using r(4) True es(1) by (auto simp: tc_rel_def)
    have tg: "TLV_CHECK_RECEIVED_TAGS rcv tags = Some (set tags \<subseteq> dom (tlv_vals es))" if "length tags < 2 ^ 32" for tags
      using r(4) True es(1) that by (simp add: TLV_CHECK_RECEIVED_TAGS_def)
    obtain x' where x': "tc_verify_struct rcv x = Some (tc_struct_verdict es, x')" "tc_fields es x'"
        "cx_hash_ctx x' = cx_hash_ctx x" "tc_struct_verdict es = 0 \<longrightarrow> tc_flags es (cx_output x')"
      using tc_verify_struct_spec [OF tg x(3)] by blast
    have l: "length (signed_bytes TC_DER_SIGNATURE es) < 2 ^ 31"
      using signed_bytes_length [of TC_DER_SIGNATURE es] raw_bytes_split [OF es(1)] sz by simp
    show ?thesis
    proof (cases "tc_struct_verdict es = 0")
      case False
      then show ?thesis using True x(1) x' es by (simp add: run tc_status_def tc_verdict_def)
    next
      case True
      then have "TC_DER_SIGNATURE \<in> dom (tlv_vals es)" by (auto simp: tc_struct_verdict_def split: if_splits)
      then obtain sig where v: "tlv_vals es TC_DER_SIGNATURE = Some sig" by blast
      have sg: "tc_verify_signature pki x' = Some (tc_verdict pki es)"
        using tc_verify_signature_spec [OF x'(2) _ l assms(2) v] x(2) x'(3) True es(2) v by (simp add: tc_verdict_def Let_def)
      show ?thesis
      proof (cases "tc_verdict pki es = 0")
        case False
        then show ?thesis using \<open>ok\<close> x(1) x' es True sg by (simp add: run tc_status_def)
      next
        case V: True
        have "pki_decision pki CERTIFICATE_PUBLIC_KEY_USAGE_TX_SIMU_SIGNER CX_CURVE_SECP256K1
            (hash_fn CX_SHA256 (signed_bytes TC_DER_SIGNATURE es)) sig = 0"
          using V True es(2) v by (simp add: tc_verdict_def Let_def or_eq_0_iff split: if_splits)
        then have pe: "pki_error pki = 0" by (simp add: pki_decision_0)
        have tp: "tc_partner (cx_output x') = replicate 21 0" using x'(2) by (simp add: tc_fields_def)
        have st: "tc_status pki p = 0" using es(1) V by (simp add: tc_status_def)
        show ?thesis
        proof (cases "pki_name_terminated pki")
          case name: True
          have "tlv_use_case_transaction_check pki p = Some (0, (cx_output x')
              \<lparr>tc_partner := tc_partner_name pki @ replicate (21 - length (tc_partner_name pki)) 0\<rparr>)"
            using \<open>ok\<close> x(1) x'(1) True sg V partner_run [OF assms(2) pe tp name, of "\<lambda>d. (0, (cx_output x')\<lparr>tc_partner := d\<rparr>)"]
            by (simp add: run Let_def)
          then show ?thesis
            using es V x'(2,4) True name st by (auto simp: tc_fields_def tc_output_def tc_flags_def)
        next
          case False
          have "tlv_use_case_transaction_check pki p = None"
            using \<open>ok\<close> x(1) x'(1) True sg V
              partner_overread [OF assms(2) pe False, of "tc_partner (cx_output x')" "\<lambda>d. (0, (cx_output x')\<lparr>tc_partner := d\<rparr>)"]
            by (simp add: run Let_def)
          then show ?thesis using st False by simp
        qed
      qed
    qed
  qed
qed

definition tc_demo_items :: "(TLV_tag_t \<times> bytes) list" where
  "tc_demo_items =
     [(0x01, [9]), (0x02, [1]), (0x22, replicate 20 7), (0x27, replicate 32 1), (0x80, [2]), (0x81, [4]), (0x83, [0x61, 0x62]), (0x84, [0]),
      (0x85, [1, 2, 3]), (0x15, replicate 70 0)]"

definition tc_demo_pki :: os_pki where
  "tc_demo_pki = \<lparr>pki_error = 0, pki_key_usage = 0x0A, pki_name = [0x42, 0x61], pki_curve = 0x21,
     pki_verify = (\<lambda>h s. length h = 32 \<and> s = replicate 70 0)\<rparr>"

lemma tc_demo_split:
  "tlv_split (concat (map tlv_enc tc_demo_items)) = Some (map (\<lambda>e. (fst e, snd e, tlv_enc e)) tc_demo_items)"
  by (rule tlv_split_enc) (simp add: tc_demo_items_def)

lemma tc_demo_vals:
  "tlv_vals (map (\<lambda>e. (fst e, snd e, tlv_enc e)) tc_demo_items) =
     [0x01 \<mapsto> [9], 0x02 \<mapsto> [1], 0x22 \<mapsto> replicate 20 7, 0x27 \<mapsto> replicate 32 1, 0x80 \<mapsto> [2], 0x81 \<mapsto> [4], 0x83 \<mapsto> [0x61, 0x62], 0x84 \<mapsto> [0],
      0x85 \<mapsto> [1, 2, 3], 0x15 \<mapsto> replicate 70 0]"
  by (simp add: tlv_vals_def tc_demo_items_def entry_value_def)

lemma tc_demo_verdict: "tc_verdict tc_demo_pki (map (\<lambda>e. (fst e, snd e, tlv_enc e)) tc_demo_items) = 0"
proof -
  let ?es = "map (\<lambda>e. (fst e, snd e, tlv_enc e)) tc_demo_items"
  have "good_items tc_tags tc_valid {} ?es"
    by (auto simp: good_items_def tc_demo_items_def tc_tags_def tc_valid_def entry_value_def uint_item_def range_item_def text_item_def
        isprint_def intro!: items_ok_distinct)
  moreover have "length (hash_fn CX_SHA256 m) = 32" for m by (simp add: hash_fn_def length_fips_sha256)
  ultimately show ?thesis
    by (simp add: tc_verdict_def tc_struct_verdict_def tc_demo_vals tc_demo_pki_def pki_decision_def
        CERTIFICATE_PUBLIC_KEY_USAGE_TX_SIMU_SIGNER_def CX_CURVE_SECP256K1_def)
qed

theorem transaction_check_spec_witness:
  "\<exists>out'. tlv_use_case_transaction_check tc_demo_pki
       (buffer_create (concat (map tlv_enc tc_demo_items)) (of_nat (length (concat (map tlv_enc tc_demo_items))))) = Some (0, out') \<and>
     unat (tc_risk out') = 2 \<and> tc_additional_data_received out' \<and> take 3 (tc_partner out') = [0x42, 0x61, 0]"
proof -
  let ?bs = "concat (map tlv_enc tc_demo_items)"
  have l: "length ?bs < 2 ^ 31" by (simp add: tc_demo_items_def tlv_enc_def der_enc_def)
  have "unat (of_nat (length ?bs) :: size_t) = length ?bs" using l by (intro unat_of_nat_small) simp
  with l have p: "payload_ok (buffer_create ?bs (of_nat (length ?bs)))" by (simp add: payload_ok_def buffer_create_def)
  have n: "tc_partner_name tc_demo_pki = [0x42, 0x61]" by (simp add: tc_partner_name_def tc_demo_pki_def)
  have "tc_status tc_demo_pki (buffer_create ?bs (of_nat (length ?bs))) = 0"
    using tc_demo_split tc_demo_verdict by (simp add: tc_status_def buffer_create_def)
  then show ?thesis
    using transaction_check_spec [OF p, of tc_demo_pki] tc_demo_split tc_demo_verdict tc_demo_vals n
    by (auto simp: pki_wf_def pki_name_terminated_def tc_demo_pki_def CERTIFICATE_TRUSTED_NAME_MAXLEN_def buffer_create_def tc_output_def tc_flags_def
        numeral_3_eq_3)
qed

end
