(* ===== verification/Ccid.thy ===== *)
theory Ccid
  imports Endian
begin

text \<open>
  The smart-card reader class: the bulk transport of \<^verbatim>\<open>lib_ccid/src/ccid_transport.c\<close> and the
  commands of \<^verbatim>\<open>lib_ccid/src/ccid_cmd.c\<close>, with the types of
  \<^verbatim>\<open>lib_ccid/include/ccid_types.h\<close>.

  The union \<open>ccid_msg_bulk_header_t\<close> overlays the request and the response header, which have their
  first five fields in common, so it is one record: the length of a response overwrites the length of
  the request, as it does in memory.  The message to send is a pointer that may be the reception
  buffer itself, so \<open>tx_message_buffer\<close> says which memory it reads.  \<^term>\<open>None\<close> is an access
  outside a buffer.
\<close>

section \<open>Types\<close>

abbreviation (input) CCID_COMMAND_PC_TO_RDR_SET_PARAMETERS :: u8 where "CCID_COMMAND_PC_TO_RDR_SET_PARAMETERS \<equiv> 0x61"
abbreviation (input) CCID_COMMAND_PC_TO_RDR_ICC_POWER_ON :: u8 where "CCID_COMMAND_PC_TO_RDR_ICC_POWER_ON \<equiv> 0x62"
abbreviation (input) CCID_COMMAND_PC_TO_RDR_ICC_POWER_OFF :: u8 where "CCID_COMMAND_PC_TO_RDR_ICC_POWER_OFF \<equiv> 0x63"
abbreviation (input) CCID_COMMAND_PC_TO_RDR_GET_SLOT_STATUS :: u8 where "CCID_COMMAND_PC_TO_RDR_GET_SLOT_STATUS \<equiv> 0x65"
abbreviation (input) CCID_COMMAND_PC_TO_RDR_SECURE :: u8 where "CCID_COMMAND_PC_TO_RDR_SECURE \<equiv> 0x69"
abbreviation (input) CCID_COMMAND_PC_TO_RDR_T0_APDU :: u8 where "CCID_COMMAND_PC_TO_RDR_T0_APDU \<equiv> 0x6A"
abbreviation (input) CCID_COMMAND_PC_TO_RDR_ESCAPE :: u8 where "CCID_COMMAND_PC_TO_RDR_ESCAPE \<equiv> 0x6B"
abbreviation (input) CCID_COMMAND_PC_TO_RDR_GET_PARAMETERS :: u8 where "CCID_COMMAND_PC_TO_RDR_GET_PARAMETERS \<equiv> 0x6C"
abbreviation (input) CCID_COMMAND_PC_TO_RDR_RESET_PARAMETERS :: u8 where "CCID_COMMAND_PC_TO_RDR_RESET_PARAMETERS \<equiv> 0x6D"
abbreviation (input) CCID_COMMAND_PC_TO_RDR_ICC_CLOCK :: u8 where "CCID_COMMAND_PC_TO_RDR_ICC_CLOCK \<equiv> 0x6E"
abbreviation (input) CCID_COMMAND_PC_TO_RDR_XFR_BLOCK :: u8 where "CCID_COMMAND_PC_TO_RDR_XFR_BLOCK \<equiv> 0x6F"
abbreviation (input) CCID_COMMAND_PC_TO_RDR_MECHANICAL :: u8 where "CCID_COMMAND_PC_TO_RDR_MECHANICAL \<equiv> 0x71"
abbreviation (input) CCID_COMMAND_PC_TO_RDR_ABORT :: u8 where "CCID_COMMAND_PC_TO_RDR_ABORT \<equiv> 0x72"
abbreviation (input) CCID_COMMAND_PC_TO_RDR_SET_DR_CLK_FREQ :: u8 where "CCID_COMMAND_PC_TO_RDR_SET_DR_CLK_FREQ \<equiv> 0x73"
abbreviation (input) CCID_COMMAND_RDR_TO_PC_DATA_BLOCK :: u8 where "CCID_COMMAND_RDR_TO_PC_DATA_BLOCK \<equiv> 0x80"
abbreviation (input) CCID_COMMAND_RDR_TO_PC_SLOT_STATUS :: u8 where "CCID_COMMAND_RDR_TO_PC_SLOT_STATUS \<equiv> 0x81"
abbreviation (input) CCID_COMMAND_RDR_TO_PC_PARAMETERS :: u8 where "CCID_COMMAND_RDR_TO_PC_PARAMETERS \<equiv> 0x82"
abbreviation (input) CCID_COMMAND_RDR_TO_PC_ESCAPE :: u8 where "CCID_COMMAND_RDR_TO_PC_ESCAPE \<equiv> 0x83"
abbreviation (input) CCID_COMMAND_RDR_TO_PC_DR_CLK_FREQ :: u8 where "CCID_COMMAND_RDR_TO_PC_DR_CLK_FREQ \<equiv> 0x84"

abbreviation (input) CCID_SLOT_STATUS_ICC_PRESENT_AND_ACTIVE :: u8 where "CCID_SLOT_STATUS_ICC_PRESENT_AND_ACTIVE \<equiv> 0x00"
abbreviation (input) CCID_SLOT_STATUS_ICC_PRESENT_AND_INACTIVE :: u8 where "CCID_SLOT_STATUS_ICC_PRESENT_AND_INACTIVE \<equiv> 0x01"
abbreviation (input) CCID_SLOT_STATUS_ICC_NOT_PRESENT :: u8 where "CCID_SLOT_STATUS_ICC_NOT_PRESENT \<equiv> 0x02"
abbreviation (input) CCID_SLOT_STATUS_CMD_PROCESSED_WITHOUT_ERROR :: u8 where "CCID_SLOT_STATUS_CMD_PROCESSED_WITHOUT_ERROR \<equiv> 0x00"
abbreviation (input) CCID_SLOT_STATUS_CMD_FAILED :: u8 where "CCID_SLOT_STATUS_CMD_FAILED \<equiv> 0x40"

abbreviation (input) CCID_ERROR_CMD_ABORTED :: u8 where "CCID_ERROR_CMD_ABORTED \<equiv> 0xFF"
abbreviation (input) CCID_ERROR_ICC_MUTE :: u8 where "CCID_ERROR_ICC_MUTE \<equiv> 0xFE"
abbreviation (input) CCID_ERROR_CMD_NOT_SUPPORTED :: u8 where "CCID_ERROR_CMD_NOT_SUPPORTED \<equiv> 0x00"
abbreviation (input) CCID_ERROR_CMD_BAD_DWLENGTH :: u8 where "CCID_ERROR_CMD_BAD_DWLENGTH \<equiv> 0x01"
abbreviation (input) CCID_ERROR_CMD_SLOT_DOES_NOT_EXIST :: u8 where "CCID_ERROR_CMD_SLOT_DOES_NOT_EXIST \<equiv> 0x05"
abbreviation (input) CCID_ERROR_CMD_BAD_POWER_SELECT :: u8 where "CCID_ERROR_CMD_BAD_POWER_SELECT \<equiv> 0x07"
abbreviation (input) CCID_ERROR_CMD_INVALID_PROTOCOL :: u8 where "CCID_ERROR_CMD_INVALID_PROTOCOL \<equiv> 0x07"
abbreviation (input) CCID_ERROR_CMD_INVALID_CLOCK_STOP :: u8 where "CCID_ERROR_CMD_INVALID_CLOCK_STOP \<equiv> 0x0E"
abbreviation (input) CCID_ERROR_CMD_NO_ERROR :: u8 where "CCID_ERROR_CMD_NO_ERROR \<equiv> 0x81"

datatype ccid_msg_status_e =
    CCID_MSG_STATUS_WAITING | CCID_MSG_STATUS_NEED_MORE_DATA | CCID_MSG_STATUS_COMPLETE
  | CCID_MSG_STATUS_PROCESSING

record ccid_msg_bulk_header_t =
  msg_type :: u8
  hdr_length :: u32
  slot_number :: u8
  seq_number :: u8
  out_specific :: bytes
  in_status :: u8
  in_error :: u8
  in_specific :: u8

record ccid_protocol_data_t0_t =
  bmFindexDindex :: u8
  bmTCCKST0 :: u8
  bGuardTimeT0 :: u8
  bWaitingIntegerT0 :: u8
  bClockStop :: u8

text \<open>The memory a message is sent from: a buffer of the caller, or the reception buffer.\<close>

datatype ccid_tx_source = Tx_bytes bytes | Tx_rx_msg_buffer

record ccid_transport_t =
  rx_msg_status :: ccid_msg_status_e
  rx_msg_buffer :: bytes
  rx_msg_buffer_size :: u16
  rx_msg_length :: u16
  rx_msg_apdu_offset :: u16
  bulk_msg_header :: ccid_msg_bulk_header_t
  ccid_tx_message_buffer :: "ccid_tx_source option"
  ccid_tx_message_length :: u16
  ccid_tx_message_offset :: u16
  ccid_tx_packet_length :: u8
  protocol_data :: ccid_protocol_data_t0_t
  clock_frequency :: u32
  data_rate :: u32

record ccid_abort_t =
  abort_requested :: u8
  abort_seq :: u8

datatype ccid_slot_status_e = CCID_SLOT_STATUS_IDLE | CCID_SLOT_STATUS_BUSY

record ccid_device_t =
  card_inserted :: u8
  slot_status :: ccid_slot_status_e
  transport :: ccid_transport_t
  ccid_abort :: ccid_abort_t

definition tx_source :: "ccid_transport_t \<Rightarrow> ccid_tx_source \<Rightarrow> bytes" where
  "tx_source h s = (case s of Tx_bytes b \<Rightarrow> b | Tx_rx_msg_buffer \<Rightarrow> rx_msg_buffer h)"

section \<open>Transport\<close>

definition CCID_TRANSPORT_reset_parameters :: "ccid_transport_t \<Rightarrow> ccid_transport_t" where
  "CCID_TRANSPORT_reset_parameters h =
     h\<lparr>protocol_data := \<lparr>bmFindexDindex = 0x11, bmTCCKST0 = 0x00, bGuardTimeT0 = 0x00,
                         bWaitingIntegerT0 = 0x0A, bClockStop = 0x00\<rparr>\<rparr>"

definition CCID_TRANSPORT_init :: "ccid_transport_t \<Rightarrow> ccid_transport_t" where
  "CCID_TRANSPORT_init h = CCID_TRANSPORT_reset_parameters (h\<lparr>rx_msg_status := CCID_MSG_STATUS_WAITING\<rparr>)"

text \<open>The first packet of a message: the header, and as much of the message as the packet holds.\<close>

definition ccid_rx_first :: "ccid_transport_t \<Rightarrow> bytes \<Rightarrow> u16 \<Rightarrow> ccid_transport_t option" where
  "ccid_rx_first h buffer len =
     (if len < 10 then Some h
      else do {
        b0 \<leftarrow> ld buffer 0;
        l \<leftarrow> U4LE buffer 1;
        b5 \<leftarrow> ld buffer 5;
        b6 \<leftarrow> ld buffer 6;
        sp \<leftarrow> ld_n buffer 7 3;
        let h = h\<lparr>bulk_msg_header := (bulk_msg_header h)
                    \<lparr>msg_type := b0, hdr_length := l, slot_number := b5, seq_number := b6, out_specific := sp\<rparr>\<rparr>;
        if unat l > unat (rx_msg_buffer_size h) then Some h
        else do {
          let h = h\<lparr>rx_msg_length := len - 10\<rparr>;
          let h = (if unat l \<le> unat (rx_msg_length h)
                   then h\<lparr>rx_msg_length := ucast l, rx_msg_status := CCID_MSG_STATUS_COMPLETE, rx_msg_apdu_offset := 0\<rparr>
                   else h\<lparr>rx_msg_status := CCID_MSG_STATUS_NEED_MORE_DATA\<rparr>);
          m \<leftarrow> memcpy_n (rx_msg_buffer h) 0 buffer 10 (unat (rx_msg_length h));
          Some (h\<lparr>rx_msg_buffer := m\<rparr>) } })"

text \<open>A packet that continues the message; \<open>__builtin_sub_overflow\<close> and \<open>__builtin_add_overflow\<close> into a
  \<open>uint16_t\<close> are the tests of the exact result against \<open>0\<close> and \<open>65535\<close>.\<close>

definition ccid_rx_more :: "ccid_transport_t \<Rightarrow> bytes \<Rightarrow> u16 \<Rightarrow> ccid_transport_t option" where
  "ccid_rx_more h buffer len =
     (let l = unat (hdr_length (bulk_msg_header h)); r = unat (rx_msg_length h);
          sz = unat (rx_msg_buffer_size h) in
      if l \<le> r + unat len then
        (if l < r \<or> l - r > 65535 \<or> sz \<le> l - r then Some h
         else do {
           m \<leftarrow> memcpy_n (rx_msg_buffer h) r buffer 0 (l - r);
           Some (h\<lparr>rx_msg_buffer := m, rx_msg_length := ucast (hdr_length (bulk_msg_header h)),
                   rx_msg_status := CCID_MSG_STATUS_COMPLETE, rx_msg_apdu_offset := 0\<rparr>) })
      else if unat len + r > 65535 \<or> sz \<le> unat len + r then Some h
      else do {
        m \<leftarrow> memcpy_n (rx_msg_buffer h) r buffer 0 (unat len);
        Some (h\<lparr>rx_msg_buffer := m, rx_msg_length := rx_msg_length h + len\<rparr>) })"

definition CCID_TRANSPORT_rx :: "ccid_transport_t \<Rightarrow> bytes option \<Rightarrow> u16 \<Rightarrow> ccid_transport_t option" where
  "CCID_TRANSPORT_rx h buffer len =
     (case buffer of
        None \<Rightarrow> Some h
      | Some b \<Rightarrow>
          (case rx_msg_status h of
             CCID_MSG_STATUS_WAITING \<Rightarrow> ccid_rx_first h b len
           | CCID_MSG_STATUS_NEED_MORE_DATA \<Rightarrow> ccid_rx_more h b len
           | _ \<Rightarrow> Some h))"

text \<open>The end of \<open>CCID_TRANSPORT_tx\<close>: the header is written and \<open>off\<close> is \<open>tx_packet_offset\<close>.\<close>

definition ccid_tx_fill ::
  "ccid_transport_t \<Rightarrow> bytes \<Rightarrow> u16 \<Rightarrow> u16 \<Rightarrow> (ccid_transport_t \<times> bytes) option" where
  "ccid_tx_fill h pkt psize off = do {
     s \<leftarrow> ccid_tx_message_buffer h;
     let src = tx_source h s;
     if unat (ccid_tx_message_length h) + unat off \<ge> unat psize + unat (ccid_tx_message_offset h) then
       (if psize < off then None
        else do {
          pkt \<leftarrow> memcpy_n pkt (unat off) src (unat (ccid_tx_message_offset h)) (unat psize - unat off);
          Some (h\<lparr>ccid_tx_message_offset := ccid_tx_message_offset h + (psize - off),
                  ccid_tx_packet_length := ucast psize\<rparr>, pkt) })
     else if ccid_tx_message_length h < ccid_tx_message_offset h then None
     else do {
       pkt \<leftarrow> memcpy_n pkt (unat off) src (unat (ccid_tx_message_offset h))
               (unat (ccid_tx_message_length h) - unat (ccid_tx_message_offset h));
       Some (h\<lparr>ccid_tx_message_offset := ccid_tx_message_length h, ccid_tx_message_buffer := None,
               rx_msg_status := CCID_MSG_STATUS_WAITING,
               ccid_tx_packet_length :=
                 ucast (off + (ccid_tx_message_length h - ccid_tx_message_offset h))\<rparr>, pkt) } }"

definition ccid_tx_header :: "ccid_msg_bulk_header_t \<Rightarrow> bytes \<Rightarrow> bytes option" where
  "ccid_tx_header i pkt = do {
     pkt \<leftarrow> st pkt 0 (msg_type i);
     pkt \<leftarrow> U4LE_ENCODE pkt 1 (hdr_length i);
     pkt \<leftarrow> st pkt 5 (slot_number i);
     pkt \<leftarrow> st pkt 6 (seq_number i);
     pkt \<leftarrow> st pkt 7 (in_status i);
     pkt \<leftarrow> st pkt 8 (in_error i);
     st pkt 9 (in_specific i) }"

definition CCID_TRANSPORT_tx ::
  "ccid_transport_t \<Rightarrow> ccid_tx_source option \<Rightarrow> u16 \<Rightarrow> bytes \<Rightarrow> u16 \<Rightarrow> (ccid_transport_t \<times> bytes) option" where
  "CCID_TRANSPORT_tx h buffer len pkt psize =
     (if buffer = None \<and> ccid_tx_message_buffer h = None then Some (h, pkt)
      else do {
        let h = (if buffer = None then h
                 else h\<lparr>ccid_tx_message_buffer := buffer, ccid_tx_message_length := len, ccid_tx_message_offset := 0,
                        bulk_msg_header := (bulk_msg_header h)\<lparr>hdr_length := ucast len\<rparr>\<rparr>);
        pkt \<leftarrow> memset_n pkt 0 0 (unat psize);
        (pkt, off) \<leftarrow> (if buffer = None then Some (pkt, 0)
           else do { pkt \<leftarrow> ccid_tx_header (bulk_msg_header h) pkt; Some (pkt, 10) });
        ccid_tx_fill h pkt psize off })"

section \<open>Commands\<close>

text \<open>Updates of the header and of the reception buffer of a device, and a failure of the command.\<close>

definition dev_hdr :: "ccid_device_t \<Rightarrow> ccid_msg_bulk_header_t" where
  "dev_hdr d = bulk_msg_header (transport d)"

definition upd_hdr :: "(ccid_msg_bulk_header_t \<Rightarrow> ccid_msg_bulk_header_t) \<Rightarrow> ccid_device_t \<Rightarrow> ccid_device_t" where
  "upd_hdr f d = d\<lparr>transport := (transport d)\<lparr>bulk_msg_header := f (dev_hdr d)\<rparr>\<rparr>"

definition upd_buf :: "bytes \<Rightarrow> ccid_device_t \<Rightarrow> ccid_device_t" where
  "upd_buf m d = d\<lparr>transport := (transport d)\<lparr>rx_msg_buffer := m\<rparr>\<rparr>"

definition ccid_fail :: "u8 \<Rightarrow> u8 \<Rightarrow> ccid_device_t \<Rightarrow> ccid_device_t" where
  "ccid_fail icc err = upd_hdr (\<lambda>i. i\<lparr>in_status := icc OR CCID_SLOT_STATUS_CMD_FAILED, in_error := err\<rparr>)"

definition ccid_cmd_check_length :: "ccid_device_t \<Rightarrow> u32 \<Rightarrow> bool \<times> ccid_device_t" where
  "ccid_cmd_check_length d mx =
     (if hdr_length (dev_hdr d) > mx
      then (True, ccid_fail CCID_SLOT_STATUS_ICC_PRESENT_AND_INACTIVE CCID_ERROR_CMD_BAD_DWLENGTH d)
      else (False, d))"

text \<open>The guard most handlers open with: an error found earlier, or a message that is too long.\<close>

definition ccid_guard :: "ccid_device_t \<Rightarrow> u32 \<Rightarrow> bool \<times> ccid_device_t" where
  "ccid_guard d mx =
     (if in_error (dev_hdr d) \<noteq> CCID_ERROR_CMD_NO_ERROR then (True, d) else ccid_cmd_check_length d mx)"

definition RDR_to_PC_DataBlock :: "ccid_device_t \<Rightarrow> ccid_device_t" where
  "RDR_to_PC_DataBlock =
     upd_hdr (\<lambda>i. if in_error i \<noteq> CCID_ERROR_CMD_NO_ERROR
                  then i\<lparr>msg_type := CCID_COMMAND_RDR_TO_PC_DATA_BLOCK, hdr_length := 0\<rparr>
                  else i\<lparr>msg_type := CCID_COMMAND_RDR_TO_PC_DATA_BLOCK, in_specific := 0\<rparr>)"

definition RDR_to_PC_SlotStatus :: "ccid_device_t \<Rightarrow> ccid_device_t" where
  "RDR_to_PC_SlotStatus =
     upd_hdr (\<lambda>i. i\<lparr>msg_type := CCID_COMMAND_RDR_TO_PC_SLOT_STATUS, hdr_length := 0, in_specific := 0\<rparr>)"

definition RDR_to_PC_Parameters :: "ccid_device_t \<Rightarrow> ccid_device_t option" where
  "RDR_to_PC_Parameters d =
     (let d = upd_hdr (\<lambda>i. i\<lparr>msg_type := CCID_COMMAND_RDR_TO_PC_PARAMETERS\<rparr>) d in
      if in_error (dev_hdr d) \<noteq> CCID_ERROR_CMD_NO_ERROR then Some (upd_hdr (\<lambda>i. i\<lparr>hdr_length := 0\<rparr>) d)
      else do {
        let d = upd_hdr (\<lambda>i. i\<lparr>in_specific := 0\<rparr>) d;
        let p = protocol_data (transport d);
        m \<leftarrow> st (rx_msg_buffer (transport d)) 0 (bmFindexDindex p);
        m \<leftarrow> st m 1 (bmTCCKST0 p);
        m \<leftarrow> st m 2 (bGuardTimeT0 p);
        m \<leftarrow> st m 3 (bWaitingIntegerT0 p);
        m \<leftarrow> st m 4 (bClockStop p);
        Some (upd_hdr (\<lambda>i. i\<lparr>hdr_length := 5\<rparr>) (upd_buf m d)) })"

definition RDR_to_PC_Escape :: "ccid_device_t \<Rightarrow> ccid_device_t" where
  "RDR_to_PC_Escape = upd_hdr (\<lambda>i. i\<lparr>msg_type := CCID_COMMAND_RDR_TO_PC_ESCAPE, in_specific := 0\<rparr>)"

definition RDR_to_PC_DataRateAndClockFrequency :: "ccid_device_t \<Rightarrow> ccid_device_t" where
  "RDR_to_PC_DataRateAndClockFrequency =
     upd_hdr (\<lambda>i. if in_error i \<noteq> CCID_ERROR_CMD_NO_ERROR
                  then i\<lparr>msg_type := CCID_COMMAND_RDR_TO_PC_DR_CLK_FREQ, hdr_length := 0\<rparr>
                  else i\<lparr>msg_type := CCID_COMMAND_RDR_TO_PC_DR_CLK_FREQ, in_specific := 0\<rparr>)"

definition CCID_CMD_abort :: "ccid_device_t \<Rightarrow> u8 \<Rightarrow> u8 \<Rightarrow> u8 \<times> ccid_device_t" where
  "CCID_CMD_abort d slot sq =
     (if slot > 0 then (1, d)
      else if abort_requested (ccid_abort d) = 0
      then (0, d\<lparr>ccid_abort := \<lparr>abort_requested = 1, abort_seq = sq\<rparr>\<rparr>)
      else if abort_seq (ccid_abort d) = sq
      then (0, d\<lparr>ccid_abort := (ccid_abort d)\<lparr>abort_requested := 0\<rparr>\<rparr>)
      else (0, d))"

definition PC_to_RDR_IccPowerOn :: "ccid_device_t \<Rightarrow> ccid_device_t option" where
  "PC_to_RDR_IccPowerOn d = do {
     let (bad, d) = ccid_guard d 0;
     d \<leftarrow> (if bad then Some d
           else if abort_requested (ccid_abort d) \<noteq> 0
           then Some (ccid_fail CCID_SLOT_STATUS_ICC_PRESENT_AND_INACTIVE CCID_ERROR_CMD_ABORTED d)
           else do {
             bPowerSelect \<leftarrow> ld (out_specific (dev_hdr d)) 0;
             if bPowerSelect \<ge> 4
             then Some (ccid_fail CCID_SLOT_STATUS_ICC_PRESENT_AND_INACTIVE CCID_ERROR_CMD_BAD_POWER_SELECT d)
             else do {
               m \<leftarrow> st (rx_msg_buffer (transport d)) 0 0x3B;
               m \<leftarrow> st m 1 0x00;
               Some (upd_buf m (upd_hdr (\<lambda>i. i\<lparr>hdr_length := 2\<rparr>) d)) } });
     Some (RDR_to_PC_DataBlock d) }"

definition PC_to_RDR_IccPowerOff :: "ccid_device_t \<Rightarrow> ccid_device_t option" where
  "PC_to_RDR_IccPowerOff d =
     (let (bad, d) = ccid_guard d 0;
          d = (if \<not> bad \<and> card_inserted d = 0
               then upd_hdr (\<lambda>i. i\<lparr>in_status := CCID_SLOT_STATUS_ICC_PRESENT_AND_INACTIVE OR
                                                 CCID_SLOT_STATUS_CMD_PROCESSED_WITHOUT_ERROR\<rparr>) d
               else d)
      in Some (RDR_to_PC_SlotStatus d))"

definition PC_to_RDR_GetSlotStatus :: "ccid_device_t \<Rightarrow> ccid_device_t option" where
  "PC_to_RDR_GetSlotStatus d =
     (let d = (if in_error (dev_hdr d) \<noteq> CCID_ERROR_CMD_NO_ERROR then snd (ccid_cmd_check_length d 0) else d)
      in Some (RDR_to_PC_SlotStatus d))"

definition PC_to_RDR_XfrBlock :: "ccid_device_t \<Rightarrow> (int \<times> ccid_device_t) option" where
  "PC_to_RDR_XfrBlock d = do {
     let (bad, d) = ccid_guard d 261;
     (status, d) \<leftarrow>
       (if bad then Some (0, d)
        else if abort_requested (ccid_abort d) \<noteq> 0
        then Some (0, ccid_fail CCID_SLOT_STATUS_ICC_PRESENT_AND_INACTIVE CCID_ERROR_CMD_ABORTED d)
        else do {
          let d = (if hdr_length (dev_hdr d) + 10 > ucast (rx_msg_buffer_size (transport d))
                   then ccid_fail CCID_SLOT_STATUS_ICC_PRESENT_AND_INACTIVE CCID_ERROR_CMD_BAD_DWLENGTH d
                   else d);
          w \<leftarrow> U2LE (out_specific (dev_hdr d)) 1;
          Some (1, upd_hdr (\<lambda>i. i\<lparr>hdr_length := ucast w\<rparr>) d) });
     Some (status, if status = 0 then RDR_to_PC_DataBlock d
                   else upd_hdr (\<lambda>i. i\<lparr>msg_type := CCID_COMMAND_RDR_TO_PC_DATA_BLOCK\<rparr>) d) }"

definition PC_to_RDR_GetParameters :: "ccid_device_t \<Rightarrow> ccid_device_t option" where
  "PC_to_RDR_GetParameters d =
     RDR_to_PC_Parameters
       (if in_error (dev_hdr d) \<noteq> CCID_ERROR_CMD_NO_ERROR then snd (ccid_cmd_check_length d 0) else d)"

definition PC_to_RDR_ResetParameters :: "ccid_device_t \<Rightarrow> ccid_device_t option" where
  "PC_to_RDR_ResetParameters d =
     (let (bad, d) = ccid_guard d 0
      in RDR_to_PC_Parameters
           (if bad then d else d\<lparr>transport := CCID_TRANSPORT_reset_parameters (transport d)\<rparr>))"

definition PC_to_RDR_SetParameters :: "ccid_device_t \<Rightarrow> ccid_device_t option" where
  "PC_to_RDR_SetParameters d = do {
     d \<leftarrow>
       (if in_error (dev_hdr d) \<noteq> CCID_ERROR_CMD_NO_ERROR then Some d
        else do {
          s0 \<leftarrow> ld (out_specific (dev_hdr d)) 0;
          if s0 \<noteq> 0 then Some (ccid_fail CCID_SLOT_STATUS_ICC_PRESENT_AND_ACTIVE CCID_ERROR_CMD_INVALID_PROTOCOL d)
          else if hdr_length (dev_hdr d) \<noteq> 5 \<or> rx_msg_length (transport d) \<noteq> 5
          then Some (ccid_fail CCID_SLOT_STATUS_ICC_PRESENT_AND_ACTIVE CCID_ERROR_CMD_BAD_DWLENGTH d)
          else do {
            let m = rx_msg_buffer (transport d);
            b4 \<leftarrow> ld m 4;
            if b4 \<noteq> 0
            then Some (ccid_fail CCID_SLOT_STATUS_ICC_PRESENT_AND_ACTIVE CCID_ERROR_CMD_INVALID_CLOCK_STOP d)
            else do {
              b0 \<leftarrow> ld m 0; b1 \<leftarrow> ld m 1; b2 \<leftarrow> ld m 2; b3 \<leftarrow> ld m 3;
              Some (d\<lparr>transport := (transport d)\<lparr>protocol_data :=
                     \<lparr>bmFindexDindex = b0, bmTCCKST0 = b1, bGuardTimeT0 = b2, bWaitingIntegerT0 = b3,
                      bClockStop = b4\<rparr>\<rparr>\<rparr>) } } });
     RDR_to_PC_Parameters d }"

definition PC_to_RDR_Escape :: "ccid_device_t \<Rightarrow> ccid_device_t option" where
  "PC_to_RDR_Escape d =
     (let d = (if in_error (dev_hdr d) \<noteq> CCID_ERROR_CMD_NO_ERROR then d
               else if abort_requested (ccid_abort d) \<noteq> 0
               then ccid_fail CCID_SLOT_STATUS_ICC_PRESENT_AND_INACTIVE CCID_ERROR_CMD_ABORTED d
               else upd_hdr (\<lambda>i. i\<lparr>hdr_length := 0\<rparr>) d)
      in Some (RDR_to_PC_Escape d))"

definition PC_to_RDR_IccClock :: "ccid_device_t \<Rightarrow> ccid_device_t option" where
  "PC_to_RDR_IccClock d = do {
     let (bad, d) = ccid_guard d 0;
     d \<leftarrow> (if bad then Some d
           else do {
             s0 \<leftarrow> ld (out_specific (dev_hdr d)) 0;
             Some (if s0 \<noteq> 0 then ccid_fail CCID_SLOT_STATUS_ICC_PRESENT_AND_ACTIVE CCID_ERROR_CMD_NOT_SUPPORTED d
                   else d) });
     Some (RDR_to_PC_SlotStatus d) }"

definition PC_to_RDR_T0APDU :: "ccid_device_t \<Rightarrow> ccid_device_t option" where
  "PC_to_RDR_T0APDU d = do {
     let (bad, d) = ccid_guard d 0;
     d \<leftarrow> (if bad then Some d
           else if abort_requested (ccid_abort d) \<noteq> 0
           then Some (ccid_fail CCID_SLOT_STATUS_ICC_PRESENT_AND_INACTIVE CCID_ERROR_CMD_ABORTED d)
           else do {
             s0 \<leftarrow> ld (out_specific (dev_hdr d)) 0;
             Some (if s0 > 3 then ccid_fail CCID_SLOT_STATUS_ICC_PRESENT_AND_ACTIVE CCID_ERROR_CMD_NOT_SUPPORTED d
                   else d) });
     Some (RDR_to_PC_SlotStatus d) }"

text \<open>The place of the APDU in a PIN verification or modification block; \<^term>\<open>Inl ()\<close> is an operation
  that is not supported.\<close>

definition secure_apdu_offset :: "bytes \<Rightarrow> (unit + nat) option" where
  "secure_apdu_offset m = do {
     bPINOperation \<leftarrow> ld m 0;
     if bPINOperation = 0x00 then Some (Inr 15)
     else if bPINOperation = 0x01 then do {
       bNumberMessage \<leftarrow> ld m 11;
       Some (if bNumberMessage = 0x00 then Inr 18
             else if bNumberMessage = 0x01 \<or> bNumberMessage = 0x02 then Inr 19
             else if bNumberMessage = 0x03 then Inr 20
             else Inl ()) }
     else Some (Inl ()) }"

definition PC_to_RDR_Secure :: "ccid_device_t \<Rightarrow> (int \<times> ccid_device_t) option" where
  "PC_to_RDR_Secure d = do {
     (status, d) \<leftarrow>
       (if in_error (dev_hdr d) \<noteq> CCID_ERROR_CMD_NO_ERROR then Some (0, d)
        else if abort_requested (ccid_abort d) \<noteq> 0
        then Some (0, ccid_fail CCID_SLOT_STATUS_ICC_PRESENT_AND_INACTIVE CCID_ERROR_CMD_ABORTED d)
        else do {
          wLevelParameter \<leftarrow> U2LE (out_specific (dev_hdr d)) 1;
          if wLevelParameter \<noteq> 0
          then Some (0, ccid_fail CCID_SLOT_STATUS_ICC_PRESENT_AND_ACTIVE CCID_ERROR_CMD_NOT_SUPPORTED d)
          else do {
            let m = rx_msg_buffer (transport d);
            r \<leftarrow> secure_apdu_offset m;
            (case r of
               Inl _ \<Rightarrow> Some (0, ccid_fail CCID_SLOT_STATUS_ICC_PRESENT_AND_ACTIVE CCID_ERROR_CMD_NOT_SUPPORTED d)
             | Inr apdu_offset \<Rightarrow> do {
                 m \<leftarrow> memcpy_n m 0 m apdu_offset 5;
                 m \<leftarrow> st m 0 0xEF;
                 let d = upd_hdr (\<lambda>i. i\<lparr>hdr_length := 5\<rparr>) d;
                 Some (1, d\<lparr>transport := (transport d)\<lparr>rx_msg_length := 5, rx_msg_buffer := m\<rparr>\<rparr>) }) } });
     Some (status, if status = 0 then RDR_to_PC_DataBlock d
                   else upd_hdr (\<lambda>i. i\<lparr>msg_type := CCID_COMMAND_RDR_TO_PC_DATA_BLOCK\<rparr>) d) }"

definition PC_to_RDR_Mechanical :: "ccid_device_t \<Rightarrow> ccid_device_t option" where
  "PC_to_RDR_Mechanical d = do {
     let (bad, d) = ccid_guard d 0;
     d \<leftarrow> (if bad then Some d
           else do {
             s0 \<leftarrow> ld (out_specific (dev_hdr d)) 0;
             Some (if s0 > 5 then ccid_fail CCID_SLOT_STATUS_ICC_PRESENT_AND_ACTIVE CCID_ERROR_CMD_NOT_SUPPORTED d
                   else d) });
     Some (RDR_to_PC_SlotStatus d) }"

definition PC_to_RDR_Abort :: "ccid_device_t \<Rightarrow> ccid_device_t option" where
  "PC_to_RDR_Abort d =
     (let (bad, d) = ccid_guard d 0;
          d = (if bad then d else snd (CCID_CMD_abort d (slot_number (dev_hdr d)) (seq_number (dev_hdr d))))
      in Some (RDR_to_PC_SlotStatus d))"

definition PC_to_RDR_SetDataRateAndClockFrequency :: "ccid_device_t \<Rightarrow> ccid_device_t option" where
  "PC_to_RDR_SetDataRateAndClockFrequency d = do {
     d \<leftarrow>
       (if in_error (dev_hdr d) \<noteq> CCID_ERROR_CMD_NO_ERROR then Some d
        else if hdr_length (dev_hdr d) \<noteq> 8
        then Some (ccid_fail CCID_SLOT_STATUS_ICC_PRESENT_AND_INACTIVE CCID_ERROR_CMD_BAD_DWLENGTH d)
        else do {
          f \<leftarrow> U4LE (rx_msg_buffer (transport d)) 0;
          r \<leftarrow> U4LE (rx_msg_buffer (transport d)) 4;
          Some (upd_hdr (\<lambda>i. i\<lparr>hdr_length := 8\<rparr>)
                  (d\<lparr>transport := (transport d)\<lparr>clock_frequency := f, data_rate := r\<rparr>\<rparr>)) });
     Some (RDR_to_PC_DataRateAndClockFrequency d) }"

text \<open>The check of the slot and of the card, which the USB class makes once more before the command.\<close>

definition ccid_check_slot :: "ccid_device_t \<Rightarrow> ccid_device_t" where
  "ccid_check_slot d =
     (if slot_number (dev_hdr d) > 1
      then ccid_fail CCID_SLOT_STATUS_ICC_NOT_PRESENT CCID_ERROR_CMD_SLOT_DOES_NOT_EXIST d
      else if card_inserted d = 0 \<and> msg_type (dev_hdr d) \<noteq> CCID_COMMAND_PC_TO_RDR_ICC_POWER_OFF \<and>
              msg_type (dev_hdr d) \<noteq> CCID_COMMAND_PC_TO_RDR_ABORT
      then ccid_fail CCID_SLOT_STATUS_ICC_NOT_PRESENT CCID_ERROR_ICC_MUTE d
      else d)"

definition done0 :: "ccid_device_t option \<Rightarrow> (int \<times> ccid_device_t) option" where
  "done0 r = do { d \<leftarrow> r; Some (0, d) }"

definition CCID_CMD_process :: "ccid_device_t \<Rightarrow> (int \<times> ccid_device_t) option" where
  "CCID_CMD_process d =
     (let d = upd_hdr (\<lambda>i. i\<lparr>in_error := CCID_ERROR_CMD_NO_ERROR,
                              in_status := CCID_SLOT_STATUS_ICC_PRESENT_AND_ACTIVE OR
                                           CCID_SLOT_STATUS_CMD_PROCESSED_WITHOUT_ERROR\<rparr>) d;
          d = ccid_check_slot d;
          c = msg_type (dev_hdr d) in
      if c = CCID_COMMAND_PC_TO_RDR_ICC_POWER_ON then done0 (PC_to_RDR_IccPowerOn d)
      else if c = CCID_COMMAND_PC_TO_RDR_ICC_POWER_OFF then done0 (PC_to_RDR_IccPowerOff d)
      else if c = CCID_COMMAND_PC_TO_RDR_GET_SLOT_STATUS then done0 (PC_to_RDR_GetSlotStatus d)
      else if c = CCID_COMMAND_PC_TO_RDR_XFR_BLOCK then PC_to_RDR_XfrBlock d
      else if c = CCID_COMMAND_PC_TO_RDR_GET_PARAMETERS then done0 (PC_to_RDR_GetParameters d)
      else if c = CCID_COMMAND_PC_TO_RDR_RESET_PARAMETERS then done0 (PC_to_RDR_ResetParameters d)
      else if c = CCID_COMMAND_PC_TO_RDR_SET_PARAMETERS then done0 (PC_to_RDR_SetParameters d)
      else if c = CCID_COMMAND_PC_TO_RDR_ESCAPE then done0 (PC_to_RDR_Escape d)
      else if c = CCID_COMMAND_PC_TO_RDR_ICC_CLOCK then done0 (PC_to_RDR_IccClock d)
      else if c = CCID_COMMAND_PC_TO_RDR_T0_APDU then done0 (PC_to_RDR_T0APDU d)
      else if c = CCID_COMMAND_PC_TO_RDR_SECURE then PC_to_RDR_Secure d
      else if c = CCID_COMMAND_PC_TO_RDR_MECHANICAL then done0 (PC_to_RDR_Mechanical d)
      else if c = CCID_COMMAND_PC_TO_RDR_ABORT then done0 (PC_to_RDR_Abort d)
      else if c = CCID_COMMAND_PC_TO_RDR_SET_DR_CLK_FREQ then done0 (PC_to_RDR_SetDataRateAndClockFrequency d)
      else Some (0, RDR_to_PC_SlotStatus
                      (ccid_fail CCID_SLOT_STATUS_ICC_PRESENT_AND_ACTIVE CCID_ERROR_CMD_NOT_SUPPORTED d)))"

end
