(* ===== verification/Usb_Ll.thy ===== *)
theory Usb_Ll
  imports Endian
begin

text \<open>
  What the USB classes share: the status codes and the device of
  \<^verbatim>\<open>lib_stusb/include/usbd_def.h\<close> and the packets that
  \<^verbatim>\<open>lib_stusb/src/usbd_conf.c\<close> hands to the screen and USB processor.

  An effect on the hardware is an output: a packet given to \<open>os_io_tx_cmd\<close>, an answer, a
  status stage or a stall on the control endpoint.  Whether \<open>os_io_tx_cmd\<close> times out is the environment's choice, an argument.
\<close>

datatype USBD_StatusTypeDef = USBD_OK | USBD_BUSY | USBD_EMEM | USBD_FAIL | USBD_TIMEOUT

datatype usb_out = Seph bytes | Ctl_send bytes | Ctl_send_status | Ctl_error | Ctl_receive_status

abbreviation (input) USBD_STATE_CONFIGURED :: u8 where "USBD_STATE_CONFIGURED \<equiv> 0x03"
abbreviation (input) IO_USB_MAX_ENDPOINTS :: u8 where "IO_USB_MAX_ENDPOINTS \<equiv> 6"

record USBD_SetupReqTypedef =
  bmRequest :: u8
  bRequest :: u8
  wValue :: u16
  wIndex :: u16
  wLength :: u16

definition USBD_LL_Transmit ::
  "bool \<Rightarrow> u8 \<Rightarrow> bytes \<Rightarrow> u32 \<Rightarrow> u32 \<Rightarrow> (USBD_StatusTypeDef \<times> usb_out list) option" where
  "USBD_LL_Transmit timed_out ep_addr pbuf len timeout_ms =
     (if (ep_addr AND 0x7F) \<ge> IO_USB_MAX_ENDPOINTS then Some (USBD_FAIL, [])
      else do {
        let buffer = [0x50, ucast (drop_bit 8 (3 + len)), ucast (3 + len), ep_addr, 0x20, ucast len];
        if timeout_ms \<noteq> 0 \<and> timed_out then Some (USBD_TIMEOUT, [Seph buffer])
        else do {
          d \<leftarrow> ld_n pbuf 0 (unat len);
          Some (USBD_OK, [Seph buffer, Seph d]) } })"

definition USBD_LL_PrepareReceive :: "u8 \<Rightarrow> u32 \<Rightarrow> USBD_StatusTypeDef \<times> usb_out list" where
  "USBD_LL_PrepareReceive ep_addr len =
     (if (ep_addr AND 0x7F) \<ge> IO_USB_MAX_ENDPOINTS then (USBD_FAIL, [])
      else (USBD_OK, [Seph [0x50, 0, 3, ep_addr, 0x30, ucast len]]))"

text \<open>The answer of a request: the whole of it is read out of the buffer.  The transfer is cut into packets
  of the control endpoint by the core.\<close>

definition USBD_CtlSendData :: "bytes \<Rightarrow> u32 \<Rightarrow> usb_out list option" where
  "USBD_CtlSendData pbuf len = map_option (\<lambda>d. [Ctl_send d]) (ld_n pbuf 0 (unat len))"

lemma unat_ucast_u32: "unat (ucast (w :: u16) :: u32) = unat w"
  using unat_bound16 [of w] by (simp add: unsigned_ucast_eq take_bit_nat_eq_self)

lemma USBD_CtlSendData_ex: "unat len \<le> length pbuf \<Longrightarrow> USBD_CtlSendData pbuf len = Some [Ctl_send (take (unat len) pbuf)]"
  by (simp add: USBD_CtlSendData_def ld_n_def)

lemma USBD_LL_Transmit_ex:
  "unat len \<le> length pbuf \<Longrightarrow> \<exists>r os. USBD_LL_Transmit t ep pbuf len tm = Some (r, os)"
  by (auto simp: USBD_LL_Transmit_def Let_def ld_n_def)

end
