(* ===== verification/Ccid_Usb.thy ===== *)
theory Ccid_Usb
  imports Ccid Usb_Ll
begin

text \<open>
  The USB class of the smart-card reader, \<^verbatim>\<open>lib_stusb/src/usbd_ledger_ccid.c\<close>: the class puts the
  transport and the commands together.  Its state is the class handle and the static packet buffer;
  \<open>USBD_LEDGER_io_buffer\<close> is the memory the reception buffer points to.  Every callback returns its
  status, the outputs it makes and the state it leaves.
\<close>

datatype ledger_ccid_state_e = LEDGER_CCID_STATE_IDLE | LEDGER_CCID_STATE_BUSY

record ledger_ccid_handle_t =
  alt_setting :: u8
  ccid_state :: ledger_ccid_state_e
  device :: ccid_device_t
  packet_buffer :: bytes

abbreviation (input) LEDGER_CCID_BULK_EPIN_ADDR :: u8 where "LEDGER_CCID_BULK_EPIN_ADDR \<equiv> 0x83"
abbreviation (input) LEDGER_CCID_BULK_EPOUT_ADDR :: u8 where "LEDGER_CCID_BULK_EPOUT_ADDR \<equiv> 0x03"
abbreviation (input) LEDGER_CCID_BULK_EPIN_SIZE :: u16 where "LEDGER_CCID_BULK_EPIN_SIZE \<equiv> 0x40"

text \<open>What the reader announces; the byte at 13 is \<open>bMaxSlotIndex\<close>.\<close>

definition LEDGER_CCID_Bulk_descriptor :: bytes where
  "LEDGER_CCID_Bulk_descriptor =
     [9, 4, 0, 0, 2, 0x0B, 0, 0, 5, 0x36, 0x21, 0x10, 1, 0, 3, 1,
      0, 0, 0, 0x10, 0x0E, 0, 0, 0x10, 0x0E, 0, 0, 0, 0xCD, 0x25, 0, 0,
      0xCD, 0x25, 0, 0, 0, 0, 0, 0, 0, 0, 0, 0, 0, 0, 0, 0,
      0, 0xBA, 6, 2, 0, 0x0F, 1, 0, 0, 0, 0, 0, 0, 3, 1, 7,
      5, 0x83, 2, 0x40, 0, 0, 7, 5, 3, 2, 0x40, 0, 0]"

text \<open>The handle that \<open>memset\<close> clears.\<close>

definition zero_header :: ccid_msg_bulk_header_t where
  "zero_header = \<lparr>msg_type = 0, hdr_length = 0, slot_number = 0, seq_number = 0, out_specific = [0, 0, 0],
                  in_status = 0, in_error = 0, in_specific = 0\<rparr>"

definition zero_transport :: "bytes \<Rightarrow> ccid_transport_t" where
  "zero_transport io =
     \<lparr>rx_msg_status = CCID_MSG_STATUS_WAITING, rx_msg_buffer = io, rx_msg_buffer_size = of_nat (length io),
      rx_msg_length = 0, rx_msg_apdu_offset = 0, bulk_msg_header = zero_header,
      ccid_tx_message_buffer = None, ccid_tx_message_length = 0, ccid_tx_message_offset = 0,
      ccid_tx_packet_length = 0,
      protocol_data = \<lparr>bmFindexDindex = 0, bmTCCKST0 = 0, bGuardTimeT0 = 0, bWaitingIntegerT0 = 0, bClockStop = 0\<rparr>,
      clock_frequency = 0, data_rate = 0\<rparr>"

definition USBD_LEDGER_CCID_init ::
  "bytes \<Rightarrow> bytes \<Rightarrow> USBD_StatusTypeDef \<times> usb_out list \<times> ledger_ccid_handle_t" where
  "USBD_LEDGER_CCID_init io pkt =
     (USBD_OK, snd (USBD_LL_PrepareReceive LEDGER_CCID_BULK_EPOUT_ADDR 0x40),
      \<lparr>alt_setting = 0, ccid_state = LEDGER_CCID_STATE_IDLE,
       device = \<lparr>card_inserted = 1, slot_status = CCID_SLOT_STATUS_IDLE,
                 transport = CCID_TRANSPORT_init (zero_transport io),
                 ccid_abort = \<lparr>abort_requested = 0, abort_seq = 0\<rparr>\<rparr>,
       packet_buffer = pkt\<rparr>)"

definition USBD_LEDGER_CCID_de_init :: "ledger_ccid_handle_t \<Rightarrow> USBD_StatusTypeDef \<times> ledger_ccid_handle_t" where
  "USBD_LEDGER_CCID_de_init h = (USBD_OK, h)"

definition upd_transport :: "ccid_transport_t \<Rightarrow> ledger_ccid_handle_t \<Rightarrow> ledger_ccid_handle_t" where
  "upd_transport t h = h\<lparr>device := (device h)\<lparr>transport := t\<rparr>\<rparr>"

definition USBD_LEDGER_CCID_setup ::
  "u8 \<Rightarrow> ledger_ccid_handle_t \<Rightarrow> USBD_SetupReqTypedef \<Rightarrow>
   USBD_StatusTypeDef \<times> usb_out list \<times> ledger_ccid_handle_t" where
  "USBD_LEDGER_CCID_setup dev_state h req =
     (let request = bmRequest req AND (0x60 OR 0x03) in
      if request = (0x00 OR 0x01) then
        (if bRequest req = 0x0A then
           (if dev_state = USBD_STATE_CONFIGURED then (USBD_OK, [Ctl_send [alt_setting h]], h)
            else (USBD_FAIL, [Ctl_error], h))
         else if bRequest req = 0x0B then
           (if dev_state = USBD_STATE_CONFIGURED then (USBD_OK, [], h\<lparr>alt_setting := ucast (wValue req)\<rparr>)
            else (USBD_FAIL, [Ctl_error], h))
         else if bRequest req = 0x01 then (USBD_OK, [], h)
         else (USBD_FAIL, [Ctl_error], h))
      else if request = (0x20 OR 0x01) then
        (if bRequest req = 0x01 then
           (if bmRequest req AND 0x80 = 0 then
              (let (r, d) = CCID_CMD_abort (device h) (ucast (wValue req)) (ucast (drop_bit 8 (wValue req))) in
               if r \<noteq> 0 then (USBD_FAIL, [Ctl_error], h\<lparr>device := d\<rparr>)
               else (USBD_OK, [], h\<lparr>device := d\<rparr>))
            else (USBD_FAIL, [Ctl_error], h))
         else (USBD_FAIL, [Ctl_error], h))
      else (USBD_FAIL, [], h))"

definition USBD_LEDGER_CCID_data_in ::
  "ledger_ccid_handle_t \<Rightarrow> (USBD_StatusTypeDef \<times> usb_out list \<times> ledger_ccid_handle_t) option" where
  "USBD_LEDGER_CCID_data_in h = do {
     (o1, h) \<leftarrow>
       (if ccid_tx_message_buffer (transport (device h)) = None then Some ([], h)
        else do {
          (t, p) \<leftarrow> CCID_TRANSPORT_tx (transport (device h)) None 0 (packet_buffer h) LEDGER_CCID_BULK_EPIN_SIZE;
          let h = (upd_transport t h)\<lparr>packet_buffer := p\<rparr>;
          if ccid_tx_packet_length t \<noteq> 0 then do {
            (_, o1) \<leftarrow> USBD_LL_Transmit False LEDGER_CCID_BULK_EPIN_ADDR p (ucast (ccid_tx_packet_length t)) 0;
            Some (o1, h\<lparr>ccid_state := LEDGER_CCID_STATE_BUSY\<rparr>) }
          else Some ([], h) });
     Some (USBD_OK, o1,
           if ccid_tx_message_buffer (transport (device h)) = None
           then (upd_transport ((transport (device h))\<lparr>ccid_tx_packet_length := 0\<rparr>) h)
                  \<lparr>ccid_state := LEDGER_CCID_STATE_IDLE\<rparr>
           else h) }"

definition USBD_LEDGER_CCID_data_out ::
  "ledger_ccid_handle_t \<Rightarrow> bytes option \<Rightarrow> u16 \<Rightarrow>
   (USBD_StatusTypeDef \<times> usb_out list \<times> ledger_ccid_handle_t) option" where
  "USBD_LEDGER_CCID_data_out h packet packet_length =
     (if packet = None then Some (USBD_FAIL, [], h)
      else do {
        t \<leftarrow> CCID_TRANSPORT_rx (transport (device h)) packet packet_length;
        Some (USBD_OK, snd (USBD_LL_PrepareReceive LEDGER_CCID_BULK_EPOUT_ADDR 0x40), upd_transport t h) })"

definition USBD_LEDGER_CCID_send_packet ::
  "u8 \<Rightarrow> bool \<Rightarrow> ledger_ccid_handle_t \<Rightarrow> ccid_tx_source option \<Rightarrow> u16 \<Rightarrow> u32 \<Rightarrow>
   (USBD_StatusTypeDef \<times> usb_out list \<times> ledger_ccid_handle_t) option" where
  "USBD_LEDGER_CCID_send_packet dev_state timed_out h packet packet_length timeout_ms =
     (if packet = None then Some (USBD_FAIL, [], h)
      else do {
        (t, p) \<leftarrow> CCID_TRANSPORT_tx (transport (device h)) packet packet_length (packet_buffer h)
                   LEDGER_CCID_BULK_EPIN_SIZE;
        let h = (upd_transport t h)\<lparr>packet_buffer := p\<rparr>;
        if dev_state \<noteq> USBD_STATE_CONFIGURED then Some (USBD_FAIL, [], h)
        else if ccid_state h \<noteq> LEDGER_CCID_STATE_IDLE then Some (USBD_BUSY, [], h)
        else if ccid_tx_packet_length t = 0 then Some (USBD_FAIL, [], h)
        else do {
          (ret, o1) \<leftarrow> USBD_LL_Transmit timed_out LEDGER_CCID_BULK_EPIN_ADDR p
                         (ucast (ccid_tx_packet_length t)) timeout_ms;
          Some (ret, o1, h\<lparr>ccid_state := LEDGER_CCID_STATE_BUSY\<rparr>) } })"

definition USBD_LEDGER_CCID_is_busy :: "ledger_ccid_handle_t \<Rightarrow> bool" where
  "USBD_LEDGER_CCID_is_busy h = (ccid_state h = LEDGER_CCID_STATE_BUSY)"

definition USBD_LEDGER_CCID_data_ready ::
  "u8 \<Rightarrow> ledger_ccid_handle_t \<Rightarrow> bytes option \<Rightarrow> u16 \<Rightarrow>
   (int \<times> bytes option \<times> usb_out list \<times> ledger_ccid_handle_t) option" where
  "USBD_LEDGER_CCID_data_ready dev_state h buffer max_length =
     (case buffer of
        None \<Rightarrow> Some (- 1, None, [], h)
      | Some buf \<Rightarrow>
          if rx_msg_status (transport (device h)) \<noteq> CCID_MSG_STATUS_COMPLETE then Some (0, buffer, [], h)
          else do {
            (status, d) \<leftarrow> CCID_CMD_process (ccid_check_slot (device h));
            let h = h\<lparr>device := d\<rparr>;
            (status, buffer, o1, h) \<leftarrow>
              (if status = 0 then do {
                 (_, o1, h) \<leftarrow> USBD_LEDGER_CCID_send_packet dev_state False h (Some Tx_rx_msg_buffer)
                                 (ucast (hdr_length (dev_hdr d))) 0;
                 Some (status, buffer, o1, h) }
               else if status = 1 then
                 (let n = unat (rx_msg_length (transport d)) in
                  if n + 1 > unat max_length then Some (- 1, buffer, [], h)
                  else do {
                    b \<leftarrow> st buf 0 0x22;
                    b \<leftarrow> memcpy_n b 1 (rx_msg_buffer (transport d)) 0 n;
                    Some (int n + 1, Some b, [], h) })
               else Some (status, buffer, [], h));
            Some (status, buffer, o1,
                  upd_transport ((transport (device h))\<lparr>rx_msg_status := CCID_MSG_STATUS_WAITING\<rparr>) h) })"

section \<open>Runs of the class\<close>

text \<open>The callbacks in any order, as the USB stack and the application make them.\<close>

datatype ccid_event =
    Ccid_data_out bytes
  | Ccid_data_in
  | Ccid_send u8 bool bytes u32
  | Ccid_ready u8 bytes
  | Ccid_setup u8 USBD_SetupReqTypedef
  | Ccid_init
  | Ccid_de_init

definition ccid_event_step ::
  "ccid_event \<Rightarrow> ledger_ccid_handle_t \<Rightarrow> (usb_out list \<times> ledger_ccid_handle_t) option" where
  "ccid_event_step e h =
     (case e of
        Ccid_data_out p \<Rightarrow> do { (_, os, h) \<leftarrow> USBD_LEDGER_CCID_data_out h (Some p) (of_nat (length p)); Some (os, h) }
      | Ccid_data_in \<Rightarrow> do { (_, os, h) \<leftarrow> USBD_LEDGER_CCID_data_in h; Some (os, h) }
      | Ccid_send dev_state tmo p timeout_ms \<Rightarrow> do {
          (_, os, h) \<leftarrow> USBD_LEDGER_CCID_send_packet dev_state tmo h (Some (Tx_bytes p)) (of_nat (length p)) timeout_ms;
          Some (os, h) }
      | Ccid_ready dev_state buf \<Rightarrow> do {
          (_, _, os, h) \<leftarrow> USBD_LEDGER_CCID_data_ready dev_state h (Some buf) (of_nat (length buf)); Some (os, h) }
      | Ccid_setup dev_state req \<Rightarrow> (case USBD_LEDGER_CCID_setup dev_state h req of (_, os, h) \<Rightarrow> Some (os, h))
      | Ccid_init \<Rightarrow> Some (snd (USBD_LEDGER_CCID_init (rx_msg_buffer (transport (device h))) (packet_buffer h)))
      | Ccid_de_init \<Rightarrow> Some ([], snd (USBD_LEDGER_CCID_de_init h)))"

end
