(* ===== verification/Ccid_Spec.thy ===== *)
theory Ccid_Spec
  imports Ccid_Usb
begin

text \<open>
  The smart-card reader class meets its contract: every command is answered with the response of the
  class specification, whose error byte and status byte agree, and no sequence of events makes the class
  leave its buffers.
\<close>

section \<open>What a command answers\<close>

text \<open>The response to each command of the class specification.\<close>

definition ccid_response_type :: "u8 \<Rightarrow> u8" where
  "ccid_response_type c =
     (if c \<in> {CCID_COMMAND_PC_TO_RDR_ICC_POWER_ON, CCID_COMMAND_PC_TO_RDR_XFR_BLOCK, CCID_COMMAND_PC_TO_RDR_SECURE}
      then CCID_COMMAND_RDR_TO_PC_DATA_BLOCK
      else if c \<in> {CCID_COMMAND_PC_TO_RDR_GET_PARAMETERS, CCID_COMMAND_PC_TO_RDR_RESET_PARAMETERS,
                   CCID_COMMAND_PC_TO_RDR_SET_PARAMETERS} then CCID_COMMAND_RDR_TO_PC_PARAMETERS
      else if c = CCID_COMMAND_PC_TO_RDR_ESCAPE then CCID_COMMAND_RDR_TO_PC_ESCAPE
      else if c = CCID_COMMAND_PC_TO_RDR_SET_DR_CLK_FREQ then CCID_COMMAND_RDR_TO_PC_DR_CLK_FREQ
      else CCID_COMMAND_RDR_TO_PC_SLOT_STATUS)"

text \<open>The error byte and the failure bit of the status byte agree.\<close>

definition status_ok :: "ccid_device_t \<Rightarrow> bool" where
  "status_ok d = (in_error (dev_hdr d) = CCID_ERROR_CMD_NO_ERROR \<longleftrightarrow>
                  in_status (dev_hdr d) AND CCID_SLOT_STATUS_CMD_FAILED = 0)"

definition dev_ok :: "ccid_device_t \<Rightarrow> bool" where
  "dev_ok d = (25 \<le> length (rx_msg_buffer (transport d)) \<and> length (rx_msg_buffer (transport d)) < 2 ^ 16 \<and>
               length (out_specific (dev_hdr d)) = 3)"

text \<open>What no command touches: the buffers' sizes and the emission in progress, the slot and the sequence
  number of the request.\<close>

definition same_link :: "ccid_device_t \<Rightarrow> ccid_device_t \<Rightarrow> bool" where
  "same_link d d' =
     (let t = transport d; t' = transport d' in
      length (rx_msg_buffer t') = length (rx_msg_buffer t) \<and> rx_msg_buffer_size t' = rx_msg_buffer_size t \<and>
      rx_msg_status t' = rx_msg_status t \<and>
      ccid_tx_message_buffer t' = ccid_tx_message_buffer t \<and> ccid_tx_message_length t' = ccid_tx_message_length t \<and>
      ccid_tx_message_offset t' = ccid_tx_message_offset t \<and>
      out_specific (dev_hdr d') = out_specific (dev_hdr d) \<and>
      slot_number (dev_hdr d') = slot_number (dev_hdr d) \<and> seq_number (dev_hdr d') = seq_number (dev_hdr d))"

text \<open>What a request that is refused does not touch: the message, the protocol parameters and the abort.\<close>

definition same_config :: "ccid_device_t \<Rightarrow> ccid_device_t \<Rightarrow> bool" where
  "same_config d d' =
     (let t = transport d; t' = transport d' in
      rx_msg_buffer t' = rx_msg_buffer t \<and> rx_msg_length t' = rx_msg_length t \<and>
      protocol_data t' = protocol_data t \<and> clock_frequency t' = clock_frequency t \<and> data_rate t' = data_rate t \<and>
      ccid_abort d' = ccid_abort d \<and> card_inserted d' = card_inserted d)"

text \<open>The answer \<open>d'\<close> to the request of \<open>d\<close> with the result \<open>r\<close>: \<open>0\<close> sends the response, \<open>1\<close> hands the
  message to the application.\<close>

definition ccid_answer :: "u8 \<Rightarrow> bool \<Rightarrow> ccid_device_t \<Rightarrow> int \<times> ccid_device_t \<Rightarrow> bool" where
  "ccid_answer ty refused d res =
     (case res of (r, d') \<Rightarrow>
        same_link d d' \<and> status_ok d' \<and> msg_type (dev_hdr d') = ty \<and> (r = 0 \<or> r = 1) \<and>
        rx_msg_length (transport d') \<in> {rx_msg_length (transport d), 5} \<and>
        (r = 0 \<longrightarrow> hdr_length (dev_hdr d') \<in> {0, 2, 5, 8} \<or>
           ty = CCID_COMMAND_RDR_TO_PC_ESCAPE \<and> in_error (dev_hdr d') \<noteq> CCID_ERROR_CMD_NO_ERROR \<and>
           hdr_length (dev_hdr d') = hdr_length (dev_hdr d)) \<and>
        (r = 0 \<and> in_error (dev_hdr d') \<noteq> CCID_ERROR_CMD_NO_ERROR \<and> ty \<noteq> CCID_COMMAND_RDR_TO_PC_ESCAPE \<longrightarrow>
           hdr_length (dev_hdr d') = 0) \<and>
        (refused \<longrightarrow> r = 0 \<and> in_error (dev_hdr d') \<noteq> CCID_ERROR_CMD_NO_ERROR \<and> same_config d d') \<and>
        (\<not> refused \<longrightarrow> in_error (dev_hdr d') \<notin> {CCID_ERROR_CMD_SLOT_DOES_NOT_EXIST, CCID_ERROR_ICC_MUTE}))"

lemmas ccid_acc = dev_hdr_def upd_hdr_def upd_buf_def ccid_fail_def ccid_cmd_check_length_def ccid_guard_def
lemmas ccid_preds = status_ok_def dev_ok_def same_link_def same_config_def ccid_answer_def
lemmas ccid_rdr = RDR_to_PC_DataBlock_def RDR_to_PC_SlotStatus_def RDR_to_PC_Parameters_def
  RDR_to_PC_Escape_def RDR_to_PC_DataRateAndClockFrequency_def

lemma ccid_status_bits [simp]:
  "(1 OR 0x40 :: u8) AND 0x40 \<noteq> 0" "(2 OR 0x40 :: u8) AND 0x40 \<noteq> 0" "(0x40 :: u8) AND 0x40 \<noteq> 0"
  by simp_all

text \<open>The accesses of the commands are among the first 25 bytes of the message.\<close>

lemma msg_acc:
  "25 \<le> length m \<Longrightarrow> i < 25 \<Longrightarrow> st m i x = Some (m[i := x])"
  "25 \<le> length m \<Longrightarrow> i < 25 \<Longrightarrow> ld m i = Some (m ! i)"
  "25 \<le> length m \<Longrightarrow> i \<le> 20 \<Longrightarrow> memcpy_n m 0 m i 5 = Some (take 5 (drop i m) @ drop 5 m)"
  "length s = 3 \<Longrightarrow> ld s 0 = Some (s ! 0)"
  by (simp_all add: st_def ld_def memcpy_n_in)

lemma specific_U2LE: "length s = 3 \<Longrightarrow> \<exists>w. U2LE s 1 = Some w"
  by (rule U2LE_ex) simp_all

lemma msg_U4LE: "25 \<le> length m \<Longrightarrow> length m < 2 ^ 16 \<Longrightarrow> i \<le> 8 \<Longrightarrow> \<exists>v. U4LE m (of_nat i) = Some v"
  unfolding U4LE_eq
  by (rule u32_le.rd_ex) (simp add: in_range_def unsigned_of_nat take_bit_nat_eq_self)

lemma IccPowerOn_answer:
  assumes "dev_ok d" "status_ok d"
  shows "\<exists>d'. PC_to_RDR_IccPowerOn d = Some d' \<and> ccid_answer 0x80 (in_error (dev_hdr d) \<noteq> 0x81) d (0, d')"
  using assms unfolding ccid_preds PC_to_RDR_IccPowerOn_def
  by (auto simp: ccid_acc ccid_rdr msg_acc Let_def)

lemma IccPowerOff_answer:
  assumes "dev_ok d" "status_ok d"
  shows "\<exists>d'. PC_to_RDR_IccPowerOff d = Some d' \<and> ccid_answer 0x81 (in_error (dev_hdr d) \<noteq> 0x81) d (0, d')"
  using assms unfolding ccid_preds PC_to_RDR_IccPowerOff_def
  by (auto simp: ccid_acc ccid_rdr Let_def)

lemma GetSlotStatus_answer:
  assumes "dev_ok d" "status_ok d"
  shows "\<exists>d'. PC_to_RDR_GetSlotStatus d = Some d' \<and> ccid_answer 0x81 (in_error (dev_hdr d) \<noteq> 0x81) d (0, d')"
  using assms unfolding ccid_preds PC_to_RDR_GetSlotStatus_def
  by (auto simp: ccid_acc ccid_rdr Let_def)

lemma XfrBlock_answer:
  assumes "dev_ok d" "status_ok d"
  shows "\<exists>r. PC_to_RDR_XfrBlock d = Some r \<and> ccid_answer 0x80 (in_error (dev_hdr d) \<noteq> 0x81) d r"
proof -
  obtain w where "U2LE (out_specific (bulk_msg_header (transport d))) 1 = Some w"
    using specific_U2LE assms(1) by (auto simp: dev_ok_def dev_hdr_def)
  then show ?thesis
    using assms unfolding ccid_preds PC_to_RDR_XfrBlock_def
    by (auto simp: ccid_acc ccid_rdr Let_def)
qed

lemma RDR_Parameters_answer:
  assumes "dev_ok d" "status_ok d"
  shows "\<exists>d'. RDR_to_PC_Parameters d = Some d' \<and> ccid_answer 0x82 (in_error (dev_hdr d) \<noteq> 0x81) d (0, d') \<and>
     in_error (dev_hdr d') = in_error (dev_hdr d)"
  using assms unfolding ccid_preds RDR_to_PC_Parameters_def
  by (auto simp: ccid_acc msg_acc Let_def)

text \<open>The commands on the parameters change the device first and answer from there.\<close>

lemma answer_from:
  assumes "ccid_answer 0x82 (in_error (dev_hdr e) \<noteq> 0x81) e (0, d')" "in_error (dev_hdr d') = in_error (dev_hdr e)" "same_link d e"
    "rx_msg_length (transport e) = rx_msg_length (transport d)"
    "in_error (dev_hdr d) \<noteq> 0x81 \<Longrightarrow> in_error (dev_hdr e) \<noteq> 0x81 \<and> same_config d e"
    "in_error (dev_hdr d) = 0x81 \<Longrightarrow> in_error (dev_hdr e) \<notin> {0x05, 0xFE}"
  shows "ccid_answer 0x82 (in_error (dev_hdr d) \<noteq> 0x81) d (0, d')"
  using assms by (auto simp: ccid_answer_def same_link_def same_config_def Let_def)

lemma Parameters_via:
  assumes "dev_ok d" "status_ok e" "same_link d e" "rx_msg_length (transport e) = rx_msg_length (transport d)"
    "in_error (dev_hdr d) \<noteq> 0x81 \<Longrightarrow> in_error (dev_hdr e) \<noteq> 0x81 \<and> same_config d e"
    "in_error (dev_hdr d) = 0x81 \<Longrightarrow> in_error (dev_hdr e) \<notin> {0x05, 0xFE}"
  shows "\<exists>d'. RDR_to_PC_Parameters e = Some d' \<and> ccid_answer 0x82 (in_error (dev_hdr d) \<noteq> 0x81) d (0, d')"
proof -
  have "dev_ok e" using assms(1,3) by (auto simp: dev_ok_def same_link_def Let_def)
  then show ?thesis using RDR_Parameters_answer assms(2-) answer_from by blast
qed

lemma GetParameters_answer:
  assumes "dev_ok d" "status_ok d"
  shows "\<exists>d'. PC_to_RDR_GetParameters d = Some d' \<and> ccid_answer 0x82 (in_error (dev_hdr d) \<noteq> 0x81) d (0, d')"
  unfolding PC_to_RDR_GetParameters_def
  by (rule Parameters_via [OF assms(1)])
     (use assms(2) in \<open>auto simp: ccid_acc status_ok_def same_link_def same_config_def\<close>)

lemma ResetParameters_answer:
  assumes "dev_ok d" "status_ok d"
  shows "\<exists>d'. PC_to_RDR_ResetParameters d = Some d' \<and> ccid_answer 0x82 (in_error (dev_hdr d) \<noteq> 0x81) d (0, d')"
  unfolding PC_to_RDR_ResetParameters_def Let_def case_prod_beta
  by (rule Parameters_via [OF assms(1)])
     (use assms(2) in \<open>auto simp: ccid_acc status_ok_def same_link_def same_config_def CCID_TRANSPORT_reset_parameters_def\<close>)

lemma SetParameters_answer:
  assumes "dev_ok d" "status_ok d"
  shows "\<exists>d'. PC_to_RDR_SetParameters d = Some d' \<and> ccid_answer 0x82 (in_error (dev_hdr d) \<noteq> 0x81) d (0, d')"
proof (cases "in_error (dev_hdr d) = 0x81")
  case True
  let ?m = "rx_msg_buffer (transport d)"
  let ?s = "\<lambda>err. ccid_fail 0 err d"
  let ?p = "d\<lparr>transport := (transport d)\<lparr>protocol_data := \<lparr>bmFindexDindex = ?m ! 0, bmTCCKST0 = ?m ! 1,
               bGuardTimeT0 = ?m ! 2, bWaitingIntegerT0 = ?m ! 3, bClockStop = ?m ! 4\<rparr>\<rparr>\<rparr>"
  have m: "25 \<le> length ?m" and s: "length (out_specific (dev_hdr d)) = 3"
    using assms(1) by (auto simp: dev_ok_def)
  have "\<exists>e \<in> {?s 7, ?s 1, ?s 0x0E, ?p}. PC_to_RDR_SetParameters d = RDR_to_PC_Parameters e"
    using True unfolding PC_to_RDR_SetParameters_def
    by (auto simp: msg_acc(2) [OF m] msg_acc(4) [OF s] Let_def)
  then obtain e where e: "e \<in> {?s 7, ?s 1, ?s 0x0E, ?p}" "PC_to_RDR_SetParameters d = RDR_to_PC_Parameters e"
    by blast
  have "status_ok e" "same_link d e" "rx_msg_length (transport e) = rx_msg_length (transport d)"
    using e(1) assms(2) by (auto simp: ccid_acc status_ok_def same_link_def)
  moreover have "in_error (dev_hdr e) \<notin> {0x05, 0xFE}"
    using e(1) True by (auto simp: ccid_acc)
  ultimately show ?thesis
    unfolding e(2) using Parameters_via [OF assms(1)] True by blast
qed (use RDR_Parameters_answer [OF assms] in \<open>auto simp: PC_to_RDR_SetParameters_def\<close>)

lemma Escape_answer:
  assumes "dev_ok d" "status_ok d"
  shows "\<exists>d'. PC_to_RDR_Escape d = Some d' \<and> ccid_answer 0x83 (in_error (dev_hdr d) \<noteq> 0x81) d (0, d')"
  using assms unfolding ccid_preds PC_to_RDR_Escape_def
  by (auto simp: ccid_acc ccid_rdr Let_def)

lemma IccClock_answer:
  assumes "dev_ok d" "status_ok d"
  shows "\<exists>d'. PC_to_RDR_IccClock d = Some d' \<and> ccid_answer 0x81 (in_error (dev_hdr d) \<noteq> 0x81) d (0, d')"
  using assms unfolding ccid_preds PC_to_RDR_IccClock_def
  by (auto simp: ccid_acc ccid_rdr msg_acc Let_def)

lemma T0APDU_answer:
  assumes "dev_ok d" "status_ok d"
  shows "\<exists>d'. PC_to_RDR_T0APDU d = Some d' \<and> ccid_answer 0x81 (in_error (dev_hdr d) \<noteq> 0x81) d (0, d')"
  using assms unfolding ccid_preds PC_to_RDR_T0APDU_def
  by (auto simp: ccid_acc ccid_rdr msg_acc Let_def)

lemma secure_apdu_offset_ex:
  "25 \<le> length m \<Longrightarrow> secure_apdu_offset m = Some (Inl ()) \<or> (\<exists>n \<le> 20. secure_apdu_offset m = Some (Inr n))"
  by (auto simp: secure_apdu_offset_def msg_acc)

lemma Secure_answer:
  assumes "dev_ok d" "status_ok d"
  shows "\<exists>r. PC_to_RDR_Secure d = Some r \<and> ccid_answer 0x80 (in_error (dev_hdr d) \<noteq> 0x81) d r"
proof -
  let ?m = "rx_msg_buffer (transport d)"
  have m: "25 \<le> length ?m" using assms(1) by (auto simp: dev_ok_def)
  obtain w where w: "U2LE (out_specific (bulk_msg_header (transport d))) 1 = Some w"
    using specific_U2LE assms(1) by (auto simp: dev_ok_def dev_hdr_def)
  from secure_apdu_offset_ex [OF m] show ?thesis
  proof (elim disjE exE conjE)
    assume "secure_apdu_offset ?m = Some (Inl ())"
    then show ?thesis
      using w assms unfolding ccid_preds PC_to_RDR_Secure_def
      by (auto simp: ccid_acc ccid_rdr Let_def)
  next
    fix n
    assume n: "n \<le> 20" "secure_apdu_offset ?m = Some (Inr n)"
    have "\<exists>m'. memcpy_n ?m 0 ?m n 5 \<bind> (\<lambda>m. st m 0 0xEF) = Some m' \<and> length m' = length ?m"
      using m n(1) by (auto simp: msg_acc(3) st_def)
    then obtain a m' where "memcpy_n ?m 0 ?m n 5 = Some a" "st a 0 0xEF = Some m'" "length m' = length ?m"
      by (auto split: bind_splits)
    then show ?thesis
      using w n(2) assms unfolding ccid_preds PC_to_RDR_Secure_def
      by (auto simp: ccid_acc ccid_rdr Let_def)
  qed
qed

lemma Mechanical_answer:
  assumes "dev_ok d" "status_ok d"
  shows "\<exists>d'. PC_to_RDR_Mechanical d = Some d' \<and> ccid_answer 0x81 (in_error (dev_hdr d) \<noteq> 0x81) d (0, d')"
  using assms unfolding ccid_preds PC_to_RDR_Mechanical_def
  by (auto simp: ccid_acc ccid_rdr msg_acc Let_def)

lemma Abort_answer:
  assumes "dev_ok d" "status_ok d"
  shows "\<exists>d'. PC_to_RDR_Abort d = Some d' \<and> ccid_answer 0x81 (in_error (dev_hdr d) \<noteq> 0x81) d (0, d')"
  using assms unfolding ccid_preds PC_to_RDR_Abort_def CCID_CMD_abort_def
  by (auto simp: ccid_acc ccid_rdr Let_def)

lemma SetDataRate_answer:
  assumes "dev_ok d" "status_ok d"
  shows "\<exists>d'. PC_to_RDR_SetDataRateAndClockFrequency d = Some d' \<and> ccid_answer 0x84 (in_error (dev_hdr d) \<noteq> 0x81) d (0, d')"
proof -
  obtain f r where "U4LE (rx_msg_buffer (transport d)) 0 = Some f" "U4LE (rx_msg_buffer (transport d)) 4 = Some r"
    using msg_U4LE [of "rx_msg_buffer (transport d)" 0] msg_U4LE [of "rx_msg_buffer (transport d)" 4] assms(1)
    by (auto simp: dev_ok_def)
  then show ?thesis
    using assms unfolding ccid_preds PC_to_RDR_SetDataRateAndClockFrequency_def
    by (auto simp: ccid_acc ccid_rdr Let_def)
qed

text \<open>A slot exists when the functional descriptor of the reader announces it; a card is missing when the
  command needs one and none is inserted.  The code refuses a request for a slot that does not exist or for
  want of a card, save that slot 1 passes its check although the reader announces only slot 0.\<close>

definition ccid_slot_exists :: "ccid_device_t \<Rightarrow> bool" where
  "ccid_slot_exists d = (slot_number (dev_hdr d) \<le> LEDGER_CCID_Bulk_descriptor ! 13)"

definition ccid_card_missing :: "ccid_device_t \<Rightarrow> bool" where
  "ccid_card_missing d = (card_inserted d = 0 \<and>
     msg_type (dev_hdr d) \<notin> {CCID_COMMAND_PC_TO_RDR_ICC_POWER_OFF, CCID_COMMAND_PC_TO_RDR_ABORT})"

definition ccid_refused :: "ccid_device_t \<Rightarrow> bool" where
  "ccid_refused d =
     (slot_number (dev_hdr d) > 1 \<or>
      card_inserted d = 0 \<and> msg_type (dev_hdr d) \<noteq> CCID_COMMAND_PC_TO_RDR_ICC_POWER_OFF \<and>
      msg_type (dev_hdr d) \<noteq> CCID_COMMAND_PC_TO_RDR_ABORT)"

lemma ccid_refused_iff:
  "ccid_refused d \<longleftrightarrow> \<not> ccid_slot_exists d \<and> slot_number (dev_hdr d) \<noteq> 1 \<or> ccid_card_missing d"
proof -
  have "slot_number (dev_hdr d) > 1 \<longleftrightarrow> \<not> slot_number (dev_hdr d) \<le> 0 \<and> slot_number (dev_hdr d) \<noteq> 1"
    by (simp add: word_less_nat_alt word_le_nat_alt word_unat_eq_iff) linarith
  then show ?thesis
    by (auto simp: ccid_refused_def ccid_slot_exists_def ccid_card_missing_def LEDGER_CCID_Bulk_descriptor_def)
qed

text \<open>The device as it enters the handler of its command.\<close>

definition ccid_enter :: "ccid_device_t \<Rightarrow> ccid_device_t" where
  "ccid_enter d = ccid_check_slot (upd_hdr (\<lambda>i. i\<lparr>in_error := CCID_ERROR_CMD_NO_ERROR,
     in_status := CCID_SLOT_STATUS_ICC_PRESENT_AND_ACTIVE OR CCID_SLOT_STATUS_CMD_PROCESSED_WITHOUT_ERROR\<rparr>) d)"

lemma ccid_enter:
  shows "status_ok (ccid_enter d)" "dev_ok (ccid_enter d) = dev_ok d"
    "msg_type (dev_hdr (ccid_enter d)) = msg_type (dev_hdr d)"
    "in_error (dev_hdr (ccid_enter d)) \<noteq> 0x81 \<longleftrightarrow> ccid_refused d"
    "ccid_answer ty (ccid_refused d) (ccid_enter d) r = ccid_answer ty (ccid_refused d) d r"
  by (auto simp: ccid_enter_def ccid_check_slot_def ccid_refused_def ccid_acc ccid_preds Let_def)

lemmas ccid_answers = IccPowerOn_answer IccPowerOff_answer GetSlotStatus_answer XfrBlock_answer
  GetParameters_answer ResetParameters_answer SetParameters_answer Escape_answer IccClock_answer T0APDU_answer
  Secure_answer Mechanical_answer Abort_answer SetDataRate_answer

lemma unknown_answer:
  assumes "status_ok d"
  shows "ccid_answer 0x81 (in_error (dev_hdr d) \<noteq> 0x81) d (0, RDR_to_PC_SlotStatus (ccid_fail 0 0 d))"
  using assms by (auto simp: ccid_preds ccid_acc ccid_rdr Let_def)

lemma CCID_CMD_process_answer:
  assumes "dev_ok d"
  shows "\<exists>r. CCID_CMD_process d = Some r \<and>
     ccid_answer (ccid_response_type (msg_type (dev_hdr d))) (ccid_refused d) d r \<and>
     (fst r = 1 \<longrightarrow> msg_type (dev_hdr d) \<in> {CCID_COMMAND_PC_TO_RDR_XFR_BLOCK, CCID_COMMAND_PC_TO_RDR_SECURE})"
proof -
  have ok: "dev_ok (ccid_enter d)" "status_ok (ccid_enter d)" using assms by (simp_all add: ccid_enter)
  show ?thesis
    using ccid_answers [OF ok] unknown_answer [OF ok(2)]
    unfolding CCID_CMD_process_def Let_def ccid_enter_def [symmetric] ccid_enter
    by (auto simp: done0_def ccid_response_type_def)
qed

section \<open>Memory safety of the class\<close>

definition transport_ok :: "nat \<Rightarrow> ccid_transport_t \<Rightarrow> bool" where
  "transport_ok N t =
     (length (rx_msg_buffer t) = N \<and> unat (rx_msg_buffer_size t) = N \<and> 25 \<le> N \<and> N < 2 ^ 16 \<and>
      length (out_specific (bulk_msg_header t)) = 3 \<and>
      (rx_msg_status t \<noteq> CCID_MSG_STATUS_WAITING \<longrightarrow>
         unat (rx_msg_length t) \<le> N \<and> unat (hdr_length (bulk_msg_header t)) \<le> N) \<and>
      (\<forall>s. ccid_tx_message_buffer t = Some s \<longrightarrow>
         ccid_tx_message_offset t \<le> ccid_tx_message_length t \<and>
         unat (ccid_tx_message_length t) \<le> length (tx_source t s)))"

lemma tx_source_length:
  "length (rx_msg_buffer t') = length (rx_msg_buffer t) \<Longrightarrow> length (tx_source t' s) = length (tx_source t s)"
  by (auto simp: tx_source_def split: ccid_tx_source.split)

lemma unat_ucast_le16:
  fixes l :: u32
  shows "unat l < 2 ^ 16 \<Longrightarrow> unat (ucast l :: u16) = unat l"
  by (simp add: unsigned_ucast_eq take_bit_nat_eq_self)

lemma ccid_rx_first_ok:
  assumes t: "transport_ok N t" "rx_msg_status t = CCID_MSG_STATUS_WAITING" and p: "unat len \<le> length p"
    "length p < 2 ^ 16"
  shows "\<exists>t'. ccid_rx_first t p len = Some t' \<and> transport_ok N t'"
proof (cases "len < 10")
  case False
  then have n: "10 \<le> unat len" by (simp add: word_less_nat_alt)
  then have l10: "unat (len - 10) = unat len - 10" by (simp add: unat_sub_no_wrap word_le_nat_alt)
  obtain l where l: "U4LE p 1 = Some l"
    unfolding U4LE_eq using u32_le.rd_ex [of p 1] n p by (auto simp: in_range_def)
  have acc: "ld p 0 = Some (p ! 0)" "ld p 5 = Some (p ! 5)" "ld p 6 = Some (p ! 6)"
      "ld_n p 7 3 = Some (take 3 (drop 7 p))" "length (take 3 (drop 7 p)) = 3"
    using n p by (auto simp: ld_def ld_n_def)
  have N: "length (rx_msg_buffer t) = N" "unat (rx_msg_buffer_size t) = N" "N < 2 ^ 16"
    using t by (auto simp: transport_ok_def)
  show ?thesis
  proof (cases "unat l > N")
    case True
    then show ?thesis
      using False l acc t by (auto simp: ccid_rx_first_def Let_def transport_ok_def tx_source_def split: ccid_tx_source.split)
  next
    case le: False
    define r where "r = (if unat l \<le> unat len - 10 then ucast l else len - 10)"
    have r: "unat r \<le> N" "10 + unat r \<le> length p"
      using le p n N(3) l10 by (auto simp: r_def unat_ucast_le16)
    then obtain m where m: "memcpy_n (rx_msg_buffer t) 0 p 10 (unat r) = Some m" "length m = N"
      using N by (simp add: memcpy_n_in)
    let ?t = "t\<lparr>bulk_msg_header := (bulk_msg_header t)\<lparr>msg_type := p ! 0, hdr_length := l, slot_number := p ! 5,
                  seq_number := p ! 6, out_specific := take 3 (drop 7 p)\<rparr>, rx_msg_length := r, rx_msg_buffer := m\<rparr>"
    have "\<exists>t'. ccid_rx_first t p len = Some t' \<and>
        (t' = ?t\<lparr>rx_msg_status := CCID_MSG_STATUS_COMPLETE, rx_msg_apdu_offset := 0\<rparr> \<or>
         t' = ?t\<lparr>rx_msg_status := CCID_MSG_STATUS_NEED_MORE_DATA\<rparr>)"
      using False le l acc m(1) l10 N(2) by (auto simp: ccid_rx_first_def Let_def r_def)
    then show ?thesis
      using t m(2) r(1) le acc(5) tx_source_length [of ?t t]
      by (auto simp: transport_ok_def tx_source_def split: ccid_tx_source.splits)
  qed
qed (use t in \<open>simp add: ccid_rx_first_def\<close>)

lemma ccid_rx_more_ok:
  assumes t: "transport_ok N t" "rx_msg_status t = CCID_MSG_STATUS_NEED_MORE_DATA" and p: "unat len \<le> length p"
  shows "\<exists>t'. ccid_rx_more t p len = Some t' \<and> transport_ok N t'"
proof -
  let ?l = "unat (hdr_length (bulk_msg_header t))"
  let ?r = "unat (rx_msg_length t)"
  have N: "length (rx_msg_buffer t) = N" "unat (rx_msg_buffer_size t) = N" "?l \<le> N" "?r \<le> N" "N < 2 ^ 16"
    using t by (auto simp: transport_ok_def)
  have keep: "transport_ok N (t\<lparr>rx_msg_buffer := m, rx_msg_length := r, rx_msg_status := s, rx_msg_apdu_offset := o1\<rparr>)"
    if "length m = N" "unat r \<le> N" for m r s o1
    using that t by (auto simp: transport_ok_def tx_source_def split: ccid_tx_source.splits)
  have keep2: "transport_ok N (t\<lparr>rx_msg_buffer := m, rx_msg_length := r\<rparr>)" if "length m = N" "unat r \<le> N" for m r
    using that t by (auto simp: transport_ok_def tx_source_def split: ccid_tx_source.splits)
  consider "?l \<le> ?r + unat len" "?r \<le> ?l" | "?l \<le> ?r + unat len" "?l < ?r"
    | "\<not> ?l \<le> ?r + unat len" by linarith
  then show ?thesis
  proof cases
    case 1
    then obtain m where "memcpy_n (rx_msg_buffer t) ?r p 0 (?l - ?r) = Some m" "length m = N"
      using N p by (simp add: memcpy_n_in)
    then show ?thesis
      using 1 N t keep [of m "ucast (hdr_length (bulk_msg_header t))"]
      by (auto simp: ccid_rx_more_def Let_def unat_ucast_le16)
  next
    case 2
    then show ?thesis using t by (simp add: ccid_rx_more_def Let_def)
  next
    case 3
    then obtain m where "memcpy_n (rx_msg_buffer t) ?r p 0 (unat len) = Some m" "length m = N"
      using N p by (simp add: memcpy_n_in)
    moreover have "unat (rx_msg_length t + len) = ?r + unat len"
      using 3 N by (intro unat_add_no_wrap) simp
    ultimately show ?thesis
      using 3 N t keep2 [of m "rx_msg_length t + len"] by (auto simp: ccid_rx_more_def Let_def)
  qed
qed

lemma CCID_TRANSPORT_rx_ok:
  assumes "transport_ok N t" "unat len \<le> length p" "length p < 2 ^ 16"
  shows "\<exists>t'. CCID_TRANSPORT_rx t (Some p) len = Some t' \<and> transport_ok N t'"
  using assms ccid_rx_first_ok [OF assms(1) _ assms(2,3)] ccid_rx_more_ok [OF assms(1) _ assms(2)]
  by (cases "rx_msg_status t") (auto simp: CCID_TRANSPORT_rx_def)

text \<open>The header of a response.\<close>

definition ccid_header :: "ccid_msg_bulk_header_t \<Rightarrow> bytes" where
  "ccid_header i = msg_type i # le_bytes 4 (hdr_length i) @
     [slot_number i, seq_number i, in_status i, in_error i, in_specific i]"

lemma length_ccid_header [simp]: "length (ccid_header i) = 10"
  by (simp add: ccid_header_def)

lemma ccid_header_eq:
  assumes "10 \<le> length z" "length z \<le> 2 ^ 32"
  shows "ccid_tx_header i z = Some (ccid_header i @ drop 10 z)"
proof -
  have "\<exists>a b c d e f g h k l r. z = [a, b, c, d, e, f, g, h, k, l] @ r"
    using assms(1) by (auto simp: numeral_eq_Suc Suc_le_length_iff)
  then obtain a b c d e f g h k l r where z: "z = a # b # c # d # e # f # g # h # k # l # r"
    by auto
  have "st z 0 (msg_type i) = Some (msg_type i # b # c # d # e # f # g # h # k # l # r)"
    by (simp add: z st_def)
  moreover have "U4LE_ENCODE (msg_type i # b # c # d # e # f # g # h # k # l # r) 1 (hdr_length i) =
      Some (msg_type i # le_bytes 4 (hdr_length i) @ f # g # h # k # l # r)"
    using U4LE_ENCODE_eq [of 1 "msg_type i # b # c # d # e # f # g # h # k # l # r"] assms by (simp add: z)
  ultimately show ?thesis
    by (simp add: ccid_tx_header_def ccid_header_def z le_bytes_def be_bytes4 st_def numeral_eq_Suc)
qed

text \<open>The handle once a new message is recorded.\<close>

definition ccid_begin :: "ccid_transport_t \<Rightarrow> ccid_tx_source option \<Rightarrow> u16 \<Rightarrow> ccid_transport_t" where
  "ccid_begin h buffer len =
     (if buffer = None then h
      else h\<lparr>ccid_tx_message_buffer := buffer, ccid_tx_message_length := len, ccid_tx_message_offset := 0,
             bulk_msg_header := (bulk_msg_header h)\<lparr>hdr_length := ucast len\<rparr>\<rparr>)"

text \<open>The bytes a packet starts with.\<close>

definition ccid_prefix :: "ccid_transport_t \<Rightarrow> ccid_tx_source option \<Rightarrow> bytes" where
  "ccid_prefix g buffer = (if buffer = None then [] else ccid_header (bulk_msg_header g))"

lemma CCID_TRANSPORT_tx_fill:
  assumes "\<not> (buffer = None \<and> ccid_tx_message_buffer h = None)" "10 \<le> unat psize" "unat psize \<le> length pkt"
    "length pkt \<le> 2 ^ 32" and g: "g = ccid_begin h buffer len"
  shows "CCID_TRANSPORT_tx h buffer len pkt psize =
     ccid_tx_fill g (ccid_prefix g buffer @ replicate (unat psize - length (ccid_prefix g buffer)) 0 @ drop (unat psize) pkt)
       psize (of_nat (length (ccid_prefix g buffer)))"
proof -
  let ?z = "replicate (unat psize) 0 @ drop (unat psize) pkt"
  have z: "memset_n pkt 0 0 (unat psize) = Some ?z" using assms(3) by (simp add: memset_n_in)
  have d: "drop 10 ?z = replicate (unat psize - 10) 0 @ drop (unat psize) pkt" using assms(2) by simp
  show ?thesis
    unfolding CCID_TRANSPORT_tx_def if_not_P [OF assms(1)] ccid_begin_def [symmetric] g [symmetric] Let_def z
    using ccid_header_eq [of ?z "bulk_msg_header g"] assms(2-4)
    by (cases buffer) (simp_all add: ccid_prefix_def d)
qed

lemma unat_ucast_u8: "unat (w :: u16) < 256 \<Longrightarrow> unat (ucast w :: u8) = unat w"
  by (simp add: unsigned_ucast_eq take_bit_nat_eq_self)

lemma ucast_u8_nat: "unat (w :: 'a::len word) = k \<Longrightarrow> (ucast w :: u8) = of_nat k"
  by (auto simp: word_unat_eq_iff unsigned_ucast_eq unsigned_of_nat)

lemma unat_of_nat_le: "unat (of_nat k :: 'a::len word) \<le> k"
  by (simp add: unsigned_of_nat take_bit_eq_mod)

lemma length_patch: "k + d \<le> length ps \<Longrightarrow> length xs = d \<Longrightarrow> length (take k ps @ xs @ drop (k + d) ps) = length ps"
  by simp

lemma ccid_tx_fill_eq:
  assumes g: "ccid_tx_message_buffer g = Some s" "tx_source g s = src" "ccid_tx_message_length g = n"
      "ccid_tx_message_offset g = of_nat p" "p \<le> unat n" "unat n \<le> length src"
    and ps: "unat off \<le> unat psize" "unat psize < 256" "unat psize \<le> length pkt"
    and d: "d = min (unat n - p) (unat psize - unat off)"
  shows "ccid_tx_fill g pkt psize off = Some
     (if unat psize - unat off \<le> unat n - p
      then g\<lparr>ccid_tx_message_offset := of_nat (p + d), ccid_tx_packet_length := of_nat (unat off + d)\<rparr>
      else g\<lparr>ccid_tx_message_offset := n, ccid_tx_message_buffer := None,
             rx_msg_status := CCID_MSG_STATUS_WAITING, ccid_tx_packet_length := of_nat (unat off + d)\<rparr>,
      take (unat off) pkt @ take d (drop p src) @ drop (unat off + d) pkt)"
proof -
  have p: "unat (of_nat p :: u16) = p"
    using g(5) unat_bound16 [of n] by (simp add: unsigned_of_nat take_bit_nat_eq_self)
  show ?thesis
  proof (cases "unat psize - unat off \<le> unat n - p")
    case True
    then have dd: "d = unat psize - unat off" by (simp add: d)
    have "psize - off = of_nat d"
      using dd ps(1) by (simp add: word_unat_eq_iff unat_sub_no_wrap word_le_nat_alt)
    moreover have "(ucast psize :: u8) = of_nat (unat off + d)"
      by (rule ucast_u8_nat) (use dd ps(1) in simp)
    moreover have "unat n + unat off \<ge> unat psize + p" using True ps(1) g(5) by linarith
    ultimately show ?thesis
      using True g p ps dd by (auto simp: ccid_tx_fill_def memcpy_n_in word_less_nat_alt)
  next
    case False
    then have dd: "d = unat n - p" by (simp add: d)
    have u: "unat (off + (n - of_nat p)) = unat off + d"
      using dd False ps(1,2) g(5) p by (subst unat_add_no_wrap) (auto simp: unat_sub_no_wrap word_le_nat_alt)
    have "(ucast (off + (n - of_nat p)) :: u8) = of_nat (unat off + d)"
      by (rule ucast_u8_nat [OF u])
    moreover have "\<not> unat n + unat off \<ge> unat psize + p" using False ps(1) g(5) by linarith
    ultimately show ?thesis
      using False g p ps dd by (auto simp: ccid_tx_fill_def memcpy_n_in word_less_nat_alt)
  qed
qed

lemma unat_of_nat_u16: "p < 2 ^ 16 \<Longrightarrow> unat (of_nat p :: u16) = p"
  by (simp add: unsigned_of_nat take_bit_nat_eq_self)

lemma unat_of_nat_u8: "p < 2 ^ 8 \<Longrightarrow> unat (of_nat p :: u8) = p"
  by (simp add: unsigned_of_nat take_bit_nat_eq_self)

text \<open>One call emits the prefix and as much of the message as fits.\<close>

lemma CCID_TRANSPORT_tx_eq:
  assumes g: "g = ccid_begin h buffer len" "ccid_tx_message_buffer g = Some s" "tx_source g s = src"
      "ccid_tx_message_length g = n" "ccid_tx_message_offset g = of_nat p" "p \<le> unat n" "unat n \<le> length src"
    and ps: "10 \<le> unat psize" "unat psize < 256" "unat psize \<le> length pkt" "length pkt \<le> 2 ^ 32"
    and k: "k = length (ccid_prefix g buffer)" and d: "d = min (unat n - p) (unat psize - k)"
  shows "\<exists>pkt'. CCID_TRANSPORT_tx h buffer len pkt psize = Some
     (if unat psize - k \<le> unat n - p
      then g\<lparr>ccid_tx_message_offset := of_nat (p + d), ccid_tx_packet_length := of_nat (k + d)\<rparr>
      else g\<lparr>ccid_tx_message_offset := n, ccid_tx_message_buffer := None,
             rx_msg_status := CCID_MSG_STATUS_WAITING, ccid_tx_packet_length := of_nat (k + d)\<rparr>, pkt') \<and>
     length pkt' = length pkt \<and> take (k + d) pkt' = ccid_prefix g buffer @ take d (drop p src)"
proof -
  let ?c = "ccid_prefix g buffer"
  let ?p2 = "?c @ replicate (unat psize - length ?c) 0 @ drop (unat psize) pkt"
  have k10: "k \<le> 10" "unat (of_nat k :: u16) = k"
    unfolding k by (auto simp: ccid_prefix_def)
  have nn: "\<not> (buffer = None \<and> ccid_tx_message_buffer h = None)"
    using g(1,2) by (auto simp: ccid_begin_def)
  have l2: "length ?p2 = length pkt" using k10 ps k by simp
  have dl: "length (take d (drop p src)) = d" "k + d \<le> length pkt"
    using g(6,7) d k10 ps by auto
  let ?q = "take k ?p2 @ take d (drop p src) @ drop (k + d) ?p2"
  have q: "length ?q = length pkt" unfolding l2 [symmetric] by (rule length_patch) (use dl l2 in simp_all)
  have "take (k + d) ?q = ?c @ take d (drop p src)"
    using dl(1) k by simp
  moreover have "CCID_TRANSPORT_tx h buffer len pkt psize = Some
     (if unat psize - k \<le> unat n - p
      then g\<lparr>ccid_tx_message_offset := of_nat (p + d), ccid_tx_packet_length := of_nat (k + d)\<rparr>
      else g\<lparr>ccid_tx_message_offset := n, ccid_tx_message_buffer := None,
             rx_msg_status := CCID_MSG_STATUS_WAITING, ccid_tx_packet_length := of_nat (k + d)\<rparr>, ?q)"
    unfolding CCID_TRANSPORT_tx_fill [OF nn ps(1,3,4) g(1)] k [symmetric]
    using ccid_tx_fill_eq [OF g(2-7), of "of_nat k" psize ?p2 d] k10 ps l2 d k
    by (metis le_trans)
  ultimately show ?thesis using q by blast
qed

lemma CCID_TRANSPORT_tx_ok:
  assumes t: "transport_ok N t" and b: "buffer \<noteq> None \<or> ccid_tx_message_buffer t \<noteq> None"
    and l: "\<And>s. buffer = Some s \<Longrightarrow> (rx_msg_status t = CCID_MSG_STATUS_WAITING \<or> unat len \<le> N) \<and> unat len \<le> length (tx_source t s)"
    and p: "length pkt = 64"
  shows "\<exists>t' p'. CCID_TRANSPORT_tx t buffer len pkt 0x40 = Some (t', p') \<and> transport_ok N t' \<and>
     length p' = 64 \<and> unat (ccid_tx_packet_length t') \<le> 64"
proof -
  define g where "g = ccid_begin t buffer len"
  have src: "tx_source g s = tx_source t s" for s
    by (auto simp: g_def ccid_begin_def tx_source_def split: ccid_tx_source.split)
  obtain s where s: "ccid_tx_message_buffer g = Some s"
    using b by (cases buffer) (auto simp: g_def ccid_begin_def)
  have len: "ccid_tx_message_offset g \<le> ccid_tx_message_length g"
      "unat (ccid_tx_message_length g) \<le> length (tx_source g s)"
    unfolding src using s t l by (cases buffer; auto simp: g_def ccid_begin_def transport_ok_def)+
  have gok: "transport_ok N g"
    using t s len l src by (cases buffer) (auto simp: g_def ccid_begin_def transport_ok_def unat_ucast_u32)
  define q where "q = unat (ccid_tx_message_offset g)"
  have q: "ccid_tx_message_offset g = of_nat q" "q \<le> unat (ccid_tx_message_length g)"
    using len(1) by (simp_all add: q_def word_le_nat_alt)
  define k where "k = length (ccid_prefix g buffer)"
  define d where "d = min (unat (ccid_tx_message_length g) - q) (64 - k)"
  have k: "k \<le> 10" unfolding k_def by (auto simp: ccid_prefix_def)
  then have "k + d \<le> 64" by (auto simp: d_def)
  with unat_of_nat_le have kd: "unat (of_nat (k + d) :: u8) \<le> 64" by (rule le_trans)
  have qd: "unat (of_nat (q + d) :: u16) = q + d" "q + d \<le> unat (ccid_tx_message_length g)"
    using q(2) unat_bound16 [of "ccid_tx_message_length g"] unat_of_nat_u16 [of "q + d"] by (auto simp: d_def)
  obtain p' where p': "CCID_TRANSPORT_tx t buffer len pkt 0x40 = Some
     (if 64 - k \<le> unat (ccid_tx_message_length g) - q
      then g\<lparr>ccid_tx_message_offset := of_nat (q + d), ccid_tx_packet_length := of_nat (k + d)\<rparr>
      else g\<lparr>ccid_tx_message_offset := ccid_tx_message_length g, ccid_tx_message_buffer := None,
             rx_msg_status := CCID_MSG_STATUS_WAITING, ccid_tx_packet_length := of_nat (k + d)\<rparr>, p')"
     "length p' = 64"
    using CCID_TRANSPORT_tx_eq [OF g_def s refl refl q len(2), of "0x40" pkt k d] p k_def d_def by auto
  have "transport_ok N (g\<lparr>ccid_tx_message_offset := of_nat (q + d), ccid_tx_packet_length := of_nat (k + d)\<rparr>)"
    using gok qd unfolding transport_ok_def by (auto simp: word_le_nat_alt tx_source_def split: ccid_tx_source.splits)
  moreover have "transport_ok N (g\<lparr>ccid_tx_message_offset := ccid_tx_message_length g, ccid_tx_message_buffer := None,
             rx_msg_status := CCID_MSG_STATUS_WAITING, ccid_tx_packet_length := of_nat (k + d)\<rparr>)"
    using gok unfolding transport_ok_def by auto
  ultimately show ?thesis using p' kd by (auto split: if_splits)
qed

definition ccid_inv :: "nat \<Rightarrow> ledger_ccid_handle_t \<Rightarrow> bool" where
  "ccid_inv N h = (transport_ok N (transport (device h)) \<and> length (packet_buffer h) = 64)"

text \<open>What the environment promises: a packet is a USB packet, and while a message is being received, or waits to
  be processed, the application sends nothing longer than the reception buffer.\<close>

definition ccid_event_ok :: "nat \<Rightarrow> ccid_event \<Rightarrow> ledger_ccid_handle_t \<Rightarrow> bool" where
  "ccid_event_ok N e h =
     (case e of
        Ccid_data_out p \<Rightarrow> length p < 2 ^ 16
      | Ccid_send _ _ p _ \<Rightarrow> rx_msg_status (transport (device h)) = CCID_MSG_STATUS_WAITING \<or> length p \<le> N
      | _ \<Rightarrow> True)"

primrec ccid_env_ok :: "nat \<Rightarrow> ccid_event list \<Rightarrow> ledger_ccid_handle_t \<Rightarrow> bool" where
  "ccid_env_ok N [] h = True"
| "ccid_env_ok N (e # es) h =
     (ccid_event_ok N e h \<and>
      (case ccid_event_step e h of None \<Rightarrow> True | Some (_, h') \<Rightarrow> ccid_env_ok N es h'))"

lemma upd_transport_simps [simp]:
  "transport (device (upd_transport t h)) = t" "packet_buffer (upd_transport t h) = packet_buffer h"
  "ccid_state (upd_transport t h) = ccid_state h"
  by (simp_all add: upd_transport_def)

lemma data_out_safe:
  assumes "ccid_inv N h" "length p < 2 ^ 16"
  shows "\<exists>os h'. USBD_LEDGER_CCID_data_out h (Some p) (of_nat (length p)) = Some (USBD_OK, os, h') \<and> ccid_inv N h'"
proof -
  have "transport_ok N (transport (device h))" using assms(1) by (simp add: ccid_inv_def)
  from CCID_TRANSPORT_rx_ok [OF this unat_of_nat_le assms(2)] obtain t where
    "CCID_TRANSPORT_rx (transport (device h)) (Some p) (of_nat (length p)) = Some t" "transport_ok N t" by blast
  then show ?thesis using assms(1) by (auto simp: USBD_LEDGER_CCID_data_out_def ccid_inv_def)
qed

lemma ep_in_transmit:
  assumes "unat (l :: u8) \<le> 64" "length p = 64"
  shows "\<exists>r os. USBD_LL_Transmit tmo 0x83 p (ucast l) tm = Some (r, os)"
  using assms by (intro USBD_LL_Transmit_ex) (simp add: unsigned_ucast_eq take_bit_nat_eq_self)

lemma data_in_safe:
  assumes h: "ccid_inv N h"
  shows "\<exists>os h'. USBD_LEDGER_CCID_data_in h = Some (USBD_OK, os, h') \<and> ccid_inv N h'"
proof (cases "ccid_tx_message_buffer (transport (device h))")
  case None
  then show ?thesis
    using h by (auto simp: USBD_LEDGER_CCID_data_in_def ccid_inv_def transport_ok_def tx_source_def
        split: ccid_tx_source.split)
next
  case (Some s)
  have ok: "transport_ok N (transport (device h))" "length (packet_buffer h) = 64" using h by (auto simp: ccid_inv_def)
  from CCID_TRANSPORT_tx_ok [OF ok(1), of None 0 "packet_buffer h"] ok(2) Some obtain t p where
    tx: "CCID_TRANSPORT_tx (transport (device h)) None 0 (packet_buffer h) 0x40 = Some (t, p)" "transport_ok N t"
      "length p = 64" "unat (ccid_tx_packet_length t) \<le> 64" by auto
  obtain r os where "USBD_LL_Transmit False 0x83 p (ucast (ccid_tx_packet_length t)) 0 = Some (r, os)"
    using ep_in_transmit [OF tx(4,3)] by blast
  moreover have "transport_ok N (t\<lparr>ccid_tx_packet_length := 0\<rparr>)"
    using tx(2) by (auto simp: transport_ok_def tx_source_def split: ccid_tx_source.splits)
  ultimately show ?thesis
    using Some tx h by (auto simp: USBD_LEDGER_CCID_data_in_def ccid_inv_def Let_def)
qed

lemma send_packet_safe:
  assumes h: "ccid_inv N h" and l: "rx_msg_status (transport (device h)) = CCID_MSG_STATUS_WAITING \<or> unat len \<le> N"
      "unat len \<le> length (tx_source (transport (device h)) s)"
  shows "\<exists>r os h'. USBD_LEDGER_CCID_send_packet dv tmo h (Some s) len tm = Some (r, os, h') \<and> ccid_inv N h'"
proof -
  have ok: "transport_ok N (transport (device h))" "length (packet_buffer h) = 64" using h by (auto simp: ccid_inv_def)
  from CCID_TRANSPORT_tx_ok [OF ok(1), of "Some s" len "packet_buffer h"] ok(2) l obtain t p where
    tx: "CCID_TRANSPORT_tx (transport (device h)) (Some s) len (packet_buffer h) 0x40 = Some (t, p)" "transport_ok N t"
      "length p = 64" "unat (ccid_tx_packet_length t) \<le> 64" by auto
  obtain r os where "USBD_LL_Transmit tmo 0x83 p (ucast (ccid_tx_packet_length t)) tm = Some (r, os)"
    using ep_in_transmit [OF tx(4,3)] by blast
  then show ?thesis
    using tx by (auto simp: USBD_LEDGER_CCID_send_packet_def ccid_inv_def Let_def)
qed

lemma setup_safe:
  "ccid_inv N h \<Longrightarrow> USBD_LEDGER_CCID_setup dv h req = (r, os, h') \<Longrightarrow> ccid_inv N h'"
  by (auto simp: USBD_LEDGER_CCID_setup_def CCID_CMD_abort_def ccid_inv_def Let_def split: if_splits prod.splits)

lemma same_link_transport:
  assumes "same_link d d'" "transport_ok N (transport d)"
  shows "transport_ok N ((transport d')\<lparr>rx_msg_status := CCID_MSG_STATUS_WAITING\<rparr>)"
    and "\<lbrakk>unat (rx_msg_length (transport d')) \<le> N; unat (hdr_length (dev_hdr d')) \<le> N\<rbrakk> \<Longrightarrow> transport_ok N (transport d')"
  using assms by (auto simp: same_link_def transport_ok_def dev_hdr_def tx_source_def Let_def
      split: ccid_tx_source.splits)

lemma data_ready_safe:
  assumes h: "ccid_inv N h"
  shows "\<exists>r b os h'. USBD_LEDGER_CCID_data_ready dv h (Some buf) (of_nat (length buf)) = Some (r, b, os, h') \<and>
           ccid_inv N h'"
proof (cases "rx_msg_status (transport (device h)) = CCID_MSG_STATUS_COMPLETE")
  case True
  define d where "d = ccid_check_slot (device h)"
  have t: "transport_ok N (transport (device h))" "25 \<le> N" "length (packet_buffer h) = 64"
    using h by (auto simp: ccid_inv_def transport_ok_def)
  have dt: "transport_ok N (transport d)" "rx_msg_status (transport d) = CCID_MSG_STATUS_COMPLETE"
    using t True by (auto simp: d_def ccid_check_slot_def ccid_acc transport_ok_def tx_source_def split: ccid_tx_source.splits)
  then have "dev_ok d" by (auto simp: dev_ok_def transport_ok_def dev_hdr_def)
  then obtain r d' where p: "CCID_CMD_process d = Some (r, d')"
      "ccid_answer (ccid_response_type (msg_type (dev_hdr d))) (ccid_refused d) d (r, d')"
    using CCID_CMD_process_answer by (metis surj_pair)
  have N: "unat (rx_msg_length (transport d)) \<le> N" "unat (hdr_length (dev_hdr d)) \<le> N" "N < 2 ^ 16"
    using dt by (auto simp: transport_ok_def dev_hdr_def)
  have sl: "same_link d d'" and r: "r = 0 \<or> r = 1" and rl: "unat (rx_msg_length (transport d')) \<le> N"
    and hl: "r = 0 \<Longrightarrow> unat (hdr_length (dev_hdr d')) \<le> N"
    using p(2) N t(2) by (auto simp: ccid_answer_def)
  have buf: "length (rx_msg_buffer (transport d')) = N"
    using sl dt(1) by (auto simp: same_link_def transport_ok_def Let_def)
  let ?h = "h\<lparr>device := d'\<rparr>"
  from r show ?thesis
  proof
    assume r0: "r = 0"
    have "ccid_inv N ?h" using same_link_transport(2) [OF sl dt(1) rl hl] t(3) r0 by (simp add: ccid_inv_def)
    then obtain x os h' where s: "USBD_LEDGER_CCID_send_packet dv False ?h (Some Tx_rx_msg_buffer)
        (ucast (hdr_length (dev_hdr d'))) 0 = Some (x, os, h')" "ccid_inv N h'"
      using send_packet_safe [of N ?h "ucast (hdr_length (dev_hdr d'))" Tx_rx_msg_buffer dv False 0] hl [OF r0] N(3) buf
      by (auto simp: unat_ucast_le16 tx_source_def)
    have "transport_ok N ((transport (device h'))\<lparr>rx_msg_status := CCID_MSG_STATUS_WAITING\<rparr>)"
      using s(2) by (auto simp: ccid_inv_def transport_ok_def tx_source_def split: ccid_tx_source.splits)
    then show ?thesis
      using True p(1) s r0 by (auto simp: USBD_LEDGER_CCID_data_ready_def d_def [symmetric] ccid_inv_def Let_def)
  next
    assume r1: "r = 1"
    let ?n = "unat (rx_msg_length (transport d'))"
    have ok: "transport_ok N ((transport d')\<lparr>rx_msg_status := CCID_MSG_STATUS_WAITING\<rparr>)"
      by (rule same_link_transport(1) [OF sl dt(1)])
    show ?thesis
    proof (cases "?n + 1 > unat (of_nat (length buf) :: u16)")
      case big: True
      then show ?thesis
        using True p(1) r1 ok t(3)
        by (auto simp: USBD_LEDGER_CCID_data_ready_def d_def [symmetric] ccid_inv_def Let_def)
    next
      case False
      then have "?n + 1 \<le> length buf"
        using unat_of_nat_le [of "length buf", where ?'a = 16] by simp
      then have "st buf 0 0x22 = Some (buf[0 := 0x22])"
          "\<exists>b'. memcpy_n (buf[0 := 0x22]) 1 (rx_msg_buffer (transport d')) 0 ?n = Some b'"
        using rl buf by (cases buf; simp add: st_def memcpy_n_in)+
      then show ?thesis
        using False True p(1) r1 ok t(3)
        by (auto simp: USBD_LEDGER_CCID_data_ready_def d_def [symmetric] ccid_inv_def Let_def)
    qed
  qed
qed (use h in \<open>simp add: USBD_LEDGER_CCID_data_ready_def\<close>)

lemma ccid_init_inv:
  assumes "25 \<le> length io" "length io < 2 ^ 16" "length pkt = 64"
  shows "ccid_inv (length io) (snd (snd (USBD_LEDGER_CCID_init io pkt)))"
  using assms unat_of_nat_u16 [of "length io"]
  by (simp add: USBD_LEDGER_CCID_init_def ccid_inv_def transport_ok_def CCID_TRANSPORT_init_def
      CCID_TRANSPORT_reset_parameters_def zero_transport_def zero_header_def)

lemma ccid_event_step_safe:
  assumes "ccid_inv N h" "ccid_event_ok N e h"
  shows "\<exists>os h'. ccid_event_step e h = Some (os, h') \<and> ccid_inv N h'"
proof (cases e)
  case (Ccid_data_out p)
  then show ?thesis using data_out_safe [of N h p] assms by (auto simp: ccid_event_step_def ccid_event_ok_def)
next
  case Ccid_data_in
  then show ?thesis using data_in_safe assms(1) by (fastforce simp: ccid_event_step_def)
next
  case (Ccid_send dv tmo p tm)
  have "rx_msg_status (transport (device h)) = CCID_MSG_STATUS_WAITING \<or> unat (of_nat (length p) :: u16) \<le> N"
    using assms(2) Ccid_send le_trans [OF unat_of_nat_le] by (auto simp: ccid_event_ok_def)
  moreover have "unat (of_nat (length p) :: u16) \<le> length (tx_source (transport (device h)) (Tx_bytes p))"
    using unat_of_nat_le by (auto simp: tx_source_def)
  ultimately show ?thesis
    using send_packet_safe [OF assms(1), of "of_nat (length p)" "Tx_bytes p" dv tmo tm] Ccid_send
    by (auto simp: ccid_event_step_def)
next
  case (Ccid_ready dv buf)
  then show ?thesis using data_ready_safe [OF assms(1), of dv buf] by (auto simp: ccid_event_step_def)
next
  case (Ccid_setup dv req)
  then show ?thesis
    using setup_safe [OF assms(1)] by (cases "USBD_LEDGER_CCID_setup dv h req") (auto simp: ccid_event_step_def)
next
  case Ccid_init
  let ?io = "rx_msg_buffer (transport (device h))"
  have "25 \<le> length ?io" "length ?io < 2 ^ 16" "length (packet_buffer h) = 64" "length ?io = N"
    using assms(1) by (auto simp: ccid_inv_def transport_ok_def)
  then show ?thesis
    using ccid_init_inv [of ?io "packet_buffer h"] Ccid_init
    by (cases "snd (USBD_LEDGER_CCID_init ?io (packet_buffer h))") (simp add: ccid_event_step_def)
next
  case Ccid_de_init
  then show ?thesis using assms(1) by (simp add: ccid_event_step_def USBD_LEDGER_CCID_de_init_def)
qed

lemma ccid_run_safe:
  "ccid_inv N h \<Longrightarrow> ccid_env_ok N es h \<Longrightarrow> \<exists>os h'. run ccid_event_step es h = Some (os, h') \<and> ccid_inv N h'"
proof (induction es arbitrary: h)
  case (Cons e es)
  then obtain os h1 where "ccid_event_step e h = Some (os, h1)" "ccid_inv N h1"
    using ccid_event_step_safe by fastforce
  with Cons show ?case by fastforce
qed simp

text \<open>The promise is needed.  A message longer than the reception buffer that is sent while a request is being received
  replaces the length of the request, which is shared with the response; the next packet is then copied
  past the end of the buffer.\<close>

lemma ccid_send_overflow:
  assumes h: "ccid_inv N h" "rx_msg_status (transport (device h)) = CCID_MSG_STATUS_NEED_MORE_DATA"
    and r: "r = unat (rx_msg_length (transport (device h)))"
    and p: "N < length p" "54 \<le> length p" "length p < 2 ^ 16" "length p < r + N"
    and q: "length p \<le> r + length q" "length q < 2 ^ 16"
  shows "run ccid_event_step [Ccid_send dv tmo p tm, Ccid_data_out q] h = None"
proof -
  let ?t = "transport (device h)" and ?n = "of_nat (length p) :: u16"
  have n: "unat ?n = length p" "unat (of_nat (length q) :: u16) = length q" using p(3) q(2) by (simp_all add: unat_of_nat_u16)
  define g where "g = ccid_begin ?t (Some (Tx_bytes p)) ?n"
  have ok: "transport_ok N ?t" "length (packet_buffer h) = 64" using h(1) by (auto simp: ccid_inv_def)
  have g: "ccid_tx_message_buffer g = Some (Tx_bytes p)" "tx_source g (Tx_bytes p) = p" "ccid_tx_message_length g = ?n"
      "ccid_tx_message_offset g = of_nat 0" "length (ccid_prefix g (Some (Tx_bytes p))) = 10"
    by (simp_all add: g_def ccid_begin_def tx_source_def ccid_prefix_def)
  have u: "10 \<le> unat (0x40 :: u16)" "unat (0x40 :: u16) < 256" "unat (0x40 :: u16) \<le> length (packet_buffer h)"
      "length (packet_buffer h) \<le> 2 ^ 32" "unat ?n \<le> length p" "unat (0x40 :: u16) - 10 \<le> unat ?n - 0"
      "(54 :: nat) = min (unat ?n - 0) (unat (0x40 :: u16) - 10)"
    using n(1) p(2) ok(2) by simp_all
  from CCID_TRANSPORT_tx_eq [OF g_def g(1-4) le0 u(5) u(1-4) g(5) [symmetric] u(7), unfolded if_P [OF u(6)]] obtain pkt where
    tx: "CCID_TRANSPORT_tx ?t (Some (Tx_bytes p)) ?n (packet_buffer h) 0x40 =
      Some (g\<lparr>ccid_tx_message_offset := of_nat (0 + 54), ccid_tx_packet_length := of_nat (10 + 54)\<rparr>, pkt)" "length pkt = length (packet_buffer h)"
    by blast
  let ?t' = "g\<lparr>ccid_tx_message_offset := of_nat (0 + 54), ccid_tx_packet_length := of_nat (10 + 54)\<rparr>"
  obtain x os where "USBD_LL_Transmit tmo 0x83 pkt (ucast (of_nat (10 + 54) :: u8)) tm = Some (x, os)"
    using ep_in_transmit [of "of_nat (10 + 54)" pkt tmo tm] tx(2) ok(2) by auto
  then have "\<exists>os1 h1. ccid_event_step (Ccid_send dv tmo p tm) h = Some (os1, h1) \<and> transport (device h1) = ?t'"
    using tx by (simp add: ccid_event_step_def USBD_LEDGER_CCID_send_packet_def Let_def)
  then obtain os1 h1 where s: "ccid_event_step (Ccid_send dv tmo p tm) h = Some (os1, h1)" "transport (device h1) = ?t'"
    by blast
  have "ccid_rx_more ?t' q (of_nat (length q)) = None"
    using ok(1) p q r n h(2) unat_bound16 [of "rx_msg_length ?t"]
    by (auto simp: ccid_rx_more_def Let_def g_def ccid_begin_def unat_ucast_u32 transport_ok_def memcpy_n_def ld_n_def st_n_def)
  then have "ccid_event_step (Ccid_data_out q) h1 = None"
    using h(2) by (simp add: ccid_event_step_def USBD_LEDGER_CCID_data_out_def CCID_TRANSPORT_rx_def s(2) g_def ccid_begin_def)
  then show ?thesis using s(1) by simp
qed

section \<open>Properties\<close>

text \<open>Property C11.  \<open>CCID_CMD_process\<close> answers every request: it always returns, with the response type that
  the class specification assigns to the command, for the slot and the sequence number of the request; the
  error byte says success exactly when the status byte has no failure bit.  Only a block transfer or a
  secure operation is handed to the application, a response that is sent carries at most eight bytes (a
  refused escape repeats the length of the request).  A request for a slot that the reader does not
  announce in its functional descriptor, or one that needs a card when there is none, is refused and changes
  neither the message, nor the parameters, nor the abort in progress; no other request is refused for its
  slot or for the card.  The one exception is slot 1: the reader announces slot 0 alone, yet the code treats a
  request for slot 1 as one for a slot that exists.  The message buffer has at least 25 bytes.\<close>

theorem ccid_command_spec:
  assumes "25 \<le> length (rx_msg_buffer (transport d))" "length (rx_msg_buffer (transport d)) < 2 ^ 16"
    and "length (out_specific (dev_hdr d)) = 3"
  shows "\<exists>r d'. CCID_CMD_process d = Some (r, d') \<and>
     msg_type (dev_hdr d') = ccid_response_type (msg_type (dev_hdr d)) \<and>
     slot_number (dev_hdr d') = slot_number (dev_hdr d) \<and> seq_number (dev_hdr d') = seq_number (dev_hdr d) \<and>
     (in_error (dev_hdr d') = CCID_ERROR_CMD_NO_ERROR \<longleftrightarrow>
        in_status (dev_hdr d') AND CCID_SLOT_STATUS_CMD_FAILED = 0) \<and>
     (r = 0 \<or> r = 1 \<and> msg_type (dev_hdr d) \<in> {CCID_COMMAND_PC_TO_RDR_XFR_BLOCK, CCID_COMMAND_PC_TO_RDR_SECURE}) \<and>
     (r = 0 \<longrightarrow> hdr_length (dev_hdr d') \<le> 8 \<or>
        msg_type (dev_hdr d) = CCID_COMMAND_PC_TO_RDR_ESCAPE \<and> in_error (dev_hdr d') \<noteq> CCID_ERROR_CMD_NO_ERROR \<and>
        hdr_length (dev_hdr d') = hdr_length (dev_hdr d)) \<and>
     (\<not> ccid_slot_exists d \<and> slot_number (dev_hdr d) \<noteq> 1 \<or> ccid_card_missing d \<longrightarrow>
        r = 0 \<and> in_error (dev_hdr d') \<noteq> CCID_ERROR_CMD_NO_ERROR \<and> same_config d d') \<and>
     ((ccid_slot_exists d \<or> slot_number (dev_hdr d) = 1) \<and> \<not> ccid_card_missing d \<longrightarrow>
        in_error (dev_hdr d') \<notin> {CCID_ERROR_CMD_SLOT_DOES_NOT_EXIST, CCID_ERROR_ICC_MUTE})"
proof -
  let ?c = "msg_type (dev_hdr d)"
  have "dev_ok d" using assms by (simp add: dev_ok_def)
  from CCID_CMD_process_answer [OF this] obtain r d' where p: "CCID_CMD_process d = Some (r, d')"
      and a: "ccid_answer (ccid_response_type ?c) (ccid_refused d) d (r, d')"
      and r1: "r = 1 \<longrightarrow> ?c \<in> {CCID_COMMAND_PC_TO_RDR_XFR_BLOCK, CCID_COMMAND_PC_TO_RDR_SECURE}"
    by (metis fst_conv surj_pair)
  have esc: "ccid_response_type ?c = CCID_COMMAND_RDR_TO_PC_ESCAPE \<Longrightarrow> ?c = CCID_COMMAND_PC_TO_RDR_ESCAPE"
    by (simp add: ccid_response_type_def split: if_splits)
  have len: "x \<le> 8" if "x \<in> {0, 2, 5, 8 :: u32}" for x using that by auto
  note a' = a [unfolded ccid_answer_def prod.case same_link_def status_ok_def Let_def]
  have "hdr_length (dev_hdr d') \<le> 8 \<or> ?c = CCID_COMMAND_PC_TO_RDR_ESCAPE \<and>
      in_error (dev_hdr d') \<noteq> CCID_ERROR_CMD_NO_ERROR \<and> hdr_length (dev_hdr d') = hdr_length (dev_hdr d)" if "r = 0"
    using a' that esc len by blast
  with p a' r1 show ?thesis using ccid_refused_iff [of d] by blast
qed

text \<open>A device with a card and a \<open>GetParameters\<close> request in its buffer.\<close>

definition sample_device :: ccid_device_t where
  "sample_device = upd_hdr (\<lambda>i. i\<lparr>msg_type := CCID_COMMAND_PC_TO_RDR_GET_PARAMETERS\<rparr>)
     (device (snd (snd (USBD_LEDGER_CCID_init (replicate 32 0) (replicate 64 0)))))"

lemma sample_device_sizes:
  "length (rx_msg_buffer (transport sample_device)) = 32" "length (out_specific (dev_hdr sample_device)) = 3"
  "msg_type (dev_hdr sample_device) = CCID_COMMAND_PC_TO_RDR_GET_PARAMETERS"
  by (simp_all add: sample_device_def upd_hdr_def USBD_LEDGER_CCID_init_def CCID_TRANSPORT_init_def dev_hdr_def
      CCID_TRANSPORT_reset_parameters_def zero_transport_def zero_header_def)

theorem ccid_command_spec_witness:
  "\<exists>r d'. CCID_CMD_process sample_device = Some (r, d') \<and>
     msg_type (dev_hdr d') = CCID_COMMAND_RDR_TO_PC_PARAMETERS"
  using ccid_command_spec [of sample_device] by (auto simp: sample_device_sizes ccid_response_type_def)

text \<open>A run whose messages all fit keeps the promise in every state.\<close>

lemma ccid_env_ok_static:
  "list_all (\<lambda>e. \<forall>h. ccid_event_ok N e h) es \<Longrightarrow> ccid_env_ok N es h"
  by (induction es arbitrary: h) (auto split: option.split)

text \<open>Property C10.  The class never leaves its buffers: from the initial state, whatever the host sends and in
  whatever order packets, transmission acknowledgements, setup requests, messages of the application, polls,
  de-initialisations and initialisations anew come, every callback returns, the received message stays within the reception buffer, a message
  under emission within its source, and every packet within the 64 bytes of the endpoint.  Two things are
  asked of the environment: packets of less than 64 KiB, and that the application sends no message longer than the
  reception buffer while a request is being received or waits to be processed; the lemma \<open>ccid_send_overflow\<close>
  shows that without the second the code writes past the buffer.\<close>

theorem ccid_stack_safe:
  assumes "25 \<le> length io" "length io < 2 ^ 16" "length pkt = 64"
    and "ccid_env_ok (length io) es (snd (snd (USBD_LEDGER_CCID_init io pkt)))"
  shows "\<exists>os h. run ccid_event_step es (snd (snd (USBD_LEDGER_CCID_init io pkt))) = Some (os, h) \<and>
           ccid_inv (length io) h"
  using ccid_run_safe [OF ccid_init_inv [OF assms(1-3)] assms(4)] .

theorem ccid_stack_safe_witness:
  "\<exists>os h. run ccid_event_step [Ccid_send 3 False (replicate 100 1) 0, Ccid_data_in, Ccid_data_in,
       Ccid_data_out (replicate 64 0), Ccid_ready 3 (replicate 8 0), Ccid_send 3 False (replicate 30 1) 0, Ccid_data_in,
       Ccid_de_init, Ccid_init]
     (snd (snd (USBD_LEDGER_CCID_init (replicate 32 0) (replicate 64 0)))) = Some (os, h) \<and> ccid_inv 32 h"
proof -
  let ?h = "snd (snd (USBD_LEDGER_CCID_init (replicate 32 0) (replicate 64 0)))"
  let ?es = "[Ccid_data_in, Ccid_data_in, Ccid_data_out (replicate 64 0), Ccid_ready 3 (replicate 8 0),
    Ccid_send 3 False (replicate 30 1) 0, Ccid_data_in, Ccid_de_init, Ccid_init]"
  have "ccid_env_ok 32 ?es h" for h
    by (rule ccid_env_ok_static) (simp add: ccid_event_ok_def)
  moreover have "rx_msg_status (transport (device ?h)) = CCID_MSG_STATUS_WAITING"
    by (simp add: USBD_LEDGER_CCID_init_def CCID_TRANSPORT_init_def CCID_TRANSPORT_reset_parameters_def)
  ultimately have "ccid_env_ok 32 (Ccid_send 3 False (replicate 100 1) 0 # ?es) ?h"
    by (subst ccid_env_ok.simps) (simp add: ccid_event_ok_def split: option.split del: ccid_env_ok.simps)
  then show ?thesis
    using ccid_stack_safe [of "replicate 32 0" "replicate 64 0" "Ccid_send 3 False (replicate 100 1) 0 # ?es"]
    by (simp only: length_replicate) simp
qed

end
