(* ===== verification/Ccid_Roundtrip.thy ===== *)
theory Ccid_Roundtrip
  imports Ccid_Spec
begin

text \<open>
  A message from one end of the smart-card reader class to the other: the emission by \<open>send_packet\<close> and the
  transmission acknowledgements, and the reception of the packets.
\<close>

section \<open>Emission\<close>

text \<open>The packets of a message: the header with the first bytes, then full packets and a rest.\<close>

function pieces :: "nat \<Rightarrow> 'a list \<Rightarrow> 'a list list" where
  "pieces n xs = (if xs = [] \<or> n = 0 then [] else take n xs # pieces n (drop n xs))"
  by pat_completeness auto
termination
  by (relation "measure (\<lambda>(n, xs). length xs)") auto

declare pieces.simps [simp del]

lemma pieces_Nil [simp]: "pieces n [] = []"
  by (simp add: pieces.simps)

lemma pieces_Cons: "xs \<noteq> [] \<Longrightarrow> 0 < n \<Longrightarrow> pieces n xs = take n xs # pieces n (drop n xs)"
  by (simp add: pieces.simps [of n xs])

definition ccid_packets :: "ccid_msg_bulk_header_t \<Rightarrow> bytes \<Rightarrow> bytes list" where
  "ccid_packets i msg =
     (ccid_header (i\<lparr>hdr_length := of_nat (length msg)\<rparr>) @ take 54 msg) # pieces 64 (drop 54 msg)"

text \<open>What the processor is told to transmit a packet.\<close>

definition usb_frame :: "bytes \<Rightarrow> usb_out list" where
  "usb_frame p =
     [Seph [0x50, 0, of_nat (3 + length p), LEDGER_CCID_BULK_EPIN_ADDR, 0x20, of_nat (length p)], Seph p]"

lemma ep_in_frame:
  assumes "k \<le> 64" "take k pkt = p" "length p = k" "\<not> (tm \<noteq> 0 \<and> tmo)"
  shows "USBD_LL_Transmit tmo 0x83 pkt (ucast (of_nat k :: u8)) tm = Some (USBD_OK, usb_frame p)"
proof -
  have u: "(ucast (of_nat k :: u8) :: u32) = of_nat k" "unat (of_nat k :: u32) = k"
    using assms(1) by (simp_all add: word_unat_eq_iff unsigned_ucast_eq unsigned_of_nat take_bit_nat_eq_self)
  have l: "k \<le> length pkt" using assms(2,3) by auto
  have w: "unat (3 + of_nat k :: u32) = 3 + k"
    using assms(1) u(2) by (subst unat_add_no_wrap) auto
  have b: "(ucast (drop_bit 8 (3 + of_nat k :: u32)) :: u8) = 0"
    using assms(1) by (simp add: word_unat_eq_iff unsigned_ucast_eq unat_drop_bit w)
  have c: "(ucast (3 + of_nat k :: u32) :: u8) = of_nat (3 + k)" "(ucast (of_nat k :: u32) :: u8) = of_nat k"
    by (rule ucast_u8_nat [OF w], rule ucast_u8_nat [OF u(2)])
  show ?thesis
    unfolding u(1) USBD_LL_Transmit_def Let_def u(2) b c
    using assms l by (auto simp: ld_n_def usb_frame_def)
qed

text \<open>The class in the middle of the message \<open>msg\<close>, with \<open>p\<close> bytes of it gone.\<close>

definition tx_pending :: "bytes \<Rightarrow> nat \<Rightarrow> ledger_ccid_handle_t \<Rightarrow> bool" where
  "tx_pending msg p h =
     (let t = transport (device h) in
      ccid_tx_message_buffer t = Some (Tx_bytes msg) \<and> ccid_tx_message_length t = of_nat (length msg) \<and>
      ccid_tx_message_offset t = of_nat p \<and> p \<le> length msg \<and> length msg < 2 ^ 16 \<and> length (packet_buffer h) = 64)"

definition tx_idle :: "ledger_ccid_handle_t \<Rightarrow> bool" where
  "tx_idle h = (ccid_tx_message_buffer (transport (device h)) = None \<and> ccid_state h = LEDGER_CCID_STATE_IDLE)"

lemma data_in_idle:
  "ccid_tx_message_buffer (transport (device h)) = None \<Longrightarrow>
     \<exists>h'. USBD_LEDGER_CCID_data_in h = Some (USBD_OK, [], h') \<and> tx_idle h'"
  by (simp add: USBD_LEDGER_CCID_data_in_def tx_idle_def)

lemma data_in_idle_run0:
  assumes "ccid_tx_message_buffer (transport (device h)) = None" "0 < k"
  shows "\<exists>os h'. run ccid_event_step (replicate k Ccid_data_in) h = Some (os, h') \<and> tx_idle h' \<and> concat os = []"
  using assms
proof (induction k arbitrary: h)
  case (Suc k)
  obtain h1 where "ccid_event_step Ccid_data_in h = Some ([], h1)" "tx_idle h1"
    using data_in_idle [OF Suc.prems(1)] by (auto simp: ccid_event_step_def)
  then show ?case using Suc.IH [of h1] by (cases "k = 0") (auto simp: tx_idle_def)
qed simp

lemma data_in_idle_run:
  "tx_idle h \<Longrightarrow> \<exists>os h'. run ccid_event_step (replicate k Ccid_data_in) h = Some (os, h') \<and> tx_idle h' \<and> concat os = []"
  using data_in_idle_run0 [of h k] by (cases "k = 0") (auto simp: tx_idle_def)

lemma tx_step:
  assumes g: "g = ccid_begin t buffer (of_nat (length msg))" "ccid_tx_message_buffer g = Some (Tx_bytes msg)"
      "ccid_tx_message_length g = of_nat (length msg)" "ccid_tx_message_offset g = of_nat p"
      "p \<le> length msg" "length msg < 2 ^ 16" "length pkt = 64"
    and k: "k = length (ccid_prefix g buffer)" and d: "d = min (length msg - p) (64 - k)"
  shows "\<exists>t' pkt'. CCID_TRANSPORT_tx t buffer (of_nat (length msg)) pkt 0x40 = Some (t', pkt') \<and> length pkt' = 64 \<and>
     take (k + d) pkt' = ccid_prefix g buffer @ take d (drop p msg) \<and> ccid_tx_packet_length t' = of_nat (k + d) \<and>
     (if 64 - k \<le> length msg - p
      then ccid_tx_message_buffer t' = Some (Tx_bytes msg) \<and> ccid_tx_message_length t' = of_nat (length msg) \<and>
           ccid_tx_message_offset t' = of_nat (p + d)
      else ccid_tx_message_buffer t' = None)"
proof -
  have n: "unat (of_nat (length msg) :: u16) = length msg" using g(6) by (rule unat_of_nat_u16)
  have s: "tx_source g (Tx_bytes msg) = msg" by (simp add: tx_source_def)
  have "\<exists>pkt'. CCID_TRANSPORT_tx t buffer (of_nat (length msg)) pkt 0x40 = Some
     (if 64 - k \<le> length msg - p
      then g\<lparr>ccid_tx_message_offset := of_nat (p + d), ccid_tx_packet_length := of_nat (k + d)\<rparr>
      else g\<lparr>ccid_tx_message_offset := of_nat (length msg), ccid_tx_message_buffer := None,
             rx_msg_status := CCID_MSG_STATUS_WAITING, ccid_tx_packet_length := of_nat (k + d)\<rparr>, pkt') \<and>
     length pkt' = 64 \<and> take (k + d) pkt' = ccid_prefix g buffer @ take d (drop p msg)"
    using CCID_TRANSPORT_tx_eq [OF g(1,2) s g(3,4), of "0x40" pkt k d] n g(5-) k d by simp
  then show ?thesis using g(2,3) by (elim exE conjE) (intro exI conjI, assumption, auto)
qed

lemma data_in_step:
  assumes h: "tx_pending msg p h"
  shows "\<exists>h'. USBD_LEDGER_CCID_data_in h = Some (USBD_OK, if p < length msg then usb_frame (take 64 (drop p msg)) else [], h') \<and>
     (if 64 \<le> length msg - p then tx_pending msg (p + 64) h' else tx_idle h')"
proof -
  let ?t = "transport (device h)"
  define d where "d = min (length msg - p) 64"
  have t: "ccid_tx_message_buffer ?t = Some (Tx_bytes msg)" "ccid_tx_message_length ?t = of_nat (length msg)"
      "ccid_tx_message_offset ?t = of_nat p" "p \<le> length msg" "length msg < 2 ^ 16" "length (packet_buffer h) = 64"
    using h by (auto simp: tx_pending_def Let_def)
  have b: "?t = ccid_begin ?t None (of_nat (length msg))" by (simp add: ccid_begin_def)
  have len: "CCID_TRANSPORT_tx ?t None 0 pkt 0x40 = CCID_TRANSPORT_tx ?t None (of_nat (length msg)) pkt 0x40" for pkt
    by (simp add: CCID_TRANSPORT_tx_def)
  obtain t' pkt' where tx: "CCID_TRANSPORT_tx ?t None 0 (packet_buffer h) 0x40 = Some (t', pkt')" "length pkt' = 64"
     "take d pkt' = take d (drop p msg)" "ccid_tx_packet_length t' = of_nat d"
     "if 64 \<le> length msg - p
      then ccid_tx_message_buffer t' = Some (Tx_bytes msg) \<and> ccid_tx_message_length t' = of_nat (length msg) \<and>
           ccid_tx_message_offset t' = of_nat (p + d)
      else ccid_tx_message_buffer t' = None"
    using tx_step [OF b t refl refl] unfolding len by (auto simp: ccid_prefix_def d_def)
  have dz: "(of_nat d :: u8) = 0 \<longleftrightarrow> d = 0"
    by (simp add: d_def word_unat_eq_iff unsigned_of_nat take_bit_nat_eq_self)
  have fr: "USBD_LL_Transmit False 0x83 pkt' (ucast (of_nat d :: u8)) 0 = Some (USBD_OK, usb_frame (take d (drop p msg)))"
    by (rule ep_in_frame) (use tx(3) t(4) in \<open>auto simp: d_def\<close>)
  have td: "take d (drop p msg) = take 64 (drop p msg)" by (auto simp: d_def min_def)
  have d0: "d = 0 \<longleftrightarrow> \<not> p < length msg" using t(4) by (auto simp: d_def)
  have d64: "64 \<le> length msg - p \<Longrightarrow> d = 64 \<and> p + 64 \<le> length msg" by (simp add: d_def)
  show ?thesis
    using t tx fr d64 unfolding td
    by (auto simp: USBD_LEDGER_CCID_data_in_def Let_def dz d0 tx_pending_def tx_idle_def split: if_splits)
qed

lemma data_in_run:
  assumes "tx_pending msg p h" "length (pieces 64 (drop p msg)) < k"
  shows "\<exists>os h'. run ccid_event_step (replicate k Ccid_data_in) h = Some (os, h') \<and> tx_idle h' \<and>
           concat os = concat (map usb_frame (pieces 64 (drop p msg)))"
  using assms
proof (induction k arbitrary: p h)
  case (Suc k)
  obtain h1 where h1: "USBD_LEDGER_CCID_data_in h =
        Some (USBD_OK, if p < length msg then usb_frame (take 64 (drop p msg)) else [], h1)"
      "if 64 \<le> length msg - p then tx_pending msg (p + 64) h1 else tx_idle h1"
    using data_in_step [OF Suc.prems(1)] by blast
  have st: "ccid_event_step Ccid_data_in h = Some (if p < length msg then usb_frame (take 64 (drop p msg)) else [], h1)"
    using h1(1) by (simp add: ccid_event_step_def)
  show ?case
  proof (cases "64 \<le> length msg - p")
    case True
    then have p: "pieces 64 (drop p msg) = take 64 (drop p msg) # pieces 64 (drop (p + 64) msg)"
      by (simp add: pieces_Cons add.commute)
    then obtain os h' where "run ccid_event_step (replicate k Ccid_data_in) h1 = Some (os, h')" "tx_idle h'"
        "concat os = concat (map usb_frame (pieces 64 (drop (p + 64) msg)))"
      using Suc.IH [of "p + 64" h1] h1(2) True Suc.prems(2) by auto
    then show ?thesis using st True p by auto
  next
    case False
    then have "tx_idle h1" using h1(2) by simp
    then obtain os h' where "run ccid_event_step (replicate k Ccid_data_in) h1 = Some (os, h')" "tx_idle h'" "concat os = []"
      using data_in_idle_run by blast
    moreover have "pieces 64 (drop p msg) = (if p < length msg then [take 64 (drop p msg)] else [])"
      using False by (simp add: pieces_Cons)
    ultimately show ?thesis using st by auto
  qed
qed simp

lemma ccid_send_run:
  assumes h: "tx_idle h" "length (packet_buffer h) = 64" and m: "length msg < 2 ^ 16" and t: "\<not> (tm \<noteq> 0 \<and> tmo)"
    and k: "length (ccid_packets (bulk_msg_header (transport (device h))) msg) \<le> k"
  shows "\<exists>os h'. run ccid_event_step (Ccid_send USBD_STATE_CONFIGURED tmo msg tm # replicate k Ccid_data_in) h =
       Some (os, h') \<and> tx_idle h' \<and>
     concat os = concat (map usb_frame (ccid_packets (bulk_msg_header (transport (device h))) msg))"
proof -
  let ?t = "transport (device h)"
  define g where "g = ccid_begin ?t (Some (Tx_bytes msg)) (of_nat (length msg))"
  define d where "d = min (length msg) 54"
  let ?hd = "ccid_header ((bulk_msg_header ?t)\<lparr>hdr_length := of_nat (length msg)\<rparr>)"
  have gs: "ccid_tx_message_buffer g = Some (Tx_bytes msg)" "ccid_tx_message_length g = of_nat (length msg)"
      "ccid_tx_message_offset g = of_nat 0"
    by (simp_all add: g_def ccid_begin_def)
  have uc: "(ucast (of_nat (length msg) :: u16) :: u32) = of_nat (length msg)"
    using m by (simp add: word_unat_eq_iff unsigned_ucast_eq unsigned_of_nat take_bit_nat_eq_self)
  have pre: "ccid_prefix g (Some (Tx_bytes msg)) = ?hd"
    by (simp add: ccid_prefix_def g_def ccid_begin_def uc)
  obtain t' pkt' where tx: "CCID_TRANSPORT_tx ?t (Some (Tx_bytes msg)) (of_nat (length msg)) (packet_buffer h) 0x40 =
        Some (t', pkt')" "length pkt' = 64"
     "take (10 + d) pkt' = ?hd @ take d msg" "ccid_tx_packet_length t' = of_nat (10 + d)"
     "if 54 \<le> length msg
      then ccid_tx_message_buffer t' = Some (Tx_bytes msg) \<and> ccid_tx_message_length t' = of_nat (length msg) \<and>
           ccid_tx_message_offset t' = of_nat d
      else ccid_tx_message_buffer t' = None"
    using tx_step [OF g_def gs le0 m h(2) refl refl] unfolding pre by (auto simp: d_def)
  have dd: "d \<le> 54" "length (take d msg) = d" "take d msg = take 54 msg" by (auto simp: d_def min_def)
  have fr: "USBD_LL_Transmit tmo 0x83 pkt' (ucast (of_nat (10 + d) :: u8)) tm = Some (USBD_OK, usb_frame (?hd @ take 54 msg))"
    unfolding dd(3) [symmetric] by (rule ep_in_frame) (use tx(3) dd t in auto)
  have nz: "(of_nat (10 + d) :: u8) \<noteq> 0"
  proof -
    have "unat (of_nat (10 + d) :: u8) = 10 + d"
      by (rule unat_of_nat_u8) (use dd(1) in simp)
    then show ?thesis by (metis add_is_0 unat_0 zero_neq_numeral)
  qed
  let ?h1 = "(upd_transport t' h)\<lparr>packet_buffer := pkt', ccid_state := LEDGER_CCID_STATE_BUSY\<rparr>"
  have st: "ccid_event_step (Ccid_send USBD_STATE_CONFIGURED tmo msg tm) h = Some (usb_frame (?hd @ take 54 msg), ?h1)"
    using tx(1,4) fr nz h(1)
    by (auto simp: ccid_event_step_def USBD_LEDGER_CCID_send_packet_def tx_idle_def)
  have "\<exists>os h'. run ccid_event_step (replicate k Ccid_data_in) ?h1 = Some (os, h') \<and> tx_idle h' \<and>
      concat os = concat (map usb_frame (pieces 64 (drop 54 msg)))"
  proof (cases "54 \<le> length msg")
    case True
    then have "tx_pending msg 54 ?h1" using tx m by (auto simp: tx_pending_def d_def)
    from data_in_run [OF this] show ?thesis using k by (simp add: ccid_packets_def)
  next
    case False
    have "0 < k" using k by (simp add: ccid_packets_def)
    with False show ?thesis using data_in_idle_run0 [of ?h1 k] tx(5) by simp
  qed
  then show ?thesis using st by (auto simp: ccid_packets_def)
qed


section \<open>Reception\<close>

text \<open>The reception of a message, \<open>q\<close> bytes of it here.\<close>

definition rx_partial :: "bytes \<Rightarrow> nat \<Rightarrow> ccid_transport_t \<Rightarrow> bool" where
  "rx_partial msg q t =
     (rx_msg_status t = CCID_MSG_STATUS_NEED_MORE_DATA \<and> unat (rx_msg_length t) = q \<and> 0 < q \<and> q < length msg \<and>
      unat (hdr_length (bulk_msg_header t)) = length msg \<and> take q (rx_msg_buffer t) = take q msg \<and>
      length msg \<le> length (rx_msg_buffer t) \<and> unat (rx_msg_buffer_size t) = length (rx_msg_buffer t) \<and>
      length (rx_msg_buffer t) < 2 ^ 16)"

definition rx_complete :: "bytes \<Rightarrow> ccid_transport_t \<Rightarrow> bool" where
  "rx_complete msg t =
     (rx_msg_status t = CCID_MSG_STATUS_COMPLETE \<and> unat (rx_msg_length t) = length msg \<and>
      unat (hdr_length (bulk_msg_header t)) = length msg \<and> take (length msg) (rx_msg_buffer t) = msg)"

lemma take_patch:
  assumes "take q m = take q msg" "q + k \<le> length msg" "length msg \<le> length m"
  shows "take (q + k) (take q m @ take k (drop q msg) @ drop (q + k) m) = take (q + k) msg"
  using assms by (simp add: take_add)

lemma rx_more_step:
  assumes t: "rx_partial msg q t" and p: "p = take 64 (drop q msg)"
  shows "\<exists>t'. CCID_TRANSPORT_rx t (Some p) (of_nat (length p)) = Some t' \<and> bulk_msg_header t' = bulk_msg_header t \<and>
     (if length msg - q \<le> 64 then rx_complete msg t' else rx_partial msg (q + 64) t')"
proof -
  let ?m = "rx_msg_buffer t"
  have f: "rx_msg_status t = CCID_MSG_STATUS_NEED_MORE_DATA" "unat (rx_msg_length t) = q" "0 < q" "q < length msg"
      "unat (hdr_length (bulk_msg_header t)) = length msg" "take q ?m = take q msg"
      "length msg \<le> length ?m" "unat (rx_msg_buffer_size t) = length ?m" "length ?m < 2 ^ 16"
    using t by (auto simp: rx_partial_def)
  have lp: "length p = min (length msg - q) 64" "unat (of_nat (length p) :: u16) = length p"
    using unat_of_nat_u16 [of "length p"] by (auto simp: p)
  show ?thesis
  proof (cases "length msg - q \<le> 64")
    case True
    then have "memcpy_n ?m q p 0 (length msg - q) = Some (take q ?m @ take (length msg - q) (drop q msg) @ drop (q + (length msg - q)) ?m)"
      using f lp p by (simp add: memcpy_n_in)
    moreover have "take (q + (length msg - q)) (take q ?m @ take (length msg - q) (drop q msg) @ drop (q + (length msg - q)) ?m) =
        take (q + (length msg - q)) msg"
      by (rule take_patch) (use f in auto)
    ultimately show ?thesis
      using True f lp by (auto simp: CCID_TRANSPORT_rx_def ccid_rx_more_def Let_def rx_complete_def unat_ucast_le16)
  next
    case False
    then have l64: "length p = 64" using lp by simp
    have "memcpy_n ?m q p 0 64 = Some (take q ?m @ take 64 (drop q msg) @ drop (q + 64) ?m)"
      using False f p l64 by (simp add: memcpy_n_in)
    moreover have "take (q + 64) (take q ?m @ take 64 (drop q msg) @ drop (q + 64) ?m) = take (q + 64) msg"
      by (rule take_patch) (use f False in auto)
    moreover have "unat (rx_msg_length t + 64) = q + 64"
      using f False by (subst unat_add_no_wrap) auto
    ultimately show ?thesis
      using False f l64 by (auto simp: CCID_TRANSPORT_rx_def ccid_rx_more_def Let_def rx_partial_def)
  qed
qed

text \<open>The header as the receiver stores it: the last three bytes are the message-specific ones.\<close>

definition same_header :: "ccid_msg_bulk_header_t \<Rightarrow> ccid_msg_bulk_header_t \<Rightarrow> bool" where
  "same_header i j =
     (msg_type j = msg_type i \<and> slot_number j = slot_number i \<and> seq_number j = seq_number i \<and>
      out_specific j = [in_status i, in_error i, in_specific i])"

lemma ccid_header_fields:
  assumes "p = ccid_header i @ ds" "length ds < 2 ^ 16"
  shows "p ! 0 = msg_type i" "p ! 5 = slot_number i" "p ! 6 = seq_number i"
    "take 3 (drop 7 p) = [in_status i, in_error i, in_specific i]" "drop 10 p = ds" "U4LE p 1 = Some (hdr_length i)"
proof -
  show "p ! 0 = msg_type i" "p ! 5 = slot_number i" "p ! 6 = seq_number i"
    "take 3 (drop 7 p) = [in_status i, in_error i, in_specific i]" "drop 10 p = ds"
    unfolding assms(1) ccid_header_def le_bytes_def be_bytes4 by (simp_all add: numeral_eq_Suc)
  have "read_u32_le p 1 = Some (hdr_length i)"
    by (rule u32_le.rd_of_enc) (use assms in \<open>auto simp: in_range_def ccid_header_def\<close>)
  then show "U4LE p 1 = Some (hdr_length i)" by (simp add: U4LE_eq)
qed

lemma after_header: "unat (w :: u16) = k \<Longrightarrow> 10 \<le> k \<Longrightarrow> \<not> w < 10 \<and> unat (w - 10) = k - 10"
  by (auto simp: word_less_nat_alt unat_sub_no_wrap word_le_nat_alt)

lemma rx_first_step:
  assumes t: "rx_msg_status t = CCID_MSG_STATUS_WAITING" "unat (rx_msg_buffer_size t) = length (rx_msg_buffer t)"
      "length (rx_msg_buffer t) < 2 ^ 16" "length msg \<le> length (rx_msg_buffer t)"
    and i: "hdr_length i = of_nat (length msg)" and p: "p = ccid_header i @ take 54 msg"
  shows "\<exists>t'. CCID_TRANSPORT_rx t (Some p) (of_nat (length p)) = Some t' \<and> same_header i (bulk_msg_header t') \<and>
     (if length msg \<le> 54 then rx_complete msg t' else rx_partial msg 54 t')"
proof -
  let ?m = "rx_msg_buffer t"
  let ?d = "min (length msg) 54"
  note f = ccid_header_fields [OF p]
  have lp: "length p = 10 + ?d" "unat (of_nat (length p) :: u16) = length p"
    using unat_of_nat_u16 [of "length p"] by (auto simp: p)
  have ge: "10 \<le> length p" and df: "length p - 10 = ?d" using lp(1) by simp_all
  have l10: "\<not> (of_nat (length p) :: u16) < 10" "unat (of_nat (length p) - 10 :: u16) = ?d"
    using after_header [OF lp(2) ge] unfolding df by blast+
  have n: "unat (hdr_length i) = length msg"
    unfolding i unsigned_of_nat using t(3,4) by (simp add: take_bit_nat_eq_self)
  have acc: "ld p 0 = Some (p ! 0)" "ld p 5 = Some (p ! 5)" "ld p 6 = Some (p ! 6)" "ld_n p 7 3 = Some (take 3 (drop 7 p))"
    using lp(1) by (auto simp: ld_def ld_n_def)
  have cp: "memcpy_n ?m 0 p 10 ?d = Some (take ?d msg @ drop ?d ?m)"
    using lp(1) t(4) f(5) by (simp add: memcpy_n_in)
  show ?thesis
  proof (cases "length msg \<le> 54")
    case True
    then have "unat (hdr_length i) \<le> ?d" by (simp add: n)
    then show ?thesis
      using True t l10 acc f cp n
      by (auto simp: CCID_TRANSPORT_rx_def ccid_rx_first_def Let_def rx_complete_def same_header_def unat_ucast_le16)
  next
    case False
    then have "\<not> unat (hdr_length i) \<le> ?d" by (simp add: n)
    then show ?thesis
      using False t l10 acc f cp n
      by (auto simp: CCID_TRANSPORT_rx_def ccid_rx_first_def Let_def rx_partial_def same_header_def)
  qed
qed

lemma data_out_event:
  "CCID_TRANSPORT_rx (transport (device h)) (Some p) (of_nat (length p)) = Some t \<Longrightarrow>
     \<exists>os. ccid_event_step (Ccid_data_out p) h = Some (os, upd_transport t h)"
  by (simp add: ccid_event_step_def USBD_LEDGER_CCID_data_out_def)

lemma rx_more_run:
  assumes "rx_partial msg q (transport (device h))"
  shows "\<exists>os h'. run ccid_event_step (map Ccid_data_out (pieces 64 (drop q msg))) h = Some (os, h') \<and>
     rx_complete msg (transport (device h')) \<and>
     bulk_msg_header (transport (device h')) = bulk_msg_header (transport (device h))"
  using assms
proof (induction "length msg - q" arbitrary: q h rule: less_induct)
  case less
  have q: "q < length msg" using less.prems by (simp add: rx_partial_def)
  obtain t' where t': "CCID_TRANSPORT_rx (transport (device h)) (Some (take 64 (drop q msg)))
        (of_nat (length (take 64 (drop q msg)))) = Some t'"
      "bulk_msg_header t' = bulk_msg_header (transport (device h))"
      "if length msg - q \<le> 64 then rx_complete msg t' else rx_partial msg (q + 64) t'"
    using rx_more_step [OF less.prems refl] by blast
  obtain os where os: "ccid_event_step (Ccid_data_out (take 64 (drop q msg))) h = Some (os, upd_transport t' h)"
    using data_out_event [OF t'(1)] by blast
  have pc: "pieces 64 (drop q msg) = take 64 (drop q msg) # pieces 64 (drop (q + 64) msg)"
    using q by (simp add: pieces_Cons add.commute)
  show ?case
  proof (cases "length msg - q \<le> 64")
    case True
    then show ?thesis using t' os pc by simp
  next
    case False
    then have p: "rx_partial msg (q + 64) (transport (device (upd_transport t' h)))" using t'(3) by simp
    obtain os2 h2 where h2: "run ccid_event_step (map Ccid_data_out (pieces 64 (drop (q + 64) msg))) (upd_transport t' h) =
          Some (os2, h2)" "rx_complete msg (transport (device h2))"
        "bulk_msg_header (transport (device h2)) = bulk_msg_header (transport (device (upd_transport t' h)))"
      using less.hyps [OF _ p] q by fastforce
    show ?thesis
      unfolding pc using os h2 t'(2) by simp
  qed
qed

lemma ccid_receive_run:
  assumes t: "rx_msg_status (transport (device r)) = CCID_MSG_STATUS_WAITING" "ccid_inv N r" "length msg \<le> N"
  shows "\<exists>os r'. run ccid_event_step (map Ccid_data_out (ccid_packets i msg)) r = Some (os, r') \<and>
     rx_complete msg (transport (device r')) \<and> same_header i (bulk_msg_header (transport (device r')))"
proof -
  let ?i = "i\<lparr>hdr_length := of_nat (length msg)\<rparr>"
  let ?p = "ccid_header ?i @ take 54 msg"
  have "unat (rx_msg_buffer_size (transport (device r))) = length (rx_msg_buffer (transport (device r)))"
      "length (rx_msg_buffer (transport (device r))) < 2 ^ 16" "length msg \<le> length (rx_msg_buffer (transport (device r)))"
    using t(2,3) by (auto simp: ccid_inv_def transport_ok_def)
  from rx_first_step [OF t(1) this, of ?i ?p] obtain t' where
    t': "CCID_TRANSPORT_rx (transport (device r)) (Some ?p) (of_nat (length ?p)) = Some t'"
      "same_header ?i (bulk_msg_header t')" "if length msg \<le> 54 then rx_complete msg t' else rx_partial msg 54 t'"
    by auto
  obtain os where os: "ccid_event_step (Ccid_data_out ?p) r = Some (os, upd_transport t' r)"
    using data_out_event [OF t'(1)] by blast
  have sh: "same_header i j = same_header ?i j" for j by (simp add: same_header_def)
  show ?thesis
  proof (cases "length msg \<le> 54")
    case True
    then show ?thesis using t' os sh by (simp add: ccid_packets_def)
  next
    case False
    then have p: "rx_partial msg 54 (transport (device (upd_transport t' r)))" using t'(3) by simp
    from rx_more_run [OF this] show ?thesis
      using os t'(2) sh by (auto simp: ccid_packets_def)
  qed
qed

section \<open>Properties\<close>

text \<open>Property C9.  A message sent by one end arrives at the other: on an idle, configured class,
  \<open>send_packet\<close> and one transmission acknowledgement per packet hand exactly the packets of the message
  to the USB processor, in order, and leave the class idle; a receiver that waits for a message and has
  room for it, fed with these packets, ends with the message complete in its buffer, under the same type,
  slot and sequence number, with status, error and specific byte in the specific field.\<close>

theorem ccid_roundtrip:
  assumes "tx_idle h" "length (packet_buffer h) = 64" "\<not> (tm \<noteq> 0 \<and> tmo)"
    and "ccid_inv N r" "rx_msg_status (transport (device r)) = CCID_MSG_STATUS_WAITING" "length msg \<le> N"
    and "ps = ccid_packets (bulk_msg_header (transport (device h))) msg" "length ps \<le> k"
  shows "\<exists>os h' os' r'.
     run ccid_event_step (Ccid_send USBD_STATE_CONFIGURED tmo msg tm # replicate k Ccid_data_in) h = Some (os, h') \<and>
     tx_idle h' \<and> concat os = concat (map usb_frame ps) \<and>
     run ccid_event_step (map Ccid_data_out ps) r = Some (os', r') \<and>
     rx_complete msg (transport (device r')) \<and>
     same_header (bulk_msg_header (transport (device h))) (bulk_msg_header (transport (device r')))"
proof -
  have "length msg < 2 ^ 16" using assms(4,6) by (simp add: ccid_inv_def transport_ok_def)
  from ccid_send_run [OF assms(1,2) this assms(3)] ccid_receive_run [OF assms(5,4,6)]
  show ?thesis using assms(7,8) by blast
qed

text \<open>The initial class sends to another one that has just been initialized.\<close>

definition sample_class :: ledger_ccid_handle_t where
  "sample_class = snd (snd (USBD_LEDGER_CCID_init (replicate 300 0) (replicate 64 0)))"

lemma sample_class_facts:
  "tx_idle sample_class" "length (packet_buffer sample_class) = 64" "ccid_inv 300 sample_class"
  "rx_msg_status (transport (device sample_class)) = CCID_MSG_STATUS_WAITING"
  using ccid_init_inv [of "replicate 300 0" "replicate 64 0"]
  by (simp_all add: sample_class_def tx_idle_def USBD_LEDGER_CCID_init_def CCID_TRANSPORT_init_def
      CCID_TRANSPORT_reset_parameters_def zero_transport_def)

theorem ccid_roundtrip_witness:
  "\<exists>os h' os' r' ps.
     run ccid_event_step (Ccid_send USBD_STATE_CONFIGURED False (replicate 260 7) 0 # replicate (length ps) Ccid_data_in)
       sample_class = Some (os, h') \<and>
     tx_idle h' \<and> concat os = concat (map usb_frame ps) \<and>
     run ccid_event_step (map Ccid_data_out ps) sample_class = Some (os', r') \<and>
     rx_complete (replicate 260 7) (transport (device r'))"
proof -
  have "\<not> ((0 :: u32) \<noteq> 0 \<and> False)" "length (replicate 260 (7 :: u8)) \<le> 300" by simp_all
  from ccid_roundtrip [OF sample_class_facts(1,2) this(1) sample_class_facts(3,4) this(2) refl order_refl]
  show ?thesis by blast
qed

end
