(* ===== verification/Usb_Desc.thy ===== *)
theory Usb_Desc
  imports Usb_Ll
begin

text \<open>
  The descriptors a class hands to the host: \<^verbatim>\<open>lib_stusb/src/usbd_desc.c\<close> and the string conversion of
  \<^verbatim>\<open>lib_stusb/src/usbd_ctlreq.c\<close>.  The static variables of the first file are a record; the function
  that returns a pointer returns the array it points into, so that a reader that asks for more bytes than
  the array has gets \<open>None\<close>.
\<close>

abbreviation (input) USB_DESC_TYPE_DEVICE :: u8 where "USB_DESC_TYPE_DEVICE \<equiv> 0x01"
abbreviation (input) USB_DESC_TYPE_CONFIGURATION :: u8 where "USB_DESC_TYPE_CONFIGURATION \<equiv> 0x02"
abbreviation (input) USB_DESC_TYPE_STRING :: u8 where "USB_DESC_TYPE_STRING \<equiv> 0x03"
abbreviation (input) USBD_IDX_LANGID_STR :: u8 where "USBD_IDX_LANGID_STR \<equiv> 0x00"
abbreviation (input) USBD_IDX_MFC_STR :: u8 where "USBD_IDX_MFC_STR \<equiv> 0x01"
abbreviation (input) USBD_IDX_PRODUCT_STR :: u8 where "USBD_IDX_PRODUCT_STR \<equiv> 0x02"
abbreviation (input) USBD_IDX_SERIAL_STR :: u8 where "USBD_IDX_SERIAL_STR \<equiv> 0x03"

record usbd_desc_t =
  usbd_bcdusb :: u8
  usbd_vid :: u16
  usbd_pid :: u16
  usbd_desc_product_str :: bytes
  usbd_desc_product_str_len :: u16
  usbd_iad :: u8
  USBD_StrDesc :: bytes

section \<open>String conversion\<close>

fun USBD_GetLen :: "bytes \<Rightarrow> u8 option" where
  "USBD_GetLen [] = None"
| "USBD_GetLen (c # s) = (if c = 0 then Some 0 else map_option (\<lambda>len. len + 1) (USBD_GetLen s))"

fun USBD_GetString_loop :: "bytes \<Rightarrow> bytes \<Rightarrow> u8 \<Rightarrow> bytes option" where
  "USBD_GetString_loop [] unicode idx = None"
| "USBD_GetString_loop (c # s) unicode idx =
     (if c = 0 then Some unicode
      else do {
        unicode \<leftarrow> st unicode (unat idx) c;
        unicode \<leftarrow> st unicode (unat (idx + 1)) 0;
        USBD_GetString_loop s unicode (idx + 2) })"

definition USBD_GetString :: "bytes \<Rightarrow> bytes \<Rightarrow> (bytes \<times> u16) option" where
  "USBD_GetString desc unicode = do {
     n \<leftarrow> USBD_GetLen desc;
     let len = (ucast n * 2 + 2 :: u16);
     unicode \<leftarrow> st unicode 0 (ucast len);
     unicode \<leftarrow> st unicode 1 USB_DESC_TYPE_STRING;
     unicode \<leftarrow> USBD_GetString_loop desc unicode 2;
     Some (unicode, len) }"

section \<open>Descriptors of the device\<close>

definition USBD_desc_device_desc :: bytes where
  "USBD_desc_device_desc = [0x12, USB_DESC_TYPE_DEVICE, 0x00, 0x02, 0x00, 0x00, 0x00, 64, 0x97, 0x2C, 0x00, 0x00,
     0x01, 0x02, USBD_IDX_MFC_STR, USBD_IDX_PRODUCT_STR, USBD_IDX_SERIAL_STR, 1]"

definition USBD_get_descriptor_device :: "usbd_desc_t \<Rightarrow> bytes \<times> u16" where
  "USBD_get_descriptor_device d =
     (let p = USBD_desc_device_desc[2 := usbd_bcdusb d];
          p = (if usbd_iad d \<noteq> 0 then p[4 := 0xEF, 5 := 0x02, 6 := 0x01] else p[4 := 0, 5 := 0, 6 := 0]) in
      (p[8 := ucast (usbd_vid d), 9 := ucast (drop_bit 8 (usbd_vid d)),
         10 := ucast (usbd_pid d), 11 := ucast (drop_bit 8 (usbd_pid d))], 18))"

definition USBD_get_descriptor_lang_id :: "bytes \<times> u16" where
  "USBD_get_descriptor_lang_id = ([0x04, USB_DESC_TYPE_STRING, 0x09, 0x04], 4)"

text \<open>The string is \<^verbatim>\<open>Ledger\<close>.\<close>

definition USBD_get_descriptor_manufacturer :: "usbd_desc_t \<Rightarrow> (bytes \<times> u16 \<times> usbd_desc_t) option" where
  "USBD_get_descriptor_manufacturer d = do {
     (s, len) \<leftarrow> USBD_GetString [0x4C, 0x65, 0x64, 0x67, 0x65, 0x72, 0] (USBD_StrDesc d);
     Some (s, len, d\<lparr>USBD_StrDesc := s\<rparr>) }"

definition USBD_get_descriptor_product :: "usbd_desc_t \<Rightarrow> (bytes \<times> u16 \<times> usbd_desc_t) option" where
  "USBD_get_descriptor_product d = do {
     p \<leftarrow> (if usbd_desc_product_str_len d = 0 then None
          else st (usbd_desc_product_str d) (unat (usbd_desc_product_str_len d) - 1) 0);
     (s, len) \<leftarrow> USBD_GetString p (USBD_StrDesc d);
     Some (s, len, d\<lparr>usbd_desc_product_str := p, USBD_StrDesc := s\<rparr>) }"

text \<open>The array has thirty bytes, of which only ten are ever written.\<close>

definition USBD_get_descriptor_serial :: "bytes \<times> u16" where
  "USBD_get_descriptor_serial =
     ([10, USB_DESC_TYPE_STRING, 0x30, 0, 0x30, 0, 0x30, 0, 0x31, 0] @ replicate 20 0, 10)"

section \<open>Bounds\<close>

text \<open>The arrays of the device: the name has room for its terminator and, written with two bytes for every
  character, fits \<open>USBD_StrDesc\<close> (\<open>USBD_MAX_STR_DESC_SIZ\<close> is 48; the name of \<^verbatim>\<open>usbd_ledger.c\<close> has 20 bytes).\<close>

definition usbd_desc_ok :: "usbd_desc_t \<Rightarrow> bool" where
  "usbd_desc_ok d =
     (length (USBD_StrDesc d) = 48 \<and> 0 < usbd_desc_product_str_len d \<and> usbd_desc_product_str_len d \<le> 24 \<and>
      unat (usbd_desc_product_str_len d) \<le> length (usbd_desc_product_str d))"

lemma USBD_GetLen_terminated:
  "0 \<in> set (take n s) \<Longrightarrow> n < 2 ^ 8 \<Longrightarrow> \<exists>k. USBD_GetLen s = Some k \<and> unat k < n"
proof (induction s arbitrary: n)
  case (Cons c s)
  show ?case
  proof (cases "c = 0")
    case False
    obtain m where m: "n = Suc m" using Cons.prems by (cases n) auto
    then obtain k where k: "USBD_GetLen s = Some k" "unat k < m" using Cons.IH [of m] Cons.prems False by auto
    then have "unat (k + 1) = unat k + 1" using m Cons.prems(2) by (subst unat_add_no_wrap) simp_all
    then show ?thesis using k m False by simp
  qed (use Cons.prems in \<open>cases n; simp\<close>)
qed simp

lemma USBD_GetString_loop_terminated:
  "0 \<in> set (take n s) \<Longrightarrow> unat idx + 2 * n \<le> length u + 2 \<Longrightarrow> length u < 2 ^ 8 - 2 \<Longrightarrow>
     \<exists>u'. USBD_GetString_loop s u idx = Some u' \<and> length u' = length u"
proof (induction s arbitrary: n u idx)
  case (Cons c s)
  show ?case
  proof (cases "c = 0")
    case False
    obtain m where m: "n = Suc m" using Cons.prems(1) by (cases n) auto
    then have "m \<noteq> 0" using Cons.prems(1) False by (cases m) auto
    then have le: "unat idx + 2 \<le> length u" using Cons.prems(2) m by simp
    then have w: "unat (idx + 1) = unat idx + 1" "unat (idx + 2) = unat idx + 2"
      using Cons.prems(3) by (subst unat_add_no_wrap; simp)+
    have "\<exists>u'. USBD_GetString_loop s (u[unat idx := c, unat idx + 1 := 0]) (idx + 2) = Some u' \<and> length u' = length u"
      using Cons.IH [of m "idx + 2" "u[unat idx := c, unat idx + 1 := 0]"] Cons.prems m w False by auto
    then show ?thesis using False le w by (simp add: st_def)
  qed simp
qed simp

lemma USBD_GetString_fits:
  assumes "0 \<in> set (take n s)" "n \<le> 24" "length u = 48"
  shows "\<exists>u' len. USBD_GetString s u = Some (u', len) \<and> length u' = 48 \<and> unat len \<le> 48"
proof -
  obtain k where k: "USBD_GetLen s = Some k" "unat k < n" using USBD_GetLen_terminated [OF assms(1)] assms(2) by auto
  define len where "len = ucast k * 2 + (2 :: u16)"
  have "unat len \<le> 48"
    using k(2) assms(2) unat_bound8 [of k] by (simp add: len_def unat_word_ariths unsigned_ucast_eq take_bit_eq_mod)
  moreover obtain u' where "USBD_GetString_loop s (u[0 := ucast len, Suc 0 := 3]) 2 = Some u'" "length u' = 48"
    using USBD_GetString_loop_terminated [OF assms(1), of 2 "u[0 := ucast len, Suc 0 := 3]"] assms by auto
  ultimately show ?thesis
    using k(1) assms(3) by (simp add: USBD_GetString_def st_def flip: len_def)
qed

text \<open>Every descriptor is at least as long as the length returned with it.\<close>

lemma USBD_get_descriptor_manufacturer_ok:
  "usbd_desc_ok d \<Longrightarrow> \<exists>p len d'. USBD_get_descriptor_manufacturer d = Some (p, len, d') \<and>
     unat len \<le> length p \<and> usbd_desc_ok d'"
  using USBD_GetString_fits [of 7 "[0x4C, 0x65, 0x64, 0x67, 0x65, 0x72, 0]" "USBD_StrDesc d"]
  by (auto simp: USBD_get_descriptor_manufacturer_def usbd_desc_ok_def)

lemma USBD_get_descriptor_product_ok:
  assumes "usbd_desc_ok d"
  shows "\<exists>p len d'. USBD_get_descriptor_product d = Some (p, len, d') \<and> unat len \<le> length p \<and> usbd_desc_ok d'"
proof -
  let ?n = "unat (usbd_desc_product_str_len d)"
  have n: "0 < ?n" "?n \<le> 24" "?n \<le> length (usbd_desc_product_str d)" "usbd_desc_product_str_len d \<noteq> 0"
    using assms by (auto simp: usbd_desc_ok_def word_less_nat_alt word_le_nat_alt)
  let ?p = "(usbd_desc_product_str d)[?n - 1 := 0]"
  have "0 \<in> set (take ?n ?p)"
    using n by (auto simp: in_set_conv_nth intro!: exI [of _ "?n - 1"])
  with USBD_GetString_fits [of ?n ?p "USBD_StrDesc d"] n assms
  show ?thesis by (auto simp: USBD_get_descriptor_product_def usbd_desc_ok_def st_def)
qed

lemma USBD_get_descriptor_const_ok:
  "length (fst (USBD_get_descriptor_device d)) = 18" "snd (USBD_get_descriptor_device d) = 18"
  "length (fst USBD_get_descriptor_serial) = 30" "snd USBD_get_descriptor_serial = 10"
  "length (fst USBD_get_descriptor_lang_id) = 4" "snd USBD_get_descriptor_lang_id = 4"
  by (simp_all add: USBD_get_descriptor_device_def USBD_desc_device_desc_def USBD_get_descriptor_serial_def
      USBD_get_descriptor_lang_id_def Let_def)

end
