(* ===== verification/Usb_Apdu.thy ===== *)
theory Usb_Apdu
  imports Protocol Usb_Desc
begin

text \<open>
  The two USB classes that carry APDUs in the Ledger protocol, \<^verbatim>\<open>lib_stusb/src/usbd_ledger_hid.c\<close>
  and \<^verbatim>\<open>lib_stusb/src/usbd_ledger_webusb.c\<close>.  The files repeat one another up to endpoints, type byte
  and the status of \<open>data_in\<close>; the common steps take the endpoint as an argument.  The state of a class is
  its handle together with the two static buffers of \<^verbatim>\<open>usbd_ledger.c\<close> it works on; the three fields that
  only the HID handle has are zero and unused in the other class.  A setup request reads the descriptors of
  the device, the record of \<^verbatim>\<open>Usb_Desc\<close>, which is an argument and a result of it.
\<close>

datatype ledger_usb_state_t = LEDGER_USB_STATE_IDLE | LEDGER_USB_STATE_BUSY

record usb_apdu_t =
  usb_state :: ledger_usb_state_t
  usb_protocol_data :: ledger_protocol_t
  protocol_chunk_buffer :: bytes
  io_buffer :: bytes
  hid_protocol :: u8
  hid_idle_state :: u8
  hid_alt_setting :: u8

abbreviation (input) LEDGER_HID_EPIN_ADDR :: u8 where "LEDGER_HID_EPIN_ADDR \<equiv> 0x82"
abbreviation (input) LEDGER_HID_EPOUT_ADDR :: u8 where "LEDGER_HID_EPOUT_ADDR \<equiv> 0x02"
abbreviation (input) LEDGER_WEBUSB_EPIN_ADDR :: u8 where "LEDGER_WEBUSB_EPIN_ADDR \<equiv> 0x83"
abbreviation (input) LEDGER_WEBUSB_EPOUT_ADDR :: u8 where "LEDGER_WEBUSB_EPOUT_ADDR \<equiv> 0x03"
abbreviation (input) OS_IO_PACKET_TYPE_USB_HID_APDU :: u8 where "OS_IO_PACKET_TYPE_USB_HID_APDU \<equiv> 0x20"
abbreviation (input) OS_IO_PACKET_TYPE_USB_WEBUSB_APDU :: u8 where "OS_IO_PACKET_TYPE_USB_WEBUSB_APDU \<equiv> 0x21"

abbreviation (input) USB_REQ_GET_STATUS :: u8 where "USB_REQ_GET_STATUS \<equiv> 0x00"
abbreviation (input) USB_REQ_CLEAR_FEATURE :: u8 where "USB_REQ_CLEAR_FEATURE \<equiv> 0x01"
abbreviation (input) USB_REQ_GET_DESCRIPTOR :: u8 where "USB_REQ_GET_DESCRIPTOR \<equiv> 0x06"
abbreviation (input) USB_REQ_GET_INTERFACE :: u8 where "USB_REQ_GET_INTERFACE \<equiv> 0x0A"
abbreviation (input) USB_REQ_SET_INTERFACE :: u8 where "USB_REQ_SET_INTERFACE \<equiv> 0x0B"
abbreviation (input) HID_DESCRIPTOR_TYPE :: u8 where "HID_DESCRIPTOR_TYPE \<equiv> 0x21"
abbreviation (input) HID_REPORT_DESCRIPTOR :: u8 where "HID_REPORT_DESCRIPTOR \<equiv> 0x22"
abbreviation (input) REQ_SET_IDLE :: u8 where "REQ_SET_IDLE \<equiv> 0x0A"
abbreviation (input) REQ_GET_IDLE :: u8 where "REQ_GET_IDLE \<equiv> 0x02"
abbreviation (input) REQ_SET_PROTOCOL :: u8 where "REQ_SET_PROTOCOL \<equiv> 0x0B"
abbreviation (input) REQ_GET_PROTOCOL :: u8 where "REQ_GET_PROTOCOL \<equiv> 0x03"
abbreviation (input) USB_REQ_WINUSB_VENDOR_CODE :: u8 where "USB_REQ_WINUSB_VENDOR_CODE \<equiv> 0x77"
abbreviation (input) USBD_IDX_WINUSB_STR :: u16 where "USBD_IDX_WINUSB_STR \<equiv> 0xEE"
abbreviation (input) WINUSB_GET_COMPATIBLE_ID_FEATURE :: u16 where "WINUSB_GET_COMPATIBLE_ID_FEATURE \<equiv> 0x04"
abbreviation (input) WINUSB_GET_EXTENDED_PROPERTIES_OS_FEATURE :: u16 where "WINUSB_GET_EXTENDED_PROPERTIES_OS_FEATURE \<equiv> 0x05"
abbreviation (input) MS_OS_20_DESCRIPTOR_INDEX :: u16 where "MS_OS_20_DESCRIPTOR_INDEX \<equiv> 0x07"

text \<open>\<open>LEDGER_USBD_DEFAULT_EPOUT_SIZE\<close> is also the size of the chunk buffer.\<close>

abbreviation (input) LEDGER_USBD_DEFAULT_EPOUT_SIZE :: u32 where "LEDGER_USBD_DEFAULT_EPOUT_SIZE \<equiv> 0x40"

section \<open>Common steps\<close>

text \<open>The handle after \<open>memset\<close>, with the MTU.\<close>

definition zero_protocol :: ledger_protocol_t where
  "zero_protocol = \<lparr>lp_type = 0, tx_apdu_buffer = None, tx_apdu_length = 0, tx_apdu_sequence_number = 0,
     tx_apdu_offset = 0, tx_chunk_length = 0, rx_apdu_status = APDU_STATUS_WAITING,
     rx_apdu_sequence_number = 0, rx_apdu_length = 0, rx_apdu_offset = 0, lp_mtu = 64, lp_mtu_negotiated = 0\<rparr>"

definition usb_apdu_init ::
  "u8 \<Rightarrow> u8 \<Rightarrow> bytes \<Rightarrow> bytes \<Rightarrow> USBD_StatusTypeDef \<times> usb_out list \<times> usb_apdu_t" where
  "usb_apdu_init ep_out type chunk io =
     (let (result, p) = LEDGER_PROTOCOL_init zero_protocol type;
          h = \<lparr>usb_state = LEDGER_USB_STATE_IDLE, usb_protocol_data = p, protocol_chunk_buffer = chunk, io_buffer = io,
               hid_protocol = 0, hid_idle_state = 0, hid_alt_setting = 0\<rparr> in
      if result \<noteq> LP_SUCCESS then (USBD_FAIL, [], h)
      else (let (status, os) = USBD_LL_PrepareReceive ep_out LEDGER_USBD_DEFAULT_EPOUT_SIZE in (status, os, h)))"

text \<open>\<open>LEDGER_PROTOCOL_tx\<close> on the chunk buffer.\<close>

definition usb_apdu_tx ::
  "usb_apdu_t \<Rightarrow> bytes option \<Rightarrow> u16 \<Rightarrow> (ledger_protocol_result_t \<times> usb_apdu_t) option" where
  "usb_apdu_tx h packet packet_length = do {
     (result, p, chunk) \<leftarrow> LEDGER_PROTOCOL_tx (usb_protocol_data h) packet packet_length
        (Some (protocol_chunk_buffer h)) 64 64;
     chunk \<leftarrow> chunk;
     Some (result, h\<lparr>usb_protocol_data := p, protocol_chunk_buffer := chunk\<rparr>) }"

text \<open>A transmission acknowledgement: whether the callback fails, the status of a transmission if there is
  one, the outputs and the state.\<close>

definition usb_apdu_data_in ::
  "u8 \<Rightarrow> usb_apdu_t \<Rightarrow> (bool \<times> USBD_StatusTypeDef option \<times> usb_out list \<times> usb_apdu_t) option" where
  "usb_apdu_data_in ep_in h = do {
     (failed, sent, os, h) \<leftarrow>
       (if tx_apdu_buffer (usb_protocol_data h) = None then Some (False, None, [], h)
        else do {
          (result, h) \<leftarrow> usb_apdu_tx h None 0;
          if result \<noteq> LP_SUCCESS then Some (True, None, [], h)
          else if tx_chunk_length (usb_protocol_data h) \<ge> 2 then do {
            (status, os) \<leftarrow> USBD_LL_Transmit False ep_in (protocol_chunk_buffer h) 64 0;
            Some (False, Some status, os, h\<lparr>usb_state := LEDGER_USB_STATE_BUSY\<rparr>) }
          else Some (False, None, [], h) });
     Some (failed, sent, os,
           if \<not> failed \<and> tx_apdu_buffer (usb_protocol_data h) = None
           then h\<lparr>usb_protocol_data := (usb_protocol_data h)\<lparr>tx_chunk_length := 0\<rparr>, usb_state := LEDGER_USB_STATE_IDLE\<rparr>
           else h) }"

text \<open>A packet from the host; the endpoint is armed again, with the status of that, only when the packet was
  accepted.\<close>

definition usb_apdu_data_out ::
  "u8 \<Rightarrow> usb_apdu_t \<Rightarrow> bytes option \<Rightarrow> u16 \<Rightarrow> (USBD_StatusTypeDef option \<times> usb_out list \<times> usb_apdu_t) option" where
  "usb_apdu_data_out ep_out h packet packet_length =
     (if packet = None then Some (None, [], h)
      else do {
        (result, p, chunk, io) \<leftarrow> LEDGER_PROTOCOL_rx (usb_protocol_data h) packet packet_length
          (Some (protocol_chunk_buffer h)) 64 (io_buffer h) (of_nat (length (io_buffer h))) 64;
        chunk \<leftarrow> chunk;
        let h = h\<lparr>usb_protocol_data := p, protocol_chunk_buffer := chunk, io_buffer := io\<rparr>;
        if result \<noteq> LP_SUCCESS then Some (None, [], h)
        else (let (status, os) = USBD_LL_PrepareReceive ep_out LEDGER_USBD_DEFAULT_EPOUT_SIZE
              in Some (Some status, os, h)) })"

definition usb_apdu_send_packet ::
  "u8 \<Rightarrow> u8 \<Rightarrow> bool \<Rightarrow> usb_apdu_t \<Rightarrow> bytes option \<Rightarrow> u16 \<Rightarrow> u32 \<Rightarrow>
   (USBD_StatusTypeDef \<times> usb_out list \<times> usb_apdu_t) option" where
  "usb_apdu_send_packet ep_in dev_state timed_out h packet packet_length timeout_ms =
     (if packet = None then Some (USBD_FAIL, [], h)
      else do {
        (result, h) \<leftarrow> usb_apdu_tx h packet packet_length;
        if result \<noteq> LP_SUCCESS then Some (USBD_FAIL, [], h)
        else if dev_state \<noteq> USBD_STATE_CONFIGURED then Some (USBD_FAIL, [], h)
        else if usb_state h \<noteq> LEDGER_USB_STATE_IDLE then Some (USBD_BUSY, [], h)
        else if tx_chunk_length (usb_protocol_data h) \<ge> 2 then do {
          (ret, os) \<leftarrow> USBD_LL_Transmit timed_out ep_in (protocol_chunk_buffer h) 64 timeout_ms;
          Some (ret, os, h\<lparr>usb_state := LEDGER_USB_STATE_BUSY\<rparr>) }
        else Some (USBD_FAIL, [], h) })"

definition usb_apdu_data_ready ::
  "usb_apdu_t \<Rightarrow> bytes option \<Rightarrow> u16 \<Rightarrow> (int \<times> bytes option \<times> usb_apdu_t) option" where
  "usb_apdu_data_ready h buffer max_length =
     (case buffer of
        None \<Rightarrow> Some (- 1, None, h)
      | Some buf \<Rightarrow>
          (let p = usb_protocol_data h; n = rx_apdu_length p in
           if rx_apdu_status p \<noteq> APDU_STATUS_COMPLETE then Some (0, buffer, h)
           else do {
             let h = h\<lparr>usb_protocol_data := p\<lparr>rx_apdu_status := APDU_STATUS_WAITING\<rparr>\<rparr>;
             if max_length < n \<or> length (io_buffer h) < unat n then Some (- 1, buffer, h)
             else do {
               buf \<leftarrow> memcpy_n buf 0 (io_buffer h) 0 (unat n);
               Some (int (unat n), Some buf, h) } }))"

section \<open>The HID class\<close>

definition USBD_LEDGER_HID_init :: "bytes \<Rightarrow> bytes \<Rightarrow> USBD_StatusTypeDef \<times> usb_out list \<times> usb_apdu_t" where
  "USBD_LEDGER_HID_init = usb_apdu_init LEDGER_HID_EPOUT_ADDR OS_IO_PACKET_TYPE_USB_HID_APDU"

definition LEDGER_HID_report_descriptor :: bytes where
  "LEDGER_HID_report_descriptor =
     [6, 0xA0, 0xFF, 9, 1, 0xA1, 1, 9, 3, 0x15, 0, 0x26, 0xFF, 0, 0x75, 8,
      0x95, 0x40, 0x81, 8, 9, 4, 0x15, 0, 0x26, 0xFF, 0, 0x75, 8, 0x95, 0x40, 0x91,
      8, 0xC0]"

definition LEDGER_HID_descriptors :: bytes where
  "LEDGER_HID_descriptors =
     [9, 4, 0, 0, 2, 3, 0, 0, 2, 9, 0x21, 0x11, 1, 0, 1, 0x22,
      0x22, 0, 7, 5, 0x82, 3, 0x40, 0, 1, 7, 5, 2, 3, 0x40, 0, 1]"

definition USBD_LEDGER_HID_de_init :: "usb_apdu_t \<Rightarrow> USBD_StatusTypeDef \<times> usb_apdu_t" where
  "USBD_LEDGER_HID_de_init h = (USBD_OK, h)"

text \<open>The descriptor a \<open>GET_DESCRIPTOR\<close> request asks for: the bytes at the pointer, if it is not null, and
  the length to send.\<close>

definition USBD_LEDGER_HID_get_descriptor ::
  "usbd_desc_t \<Rightarrow> USBD_SetupReqTypedef \<Rightarrow> (bytes option \<times> u16 \<times> usbd_desc_t) option" where
  "USBD_LEDGER_HID_get_descriptor d req =
     (let dtype = ucast (drop_bit 8 (wValue req)) :: u8; dindex = ucast (wValue req AND 0xFF) :: u8 in
      if dtype = USB_DESC_TYPE_DEVICE then
        (let (p, desc_len) = USBD_get_descriptor_device d in Some (Some p, min desc_len (wLength req), d))
      else if dtype = USB_DESC_TYPE_CONFIGURATION then
        Some (Some LEDGER_HID_descriptors, min (ucast (LEDGER_HID_descriptors ! 0)) (wLength req), d)
      else if dtype = USB_DESC_TYPE_STRING then do {
        (pbuf, desc_len, d) \<leftarrow>
          (if dindex = USBD_IDX_LANGID_STR then
             (let (p, n) = USBD_get_descriptor_lang_id in Some (Some p, n, d))
           else if dindex = USBD_IDX_MFC_STR then
             map_option (\<lambda>(p, n, d). (Some p, n, d)) (USBD_get_descriptor_manufacturer d)
           else if dindex = USBD_IDX_PRODUCT_STR then
             map_option (\<lambda>(p, n, d). (Some p, n, d)) (USBD_get_descriptor_product d)
           else if dindex = USBD_IDX_SERIAL_STR then
             (let (p, n) = USBD_get_descriptor_serial in Some (Some p, n, d))
           else Some (None, 0, d));
        Some (pbuf, min desc_len (wLength req), d) }
      else if dtype = HID_DESCRIPTOR_TYPE then
        Some (Some (drop 9 LEDGER_HID_descriptors), min (ucast (LEDGER_HID_descriptors ! 9)) (wLength req), d)
      else if dtype = HID_REPORT_DESCRIPTOR then
        Some (Some LEDGER_HID_report_descriptor, min 0x22 (wLength req), d)
      else Some (None, 0, d))"

definition USBD_LEDGER_HID_setup ::
  "u8 \<Rightarrow> usbd_desc_t \<Rightarrow> usb_apdu_t \<Rightarrow> USBD_SetupReqTypedef \<Rightarrow>
   (USBD_StatusTypeDef \<times> usb_out list \<times> usbd_desc_t \<times> usb_apdu_t) option" where
  "USBD_LEDGER_HID_setup dev_state d h req =
     (let request = bmRequest req AND (0x60 OR 0x03); refused = Some (USBD_FAIL, [Ctl_error], d, h) in
      if request = (0x00 OR 0x01) then
        (if bRequest req = USB_REQ_GET_STATUS then
           (if dev_state = USBD_STATE_CONFIGURED then Some (USBD_OK, [Ctl_send [0, 0]], d, h) else refused)
         else if bRequest req = USB_REQ_GET_DESCRIPTOR then do {
           (pbuf, len, d) \<leftarrow> USBD_LEDGER_HID_get_descriptor d req;
           case pbuf of
             None \<Rightarrow> Some (USBD_FAIL, [Ctl_error], d, h)
           | Some p \<Rightarrow>
               if len = 0 then Some (USBD_FAIL, [Ctl_error], d, h)
               else do { os \<leftarrow> USBD_CtlSendData p (ucast len); Some (USBD_OK, os, d, h) } }
         else if bRequest req = USB_REQ_GET_INTERFACE then
           (if dev_state = USBD_STATE_CONFIGURED then Some (USBD_OK, [Ctl_send [hid_alt_setting h]], d, h) else refused)
         else if bRequest req = USB_REQ_SET_INTERFACE then
           (if dev_state = USBD_STATE_CONFIGURED
            then Some (USBD_OK, [], d, h\<lparr>hid_alt_setting := ucast (wValue req)\<rparr>) else refused)
         else if bRequest req = USB_REQ_CLEAR_FEATURE then Some (USBD_OK, [Ctl_send_status], d, h)
         else refused)
      else if request = (0x20 OR 0x01) then
        (if bRequest req = REQ_SET_PROTOCOL then Some (USBD_OK, [], d, h\<lparr>hid_protocol := ucast (wValue req)\<rparr>)
         else if bRequest req = REQ_GET_PROTOCOL then Some (USBD_OK, [Ctl_send [hid_protocol h]], d, h)
         else if bRequest req = REQ_SET_IDLE then
           Some (USBD_OK, [], d, h\<lparr>hid_idle_state := ucast (drop_bit 8 (wValue req))\<rparr>)
         else if bRequest req = REQ_GET_IDLE then Some (USBD_OK, [Ctl_send [hid_idle_state h]], d, h)
         else refused)
      else refused)"

definition USBD_LEDGER_HID_data_in ::
  "usb_apdu_t \<Rightarrow> u8 \<Rightarrow> (USBD_StatusTypeDef \<times> usb_out list \<times> usb_apdu_t) option" where
  "USBD_LEDGER_HID_data_in h ep_num =
     (if ep_num AND 0x7F = 0 then Some (USBD_OK, [Ctl_receive_status], h)
      else do {
        (failed, _, os, h) \<leftarrow> usb_apdu_data_in LEDGER_HID_EPIN_ADDR h;
        Some (if failed then USBD_FAIL else USBD_OK, os, h) })"

definition USBD_LEDGER_HID_data_out ::
  "usb_apdu_t \<Rightarrow> bytes option \<Rightarrow> u16 \<Rightarrow> (USBD_StatusTypeDef \<times> usb_out list \<times> usb_apdu_t) option" where
  "USBD_LEDGER_HID_data_out h packet packet_length = do {
     (status, os, h) \<leftarrow> usb_apdu_data_out LEDGER_HID_EPOUT_ADDR h packet packet_length;
     Some (if status = None then USBD_FAIL else USBD_OK, os, h) }"

definition USBD_LEDGER_HID_send_packet ::
  "u8 \<Rightarrow> bool \<Rightarrow> usb_apdu_t \<Rightarrow> bytes option \<Rightarrow> u16 \<Rightarrow> u32 \<Rightarrow>
   (USBD_StatusTypeDef \<times> usb_out list \<times> usb_apdu_t) option" where
  "USBD_LEDGER_HID_send_packet = usb_apdu_send_packet LEDGER_HID_EPIN_ADDR"

definition USBD_LEDGER_HID_is_busy :: "usb_apdu_t \<Rightarrow> bool" where
  "USBD_LEDGER_HID_is_busy h = (usb_state h = LEDGER_USB_STATE_BUSY)"

definition USBD_LEDGER_HID_data_ready ::
  "usb_apdu_t \<Rightarrow> bytes option \<Rightarrow> u16 \<Rightarrow> (int \<times> bytes option \<times> usb_apdu_t) option" where
  "USBD_LEDGER_HID_data_ready = usb_apdu_data_ready"

section \<open>The WebUSB class\<close>

definition USBD_LEDGER_WEBUSB_init :: "bytes \<Rightarrow> bytes \<Rightarrow> USBD_StatusTypeDef \<times> usb_out list \<times> usb_apdu_t" where
  "USBD_LEDGER_WEBUSB_init = usb_apdu_init LEDGER_WEBUSB_EPOUT_ADDR OS_IO_PACKET_TYPE_USB_WEBUSB_APDU"

definition USBD_LEDGER_WINUSB_string_descriptor :: bytes where
  "USBD_LEDGER_WINUSB_string_descriptor =
     [0x12, 3, 0x4D, 0, 0x53, 0, 0x46, 0, 0x54, 0, 0x31, 0, 0x30, 0, 0x30, 0,
      0x77, 0]"

definition USBD_LEDGER_WINUSB_compat_id_feature_descriptor :: bytes where
  "USBD_LEDGER_WINUSB_compat_id_feature_descriptor =
     [0x28, 0, 0, 0, 0, 1, 4, 0, 1, 0, 0, 0, 0, 0, 0, 0,
      1, 1, 0x57, 0x49, 0x4E, 0x55, 0x53, 0x42, 0, 0, 0, 0, 0, 0, 0, 0,
      0, 0, 0, 0, 0, 0, 0, 0]"

definition USBD_LEDGER_WINUSB_extended_properties_feature_descriptor :: bytes where
  "USBD_LEDGER_WINUSB_extended_properties_feature_descriptor =
     [0x92, 0, 0, 0, 0, 1, 5, 0, 1, 0, 0x88, 0, 0, 0, 7, 0,
      0, 0, 0x2A, 0, 0x44, 0, 0x65, 0, 0x76, 0, 0x69, 0, 0x63, 0, 0x65, 0,
      0x49, 0, 0x6E, 0, 0x74, 0, 0x65, 0, 0x72, 0, 0x66, 0, 0x61, 0, 0x63, 0,
      0x65, 0, 0x47, 0, 0x55, 0, 0x49, 0, 0x44, 0, 0x73, 0, 0, 0, 0x50, 0,
      0x7B, 0, 0x31, 0, 0x33, 0, 0x64, 0, 0x36, 0, 0x33, 0, 0x34, 0, 0x30, 0,
      0x30, 0, 0x2D, 0, 0x32, 0, 0x43, 0, 0x39, 0, 0x37, 0, 0x2D, 0, 0x30, 0,
      0x30, 0, 0x30, 0, 0x34, 0, 0x2D, 0, 0x30, 0, 0x30, 0, 0x30, 0, 0x30, 0,
      0x2D, 0, 0x34, 0, 0x63, 0, 0x36, 0, 0x35, 0, 0x36, 0, 0x34, 0, 0x36, 0,
      0x37, 0, 0x36, 0, 0x35, 0, 0x37, 0, 0x32, 0, 0x7D, 0, 0, 0, 0, 0]"

definition USBD_LEDGER_WINUSB_ms_os_20_descriptor_set :: bytes where
  "USBD_LEDGER_WINUSB_ms_os_20_descriptor_set =
     [0x0A, 0, 0, 0, 0, 0, 3, 6, 0xB2, 0, 8, 0, 1, 0, 0, 0,
      0xA8, 0, 8, 0, 2, 0, 1, 0, 0xA0, 0, 0x14, 0, 3, 0, 0x57, 0x49,
      0x4E, 0x55, 0x53, 0x42, 0, 0, 0, 0, 0, 0, 0, 0, 0, 0, 0x84, 0,
      4, 0, 7, 0, 0x2A, 0, 0x44, 0, 0x65, 0, 0x76, 0, 0x69, 0, 0x63, 0,
      0x65, 0, 0x49, 0, 0x6E, 0, 0x74, 0, 0x65, 0, 0x72, 0, 0x66, 0, 0x61, 0,
      0x63, 0, 0x65, 0, 0x47, 0, 0x55, 0, 0x49, 0, 0x44, 0, 0x73, 0, 0, 0,
      0x50, 0, 0x7B, 0, 0x43, 0, 0x45, 0, 0x38, 0, 0x30, 0, 0x39, 0, 0x32, 0,
      0x36, 0, 0x34, 0, 0x2D, 0, 0x34, 0, 0x42, 0, 0x32, 0, 0x34, 0, 0x2D, 0,
      0x34, 0, 0x45, 0, 0x38, 0, 0x31, 0, 0x2D, 0, 0x41, 0, 0x38, 0, 0x42, 0,
      0x32, 0, 0x2D, 0, 0x35, 0, 0x37, 0, 0x45, 0, 0x44, 0, 0x30, 0, 0x31, 0,
      0x44, 0, 0x35, 0, 0x38, 0, 0x30, 0, 0x45, 0, 0x31, 0, 0x7D, 0, 0, 0,
      0, 0]"

definition USBD_LEDGER_WEBUSB_de_init :: "usb_apdu_t \<Rightarrow> USBD_StatusTypeDef \<times> usb_apdu_t" where
  "USBD_LEDGER_WEBUSB_de_init h = (USBD_OK, h)"

text \<open>The lengths are the sizes of the arrays; \<open>wLength\<close> is not read.\<close>

definition USBD_LEDGER_WEBUSB_setup ::
  "usb_apdu_t \<Rightarrow> USBD_SetupReqTypedef \<Rightarrow> (USBD_StatusTypeDef \<times> usb_out list \<times> usb_apdu_t) option" where
  "USBD_LEDGER_WEBUSB_setup h req =
     (let answer = (\<lambda>t n. do { os \<leftarrow> USBD_CtlSendData t n; Some (USBD_OK, os, h) }) in
      if bRequest req = USB_REQ_GET_DESCRIPTOR \<and> drop_bit 8 (wValue req) = ucast USB_DESC_TYPE_STRING \<and>
         wValue req AND 0xFF = USBD_IDX_WINUSB_STR then answer USBD_LEDGER_WINUSB_string_descriptor 18
      else if bRequest req = USB_REQ_WINUSB_VENDOR_CODE then
        (if wIndex req = WINUSB_GET_COMPATIBLE_ID_FEATURE then
           answer USBD_LEDGER_WINUSB_compat_id_feature_descriptor 40
         else if wIndex req = WINUSB_GET_EXTENDED_PROPERTIES_OS_FEATURE then
           answer USBD_LEDGER_WINUSB_extended_properties_feature_descriptor 144
         else if wIndex req = MS_OS_20_DESCRIPTOR_INDEX then
           answer USBD_LEDGER_WINUSB_ms_os_20_descriptor_set 178
         else Some (USBD_FAIL, [], h))
      else Some (USBD_FAIL, [], h))"

definition USBD_LEDGER_WEBUSB_data_in ::
  "usb_apdu_t \<Rightarrow> u8 \<Rightarrow> (USBD_StatusTypeDef \<times> usb_out list \<times> usb_apdu_t) option" where
  "USBD_LEDGER_WEBUSB_data_in h ep_num = do {
     (failed, sent, os, h) \<leftarrow> usb_apdu_data_in LEDGER_WEBUSB_EPIN_ADDR h;
     Some (if failed then USBD_FAIL
           else if tx_apdu_buffer (usb_protocol_data h) = None then USBD_OK
           else (case sent of None \<Rightarrow> USBD_FAIL | Some status \<Rightarrow> status), os, h) }"

definition USBD_LEDGER_WEBUSB_data_out ::
  "usb_apdu_t \<Rightarrow> bytes option \<Rightarrow> u16 \<Rightarrow> (USBD_StatusTypeDef \<times> usb_out list \<times> usb_apdu_t) option" where
  "USBD_LEDGER_WEBUSB_data_out h packet packet_length = do {
     (status, os, h) \<leftarrow> usb_apdu_data_out LEDGER_WEBUSB_EPOUT_ADDR h packet packet_length;
     Some (case status of None \<Rightarrow> USBD_FAIL | Some s \<Rightarrow> s, os, h) }"

definition USBD_LEDGER_WEBUSB_send_packet ::
  "u8 \<Rightarrow> bool \<Rightarrow> usb_apdu_t \<Rightarrow> bytes option \<Rightarrow> u16 \<Rightarrow> u32 \<Rightarrow>
   (USBD_StatusTypeDef \<times> usb_out list \<times> usb_apdu_t) option" where
  "USBD_LEDGER_WEBUSB_send_packet = usb_apdu_send_packet LEDGER_WEBUSB_EPIN_ADDR"

definition USBD_LEDGER_WEBUSB_is_busy :: "usb_apdu_t \<Rightarrow> bool" where
  "USBD_LEDGER_WEBUSB_is_busy h = (usb_state h = LEDGER_USB_STATE_BUSY)"

definition USBD_LEDGER_WEBUSB_data_ready ::
  "usb_apdu_t \<Rightarrow> bytes option \<Rightarrow> u16 \<Rightarrow> (int \<times> bytes option \<times> usb_apdu_t) option" where
  "USBD_LEDGER_WEBUSB_data_ready = usb_apdu_data_ready"

section \<open>Runs\<close>

datatype usb_apdu_class = Class_hid | Class_webusb

datatype usb_apdu_event =
    Apdu_data_out bytes
  | Apdu_data_in
  | Apdu_send u8 bool bytes u32
  | Apdu_ready bytes
  | Apdu_setup u8 usbd_desc_t USBD_SetupReqTypedef
  | Apdu_init
  | Apdu_de_init

text \<open>One callback of a class with the outputs it makes; the endpoint of \<open>data_in\<close> is the endpoint of the class.
  \<open>is_busy\<close> changes nothing and is no event.  A reset of the bus or a new configuration calls \<open>de_init\<close> and
  \<open>init\<close> again, on the same buffers.\<close>

definition usb_apdu_step ::
  "usb_apdu_class \<Rightarrow> usb_apdu_event \<Rightarrow> usb_apdu_t \<Rightarrow> (usb_out list \<times> usb_apdu_t) option" where
  "usb_apdu_step c e h =
     (case e of
        Apdu_data_out p \<Rightarrow> map_option snd
          (case c of Class_hid \<Rightarrow> USBD_LEDGER_HID_data_out h (Some p) (of_nat (length p))
           | Class_webusb \<Rightarrow> USBD_LEDGER_WEBUSB_data_out h (Some p) (of_nat (length p)))
      | Apdu_data_in \<Rightarrow> map_option snd
          (case c of Class_hid \<Rightarrow> USBD_LEDGER_HID_data_in h LEDGER_HID_EPIN_ADDR
           | Class_webusb \<Rightarrow> USBD_LEDGER_WEBUSB_data_in h LEDGER_WEBUSB_EPIN_ADDR)
      | Apdu_send dev_state tmo p tm \<Rightarrow> map_option snd
          (case c of Class_hid \<Rightarrow> USBD_LEDGER_HID_send_packet dev_state tmo h (Some p) (of_nat (length p)) tm
           | Class_webusb \<Rightarrow> USBD_LEDGER_WEBUSB_send_packet dev_state tmo h (Some p) (of_nat (length p)) tm)
      | Apdu_ready buf \<Rightarrow> map_option (\<lambda>(_, _, h). ([], h))
          (case c of Class_hid \<Rightarrow> USBD_LEDGER_HID_data_ready h (Some buf) (of_nat (length buf))
           | Class_webusb \<Rightarrow> USBD_LEDGER_WEBUSB_data_ready h (Some buf) (of_nat (length buf)))
      | Apdu_setup dev_state d req \<Rightarrow>
          (case c of
             Class_hid \<Rightarrow> map_option (\<lambda>(_, os, _, h). (os, h)) (USBD_LEDGER_HID_setup dev_state d h req)
           | Class_webusb \<Rightarrow> map_option snd (USBD_LEDGER_WEBUSB_setup h req))
      | Apdu_init \<Rightarrow> Some (snd
          (case c of Class_hid \<Rightarrow> USBD_LEDGER_HID_init (protocol_chunk_buffer h) (io_buffer h)
           | Class_webusb \<Rightarrow> USBD_LEDGER_WEBUSB_init (protocol_chunk_buffer h) (io_buffer h)))
      | Apdu_de_init \<Rightarrow> Some ([], snd
          (case c of Class_hid \<Rightarrow> USBD_LEDGER_HID_de_init h | Class_webusb \<Rightarrow> USBD_LEDGER_WEBUSB_de_init h)))"

end
