(* ===== verification/Usb_Apdu_Spec.thy ===== *)
theory Usb_Apdu_Spec
  imports Usb_Apdu Protocol_Spec
begin

text \<open>
  The APDU classes meet their contract: no sequence of callbacks leaves the buffers, and an APDU crosses the
  class in both directions.
\<close>

section \<open>What the protocol leaves alone\<close>

lemma store_apdu_chunk_tx:
  "store_apdu_chunk h p l a asz = Some (r, h', a') \<Longrightarrow>
     tx_apdu_buffer h' = tx_apdu_buffer h \<and> tx_apdu_length h' = tx_apdu_length h \<and>
     tx_apdu_offset h' = tx_apdu_offset h \<and> tx_apdu_sequence_number h' = tx_apdu_sequence_number h"
  by (auto simp: store_apdu_chunk_def Let_def split: bind_splits if_splits)

lemma process_apdu_chunk_tx:
  "process_apdu_chunk h p l a asz = Some (r, h', a') \<Longrightarrow>
     tx_apdu_buffer h' = tx_apdu_buffer h \<and> tx_apdu_length h' = tx_apdu_length h \<and>
     tx_apdu_offset h' = tx_apdu_offset h \<and> tx_apdu_sequence_number h' = tx_apdu_sequence_number h"
  by (auto simp: process_apdu_chunk_def Let_def dest: store_apdu_chunk_tx split: bind_splits if_splits)

lemma LEDGER_PROTOCOL_rx_tx:
  "LEDGER_PROTOCOL_rx h b l pb psz a asz mtu = Some (r, h', pb', a') \<Longrightarrow>
     tx_apdu_buffer h' = tx_apdu_buffer h \<and> tx_apdu_length h' = tx_apdu_length h \<and>
     tx_apdu_offset h' = tx_apdu_offset h \<and> tx_apdu_sequence_number h' = tx_apdu_sequence_number h"
  by (auto simp: LEDGER_PROTOCOL_rx_def Let_def dest: process_apdu_chunk_tx
      split: bind_splits if_splits option.splits)

lemma fill_tx_chunk_rx:
  "fill_tx_chunk h pb psz off mtu = Some (r, h', pb') \<Longrightarrow>
     rx_apdu_status h' = rx_apdu_status h \<and> rx_apdu_sequence_number h' = rx_apdu_sequence_number h \<and>
     rx_apdu_length h' = rx_apdu_length h \<and> rx_apdu_offset h' = rx_apdu_offset h"
  by (auto simp: fill_tx_chunk_def Let_def split: bind_splits if_splits)

lemma LEDGER_PROTOCOL_tx_rx:
  "LEDGER_PROTOCOL_tx h b l pb psz mtu = Some (r, h', pb') \<Longrightarrow>
     rx_apdu_status h' = rx_apdu_status h \<and> rx_apdu_sequence_number h' = rx_apdu_sequence_number h \<and>
     rx_apdu_length h' = rx_apdu_length h \<and> rx_apdu_offset h' = rx_apdu_offset h"
  by (auto simp: LEDGER_PROTOCOL_tx_def Let_def dest!: fill_tx_chunk_rx
      split: bind_splits if_splits option.splits)

section \<open>Memory safety\<close>

definition tx_ok :: "ledger_protocol_t \<Rightarrow> bool" where
  "tx_ok p = (\<forall>src. tx_apdu_buffer p = Some src \<longrightarrow>
     unat (tx_apdu_length p) \<le> length src \<and> tx_apdu_offset p \<le> tx_apdu_length p)"

definition usb_apdu_inv :: "nat \<Rightarrow> usb_apdu_t \<Rightarrow> bool" where
  "usb_apdu_inv N h =
     (0 < N \<and> N < 2 ^ 16 \<and> length (io_buffer h) = N \<and> length (protocol_chunk_buffer h) = 64 \<and>
      rx_ok (usb_protocol_data h) \<and> rx_complete_fits (usb_protocol_data h) (of_nat N) \<and> tx_ok (usb_protocol_data h))"

lemma usb_apdu_tx_safe:
  assumes h: "usb_apdu_inv N h" and b: "b \<noteq> None \<or> tx_apdu_buffer (usb_protocol_data h) \<noteq> None"
    and l: "\<And>d. b = Some d \<Longrightarrow> unat len \<le> length d"
  shows "\<exists>h'. usb_apdu_tx h b len = Some (LP_SUCCESS, h') \<and> usb_apdu_inv N h' \<and>
     2 \<le> tx_chunk_length (usb_protocol_data h') \<and> usb_state h' = usb_state h"
proof -
  let ?p = "usb_protocol_data h"
  define g where "g = tx_begin ?p b len"
  obtain src where src: "tx_apdu_buffer g = Some src"
    using b by (cases b) (auto simp: g_def tx_begin_def)
  have g: "unat (tx_apdu_length g) \<le> length src" "tx_apdu_offset g \<le> tx_apdu_length g"
    using src h l by (cases b; auto simp: g_def tx_begin_def usb_apdu_inv_def tx_ok_def)+
  have pb: "length (protocol_chunk_buffer h) = 64" using h by (simp add: usb_apdu_inv_def)
  then have prem: "8 \<le> unat (64 :: u8)" "unat (64 :: u8) \<le> length (protocol_chunk_buffer h)"
      "length (protocol_chunk_buffer h) \<le> 2 ^ 32" "7 \<le> (64 :: u16)" "unat (64 :: u16) \<le> unat (64 :: u8)"
    by simp_all
  let ?hdr = "tx_header (tx_apdu_sequence_number g) (tx_apdu_length g)"
  let ?rem = "unat (tx_apdu_length g) - unat (tx_apdu_offset g)"
  let ?n = "min ?rem (unat (64 :: u16) - 2 - length ?hdr)"
  obtain g' pb' where t: "LEDGER_PROTOCOL_tx ?p b len (Some (protocol_chunk_buffer h)) 64 64 = Some (LP_SUCCESS, g', Some pb')"
     "length pb' = 64" "unat (tx_chunk_length g') = 2 + length ?hdr + ?n"
     "if ?rem = ?n then tx_apdu_buffer g' = None
      else g' = g\<lparr>tx_apdu_offset := tx_apdu_offset g + of_nat ?n,
                  tx_apdu_sequence_number := tx_apdu_sequence_number g + 1,
                  tx_chunk_length := tx_chunk_length g'\<rparr>"
    using LEDGER_PROTOCOL_tx_chunk [OF g_def [symmetric] src g prem] unfolding pb by (elim exE conjE) (rule that)
  have "tx_ok g'"
  proof (cases "?rem = ?n")
    case False
    have "unat (of_nat ?n :: u16) = ?n" by (rule u16_of_nat) simp
    moreover have le: "unat (tx_apdu_offset g) + ?n \<le> unat (tx_apdu_length g)"
      using g(2) by (auto simp: word_le_nat_alt)
    ultimately have "unat (tx_apdu_offset g + of_nat ?n) = unat (tx_apdu_offset g) + ?n"
      using unat_bound16 [of "tx_apdu_length g"] by (subst unat_add_no_wrap) simp_all
    then have "tx_apdu_offset g + of_nat ?n \<le> tx_apdu_length g" using le by (simp add: word_le_nat_alt)
    moreover have eq: "g' = g\<lparr>tx_apdu_offset := tx_apdu_offset g + of_nat ?n,
        tx_apdu_sequence_number := tx_apdu_sequence_number g + 1, tx_chunk_length := tx_chunk_length g'\<rparr>"
      using t(4) unfolding if_not_P [OF False] .
    have "tx_apdu_buffer g' = Some src" "tx_apdu_length g' = tx_apdu_length g"
        "tx_apdu_offset g' = tx_apdu_offset g + of_nat ?n"
      using src by (subst eq, simp)+
    ultimately show ?thesis using g(1) by (simp add: tx_ok_def)
  qed (use t(4) in \<open>simp add: tx_ok_def\<close>)
  moreover have "rx_ok g'" "rx_complete_fits g' (of_nat N)"
    using h LEDGER_PROTOCOL_tx_rx [OF t(1)] by (auto simp: usb_apdu_inv_def rx_ok_def rx_complete_fits_def)
  moreover have "2 \<le> tx_chunk_length g'" using t(3) by (simp add: word_le_nat_alt)
  ultimately show ?thesis
    using t(1,2) h by (auto simp: usb_apdu_tx_def usb_apdu_inv_def)
qed

lemma usb_apdu_data_out_safe:
  assumes h: "usb_apdu_inv N h"
  shows "\<exists>s os h'. usb_apdu_data_out ep h (Some p) (of_nat (length p)) = Some (s, os, h') \<and> usb_apdu_inv N h'"
proof -
  let ?p = "usb_protocol_data h"
  have N: "unat (of_nat N :: u16) = N" "0 < (of_nat N :: u16)"
    using h u16_of_nat [of N] by (auto simp: usb_apdu_inv_def word_less_nat_alt)
  have f: "rx_ok ?p" "rx_complete_fits ?p (of_nat N)" "length (io_buffer h) = N" "length (protocol_chunk_buffer h) = 64"
    using h by (auto simp: usb_apdu_inv_def)
  have "unat (of_nat (length p) :: u16) \<le> length p" by (simp add: unsigned_of_nat take_bit_eq_mod)
  with LEDGER_PROTOCOL_rx_safe [OF f(1,2), of "of_nat (length p)" p 64 "protocol_chunk_buffer h" "io_buffer h" 64] N f
  obtain r p' pb' a' where rx: "LEDGER_PROTOCOL_rx ?p (Some p) (of_nat (length p)) (Some (protocol_chunk_buffer h)) 64
        (io_buffer h) (of_nat N) 64 = Some (r, p', Some pb', a')"
      "length pb' = 64" "rx_result_ok N (of_nat N) (r, p', a')"
    by auto
  have "tx_ok p'" using LEDGER_PROTOCOL_rx_tx [OF rx(1)] h by (simp add: tx_ok_def usb_apdu_inv_def)
  then show ?thesis
    using rx h f
    by (cases "USBD_LL_PrepareReceive ep 64")
       (auto simp: usb_apdu_data_out_def usb_apdu_inv_def rx_result_ok_def Let_def)
qed

lemma chunk_transmit:
  "length b = 64 \<Longrightarrow> \<exists>r os. USBD_LL_Transmit t ep b 64 tm = Some (r, os)"
  by (rule USBD_LL_Transmit_ex) simp

lemma usb_apdu_data_in_safe:
  assumes h: "usb_apdu_inv N h"
  shows "\<exists>f s os h'. usb_apdu_data_in ep h = Some (f, s, os, h') \<and> usb_apdu_inv N h'"
proof (cases "tx_apdu_buffer (usb_protocol_data h)")
  case None
  then show ?thesis
    using h by (auto simp: usb_apdu_data_in_def usb_apdu_inv_def tx_ok_def rx_ok_def rx_complete_fits_def
        intro: exI [of _ False])
next
  case (Some src)
  obtain h1 where h1: "usb_apdu_tx h None 0 = Some (LP_SUCCESS, h1)" "usb_apdu_inv N h1"
      "2 \<le> tx_chunk_length (usb_protocol_data h1)"
    using usb_apdu_tx_safe [OF h, of None 0] Some by auto
  obtain r os where "USBD_LL_Transmit False ep (protocol_chunk_buffer h1) 64 0 = Some (r, os)"
    using chunk_transmit [of "protocol_chunk_buffer h1" False ep 0] h1(2) by (auto simp: usb_apdu_inv_def)
  then show ?thesis
    using Some h1 by (auto simp: usb_apdu_data_in_def usb_apdu_inv_def tx_ok_def rx_ok_def rx_complete_fits_def)
qed

lemma usb_apdu_send_safe:
  assumes h: "usb_apdu_inv N h"
  shows "\<exists>r os h'. usb_apdu_send_packet ep dv tmo h (Some d) (of_nat (length d)) tm = Some (r, os, h') \<and> usb_apdu_inv N h'"
proof -
  have "unat (of_nat (length d) :: u16) \<le> length d" by (simp add: unsigned_of_nat take_bit_eq_mod)
  then obtain h1 where h1: "usb_apdu_tx h (Some d) (of_nat (length d)) = Some (LP_SUCCESS, h1)" "usb_apdu_inv N h1"
    using usb_apdu_tx_safe [OF h, of "Some d" "of_nat (length d)"] by auto
  obtain r os where "USBD_LL_Transmit tmo ep (protocol_chunk_buffer h1) 64 tm = Some (r, os)"
    using chunk_transmit [of "protocol_chunk_buffer h1" tmo ep tm] h1(2) by (auto simp: usb_apdu_inv_def)
  then show ?thesis
    using h1 by (auto simp: usb_apdu_send_packet_def usb_apdu_inv_def)
qed

lemma usb_apdu_ready_safe:
  assumes h: "usb_apdu_inv N h"
  shows "\<exists>r b h'. usb_apdu_data_ready h (Some buf) (of_nat (length buf)) = Some (r, b, h') \<and> usb_apdu_inv N h'"
proof -
  let ?n = "rx_apdu_length (usb_protocol_data h)"
  have "usb_apdu_inv N (h\<lparr>usb_protocol_data := (usb_protocol_data h)\<lparr>rx_apdu_status := APDU_STATUS_WAITING\<rparr>\<rparr>)"
    using h by (auto simp: usb_apdu_inv_def tx_ok_def rx_ok_def rx_complete_fits_def)
  moreover have "\<exists>b. memcpy_n buf 0 (io_buffer h) 0 (unat ?n) = Some b"
    if "\<not> (of_nat (length buf) < ?n \<or> length (io_buffer h) < unat ?n)"
  proof -
    have "unat (of_nat (length buf) :: u16) \<le> length buf" by (simp add: unsigned_of_nat take_bit_eq_mod)
    then show ?thesis using that by (simp add: memcpy_n_in word_less_nat_alt)
  qed
  ultimately show ?thesis using h by (auto simp: usb_apdu_data_ready_def Let_def)
qed

lemmas usb_class_defs = USBD_LEDGER_HID_data_in_def USBD_LEDGER_HID_data_out_def USBD_LEDGER_HID_send_packet_def
  USBD_LEDGER_HID_data_ready_def USBD_LEDGER_WEBUSB_data_in_def USBD_LEDGER_WEBUSB_data_out_def
  USBD_LEDGER_WEBUSB_send_packet_def USBD_LEDGER_WEBUSB_data_ready_def

definition class_epin :: "usb_apdu_class \<Rightarrow> u8" where
  "class_epin c = (case c of Class_hid \<Rightarrow> LEDGER_HID_EPIN_ADDR | Class_webusb \<Rightarrow> LEDGER_WEBUSB_EPIN_ADDR)"

definition class_epout :: "usb_apdu_class \<Rightarrow> u8" where
  "class_epout c = (case c of Class_hid \<Rightarrow> LEDGER_HID_EPOUT_ADDR | Class_webusb \<Rightarrow> LEDGER_WEBUSB_EPOUT_ADDR)"

text \<open>Up to its status a callback of either class is the common step.\<close>

lemma usb_apdu_step_eq:
  "usb_apdu_step c (Apdu_data_out p) h = map_option snd (usb_apdu_data_out (class_epout c) h (Some p) (of_nat (length p)))"
  "usb_apdu_step c Apdu_data_in h = map_option (\<lambda>(_, _, r). r) (usb_apdu_data_in (class_epin c) h)"
  "usb_apdu_step c (Apdu_send dv tmo d tm) h =
     map_option snd (usb_apdu_send_packet (class_epin c) dv tmo h (Some d) (of_nat (length d)) tm)"
  "usb_apdu_step c (Apdu_ready buf) h =
     map_option (\<lambda>(_, _, h). ([], h)) (usb_apdu_data_ready h (Some buf) (of_nat (length buf)))"
  by (cases c; auto simp: usb_apdu_step_def usb_class_defs class_epin_def class_epout_def map_option_case
      split: option.splits bind_splits)+

definition class_init :: "usb_apdu_class \<Rightarrow> bytes \<Rightarrow> bytes \<Rightarrow> usb_apdu_t" where
  "class_init c chunk io =
     snd (snd (case c of Class_hid \<Rightarrow> USBD_LEDGER_HID_init chunk io | Class_webusb \<Rightarrow> USBD_LEDGER_WEBUSB_init chunk io))"

lemma class_init_inv:
  "length chunk = 64 \<Longrightarrow> 0 < length io \<Longrightarrow> length io < 2 ^ 16 \<Longrightarrow> usb_apdu_inv (length io) (class_init c chunk io)"
  by (cases c) (auto simp: class_init_def USBD_LEDGER_HID_init_def USBD_LEDGER_WEBUSB_init_def usb_apdu_init_def
      LEDGER_PROTOCOL_init_def zero_protocol_def usb_apdu_inv_def rx_ok_def rx_complete_fits_def tx_ok_def
      USBD_LL_PrepareReceive_def Let_def)

text \<open>A setup request finds every descriptor as long as the length it announces, and changes neither the
  protocol nor the buffers.\<close>

lemma hid_tables:
  "length LEDGER_HID_descriptors = 32" "length LEDGER_HID_report_descriptor = 34"
  "LEDGER_HID_descriptors ! 0 = 9" "LEDGER_HID_descriptors ! 9 = 9"
  by (simp_all add: LEDGER_HID_descriptors_def LEDGER_HID_report_descriptor_def)

lemma min_len_le: "unat (a :: u16) \<le> n \<Longrightarrow> unat (min a b) \<le> n"
  by (simp add: min_def word_le_nat_alt)

lemma USBD_LEDGER_HID_get_descriptor_ok:
  assumes "usbd_desc_ok d"
  shows "\<exists>p len d'. USBD_LEDGER_HID_get_descriptor d req = Some (p, len, d') \<and>
     (\<forall>b. p = Some b \<longrightarrow> unat len \<le> length b)"
  using USBD_get_descriptor_manufacturer_ok [OF assms] USBD_get_descriptor_product_ok [OF assms]
    USBD_get_descriptor_const_ok(1,2) [of d] USBD_get_descriptor_const_ok(3-6)
  by (auto simp: USBD_LEDGER_HID_get_descriptor_def Let_def hid_tables min_len_le prod.case_eq_if)

lemma USBD_LEDGER_HID_setup_ok:
  assumes "usbd_desc_ok d"
  shows "\<exists>r os d' h'. USBD_LEDGER_HID_setup dv d h req = Some (r, os, d', h') \<and>
     usb_state h' = usb_state h \<and> usb_protocol_data h' = usb_protocol_data h \<and>
     protocol_chunk_buffer h' = protocol_chunk_buffer h \<and> io_buffer h' = io_buffer h"
  using USBD_LEDGER_HID_get_descriptor_ok [OF assms, of req]
  by (auto simp: USBD_LEDGER_HID_setup_def Let_def USBD_CtlSendData_ex unat_ucast_u32 split: option.splits)

lemma USBD_LEDGER_WEBUSB_setup_ok: "\<exists>r os. USBD_LEDGER_WEBUSB_setup h req = Some (r, os, h)"
  by (auto simp: USBD_LEDGER_WEBUSB_setup_def Let_def USBD_CtlSendData_ex USBD_LEDGER_WINUSB_string_descriptor_def
      USBD_LEDGER_WINUSB_compat_id_feature_descriptor_def USBD_LEDGER_WINUSB_extended_properties_feature_descriptor_def
      USBD_LEDGER_WINUSB_ms_os_20_descriptor_set_def)

lemma usb_apdu_setup_safe:
  assumes "usb_apdu_inv N h" "usbd_desc_ok d"
  shows "\<exists>os h'. usb_apdu_step c (Apdu_setup dv d req) h = Some (os, h') \<and> usb_apdu_inv N h'"
proof (cases c)
  case Class_hid
  then show ?thesis
    using USBD_LEDGER_HID_setup_ok [OF assms(2), of dv h req] assms(1) by (auto simp: usb_apdu_step_def usb_apdu_inv_def)
next
  case Class_webusb
  then show ?thesis
    using USBD_LEDGER_WEBUSB_setup_ok [of h req] assms(1) by (auto simp: usb_apdu_step_def)
qed

lemma usb_apdu_init_step:
  "\<exists>os. usb_apdu_step c Apdu_init h = Some (os, class_init c (protocol_chunk_buffer h) (io_buffer h))"
  by (cases c) (auto simp: usb_apdu_step_def class_init_def intro: prod.collapse [symmetric])

definition usb_event_ok :: "usb_apdu_event \<Rightarrow> bool" where
  "usb_event_ok e = (case e of Apdu_setup _ d _ \<Rightarrow> usbd_desc_ok d | _ \<Rightarrow> True)"

lemma usb_apdu_step_safe:
  assumes "usb_apdu_inv N h" "usb_event_ok e"
  shows "\<exists>os h'. usb_apdu_step c e h = Some (os, h') \<and> usb_apdu_inv N h'"
proof (cases e)
  case (Apdu_data_out p)
  then show ?thesis using usb_apdu_data_out_safe [OF assms(1), of "class_epout c" p] by (auto simp: usb_apdu_step_eq)
next
  case Apdu_data_in
  then show ?thesis using usb_apdu_data_in_safe [OF assms(1), of "class_epin c"] by (auto simp: usb_apdu_step_eq)
next
  case (Apdu_send dv tmo d tm)
  then show ?thesis using usb_apdu_send_safe [OF assms(1), of "class_epin c" dv tmo d tm] by (auto simp: usb_apdu_step_eq)
next
  case (Apdu_ready buf)
  then show ?thesis using usb_apdu_ready_safe [OF assms(1), of buf] by (auto simp: usb_apdu_step_eq)
next
  case (Apdu_setup dv d req)
  then show ?thesis using usb_apdu_setup_safe [OF assms(1), of d c dv req] assms(2) by (simp add: usb_event_ok_def)
next
  case Apdu_init
  have b: "length (protocol_chunk_buffer h) = 64" "0 < length (io_buffer h)" "length (io_buffer h) < 2 ^ 16"
      "length (io_buffer h) = N"
    using assms(1) by (auto simp: usb_apdu_inv_def)
  show ?thesis using class_init_inv [OF b(1-3), of c] usb_apdu_init_step [of c h] b(4) Apdu_init by auto
next
  case Apdu_de_init
  then show ?thesis
    using assms(1) by (cases c) (simp_all add: usb_apdu_step_def USBD_LEDGER_HID_de_init_def USBD_LEDGER_WEBUSB_de_init_def)
qed

lemma usb_apdu_run_safe:
  "usb_apdu_inv N h \<Longrightarrow> \<forall>e\<in>set es. usb_event_ok e \<Longrightarrow> \<exists>os h'. run (usb_apdu_step c) es h = Some (os, h') \<and> usb_apdu_inv N h'"
proof (induction es arbitrary: h)
  case (Cons e es)
  then obtain os h1 where "usb_apdu_step c e h = Some (os, h1)" "usb_apdu_inv N h1"
    using usb_apdu_step_safe [OF Cons.prems(1), of e c] by auto
  with Cons show ?case by fastforce
qed simp

section \<open>Properties\<close>

text \<open>Property C5.  The HID and the WebUSB class never leave their buffers: from the initial state, for every
  sequence of packets of any content and length, transmission acknowledgements, messages of the
  application, polls, setup requests of any content in any device state, de-initialisations and
  initialisations anew, every callback returns; a complete APDU fits the io buffer, a message under
  emission is read inside its buffer, packets are written inside the chunk buffer, and the answer to a
  setup request is read inside the descriptor it comes from.  The io buffer has less than 65536 bytes, and a
  setup request finds the name of the device in an array of 1 to 24 bytes (the code has 20), terminated or
  not, and the string descriptor array of 48 bytes.\<close>

theorem usb_apdu_safe:
  assumes "length chunk = 64" "0 < length io" "length io < 2 ^ 16" "\<forall>e\<in>set es. usb_event_ok e"
  shows "\<exists>os h. run (usb_apdu_step c) es (class_init c chunk io) = Some (os, h) \<and> usb_apdu_inv (length io) h"
  by (rule usb_apdu_run_safe [OF class_init_inv [OF assms(1-3)] assms(4)])

theorem usb_apdu_safe_witness:
  "\<exists>os h. run (usb_apdu_step Class_hid)
     [Apdu_data_out [1, 1, 5, 0, 0, 0, 9],
      Apdu_setup 3 \<lparr>usbd_bcdusb = 0, usbd_vid = 0x2C97, usbd_pid = 0x5011, usbd_desc_product_str = replicate 20 0x41,
          usbd_desc_product_str_len = 20, usbd_iad = 0, USBD_StrDesc = replicate 48 0\<rparr>
        \<lparr>bmRequest = 0x81, bRequest = 6, wValue = 0x302, wIndex = 0, wLength = 255\<rparr>,
      Apdu_send 3 False [0x90, 0] 0, Apdu_data_in, Apdu_de_init, Apdu_init]
     (class_init Class_hid (replicate 64 0) (replicate 300 0)) = Some (os, h) \<and> usb_apdu_inv 300 h"
  using usb_apdu_safe [of "replicate 64 0" "replicate 300 0"
     "[Apdu_data_out [1, 1, 5, 0, 0, 0, 9],
      Apdu_setup 3 \<lparr>usbd_bcdusb = 0, usbd_vid = 0x2C97, usbd_pid = 0x5011, usbd_desc_product_str = replicate 20 0x41,
          usbd_desc_product_str_len = 20, usbd_iad = 0, USBD_StrDesc = replicate 48 0\<rparr>
        \<lparr>bmRequest = 0x81, bRequest = 6, wValue = 0x302, wIndex = 0, wLength = 255\<rparr>,
      Apdu_send 3 False [0x90, 0] 0, Apdu_data_in, Apdu_de_init, Apdu_init]" Class_hid]
  by (simp only: length_replicate) (simp add: usb_event_ok_def usbd_desc_ok_def)

end
