(* ===== verification/Usb_Apdu_Exchange.thy ===== *)
theory Usb_Apdu_Exchange
  imports Usb_Apdu_Spec
begin

text \<open>
  An APDU crosses the USB classes: the packets that a class hands to the USB processor for a message, and
  the message that a class makes of them.
\<close>

section \<open>Packets\<close>

definition pad64 :: "bytes \<Rightarrow> bytes" where
  "pad64 xs = xs @ replicate (64 - length xs) 0"

text \<open>The room for data in packet number \<open>q\<close>, and the packets of the rest \<open>ds\<close> of an APDU of \<open>n\<close> bytes.\<close>

definition chunk_room :: "nat \<Rightarrow> nat" where
  "chunk_room q = (if (of_nat q :: u16) = 0 then 57 else 59)"

lemma chunk_room: "chunk_room q = 62 - length (tx_header (of_nat q) n)" "0 < chunk_room q" "chunk_room q \<le> 59"
  "2 + length (tx_header (of_nat q) n) + chunk_room q = 64"
  by (auto simp: chunk_room_def length_tx_header)

function apdu_packets :: "bytes \<Rightarrow> u16 \<Rightarrow> nat \<Rightarrow> bytes \<Rightarrow> bytes list" where
  "apdu_packets chan n q ds =
     pad64 (chan @ tx_header (of_nat q) n @ take (chunk_room q) ds) #
     (if length ds \<le> chunk_room q then [] else apdu_packets chan n (Suc q) (drop (chunk_room q) ds))"
  by pat_completeness auto
termination
  by (relation "measure (\<lambda>(chan, n, q, ds). length ds)") (auto simp: chunk_room_def)

declare apdu_packets.simps [simp del]

lemma length_pad64: "length xs \<le> 64 \<Longrightarrow> length (pad64 xs) = 64"
  by (simp add: pad64_def)

section \<open>Emission\<close>

text \<open>The class has \<open>p\<close> bytes of \<open>ds\<close> behind it and goes on with packet \<open>q\<close>.\<close>

definition apdu_pending :: "bytes \<Rightarrow> bytes \<Rightarrow> nat \<Rightarrow> nat \<Rightarrow> ledger_protocol_t \<Rightarrow> bytes \<Rightarrow> bool" where
  "apdu_pending chan ds q p g chunk =
     (tx_apdu_buffer g = Some ds \<and> tx_apdu_length g = of_nat (length ds) \<and> tx_apdu_offset g = of_nat p \<and>
      tx_apdu_sequence_number g = of_nat q \<and> p \<le> length ds \<and> length ds < 2 ^ 16 \<and>
      length chunk = 64 \<and> take 2 chunk = chan)"

lemma usb_apdu_tx_step:
  assumes g: "apdu_pending chan ds q p g (protocol_chunk_buffer h)" "tx_begin (usb_protocol_data h) b len = g"
  shows "\<exists>h'. usb_apdu_tx h b len = Some (LP_SUCCESS, h') \<and> usb_state h' = usb_state h \<and>
     2 \<le> tx_chunk_length (usb_protocol_data h') \<and>
     protocol_chunk_buffer h' = pad64 (chan @ tx_header (of_nat q) (of_nat (length ds)) @ take (chunk_room q) (drop p ds)) \<and>
     (if length ds - p \<le> chunk_room q then tx_apdu_buffer (usb_protocol_data h') = None
      else apdu_pending chan ds (Suc q) (p + chunk_room q) (usb_protocol_data h') (protocol_chunk_buffer h'))"
proof -
  let ?p = "usb_protocol_data h" and ?n = "of_nat (length ds) :: u16"
  let ?pb = "protocol_chunk_buffer h"
  have f: "tx_apdu_buffer g = Some ds" "tx_apdu_length g = ?n" "tx_apdu_offset g = of_nat p"
      "tx_apdu_sequence_number g = of_nat q" "p \<le> length ds" "length ds < 2 ^ 16" "length ?pb = 64" "take 2 ?pb = chan"
    using g(1) by (auto simp: apdu_pending_def)
  have u: "unat ?n = length ds" "unat (of_nat p :: u16) = p" using f(5,6) by (auto intro!: u16_of_nat)
  have le: "unat (tx_apdu_length g) \<le> length ds" "tx_apdu_offset g \<le> tx_apdu_length g"
    using f u by (simp_all add: word_le_nat_alt)
  have prem: "8 \<le> unat (64 :: u8)" "unat (64 :: u8) \<le> length ?pb" "length ?pb \<le> 2 ^ 32" "7 \<le> (64 :: u16)"
      "unat (64 :: u16) \<le> unat (64 :: u8)"
    using f(7) by simp_all
  let ?hdr = "tx_header (of_nat q) ?n"
  define d where "d = min (length ds - p) (chunk_room q)"
  have dm: "min (length ds - p) (unat (64 :: u16) - 2 - length ?hdr) = d"
    by (simp add: d_def chunk_room(1) [where n = ?n])
  obtain g' pb' where t: "LEDGER_PROTOCOL_tx ?p b len (Some ?pb) 64 64 = Some (LP_SUCCESS, g', Some pb')"
     "length pb' = 64" "unat (tx_chunk_length g') = 2 + length ?hdr + d"
     "take (2 + length ?hdr + d) pb' = take 2 ?pb @ ?hdr @ take d (drop p ds)"
     "drop (2 + length ?hdr + d) pb' = replicate (unat (64 :: u8) - (2 + length ?hdr + d)) 0 @ drop (unat (64 :: u8)) ?pb"
     "if length ds - p = d then tx_apdu_buffer g' = None
      else g' = g\<lparr>tx_apdu_offset := of_nat p + of_nat d, tx_apdu_sequence_number := of_nat q + 1,
                  tx_chunk_length := tx_chunk_length g'\<rparr>"
    using LEDGER_PROTOCOL_tx_chunk [OF g(2) f(1) le prem] unfolding f(2-4,7) u dm by (elim exE conjE) (rule that)
  have td: "take d (drop p ds) = take (chunk_room q) (drop p ds)" "length (take d (drop p ds)) = d"
    using f(5) by (auto simp: d_def min_def)
  have pb: "pb' = pad64 (chan @ ?hdr @ take (chunk_room q) (drop p ds))"
  proof -
    have "length chan = 2" using f(7,8) by auto
    then have "length (chan @ ?hdr @ take d (drop p ds)) = 2 + length ?hdr + d" using td(2) by simp
    moreover have "pb' = (chan @ ?hdr @ take d (drop p ds)) @ replicate (64 - (2 + length ?hdr + d)) 0"
      using t(4,5) f(7,8) append_take_drop_id [of "2 + length ?hdr + d" pb'] by simp
    ultimately show ?thesis unfolding pad64_def td(1) by simp
  qed
  have ch: "take 2 pb' = chan" unfolding pb pad64_def using f(7,8) by auto
  have last: "length ds - p = d \<longleftrightarrow> length ds - p \<le> chunk_room q" by (auto simp: d_def)
  have "apdu_pending chan ds (Suc q) (p + chunk_room q) g' pb'" if l: "\<not> length ds - p \<le> chunk_room q"
  proof -
    have d: "d = chunk_room q" using l by (simp add: d_def)
    have eq: "g' = g\<lparr>tx_apdu_offset := of_nat p + of_nat d, tx_apdu_sequence_number := of_nat q + 1,
                  tx_chunk_length := tx_chunk_length g'\<rparr>"
      using t(6) l last by simp
    have "tx_apdu_buffer g' = Some ds" "tx_apdu_length g' = ?n" "tx_apdu_offset g' = of_nat (p + chunk_room q)"
        "tx_apdu_sequence_number g' = of_nat (Suc q)"
      using f(1,2) d by (subst eq, simp)+
    then show ?thesis using l f(6) t(2) ch by (simp add: apdu_pending_def)
  qed
  moreover have "2 \<le> tx_chunk_length g'" using t(3) by (simp add: word_le_nat_alt)
  ultimately show ?thesis
    using t(1,6) last pb by (auto simp: usb_apdu_tx_def)
qed

definition apdu_frame :: "usb_apdu_class \<Rightarrow> bytes \<Rightarrow> usb_out list" where
  "apdu_frame c p = [Seph [0x50, 0, 67, class_epin c, 0x20, 64], Seph p]"

lemma class_transmit:
  "length p = 64 \<Longrightarrow> \<not> (tm \<noteq> 0 \<and> tmo) \<Longrightarrow> USBD_LL_Transmit tmo (class_epin c) p 64 tm = Some (USBD_OK, apdu_frame c p)"
  by (cases c) (auto simp: USBD_LL_Transmit_def class_epin_def apdu_frame_def ld_n_def Let_def drop_bit_eq_div)

definition apdu_idle :: "usb_apdu_t \<Rightarrow> bool" where
  "apdu_idle h = (tx_apdu_buffer (usb_protocol_data h) = None \<and> usb_state h = LEDGER_USB_STATE_IDLE)"

lemma data_in_none:
  assumes "tx_apdu_buffer (usb_protocol_data h) = None"
  shows "\<exists>h'. usb_apdu_step c Apdu_data_in h = Some ([], h') \<and> apdu_idle h'"
  using assms by (simp add: usb_apdu_step_eq usb_apdu_data_in_def apdu_idle_def)

lemma data_in_none_run:
  assumes "tx_apdu_buffer (usb_protocol_data h) = None" "0 < k"
  shows "\<exists>os h'. run (usb_apdu_step c) (replicate k Apdu_data_in) h = Some (os, h') \<and> apdu_idle h' \<and> concat os = []"
  using assms
proof (induction k arbitrary: h)
  case (Suc k)
  obtain h1 where "usb_apdu_step c Apdu_data_in h = Some ([], h1)" "apdu_idle h1"
    using data_in_none [OF Suc.prems(1)] by blast
  then show ?case using Suc.IH [of h1] by (cases "k = 0") (auto simp: apdu_idle_def)
qed simp

lemma data_in_pending:
  assumes "apdu_pending chan ds q p (usb_protocol_data h) (protocol_chunk_buffer h)"
  shows "\<exists>h'. usb_apdu_step c Apdu_data_in h = Some (apdu_frame c
        (pad64 (chan @ tx_header (of_nat q) (of_nat (length ds)) @ take (chunk_room q) (drop p ds))), h') \<and>
     (if length ds - p \<le> chunk_room q then apdu_idle h'
      else apdu_pending chan ds (Suc q) (p + chunk_room q) (usb_protocol_data h') (protocol_chunk_buffer h'))"
proof -
  let ?pk = "pad64 (chan @ tx_header (of_nat q) (of_nat (length ds)) @ take (chunk_room q) (drop p ds))"
  have b: "tx_begin (usb_protocol_data h) None 0 = usb_protocol_data h" by (simp add: tx_begin_def)
  obtain h' where h': "usb_apdu_tx h None 0 = Some (LP_SUCCESS, h')" "2 \<le> tx_chunk_length (usb_protocol_data h')"
     "protocol_chunk_buffer h' = ?pk"
     "if length ds - p \<le> chunk_room q then tx_apdu_buffer (usb_protocol_data h') = None
      else apdu_pending chan ds (Suc q) (p + chunk_room q) (usb_protocol_data h') (protocol_chunk_buffer h')"
    using usb_apdu_tx_step [OF assms b] by blast
  have "length chan = 2" using assms by (auto simp: apdu_pending_def)
  then have "length ?pk = 64"
    by (intro length_pad64) (use chunk_room(4) [of q "of_nat (length ds)"] in auto)
  from class_transmit [OF this, of 0 False c]
  have tr: "USBD_LL_Transmit False (class_epin c) ?pk 64 0 = Some (USBD_OK, apdu_frame c ?pk)" by simp
  have "tx_apdu_buffer (usb_protocol_data h) \<noteq> None" using assms by (auto simp: apdu_pending_def)
  then show ?thesis
    using h' tr by (auto simp: usb_apdu_step_eq usb_apdu_data_in_def apdu_idle_def apdu_pending_def split: if_splits)
qed

lemma data_in_pending_run:
  assumes "apdu_pending chan ds q p (usb_protocol_data h) (protocol_chunk_buffer h)"
    "length (apdu_packets chan (of_nat (length ds)) q (drop p ds)) \<le> k"
  shows "\<exists>os h'. run (usb_apdu_step c) (replicate k Apdu_data_in) h = Some (os, h') \<and> apdu_idle h' \<and>
     concat os = concat (map (apdu_frame c) (apdu_packets chan (of_nat (length ds)) q (drop p ds)))"
  using assms
proof (induction k arbitrary: h p q)
  case 0
  then show ?case by (simp add: apdu_packets.simps)
next
  case (Suc k)
  obtain h1 where h1: "usb_apdu_step c Apdu_data_in h = Some (apdu_frame c
        (pad64 (chan @ tx_header (of_nat q) (of_nat (length ds)) @ take (chunk_room q) (drop p ds))), h1)"
     "if length ds - p \<le> chunk_room q then apdu_idle h1
      else apdu_pending chan ds (Suc q) (p + chunk_room q) (usb_protocol_data h1) (protocol_chunk_buffer h1)"
    using data_in_pending [OF Suc.prems(1)] by blast
  show ?case
  proof (cases "length ds - p \<le> chunk_room q")
    case True
    have "\<exists>os h'. run (usb_apdu_step c) (replicate k Apdu_data_in) h1 = Some (os, h') \<and> apdu_idle h' \<and> concat os = []"
      using data_in_none_run [of h1 k c] h1(2) True by (cases "k = 0") (auto simp: apdu_idle_def)
    then show ?thesis using True h1(1) by (auto simp: apdu_packets.simps [of chan _ q])
  next
    case False
    then obtain os h' where "run (usb_apdu_step c) (replicate k Apdu_data_in) h1 = Some (os, h')" "apdu_idle h'"
        "concat os = concat (map (apdu_frame c) (apdu_packets chan (of_nat (length ds)) (Suc q) (drop (p + chunk_room q) ds)))"
      using Suc.IH [of "Suc q" "p + chunk_room q" h1] h1(2) Suc.prems(2)
      by (auto simp: apdu_packets.simps [of chan _ q] add.commute)
    then show ?thesis using False h1(1) by (auto simp: apdu_packets.simps [of chan _ q] add.commute)
  qed
qed

lemma usb_apdu_send_run:
  assumes s: "usb_apdu_inv M h" "usb_state h = LEDGER_USB_STATE_IDLE" "length ds < 2 ^ 16" "\<not> (tm \<noteq> 0 \<and> tmo)"
    and ps: "ps = apdu_packets (take 2 (protocol_chunk_buffer h)) (of_nat (length ds)) 0 ds" "length ps \<le> k"
  shows "\<exists>os h'. run (usb_apdu_step c) (Apdu_send USBD_STATE_CONFIGURED tmo ds tm # replicate k Apdu_data_in) h =
       Some (os, h') \<and> apdu_idle h' \<and> concat os = concat (map (apdu_frame c) ps)"
proof -
  let ?chan = "take 2 (protocol_chunk_buffer h)" and ?n = "of_nat (length ds) :: u16"
  let ?pk = "pad64 (?chan @ tx_header (of_nat 0) ?n @ take (chunk_room 0) (drop 0 ds))"
  define g where "g = tx_begin (usb_protocol_data h) (Some ds) ?n"
  have l64: "length (protocol_chunk_buffer h) = 64" using s(1) by (simp add: usb_apdu_inv_def)
  have g: "apdu_pending ?chan ds 0 0 g (protocol_chunk_buffer h)"
    using s(3) l64 by (simp add: g_def tx_begin_def apdu_pending_def)
  obtain h1 where h1: "usb_apdu_tx h (Some ds) ?n = Some (LP_SUCCESS, h1)" "usb_state h1 = usb_state h"
     "2 \<le> tx_chunk_length (usb_protocol_data h1)" "protocol_chunk_buffer h1 = ?pk"
     "if length ds - 0 \<le> chunk_room 0 then tx_apdu_buffer (usb_protocol_data h1) = None
      else apdu_pending ?chan ds (Suc 0) (0 + chunk_room 0) (usb_protocol_data h1) (protocol_chunk_buffer h1)"
    using usb_apdu_tx_step [OF g g_def [symmetric]] by blast
  have "length ?pk = 64"
    using l64 by (intro length_pad64) (use chunk_room(4) [of 0 ?n] in auto)
  from class_transmit [OF this s(4), of c]
  have st: "usb_apdu_step c (Apdu_send USBD_STATE_CONFIGURED tmo ds tm) h =
      Some (apdu_frame c ?pk, h1\<lparr>usb_state := LEDGER_USB_STATE_BUSY\<rparr>)"
    using h1(1-4) s(2) by (auto simp: usb_apdu_step_eq usb_apdu_send_packet_def)
  let ?h2 = "h1\<lparr>usb_state := LEDGER_USB_STATE_BUSY\<rparr>"
  show ?thesis
  proof (cases "length ds \<le> chunk_room 0")
    case True
    then have one: "ps = [?pk]" using ps(1) by (simp add: apdu_packets.simps [of _ _ 0])
    then have "0 < k" using ps(2) by simp
    then obtain os h' where "run (usb_apdu_step c) (replicate k Apdu_data_in) ?h2 = Some (os, h')" "apdu_idle h'" "concat os = []"
      using data_in_none_run [of ?h2 k c] h1(5) True by auto
    then show ?thesis using st one by auto
  next
    case False
    then have more: "ps = ?pk # apdu_packets ?chan ?n (Suc 0) (drop (chunk_room 0) ds)"
      using ps(1) by (simp add: apdu_packets.simps [of _ _ 0])
    then obtain os h' where "run (usb_apdu_step c) (replicate k Apdu_data_in) ?h2 = Some (os, h')" "apdu_idle h'"
        "concat os = concat (map (apdu_frame c) (apdu_packets ?chan ?n (Suc 0) (drop (chunk_room 0) ds)))"
      using data_in_pending_run [of ?chan ds "Suc 0" "chunk_room 0" ?h2 k c] h1(5) False ps(2) by auto
    then show ?thesis using st more by auto
  qed
qed

section \<open>Reception\<close>

text \<open>Padding after the last byte of the APDU is not stored.\<close>

lemma store_apdu_chunk_pad:
  assumes "unat (rx_apdu_offset h) + length c = unat (rx_apdu_length h)" "unat asz \<le> length apdu" "length (c @ z) < 60000"
  shows "store_apdu_chunk h (c @ z) (of_nat (length (c @ z))) apdu asz = store_apdu_chunk h c (of_nat (length c)) apdu asz"
proof -
  have le: "rx_apdu_offset h \<le> rx_apdu_length h" using assms(1) by (simp add: word_le_nat_alt)
  have "length (c @ z) < 65536" "length c < 65536" using assms(3) by simp_all
  then have u: "unat (of_nat (length (c @ z)) :: u16) = length (c @ z)" "unat (of_nat (length c) :: u16) = length c"
    by (blast intro: u16_of_nat)+
  have m: "min (length (c @ z)) (unat (rx_apdu_length h) - unat (rx_apdu_offset h)) = length c"
      "min (length c) (unat (rx_apdu_length h) - unat (rx_apdu_offset h)) = length c"
    using assms(1) by auto
  have "take (length c) (c @ z) = take (length c) c" by simp
  then show ?thesis
    using store_apdu_chunk_eq [OF le _ assms(2), of "of_nat (length (c @ z))" "c @ z"]
      store_apdu_chunk_eq [OF le _ assms(2), of "of_nat (length c)" c]
    unfolding u m by simp
qed

lemma process_chunk_pad:
  assumes rx: "rx_has ds n apdu0 rx apdu q p" and c: "c = take d (drop p ds)" "p + d = unat n \<and> d < 60000"
    and n: "unat n \<le> length ds" "n < asz" "unat asz \<le> length apdu0" and z: "length (c @ z) < 60000"
  shows "process_apdu_chunk rx (tl (tx_header q n) @ c @ z) (of_nat (length (tl (tx_header q n) @ c @ z))) apdu asz =
     process_apdu_chunk rx (tl (tx_header q n) @ c) (of_nat (length (tl (tx_header q n) @ c))) apdu asz"
proof -
  have lc: "length c = d" "length c < 60000" using c n(1) by auto
  have asz: "unat asz \<le> length apdu" using rx n(3) by (simp add: rx_has_def)
  show ?thesis
  proof (cases "q = 0")
    case True
    then have r: "rx_apdu_sequence_number rx = 0" "p = 0" using rx by (auto simp: rx_has_def)
    let ?h = "rx\<lparr>rx_apdu_status := APDU_STATUS_NEED_MORE_DATA, rx_apdu_length := n, rx_apdu_offset := 0\<rparr>"
    have "store_apdu_chunk ?h (c @ z) (of_nat (length (c @ z))) (apdu[0 := lp_type rx]) asz =
        store_apdu_chunk ?h c (of_nat (length c)) (apdu[0 := lp_type rx]) asz"
      by (rule store_apdu_chunk_pad) (use r(2) lc(1) c(2) asz z in auto)
    moreover have b: "tl (tx_header q n) @ x = be_bytes 2 (0 :: u16) @ be_bytes 2 n @ x"
        "length (tl (tx_header q n) @ x) = 4 + length x" for x
      using True by (simp_all add: tx_header_def)
    ultimately show ?thesis
      unfolding b using process_first_chunk [OF r(1) n(2) asz z] process_first_chunk [OF r(1) n(2) asz lc(2)] by metis
  next
    case False
    then have r: "rx_apdu_sequence_number rx = q" "rx_apdu_length rx = n" "rx_apdu_offset rx = of_nat p"
      using rx by (auto simp: rx_has_def)
    have p: "unat (of_nat p :: u16) = p" using c(2) unat_bound16 [of n] by (intro u16_of_nat) simp
    have "store_apdu_chunk rx (c @ z) (of_nat (length (c @ z))) apdu asz = store_apdu_chunk rx c (of_nat (length c)) apdu asz"
      by (rule store_apdu_chunk_pad) (use r p lc(1) c(2) asz z in auto)
    moreover have b: "tl (tx_header q n) @ x = be_bytes 2 q @ x" "length (tl (tx_header q n) @ x) = 2 + length x" for x
      using False by (simp_all add: tx_header_def)
    ultimately show ?thesis
      unfolding b using process_next_chunk [OF r(1) False z] process_next_chunk [OF r(1) False lc(2)] by metis
  qed
qed

text \<open>The class holds \<open>p\<close> bytes of \<open>ds\<close> and waits for packet \<open>q\<close>.\<close>

definition apdu_receiving :: "bytes \<Rightarrow> bytes \<Rightarrow> u8 \<Rightarrow> nat \<Rightarrow> nat \<Rightarrow> usb_apdu_t \<Rightarrow> bool" where
  "apdu_receiving ds io0 ty q p h =
     (rx_has ds (of_nat (length ds)) io0 (usb_protocol_data h) (io_buffer h) (of_nat q) p \<and>
      lp_type (usb_protocol_data h) = ty \<and> length (protocol_chunk_buffer h) = 64 \<and>
      length ds < length io0 \<and> length io0 < 2 ^ 16 \<and> p \<le> length ds \<and> 2 * q \<le> p)"

definition apdu_received :: "bytes \<Rightarrow> bytes \<Rightarrow> u8 \<Rightarrow> usb_apdu_t \<Rightarrow> bool" where
  "apdu_received ds io0 ty h =
     (rx_apdu_status (usb_protocol_data h) = APDU_STATUS_COMPLETE \<and>
      unat (rx_apdu_length (usb_protocol_data h)) = Suc (length ds) \<and>
      rx_apdu_sequence_number (usb_protocol_data h) = 0 \<and>
      io_buffer h = ty # ds @ drop (Suc (length ds)) io0)"

lemma pad64_packet:
  assumes "length chan = 2" "hdr = tx_header (of_nat q) n" "length c = d" "d \<le> chunk_room q"
  shows "pad64 (chan @ hdr @ c) = chan @ TAG_APDU # tl hdr @ c @ replicate (chunk_room q - d) 0"
proof -
  have hdr: "hdr = TAG_APDU # tl hdr" unfolding assms(2) by (simp add: tx_header_def)
  have "length (chan @ hdr @ c) = 2 + length hdr + d" using assms(1,3) by simp
  then have "64 - length (chan @ hdr @ c) = chunk_room q - d"
    using chunk_room(4) [of q n] assms(4) unfolding assms(2) [symmetric] by linarith
  then have "pad64 (chan @ hdr @ c) = (chan @ hdr @ c) @ replicate (chunk_room q - d) 0"
    unfolding pad64_def by (rule arg_cong)
  also have "\<dots> = chan @ TAG_APDU # tl hdr @ c @ replicate (chunk_room q - d) 0" by (metis append.assoc append_Cons hdr)
  finally show ?thesis .
qed

lemma process_padded:
  assumes rx: "rx_has ds n io0 rx io (of_nat q) p" and n: "unat n = length ds" "n < asz" "unat asz \<le> length io0"
    and d: "d = min (length ds - p) (chunk_room q)" "p \<le> length ds"
    and b: "b = tl (tx_header (of_nat q) n) @ take d (drop p ds) @ replicate (chunk_room q - d) 0"
  shows "process_apdu_chunk rx b (of_nat (length b)) io asz =
      Some (LP_SUCCESS, rx_after rx (of_nat q) n (p + d), lp_type rx # take (p + d) ds @ drop (Suc (p + d)) io0)"
proof -
  have dd: "p + d \<le> unat n" "d < 60000" "unat n \<le> length ds"
    using n(1) d chunk_room(3) [of q] by auto
  note pc = process_chunk [OF rx refl dd n(2,3)]
  show ?thesis
  proof (cases "d = chunk_room q")
    case False
    then have "p + d = unat n \<and> d < 60000" using d n(1) dd(2) by (auto simp: min_def split: if_splits)
    moreover have "length (take d (drop p ds) @ replicate (chunk_room q - d) 0) < 60000"
      using d chunk_room(3) [of q] by simp
    ultimately show ?thesis
      unfolding b using process_chunk_pad [OF rx refl _ dd(3) n(2,3)] pc by metis
  qed (use pc b in simp)
qed

lemma data_out_packet:
  assumes h: "apdu_receiving ds io0 ty q p h" and "length chan = 2"
    and d: "d = min (length ds - p) (chunk_room q)"
  shows "\<exists>os h'. usb_apdu_step c (Apdu_data_out (pad64 (chan @ tx_header (of_nat q) (of_nat (length ds)) @
        take (chunk_room q) (drop p ds)))) h = Some (os, h') \<and>
     (if length ds - p \<le> chunk_room q then apdu_received ds io0 ty h'
      else apdu_receiving ds io0 ty (Suc q) (p + chunk_room q) h')"
proof -
  let ?n = "of_nat (length ds) :: u16" and ?p = "usb_protocol_data h"
  let ?hdr = "tx_header (of_nat q) ?n" and ?asz = "of_nat (length (io_buffer h)) :: u16"
  let ?c = "take d (drop p ds)"
  let ?z = "replicate (chunk_room q - d) (0 :: u8)"
  have f: "rx_has ds ?n io0 ?p (io_buffer h) (of_nat q) p" "lp_type ?p = ty" "length (protocol_chunk_buffer h) = 64"
      "length ds < length io0" "length io0 < 2 ^ 16" "p \<le> length ds" "2 * q \<le> p" "length (io_buffer h) = length io0"
    using h by (auto simp: apdu_receiving_def rx_has_def)
  have u: "unat ?n = length ds" "unat ?asz = length io0" using f by (auto intro!: u16_of_nat)
  have cl: "?c = take (chunk_room q) (drop p ds)" "length ?c = d" using f(6) d by (auto simp: min_def)
  have dc: "d \<le> chunk_room q" "p + d \<le> length ds" using d f(6) by auto
  let ?body = "tl ?hdr @ ?c @ ?z"
  have lb: "3 + length ?body = 64" "length ?body < 60000"
    using dc(1) cl(2) by (auto simp: length_tx_header chunk_room_def)
  have pkt: "pad64 (chan @ ?hdr @ take (chunk_room q) (drop p ds)) = chan @ TAG_APDU # ?body"
    unfolding cl(1) [symmetric] by (rule pad64_packet [OF assms(2) refl cl(2) dc(1)])
  have "?n < ?asz" "unat ?asz \<le> length io0" using u f(4) by (simp_all add: word_less_nat_alt)
  from process_padded [OF f(1) u(1) this d f(6) refl]
  have pr: "process_apdu_chunk ?p ?body (of_nat (length ?body)) (io_buffer h) ?asz =
      Some (LP_SUCCESS, rx_after ?p (of_nat q) ?n (p + d), ty # take (p + d) ds @ drop (Suc (p + d)) io0)"
    unfolding f(2) .
  obtain rpb' where rpb: "length rpb' = 64"
      "LEDGER_PROTOCOL_rx ?p (Some (chan @ TAG_APDU # ?body)) (of_nat (3 + length ?body)) (Some (protocol_chunk_buffer h)) 64
         (io_buffer h) ?asz 64 = Some (LP_SUCCESS, rx_after ?p (of_nat q) ?n (p + d), Some rpb',
         ty # take (p + d) ds @ drop (Suc (p + d)) io0)"
    using rx_apdu_packet [OF assms(2), of 64 "protocol_chunk_buffer h" ?body ?p "io_buffer h" ?asz 64] pr f(3) lb(2)
    by auto
  let ?h = "h\<lparr>usb_protocol_data := rx_after ?p (of_nat q) ?n (p + d), protocol_chunk_buffer := rpb',
              io_buffer := ty # take (p + d) ds @ drop (Suc (p + d)) io0\<rparr>"
  have lp: "length (chan @ TAG_APDU # ?body) = 3 + length ?body" using assms(2) by simp
  obtain st os where "USBD_LL_PrepareReceive (class_epout c) 64 = (st, os)" by fastforce
  then have step: "usb_apdu_step c (Apdu_data_out (chan @ TAG_APDU # ?body)) h = Some (os, ?h)"
    using rpb(2) unfolding usb_apdu_step_eq usb_apdu_data_out_def lp by simp
  have "if length ds - p \<le> chunk_room q then apdu_received ds io0 ty ?h
      else apdu_receiving ds io0 ty (Suc q) (p + chunk_room q) ?h"
  proof (cases "length ds - p \<le> chunk_room q")
    case True
    then have e: "p + d = length ds" using d f(6) by simp
    have "unat (?n + 1) = Suc (length ds)" using u(1) f(4,5) by (subst unat_add_no_wrap) simp_all
    then show ?thesis using True e u(1) by (simp add: apdu_received_def rx_after_def)
  next
    case False
    then have e: "d = chunk_room q" "p + d < length ds" using d by auto
    have k: "unat (of_nat (Suc q) :: u16) = Suc q"
      using e f(4,5,7) by (intro u16_of_nat) simp
    then have "(of_nat (Suc q) :: u16) \<noteq> 0" "of_nat q + 1 = (of_nat (Suc q) :: u16)" by auto
    then have "rx_has ds ?n io0 (rx_after ?p (of_nat q) ?n (p + d)) (ty # take (p + d) ds @ drop (Suc (p + d)) io0)
        (of_nat (Suc q)) (p + d)"
      using e(2) f(2,4,5,6) u(1) by (auto simp: rx_has_def rx_after_def simp del: of_nat_Suc)
    then show ?thesis
      using False e f rpb(1) chunk_room_def [of q] by (auto simp: apdu_receiving_def rx_after_def simp del: of_nat_Suc)
  qed
  then show ?thesis unfolding pkt using step by blast
qed

lemma data_out_run:
  assumes "apdu_receiving ds io0 ty q p h" "length chan = 2"
  shows "\<exists>os h'. run (usb_apdu_step c) (map Apdu_data_out (apdu_packets chan (of_nat (length ds)) q (drop p ds))) h =
       Some (os, h') \<and> apdu_received ds io0 ty h'"
  using assms(1)
proof (induction "length ds - p" arbitrary: p q h rule: less_induct)
  case less
  obtain os h1 where h1: "usb_apdu_step c (Apdu_data_out (pad64 (chan @ tx_header (of_nat q) (of_nat (length ds)) @
        take (chunk_room q) (drop p ds)))) h = Some (os, h1)"
     "if length ds - p \<le> chunk_room q then apdu_received ds io0 ty h1
      else apdu_receiving ds io0 ty (Suc q) (p + chunk_room q) h1"
    using data_out_packet [OF less.prems assms(2) refl] by blast
  show ?case
  proof (cases "length ds - p \<le> chunk_room q")
    case True
    then show ?thesis using h1 by (simp add: apdu_packets.simps [of chan _ q])
  next
    case False
    then have r: "apdu_receiving ds io0 ty (Suc q) (p + chunk_room q) h1" using h1(2) by simp
    have "length ds - (p + chunk_room q) < length ds - p" using False chunk_room(2) [of q] by simp
    from less.hyps [OF this r] obtain os2 h2 where
      "run (usb_apdu_step c) (map Apdu_data_out (apdu_packets chan (of_nat (length ds)) (Suc q) (drop (p + chunk_room q) ds))) h1 =
         Some (os2, h2)" "apdu_received ds io0 ty h2" by blast
    then show ?thesis using False h1(1) by (simp add: apdu_packets.simps [of chan _ q] add.commute)
  qed
qed

lemma usb_apdu_receive_run:
  assumes "usb_apdu_inv N r" "rx_apdu_sequence_number (usb_protocol_data r) = 0" "length ds < N" "length chan = 2"
  shows "\<exists>os r'. run (usb_apdu_step c) (map Apdu_data_out (apdu_packets chan (of_nat (length ds)) 0 ds)) r = Some (os, r') \<and>
     apdu_received ds (io_buffer r) (lp_type (usb_protocol_data r)) r'"
  using data_out_run [of ds "io_buffer r" "lp_type (usb_protocol_data r)" 0 0 r chan c] assms
  by (auto simp: apdu_receiving_def rx_has_def usb_apdu_inv_def)

lemma usb_apdu_ready_received:
  assumes "apdu_received ds io0 ty h" "length ds < length buf" "length buf < 2 ^ 16"
  shows "\<exists>h'. usb_apdu_data_ready h (Some buf) (of_nat (length buf)) =
     Some (int (length ds) + 1, Some (ty # ds @ drop (Suc (length ds)) buf), h') \<and>
     rx_apdu_status (usb_protocol_data h') = APDU_STATUS_WAITING"
proof -
  let ?n = "rx_apdu_length (usb_protocol_data h)"
  have n: "unat ?n = Suc (length ds)" and io: "io_buffer h = ty # ds @ drop (Suc (length ds)) io0"
    using assms(1) by (auto simp: apdu_received_def)
  have "\<not> of_nat (length buf) < ?n" "\<not> length (io_buffer h) < unat ?n"
    using assms(2,3) n u16_of_nat [of "length buf"] io by (auto simp: word_less_nat_alt)
  moreover have "memcpy_n buf 0 (io_buffer h) 0 (unat ?n) = Some (ty # ds @ drop (Suc (length ds)) buf)"
    using assms(2) n io by (simp add: memcpy_n_in)
  ultimately show ?thesis
    using assms(1) n by (auto simp: usb_apdu_data_ready_def apdu_received_def Let_def)
qed

section \<open>Properties\<close>

text \<open>Property C4.  An APDU sent through one class arrives through another: on an idle, configured class,
  \<open>send_packet\<close> and one transmission acknowledgement per packet hand exactly the padded packets of the
  APDU to the USB processor, in order, and leave the class idle; a class that has no APDU under reception
  and has room for this one, fed with these packets, makes \<open>data_ready\<close> return the APDU behind the type
  byte of the class, with its length, and waits for the next.\<close>

theorem usb_apdu_exchange:
  assumes "usb_apdu_inv M s" "usb_state s = LEDGER_USB_STATE_IDLE" "\<not> (tm \<noteq> 0 \<and> tmo)"
    and "usb_apdu_inv N r" "rx_apdu_sequence_number (usb_protocol_data r) = 0" "length ds < N"
    and "length ds < length buf" "length buf < 2 ^ 16"
    and "ps = apdu_packets (take 2 (protocol_chunk_buffer s)) (of_nat (length ds)) 0 ds" "length ps \<le> k"
  shows "\<exists>os s' os' r' r''.
     run (usb_apdu_step c) (Apdu_send USBD_STATE_CONFIGURED tmo ds tm # replicate k Apdu_data_in) s = Some (os, s') \<and>
     apdu_idle s' \<and> concat os = concat (map (apdu_frame c) ps) \<and>
     run (usb_apdu_step c') (map Apdu_data_out ps) r = Some (os', r') \<and>
     usb_apdu_data_ready r' (Some buf) (of_nat (length buf)) =
       Some (int (length ds) + 1, Some (lp_type (usb_protocol_data r) # ds @ drop (Suc (length ds)) buf), r'') \<and>
     rx_apdu_status (usb_protocol_data r'') = APDU_STATUS_WAITING"
proof -
  have l: "length ds < 2 ^ 16" "length (take 2 (protocol_chunk_buffer s)) = 2"
    using assms(1,7,8) by (simp_all add: usb_apdu_inv_def)
  from usb_apdu_send_run [OF assms(1,2) l(1) assms(3,9,10)] usb_apdu_receive_run [OF assms(4,5,6) l(2), of c']
  show ?thesis
    unfolding assms(9) [symmetric] using usb_apdu_ready_received [OF _ assms(7,8)] by meson
qed

theorem usb_apdu_exchange_witness:
  "\<exists>os s' os' r' r'' ps.
     run (usb_apdu_step Class_webusb)
       (Apdu_send USBD_STATE_CONFIGURED False (replicate 200 7) 0 # replicate (length ps) Apdu_data_in)
       (class_init Class_webusb (replicate 64 1) (replicate 300 0)) = Some (os, s') \<and>
     apdu_idle s' \<and> concat os = concat (map (apdu_frame Class_webusb) ps) \<and>
     run (usb_apdu_step Class_hid) (map Apdu_data_out ps) (class_init Class_hid (replicate 64 0) (replicate 300 0)) =
       Some (os', r') \<and>
     usb_apdu_data_ready r' (Some (replicate 201 0)) (of_nat (length (replicate 201 (0 :: u8)))) =
       Some (201, Some (0x20 # replicate 200 7), r'')"
proof -
  let ?s = "class_init Class_webusb (replicate 64 1) (replicate 300 0)"
  let ?r = "class_init Class_hid (replicate 64 0) (replicate 300 0)"
  have i: "usb_apdu_inv 300 ?s" "usb_apdu_inv 300 ?r"
    using class_init_inv [of "replicate 64 1" "replicate 300 0" Class_webusb]
      class_init_inv [of "replicate 64 0" "replicate 300 0" Class_hid] by simp_all
  have f: "usb_state ?s = LEDGER_USB_STATE_IDLE" "rx_apdu_sequence_number (usb_protocol_data ?r) = 0"
      "lp_type (usb_protocol_data ?r) = 0x20"
    by (simp_all add: class_init_def USBD_LEDGER_HID_init_def USBD_LEDGER_WEBUSB_init_def usb_apdu_init_def
        LEDGER_PROTOCOL_init_def zero_protocol_def USBD_LL_PrepareReceive_def Let_def)
  have l: "\<not> ((0 :: u32) \<noteq> 0 \<and> False)" "length (replicate 200 (7 :: u8)) < 300"
      "length (replicate 200 (7 :: u8)) < length (replicate 201 (0 :: u8))" "length (replicate 201 (0 :: u8)) < 2 ^ 16"
      "replicate 200 (7 :: u8) @ drop (Suc (length (replicate 200 (7 :: u8)))) (replicate 201 0) = replicate 200 7"
      "int (length (replicate 200 (7 :: u8))) + 1 = 201"
    by simp_all
  from usb_apdu_exchange [OF i(1) f(1) l(1) i(2) f(2) l(2,3,4) refl order_refl, of Class_webusb Class_hid]
  show ?thesis unfolding f(3) l(5,6) by blast
qed

end
