(* ===== verification/Spec2Isabelle.thy ===== *)
theory Spec2Isabelle
  imports Buffer Apdu_Parser Linked_Lists_Spec Tlv_Spec Protocol_Spec U2f_Spec Cx_Kdf Mem_Alloc_Spec Base58 App_Storage
    Tlv_Dynamic_Descriptor Tlv_Trusted_Name Tlv_Transaction_Check Ccid_Roundtrip Usb_Apdu_Exchange
begin

text \<open>
  Verification library for the Ledger Secure SDK, the C library on which the applications of the Ledger devices are built.

  \<^bold>\<open>The program.\<close>  Bytes reach an application through a transport: the Ledger protocol (\<^verbatim>\<open>protocol/\<close>) or the U2F transport
  (\<^verbatim>\<open>lib_u2f/\<close>) reassembles packets into one message; a USB host may also drive the device as a smart-card reader (\<^verbatim>\<open>lib_ccid/\<close>).  The
  application framework (\<^verbatim>\<open>lib_standard_app/\<close>) parses the message as
  an APDU, reads fields from it through a buffer with a cursor, formats numbers and addresses for the screen and keeps settings in flash.
  Structured payloads are decoded by the TLV library (\<^verbatim>\<open>lib_tlv/\<close>).  The cryptographic library (\<^verbatim>\<open>lib_cxng/\<close>) hashes and
  authenticates.  \<^verbatim>\<open>lib_alloc/\<close> and \<^verbatim>\<open>lib_lists/\<close> provide dynamic memory and linked lists.

  \<^bold>\<open>Conventions.\<close>  Theory \<open>Prelude\<close>.  C integers are words of their width, or numbers with the wrap-around written out; \<open>size_t\<close>
  has 32 bits.  An object reached through a pointer is the list of its cells; an access outside it is \<^term>\<open>None\<close>, so a theorem
  that a function returns \<^term>\<open>Some\<close> of a value says that it ends and stays inside its objects.  Out-parameters and static
  variables are passed and returned.  A pointer that is compared with \<open>NULL\<close> is an option.  Loops are recursive functions with a
  termination proof; where a loop may not end (list sorting, walking a heap, base 58 division) it is a partial function into
  \<^typ>\<open>'a option\<close> and its end is proved where it holds.  No definition uses fuel.  The contract \<open>refinement\<close> of \<open>Prelude\<close> relates a
  step function to an abstract one over sequences of calls; \<open>allocator\<close> of \<open>Mem_Alloc_Spec\<close> is the contract of a dynamic memory.

  \<^bold>\<open>Theories and sources.\<close>
  \<^item> \<open>Endian\<close>: \<^verbatim>\<open>read.c\<close>, \<^verbatim>\<open>write.c\<close> and the helpers for both byte orders of \<^verbatim>\<open>os_utils.h\<close>; \<open>Varint\<close>: \<^verbatim>\<open>varint.c\<close>; \<open>Bip32\<close>: \<open>bip32_path_read\<close>
    of \<^verbatim>\<open>bip32.c\<close>.  Readers and writers are inverse and touch only their bytes.
  \<^item> \<open>Buffer\<close>: \<^verbatim>\<open>buffer.c\<close>, the record \<open>buffer_t\<close> and one definition for each function.  An inductive relation lists every call; its
    invariant keeps the cursor inside the array, so every accessor stays inside it.  Values written are read back.
  \<^item> \<open>Apdu_Parser\<close>: \<^verbatim>\<open>parser.c\<close>; the parser accepts exactly the buffers that hold one command.
  \<^item> \<open>Linked_Lists\<close>, \<open>Linked_Lists_Spec\<close>: \<^verbatim>\<open>lists.c\<close> over a heap of \<open>next\<close> and \<open>prev\<close> links.  Every call on a well-linked list
    implements the operation on the sequence of its nodes; the sort ends with a total preorder and does not with a strict order and
    two equal nodes.
  \<^item> \<open>Tlv\<close>, \<open>Tlv_Spec\<close>: \<^verbatim>\<open>tlv_library.c\<close> and the parser its macros generate.  The state machine equals a recursive decoder, accepts
    only complete items with known tags, and decodes what the encoding of items writes.
  \<^item> \<open>Protocol\<close>, \<open>Protocol_Spec\<close>: \<^verbatim>\<open>ledger_protocol.c\<close>; \<open>U2f\<close>, \<open>U2f_Spec\<close>: \<^verbatim>\<open>u2f_transport.c\<close>.  The handle is a record; reception and
    emission are functions on it.  Messages cut into packets are reassembled; arbitrary packets are received without an access outside
    the buffers in the states that an inductive relation reaches, with the exception that \<open>u2f_rx_overflow\<close> describes.
  \<^item> \<open>Usb_Ll\<close>: the packets of \<^verbatim>\<open>usbd_conf.c\<close> for the USB processor.  \<open>Usb_Desc\<close>: the device and string descriptors of
    \<^verbatim>\<open>usbd_desc.c\<close> and \<^verbatim>\<open>usbd_ctlreq.c\<close>, which fit their arrays.  \<open>Usb_Apdu\<close>, \<open>Usb_Apdu_Spec\<close>, \<open>Usb_Apdu_Exchange\<close>: the HID and WebUSB
    classes of \<^verbatim>\<open>usbd_ledger_hid.c\<close> and \<^verbatim>\<open>usbd_ledger_webusb.c\<close>, which run the Ledger protocol over 64-byte packets.  A run is any
    sequence of callbacks, setup requests and initialisations included; it stays inside the buffers and the descriptors, and an APDU crosses the classes in both directions.
  \<^item> \<open>Ccid\<close>: \<^verbatim>\<open>ccid_transport.c\<close> and \<^verbatim>\<open>ccid_cmd.c\<close>; \<open>Ccid_Usb\<close>: the class of
    \<^verbatim>\<open>usbd_ledger_ccid.c\<close>, whose callbacks put transport and commands together.  The union of the two message headers is one record,
    and the message to send may be the reception buffer itself.  \<open>Ccid_Spec\<close>: every command is answered as the class specification asks,
    and no sequence of callbacks leaves the buffers when the application sends nothing longer than the reception buffer during a
    reception (\<open>ccid_send_overflow\<close> shows what happens otherwise); \<open>Ccid_Roundtrip\<close>: what the class sends, the class receives.
  \<^item> \<open>Cx_Utils\<close>, \<open>Cx_Stream\<close>, \<open>Cx_Sha256\<close>, \<open>Cx_Sha512\<close>, \<open>Cx_Ripemd160\<close>, \<open>Cx_Sha3\<close>, \<open>Cx_Blake2b\<close>, \<open>Cx_Hash\<close>, \<open>Cx_Hmac\<close>,
    \<open>Cx_Kdf\<close>: the hashes, their dispatch, HMAC, HKDF and PBKDF2 of \<^verbatim>\<open>lib_cxng/src\<close>, and \<^verbatim>\<open>cx_hash_iovec.c\<close>.  \<open>Cx_Stream\<close> holds the
    buffering that the hashes of the Merkle-Damgard kind repeat and its correctness; the hash theories relate the block functions and
    the streaming to FIPS 180-4, RIPEMD-160, FIPS 202 and RFC 7693 written independently of the code; the tables of SHA-2 and
    RIPEMD-160, which the references take from the code, are shown to be the roots of primes and the permutations of the standards.  \<open>Cx_Hash\<close> states the
    contract of hashing in pieces and interprets it on the dispatch for all algorithms; HMAC and the key derivations are compared with
    RFC 2104, RFC 5869 and RFC 2898.
  \<^item> \<open>Ledger_Pki\<close>: \<^verbatim>\<open>ledger_pki.c\<close>, with the certificate store as a parameter.  \<open>Tlv_Client\<close> states the contract between the TLV parser
    and an application as a locale: from a law about one item it derives what the generated parser does with a payload.
    \<open>Tlv_Use_Case\<close>, \<open>Tlv_Dynamic_Descriptor\<close>, \<open>Tlv_Trusted_Name\<close> and \<open>Tlv_Transaction_Check\<close>: the three message formats of
    \<^verbatim>\<open>lib_tlv/use_cases\<close>, each an interpretation of it.  They join the TLV library, the hashes and the signature check: the status is a function of
    the items of the payload, and success means that the PKI verified the signature item on the hash of all other bytes.
  \<^item> \<open>Os_Utils\<close>: helpers of \<^verbatim>\<open>os.c\<close> and the string copy of \<^verbatim>\<open>os_printf.c\<close>, which truncates at a character boundary.
  \<^item> \<open>Mem_Alloc\<close>, \<open>Mem_Alloc_Inv\<close>, \<open>Mem_Alloc_Spec\<close>: \<^verbatim>\<open>mem_alloc.c\<close> and \<^verbatim>\<open>app_mem_utils.c\<close>.  The heap is a memory of header cells with the
    segregated free lists; the invariant is that the chunks tile the heap and that the free lists hold exactly the free chunks.  In
    every reachable heap the calls return without exception, live blocks are disjoint, and allocation, release and resizing change
    only the block they are about.
  \<^item> \<open>Digits\<close>, \<open>Base58\<close>, \<open>Format\<close>: \<^verbatim>\<open>base58.c\<close> and \<^verbatim>\<open>format.c\<close>.  Exact results of all functions in terms of positional notation, and
    the round trip of base 58.
  \<^item> \<open>App_Storage\<close>: \<^verbatim>\<open>app_storage.c\<close> over the byte image in flash, refined to a byte array; the checksum and the flash write are
    parameters.

  \<^bold>\<open>Bounds.\<close>  The hypotheses bound lengths where the code relies on it: messages of a hash stay below the limit of its block counter,
  HKDF outputs below 256 blocks, base 58 inputs below the sizes of the code's local arrays, storage sizes below \<open>2^31\<close> because a
  length is returned as \<open>int32_t\<close>.

  \<^bold>\<open>Not modelled.\<close>  The graphical libraries, the USB enumeration and the dispatch over the classes, the Bluetooth and NFC stacks, the exchange loop, the system-call stubs
  and the parts of \<^verbatim>\<open>lib_cxng\<close> that rest on them (ciphers, big numbers, curves, post-quantum schemes) and the handlers of the address
  book: they are drawing code, drivers, or glue around services outside the repository.  ChaCha20-Poly1305, the formatted output of
  \<^verbatim>\<open>os_printf.c\<close> with \<open>bip32_path_format\<close> and NFC records are self-contained and are the next candidates.
\<close>

end
